(* ===== verification/Prelude.thy ===== *)
theory Prelude
  imports Main "HOL-Library.Word"
begin

text \<open>
  Shared vocabulary of the development: the machine integers of the MIPS R3000 target, the
  outcome type of C functions that may panic or run into undefined behaviour, the error codes of
  \<^verbatim>\<open>include/error.h\<close>, the rounding macros of \<^verbatim>\<open>include/types.h\<close>, the address macros of
  \<^verbatim>\<open>include/mmu.h\<close>, and the word lemmas every component uses.
\<close>

unbundle bit_operations_syntax

section \<open>Machine integers\<close>

type_synonym u8 = "8 word"
type_synonym u16 = "16 word"
type_synonym u32 = "32 word"

section \<open>Outcomes\<close>

text \<open>
  \<open>Ret x\<close>: the C function returned. \<open>Panic m\<close>: it called \<open>panic\<close> (or \<open>user_panic\<close>, or an
  assertion failed) with message \<open>m\<close>; the machine or the process stops. \<open>Fault m\<close>: it ran into
  behaviour C does not define (a NULL pointer, an index out of an array's range).
\<close>

datatype 'a res = Ret 'a | Panic string | Fault string

definition rbind :: "'a res \<Rightarrow> ('a \<Rightarrow> 'b res) \<Rightarrow> 'b res" where
  "rbind m f = (case m of Ret x \<Rightarrow> f x | Panic e \<Rightarrow> Panic e | Fault e \<Rightarrow> Fault e)"

definition rassert :: "bool \<Rightarrow> string \<Rightarrow> 'a res \<Rightarrow> 'a res" where
  "rassert b msg m = (if b then m else Panic msg)"

named_theorems res_simps
named_theorems mmu_defs

lemma rbind_simps [simp, res_simps]:
  "rbind (Ret x) f = f x" "rbind (Panic e) f = Panic e" "rbind (Fault e) f = Fault e"
  by (simp_all add: rbind_def)

lemma rbind_eq_Ret [res_simps]:
  "rbind m f = Ret y \<longleftrightarrow> (\<exists>x. m = Ret x \<and> f x = Ret y)"
  by (cases m) auto

lemma rbind_assoc: "rbind (rbind m f) g = rbind m (\<lambda>x. rbind (f x) g)"
  by (cases m) auto

lemma rbind_RetE [elim]:
  assumes "rbind m f = Ret y"
  obtains x where "m = Ret x" "f x = Ret y"
  using assms by (cases m) auto

lemma rassert_eq_Ret [res_simps]:
  "rassert b msg m = Ret y \<longleftrightarrow> b \<and> m = Ret y"
  by (simp add: rassert_def)

lemma rassert_True [simp]: "rassert True msg m = m"
  by (simp add: rassert_def)

section \<open>Error codes (include/error.h)\<close>

definition E_UNSPECIFIED :: int where [simp]: "E_UNSPECIFIED = 1"
definition E_BAD_ENV :: int where [simp]: "E_BAD_ENV = 2"
definition E_INVAL :: int where [simp]: "E_INVAL = 3"
definition E_NO_MEM :: int where [simp]: "E_NO_MEM = 4"
definition E_NO_SYS :: int where [simp]: "E_NO_SYS = 5"
definition E_NO_FREE_ENV :: int where [simp]: "E_NO_FREE_ENV = 6"
definition E_IPC_NOT_RECV :: int where [simp]: "E_IPC_NOT_RECV = 7"
definition E_NO_DISK :: int where [simp]: "E_NO_DISK = 8"
definition E_MAX_OPEN :: int where [simp]: "E_MAX_OPEN = 9"
definition E_NOT_FOUND :: int where [simp]: "E_NOT_FOUND = 10"
definition E_BAD_PATH :: int where [simp]: "E_BAD_PATH = 11"
definition E_FILE_EXISTS :: int where [simp]: "E_FILE_EXISTS = 12"
definition E_NOT_EXEC :: int where [simp]: "E_NOT_EXEC = 13"

section \<open>Rounding (include/types.h)\<close>

definition ROUND :: "u32 \<Rightarrow> u32 \<Rightarrow> u32" where
  "ROUND a n = (a + n - 1) AND NOT (n - 1)"

definition ROUNDDOWN :: "u32 \<Rightarrow> u32 \<Rightarrow> u32" where
  "ROUNDDOWN a n = a AND NOT (n - 1)"

section \<open>Addresses, page table entries and the memory layout (include/mmu.h)\<close>

definition BY2PG :: u32 where [mmu_defs]: "BY2PG = 4096"
definition PDMAP :: u32 where [mmu_defs]: "PDMAP = 4 * 1024 * 1024"

definition PDX :: "u32 \<Rightarrow> u32" where [mmu_defs]: "PDX va = drop_bit 22 va AND 0x3FF"
definition PTX :: "u32 \<Rightarrow> u32" where [mmu_defs]: "PTX va = drop_bit 12 va AND 0x3FF"
definition PTE_ADDR :: "u32 \<Rightarrow> u32" where [mmu_defs]: "PTE_ADDR pte = pte AND NOT 0xFFF"
definition PPN :: "u32 \<Rightarrow> u32" where [mmu_defs]: "PPN va = drop_bit 12 va"
definition VPN :: "u32 \<Rightarrow> u32" where [mmu_defs]: "VPN va = drop_bit 12 va"

definition PTE_G :: u32 where [mmu_defs]: "PTE_G = 0x0100"
definition PTE_V :: u32 where [mmu_defs]: "PTE_V = 0x0200"
definition PTE_D :: u32 where [mmu_defs]: "PTE_D = 0x0400"
definition PTE_N :: u32 where [mmu_defs]: "PTE_N = 0x0800"
definition PTE_COW :: u32 where [mmu_defs]: "PTE_COW = 0x0001"
definition PTE_LIBRARY :: u32 where [mmu_defs]: "PTE_LIBRARY = 0x0004"

definition KSEG1 :: u32 where [mmu_defs]: "KSEG1 = 0xA0000000"
definition ULIM :: u32 where [mmu_defs]: "ULIM = 0x80000000"
definition UVPT :: u32 where [mmu_defs]: "UVPT = ULIM - PDMAP"
definition UPAGES :: u32 where [mmu_defs]: "UPAGES = UVPT - PDMAP"
definition UENVS :: u32 where [mmu_defs]: "UENVS = UPAGES - PDMAP"
definition UTOP :: u32 where [mmu_defs]: "UTOP = UENVS"
definition UXSTACKTOP :: u32 where [mmu_defs]: "UXSTACKTOP = UTOP"
definition USTACKTOP :: u32 where [mmu_defs]: "USTACKTOP = UTOP - 2 * BY2PG"
definition UTEXT :: u32 where [mmu_defs]: "UTEXT = PDMAP"
definition UCOW :: u32 where [mmu_defs]: "UCOW = UTEXT - BY2PG"
definition UTEMP :: u32 where [mmu_defs]: "UTEMP = UCOW - BY2PG"

definition PADDR :: "u32 \<Rightarrow> u32 res" where
  "PADDR kva = (if kva < ULIM then Panic ''PADDR called with invalid kva'' else Ret (kva - ULIM))"

text \<open>\<open>npage\<close> is the global of \<^verbatim>\<open>kern/pmap.c\<close>, here a count of pages.\<close>

definition KADDR :: "nat \<Rightarrow> u32 \<Rightarrow> u32 res" where
  "KADDR np pa = (if np \<le> unat (PPN pa) then Panic ''KADDR called with invalid pa''
     else Ret (pa + ULIM))"

definition TRUP :: "u32 \<Rightarrow> u32" where
  "TRUP p = (if ULIM < p then ULIM else p)"

definition pte_valid :: "u32 \<Rightarrow> bool" where
  "pte_valid w = (w AND PTE_V \<noteq> 0)"

section \<open>Word lemmas\<close>

lemma mask10: "(0x3FF :: u32) = mask 10" by (simp add: mask_eq_exp_minus_1)

lemma mask12: "(0xFFF :: u32) = mask 12" by (simp add: mask_eq_exp_minus_1)

lemma unat_lt32: "unat (va::u32) < 4294967296" using unsigned_less[of va, where ?'a = nat] by simp

lemma unat_PPN: "unat (PPN va) = unat va div 4096"
  by (simp add: PPN_def drop_bit_eq_div unat_div)

lemma unat_VPN: "unat (VPN va) = unat va div 4096"
  by (simp add: VPN_def drop_bit_eq_div unat_div)

lemma unat_PTX: "unat (PTX va) = unat va div 4096 mod 1024"
  unfolding PTX_def mask10 
  by (simp flip: take_bit_eq_mask add: unat_div unat_mod drop_bit_eq_div take_bit_eq_mod)

lemma unat_PDX: "unat (PDX va) = unat va div 4194304"
proof -
  have "unat (PDX va) = unat va div 4194304 mod 1024"
    unfolding PDX_def mask10 
    by (simp flip: take_bit_eq_mask add: unat_div unat_mod drop_bit_eq_div take_bit_eq_mod)
  moreover have "unat va div 4194304 < 1024" using unat_lt32[of va] by simp
  ultimately show ?thesis by simp
qed

lemma unat_PDX_lt [simp]: "unat (PDX va) < 1024"
  using unat_lt32[of va] by (simp add: unat_PDX)

lemma unat_PTX_lt [simp]: "unat (PTX va) < 1024"
  by (simp add: unat_PTX)

lemma PDX_PTX_eq_iff:
  "(unat (PDX va) = unat (PDX va') \<and> unat (PTX va) = unat (PTX va')) = (VPN va = VPN va')"
  proof -
  have e: "(a div 4194304 = b div 4194304 \<and> a div 4096 mod 1024 = b div 4096 mod 1024) =
      (a div 4096 = b div 4096)" for a b :: nat
  proof -
    have "x div 4194304 = x div 4096 div 1024" for x :: nat by (simp add: div_mult2_eq[symmetric])
    then show ?thesis by (metis div_mult_mod_eq)
  qed
  show ?thesis
    unfolding word_unat_eq_iff[of "VPN va"] unat_VPN unat_PDX unat_PTX by (rule e)
qed

lemma PPN_or: "PPN (a OR b) = PPN a OR PPN b"
  by (simp add: PPN_def)

lemma PPN_PTE_ADDR [simp]: "PPN (PTE_ADDR w) = PPN w"
  unfolding PPN_def PTE_ADDR_def mask12 by (rule bit_word_eqI) (auto simp: bit_simps dest: bit_imp_le_length)

lemma PPN_small: "w < 4096 \<Longrightarrow> PPN w = 0"
  by (simp add: word_unat_eq_iff unat_PPN word_less_nat_alt)

lemma PPN_flags [simp]: "PPN PTE_V = 0" "PPN PTE_D = 0" "PPN PTE_G = 0" "PPN PTE_COW = 0" "PPN PTE_LIBRARY = 0"
  by (simp_all add: PPN_small PTE_V_def PTE_D_def PTE_G_def PTE_COW_def PTE_LIBRARY_def)

lemma pte_valid_or [simp]: "pte_valid (a OR b) = (pte_valid a \<or> pte_valid b)"
  by (simp add: pte_valid_def bit.conj_disj_distrib2 or_eq_0_iff)

lemma pte_valid_flags [simp]: "pte_valid PTE_V" "\<not> pte_valid PTE_D" "\<not> pte_valid 0"
  by (simp_all add: pte_valid_def PTE_V_def PTE_D_def)

lemma PTE_ADDR_or: "PTE_ADDR (a OR b) = PTE_ADDR a OR PTE_ADDR b"
  by (simp add: PTE_ADDR_def bit.conj_disj_distrib2)

lemma PTE_ADDR_small: "w < 4096 \<Longrightarrow> PTE_ADDR w = 0"
  unfolding PTE_ADDR_def mask12 
proof -
  assume "w < 4096"
  then have "w = w AND mask 12"
     by (simp flip: take_bit_eq_mask add: word_unat_eq_iff unat_mod take_bit_eq_mod word_less_nat_alt)
  then show "w AND NOT (mask 12) = 0" by (metis bit.conj_cancel_right bit.conj_zero_right word_bw_assocs(1))
qed

lemma PDX_UTOP: "va < UTOP \<Longrightarrow> unat (PDX va) < 509"
  by (simp add: unat_PDX UTOP_def UENVS_def UPAGES_def UVPT_def ULIM_def PDMAP_def word_less_nat_alt)

lemma sint32: "sint (a :: u32) = (if uint a < 2 ^ 31 then uint a else uint a - 2 ^ 32)"
proof -
  have b: "0 \<le> uint a" "uint a < 2 ^ 32" using uint_ge_0[of a] unsigned_less[of a, where ?'a = int] by simp_all
  then have t: "take_bit 32 (uint a) = uint a" by (simp add: take_bit_eq_mod)
  have "bit (uint a) 31 = odd (uint a div 2 ^ 31)" by (simp add: bit_iff_odd)
  moreover have "uint a div 2 ^ 31 = (if uint a < 2 ^ 31 then 0 else 1)" using b by (auto simp: div_eq_dividend_iff)
  ultimately show ?thesis
    by (simp add: sint_uint signed_take_bit_eq_take_bit_minus t)
qed

end
