(* ===== verification/Queue.thy ===== *)
theory Queue
  imports Prelude
begin

text \<open>
  The linked lists of \<^verbatim>\<open>include/queue.h\<close>, at the level of their pointers. The link fields of the
  elements (\<open>le_next\<close>, \<open>le_prev\<close>, \<open>tqe_next\<close>, \<open>tqe_prev\<close>) are functions from elements
  (a split heap), and a value of type \<open>struct type **\<close> is the address of a head's first pointer,
  the address of an element's next pointer, or NULL. Each macro is one definition that performs
  the macro's assignments in their order. The lemmas show that on a well-formed list the macros
  are the operations of a finite sequence; the interfaces used by the clients are the locales
  \<open>free_list\<close> and \<open>tail_queue\<close>.
\<close>

section \<open>Data\<close>

datatype 'a slot = SNull | SHead | SNext 'a

record 'a llist =
  lh_first :: "'a option"
  le_next :: "'a \<Rightarrow> 'a option"
  le_prev :: "'a \<Rightarrow> 'a slot"

record 'a tailq =
  tqh_first :: "'a option"
  tqh_last :: "'a slot"
  tqe_next :: "'a \<Rightarrow> 'a option"
  tqe_prev :: "'a \<Rightarrow> 'a slot"

section \<open>LIST macros\<close>

definition LIST_EMPTY :: "('a, 'b) llist_scheme \<Rightarrow> bool" where
  "LIST_EMPTY q = (lh_first q = None)"

definition LIST_FIRST :: "('a, 'b) llist_scheme \<Rightarrow> 'a option" where
  "LIST_FIRST q = lh_first q"

definition LIST_NEXT :: "('a, 'b) llist_scheme \<Rightarrow> 'a \<Rightarrow> 'a option" where
  "LIST_NEXT q x = le_next q x"

definition LIST_INIT :: "('a, 'b) llist_scheme \<Rightarrow> ('a, 'b) llist_scheme" where
  "LIST_INIT q = q\<lparr>lh_first := None\<rparr>"

text \<open>The assignment \<open>*p = v\<close> through a \<open>le_prev\<close> pointer.\<close>

definition list_store :: "'a slot \<Rightarrow> 'a option \<Rightarrow> ('a, 'b) llist_scheme \<Rightarrow> ('a, 'b) llist_scheme res" where
  "list_store p v q = (case p of
      SNull \<Rightarrow> Fault ''store through NULL''
    | SHead \<Rightarrow> Ret (q\<lparr>lh_first := v\<rparr>)
    | SNext y \<Rightarrow> Ret (q\<lparr>le_next := (le_next q)(y := v)\<rparr>))"

definition LIST_INSERT_AFTER :: "'a \<Rightarrow> 'a \<Rightarrow> ('a, 'b) llist_scheme \<Rightarrow> ('a, 'b) llist_scheme" where
  "LIST_INSERT_AFTER listelm elm q =
     (let q = q\<lparr>le_next := (le_next q)(elm := LIST_NEXT q listelm)\<rparr>;
          q = (case LIST_NEXT q elm of None \<Rightarrow> q
               | Some _ \<Rightarrow> (case LIST_NEXT q listelm of None \<Rightarrow> q
                 | Some n \<Rightarrow> q\<lparr>le_prev := (le_prev q)(n := SNext elm)\<rparr>));
          q = q\<lparr>le_next := (le_next q)(listelm := Some elm)\<rparr>
      in q\<lparr>le_prev := (le_prev q)(elm := SNext listelm)\<rparr>)"

definition LIST_INSERT_BEFORE :: "'a \<Rightarrow> 'a \<Rightarrow> ('a, 'b) llist_scheme \<Rightarrow> ('a, 'b) llist_scheme res" where
  "LIST_INSERT_BEFORE listelm elm q =
     (let q = q\<lparr>le_prev := (le_prev q)(elm := le_prev q listelm)\<rparr>;
          q = q\<lparr>le_next := (le_next q)(elm := Some listelm)\<rparr>
      in rbind (list_store (le_prev q listelm) (Some elm) q) (\<lambda>q.
         Ret (q\<lparr>le_prev := (le_prev q)(listelm := SNext elm)\<rparr>)))"

definition LIST_INSERT_HEAD :: "'a \<Rightarrow> ('a, 'b) llist_scheme \<Rightarrow> ('a, 'b) llist_scheme" where
  "LIST_INSERT_HEAD elm q =
     (let q = q\<lparr>le_next := (le_next q)(elm := LIST_FIRST q)\<rparr>;
          q = (case LIST_FIRST q of None \<Rightarrow> q
               | Some f \<Rightarrow> q\<lparr>le_prev := (le_prev q)(f := SNext elm)\<rparr>);
          q = q\<lparr>lh_first := Some elm\<rparr>
      in q\<lparr>le_prev := (le_prev q)(elm := SHead)\<rparr>)"

definition LIST_REMOVE :: "'a \<Rightarrow> ('a, 'b) llist_scheme \<Rightarrow> ('a, 'b) llist_scheme res" where
  "LIST_REMOVE elm q =
     (let q = (case LIST_NEXT q elm of None \<Rightarrow> q
               | Some n \<Rightarrow> q\<lparr>le_prev := (le_prev q)(n := le_prev q elm)\<rparr>)
      in list_store (le_prev q elm) (LIST_NEXT q elm) q)"

section \<open>TAILQ macros\<close>

definition TAILQ_EMPTY :: "('a, 'b) tailq_scheme \<Rightarrow> bool" where
  "TAILQ_EMPTY q = (tqh_first q = None)"

definition TAILQ_FIRST :: "('a, 'b) tailq_scheme \<Rightarrow> 'a option" where
  "TAILQ_FIRST q = tqh_first q"

definition TAILQ_NEXT :: "('a, 'b) tailq_scheme \<Rightarrow> 'a \<Rightarrow> 'a option" where
  "TAILQ_NEXT q x = tqe_next q x"

definition TAILQ_INIT :: "('a, 'b) tailq_scheme \<Rightarrow> ('a, 'b) tailq_scheme" where
  "TAILQ_INIT q = q\<lparr>tqh_first := None, tqh_last := SHead\<rparr>"

definition tailq_store :: "'a slot \<Rightarrow> 'a option \<Rightarrow> ('a, 'b) tailq_scheme \<Rightarrow> ('a, 'b) tailq_scheme res" where
  "tailq_store p v q = (case p of
      SNull \<Rightarrow> Fault ''store through NULL''
    | SHead \<Rightarrow> Ret (q\<lparr>tqh_first := v\<rparr>)
    | SNext y \<Rightarrow> Ret (q\<lparr>tqe_next := (tqe_next q)(y := v)\<rparr>))"

definition TAILQ_INSERT_HEAD :: "'a \<Rightarrow> ('a, 'b) tailq_scheme \<Rightarrow> ('a, 'b) tailq_scheme" where
  "TAILQ_INSERT_HEAD elm q =
     (let q = q\<lparr>tqe_next := (tqe_next q)(elm := tqh_first q)\<rparr>;
          q = (case tqh_first q of None \<Rightarrow> q\<lparr>tqh_last := SNext elm\<rparr>
               | Some f \<Rightarrow> q\<lparr>tqe_prev := (tqe_prev q)(f := SNext elm)\<rparr>);
          q = q\<lparr>tqh_first := Some elm\<rparr>
      in q\<lparr>tqe_prev := (tqe_prev q)(elm := SHead)\<rparr>)"

definition TAILQ_INSERT_TAIL :: "'a \<Rightarrow> ('a, 'b) tailq_scheme \<Rightarrow> ('a, 'b) tailq_scheme res" where
  "TAILQ_INSERT_TAIL elm q =
     (let q = q\<lparr>tqe_next := (tqe_next q)(elm := None)\<rparr>;
          q = q\<lparr>tqe_prev := (tqe_prev q)(elm := tqh_last q)\<rparr>
      in rbind (tailq_store (tqh_last q) (Some elm) q) (\<lambda>q.
         Ret (q\<lparr>tqh_last := SNext elm\<rparr>)))"

definition TAILQ_INSERT_AFTER :: "'a \<Rightarrow> 'a \<Rightarrow> ('a, 'b) tailq_scheme \<Rightarrow> ('a, 'b) tailq_scheme" where
  "TAILQ_INSERT_AFTER listelm elm q =
     (let q = q\<lparr>tqe_next := (tqe_next q)(elm := tqe_next q listelm)\<rparr>;
          q = (case tqe_next q elm of None \<Rightarrow> q\<lparr>tqh_last := SNext elm\<rparr>
               | Some n \<Rightarrow> q\<lparr>tqe_prev := (tqe_prev q)(n := SNext elm)\<rparr>);
          q = q\<lparr>tqe_next := (tqe_next q)(listelm := Some elm)\<rparr>
      in q\<lparr>tqe_prev := (tqe_prev q)(elm := SNext listelm)\<rparr>)"

definition TAILQ_INSERT_BEFORE :: "'a \<Rightarrow> 'a \<Rightarrow> ('a, 'b) tailq_scheme \<Rightarrow> ('a, 'b) tailq_scheme res" where
  "TAILQ_INSERT_BEFORE listelm elm q =
     (let q = q\<lparr>tqe_prev := (tqe_prev q)(elm := tqe_prev q listelm)\<rparr>;
          q = q\<lparr>tqe_next := (tqe_next q)(elm := Some listelm)\<rparr>
      in rbind (tailq_store (tqe_prev q listelm) (Some elm) q) (\<lambda>q.
         Ret (q\<lparr>tqe_prev := (tqe_prev q)(listelm := SNext elm)\<rparr>)))"

definition TAILQ_REMOVE :: "'a \<Rightarrow> ('a, 'b) tailq_scheme \<Rightarrow> ('a, 'b) tailq_scheme res" where
  "TAILQ_REMOVE elm q =
     (let q = (case tqe_next q elm of None \<Rightarrow> q\<lparr>tqh_last := tqe_prev q elm\<rparr>
               | Some n \<Rightarrow> q\<lparr>tqe_prev := (tqe_prev q)(n := tqe_prev q elm)\<rparr>)
      in tailq_store (tqe_prev q elm) (tqe_next q elm) q)"

section \<open>Representation of sequences\<close>

text \<open>
  \<open>lpath nx pv p f xs q g\<close>: starting from the pointer stored at slot \<open>p\<close>, whose value is \<open>f\<close>,
  the next pointers visit the elements \<open>xs\<close>, each of which points back at the slot it was reached
  through; the last slot is \<open>q\<close> and holds \<open>g\<close>.
\<close>

fun lpath :: "('a \<Rightarrow> 'a option) \<Rightarrow> ('a \<Rightarrow> 'a slot) \<Rightarrow> 'a slot \<Rightarrow> 'a option \<Rightarrow> 'a list \<Rightarrow>
    'a slot \<Rightarrow> 'a option \<Rightarrow> bool" where
  "lpath nx pv p f [] q g = (q = p \<and> g = f)"
| "lpath nx pv p f (x # xs) q g = (f = Some x \<and> pv x = p \<and> lpath nx pv (SNext x) (nx x) xs q g)"

definition list_rep :: "('a, 'b) llist_scheme \<Rightarrow> 'a list \<Rightarrow> bool" where
  "list_rep q xs \<longleftrightarrow> distinct xs \<and>
     lpath (le_next q) (le_prev q) SHead (lh_first q) xs
       (if xs = [] then SHead else SNext (last xs)) None"

definition tailq_rep :: "('a, 'b) tailq_scheme \<Rightarrow> 'a list \<Rightarrow> bool" where
  "tailq_rep q xs \<longleftrightarrow> distinct xs \<and>
     lpath (tqe_next q) (tqe_prev q) SHead (tqh_first q) xs (tqh_last q) None"

section \<open>Path lemmas\<close>

lemma lpath_append:
  "lpath nx pv p f (xs @ ys) q g \<longleftrightarrow> (\<exists>r h. lpath nx pv p f xs r h \<and> lpath nx pv r h ys q g)"
  by (induction xs arbitrary: p f) auto

lemma lpath_end:
  "lpath nx pv p f xs q g \<Longrightarrow> q = (if xs = [] then p else SNext (last xs))"
  by (induction xs arbitrary: p f) auto

lemma lpath_upd_next [simp]:
  "y \<notin> set xs \<Longrightarrow> lpath (nx(y := v)) pv p f xs q g = lpath nx pv p f xs q g"
  by (induction xs arbitrary: p f) auto

lemma lpath_upd_prev [simp]:
  "y \<notin> set xs \<Longrightarrow> lpath nx (pv(y := v)) p f xs q g = lpath nx pv p f xs q g"
  by (induction xs arbitrary: p f) auto

lemma lpath_unique:
  "lpath nx pv p f xs q None \<Longrightarrow> lpath nx pv p f ys r None \<Longrightarrow> xs = ys"
proof (induction xs arbitrary: p f ys)
  case Nil
  then show ?case by (cases ys) auto
next
  case (Cons x xs)
  then show ?case by (cases ys) auto
qed

text \<open>Storing into the last slot of a path.\<close>

lemma lpath_store_head:
  "lpath nx pv SHead f xs SHead g \<Longrightarrow> xs = []"
  by (drule lpath_end) (auto split: if_splits)

lemma lpath_store_next:
  assumes "lpath nx pv p f xs (SNext y) g" "p \<noteq> SNext y" "distinct xs"
  shows "lpath (nx(y := v)) pv p f xs (SNext y) v \<and> y \<in> set xs"
  using assms
proof (induction xs arbitrary: p f)
  case Nil
  then show ?case by simp
next
  case (Cons x xs)
  show ?case
  proof (cases "x = y")
    case True
    with Cons.prems have "xs = []"
      by (auto dest: lpath_end split: if_splits)
    with True Cons.prems show ?thesis by auto
  next
    case False
    with Cons show ?thesis by auto
  qed
qed

lemma lpath_relink_prev:
  assumes "lpath nx pv p f (y # ys) q g" "y \<notin> set ys"
  shows "lpath nx (pv(y := r)) r f (y # ys) q g"
  using assms by auto

text \<open>
  Removing \<open>x\<close> between \<open>xs\<close> and \<open>ys\<close>: the slot \<open>r\<close> that held \<open>x\<close> now holds its successor,
  and the successor points back at \<open>r\<close>.
\<close>

lemma lpath_bypass:
  assumes path: "lpath nx pv SHead f (xs @ x # ys) q None" and dist: "distinct (xs @ x # ys)"
  defines "pv' \<equiv> (case nx x of None \<Rightarrow> pv | Some n \<Rightarrow> pv(n := pv x))"
  shows "pv x = SHead \<Longrightarrow> xs = [] \<and>
           lpath nx pv' SHead (nx x) ys (if ys = [] then pv x else q) None"
    and "pv x = SNext y \<Longrightarrow> xs \<noteq> [] \<and> y \<noteq> x \<and>
           lpath (nx(y := nx x)) pv' SHead f (xs @ ys) (if ys = [] then pv x else q) None"
    and "pv x \<noteq> SNull" and "pv' x = pv x" and "(nx x = None) = (ys = [])"
proof -
  from path obtain r where xs: "lpath nx pv SHead f xs r (Some x)" and r: "pv x = r"
    and ys: "lpath nx pv (SNext x) (nx x) ys q None"
    by (auto simp: lpath_append)
  have r': "r = (if xs = [] then SHead else SNext (last xs))"
    using xs by (rule lpath_end)
  show nx: "(nx x = None) = (ys = [])"
    using ys by (cases ys) auto
  show "pv' x = pv x"
    using ys dist unfolding pv'_def by (cases ys) auto
  show "pv x \<noteq> SNull"
    using r r' by (simp split: if_splits)
  have ys': "lpath nx pv' r (nx x) ys (if ys = [] then r else q) None"
    using ys dist r unfolding pv'_def by (cases ys) auto
  have xs': "lpath nx pv' SHead f xs r (Some x)"
    using xs ys dist unfolding pv'_def by (cases ys) auto
  {
    assume h: "pv x = SHead"
    with xs r have "xs = []" by (auto dest: lpath_store_head)
    with h ys' r show "xs = [] \<and> lpath nx pv' SHead (nx x) ys (if ys = [] then pv x else q) None"
      by (simp split: if_splits)
  next
    assume h: "pv x = SNext y"
    have "lpath (nx(y := nx x)) pv' SHead f xs (SNext y) (nx x) \<and> y \<in> set xs"
      using lpath_store_next[of nx pv' SHead f xs y "Some x" "nx x"] xs' h r dist by simp
    moreover from this dist have "y \<noteq> x" "y \<notin> set ys" by auto
    ultimately show "xs \<noteq> [] \<and> y \<noteq> x \<and>
        lpath (nx(y := nx x)) pv' SHead f (xs @ ys) (if ys = [] then pv x else q) None"
      using ys' h r by (fastforce simp: lpath_append)
  }
qed

section \<open>LIST macros implement sequences\<close>

lemma list_rep_altdef:
  "list_rep q xs \<longleftrightarrow> distinct xs \<and>
     (\<exists>e. lpath (le_next q) (le_prev q) SHead (lh_first q) xs e None)"
proof
  assume "list_rep q xs"
  then show "distinct xs \<and> (\<exists>e. lpath (le_next q) (le_prev q) SHead (lh_first q) xs e None)"
    by (auto simp: list_rep_def)
next
  assume "distinct xs \<and> (\<exists>e. lpath (le_next q) (le_prev q) SHead (lh_first q) xs e None)"
  then obtain e where "distinct xs" and e: "lpath (le_next q) (le_prev q) SHead (lh_first q) xs e None"
    by blast
  moreover from e have "e = (if xs = [] then SHead else SNext (last xs))"
    by (rule lpath_end)
  ultimately show "list_rep q xs" by (simp add: list_rep_def)
qed

lemma list_rep_init: "list_rep (LIST_INIT q) []"
  by (simp add: list_rep_def LIST_INIT_def)

lemma list_rep_distinct: "list_rep q xs \<Longrightarrow> distinct xs"
  by (simp add: list_rep_def)

lemma list_rep_empty: "list_rep q xs \<Longrightarrow> LIST_EMPTY q = (xs = [])"
  by (cases xs) (auto simp: list_rep_def LIST_EMPTY_def)

lemma list_rep_first: "list_rep q (x # xs) \<Longrightarrow> LIST_FIRST q = Some x"
  by (simp add: list_rep_def LIST_FIRST_def)

lemma list_rep_unique: "list_rep q xs \<Longrightarrow> list_rep q ys \<Longrightarrow> xs = ys"
  by (auto simp: list_rep_altdef dest: lpath_unique)

lemma list_rep_insert_head:
  "list_rep q xs \<Longrightarrow> x \<notin> set xs \<Longrightarrow> list_rep (LIST_INSERT_HEAD x q) (x # xs)"
  by (cases xs) (auto simp: list_rep_def LIST_INSERT_HEAD_def LIST_FIRST_def Let_def)

lemma list_rep_remove:
  assumes "list_rep q xs" "x \<in> set xs"
  shows "\<exists>q'. LIST_REMOVE x q = Ret q' \<and> list_rep q' (remove1 x xs)"
proof -
  obtain as bs where xs: "xs = as @ x # bs" "x \<notin> set as"
    using assms(2) by (meson split_list_first)
  obtain e where d: "distinct (as @ x # bs)"
    and p: "lpath (le_next q) (le_prev q) SHead (lh_first q) (as @ x # bs) e None"
    using assms(1) xs(1) by (auto simp: list_rep_altdef)
  note b = lpath_bypass[OF p d]
  have r1: "remove1 x xs = as @ bs" using xs by (simp add: remove1_append)
  show ?thesis
  proof (cases "le_prev q x")
    case SNull
    with b(3) show ?thesis by simp
  next
    case SHead
    from b(1)[OF this] SHead b(4) d show ?thesis
      by (fastforce simp: LIST_REMOVE_def LIST_NEXT_def list_store_def Let_def r1
          list_rep_altdef split: option.splits)
  next
    case (SNext y)
    from b(2)[OF this] SNext b(4) d show ?thesis
      by (fastforce simp: LIST_REMOVE_def LIST_NEXT_def list_store_def Let_def r1
          list_rep_altdef split: option.splits)
  qed
qed

section \<open>TAILQ macros implement sequences\<close>

lemma tailq_rep_init: "tailq_rep (TAILQ_INIT q) []"
  by (simp add: tailq_rep_def TAILQ_INIT_def)

lemma tailq_rep_distinct: "tailq_rep q xs \<Longrightarrow> distinct xs"
  by (simp add: tailq_rep_def)

lemma tailq_rep_empty: "tailq_rep q xs \<Longrightarrow> TAILQ_EMPTY q = (xs = [])"
  by (cases xs) (auto simp: tailq_rep_def TAILQ_EMPTY_def)

lemma tailq_rep_first: "tailq_rep q (x # xs) \<Longrightarrow> TAILQ_FIRST q = Some x"
  by (simp add: tailq_rep_def TAILQ_FIRST_def)

lemma tailq_rep_unique: "tailq_rep q xs \<Longrightarrow> tailq_rep q ys \<Longrightarrow> xs = ys"
  by (auto simp: tailq_rep_def dest: lpath_unique)

lemma tailq_rep_insert_head:
  "tailq_rep q xs \<Longrightarrow> x \<notin> set xs \<Longrightarrow> tailq_rep (TAILQ_INSERT_HEAD x q) (x # xs)"
  by (cases xs) (auto simp: tailq_rep_def TAILQ_INSERT_HEAD_def Let_def)

lemma tailq_rep_insert_tail:
  assumes "tailq_rep q xs" "x \<notin> set xs"
  shows "\<exists>q'. TAILQ_INSERT_TAIL x q = Ret q' \<and> tailq_rep q' (xs @ [x])"
proof (cases "xs = []")
  case True
  with assms show ?thesis
    by (auto simp: tailq_rep_def TAILQ_INSERT_TAIL_def Let_def tailq_store_def)
next
  case False
  let ?y = "last xs"
  from assms(1) False have l: "tqh_last q = SNext ?y"
    by (auto simp: tailq_rep_def dest: lpath_end)
  with assms have "lpath (tqe_next q) (tqe_prev q) SHead (tqh_first q) xs (SNext ?y) None"
    and "distinct xs" by (simp_all add: tailq_rep_def)
  then have "lpath ((tqe_next q)(?y := Some x)) (tqe_prev q) SHead (tqh_first q) xs (SNext ?y) (Some x)"
    by (auto dest: lpath_store_next)
  moreover from False assms(2) have ne: "?y \<noteq> x" by auto
  moreover have "(tqe_next q)(x := None, ?y \<mapsto> x) = (tqe_next q)(?y \<mapsto> x, x := None)"
    using ne by (simp add: fun_upd_twist)
  ultimately show ?thesis using assms l
    by (auto simp: tailq_rep_def TAILQ_INSERT_TAIL_def Let_def tailq_store_def lpath_append)
qed

lemma tailq_rep_remove:
  assumes "tailq_rep q xs" "x \<in> set xs"
  shows "\<exists>q'. TAILQ_REMOVE x q = Ret q' \<and> tailq_rep q' (remove1 x xs)"
proof -
  obtain as bs where xs: "xs = as @ x # bs" "x \<notin> set as"
    using assms(2) by (meson split_list_first)
  have d: "distinct (as @ x # bs)"
    and p: "lpath (tqe_next q) (tqe_prev q) SHead (tqh_first q) (as @ x # bs) (tqh_last q) None"
    using assms(1) xs(1) by (auto simp: tailq_rep_def)
  note b = lpath_bypass[OF p d]
  have r1: "remove1 x xs = as @ bs" using xs by (simp add: remove1_append)
  show ?thesis
  proof (cases "tqe_prev q x")
    case SNull
    with b(3) show ?thesis by simp
  next
    case SHead
    from b(1)[OF this] SHead b(4,5) d show ?thesis
      by (fastforce simp: TAILQ_REMOVE_def tailq_store_def Let_def r1 tailq_rep_def
          split: option.splits if_splits)
  next
    case (SNext y)
    from b(2)[OF this] SNext b(4,5) d show ?thesis
      by (fastforce simp: TAILQ_REMOVE_def tailq_store_def Let_def r1 tailq_rep_def
          split: option.splits if_splits)
  qed
qed

section \<open>Interfaces\<close>

text \<open>
  What the page allocator and the environment allocator rely on: an intrusive list used as a
  stack of free objects.
\<close>

locale free_list =
  fixes rep :: "'q \<Rightarrow> 'a list \<Rightarrow> bool"
    and init :: "'q \<Rightarrow> 'q"
    and is_empty :: "'q \<Rightarrow> bool"
    and first :: "'q \<Rightarrow> 'a option"
    and ins_head :: "'a \<Rightarrow> 'q \<Rightarrow> 'q"
    and remove :: "'a \<Rightarrow> 'q \<Rightarrow> 'q res"
  assumes rep_distinct: "rep q xs \<Longrightarrow> distinct xs"
    and rep_unique: "rep q xs \<Longrightarrow> rep q ys \<Longrightarrow> xs = ys"
    and rep_init: "rep (init q) []"
    and rep_is_empty: "rep q xs \<Longrightarrow> is_empty q = (xs = [])"
    and rep_first: "rep q (x # xs) \<Longrightarrow> first q = Some x"
    and rep_ins_head: "rep q xs \<Longrightarrow> x \<notin> set xs \<Longrightarrow> rep (ins_head x q) (x # xs)"
    and rep_remove: "rep q xs \<Longrightarrow> x \<in> set xs \<Longrightarrow> \<exists>q'. remove x q = Ret q' \<and> rep q' (remove1 x xs)"
begin

lemma pop:
  assumes "rep q xs" "\<not> is_empty q"
  obtains x ys q' where "xs = x # ys" "x \<notin> set ys" "first q = Some x"
    "remove x q = Ret q'" "rep q' ys"
proof -
  from assms obtain x ys where xs: "xs = x # ys"
    by (cases xs) (auto simp: rep_is_empty)
  moreover from this assms(1) have "first q = Some x" by (simp add: rep_first)
  moreover from xs assms(1) obtain q' where "remove x q = Ret q'" "rep q' ys"
    using rep_remove[of q xs x] by auto
  moreover from xs assms(1) have "x \<notin> set ys" using rep_distinct by fastforce
  ultimately show ?thesis using that by blast
qed

lemma rep_fold_ins_head:
  "rep q xs \<Longrightarrow> distinct (ys @ xs) \<Longrightarrow> rep (fold ins_head ys q) (rev ys @ xs)"
proof (induction ys arbitrary: q xs)
  case Nil
  then show ?case by simp
next
  case (Cons y ys)
  from Cons.prems have "rep (ins_head y q) (y # xs)" by (simp add: rep_ins_head)
  moreover from Cons.prems have "distinct (ys @ y # xs)" by simp
  ultimately have "rep (fold ins_head ys (ins_head y q)) (rev ys @ (y # xs))"
    by (rule Cons.IH)
  then show ?case by simp
qed

end

text \<open>What the scheduler relies on in addition: insertion at the tail.\<close>

locale tail_queue = free_list +
  fixes ins_tail :: "'a \<Rightarrow> 'q \<Rightarrow> 'q res"
  assumes rep_ins_tail: "rep q xs \<Longrightarrow> x \<notin> set xs \<Longrightarrow> \<exists>q'. ins_tail x q = Ret q' \<and> rep q' (xs @ [x])"
begin

lemma rotate:
  assumes "rep q xs" "x \<in> set xs"
  obtains q1 q2 where "remove x q = Ret q1" "rep q1 (remove1 x xs)"
    "ins_tail x q1 = Ret q2" "rep q2 (remove1 x xs @ [x])"
proof -
  obtain q1 where q1: "remove x q = Ret q1" "rep q1 (remove1 x xs)"
    using rep_remove assms by blast
  moreover have "x \<notin> set (remove1 x xs)"
    using rep_distinct[OF assms(1)] by (simp add: distinct_remove1)
  then obtain q2 where "ins_tail x q1 = Ret q2" "rep q2 (remove1 x xs @ [x])"
    using rep_ins_tail q1 by blast
  ultimately show ?thesis using that by blast
qed

end

interpretation ll: free_list "list_rep :: ('a, 'b) llist_scheme \<Rightarrow> 'a list \<Rightarrow> bool"
  LIST_INIT LIST_EMPTY LIST_FIRST LIST_INSERT_HEAD LIST_REMOVE
  by unfold_locales
    (auto intro: list_rep_distinct list_rep_unique list_rep_init list_rep_first
      list_rep_insert_head list_rep_remove simp: list_rep_empty)

interpretation tq: tail_queue "tailq_rep :: ('a, 'b) tailq_scheme \<Rightarrow> 'a list \<Rightarrow> bool"
  TAILQ_INIT TAILQ_EMPTY TAILQ_FIRST TAILQ_INSERT_HEAD TAILQ_REMOVE TAILQ_INSERT_TAIL
  by unfold_locales
    (auto intro: tailq_rep_distinct tailq_rep_unique tailq_rep_init tailq_rep_first
      tailq_rep_insert_head tailq_rep_insert_tail tailq_rep_remove simp: tailq_rep_empty)

section \<open>Insertion next to a given element\<close>

lemma list_rep_insert_after:
  assumes "list_rep q (as @ l # bs)" "x \<notin> set (as @ l # bs)"
  shows "list_rep (LIST_INSERT_AFTER l x q) (as @ l # x # bs)"
  using assms
  by (cases bs) (auto simp: list_rep_altdef lpath_append LIST_INSERT_AFTER_def LIST_NEXT_def Let_def)

section \<open>Removing an element that is not queued\<close>

text \<open>
  \<open>TAILQ_REMOVE\<close> does not check membership: it follows the links the element was left with.
  Directly after a removal those links still describe the element's old place, so a second removal
  repeats the same assignments.
\<close>

lemma tailq_remove_idem:
  assumes "tailq_rep q xs" "x \<in> set xs" "TAILQ_REMOVE x q = Ret q'"
  shows "TAILQ_REMOVE x q' = Ret q'"
proof -
  obtain as bs where xs: "xs = as @ x # bs"
    using assms(2) by (meson split_list_first)
  have d: "distinct (as @ x # bs)"
    and p: "lpath (tqe_next q) (tqe_prev q) SHead (tqh_first q) (as @ x # bs) (tqh_last q) None"
    using assms(1) xs(1) by (auto simp: tailq_rep_def)
  note b = lpath_bypass[OF p d]
  show ?thesis
    using assms(3) b(2-5)
    by (cases "tqe_prev q x"; cases "tqe_next q x")
      (auto simp: TAILQ_REMOVE_def tailq_store_def Let_def split: if_splits)
qed

end
