(* ===== verification/Pmap.thy ===== *)
theory Pmap
  imports Queue
begin

text \<open>
  Physical page management and two-level page tables: \<^verbatim>\<open>kern/pmap.c\<close>, the inline functions of
  \<^verbatim>\<open>include/pmap.h\<close> and the TLB primitive \<open>tlb_out\<close> of \<^verbatim>\<open>kern/tlb_asm.S\<close>. A
  \<open>struct Page *\<close> is the index of the element of \<open>pages\<close> it points to, which is the number of the
  physical page; a \<open>Pde *\<close> that points to a page directory is the number of the page that holds it;
  a \<open>Pte *\<close> is the pair of a page number and the index of a word in that page. Physical memory is
  a function from page number and word index to words; bytes are the little-endian parts of words.
\<close>

section \<open>State\<close>

record pm =
  memsize :: u32
  npage :: nat
  freemem :: u32
  pages_base :: u32
  pp_ref :: "nat \<Rightarrow> u16"
  page_free_list :: "nat llist"
  pmem :: "nat \<Rightarrow> nat \<Rightarrow> u32"
  tlb :: "u32 \<rightharpoonup> u32"

type_synonym pteloc = "nat \<times> nat"

definition load_word :: "'a pm_scheme \<Rightarrow> pteloc \<Rightarrow> u32" where
  "load_word s l = pmem s (fst l) (snd l)"

definition store_word :: "pteloc \<Rightarrow> u32 \<Rightarrow> 'a pm_scheme \<Rightarrow> 'a pm_scheme" where
  "store_word l w s = s\<lparr>pmem := (pmem s)(fst l := (pmem s (fst l))(snd l := w))\<rparr>"

definition load_byte :: "'a pm_scheme \<Rightarrow> nat \<Rightarrow> nat \<Rightarrow> u8" where
  "load_byte s p off = ucast (drop_bit (8 * (off mod 4)) (pmem s p (off div 4)))"

definition store_byte :: "nat \<Rightarrow> nat \<Rightarrow> u8 \<Rightarrow> 'a pm_scheme \<Rightarrow> 'a pm_scheme" where
  "store_byte p off b s =
     (let sh = 8 * (off mod 4); w = pmem s p (off div 4)
      in store_word (p, off div 4) ((w AND NOT (push_bit sh 0xFF)) OR push_bit sh (ucast b)) s)"

fun store_bytes :: "nat \<Rightarrow> nat \<Rightarrow> u8 list \<Rightarrow> 'a pm_scheme \<Rightarrow> 'a pm_scheme" where
  "store_bytes p off [] s = s"
| "store_bytes p off (b # bs) s = store_bytes p (Suc off) bs (store_byte p off b s)"

section \<open>Page numbers and addresses (include/pmap.h)\<close>

definition page2pa :: "nat \<Rightarrow> u32" where
  "page2pa pp = push_bit 12 (of_nat pp)"

definition pa2page :: "nat \<Rightarrow> u32 \<Rightarrow> nat res" where
  "pa2page np pa = (if np \<le> unat (PPN pa) then Panic ''pa2page called with invalid pa''
     else Ret (unat (PPN pa)))"

definition page2kva :: "nat \<Rightarrow> nat \<Rightarrow> u32 res" where
  "page2kva np pp = KADDR np (page2pa pp)"

definition va2pa :: "nat \<Rightarrow> u32 \<Rightarrow> 'a pm_scheme \<Rightarrow> u32 res" where
  "va2pa pgdir va s =
     (let pde = pmem s pgdir (unat (PDX va)) in
      if \<not> pte_valid pde then Ret (NOT 0)
      else rbind (KADDR (npage s) (PTE_ADDR pde)) (\<lambda>_.
        let pte = pmem s (unat (PPN pde)) (unat (PTX va)) in
        if \<not> pte_valid pte then Ret (NOT 0) else Ret (PTE_ADDR pte)))"

lemma PPN_page2pa: "pp < 2 ^ 20 \<Longrightarrow> PPN (page2pa pp) = of_nat pp"
  unfolding page2pa_def 
  by (simp add: word_unat_eq_iff unat_PPN push_bit_eq_mult unat_word_ariths unat_of_nat)

lemma PTE_ADDR_page2pa: "PTE_ADDR (page2pa pp) = page2pa pp"
  unfolding PTE_ADDR_def page2pa_def mask12 by (rule bit_word_eqI) (auto simp: bit_simps)

section \<open>Boot-time memory (mips\_detect\_memory, alloc, mips\_vm\_init, page\_init)\<close>

definition mips_detect_memory :: "u32 \<Rightarrow> 'a pm_scheme \<Rightarrow> 'a pm_scheme" where
  "mips_detect_memory dev_mp_memory s =
     (let s = s\<lparr>memsize := dev_mp_memory\<rparr>
      in s\<lparr>npage := unat (memsize s div BY2PG)\<rparr>)"

text \<open>\<open>memset\<close> of \<open>n\<close> bytes at the kernel address \<open>kva\<close>.\<close>

fun clear_bytes :: "nat \<Rightarrow> nat \<Rightarrow> 'a pm_scheme \<Rightarrow> 'a pm_scheme" where
  "clear_bytes pa 0 s = s"
| "clear_bytes pa (Suc n) s = clear_bytes (Suc pa) n (store_byte (pa div 4096) (pa mod 4096) 0 s)"

definition alloc :: "u32 \<Rightarrow> u32 \<Rightarrow> u32 \<Rightarrow> bool \<Rightarrow> 'a pm_scheme \<Rightarrow> (u32 \<times> 'a pm_scheme) res" where
  "alloc kernel_end n align clear s =
     (let s = (if freemem s = 0 then s\<lparr>freemem := kernel_end\<rparr> else s);
          s = s\<lparr>freemem := ROUND (freemem s) align\<rparr>;
          alloced_mem = freemem s;
          s = s\<lparr>freemem := freemem s + n\<rparr>
      in rbind (PADDR (freemem s)) (\<lambda>pa.
         if memsize s \<le> pa then Panic ''out of memory''
         else let s = (if clear then clear_bytes (unat (alloced_mem - ULIM)) (unat n) s else s)
              in Ret (alloced_mem, s)))"

definition sizeof_Page :: u32 where "sizeof_Page = 12"

definition mips_vm_init :: "u32 \<Rightarrow> 'a pm_scheme \<Rightarrow> 'a pm_scheme res" where
  "mips_vm_init kernel_end s =
     rbind (alloc kernel_end (of_nat (npage s) * sizeof_Page) BY2PG True s) (\<lambda>(a, s).
       Ret (s\<lparr>pages_base := a\<rparr>))"

text \<open>The first loop of \<open>page_init\<close>: pages below \<open>freemem\<close> are in use.\<close>

fun page_init_used :: "nat list \<Rightarrow> 'a pm_scheme \<Rightarrow> 'a pm_scheme res" where
  "page_init_used [] s = Panic ''KADDR called with invalid pa''"
| "page_init_used (i # is) s = rbind (page2kva (npage s) i) (\<lambda>kva.
     if kva < freemem s then page_init_used is (s\<lparr>pp_ref := (pp_ref s)(i := 1)\<rparr>) else Ret s)"

text \<open>The second loop: the others go onto the free list.\<close>

fun page_init_free :: "nat list \<Rightarrow> 'a pm_scheme \<Rightarrow> 'a pm_scheme" where
  "page_init_free [] s = s"
| "page_init_free (i # is) s = page_init_free is
     (s\<lparr>pp_ref := (pp_ref s)(i := 0), page_free_list := LIST_INSERT_HEAD i (page_free_list s)\<rparr>)"

definition page_init :: "'a pm_scheme \<Rightarrow> 'a pm_scheme res" where
  "page_init s =
     (let s = s\<lparr>page_free_list := LIST_INIT (page_free_list s)\<rparr>;
          s = s\<lparr>freemem := ROUND (freemem s) BY2PG\<rparr>
      in rbind (page_init_used [0..<npage s] s) (\<lambda>s.
         rbind (PADDR (freemem s)) (\<lambda>pa.
         Ret (page_init_free [unat (PPN pa)..<npage s] s))))"

section \<open>Page allocation (page\_alloc, page\_free, page\_decref)\<close>

definition page_alloc :: "'a pm_scheme \<Rightarrow> ((int \<times> nat option) \<times> 'a pm_scheme) res" where
  "page_alloc s =
     (if LIST_EMPTY (page_free_list s) then Ret ((- E_NO_MEM, None), s)
      else case LIST_FIRST (page_free_list s) of
        None \<Rightarrow> Fault ''NULL page''
      | Some pp \<Rightarrow>
          rbind (LIST_REMOVE pp (page_free_list s)) (\<lambda>fl.
          let s = s\<lparr>page_free_list := fl\<rparr>
          in rbind (page2kva (npage s) pp) (\<lambda>_.
             Ret ((0, Some pp), s\<lparr>pmem := (pmem s)(pp := (\<lambda>_. 0))\<rparr>))))"

definition page_free :: "nat \<Rightarrow> 'a pm_scheme \<Rightarrow> 'a pm_scheme res" where
  "page_free pp s = rassert (pp_ref s pp = 0) ''assertion failed: pp->pp_ref == 0''
     (Ret (s\<lparr>page_free_list := LIST_INSERT_HEAD pp (page_free_list s)\<rparr>))"

definition page_decref :: "nat \<Rightarrow> 'a pm_scheme \<Rightarrow> 'a pm_scheme res" where
  "page_decref pp s = rassert (0 < pp_ref s pp) ''assertion failed: pp->pp_ref > 0''
     (let s = s\<lparr>pp_ref := (pp_ref s)(pp := pp_ref s pp - 1)\<rparr>
      in if pp_ref s pp = 0 then page_free pp s else Ret s)"

definition incr_ref :: "nat \<Rightarrow> 'a pm_scheme \<Rightarrow> 'a pm_scheme" where
  "incr_ref pp s = s\<lparr>pp_ref := (pp_ref s)(pp := pp_ref s pp + 1)\<rparr>"

section \<open>TLB (tlb\_out, tlb\_invalidate)\<close>

text \<open>
  A TLB entry is keyed by the \<open>EntryHi\<close> it was written with (page number and address space
  identifier) and holds an \<open>EntryLo\<close>. It matches a probe with the same page number and the same
  identifier, or any identifier when its global bit is set.
\<close>

definition tlb_match :: "u32 \<Rightarrow> u32 \<Rightarrow> u32 \<Rightarrow> bool" where
  "tlb_match probe hi lo = (PTE_ADDR probe = PTE_ADDR hi \<and>
     (lo AND PTE_G \<noteq> 0 \<or> probe AND 0xFC0 = hi AND 0xFC0))"

definition tlb_out :: "u32 \<Rightarrow> 'a pm_scheme \<Rightarrow> 'a pm_scheme" where
  "tlb_out entryhi s = s\<lparr>tlb := (\<lambda>hi. case tlb s hi of None \<Rightarrow> None
     | Some lo \<Rightarrow> if tlb_match entryhi hi lo then None else Some lo)\<rparr>"

definition tlb_invalidate :: "u32 \<Rightarrow> u32 \<Rightarrow> 'a pm_scheme \<Rightarrow> 'a pm_scheme" where
  "tlb_invalidate asid va s = tlb_out (PTE_ADDR va OR push_bit 6 asid) s"

section \<open>Page tables (pgdir\_walk, page\_lookup, page\_remove, page\_insert)\<close>

definition pgdir_walk :: "nat \<Rightarrow> u32 \<Rightarrow> bool \<Rightarrow> 'a pm_scheme \<Rightarrow>
    ((int \<times> pteloc option) \<times> 'a pm_scheme) res" where
  "pgdir_walk pgdir va create s =
     (let pgdir_entryp = (pgdir, unat (PDX va));
          step3 = (\<lambda>s. rbind (KADDR (npage s) (PTE_ADDR (load_word s pgdir_entryp))) (\<lambda>_.
            Ret ((0, Some (unat (PPN (load_word s pgdir_entryp)), unat (PTX va))), s)))
      in if \<not> pte_valid (load_word s pgdir_entryp)
         then if create
           then rbind (page_alloc s) (\<lambda>((r, new), s).
             if r = - E_NO_MEM then Ret ((- E_NO_MEM, None), s)
             else case new of None \<Rightarrow> Fault ''uninitialised page pointer''
               | Some pp \<Rightarrow>
                   let s = store_word pgdir_entryp (page2pa pp) s;
                       s = store_word pgdir_entryp (load_word s pgdir_entryp OR PTE_D OR PTE_V) s;
                       s = incr_ref pp s
                   in step3 s)
           else Ret ((0, None), s)
         else step3 s)"

definition page_lookup :: "nat \<Rightarrow> u32 \<Rightarrow> 'a pm_scheme \<Rightarrow> ((nat \<times> pteloc) option \<times> 'a pm_scheme) res" where
  "page_lookup pgdir va s =
     rbind (pgdir_walk pgdir va False s) (\<lambda>((r, pte), s).
       case pte of None \<Rightarrow> Ret (None, s)
       | Some l \<Rightarrow> if \<not> pte_valid (load_word s l) then Ret (None, s)
           else rbind (pa2page (npage s) (load_word s l)) (\<lambda>pp. Ret (Some (pp, l), s)))"

definition page_remove :: "nat \<Rightarrow> u32 \<Rightarrow> u32 \<Rightarrow> 'a pm_scheme \<Rightarrow> 'a pm_scheme res" where
  "page_remove pgdir asid va s =
     rbind (page_lookup pgdir va s) (\<lambda>(found, s).
       case found of None \<Rightarrow> Ret s
       | Some (pp, pte) \<Rightarrow> rbind (page_decref pp s) (\<lambda>s.
           let s = store_word pte 0 s in Ret (tlb_invalidate asid va s)))"

text \<open>
  Steps 2 to 4 of \<open>page_insert\<close>: flush the TLB, look up or create the entry, write it.
\<close>

definition insert_step2 :: "nat \<Rightarrow> u32 \<Rightarrow> nat \<Rightarrow> u32 \<Rightarrow> u32 \<Rightarrow> 'a pm_scheme \<Rightarrow> (int \<times> 'a pm_scheme) res" where
  "insert_step2 pgdir asid pp va perm s =
     rbind (pgdir_walk pgdir va True (tlb_invalidate asid va s)) (\<lambda>((r, pte), s).
       if r = - E_NO_MEM then Ret (- E_NO_MEM, s)
       else case pte of None \<Rightarrow> Fault ''NULL pte''
         | Some l \<Rightarrow> Ret (0, incr_ref pp (store_word l (page2pa pp OR perm OR PTE_V) s)))"

definition page_insert :: "nat \<Rightarrow> u32 \<Rightarrow> nat \<Rightarrow> u32 \<Rightarrow> u32 \<Rightarrow> 'a pm_scheme \<Rightarrow>
    (int \<times> 'a pm_scheme) res" where
  "page_insert pgdir asid pp va perm s =
     rbind (pgdir_walk pgdir va False s) (\<lambda>((_, pte), s).
       case pte of None \<Rightarrow> insert_step2 pgdir asid pp va perm s
       | Some l \<Rightarrow>
           if pte_valid (load_word s l)
           then rbind (pa2page (npage s) (load_word s l)) (\<lambda>old.
             if old \<noteq> pp then rbind (page_remove pgdir asid va s) (insert_step2 pgdir asid pp va perm)
             else Ret (0, store_word l (page2pa pp OR perm OR PTE_V) (tlb_invalidate asid va s)))
           else insert_step2 pgdir asid pp va perm s)"

end
