(* ===== verification/PmapInv.thy ===== *)
theory PmapInv
  imports Pmap
begin

text \<open>
  The reference-count invariant of the page tables and the correctness of the operations of
  \<^verbatim>\<open>kern/pmap.c\<close> with respect to it. \<open>D\<close> is the set of page directories in use (one page each);
  the user part of a directory is its first \<open>PDX(UTOP)\<close> entries. The invariant \<open>pm_inv ext D\<close> says
  that page tables are private and never mapped, that the free list holds pages with reference
  count 0 only, and that every page's \<open>pp_ref\<close> is the number of directory and table entries that
  refer to it, plus the references \<open>ext\<close> held outside the page tables (pages used at boot). The
  abstract view of an address space is \<open>aspace\<close>; \<open>addr_space\<close> is the interface the system calls
  rely on.
\<close>

section \<open>References held by page tables\<close>

definition user_pdes :: nat where "user_pdes = 509"

definition pt_of :: "'a pm_scheme \<Rightarrow> nat \<Rightarrow> nat \<Rightarrow> nat" where
  "pt_of s d i = unat (PPN (pmem s d i))"

definition pdes :: "nat set \<Rightarrow> 'a pm_scheme \<Rightarrow> (nat \<times> nat) set" where
  "pdes D s = {(d, i). d \<in> D \<and> i < user_pdes \<and> pte_valid (pmem s d i)}"

definition ptes :: "nat set \<Rightarrow> 'a pm_scheme \<Rightarrow> (nat \<times> nat \<times> nat) set" where
  "ptes D s = {(d, i, j). (d, i) \<in> pdes D s \<and> j < 1024 \<and> pte_valid (pmem s (pt_of s d i) j)}"

definition tgt :: "'a pm_scheme \<Rightarrow> nat \<times> nat \<times> nat \<Rightarrow> nat" where
  "tgt s = (\<lambda>(d, i, j). unat (PPN (pmem s (pt_of s d i) j)))"

definition tables :: "nat set \<Rightarrow> 'a pm_scheme \<Rightarrow> nat set" where
  "tables D s = (\<lambda>(d, i). pt_of s d i) ` pdes D s"

definition map_refs :: "nat set \<Rightarrow> 'a pm_scheme \<Rightarrow> nat \<Rightarrow> nat" where
  "map_refs D s p = card {x \<in> ptes D s. tgt s x = p}"

definition pg_refs :: "nat set \<Rightarrow> 'a pm_scheme \<Rightarrow> nat \<Rightarrow> nat" where
  "pg_refs D s p = (if p \<in> D then 1 else 0) + (if p \<in> tables D s then 1 else 0) + map_refs D s p"

section \<open>The invariant\<close>

definition pm_struct :: "nat set \<Rightarrow> 'a pm_scheme \<Rightarrow> bool" where
  "pm_struct D s \<longleftrightarrow> npage s \<le> 2 ^ 20 \<and> finite D \<and> D \<subseteq> {..<npage s} \<and>
     inj_on (\<lambda>(d, i). pt_of s d i) (pdes D s) \<and>
     tables D s \<subseteq> {..<npage s} - D \<and>
     tgt s ` ptes D s \<subseteq> {..<npage s} - D - tables D s"

definition free_ok :: "'a pm_scheme \<Rightarrow> nat list \<Rightarrow> bool" where
  "free_ok s fl \<longleftrightarrow> list_rep (page_free_list s) fl \<and> (\<forall>p \<in> set fl. p < npage s \<and> pp_ref s p = 0)"

definition count_ok :: "(nat \<Rightarrow> nat) \<Rightarrow> nat set \<Rightarrow> 'a pm_scheme \<Rightarrow> bool" where
  "count_ok ext D s \<longleftrightarrow> (\<forall>p < npage s. unat (pp_ref s p) = ext p + pg_refs D s p)"

definition pm_inv :: "(nat \<Rightarrow> nat) \<Rightarrow> nat set \<Rightarrow> 'a pm_scheme \<Rightarrow> bool" where
  "pm_inv ext D s \<longleftrightarrow> pm_struct D s \<and> (\<exists>fl. free_ok s fl) \<and> count_ok ext D s"

section \<open>Frame lemmas\<close>

lemma pdes_finite: "finite D \<Longrightarrow> finite (pdes D s)"
  by (rule finite_subset[of _ "D \<times> {..<user_pdes}"]) (auto simp: pdes_def)

lemma ptes_finite: "finite D \<Longrightarrow> finite (ptes D s)"
  by (rule finite_subset[of _ "D \<times> {..<user_pdes} \<times> {..<1024}"]) (auto simp: ptes_def pdes_def)

lemma pg_refs_0:
  assumes "finite D" "pg_refs D s p = 0"
  shows "p \<notin> D" "p \<notin> tables D s" "p \<notin> tgt s ` ptes D s"
  using assms ptes_finite[of D s]
  by (auto simp: pg_refs_def map_refs_def split: if_splits)

text \<open>The references depend only on the pages that hold directories and tables.\<close>

lemma refs_cong:
  assumes "\<And>q. q \<in> D \<Longrightarrow> pmem s' q = pmem s q" "\<And>q. q \<in> tables D s \<Longrightarrow> pmem s' q = pmem s q"
  shows "pdes D s' = pdes D s" "\<And>d i. d \<in> D \<Longrightarrow> pt_of s' d i = pt_of s d i"
    "tables D s' = tables D s" "ptes D s' = ptes D s"
    "\<And>x. x \<in> ptes D s \<Longrightarrow> tgt s' x = tgt s x"
    "map_refs D s' = map_refs D s" "pg_refs D s' = pg_refs D s"
proof -
  show p: "pdes D s' = pdes D s" using assms(1) by (auto simp: pdes_def)
  show t: "pt_of s' d i = pt_of s d i" if "d \<in> D" for d i using assms(1) that by (simp add: pt_of_def)
  have D: "d \<in> D" if "(d, i) \<in> pdes D s" for d i using that by (auto simp: pdes_def)
  show tb: "tables D s' = tables D s"
    unfolding tables_def p by (rule image_cong) (auto simp: t D)
  have m: "pmem s' (pt_of s d i) = pmem s (pt_of s d i)" if "(d, i) \<in> pdes D s" for d i
    by (rule assms(2)) (use that in \<open>force simp: tables_def\<close>)
  show pe: "ptes D s' = ptes D s"
    unfolding ptes_def p by (auto simp: t D m)
  show tg: "tgt s' x = tgt s x" if "x \<in> ptes D s" for x
    using that by (auto simp: tgt_def ptes_def t D m)
  show mr: "map_refs D s' = map_refs D s"
  proof
    fix p
    have "{x \<in> ptes D s. tgt s' x = p} = {x \<in> ptes D s. tgt s x = p}" using tg by auto
    then show "map_refs D s' p = map_refs D s p" by (simp add: map_refs_def pe)
  qed
  show "pg_refs D s' = pg_refs D s" by (rule ext) (simp add: pg_refs_def tb mr)
qed

lemma pm_struct_cong:
  assumes "pm_struct D s" "npage s' = npage s"
    "\<And>q. q \<in> D \<Longrightarrow> pmem s' q = pmem s q" "\<And>q. q \<in> tables D s \<Longrightarrow> pmem s' q = pmem s q"
  shows "pm_struct D s'"
proof -
  note c = refs_cong[OF assms(3,4)]
  have "inj_on (\<lambda>(d, i). pt_of s' d i) (pdes D s)"
    using assms(1) c(2) by (auto simp: pm_struct_def inj_on_def pdes_def)
  moreover have "tgt s' ` ptes D s = tgt s ` ptes D s" using c(5) by auto
  ultimately show ?thesis using assms(1,2) by (simp add: pm_struct_def c(1,3,4))
qed

text \<open>Writing one entry of a page table.\<close>

lemma store_pte:
  assumes st: "pm_struct D s" and de: "(d, i) \<in> pdes D s" and j: "j < 1024"
    and s': "\<And>q. pmem s' q = (if q = pt_of s d i then (pmem s q)(j := w) else pmem s q)"
  shows "pdes D s' = pdes D s" "tables D s' = tables D s"
    "\<And>d i. d \<in> D \<Longrightarrow> pt_of s' d i = pt_of s d i"
    "ptes D s' = (if pte_valid w then insert (d, i, j) (ptes D s) else ptes D s - {(d, i, j)})"
    "\<And>x. fst x \<in> D \<Longrightarrow> (fst x, fst (snd x)) \<in> pdes D s \<Longrightarrow>
       tgt s' x = (if x = (d, i, j) then unat (PPN w) else tgt s x)"
    "map_refs D s' p + (if (d, i, j) \<in> ptes D s \<and> tgt s (d, i, j) = p then 1 else 0)
       = map_refs D s p + (if pte_valid w \<and> unat (PPN w) = p then 1 else 0)"
proof -
  have tD: "pt_of s d i \<notin> D" and inj: "inj_on (\<lambda>(d, i). pt_of s d i) (pdes D s)"
    and fin: "finite D"
    using st de by (auto simp: pm_struct_def tables_def)
  have mD: "pmem s' q = pmem s q" if "q \<in> D" for q using tD that by (auto simp: s')
  show p: "pdes D s' = pdes D s" using mD by (auto simp: pdes_def)
  show t: "pt_of s' d i = pt_of s d i" if "d \<in> D" for d i using mD that by (simp add: pt_of_def)
  have D: "d \<in> D" if "(d, i) \<in> pdes D s" for d i using that by (auto simp: pdes_def)
  show "tables D s' = tables D s"
    unfolding tables_def p by (rule image_cong) (auto simp: t D)
  have m: "pmem s' (pt_of s d' i') j' =
      (if (d', i', j') = (d, i, j) then w else pmem s (pt_of s d' i') j')"
    if "(d', i') \<in> pdes D s" for d' i' j'
    using inj_onD[OF inj, of "(d', i')" "(d, i)"] that de by (auto simp: s')
  show pe: "ptes D s' = (if pte_valid w then insert (d, i, j) (ptes D s) else ptes D s - {(d, i, j)})"
    using de j by (auto simp: ptes_def p t D m split: if_splits)
  show tg: "tgt s' x = (if x = (d, i, j) then unat (PPN w) else tgt s x)"
    if "fst x \<in> D" "(fst x, fst (snd x)) \<in> pdes D s" for x
    using that by (cases x) (auto simp: tgt_def t m)
  have tg': "tgt s' x = (if x = (d, i, j) then unat (PPN w) else tgt s x)" if "x \<in> ptes D s" for x
    using that by (intro tg) (auto simp: ptes_def D)
  have x: "tgt s' (d, i, j) = unat (PPN w)" using tg[of "(d, i, j)"] de D by simp
  let ?S = "{x \<in> ptes D s. tgt s x = p}" and ?S' = "{x \<in> ptes D s'. tgt s' x = p}"
  let ?R = "?S - {(d, i, j)}"
  have S': "?S' = (if pte_valid w \<and> unat (PPN w) = p then insert (d, i, j) ?R else ?R)"
    using x by (auto simp: pe tg' split: if_splits)
  have f: "finite ?S" using ptes_finite[OF fin, of s] by simp
  have "card ?S = card ?R + (if (d, i, j) \<in> ?S then 1 else 0)"
  proof (cases "(d, i, j) \<in> ?S")
    case True
    from card.remove[OF f this] True show ?thesis by simp
  next
    case False
    then have "?R = ?S" by blast
    with False show ?thesis by simp
  qed
  moreover have "card ?S' = card ?R + (if pte_valid w \<and> unat (PPN w) = p then 1 else 0)"
    using f unfolding S' by (simp add: card.insert_remove)
  ultimately show "map_refs D s' p + (if (d, i, j) \<in> ptes D s \<and> tgt s (d, i, j) = p then 1 else 0)
       = map_refs D s p + (if pte_valid w \<and> unat (PPN w) = p then 1 else 0)"
    by (simp add: map_refs_def)
qed


section \<open>Address spaces\<close>

text \<open>
  The abstract view of the user part of the page table rooted at directory \<open>d\<close>: a partial map
  from (directory index, table index) to the page table entry.
\<close>

definition aspace :: "'a pm_scheme \<Rightarrow> nat \<Rightarrow> nat \<times> nat \<Rightarrow> u32 option" where
  "aspace s d = (\<lambda>(i, j). if i < user_pdes \<and> j < 1024 \<and> pte_valid (pmem s d i) \<and>
       pte_valid (pmem s (pt_of s d i) j) then Some (pmem s (pt_of s d i) j) else None)"

definition vidx :: "u32 \<Rightarrow> nat \<times> nat" where
  "vidx va = (unat (PDX va), unat (PTX va))"

lemma aspace_Some_iff:
  "d \<in> D \<Longrightarrow> aspace s d (i, j) = Some w \<longleftrightarrow> (d, i, j) \<in> ptes D s \<and> w = pmem s (pt_of s d i) j"
  by (auto simp: aspace_def ptes_def pdes_def)

lemma aspace_cong:
  assumes "\<And>q. q \<in> D \<Longrightarrow> pmem s' q = pmem s q" "\<And>q. q \<in> tables D s \<Longrightarrow> pmem s' q = pmem s q" "d \<in> D"
  shows "aspace s' d = aspace s d"
proof
  fix x :: "nat \<times> nat"
  obtain i j where x: "x = (i, j)" by (cases x)
  have t: "pt_of s' d i = pt_of s d i" using refs_cong(2)[OF assms(1,2)] assms(3) by blast
  show "aspace s' d x = aspace s d x"
  proof (cases "(d, i) \<in> pdes D s")
    case True
    then have "pmem s' (pt_of s d i) = pmem s (pt_of s d i)"
      using assms(2)[of "pt_of s d i"] by (force simp: tables_def)
    with t assms(1,3) show ?thesis by (simp add: x aspace_def)
  next
    case False
    with assms(1,3) show ?thesis by (auto simp: x aspace_def pdes_def)
  qed
qed

lemma store_pte_aspace:
  assumes st: "pm_struct D s" and de: "(d, i) \<in> pdes D s" and j: "j < 1024"
    and s': "\<And>q. pmem s' q = (if q = pt_of s d i then (pmem s q)(j := w) else pmem s q)"
    and d': "d' \<in> D"
  shows "aspace s' d' = (if d' = d then (aspace s d)((i, j) := if pte_valid w then Some w else None)
     else aspace s d')"
proof (intro ext option.expand)
  fix x :: "nat \<times> nat"
  obtain i' j' where x: "x = (i', j')" by (cases x)
  have inj: "inj_on (\<lambda>(d, i). pt_of s d i) (pdes D s)" using st by (simp add: pm_struct_def)
  note sp = store_pte[OF st de j s']
  have D: "d \<in> D" using de by (simp add: pdes_def)
  have m: "pmem s' (pt_of s' d' i') j' = (if (d', i', j') = (d, i, j) then w else pmem s (pt_of s d' i') j')"
    if "(d', i') \<in> pdes D s"
    using inj_onD[OF inj, of "(d', i')" "(d, i)"] that de sp(3)[OF d'] by (auto simp: s')
  have pd: "(d', i') \<in> pdes D s" if "(d', i', j') \<in> ptes D s" using that by (simp add: ptes_def)
  let ?r = "if d' = d then (aspace s d)((i, j) := if pte_valid w then Some w else None) else aspace s d'"
  have "aspace s' d' x = Some v \<longleftrightarrow> ?r x = Some v" for v
    using d' D de j m pd by (auto simp: x aspace_Some_iff[of _ D] sp(4))
  then show "(aspace s' d' x = None) = (?r x = None)" "the (aspace s' d' x) = the (?r x)"
    by (metis not_None_eq)+
qed

lemma store_pte_struct:
  assumes st: "pm_struct D s" and de: "(d, i) \<in> pdes D s" and j: "j < 1024"
    and s': "\<And>q. pmem s' q = (if q = pt_of s d i then (pmem s q)(j := w) else pmem s q)"
    and n: "npage s' = npage s"
    and w: "pte_valid w \<Longrightarrow> unat (PPN w) < npage s \<and> unat (PPN w) \<notin> D \<and> unat (PPN w) \<notin> tables D s"
  shows "pm_struct D s'"
proof -
  note sp = store_pte[OF st de j s']
  have D: "d \<in> D" if "(d, i) \<in> pdes D s" for d i using that by (simp add: pdes_def)
  have "inj_on (\<lambda>(d, i). pt_of s' d i) (pdes D s) = inj_on (\<lambda>(d, i). pt_of s d i) (pdes D s)"
    by (rule inj_on_cong) (auto simp: sp(3) D)
  moreover have "tgt s' x \<in> {..<npage s} - D - tables D s" if x: "x \<in> ptes D s'" for x
  proof -
    have p: "fst x \<in> D" "(fst x, fst (snd x)) \<in> pdes D s"
      using x by (auto simp: ptes_def sp(1) D)
    show ?thesis
    proof (cases "x = (d, i, j)")
      case True
      with x w show ?thesis using sp(5)[OF p] by (auto simp: sp(4) split: if_splits)
    next
      case False
      with x have "x \<in> ptes D s" by (auto simp: sp(4) split: if_splits)
      with st have "tgt s x \<in> {..<npage s} - D - tables D s" by (auto simp: pm_struct_def)
      with sp(5)[OF p] False show ?thesis by simp
    qed
  qed
  ultimately show ?thesis using st by (auto simp: pm_struct_def sp(1,2) n)
qed

text \<open>Hanging a zeroed page into a page directory.\<close>

lemma store_pde:
  assumes st: "pm_struct D s" and d: "d \<in> D" and i: "i < user_pdes" and nv: "\<not> pte_valid (pmem s d i)"
    and pp: "pp < npage s" "pp \<notin> D" "pp \<notin> tables D s" "pp \<notin> tgt s ` ptes D s"
    and z: "pmem s pp = (\<lambda>_. 0)" and w: "pte_valid w" "unat (PPN w) = pp"
    and s': "npage s' = npage s" "\<And>q. pmem s' q = (if q = d then (pmem s d)(i := w) else pmem s q)"
  shows "pdes D s' = insert (d, i) (pdes D s)" "tables D s' = insert pp (tables D s)"
    "ptes D s' = ptes D s" "map_refs D s' = map_refs D s" "pm_struct D s'"
    "\<And>d' i'. d' \<in> D \<Longrightarrow> pt_of s' d' i' = (if (d', i') = (d, i) then pp else pt_of s d' i')"
    "\<And>q. q \<in> tables D s' \<Longrightarrow> pmem s' q = pmem s q"
    "\<forall>d' \<in> D. aspace s' d' = aspace s d'"
proof -
  have nd: "(d, i) \<notin> pdes D s" using nv by (simp add: pdes_def)
  show p: "pdes D s' = insert (d, i) (pdes D s)"
    using d i w by (auto simp: pdes_def s' split: if_splits)
  show pt: "pt_of s' d' i' = (if (d', i') = (d, i) then pp else pt_of s d' i')" if "d' \<in> D" for d' i'
    using w by (auto simp: pt_of_def s')
  have D: "d' \<in> D" if "(d', i') \<in> pdes D s" for d' i' using that by (auto simp: pdes_def)
  have im: "(\<lambda>(d, i). pt_of s' d i) ` pdes D s = tables D s"
    unfolding tables_def by (rule image_cong) (use nd in \<open>auto simp: pt D\<close>)
  show tb: "tables D s' = insert pp (tables D s)"
    using im d unfolding tables_def[of D s'] p by (simp add: pt)
  have tD: "tables D s \<inter> D = {}" using st by (auto simp: pm_struct_def)
  show mt: "pmem s' q = pmem s q" if "q \<in> tables D s'" for q
    using that tD d pp by (auto simp: s' tb)
  have m: "pmem s' (pt_of s' d' i') = pmem s (pt_of s d' i')" if "(d', i') \<in> pdes D s" for d' i'
  proof -
    have "pt_of s' d' i' = pt_of s d' i'" using that nd D by (auto simp: pt)
    moreover have "pt_of s d' i' \<in> tables D s" using that by (force simp: tables_def)
    ultimately show ?thesis using mt by (simp add: tb)
  qed
  have mz: "pmem s' (pt_of s' d i) j = 0" for j
    using z pp(2) d by (auto simp: pt s')
  show pe: "ptes D s' = ptes D s"
    unfolding ptes_def p by (auto simp: m mz)
  have tg: "tgt s' x = tgt s x" if "x \<in> ptes D s" for x
    using that by (auto simp: tgt_def ptes_def m)
  show "\<forall>d' \<in> D. aspace s' d' = aspace s d'"
  proof (intro ballI ext option.expand)
    fix d' and x :: "nat \<times> nat" assume "d' \<in> D"
    obtain i' j' where x: "x = (i', j')" by (cases x)
    have mm: "pmem s' (pt_of s' d' i') j' = pmem s (pt_of s d' i') j'" if "(d', i', j') \<in> ptes D s"
      using that m by (auto simp: ptes_def)
    have "aspace s' d' x = Some v \<longleftrightarrow> aspace s d' x = Some v" for v
      using \<open>d' \<in> D\<close> by (auto simp: x aspace_Some_iff[of d' D] pe mm)
    then show "(aspace s' d' x = None) = (aspace s d' x = None)"
      "the (aspace s' d' x) = the (aspace s d' x)"
      by (metis not_None_eq)+
  qed
  show "map_refs D s' = map_refs D s"
  proof
    fix q
    have "{x \<in> ptes D s. tgt s' x = q} = {x \<in> ptes D s. tgt s x = q}" using tg by auto
    then show "map_refs D s' q = map_refs D s q" by (simp add: map_refs_def pe)
  qed
  have "inj_on (\<lambda>(d, i). pt_of s' d i) (pdes D s) = inj_on (\<lambda>(d, i). pt_of s d i) (pdes D s)"
    by (rule inj_on_cong) (use nd in \<open>auto simp: pt D\<close>)
  then have "inj_on (\<lambda>(d, i). pt_of s' d i) (pdes D s)" using st by (simp add: pm_struct_def)
  then have "inj_on (\<lambda>(d, i). pt_of s' d i) (pdes D s')"
    unfolding p using pp(3) nd by (auto simp: im pt d)
  moreover have "tgt s' ` ptes D s = tgt s ` ptes D s" using tg by auto
  ultimately show "pm_struct D s'"
    using st pp by (auto simp: pm_struct_def s' tb pe)
qed

section \<open>page\_alloc, page\_decref\<close>

lemma page2kva_ok: "pp < npage s \<Longrightarrow> npage s \<le> 2 ^ 20 \<Longrightarrow> page2kva (npage s) pp = Ret (page2pa pp + ULIM)"
  by (simp add: page2kva_def KADDR_def PPN_page2pa unat_of_nat)

lemma count_ok_free:
  assumes "pm_inv ext D s" "free_ok s fl" "p \<in> set fl"
  shows "ext p = 0" "p \<notin> D" "p \<notin> tables D s" "p \<notin> tgt s ` ptes D s"
proof -
  from assms have "ext p + pg_refs D s p = 0" by (auto simp: pm_inv_def count_ok_def free_ok_def)
  moreover have "finite D" using assms by (simp add: pm_inv_def pm_struct_def)
  ultimately show "ext p = 0" "p \<notin> D" "p \<notin> tables D s" "p \<notin> tgt s ` ptes D s"
    using pg_refs_0[of D s p] by auto
qed

lemma page_alloc_none:
  "free_ok s [] \<Longrightarrow> page_alloc s = Ret ((- E_NO_MEM, None), s)"
  by (auto simp: page_alloc_def free_ok_def list_rep_empty)

lemma page_alloc_some:
  assumes inv: "pm_inv ext D s" and fl: "free_ok s (pp # fl)"
  obtains s' where "page_alloc s = Ret ((0, Some pp), s')" "pm_inv ext D s'" "free_ok s' fl"
    "pmem s' = (pmem s)(pp := (\<lambda>_. 0))" "npage s' = npage s" "pp_ref s' = pp_ref s"
    "tlb s' = tlb s" "tables D s' = tables D s" "ptes D s' = ptes D s"
    "pm.more s' = pm.more s" "pp \<notin> set fl" "tgt s' ` ptes D s' = tgt s ` ptes D s"
    "\<forall>d \<in> D. aspace s' d = aspace s d"
proof -
  have rep: "list_rep (page_free_list s) (pp # fl)" using fl by (simp add: free_ok_def)
  then have "\<not> LIST_EMPTY (page_free_list s)" by (simp add: list_rep_empty)
  from ll.pop[OF rep this] obtain q' where q':
    "LIST_FIRST (page_free_list s) = Some pp" "LIST_REMOVE pp (page_free_list s) = Ret q'"
    "list_rep q' fl" "pp \<notin> set fl" by blast
  let ?s = "s\<lparr>page_free_list := q', pmem := (pmem s)(pp := (\<lambda>_. 0))\<rparr>"
  have lt: "pp < npage s" "npage s \<le> 2 ^ 20" using fl inv by (auto simp: free_ok_def pm_inv_def pm_struct_def)
  have pa: "page_alloc s = Ret ((0, Some pp), ?s)"
    using q' lt rep by (simp add: page_alloc_def list_rep_empty page2kva_ok)
  note nr = count_ok_free[OF inv fl, of pp]
  have eqD: "pmem ?s q = pmem s q" if "q \<in> D" for q using nr that by auto
  have eqT: "pmem ?s q = pmem s q" if "q \<in> tables D s" for q using nr that by auto
  note c = refs_cong(3,4,7)[OF eqD eqT]
  have tg: "tgt ?s ` ptes D s = tgt s ` ptes D s"
    by (rule image_cong) (use refs_cong(5)[OF eqD eqT] in auto)
  have as: "aspace ?s d = aspace s d" if "d \<in> D" for d
    by (rule aspace_cong[OF eqD eqT that])
  have "pm_struct D ?s"
    by (rule pm_struct_cong[of D s]) (use inv eqD eqT in \<open>simp_all add: pm_inv_def\<close>)
  moreover have fo: "free_ok ?s fl" using fl q' by (simp add: free_ok_def)
  moreover have "count_ok ext D ?s" using inv by (auto simp: pm_inv_def count_ok_def c)
  ultimately have "pm_inv ext D ?s" by (auto simp: pm_inv_def)
  from that[OF pa this fo] q'(4) c tg as show ?thesis by simp
qed

lemma page_decref_ok:
  assumes fl: "free_ok s fl" and r: "0 < unat (pp_ref s pp)" and lt: "pp < npage s"
  obtains s' where "page_decref pp s = Ret s'" "pmem s' = pmem s" "npage s' = npage s" "tlb s' = tlb s"
    "pm.more s' = pm.more s"
    "pp_ref s' = (pp_ref s)(pp := pp_ref s pp - 1)"
    "free_ok s' (if unat (pp_ref s pp) = 1 then pp # fl else fl)"
proof -
  have z: "(pp_ref s pp - 1 = 0) = (unat (pp_ref s pp) = 1)"
    by (metis eq_iff_diff_eq_0 unat_1 word_unat_eq_iff)
  have nf: "pp \<notin> set fl" using fl r by (auto simp: free_ok_def)
  have g: "0 < pp_ref s pp" using r by (simp add: word_less_nat_alt)
  let ?s = "s\<lparr>pp_ref := (pp_ref s)(pp := pp_ref s pp - 1)\<rparr>"
  have fo: "free_ok ?s fl" using fl nf by (auto simp: free_ok_def)
  show ?thesis
  proof (cases "unat (pp_ref s pp) = 1")
    case True
    let ?t = "?s\<lparr>page_free_list := LIST_INSERT_HEAD pp (page_free_list s)\<rparr>"
    have "page_decref pp s = Ret ?t"
      using z True g by (simp add: page_decref_def page_free_def Let_def)
    moreover have "free_ok ?t (pp # fl)"
      using fl nf lt z True by (auto simp: free_ok_def intro: list_rep_insert_head)
    ultimately show ?thesis using that[of ?t] True by simp
  next
    case False
    with z g have "page_decref pp s = Ret ?s" by (simp add: page_decref_def Let_def)
    with fo False show ?thesis using that[of ?s] by simp
  qed
qed

lemma pt_of_in: "(d, i) \<in> pdes D s \<Longrightarrow> pt_of s d i \<in> tables D s"
  by (force simp: tables_def)

lemma KADDR_ok: "unat (PPN w) < np \<Longrightarrow> KADDR np (PTE_ADDR w) = Ret (PTE_ADDR w + ULIM)"
  by (simp add: KADDR_def)

lemma walk_noalloc:
  assumes "pm_struct D s" "d \<in> D" "unat (PDX va) < user_pdes"
  shows "pgdir_walk d va False s = Ret ((0, if pte_valid (pmem s d (unat (PDX va)))
           then Some (pt_of s d (unat (PDX va)), unat (PTX va)) else None), s)"
proof (cases "pte_valid (pmem s d (unat (PDX va)))")
  case True
  then have "(d, unat (PDX va)) \<in> pdes D s" using assms by (simp add: pdes_def)
  then have "pt_of s d (unat (PDX va)) < npage s"
    using assms(1) pt_of_in by (fastforce simp: pm_struct_def)
  with True show ?thesis
    by (simp add: pgdir_walk_def load_word_def Let_def KADDR_ok pt_of_def)
qed (simp add: pgdir_walk_def load_word_def Let_def)

lemma walk_create:
  assumes inv: "pm_inv ext D s" and fl: "free_ok s fl" and d: "d \<in> D" and i: "unat (PDX va) < user_pdes"
  obtains (nomem) "pgdir_walk d va True s = Ret ((- E_NO_MEM, None), s)" "fl = []"
      "\<not> pte_valid (pmem s d (unat (PDX va)))"
  | (ok) s' fl' where "pgdir_walk d va True s = Ret ((0, Some (pt_of s' d (unat (PDX va)), unat (PTX va))), s')"
      "pm_inv ext D s'" "free_ok s' fl'" "set fl' \<subseteq> set fl" "(d, unat (PDX va)) \<in> pdes D s'"
      "\<forall>d' \<in> D. aspace s' d' = aspace s d'"
      "npage s' = npage s" "tlb s' = tlb s" "pm.more s' = pm.more s"
      "\<forall>q. q \<notin> set fl \<longrightarrow> pp_ref s' q = pp_ref s q"
      "\<forall>q. q \<notin> set fl \<longrightarrow> q \<notin> D \<longrightarrow> pmem s' q = pmem s q"
      "tables D s \<subseteq> tables D s'" "tables D s' \<subseteq> tables D s \<union> set fl" "ptes D s' = ptes D s"
proof (cases "pte_valid (pmem s d (unat (PDX va)))")
  case True
  let ?i = "unat (PDX va)"
  have st: "pm_struct D s" using inv by (simp add: pm_inv_def)
  have di: "(d, ?i) \<in> pdes D s" using True d i by (simp add: pdes_def)
  have "pgdir_walk d va True s = Ret ((0, Some (pt_of s d ?i, unat (PTX va))), s)"
    using walk_noalloc[OF st d i] True by (simp add: pgdir_walk_def load_word_def Let_def)
  from ok[OF this inv fl _ di] show ?thesis by simp
next
  case False
  let ?i = "unat (PDX va)"
  show ?thesis
  proof (cases fl)
    case Nil
    then have "pgdir_walk d va True s = Ret ((- E_NO_MEM, None), s)"
      using False fl page_alloc_none[of s] by (simp add: pgdir_walk_def load_word_def Let_def)
    from nomem[OF this Nil False] show ?thesis .
  next
    case (Cons p fs)
    obtain s1 where s1: "page_alloc s = Ret ((0, Some p), s1)" "pm_inv ext D s1" "free_ok s1 fs"
      "pmem s1 = (pmem s)(p := (\<lambda>_. 0))" "npage s1 = npage s" "pp_ref s1 = pp_ref s"
      "tlb s1 = tlb s" "tables D s1 = tables D s" "ptes D s1 = ptes D s"
      "pm.more s1 = pm.more s" "p \<notin> set fs" "tgt s1 ` ptes D s1 = tgt s ` ptes D s"
      "\<forall>d \<in> D. aspace s1 d = aspace s d"
      by (rule page_alloc_some[OF inv fl[unfolded Cons]])
    note nr = count_ok_free[OF inv fl, of p, unfolded Cons, simplified]
    let ?w = "page2pa p OR PTE_D OR PTE_V"
    let ?s = "incr_ref p (store_word (d, ?i) ?w s1)"
    have lt: "p < npage s" "npage s \<le> 2 ^ 20" and ref0: "pp_ref s p = 0"
      using fl inv Cons by (auto simp: free_ok_def pm_inv_def pm_struct_def)
    have w: "pte_valid ?w" "unat (PPN ?w) = p"
      using lt by (simp_all add: PPN_or PPN_page2pa unat_of_nat)
    have dp: "p \<noteq> d" using nr(2) d by auto
    have st1: "pm_struct D s1" using s1(2) by (simp add: pm_inv_def)
    have nv1: "\<not> pte_valid (pmem s1 d ?i)" using False dp by (simp add: s1)
    have nt: "p \<notin> tgt s1 ` ptes D s1" using nr(4) by (simp add: s1(12))
    have npg: "npage ?s = npage s1" by (simp add: incr_ref_def store_word_def)
    have mem: "pmem ?s q = (if q = d then (pmem s1 d)(?i := ?w) else pmem s1 q)" for q
      by (simp add: incr_ref_def store_word_def)
    note sp = store_pde[OF st1 d i nv1 _ nr(2) nr(3)[folded s1(8)] nt _ w npg mem]
    have z: "pmem s1 p = (\<lambda>_. 0)" "p < npage s1" using lt by (simp_all add: s1)
    note sp = sp[OF z(2,1)]
    have walk: "pgdir_walk d va True s = Ret ((0, Some (pt_of ?s d ?i, unat (PTX va))), ?s)"
      using False w lt by (simp add: pgdir_walk_def load_word_def store_word_def Let_def s1(1) KADDR_ok
          incr_ref_def pt_of_def s1(5))
    have fo: "free_ok ?s fs"
      using s1(3,11) by (auto simp: free_ok_def incr_ref_def store_word_def)
    have "count_ok ext D ?s"
      using s1(2,6) sp(2,4) nr lt(1) ref0
      by (auto simp: count_ok_def pm_inv_def pg_refs_def incr_ref_def store_word_def s1(8))
    then have "pm_inv ext D ?s" using sp(5) fo by (auto simp: pm_inv_def)
    moreover have "set fs \<subseteq> set fl" using Cons by auto
    moreover have "(d, ?i) \<in> pdes D ?s" by (simp add: sp(1))
    moreover have "\<forall>d' \<in> D. aspace ?s d' = aspace s d'" using sp(8) s1(13) by simp
    moreover have "\<forall>q. q \<notin> set fl \<longrightarrow> pp_ref ?s q = pp_ref s q"
      using Cons by (simp add: incr_ref_def store_word_def s1)
    moreover have "\<forall>q. q \<notin> set fl \<longrightarrow> q \<notin> D \<longrightarrow> pmem ?s q = pmem s q"
      using Cons d by (auto simp: mem s1(4))
    moreover have "npage ?s = npage s" "tlb ?s = tlb s" "pm.more ?s = pm.more s"
      by (simp_all add: incr_ref_def store_word_def s1)
    moreover have "tables D s \<subseteq> tables D ?s" "tables D ?s \<subseteq> tables D s \<union> set fl" "ptes D ?s = ptes D s"
      using Cons by (auto simp: sp(2,3) s1(8,9))
    ultimately show ?thesis using ok[OF walk _ fo] by blast
  qed
qed

section \<open>page\_lookup and page\_remove\<close>

lemma page_lookup_ok:
  assumes st: "pm_struct D s" and d: "d \<in> D" and i: "unat (PDX va) < user_pdes"
  shows "page_lookup d va s = Ret (case aspace s d (vidx va) of None \<Rightarrow> None
     | Some w \<Rightarrow> Some (unat (PPN w), (pt_of s d (unat (PDX va)), unat (PTX va))), s)"
proof (cases "aspace s d (vidx va)")
  case None
  then show ?thesis
    using i by (auto simp: page_lookup_def walk_noalloc[OF st d i] load_word_def aspace_def vidx_def
        split: if_splits)
next
  case (Some w)
  then have w: "(d, unat (PDX va), unat (PTX va)) \<in> ptes D s"
    "w = pmem s (pt_of s d (unat (PDX va))) (unat (PTX va))"
    by (auto simp: vidx_def aspace_Some_iff[OF d])
  then have "tgt s (d, unat (PDX va), unat (PTX va)) < npage s"
    using st unfolding pm_struct_def by blast
  then have "unat (PPN w) < npage s" by (simp add: tgt_def w(2))
  with Some w show ?thesis
    by (auto simp: page_lookup_def walk_noalloc[OF st d i] load_word_def ptes_def pdes_def pa2page_def)
qed

lemma ptes_ref_pos:
  assumes "pm_inv ext D s" "x \<in> ptes D s"
  shows "0 < unat (pp_ref s (tgt s x))" "tgt s x < npage s" "tgt s x \<notin> D" "tgt s x \<notin> tables D s"
proof -
  have st: "pm_struct D s" and co: "count_ok ext D s" using assms(1) by (simp_all add: pm_inv_def)
  have "tgt s x \<in> {..<npage s} - D - tables D s" using st assms(2) by (auto simp: pm_struct_def)
  then show "tgt s x < npage s" "tgt s x \<notin> D" "tgt s x \<notin> tables D s" by auto
  have "finite (ptes D s)" using st by (simp add: pm_struct_def ptes_finite)
  then have "0 < map_refs D s (tgt s x)"
    unfolding map_refs_def card_gt_0_iff using assms(2) by (cases x) auto
  then show "0 < unat (pp_ref s (tgt s x))"
    using co \<open>tgt s x < npage s\<close> by (simp add: count_ok_def pg_refs_def)
qed

lemma tlb_invalidate_simps [simp]:
  "pmem (tlb_invalidate asid va s) = pmem s" "npage (tlb_invalidate asid va s) = npage s"
  "pp_ref (tlb_invalidate asid va s) = pp_ref s"
  "page_free_list (tlb_invalidate asid va s) = page_free_list s"
  "pm.more (tlb_invalidate asid va s) = pm.more s"
  by (simp_all add: tlb_invalidate_def tlb_out_def)

lemma pm_inv_same:
  assumes "pm_inv ext D s" "pmem s' = pmem s" "npage s' = npage s" "pp_ref s' = pp_ref s"
    "page_free_list s' = page_free_list s"
  shows "pm_inv ext D s'"
proof -
  have e: "\<And>q. q \<in> D \<Longrightarrow> pmem s' q = pmem s q" "\<And>q. q \<in> tables D s \<Longrightarrow> pmem s' q = pmem s q"
    using assms by simp_all
  have "pm_struct D s'" by (rule pm_struct_cong[OF _ assms(3) e]) (use assms in \<open>simp add: pm_inv_def\<close>)
  moreover have "pg_refs D s' = pg_refs D s" using refs_cong(7)[OF e] .
  ultimately show ?thesis using assms by (auto simp: pm_inv_def count_ok_def free_ok_def)
qed

lemma aspace_same: "pmem s' = pmem s \<Longrightarrow> aspace s' d = aspace s d"
  by (auto simp: fun_eq_iff aspace_def pt_of_def)

lemma free_ok_same:
  "npage s' = npage s \<Longrightarrow> pp_ref s' = pp_ref s \<Longrightarrow> page_free_list s' = page_free_list s \<Longrightarrow>
    free_ok s' fl = free_ok s fl"
  by (simp add: free_ok_def)

lemma page_remove_ok:
  assumes inv: "pm_inv ext D s" and fl: "free_ok s fl" and d: "d \<in> D" and i: "unat (PDX va) < user_pdes"
  obtains s' fl' where "page_remove d asid va s = Ret s'" "pm_inv ext D s'" "free_ok s' fl'"
    "\<forall>d' \<in> D. aspace s' d' = (if d' = d then (aspace s d)(vidx va := None) else aspace s d')"
    "npage s' = npage s" "pm.more s' = pm.more s" "tables D s' = tables D s" "pdes D s' = pdes D s"
    "fl' = (case aspace s d (vidx va) of None \<Rightarrow> fl | Some w \<Rightarrow>
       if unat (pp_ref s (unat (PPN w))) = 1 then unat (PPN w) # fl else fl)"
    "pp_ref s' = (case aspace s d (vidx va) of None \<Rightarrow> pp_ref s | Some w \<Rightarrow>
       (pp_ref s)(unat (PPN w) := pp_ref s (unat (PPN w)) - 1))"
    "tlb s' = (case aspace s d (vidx va) of None \<Rightarrow> tlb s | Some w \<Rightarrow> tlb (tlb_invalidate asid va s))"
    "\<forall>q. q \<notin> tables D s \<longrightarrow> pmem s' q = pmem s q"
proof (cases "aspace s d (vidx va)")
  case None
  have st: "pm_struct D s" using inv by (simp add: pm_inv_def)
  from None have "page_remove d asid va s = Ret s"
    by (simp add: page_remove_def page_lookup_ok[OF st d i])
  moreover have "(aspace s d)(vidx va := None) = aspace s d" using None by auto
  ultimately show ?thesis using that[of s fl] inv fl None by simp
next
  case (Some w)
  let ?i = "unat (PDX va)" and ?j = "unat (PTX va)" and ?pp = "unat (PPN w)"
  have st: "pm_struct D s" using inv by (simp add: pm_inv_def)
  have w: "(d, ?i, ?j) \<in> ptes D s" "w = pmem s (pt_of s d ?i) ?j"
    using Some by (auto simp: vidx_def aspace_Some_iff[OF d])
  have tw: "tgt s (d, ?i, ?j) = ?pp" by (simp add: tgt_def w(2))
  have di: "(d, ?i) \<in> pdes D s" using w by (simp add: ptes_def)
  note pos = ptes_ref_pos[OF inv w(1), unfolded tw]
  obtain s1 where s1: "page_decref ?pp s = Ret s1" "pmem s1 = pmem s" "npage s1 = npage s" "tlb s1 = tlb s"
    "pm.more s1 = pm.more s" "pp_ref s1 = (pp_ref s)(?pp := pp_ref s ?pp - 1)"
    "free_ok s1 (if unat (pp_ref s ?pp) = 1 then ?pp # fl else fl)"
    by (rule page_decref_ok[OF fl pos(1,2)])
  define t where "t = tlb_invalidate asid va (store_word (pt_of s d ?i, ?j) 0 s1)"
  have rem: "page_remove d asid va s = Ret t"
    using Some by (simp add: page_remove_def page_lookup_ok[OF st d i] s1(1) Let_def t_def)
  have mem: "pmem t q = (if q = pt_of s d ?i then (pmem s q)(?j := 0) else pmem s q)" for q
    by (simp add: store_word_def s1 t_def)
  have np: "npage t = npage s" by (simp add: store_word_def s1 t_def)
  have j: "?j < 1024" by simp
  have st': "pm_struct D t" by (rule store_pte_struct[OF st di j mem np]) simp
  note sp = store_pte[OF st di j mem]
  have fo: "free_ok t (if unat (pp_ref s ?pp) = 1 then ?pp # fl else fl)"
    using s1(7) by (rule free_ok_same[THEN iffD2, rotated -1]) (simp_all add: store_word_def t_def)
  have ref: "pp_ref t = (pp_ref s)(?pp := pp_ref s ?pp - 1)" by (simp add: store_word_def s1 t_def)
  have um: "unat (pp_ref s ?pp - 1) = unat (pp_ref s ?pp) - 1"
    using pos(1) by (simp add: unat_sub word_le_nat_alt)
  have mr: "map_refs D t p + (if ?pp = p then 1 else 0) = map_refs D s p" for p
    using sp(6)[of p] w(1) tw by simp
  have "count_ok ext D t"
  proof (unfold count_ok_def, intro allI impI)
    fix p assume "p < npage t"
    then have "unat (pp_ref s p) = ext p + pg_refs D s p"
      using inv np by (simp add: pm_inv_def count_ok_def)
    with mr[of p] um show "unat (pp_ref t p) = ext p + pg_refs D t p"
      by (auto simp: ref pg_refs_def sp(2) split: if_splits)
  qed
  then have inv': "pm_inv ext D t" using st' fo by (auto simp: pm_inv_def)
  have as: "\<forall>d' \<in> D. aspace t d' = (if d' = d then (aspace s d)(vidx va := None) else aspace s d')"
    using store_pte_aspace[OF st di j mem] by (simp add: vidx_def)
  show ?thesis
  proof (rule that[OF rem inv' fo as np])
    show "pm.more t = pm.more s" by (simp add: store_word_def s1 t_def)
    show "tlb t = (case aspace s d (vidx va) of None \<Rightarrow> tlb s
        | Some w \<Rightarrow> tlb (tlb_invalidate asid va s))"
      using s1(4) by (simp add: Some store_word_def tlb_invalidate_def tlb_out_def t_def)
    show "\<forall>q. q \<notin> tables D s \<longrightarrow> pmem t q = pmem s q"
      using pt_of_in[OF di] by (auto simp: mem)
  qed (simp_all add: Some ref sp(1,2))
qed

section \<open>page\_insert\<close>

text \<open>
  The common end of \<open>page_insert\<close>: the entry of \<open>va\<close> is empty, the TLB has been flushed, the
  table is looked up or created and the entry is written.
\<close>

lemma pte_word:
  assumes "pp < npage s" "npage s \<le> 2 ^ 20" "perm < 4096"
  shows "pte_valid (page2pa pp OR perm OR PTE_V)" "unat (PPN (page2pa pp OR perm OR PTE_V)) = pp"
    "PTE_ADDR (page2pa pp OR perm OR PTE_V) = page2pa pp"
proof -
  have "PTE_V < 4096" by (simp add: PTE_V_def)
  then show "pte_valid (page2pa pp OR perm OR PTE_V)" "unat (PPN (page2pa pp OR perm OR PTE_V)) = pp"
    "PTE_ADDR (page2pa pp OR perm OR PTE_V) = page2pa pp"
    using assms by (simp_all add: PPN_or PPN_small PPN_page2pa unat_of_nat PTE_ADDR_or PTE_ADDR_small
        PTE_ADDR_page2pa)
qed

lemma insert_step2_ok:
  assumes inv: "pm_inv ext D s" and fl: "free_ok s fl" and d: "d \<in> D" and i: "unat (PDX va) < user_pdes"
    and none: "aspace s d (vidx va) = None" and perm: "perm < 4096"
    and pp: "pp < npage s" "pp \<notin> D" "pp \<notin> tables D s" "pp \<notin> set fl"
    and ref: "unat (pp_ref s pp) < 65535"
  obtains (nomem) s' where "insert_step2 d asid pp va perm s = Ret (- E_NO_MEM, s')" "pm_inv ext D s'"
      "fl = []" "\<not> pte_valid (pmem s d (unat (PDX va)))" "s' = tlb_invalidate asid va s"
  | (ok) s' where "insert_step2 d asid pp va perm s = Ret (0, s')" "pm_inv ext D s'"
      "\<forall>d' \<in> D. aspace s' d' = (if d' = d then (aspace s d)(vidx va \<mapsto> page2pa pp OR perm OR PTE_V)
         else aspace s d')"
      "npage s' = npage s" "pm.more s' = pm.more s" "tlb s' = tlb (tlb_invalidate asid va s)"
      "pp_ref s' pp = pp_ref s pp + 1"
      "\<forall>q. q \<notin> set fl \<union> D \<union> tables D s \<longrightarrow> pmem s' q = pmem s q"
      "\<forall>q. q \<notin> set fl \<longrightarrow> q \<noteq> pp \<longrightarrow> pp_ref s' q = pp_ref s q"
proof -
  let ?i = "unat (PDX va)" and ?j = "unat (PTX va)" and ?w = "page2pa pp OR perm OR PTE_V"
  define s0 where "s0 = tlb_invalidate asid va s"
  have inv0: "pm_inv ext D s0" using inv by (rule pm_inv_same) (simp_all add: s0_def)
  have fl0: "free_ok s0 fl" using fl by (simp add: free_ok_def s0_def)
  have np: "npage s \<le> 2 ^ 20" using inv by (simp add: pm_inv_def pm_struct_def)
  note w = pte_word[OF pp(1) np perm]
  show ?thesis
  proof (cases rule: walk_create[OF inv0 fl0 d i, case_names nomem ok])
    case nomem
    have "insert_step2 d asid pp va perm s = Ret (- E_NO_MEM, s0)"
      using nomem(1) by (simp add: insert_step2_def s0_def)
    from that(1)[OF this inv0 nomem(2)] nomem(3) show ?thesis by (simp add: s0_def)
  next
    case (ok s1 fl')
    have st1: "pm_struct D s1" using ok(2) by (simp add: pm_inv_def)
    define t where "t = incr_ref pp (store_word (pt_of s1 d ?i, ?j) ?w s1)"
    have res: "insert_step2 d asid pp va perm s = Ret (0, t)"
      using ok(1) by (simp add: insert_step2_def s0_def t_def)
    have mem: "pmem t q = (if q = pt_of s1 d ?i then (pmem s1 q)(?j := ?w) else pmem s1 q)" for q
      by (simp add: t_def incr_ref_def store_word_def)
    have npt: "npage t = npage s1" by (simp add: t_def incr_ref_def store_word_def)
    have np1: "npage s1 = npage s" using ok(7) by (simp add: s0_def)
    have j: "?j < 1024" by simp
    note sp = store_pte[OF st1 ok(5) j mem]
    have tb: "tables D s1 \<subseteq> tables D s \<union> set fl" using ok(13) refs_cong(3)[of D s0 s] by (simp add: s0_def)
    have ppt: "pp \<notin> tables D s1" using pp tb by blast
    have st': "pm_struct D t"
      by (rule store_pte_struct[OF st1 ok(5) j mem npt]) (use w pp ppt np1 in simp)
    have as1: "aspace s1 d' = aspace s d'" if "d' \<in> D" for d'
      using ok(6) that aspace_same[of s0 s] by (simp add: s0_def)
    have fo: "free_ok t fl'"
      using ok(3,4) pp(4) by (auto simp: free_ok_def t_def incr_ref_def store_word_def)
    have new: "(d, ?i, ?j) \<notin> ptes D s1"
      using none as1[OF d] aspace_Some_iff[OF d, of s1 ?i ?j] by (auto simp: vidx_def)
    have mr: "map_refs D t p = map_refs D s1 p + (if p = pp then 1 else 0)" for p
      using sp(6)[of p] new w by auto
    have ref1: "pp_ref s1 pp = pp_ref s pp" using ok(10) pp(4) by (simp add: s0_def)
    have refs: "pp_ref t = (pp_ref s1)(pp := pp_ref s1 pp + 1)"
      by (simp add: t_def incr_ref_def store_word_def)
    have ui: "unat (pp_ref s1 pp + 1) = unat (pp_ref s1 pp) + 1"
      using ref by (simp add: ref1 unat_word_ariths)
    have "count_ok ext D t"
    proof (unfold count_ok_def, intro allI impI)
      fix p assume "p < npage t"
      then have "unat (pp_ref s1 p) = ext p + pg_refs D s1 p"
        using ok(2) npt by (simp add: pm_inv_def count_ok_def)
      then show "unat (pp_ref t p) = ext p + pg_refs D t p"
        using ui mr[of p] by (auto simp: refs pg_refs_def sp(2))
    qed
    then have inv': "pm_inv ext D t" using st' fo by (auto simp: pm_inv_def)
    have as: "\<forall>d' \<in> D. aspace t d' = (if d' = d then (aspace s d)(vidx va \<mapsto> ?w) else aspace s d')"
      using store_pte_aspace[OF st1 ok(5) j mem] w(1) as1 d by (simp add: vidx_def)
    show ?thesis
    proof (rule that(2)[OF res inv' as])
      show "npage t = npage s" by (simp add: npt np1)
      show "pm.more t = pm.more s" using ok(9) by (simp add: t_def incr_ref_def store_word_def s0_def)
      show "tlb t = tlb (tlb_invalidate asid va s)"
        using ok(8) by (simp add: t_def incr_ref_def store_word_def s0_def)
      show "pp_ref t pp = pp_ref s pp + 1" by (simp add: refs ref1)
      show "\<forall>q. q \<notin> set fl \<union> D \<union> tables D s \<longrightarrow> pmem t q = pmem s q"
        using ok(11) pt_of_in[OF ok(5)] tb by (auto simp: mem s0_def)
      show "\<forall>q. q \<notin> set fl \<longrightarrow> q \<noteq> pp \<longrightarrow> pp_ref t q = pp_ref s q"
        using ok(10) by (simp add: refs s0_def)
    qed
  qed
qed

lemma tlb_invalidate_twice:
  "tlb s1 = tlb (tlb_invalidate asid va s) \<Longrightarrow> tlb (tlb_invalidate asid va s1) = tlb (tlb_invalidate asid va s)"
  by (auto simp: tlb_invalidate_def tlb_out_def fun_eq_iff split: option.splits)

lemma page_insert_ok:
  assumes inv: "pm_inv ext D s" and fl: "free_ok s fl" and d: "d \<in> D" and i: "unat (PDX va) < user_pdes"
    and perm: "perm < 4096"
    and pp: "pp < npage s" "pp \<notin> D" "pp \<notin> tables D s" "pp \<notin> set fl"
    and ref: "unat (pp_ref s pp) < 65535"
  obtains (nomem) s' where "page_insert d asid pp va perm s = Ret (- E_NO_MEM, s')" "pm_inv ext D s'"
      "fl = []" "\<not> pte_valid (pmem s d (unat (PDX va)))" "s' = tlb_invalidate asid va s"
  | (ok) s' where "page_insert d asid pp va perm s = Ret (0, s')" "pm_inv ext D s'"
      "\<forall>d' \<in> D. aspace s' d' = (if d' = d then (aspace s d)(vidx va \<mapsto> page2pa pp OR perm OR PTE_V)
         else aspace s d')"
      "npage s' = npage s" "pm.more s' = pm.more s" "tlb s' = tlb (tlb_invalidate asid va s)"
      "\<forall>q. q \<notin> set fl \<union> D \<union> tables D s \<and>
         (\<forall>w. aspace s d (vidx va) = Some w \<longrightarrow> unat (PPN w) \<noteq> q) \<longrightarrow> pmem s' q = pmem s q"
proof -
  let ?i = "unat (PDX va)" and ?j = "unat (PTX va)" and ?w = "page2pa pp OR perm OR PTE_V"
  have st: "pm_struct D s" using inv by (simp add: pm_inv_def)
  have np: "npage s \<le> 2 ^ 20" using st by (simp add: pm_struct_def)
  note w = pte_word[OF pp(1) np perm]
  show ?thesis
  proof (cases "aspace s d (vidx va)")
    case None
    then have pi: "page_insert d asid pp va perm s = insert_step2 d asid pp va perm s"
      using i by (auto simp: page_insert_def walk_noalloc[OF st d i] load_word_def aspace_def vidx_def
          split: if_splits)
    show ?thesis
    proof (cases rule: insert_step2_ok[OF inv fl d i None perm pp ref, where asid = asid, case_names nomem ok])
      case (nomem s')
      then show ?thesis using that(1) pi by simp
    next
      case (ok s')
      then show ?thesis using that(2)[of s'] pi by simp
    qed
  next
    case (Some old)
    let ?o = "unat (PPN old)"
    have o: "(d, ?i, ?j) \<in> ptes D s" "old = pmem s (pt_of s d ?i) ?j"
      using Some by (auto simp: vidx_def aspace_Some_iff[OF d])
    have to: "tgt s (d, ?i, ?j) = ?o" by (simp add: tgt_def o(2))
    have di: "(d, ?i) \<in> pdes D s" and vo: "pte_valid old" using o by (simp_all add: ptes_def)
    then have vd: "pte_valid (pmem s d ?i)" by (simp add: pdes_def)
    note pos = ptes_ref_pos[OF inv o(1), unfolded to]
    show ?thesis
    proof (cases "?o = pp")
      case True
      define t where "t = store_word (pt_of s d ?i, ?j) ?w (tlb_invalidate asid va s)"
      have pi: "page_insert d asid pp va perm s = Ret (0, t)"
        using vd vo pos(2) o(2) True
        by (simp add: page_insert_def walk_noalloc[OF st d i] load_word_def pa2page_def t_def)
      have mem: "pmem t q = (if q = pt_of s d ?i then (pmem s q)(?j := ?w) else pmem s q)" for q
        by (simp add: t_def store_word_def)
      have npt: "npage t = npage s" by (simp add: t_def store_word_def)
      have j: "?j < 1024" by simp
      note sp = store_pte[OF st di j mem]
      have st': "pm_struct D t"
        by (rule store_pte_struct[OF st di j mem npt]) (use w pp in simp)
      have mr: "map_refs D t p = map_refs D s p" for p
        using sp(6)[of p] o(1) to w True by auto
      have "free_ok t fl" using fl by (simp add: free_ok_def t_def store_word_def)
      moreover have "count_ok ext D t"
        using inv by (simp add: pm_inv_def count_ok_def pg_refs_def sp(2) mr npt)
          (simp add: t_def store_word_def)
      ultimately have inv': "pm_inv ext D t" using st' by (auto simp: pm_inv_def)
      have as: "\<forall>d' \<in> D. aspace t d' = (if d' = d then (aspace s d)(vidx va \<mapsto> ?w) else aspace s d')"
        using store_pte_aspace[OF st di j mem] w(1) by (simp add: vidx_def)
      show ?thesis
        by (rule that(2)[OF pi inv' as npt])
          (use pt_of_in[OF di] in \<open>auto simp: mem\<close>, simp_all add: t_def store_word_def)
    next
      case False
      obtain s1 fl1 where s1: "page_remove d asid va s = Ret s1" "pm_inv ext D s1" "free_ok s1 fl1"
        "\<forall>d' \<in> D. aspace s1 d' = (if d' = d then (aspace s d)(vidx va := None) else aspace s d')"
        "npage s1 = npage s" "pm.more s1 = pm.more s" "tables D s1 = tables D s" "pdes D s1 = pdes D s"
        "fl1 = (case aspace s d (vidx va) of None \<Rightarrow> fl | Some w \<Rightarrow>
           if unat (pp_ref s (unat (PPN w))) = 1 then unat (PPN w) # fl else fl)"
        "pp_ref s1 = (case aspace s d (vidx va) of None \<Rightarrow> pp_ref s | Some w \<Rightarrow>
           (pp_ref s)(unat (PPN w) := pp_ref s (unat (PPN w)) - 1))"
        "tlb s1 = (case aspace s d (vidx va) of None \<Rightarrow> tlb s
           | Some w \<Rightarrow> tlb (tlb_invalidate asid va s))"
        "\<forall>q. q \<notin> tables D s \<longrightarrow> pmem s1 q = pmem s q"
        by (rule page_remove_ok[OF inv fl d i, where asid = asid])
      note s1 = s1(1-8) s1(9-11)[unfolded Some option.case] s1(12)
      have pi: "page_insert d asid pp va perm s = insert_step2 d asid pp va perm s1"
        using vd vo pos(2) o(2) False s1(1)
        by (simp add: page_insert_def walk_noalloc[OF st d i] load_word_def pa2page_def)
      have none1: "aspace s1 d (vidx va) = None" using s1(4) d by simp
      have pp1: "pp < npage s1" "pp \<notin> D" "pp \<notin> tables D s1" "pp \<notin> set fl1"
        using pp False by (simp_all add: s1(5,7,9))
      have ref1: "unat (pp_ref s1 pp) < 65535" using ref False by (simp add: s1(10))
      have sub: "set fl1 \<subseteq> insert ?o (set fl)" by (auto simp: s1(9))
      show ?thesis
      proof (cases rule: insert_step2_ok[OF s1(2,3) d i none1 perm pp1 ref1, where asid = asid, case_names nomem ok])
        case (nomem s')
        with di s1(8) show ?thesis by (auto simp: pdes_def)
      next
        case (ok s')
        have "\<forall>d' \<in> D. aspace s' d' = (if d' = d then (aspace s d)(vidx va \<mapsto> ?w) else aspace s d')"
          using ok(3) s1(4) by simp
        moreover have "\<forall>q. q \<notin> set fl \<union> D \<union> tables D s \<and>
            (\<forall>w. aspace s d (vidx va) = Some w \<longrightarrow> unat (PPN w) \<noteq> q) \<longrightarrow> pmem s' q = pmem s q"
          using ok(8) s1(7,12) sub Some by auto
        moreover have "tlb s' = tlb (tlb_invalidate asid va s)"
          using ok(6) tlb_invalidate_twice[OF s1(11)] by simp
        ultimately show ?thesis using that(2)[of s'] ok pi s1(5,6) by simp
      qed
    qed
  qed
qed

section \<open>The address-space interface\<close>

definition page_is_free :: "'a pm_scheme \<Rightarrow> nat \<Rightarrow> bool" where
  "page_is_free s p \<longleftrightarrow> (\<exists>fl. list_rep (page_free_list s) fl \<and> p \<in> set fl)"

lemma page_is_free_iff: "free_ok s fl \<Longrightarrow> page_is_free s p = (p \<in> set fl)"
  using list_rep_unique by (auto simp: free_ok_def page_is_free_def)

definition can_insert :: "nat set \<Rightarrow> 'a pm_scheme \<Rightarrow> nat \<times> u32 \<Rightarrow> bool" where
  "can_insert D s = (\<lambda>(pp, perm). perm < 4096 \<and> pp < npage s \<and> pp \<notin> D \<and> pp \<notin> tables D s \<and>
     \<not> page_is_free s pp \<and> unat (pp_ref s pp) < 65535)"

definition pte_entry :: "nat \<times> u32 \<Rightarrow> u32" where
  "pte_entry = (\<lambda>(pp, perm). page2pa pp OR perm OR PTE_V)"

locale addr_space =
  fixes dirs :: "'d set" and inv :: "'s \<Rightarrow> bool" and user :: "'v \<Rightarrow> bool" and idx :: "'v \<Rightarrow> 'i"
    and space :: "'s \<Rightarrow> 'd \<Rightarrow> 'i \<Rightarrow> 'w option" and entry :: "'p \<Rightarrow> 'w"
    and can_ins :: "'s \<Rightarrow> 'p \<Rightarrow> bool"
    and ins :: "'d \<Rightarrow> 'p \<Rightarrow> 'v \<Rightarrow> 's \<Rightarrow> (int \<times> 's) res"
    and rem :: "'d \<Rightarrow> 'v \<Rightarrow> 's \<Rightarrow> 's res"
  assumes ins_law: "inv s \<Longrightarrow> d \<in> dirs \<Longrightarrow> user v \<Longrightarrow> can_ins s p \<Longrightarrow>
      \<exists>r s'. ins d p v s = Ret (r, s') \<and> inv s' \<and> (r = 0 \<or> r = - E_NO_MEM) \<and>
        (\<forall>d' \<in> dirs. space s' d' = (if d' = d \<and> r = 0 then (space s d)(idx v \<mapsto> entry p) else space s d'))"
    and rem_law: "inv s \<Longrightarrow> d \<in> dirs \<Longrightarrow> user v \<Longrightarrow>
      \<exists>s'. rem d v s = Ret s' \<and> inv s' \<and>
        (\<forall>d' \<in> dirs. space s' d' = (if d' = d then (space s d)(idx v := None) else space s d'))"
begin

text \<open>Every operation on one address space leaves the others as they were.\<close>

lemma ins_isolated:
  assumes "inv s" "d \<in> dirs" "user v" "can_ins s p" "ins d p v s = Ret (r, s')" "d' \<in> dirs" "d' \<noteq> d"
  shows "space s' d' = space s d'"
  using ins_law[OF assms(1-4)] assms(5-7) by auto

lemma rem_isolated:
  assumes "inv s" "d \<in> dirs" "user v" "rem d v s = Ret s'" "d' \<in> dirs" "d' \<noteq> d"
  shows "space s' d' = space s d'"
  using rem_law[OF assms(1-3)] assms(4-6) by auto

text \<open>What an insertion establishes at its own address, a later insertion elsewhere keeps.\<close>

lemma ins_ins:
  assumes "inv s" "d \<in> dirs" "e \<in> dirs" "user v" "user u" "can_ins s p" "ins d p v s = Ret (0, s1)"
    "can_ins s1 q" "ins e q u s1 = Ret (r, s2)" "e \<noteq> d \<or> idx u \<noteq> idx v"
  shows "space s2 d (idx v) = Some (entry p)" "inv s2"
proof -
  have s1: "inv s1" "space s1 d (idx v) = Some (entry p)"
    using ins_law[OF assms(1,2,4,6)] assms(2,7) by auto
  show "space s2 d (idx v) = Some (entry p)"
    using ins_law[OF s1(1) assms(3,5,8)] s1(2) assms(2,9,10) by (auto split: if_splits)
  show "inv s2" using ins_law[OF s1(1) assms(3,5,8)] assms(9) by auto
qed

lemma rem_ins_other:
  assumes "inv s" "d \<in> dirs" "user v" "user u" "can_ins s p" "ins d p v s = Ret (0, s1)"
    "rem d u s1 = Ret s2"
  shows "space s2 d (idx v) = (if idx u = idx v then None else Some (entry p))"
proof -
  have s1: "inv s1" "space s1 d (idx v) = Some (entry p)"
    using ins_law[OF assms(1-3,5)] assms(2,6) by auto
  show ?thesis using rem_law[OF s1(1) assms(2,4)] s1(2) assms(2,7) by auto
qed

end

interpretation pgs: addr_space D "pm_inv ext D" "\<lambda>va. va < UTOP" vidx aspace pte_entry "can_insert D"
  "\<lambda>d (pp, perm) va. page_insert d asid pp va perm" "\<lambda>d. page_remove d asid"
proof unfold_locales
  fix s :: "'a pm_scheme" and d va p
  assume inv: "pm_inv ext D s" and d: "d \<in> D" and va: "va < UTOP" and can: "can_insert D s p"
  obtain pp perm where p: "p = (pp, perm)" by (cases p)
  obtain fl where fl: "free_ok s fl" using inv by (auto simp: pm_inv_def)
  have i: "unat (PDX va) < user_pdes" using PDX_UTOP[OF va] by (simp add: user_pdes_def)
  from can have c: "perm < 4096" "pp < npage s" "pp \<notin> D" "pp \<notin> tables D s" "pp \<notin> set fl"
    "unat (pp_ref s pp) < 65535"
    by (simp_all add: can_insert_def p page_is_free_iff[OF fl])
  show "\<exists>r s'. (case p of (pp, perm) \<Rightarrow> \<lambda>va. page_insert d asid pp va perm) va s = Ret (r, s') \<and>
      pm_inv ext D s' \<and> (r = 0 \<or> r = - E_NO_MEM) \<and>
      (\<forall>d' \<in> D. aspace s' d' = (if d' = d \<and> r = 0 then (aspace s d)(vidx va \<mapsto> pte_entry p) else aspace s d'))"
  proof (cases rule: page_insert_ok[OF inv fl d i c, where asid = asid, case_names nomem ok])
    case (nomem s')
    then show ?thesis using aspace_same[of s' s] by (simp add: p)
  next
    case (ok s')
    then show ?thesis by (simp add: p pte_entry_def)
  qed
next
  fix s :: "'a pm_scheme" and d va
  assume inv: "pm_inv ext D s" and d: "d \<in> D" and va: "va < UTOP"
  obtain fl where fl: "free_ok s fl" using inv by (auto simp: pm_inv_def)
  have i: "unat (PDX va) < user_pdes" using PDX_UTOP[OF va] by (simp add: user_pdes_def)
  show "\<exists>s'. page_remove d asid va s = Ret s' \<and> pm_inv ext D s' \<and>
      (\<forall>d' \<in> D. aspace s' d' = (if d' = d then (aspace s d)(vidx va := None) else aspace s d'))"
    by (rule page_remove_ok[OF inv fl d i, where asid = asid]) blast
qed

section \<open>TLB coherence\<close>

text \<open>Every TLB entry tagged with the identifier of an address space agrees with its page table.\<close>

definition tlb_coherent :: "(nat \<Rightarrow> u32) \<Rightarrow> nat set \<Rightarrow> 'a pm_scheme \<Rightarrow> bool" where
  "tlb_coherent A D s \<longleftrightarrow> (\<forall>d \<in> D. \<forall>hi lo. tlb s hi = Some lo \<longrightarrow> hi AND 0xFC0 = push_bit 6 (A d) \<longrightarrow>
     unat (PDX hi) < user_pdes \<longrightarrow> aspace s d (vidx hi) = Some lo)"

lemma PTE_ADDR_VPN: "PTE_ADDR w = push_bit 12 (VPN w)"
  unfolding PTE_ADDR_def VPN_def mask12 by (rule bit_word_eqI) (auto simp: bit_simps)

lemma PTE_ADDR_eq_vidx: "(PTE_ADDR a = PTE_ADDR b) = (vidx a = vidx b)"
proof -
  have "(VPN a = VPN b) = (vidx a = vidx b)" using PDX_PTX_eq_iff[of a b] by (simp add: vidx_def)
  moreover have "drop_bit 12 (PTE_ADDR w) = VPN w" for w
    using PPN_PTE_ADDR[of w] by (simp add: PPN_def VPN_def)
  ultimately show ?thesis by (metis PTE_ADDR_VPN)
qed

lemma asid_shift: "asid < 64 \<Longrightarrow> push_bit 6 asid < (4096 :: u32)"
  by (simp add: push_bit_eq_mult word_less_nat_alt unat_word_ariths)

lemma PTE_ADDR_idem: "PTE_ADDR (PTE_ADDR w) = PTE_ADDR w"
  by (simp add: PTE_ADDR_def)

lemma probe_parts:
  assumes "asid < (64 :: u32)"
  shows "PTE_ADDR (PTE_ADDR va OR push_bit 6 asid) = PTE_ADDR va"
    "(PTE_ADDR va OR push_bit 6 asid) AND 0xFC0 = push_bit 6 asid AND 0xFC0"
proof -
  show "PTE_ADDR (PTE_ADDR va OR push_bit 6 asid) = PTE_ADDR va"
    by (simp add: PTE_ADDR_or PTE_ADDR_idem PTE_ADDR_small asid_shift assms)
  have "PTE_ADDR va AND 0xFC0 = va AND (NOT 0xFFF AND 0xFC0)"
    by (simp only: PTE_ADDR_def and.assoc)
  then have "PTE_ADDR va AND 0xFC0 = 0" by simp
  then show "(PTE_ADDR va OR push_bit 6 asid) AND 0xFC0 = push_bit 6 asid AND 0xFC0"
    by (simp add: bit.conj_disj_distrib2)
qed

lemma tlb_invalidate_survivor:
  assumes "asid < 64" "tlb (tlb_invalidate asid va s) hi = Some lo"
  shows "tlb s hi = Some lo" "hi AND 0xFC0 = push_bit 6 asid \<Longrightarrow> vidx hi \<noteq> vidx va"
proof -
  show "tlb s hi = Some lo"
    using assms(2) by (auto simp: tlb_invalidate_def tlb_out_def split: option.splits if_splits)
  assume h: "hi AND 0xFC0 = push_bit 6 asid"
  then have "push_bit 6 asid AND 0xFC0 = hi AND 0xFC0" by (metis and.assoc and.idem)
  with assms show "vidx hi \<noteq> vidx va"
    by (auto simp: tlb_invalidate_def tlb_out_def tlb_match_def probe_parts PTE_ADDR_eq_vidx
        split: option.splits if_splits)
qed

lemma tlb_coherent_update:
  assumes "tlb_coherent A D s" "d \<in> D" "A d < 64" "tlb s' = tlb (tlb_invalidate (A d) va s)"
    "\<forall>d' \<in> D. aspace s' d' = (if d' = d then (aspace s d)(vidx va := x) else aspace s d')"
  shows "tlb_coherent A D s'"
  using assms tlb_invalidate_survivor[OF assms(3), of va s]
  by (auto simp: tlb_coherent_def)

end
