(* ===== verification/Print.thy ===== *)
theory Print
  imports Prelude
begin

text \<open>
  The formatter \<open>vprintfmt\<close> of \<^verbatim>\<open>lib/print.c\<close>, which kernel and user programs print with. The
  output sink is the pair of a callback and its data, as in the code. A format string is the list
  of its characters without the final NUL; reading at its end reads the NUL. Arguments are a list of
  32-bit integers and strings (\<open>long\<close> and \<open>int\<close> have the same width on the target); taking one that
  is missing or of the other kind is a fault. \<open>print_num\<close> keeps the code's buffer of
  \<open>length + 70\<close> characters, whose initial contents \<open>stk\<close> are arbitrary, and a store outside it is
  a fault; that none happens is proved.
\<close>

section \<open>Sinks and arguments\<close>

type_synonym 'd sink = "'d \<Rightarrow> string \<Rightarrow> 'd"

datatype va = AInt u32 | AStr string

fun va_int :: "va list \<Rightarrow> (u32 \<times> va list) res" where
  "va_int (AInt n # ap) = Ret (n, ap)"
| "va_int _ = Fault ''va_arg''"

fun va_str :: "va list \<Rightarrow> (string \<times> va list) res" where
  "va_str (AStr s # ap) = Ret (s, ap)"
| "va_str _ = Fault ''va_arg''"

section \<open>print\_char and print\_str\<close>

primrec out_times :: "'d sink \<Rightarrow> string \<Rightarrow> nat \<Rightarrow> 'd \<Rightarrow> 'd" where
  "out_times out s 0 d = d"
| "out_times out s (Suc n) d = out_times out s n (out d s)"

definition print_char :: "'d sink \<Rightarrow> 'd \<Rightarrow> char \<Rightarrow> nat \<Rightarrow> bool \<Rightarrow> 'd" where
  "print_char out d c len ladjust =
     (let len = (if len < 1 then 1 else len)
      in if ladjust then out_times out '' '' (len - 1) (out d [c])
         else out (out_times out '' '' (len - 1) d) [c])"

definition print_str :: "'d sink \<Rightarrow> 'd \<Rightarrow> string \<Rightarrow> nat \<Rightarrow> bool \<Rightarrow> 'd" where
  "print_str out d s wid ladjust =
     (let len = length s; wid = (if wid < len then len else wid)
      in if ladjust then out_times out '' '' (wid - len) (out d s)
         else out (out_times out '' '' (wid - len) d) s)"

section \<open>print\_num\<close>

definition bput :: "nat \<Rightarrow> char \<Rightarrow> string \<Rightarrow> string res" where
  "bput i c buf = (if i < length buf then Ret (buf[i := c]) else Fault ''store outside buf'')"

definition digit_char :: "bool \<Rightarrow> nat \<Rightarrow> char" where
  "digit_char upcase tmp =
     (if tmp \<le> 9 then char_of (48 + tmp)
      else if upcase then char_of (65 + tmp - 10) else char_of (97 + tmp - 10))"

text \<open>The \<open>do\<close> loop; with a base below 2 the C loop would divide by zero or not end.\<close>

function digits_loop :: "nat \<Rightarrow> nat \<Rightarrow> bool \<Rightarrow> nat \<Rightarrow> string \<Rightarrow> (nat \<times> string) res" where
  "digits_loop u base upcase p buf =
     (if base < 2 then Fault ''base''
      else rbind (bput p (digit_char upcase (u mod base)) buf) (\<lambda>buf.
        if u div base \<noteq> 0 then digits_loop (u div base) base upcase (p + 1) buf
        else Ret (p + 1, buf)))"
  by pat_completeness auto
termination
proof (relation "measure (\<lambda>(u, base, upcase, p, buf). u)", goal_cases)
  case (2 u base upcase p buf x)
  then have "0 < u" by (cases u) auto
  with 2 show ?case by simp
qed simp

text \<open>\<open>for (i = lo; i < hi; i++) buf[i] = c\<close>\<close>

function pad_loop :: "nat \<Rightarrow> nat \<Rightarrow> char \<Rightarrow> string \<Rightarrow> string res" where
  "pad_loop i hi c buf = (if i < hi then rbind (bput i c buf) (pad_loop (i + 1) hi c) else Ret buf)"
  by pat_completeness auto
termination by (relation "measure (\<lambda>(i, hi, c, buf). hi - i)") auto

function rev_loop :: "nat \<Rightarrow> nat \<Rightarrow> string \<Rightarrow> string" where
  "rev_loop b e buf =
     (if b < e then rev_loop (b + 1) (e - 1) (buf[b := buf ! e, e := buf ! b]) else buf)"
  by pat_completeness auto
termination by (relation "measure (\<lambda>(b, e, buf). e - b)") auto

declare digits_loop.simps [simp del] pad_loop.simps [simp del] rev_loop.simps [simp del]

definition print_num :: "(nat \<Rightarrow> char) \<Rightarrow> 'd sink \<Rightarrow> 'd \<Rightarrow> u32 \<Rightarrow> nat \<Rightarrow> bool \<Rightarrow> nat \<Rightarrow> bool \<Rightarrow> char \<Rightarrow>
    bool \<Rightarrow> 'd res" where
  "print_num stk out d u base neg_flag wid ladjust padc upcase =
     rbind (digits_loop (unat u) base upcase 0 (map stk [0..<wid + 70])) (\<lambda>(p, buf).
     rbind (if neg_flag then rbind (bput p CHR ''-'' buf) (\<lambda>buf. Ret (p + 1, buf)) else Ret (p, buf))
       (\<lambda>(actualLength, buf).
     let wid = (if wid < actualLength then actualLength else wid);
         padc = (if ladjust then CHR '' '' else padc)
     in rbind (if neg_flag \<and> \<not> ladjust \<and> padc = CHR ''0''
               then rbind (pad_loop (actualLength - 1) (wid - 1) padc buf) (bput (wid - 1) CHR ''-'')
               else pad_loop actualLength wid padc buf) (\<lambda>buf.
        let end = (if ladjust then actualLength - 1 else wid - 1);
            buf = rev_loop 0 end buf
        in Ret (out d (take wid buf)))))"

section \<open>vprintfmt\<close>

text \<open>The width; exceeding the range of \<open>int\<close> is undefined.\<close>

fun get_width :: "nat \<Rightarrow> string \<Rightarrow> (nat \<times> string) res" where
  "get_width w [] = Ret (w, [])"
| "get_width w (c # fmt) =
     (if 48 \<le> (of_char c :: nat) \<and> of_char c \<le> (57 :: nat)
      then if w * 10 + of_char c < 2 ^ 31 then get_width (w * 10 + of_char c - 48) fmt
        else Fault ''width overflow''
      else Ret (w, c # fmt))"

definition skip_flag :: "char \<Rightarrow> string \<Rightarrow> bool \<times> string" where
  "skip_flag c fmt = (case fmt of x # rest \<Rightarrow> if x = c then (True, rest) else (False, fmt) | [] \<Rightarrow> (False, []))"

text \<open>One conversion, after the flags: the result is the sink's data and the remaining arguments.\<close>

definition print_conv :: "(nat \<Rightarrow> char) \<Rightarrow> 'd sink \<Rightarrow> 'd \<Rightarrow> char \<Rightarrow> nat \<Rightarrow> bool \<Rightarrow> char \<Rightarrow> va list \<Rightarrow>
    ('d \<times> va list) res" where
  "print_conv stk out d c wid ladjust padc ap =
     (let number = (\<lambda>base upcase. rbind (va_int ap) (\<lambda>(num, ap).
            rbind (print_num stk out d num base False wid ladjust padc upcase) (\<lambda>d. Ret (d, ap))))
      in if c = CHR ''b'' then number 2 False
         else if c = CHR ''d'' \<or> c = CHR ''D'' then rbind (va_int ap) (\<lambda>(num, ap).
           let (num, neg_flag) = (if num <s 0 then (0 - num, True) else (num, False))
           in rbind (print_num stk out d num 10 neg_flag wid ladjust padc False) (\<lambda>d. Ret (d, ap)))
         else if c = CHR ''o'' \<or> c = CHR ''O'' then number 8 False
         else if c = CHR ''u'' \<or> c = CHR ''U'' then number 10 False
         else if c = CHR ''x'' then number 16 False
         else if c = CHR ''X'' then number 16 True
         else if c = CHR ''c'' then rbind (va_int ap) (\<lambda>(n, ap).
           Ret (print_char out d (char_of (unat n)) wid ladjust, ap))
         else if c = CHR ''s'' then rbind (va_str ap) (\<lambda>(s, ap). Ret (print_str out d s wid ladjust, ap))
         else Ret (out d [c], ap))"

text \<open>The part of the loop body between the percent sign and the \<open>switch\<close>.\<close>

definition get_spec :: "string \<Rightarrow> ((bool \<times> char \<times> nat) \<times> string) res" where
  "get_spec fmt =
     (let (ladjust, fmt) = skip_flag CHR ''-'' fmt;
          (zero, fmt) = skip_flag CHR ''0'' fmt;
          padc = (if zero then CHR ''0'' else CHR '' '')
      in rbind (get_width 0 fmt) (\<lambda>(wid, fmt).
         let (long_flag, fmt) = skip_flag CHR ''l'' fmt
         in Ret ((ladjust, padc, wid), fmt)))"

lemma skip_flag_len: "length (snd (skip_flag c fmt)) \<le> length fmt"
  by (auto simp: skip_flag_def split: list.split)

lemma get_width_len: "get_width w fmt = Ret (n, fmt') \<Longrightarrow> length fmt' \<le> length fmt"
  by (induction w fmt rule: get_width.induct) (auto split: if_splits)

lemma get_spec_len: "get_spec fmt = Ret (x, fmt') \<Longrightarrow> length fmt' \<le> length fmt"
proof -
  assume a: "get_spec fmt = Ret (x, fmt')"
  obtain l f1 where 1: "skip_flag CHR ''-'' fmt = (l, f1)" by fastforce
  obtain z f2 where 2: "skip_flag CHR ''0'' f1 = (z, f2)" by fastforce
  from a 1 2 obtain w f3 where 3: "get_width 0 f2 = Ret (w, f3)" "fmt' = snd (skip_flag CHR ''l'' f3)"
    by (fastforce simp: get_spec_def res_simps case_prod_unfold)
  show ?thesis
    using skip_flag_len[of "CHR ''-''" fmt] skip_flag_len[of "CHR ''0''" f1] get_width_len[OF 3(1)]
      skip_flag_len[of "CHR ''l''" f3] 1 2 3(2) by simp
qed

lemma dropWhile_Cons_len: "dropWhile P xs = y # ys \<Longrightarrow> length ys < length xs"
  using length_dropWhile_le[of P xs] by simp

function vprintfmt :: "(nat \<Rightarrow> char) \<Rightarrow> 'd sink \<Rightarrow> 'd \<Rightarrow> string \<Rightarrow> va list \<Rightarrow> 'd res" where
  "vprintfmt stk out d fmt ap =
     (let d = out d (takeWhile (\<lambda>c. c \<noteq> CHR ''%'') fmt)
      in case dropWhile (\<lambda>c. c \<noteq> CHR ''%'') fmt of
        [] \<Rightarrow> Ret d
      | _ # fmt' \<Rightarrow>
          (case get_spec fmt' of
             Ret ((ladjust, padc, wid), fmt'') \<Rightarrow>
               (case fmt'' of [] \<Rightarrow> vprintfmt stk out d [] ap
                | c # fmt3 \<Rightarrow>
                    (case print_conv stk out d c wid ladjust padc ap of
                       Ret (d, ap) \<Rightarrow> vprintfmt stk out d fmt3 ap
                     | Panic e \<Rightarrow> Panic e
                     | Fault e \<Rightarrow> Fault e))
           | Panic e \<Rightarrow> Panic e
           | Fault e \<Rightarrow> Fault e))"
  by pat_completeness auto
termination
  by (relation "measure (\<lambda>(stk, out, d, fmt, ap). length fmt)")
    (auto dest!: get_spec_len dropWhile_Cons_len)

declare vprintfmt.simps [simp del]

section \<open>The loops of print\_num\<close>

text \<open>The digits of a number, least significant first.\<close>

function ldigs :: "bool \<Rightarrow> nat \<Rightarrow> nat \<Rightarrow> string" where
  "ldigs upcase base u = digit_char upcase (u mod base) #
     (if 2 \<le> base \<and> u div base \<noteq> 0 then ldigs upcase base (u div base) else [])"
  by pat_completeness auto
termination
proof (relation "measure (\<lambda>(upcase, base, u). u)", goal_cases)
  case (2 upcase base u)
  then have "0 < u" by (cases u) auto
  with 2 show ?case by simp
qed simp

declare ldigs.simps [simp del]

lemma ldigs_length_pos: "0 < length (ldigs up base u)"
  by (subst ldigs.simps) simp

lemma ldigs_length: "u < 2 ^ n \<Longrightarrow> length (ldigs up base u) \<le> max 1 n"
proof (induction up base u arbitrary: n rule: ldigs.induct)
  case (1 up base u)
  show ?case
  proof (cases "2 \<le> base \<and> u div base \<noteq> 0")
    case True
    have "u div base \<le> u div 2" using True by (simp add: div_le_mono2)
    moreover from True have "0 < u div 2" using \<open>u div base \<le> u div 2\<close> by linarith
    then have "2 \<le> u" by simp
    then have "1 < n" using 1(2) by (cases n; cases "n - 1") auto
    then obtain k where k: "n = Suc k" "0 < k" by (cases n) auto
    ultimately have "u div base < 2 ^ k" using 1(2) by auto
    from 1(1)[OF True this] k show ?thesis
      using True by (subst ldigs.simps) simp
  next
    case False
    then show ?thesis by (subst ldigs.simps) auto
  qed
qed

lemma bput_ok: "i < length buf \<Longrightarrow> bput i c buf = Ret (take i buf @ c # drop (Suc i) buf)"
  by (simp add: bput_def upd_conv_take_nth_drop)

lemma digits_loop_eq:
  "2 \<le> base \<Longrightarrow> p + length (ldigs up base u) \<le> length buf \<Longrightarrow>
   digits_loop u base up p buf = Ret (p + length (ldigs up base u),
     take p buf @ ldigs up base u @ drop (p + length (ldigs up base u)) buf)"
proof (induction up base u arbitrary: p buf rule: ldigs.induct)
  case (1 up base u)
  let ?c = "digit_char up (u mod base)"
  have lt: "p < length buf" using 1(3) ldigs_length_pos[of up base u] by linarith
  show ?case
  proof (cases "u div base \<noteq> 0")
    case True
    with 1(2) have ld: "ldigs up base u = ?c # ldigs up base (u div base)" by (subst ldigs.simps) simp
    let ?b = "take p buf @ ?c # drop (Suc p) buf"
    have "digits_loop (u div base) base up (p + 1) ?b = Ret (p + 1 + length (ldigs up base (u div base)),
       take (p + 1) ?b @ ldigs up base (u div base) @ drop (p + 1 + length (ldigs up base (u div base))) ?b)"
      by (rule 1(1)) (use True 1(2,3) ld lt in auto)
    with True 1(2) lt ld show ?thesis
      by (subst digits_loop.simps) (simp add: bput_ok min_def add.commute)
  next
    case False
    then have "ldigs up base u = [?c]" by (subst ldigs.simps) simp
    with False 1(2) lt show ?thesis by (subst digits_loop.simps) (simp add: bput_ok)
  qed
qed

lemma pad_loop_eq:
  "i \<le> hi \<Longrightarrow> hi \<le> length buf \<Longrightarrow>
   pad_loop i hi c buf = Ret (take i buf @ replicate (hi - i) c @ drop hi buf)"
proof (induction "hi - i" arbitrary: i buf)
  case 0
  then show ?case by (subst pad_loop.simps) simp
next
  case (Suc n)
  let ?b = "take i buf @ c # drop (Suc i) buf"
  have "pad_loop (i + 1) hi c ?b = Ret (take (i + 1) ?b @ replicate (hi - (i + 1)) c @ drop hi ?b)"
    by (rule Suc.hyps(1)) (use Suc in auto)
  moreover have "replicate (hi - i) c = c # replicate (hi - (i + 1)) c"
    using Suc.hyps(2) by (metis Suc_diff_Suc Suc_eq_plus1 replicate_Suc zero_less_Suc zero_less_diff)
  moreover have "i < hi" "i < length buf" using Suc by auto
  ultimately show ?case
    by (subst pad_loop.simps) (auto simp: bput_ok min_def drop_Cons split: nat.split)
qed

lemma rev_loop_nth:
  "e < length buf \<Longrightarrow> length (rev_loop b e buf) = length buf \<and>
   (\<forall>i < length buf. rev_loop b e buf ! i = (if b \<le> i \<and> i \<le> e then buf ! (b + e - i) else buf ! i))"
proof (induction "e - b" arbitrary: b e buf rule: less_induct)
  case less
  show ?case
  proof (cases "b < e")
    case True
    let ?b = "buf[b := buf ! e, e := buf ! b]"
    have r: "rev_loop b e buf = rev_loop (b + 1) (e - 1) ?b" using True by (subst rev_loop.simps) simp
    have IH: "length (rev_loop (b + 1) (e - 1) ?b) = length ?b \<and>
      (\<forall>i < length ?b. rev_loop (b + 1) (e - 1) ?b ! i =
        (if b + 1 \<le> i \<and> i \<le> e - 1 then ?b ! (b + 1 + (e - 1) - i) else ?b ! i))"
      by (rule less(1)) (use True less(2) in auto)
    show ?thesis unfolding r using IH True less(2)
      by (auto simp: nth_list_update)
  next
    case False
    then have "b \<le> i \<and> i \<le> e \<longrightarrow> b + e - i = i" for i by auto
    with False show ?thesis by (auto simp: rev_loop.simps[of b])
  qed
qed

lemma rev_loop_eq:
  assumes "0 < n" "n \<le> length buf"
  shows "rev_loop 0 (n - 1) buf = rev (take n buf) @ drop n buf"
proof (rule nth_equalityI)
  note r = rev_loop_nth[of "n - 1" buf 0]
  show "length (rev_loop 0 (n - 1) buf) = length (rev (take n buf) @ drop n buf)"
    using r assms by simp
  fix i assume "i < length (rev_loop 0 (n - 1) buf)"
  then show "rev_loop 0 (n - 1) buf ! i = (rev (take n buf) @ drop n buf) ! i"
    using r assms by (auto simp: nth_append rev_nth)
qed

section \<open>Properties\<close>

text \<open>The text of a number: sign, digits and padding to a width.\<close>

definition num_text :: "nat \<Rightarrow> nat \<Rightarrow> bool \<Rightarrow> nat \<Rightarrow> bool \<Rightarrow> char \<Rightarrow> bool \<Rightarrow> string" where
  "num_text u base neg wid ladjust padc up =
     (let ds = rev (ldigs up base u); sgn = (if neg then ''-'' else []);
          pad = wid - length (sgn @ ds)
      in if ladjust then sgn @ ds @ replicate pad CHR '' ''
         else if padc = CHR ''0'' then sgn @ replicate pad CHR ''0'' @ ds
         else replicate pad padc @ sgn @ ds)"

definition digit_val :: "char \<Rightarrow> nat" where
  "digit_val c = (let n = of_char c in if n \<le> 57 then n - 48 else if n \<le> 70 then n - 55 else n - 87)"

definition num_value :: "nat \<Rightarrow> string \<Rightarrow> nat" where
  "num_value base ds = foldl (\<lambda>a c. a * base + digit_val c) 0 ds"

lemma digit_val_char: "n < 16 \<Longrightarrow> digit_val (digit_char up n) = n"
  by (auto simp: digit_val_def digit_char_def Let_def)

lemma num_value_ldigs:
  "2 \<le> base \<Longrightarrow> base \<le> 16 \<Longrightarrow> num_value base (rev (ldigs up base u)) = u"
proof (induction up base u rule: ldigs.induct)
  case (1 up base u)
  have d: "digit_val (digit_char up (u mod base)) = u mod base"
    by (rule digit_val_char) (use 1(2,3) in \<open>auto intro: less_le_trans[OF mod_less_divisor]\<close>)
  show ?case
  proof (cases "u div base \<noteq> 0")
    case True
    then have "num_value base (rev (ldigs up base (u div base))) = u div base" using 1 by simp
    with True 1(2) d show ?thesis by (subst ldigs.simps) (simp add: num_value_def)
  next
    case False
    then have "u < base" using 1(2) by (auto simp: div_eq_0_iff)
    with d False show ?thesis by (subst ldigs.simps) (simp add: num_value_def)
  qed
qed

text \<open>The part of \<open>print_num\<close> after the sign: padding, reversal and output.\<close>

lemma pad_reverse:
  fixes a r :: string and c :: char and w :: nat
  assumes "0 < length a" "length a \<le> w" "w \<le> length (a @ r)"
  defines "b \<equiv> a @ replicate (w - length a) c @ drop (w - length a) r"
  shows "pad_loop (length a) w c (a @ r) = Ret b"
    "take w (rev_loop 0 (length a - 1) b) = rev a @ replicate (w - length a) c"
    "take w (rev_loop 0 (w - 1) b) = replicate (w - length a) c @ rev a"
proof -
  show "pad_loop (length a) w c (a @ r) = Ret b"
    using pad_loop_eq[of "length a" w "a @ r" c] assms by simp
  show "take w (rev_loop 0 (length a - 1) b) = rev a @ replicate (w - length a) c"
    using rev_loop_eq[of "length a" b] assms by simp
  show "take w (rev_loop 0 (w - 1) b) = replicate (w - length a) c @ rev a"
    using rev_loop_eq[of w b] assms by simp
qed

text \<open>A negative number padded with zeros: the sign moves in front of the padding.\<close>

lemma pad_reverse_neg:
  assumes "Suc (length ds) \<le> w" "w \<le> length (ds @ CHR ''-'' # r)"
  shows "\<exists>b. rbind (pad_loop (length ds) (w - 1) c (ds @ CHR ''-'' # r)) (bput (w - 1) CHR ''-'') = Ret b \<and>
    take w (rev_loop 0 (w - 1) b) = CHR ''-'' # replicate (w - Suc (length ds)) c @ rev ds"
proof -
  let ?x = "ds @ CHR ''-'' # r" and ?k = "w - Suc (length ds)"
  obtain t where t: "drop (w - 1) ?x = t" "t \<noteq> []" using assms by fastforce
  have p: "pad_loop (length ds) (w - 1) c ?x = Ret (ds @ replicate ?k c @ t)"
    using pad_loop_eq[of "length ds" "w - 1" ?x c] assms t(1) by (simp add: Suc_diff_Suc)
  have l: "w - 1 = length (ds @ replicate ?k c)" using assms by simp
  have "bput (w - 1) CHR ''-'' (ds @ replicate ?k c @ t) = Ret ((ds @ replicate ?k c) @ CHR ''-'' # tl t)"
    using t(2) unfolding l by (subst bput_ok) (auto simp: drop_Suc)
  moreover have "rev_loop 0 (w - 1) ((ds @ replicate ?k c) @ CHR ''-'' # tl t) =
      rev (ds @ replicate ?k c @ ''-'') @ tl t"
    using rev_loop_eq[of w "(ds @ replicate ?k c) @ CHR ''-'' # tl t"] assms by (simp add: Suc_diff_le)
  moreover have "take w (rev (ds @ replicate ?k c @ ''-'') @ tl t) = rev (ds @ replicate ?k c @ ''-'')"
  proof -
    define z where "z = rev (ds @ replicate ?k c @ ''-'')"
    have "w = length z" using assms by (simp add: z_def)
    then show ?thesis unfolding z_def[symmetric] by simp
  qed
  ultimately show ?thesis using p by simp
qed

lemma print_num_eq:
  assumes "2 \<le> base"
  shows "print_num stk out d u base neg wid ladjust padc up =
    Ret (out d (num_text (unat u) base neg wid ladjust padc up))"
proof -
  define ds where "ds = ldigs up base (unat u)"
  have len: "length ds \<le> 32" "0 < length ds"
    using ldigs_length[of "unat u" 32 up base] unat_lt32[of u] ldigs_length_pos by (simp_all add: ds_def)
  let ?buf = "map stk [0..<wid + 70]"
  define r where "r = drop (length ds) ?buf"
  have r: "length r = wid + 70 - length ds" by (simp add: r_def)
  obtain x r' where r': "r = x # r'" using r len by (cases r) auto
  have dl: "digits_loop (unat u) base up 0 ?buf = Ret (length ds, ds @ r)"
    using digits_loop_eq[OF assms, of 0 up "unat u" ?buf] len by (simp add: ds_def r_def)
  define sgn where "sgn = (if neg then ''-'' else [])"
  define r1 where "r1 = (if neg then r' else r)"
  have sg: "(if neg then rbind (bput (length ds) CHR ''-'' (ds @ r)) (\<lambda>buf. Ret (length ds + 1, buf))
      else Ret (length ds, ds @ r)) = Ret (length (ds @ sgn), (ds @ sgn) @ r1)"
    by (simp add: bput_ok r' sgn_def r1_def)
  define w where "w = (if wid < length (ds @ sgn) then length (ds @ sgn) else wid)"
  have w: "0 < length (ds @ sgn)" "length (ds @ sgn) \<le> w" "w \<le> length ((ds @ sgn) @ r1)"
    "w - length (ds @ sgn) = wid - length (ds @ sgn)"
    using len r r' by (auto simp: w_def sgn_def r1_def)
  note pr = pad_reverse[OF w(1-3)]
  show ?thesis
  proof (cases "neg \<and> \<not> ladjust \<and> padc = CHR ''0''")
    case True
    then obtain b where "rbind (pad_loop (length ds) (w - 1) CHR ''0'' (ds @ CHR ''-'' # r1)) (bput (w - 1) CHR ''-'') = Ret b"
      "take w (rev_loop 0 (w - 1) b) = CHR ''-'' # replicate (w - Suc (length ds)) CHR ''0'' @ rev ds"
      using pad_reverse_neg[of ds w r1 "CHR ''0''"] w by (auto simp: sgn_def)
    with True w show ?thesis
      unfolding print_num_def dl rbind_simps case_prod_conv sg Let_def w_def[symmetric]
      by (simp add: num_text_def sgn_def Let_def flip: ds_def)
  next
    case False
    with w(4) pr show ?thesis
      unfolding print_num_def dl rbind_simps case_prod_conv sg Let_def w_def[symmetric]
      by (auto simp: num_text_def sgn_def Let_def simp flip: ds_def)
  qed
qed

text \<open>
  \<open>print_num\<close> in any base from 2 to 16 never stores outside its buffer of \<open>length + 70\<close>
  characters whatever that buffer held before, and sends to the sink one string: the sign and the
  digits of the number, padded to the width on the right with blanks when left-adjusted, otherwise
  on the left, where zeros go between the sign and the digits. Read back, the digits denote the
  number.
\<close>

theorem print_num_correct:
  assumes "2 \<le> base" "base \<le> 16"
  shows "print_num stk out d u base neg wid ladjust padc up =
      Ret (out d (num_text (unat u) base neg wid ladjust padc up)) \<and>
    wid \<le> length (num_text (unat u) base neg wid ladjust padc up) \<and>
    num_value base (rev (ldigs up base (unat u))) = unat u"
proof -
  have "wid \<le> length (num_text (unat u) base neg wid ladjust padc up)"
    by (auto simp: num_text_def Let_def)
  then show ?thesis by (simp add: print_num_eq[OF assms(1)] num_value_ldigs[OF assms])
qed

theorem print_num_correct_witness:
  "print_num (\<lambda>_. CHR ''?'') (@) [] 42 10 True 6 False CHR ''0'' False = Ret ''-00042''"
proof -
  have "num_text 42 10 True 6 False CHR ''0'' False = ''-00042''" by code_simp
  then show ?thesis
    using print_num_correct[of 10 "\<lambda>_. CHR ''?''" "(@)" "[]" 42 True 6 False "CHR ''0''" False]
    by simp
qed

text \<open>The step of \<open>vprintfmt\<close> for \<open>%d\<close>.\<close>

lemma vprintfmt_decimal_ok:
  assumes "CHR ''%'' \<notin> set lit"
  shows "vprintfmt stk out d (lit @ ''%d'' @ rest) (AInt n # ap) =
    vprintfmt stk out (out (out d lit) (num_text (nat \<bar>sint n\<bar>) 10 (sint n < 0) 0 False CHR '' '' False)) rest ap"
proof -
  have tw: "takeWhile (\<lambda>c. c \<noteq> CHR ''%'') (lit @ ''%d'' @ rest) = lit"
    "dropWhile (\<lambda>c. c \<noteq> CHR ''%'') (lit @ ''%d'' @ rest) = ''%d'' @ rest"
    using assms by (subst takeWhile_append2 dropWhile_append2; auto)+
  have gs: "get_spec (CHR ''d'' # rest) = Ret ((False, CHR '' '', 0), CHR ''d'' # rest)"
    by (simp add: get_spec_def skip_flag_def)
  have u: "unat (- n) = nat (- sint n)" if "sint n < 0"
  proof -
    have b: "2 ^ 31 \<le> uint n" "uint n < 2 ^ 32" "sint n = uint n - 2 ^ 32"
      using that sint32[of n] uint_ge_0[of n] unsigned_less[of n, where ?'a = int] by (auto split: if_splits)
    have "uint (0 - n) = (0 - uint n + 2 ^ 32) mod 2 ^ 32" by (simp add: uint_word_ariths)
    moreover have "\<dots> = 0 - uint n + 2 ^ 32" using b by (intro mod_pos_pos_trivial) auto
    ultimately have "uint (0 - n) = - sint n" using b(3) by simp
    then show ?thesis by (simp add: unat_eq_nat_uint)
  qed
  have v: "unat n = nat (sint n)" if "\<not> sint n < 0"
  proof -
    have "sint n = uint n"
      using that sint32[of n] unsigned_less[of n, where ?'a = int] by (simp split: if_splits)
    then show ?thesis by (simp only: unat_eq_nat_uint)
  qed
  show ?thesis
    unfolding vprintfmt.simps[of stk out d "lit @ ''%d'' @ rest"] tw Let_def
    by (simp add: gs print_conv_def Let_def print_num_eq word_sless_alt u v)
qed

text \<open>
  The conversion \<open>%d\<close>, without flags, after literal text: \<open>vprintfmt\<close> sends the literal text, then
  the decimal text of the argument as a signed 32-bit integer (the most negative one included),
  and goes on with the rest of the format and of the arguments.
\<close>

theorem vprintfmt_decimal:
  assumes "CHR ''%'' \<notin> set lit"
  shows "vprintfmt stk out d (lit @ ''%d'' @ rest) (AInt n # ap) =
    vprintfmt stk out (out (out d lit) (num_text (nat \<bar>sint n\<bar>) 10 (sint n < 0) 0 False CHR '' '' False)) rest ap"
  by (rule vprintfmt_decimal_ok[OF assms])

theorem vprintfmt_decimal_witness:
  "vprintfmt (\<lambda>_. CHR ''?'') (@) [] ''n=%d;'' [AInt 0xFFFFFFD6] = Ret ''n=-42;''"
proof -
  have t: "num_text (nat \<bar>sint (0xFFFFFFD6 :: u32)\<bar>) 10 (sint (0xFFFFFFD6 :: u32) < 0) 0 False CHR '' '' False
      = ''-42''"
    unfolding sint32 by simp code_simp
  have "vprintfmt (\<lambda>_. CHR ''?'') (@) ''n=-42'' '';'' [] = Ret ''n=-42;''"
    by (subst vprintfmt.simps) simp
  then show ?thesis
    using vprintfmt_decimal[of "''n=''" "\<lambda>_. CHR ''?''" "(@)" "[]" "'';''" "0xFFFFFFD6" "[]"]
    unfolding t by simp
qed

lemma out_times_append: "out_times (@) s n d = d @ concat (replicate n s)"
  by (induction n arbitrary: d) auto

text \<open>
  \<open>print_str\<close> and \<open>print_char\<close>, on a sink that appends, write the text once and blanks up to the
  width, to its right when left-adjusted and to its left otherwise; a text wider than the width is
  written whole.
\<close>

theorem print_text_correct:
  "print_str (@) d s wid ladjust =
     (let blanks = replicate (wid - length s) CHR '' '' in d @ (if ladjust then s @ blanks else blanks @ s)) \<and>
   print_char (@) d c wid ladjust =
     (let blanks = replicate (wid - 1) CHR '' '' in d @ (if ladjust then c # blanks else blanks @ [c]))"
proof -
  have "concat (replicate n '' '') = replicate n CHR '' ''" for n by (induction n) auto
  then show ?thesis
    by (auto simp: print_str_def print_char_def out_times_append Let_def)
qed

end
