(* ===== verification/Elf.thy ===== *)
theory Elf
  imports Prelude
begin

text \<open>
  The ELF loader shared by kernel and user programs, \<^verbatim>\<open>lib/elfloader.c\<close> and \<^verbatim>\<open>include/elf.h\<close>.
  An image is the list of its bytes, and reading beyond it is a fault. \<open>elf_load_seg\<close> is generic
  in the mapper it calls, as in the code; the mapper's \<open>src\<close> argument is the image from the pointer
  on, or None for NULL. Sizes are 32-bit; a loop index that would wrap around is a fault.
\<close>

lemma page_step:
  assumes "\<not> i + BY2PG < i"
  shows "unat (i + BY2PG) = unat i + 4096"
proof (cases "unat i + 4096 < 2 ^ 32")
  case True
  then show ?thesis by (simp add: unat_word_ariths BY2PG_def)
next
  case False
  then have "(unat i + 4096) mod 2 ^ 32 = unat i + 4096 - 2 ^ 32"
    using unat_lt32[of i] by (simp add: mod_if)
  with False assms show ?thesis
    using unat_lt32[of i] by (simp add: word_less_nat_alt unat_word_ariths BY2PG_def)
qed

section \<open>Headers\<close>

definition byte_at :: "u8 list \<Rightarrow> nat \<Rightarrow> u8 res" where
  "byte_at bin i = (if i < length bin then Ret (bin ! i) else Fault ''read outside the image'')"

definition half_at :: "u8 list \<Rightarrow> nat \<Rightarrow> u16 res" where
  "half_at bin i = rbind (byte_at bin i) (\<lambda>a. rbind (byte_at bin (i + 1)) (\<lambda>b.
     Ret (ucast a OR push_bit 8 (ucast b))))"

definition word_at :: "u8 list \<Rightarrow> nat \<Rightarrow> u32 res" where
  "word_at bin i = rbind (half_at bin i) (\<lambda>a. rbind (half_at bin (i + 2)) (\<lambda>b.
     Ret (ucast a OR push_bit 16 (ucast b))))"

definition e_type :: "u8 list \<Rightarrow> u16 res" where "e_type bin = half_at bin 16"
definition e_entry :: "u8 list \<Rightarrow> u32 res" where "e_entry bin = word_at bin 24"
definition e_phoff :: "u8 list \<Rightarrow> u32 res" where "e_phoff bin = word_at bin 28"
definition e_phentsize :: "u8 list \<Rightarrow> u16 res" where "e_phentsize bin = half_at bin 42"
definition e_phnum :: "u8 list \<Rightarrow> u16 res" where "e_phnum bin = half_at bin 44"

definition sizeof_Ehdr :: u32 where "sizeof_Ehdr = 52"

record phdr =
  p_type :: u32
  p_offset :: u32
  p_vaddr :: u32
  p_filesz :: u32
  p_memsz :: u32
  p_flags :: u32

definition phdr_at :: "u8 list \<Rightarrow> u32 \<Rightarrow> phdr res" where
  "phdr_at bin off = rbind (word_at bin (unat off)) (\<lambda>t. rbind (word_at bin (unat off + 4)) (\<lambda>o'.
     rbind (word_at bin (unat off + 8)) (\<lambda>v. rbind (word_at bin (unat off + 16)) (\<lambda>f.
     rbind (word_at bin (unat off + 20)) (\<lambda>m. rbind (word_at bin (unat off + 24)) (\<lambda>fl.
     Ret \<lparr>p_type = t, p_offset = o', p_vaddr = v, p_filesz = f, p_memsz = m, p_flags = fl\<rparr>))))))"

definition PT_LOAD :: u32 where "PT_LOAD = 1"
definition PF_W :: u32 where "PF_W = 2"

section \<open>elf\_from\<close>

definition elf_from :: "u8 list \<Rightarrow> u32 \<Rightarrow> bool res" where
  "elf_from bin sz =
     (if sz < sizeof_Ehdr then Ret False
      else rbind (byte_at bin 0) (\<lambda>m0. rbind (byte_at bin 1) (\<lambda>m1. rbind (byte_at bin 2) (\<lambda>m2.
        rbind (byte_at bin 3) (\<lambda>m3. rbind (e_type bin) (\<lambda>ty.
          Ret (m0 = 0x7f \<and> m1 = 0x45 \<and> m2 = 0x4c \<and> m3 = 0x46 \<and> ty = 2)))))))"

section \<open>elf\_load\_seg\<close>

type_synonym 's elf_mapper = "'s \<Rightarrow> u32 \<Rightarrow> u32 \<Rightarrow> u32 \<Rightarrow> u8 list option \<Rightarrow> u32 \<Rightarrow> (int \<times> 's) res"

definition seg_perm :: "phdr \<Rightarrow> u32" where
  "seg_perm ph = (if p_flags ph AND PF_W \<noteq> 0 then PTE_V OR PTE_D else PTE_V)"

text \<open>The loop of step 1: the contents of the segment.\<close>

function load_content :: "'s elf_mapper \<Rightarrow> u32 \<Rightarrow> u32 \<Rightarrow> u8 list \<Rightarrow> u32 \<Rightarrow> u32 \<Rightarrow> 's \<Rightarrow> ((int \<times> u32) \<times> 's) res" where
  "load_content map_page va perm bin bin_size i s =
     (if i < bin_size
      then (case map_page s (va + i) 0 perm (Some (drop (unat i) bin)) (min (bin_size - i) BY2PG) of
          Ret (r, s) \<Rightarrow> if r \<noteq> 0 then Ret ((r, i), s)
             else if i + BY2PG < i then Fault ''index wraps around''
             else load_content map_page va perm bin bin_size (i + BY2PG) s
        | Panic e \<Rightarrow> Panic e | Fault e \<Rightarrow> Fault e)
      else Ret ((0, i), s))"
  by pat_completeness auto
termination
proof (relation "measure (\<lambda>(map_page, va, perm, bin, bin_size, i, s). 2 ^ 32 - unat i)", goal_cases)
  case (2 map_page va perm bin bin_size i s)
  then have "unat (i + BY2PG) = unat i + 4096" by (intro page_step)
  then show ?case using unat_lt32[of "i + BY2PG"] by simp
qed simp

text \<open>The loop of step 2: zeroed pages up to the size in memory.\<close>

function load_bss :: "'s elf_mapper \<Rightarrow> u32 \<Rightarrow> u32 \<Rightarrow> u32 \<Rightarrow> u32 \<Rightarrow> u32 \<Rightarrow> 's \<Rightarrow> (int \<times> 's) res" where
  "load_bss map_page va perm bin_size sgsize i s =
     (if i < sgsize
      then (case map_page s (va + i) 0 perm None (min (bin_size - i) BY2PG) of
          Ret (r, s) \<Rightarrow> if r \<noteq> 0 then Ret (r, s)
             else if i + BY2PG < i then Fault ''index wraps around''
             else load_bss map_page va perm bin_size sgsize (i + BY2PG) s
        | Panic e \<Rightarrow> Panic e | Fault e \<Rightarrow> Fault e)
      else Ret (0, s))"
  by pat_completeness auto
termination
proof (relation "measure (\<lambda>(map_page, va, perm, bin_size, sgsize, i, s). 2 ^ 32 - unat i)", goal_cases)
  case (2 map_page va perm bin_size sgsize i s)
  then have "unat (i + BY2PG) = unat i + 4096" by (intro page_step)
  then show ?case using unat_lt32[of "i + BY2PG"] by simp
qed simp

declare load_content.simps [simp del] load_bss.simps [simp del]

definition elf_load_seg :: "phdr \<Rightarrow> u8 list \<Rightarrow> 's elf_mapper \<Rightarrow> 's \<Rightarrow> (int \<times> 's) res" where
  "elf_load_seg ph bin map_page s =
     (let va = p_vaddr ph; bin_size = p_filesz ph; sgsize = p_memsz ph; perm = seg_perm ph;
          offset = va - ROUNDDOWN va BY2PG
      in rbind (if offset \<noteq> 0
                then map_page s va offset perm (Some bin) (min bin_size (BY2PG - offset))
                else Ret (0, s)) (\<lambda>(r, s).
         if r \<noteq> 0 then Ret (r, s)
         else rbind (load_content map_page va perm bin bin_size
                (if offset \<noteq> 0 then min bin_size (BY2PG - offset) else 0) s) (\<lambda>((r, i), s).
           if r \<noteq> 0 then Ret (r, s)
           else load_bss map_page va perm bin_size sgsize i s)))"

text \<open>The iteration of \<open>ELF_FOREACH_PHDR_OFF\<close> in \<open>load_icode\<close>: the offsets of the headers.\<close>

definition phdr_offsets :: "u8 list \<Rightarrow> u32 list res" where
  "phdr_offsets bin = rbind (e_phoff bin) (\<lambda>off. rbind (e_phnum bin) (\<lambda>n. rbind (e_phentsize bin) (\<lambda>sz.
     Ret (map (\<lambda>k. off + of_nat k * ucast sz) [0..<unat n]))))"

end
