(* ===== verification/Strings.thy ===== *)
theory Strings
  imports Prelude
begin

text \<open>
  The string library of kernel and user programs, \<^verbatim>\<open>lib/string.c\<close>. Memory is a function from
  addresses to bytes; addresses are natural numbers, since C leaves pointer arithmetic beyond an
  object undefined. The target is little endian and its plain \<open>char\<close> is signed. Loops bounded by a
  pointer are total functions; loops that run until a NUL byte are partial functions, and that they
  return is proved. The word-wise \<open>memcpy\<close> and \<open>memset\<close> are shown to be the byte-wise ones.
\<close>

type_synonym mem = "nat \<Rightarrow> u8"

section \<open>Word accesses\<close>

definition load32 :: "mem \<Rightarrow> nat \<Rightarrow> u32" where
  "load32 m a = ucast (m a) OR push_bit 8 (ucast (m (a + 1))) OR push_bit 16 (ucast (m (a + 2))) OR
     push_bit 24 (ucast (m (a + 3)))"

definition store32 :: "nat \<Rightarrow> u32 \<Rightarrow> mem \<Rightarrow> mem" where
  "store32 a w m = m(a := ucast w, a + 1 := ucast (drop_bit 8 w), a + 2 := ucast (drop_bit 16 w),
     a + 3 := ucast (drop_bit 24 w))"

section \<open>memcpy\<close>

function copy_bytes :: "nat \<Rightarrow> nat \<Rightarrow> nat \<Rightarrow> mem \<Rightarrow> nat \<times> nat \<times> mem" where
  "copy_bytes dst src mx m =
     (if dst < mx then copy_bytes (dst + 1) (src + 1) mx (m(dst := m src)) else (dst, src, m))"
  by pat_completeness auto
termination by (relation "measure (\<lambda>(dst, src, mx, m). mx - dst)") auto

function copy_align :: "nat \<Rightarrow> nat \<Rightarrow> nat \<Rightarrow> mem \<Rightarrow> nat \<times> nat \<times> mem" where
  "copy_align dst src mx m =
     (if dst mod 4 \<noteq> 0 \<and> dst < mx then copy_align (dst + 1) (src + 1) mx (m(dst := m src))
      else (dst, src, m))"
  by pat_completeness auto
termination by (relation "measure (\<lambda>(dst, src, mx, m). mx - dst)") auto

function copy_words :: "nat \<Rightarrow> nat \<Rightarrow> nat \<Rightarrow> mem \<Rightarrow> nat \<times> nat \<times> mem" where
  "copy_words dst src mx m =
     (if dst + 4 \<le> mx then copy_words (dst + 4) (src + 4) mx (store32 dst (load32 m src) m)
      else (dst, src, m))"
  by pat_completeness auto
termination by (relation "measure (\<lambda>(dst, src, mx, m). mx - dst)") auto

declare copy_bytes.simps [simp del] copy_align.simps [simp del] copy_words.simps [simp del]

definition memcpy :: "nat \<Rightarrow> nat \<Rightarrow> nat \<Rightarrow> mem \<Rightarrow> nat \<times> mem" where
  "memcpy dst src n m =
     (let dstaddr = dst; mx = dst + n
      in if src mod 4 \<noteq> dst mod 4
         then case copy_bytes dst src mx m of (_, _, m) \<Rightarrow> (dstaddr, m)
         else case copy_align dst src mx m of (dst, src, m) \<Rightarrow>
              case copy_words dst src mx m of (dst, src, m) \<Rightarrow>
              case copy_bytes dst src mx m of (_, _, m) \<Rightarrow> (dstaddr, m))"

section \<open>memset\<close>

function fill_bytes :: "nat \<Rightarrow> nat \<Rightarrow> u8 \<Rightarrow> mem \<Rightarrow> nat \<times> mem" where
  "fill_bytes dst mx b m = (if dst < mx then fill_bytes (dst + 1) mx b (m(dst := b)) else (dst, m))"
  by pat_completeness auto
termination by (relation "measure (\<lambda>(dst, mx, b, m). mx - dst)") auto

function fill_align :: "nat \<Rightarrow> nat \<Rightarrow> u8 \<Rightarrow> mem \<Rightarrow> nat \<times> mem" where
  "fill_align dst mx b m =
     (if dst mod 4 \<noteq> 0 \<and> dst < mx then fill_align (dst + 1) mx b (m(dst := b)) else (dst, m))"
  by pat_completeness auto
termination by (relation "measure (\<lambda>(dst, mx, b, m). mx - dst)") auto

function fill_words :: "nat \<Rightarrow> nat \<Rightarrow> u32 \<Rightarrow> mem \<Rightarrow> nat \<times> mem" where
  "fill_words dst mx w m =
     (if dst + 4 \<le> mx then fill_words (dst + 4) mx w (store32 dst w m) else (dst, m))"
  by pat_completeness auto
termination by (relation "measure (\<lambda>(dst, mx, w, m). mx - dst)") auto

declare fill_bytes.simps [simp del] fill_align.simps [simp del] fill_words.simps [simp del]

definition memset :: "nat \<Rightarrow> u32 \<Rightarrow> nat \<Rightarrow> mem \<Rightarrow> nat \<times> mem" where
  "memset dst c n m =
     (let dstaddr = dst; mx = dst + n;
          byte = ucast (c AND 0xff) :: u8;
          w = ucast byte OR push_bit 8 (ucast byte) OR push_bit 16 (ucast byte) OR push_bit 24 (ucast byte)
      in case fill_align dst mx byte m of (dst, m) \<Rightarrow>
         case fill_words dst mx w m of (dst, m) \<Rightarrow>
         case fill_bytes dst mx byte m of (_, m) \<Rightarrow> (dstaddr, m))"

section \<open>NUL-terminated strings\<close>

partial_function (option) strlen_loop :: "mem \<Rightarrow> nat \<Rightarrow> u32 \<Rightarrow> u32 option" where
  "strlen_loop m s n = (if m s \<noteq> 0 then strlen_loop m (s + 1) (n + 1) else Some n)"

definition strlen :: "mem \<Rightarrow> nat \<Rightarrow> u32 option" where
  "strlen m s = strlen_loop m s 0"

partial_function (option) strcpy_loop :: "nat \<Rightarrow> nat \<Rightarrow> mem \<Rightarrow> mem option" where
  "strcpy_loop dst src m =
     (let m' = m(dst := m src) in if m' dst \<noteq> 0 then strcpy_loop (dst + 1) (src + 1) m' else Some m')"

definition strcpy :: "nat \<Rightarrow> nat \<Rightarrow> mem \<Rightarrow> (nat \<times> mem) option" where
  "strcpy dst src m = map_option (Pair dst) (strcpy_loop dst src m)"

text \<open>The result 0 (NULL) of \<open>strchr\<close> is \<open>Some None\<close>.\<close>

partial_function (option) strchr :: "mem \<Rightarrow> nat \<Rightarrow> u32 \<Rightarrow> nat option option" where
  "strchr m s c = (if m s \<noteq> 0 then if scast (m s) = c then Some (Some s) else strchr m (s + 1) c
     else Some None)"

partial_function (option) strcmp_loop :: "mem \<Rightarrow> nat \<Rightarrow> nat \<Rightarrow> (nat \<times> nat) option" where
  "strcmp_loop m p q = (if m p \<noteq> 0 \<and> m p = m q then strcmp_loop m (p + 1) (q + 1) else Some (p, q))"

definition strcmp :: "mem \<Rightarrow> nat \<Rightarrow> nat \<Rightarrow> int option" where
  "strcmp m p q = (case strcmp_loop m p q of None \<Rightarrow> None
     | Some (p, q) \<Rightarrow>
         if (scast (m p) :: u32) < scast (m q) then Some (- 1)
         else if (scast (m p) :: u32) > scast (m q) then Some 1
         else Some 0)"

section \<open>Byte-wise reference and word lemmas\<close>

primrec bcopy :: "nat \<Rightarrow> nat \<Rightarrow> nat \<Rightarrow> mem \<Rightarrow> mem" where
  "bcopy 0 dst src m = m"
| "bcopy (Suc n) dst src m = bcopy n (dst + 1) (src + 1) (m(dst := m src))"

primrec bfill :: "nat \<Rightarrow> nat \<Rightarrow> u8 \<Rightarrow> mem \<Rightarrow> mem" where
  "bfill 0 dst b m = m"
| "bfill (Suc n) dst b m = bfill n (dst + 1) b (m(dst := b))"

lemma bcopy_add: "bcopy (i + j) dst src m = bcopy j (dst + i) (src + i) (bcopy i dst src m)"
  by (induction i arbitrary: dst src m) auto

lemma bfill_add: "bfill (i + j) dst b m = bfill j (dst + i) b (bfill i dst b m)"
  by (induction i arbitrary: dst m) auto

lemma bfill_apply: "bfill n dst b m = (\<lambda>a. if dst \<le> a \<and> a < dst + n then b else m a)"
  by (induction n arbitrary: dst m) (auto simp: fun_eq_iff)

lemma bytes_load32:
  "(ucast (load32 m a) :: u8) = m a" "(ucast (drop_bit 8 (load32 m a)) :: u8) = m (a + 1)"
  "(ucast (drop_bit 16 (load32 m a)) :: u8) = m (a + 2)"
  "(ucast (drop_bit 24 (load32 m a)) :: u8) = m (a + 3)"
  unfolding load32_def
  by (rule bit_word_eqI; auto simp: bit_simps dest: bit_imp_le_length)+

lemma bcopy_apply:
  assumes "dst \<le> src \<or> src + n \<le> dst"
  shows "bcopy n dst src m = (\<lambda>a. if dst \<le> a \<and> a < dst + n then m (src + (a - dst)) else m a)"
  using assms
proof (induction n arbitrary: dst src m)
  case 0
  then show ?case by (intro HOL.ext) auto
next
  case (Suc n)
  then have "Suc dst \<le> Suc src \<or> Suc src + n \<le> Suc dst" by auto
  note IH = Suc.IH[OF this]
  show ?case
  proof
    fix a
    have "Suc src + (a - Suc dst) = src + (a - dst)" if "dst < a" using that by simp
    then show "bcopy (Suc n) dst src m a = (if dst \<le> a \<and> a < dst + Suc n then m (src + (a - dst)) else m a)"
      using Suc.prems by (cases "dst < a") (auto simp: IH)
  qed
qed

lemma store32_load32:
  assumes "dst mod 4 = src mod 4"
  shows "store32 dst (load32 m src) m = bcopy 4 dst src m"
proof -
  have "a < b \<Longrightarrow> a mod 4 = b mod 4 \<Longrightarrow> a + 4 \<le> b" for a b :: nat
    using mod_eq_dvd_iff_nat[of a b 4] dvd_imp_le[of 4 "b - a"] by auto
  then have "src = dst \<or> dst + 4 \<le> src \<or> src + 4 \<le> dst"
    using assms by (metis linorder_neqE_nat)
  then have b: "bcopy 4 dst src m = (\<lambda>a. if dst \<le> a \<and> a < dst + 4 then m (src + (a - dst)) else m a)"
    by (intro bcopy_apply) auto
  have "store32 dst (load32 m src) m a = bcopy 4 dst src m a" for a
  proof (cases "dst \<le> a \<and> a < dst + 4")
    case True
    then have "a = dst \<or> a = dst + 1 \<or> a = dst + 2 \<or> a = dst + 3" by auto
    then show ?thesis unfolding b store32_def bytes_load32 by (elim disjE) simp_all
  next
    case False
    then show ?thesis unfolding b store32_def by auto
  qed
  then show ?thesis by blast
qed

lemma bfill_4: "bfill 4 dst b m = m(dst := b, dst + 1 := b, dst + 2 := b, dst + 3 := b)"
  by (auto simp: bfill_apply fun_eq_iff)

lemma store32_fill:
  fixes b :: u8
  shows "store32 dst (ucast b OR push_bit 8 (ucast b) OR push_bit 16 (ucast b) OR push_bit 24 (ucast b)) m =
    bfill 4 dst b m"
  using bytes_load32[of "\<lambda>_. b" 0] by (simp add: load32_def store32_def bfill_4)

section \<open>The loops as byte-wise operations\<close>

lemma copy_bytes_eq:
  "copy_bytes dst src mx m = (dst + (mx - dst), src + (mx - dst), bcopy (mx - dst) dst src m)"
proof (induction "mx - dst" arbitrary: dst src m)
  case 0
  then show ?case by (simp add: copy_bytes.simps)
next
  case (Suc n)
  then have n: "n = mx - (dst + 1)" "mx - dst = Suc n" "dst < mx" by simp_all
  show ?case
    unfolding copy_bytes.simps[of dst] n(2) bcopy.simps Suc.hyps(1)[OF n(1)] n(1)[symmetric]
    using n(3) by simp
qed

lemma copy_align_eq:
  "\<exists>k \<le> mx - dst. copy_align dst src mx m = (dst + k, src + k, bcopy k dst src m)"
proof (induction dst src mx m rule: copy_align.induct)
  case (1 dst src mx m)
  show ?case
  proof (cases "dst mod 4 \<noteq> 0 \<and> dst < mx")
    case True
    with 1 obtain k where "k \<le> mx - (dst + 1)"
      "copy_align (dst + 1) (src + 1) mx (m(dst := m src)) =
        (dst + 1 + k, src + 1 + k, bcopy k (dst + 1) (src + 1) (m(dst := m src)))" by blast
    moreover from this True have "Suc k \<le> mx - dst" by linarith
    ultimately show ?thesis using True by (intro exI[of _ "Suc k"]) (simp add: copy_align.simps[of dst])
  next
    case False
    then show ?thesis by (intro exI[of _ 0]) (subst copy_align.simps, auto)
  qed
qed

lemma copy_words_eq:
  "dst mod 4 = src mod 4 \<Longrightarrow>
   \<exists>k \<le> mx - dst. copy_words dst src mx m = (dst + k, src + k, bcopy k dst src m)"
proof (induction dst src mx m rule: copy_words.induct)
  case (1 dst src mx m)
  show ?case
  proof (cases "dst + 4 \<le> mx")
    case True
    have "(dst + 4) mod 4 = (src + 4) mod 4" using 1(2) by simp
    with 1(1)[OF True] obtain k where "k \<le> mx - (dst + 4)"
      "copy_words (dst + 4) (src + 4) mx (store32 dst (load32 m src) m) =
        (dst + 4 + k, src + 4 + k, bcopy k (dst + 4) (src + 4) (store32 dst (load32 m src) m))" by blast
    with True show ?thesis
      by (intro exI[of _ "4 + k"])
        (simp add: copy_words.simps[of dst] store32_load32[OF 1(2)] bcopy_add[of 4 k])
  next
    case False
    then show ?thesis by (intro exI[of _ 0]) (subst copy_words.simps, auto)
  qed
qed

lemma memcpy_bcopy: "memcpy dst src n m = (dst, bcopy n dst src m)"
proof (cases "src mod 4 = dst mod 4")
  case True
  obtain i where i: "i \<le> n" "copy_align dst src (dst + n) m = (dst + i, src + i, bcopy i dst src m)"
    using copy_align_eq[of "dst + n" dst src m] by auto
  let ?m = "bcopy i dst src m"
  have "(dst + i) mod 4 = (src + i) mod 4" using True by (metis mod_add_left_eq)
  from copy_words_eq[OF this, of "dst + n" ?m] i(1)
  obtain k where k: "k \<le> n - i" "copy_words (dst + i) (src + i) (dst + n) ?m =
      (dst + i + k, src + i + k, bcopy k (dst + i) (src + i) ?m)" by auto
  have "n = i + k + (n - (i + k))" using i k by simp
  then have "bcopy n dst src m = bcopy (n - (i + k)) (dst + (i + k)) (src + (i + k)) (bcopy (i + k) dst src m)"
    by (metis bcopy_add)
  with True i k show ?thesis
    by (simp add: memcpy_def Let_def copy_bytes_eq bcopy_add[of i k] add.assoc)
qed (simp add: memcpy_def copy_bytes_eq)

lemma fill_bytes_eq: "fill_bytes dst mx b m = (dst + (mx - dst), bfill (mx - dst) dst b m)"
proof (induction "mx - dst" arbitrary: dst m)
  case 0
  then show ?case by (simp add: fill_bytes.simps)
next
  case (Suc n)
  then have n: "n = mx - (dst + 1)" "mx - dst = Suc n" "dst < mx" by simp_all
  show ?case
    unfolding fill_bytes.simps[of dst] n(2) bfill.simps Suc.hyps(1)[OF n(1)] n(1)[symmetric]
    using n(3) by simp
qed

lemma fill_align_eq: "\<exists>k \<le> mx - dst. fill_align dst mx b m = (dst + k, bfill k dst b m)"
proof (induction dst mx b m rule: fill_align.induct)
  case (1 dst mx b m)
  show ?case
  proof (cases "dst mod 4 \<noteq> 0 \<and> dst < mx")
    case True
    with 1 obtain k where "k \<le> mx - (dst + 1)"
      "fill_align (dst + 1) mx b (m(dst := b)) = (dst + 1 + k, bfill k (dst + 1) b (m(dst := b)))" by blast
    moreover from this True have "Suc k \<le> mx - dst" by linarith
    ultimately show ?thesis using True by (intro exI[of _ "Suc k"]) (simp add: fill_align.simps[of dst])
  next
    case False
    then show ?thesis by (intro exI[of _ 0]) (subst fill_align.simps, auto)
  qed
qed

lemma fill_words_eq:
  assumes w: "\<And>dst m. store32 dst w m = bfill 4 dst b m"
  shows "\<exists>k \<le> mx - dst. fill_words dst mx w m = (dst + k, bfill k dst b m)"
proof (induction "mx - dst" arbitrary: dst m rule: less_induct)
  case less
  show ?case
  proof (cases "dst + 4 \<le> mx")
    case True
    then have "mx - (dst + 4) < mx - dst" by simp
    from less[OF this, of "store32 dst w m"] obtain k where "k \<le> mx - (dst + 4)"
      "fill_words (dst + 4) mx w (store32 dst w m) = (dst + 4 + k, bfill k (dst + 4) b (store32 dst w m))"
      by blast
    with True show ?thesis
      by (intro exI[of _ "4 + k"]) (simp add: fill_words.simps[of dst] w bfill_add[of 4 k])
  next
    case False
    then show ?thesis by (intro exI[of _ 0]) (subst fill_words.simps, auto)
  qed
qed

lemma memset_bfill: "memset dst c n m = (dst, bfill n dst (ucast c) m)"
proof -
  have b: "(ucast (c AND 0xff) :: u8) = ucast c"
  proof -
    have m: "(0xff :: u32) = mask 8" by (simp add: mask_eq_exp_minus_1)
    show ?thesis unfolding m by (rule bit_word_eqI) (auto simp: bit_simps)
  qed
  let ?b = "ucast c :: u8"
  let ?w = "ucast ?b OR push_bit 8 (ucast ?b) OR push_bit 16 (ucast ?b) OR push_bit 24 (ucast ?b) :: u32"
  obtain i where i: "i \<le> n" "fill_align dst (dst + n) ?b m = (dst + i, bfill i dst ?b m)"
    using fill_align_eq[of "dst + n" dst ?b m] by auto
  let ?m = "bfill i dst ?b m"
  obtain k where k: "k \<le> n - i" "fill_words (dst + i) (dst + n) ?w ?m = (dst + i + k, bfill k (dst + i) ?b ?m)"
    using fill_words_eq[OF store32_fill, of "dst + n" "dst + i" ?b ?m] i(1) by auto
  have "n = i + k + (n - (i + k))" using i k by simp
  then have "bfill n dst ?b m = bfill (n - (i + k)) (dst + (i + k)) ?b (bfill (i + k) dst ?b m)"
    by (metis bfill_add)
  with i k show ?thesis
    by (simp add: memset_def Let_def b fill_bytes_eq bfill_add[of i k] add.assoc)
qed

section \<open>Strings in memory\<close>

text \<open>\<open>cstr m s xs\<close>: at address \<open>s\<close> lie the non-zero bytes \<open>xs\<close> and then a NUL byte.\<close>

fun cstr :: "mem \<Rightarrow> nat \<Rightarrow> u8 list \<Rightarrow> bool" where
  "cstr m s [] = (m s = 0)"
| "cstr m s (x # xs) = (x \<noteq> 0 \<and> m s = x \<and> cstr m (s + 1) xs)"

lemma cstr_cong:
  "(\<And>i. i \<le> length xs \<Longrightarrow> m' (s' + i) = m (s + i)) \<Longrightarrow> cstr m s xs \<Longrightarrow> cstr m' s' xs"
proof (induction xs arbitrary: s s')
  case Nil
  then show ?case using Nil(1)[of 0] by simp
next
  case (Cons x xs)
  have "m' (s' + 1 + i) = m (s + 1 + i)" if "i \<le> length xs" for i
    using Cons.prems(1)[of "Suc i"] that by simp
  from Cons.IH[OF this] Cons.prems show ?case using Cons.prems(1)[of 0] by simp
qed

lemma strlen_loop_eq: "cstr m s xs \<Longrightarrow> strlen_loop m s n = Some (n + of_nat (length xs))"
proof (induction xs arbitrary: s n)
  case Nil
  then show ?case by (subst strlen_loop.simps) simp
next
  case (Cons x xs)
  then show ?case by (subst strlen_loop.simps) (simp add: add.assoc)
qed

lemma strcpy_loop_eq:
  "cstr m src xs \<Longrightarrow> dst \<le> src \<or> src + length xs < dst \<Longrightarrow>
   strcpy_loop dst src m = Some (bcopy (Suc (length xs)) dst src m)"
proof (induction xs arbitrary: dst src m)
  case Nil
  then show ?case by (subst strcpy_loop.simps) simp
next
  case (Cons x xs)
  let ?m = "m(dst := m src)"
  have "cstr ?m (src + 1) xs"
    by (rule cstr_cong[of xs _ _ m "src + 1"]) (use Cons.prems in auto)
  then have "strcpy_loop (dst + 1) (src + 1) ?m = Some (bcopy (Suc (length xs)) (dst + 1) (src + 1) ?m)"
    by (rule Cons.IH) (use Cons.prems in auto)
  with Cons.prems show ?case by (subst strcpy_loop.simps) (simp add: Let_def)
qed

lemma sint8: "sint (a :: u8) = (if uint a < 128 then uint a else uint a - 256)"
proof -
  have b: "0 \<le> uint a" "uint a < 256" using uint_ge_0[of a] unsigned_less[of a, where ?'a = int] by simp_all
  then have t: "take_bit 8 (uint a) = uint a" by (simp add: take_bit_eq_mod)
  have "bit (uint a) 7 = odd (uint a div 128)" by (simp add: bit_iff_odd)
  moreover have "uint a div 128 = (if uint a < 128 then 0 else 1)" using b by (auto simp: div_eq_dividend_iff)
  ultimately show ?thesis
    by (simp add: sint_uint signed_take_bit_eq_take_bit_minus t)
qed

lemma uint_scast8: "uint (scast (a :: u8) :: u32) = (if uint a < 128 then uint a else uint a + 4294967040)"
proof -
  have b: "0 \<le> uint a" "uint a < 256" using uint_ge_0[of a] unsigned_less[of a, where ?'a = int] by simp_all
  have "uint (scast a :: u32) = sint a mod 4294967296" 
    unfolding scast_eq uint_word_of_int by simp
  moreover have "(uint a - 256) mod 4294967296 = (uint a - 256 + 4294967296) mod 4294967296"
    by (rule mod_add_self2[symmetric])
  moreover have "\<dots> = uint a - 256 + 4294967296" using b by (intro mod_pos_pos_trivial) auto
  ultimately show ?thesis using b by (simp add: sint8)
qed

lemma scast8_less: "((scast (a :: u8) :: u32) < scast b) = (a < b)"
  using uint_ge_0[of a] unsigned_less[of a, where ?'a = int] uint_ge_0[of b]
    unsigned_less[of b, where ?'a = int]
  by (auto simp: word_less_def uint_scast8)

lemma scast8_eq: "((scast (a :: u8) :: u32) = scast b) = (a = b)"
  using scast8_less[of a b] scast8_less[of b a] by (cases a b rule: linorder_cases) auto

lemma scast8_0: "((scast (a :: u8) :: u32) = 0) = (a = 0)"
  using scast8_eq[of a 0] by simp

lemma strcmp_loop_eq:
  "cstr m p xs \<Longrightarrow> cstr m q ys \<Longrightarrow> strcmp m p q = Some (if xs = ys then 0
     else if (xs, ys) \<in> lexord {(a, b). a < b} then - 1 else 1)"
proof (induction xs arbitrary: p q ys)
  case Nil
  then show ?case
    by (cases ys) (auto simp: strcmp_def strcmp_loop.simps[of m p] scast8_less scast8_0 word_less_nat_alt unat_gt_0)
next
  case (Cons x xs)
  show ?case
  proof (cases "ys \<noteq> [] \<and> hd ys = x")
    case True
    then obtain ys' where ys: "ys = x # ys'" by (cases ys) auto
    with Cons.prems have "strcmp_loop m p q = strcmp_loop m (p + 1) (q + 1)"
      by (subst strcmp_loop.simps) simp
    then have "strcmp m p q = strcmp m (p + 1) (q + 1)" by (simp add: strcmp_def)
    moreover have "strcmp m (p + 1) (q + 1) = Some (if xs = ys' then 0
        else if (xs, ys') \<in> lexord {(a, b). a < b} then - 1 else 1)"
      by (rule Cons.IH) (use Cons.prems ys in simp_all)
    ultimately show ?thesis using ys by simp
  next
    case False
    with Cons.prems have ne: "m p \<noteq> m q" "m p = x" by (cases ys; auto)+
    then have "strcmp_loop m p q = Some (p, q)" by (subst strcmp_loop.simps) simp
    with ne Cons.prems False show ?thesis
      by (cases ys) (auto simp: strcmp_def scast8_less scast8_0 word_gt_0)
  qed
qed

lemma strchr_eq:
  fixes b :: u8
  shows "cstr m s xs \<Longrightarrow> strchr m s (scast b) = Some (if b \<in> set xs
     then Some (s + length (takeWhile (\<lambda>x. x \<noteq> b) xs)) else None)"
proof (induction xs arbitrary: s)
  case Nil
  then show ?case by (subst strchr.simps) simp
next
  case (Cons x xs)
  then show ?case by (subst strchr.simps) (auto simp: scast8_eq)
qed

section \<open>Properties\<close>

text \<open>A small memory for the witnesses: the string \<open>ab\<close> at address 1 and \<open>b\<close> at address 5.\<close>

definition demo_mem :: mem where
  "demo_mem = (\<lambda>_. 0)(1 := 97, 2 := 98, 5 := 98)"

text \<open>
  C16. \<open>memcpy\<close>, which copies aligned words where it can, returns its destination and, when the
  source does not start below and reach into the destination, leaves there the bytes the source
  held, and every other byte of memory unchanged.
\<close>

theorem memcpy_correct:
  assumes "dst \<le> src \<or> src + n \<le> dst"
  shows "memcpy dst src n m =
    (dst, \<lambda>a. if dst \<le> a \<and> a < dst + n then m (src + (a - dst)) else m a)"
  by (simp only: memcpy_bcopy bcopy_apply[OF assms])

theorem memcpy_correct_witness:
  "memcpy 9 1 7 demo_mem =
    (9, \<lambda>a. if 9 \<le> a \<and> a < 9 + 7 then demo_mem (1 + (a - 9)) else demo_mem a)"
  by (rule memcpy_correct) simp

text \<open>
  \<open>memset\<close>, which fills aligned words where it can, fills exactly the \<open>n\<close> bytes at its
  destination with the low byte of its argument.
\<close>

theorem memset_correct:
  "memset dst c n m = (dst, \<lambda>a. if dst \<le> a \<and> a < dst + n then ucast c else m a)"
  by (simp only: memset_bfill bfill_apply)

text \<open>
  On a string of \<open>xs\<close> in memory, \<open>strlen\<close> returns the length; \<open>strcpy\<close> to a place the string
  does not reach returns, leaves a copy of the string there, and changes only the bytes of the
  copy and its NUL; \<open>strlen\<close> of the copy is the length again.
\<close>

theorem strcpy_strlen:
  assumes "cstr m src xs" "dst \<le> src \<or> src + length xs < dst"
  shows "\<exists>m'. strcpy dst src m = Some (dst, m') \<and> cstr m' dst xs \<and>
    (\<forall>a. \<not> (dst \<le> a \<and> a \<le> dst + length xs) \<longrightarrow> m' a = m a) \<and>
    strlen m src = Some (of_nat (length xs)) \<and> strlen m' dst = Some (of_nat (length xs))"
proof -
  let ?m = "bcopy (Suc (length xs)) dst src m"
  have ap: "?m = (\<lambda>a. if dst \<le> a \<and> a < dst + Suc (length xs) then m (src + (a - dst)) else m a)"
    by (rule bcopy_apply) (use assms(2) in auto)
  have c: "cstr ?m dst xs" by (rule cstr_cong[OF _ assms(1)]) (unfold ap, simp)
  then have "strlen ?m dst = Some (of_nat (length xs))" by (simp add: strlen_def strlen_loop_eq)
  moreover have "strlen m src = Some (of_nat (length xs))"
    using assms(1) by (simp add: strlen_def strlen_loop_eq)
  moreover have "strcpy dst src m = Some (dst, ?m)" by (simp add: strcpy_def strcpy_loop_eq[OF assms])
  moreover have "?m a = m a" if "\<not> (dst \<le> a \<and> a \<le> dst + length xs)" for a
    using that unfolding ap by auto
  ultimately show ?thesis using c by blast
qed

theorem strcpy_strlen_witness:
  "\<exists>m'. strcpy 8 1 demo_mem = Some (8, m') \<and> cstr m' 8 [97, 98] \<and> strlen m' 8 = Some 2"
  using strcpy_strlen[of demo_mem 1 "[97, 98]" 8] by (auto simp: demo_mem_def)

text \<open>
  \<open>strcmp\<close> on two strings returns 0 exactly when they are equal, and otherwise -1 or 1 as the
  first is before or after the second in the lexicographic order of unsigned bytes (although it
  compares sign-extended characters).
\<close>

theorem strcmp_correct:
  assumes "cstr m p xs" "cstr m q ys"
  shows "strcmp m p q = Some (if xs = ys then 0 else if (xs, ys) \<in> lexord {(a, b). a < b} then - 1 else 1)"
  by (rule strcmp_loop_eq[OF assms])

theorem strcmp_correct_witness: "strcmp demo_mem 1 5 = Some (- 1)"
  using strcmp_correct[of demo_mem 1 "[97, 98]" 5 "[98]"] by (simp add: demo_mem_def)

text \<open>
  \<open>strchr\<close> returns the address of the first occurrence of a non-NUL character, or NULL when the
  string has none.
\<close>

theorem strchr_correct:
  fixes b :: u8
  assumes "cstr m s xs"
  shows "strchr m s (scast b) = Some (if b \<in> set xs
     then Some (s + length (takeWhile (\<lambda>x. x \<noteq> b) xs)) else None)"
  by (rule strchr_eq[OF assms])

theorem strchr_correct_witness: "strchr demo_mem 1 (scast (98 :: u8)) = Some (Some 2)"
  using strchr_correct[of demo_mem 1 "[97, 98]" 98] by (simp add: demo_mem_def)

end
