(* ===== verification/EnvValue.thy ===== *)
theory EnvValue
  imports Strings
begin

text \<open>
  The variables and the working directory the kernel keeps for shells: \<open>env_value\<close>, \<open>shell_num\<close> and
  \<open>cur_path\<close> of \<^verbatim>\<open>kern/syscall_all.c\<close> and the system calls on them. A C string is the list of its
  bytes without the NUL; a \<open>strcpy\<close> into a field too small for it and an index beyond the array
  are faults. The output buffer of \<open>sys_get_env_value\<close> is memory.
\<close>

section \<open>State\<close>

definition MAX_VALUE_NUM :: nat where [simp]: "MAX_VALUE_NUM = 128"
definition MAX_NAME_LEN :: nat where [simp]: "MAX_NAME_LEN = 32"
definition MAX_VALUE_LEN :: nat where [simp]: "MAX_VALUE_LEN = 32"
definition MAX_PATH_LEN :: nat where [simp]: "MAX_PATH_LEN = 128"
definition E_ENV_VALUE :: int where [simp]: "E_ENV_VALUE = 20"
definition E_CUR_PATH :: int where [simp]: "E_CUR_PATH = 21"

type_synonym cstring = "u8 list"

record evar =
  ev_name :: cstring
  ev_value :: cstring
  ev_shell_id :: u32
  ev_mood :: u32
  ev_valid :: bool

record shell_vars =
  shell_num :: u32
  env_value_num :: nat
  env_value :: "nat \<Rightarrow> evar"
  cur_path :: cstring

section \<open>Operations\<close>

definition sys_create_shell_id :: "shell_vars \<Rightarrow> u32 \<times> shell_vars" where
  "sys_create_shell_id s = (shell_num s, s\<lparr>shell_num := shell_num s + 1\<rparr>)"

text \<open>The first entry in a range that satisfies a condition.\<close>

definition find_ev :: "(evar \<Rightarrow> bool) \<Rightarrow> shell_vars \<Rightarrow> nat option" where
  "find_ev P s = find (\<lambda>i. P (env_value s i)) [0..<env_value_num s]"

definition sys_declare_env_value :: "cstring \<Rightarrow> cstring \<Rightarrow> u32 \<Rightarrow> u32 \<Rightarrow> shell_vars \<Rightarrow> (int \<times> shell_vars) res" where
  "sys_declare_env_value name value shell_id mood s =
     (let found = find_ev (\<lambda>v. ev_name v = name \<and> ev_valid v) s
      in if (\<exists>i \<in> set_option found. ev_mood (env_value s i) \<noteq> 0) then Ret (- E_ENV_VALUE, s)
         else let dec_id = (case found of None \<Rightarrow> env_value_num s | Some i \<Rightarrow> i)
           in if MAX_VALUE_NUM \<le> dec_id then Fault ''env_value index''
              else if MAX_NAME_LEN \<le> length name \<or> MAX_VALUE_LEN \<le> length value then Fault ''strcpy overflow''
              else let s = s\<lparr>env_value := (env_value s)(dec_id := \<lparr>ev_name = name, ev_value = value,
                         ev_shell_id = shell_id, ev_mood = mood, ev_valid = True\<rparr>)\<rparr>;
                       s = (if dec_id = env_value_num s then s\<lparr>env_value_num := env_value_num s + 1\<rparr> else s)
                in Ret (0, s))"

definition ev_visible :: "u32 \<Rightarrow> evar \<Rightarrow> bool" where
  "ev_visible shell_id v = ((ev_shell_id v = shell_id \<or> ev_shell_id v = 0) \<and> ev_valid v)"

definition sys_unset_env_value :: "cstring \<Rightarrow> u32 \<Rightarrow> shell_vars \<Rightarrow> int \<times> shell_vars" where
  "sys_unset_env_value name shell_id s =
     (case find_ev (\<lambda>v. ev_visible shell_id v \<and> ev_name v = name) s of
        None \<Rightarrow> (- E_ENV_VALUE, s)
      | Some i \<Rightarrow> if ev_mood (env_value s i) \<noteq> 0 then (- E_ENV_VALUE, s)
          else (0, s\<lparr>env_value := (env_value s)(i := (env_value s i)\<lparr>ev_valid := False\<rparr>)\<rparr>))"

text \<open>\<open>strcpy(a, xs)\<close> of a kernel string to memory.\<close>

fun put_str :: "nat \<Rightarrow> cstring \<Rightarrow> mem \<Rightarrow> mem" where
  "put_str a [] m = m(a := 0)"
| "put_str a (x # xs) m = put_str (a + 1) xs (m(a := x))"

definition bytes_of :: "string \<Rightarrow> cstring" where
  "bytes_of xs = map (\<lambda>c. of_nat (of_char c)) xs"

text \<open>The listing of one variable; the pointer \<open>s\<close> is returned as the loop leaves it.\<close>

definition put_evar :: "evar \<Rightarrow> nat \<times> mem \<Rightarrow> nat \<times> mem" where
  "put_evar v = (\<lambda>(s, m).
     let m = put_str s (bytes_of ''name: '') m; s = s + 6;
         m = put_str s (ev_name v) m; s = s + length (ev_name v);
         m = put_str s (bytes_of ''  value: '') m; s = s + 9;
         m = put_str s (ev_value v) m; s = s + length (ev_value v);
         m = put_str s (bytes_of ''  mood: '') m; s = s + 8;
         (s, m) = (if ev_mood v = 1 then (s + 1, m(s := 119)) else (s, m));
         (s, m) = (if ev_shell_id v = 0 then (s + 1, m(s := 120)) else (s, m))
     in (s + 1, m(s := 10)))"

definition sys_get_env_value :: "cstring option \<Rightarrow> u32 \<Rightarrow> nat \<Rightarrow> shell_vars \<Rightarrow> mem \<Rightarrow> (int option \<times> mem)" where
  "sys_get_env_value name shell_id buf s m =
     (case name of
        None \<Rightarrow>
          (let (e, m) = fold (\<lambda>i (e, m). if ev_visible shell_id (env_value s i) then put_evar (env_value s i) (e, m) else (e, m))
                 [0..<env_value_num s] (buf, m)
           in (map_option uint (strlen m e), m))
      | Some nm \<Rightarrow>
          (case find_ev (\<lambda>v. ev_visible shell_id v \<and> ev_name v = nm) s of
             None \<Rightarrow> (Some (- E_ENV_VALUE), m)
           | Some i \<Rightarrow> let m = put_str buf (ev_value (env_value s i)) m in (map_option uint (strlen m buf), m)))"

definition sys_get_cur_path :: "nat \<Rightarrow> shell_vars \<Rightarrow> mem \<Rightarrow> int \<times> mem" where
  "sys_get_cur_path buf s m = (0, put_str buf (cur_path s) m)"

definition sys_set_cur_path :: "cstring \<Rightarrow> shell_vars \<Rightarrow> int \<times> shell_vars" where
  "sys_set_cur_path path s =
     (if MAX_PATH_LEN \<le> length path then (- E_CUR_PATH, s) else (0, s\<lparr>cur_path := path\<rparr>))"

section \<open>Invariant\<close>

text \<open>
  Every entry in use fits its fields, at most one valid entry has a given name, and the path fits.
\<close>

definition ev_inv :: "shell_vars \<Rightarrow> bool" where
  "ev_inv s \<longleftrightarrow> env_value_num s \<le> MAX_VALUE_NUM \<and> length (cur_path s) < MAX_PATH_LEN \<and>
     (\<forall>i < env_value_num s. length (ev_name (env_value s i)) < MAX_NAME_LEN \<and>
        length (ev_value (env_value s i)) < MAX_VALUE_LEN \<and> 0 \<notin> set (ev_value (env_value s i))) \<and>
     (\<forall>i < env_value_num s. \<forall>j < env_value_num s. ev_valid (env_value s i) \<and> ev_valid (env_value s j) \<and>
        ev_name (env_value s i) = ev_name (env_value s j) \<longrightarrow> i = j)"

text \<open>The abstract view: a map from names to value, owner and mode.\<close>

definition ev_map :: "shell_vars \<Rightarrow> cstring \<Rightarrow> (cstring \<times> u32 \<times> u32) option" where
  "ev_map s nm = (case find_ev (\<lambda>v. ev_name v = nm \<and> ev_valid v) s of None \<Rightarrow> None
     | Some i \<Rightarrow> Some (ev_value (env_value s i), ev_shell_id (env_value s i), ev_mood (env_value s i)))"

lemma find_ev_Some:
  "find_ev P s = Some i \<Longrightarrow> i < env_value_num s \<and> P (env_value s i) \<and> (\<forall>j < i. \<not> P (env_value s j))"
  by (auto simp: find_ev_def find_Some_iff)

lemma find_ev_None: "find_ev P s = None \<longleftrightarrow> (\<forall>i < env_value_num s. \<not> P (env_value s i))"
  by (auto simp: find_ev_def find_None_iff)

lemma find_ev_unique:
  assumes "i < env_value_num s" "P (env_value s i)" "\<And>j. j < env_value_num s \<Longrightarrow> P (env_value s j) \<Longrightarrow> j = i"
  shows "find_ev P s = Some i"
proof -
  obtain k where "find_ev P s = Some k" using assms(1,2) find_ev_None[of P s] by (cases "find_ev P s") auto
  with assms(3) find_ev_Some[OF this] show ?thesis by auto
qed

lemma ev_map_iff:
  assumes "ev_inv s"
  shows "ev_map s nm = Some x \<longleftrightarrow> (\<exists>i < env_value_num s. ev_name (env_value s i) = nm \<and> ev_valid (env_value s i) \<and>
     x = (ev_value (env_value s i), ev_shell_id (env_value s i), ev_mood (env_value s i)))" (is "_ = ?r")
proof
  assume "ev_map s nm = Some x"
  then show ?r by (auto simp: ev_map_def dest!: find_ev_Some split: option.splits)
next
  assume ?r
  then obtain i where i: "i < env_value_num s" "ev_name (env_value s i) = nm" "ev_valid (env_value s i)"
    "x = (ev_value (env_value s i), ev_shell_id (env_value s i), ev_mood (env_value s i))" by auto
  have "find_ev (\<lambda>v. ev_name v = nm \<and> ev_valid v) s = Some i"
    by (rule find_ev_unique) (use i assms in \<open>auto simp: ev_inv_def\<close>)
  with i show "ev_map s nm = Some x" by (simp add: ev_map_def)
qed

lemma ev_map_None:
  "ev_map s nm = None \<longleftrightarrow> (\<forall>i < env_value_num s. \<not> (ev_name (env_value s i) = nm \<and> ev_valid (env_value s i)))"
  by (auto simp: ev_map_def find_ev_None split: option.splits dest: find_ev_Some)

lemma ev_map_eqI:
  assumes "\<And>nm x. ev_map s nm = Some x \<longleftrightarrow> f nm = Some x"
  shows "ev_map s = f"
  using assms by (intro HOL.ext) (metis not_None_eq)

lemma cstr_put_str: "0 \<notin> set xs \<Longrightarrow> cstr (put_str a xs m) a xs"
proof (induction xs arbitrary: a m)
  case (Cons x xs)
  have low: "b < a' \<Longrightarrow> put_str a' ys m' b = m' b" for a' b ys m'
    by (induction ys arbitrary: a' m') auto
  show ?case using Cons by (simp add: low)
qed simp

section \<open>Properties\<close>

definition demo_ev :: shell_vars where
  "demo_ev = \<lparr>shell_num = 2, env_value_num = 1,
     env_value = (\<lambda>_. \<lparr>ev_name = [120], ev_value = [49], ev_shell_id = 1, ev_mood = 0, ev_valid = True\<rparr>),
     cur_path = [47]\<rparr>"

lemma demo_ev_inv: "ev_inv demo_ev"
  by (simp add: ev_inv_def demo_ev_def)

text \<open>
  Declaring a variable whose name and value fit their fields, when the table has room: it is
  refused with \<open>-E_ENV_VALUE\<close>, without effect, exactly when a read-only variable has that name;
  otherwise the variable has the given value, owner and mode, every other variable is as it was,
  and the table stays well formed.
\<close>

theorem declare_env_value_correct:
  assumes inv: "ev_inv s" and fit: "length nm < MAX_NAME_LEN" "length val < MAX_VALUE_LEN" "0 \<notin> set val"
    and room: "ev_map s nm \<noteq> None \<or> env_value_num s < MAX_VALUE_NUM"
  shows "if \<exists>v o' md. ev_map s nm = Some (v, o', md) \<and> md \<noteq> 0
    then sys_declare_env_value nm val sh mood s = Ret (- E_ENV_VALUE, s)
    else \<exists>s'. sys_declare_env_value nm val sh mood s = Ret (0, s') \<and> ev_inv s' \<and>
      ev_map s' = (ev_map s)(nm \<mapsto> (val, sh, mood))"
proof -
  let ?f = "find_ev (\<lambda>v. ev_name v = nm \<and> ev_valid v) s"
  let ?new = "\<lparr>ev_name = nm, ev_value = val, ev_shell_id = sh, ev_mood = mood, ev_valid = True\<rparr>"
  show ?thesis
  proof (cases ?f)
    case None
    then have none: "ev_map s nm = None" by (simp add: ev_map_def)
    let ?s = "s\<lparr>env_value := (env_value s)(env_value_num s := ?new), env_value_num := Suc (env_value_num s)\<rparr>"
    have n: "\<forall>i < env_value_num s. \<not> (ev_name (env_value s i) = nm \<and> ev_valid (env_value s i))"
      using none ev_map_None by blast
    have r: "sys_declare_env_value nm val sh mood s = Ret (0, ?s)"
      using None none room fit by (simp add: sys_declare_env_value_def Let_def)
    have i': "ev_inv ?s"
      using inv fit none room n by (auto simp: ev_inv_def less_Suc_eq)
    have "ev_map ?s = (ev_map s)(nm \<mapsto> (val, sh, mood))"
    proof (rule ev_map_eqI)
      fix nm' x
      show "ev_map ?s nm' = Some x \<longleftrightarrow> ((ev_map s)(nm \<mapsto> (val, sh, mood))) nm' = Some x"
        using n by (auto simp: ev_map_iff[OF i'] ev_map_iff[OF inv] less_Suc_eq) (metis less_irrefl)+
    qed
    with r i' none show ?thesis by simp
  next
    case (Some i)
    note i = find_ev_Some[OF Some]
    let ?s = "s\<lparr>env_value := (env_value s)(i := ?new)\<rparr>"
    have m: "ev_map s nm = Some (ev_value (env_value s i), ev_shell_id (env_value s i), ev_mood (env_value s i))"
      using Some by (simp add: ev_map_def)
    show ?thesis
    proof (cases "ev_mood (env_value s i) = 0")
      case True
      have lt: "i < MAX_VALUE_NUM" "i \<noteq> env_value_num s" using i inv by (auto simp: ev_inv_def)
      have r: "sys_declare_env_value nm val sh mood s = Ret (0, ?s)"
        using Some True lt fit by (simp add: sys_declare_env_value_def Let_def)
      have uq: "\<And>j. j < env_value_num s \<Longrightarrow> ev_valid (env_value s j) \<Longrightarrow> ev_name (env_value s j) = nm \<Longrightarrow> j = i"
        using inv i unfolding ev_inv_def by blast
      have i': "ev_inv ?s" using inv fit i uq unfolding ev_inv_def by auto
      have "ev_map ?s = (ev_map s)(nm \<mapsto> (val, sh, mood))"
      proof (rule ev_map_eqI)
        fix nm' x
        show "ev_map ?s nm' = Some x \<longleftrightarrow> ((ev_map s)(nm \<mapsto> (val, sh, mood))) nm' = Some x"
          using i uq by (auto simp: ev_map_iff[OF i'] ev_map_iff[OF inv]) metis+
      qed
      with r i' m True show ?thesis by simp
    next
      case False
      then have "sys_declare_env_value nm val sh mood s = Ret (- E_ENV_VALUE, s)"
        using Some by (simp add: sys_declare_env_value_def Let_def)
      with m False show ?thesis by simp
    qed
  qed
qed

theorem declare_env_value_correct_witness:
  "\<exists>s'. sys_declare_env_value [121] [50] 1 0 demo_ev = Ret (0, s') \<and> ev_inv s' \<and>
     ev_map s' = (ev_map demo_ev)([121] \<mapsto> ([50], 1, 0))"
proof -
  have "ev_map demo_ev [121] = None" by (auto simp: ev_map_None demo_ev_def)
  then show ?thesis
    using declare_env_value_correct[OF demo_ev_inv, of "[121]" "[50]" 1 0] by (simp add: demo_ev_def)
qed

text \<open>
  Unsetting and reading: a variable is visible to a shell when it is its own or global.
  \<open>sys_unset_env_value\<close> removes exactly the named variable when it is visible and not read-only, and
  otherwise fails without effect; \<open>sys_get_env_value\<close> with a name puts the value of a visible
  variable, NUL-terminated, into the buffer and returns its length, and otherwise fails and leaves
  memory alone.
\<close>

theorem unset_get_env_value_correct:
  assumes inv: "ev_inv s"
  shows "(case ev_map s nm of
      Some (v, o', md) \<Rightarrow>
        if o' = sh \<or> o' = 0 then
          (\<exists>m'. sys_get_env_value (Some nm) sh buf s m = (Some (int (length v)), m') \<and> cstr m' buf v) \<and>
          (if md = 0 then \<exists>s'. sys_unset_env_value nm sh s = (0, s') \<and> ev_inv s' \<and> ev_map s' = (ev_map s)(nm := None)
           else sys_unset_env_value nm sh s = (- E_ENV_VALUE, s))
        else sys_get_env_value (Some nm) sh buf s m = (Some (- E_ENV_VALUE), m) \<and>
          sys_unset_env_value nm sh s = (- E_ENV_VALUE, s)
    | None \<Rightarrow> sys_get_env_value (Some nm) sh buf s m = (Some (- E_ENV_VALUE), m) \<and>
          sys_unset_env_value nm sh s = (- E_ENV_VALUE, s))"
proof -
  let ?P = "\<lambda>v. ev_visible sh v \<and> ev_name v = nm"
  have fail: "sys_get_env_value (Some nm) sh buf s m = (Some (- E_ENV_VALUE), m) \<and>
      sys_unset_env_value nm sh s = (- E_ENV_VALUE, s)" if "find_ev ?P s = None"
    using that by (simp add: sys_get_env_value_def sys_unset_env_value_def)
  show ?thesis
  proof (cases "ev_map s nm")
    case None
    then have "find_ev ?P s = None" by (auto simp: find_ev_None ev_map_None ev_visible_def)
    with None fail show ?thesis by simp
  next
    case (Some x)
    then obtain i where i: "i < env_value_num s" "ev_name (env_value s i) = nm" "ev_valid (env_value s i)"
      "x = (ev_value (env_value s i), ev_shell_id (env_value s i), ev_mood (env_value s i))"
      by (auto simp: ev_map_iff[OF inv])
    have uq: "\<And>j. j < env_value_num s \<Longrightarrow> ev_valid (env_value s j) \<Longrightarrow> ev_name (env_value s j) = nm \<Longrightarrow> j = i"
      using inv i(1-3) unfolding ev_inv_def by blast
    let ?v = "ev_value (env_value s i)"
    have vl: "length ?v < MAX_VALUE_LEN" "0 \<notin> set ?v" using inv i(1) by (auto simp: ev_inv_def)
    show ?thesis
    proof (cases "ev_shell_id (env_value s i) = sh \<or> ev_shell_id (env_value s i) = 0")
      case False
      then have "find_ev ?P s = None" using uq by (auto simp: find_ev_None ev_visible_def)
      with Some i(4) False fail show ?thesis by simp
    next
      case True
      have f: "find_ev ?P s = Some i"
      proof (rule find_ev_unique[OF i(1)])
        show "?P (env_value s i)" using i(2,3) True by (simp add: ev_visible_def)
        show "j = i" if "j < env_value_num s" "?P (env_value s j)" for j
          by (rule uq) (use that in \<open>simp_all add: ev_visible_def\<close>)
      qed
      have c: "cstr (put_str buf ?v m) buf ?v" using vl(2) by (rule cstr_put_str)
      have "uint (of_nat (length ?v) :: u32) = int (length ?v)"
      proof -
        have "length ?v < 2 ^ 32" using vl(1) by simp
        then show ?thesis by (simp add: unsigned_of_nat take_bit_nat_eq_self)
      qed
      then have g: "\<exists>m'. sys_get_env_value (Some nm) sh buf s m = (Some (int (length ?v)), m') \<and> cstr m' buf ?v"
        using c f by (simp add: sys_get_env_value_def Let_def strlen_def strlen_loop_eq[OF c])
      let ?s = "s\<lparr>env_value := (env_value s)(i := (env_value s i)\<lparr>ev_valid := False\<rparr>)\<rparr>"
      have i': "ev_inv ?s" using inv unfolding ev_inv_def by auto
      have "ev_map ?s = (ev_map s)(nm := None)"
      proof (rule ev_map_eqI)
        fix nm' x
        show "ev_map ?s nm' = Some x \<longleftrightarrow> ((ev_map s)(nm := None)) nm' = Some x"
        proof (cases "nm' = nm")
          case True
          have "ev_map ?s nm = None" using uq by (auto simp: ev_map_None)
          with True show ?thesis by simp
        next
          case False
          then have B: "ev_name (env_value s j) = nm' \<Longrightarrow> env_value ?s j = env_value s j" for j
            using i(2) by auto
          have A: "ev_name (env_value ?s j) = ev_name (env_value s j)" for j by simp
          have n: "env_value_num ?s = env_value_num s" by simp
          have "ev_map ?s nm' = Some x \<longleftrightarrow> ev_map s nm' = Some x"
            unfolding ev_map_iff[OF i'] ev_map_iff[OF inv] A n
            by (rule ex_cong1) (rule conj_cong[OF refl], rule conj_cong[OF refl], simp only: B)
          with False show ?thesis by simp
        qed
      qed
      with g f i' Some i(4) True show ?thesis by (simp add: sys_unset_env_value_def)
    qed
  qed
qed

theorem unset_get_env_value_correct_witness:
  "\<exists>m'. sys_get_env_value (Some [120]) 1 8 demo_ev (\<lambda>_. 0) = (Some 1, m') \<and> cstr m' 8 [49]"
proof -
  have "ev_map demo_ev [120] = Some ([49], 1, 0)"
    by (subst ev_map_iff[OF demo_ev_inv]) (auto simp: demo_ev_def)
  then show ?thesis
    using unset_get_env_value_correct[OF demo_ev_inv, of "[120]" 1 8 "\<lambda>_. 0"] by simp
qed

text \<open>
  Entries are never reused: when 128 variables have been declared, declaring one more name
  writes beyond the table even if every one of them has been unset since.
\<close>

theorem declare_exhausts_table:
  assumes "env_value_num s = MAX_VALUE_NUM" "\<forall>i < MAX_VALUE_NUM. \<not> ev_valid (env_value s i)"
  shows "ev_map s = Map.empty \<and> sys_declare_env_value nm val sh mood s = Fault ''env_value index''"
proof -
  have "find_ev (\<lambda>v. ev_name v = nm' \<and> ev_valid v) s = None" for nm'
    using assms by (auto simp: find_ev_None)
  then show ?thesis using assms(1) by (simp add: ev_map_def fun_eq_iff sys_declare_env_value_def)
qed

theorem declare_exhausts_table_witness:
  "sys_declare_env_value [121] [50] 1 0 (demo_ev\<lparr>env_value_num := 128,
     env_value := (\<lambda>_. \<lparr>ev_name = [120], ev_value = [49], ev_shell_id = 1, ev_mood = 0, ev_valid = False\<rparr>)\<rparr>) =
   Fault ''env_value index''"
  using declare_exhausts_table[of "demo_ev\<lparr>env_value_num := 128,
     env_value := (\<lambda>_. \<lparr>ev_name = [120], ev_value = [49], ev_shell_id = 1, ev_mood = 0, ev_valid = False\<rparr>)\<rparr>"
     "[121]" "[50]" 1 0] by simp

end
