(* ===== verification/Env.thy ===== *)
theory Env
  imports PmapInv Print Elf EnvValue
begin

text \<open>
  Environments (processes): \<^verbatim>\<open>kern/env.c\<close>, \<^verbatim>\<open>include/env.h\<close>, \<^verbatim>\<open>include/trap.h\<close>, the console
  functions of \<^verbatim>\<open>kern/console.c\<close> and \<^verbatim>\<open>kern/printk.c\<close>. A \<open>struct Env *\<close> is the index of the
  element of \<open>envs\<close> it points to; its link fields are kept in the queue they belong to. An
  \<open>env_pgdir\<close> is the number of the page that holds the directory. Functions that do not return to
  their caller because the processor continues in user mode end in \<open>Gone\<close>.
\<close>

section \<open>State\<close>

record trapframe =
  regs :: "nat \<Rightarrow> u32"
  cp0_status :: u32
  tf_hi :: u32
  tf_lo :: u32
  cp0_badvaddr :: u32
  cp0_cause :: u32
  cp0_epc :: u32

record env =
  env_tf :: trapframe
  env_id :: u32
  env_asid :: u32
  env_parent_id :: u32
  env_status :: u32
  env_pgdir :: nat
  env_pri :: u32
  env_ipc_value :: u32
  env_ipc_from :: u32
  env_ipc_recving :: u32
  env_ipc_dstva :: u32
  env_ipc_perm :: u32
  env_user_tlb_mod_entry :: u32
  env_runs :: u32

definition LOG2NENV :: nat where [simp]: "LOG2NENV = 10"
definition NENV :: nat where [simp]: "NENV = 1024"
definition ENVX :: "u32 \<Rightarrow> nat" where "ENVX envid = unat (envid AND 0x3FF)"

definition ENV_FREE :: u32 where [simp]: "ENV_FREE = 0"
definition ENV_RUNNABLE :: u32 where [simp]: "ENV_RUNNABLE = 1"
definition ENV_NOT_RUNNABLE :: u32 where [simp]: "ENV_NOT_RUNNABLE = 2"

text \<open>
  The globals of the kernel, on top of those of \<open>pm\<close>. \<open>kstack_tf\<close> is the trap frame below
  \<open>KSTACKTOP\<close>; \<open>cpu_tf\<close> and \<open>cpu_entryhi\<close> are what \<open>env_pop_tf\<close> loads into the processor;
  \<open>sched_count\<close> is the static variable of \<open>schedule\<close>, \<open>mkenvid_i\<close> that of \<open>mkenvid\<close>.
\<close>

record kern = pm +
  envs :: "nat \<Rightarrow> env"
  curenv :: "nat option"
  env_free_list :: "nat llist"
  env_sched_list :: "nat tailq"
  base_pgdir :: nat
  asid_bitmap :: "nat \<Rightarrow> u32"
  mkenvid_i :: u32
  sched_count :: u32
  cur_pgdir :: nat
  kstack_tf :: trapframe
  cpu_tf :: trapframe
  cpu_entryhi :: u32
  console :: string
  shv :: shell_vars

datatype 'a ctl = Back 'a | Gone

definition upd_env :: "nat \<Rightarrow> (env \<Rightarrow> env) \<Rightarrow> kern \<Rightarrow> kern" where
  "upd_env e f s = s\<lparr>envs := (envs s)(e := f (envs s e))\<rparr>"

section \<open>Console (kern/console.c, kern/printk.c)\<close>

definition printcharc :: "char \<Rightarrow> kern \<Rightarrow> kern" where
  "printcharc ch s = s\<lparr>console := console s @ [ch]\<rparr>"

definition outputk :: "kern \<Rightarrow> string \<Rightarrow> kern" where
  "outputk s buf = fold printcharc buf s"

definition printk :: "string \<Rightarrow> va list \<Rightarrow> kern \<Rightarrow> kern res" where
  "printk fmt ap s = vprintfmt (\<lambda>_. CHR 0x00) outputk s fmt ap"

section \<open>Address space identifiers\<close>

definition NASID :: nat where [simp]: "NASID = 64"

fun asid_scan :: "nat list \<Rightarrow> kern \<Rightarrow> (int \<times> u32) \<times> kern" where
  "asid_scan [] s = ((- E_NO_FREE_ENV, 0), s)"
| "asid_scan (i # is) s =
     (if asid_bitmap s (i div 32) AND push_bit (i mod 32) 1 = 0
      then ((0, of_nat i), s\<lparr>asid_bitmap := (asid_bitmap s)(i div 32 :=
             asid_bitmap s (i div 32) OR push_bit (i mod 32) 1)\<rparr>)
      else asid_scan is s)"

definition asid_alloc :: "kern \<Rightarrow> (int \<times> u32) \<times> kern" where
  "asid_alloc s = asid_scan [0..<NASID] s"

definition asid_free :: "u32 \<Rightarrow> kern \<Rightarrow> kern res" where
  "asid_free i s = (let index = unat i div 32; inner = unat i mod 32 in
     if NASID \<le> unat i then Fault ''asid_bitmap index''
     else Ret (s\<lparr>asid_bitmap := (asid_bitmap s)(index := asid_bitmap s index AND NOT (push_bit inner 1))\<rparr>))"

section \<open>map\_segment\<close>

fun map_pages :: "nat list \<Rightarrow> nat \<Rightarrow> u32 \<Rightarrow> u32 \<Rightarrow> u32 \<Rightarrow> u32 \<Rightarrow> 'a pm_scheme \<Rightarrow> 'a pm_scheme res" where
  "map_pages [] pgdir asid pa va perm s = Ret s"
| "map_pages (k # ks) pgdir asid pa va perm s =
     rbind (pa2page (npage s) (pa + of_nat k * BY2PG)) (\<lambda>pp.
     rbind (page_insert pgdir asid pp (va + of_nat k * BY2PG) (perm OR PTE_V) s) (\<lambda>(_, s).
     map_pages ks pgdir asid pa va perm s))"

definition map_segment :: "nat \<Rightarrow> u32 \<Rightarrow> u32 \<Rightarrow> u32 \<Rightarrow> u32 \<Rightarrow> u32 \<Rightarrow> 'a pm_scheme \<Rightarrow> 'a pm_scheme res" where
  "map_segment pgdir asid pa va sz perm s =
     rassert (pa mod BY2PG = 0) ''assertion failed: pa % BY2PG == 0''
     (rassert (va mod BY2PG = 0) ''assertion failed: va % BY2PG == 0''
     (rassert (sz mod BY2PG = 0) ''assertion failed: size % BY2PG == 0''
     (map_pages [0..<unat (sz div BY2PG)] pgdir asid pa va perm s)))"

section \<open>Environment identifiers\<close>

definition mkenvid :: "nat \<Rightarrow> kern \<Rightarrow> u32 \<times> kern" where
  "mkenvid e s =
     (let i = mkenvid_i s + 1
      in (push_bit (1 + LOG2NENV) i OR of_nat e, s\<lparr>mkenvid_i := i\<rparr>))"

definition envid2env :: "u32 \<Rightarrow> bool \<Rightarrow> kern \<Rightarrow> (int \<times> nat option) res" where
  "envid2env envid checkperm s =
     (if envid = 0 then Ret (0, curenv s)
      else let e = ENVX envid in
        if env_status (envs s e) = ENV_FREE \<or> env_id (envs s e) \<noteq> envid then Ret (- E_BAD_ENV, None)
        else if checkperm \<and> curenv s \<noteq> Some e then
          (case curenv s of None \<Rightarrow> Fault ''NULL curenv''
           | Some c \<Rightarrow> if env_parent_id (envs s e) \<noteq> env_id (envs s c) then Ret (- E_BAD_ENV, None)
               else Ret (0, Some e))
        else Ret (0, Some e))"

section \<open>env\_init\<close>

fun env_init_free :: "nat list \<Rightarrow> kern \<Rightarrow> kern" where
  "env_init_free [] s = s"
| "env_init_free (i # is) s =
     (let s = upd_env i (\<lambda>e. e\<lparr>env_status := ENV_FREE\<rparr>) s
      in env_init_free is (s\<lparr>env_free_list := LIST_INSERT_HEAD i (env_free_list s)\<rparr>))"

definition sizeof_Env :: u32 where "sizeof_Env = 220"

text \<open>\<open>envs_addr\<close> is the address the linker gives the array \<open>envs\<close>.\<close>

definition env_init :: "u32 \<Rightarrow> kern \<Rightarrow> kern res" where
  "env_init envs_addr s =
     (let s = s\<lparr>env_free_list := LIST_INIT (env_free_list s)\<rparr>;
          s = s\<lparr>env_sched_list := TAILQ_INIT (env_sched_list s)\<rparr>;
          s = env_init_free (rev [0..<NENV]) s
      in rbind (page_alloc s) (\<lambda>((r, p), s).
         if r \<noteq> 0 then Panic ''page_alloc(&p)''
         else case p of None \<Rightarrow> Fault ''NULL page'' | Some p \<Rightarrow>
           let s = incr_ref p s
           in rbind (page2kva (npage s) p) (\<lambda>_.
              let s = s\<lparr>base_pgdir := p\<rparr>
              in rbind (PADDR (pages_base s)) (\<lambda>pa.
                 rbind (map_segment p 0 pa UPAGES (ROUND (of_nat (npage s) * sizeof_Page) BY2PG) PTE_G s) (\<lambda>s.
                 rbind (PADDR envs_addr) (\<lambda>ea.
                 map_segment p 0 ea UENVS (ROUND (of_nat NENV * sizeof_Env) BY2PG) PTE_G s))))))"

section \<open>env\_setup\_vm and env\_alloc\<close>

fun copy_pdes :: "nat list \<Rightarrow> nat \<Rightarrow> nat \<Rightarrow> 'a pm_scheme \<Rightarrow> 'a pm_scheme" where
  "copy_pdes [] dst src s = s"
| "copy_pdes (i # is) dst src s = copy_pdes is dst src (store_word (dst, i) (load_word s (src, i)) s)"

definition env_setup_vm :: "nat \<Rightarrow> kern \<Rightarrow> (int \<times> kern) res" where
  "env_setup_vm e s =
     rbind (page_alloc s) (\<lambda>((r, p), s).
     if r \<noteq> 0 then Ret (r, s)
     else case p of None \<Rightarrow> Fault ''NULL page'' | Some p \<Rightarrow>
       let s = incr_ref p s
       in rbind (page2kva (npage s) p) (\<lambda>kva.
          let s = upd_env e (\<lambda>x. x\<lparr>env_pgdir := p\<rparr>) s;
              s = copy_pdes [unat (PDX UTOP)..<unat (PDX UVPT)] p (base_pgdir s) s
          in rbind (PADDR kva) (\<lambda>pa. Ret (0, store_word (p, unat (PDX UVPT)) (pa OR PTE_V) s))))"

definition STATUS_IM4 :: u32 where "STATUS_IM4 = 0x1000"
definition STATUS_KUp :: u32 where "STATUS_KUp = 0x8"
definition STATUS_IEp :: u32 where "STATUS_IEp = 0x4"

definition env_alloc :: "u32 \<Rightarrow> kern \<Rightarrow> ((int \<times> nat option) \<times> kern) res" where
  "env_alloc parent_id s =
     (if LIST_EMPTY (env_free_list s) then Ret ((- E_NO_FREE_ENV, None), s)
      else case LIST_FIRST (env_free_list s) of None \<Rightarrow> Fault ''NULL env'' | Some e \<Rightarrow>
        rbind (env_setup_vm e s) (\<lambda>(r, s).
        if r \<noteq> 0 then Ret ((r, None), s)
        else
          let s = upd_env e (\<lambda>x. x\<lparr>env_user_tlb_mod_entry := 0, env_runs := 0\<rparr>) s;
              (newid, s) = mkenvid e s;
              s = upd_env e (\<lambda>x. x\<lparr>env_id := newid\<rparr>) s;
              ((r, asid), s) = asid_alloc s
          in if r \<noteq> 0 then Ret ((r, None), s)
             else
               let s = upd_env e (\<lambda>x. x\<lparr>env_asid := asid\<rparr>) s;
                   s = upd_env e (\<lambda>x. x\<lparr>env_parent_id := parent_id\<rparr>) s;
                   s = upd_env e (\<lambda>x. x\<lparr>env_tf := (env_tf x)\<lparr>cp0_status := STATUS_IM4 OR STATUS_KUp OR STATUS_IEp,
                         regs := (regs (env_tf x))(29 := USTACKTOP - 4 - 4)\<rparr>\<rparr>) s
               in rbind (LIST_REMOVE e (env_free_list s)) (\<lambda>fl.
                  Ret ((0, Some e), s\<lparr>env_free_list := fl\<rparr>))))"

section \<open>Loading a program\<close>

text \<open>
  The mapper of the kernel. Its pre-condition \<open>offset + len \<le> BY2PG\<close> is checked here as a fault,
  and so is a source shorter than \<open>len\<close>.
\<close>

definition load_icode_mapper :: "nat \<Rightarrow> kern elf_mapper" where
  "load_icode_mapper e s va offset perm src len =
     rbind (page_alloc s) (\<lambda>((r, p), s).
     if r \<noteq> 0 then Ret (r, s)
     else case p of None \<Rightarrow> Fault ''NULL page'' | Some p \<Rightarrow>
       rbind (case src of None \<Rightarrow> Ret s
              | Some b \<Rightarrow>
                  if length b < unat len \<or> 4096 < unat offset + unat len then Fault ''memcpy out of range''
                  else Ret (store_bytes p (unat offset) (take (unat len) b) s)) (\<lambda>s.
       page_insert (env_pgdir (envs s e)) (env_asid (envs s e)) p va perm s))"

fun load_segments :: "nat \<Rightarrow> u8 list \<Rightarrow> u32 list \<Rightarrow> kern \<Rightarrow> kern res" where
  "load_segments e binary [] s = Ret s"
| "load_segments e binary (ph_off # offs) s =
     rbind (phdr_at binary ph_off) (\<lambda>ph.
     if p_type ph = PT_LOAD
     then rbind (elf_load_seg ph (drop (unat (p_offset ph)) binary) (load_icode_mapper e) s) (\<lambda>(r, s).
       if r \<noteq> 0 then Panic ''elf_load_seg'' else load_segments e binary offs s)
     else load_segments e binary offs s)"

definition load_icode :: "nat \<Rightarrow> u8 list \<Rightarrow> u32 \<Rightarrow> kern \<Rightarrow> kern res" where
  "load_icode e binary sz s =
     rbind (elf_from binary sz) (\<lambda>ok.
     if \<not> ok then Panic ''bad elf''
     else rbind (phdr_offsets binary) (\<lambda>offs.
       rbind (load_segments e binary offs s) (\<lambda>s.
       rbind (e_entry binary) (\<lambda>entry.
       Ret (upd_env e (\<lambda>x. x\<lparr>env_tf := (env_tf x)\<lparr>cp0_epc := entry\<rparr>\<rparr>) s)))))"

text \<open>\<open>env_create\<close> does not look at what \<open>env_alloc\<close> returned.\<close>

definition env_create :: "u8 list \<Rightarrow> u32 \<Rightarrow> u32 \<Rightarrow> kern \<Rightarrow> (nat \<times> kern) res" where
  "env_create binary sz priority s =
     rbind (env_alloc 0 s) (\<lambda>((_, new), s).
     case new of None \<Rightarrow> Fault ''NULL or uninitialised env'' | Some e \<Rightarrow>
       let s = upd_env e (\<lambda>x. x\<lparr>env_pri := priority\<rparr>) s;
           s = upd_env e (\<lambda>x. x\<lparr>env_status := ENV_RUNNABLE\<rparr>) s
       in rbind (load_icode e binary sz s) (\<lambda>s.
          Ret (e, s\<lparr>env_sched_list := TAILQ_INSERT_HEAD e (env_sched_list s)\<rparr>)))"

section \<open>env\_free\<close>

fun free_ptes :: "nat list \<Rightarrow> nat \<Rightarrow> u32 \<Rightarrow> nat \<Rightarrow> nat \<Rightarrow> 'a pm_scheme \<Rightarrow> 'a pm_scheme res" where
  "free_ptes [] pgdir asid pdeno pt s = Ret s"
| "free_ptes (pteno # js) pgdir asid pdeno pt s =
     rbind (if pte_valid (load_word s (pt, pteno))
            then page_remove pgdir asid (push_bit 22 (of_nat pdeno) OR push_bit 12 (of_nat pteno)) s
            else Ret s) (free_ptes js pgdir asid pdeno pt)"

definition free_table :: "nat \<Rightarrow> u32 \<Rightarrow> nat \<Rightarrow> 'a pm_scheme \<Rightarrow> 'a pm_scheme res" where
  "free_table pgdir asid pdeno s =
     (if \<not> pte_valid (load_word s (pgdir, pdeno)) then Ret s
      else let pa = PTE_ADDR (load_word s (pgdir, pdeno))
        in rbind (KADDR (npage s) pa) (\<lambda>_.
           rbind (free_ptes [0..<unat (PTX (NOT 0)) + 1] pgdir asid pdeno (unat (PPN pa)) s) (\<lambda>s.
           let s = store_word (pgdir, pdeno) 0 s
           in rbind (pa2page (npage s) pa) (\<lambda>pp.
              rbind (page_decref pp s) (\<lambda>s.
              Ret (tlb_invalidate asid (UVPT + push_bit 12 (of_nat pdeno)) s))))))"

fun free_tables :: "nat list \<Rightarrow> nat \<Rightarrow> u32 \<Rightarrow> 'a pm_scheme \<Rightarrow> 'a pm_scheme res" where
  "free_tables [] pgdir asid s = Ret s"
| "free_tables (pdeno # is) pgdir asid s =
     rbind (free_table pgdir asid pdeno s) (free_tables is pgdir asid)"

definition env_free :: "nat \<Rightarrow> kern \<Rightarrow> kern res" where
  "env_free e s =
     rbind (printk (''[%08x] free env %08x'' @ [CHR 0x0A])
       [AInt (case curenv s of None \<Rightarrow> 0 | Some c \<Rightarrow> env_id (envs s c)), AInt (env_id (envs s e))] s) (\<lambda>s.
     let pgdir = env_pgdir (envs s e); asid = env_asid (envs s e)
     in rbind (free_tables [0..<unat (PDX UTOP)] pgdir asid s) (\<lambda>s.
        rbind (page2kva (npage s) pgdir) (\<lambda>kva.
        rbind (PADDR kva) (\<lambda>pa.
        rbind (pa2page (npage s) pa) (\<lambda>pp.
        rbind (page_decref pp s) (\<lambda>s.
        rbind (asid_free asid s) (\<lambda>s.
        let s = tlb_invalidate asid (UVPT + push_bit 12 (PDX UVPT)) s;
            s = upd_env e (\<lambda>x. x\<lparr>env_status := ENV_FREE\<rparr>) s;
            s = s\<lparr>env_free_list := LIST_INSERT_HEAD e (env_free_list s)\<rparr>
        in rbind (TAILQ_REMOVE e (env_sched_list s)) (\<lambda>q.
           Ret (s\<lparr>env_sched_list := q\<rparr>)))))))))"

section \<open>env\_run\<close>

text \<open>
  \<open>pre_env_run\<close> is empty in the kernel's own configuration. \<open>env_pop_tf\<close> (\<^verbatim>\<open>kern/env_asm.S\<close>) sets
  \<open>EntryHi\<close> and restores the registers from the trap frame.
\<close>

definition env_pop_tf :: "trapframe \<Rightarrow> u32 \<Rightarrow> kern \<Rightarrow> kern" where
  "env_pop_tf tf asid s = s\<lparr>cpu_entryhi := push_bit 6 asid, cpu_tf := tf\<rparr>"

definition env_run :: "nat \<Rightarrow> kern \<Rightarrow> kern res" where
  "env_run e s = rassert (env_status (envs s e) = ENV_RUNNABLE) ''assertion failed: e->env_status == ENV_RUNNABLE''
     (let s = (case curenv s of None \<Rightarrow> s | Some c \<Rightarrow> upd_env c (\<lambda>x. x\<lparr>env_tf := kstack_tf s\<rparr>) s);
          s = s\<lparr>curenv := Some e\<rparr>;
          s = upd_env e (\<lambda>x. x\<lparr>env_runs := env_runs x + 1\<rparr>) s;
          s = s\<lparr>cur_pgdir := env_pgdir (envs s e)\<rparr>
      in Ret (env_pop_tf (env_tf (envs s e)) (env_asid (envs s e)) s))"

end
