(* ===== verification/Sched.thy ===== *)
theory Sched
  imports Env
begin

text \<open>
  The round-robin scheduler, \<^verbatim>\<open>kern/sched.c\<close>, and \<open>env_destroy\<close> of \<^verbatim>\<open>kern/env.c\<close>, which calls it.
  The abstract machine \<open>rr_step\<close> works on the queue of runnable environments as a list; \<open>schedule\<close>
  refines it, and fairness is proved of \<open>schedule\<close> through it: an environment in the queue gets the
  processor after exactly the slices of those before it.
\<close>

section \<open>schedule and env\_destroy\<close>

text \<open>The choice of the next environment, with the queue and the slice count it leaves.\<close>

definition sched_pick :: "bool \<Rightarrow> kern \<Rightarrow> (nat \<times> kern) res" where
  "sched_pick yield s =
     (let e = curenv s
      in if yield \<or> sched_count s \<le>s 0 \<or> e = None \<or> env_status (envs s (the e)) \<noteq> ENV_RUNNABLE
         then rbind (case e of None \<Rightarrow> Ret s
                | Some e \<Rightarrow> rbind (TAILQ_REMOVE e (env_sched_list s)) (\<lambda>q.
                    let s = s\<lparr>env_sched_list := q\<rparr>
                    in if env_status (envs s e) = ENV_RUNNABLE
                       then rbind (TAILQ_INSERT_TAIL e (env_sched_list s)) (\<lambda>q. Ret (s\<lparr>env_sched_list := q\<rparr>))
                       else Ret s)) (\<lambda>s.
           if TAILQ_EMPTY (env_sched_list s) then Panic ''no runnable envs''
           else case TAILQ_FIRST (env_sched_list s) of None \<Rightarrow> Fault ''NULL env''
             | Some e \<Rightarrow> Ret (e, s\<lparr>sched_count := env_pri (envs s e)\<rparr>))
         else Ret (the e, s))"

definition schedule :: "bool \<Rightarrow> kern \<Rightarrow> kern res" where
  "schedule yield s =
     rbind (sched_pick yield s) (\<lambda>(e, s).
     let s = s\<lparr>sched_count := sched_count s - 1\<rparr> in env_run e s)"

definition env_destroy :: "nat \<Rightarrow> kern \<Rightarrow> (unit ctl \<times> kern) res" where
  "env_destroy e s =
     rbind (env_free e s) (\<lambda>s.
     if curenv s = Some e
     then let s = s\<lparr>curenv := None\<rparr>
       in rbind (printk (''i am killed ... '' @ [CHR 0x0A]) [] s) (\<lambda>s.
          rbind (schedule True s) (\<lambda>s. Ret (Gone, s)))
     else Ret (Back (), s))"

section \<open>The queue of runnable environments\<close>

text \<open>
  The invariant stated above \<open>env_sched_list\<close> in \<^verbatim>\<open>kern/env.c\<close>: the queue holds exactly the runnable
  environments, each once.
\<close>

definition runq :: "kern \<Rightarrow> nat list \<Rightarrow> bool" where
  "runq s rl \<longleftrightarrow> tailq_rep (env_sched_list s) rl \<and>
     set rl = {e. e < NENV \<and> env_status (envs s e) = ENV_RUNNABLE}"

text \<open>Two states in which the environments differ only in saved context and run count.\<close>

definition same_envs :: "kern \<Rightarrow> kern \<Rightarrow> bool" where
  "same_envs s s' \<longleftrightarrow> (\<forall>x. \<exists>t r. envs s' x = (envs s x)\<lparr>env_tf := t, env_runs := r\<rparr>)"

lemma same_envs_fields:
  assumes "same_envs s s'"
  shows "env_status (envs s' x) = env_status (envs s x)" "env_pri (envs s' x) = env_pri (envs s x)"
    "env_pgdir (envs s' x) = env_pgdir (envs s x)" "env_id (envs s' x) = env_id (envs s x)"
    "env_asid (envs s' x) = env_asid (envs s x)"
proof -
  obtain t r where "envs s' x = (envs s x)\<lparr>env_tf := t, env_runs := r\<rparr>"
    using assms unfolding same_envs_def by blast
  then show "env_status (envs s' x) = env_status (envs s x)" "env_pri (envs s' x) = env_pri (envs s x)"
    "env_pgdir (envs s' x) = env_pgdir (envs s x)" "env_id (envs s' x) = env_id (envs s x)"
    "env_asid (envs s' x) = env_asid (envs s x)" by simp_all
qed

lemma env_run_ok:
  assumes "env_status (envs s e) = ENV_RUNNABLE"
  obtains s' where "env_run e s = Ret s'" "curenv s' = Some e" "env_sched_list s' = env_sched_list s"
    "sched_count s' = sched_count s" "same_envs s s'" "pm.truncate s' = pm.truncate s"
    "cur_pgdir s' = env_pgdir (envs s e)" "cpu_entryhi s' = push_bit 6 (env_asid (envs s e))"
    "cpu_tf s' = (if curenv s = Some e then kstack_tf s else env_tf (envs s e))"
    "\<forall>c. curenv s = Some c \<longrightarrow> env_tf (envs s' c) = kstack_tf s"
    "\<forall>c. curenv s \<noteq> Some c \<longrightarrow> env_tf (envs s' c) = env_tf (envs s c)"
    "env_runs (envs s' e) = env_runs (envs s e) + 1"
    "asid_bitmap s' = asid_bitmap s" "env_free_list s' = env_free_list s" "kstack_tf s' = kstack_tf s"
proof -
  obtain s' where s': "env_run e s = Ret s'"
    using assms by (simp add: env_run_def rassert_def Let_def)
  have "envs s' = (let E = (case curenv s of None \<Rightarrow> envs s
        | Some c \<Rightarrow> (envs s)(c := (envs s c)\<lparr>env_tf := kstack_tf s\<rparr>)) in
      E(e := (E e)\<lparr>env_runs := env_runs (E e) + 1\<rparr>))"
    using s' assms by (auto simp: env_run_def rassert_def Let_def upd_env_def env_pop_tf_def split: option.splits)
  note E = this
  show ?thesis
  proof (rule that[OF s'])
    show "same_envs s s'" unfolding same_envs_def E Let_def
    proof
      fix x
      show "\<exists>t r. ((case curenv s of None \<Rightarrow> envs s | Some c \<Rightarrow> (envs s)(c := (envs s c)\<lparr>env_tf := kstack_tf s\<rparr>))
        (e := ((case curenv s of None \<Rightarrow> envs s | Some c \<Rightarrow> (envs s)(c := (envs s c)\<lparr>env_tf := kstack_tf s\<rparr>)) e)
          \<lparr>env_runs := env_runs ((case curenv s of None \<Rightarrow> envs s
             | Some c \<Rightarrow> (envs s)(c := (envs s c)\<lparr>env_tf := kstack_tf s\<rparr>)) e) + 1\<rparr>)) x =
        (envs s x)\<lparr>env_tf := t, env_runs := r\<rparr>"
        by (rule exI[of _ "if curenv s = Some x then kstack_tf s else env_tf (envs s x)"],
            rule exI[of _ "if x = e then env_runs (envs s x) + 1 else env_runs (envs s x)"])
          (auto split: option.splits)
    qed
  qed (use s' assms E in \<open>auto simp: env_run_def rassert_def Let_def upd_env_def env_pop_tf_def
      pm.truncate_def split: option.splits\<close>)
qed

lemma same_envs_refl: "same_envs s s"
  unfolding same_envs_def
proof
  fix x show "\<exists>t r. envs s x = (envs s x)\<lparr>env_tf := t, env_runs := r\<rparr>"
    by (rule exI[of _ "env_tf (envs s x)"], rule exI[of _ "env_runs (envs s x)"]) simp
qed

lemma same_envs_trans:
  assumes "same_envs s s1" "same_envs s1 s2"
  shows "same_envs s s2"
  unfolding same_envs_def
proof
  fix x
  obtain t r t' r' where "envs s1 x = (envs s x)\<lparr>env_tf := t, env_runs := r\<rparr>"
    "envs s2 x = (envs s1 x)\<lparr>env_tf := t', env_runs := r'\<rparr>"
    using assms unfolding same_envs_def by meson
  then show "\<exists>t r. envs s2 x = (envs s x)\<lparr>env_tf := t, env_runs := r\<rparr>" by auto
qed

lemma runq_same:
  "runq s rl \<Longrightarrow> same_envs s s' \<Longrightarrow> env_sched_list s' = env_sched_list s \<Longrightarrow> runq s' rl"
  by (simp add: runq_def same_envs_fields)

section \<open>Refinement of the round-robin machine\<close>

text \<open>
  One scheduling decision on a list: the current environment, if it is in the queue, goes to the
  back and the front one runs with its priority as slice count, unless it has slices left.
\<close>

definition rr_step :: "bool \<Rightarrow> (nat \<Rightarrow> u32) \<Rightarrow> nat list \<times> nat option \<times> u32 \<Rightarrow> (nat \<times> nat list \<times> u32) option" where
  "rr_step yield pri = (\<lambda>(q, cur, cnt).
     if \<not> yield \<and> 0 <s cnt \<and> cur \<noteq> None \<and> the cur \<in> set q then Some (the cur, q, cnt - 1)
     else let q = (case cur of None \<Rightarrow> q | Some c \<Rightarrow> if c \<in> set q then remove1 c q @ [c] else q)
       in if q = [] then None else Some (hd q, q, pri (hd q) - 1))"

text \<open>
  A current environment that is not runnable has just been removed from the queue, so that
  removing it again changes nothing.
\<close>

definition cur_settled :: "kern \<Rightarrow> bool" where
  "cur_settled s \<longleftrightarrow> (\<forall>c. curenv s = Some c \<longrightarrow> c < NENV \<and>
     (env_status (envs s c) \<noteq> ENV_RUNNABLE \<longrightarrow> TAILQ_REMOVE c (env_sched_list s) = Ret (env_sched_list s)))"

lemma sched_pick_stay:
  assumes "\<not> yield" "0 <s sched_count s" "curenv s = Some c" "env_status (envs s c) = ENV_RUNNABLE"
  shows "sched_pick yield s = Ret (c, s)"
  using assms by (simp add: sched_pick_def word_sless_alt word_sle_eq)

lemma sched_pick_move:
  assumes sw: "yield \<or> \<not> 0 <s sched_count s \<or> curenv s = None \<or> env_status (envs s (the (curenv s))) \<noteq> ENV_RUNNABLE"
    and q: "runq s rl" and c: "cur_settled s"
  defines "ql \<equiv> (case curenv s of None \<Rightarrow> rl | Some c \<Rightarrow> if c \<in> set rl then remove1 c rl @ [c] else rl)"
  shows "\<exists>q'. tailq_rep q' ql \<and> set ql = set rl \<and>
    sched_pick yield s = (if ql = [] then Panic ''no runnable envs''
      else Ret (hd ql, s\<lparr>env_sched_list := q', sched_count := env_pri (envs s (hd ql))\<rparr>))"
proof -
  have sw': "yield \<or> sched_count s \<le>s 0 \<or> curenv s = None \<or> env_status (envs s (the (curenv s))) \<noteq> ENV_RUNNABLE"
    using sw by (auto simp: word_sless_alt word_sle_eq)
  have rep: "tailq_rep (env_sched_list s) rl"
    and st: "\<And>e. e < NENV \<Longrightarrow> (e \<in> set rl) = (env_status (envs s e) = ENV_RUNNABLE)"
    using q by (auto simp: runq_def)
  have set: "set ql = set rl"
    using tailq_rep_distinct[OF rep] by (auto simp: ql_def set_remove1_eq split: option.splits)
  have "\<exists>q'. tailq_rep q' ql \<and> (case curenv s of None \<Rightarrow> Ret s
      | Some e \<Rightarrow> rbind (TAILQ_REMOVE e (env_sched_list s)) (\<lambda>q.
          let s = s\<lparr>env_sched_list := q\<rparr>
          in if env_status (envs s e) = ENV_RUNNABLE
             then rbind (TAILQ_INSERT_TAIL e (env_sched_list s)) (\<lambda>q. Ret (s\<lparr>env_sched_list := q\<rparr>))
             else Ret s)) = Ret (s\<lparr>env_sched_list := q'\<rparr>)"
  proof (cases "curenv s")
    case None
    then show ?thesis using rep by (intro exI[of _ "env_sched_list s"]) (simp add: ql_def)
  next
    case (Some c)
    then have cN: "c < NENV" using \<open>cur_settled s\<close> by (simp add: cur_settled_def)
    show ?thesis
    proof (cases "c \<in> set rl")
      case True
      obtain q1 q2 where r: "TAILQ_REMOVE c (env_sched_list s) = Ret q1" "TAILQ_INSERT_TAIL c q1 = Ret q2"
        "tailq_rep q2 (remove1 c rl @ [c])"
        using tq.rotate[OF rep True] by metis
      then show ?thesis using True Some st[OF cN] by (intro exI[of _ q2]) (simp add: ql_def)
    next
      case False
      then have "TAILQ_REMOVE c (env_sched_list s) = Ret (env_sched_list s)"
        using Some \<open>cur_settled s\<close> st[OF cN] by (simp add: cur_settled_def)
      then show ?thesis using False Some st[OF cN] rep
        by (intro exI[of _ "env_sched_list s"]) (simp add: ql_def)
    qed
  qed
  then obtain q' where q': "tailq_rep q' ql" "(case curenv s of None \<Rightarrow> Ret s
      | Some e \<Rightarrow> rbind (TAILQ_REMOVE e (env_sched_list s)) (\<lambda>q.
          let s = s\<lparr>env_sched_list := q\<rparr>
          in if env_status (envs s e) = ENV_RUNNABLE
             then rbind (TAILQ_INSERT_TAIL e (env_sched_list s)) (\<lambda>q. Ret (s\<lparr>env_sched_list := q\<rparr>))
             else Ret s)) = Ret (s\<lparr>env_sched_list := q'\<rparr>)" by blast
  have "sched_pick yield s = (if ql = [] then Panic ''no runnable envs''
      else Ret (hd ql, s\<lparr>env_sched_list := q', sched_count := env_pri (envs s (hd ql))\<rparr>))"
    unfolding sched_pick_def Let_def[of "curenv s"] q'(2) rbind_simps
    using sw' q'(1) by (cases ql) (auto simp: tailq_rep_empty tailq_rep_first)
  with q'(1) set show ?thesis by blast
qed

text \<open>\<open>schedule\<close> refines the round-robin machine and switches the context.\<close>

lemma schedule_ok:
  assumes q: "runq s rl" and c: "cur_settled s"
    and rr: "rr_step yield (\<lambda>e. env_pri (envs s e)) (rl, curenv s, sched_count s) = Some (e, rl', cnt)"
  obtains s' where "schedule yield s = Ret s'" "runq s' rl'" "curenv s' = Some e" "sched_count s' = cnt"
    "same_envs s s'" "pm.truncate s' = pm.truncate s" "set rl' = set rl" "e \<in> set rl'"
    "cur_pgdir s' = env_pgdir (envs s e)" "cpu_entryhi s' = push_bit 6 (env_asid (envs s e))"
    "cpu_tf s' = (if curenv s = Some e then kstack_tf s else env_tf (envs s e))"
    "\<forall>c. curenv s = Some c \<longrightarrow> env_tf (envs s' c) = kstack_tf s"
    "\<forall>c. curenv s \<noteq> Some c \<longrightarrow> env_tf (envs s' c) = env_tf (envs s c)"
    "env_free_list s' = env_free_list s" "asid_bitmap s' = asid_bitmap s"
proof -
  have st: "\<And>e. e \<in> set rl \<Longrightarrow> env_status (envs s e) = ENV_RUNNABLE"
    using q by (auto simp: runq_def)
  have stc: "(the (curenv s) \<in> set rl) = (env_status (envs s (the (curenv s))) = ENV_RUNNABLE)" if "curenv s \<noteq> None"
    using that c q by (auto simp: runq_def cur_settled_def)
  obtain q' where p: "sched_pick yield s = Ret (e, s\<lparr>env_sched_list := q', sched_count := cnt + 1\<rparr>)"
    "tailq_rep q' rl'" "set rl' = set rl" "e \<in> set rl'"
  proof (cases "\<not> yield \<and> 0 <s sched_count s \<and> curenv s \<noteq> None \<and> the (curenv s) \<in> set rl")
    case True
    then obtain c where c: "curenv s = Some c" "c \<in> set rl" by auto
    with True rr have r: "e = c" "rl' = rl" "cnt + 1 = sched_count s" by (auto simp: rr_step_def)
    have "sched_pick yield s = Ret (c, s)" using True c st by (intro sched_pick_stay) auto
    then show ?thesis using that[of "env_sched_list s"] r c(2) q by (simp add: runq_def)
  next
    case False
    then have "yield \<or> \<not> 0 <s sched_count s \<or> curenv s = None \<or> env_status (envs s (the (curenv s))) \<noteq> ENV_RUNNABLE"
      using stc by auto
    note mv = sched_pick_move[OF this q c]
    define ql where "ql = (case curenv s of None \<Rightarrow> rl | Some c \<Rightarrow> if c \<in> set rl then remove1 c rl @ [c] else rl)"
    have "rr_step yield (\<lambda>e. env_pri (envs s e)) (rl, curenv s, sched_count s) =
        (if ql = [] then None else Some (hd ql, ql, env_pri (envs s (hd ql)) - 1))"
      unfolding rr_step_def prod.case if_not_P[OF False] Let_def ql_def by (rule refl)
    with rr have r: "ql \<noteq> []" "e = hd ql" "rl' = ql" "cnt + 1 = env_pri (envs s e)"
      by (auto split: if_splits)
    obtain q' where q': "tailq_rep q' ql" "set ql = set rl"
      "sched_pick yield s = Ret (hd ql, s\<lparr>env_sched_list := q', sched_count := env_pri (envs s (hd ql))\<rparr>)"
      using mv r(1) unfolding ql_def[symmetric] by auto
    have "hd ql \<in> set ql" using r(1) by simp
    then show ?thesis
      using that[of q'] q' unfolding r(2)[symmetric] r(3) r(4)[symmetric] by blast
  qed
  let ?s = "s\<lparr>env_sched_list := q', sched_count := cnt\<rparr>"
  have "env_status (envs ?s e) = ENV_RUNNABLE" using p(3,4) st by simp
  then obtain s' where s': "env_run e ?s = Ret s'" "curenv s' = Some e" "env_sched_list s' = q'"
    "sched_count s' = cnt" "same_envs ?s s'" "pm.truncate s' = pm.truncate ?s"
    "cur_pgdir s' = env_pgdir (envs s e)" "cpu_entryhi s' = push_bit 6 (env_asid (envs s e))"
    "cpu_tf s' = (if curenv s = Some e then kstack_tf s else env_tf (envs s e))"
    "\<forall>c. curenv s = Some c \<longrightarrow> env_tf (envs s' c) = kstack_tf s"
    "\<forall>c. curenv s \<noteq> Some c \<longrightarrow> env_tf (envs s' c) = env_tf (envs s c)"
    "env_free_list s' = env_free_list s" "asid_bitmap s' = asid_bitmap s"
    by (rule env_run_ok) auto
  have se: "same_envs s s'" using s'(5) by (simp add: same_envs_def)
  have "schedule yield s = Ret s'" using p(1) s'(1) by (simp add: schedule_def)
  moreover have "runq s' rl'" using p(2,3) s'(3) q by (simp add: runq_def same_envs_fields[OF se])
  moreover have "pm.truncate s' = pm.truncate s" using s'(6) by (simp add: pm.truncate_def)
  ultimately show ?thesis by (rule that[OF _ _ s'(2,4) se _ p(3,4) s'(7-13)])
qed

section \<open>Timer interrupts\<close>

text \<open>
  A sequence of timer interrupts (\<open>handle_int\<close> calls \<open>schedule(0)\<close>): at each, the interrupted
  user context has been saved below \<open>KSTACKTOP\<close>.
\<close>

primrec ticks :: "trapframe list \<Rightarrow> kern \<Rightarrow> kern res" where
  "ticks [] s = Ret s"
| "ticks (tf # tfs) s = rbind (schedule False (s\<lparr>kstack_tf := tf\<rparr>)) (ticks tfs)"

lemma ticks_append: "ticks (xs @ ys) s = rbind (ticks xs s) (ticks ys)"
proof (induction xs arbitrary: s)
  case (Cons x xs)
  have "ticks (xs @ ys) = (\<lambda>s. rbind (ticks xs s) (ticks ys))" using Cons by blast
  then show ?case by (simp add: rbind_assoc)
qed simp

definition slices :: "u32 \<Rightarrow> nat" where
  "slices cnt = nat (max 0 (sint cnt))"

text \<open>Slices that an environment of a given priority gets in a turn.\<close>

definition turn :: "u32 \<Rightarrow> nat" where
  "turn pri = slices (pri - 1) + 1"

lemma sint_pred: "0 <s (w :: u32) \<Longrightarrow> sint (w - 1) = sint w - 1"
proof -
  assume "0 <s w"
  then have p: "0 < sint w" by (simp add: word_sless_alt)
  then have u: "uint w < 2 ^ 31" "sint w = uint w" "0 < uint w"
    using sint32[of w] unsigned_less[of w, where ?'a = int] by (auto split: if_splits)
  have "uint (w - 1) = (uint w - 1) mod 2 ^ 32" by (simp add: uint_word_ariths)
  also have "\<dots> = uint w - 1" using u by (intro mod_pos_pos_trivial) auto
  finally show ?thesis using u sint32[of "w - 1"] by simp
qed

lemma turn_pos: "0 <s pri \<Longrightarrow> turn pri = unat pri"
proof -
  assume a: "0 <s pri"
  then have p: "0 < sint pri" by (simp add: word_sless_alt)
  then have "sint pri = uint pri"
    using sint32[of pri] unsigned_less[of pri, where ?'a = int] by (simp split: if_splits)
  then have "sint (pri - 1) = uint pri - 1" "0 < uint pri" using p sint_pred[OF a] by simp_all
  then show ?thesis unfolding turn_def slices_def unat_eq_nat_uint by linarith
qed

lemma runq_kstack [simp]: "runq (s\<lparr>kstack_tf := tf\<rparr>) rl = runq s rl"
  by (simp add: runq_def)

lemma cur_settled_run:
  "runq s rl \<Longrightarrow> curenv s = Some c \<Longrightarrow> c \<in> set rl \<Longrightarrow> cur_settled s"
  by (auto simp: cur_settled_def runq_def)

text \<open>The current environment keeps the processor while it has slices left.\<close>

lemma ticks_stay:
  assumes "runq s rl" "curenv s = Some c" "c \<in> set rl" "length tfs = slices (sched_count s)"
  obtains s' where "ticks tfs s = Ret s'" "runq s' rl" "curenv s' = Some c" "same_envs s s'"
    "\<not> 0 <s sched_count s'"
  using assms
proof (induction tfs arbitrary: s thesis)
  case Nil
  then show ?case by (auto simp: slices_def word_sless_alt intro: same_envs_refl)
next
  case (Cons tf tfs)
  let ?s = "s\<lparr>kstack_tf := tf\<rparr>"
  have pos: "0 <s sched_count s" using Cons.prems(5) by (auto simp: slices_def word_sless_alt)
  have rr: "rr_step False (\<lambda>e. env_pri (envs ?s e)) (rl, curenv ?s, sched_count ?s) = Some (c, rl, sched_count s - 1)"
    using pos Cons.prems by (simp add: rr_step_def)
  have cs: "runq ?s rl" "cur_settled ?s" using Cons.prems(2-4) by (auto intro: cur_settled_run)
  obtain s1 where s1: "schedule False ?s = Ret s1" "runq s1 rl" "curenv s1 = Some c"
    "sched_count s1 = sched_count s - 1" "same_envs ?s s1"
    by (rule schedule_ok[OF cs rr])
  have "slices (sched_count s1) = length tfs"
    using Cons.prems(5) pos by (simp add: slices_def s1(4) sint_pred word_sless_alt)
  then obtain s2 where "ticks tfs s1 = Ret s2" "runq s2 rl" "curenv s2 = Some c" "same_envs s1 s2"
    "\<not> 0 <s sched_count s2"
    using Cons.IH[of s1] s1(2,3) Cons.prems(4) by auto
  moreover have "same_envs s s1" using s1(5) by (simp add: same_envs_def)
  ultimately show ?case using Cons.prems(1)[of s2] s1(1) same_envs_trans by auto
qed

text \<open>Then the next one in the queue gets its turn.\<close>

lemma ticks_turn:
  assumes "runq s (c # e # q)" "curenv s = Some c" "length tfs = slices (sched_count s) + 1"
  obtains s' where "ticks tfs s = Ret s'" "runq s' (e # q @ [c])" "curenv s' = Some e" "same_envs s s'"
    "sched_count s' = env_pri (envs s e) - 1"
proof -
  obtain tf where tf: "tfs = butlast tfs @ [tf]" using assms(3) by (metis append_butlast_last_id length_0_conv
      add_is_0 zero_neq_one)
  then have "length (butlast tfs) = slices (sched_count s)" using assms(3) by simp
  with assms obtain s1 where s1: "ticks (butlast tfs) s = Ret s1" "runq s1 (c # e # q)" "curenv s1 = Some c"
    "same_envs s s1" "\<not> 0 <s sched_count s1"
    using ticks_stay[of s "c # e # q" c "butlast tfs"] by auto
  let ?s = "s1\<lparr>kstack_tf := tf\<rparr>"
  have d: "distinct (c # e # q)"
    using assms(1) tailq_rep_distinct[of "env_sched_list s" "c # e # q"] unfolding runq_def by blast
  have rr: "rr_step False (\<lambda>x. env_pri (envs ?s x)) (c # e # q, curenv ?s, sched_count ?s) =
      Some (e, e # q @ [c], env_pri (envs s1 e) - 1)"
    using s1(3,5) d by (simp add: rr_step_def)
  have cs: "runq ?s (c # e # q)" "cur_settled ?s" using s1 by (auto intro: cur_settled_run)
  obtain s2 where "schedule False ?s = Ret s2" "runq s2 (e # q @ [c])" "curenv s2 = Some e"
    "sched_count s2 = env_pri (envs s1 e) - 1" "same_envs ?s s2"
    by (rule schedule_ok[OF cs rr])
  moreover from this have "same_envs s s2"
    using s1(4) same_envs_trans[of s s1 s2] by (simp add: same_envs_def)
  ultimately show ?thesis
    using that[of s2] s1(1) same_envs_fields(2)[OF s1(4)] tf
    by (metis rbind_simps(1) ticks.simps ticks_append)
qed

lemma ticks_fair:
  assumes "runq s (c # q1 @ e # q2)" "curenv s = Some c"
    "length tfs = slices (sched_count s) + (\<Sum>x\<leftarrow>q1. turn (env_pri (envs s x))) + 1"
  obtains s' where "ticks tfs s = Ret s'" "runq s' (e # q2 @ c # q1)" "curenv s' = Some e" "same_envs s s'"
    "sched_count s' = env_pri (envs s e) - 1"
  using assms
proof (induction q1 arbitrary: s c q2 tfs thesis)
  case Nil
  obtain s' where "ticks tfs s = Ret s'" "runq s' (e # q2 @ [c])" "curenv s' = Some e" "same_envs s s'"
    "sched_count s' = env_pri (envs s e) - 1"
    by (rule ticks_turn[of s c e q2 tfs]) (use Nil in auto)
  then show ?case using Nil(1) by simp
next
  case (Cons x q1)
  define k where "k = slices (sched_count s) + 1"
  have len: "length (take k tfs) = k" using Cons.prems(4) by (simp add: k_def)
  obtain s1 where s1: "ticks (take k tfs) s = Ret s1" "runq s1 (x # (q1 @ e # q2) @ [c])" "curenv s1 = Some x"
    "same_envs s s1" "sched_count s1 = env_pri (envs s x) - 1"
    by (rule ticks_turn[of s c x "q1 @ e # q2" "take k tfs"]) (use Cons.prems len in \<open>auto simp: k_def\<close>)
  have len2: "length (drop k tfs) = slices (sched_count s1) + (\<Sum>y\<leftarrow>q1. turn (env_pri (envs s1 y))) + 1"
    using Cons.prems(4) by (simp add: k_def s1(5) turn_def same_envs_fields(2)[OF s1(4)])
  obtain s2 where s2: "ticks (drop k tfs) s1 = Ret s2" "runq s2 (e # (q2 @ [c]) @ x # q1)" "curenv s2 = Some e"
    "same_envs s1 s2" "sched_count s2 = env_pri (envs s1 e) - 1"
    by (rule Cons.IH[where s = s1 and c = x and ?q2.0 = "q2 @ [c]" and tfs = "drop k tfs"]) (use s1 len2 in auto)
  have "ticks tfs s = Ret s2" using s1(1) s2(1) ticks_append[of "take k tfs" "drop k tfs" s] by simp
  moreover have "sched_count s2 = env_pri (envs s e) - 1"
    using s2(5) by (simp add: same_envs_fields(2)[OF s1(4)])
  ultimately show ?case
    using Cons.prems(1)[of s2] s2 same_envs_trans[OF s1(4) s2(4)] by simp
qed

end
