(* ===== verification/PmapDirs.thy ===== *)
theory PmapDirs
  imports Env
begin

text \<open>
  Creating and destroying address spaces: the effect on the reference-count invariant of a new page
  directory (\<open>env_setup_vm\<close>) and of the loops of \<open>env_free\<close> that unmap every user page, free every
  page table and free the directory.
\<close>

lemma refs_same:
  assumes "pmem s' = pmem s"
  shows "pdes D s' = pdes D s" "tables D s' = tables D s" "map_refs D s' = map_refs D s"
proof -
  have pt: "pt_of s' = pt_of s" "tgt s' = tgt s" using assms by (auto simp: pt_of_def tgt_def fun_eq_iff)
  show pd: "pdes D s' = pdes D s" using assms by (simp add: pdes_def)
  then show "tables D s' = tables D s" by (simp add: tables_def pt)
  have "ptes D s' = ptes D s" using assms by (simp add: ptes_def pd pt)
  then show "map_refs D s' = map_refs D s" by (simp add: map_refs_def pt fun_eq_iff)
qed

lemma map_refs_0:
  assumes "p \<notin> tgt s ` ptes D s"
  shows "map_refs D s p = 0"
proof -
  have "{x \<in> ptes D s. tgt s x = p} = {}" using assms by auto
  then show ?thesis by (simp only: map_refs_def card.empty)
qed

section \<open>A new directory\<close>

lemma new_dir_refs:
  assumes st: "pm_struct D s" and p: "p \<notin> D" "p \<notin> tables D s"
    and inv: "\<forall>i < user_pdes. \<not> pte_valid (pmem s' p i)"
    and m: "\<forall>q. q \<noteq> p \<longrightarrow> pmem s' q = pmem s q"
  shows "pdes (insert p D) s' = pdes D s" "tables (insert p D) s' = tables D s"
    "ptes (insert p D) s' = ptes D s" "map_refs (insert p D) s' = map_refs D s"
    "tgt s' ` ptes D s = tgt s ` ptes D s" "\<And>d i. d \<in> D \<Longrightarrow> pt_of s' d i = pt_of s d i"
    "\<forall>d \<in> D. aspace s' d = aspace s d" "aspace s' p = Map.empty"
proof -
  have e: "\<And>q. q \<in> D \<Longrightarrow> pmem s' q = pmem s q" "\<And>q. q \<in> tables D s \<Longrightarrow> pmem s' q = pmem s q"
    using m p by auto
  note c = refs_cong[OF e]
  show pd: "pdes (insert p D) s' = pdes D s" using inv by (auto simp: pdes_def e(1))
  show pt: "pt_of s' d i = pt_of s d i" if "d \<in> D" for d i by (rule c(2)[OF _ _ that]) auto
  have pd': "pdes D s' = pdes D s" by (rule c(1))
  have "tables (insert p D) s' = tables D s'" by (simp add: tables_def pd pd')
  then show "tables (insert p D) s' = tables D s" using c(3) by simp
  have "ptes (insert p D) s' = ptes D s'" by (simp add: ptes_def pd pd')
  then show pe: "ptes (insert p D) s' = ptes D s" using c(4) by simp
  have tg: "tgt s' x = tgt s x" if "x \<in> ptes D s" for x by (rule c(5)[OF _ _ that]) auto
  then show "tgt s' ` ptes D s = tgt s ` ptes D s" by auto
  show "map_refs (insert p D) s' = map_refs D s"
  proof
    fix q
    have "{x \<in> ptes D s. tgt s' x = q} = {x \<in> ptes D s. tgt s x = q}" using tg by auto
    then show "map_refs (insert p D) s' q = map_refs D s q" by (simp add: map_refs_def pe)
  qed
  show "\<forall>d \<in> D. aspace s' d = aspace s d" using aspace_cong[OF e] by blast
  show "aspace s' p = Map.empty" using inv by (auto simp: aspace_def fun_eq_iff)
qed

lemma new_dir:
  assumes inv: "pm_inv ext D s" and fl: "free_ok s fl" and p: "p < npage s" "pp_ref s p = 0" "p \<notin> set fl"
    and s': "npage s' = npage s" "page_free_list s' = page_free_list s" "pp_ref s' = (pp_ref s)(p := 1)"
    and z: "\<forall>i < user_pdes. \<not> pte_valid (pmem s' p i)" and m: "\<forall>q. q \<noteq> p \<longrightarrow> pmem s' q = pmem s q"
  shows "pm_inv ext (insert p D) s'" "free_ok s' fl" "p \<notin> D"
    "\<forall>d \<in> D. aspace s' d = aspace s d" "aspace s' p = Map.empty"
proof -
  have st: "pm_struct D s" and co: "count_ok ext D s" using inv by (simp_all add: pm_inv_def)
  have "ext p + pg_refs D s p = 0" using co p by (auto simp: count_ok_def)
  then have nr: "p \<notin> D" "p \<notin> tables D s" "p \<notin> tgt s ` ptes D s" "map_refs D s p = 0" "ext p = 0"
    using pg_refs_0[of D s p] st by (auto simp: pm_struct_def pg_refs_def split: if_splits)
  note r = new_dir_refs[OF st nr(1,2) z m]
  have "inj_on (\<lambda>(d, i). pt_of s' d i) (pdes D s) = inj_on (\<lambda>(d, i). pt_of s d i) (pdes D s)"
    by (rule inj_on_cong) (auto simp: r(6) pdes_def)
  then have "pm_struct (insert p D) s'"
    using st p(1) nr(1-3) by (auto simp: pm_struct_def r(1-3,5) s'(1))
  moreover have fo: "free_ok s' fl" using fl p(3) s' by (auto simp: free_ok_def)
  moreover have "count_ok ext (insert p D) s'"
    using co nr by (auto simp: count_ok_def s' pg_refs_def r(2,4))
  ultimately show "pm_inv ext (insert p D) s'" by (auto simp: pm_inv_def)
  show "free_ok s' fl" by (rule fo)
  show "p \<notin> D" by (rule nr(1))
  show "\<forall>d \<in> D. aspace s' d = aspace s d" "aspace s' p = Map.empty" by (fact r(7,8))+
qed

section \<open>Freeing an empty page table\<close>

lemma clear_pde_refs:
  assumes st: "pm_struct D s" and de: "(d, i) \<in> pdes D s"
    and none: "\<forall>j < 1024. \<not> pte_valid (pmem s (pt_of s d i) j)"
    and m: "\<And>q. pmem s' q = (if q = d then (pmem s d)(i := 0) else pmem s q)" and n: "npage s' = npage s"
  shows "pdes D s' = pdes D s - {(d, i)}" "tables D s' = tables D s - {pt_of s d i}"
    "ptes D s' = ptes D s" "map_refs D s' = map_refs D s" "pm_struct D s'"
    "\<forall>d' \<in> D. aspace s' d' = aspace s d'"
proof -
  have d: "d \<in> D" "i < user_pdes" using de by (auto simp: pdes_def)
  have inj: "inj_on (\<lambda>(d, i). pt_of s d i) (pdes D s)" using st by (simp add: pm_struct_def)
  show pd: "pdes D s' = pdes D s - {(d, i)}" by (auto simp: pdes_def m split: if_splits)
  have pt: "pt_of s' d' i' = pt_of s d' i'" if "(d', i') \<noteq> (d, i)" for d' i'
    using that by (auto simp: pt_of_def m)
  have ti: "(\<lambda>(d, i). pt_of s' d i) ` pdes D s' = (\<lambda>(d, i). pt_of s d i) ` (pdes D s - {(d, i)})"
    unfolding pd by (rule image_cong[OF refl]) (use pt in \<open>auto split: prod.splits\<close>)
  also have "\<dots> = tables D s - {pt_of s d i}"
    using inj_on_image_set_diff[OF inj, of "pdes D s" "{(d, i)}"] de by (auto simp: tables_def)
  finally show tb: "tables D s' = tables D s - {pt_of s d i}" by (simp add: tables_def)
  have tD: "tables D s \<inter> D = {}" using st by (auto simp: pm_struct_def)
  have mt: "pmem s' (pt_of s' d' i') = pmem s (pt_of s d' i')" if "(d', i') \<in> pdes D s" "(d', i') \<noteq> (d, i)" for d' i'
    using that pt_of_in[OF that(1)] tD d by (auto simp: m pt)
  have pe': "(d', i', j) \<in> ptes D s' \<longleftrightarrow> (d', i', j) \<in> ptes D s" for d' i' j
    using none mt[of d' i'] unfolding ptes_def pd by (cases "(d', i') = (d, i)") auto
  show pe: "ptes D s' = ptes D s" using pe' by auto
  have ne: "(d', i') \<noteq> (d, i)" "(d', i') \<in> pdes D s" if "(d', i', j) \<in> ptes D s" for d' i' j
    using that none by (auto simp: ptes_def)
  have tg: "tgt s' x = tgt s x" if "x \<in> ptes D s" for x
  proof -
    obtain d' i' j where x: "x = (d', i', j)" by (cases x)
    have "pmem s' (pt_of s' d' i') = pmem s (pt_of s d' i')" using mt ne that unfolding x by blast
    then show ?thesis by (simp add: tgt_def x)
  qed
  show "map_refs D s' = map_refs D s"
  proof
    fix q
    have "{x \<in> ptes D s. tgt s' x = q} = {x \<in> ptes D s. tgt s x = q}" using tg by auto
    then show "map_refs D s' q = map_refs D s q" by (simp add: map_refs_def pe)
  qed
  show "\<forall>d' \<in> D. aspace s' d' = aspace s d'"
  proof (intro ballI ext option.expand)
    fix d' and x :: "nat \<times> nat" assume "d' \<in> D"
    obtain i' j' where x: "x = (i', j')" by (cases x)
    have mm: "pmem s' (pt_of s' d' i') j' = pmem s (pt_of s d' i') j'" if "(d', i', j') \<in> ptes D s"
      using mt[OF ne(2,1)[OF that]] by simp
    have "aspace s' d' x = Some v \<longleftrightarrow> aspace s d' x = Some v" for v
      using \<open>d' \<in> D\<close> by (auto simp: x aspace_Some_iff[of d' D] pe mm)
    then show "(aspace s' d' x = None) = (aspace s d' x = None)"
      "the (aspace s' d' x) = the (aspace s d' x)"
      by (metis not_None_eq)+
  qed
  have "inj_on (\<lambda>(d, i). pt_of s' d i) (pdes D s') = inj_on (\<lambda>(d, i). pt_of s d i) (pdes D s - {(d, i)})"
    unfolding pd by (rule inj_on_cong) (use pt in \<open>auto split: prod.splits\<close>)
  then have "inj_on (\<lambda>(d, i). pt_of s' d i) (pdes D s')" using inj by (auto intro: inj_on_subset)
  moreover have "tgt s' ` ptes D s = tgt s ` ptes D s" using tg by auto
  ultimately show "pm_struct D s'" using st by (auto simp: pm_struct_def tb pe n)
qed

lemma clear_pde:
  assumes inv: "pm_inv ext D s" and fl: "free_ok s fl" and de: "(d, i) \<in> pdes D s"
    and none: "\<forall>j < 1024. \<not> pte_valid (pmem s (pt_of s d i) j)"
  obtains s' fl' where "page_decref (pt_of s d i) (store_word (d, i) 0 s) = Ret s'"
    "pm_inv ext D s'" "free_ok s' fl'" "\<forall>d' \<in> D. aspace s' d' = aspace s d'"
    "npage s' = npage s" "pm.more s' = pm.more s" "tlb s' = tlb s"
    "pdes D s' = pdes D s - {(d, i)}" "tables D s' \<subseteq> tables D s"
    "\<forall>q. q \<noteq> d \<longrightarrow> pmem s' q = pmem s q" "pmem s' d = (pmem s d)(i := 0)"
proof -
  let ?t = "pt_of s d i" and ?s = "store_word (d, i) 0 s"
  have st: "pm_struct D s" and co: "count_ok ext D s" using inv by (simp_all add: pm_inv_def)
  have m: "pmem ?s q = (if q = d then (pmem s d)(i := 0) else pmem s q)" for q by (simp add: store_word_def)
  note r = clear_pde_refs[OF st de none, of ?s, OF m]
  have r': "pdes D ?s = pdes D s - {(d, i)}" "tables D ?s = tables D s - {?t}" "ptes D ?s = ptes D s"
    "map_refs D ?s = map_refs D s" "pm_struct D ?s" "\<forall>d' \<in> D. aspace ?s d' = aspace s d'"
    using r by (simp_all add: store_word_def)
  have t: "?t \<in> tables D s" using de by (rule pt_of_in)
  then have tl: "?t < npage s" "?t \<notin> D" "?t \<notin> tgt s ` ptes D s" using st by (auto simp: pm_struct_def)
  then have mr: "map_refs D s ?t = 0" by (simp add: map_refs_0)
  then have ref: "unat (pp_ref s ?t) = ext ?t + 1" using co tl t by (simp add: count_ok_def pg_refs_def)
  have fl': "free_ok ?s fl" using fl by (simp add: free_ok_def store_word_def)
  have pos: "0 < unat (pp_ref ?s ?t)" "?t < npage ?s" using ref tl(1) by (simp_all add: store_word_def)
  obtain s' where s': "page_decref ?t ?s = Ret s'" "pmem s' = pmem ?s" "npage s' = npage ?s" "tlb s' = tlb ?s"
    "pm.more s' = pm.more ?s" "pp_ref s' = (pp_ref ?s)(?t := pp_ref ?s ?t - 1)"
    "free_ok s' (if unat (pp_ref ?s ?t) = 1 then ?t # fl else fl)"
    by (rule page_decref_ok[OF fl' pos])
  have e: "\<And>q. q \<in> D \<Longrightarrow> pmem s' q = pmem ?s q" "\<And>q. q \<in> tables D ?s \<Longrightarrow> pmem s' q = pmem ?s q"
    using s'(2) by simp_all
  note c = refs_same[OF s'(2)]
  have "pm_struct D s'" by (rule pm_struct_cong[OF r'(5) s'(3) e])
  moreover have "count_ok ext D s'"
  proof -
    have tb: "tables D s' = tables D s - {?t}" "map_refs D s' = map_refs D s" using c(2,3) r'(2,4) by simp_all
    have "pp_ref s ?t \<noteq> 0" using ref by auto
    then have "unat (pp_ref s ?t - 1) = ext ?t" using ref by (simp add: unat_minus_one)
    with co tl mr show ?thesis
      by (auto simp: count_ok_def pg_refs_def tb s'(3,6) store_word_def)
  qed
  ultimately have "pm_inv ext D s'" using s'(7) by (auto simp: pm_inv_def)
  moreover have "\<forall>d' \<in> D. aspace s' d' = aspace s d'"
    using r'(6) aspace_same[OF s'(2)] by simp
  moreover have "pdes D s' = pdes D s - {(d, i)}" "tables D s' \<subseteq> tables D s" using c(1,2) r'(1,2) by auto
  ultimately show ?thesis
    using that[OF s'(1) _ s'(7)] s' by (simp add: store_word_def)
qed

section \<open>Freeing an empty directory\<close>

lemma drop_dir:
  assumes inv: "pm_inv ext D s" and fl: "free_ok s fl" and d: "d \<in> D"
    and none: "\<forall>i < user_pdes. \<not> pte_valid (pmem s d i)"
  obtains s' fl' where "page_decref d s = Ret s'" "pm_inv ext (D - {d}) s'" "free_ok s' fl'"
    "\<forall>d' \<in> D - {d}. aspace s' d' = aspace s d'" "npage s' = npage s" "pm.more s' = pm.more s"
    "tlb s' = tlb s" "pmem s' = pmem s" "ext d = 0 \<longrightarrow> d \<in> set fl'"
proof -
  have st: "pm_struct D s" and co: "count_ok ext D s" using inv by (simp_all add: pm_inv_def)
  have pd: "pdes (D - {d}) s = pdes D s" using none by (auto simp: pdes_def)
  have tb: "tables (D - {d}) s = tables D s" "ptes (D - {d}) s = ptes D s" "map_refs (D - {d}) s = map_refs D s"
    by (simp_all add: tables_def ptes_def pd map_refs_def fun_eq_iff)
  have dl: "d < npage s" "d \<notin> tables D s" "d \<notin> tgt s ` ptes D s" using st d by (auto simp: pm_struct_def)
  then have mr: "map_refs D s d = 0" by (simp add: map_refs_0)
  then have ref: "unat (pp_ref s d) = ext d + 1" using co dl d by (simp add: count_ok_def pg_refs_def)
  then have pos: "0 < unat (pp_ref s d)" by simp
  obtain s' where s': "page_decref d s = Ret s'" "pmem s' = pmem s" "npage s' = npage s" "tlb s' = tlb s"
    "pm.more s' = pm.more s" "pp_ref s' = (pp_ref s)(d := pp_ref s d - 1)"
    "free_ok s' (if unat (pp_ref s d) = 1 then d # fl else fl)"
    by (rule page_decref_ok[OF fl pos dl(1)])
  have e: "\<And>q. q \<in> D - {d} \<Longrightarrow> pmem s' q = pmem s q" "\<And>q. q \<in> tables (D - {d}) s \<Longrightarrow> pmem s' q = pmem s q"
    using s'(2) by simp_all
  note c = refs_same[OF s'(2)]
  have "pm_struct (D - {d}) s" using st by (auto simp: pm_struct_def pd tb)
  then have "pm_struct (D - {d}) s'" by (rule pm_struct_cong[OF _ s'(3) e])
  moreover have "count_ok ext (D - {d}) s'"
  proof -
    have tb': "tables (D - {d}) s' = tables D s" "map_refs (D - {d}) s' = map_refs D s"
      using c(2,3) tb by simp_all
    have "pp_ref s d \<noteq> 0" using ref by auto
    then have "unat (pp_ref s d - 1) = ext d" using ref by (simp add: unat_minus_one)
    with co dl mr show ?thesis by (auto simp: count_ok_def pg_refs_def tb' s'(3,6))
  qed
  ultimately have "pm_inv ext (D - {d}) s'" using s'(7) by (auto simp: pm_inv_def)
  moreover have "\<forall>d' \<in> D - {d}. aspace s' d' = aspace s d'" using aspace_same[OF s'(2)] by blast
  ultimately show ?thesis using that[OF s'(1) _ s'(7)] s' ref by simp
qed

text \<open>A directory that no environment uses: its page keeps a reference that is accounted for outside.\<close>

lemma leak_dir:
  assumes inv: "pm_inv ext (insert p D) s" and p: "p \<notin> D" and none: "\<forall>i < user_pdes. \<not> pte_valid (pmem s p i)"
  shows "pm_inv (ext(p := Suc (ext p))) D s"
proof -
  have st: "pm_struct (insert p D) s" and co: "count_ok ext (insert p D) s" using inv by (simp_all add: pm_inv_def)
  have pd: "pdes (insert p D) s = pdes D s" using none by (auto simp: pdes_def)
  have tb: "tables (insert p D) s = tables D s" "ptes (insert p D) s = ptes D s" "map_refs (insert p D) s = map_refs D s"
    by (simp_all add: tables_def ptes_def pd map_refs_def fun_eq_iff)
  have "pm_struct D s" using st by (auto simp: pm_struct_def pd tb)
  moreover have "count_ok (ext(p := Suc (ext p))) D s" using co p by (auto simp: count_ok_def pg_refs_def tb)
  ultimately show ?thesis using inv by (simp add: pm_inv_def)
qed

section \<open>The loops of env\_free\<close>

lemma va_of_idx:
  assumes "i < 1024" "j < 1024"
  shows "unat (PDX (push_bit 22 (of_nat i) OR push_bit 12 (of_nat j))) = i"
    "unat (PTX (push_bit 22 (of_nat i) OR push_bit 12 (of_nat j))) = j"
proof -
  let ?a = "push_bit 22 (of_nat i) :: u32" and ?b = "push_bit 12 (of_nat j) :: u32"
  have "?a AND ?b = 0"
  proof (rule bit_word_eqI)
    fix n assume "n < LENGTH(32)"
    have "\<not> bit (of_nat j :: u32) (n - 12)" if "22 \<le> n"
    proof -
      have "(of_nat j :: u32) = take_bit 10 (of_nat j)"
        using assms(2) by (simp add: word_unat_eq_iff take_bit_eq_mod unat_mod unat_of_nat)
      then have "bit (of_nat j :: u32) (n - 12) = bit (take_bit 10 (of_nat j :: u32)) (n - 12)" by (rule arg_cong)
      moreover have "\<not> n - 12 < 10" using that by simp
      ultimately show ?thesis by (simp only: bit_take_bit_iff) simp
    qed
    then show "bit (?a AND ?b) n = bit (0 :: u32) n" by (auto simp: bit_simps)
  qed
  then have s: "?a OR ?b = ?a + ?b" using word_plus_and_or[of ?a ?b] by (metis add_0)
  have u: "unat (?a + ?b) = i * 4194304 + j * 4096"
    using assms by (simp add: push_bit_eq_mult unat_word_ariths unat_of_nat)
  show "unat (PDX (?a OR ?b)) = i" "unat (PTX (?a OR ?b)) = j"
    using assms by (simp_all add: s unat_PDX unat_PTX u)
qed

lemma free_ptes_ok:
  assumes inv: "pm_inv ext D s" and d: "d \<in> D" and i: "i < user_pdes" and v: "pte_valid (pmem s d i)"
    and js: "set js \<subseteq> {..<1024}"
  obtains s' where "free_ptes js d asid i (pt_of s d i) s = Ret s'" "pm_inv ext D s'"
    "\<forall>d' \<in> D. aspace s' d' = (if d' = d then (\<lambda>x. if x \<in> {i} \<times> set js then None else aspace s d x) else aspace s d')"
    "npage s' = npage s" "pm.more s' = pm.more s" "pdes D s' = pdes D s" "pmem s' d = pmem s d"
  using assms
proof (induction js arbitrary: s thesis)
  case Nil
  show ?case by (rule Nil(1)[of s]) (use Nil(2) in auto)
next
  case (Cons j js)
  have st: "pm_struct D s" using Cons.prems(2) by (simp add: pm_inv_def)
  have j: "j < 1024" using Cons.prems(6) by simp
  let ?va = "push_bit 22 (of_nat i) OR push_bit 12 (of_nat j) :: u32" and ?t = "pt_of s d i"
  have "i < 1024" using Cons.prems(4) by (simp add: user_pdes_def)
  note va = va_of_idx[OF this j]
  have dT: "d \<notin> tables D s" using st Cons.prems(3) by (auto simp: pm_struct_def)
  obtain s1 where s1: "(if pte_valid (load_word s (?t, j)) then page_remove d asid ?va s else Ret s) = Ret s1"
    "pm_inv ext D s1" "\<forall>d' \<in> D. aspace s1 d' = (if d' = d then (aspace s d)((i, j) := None) else aspace s d')"
    "npage s1 = npage s" "pm.more s1 = pm.more s" "pdes D s1 = pdes D s" "pmem s1 d = pmem s d"
  proof (cases "pte_valid (load_word s (?t, j))")
    case True
    obtain fl where fl: "free_ok s fl" using Cons.prems(2) by (auto simp: pm_inv_def)
    have iu: "unat (PDX ?va) < user_pdes" using Cons.prems(4) va by simp
    obtain s1 where "page_remove d asid ?va s = Ret s1" "pm_inv ext D s1"
      "\<forall>d' \<in> D. aspace s1 d' = (if d' = d then (aspace s d)(vidx ?va := None) else aspace s d')"
      "npage s1 = npage s" "pm.more s1 = pm.more s" "pdes D s1 = pdes D s"
      "\<forall>q. q \<notin> tables D s \<longrightarrow> pmem s1 q = pmem s q"
      by (rule page_remove_ok[OF Cons.prems(2) fl Cons.prems(3) iu, where asid = asid])
    then show ?thesis using that[of s1] True va dT by (simp add: vidx_def)
  next
    case False
    then have "(aspace s d)((i, j) := None) = aspace s d"
      by (auto simp: aspace_def load_word_def fun_eq_iff)
    then show ?thesis using that[of s] False Cons.prems(2) by simp
  qed
  have t: "pt_of s1 d i = ?t" using s1(7) by (simp add: pt_of_def)
  have v1: "pte_valid (pmem s1 d i)" using s1(7) Cons.prems(5) by simp
  obtain s2 where s2: "free_ptes js d asid i ?t s1 = Ret s2" "pm_inv ext D s2"
    "\<forall>d' \<in> D. aspace s2 d' = (if d' = d then (\<lambda>x. if x \<in> {i} \<times> set js then None else aspace s1 d x) else aspace s1 d')"
    "npage s2 = npage s1" "pm.more s2 = pm.more s1" "pdes D s2 = pdes D s1" "pmem s2 d = pmem s1 d"
    using Cons.IH[of s1] s1(2) Cons.prems(3,4,6) v1 unfolding t by auto
  show ?case
  proof (rule Cons.prems(1)[of s2])
    show "free_ptes (j # js) d asid i ?t s = Ret s2" using s1(1) s2(1) by simp
    show "\<forall>d' \<in> D. aspace s2 d' = (if d' = d then (\<lambda>x. if x \<in> {i} \<times> set (j # js) then None else aspace s d x)
        else aspace s d')"
      using s2(3) s1(3) Cons.prems(3) by (auto simp: fun_eq_iff)
  qed (use s1 s2 in simp_all)
qed

lemma free_table_ok:
  assumes inv: "pm_inv ext D s" and d: "d \<in> D" and i: "i < user_pdes"
  obtains s' where "free_table d asid i s = Ret s'" "pm_inv ext D s'"
    "\<forall>d' \<in> D. aspace s' d' = (if d' = d then (\<lambda>x. if fst x = i then None else aspace s d x) else aspace s d')"
    "npage s' = npage s" "pm.more s' = pm.more s" "pmem s' d = (pmem s d)(i := pmem s' d i)"
    "\<not> pte_valid (pmem s' d i)"
proof (cases "pte_valid (pmem s d i)")
  case False
  then have "(\<lambda>x. if fst x = i then None else aspace s d x) = aspace s d"
    by (auto simp: aspace_def fun_eq_iff)
  moreover have "free_table d asid i s = Ret s" using False by (simp add: free_table_def load_word_def)
  ultimately show ?thesis using that[of s] inv False by simp
next
  case True
  let ?t = "pt_of s d i" and ?js = "[0..<1024]"
  have st: "pm_struct D s" using inv by (simp add: pm_inv_def)
  have de: "(d, i) \<in> pdes D s" using True d i by (simp add: pdes_def)
  have tl: "?t < npage s" "?t \<notin> D" using st pt_of_in[OF de] by (auto simp: pm_struct_def)
  obtain s1 where s1: "free_ptes ?js d asid i ?t s = Ret s1" "pm_inv ext D s1"
    "\<forall>d' \<in> D. aspace s1 d' = (if d' = d then (\<lambda>x. if x \<in> {i} \<times> set ?js then None else aspace s d x) else aspace s d')"
    "npage s1 = npage s" "pm.more s1 = pm.more s" "pdes D s1 = pdes D s" "pmem s1 d = pmem s d"
    by (rule free_ptes_ok[OF inv d i True, of ?js asid]) auto
  have t: "pt_of s1 d i = ?t" using s1(7) by (simp add: pt_of_def)
  have de1: "(d, i) \<in> pdes D s1" using de s1(6) by simp
  have none: "\<forall>j < 1024. \<not> pte_valid (pmem s1 (pt_of s1 d i) j)"
  proof (intro allI impI notI)
    fix j :: nat assume j: "j < 1024" "pte_valid (pmem s1 (pt_of s1 d i) j)"
    have "aspace s1 d (i, j) = None" using s1(3) d j(1) by simp
    moreover have "aspace s1 d (i, j) \<noteq> None" using i True s1(7) j by (simp add: aspace_def)
    ultimately show False by simp
  qed
  obtain fl where fl: "free_ok s1 fl" using s1(2) by (auto simp: pm_inv_def)
  obtain s2 where s2: "page_decref (pt_of s1 d i) (store_word (d, i) 0 s1) = Ret s2"
    "pm_inv ext D s2" "\<forall>d' \<in> D. aspace s2 d' = aspace s1 d'" "npage s2 = npage s1" "pm.more s2 = pm.more s1"
    "pmem s2 d = (pmem s1 d)(i := 0)"
    by (rule clear_pde[OF s1(2) fl de1 none])
  let ?s = "tlb_invalidate asid (UVPT + push_bit 12 (of_nat i)) s2"
  have k: "unat (PTX (NOT 0)) + 1 = 1024" by code_simp
  have "free_table d asid i s = Ret ?s"
    unfolding free_table_def k Let_def load_word_def fst_conv snd_conv
    using True s1(1,4) s2(1) tl(1)
    by (simp add: KADDR_def pa2page_def store_word_def t flip: pt_of_def)
  moreover have "pm_inv ext D ?s" using s2(2) by (rule pm_inv_same) simp_all
  moreover have "aspace ?s d' = aspace s2 d'" for d' by (rule aspace_same) simp
  moreover have "(\<lambda>x. if x \<in> {i} \<times> set ?js then None else aspace s d x) = (\<lambda>x. if fst x = i then None else aspace s d x)"
    by (auto simp: aspace_def fun_eq_iff)
  ultimately show ?thesis
    using that[of ?s] s1(3,4,5,7) s2(3-6) by simp
qed

lemma free_tables_ok:
  assumes inv: "pm_inv ext D s" and d: "d \<in> D" and ns: "set ns \<subseteq> {..<user_pdes}"
  obtains s' where "free_tables ns d asid s = Ret s'" "pm_inv ext D s'"
    "\<forall>d' \<in> D. d' \<noteq> d \<longrightarrow> aspace s' d' = aspace s d'"
    "npage s' = npage s" "pm.more s' = pm.more s"
    "\<forall>i. i \<notin> set ns \<longrightarrow> pmem s' d i = pmem s d i" "\<forall>i \<in> set ns. \<not> pte_valid (pmem s' d i)"
  using assms
proof (induction ns arbitrary: s thesis)
  case Nil
  show ?case by (rule Nil(1)[of s]) (use Nil(2) in auto)
next
  case (Cons i js)
  have i: "i < user_pdes" using Cons.prems(4) by simp
  obtain s1 where s1: "free_table d asid i s = Ret s1" "pm_inv ext D s1"
    "\<forall>d' \<in> D. aspace s1 d' = (if d' = d then (\<lambda>x. if fst x = i then None else aspace s d x) else aspace s d')"
    "npage s1 = npage s" "pm.more s1 = pm.more s" "pmem s1 d = (pmem s d)(i := pmem s1 d i)"
    "\<not> pte_valid (pmem s1 d i)"
    by (rule free_table_ok[OF Cons.prems(2,3) i, of asid])
  obtain s2 where s2: "free_tables js d asid s1 = Ret s2" "pm_inv ext D s2"
    "\<forall>d' \<in> D. d' \<noteq> d \<longrightarrow> aspace s2 d' = aspace s1 d'" "npage s2 = npage s1" "pm.more s2 = pm.more s1"
    "\<forall>i. i \<notin> set js \<longrightarrow> pmem s2 d i = pmem s1 d i" "\<forall>i \<in> set js. \<not> pte_valid (pmem s2 d i)"
    using Cons.IH[of s1] s1(2) Cons.prems(3,4) by auto
  show ?case
  proof (rule Cons.prems(1)[of s2])
    show "free_tables (i # js) d asid s = Ret s2" using s1(1) s2(1) by simp
    show "\<forall>k. k \<notin> set (i # js) \<longrightarrow> pmem s2 d k = pmem s d k"
      using s2(6) s1(6) by (metis fun_upd_other list.set_intros)
    show "\<forall>k \<in> set (i # js). \<not> pte_valid (pmem s2 d k)"
      using s2(6,7) s1(7) by (metis set_ConsD)
  qed (use s1(3-5) s2 in simp_all)
qed

end
