(* ===== verification/KernInv.thy ===== *)
theory KernInv
  imports Sched PmapDirs
begin

text \<open>
  The invariant of the kernel: page tables and reference counts (\<open>pm_inv\<close> for the directories of the
  live environments), free environments on the free list, runnable ones in the queue, and the
  allocated address space identifiers distinct and recorded in the bitmap. Allocating and freeing
  environments keep it.
\<close>

section \<open>Fields that page operations leave alone\<close>

lemma pm_more_fields:
  fixes s s' :: kern
  assumes "pm.more s' = pm.more s"
  shows "envs s' = envs s" "curenv s' = curenv s" "env_free_list s' = env_free_list s"
    "env_sched_list s' = env_sched_list s" "base_pgdir s' = base_pgdir s" "asid_bitmap s' = asid_bitmap s"
    "mkenvid_i s' = mkenvid_i s" "sched_count s' = sched_count s" "cur_pgdir s' = cur_pgdir s"
    "kstack_tf s' = kstack_tf s" "cpu_tf s' = cpu_tf s" "cpu_entryhi s' = cpu_entryhi s" "console s' = console s"
    "shv s' = shv s"
  using assms by (cases s; cases s'; simp)+

lemma pm_more_upd_env:
  "pm.more s' = pm.more s \<Longrightarrow> pm.more (upd_env e f s') = pm.more (upd_env e f s)"
  by (cases s; cases s'; simp add: upd_env_def)

lemma upd_env_simps [simp]:
  "env_free_list (upd_env e f s) = env_free_list s" "env_sched_list (upd_env e f s) = env_sched_list s"
  "curenv (upd_env e f s) = curenv s" "asid_bitmap (upd_env e f s) = asid_bitmap s"
  "mkenvid_i (upd_env e f s) = mkenvid_i s" "kstack_tf (upd_env e f s) = kstack_tf s"
  "sched_count (upd_env e f s) = sched_count s" "base_pgdir (upd_env e f s) = base_pgdir s"
  "envs (upd_env e f s) = (envs s)(e := f (envs s e))" "pmem (upd_env e f s) = pmem s"
  "npage (upd_env e f s) = npage s" "pp_ref (upd_env e f s) = pp_ref s" "tlb (upd_env e f s) = tlb s"
  "page_free_list (upd_env e f s) = page_free_list s" "cur_pgdir (upd_env e f s) = cur_pgdir s"
  by (simp_all add: upd_env_def)

lemma tlb_invalidate_kern [simp]:
  fixes s :: kern
  shows "envs (tlb_invalidate a va s) = envs s" "env_free_list (tlb_invalidate a va s) = env_free_list s"
    "env_sched_list (tlb_invalidate a va s) = env_sched_list s"
  by (simp_all add: tlb_invalidate_def tlb_out_def)

lemma outputk_eq: "outputk s buf = s\<lparr>console := console s @ buf\<rparr>"
  unfolding outputk_def by (induction buf arbitrary: s) (simp_all add: printcharc_def)

lemma printk_free_env:
  "\<exists>c. printk (''[%08x] free env %08x'' @ [CHR 0x0A]) [AInt a, AInt b] s = Ret (s\<lparr>console := c\<rparr>)"
  unfolding printk_def
  apply (subst vprintfmt.simps)
  apply (simp add: get_spec_def skip_flag_def print_conv_def print_num_eq outputk_eq Let_def)
  apply (subst vprintfmt.simps)
  apply (simp add: get_spec_def skip_flag_def print_conv_def print_num_eq outputk_eq Let_def)
  apply (subst vprintfmt.simps)
  apply (simp add: outputk_eq)
  by blast

lemma printk_killed: "\<exists>c. printk (''i am killed ... '' @ [CHR 0x0A]) [] s = Ret (s\<lparr>console := c\<rparr>)"
  unfolding printk_def by (subst vprintfmt.simps) (simp add: outputk_eq, blast)

section \<open>Address space identifiers\<close>

definition asid_set :: "kern \<Rightarrow> nat set" where
  "asid_set s = {i. i < NASID \<and> bit (asid_bitmap s (i div 32)) (i mod 32)}"

lemma asid_bit: "((w :: u32) AND 2 ^ k = 0) = (\<not> bit w k)"
  by (simp add: and_exp_eq_0_iff_not_bit)

lemma bit_set_asid: "bit ((w :: u32) OR 2 ^ k) n = (bit w n \<or> (n = k \<and> k < 32))"
  by (auto simp: bit_simps)

lemma bit_clear_asid: "k < 32 \<Longrightarrow> bit ((w :: u32) AND NOT (2 ^ k)) n = (bit w n \<and> n \<noteq> k)"
  using bit_imp_le_length[of w n] by (auto simp: bit_and_iff bit_not_iff bit_exp_iff)

lemma mod_eq_iff: "i div 32 = j div 32 \<Longrightarrow> (i mod 32 = j mod 32) = (i = (j :: nat))"
  using div_mult_mod_eq[of i 32] div_mult_mod_eq[of j 32] by auto

lemma asid_scan_ok:
  assumes "set ns \<subseteq> {..<NASID}"
  shows "(set ns \<subseteq> asid_set s \<and> asid_scan ns s = ((- E_NO_FREE_ENV, 0), s)) \<or>
    (\<exists>i bm. i \<in> set ns - asid_set s \<and> asid_scan ns s = ((0, of_nat i), s\<lparr>asid_bitmap := bm\<rparr>) \<and>
       asid_set (s\<lparr>asid_bitmap := bm\<rparr>) = insert i (asid_set s))"
  using assms
proof (induction ns)
  case Nil
  show ?case by (rule disjI1) simp
next
  case (Cons i ns)
  show ?case
  proof (cases "i \<in> asid_set s")
    case True
    then have "asid_scan (i # ns) s = asid_scan ns s" by (simp add: asid_set_def asid_bit)
    with Cons True show ?thesis by auto
  next
    case False
    let ?bm = "(asid_bitmap s)(i div 32 := asid_bitmap s (i div 32) OR push_bit (i mod 32) 1)"
    have "asid_set (s\<lparr>asid_bitmap := ?bm\<rparr>) = insert i (asid_set s)"
      using Cons.prems by (auto simp: asid_set_def bit_set_asid mod_eq_iff split: if_splits)
    moreover have "asid_scan (i # ns) s = ((0, of_nat i), s\<lparr>asid_bitmap := ?bm\<rparr>)"
      using False Cons.prems by (simp add: asid_set_def asid_bit)
    ultimately show ?thesis using False by auto
  qed
qed

lemma asid_free_ok:
  assumes "unat a < NASID"
  obtains bm where "asid_free a s = Ret (s\<lparr>asid_bitmap := bm\<rparr>)"
    "asid_set (s\<lparr>asid_bitmap := bm\<rparr>) = asid_set s - {unat a}"
proof -
  let ?bm = "(asid_bitmap s)(unat a div 32 := asid_bitmap s (unat a div 32) AND NOT (push_bit (unat a mod 32) 1))"
  have "asid_set (s\<lparr>asid_bitmap := ?bm\<rparr>) = asid_set s - {unat a}"
    by (auto simp: asid_set_def bit_clear_asid mod_eq_iff split: if_splits)
  moreover have "asid_free a s = Ret (s\<lparr>asid_bitmap := ?bm\<rparr>)" using assms by (simp add: asid_free_def Let_def)
  ultimately show ?thesis by (rule that[rotated])
qed

section \<open>The invariant\<close>

definition live :: "kern \<Rightarrow> nat set" where
  "live s = {e. e < NENV \<and> env_status (envs s e) \<noteq> ENV_FREE}"

definition dir_of :: "kern \<Rightarrow> nat \<Rightarrow> nat" where
  "dir_of s e = env_pgdir (envs s e)"

definition freeq :: "kern \<Rightarrow> nat list \<Rightarrow> bool" where
  "freeq s fl \<longleftrightarrow> list_rep (env_free_list s) fl \<and>
     set fl = {e. e < NENV \<and> env_status (envs s e) = ENV_FREE}"

definition asid_ok :: "kern \<Rightarrow> bool" where
  "asid_ok s \<longleftrightarrow> inj_on (\<lambda>e. unat (env_asid (envs s e))) (live s) \<and>
     (\<lambda>e. unat (env_asid (envs s e))) ` live s = asid_set s"

definition kern_inv :: "(nat \<Rightarrow> nat) \<Rightarrow> kern \<Rightarrow> bool" where
  "kern_inv ext s \<longleftrightarrow> npage s \<le> 2 ^ 19 \<and> pm_inv ext (dir_of s ` live s) s \<and> inj_on (dir_of s) (live s) \<and>
     (\<exists>fl. freeq s fl) \<and> (\<exists>rl. runq s rl) \<and> asid_ok s"

lemma kern_inv_exts:
  assumes "kern_inv ext s"
  obtains fl rl pfl where "pm_inv ext (dir_of s ` live s) s" "inj_on (dir_of s) (live s)" "freeq s fl"
    "runq s rl" "asid_ok s" "free_ok s pfl" "pm_struct (dir_of s ` live s) s" "npage s \<le> 2 ^ 19"
  using assms by (auto simp: kern_inv_def pm_inv_def)

text \<open>A step of the page tables that keeps \<open>pm_inv\<close> keeps the invariant of the kernel.\<close>

lemma kern_inv_pm:
  assumes "kern_inv ext s" "pm.more s' = pm.more s" "pm_inv ext (dir_of s ` live s) s'" "npage s' = npage s"
  shows "kern_inv ext s'"
proof -
  note m = pm_more_fields[OF assms(2)]
  have "live s' = live s" "dir_of s' = dir_of s" "asid_set s' = asid_set s"
    by (simp_all add: live_def dir_of_def fun_eq_iff asid_set_def m)
  then show ?thesis
    using assms(1,3,4) by (simp add: kern_inv_def freeq_def runq_def asid_ok_def m)
qed

section \<open>env\_free\<close>

lemma dir_kva:
  assumes "d < np" "np \<le> 2 ^ 19"
  shows "page2kva np d = Ret (page2pa d + ULIM)" "PADDR (page2pa d + ULIM) = Ret (page2pa d)"
    "pa2page np (page2pa d) = Ret d"
proof -
  have u: "unat (page2pa d) = d * 4096"
    using assms by (simp add: page2pa_def push_bit_eq_mult unat_word_ariths unat_of_nat)
  then have "unat (page2pa d + ULIM) = d * 4096 + 0x80000000"
    using assms by (simp add: unat_word_ariths ULIM_def)
  then show "PADDR (page2pa d + ULIM) = Ret (page2pa d)"
    by (simp add: PADDR_def word_less_nat_alt ULIM_def)
  show "page2kva np d = Ret (page2pa d + ULIM)" "pa2page np (page2pa d) = Ret d"
    using assms u by (simp_all add: page2kva_def KADDR_def pa2page_def unat_PPN)
qed

lemma env_free_ok:
  assumes inv: "kern_inv ext s" and e: "e < NENV" "env_status (envs s e) = ENV_RUNNABLE"
  obtains s' where "env_free e s = Ret s'" "kern_inv ext s'" "curenv s' = curenv s"
    "envs s' = (envs s)(e := (envs s e)\<lparr>env_status := ENV_FREE\<rparr>)"
    "\<forall>x \<in> live s - {e}. aspace s' (dir_of s x) = aspace s (dir_of s x)"
    "sched_count s' = sched_count s" "kstack_tf s' = kstack_tf s" "mkenvid_i s' = mkenvid_i s"
    "ext (env_pgdir (envs s e)) = 0 \<longrightarrow> page_is_free s' (env_pgdir (envs s e))"
proof -
  let ?D = "dir_of s ` live s" and ?d = "env_pgdir (envs s e)" and ?a = "env_asid (envs s e)"
  obtain fl rl where I: "pm_inv ext ?D s" "inj_on (dir_of s) (live s)" "freeq s fl" "runq s rl" "asid_ok s"
    "npage s \<le> 2 ^ 19"
    by (rule kern_inv_exts[OF inv])
  have el: "e \<in> live s" using e by (simp add: live_def)
  then have d: "?d \<in> ?D" by (auto simp: dir_of_def)
  obtain c where c: "printk (''[%08x] free env %08x'' @ [CHR 0x0A])
      [AInt (case curenv s of None \<Rightarrow> 0 | Some c \<Rightarrow> env_id (envs s c)), AInt (env_id (envs s e))] s =
      Ret (s\<lparr>console := c\<rparr>)" using printk_free_env by blast
  define s0 where "s0 = s\<lparr>console := c\<rparr>"
  have i0: "pm_inv ext ?D s0" using I(1) by (rule pm_inv_same) (simp_all add: s0_def)
  have k: "unat (PDX UTOP) = user_pdes" by (simp add: unat_PDX mmu_defs user_pdes_def)
  obtain s1 where s1: "free_tables [0..<user_pdes] ?d ?a s0 = Ret s1" "pm_inv ext ?D s1"
    "\<forall>d' \<in> ?D. d' \<noteq> ?d \<longrightarrow> aspace s1 d' = aspace s0 d'" "npage s1 = npage s0" "pm.more s1 = pm.more s0"
    "\<forall>i \<in> set [0..<user_pdes]. \<not> pte_valid (pmem s1 ?d i)"
    by (rule free_tables_ok[OF i0 d, of "[0..<user_pdes]" ?a]) auto
  obtain pfl where pfl: "free_ok s1 pfl" using s1(2) by (auto simp: pm_inv_def)
  have z: "\<forall>i < user_pdes. \<not> pte_valid (pmem s1 ?d i)" using s1(6) by simp
  obtain s2 fl2 where s2: "page_decref ?d s1 = Ret s2" "pm_inv ext (?D - {?d}) s2"
    "\<forall>d' \<in> ?D - {?d}. aspace s2 d' = aspace s1 d'" "npage s2 = npage s1" "pm.more s2 = pm.more s1"
    "free_ok s2 fl2" "ext ?d = 0 \<longrightarrow> ?d \<in> set fl2"
    by (rule drop_dir[OF s1(2) pfl d z])
  note m = pm_more_fields[OF s2(5)] pm_more_fields[OF s1(5)]
  have np: "?d < npage s1" "npage s1 \<le> 2 ^ 19"
    using s1(2,4) d I(6) by (auto simp: pm_inv_def pm_struct_def s0_def)
  have kv: "page2kva (npage s1) ?d = Ret (page2pa ?d + ULIM)" "PADDR (page2pa ?d + ULIM) = Ret (page2pa ?d)"
    "pa2page (npage s1) (page2pa ?d) = Ret ?d"
    using dir_kva[OF np] by auto
  have al: "unat ?a \<in> asid_set s" "unat ?a < NASID" using I(5) el by (auto simp: asid_ok_def asid_set_def)
  obtain bm where bm: "asid_free ?a s2 = Ret (s2\<lparr>asid_bitmap := bm\<rparr>)"
    "asid_set (s2\<lparr>asid_bitmap := bm\<rparr>) = asid_set s2 - {unat ?a}"
    by (rule asid_free_ok[OF al(2)])
  have er: "e \<in> set rl" using I(4) e by (simp add: runq_def)
  have rep: "tailq_rep (env_sched_list s) rl" using I(4) by (simp add: runq_def)
  obtain q where q: "TAILQ_REMOVE e (env_sched_list s) = Ret q" "tailq_rep q (remove1 e rl)"
    using tailq_rep_remove[OF rep er] by blast
  have ef: "e \<notin> set fl" using I(3) e by (simp add: freeq_def)
  define s' where "s' = (upd_env e (\<lambda>x. x\<lparr>env_status := ENV_FREE\<rparr>)
      (tlb_invalidate ?a (UVPT + push_bit 12 (PDX UVPT)) (s2\<lparr>asid_bitmap := bm\<rparr>)))
      \<lparr>env_free_list := LIST_INSERT_HEAD e (env_free_list s), env_sched_list := q\<rparr>"
  have f: "envs s' = (envs s)(e := (envs s e)\<lparr>env_status := ENV_FREE\<rparr>)" "curenv s' = curenv s"
    "env_free_list s' = LIST_INSERT_HEAD e (env_free_list s)" "env_sched_list s' = q" "asid_bitmap s' = bm"
    "sched_count s' = sched_count s" "kstack_tf s' = kstack_tf s" "mkenvid_i s' = mkenvid_i s"
    "pmem s' = pmem s2" "npage s' = npage s2"
    "pp_ref s' = pp_ref s2" "page_free_list s' = page_free_list s2"
    by (simp_all add: s'_def upd_env_def m s0_def tlb_invalidate_def tlb_out_def)
  have run: "env_free e s = Ret s'"
    using s1(1) s2(1,4) kv bm(1) q(1) c unfolding env_free_def k
    by (simp add: Let_def s0_def m s'_def upd_env_def)
  have lv: "live s' = live s - {e}" using e by (auto simp: live_def f)
  have dr: "dir_of s' = dir_of s" by (auto simp: dir_of_def f fun_eq_iff)
  have D': "dir_of s' ` live s' = ?D - {?d}"
    using I(2) el unfolding lv dr by (auto simp: inj_on_def dir_of_def)
  have "pm_inv ext (dir_of s' ` live s') s'" unfolding D' using s2(2) by (rule pm_inv_same) (simp_all add: f)
  moreover have "inj_on (dir_of s') (live s')" using I(2) unfolding lv dr by (rule inj_on_subset) auto
  moreover have "freeq s' (e # fl)"
    using I(3) ef e list_rep_insert_head[of "env_free_list s" fl e] by (auto simp: freeq_def f)
  moreover have "runq s' (remove1 e rl)"
    using q(2) I(4) tailq_rep_distinct[OF rep] by (auto simp: runq_def f set_remove1_eq)
  moreover have "asid_ok s'"
  proof -
    have as: "asid_set s' = asid_set s - {unat ?a}"
      using bm(2) by (simp add: asid_set_def f m s0_def)
    have ea: "(\<lambda>x. unat (env_asid (envs s' x))) = (\<lambda>x. unat (env_asid (envs s x)))" by (auto simp: f fun_eq_iff)
    have inj: "inj_on (\<lambda>x. unat (env_asid (envs s x))) (live s)" using I(5) by (simp add: asid_ok_def)
    have "(\<lambda>x. unat (env_asid (envs s x))) ` (live s - {e}) = asid_set s - {unat ?a}"
      using inj_on_image_set_diff[OF inj, of "live s" "{e}"] el I(5) by (auto simp: asid_ok_def)
    moreover have "inj_on (\<lambda>x. unat (env_asid (envs s x))) (live s - {e})" using inj by (rule inj_on_subset) auto
    ultimately show ?thesis unfolding asid_ok_def lv as ea by simp
  qed
  moreover have "npage s' \<le> 2 ^ 19" using np s2(4) by (simp add: f)
  ultimately have ki: "kern_inv ext s'" by (auto simp: kern_inv_def)
  have "\<forall>x \<in> live s - {e}. aspace s' (dir_of s x) = aspace s (dir_of s x)"
  proof
    fix x assume x: "x \<in> live s - {e}"
    then have "dir_of s x \<in> ?D - {?d}" using I(2) el by (auto simp: inj_on_def dir_of_def)
    then have "aspace s2 (dir_of s x) = aspace s0 (dir_of s x)" using s1(3) s2(3) by auto
    then show "aspace s' (dir_of s x) = aspace s (dir_of s x)"
      using aspace_same[of s' s2] aspace_same[of s0 s] by (simp add: f s0_def)
  qed
  moreover have "free_ok s' fl2" using s2(6) by (simp add: free_ok_def f)
  then have "ext ?d = 0 \<longrightarrow> page_is_free s' ?d" using s2(7) by (simp add: page_is_free_iff)
  ultimately show ?thesis using run ki f by (intro that[of s']) auto
qed

section \<open>env\_alloc\<close>

lemma incr_ref_simps [simp]:
  "pmem (incr_ref p s) = pmem s" "npage (incr_ref p s) = npage s" "page_free_list (incr_ref p s) = page_free_list s"
  "tlb (incr_ref p s) = tlb s" "pm.more (incr_ref p s) = pm.more s"
  "pp_ref (incr_ref p s) = (pp_ref s)(p := pp_ref s p + 1)"
  by (simp_all add: incr_ref_def)

lemma copy_pdes_simps:
  "npage (copy_pdes ns dst src s) = npage s" "page_free_list (copy_pdes ns dst src s) = page_free_list s"
  "tlb (copy_pdes ns dst src s) = tlb s" "pm.more (copy_pdes ns dst src s) = pm.more s"
  "pp_ref (copy_pdes ns dst src s) = pp_ref s"
  "q \<noteq> dst \<Longrightarrow> pmem (copy_pdes ns dst src s) q = pmem s q"
  "i \<notin> set ns \<Longrightarrow> pmem (copy_pdes ns dst src s) dst i = pmem s dst i"
  by (induction ns arbitrary: s) (auto simp: store_word_def)

lemma copy_pdes_copies:
  "dst \<noteq> src \<Longrightarrow> i \<in> set ns \<Longrightarrow> pmem (copy_pdes ns dst src s) dst i = pmem s src i"
proof (induction ns arbitrary: s)
  case (Cons k ns)
  then show ?case
    by (cases "i \<in> set ns") (auto simp: copy_pdes_simps store_word_def load_word_def)
qed simp

lemma PDX_consts: "unat (PDX UTOP) = 509" "unat (PDX UVPT) = 511"
  by (simp_all add: unat_PDX mmu_defs)

lemma env_setup_vm_ok:
  assumes inv: "pm_inv ext D s" and fl: "free_ok s (p # fl)" and np: "npage s \<le> 2 ^ 19"
  obtains s' where "env_setup_vm e s = Ret (0, s')" "pm_inv ext (insert p D) s'" "free_ok s' fl" "p \<notin> D"
    "\<forall>d \<in> D. aspace s' d = aspace s d" "aspace s' p = Map.empty" "npage s' = npage s"
    "pm.more s' = pm.more (upd_env e (\<lambda>x. x\<lparr>env_pgdir := p\<rparr>) s)"
    "pmem s' p 511 = page2pa p OR PTE_V"
    "base_pgdir s \<noteq> p \<longrightarrow> pmem s' p 509 = pmem s (base_pgdir s) 509 \<and> pmem s' p 510 = pmem s (base_pgdir s) 510"
    "\<forall>q. q \<noteq> p \<longrightarrow> pmem s' q = pmem s q" "tlb s' = tlb s"
    "\<forall>i < user_pdes. \<not> pte_valid (pmem s' p i)"
proof -
  obtain s1 where s1: "page_alloc s = Ret ((0, Some p), s1)" "pm_inv ext D s1" "free_ok s1 fl"
    "pmem s1 = (pmem s)(p := (\<lambda>_. 0))" "npage s1 = npage s" "pp_ref s1 = pp_ref s" "tlb s1 = tlb s"
    "pm.more s1 = pm.more s" "p \<notin> set fl" "\<forall>d \<in> D. aspace s1 d = aspace s d"
    by (rule page_alloc_some[OF inv fl])
  have pr: "p < npage s" "pp_ref s p = 0" using fl by (simp_all add: free_ok_def)
  define s2 where "s2 = upd_env e (\<lambda>x. x\<lparr>env_pgdir := p\<rparr>) (incr_ref p s1)"
  have s2f: "pmem s2 = pmem s1" "npage s2 = npage s" "page_free_list s2 = page_free_list s1"
    "pp_ref s2 = (pp_ref s1)(p := 1)" "tlb s2 = tlb s" "base_pgdir s2 = base_pgdir s"
    using s1(5-7) pr(2) pm_more_fields[OF s1(8)]
    by (simp_all add: s2_def upd_env_def incr_ref_def)
  have "pm.more (incr_ref p s1) = pm.more s" using s1(8) by simp
  then have s2m: "pm.more s2 = pm.more (upd_env e (\<lambda>x. x\<lparr>env_pgdir := p\<rparr>) s)"
    unfolding s2_def by (rule pm_more_upd_env)
  define s3 where "s3 = copy_pdes [509..<511] p (base_pgdir s) s2"
  define s' where "s' = store_word (p, 511) (page2pa p OR PTE_V) s3"
  have f: "npage s' = npage s" "page_free_list s' = page_free_list s1" "pp_ref s' = (pp_ref s1)(p := 1)"
    "tlb s' = tlb s" "pm.more s' = pm.more (upd_env e (\<lambda>x. x\<lparr>env_pgdir := p\<rparr>) s)"
    by (simp_all add: s'_def s3_def store_word_def copy_pdes_simps s2f s2m)
  have mq: "\<forall>q. q \<noteq> p \<longrightarrow> pmem s' q = pmem s1 q"
    by (simp add: s'_def s3_def store_word_def copy_pdes_simps s2f)
  have z: "\<forall>i < user_pdes. \<not> pte_valid (pmem s' p i)"
    by (auto simp: s'_def s3_def store_word_def copy_pdes_simps s2f s1(4) user_pdes_def)
  have kv: "page2kva (npage s) p = Ret (page2pa p + ULIM)" "PADDR (page2pa p + ULIM) = Ret (page2pa p)"
    by (rule dir_kva[OF pr(1) np])+
  have bp: "base_pgdir (incr_ref p s1) = base_pgdir s"
    using pm_more_fields(5)[OF s1(8)] by (simp add: incr_ref_def)
  have r: "env_setup_vm e s = Ret (0, s')"
    using s1(1,5) kv unfolding env_setup_vm_def PDX_consts
    by (simp add: Let_def s'_def s3_def s2_def[symmetric] bp)
  have pr1: "p < npage s1" "pp_ref s1 p = 0" using pr s1 by simp_all
  have npe: "npage s' = npage s1" using f(1) s1(5) by simp
  note nd = new_dir[OF s1(2,3) pr1 s1(9) npe f(2,3) z mq]
  show ?thesis
  proof (rule that[OF r nd(1,2,3)])
    show "\<forall>d \<in> D. aspace s' d = aspace s d" using nd(4) s1(10) by simp
    show "base_pgdir s \<noteq> p \<longrightarrow> pmem s' p 509 = pmem s (base_pgdir s) 509 \<and> pmem s' p 510 = pmem s (base_pgdir s) 510"
      by (auto simp: s'_def s3_def store_word_def copy_pdes_copies s2f s1(4) load_word_def)
    show "\<forall>q. q \<noteq> p \<longrightarrow> pmem s' q = pmem s q" using mq s1(4) by simp
    show "\<forall>i < user_pdes. \<not> pte_valid (pmem s' p i)" by (rule z)
  qed (use nd(5) f in \<open>simp_all add: s'_def store_word_def\<close>)
qed

lemma env_alloc_ok:
  assumes inv: "kern_inv ext s" and fl: "freeq s (e # fl)" and pfl: "free_ok s (p # pfl)"
    and asid: "asid_set s \<noteq> {..<NASID}"
  obtains s' a where "env_alloc parent s = Ret ((0, Some e), s')"
    "pm_inv ext (insert p (dir_of s ` live s)) s'" "free_ok s' pfl" "p \<notin> dir_of s ` live s"
    "\<forall>d \<in> dir_of s ` live s. aspace s' d = aspace s d" "aspace s' p = Map.empty" "npage s' = npage s"
    "list_rep (env_free_list s') fl" "curenv s' = curenv s" "env_sched_list s' = env_sched_list s"
    "base_pgdir s' = base_pgdir s" "sched_count s' = sched_count s" "kstack_tf s' = kstack_tf s"
    "mkenvid_i s' = mkenvid_i s + 1" "tlb s' = tlb s"
    "asid_set s' = insert a (asid_set s)" "a \<notin> asid_set s" "a < NASID"
    "\<forall>x. x \<noteq> e \<longrightarrow> envs s' x = envs s x"
    "env_id (envs s' e) = push_bit 11 (mkenvid_i s + 1) OR of_nat e"
    "env_pgdir (envs s' e) = p" "env_asid (envs s' e) = of_nat a" "env_parent_id (envs s' e) = parent"
    "env_status (envs s' e) = env_status (envs s e)"
    "env_user_tlb_mod_entry (envs s' e) = 0" "env_runs (envs s' e) = 0"
    "regs (env_tf (envs s' e)) 29 = USTACKTOP - 8"
    "\<forall>q. q \<noteq> p \<longrightarrow> pmem s' q = pmem s q" "pmem s' p 511 = page2pa p OR PTE_V" "cur_pgdir s' = cur_pgdir s"
proof -
  let ?D = "dir_of s ` live s"
  obtain rl where I: "pm_inv ext ?D s" "runq s rl" "npage s \<le> 2 ^ 19" by (rule kern_inv_exts[OF inv])
  have rep: "list_rep (env_free_list s) (e # fl)" using fl by (simp add: freeq_def)
  then have ne: "\<not> LIST_EMPTY (env_free_list s)" by (simp add: list_rep_empty)
  from ll.pop[OF rep ne] obtain q where q: "LIST_FIRST (env_free_list s) = Some e"
    "LIST_REMOVE e (env_free_list s) = Ret q" "list_rep q fl" by auto
  obtain s1 where s1: "env_setup_vm e s = Ret (0, s1)" "pm_inv ext (insert p ?D) s1" "free_ok s1 pfl" "p \<notin> ?D"
    "\<forall>d \<in> ?D. aspace s1 d = aspace s d" "aspace s1 p = Map.empty" "npage s1 = npage s"
    "pm.more s1 = pm.more (upd_env e (\<lambda>x. x\<lparr>env_pgdir := p\<rparr>) s)" "tlb s1 = tlb s"
    "\<forall>q. q \<noteq> p \<longrightarrow> pmem s1 q = pmem s q" "pmem s1 p 511 = page2pa p OR PTE_V"
    by (rule env_setup_vm_ok[OF I(1) pfl I(3)])
  note m = pm_more_fields[OF s1(8)]
  define s2 where "s2 = (upd_env e (\<lambda>x. x\<lparr>env_user_tlb_mod_entry := 0, env_runs := 0\<rparr>) s1)\<lparr>mkenvid_i := mkenvid_i s + 1\<rparr>"
  define s3 where "s3 = upd_env e (\<lambda>x. x\<lparr>env_id := push_bit 11 (mkenvid_i s + 1) OR of_nat e\<rparr>) s2"
  have as3: "asid_set s3 = asid_set s" by (simp add: asid_set_def s3_def s2_def upd_env_def m)
  have "set [0..<NASID] \<subseteq> {..<NASID}" by auto
  from asid_scan_ok[OF this, of s3] obtain a bm where a: "a < NASID" "a \<notin> asid_set s"
    "asid_alloc s3 = ((0, of_nat a), s3\<lparr>asid_bitmap := bm\<rparr>)" "asid_set (s3\<lparr>asid_bitmap := bm\<rparr>) = insert a (asid_set s)"
    using asid unfolding asid_alloc_def as3 by (auto simp: asid_set_def)
  define s' where "s' = (upd_env e (\<lambda>x. x\<lparr>env_tf := (env_tf x)\<lparr>cp0_status := STATUS_IM4 OR STATUS_KUp OR STATUS_IEp,
        regs := (regs (env_tf x))(29 := USTACKTOP - 4 - 4)\<rparr>\<rparr>)
      (upd_env e (\<lambda>x. x\<lparr>env_parent_id := parent\<rparr>)
      (upd_env e (\<lambda>x. x\<lparr>env_asid := of_nat a\<rparr>) (s3\<lparr>asid_bitmap := bm\<rparr>))))\<lparr>env_free_list := q\<rparr>"
  have mk: "mkenvid e (upd_env e (\<lambda>x. x\<lparr>env_user_tlb_mod_entry := 0, env_runs := 0\<rparr>) s1) =
      (push_bit 11 (mkenvid_i s + 1) OR of_nat e, s2)"
    by (simp add: mkenvid_def s2_def m Let_def)
  have fq: "env_free_list s3 = env_free_list s" by (simp add: s3_def s2_def m)
  have r: "env_alloc parent s = Ret ((0, Some e), s')"
    using ne q(1,2) unfolding env_alloc_def
    by (simp add: s1(1) mk Let_def s3_def[symmetric] a(3) fq s'_def)
  have f: "pmem s' = pmem s1" "npage s' = npage s1" "pp_ref s' = pp_ref s1" "page_free_list s' = page_free_list s1"
    "tlb s' = tlb s1"
    by (simp_all add: s'_def s3_def s2_def)
  have as': "asid_set s' = insert a (asid_set s)" using a(4) by (simp add: asid_set_def s'_def)
  show ?thesis
  proof (rule that[OF r])
    show "pm_inv ext (insert p ?D) s'" using s1(2) by (rule pm_inv_same) (simp_all add: f)
    show "free_ok s' pfl" using s1(3) by (simp add: free_ok_def f)
    show "\<forall>d \<in> ?D. aspace s' d = aspace s d" "aspace s' p = Map.empty"
      using s1(5,6) aspace_same[OF f(1)] by simp_all
  qed (use s1 a as' q(3) m in \<open>simp_all add: s'_def s3_def s2_def f\<close>)
qed

text \<open>
  Without an address space identifier left, \<open>env_alloc\<close> fails after \<open>env_setup_vm\<close>: the directory
  keeps a reference that no environment holds.
\<close>

lemma env_alloc_no_asid:
  assumes inv: "kern_inv ext s" and fl: "freeq s (e # fl)" and pfl: "free_ok s (p # pfl)"
    and asid: "asid_set s = {..<NASID}"
  obtains s' where "env_alloc parent s = Ret ((- E_NO_FREE_ENV, None), s')"
    "kern_inv (ext(p := Suc (ext p))) s'" "free_ok s' pfl" "live s' = live s" "curenv s' = curenv s"
    "\<forall>x. x \<noteq> e \<longrightarrow> envs s' x = envs s x" "\<forall>q. q \<noteq> p \<longrightarrow> pmem s' q = pmem s q" "e \<notin> live s"
    "\<forall>d \<in> dir_of s ` live s. aspace s' d = aspace s d" "npage s' = npage s"
proof -
  let ?D = "dir_of s ` live s"
  obtain rl where I: "pm_inv ext ?D s" "inj_on (dir_of s) (live s)" "runq s rl" "asid_ok s" "npage s \<le> 2 ^ 19" by (rule kern_inv_exts[OF inv])
  have rep: "list_rep (env_free_list s) (e # fl)" using fl by (simp add: freeq_def)
  then have ne: "\<not> LIST_EMPTY (env_free_list s)" by (simp add: list_rep_empty)
  from ll.pop[OF rep ne] have q: "LIST_FIRST (env_free_list s) = Some e" by auto
  have ef: "env_status (envs s e) = ENV_FREE" "e \<notin> live s" using fl by (auto simp: freeq_def live_def)
  obtain s1 where s1: "env_setup_vm e s = Ret (0, s1)" "pm_inv ext (insert p ?D) s1" "free_ok s1 pfl" "p \<notin> ?D"
    "\<forall>d \<in> ?D. aspace s1 d = aspace s d" "npage s1 = npage s"
    "pm.more s1 = pm.more (upd_env e (\<lambda>x. x\<lparr>env_pgdir := p\<rparr>) s)"
    "\<forall>q. q \<noteq> p \<longrightarrow> pmem s1 q = pmem s q" "\<forall>i < user_pdes. \<not> pte_valid (pmem s1 p i)"
    by (rule env_setup_vm_ok[OF I(1) pfl I(5)])
  note m = pm_more_fields[OF s1(7)]
  define s2 where "s2 = (upd_env e (\<lambda>x. x\<lparr>env_user_tlb_mod_entry := 0, env_runs := 0\<rparr>) s1)\<lparr>mkenvid_i := mkenvid_i s + 1\<rparr>"
  define s3 where "s3 = upd_env e (\<lambda>x. x\<lparr>env_id := push_bit 11 (mkenvid_i s + 1) OR of_nat e\<rparr>) s2"
  have as3: "asid_set s3 = asid_set s" by (simp add: asid_set_def s3_def s2_def upd_env_def m)
  have "set [0..<NASID] \<subseteq> {..<NASID}" by auto
  from asid_scan_ok[OF this, of s3] have a: "asid_alloc s3 = ((- E_NO_FREE_ENV, 0), s3)"
    using asid unfolding asid_alloc_def as3 by auto
  have mk: "mkenvid e (upd_env e (\<lambda>x. x\<lparr>env_user_tlb_mod_entry := 0, env_runs := 0\<rparr>) s1) =
      (push_bit 11 (mkenvid_i s + 1) OR of_nat e, s2)"
    by (simp add: mkenvid_def s2_def m Let_def)
  have r: "env_alloc parent s = Ret ((- E_NO_FREE_ENV, None), s3)"
    using ne q unfolding env_alloc_def by (simp add: s1(1) mk Let_def s3_def[symmetric] a)
  have f: "pmem s3 = pmem s1" "npage s3 = npage s1" "pp_ref s3 = pp_ref s1" "page_free_list s3 = page_free_list s1"
    "tlb s3 = tlb s1" "env_free_list s3 = env_free_list s" "env_sched_list s3 = env_sched_list s" "curenv s3 = curenv s"
    by (simp_all add: s3_def s2_def m)
  have es: "\<forall>x. x \<noteq> e \<longrightarrow> envs s3 x = envs s x" "\<And>x. env_status (envs s3 x) = env_status (envs s x)"
    by (simp_all add: s3_def s2_def m)
  have lv: "live s3 = live s" by (simp add: live_def es(2))
  have x: "envs s3 x = envs s x" if "x \<in> live s" for x using that es(1) ef(2) by auto
  have D: "dir_of s3 ` live s3 = ?D" "inj_on (dir_of s3) (live s3)"
    using I(2) x unfolding lv dir_of_def by (simp_all cong: inj_on_cong image_cong)
  have "pm_inv (ext(p := Suc (ext p))) ?D s1" by (rule leak_dir[OF s1(2,4,9)])
  then have "pm_inv (ext(p := Suc (ext p))) (dir_of s3 ` live s3) s3" unfolding D(1) by (rule pm_inv_same) (simp_all add: f)
  moreover have "freeq s3 (e # fl)" "runq s3 rl" using fl I(3) by (simp_all add: freeq_def runq_def f es(2))
  moreover have "asid_ok s3"
    using I(4) x unfolding asid_ok_def lv as3 by (simp cong: inj_on_cong image_cong)
  ultimately have "kern_inv (ext(p := Suc (ext p))) s3" using D(2) I(5) s1(6) by (auto simp: kern_inv_def f)
  moreover have "\<forall>d \<in> ?D. aspace s3 d = aspace s d" using s1(5) aspace_same[OF f(1)] by simp
  moreover have "free_ok s3 pfl" using s1(3) by (simp add: free_ok_def f)
  ultimately show ?thesis using r lv es(1) ef(2) s1(6,8) f(1,2,8) by (intro that[of s3]) simp_all
qed

end
