(* ===== verification/PmapProps.thy ===== *)
theory PmapProps
  imports PmapInv
begin

text \<open>
  What \<^verbatim>\<open>kern/pmap.c\<close> promises its callers: the properties of page allocation, of insertion,
  removal and lookup in page tables, of the TLB, and of the initialisation of the page structures
  at boot, each with a concrete machine on which its hypotheses hold.
\<close>


section \<open>A concrete machine\<close>

text \<open>
  Four pages: page 0 is a page directory, pages 1 and 2 are free, page 3 has been allocated and is
  not mapped yet.
\<close>

definition demo_pm :: pm where
  "demo_pm = \<lparr>memsize = 16384, npage = 4, freemem = ULIM, pages_base = ULIM,
     pp_ref = (\<lambda>_. 0)(0 := 1),
     page_free_list = LIST_INSERT_HEAD 2 (LIST_INSERT_HEAD 1
        \<lparr>lh_first = None, le_next = (\<lambda>_. None), le_prev = (\<lambda>_. SNull)\<rparr>),
     pmem = (\<lambda>_ _. 0), tlb = Map.empty\<rparr>"

lemma demo_free: "free_ok demo_pm [2, 1]"
proof -
  have "list_rep \<lparr>lh_first = None, le_next = (\<lambda>_. None :: nat option), le_prev = (\<lambda>_. SNull)\<rparr> []"
    by (simp add: list_rep_def)
  then have "list_rep (LIST_INSERT_HEAD 2 (LIST_INSERT_HEAD 1
        \<lparr>lh_first = None, le_next = (\<lambda>_. None :: nat option), le_prev = (\<lambda>_. SNull)\<rparr>)) [2, 1]"
    by (simp add: list_rep_insert_head)
  then show ?thesis by (simp add: free_ok_def demo_pm_def)
qed

lemma demo_refs: "pdes {0} demo_pm = {}" "ptes {0} demo_pm = {}" "tables {0} demo_pm = {}"
  by (simp_all add: demo_pm_def pdes_def ptes_def tables_def)

lemma demo_inv: "pm_inv (\<lambda>_. 0) {0} demo_pm"
proof -
  have "count_ok (\<lambda>_. 0) {0} demo_pm"
    by (simp add: count_ok_def pg_refs_def map_refs_def demo_refs) (simp add: demo_pm_def)
  moreover have "pm_struct {0} demo_pm"
    by (simp add: pm_struct_def demo_refs) (simp add: demo_pm_def)
  ultimately show ?thesis using demo_free by (auto simp: pm_inv_def)
qed

lemma demo_can_insert: "can_insert {0} demo_pm (3, 0x400)"
  unfolding can_insert_def page_is_free_iff[OF demo_free] demo_refs by (simp add: demo_pm_def)

lemma demo_coherent: "tlb_coherent (\<lambda>_. 5) {0} demo_pm"
  by (simp add: tlb_coherent_def demo_pm_def)

lemma demo_inserted:
  obtains s1 where "page_insert 0 5 3 0x400000 0x400 demo_pm = Ret (0, s1)" "pm_inv (\<lambda>_. 0) {0} s1"
    "aspace s1 0 (vidx 0x400000) = Some (page2pa 3 OR 0x400 OR PTE_V)"
    "tlb s1 = tlb (tlb_invalidate 5 0x400000 demo_pm)"
proof -
  have i: "unat (PDX 0x400000) < user_pdes" by (simp add: unat_PDX user_pdes_def)
  have c: "(0x400 :: u32) < 4096" "3 < npage demo_pm" "3 \<notin> {0 :: nat}" "3 \<notin> tables {0} demo_pm"
    "3 \<notin> set [2, 1 :: nat]" "unat (pp_ref demo_pm 3) < 65535"
    by (simp_all add: demo_refs) (simp_all add: demo_pm_def)
  show ?thesis
    by (rule page_insert_ok[OF demo_inv demo_free _ i c, where d = 0 and asid = 5]) (use that in auto)
qed

section \<open>Properties\<close>

lemma LIST_EMPTY_free_ok: "free_ok s fl \<Longrightarrow> LIST_EMPTY (page_free_list s) = (fl = [])"
  by (auto simp: free_ok_def list_rep_empty)

lemma page_insert_nomem:
  assumes "\<not> pte_valid (pmem s d (unat (PDX va)))" "LIST_EMPTY (page_free_list s)"
  shows "page_insert d asid pp va perm s = Ret (- E_NO_MEM, tlb_invalidate asid va s)"
  using assms by (simp add: page_insert_def pgdir_walk_def insert_step2_def page_alloc_def load_word_def)

text \<open>
  C1. \<open>page_insert\<close> at a user address returns 0, or \<open>-E_NO_MEM\<close> exactly when a page table was
  needed and no page is free. It keeps the reference-count invariant; on success the address space
  \<open>d\<close> maps the address's page to the given page with the given permissions and nothing else of it
  changes; no other address space changes; on failure none changes.
\<close>

theorem page_insert_correct:
  assumes "pm_inv ext D s" "d \<in> D" "va < UTOP" "can_insert D s (pp, perm)"
  shows "\<exists>r s'. page_insert d asid pp va perm s = Ret (r, s') \<and> pm_inv ext D s' \<and>
    (if \<not> pte_valid (pmem s d (unat (PDX va))) \<and> LIST_EMPTY (page_free_list s)
     then r = - E_NO_MEM \<and> (\<forall>d' \<in> D. aspace s' d' = aspace s d')
     else r = 0 \<and> (\<forall>d' \<in> D. aspace s' d' =
       (if d' = d then (aspace s d)(vidx va \<mapsto> page2pa pp OR perm OR PTE_V) else aspace s d')))"
proof -
  obtain fl where fl: "free_ok s fl" using assms(1) by (auto simp: pm_inv_def)
  have i: "unat (PDX va) < user_pdes" using PDX_UTOP[OF assms(3)] by (simp add: user_pdes_def)
  from assms(4) have c: "perm < 4096" "pp < npage s" "pp \<notin> D" "pp \<notin> tables D s" "pp \<notin> set fl"
    "unat (pp_ref s pp) < 65535"
    by (simp_all add: can_insert_def page_is_free_iff[OF fl])
  show ?thesis
  proof (cases rule: page_insert_ok[OF assms(1) fl assms(2) i c, where asid = asid, case_names nomem ok])
    case (nomem s')
    then show ?thesis using aspace_same[of s' s] LIST_EMPTY_free_ok[OF fl] by simp
  next
    case (ok s')
    then have "\<not> (\<not> pte_valid (pmem s d (unat (PDX va))) \<and> LIST_EMPTY (page_free_list s))"
      using page_insert_nomem[of s d va asid pp perm] by auto
    with ok show ?thesis by simp
  qed
qed


theorem page_insert_correct_witness:
  "\<exists>r s'. page_insert 0 5 3 0x400000 0x400 demo_pm = Ret (r, s') \<and> pm_inv (\<lambda>_. 0) {0} s' \<and>
     r = 0 \<and> aspace s' 0 = (aspace demo_pm 0)(vidx 0x400000 \<mapsto> page2pa 3 OR 0x400 OR PTE_V)"
proof -
  have "\<not> LIST_EMPTY (page_free_list demo_pm)" using LIST_EMPTY_free_ok[OF demo_free] by simp
  then show ?thesis
    using page_insert_correct[OF demo_inv _ _ demo_can_insert, where d = 0 and va = "0x400000" and asid = 5]
    by (auto simp: mmu_defs)
qed

text \<open>
  C2. \<open>page_remove\<close> at a user address always returns, keeps the invariant, removes that page from
  the address space and changes nothing else of any address space. The page that was mapped
  loses one reference and goes back to the free list exactly when that was its last one.
\<close>

theorem page_remove_correct:
  assumes "pm_inv ext D s" "d \<in> D" "va < UTOP"
  shows "\<exists>s'. page_remove d asid va s = Ret s' \<and> pm_inv ext D s' \<and>
    (\<forall>d' \<in> D. aspace s' d' = (if d' = d then (aspace s d)(vidx va := None) else aspace s d')) \<and>
    (\<forall>w. aspace s d (vidx va) = Some w \<longrightarrow>
       (let p = unat (PPN w) in unat (pp_ref s' p) = unat (pp_ref s p) - 1 \<and>
          page_is_free s' p = (pp_ref s p = 1)))"
proof -
  obtain fl where fl: "free_ok s fl" using assms(1) by (auto simp: pm_inv_def)
  have i: "unat (PDX va) < user_pdes" using PDX_UTOP[OF assms(3)] by (simp add: user_pdes_def)
  obtain s' fl' where r: "page_remove d asid va s = Ret s'" "pm_inv ext D s'" "free_ok s' fl'"
    "\<forall>d' \<in> D. aspace s' d' = (if d' = d then (aspace s d)(vidx va := None) else aspace s d')"
    "fl' = (case aspace s d (vidx va) of None \<Rightarrow> fl | Some w \<Rightarrow>
       if unat (pp_ref s (unat (PPN w))) = 1 then unat (PPN w) # fl else fl)"
    "pp_ref s' = (case aspace s d (vidx va) of None \<Rightarrow> pp_ref s | Some w \<Rightarrow>
       (pp_ref s)(unat (PPN w) := pp_ref s (unat (PPN w)) - 1))"
    by (rule page_remove_ok[OF assms(1) fl assms(2) i, where asid = asid])
  have "let p = unat (PPN w) in unat (pp_ref s' p) = unat (pp_ref s p) - 1 \<and>
          page_is_free s' p = (pp_ref s p = 1)" if w: "aspace s d (vidx va) = Some w" for w
  proof -
    let ?p = "unat (PPN w)"
    have "tgt s (d, unat (PDX va), unat (PTX va)) = ?p" "(d, unat (PDX va), unat (PTX va)) \<in> ptes D s"
      using w by (auto simp: vidx_def aspace_Some_iff[OF assms(2)] tgt_def)
    with ptes_ref_pos[OF assms(1)] have pos: "pp_ref s ?p \<noteq> 0" by fastforce
    then have "?p \<notin> set fl" using fl by (auto simp: free_ok_def)
    moreover have "(unat (pp_ref s ?p) = 1) = (pp_ref s ?p = 1)" by (simp add: word_unat_eq_iff)
    ultimately show ?thesis
      using w r(5,6) pos by (simp add: page_is_free_iff[OF r(3)] unat_minus_one)
  qed
  with r show ?thesis by blast
qed


theorem page_remove_correct_witness:
  "\<exists>s1 s'. page_insert 0 5 3 0x400000 0x400 demo_pm = Ret (0, s1) \<and>
     aspace s1 0 (vidx 0x400000) \<noteq> None \<and>
     page_remove 0 5 0x400000 s1 = Ret s' \<and> pm_inv (\<lambda>_. 0) {0} s' \<and> aspace s' 0 (vidx 0x400000) = None"
proof -
  obtain s1 where s1: "page_insert 0 5 3 0x400000 0x400 demo_pm = Ret (0, s1)" "pm_inv (\<lambda>_. 0) {0} s1"
    "aspace s1 0 (vidx 0x400000) = Some (page2pa 3 OR 0x400 OR PTE_V)" by (rule demo_inserted)
  obtain s' where "page_remove 0 5 0x400000 s1 = Ret s'" "pm_inv (\<lambda>_. 0) {0} s'"
    "aspace s' 0 = (aspace s1 0)(vidx 0x400000 := None)"
    using page_remove_correct[OF s1(2), where d = 0 and va = "0x400000" and asid = 5]
    by (auto simp: mmu_defs)
  with s1 show ?thesis by (simp add: exI[of _ s1])
qed

lemma va2pa_aspace:
  assumes st: "pm_struct D s" and d: "d \<in> D" and i: "unat (PDX va) < user_pdes"
  shows "va2pa d va s = Ret (case aspace s d (vidx va) of None \<Rightarrow> NOT 0 | Some w \<Rightarrow> PTE_ADDR w)"
proof (cases "pte_valid (pmem s d (unat (PDX va)))")
  case True
  then have "pt_of s d (unat (PDX va)) < npage s"
    using st d i by (auto simp: pm_struct_def tables_def pdes_def)
  with True i show ?thesis
    by (simp add: va2pa_def aspace_def vidx_def KADDR_def pt_of_def)
qed (simp add: va2pa_def aspace_def vidx_def)

text \<open>
  After a successful \<open>page_insert\<close>, both \<open>page_lookup\<close> and \<open>va2pa\<close> find the inserted page at
  every address of the same virtual page, and at any other user address they find what they found
  before.
\<close>

theorem page_insert_lookup:
  assumes "pm_inv ext D s" "d \<in> D" "va < UTOP" "can_insert D s (pp, perm)"
    and "page_insert d asid pp va perm s = Ret (0, s')" "va' < UTOP"
  shows "\<exists>f f'. page_lookup d va' s = Ret (f, s) \<and> page_lookup d va' s' = Ret (f', s') \<and>
    (if VPN va' = VPN va then map_option fst f' = Some pp \<and> va2pa d va' s' = Ret (page2pa pp)
     else map_option fst f' = map_option fst f \<and> va2pa d va' s' = va2pa d va' s)"
proof -
  have inv': "pm_inv ext D s'" and a: "aspace s' d = (aspace s d)(vidx va \<mapsto> pte_entry (pp, perm))"
    using pgs.ins_law[OF assms(1-4), where asid = asid] assms(2,5) by auto
  have st: "pm_struct D s" "pm_struct D s'" using assms(1) inv' by (simp_all add: pm_inv_def)
  have i: "unat (PDX va') < user_pdes" using PDX_UTOP[OF assms(6)] by (simp add: user_pdes_def)
  have v: "(vidx va' = vidx va) = (VPN va' = VPN va)" using PDX_PTX_eq_iff[of va' va] by (simp add: vidx_def)
  have "pp < 2 ^ 20" "perm < 4096" using assms(4) st(1) by (auto simp: can_insert_def pm_struct_def)
  then have e: "unat (PPN (pte_entry (pp, perm))) = pp" "PTE_ADDR (pte_entry (pp, perm)) = page2pa pp"
    by (simp_all add: pte_entry_def PPN_or PPN_page2pa PPN_small PTE_ADDR_or PTE_ADDR_page2pa
        PTE_ADDR_small unat_of_nat PTE_V_def)
  show ?thesis
    using e v a by (auto simp: page_lookup_ok[OF st(1) assms(2) i] page_lookup_ok[OF st(2) assms(2) i]
        va2pa_aspace[OF st(1) assms(2) i] va2pa_aspace[OF st(2) assms(2) i] split: option.splits)
qed

theorem page_insert_lookup_witness:
  "\<exists>s' f'. page_insert 0 5 3 0x400000 0x400 demo_pm = Ret (0, s') \<and>
     page_lookup 0 0x400123 s' = Ret (f', s') \<and> map_option fst f' = Some 3 \<and>
     va2pa 0 0x400123 s' = Ret (page2pa 3)"
proof -
  obtain s1 where s1: "page_insert 0 5 3 0x400000 0x400 demo_pm = Ret (0, s1)" by (rule demo_inserted)
  show ?thesis
    using page_insert_lookup[OF demo_inv _ _ demo_can_insert s1, where va' = "0x400123"] s1
    by (auto simp: mmu_defs)
qed



text \<open>
  C3. \<open>page_alloc\<close> returns \<open>-E_NO_MEM\<close> and changes nothing when no page is free; otherwise it
  returns a page that was free, is free no longer, is filled with zeros, is neither a directory nor
  a table nor mapped anywhere, and it keeps the invariant and every address space.
\<close>

theorem page_alloc_correct:
  assumes "pm_inv ext D s"
  shows "if LIST_EMPTY (page_free_list s) then page_alloc s = Ret ((- E_NO_MEM, None), s)
    else \<exists>pp s'. page_alloc s = Ret ((0, Some pp), s') \<and> pm_inv ext D s' \<and>
      pp < npage s \<and> page_is_free s pp \<and> (\<forall>q. page_is_free s' q = (page_is_free s q \<and> q \<noteq> pp)) \<and>
      pmem s' pp = (\<lambda>_. 0) \<and> (\<forall>q. q \<noteq> pp \<longrightarrow> pmem s' q = pmem s q) \<and>
      pp \<notin> D \<and> pp \<notin> tables D s' \<and> pp \<notin> tgt s' ` ptes D s' \<and> (\<forall>d \<in> D. aspace s' d = aspace s d)"
proof -
  obtain fl where fl: "free_ok s fl" using assms by (auto simp: pm_inv_def)
  show ?thesis
  proof (cases fl)
    case Nil
    then show ?thesis using page_alloc_none[of s] fl LIST_EMPTY_free_ok[OF fl] by simp
  next
    case (Cons pp fl')
    have pf: "free_ok s (pp # fl')" using fl Cons by simp
    obtain s' where s': "page_alloc s = Ret ((0, Some pp), s')" "pm_inv ext D s'" "free_ok s' fl'"
      "pmem s' = (pmem s)(pp := (\<lambda>_. 0))" "tables D s' = tables D s" "ptes D s' = ptes D s"
      "pp \<notin> set fl'" "tgt s' ` ptes D s' = tgt s ` ptes D s" "\<forall>d \<in> D. aspace s' d = aspace s d"
      by (rule page_alloc_some[OF assms pf])
    have nr: "pp \<notin> D" "pp \<notin> tables D s" "pp \<notin> tgt s ` ptes D s"
      using count_ok_free[OF assms fl, of pp] Cons by auto
    have "pp < npage s" using pf by (simp add: free_ok_def)
    moreover have "page_is_free s q = (q \<in> set (pp # fl'))" "page_is_free s' q = (q \<in> set fl')" for q
      using page_is_free_iff[OF pf] page_is_free_iff[OF s'(3)] by simp_all
    ultimately have "pp < npage s \<and> page_is_free s pp \<and> (\<forall>q. page_is_free s' q = (page_is_free s q \<and> q \<noteq> pp))"
      using s'(7) by auto
    moreover have "pmem s' pp = (\<lambda>_. 0) \<and> (\<forall>q. q \<noteq> pp \<longrightarrow> pmem s' q = pmem s q)" using s'(4) by simp
    moreover have "\<not> LIST_EMPTY (page_free_list s)" using LIST_EMPTY_free_ok[OF fl] Cons by simp
    ultimately show ?thesis using s' nr by auto
  qed
qed

theorem page_alloc_correct_witness:
  "\<exists>pp s'. page_alloc demo_pm = Ret ((0, Some pp), s') \<and> pm_inv (\<lambda>_. 0) {0} s' \<and>
     pmem s' pp = (\<lambda>_. 0) \<and> \<not> page_is_free s' pp"
  using page_alloc_correct[OF demo_inv] LIST_EMPTY_free_ok[OF demo_free] by auto

text \<open>
  C4. \<open>page_insert\<close> and \<open>page_remove\<close> keep the TLB coherent: if before the call every TLB entry
  tagged with the identifier \<open>A d\<close> of an address space \<open>d\<close> agrees with the page table of \<open>d\<close>, then
  so it is after the call, when the caller passes the identifier of the directory it changes.
\<close>

theorem tlb_stays_coherent:
  assumes "pm_inv ext D s" "d \<in> D" "va < UTOP" "tlb_coherent A D s" "A d < 64"
  shows "(\<forall>s'. page_remove d (A d) va s = Ret s' \<longrightarrow> tlb_coherent A D s') \<and>
    (\<forall>pp perm r s'. can_insert D s (pp, perm) \<and> page_insert d (A d) pp va perm s = Ret (r, s') \<longrightarrow>
      tlb_coherent A D s')"
proof -
  obtain fl where fl: "free_ok s fl" using assms(1) by (auto simp: pm_inv_def)
  have i: "unat (PDX va) < user_pdes" using PDX_UTOP[OF assms(3)] by (simp add: user_pdes_def)
  obtain s1 where s1: "page_remove d (A d) va s = Ret s1"
    "\<forall>d' \<in> D. aspace s1 d' = (if d' = d then (aspace s d)(vidx va := None) else aspace s d')"
    "tlb s1 = (case aspace s d (vidx va) of None \<Rightarrow> tlb s | Some w \<Rightarrow> tlb (tlb_invalidate (A d) va s))"
    by (rule page_remove_ok[OF assms(1) fl assms(2) i, where asid = "A d"])
  have "tlb_coherent A D s1"
  proof (cases "aspace s d (vidx va)")
    case None
    then have "(aspace s d)(vidx va := None) = aspace s d" by auto
    with None s1 assms(4) show ?thesis by (simp add: tlb_coherent_def)
  next
    case (Some w)
    with s1 show ?thesis by (intro tlb_coherent_update[OF assms(4,2,5)]) auto
  qed
  with s1 have "\<forall>s'. page_remove d (A d) va s = Ret s' \<longrightarrow> tlb_coherent A D s'" by simp
  moreover have "\<forall>pp perm r s'. can_insert D s (pp, perm) \<and> page_insert d (A d) pp va perm s = Ret (r, s') \<longrightarrow>
      tlb_coherent A D s'"
  proof (intro allI impI)
    fix pp perm r s'
    assume h: "can_insert D s (pp, perm) \<and> page_insert d (A d) pp va perm s = Ret (r, s')"
    then have c: "perm < 4096" "pp < npage s" "pp \<notin> D" "pp \<notin> tables D s" "pp \<notin> set fl"
      "unat (pp_ref s pp) < 65535"
      by (simp_all add: can_insert_def page_is_free_iff[OF fl])
    show "tlb_coherent A D s'"
    proof (cases rule: page_insert_ok[OF assms(1) fl assms(2) i c, where asid = "A d", case_names nomem ok])
      case (nomem s2)
      have "aspace s2 d' = aspace s d'" for d' by (rule aspace_same) (simp add: nomem)
      moreover have "tlb s' = tlb (tlb_invalidate (A d) va s)" "s' = s2" using nomem h by auto
      ultimately show ?thesis
        using assms(4) tlb_invalidate_survivor[OF assms(5), of va s] by (auto simp: tlb_coherent_def)
    next
      case (ok s2)
      with h show ?thesis by (intro tlb_coherent_update[OF assms(4,2,5)]) auto
    qed
  qed
  ultimately show ?thesis by simp
qed

theorem tlb_stays_coherent_witness:
  "\<exists>s1. page_insert 0 5 3 0x400000 0x400 demo_pm = Ret (0, s1) \<and> tlb_coherent (\<lambda>_. 5) {0} s1"
proof -
  obtain s1 where s1: "page_insert 0 5 3 0x400000 0x400 demo_pm = Ret (0, s1)" by (rule demo_inserted)
  have "tlb_coherent (\<lambda>_. 5) {0} s1"
    using tlb_stays_coherent[OF demo_inv _ _ demo_coherent, where d = 0 and va = "0x400000"]
      s1 demo_can_insert by (auto simp: mmu_defs)
  with s1 show ?thesis by simp
qed

section \<open>Boot\<close>

lemma page2kva_val:
  assumes "i < np" "np \<le> 2 ^ 19"
  shows "\<exists>k. page2kva np i = Ret k \<and> unat k = i * 4096 + 0x80000000"
proof -
  have "unat (page2pa i) = i * 4096"
    using assms by (simp add: page2pa_def push_bit_eq_mult unat_word_ariths unat_of_nat)
  moreover from this have "unat (page2pa i + ULIM) = i * 4096 + 0x80000000"
    using assms by (simp add: unat_word_ariths ULIM_def)
  ultimately show ?thesis using assms by (simp add: page2kva_def KADDR_def unat_PPN)
qed

lemma page_init_used_ok:
  assumes "k < npage s" "npage s \<le> 2 ^ 19" "unat (freemem s) = k * 4096 + 0x80000000" "i \<le> k"
  shows "page_init_used [i..<npage s] s = Ret (s\<lparr>pp_ref := (\<lambda>p. if i \<le> p \<and> p < k then 1 else pp_ref s p)\<rparr>)"
  using assms
proof (induction "k - i" arbitrary: i s)
  case 0
  then obtain x where "page2kva (npage s) k = Ret x" "unat x = k * 4096 + 0x80000000"
    using page2kva_val[of k "npage s"] by auto
  moreover have "(\<lambda>p. if i \<le> p \<and> p < k then 1 else pp_ref s p) = pp_ref s" using 0 by (intro HOL.ext) auto
  ultimately show ?case using 0 by (simp add: upt_conv_Cons word_less_nat_alt)
next
  case (Suc n)
  then obtain x where x: "page2kva (npage s) i = Ret x" "unat x = i * 4096 + 0x80000000"
    using page2kva_val[of i "npage s"] by auto
  let ?s = "s\<lparr>pp_ref := (pp_ref s)(i := 1)\<rparr>"
  have "page_init_used [Suc i..<npage ?s] ?s =
      Ret (?s\<lparr>pp_ref := (\<lambda>p. if Suc i \<le> p \<and> p < k then 1 else pp_ref ?s p)\<rparr>)"
    using Suc by (intro Suc.hyps(1)) auto
  moreover have "(\<lambda>p. if Suc i \<le> p \<and> p < k then 1 else pp_ref ?s p) =
      (\<lambda>p. if i \<le> p \<and> p < k then 1 else pp_ref s p)" using Suc.hyps(2) by (intro HOL.ext) auto
  ultimately show ?case using Suc x by (simp add: upt_conv_Cons word_less_nat_alt)
qed

lemma page_init_free_ok:
  assumes "list_rep (page_free_list s) fl" "distinct js" "set js \<inter> set fl = {}"
  obtains q where "page_init_free js s = s\<lparr>pp_ref := (\<lambda>p. if p \<in> set js then 0 else pp_ref s p),
    page_free_list := q\<rparr>" "list_rep q (rev js @ fl)"
  using assms
proof (induction js arbitrary: s fl thesis)
  case Nil
  show ?case by (rule Nil(1)[of "page_free_list s"]) (use Nil(2) in simp_all)
next
  case (Cons i js)
  let ?s = "s\<lparr>pp_ref := (pp_ref s)(i := 0), page_free_list := LIST_INSERT_HEAD i (page_free_list s)\<rparr>"
  have "list_rep (page_free_list ?s) (i # fl)" using Cons.prems by (simp add: list_rep_insert_head)
  then obtain q where "page_init_free js ?s = ?s\<lparr>pp_ref := (\<lambda>p. if p \<in> set js then 0 else pp_ref ?s p),
    page_free_list := q\<rparr>" "list_rep q (rev js @ i # fl)"
    using Cons.prems Cons.IH[of ?s "i # fl"] by auto
  moreover have "(\<lambda>p. if p \<in> set js then 0 else pp_ref ?s p) = (\<lambda>p. if p \<in> set (i # js) then 0 else pp_ref s p)"
    by auto
  ultimately show ?case by (intro Cons.prems(1)[of q]) auto
qed

lemma list_rep_INIT: "list_rep (LIST_INIT q) []"
  by (simp add: list_rep_def LIST_INIT_def)

text \<open>
  At boot, when the memory used so far ends on page \<open>k\<close> below the top of memory, \<open>page_init\<close>
  returns: pages below \<open>k\<close> have one reference and every other page has none and is on the free
  list, which is well formed. This establishes the invariant the other operations keep, with no
  directory yet.
\<close>

theorem page_init_correct:
  assumes "npage s \<le> 2 ^ 19" "unat (ROUND (freemem s) BY2PG) = k * 4096 + 0x80000000" "k < npage s"
  shows "\<exists>s'. page_init s = Ret s' \<and> pm_inv (\<lambda>p. if p < k then 1 else 0) {} s' \<and>
    (\<forall>p. page_is_free s' p = (k \<le> p \<and> p < npage s)) \<and> npage s' = npage s \<and> pmem s' = pmem s"
proof -
  let ?s1 = "s\<lparr>page_free_list := LIST_INIT (page_free_list s), freemem := ROUND (freemem s) BY2PG\<rparr>"
  let ?s2 = "?s1\<lparr>pp_ref := (\<lambda>p. if p < k then 1 else pp_ref s p)\<rparr>"
  have u: "page_init_used [0..<npage s] ?s1 = Ret ?s2"
  proof -
    have "pp_ref ?s1 = pp_ref s" by simp
    then show ?thesis using page_init_used_ok[of k ?s1 0] assms by (simp only: pm.simps) simp
  qed
  have "list_rep (page_free_list ?s2) []" by (simp add: list_rep_INIT)
  then obtain q where q: "page_init_free [k..<npage s] ?s2 =
      ?s2\<lparr>pp_ref := (\<lambda>p. if p \<in> set [k..<npage s] then 0 else pp_ref ?s2 p), page_free_list := q\<rparr>"
    "list_rep q (rev [k..<npage s])"
    by (rule page_init_free_ok[where js = "[k..<npage s]"]) auto
  let ?s3 = "?s2\<lparr>pp_ref := (\<lambda>p. if p \<in> set [k..<npage s] then 0 else pp_ref ?s2 p), page_free_list := q\<rparr>"
  have f: "\<not> ROUND (freemem s) BY2PG < ULIM" using assms(2) by (simp add: word_less_nat_alt ULIM_def)
  have "unat (ROUND (freemem s) BY2PG - ULIM) = k * 4096"
    using f assms(2) by (simp add: unat_sub word_le_nat_alt ULIM_def)
  then have "page_init s = Ret ?s3"
    using u f q(1) by (simp add: page_init_def PADDR_def unat_PPN Let_def)
  moreover have "free_ok ?s3 (rev [k..<npage s])" using q(2) by (auto simp: free_ok_def)
  moreover have "pm_struct {} ?s3" using assms(1) by (auto simp: pm_struct_def pdes_def ptes_def tables_def)
  moreover have "count_ok (\<lambda>p. if p < k then 1 else 0) {} ?s3"
    by (auto simp: count_ok_def pg_refs_def map_refs_def ptes_def pdes_def tables_def)
  ultimately show ?thesis
    using page_is_free_iff[of ?s3 "rev [k..<npage s]"] by (auto simp: pm_inv_def)
qed

theorem page_init_correct_witness:
  "\<exists>s'. page_init (demo_pm\<lparr>freemem := 0x80001004\<rparr>) = Ret s' \<and> pm_inv (\<lambda>p. if p < 2 then 1 else 0) {} s' \<and>
     page_is_free s' 3 \<and> \<not> page_is_free s' 1"
proof -
  have "unat (ROUND 0x80001004 BY2PG) = 2 * 4096 + 0x80000000" by (simp add: ROUND_def BY2PG_def)
  then show ?thesis
    using page_init_correct[of "demo_pm\<lparr>freemem := 0x80001004\<rparr>" 2] by (auto simp: demo_pm_def)
qed


end
