(* ===== verification/Tlbex.thy ===== *)
theory Tlbex
  imports KernInv PmapProps
begin

text \<open>
  The TLB exceptions, \<^verbatim>\<open>kern/tlbex.c\<close>, and the kernel's accesses to user memory, which go through
  them: a load or store at a user address that the TLB does not map traps to \<open>_do_tlb_refill\<close>, which
  looks the page up in the current page table and allocates it when it is missing. The loop of
  \<open>_do_tlb_refill\<close> has fuel; two rounds are enough, which is proved. A store to a page without the
  dirty bit would trap again inside the kernel and is a fault here.
\<close>

section \<open>Refill\<close>

definition passive_alloc :: "u32 \<Rightarrow> nat \<Rightarrow> u32 \<Rightarrow> 'a pm_scheme \<Rightarrow> 'a pm_scheme res" where
  "passive_alloc va pgdir asid s =
     (if va < UTEMP then Panic ''address too low''
      else if USTACKTOP \<le> va \<and> va < USTACKTOP + BY2PG then Panic ''invalid memory''
      else if UENVS \<le> va \<and> va < UPAGES then Panic ''envs zone''
      else if UPAGES \<le> va \<and> va < UVPT then Panic ''pages zone''
      else if ULIM \<le> va then Panic ''kernel address''
      else rbind (page_alloc s) (\<lambda>((r, p), s).
        if r \<noteq> 0 then Panic ''page_alloc''
        else case p of None \<Rightarrow> Fault ''NULL page'' | Some p \<Rightarrow>
          rbind (page_insert pgdir asid p (PTE_ADDR va) PTE_D s) (\<lambda>(r, s).
          if r \<noteq> 0 then Panic ''page_insert'' else Ret s)))"

fun refill_loop :: "nat \<Rightarrow> u32 \<Rightarrow> nat \<Rightarrow> u32 \<Rightarrow> 'a pm_scheme \<Rightarrow> (u32 \<times> 'a pm_scheme) res" where
  "refill_loop 0 va pgdir asid s = Fault ''out of fuel''"
| "refill_loop (Suc n) va pgdir asid s =
     rbind (page_lookup pgdir va s) (\<lambda>(found, s).
     case found of Some (pp, pte) \<Rightarrow> Ret (load_word s pte, s)
     | None \<Rightarrow> rbind (passive_alloc va pgdir asid s) (refill_loop n va pgdir asid))"

definition do_tlb_refill :: "u32 \<Rightarrow> u32 \<Rightarrow> kern \<Rightarrow> (u32 \<times> kern) res" where
  "do_tlb_refill va asid s = refill_loop 2 va (cur_pgdir s) asid s"

section \<open>User memory as the kernel sees it\<close>

definition cpu_asid :: "kern \<Rightarrow> u32" where
  "cpu_asid s = drop_bit 6 (cpu_entryhi s) AND 0x3F"

definition uload :: "u32 \<Rightarrow> kern \<Rightarrow> (u32 \<times> kern) res" where
  "uload va s =
     (if va mod 4 \<noteq> 0 then Fault ''unaligned address''
      else rbind (do_tlb_refill va (cpu_asid s) s) (\<lambda>(pte, s).
        Ret (load_word s (unat (PPN pte), unat va mod 4096 div 4), s)))"

definition ustore :: "u32 \<Rightarrow> u32 \<Rightarrow> kern \<Rightarrow> kern res" where
  "ustore va w s =
     (if va mod 4 \<noteq> 0 then Fault ''unaligned address''
      else rbind (do_tlb_refill va (cpu_asid s) s) (\<lambda>(pte, s).
        if pte AND PTE_D = 0 then Fault ''TLB Mod in the kernel''
        else Ret (store_word (unat (PPN pte), unat va mod 4096 div 4) w s)))"

definition uload_byte :: "u32 \<Rightarrow> kern \<Rightarrow> (u8 \<times> kern) res" where
  "uload_byte va s = rbind (do_tlb_refill va (cpu_asid s) s) (\<lambda>(pte, s).
     Ret (load_byte s (unat (PPN pte)) (unat va mod 4096), s))"

fun ustores :: "u32 \<Rightarrow> u32 list \<Rightarrow> kern \<Rightarrow> kern res" where
  "ustores va [] s = Ret s"
| "ustores va (w # ws) s = rbind (ustore va w s) (ustores (va + 4) ws)"

fun uloads :: "u32 \<Rightarrow> nat \<Rightarrow> kern \<Rightarrow> (u32 list \<times> kern) res" where
  "uloads va 0 s = Ret ([], s)"
| "uloads va (Suc n) s = rbind (uload va s) (\<lambda>(w, s). rbind (uloads (va + 4) n s) (\<lambda>(ws, s). Ret (w # ws, s)))"

section \<open>do\_tlb\_mod\<close>

definition tf_words :: "trapframe \<Rightarrow> u32 list" where
  "tf_words tf = map (regs tf) [0..<32] @
     [cp0_status tf, tf_hi tf, tf_lo tf, cp0_badvaddr tf, cp0_cause tf, cp0_epc tf]"

definition tf_of_words :: "u32 list \<Rightarrow> trapframe" where
  "tf_of_words ws = \<lparr>regs = (\<lambda>i. if i < 32 then ws ! i else 0), cp0_status = ws ! 32, tf_hi = ws ! 33,
     tf_lo = ws ! 34, cp0_badvaddr = ws ! 35, cp0_cause = ws ! 36, cp0_epc = ws ! 37\<rparr>"

definition sizeof_Trapframe :: u32 where "sizeof_Trapframe = 152"

definition do_tlb_mod :: "trapframe \<Rightarrow> kern \<Rightarrow> (trapframe \<times> kern) res" where
  "do_tlb_mod tf s =
     (let tmp_tf = tf;
          sp = regs tf 29;
          sp = (if sp < USTACKTOP \<or> UXSTACKTOP \<le> sp then UXSTACKTOP else sp);
          sp = sp - sizeof_Trapframe
      in rbind (ustores sp (tf_words tmp_tf) s) (\<lambda>s.
         case curenv s of None \<Rightarrow> Fault ''NULL curenv''
         | Some c \<Rightarrow>
             if env_user_tlb_mod_entry (envs s c) \<noteq> 0
             then Ret (tf\<lparr>regs := (regs tf)(4 := sp, 29 := sp - 4),
                         cp0_epc := env_user_tlb_mod_entry (envs s c)\<rparr>, s)
             else Panic ''TLB Mod but no user handler registered''))"

section \<open>Properties\<close>

lemma vidx_PTE_ADDR [simp]: "vidx (PTE_ADDR va) = vidx va"
  using PTE_ADDR_eq_vidx[of "PTE_ADDR va" va] by (simp add: PTE_ADDR_idem)

lemma passive_alloc_ok:
  assumes inv: "pm_inv ext D s" and fl: "free_ok s fl" and d: "d \<in> D"
    and va: "UTEMP \<le> va" "va < USTACKTOP" and none: "aspace s d (vidx va) = None"
    and mem: "if pte_valid (pmem s d (unat (PDX va))) then fl \<noteq> [] else 2 \<le> length fl"
  obtains p s' where "passive_alloc va d asid s = Ret s'" "pm_inv ext D s'" "page_is_free s p"
    "\<forall>d' \<in> D. aspace s' d' = (if d' = d then (aspace s d)(vidx va \<mapsto> page2pa p OR PTE_D OR PTE_V) else aspace s d')"
    "pmem s' p = (\<lambda>_. 0)" "pm.more s' = pm.more s" "npage s' = npage s"
proof -
  obtain p fl' where pf: "fl = p # fl'" using mem by (cases fl) (auto split: if_splits)
  obtain s1 where s1: "page_alloc s = Ret ((0, Some p), s1)" "pm_inv ext D s1" "free_ok s1 fl'"
    "pmem s1 = (pmem s)(p := (\<lambda>_. 0))" "npage s1 = npage s" "pp_ref s1 = pp_ref s" "pm.more s1 = pm.more s"
    "p \<notin> set fl'" "tables D s1 = tables D s" "\<forall>d \<in> D. aspace s1 d = aspace s d"
    by (rule page_alloc_some[OF inv fl[unfolded pf]])
  have pr: "p < npage s" "pp_ref s p = 0" using fl pf by (simp_all add: free_ok_def)
  have nr: "p \<notin> D" "p \<notin> tables D s" using count_ok_free[OF inv fl, of p] pf by auto
  have "va < UTOP" using va(2) by (simp add: mmu_defs word_less_nat_alt)
  then have i: "unat (PDX (PTE_ADDR va)) < user_pdes"
    using PDX_UTOP[of va] vidx_PTE_ADDR[of va] by (simp add: user_pdes_def vidx_def)
  have v': "PDX (PTE_ADDR va) = PDX va" using vidx_PTE_ADDR[of va] by (simp add: vidx_def word_unat_eq_iff)
  have c: "PTE_D < 4096" "p < npage s1" "p \<notin> D" "p \<notin> tables D s1" "p \<notin> set fl'" "unat (pp_ref s1 p) < 65535"
    using pr nr s1 by (simp_all add: PTE_D_def)
  have dp: "pmem s1 d = pmem s d" using s1(4) d nr(1) by auto
  show ?thesis
  proof (cases rule: page_insert_ok[OF s1(2,3) d i c, where asid = asid, case_names nomem ok])
    case (nomem s2)
    with mem pf dp show ?thesis by (simp add: v')
  next
    case (ok s2)
    have g: "\<not> va < UTEMP" "\<not> (USTACKTOP \<le> va \<and> va < USTACKTOP + BY2PG)" "\<not> (UENVS \<le> va \<and> va < UPAGES)"
      "\<not> (UPAGES \<le> va \<and> va < UVPT)" "\<not> ULIM \<le> va"
      using va by (auto simp: mmu_defs word_less_nat_alt word_le_nat_alt)
    have n1: "aspace s1 d (vidx va) = None" using none s1(10) d by simp
    have z: "pmem s2 p = (\<lambda>_. 0)" using ok(7) c(3-5) s1(4) n1 by (simp add: v')
    have a: "\<forall>d' \<in> D. aspace s2 d' = (if d' = d then (aspace s d)(vidx va \<mapsto> page2pa p OR PTE_D OR PTE_V) else aspace s d')"
      using ok(3) s1(10) d by simp
    have r: "passive_alloc va d asid s = Ret s2"
      unfolding passive_alloc_def if_not_P[OF g(1)] if_not_P[OF g(2)] if_not_P[OF g(3)] if_not_P[OF g(4)] if_not_P[OF g(5)]
      by (simp add: s1(1) ok(1))
    have "page_is_free s p" using page_is_free_iff[OF fl] pf by simp
    then show ?thesis using that[OF r ok(2) _ a z] ok(4,5) s1(5,7) by simp
  qed
qed

text \<open>
  C15. A TLB refill at a user address below the stack top always returns an entry (two rounds of its
  loop are enough) when memory is left: if the page is mapped, its entry, with nothing changed;
  otherwise the entry of a page that was free, now zeroed, writable and mapped there, with nothing
  else mapped or unmapped in any address space and the invariant kept.
\<close>

theorem tlb_refill_correct:
  assumes inv: "pm_inv ext D s" and fl: "free_ok s fl" and d: "d \<in> D"
    and va: "UTEMP \<le> va" "va < USTACKTOP"
    and mem: "aspace s d (vidx va) = None \<longrightarrow>
      (if pte_valid (pmem s d (unat (PDX va))) then fl \<noteq> [] else 2 \<le> length fl)"
  shows "\<exists>pte s'. refill_loop 2 va d asid s = Ret (pte, s') \<and> pm_inv ext D s' \<and>
    aspace s' d (vidx va) = Some pte \<and>
    (case aspace s d (vidx va) of
       Some w \<Rightarrow> pte = w \<and> s' = s
     | None \<Rightarrow> \<exists>p. page_is_free s p \<and> pte = page2pa p OR PTE_D OR PTE_V \<and> pmem s' p = (\<lambda>_. 0) \<and>
         (\<forall>d' \<in> D. aspace s' d' = (if d' = d then (aspace s d)(vidx va \<mapsto> pte) else aspace s d')))"
proof -
  have "va < UTOP" using va(2) by (simp add: mmu_defs word_less_nat_alt)
  then have i: "unat (PDX va) < user_pdes" using PDX_UTOP[of va] by (simp add: user_pdes_def)
  have st: "pm_struct D s" using inv by (simp add: pm_inv_def)
  have two: "(2 :: nat) = Suc (Suc 0)" by simp
  have look: "page_lookup d va t = Ret (Some (unat (PPN w), pt_of t d (unat (PDX va)), unat (PTX va)), t)"
    "load_word t (pt_of t d (unat (PDX va)), unat (PTX va)) = w"
    if "pm_inv ext D t" "aspace t d (vidx va) = Some w" for t :: "'a pm_scheme" and w
  proof -
    have st: "pm_struct D t" using that by (simp add: pm_inv_def)
    show "page_lookup d va t = Ret (Some (unat (PPN w), pt_of t d (unat (PDX va)), unat (PTX va)), t)"
      using page_lookup_ok[OF st d i] that(2) by simp
    show "load_word t (pt_of t d (unat (PDX va)), unat (PTX va)) = w"
      using that(2) d by (auto simp: vidx_def aspace_Some_iff[of d D] load_word_def)
  qed
  show ?thesis
  proof (cases "aspace s d (vidx va)")
    case (Some w)
    then have "refill_loop 2 va d asid s = Ret (w, s)" using look[OF inv Some] by (simp add: two)
    with Some inv show ?thesis by simp
  next
    case None
    have m: "if pte_valid (pmem s d (unat (PDX va))) then fl \<noteq> [] else 2 \<le> length fl" using mem None by blast
    obtain p s1 where s1: "passive_alloc va d asid s = Ret s1" "pm_inv ext D s1" "page_is_free s p"
      "\<forall>d' \<in> D. aspace s1 d' = (if d' = d then (aspace s d)(vidx va \<mapsto> page2pa p OR PTE_D OR PTE_V) else aspace s d')"
      "pmem s1 p = (\<lambda>_. 0)"
      by (rule passive_alloc_ok[OF inv fl d va None m, of asid])
    have "aspace s1 d (vidx va) = Some (page2pa p OR PTE_D OR PTE_V)" using s1(4) d by simp
    note l = look[OF s1(2) this]
    have "page_lookup d va s = Ret (None, s)" using page_lookup_ok[OF st d i] None by simp
    then have "refill_loop 2 va d asid s = Ret (page2pa p OR PTE_D OR PTE_V, s1)"
      using l s1(1) by (simp add: two)
    with None s1 d show ?thesis by auto
  qed
qed

theorem tlb_refill_correct_witness:
  "\<exists>pte s'. refill_loop 2 0x400123 0 5 demo_pm = Ret (pte, s') \<and> pm_inv (\<lambda>_. 0) {0} s' \<and>
     aspace s' 0 (vidx 0x400123) = Some pte"
  using tlb_refill_correct[OF demo_inv demo_free, of 0 "0x400123" 5]
  by (auto simp: mmu_defs demo_pm_def)

text \<open>The words stored on the user exception stack, read back, are the frame that was saved.\<close>

lemma trapframe_roundtrip:
  assumes "\<forall>i \<ge> 32. regs tf i = 0"
  shows "tf_of_words (tf_words tf) = tf" "length (tf_words tf) * 4 = unat sizeof_Trapframe"
proof -
  have "(\<lambda>i. if i < 32 then tf_words tf ! i else 0) = regs tf"
    using assms by (auto simp: tf_words_def fun_eq_iff nth_append)
  moreover have "tf_words tf ! 32 = cp0_status tf" "tf_words tf ! 33 = tf_hi tf" "tf_words tf ! 34 = tf_lo tf"
    "tf_words tf ! 35 = cp0_badvaddr tf" "tf_words tf ! 36 = cp0_cause tf" "tf_words tf ! 37 = cp0_epc tf"
    by (simp_all add: tf_words_def nth_append)
  ultimately show "tf_of_words (tf_words tf) = tf" by (simp add: tf_of_words_def)
  show "length (tf_words tf) * 4 = unat sizeof_Trapframe" by (simp add: tf_words_def sizeof_Trapframe_def)
qed

end
