(* ===== verification/Syscall.thy ===== *)
theory Syscall
  imports Tlbex
begin

text \<open>
  The system calls, \<^verbatim>\<open>kern/syscall_all.c\<close>, and their dispatcher \<open>do_syscall\<close>. A call returns to the
  user (\<open>Back r\<close>, \<open>r\<close> going to \<open>$v0\<close>) or switches to another environment (\<open>Gone\<close>). The calls on shell
  variables are in the theory \<open>EnvValue\<close>; here they get their strings from user memory. What is outside the kernel (the device bus and the console
  input) is passed in the record \<open>io\<close>.
\<close>

section \<open>The world outside\<close>

record io =
  bus_write :: "u32 \<Rightarrow> u8 list \<Rightarrow> kern \<Rightarrow> kern"
  bus_read :: "u32 \<Rightarrow> nat \<Rightarrow> kern \<Rightarrow> u8 list \<times> kern"
  cons_polls :: "u8 list"

type_synonym sysret = "(int ctl \<times> kern) res"

text \<open>The pattern \<open>try(envid2env(envid, &e, checkperm))\<close>.\<close>

definition with_env :: "u32 \<Rightarrow> bool \<Rightarrow> kern \<Rightarrow> (nat \<Rightarrow> sysret) \<Rightarrow> sysret" where
  "with_env envid checkperm s k =
     rbind (envid2env envid checkperm s) (\<lambda>(r, e).
     if r \<noteq> 0 then Ret (Back r, s)
     else case e of None \<Rightarrow> Fault ''NULL env'' | Some e \<Rightarrow> k e)"

definition with_cur :: "kern \<Rightarrow> (nat \<Rightarrow> sysret) \<Rightarrow> sysret" where
  "with_cur s k = (case curenv s of None \<Rightarrow> Fault ''NULL curenv'' | Some c \<Rightarrow> k c)"

section \<open>Console and scheduling\<close>

text \<open>\<open>sys_putchar\<close> is \<open>void\<close>: what its caller finds in \<open>$v0\<close> is unspecified and 0 here.\<close>

definition sys_putchar :: "u32 \<Rightarrow> kern \<Rightarrow> sysret" where
  "sys_putchar c s = Ret (Back 0, printcharc (char_of (unat c)) s)"

fun print_user :: "u32 \<Rightarrow> nat \<Rightarrow> kern \<Rightarrow> kern res" where
  "print_user va 0 s = Ret s"
| "print_user va (Suc n) s = rbind (uload_byte va s) (\<lambda>(b, s).
     print_user (va + 1) n (printcharc (char_of (unat b)) s))"

definition sys_print_cons :: "u32 \<Rightarrow> u32 \<Rightarrow> kern \<Rightarrow> sysret" where
  "sys_print_cons p num s =
     (if p + num > UTOP \<or> p \<ge> UTOP \<or> p > p + num then Ret (Back (- E_INVAL), s)
      else rbind (print_user p (unat num) s) (\<lambda>s. Ret (Back 0, s)))"

definition sys_getenvid :: "kern \<Rightarrow> sysret" where
  "sys_getenvid s = with_cur s (\<lambda>c. Ret (Back (uint (env_id (envs s c))), s))"

definition sys_yield :: "kern \<Rightarrow> sysret" where
  "sys_yield s = rbind (schedule True s) (\<lambda>s. Ret (Gone, s))"

definition sys_env_destroy :: "u32 \<Rightarrow> kern \<Rightarrow> sysret" where
  "sys_env_destroy envid s =
     with_env envid True s (\<lambda>e. with_cur s (\<lambda>c.
       rbind (printk (''[%08x] destroying %08x'' @ [CHR 0x0A]) [AInt (env_id (envs s c)), AInt (env_id (envs s e))] s) (\<lambda>s.
       rbind (env_destroy e s) (\<lambda>(x, s). Ret (case x of Gone \<Rightarrow> Gone | Back _ \<Rightarrow> Back 0, s)))))"

definition sys_set_tlb_mod_entry :: "u32 \<Rightarrow> u32 \<Rightarrow> kern \<Rightarrow> sysret" where
  "sys_set_tlb_mod_entry envid func s =
     with_env envid True s (\<lambda>e. Ret (Back 0, upd_env e (\<lambda>x. x\<lparr>env_user_tlb_mod_entry := func\<rparr>) s))"

section \<open>Memory\<close>

definition is_illegal_va :: "u32 \<Rightarrow> bool" where
  "is_illegal_va va = (va < UTEMP \<or> va \<ge> UTOP)"

definition is_illegal_va_range :: "u32 \<Rightarrow> u32 \<Rightarrow> bool" where
  "is_illegal_va_range va len =
     (if len = 0 then False else va + len < va \<or> va < UTEMP \<or> va + len > UTOP)"

definition sys_mem_alloc :: "u32 \<Rightarrow> u32 \<Rightarrow> u32 \<Rightarrow> kern \<Rightarrow> sysret" where
  "sys_mem_alloc envid va perm s =
     (if is_illegal_va va then Ret (Back (- E_INVAL), s)
      else with_env envid True s (\<lambda>e.
        rbind (page_alloc s) (\<lambda>((r, pp), s).
        if r \<noteq> 0 then Ret (Back r, s)
        else case pp of None \<Rightarrow> Fault ''NULL page'' | Some pp \<Rightarrow>
          rbind (page_insert (env_pgdir (envs s e)) (env_asid (envs s e)) pp va perm s) (\<lambda>(r, s).
          Ret (Back r, s)))))"

definition sys_mem_map :: "u32 \<Rightarrow> u32 \<Rightarrow> u32 \<Rightarrow> u32 \<Rightarrow> u32 \<Rightarrow> kern \<Rightarrow> sysret" where
  "sys_mem_map srcid srcva dstid dstva perm s =
     (if is_illegal_va srcva \<or> is_illegal_va dstva then Ret (Back (- E_INVAL), s)
      else with_env srcid True s (\<lambda>srcenv. with_env dstid True s (\<lambda>dstenv.
        rbind (page_lookup (env_pgdir (envs s srcenv)) srcva s) (\<lambda>(found, s).
        case found of None \<Rightarrow> Ret (Back (- E_INVAL), s)
        | Some (pp, _) \<Rightarrow>
            rbind (page_insert (env_pgdir (envs s dstenv)) (env_asid (envs s dstenv)) pp dstva perm s) (\<lambda>(r, s).
            Ret (Back r, s))))))"

definition sys_mem_unmap :: "u32 \<Rightarrow> u32 \<Rightarrow> kern \<Rightarrow> sysret" where
  "sys_mem_unmap envid va s =
     (if is_illegal_va va then Ret (Back (- E_INVAL), s)
      else with_env envid False s (\<lambda>e.
        rbind (page_remove (env_pgdir (envs s e)) (env_asid (envs s e)) va s) (\<lambda>s. Ret (Back 0, s))))"

section \<open>Environments\<close>

definition sys_exofork :: "kern \<Rightarrow> sysret" where
  "sys_exofork s = with_cur s (\<lambda>c.
     rbind (env_alloc (env_id (envs s c)) s) (\<lambda>((r, new), s).
     if r \<noteq> 0 then Ret (Back r, s)
     else case new of None \<Rightarrow> Fault ''NULL env'' | Some e \<Rightarrow>
       let s = upd_env e (\<lambda>x. x\<lparr>env_tf := kstack_tf s\<rparr>) s;
           s = upd_env e (\<lambda>x. x\<lparr>env_tf := (env_tf x)\<lparr>regs := (regs (env_tf x))(2 := 0)\<rparr>\<rparr>) s;
           s = upd_env e (\<lambda>x. x\<lparr>env_status := ENV_NOT_RUNNABLE\<rparr>) s;
           s = upd_env e (\<lambda>x. x\<lparr>env_pri := env_pri (envs s c)\<rparr>) s
       in Ret (Back (uint (env_id (envs s e))), s)))"

definition sys_set_env_status :: "u32 \<Rightarrow> u32 \<Rightarrow> kern \<Rightarrow> sysret" where
  "sys_set_env_status envid status s =
     (if status \<noteq> ENV_RUNNABLE \<and> status \<noteq> ENV_NOT_RUNNABLE then Ret (Back (- E_INVAL), s)
      else with_env envid True s (\<lambda>e.
        rbind (if status = ENV_RUNNABLE \<and> env_status (envs s e) \<noteq> ENV_RUNNABLE
               then TAILQ_INSERT_TAIL e (env_sched_list s)
               else if status \<noteq> ENV_RUNNABLE \<and> env_status (envs s e) = ENV_RUNNABLE
               then TAILQ_REMOVE e (env_sched_list s)
               else Ret (env_sched_list s)) (\<lambda>q.
        let s = s\<lparr>env_sched_list := q\<rparr>
        in Ret (Back 0, upd_env e (\<lambda>x. x\<lparr>env_status := status\<rparr>) s))))"

definition sys_set_trapframe :: "u32 \<Rightarrow> u32 \<Rightarrow> kern \<Rightarrow> sysret" where
  "sys_set_trapframe envid tf s =
     (if is_illegal_va_range tf sizeof_Trapframe then Ret (Back (- E_INVAL), s)
      else with_env envid True s (\<lambda>e.
        rbind (uloads tf 38 s) (\<lambda>(ws, s).
        let t = tf_of_words ws
        in if curenv s = Some e
           then Ret (Back (sint (regs t 2)), s\<lparr>kstack_tf := t\<rparr>)
           else Ret (Back 0, upd_env e (\<lambda>x. x\<lparr>env_tf := t\<rparr>) s))))"

definition sys_panic :: "u32 \<Rightarrow> kern \<Rightarrow> sysret" where
  "sys_panic msg s = Panic ''%s''"

section \<open>Inter-process communication\<close>

definition sys_ipc_recv :: "u32 \<Rightarrow> kern \<Rightarrow> sysret" where
  "sys_ipc_recv dstva s =
     (if dstva \<noteq> 0 \<and> is_illegal_va dstva then Ret (Back (- E_INVAL), s)
      else with_cur s (\<lambda>c.
        let s = upd_env c (\<lambda>x. x\<lparr>env_ipc_recving := 1\<rparr>) s;
            s = upd_env c (\<lambda>x. x\<lparr>env_ipc_dstva := dstva\<rparr>) s;
            s = upd_env c (\<lambda>x. x\<lparr>env_status := ENV_NOT_RUNNABLE\<rparr>) s
        in rbind (TAILQ_REMOVE c (env_sched_list s)) (\<lambda>q.
           let s = s\<lparr>env_sched_list := q\<rparr>;
               s = s\<lparr>kstack_tf := (kstack_tf s)\<lparr>regs := (regs (kstack_tf s))(2 := 0)\<rparr>\<rparr>
           in rbind (schedule True s) (\<lambda>s. Ret (Gone, s)))))"

definition sys_ipc_try_send :: "u32 \<Rightarrow> u32 \<Rightarrow> u32 \<Rightarrow> u32 \<Rightarrow> kern \<Rightarrow> sysret" where
  "sys_ipc_try_send envid value srcva perm s =
     (if srcva \<noteq> 0 \<and> is_illegal_va srcva then Ret (Back (- E_INVAL), s)
      else with_env envid False s (\<lambda>e.
        if env_ipc_recving (envs s e) = 0 then Ret (Back (- E_IPC_NOT_RECV), s)
        else with_cur s (\<lambda>c.
          let s = upd_env e (\<lambda>x. x\<lparr>env_ipc_value := value\<rparr>) s;
              s = upd_env e (\<lambda>x. x\<lparr>env_ipc_from := env_id (envs s c)\<rparr>) s;
              s = upd_env e (\<lambda>x. x\<lparr>env_ipc_perm := PTE_V OR perm\<rparr>) s;
              s = upd_env e (\<lambda>x. x\<lparr>env_ipc_recving := 0\<rparr>) s;
              s = upd_env e (\<lambda>x. x\<lparr>env_status := ENV_RUNNABLE\<rparr>) s
          in rbind (TAILQ_INSERT_TAIL e (env_sched_list s)) (\<lambda>q.
             let s = s\<lparr>env_sched_list := q\<rparr>
             in if srcva \<noteq> 0
                then rbind (page_lookup (env_pgdir (envs s c)) srcva s) (\<lambda>(found, s).
                  case found of None \<Rightarrow> Ret (Back (- E_INVAL), s)
                  | Some (p, _) \<Rightarrow>
                      rbind (page_insert (env_pgdir (envs s e)) (env_asid (envs s e)) p (env_ipc_dstva (envs s e)) perm s) (\<lambda>(r, s).
                      if r \<noteq> 0 then Ret (Back r, s) else Ret (Back 0, s)))
                else Ret (Back 0, s)))))"

section \<open>Devices\<close>

text \<open>The console is polled until it has a character; \<open>None\<close> when the given polls are not enough.\<close>

definition sys_cgetc :: "u8 list \<Rightarrow> int option" where
  "sys_cgetc polls = (case dropWhile (\<lambda>ch. ch = 0) polls of [] \<Rightarrow> None | ch # _ \<Rightarrow> Some (sint ch))"

definition dev_range_ok :: "u32 \<Rightarrow> u32 \<Rightarrow> bool" where
  "dev_range_ok pa len =
     ((pa \<ge> 0x10000000 \<and> pa + len \<le> 0x10000020) \<or> (pa \<ge> 0x13000000 \<and> pa + len \<le> 0x13004200) \<or>
      (pa \<ge> 0x15000000 \<and> pa + len \<le> 0x15000200))"

fun uload_bytes :: "u32 \<Rightarrow> nat \<Rightarrow> kern \<Rightarrow> (u8 list \<times> kern) res" where
  "uload_bytes va 0 s = Ret ([], s)"
| "uload_bytes va (Suc n) s = rbind (uload_byte va s) (\<lambda>(b, s).
     rbind (uload_bytes (va + 1) n s) (\<lambda>(bs, s). Ret (b # bs, s)))"

definition ustore_byte :: "u32 \<Rightarrow> u8 \<Rightarrow> kern \<Rightarrow> kern res" where
  "ustore_byte va b s = rbind (do_tlb_refill va (cpu_asid s) s) (\<lambda>(pte, s).
     if pte AND PTE_D = 0 then Fault ''TLB Mod in the kernel''
     else Ret (store_byte (unat (PPN pte)) (unat va mod 4096) b s))"

fun ustore_bytes :: "u32 \<Rightarrow> u8 list \<Rightarrow> kern \<Rightarrow> kern res" where
  "ustore_bytes va [] s = Ret s"
| "ustore_bytes va (b # bs) s = rbind (ustore_byte va b s) (ustore_bytes (va + 1) bs)"

definition sys_write_dev :: "io \<Rightarrow> u32 \<Rightarrow> u32 \<Rightarrow> u32 \<Rightarrow> kern \<Rightarrow> sysret" where
  "sys_write_dev w va pa len s =
     (if is_illegal_va_range va len then Ret (Back (- E_INVAL), s)
      else if \<not> dev_range_ok pa len then Ret (Back (- E_INVAL), s)
      else rbind (uload_bytes va (unat len) s) (\<lambda>(bs, s). Ret (Back 0, bus_write w (pa + KSEG1) bs s)))"

definition sys_read_dev :: "io \<Rightarrow> u32 \<Rightarrow> u32 \<Rightarrow> u32 \<Rightarrow> kern \<Rightarrow> sysret" where
  "sys_read_dev w va pa len s =
     (if is_illegal_va_range va len then Ret (Back (- E_INVAL), s)
      else if \<not> dev_range_ok pa len then Ret (Back (- E_INVAL), s)
      else let (bs, s) = bus_read w (pa + KSEG1) (unat len) s
        in rbind (ustore_bytes va bs s) (\<lambda>s. Ret (Back 0, s)))"

section \<open>Shell variables in user memory\<close>

text \<open>
  The calls of \<open>EnvValue\<close> with their strings in the caller's memory. A string with no NUL in the
  whole address space is one whose \<open>strlen\<close> never ends: \<open>2 ^ 32\<close> bytes are enough for every other.
\<close>

fun ustr :: "nat \<Rightarrow> u32 \<Rightarrow> kern \<Rightarrow> (u8 list \<times> kern) res" where
  "ustr 0 va s = Fault ''string without end''"
| "ustr (Suc n) va s = rbind (uload_byte va s) (\<lambda>(b, s).
     if b = 0 then Ret ([], s)
     else rbind (ustr n (va + 1) s) (\<lambda>(bs, s). Ret (b # bs, s)))"

definition ucstr :: "u32 \<Rightarrow> kern \<Rightarrow> (u8 list \<times> kern) res" where
  "ucstr va s = ustr (2 ^ 32) va s"

definition call_declare_env_value :: "u32 \<Rightarrow> u32 \<Rightarrow> u32 \<Rightarrow> u32 \<Rightarrow> kern \<Rightarrow> sysret" where
  "call_declare_env_value name val shell_id mood s =
     rbind (ucstr name s) (\<lambda>(nm, s). rbind (ucstr val s) (\<lambda>(v, s).
     rbind (sys_declare_env_value nm v shell_id mood (shv s)) (\<lambda>(r, sv).
     Ret (Back r, s\<lparr>shv := sv\<rparr>))))"

definition call_unset_env_value :: "u32 \<Rightarrow> u32 \<Rightarrow> kern \<Rightarrow> sysret" where
  "call_unset_env_value name shell_id s =
     rbind (ucstr name s) (\<lambda>(nm, s).
     let (r, sv) = sys_unset_env_value nm shell_id (shv s) in Ret (Back r, s\<lparr>shv := sv\<rparr>))"

text \<open>The bytes \<open>put_evar\<close> leaves in memory for one variable; its NULs are overwritten.\<close>

definition ev_text :: "evar \<Rightarrow> u8 list" where
  "ev_text v = bytes_of ''name: '' @ ev_name v @ bytes_of ''  value: '' @ ev_value v @ bytes_of ''  mood: '' @
     (if ev_mood v = 1 then [119] else []) @ (if ev_shell_id v = 0 then [120] else []) @ [10]"

definition call_get_env_value :: "u32 \<Rightarrow> u32 \<Rightarrow> u32 \<Rightarrow> kern \<Rightarrow> sysret" where
  "call_get_env_value name shell_id buf s =
     (if name = 0
      then let sv = shv s;
               txt = concat (map (\<lambda>i. ev_text (env_value sv i))
                 (filter (\<lambda>i. ev_visible shell_id (env_value sv i)) [0..<env_value_num sv]))
        in rbind (ustore_bytes buf txt s) (\<lambda>s.
           rbind (ucstr (buf + of_nat (length txt)) s) (\<lambda>(rest, s). Ret (Back (int (length rest)), s)))
      else rbind (ucstr name s) (\<lambda>(nm, s).
        case find_ev (\<lambda>v. ev_visible shell_id v \<and> ev_name v = nm) (shv s) of
          None \<Rightarrow> Ret (Back (- E_ENV_VALUE), s)
        | Some i \<Rightarrow> rbind (ustore_bytes buf (ev_value (env_value (shv s) i) @ [0]) s) (\<lambda>s.
            rbind (ucstr buf s) (\<lambda>(v, s). Ret (Back (int (length v)), s)))))"

definition call_get_cur_path :: "u32 \<Rightarrow> kern \<Rightarrow> sysret" where
  "call_get_cur_path buf s =
     rbind (ustore_bytes buf (cur_path (shv s) @ [0]) s) (\<lambda>s. Ret (Back 0, s))"

definition call_set_cur_path :: "u32 \<Rightarrow> kern \<Rightarrow> sysret" where
  "call_set_cur_path path s =
     rbind (ucstr path s) (\<lambda>(p, s).
     let (r, sv) = sys_set_cur_path p (shv s) in Ret (Back r, s\<lparr>shv := sv\<rparr>))"

section \<open>The dispatcher\<close>

definition MAX_SYSNO :: nat where [simp]: "MAX_SYSNO = 24"

definition syscall_table :: "io \<Rightarrow> nat \<Rightarrow> u32 \<Rightarrow> u32 \<Rightarrow> u32 \<Rightarrow> u32 \<Rightarrow> u32 \<Rightarrow> kern \<Rightarrow> sysret" where
  "syscall_table w sysno a1 a2 a3 a4 a5 s =
     (if sysno = 0 then sys_putchar a1 s
      else if sysno = 1 then sys_print_cons a1 a2 s
      else if sysno = 2 then sys_getenvid s
      else if sysno = 3 then sys_yield s
      else if sysno = 4 then sys_env_destroy a1 s
      else if sysno = 5 then sys_set_tlb_mod_entry a1 a2 s
      else if sysno = 6 then sys_mem_alloc a1 a2 a3 s
      else if sysno = 7 then sys_mem_map a1 a2 a3 a4 a5 s
      else if sysno = 8 then sys_mem_unmap a1 a2 s
      else if sysno = 9 then sys_exofork s
      else if sysno = 10 then sys_set_env_status a1 a2 s
      else if sysno = 11 then sys_set_trapframe a1 a2 s
      else if sysno = 12 then sys_panic a1 s
      else if sysno = 13 then sys_ipc_try_send a1 a2 a3 a4 s
      else if sysno = 14 then sys_ipc_recv a1 s
      else if sysno = 15 then (case sys_cgetc (cons_polls w) of None \<Rightarrow> Fault ''waiting for input''
        | Some ch \<Rightarrow> Ret (Back ch, s))
      else if sysno = 16 then sys_write_dev w a1 a2 a3 s
      else if sysno = 17 then sys_read_dev w a1 a2 a3 s
      else if sysno = 18 then (let (r, v) = sys_create_shell_id (shv s) in Ret (Back (uint r), s\<lparr>shv := v\<rparr>))
      else if sysno = 19 then call_declare_env_value a1 a2 a3 a4 s
      else if sysno = 20 then call_unset_env_value a1 a2 s
      else if sysno = 21 then call_get_env_value a1 a2 a3 s
      else if sysno = 22 then call_get_cur_path a1 s
      else call_set_cur_path a1 s)"

definition do_syscall :: "io \<Rightarrow> kern \<Rightarrow> (unit ctl \<times> kern) res" where
  "do_syscall w s =
     (let tf = kstack_tf s; sysno = regs tf 4
      in if sysno <s 0 \<or> of_nat MAX_SYSNO \<le>s sysno
         then Ret (Back (), s\<lparr>kstack_tf := tf\<lparr>regs := (regs tf)(2 := word_of_int (- E_NO_SYS))\<rparr>\<rparr>)
         else
           let s = s\<lparr>kstack_tf := tf\<lparr>cp0_epc := cp0_epc tf + 4\<rparr>\<rparr>
           in rbind (uload (regs tf 29 + 16) s) (\<lambda>(arg4, s).
              rbind (uload (regs tf 29 + 20) s) (\<lambda>(arg5, s).
              rbind (syscall_table w (unat sysno) (regs tf 5) (regs tf 6) (regs tf 7) arg4 arg5 s) (\<lambda>(x, s).
              case x of Gone \<Rightarrow> Ret (Gone, s)
              | Back r \<Rightarrow> Ret (Back (), s\<lparr>kstack_tf := (kstack_tf s)\<lparr>regs := (regs (kstack_tf s))(2 := word_of_int r)\<rparr>\<rparr>)))))"

end
