(* ===== verification/PmapFrame.thy ===== *)
theory PmapFrame
  imports PmapDirs
begin

text \<open>
  What \<open>page_insert\<close> leaves alone: every page that is neither free nor a page table, and every
  directory entry but the one on the path to the address. This is what lets user programs rely on
  the contents of their pages across system calls.
\<close>

section \<open>What page\_insert writes\<close>

lemma page_decref_mem: "page_decref pp s = Ret s' \<Longrightarrow> pmem s' = pmem s"
  by (auto simp: page_decref_def page_free_def res_simps Let_def split: if_splits)

lemma page_alloc_mem:
  assumes "page_alloc s = Ret ((r, p), s')" "free_ok s fl" "q \<notin> set fl"
  shows "pmem s' q = pmem s q"
  using assms list_rep_first[of "page_free_list s" "hd fl" "tl fl"]
  by (cases fl) (auto simp: page_alloc_def res_simps Let_def free_ok_def list_rep_empty split: if_splits option.splits)

lemma pgdir_walk_mem:
  assumes "pgdir_walk d va create s = Ret ((r, l), s')" "free_ok s fl" "q \<notin> set fl" "(q, k) \<noteq> (d, unat (PDX va))"
  shows "pmem s' q k = pmem s q k"
  using assms page_alloc_mem[OF _ assms(2,3)]
  by (auto simp: pgdir_walk_def res_simps Let_def store_word_def incr_ref_def fun_eq_iff
      split: if_splits option.splits prod.splits)

lemma insert_step2_mem:
  assumes inv: "pm_inv ext D s" and fl: "free_ok s fl" and d: "d \<in> D" and i: "unat (PDX va) < user_pdes"
    and run: "insert_step2 d asid pp va perm s = Ret (r, s')" and k: "(q, k) \<noteq> (d, unat (PDX va))"
    and q: "q \<notin> tables D s" "pte_valid (pmem s d (unat (PDX va))) \<or> q \<notin> set fl"
  shows "pmem s' q k = pmem s q k"
proof -
  define s0 where "s0 = tlb_invalidate asid va s"
  have inv0: "pm_inv ext D s0" using inv by (rule pm_inv_same) (simp_all add: s0_def)
  have fl0: "free_ok s0 fl" using fl by (simp add: free_ok_def s0_def)
  have t0: "tables D s0 = tables D s" "pmem s0 = pmem s"
    using refs_same(2)[of s0 s] by (simp_all add: s0_def)
  show ?thesis
  proof (cases "pte_valid (pmem s d (unat (PDX va)))")
    case True
    then have di: "(d, unat (PDX va)) \<in> pdes D s" using d i by (simp add: pdes_def)
    then have pt: "pt_of s d (unat (PDX va)) \<in> tables D s" by (force simp: tables_def)
    have w: "pgdir_walk d va True s0 = Ret ((0, Some (pt_of s0 d (unat (PDX va)), unat (PTX va))), s0)"
      using walk_noalloc[of D s0 d va] True inv0 d i t0 by (auto simp: pm_inv_def pgdir_walk_def load_word_def Let_def)
    have "s' = incr_ref pp (store_word (pt_of s d (unat (PDX va)), unat (PTX va)) (page2pa pp OR perm OR PTE_V) s0)"
      using run w t0 unfolding insert_step2_def s0_def[symmetric] by (simp add: pt_of_def)
    then show ?thesis using q(1) pt t0 by (auto simp: incr_ref_def store_word_def)
  next
    case False
    then have qf: "q \<notin> set fl" using q(2) by simp
    show ?thesis
    proof (cases rule: walk_create[OF inv0 fl0 d i, case_names nomem ok])
      case nomem
      with run t0 show ?thesis unfolding insert_step2_def s0_def[symmetric] by simp
    next
      case (ok s1 fl1)
      have "pt_of s1 d (unat (PDX va)) \<in> tables D s1" using ok(5) by (force simp: tables_def)
      then have pt: "pt_of s1 d (unat (PDX va)) \<noteq> q" using ok(13) q(1) qf t0 by auto
      have "s' = incr_ref pp (store_word (pt_of s1 d (unat (PDX va)), unat (PTX va)) (page2pa pp OR perm OR PTE_V) s1)"
        using run ok(1) unfolding insert_step2_def s0_def[symmetric] by simp
      then have "pmem s' q k = pmem s1 q k" using pt by (auto simp: incr_ref_def store_word_def)
      also have "\<dots> = pmem s0 q k" by (rule pgdir_walk_mem[OF ok(1) fl0 qf k])
      finally show ?thesis by (simp add: t0)
    qed
  qed
qed

text \<open>
  \<open>page_insert\<close> writes the directory entry, page tables and pages that were free, and nothing else;
  in particular no page that a user sees.
\<close>

lemma page_insert_mem:
  assumes inv: "pm_inv ext D s" and fl: "free_ok s fl" and d: "d \<in> D" and i: "unat (PDX va) < user_pdes"
    and run: "page_insert d asid pp va perm s = Ret (r, s')" and k: "(q, k) \<noteq> (d, unat (PDX va))"
    and q: "q \<notin> tables D s" "q \<notin> set fl"
  shows "pmem s' q k = pmem s q k"
proof (cases "aspace s d (vidx va)")
  case None
  have st: "pm_struct D s" using inv by (simp add: pm_inv_def)
  have "insert_step2 d asid pp va perm s = page_insert d asid pp va perm s"
    using i None by (auto simp: page_insert_def walk_noalloc[OF st d i] load_word_def aspace_def vidx_def split: if_splits)
  from insert_step2_mem[OF inv fl d i this[unfolded run] k q(1)] q(2) show ?thesis by simp
next
  case (Some w)
  have st: "pm_struct D s" using inv by (simp add: pm_inv_def)
  have v: "pte_valid (pmem s d (unat (PDX va)))" "pte_valid w"
    "w = pmem s (pt_of s d (unat (PDX va))) (unat (PTX va))"
    using Some by (auto simp: aspace_def vidx_def split: if_splits)
  then have di: "(d, unat (PDX va)) \<in> pdes D s" using d i by (simp add: pdes_def)
  then have pt: "pt_of s d (unat (PDX va)) \<in> tables D s" by (force simp: tables_def)
  obtain s1 fl1 where s1: "page_remove d asid va s = Ret s1" "pm_inv ext D s1" "free_ok s1 fl1"
    "tables D s1 = tables D s" "pdes D s1 = pdes D s" "\<forall>q. q \<notin> tables D s \<longrightarrow> pmem s1 q = pmem s q"
    by (rule page_remove_ok[OF inv fl d i, where asid = asid])
  have v1: "pte_valid (pmem s1 d (unat (PDX va)))" using di s1(5) by (auto simp: pdes_def set_eq_iff)
  have w: "pgdir_walk d va False s = Ret ((0, Some (pt_of s d (unat (PDX va)), unat (PTX va))), s)"
    using walk_noalloc[OF st d i] v(1) by simp
  from run consider "insert_step2 d asid pp va perm s1 = Ret (r, s')"
    | "s' = store_word (pt_of s d (unat (PDX va)), unat (PTX va)) (page2pa pp OR perm OR PTE_V) (tlb_invalidate asid va s)"
    using v s1(1) by (auto simp: page_insert_def w load_word_def res_simps split: if_splits)
  then show ?thesis
  proof cases
    case 1
    have "pmem s' q k = pmem s1 q k"
      by (rule insert_step2_mem[OF s1(2,3) d i 1 k]) (use q v1 s1(4) in auto)
    then show ?thesis using s1(6) q by simp
  next
    case 2
    then show ?thesis using pt q by (auto simp: store_word_def tlb_invalidate_def tlb_out_def)
  qed
qed


lemma page_insert_empty:
  assumes inv: "pm_inv ext D s" and d: "d \<in> D" and i: "unat (PDX va) < user_pdes"
    and run: "page_insert d asid pp va perm s = Ret (r, s')" and e: "LIST_EMPTY (page_free_list s)"
    and w: "\<And>w. aspace s d (vidx va) = Some w \<Longrightarrow> unat (PPN w) = pp"
  shows "page_free_list s' = page_free_list s"
proof -
  have st: "pm_struct D s" using inv by (simp add: pm_inv_def)
  let ?pt = "pt_of s d (unat (PDX va))"
  have step2: "page_free_list t = page_free_list s" if "insert_step2 d asid pp va perm s = Ret (r, t)" for t
    using that e by (auto simp: insert_step2_def pgdir_walk_def page_alloc_def res_simps Let_def
        load_word_def store_word_def incr_ref_def tlb_invalidate_def tlb_out_def split: if_splits)
  show ?thesis
  proof (cases "aspace s d (vidx va)")
    case None
    have "insert_step2 d asid pp va perm s = page_insert d asid pp va perm s"
      using i None by (auto simp: page_insert_def walk_noalloc[OF st d i] load_word_def aspace_def vidx_def split: if_splits)
    then show ?thesis using step2 run by simp
  next
    case (Some x)
    have v: "pte_valid (pmem s d (unat (PDX va)))" "pte_valid x" "x = pmem s ?pt (unat (PTX va))"
      using Some by (auto simp: aspace_def vidx_def split: if_splits)
    then show ?thesis
      using run w[OF Some] by (auto simp: page_insert_def walk_noalloc[OF st d i] load_word_def store_word_def
          pa2page_def tlb_invalidate_def tlb_out_def res_simps split: if_splits)
  qed
qed

end
