(* ===== verification/PmapLeak.thy ===== *)
theory PmapLeak
  imports PmapFrame
begin

text \<open>
  Pages that nobody can get back: \<open>lost_pages\<close> are those without a reference that are not on the free list. With the
  reference counts of \<open>pm_inv\<close> they determine the free list as a set. The operations of \<^verbatim>\<open>kern/pmap.c\<close> lose no
  page; this theory also shows which pages the loops of \<open>env_free\<close> write.
\<close>

section \<open>Lost pages\<close>

definition lost_pages :: "'a pm_scheme \<Rightarrow> nat set" where
  "lost_pages s = {p. p < npage s \<and> pp_ref s p = 0 \<and> \<not> page_is_free s p}"

lemma lost_pages_eq: "free_ok s fl \<Longrightarrow> lost_pages s = {p. p < npage s \<and> pp_ref s p = 0 \<and> p \<notin> set fl}"
  by (simp add: lost_pages_def page_is_free_iff)

lemma lost_same:
  "npage s' = npage s \<Longrightarrow> pp_ref s' = pp_ref s \<Longrightarrow> page_free_list s' = page_free_list s \<Longrightarrow> lost_pages s' = lost_pages s"
  by (simp add: lost_pages_def page_is_free_def)

lemma lost_simps [simp]:
  "lost_pages (tlb_invalidate a va s) = lost_pages s" "lost_pages (store_word l w s) = lost_pages s"
  by (rule lost_same; simp add: tlb_invalidate_def tlb_out_def store_word_def)+

lemma store_word_rest:
  "pp_ref (store_word l w s) = pp_ref s" "npage (store_word l w s) = npage s"
  by (simp_all add: store_word_def)

lemma free_ok_simps [simp]:
  "free_ok (tlb_invalidate a va s) fl = free_ok s fl" "free_ok (store_word l w s) fl = free_ok s fl"
  by (simp_all add: free_ok_def tlb_invalidate_def tlb_out_def store_word_def)

lemma lost_alloc:
  assumes "free_ok s (p # fl)" "free_ok s' fl" "npage s' = npage s" "pp_ref s' = pp_ref s" "p \<notin> set fl"
  shows "lost_pages s' = insert p (lost_pages s)"
proof -
  have p: "p < npage s" "pp_ref s p = 0" using assms(1) by (simp_all add: free_ok_def)
  have "q \<in> lost_pages s' \<longleftrightarrow> q < npage s \<and> pp_ref s q = 0 \<and> q \<notin> set fl" for q
    by (simp only: lost_pages_eq[OF assms(2)] mem_Collect_eq assms(3,4))
  moreover have "q \<in> lost_pages s \<longleftrightarrow> q < npage s \<and> pp_ref s q = 0 \<and> q \<noteq> p \<and> q \<notin> set fl" for q
    by (simp only: lost_pages_eq[OF assms(1)] mem_Collect_eq list.set insert_iff de_Morgan_disj)
  ultimately show ?thesis using p assms(5) by blast
qed

lemma lost_incr:
  assumes "free_ok s fl" "p \<notin> set fl" "pp_ref s p \<noteq> - 1"
  shows "lost_pages (incr_ref p s) = lost_pages s - {p}"
proof -
  have "free_ok (incr_ref p s) fl" using assms(1,2) by (auto simp: free_ok_def incr_ref_def)
  moreover have "pp_ref s p + 1 \<noteq> 0" using assms(3) by (simp add: add_eq_0_iff2)
  ultimately show ?thesis by (auto simp: lost_pages_eq[OF assms(1)] lost_pages_eq incr_ref_def)
qed

lemma lost_decref:
  assumes "page_decref p s = Ret s'" "free_ok s fl" "p < npage s"
  obtains fl' where "free_ok s' fl'" "lost_pages s' = lost_pages s" "npage s' = npage s" "pmem s' = pmem s"
proof -
  have r: "0 < unat (pp_ref s p)" using assms(1) by (auto simp: page_decref_def rassert_eq_Ret word_less_nat_alt)
  have z: "(pp_ref s p - 1 = 0) = (unat (pp_ref s p) = 1)" by (metis eq_iff_diff_eq_0 unat_1 word_unat_eq_iff)
  have nz: "pp_ref s p \<noteq> 0" using r by auto
  obtain t where t: "page_decref p s = Ret t" "pmem t = pmem s" "npage t = npage s" "pp_ref t = (pp_ref s)(p := pp_ref s p - 1)"
    "free_ok t (if unat (pp_ref s p) = 1 then p # fl else fl)" by (rule page_decref_ok[OF assms(2) r assms(3)])
  have "lost_pages t = lost_pages s"
    unfolding lost_pages_eq[OF assms(2)] lost_pages_eq[OF t(5)] t(3,4) using z nz by auto
  then show ?thesis using that[of "if unat (pp_ref s p) = 1 then p # fl else fl"] t assms(1) by simp
qed

section \<open>Page tables\<close>

lemma page_remove_lost:
  assumes "page_remove d asid va s = Ret s'" "free_ok s fl"
  obtains fl' where "free_ok s' fl'" "lost_pages s' = lost_pages s" "npage s' = npage s"
    "\<forall>q. q \<noteq> pt_of s d (unat (PDX va)) \<longrightarrow> pmem s' q = pmem s q"
proof (cases "page_lookup d va s")
  case (Ret x)
  obtain f s0 where x: "x = (f, s0)" by (cases x)
  have s0: "s0 = s" and f: "\<And>p l. f = Some (p, l) \<Longrightarrow> p < npage s \<and> fst l = pt_of s d (unat (PDX va))"
    using Ret unfolding x page_lookup_def pgdir_walk_def
    by (auto simp: res_simps Let_def pa2page_def KADDR_def load_word_def pt_of_def split: if_splits option.splits)
  show ?thesis
  proof (cases f)
    case None
    then show ?thesis using assms that Ret x s0 by (simp add: page_remove_def)
  next
    case (Some y)
    obtain p l where y: "f = Some (p, l)" using Some by (cases y) auto
    obtain s1 where s1: "page_decref p s = Ret s1" and s': "s' = tlb_invalidate asid va (store_word l 0 s1)"
      using assms(1) Ret x s0 y by (auto simp: page_remove_def Let_def)
    obtain fl' where "free_ok s1 fl'" "lost_pages s1 = lost_pages s" "npage s1 = npage s" "pmem s1 = pmem s"
      by (rule lost_decref[OF s1 assms(2)]) (use f[OF y] in simp)
    then show ?thesis using f[OF y] by (intro that[of fl']) (simp_all add: s' store_word_rest, simp add: store_word_def)
  qed
qed (use assms in \<open>simp_all add: page_remove_def\<close>)

lemma walk_create_lost:
  assumes "pgdir_walk d va True s = Ret ((r, l), s')" "free_ok s fl"
  obtains fl' where "free_ok s' fl'" "lost_pages s' = lost_pages s" "set fl' \<subseteq> set fl" "npage s' = npage s"
    "\<forall>q. q \<notin> set fl \<longrightarrow> pp_ref s' q = pp_ref s q"
proof (cases "pte_valid (load_word s (d, unat (PDX va)))")
  case True
  then have "s' = s" using assms(1) by (auto simp: pgdir_walk_def res_simps Let_def)
  then show ?thesis using that assms(2) by simp
next
  case False
  show ?thesis
  proof (cases fl)
    case Nil
    then have "page_alloc s = Ret ((- E_NO_MEM, None), s)" using page_alloc_none assms(2) by simp
    then have "s' = s" using assms(1) False by (auto simp: pgdir_walk_def res_simps Let_def)
    then show ?thesis using that assms(2) by simp
  next
    case (Cons p fs)
    have fo: "free_ok s (p # fs)" using assms(2) Cons by simp
    then have rep: "list_rep (page_free_list s) (p # fs)" by (simp add: free_ok_def)
    then have "\<not> LIST_EMPTY (page_free_list s)" by (simp add: list_rep_empty)
    from ll.pop[OF rep this] obtain q' where q': "LIST_FIRST (page_free_list s) = Some p" "LIST_REMOVE p (page_free_list s) = Ret q'"
      "list_rep q' fs" "p \<notin> set fs" by blast
    let ?s = "s\<lparr>page_free_list := q', pmem := (pmem s)(p := (\<lambda>_. 0))\<rparr>"
    have pa: "page_alloc s = Ret ((0, Some p), ?s)" if "page_alloc s = Ret x" for x
      using that q' \<open>\<not> LIST_EMPTY (page_free_list s)\<close> by (auto simp: page_alloc_def res_simps)
    obtain x where x: "page_alloc s = Ret x" using assms(1) False by (auto simp: pgdir_walk_def res_simps Let_def)
    have s': "s' = incr_ref p (store_word (d, unat (PDX va)) (load_word (store_word (d, unat (PDX va)) (page2pa p) ?s) (d, unat (PDX va)) OR PTE_D OR PTE_V)
        (store_word (d, unat (PDX va)) (page2pa p) ?s))"
      using assms(1) False pa[OF x] by (auto simp: pgdir_walk_def res_simps Let_def)
    have f: "free_ok ?s fs" using fo q'(3) by (simp add: free_ok_def)
    have z: "pp_ref s p = 0" "p < npage s" using fo by (simp_all add: free_ok_def)
    have "free_ok s' fs" using f q'(4) unfolding s' by (auto simp: free_ok_def incr_ref_def store_word_def)
    moreover have "lost_pages s' = lost_pages ?s - {p}"
      unfolding s' by (subst lost_incr[where fl = fs]) (use f q'(4) z in \<open>simp_all add: store_word_rest\<close>)
    moreover have "lost_pages ?s = insert p (lost_pages s)" by (rule lost_alloc[OF fo f]) (use q'(4) in simp_all)
    moreover have "p \<notin> lost_pages s" by (simp add: lost_pages_eq[OF fo])
    ultimately show ?thesis using Cons by (intro that[of fs]) (auto simp: s' incr_ref_def store_word_def)
  qed
qed

lemma insert_step2_lost:
  assumes "insert_step2 d asid pp va perm s = Ret (r, s')" "free_ok s fl" "pp \<notin> set fl" "pp_ref s pp \<noteq> - 1"
  shows "lost_pages s' = (if r = 0 then lost_pages s - {pp} else lost_pages s)"
proof -
  obtain r1 l s1 where w: "pgdir_walk d va True (tlb_invalidate asid va s) = Ret ((r1, l), s1)"
    using assms(1) by (auto simp: insert_step2_def)
  have "free_ok (tlb_invalidate asid va s) fl" using assms(2) by simp
  from walk_create_lost[OF w this] obtain fl' where fl': "free_ok s1 fl'" "lost_pages s1 = lost_pages s" "set fl' \<subseteq> set fl"
    "pp_ref s1 pp = pp_ref s pp" using assms(3) by (metis lost_simps(1) tlb_invalidate_simps(3))
  show ?thesis
  proof (cases "r1 = - E_NO_MEM")
    case True
    then show ?thesis using assms(1) w fl'(2) by (auto simp: insert_step2_def)
  next
    case False
    then obtain l' where "r = 0" "s' = incr_ref pp (store_word l' (page2pa pp OR perm OR PTE_V) s1)"
      using assms(1) w by (auto simp: insert_step2_def split: option.splits)
    moreover have "lost_pages (incr_ref pp (store_word l' (page2pa pp OR perm OR PTE_V) s1)) = lost_pages s1 - {pp}"
      by (subst lost_incr[where fl = fl']) (use fl' assms(3,4) in \<open>auto simp: store_word_rest\<close>)
    ultimately show ?thesis using fl'(2) by simp
  qed
qed

lemma page_insert_lost:
  assumes inv: "pm_inv ext D s" and d: "d \<in> D" and i: "unat (PDX va) < user_pdes" and can: "can_insert D s (pp, perm)"
    and run: "page_insert d asid pp va perm s = Ret (r, s')"
  shows "lost_pages s' = (if r = 0 then lost_pages s - {pp} else lost_pages s)"
proof -
  obtain fl where fl: "free_ok s fl" using inv by (auto simp: pm_inv_def)
  have st: "pm_struct D s" using inv by (simp add: pm_inv_def)
  have c: "pp \<notin> set fl" "unat (pp_ref s pp) < 65535" using can by (simp_all add: can_insert_def page_is_free_iff[OF fl])
  have m1: "pp_ref s pp \<noteq> - 1"
  proof
    assume "pp_ref s pp = - 1"
    then have "unat (pp_ref s pp) = 65535" by (simp add: unsigned_minus_1_eq_mask mask_eq_exp_minus_1)
    with c(2) show False by simp
  qed
  show ?thesis
  proof (cases "aspace s d (vidx va)")
    case None
    have "insert_step2 d asid pp va perm s = Ret (r, s')"
      using i None run by (auto simp: page_insert_def walk_noalloc[OF st d i] load_word_def aspace_def vidx_def split: if_splits)
    then show ?thesis by (rule insert_step2_lost[OF _ fl c(1) m1])
  next
    case (Some w)
    have v: "pte_valid (pmem s d (unat (PDX va)))" "pte_valid w" "w = pmem s (pt_of s d (unat (PDX va))) (unat (PTX va))"
      and x: "(d, unat (PDX va), unat (PTX va)) \<in> ptes D s" and tw: "tgt s (d, unat (PDX va), unat (PTX va)) = unat (PPN w)"
      using Some by (auto simp: vidx_def aspace_Some_iff[OF d] ptes_def pdes_def tgt_def)
    note pos = ptes_ref_pos[OF inv x, unfolded tw]
    show ?thesis
    proof (cases "unat (PPN w) = pp")
      case True
      then have "r = 0" "s' = store_word (pt_of s d (unat (PDX va)), unat (PTX va)) (page2pa pp OR perm OR PTE_V) (tlb_invalidate asid va s)"
        using run v by (auto simp: page_insert_def walk_noalloc[OF st d i] load_word_def pa2page_def res_simps split: if_splits)
      moreover have "pp \<notin> lost_pages s" using pos True by (auto simp: lost_pages_def)
      ultimately show ?thesis by simp
    next
      case False
      obtain s1 fl1 where s1: "page_remove d asid va s = Ret s1" "free_ok s1 fl1" "npage s1 = npage s"
        "fl1 = (case aspace s d (vidx va) of None \<Rightarrow> fl | Some w \<Rightarrow>
           if unat (pp_ref s (unat (PPN w))) = 1 then unat (PPN w) # fl else fl)"
        "pp_ref s1 = (case aspace s d (vidx va) of None \<Rightarrow> pp_ref s | Some w \<Rightarrow>
           (pp_ref s)(unat (PPN w) := pp_ref s (unat (PPN w)) - 1))"
        by (rule page_remove_ok[OF inv fl d i, where asid = asid])
      have l1: "lost_pages s1 = lost_pages s" using page_remove_lost[OF s1(1) fl] by metis
      have "insert_step2 d asid pp va perm s1 = Ret (r, s')"
        using run v s1(1) False by (auto simp: page_insert_def walk_noalloc[OF st d i] load_word_def pa2page_def res_simps split: if_splits)
      then show ?thesis using insert_step2_lost[OF _ s1(2)] s1(4,5) Some c(1) m1 False l1 by auto
    qed
  qed
qed

section \<open>The loops of env\_free\<close>

lemma free_ptes_lost:
  assumes "free_ptes js d asid i pt s = Ret s'" "free_ok s fl" "pt = pt_of s d i" "d \<noteq> pt" "i < 1024" "set js \<subseteq> {..<1024}"
  obtains fl' where "free_ok s' fl'" "lost_pages s' = lost_pages s" "npage s' = npage s" "\<forall>q. q \<noteq> pt \<longrightarrow> pmem s' q = pmem s q"
  using assms
proof (induction js arbitrary: s fl thesis)
  case Nil
  then show ?case by simp
next
  case (Cons j js)
  let ?va = "push_bit 22 (of_nat i) OR push_bit 12 (of_nat j) :: u32"
  have j: "j < 1024" using Cons.prems(7) by simp
  note va = va_of_idx[OF Cons.prems(6) j]
  obtain s1 where s1: "(if pte_valid (load_word s (pt, j)) then page_remove d asid ?va s else Ret s) = Ret s1"
    "free_ptes js d asid i pt s1 = Ret s'" using Cons.prems(2) by auto
  obtain fl1 where f1: "free_ok s1 fl1" "lost_pages s1 = lost_pages s" "npage s1 = npage s" "\<forall>q. q \<noteq> pt \<longrightarrow> pmem s1 q = pmem s q"
  proof (cases "pte_valid (load_word s (pt, j))")
    case True
    then have "page_remove d asid ?va s = Ret s1" using s1(1) by simp
    from page_remove_lost[OF this Cons.prems(3)] show ?thesis using that va Cons.prems(4) by metis
  next
    case False
    then show ?thesis using that s1(1) Cons.prems(3) by simp
  qed
  have "pt = pt_of s1 d i" using f1(4) Cons.prems(4,5) by (simp add: pt_of_def)
  from Cons.IH[OF _ s1(2) f1(1) this Cons.prems(5,6)] Cons.prems(7) obtain fl2 where
    "free_ok s' fl2" "lost_pages s' = lost_pages s1" "npage s' = npage s1" "\<forall>q. q \<noteq> pt \<longrightarrow> pmem s' q = pmem s1 q" by auto
  then show ?case using Cons.prems(1) f1 by simp
qed

lemma free_table_lost:
  assumes "free_table d asid i s = Ret s'" "free_ok s fl" "i < 1024" "pte_valid (pmem s d i) \<Longrightarrow> d \<noteq> pt_of s d i"
  obtains fl' where "free_ok s' fl'" "lost_pages s' = lost_pages s" "npage s' = npage s"
    "\<forall>q. q \<noteq> d \<longrightarrow> (pte_valid (pmem s d i) \<longrightarrow> q \<noteq> pt_of s d i) \<longrightarrow> pmem s' q = pmem s q"
    "\<forall>k. k \<noteq> i \<longrightarrow> pmem s' d k = pmem s d k"
proof (cases "pte_valid (pmem s d i)")
  case False
  then have "s' = s" using assms(1) by (simp add: free_table_def load_word_def)
  then show ?thesis using that assms(2) by simp
next
  case True
  let ?t = "pt_of s d i"
  have k: "unat (PTX (NOT 0)) + 1 = 1024" by code_simp
  obtain s1 where s1: "free_ptes [0..<1024] d asid i ?t s = Ret s1"
    and r: "rbind (pa2page (npage s1) (PTE_ADDR (pmem s d i))) (\<lambda>pp. rbind (page_decref pp (store_word (d, i) 0 s1)) (\<lambda>s.
      Ret (tlb_invalidate asid (UVPT + push_bit 12 (of_nat i)) s))) = Ret s'"
    using assms(1) True unfolding free_table_def k Let_def load_word_def by (auto simp: res_simps pt_of_def store_word_def)
  have dt: "d \<noteq> ?t" by (rule assms(4)[OF True])
  obtain fl1 where f1: "free_ok s1 fl1" "lost_pages s1 = lost_pages s" "npage s1 = npage s" "\<forall>q. q \<noteq> ?t \<longrightarrow> pmem s1 q = pmem s q"
    by (rule free_ptes_lost[OF s1 assms(2) refl dt assms(3)]) auto
  obtain pp s2 where s2: "pa2page (npage s1) (PTE_ADDR (pmem s d i)) = Ret pp" "page_decref pp (store_word (d, i) 0 s1) = Ret s2"
    "s' = tlb_invalidate asid (UVPT + push_bit 12 (of_nat i)) s2" using r by (auto simp: res_simps simp del: rbind_simps)
  have "pp < npage (store_word (d, i) 0 s1)" using s2(1) by (auto simp: pa2page_def store_word_def split: if_splits)
  from lost_decref[OF s2(2) _ this] f1(1) obtain fl2 where "free_ok s2 fl2" "lost_pages s2 = lost_pages s1" "npage s2 = npage s1"
    "pmem s2 = pmem (store_word (d, i) 0 s1)" by (simp only: free_ok_simps lost_simps store_word_rest) blast
  then show ?thesis using f1 dt True by (intro that[of fl2]) (auto simp: s2(3) store_word_def)
qed

text \<open>The tables of a directory are the only pages that freeing its user part writes.\<close>

lemma free_tables_lost:
  assumes "free_tables ns d asid s = Ret s'" "free_ok s fl" "set ns \<subseteq> {..<1024}" "distinct ns"
    "\<forall>i \<in> set ns. pte_valid (pmem s d i) \<longrightarrow> d \<noteq> pt_of s d i"
  obtains fl' where "free_ok s' fl'" "lost_pages s' = lost_pages s" "npage s' = npage s"
    "\<forall>q. q \<noteq> d \<longrightarrow> (\<forall>i \<in> set ns. pte_valid (pmem s d i) \<longrightarrow> q \<noteq> pt_of s d i) \<longrightarrow> pmem s' q = pmem s q"
  using assms
proof (induction ns arbitrary: s fl thesis)
  case Nil
  then show ?case by simp
next
  case (Cons i ns)
  obtain s1 where s1: "free_table d asid i s = Ret s1" "free_tables ns d asid s1 = Ret s'" using Cons.prems(2) by auto
  obtain fl1 where f1: "free_ok s1 fl1" "lost_pages s1 = lost_pages s" "npage s1 = npage s"
    "\<forall>q. q \<noteq> d \<longrightarrow> (pte_valid (pmem s d i) \<longrightarrow> q \<noteq> pt_of s d i) \<longrightarrow> pmem s1 q = pmem s q"
    "\<forall>k. k \<noteq> i \<longrightarrow> pmem s1 d k = pmem s d k"
    by (rule free_table_lost[OF s1(1) Cons.prems(3)]) (use Cons.prems(4,6) in auto)
  have same: "pmem s1 d k = pmem s d k" "pt_of s1 d k = pt_of s d k" if "k \<in> set ns" for k
    using that Cons.prems(5) f1(5) by (auto simp: pt_of_def)
  obtain fl2 where f2: "free_ok s' fl2" "lost_pages s' = lost_pages s1" "npage s' = npage s1"
    "\<forall>q. q \<noteq> d \<longrightarrow> (\<forall>i \<in> set ns. pte_valid (pmem s1 d i) \<longrightarrow> q \<noteq> pt_of s1 d i) \<longrightarrow> pmem s' q = pmem s1 q"
    by (rule Cons.IH[OF _ s1(2) f1(1)]) (use Cons.prems(4-6) same in auto)
  have "\<forall>q. q \<noteq> d \<longrightarrow> (\<forall>k \<in> set (i # ns). pte_valid (pmem s d k) \<longrightarrow> q \<noteq> pt_of s d k) \<longrightarrow> pmem s' q = pmem s q"
    using f2(4) f1(4) same by simp
  then show ?case using Cons.prems(1)[OF f2(1)] f1(2,3) f2(2,3) by simp
qed

end
