(* ===== verification/SyscallProps.thy ===== *)
theory SyscallProps
  imports Syscall PmapLeak
begin

text \<open>
  What the system calls promise: the effect of each on the address spaces, the environments and the
  scheduler's queue, what it leaves alone and which pages it loses, and that each keeps the invariant of the kernel.
\<close>

section \<open>Kernel-level page operations\<close>

lemma live_dir: "e \<in> live s \<Longrightarrow> env_pgdir (envs s e) \<in> dir_of s ` live s"
  by (simp add: dir_of_def)

lemma tgt_aspace:
  "d \<in> D \<Longrightarrow> aspace s d (vidx va) = Some w \<Longrightarrow> unat (PPN w) \<in> tgt s ` ptes D s"
  by (auto simp: vidx_def aspace_Some_iff[of d D] tgt_def image_iff intro!: bexI[of _ "(d, unat (PDX va), unat (PTX va))"])

lemma kern_insert:
  assumes inv: "kern_inv ext s" and e: "e \<in> live s" and va: "va < UTOP"
    and can: "can_insert (dir_of s ` live s) s (pp, perm)"
  obtains r s' where "page_insert (env_pgdir (envs s e)) asid pp va perm s = Ret (r, s')"
    "kern_inv ext s'" "pm.more s' = pm.more s" "npage s' = npage s" "r = 0 \<or> r = - E_NO_MEM"
    "\<forall>d \<in> dir_of s ` live s. aspace s' d = (if d = env_pgdir (envs s e) \<and> r = 0
        then (aspace s d)(vidx va \<mapsto> page2pa pp OR perm OR PTE_V) else aspace s d)"
    "pp \<notin> tgt s ` ptes (dir_of s ` live s) s \<longrightarrow> pmem s' pp = pmem s pp"
    "r = - E_NO_MEM \<longrightarrow> LIST_EMPTY (page_free_list s)"
proof -
  let ?D = "dir_of s ` live s" and ?d = "env_pgdir (envs s e)"
  obtain pfl where I: "pm_inv ext ?D s" "free_ok s pfl" by (rule kern_inv_exts[OF inv])
  have d: "?d \<in> ?D" using e by (rule live_dir)
  have i: "unat (PDX va) < user_pdes" using PDX_UTOP[OF va] by (simp add: user_pdes_def)
  have c: "perm < 4096" "pp < npage s" "pp \<notin> ?D" "pp \<notin> tables ?D s" "pp \<notin> set pfl" "unat (pp_ref s pp) < 65535"
    using can by (simp_all add: can_insert_def page_is_free_iff[OF I(2)])
  show ?thesis
  proof (cases rule: page_insert_ok[OF I d i c, where asid = asid, case_names nomem ok])
    case (nomem s')
    have m: "pm.more s' = pm.more s" "npage s' = npage s" "pmem s' = pmem s" using nomem(5) by simp_all
    have "kern_inv ext s'" by (rule kern_inv_pm[OF inv m(1) nomem(2) m(2)])
    then show ?thesis
      using that[OF nomem(1) _ m(1,2)] aspace_same[OF m(3)] m(3) nomem(3) LIST_EMPTY_free_ok[OF I(2)] by simp
  next
    case (ok s')
    have k: "kern_inv ext s'" by (rule kern_inv_pm[OF inv ok(5,2,4)])
    have p: "pp \<notin> tgt s ` ptes ?D s \<longrightarrow> pmem s' pp = pmem s pp"
      using ok(7) c(3-5) tgt_aspace[OF d] by blast
    show ?thesis using that[OF ok(1) k ok(5,4)] ok(3) p by simp
  qed
qed

lemma kern_alloc:
  assumes inv: "kern_inv ext s" and perm: "perm < 4096" and ne: "\<not> LIST_EMPTY (page_free_list s)"
  obtains p s' where "page_alloc s = Ret ((0, Some p), s')" "kern_inv ext s'" "pm.more s' = pm.more s"
    "npage s' = npage s" "page_is_free s p" "pmem s' p = (\<lambda>_. 0)"
    "can_insert (dir_of s ` live s) s' (p, perm)" "p \<notin> tgt s' ` ptes (dir_of s ` live s) s'"
    "\<forall>d \<in> dir_of s ` live s. aspace s' d = aspace s d"
proof -
  let ?D = "dir_of s ` live s"
  obtain pfl where I: "pm_inv ext ?D s" "free_ok s pfl" by (rule kern_inv_exts[OF inv])
  then obtain p fl where pf: "pfl = p # fl" using ne LIST_EMPTY_free_ok[OF I(2)] by (cases pfl) auto
  obtain s' where s': "page_alloc s = Ret ((0, Some p), s')" "pm_inv ext ?D s'" "free_ok s' fl"
    "pmem s' = (pmem s)(p := (\<lambda>_. 0))" "npage s' = npage s" "pp_ref s' = pp_ref s" "pm.more s' = pm.more s"
    "p \<notin> set fl" "tables ?D s' = tables ?D s" "tgt s' ` ptes ?D s' = tgt s ` ptes ?D s"
    "\<forall>d \<in> ?D. aspace s' d = aspace s d"
    by (rule page_alloc_some[OF I(1) I(2)[unfolded pf]])
  have pr: "p < npage s" "pp_ref s p = 0" using I(2) pf by (simp_all add: free_ok_def)
  have nr: "p \<notin> ?D" "p \<notin> tables ?D s" "p \<notin> tgt s ` ptes ?D s" using count_ok_free[OF I, of p] pf by auto
  have "can_insert ?D s' (p, perm)"
    using pr nr s' perm page_is_free_iff[OF s'(3)] by (simp add: can_insert_def)
  moreover have "kern_inv ext s'" by (rule kern_inv_pm[OF inv s'(7,2,5)])
  ultimately show ?thesis
    using that[OF s'(1) _ s'(7,5)] s'(4,10,11) nr(3) page_is_free_iff[OF I(2)] pf by simp
qed

lemma kern_inv_more_D:
  assumes "pm.more s' = pm.more (s :: kern)"
  shows "dir_of s' = dir_of s" "live s' = live s" "envs s' = envs s" "curenv s' = curenv s"
  using pm_more_fields[OF assms] by (simp_all add: dir_of_def live_def fun_eq_iff)

section \<open>Whom a call may act on\<close>

text \<open>
  The environment that an identifier names (0 names the running one), and whether the running environment may change it: it
  must be itself or a child of it.
\<close>

definition env_named :: "kern \<Rightarrow> u32 \<Rightarrow> nat option" where
  "env_named s envid = (if envid = 0 then curenv s
     else if ENVX envid \<in> live s \<and> env_id (envs s (ENVX envid)) = envid then Some (ENVX envid) else None)"

definition env_target :: "kern \<Rightarrow> u32 \<Rightarrow> nat option" where
  "env_target s envid = (case env_named s envid of None \<Rightarrow> None
     | Some e \<Rightarrow> (case curenv s of None \<Rightarrow> None
       | Some c \<Rightarrow> if e = c \<or> env_parent_id (envs s e) = env_id (envs s c) then Some e else None))"

lemma ENVX_lt: "ENVX envid < NENV"
proof -
  have "unat (envid AND 0x3FF) \<le> unat (0x3FF :: u32)" by (metis word_and_le1 word_le_nat_alt)
  then show ?thesis by (simp add: ENVX_def)
qed

lemma ENVX_live: "ENVX envid \<in> live s \<longleftrightarrow> env_status (envs s (ENVX envid)) \<noteq> ENV_FREE"
  using ENVX_lt by (simp add: live_def)

lemma env_named_ok:
  assumes "curenv s = Some c"
  shows "envid2env envid False s = Ret (case env_named s envid of None \<Rightarrow> (- E_BAD_ENV, None) | Some e \<Rightarrow> (0, Some e))"
  using assms by (auto simp: envid2env_def env_named_def ENVX_live Let_def)

lemma env_target_ok:
  assumes "curenv s = Some c"
  shows "envid2env envid True s = Ret (case env_target s envid of None \<Rightarrow> (- E_BAD_ENV, None) | Some e \<Rightarrow> (0, Some e))"
  using assms by (auto simp: envid2env_def env_target_def env_named_def ENVX_live Let_def)

lemma env_named_live: "env_named s envid = Some e \<Longrightarrow> curenv s = Some c \<Longrightarrow> c \<in> live s \<Longrightarrow> e \<in> live s"
  by (auto simp: env_named_def split: if_splits)

lemma env_target_named: "env_target s envid = Some e \<Longrightarrow> env_named s envid = Some e"
  by (auto simp: env_target_def split: option.splits if_splits)

lemma with_target:
  assumes "curenv s = Some c"
  shows "with_env envid True s k = (case env_target s envid of None \<Rightarrow> Ret (Back (- E_BAD_ENV), s) | Some e \<Rightarrow> k e)"
    "with_env envid False s k = (case env_named s envid of None \<Rightarrow> Ret (Back (- E_BAD_ENV), s) | Some e \<Rightarrow> k e)"
  by (simp_all add: with_env_def env_target_ok[OF assms] env_named_ok[OF assms] split: option.splits)

section \<open>What no call disturbs\<close>

text \<open>
  All of the kernel's state outside physical memory, the contents of every page that was mapped, and TLB entries other
  than those removed.
\<close>

definition calm :: "kern \<Rightarrow> kern \<Rightarrow> bool" where
  "calm s s' \<longleftrightarrow> pm.more s' = pm.more s \<and> npage s' = npage s \<and>
     (\<forall>x \<in> live s. \<forall>i w. aspace s (dir_of s x) i = Some w \<longrightarrow> pmem s' (unat (PPN w)) = pmem s (unat (PPN w))) \<and>
     (\<forall>hi lo. tlb s' hi = Some lo \<longrightarrow> tlb s hi = Some lo)"

lemma calm_refl: "calm s s" by (simp add: calm_def)

lemma tlb_invalidate_sub: "tlb (tlb_invalidate a va s) hi = Some lo \<Longrightarrow> tlb s hi = Some lo"
  by (auto simp: tlb_invalidate_def tlb_out_def split: option.splits if_splits)

lemma aspace_tgt: "d \<in> D \<Longrightarrow> aspace s d i = Some w \<Longrightarrow> unat (PPN w) \<in> tgt s ` ptes D s"
  by (cases i) (auto simp: aspace_Some_iff[of d D] tgt_def image_iff intro!: bexI[of _ "(d, fst i, snd i)"])

lemma LIST_EMPTY_no_free: "kern_inv ext s \<Longrightarrow> LIST_EMPTY (page_free_list s) \<longleftrightarrow> (\<forall>q. \<not> page_is_free s q)"
  by (erule kern_inv_exts) (auto simp: LIST_EMPTY_free_ok page_is_free_iff)

text \<open>\<open>page_insert\<close> for a live environment: result, address spaces, lost pages and what stays.\<close>

lemma kern_insert_full:
  assumes inv: "kern_inv ext s" and e: "e \<in> live s" and va: "va < UTOP"
    and can: "can_insert (dir_of s ` live s) s (pp, perm)"
  obtains r s' where "page_insert (env_pgdir (envs s e)) asid pp va perm s = Ret (r, s')" "kern_inv ext s'" "calm s s'"
    "r = (if \<not> pte_valid (pmem s (dir_of s e) (unat (PDX va))) \<and> (\<forall>q. \<not> page_is_free s q) then - E_NO_MEM else 0)"
    "\<forall>x \<in> live s. aspace s' (dir_of s x) = (if x = e \<and> r = 0
        then (aspace s (dir_of s x))(vidx va \<mapsto> page2pa pp OR perm OR PTE_V) else aspace s (dir_of s x))"
    "lost_pages s' = (if r = 0 then lost_pages s - {pp} else lost_pages s)" "pmem s' pp = pmem s pp"
proof -
  let ?D = "dir_of s ` live s" and ?d = "env_pgdir (envs s e)"
  obtain pfl where I: "pm_inv ext ?D s" "free_ok s pfl" "inj_on (dir_of s) (live s)" "pm_struct ?D s" by (rule kern_inv_exts[OF inv])
  have d: "?d \<in> ?D" using e by (rule live_dir)
  have i: "unat (PDX va) < user_pdes" using PDX_UTOP[OF va] by (simp add: user_pdes_def)
  have c: "perm < 4096" "pp < npage s" "pp \<notin> ?D" "pp \<notin> tables ?D s" "pp \<notin> set pfl" "unat (pp_ref s pp) < 65535"
    using can by (simp_all add: can_insert_def page_is_free_iff[OF I(2)])
  obtain r s' where s': "page_insert ?d asid pp va perm s = Ret (r, s')" "kern_inv ext s'" "pm.more s' = pm.more s" "npage s' = npage s"
    "r = 0 \<or> r = - E_NO_MEM"
    "\<forall>d \<in> ?D. aspace s' d = (if d = ?d \<and> r = 0 then (aspace s d)(vidx va \<mapsto> page2pa pp OR perm OR PTE_V) else aspace s d)"
    by (rule kern_insert[OF inv e va can, where asid = asid])
  note em = LIST_EMPTY_no_free[OF inv]
  have r: "r = (if \<not> pte_valid (pmem s ?d (unat (PDX va))) \<and> (\<forall>q. \<not> page_is_free s q) then - E_NO_MEM else 0)"
  proof (cases rule: page_insert_ok[OF I(1,2) d i c, where asid = asid, case_names nomem ok])
    case nomem
    then show ?thesis using s'(1) LIST_EMPTY_free_ok[OF I(2)] em by simp
  next
    case ok
    then have "\<not> (\<not> pte_valid (pmem s ?d (unat (PDX va))) \<and> LIST_EMPTY (page_free_list s))"
      using page_insert_nomem[of s ?d va asid pp perm] by auto
    with ok(1) s'(1) em show ?thesis by simp
  qed
  have tl: "tlb s' hi = Some lo \<Longrightarrow> tlb s hi = Some lo" for hi lo
    by (cases rule: page_insert_ok[OF I(1,2) d i c, where asid = asid, case_names nomem ok])
      (use s'(1) in \<open>auto dest: tlb_invalidate_sub\<close>)
  note frame = page_insert_mem[OF I(1,2) d i s'(1)]
  have mem: "pmem s' q = pmem s q" if "q \<notin> ?D" "q \<notin> tables ?D s" "q \<notin> set pfl" for q
    using frame[of q] that d by (intro HOL.ext) auto
  have tg: "pmem s' (unat (PPN w)) = pmem s (unat (PPN w))" if "x \<in> live s" "aspace s (dir_of s x) j = Some w" for x j w
  proof -
    have t: "unat (PPN w) \<in> tgt s ` ptes ?D s" by (rule aspace_tgt[OF _ that(2)]) (use that(1) in simp)
    then have "unat (PPN w) \<notin> ?D" "unat (PPN w) \<notin> tables ?D s" using I(4) by (auto simp: pm_struct_def)
    moreover have "unat (PPN w) \<notin> set pfl" using t count_ok_free(4)[OF I(1,2)] by blast
    ultimately show ?thesis by (rule mem)
  qed
  have "calm s s'" unfolding calm_def using s'(3,4) tg tl by blast
  moreover have "aspace s' (dir_of s x) = (if x = e \<and> r = 0 then (aspace s (dir_of s x))(vidx va \<mapsto> page2pa pp OR perm OR PTE_V)
      else aspace s (dir_of s x))" if "x \<in> live s" for x
    using s'(6) that e inj_onD[OF I(3), of x e] by (auto simp: dir_of_def)
  moreover have "pmem s' pp = pmem s pp" by (rule mem) (use c in simp_all)
  ultimately show ?thesis using that[OF s'(1,2)] r page_insert_lost[OF I(1) d i can s'(1)] by (simp add: dir_of_def)
qed

section \<open>A concrete kernel\<close>

text \<open>
  Eight pages, 1 and 2 of them free. Environment 0 runs, with directory 0; its child 1, with
  directory 5, waits for a message; all others are free.
\<close>

definition empty_tf :: trapframe where
  "empty_tf = \<lparr>regs = (\<lambda>_. 0), cp0_status = 0, tf_hi = 0, tf_lo = 0, cp0_badvaddr = 0, cp0_cause = 0, cp0_epc = 0\<rparr>"

definition demo_env :: "u32 \<Rightarrow> u32 \<Rightarrow> u32 \<Rightarrow> u32 \<Rightarrow> nat \<Rightarrow> u32 \<Rightarrow> env" where
  "demo_env i a p st d rc = \<lparr>env_tf = empty_tf, env_id = i, env_asid = a, env_parent_id = p, env_status = st,
     env_pgdir = d, env_pri = 1, env_ipc_value = 0, env_ipc_from = 0, env_ipc_recving = rc, env_ipc_dstva = 0,
     env_ipc_perm = 0, env_user_tlb_mod_entry = 0, env_runs = 0\<rparr>"

definition demo_free_envs :: "nat list" where
  "demo_free_envs = [2..<1024]"

definition demo_env_list :: "nat llist" where
  "demo_env_list = fold LIST_INSERT_HEAD (rev demo_free_envs)
     \<lparr>lh_first = None, le_next = (\<lambda>_. None), le_prev = (\<lambda>_. SNull)\<rparr>"

definition demo_kern :: kern where
  "demo_kern = \<lparr>memsize = 32768, npage = 8, freemem = ULIM, pages_base = ULIM,
     pp_ref = (\<lambda>_. 0)(0 := 1, 5 := 1),
     page_free_list = fold LIST_INSERT_HEAD [1, 2] \<lparr>lh_first = None, le_next = (\<lambda>_. None), le_prev = (\<lambda>_. SNull)\<rparr>,
     pmem = (\<lambda>_ _. 0), tlb = Map.empty,
     envs = (\<lambda>_. demo_env 0 0 0 0 0 0)(0 := demo_env 2048 0 0 1 0 0, 1 := demo_env 4097 1 2048 2 5 1),
     curenv = Some 0,
     env_free_list = demo_env_list,
     env_sched_list = TAILQ_INSERT_HEAD 0 \<lparr>tqh_first = None, tqh_last = SHead, tqe_next = (\<lambda>_. None), tqe_prev = (\<lambda>_. SNull)\<rparr>,
     base_pgdir = 7, asid_bitmap = (\<lambda>_. 0)(0 := 3), mkenvid_i = 2, sched_count = 1, cur_pgdir = 0,
     kstack_tf = empty_tf, cpu_tf = empty_tf, cpu_entryhi = 0, console = [],
     shv = \<lparr>shell_num = 1, env_value_num = 0,
       env_value = (\<lambda>_. \<lparr>ev_name = [], ev_value = [], ev_shell_id = 0, ev_mood = 0, ev_valid = False\<rparr>), cur_path = []\<rparr>\<rparr>"

lemma empty_list_rep: "list_rep \<lparr>lh_first = None, le_next = (\<lambda>_. None :: nat option), le_prev = (\<lambda>_. SNull)\<rparr> []"
  by (simp add: list_rep_def)

lemma demo_envs [simp]:
  "envs demo_kern 0 = demo_env 2048 0 0 1 0 0" "envs demo_kern 1 = demo_env 4097 1 2048 2 5 1"
  "envs demo_kern (Suc 0) = demo_env 4097 1 2048 2 5 1"
  "curenv demo_kern = Some 0"
  by (simp_all add: demo_kern_def)

lemma demo_live: "live demo_kern = {0, 1}"
  by (auto simp: live_def demo_kern_def demo_env_def)

lemma demo_dirs: "dir_of demo_kern ` live demo_kern = {0, 5}"
  by (simp add: demo_live dir_of_def demo_env_def)

lemma demo_kern_refs: "pdes D demo_kern = {}" "ptes D demo_kern = {}" "tables D demo_kern = {}" "map_refs D demo_kern = (\<lambda>_. 0)"
proof -
  show "pdes D demo_kern = {}" "ptes D demo_kern = {}" by (auto simp: demo_kern_def pdes_def ptes_def)
  then show "tables D demo_kern = {}" "map_refs D demo_kern = (\<lambda>_. 0)"
    by (simp_all add: tables_def map_refs_def fun_eq_iff)
qed

lemma demo_kern_free: "free_ok demo_kern [2, 1]"
proof -
  have "list_rep (page_free_list demo_kern) [2, 1]"
    using ll.rep_fold_ins_head[OF empty_list_rep, of "[1, 2]"] by (simp add: demo_kern_def)
  then show ?thesis by (simp add: free_ok_def) (simp add: demo_kern_def)
qed

lemma demo_pm_inv: "pm_inv (\<lambda>_. 0) {0, 5} demo_kern"
proof -
  have "count_ok (\<lambda>_. 0) {0, 5} demo_kern"
    by (simp add: count_ok_def pg_refs_def demo_kern_refs) (simp add: demo_kern_def)
  moreover have "pm_struct {0, 5} demo_kern"
    by (simp add: pm_struct_def demo_kern_refs) (simp add: demo_kern_def)
  ultimately show ?thesis using demo_kern_free by (auto simp: pm_inv_def)
qed

lemma demo_runq: "runq demo_kern [0]"
proof -
  have "tailq_rep \<lparr>tqh_first = None, tqh_last = SHead, tqe_next = (\<lambda>_. None :: nat option), tqe_prev = (\<lambda>_. SNull)\<rparr> []"
    by (simp add: tailq_rep_def)
  then have "tailq_rep (env_sched_list demo_kern) [0]"
    using tailq_rep_insert_head[of _ "[]" 0] by (simp add: demo_kern_def)
  moreover have "{e. e < NENV \<and> env_status (envs demo_kern e) = ENV_RUNNABLE} = {0}"
    by (auto simp: demo_kern_def demo_env_def)
  ultimately show ?thesis by (simp add: runq_def)
qed

lemma demo_free_envs: "set demo_free_envs = {2..<1024}" "distinct demo_free_envs"
  by (simp_all only: demo_free_envs_def set_upt distinct_upt)

lemma demo_freeq: "freeq demo_kern demo_free_envs"
proof -
  have "list_rep demo_env_list demo_free_envs"
    using ll.rep_fold_ins_head[OF empty_list_rep, of "rev demo_free_envs"] demo_free_envs(2)
    by (simp add: demo_env_list_def)
  moreover have "{e. e < NENV \<and> env_status (envs demo_kern e) = ENV_FREE} = {2..<1024}"
    by (auto simp: demo_kern_def demo_env_def)
  ultimately show ?thesis by (simp add: freeq_def demo_free_envs(1)) (simp add: demo_kern_def)
qed

lemma demo_asids: "asid_set demo_kern = {0, 1}"
proof -
  have b3: "bit (3 :: u32) n \<longleftrightarrow> n = 0 \<or> n = 1" for n
  proof -
    have m: "(3 :: u32) = mask 2" by (simp add: mask_eq_exp_minus_1)
    show ?thesis unfolding m bit_mask_iff by auto
  qed
  have "asid_bitmap demo_kern k = (if k = 0 then 3 else 0)" for k by (simp add: demo_kern_def)
  then have "bit (asid_bitmap demo_kern k) n \<longleftrightarrow> k = 0 \<and> (n = 0 \<or> n = 1)" for k n using b3[of n] by simp
  then have "asid_set demo_kern = {i. i < 64 \<and> i div 32 = 0 \<and> (i mod 32 = 0 \<or> i mod 32 = 1)}"
    by (simp add: asid_set_def)
  moreover have "i < 64 \<and> i div 32 = 0 \<and> (i mod 32 = 0 \<or> i mod 32 = 1) \<longleftrightarrow> i = 0 \<or> i = 1" for i :: nat
  proof (cases "i < 32")
    case True
    then show ?thesis by auto
  next
    case False
    then have "i div 32 \<noteq> 0" by (simp add: div_eq_0_iff)
    with False show ?thesis by auto
  qed
  ultimately show ?thesis by auto
qed

lemma demo_kern_inv: "kern_inv (\<lambda>_. 0) demo_kern"
proof -
  have "inj_on (dir_of demo_kern) (live demo_kern)" "asid_ok demo_kern"
    by (auto simp: demo_live dir_of_def asid_ok_def demo_asids demo_env_def)
  moreover have "npage demo_kern \<le> 2 ^ 19" by (simp add: demo_kern_def)
  ultimately show ?thesis
    using demo_runq demo_freeq demo_pm_inv unfolding kern_inv_def demo_dirs by blast
qed

section \<open>Memory calls\<close>

lemma with_env_ok: "envid2env envid cp s = Ret (0, Some e) \<Longrightarrow> with_env envid cp s k = k e"
  by (simp add: with_env_def)

lemma mapped_can_insert:
  assumes inv: "pm_inv ext D s" and d: "d \<in> D" and w: "aspace s d (vidx va) = Some w"
    and perm: "perm < 4096" and ref: "unat (pp_ref s (unat (PPN w))) < 65535"
  shows "can_insert D s (unat (PPN w), perm)"
proof -
  obtain x where x: "x \<in> ptes D s" "tgt s x = unat (PPN w)" using tgt_aspace[OF d w] by auto
  note r = ptes_ref_pos[OF inv x(1), unfolded x(2)]
  have "\<not> page_is_free s (unat (PPN w))"
    using r(1) inv by (auto simp: pm_inv_def page_is_free_iff free_ok_def)
  with r perm ref show ?thesis by (simp add: can_insert_def)
qed

lemma map_call_ok:
  assumes inv: "kern_inv ext s" and a: "envid2env srcid True s = Ret (0, Some a)" "a \<in> live s"
    and b: "envid2env dstid True s = Ret (0, Some b)" "b \<in> live s"
    and va: "\<not> is_illegal_va srcva" "\<not> is_illegal_va dstva" and perm: "perm < 4096"
    and w: "aspace s (dir_of s a) (vidx srcva) = Some w" and ref: "unat (pp_ref s (unat (PPN w))) < 65535"
  obtains r s' where "sys_mem_map srcid srcva dstid dstva perm s = Ret (Back r, s')" "kern_inv ext s'"
    "pm.more s' = pm.more s" "npage s' = npage s" "r = 0 \<or> r = - E_NO_MEM"
    "\<forall>x \<in> live s. aspace s' (dir_of s x) = (if x = b \<and> r = 0
       then (aspace s (dir_of s x))(vidx dstva \<mapsto> page2pa (unat (PPN w)) OR perm OR PTE_V)
       else aspace s (dir_of s x))"
    "r \<noteq> 0 \<longrightarrow> LIST_EMPTY (page_free_list s) \<and> aspace s (dir_of s b) (vidx dstva) = None"
    "LIST_EMPTY (page_free_list s) \<longrightarrow>
       (\<forall>v. aspace s (dir_of s b) (vidx dstva) = Some v \<longrightarrow> PPN v = PPN w) \<longrightarrow> LIST_EMPTY (page_free_list s')"
    "\<forall>d \<in> dir_of s ` live s. \<forall>k \<ge> user_pdes. pmem s' d k = pmem s d k"
    "\<forall>p \<in> tgt s ` ptes (dir_of s ` live s) s. pmem s' p = pmem s p"
proof -
  let ?D = "dir_of s ` live s" and ?p = "unat (PPN w)" and ?d = "env_pgdir (envs s b)"
  obtain pfl where I: "pm_inv ext ?D s" "inj_on (dir_of s) (live s)" "pm_struct ?D s" "free_ok s pfl"
    by (rule kern_inv_exts[OF inv])
  have da: "dir_of s a \<in> ?D" and db: "?d \<in> ?D" using a(2) b(2) by (auto simp: dir_of_def)
  have v: "srcva < UTOP" "dstva < UTOP" using va by (simp_all add: is_illegal_va_def not_le)
  have i: "unat (PDX srcva) < user_pdes" "unat (PDX dstva) < user_pdes"
    using PDX_UTOP[OF v(1)] PDX_UTOP[OF v(2)] by (simp_all add: user_pdes_def)
  have can: "can_insert ?D s (?p, perm)" by (rule mapped_can_insert[OF I(1) da w perm ref])
  have c: "perm < 4096" "?p < npage s" "?p \<notin> ?D" "?p \<notin> tables ?D s" "?p \<notin> set pfl" "unat (pp_ref s ?p) < 65535"
    using can by (simp_all add: can_insert_def page_is_free_iff[OF I(4)])
  obtain r s' where s': "page_insert ?d (env_asid (envs s b)) ?p dstva perm s = Ret (r, s')"
    "kern_inv ext s'" "pm.more s' = pm.more s" "npage s' = npage s" "r = 0 \<or> r = - E_NO_MEM"
    "\<forall>d \<in> ?D. aspace s' d = (if d = ?d \<and> r = 0
        then (aspace s d)(vidx dstva \<mapsto> page2pa ?p OR perm OR PTE_V) else aspace s d)"
    by (rule kern_insert[OF inv b(2) v(2) can, where asid = "env_asid (envs s b)"])
  have run: "sys_mem_map srcid srcva dstid dstva perm s = Ret (Back r, s')"
    using a b va page_lookup_ok[OF I(3) da i(1), unfolded dir_of_def] w s'(1)
    by (simp add: sys_mem_map_def with_env_ok dir_of_def)
  have sp: "aspace s' (dir_of s x) = (if x = b \<and> r = 0
       then (aspace s (dir_of s x))(vidx dstva \<mapsto> page2pa ?p OR perm OR PTE_V) else aspace s (dir_of s x))"
    if "x \<in> live s" for x
    using s'(6) that b(2) inj_onD[OF I(2), of x b] by (auto simp: dir_of_def)
  have nomem: "r \<noteq> 0 \<longrightarrow> LIST_EMPTY (page_free_list s) \<and> aspace s (dir_of s b) (vidx dstva) = None"
  proof (cases rule: page_insert_ok[OF I(1,4) db i(2) c, where asid = "env_asid (envs s b)", case_names nomem ok])
    case nomem
    then show ?thesis using LIST_EMPTY_free_ok[OF I(4)] by (simp add: aspace_def vidx_def dir_of_def)
  qed (use s'(1) in simp)
  have emp: "LIST_EMPTY (page_free_list s) \<longrightarrow>
       (\<forall>v. aspace s (dir_of s b) (vidx dstva) = Some v \<longrightarrow> PPN v = PPN w) \<longrightarrow> LIST_EMPTY (page_free_list s')"
    using page_insert_empty[OF I(1) db i(2) s'(1)] by (auto simp: dir_of_def)
  note frame = page_insert_mem[OF I(1,4) db i(2) s'(1)]
  have nd: "q \<notin> tables ?D s \<and> q \<notin> set pfl" if "q \<in> ?D \<or> q \<in> tgt s ` ptes ?D s" for q
    using that I(3) count_ok_free[OF I(1,4), of q] by (auto simp: pm_struct_def)
  have dirs: "\<forall>d \<in> ?D. \<forall>k \<ge> user_pdes. pmem s' d k = pmem s d k"
    using frame nd i(2) by (metis not_le prod.inject)
  have tg: "\<forall>p \<in> tgt s ` ptes ?D s. pmem s' p = pmem s p"
  proof
    fix p
    assume p: "p \<in> tgt s ` ptes ?D s"
    then have "p \<noteq> ?d" using I(3) db by (auto simp: pm_struct_def)
    then show "pmem s' p = pmem s p" using frame[of p] nd[of p] p by auto
  qed
  show ?thesis using that[OF run s'(2-5) _ nomem emp dirs tg] sp by blast
qed

lemma sys_mem_alloc_ok:
  assumes inv: "kern_inv ext s" and e: "e \<in> live s" and t: "with_env envid True s = (\<lambda>k. k e)"
    and va: "\<not> is_illegal_va va" and perm: "perm < 4096" and q: "page_is_free s q"
  shows "\<exists>p r s'. sys_mem_alloc envid va perm s = Ret (Back r, s') \<and> kern_inv ext s' \<and> calm s s' \<and> page_is_free s p \<and>
    (if pte_valid (pmem s (dir_of s e) (unat (PDX va))) \<or> (\<exists>q. page_is_free s q \<and> q \<noteq> p)
     then r = 0 \<and> pmem s' p = (\<lambda>_. 0) \<and> lost_pages s' = lost_pages s \<and>
       (\<forall>x \<in> live s. aspace s' (dir_of s x) = (if x = e
          then (aspace s (dir_of s x))(vidx va \<mapsto> page2pa p OR perm OR PTE_V) else aspace s (dir_of s x)))
     else r = - E_NO_MEM \<and> lost_pages s' = insert p (lost_pages s) \<and>
       (\<forall>x \<in> live s. aspace s' (dir_of s x) = aspace s (dir_of s x)))"
proof -
  let ?D = "dir_of s ` live s"
  obtain pfl where I: "pm_inv ext ?D s" "free_ok s pfl" "pm_struct ?D s" by (rule kern_inv_exts[OF inv])
  obtain p fl where pf: "pfl = p # fl" using q page_is_free_iff[OF I(2)] by (cases pfl) auto
  obtain s1 where s1: "page_alloc s = Ret ((0, Some p), s1)" "pm_inv ext ?D s1" "free_ok s1 fl"
    "pmem s1 = (pmem s)(p := (\<lambda>_. 0))" "npage s1 = npage s" "pp_ref s1 = pp_ref s" "tlb s1 = tlb s" "pm.more s1 = pm.more s"
    "p \<notin> set fl" "tables ?D s1 = tables ?D s" "tgt s1 ` ptes ?D s1 = tgt s ` ptes ?D s" "\<forall>d \<in> ?D. aspace s1 d = aspace s d"
    by (rule page_alloc_some[OF I(1) I(2)[unfolded pf]])
  have k1: "kern_inv ext s1" by (rule kern_inv_pm[OF inv s1(8,2,5)])
  note m = kern_inv_more_D[OF s1(8)]
  have pr: "p < npage s" "pp_ref s p = 0" using I(2) pf by (simp_all add: free_ok_def)
  have nr: "p \<notin> ?D" "p \<notin> tables ?D s" "p \<notin> tgt s ` ptes ?D s" using count_ok_free[OF I(1,2), of p] pf by auto
  have can: "can_insert (dir_of s1 ` live s1) s1 (p, perm)"
    using pr nr s1 perm page_is_free_iff[OF s1(3)] by (simp add: can_insert_def m)
  have v: "va < UTOP" using va by (simp add: is_illegal_va_def not_le)
  have e1: "e \<in> live s1" using e m by simp
  obtain r s2 where s2: "page_insert (env_pgdir (envs s1 e)) (env_asid (envs s e)) p va perm s1 = Ret (r, s2)" "kern_inv ext s2" "calm s1 s2"
    "r = (if \<not> pte_valid (pmem s1 (dir_of s1 e) (unat (PDX va))) \<and> (\<forall>q. \<not> page_is_free s1 q) then - E_NO_MEM else 0)"
    "\<forall>x \<in> live s1. aspace s2 (dir_of s1 x) = (if x = e \<and> r = 0
        then (aspace s1 (dir_of s1 x))(vidx va \<mapsto> page2pa p OR perm OR PTE_V) else aspace s1 (dir_of s1 x))"
    "lost_pages s2 = (if r = 0 then lost_pages s1 - {p} else lost_pages s1)" "pmem s2 p = pmem s1 p"
    by (rule kern_insert_full[OF k1 e1 v can, where asid = "env_asid (envs s e)"])
  have run: "sys_mem_alloc envid va perm s = Ret (Back r, s2)" using va t s1(1) s2(1) m by (simp add: sys_mem_alloc_def)
  have fr: "page_is_free s q \<longleftrightarrow> q = p \<or> page_is_free s1 q" for q
    using page_is_free_iff[OF I(2)] page_is_free_iff[OF s1(3)] pf by simp
  have np: "\<not> page_is_free s1 p" using page_is_free_iff[OF s1(3)] s1(9) by simp
  have others: "(\<exists>q. page_is_free s q \<and> q \<noteq> p) \<longleftrightarrow> \<not> (\<forall>q. \<not> page_is_free s1 q)" using fr np by blast
  have de: "pmem s1 (dir_of s e) = pmem s (dir_of s e)" using nr(1) e by (auto simp: s1(4))
  have tg: "pmem s1 (unat (PPN w)) = pmem s (unat (PPN w))" if "x \<in> live s" "aspace s (dir_of s x) i = Some w" for x i w
    using aspace_tgt[OF _ that(2), of ?D] that(1) nr(3) by (auto simp: s1(4))
  have "calm s s2" unfolding calm_def
  proof (intro conjI ballI allI impI)
    fix x i w assume x: "x \<in> live s" "aspace s (dir_of s x) i = Some w"
    then have "aspace s1 (dir_of s1 x) i = Some w" using s1(12) m by simp
    then have "pmem s2 (unat (PPN w)) = pmem s1 (unat (PPN w))" using s2(3) x(1) m unfolding calm_def by metis
    then show "pmem s2 (unat (PPN w)) = pmem s (unat (PPN w))" using tg[OF x] by simp
  qed (use s2(3) s1(5,7,8) in \<open>auto simp: calm_def\<close>)
  moreover have "lost_pages s1 = insert p (lost_pages s)" by (rule lost_alloc[OF I(2)[unfolded pf] s1(3,5,6,9)])
  moreover have "p \<notin> lost_pages s" using fr by (simp add: lost_pages_def)
  moreover have "\<forall>x \<in> live s. aspace s1 (dir_of s x) = aspace s (dir_of s x)" using s1(12) by simp
  ultimately show ?thesis using run s2(2,4-7) fr m de others s1(4) by (intro exI[of _ p] exI[of _ r] exI[of _ s2]) auto
qed

text \<open>
  C5. \<open>sys_mem_alloc\<close>, with permissions that are flag bits: \<open>-E_INVAL\<close> at an illegal address, \<open>-E_BAD_ENV\<close> when the identifier names
  no environment that the caller may change and \<open>-E_NO_MEM\<close> when no page is free, all without effect. Otherwise it takes a free page \<open>p\<close>.
  When the page table is there or a second page is free for it, it returns 0 and \<open>p\<close>, zeroed, is mapped at that address with
  those permissions in that environment only, and no page is lost. Else it returns \<open>-E_NO_MEM\<close>, maps nothing, and \<open>p\<close> is lost:
  it has no reference and is not put back on the free list (a bug of the code). In both cases every
  other mapping, the contents of every mapped page and all of the kernel's state outside physical memory stay as they were.
\<close>

theorem sys_mem_alloc_correct:
  assumes inv: "kern_inv ext s" and c: "curenv s = Some c" "c \<in> live s" and perm: "perm < 4096"
  shows "if va < UTEMP \<or> UTOP \<le> va then sys_mem_alloc envid va perm s = Ret (Back (- E_INVAL), s)
    else case env_target s envid of None \<Rightarrow> sys_mem_alloc envid va perm s = Ret (Back (- E_BAD_ENV), s)
    | Some e \<Rightarrow> if \<forall>q. \<not> page_is_free s q then sys_mem_alloc envid va perm s = Ret (Back (- E_NO_MEM), s)
      else \<exists>p r s'. sys_mem_alloc envid va perm s = Ret (Back r, s') \<and> kern_inv ext s' \<and> calm s s' \<and> page_is_free s p \<and>
        (if pte_valid (pmem s (dir_of s e) (unat (PDX va))) \<or> (\<exists>q. page_is_free s q \<and> q \<noteq> p)
         then r = 0 \<and> pmem s' p = (\<lambda>_. 0) \<and> lost_pages s' = lost_pages s \<and>
           (\<forall>x \<in> live s. aspace s' (dir_of s x) = (if x = e
              then (aspace s (dir_of s x))(vidx va \<mapsto> page2pa p OR perm OR PTE_V) else aspace s (dir_of s x)))
         else r = - E_NO_MEM \<and> lost_pages s' = insert p (lost_pages s) \<and>
           (\<forall>x \<in> live s. aspace s' (dir_of s x) = aspace s (dir_of s x)))"
proof (cases "is_illegal_va va")
  case True
  then show ?thesis by (auto simp: sys_mem_alloc_def is_illegal_va_def)
next
  case va: False
  then have v: "\<not> (va < UTEMP \<or> UTOP \<le> va)" by (simp add: is_illegal_va_def)
  show ?thesis
  proof (cases "env_target s envid")
    case None
    then show ?thesis using va v by (simp add: sys_mem_alloc_def with_target[OF c(1)])
  next
    case (Some e)
    have e: "e \<in> live s" by (rule env_named_live[OF env_target_named[OF Some] c])
    have t: "with_env envid True s = (\<lambda>k. k e)" using Some by (auto simp: with_target[OF c(1)])
    show ?thesis
    proof (cases "\<forall>q. \<not> page_is_free s q")
      case True
      then show ?thesis using va v Some t LIST_EMPTY_no_free[OF inv] by (simp add: sys_mem_alloc_def page_alloc_def)
    next
      case False
      then obtain q where q: "page_is_free s q" by blast
      show ?thesis unfolding if_not_P[OF v] Some option.case if_not_P[OF False] by (rule sys_mem_alloc_ok[OF inv e t va perm q])
    qed
  qed
qed

lemma demo_free_pages: "page_is_free demo_kern q \<longleftrightarrow> q = 1 \<or> q = 2"
  using page_is_free_iff[OF demo_kern_free] by auto

lemma demo_two_free: "\<exists>q. page_is_free demo_kern q \<and> q \<noteq> p"
proof (cases "p = 1")
  case True
  then show ?thesis by (intro exI[of _ 2]) (simp add: demo_free_pages)
next
  case False
  then show ?thesis by (intro exI[of _ 1]) (simp add: demo_free_pages)
qed

theorem sys_mem_alloc_correct_witness:
  "\<exists>p s'. sys_mem_alloc 4097 0x500000 0x400 demo_kern = Ret (Back 0, s') \<and> kern_inv (\<lambda>_. 0) s' \<and> calm demo_kern s' \<and>
     aspace s' 5 = (aspace demo_kern 5)(vidx 0x500000 \<mapsto> page2pa p OR 0x400 OR PTE_V) \<and> aspace s' 0 = aspace demo_kern 0 \<and>
     lost_pages s' = lost_pages demo_kern"
proof -
  have t: "env_target demo_kern 4097 = Some 1"
    by (simp add: env_target_def env_named_def ENVX_def demo_live) (simp add: demo_env_def)
  note f = demo_free_pages
  have ne: "\<not> (\<forall>q. \<not> page_is_free demo_kern q)" using f by blast
  note two = demo_two_free
  have v: "\<not> ((0x500000 :: u32) < UTEMP \<or> UTOP \<le> 0x500000)" by (simp add: mmu_defs)
  have c: "curenv demo_kern = Some 0" "0 \<in> live demo_kern" by (simp_all add: demo_live)
  from sys_mem_alloc_correct[OF demo_kern_inv c, of "0x400" "0x500000" 4097, unfolded t option.case if_not_P[OF v] if_not_P[OF ne]]
  obtain p r s' where s': "sys_mem_alloc 4097 0x500000 0x400 demo_kern = Ret (Back r, s')" "kern_inv (\<lambda>_. 0) s'" "calm demo_kern s'"
    and i: "if pte_valid (pmem demo_kern (dir_of demo_kern 1) (unat (PDX 0x500000))) \<or> (\<exists>q. page_is_free demo_kern q \<and> q \<noteq> p)
      then r = 0 \<and> pmem s' p = (\<lambda>_. 0) \<and> lost_pages s' = lost_pages demo_kern \<and>
        (\<forall>x \<in> live demo_kern. aspace s' (dir_of demo_kern x) = (if x = 1
          then (aspace demo_kern (dir_of demo_kern x))(vidx 0x500000 \<mapsto> page2pa p OR 0x400 OR PTE_V) else aspace demo_kern (dir_of demo_kern x)))
      else r = - E_NO_MEM \<and> lost_pages s' = insert p (lost_pages demo_kern) \<and>
        (\<forall>x \<in> live demo_kern. aspace s' (dir_of demo_kern x) = aspace demo_kern (dir_of demo_kern x))" by fastforce
  have d: "dir_of demo_kern 0 = 0" "dir_of demo_kern 1 = 5" by (simp_all add: dir_of_def demo_env_def)
  from i two[of p] d s' show ?thesis unfolding demo_live by (intro exI[of _ p] exI[of _ s']) simp
qed

lemma mapped_not_lost: "pm_inv ext D s \<Longrightarrow> d \<in> D \<Longrightarrow> aspace s d (vidx va) = Some w \<Longrightarrow> unat (PPN w) \<notin> lost_pages s"
  using ptes_ref_pos(1)[of ext D s] tgt_aspace[of d D s va w] by (fastforce simp: lost_pages_def)

lemma sys_mem_map_ok:
  assumes inv: "kern_inv ext s" and a: "a \<in> live s" and b: "b \<in> live s"
    and t: "with_env srcid True s = (\<lambda>k. k a)" "with_env dstid True s = (\<lambda>k. k b)"
    and va: "\<not> is_illegal_va srcva" "\<not> is_illegal_va dstva" and perm: "perm < 4096"
    and w: "aspace s (dir_of s a) (vidx srcva) = Some w" and ref: "unat (pp_ref s (unat (PPN w))) < 65535"
  shows "\<exists>r s'. sys_mem_map srcid srcva dstid dstva perm s = Ret (Back r, s') \<and> kern_inv ext s' \<and> calm s s' \<and>
    lost_pages s' = lost_pages s \<and>
    r = (if pte_valid (pmem s (dir_of s b) (unat (PDX dstva))) \<or> (\<exists>q. page_is_free s q) then 0 else - E_NO_MEM) \<and>
    (\<forall>x \<in> live s. aspace s' (dir_of s x) = (if x = b \<and> r = 0
       then (aspace s (dir_of s x))(vidx dstva \<mapsto> page2pa (unat (PPN w)) OR perm OR PTE_V) else aspace s (dir_of s x)))"
proof -
  let ?D = "dir_of s ` live s" and ?p = "unat (PPN w)"
  obtain pfl where I: "pm_inv ext ?D s" "pm_struct ?D s" by (rule kern_inv_exts[OF inv])
  have da: "dir_of s a \<in> ?D" using a by simp
  have v: "srcva < UTOP" "dstva < UTOP" using va by (simp_all add: is_illegal_va_def not_le)
  have i: "unat (PDX srcva) < user_pdes" using PDX_UTOP[OF v(1)] by (simp add: user_pdes_def)
  obtain r s' where s': "page_insert (env_pgdir (envs s b)) (env_asid (envs s b)) ?p dstva perm s = Ret (r, s')" "kern_inv ext s'" "calm s s'"
    "r = (if \<not> pte_valid (pmem s (dir_of s b) (unat (PDX dstva))) \<and> (\<forall>q. \<not> page_is_free s q) then - E_NO_MEM else 0)"
    "\<forall>x \<in> live s. aspace s' (dir_of s x) = (if x = b \<and> r = 0
        then (aspace s (dir_of s x))(vidx dstva \<mapsto> page2pa ?p OR perm OR PTE_V) else aspace s (dir_of s x))"
    "lost_pages s' = (if r = 0 then lost_pages s - {?p} else lost_pages s)"
    by (rule kern_insert_full[OF inv b v(2) mapped_can_insert[OF I(1) da w perm ref], where asid = "env_asid (envs s b)"])
  have "sys_mem_map srcid srcva dstid dstva perm s = Ret (Back r, s')"
    using t va page_lookup_ok[OF I(2) da i, unfolded dir_of_def] w s'(1) by (simp add: sys_mem_map_def dir_of_def)
  then show ?thesis using s' mapped_not_lost[OF I(1) da w] by (intro exI[of _ r] exI[of _ s']) auto
qed

text \<open>
  C6. \<open>sys_mem_map\<close>, with permissions that are flag bits: \<open>-E_INVAL\<close> when one of the addresses is illegal, \<open>-E_BAD_ENV\<close> when one of the
  identifiers names no environment that the caller may change, \<open>-E_INVAL\<close> when nothing is mapped at the source, all without
  effect. Otherwise, for a page with fewer than 65535 references, it returns 0 and the destination shares the source's page with those
  permissions, or \<open>-E_NO_MEM\<close>, exactly when a page table is missing and no page is free, and maps nothing. Either way
  no page is lost, and all other mappings, all contents and all other state of the kernel stay as they were.
\<close>

theorem sys_mem_map_correct:
  assumes inv: "kern_inv ext s" and c: "curenv s = Some c" "c \<in> live s" and perm: "perm < 4096"
  shows "if srcva < UTEMP \<or> UTOP \<le> srcva \<or> dstva < UTEMP \<or> UTOP \<le> dstva
    then sys_mem_map srcid srcva dstid dstva perm s = Ret (Back (- E_INVAL), s)
    else case (env_target s srcid, env_target s dstid) of
      (Some a, Some b) \<Rightarrow> (case aspace s (dir_of s a) (vidx srcva) of
        None \<Rightarrow> sys_mem_map srcid srcva dstid dstva perm s = Ret (Back (- E_INVAL), s)
      | Some w \<Rightarrow> unat (pp_ref s (unat (PPN w))) < 65535 \<longrightarrow>
          (\<exists>r s'. sys_mem_map srcid srcva dstid dstva perm s = Ret (Back r, s') \<and> kern_inv ext s' \<and> calm s s' \<and>
            lost_pages s' = lost_pages s \<and>
            r = (if pte_valid (pmem s (dir_of s b) (unat (PDX dstva))) \<or> (\<exists>q. page_is_free s q) then 0 else - E_NO_MEM) \<and>
            (\<forall>x \<in> live s. aspace s' (dir_of s x) = (if x = b \<and> r = 0
               then (aspace s (dir_of s x))(vidx dstva \<mapsto> page2pa (unat (PPN w)) OR perm OR PTE_V)
               else aspace s (dir_of s x)))))
    | _ \<Rightarrow> sys_mem_map srcid srcva dstid dstva perm s = Ret (Back (- E_BAD_ENV), s)"
proof (cases "is_illegal_va srcva \<or> is_illegal_va dstva")
  case True
  then show ?thesis by (auto simp: sys_mem_map_def is_illegal_va_def)
next
  case False
  then have va: "\<not> is_illegal_va srcva" "\<not> is_illegal_va dstva" by simp_all
  then have v: "\<not> (srcva < UTEMP \<or> UTOP \<le> srcva \<or> dstva < UTEMP \<or> UTOP \<le> dstva)" by (simp add: is_illegal_va_def)
  note wt = with_target[OF c(1)]
  show ?thesis
  proof (cases "env_target s srcid")
    case None
    then show ?thesis using va v by (simp add: sys_mem_map_def wt)
  next
    case a: (Some a)
    show ?thesis
    proof (cases "env_target s dstid")
      case None
      then show ?thesis using va v a by (simp add: sys_mem_map_def wt)
    next
      case b: (Some b)
      have l: "a \<in> live s" "b \<in> live s" using env_named_live[OF env_target_named c] a b by blast+
      have t: "with_env srcid True s = (\<lambda>k. k a)" "with_env dstid True s = (\<lambda>k. k b)" using a b by (auto simp: wt)
      show ?thesis
      proof (cases "aspace s (dir_of s a) (vidx srcva)")
        case None
        obtain pfl where st: "pm_struct (dir_of s ` live s) s" by (rule kern_inv_exts[OF inv])
        have "unat (PDX srcva) < user_pdes" using PDX_UTOP[of srcva] va by (simp add: user_pdes_def is_illegal_va_def not_le)
        from page_lookup_ok[OF st _ this, of "dir_of s a"] None show ?thesis
          using a b va v l t by (simp add: sys_mem_map_def dir_of_def)
      next
        case (Some w)
        from sys_mem_map_ok[OF inv l t va perm Some] show ?thesis unfolding if_not_P[OF v] a b Some option.case prod.case by blast
      qed
    qed
  qed
qed

theorem sys_mem_map_correct_witness:
  "\<exists>w s1 s2. sys_mem_alloc 2048 0x500000 0x400 demo_kern = Ret (Back 0, s1) \<and> aspace s1 0 (vidx 0x500000) = Some w \<and>
     sys_mem_map 2048 0x500000 0 0x501000 0 s1 = Ret (Back 0, s2) \<and> kern_inv (\<lambda>_. 0) s2 \<and>
     aspace s2 0 = (aspace s1 0)(vidx 0x501000 \<mapsto> page2pa (unat (PPN w)) OR 0 OR PTE_V) \<and> aspace s2 5 = aspace s1 5"
proof -
  have c: "curenv demo_kern = Some 0" "0 \<in> live demo_kern" by (simp_all add: demo_live)
  have t: "env_target demo_kern 2048 = Some 0"
    by (simp add: env_target_def env_named_def ENVX_def demo_live) (simp add: demo_env_def)
  note f = demo_free_pages
  note two = demo_two_free
  have w0: "with_env 2048 True demo_kern = (\<lambda>k. k 0)" using t by (auto simp: with_target[OF c(1)])
  have va: "\<not> is_illegal_va 0x500000" by (simp add: is_illegal_va_def mmu_defs)
  have d0: "dir_of demo_kern 0 = 0" "dir_of demo_kern 1 = 5" by (simp_all add: dir_of_def demo_env_def)
  have pf: "page_is_free demo_kern 1" by (simp add: f)
  have perm: "(0x400 :: u32) < 4096" by simp
  from sys_mem_alloc_ok[OF demo_kern_inv c(2) w0 va perm pf] obtain p r s1 where
    s1: "sys_mem_alloc 2048 0x500000 0x400 demo_kern = Ret (Back r, s1)" "kern_inv (\<lambda>_. 0) s1" "calm demo_kern s1" "page_is_free demo_kern p"
    and i: "r = 0 \<and> (\<forall>x \<in> {0, 1}. aspace s1 (dir_of demo_kern x) = (if x = 0
          then (aspace demo_kern (dir_of demo_kern x))(vidx 0x500000 \<mapsto> page2pa p OR 0x400 OR PTE_V) else aspace demo_kern (dir_of demo_kern x)))"
    using two unfolding demo_live by metis
  let ?w = "page2pa p OR 0x400 OR PTE_V"
  have m: "curenv s1 = Some 0" "live s1 = {0, 1}" "dir_of s1 = dir_of demo_kern" "envs s1 = envs demo_kern"
    using kern_inv_more_D[of s1 demo_kern] s1(3) by (simp_all add: calm_def demo_live)
  have a1: "aspace s1 0 = (aspace demo_kern 0)(vidx 0x500000 \<mapsto> ?w)" "aspace s1 5 = aspace demo_kern 5" using i d0 by simp_all
  have e0: "aspace demo_kern x = Map.empty" for x by (auto simp: aspace_def demo_kern_def fun_eq_iff)
  have t1: "env_target s1 2048 = Some 0" "env_target s1 0 = Some 0"
    by (simp_all add: env_target_def env_named_def m ENVX_def demo_live) (simp_all add: demo_env_def)
  have aw: "aspace s1 0 (vidx 0x500000) = Some ?w" using a1 by simp
  have I: "pm_inv (\<lambda>_. 0) {0, 5} s1" using s1(2) d0 m(2,3) by (simp add: kern_inv_def)
  have cnt: "unat (pp_ref s1 (unat (PPN ?w))) < 65535"
  proof -
    let ?p = "unat (PPN ?w)"
    have "x = (0, vidx 0x500000)" if "x \<in> ptes {0, 5} s1" for x
    proof -
      obtain e k j where x: "x = (e, k, j)" by (cases x)
      have "e \<in> {0, 5}" using that x by (auto simp: ptes_def pdes_def)
      then have "aspace s1 e (k, j) \<noteq> None" using that x aspace_Some_iff[of e "{0, 5}" s1 k j] by auto
      then show ?thesis using \<open>e \<in> {0, 5}\<close> x by (auto simp: a1 e0 split: if_splits)
    qed
    then have sub: "{y \<in> ptes {0, 5} s1. tgt s1 y = ?p} \<subseteq> {(0, vidx 0x500000)}" by blast
    have "map_refs {0, 5} s1 ?p \<le> 1" unfolding map_refs_def using card_mono[OF _ sub] by simp
    moreover have t: "?p \<in> tgt s1 ` ptes {0, 5} s1" by (rule tgt_aspace[OF _ aw]) simp
    then have "?p \<notin> {0, 5}" "?p \<notin> tables {0, 5} s1" "?p < npage s1" using I by (auto simp: pm_inv_def pm_struct_def)
    ultimately show ?thesis using I by (simp add: pm_inv_def count_ok_def pg_refs_def)
  qed
  have v: "\<not> ((0x500000 :: u32) < UTEMP \<or> UTOP \<le> (0x500000 :: u32) \<or> (0x501000 :: u32) < UTEMP \<or> UTOP \<le> (0x501000 :: u32))" by (simp add: mmu_defs)
  have px: "PDX 0x501000 = PDX 0x500000" by code_simp
  have pv: "pte_valid (pmem s1 0 (unat (PDX 0x501000)))" using aw unfolding px by (auto simp: aspace_def vidx_def split: if_splits)
  have l: "0 \<in> live s1" by (simp add: m)
  have d1: "dir_of s1 0 = 0" "dir_of s1 1 = 5" using d0 m(3) by simp_all
  from sys_mem_map_correct[OF s1(2) m(1) l, of 0 "0x500000" "0x501000" 2048 0, unfolded if_not_P[OF v] t1 option.case prod.case d1 aw, rule_format, OF _ cnt]
  obtain s2 where "sys_mem_map 2048 0x500000 0 0x501000 0 s1 = Ret (Back 0, s2)" "kern_inv (\<lambda>_. 0) s2"
    "\<forall>x \<in> {0, 1}. aspace s2 (dir_of s1 x) = (if x = 0 then (aspace s1 (dir_of s1 x))(vidx 0x501000 \<mapsto> page2pa (unat (PPN ?w)) OR 0 OR PTE_V) else aspace s1 (dir_of s1 x))"
    using pv m(2) by auto
  then show ?thesis using s1(1) i aw d1 by (intro exI[of _ ?w] exI[of _ s1] exI[of _ s2]) simp
qed

lemma sys_mem_unmap_ok:
  assumes inv: "kern_inv ext s" and e: "e \<in> live s" and t: "with_env envid False s = (\<lambda>k. k e)" and va: "\<not> is_illegal_va va"
  shows "\<exists>s'. sys_mem_unmap envid va s = Ret (Back 0, s') \<and> kern_inv ext s' \<and> calm s s' \<and> lost_pages s' = lost_pages s \<and>
    (\<forall>x \<in> live s. aspace s' (dir_of s x) =
       (if x = e then (aspace s (dir_of s x))(vidx va := None) else aspace s (dir_of s x))) \<and>
    (\<forall>w. aspace s (dir_of s e) (vidx va) = Some w \<longrightarrow> page_is_free s' (unat (PPN w)) = (pp_ref s (unat (PPN w)) = 1))"
proof -
  let ?D = "dir_of s ` live s"
  obtain pfl where I: "pm_inv ext ?D s" "inj_on (dir_of s) (live s)" "free_ok s pfl" "pm_struct ?D s" by (rule kern_inv_exts[OF inv])
  have d: "env_pgdir (envs s e) \<in> ?D" using e by (rule live_dir)
  have "va < UTOP" using va by (simp add: is_illegal_va_def not_le)
  then have i: "unat (PDX va) < user_pdes" using PDX_UTOP by (simp add: user_pdes_def)
  obtain s' fl' where s': "page_remove (env_pgdir (envs s e)) (env_asid (envs s e)) va s = Ret s'" "pm_inv ext ?D s'" "free_ok s' fl'"
    "\<forall>d' \<in> ?D. aspace s' d' = (if d' = env_pgdir (envs s e) then (aspace s (env_pgdir (envs s e)))(vidx va := None) else aspace s d')"
    "npage s' = npage s" "pm.more s' = pm.more s"
    "fl' = (case aspace s (env_pgdir (envs s e)) (vidx va) of None \<Rightarrow> pfl | Some w \<Rightarrow>
       if unat (pp_ref s (unat (PPN w))) = 1 then unat (PPN w) # pfl else pfl)"
    "tlb s' = (case aspace s (env_pgdir (envs s e)) (vidx va) of None \<Rightarrow> tlb s | Some w \<Rightarrow> tlb (tlb_invalidate (env_asid (envs s e)) va s))"
    "\<forall>q. q \<notin> tables ?D s \<longrightarrow> pmem s' q = pmem s q"
    by (rule page_remove_ok[OF I(1,3) d i, where asid = "env_asid (envs s e)"])
  have tg: "pmem s' (unat (PPN w)) = pmem s (unat (PPN w))" if "x \<in> live s" "aspace s (dir_of s x) j = Some w" for x j w
    using aspace_tgt[OF _ that(2), of ?D] that(1) I(4) s'(9) by (auto simp: pm_struct_def)
  have "tlb s' hi = Some lo \<Longrightarrow> tlb s hi = Some lo" for hi lo
    using s'(8) by (auto dest: tlb_invalidate_sub split: option.splits)
  then have "calm s s'" unfolding calm_def using s'(5,6) tg by blast
  moreover have "sys_mem_unmap envid va s = Ret (Back 0, s')" using va t s'(1) by (simp add: sys_mem_unmap_def)
  moreover have "kern_inv ext s'" by (rule kern_inv_pm[OF inv s'(6,2,5)])
  moreover have "aspace s' (dir_of s x) = (if x = e then (aspace s (dir_of s x))(vidx va := None) else aspace s (dir_of s x))"
    if "x \<in> live s" for x
    using s'(4) that e inj_onD[OF I(2), of x e] by (auto simp: dir_of_def)
  moreover have "lost_pages s' = lost_pages s" using page_remove_lost[OF s'(1) I(3)] by metis
  moreover have "page_is_free s' (unat (PPN w)) = (pp_ref s (unat (PPN w)) = 1)" if w: "aspace s (dir_of s e) (vidx va) = Some w" for w
  proof -
    have "unat (PPN w) \<in> tgt s ` ptes ?D s" by (rule aspace_tgt[OF _ w]) (use e in simp)
    then have "unat (PPN w) \<notin> set pfl" using count_ok_free(4)[OF I(1,3)] by blast
    moreover have "(unat (pp_ref s (unat (PPN w))) = 1) = (pp_ref s (unat (PPN w)) = 1)" by (metis unat_1 word_unat_eq_iff)
    ultimately show ?thesis using page_is_free_iff[OF s'(3)] s'(7) w by (simp add: dir_of_def)
  qed
  ultimately show ?thesis by blast
qed

text \<open>
  C7. \<open>sys_mem_unmap\<close>: \<open>-E_INVAL\<close> at an illegal address and \<open>-E_BAD_ENV\<close> when the identifier names no environment, without effect. For
  an environment that the caller may change it returns 0, removes the mapping there and no other, puts the page back on the free list
  exactly when that was its last reference, loses no page, and leaves all contents and all other state of the kernel alone.
\<close>

theorem sys_mem_unmap_correct:
  assumes inv: "kern_inv ext s" and c: "curenv s = Some c" "c \<in> live s"
  shows "if va < UTEMP \<or> UTOP \<le> va then sys_mem_unmap envid va s = Ret (Back (- E_INVAL), s)
    else case env_named s envid of None \<Rightarrow> sys_mem_unmap envid va s = Ret (Back (- E_BAD_ENV), s)
    | Some e \<Rightarrow> env_target s envid = Some e \<longrightarrow>
      (\<exists>s'. sys_mem_unmap envid va s = Ret (Back 0, s') \<and> kern_inv ext s' \<and> calm s s' \<and> lost_pages s' = lost_pages s \<and>
        (\<forall>x \<in> live s. aspace s' (dir_of s x) =
           (if x = e then (aspace s (dir_of s x))(vidx va := None) else aspace s (dir_of s x))) \<and>
        (\<forall>w. aspace s (dir_of s e) (vidx va) = Some w \<longrightarrow>
           page_is_free s' (unat (PPN w)) = (pp_ref s (unat (PPN w)) = 1)))"
proof (cases "is_illegal_va va")
  case True
  then show ?thesis by (auto simp: sys_mem_unmap_def is_illegal_va_def)
next
  case va: False
  then have v: "\<not> (va < UTEMP \<or> UTOP \<le> va)" by (simp add: is_illegal_va_def)
  show ?thesis
  proof (cases "env_named s envid")
    case None
    then show ?thesis using va v by (simp add: sys_mem_unmap_def with_target[OF c(1)])
  next
    case (Some e)
    have e: "e \<in> live s" by (rule env_named_live[OF Some c])
    have t: "with_env envid False s = (\<lambda>k. k e)" using Some by (auto simp: with_target[OF c(1)])
    show ?thesis unfolding if_not_P[OF v] Some option.case using sys_mem_unmap_ok[OF inv e t va] by blast
  qed
qed

theorem sys_mem_unmap_correct_witness:
  "\<exists>s'. sys_mem_unmap 4097 0x500000 demo_kern = Ret (Back 0, s') \<and> kern_inv (\<lambda>_. 0) s' \<and>
     aspace s' 5 = (aspace demo_kern 5)(vidx 0x500000 := None)"
proof -
  have c: "curenv demo_kern = Some 0" "0 \<in> live demo_kern" by (simp_all add: demo_live)
  have t: "env_named demo_kern 4097 = Some 1" "env_target demo_kern 4097 = Some 1"
    by (simp_all add: env_target_def env_named_def ENVX_def demo_live) (simp_all add: demo_env_def)
  have v: "\<not> ((0x500000 :: u32) < UTEMP \<or> UTOP \<le> 0x500000)" by (simp add: mmu_defs)
  have d: "dir_of demo_kern 1 = 5" "1 \<in> live demo_kern" by (simp_all add: dir_of_def demo_env_def demo_live)
  from sys_mem_unmap_correct[OF demo_kern_inv c, of "0x500000" 4097, unfolded if_not_P[OF v] t option.case, rule_format, OF refl]
  obtain s' where "sys_mem_unmap 4097 0x500000 demo_kern = Ret (Back 0, s')" "kern_inv (\<lambda>_. 0) s'"
    "\<forall>x \<in> live demo_kern. aspace s' (dir_of demo_kern x) =
       (if x = 1 then (aspace demo_kern (dir_of demo_kern x))(vidx 0x500000 := None) else aspace demo_kern (dir_of demo_kern x))" by blast
  then show ?thesis using d by (intro exI[of _ s']) auto
qed

text \<open>
  The comment on \<open>sys_mem_unmap\<close> promises \<open>-E_BAD_ENV\<close> for an environment that is not the caller's, but the code does not ask
  for the check: any process can unmap the pages of any other.
\<close>

theorem sys_mem_unmap_unchecked:
  assumes "kern_inv ext s" "curenv s = Some c" "c \<in> live s" "env_named s envid = Some e" "env_target s envid = None" "\<not> is_illegal_va va"
  shows "\<exists>s'. sys_mem_unmap envid va s = Ret (Back 0, s') \<and> aspace s' (dir_of s e) = (aspace s (dir_of s e))(vidx va := None)"
proof -
  have e: "e \<in> live s" by (rule env_named_live[OF assms(4,2,3)])
  have t: "with_env envid False s = (\<lambda>k. k e)" using assms(4) by (auto simp: with_target[OF assms(2)])
  from sys_mem_unmap_ok[OF assms(1) e t assms(6)] e show ?thesis by auto
qed

end
