(* ===== verification/EnvProps.thy ===== *)
theory EnvProps
  imports SyscallProps
begin

text \<open>
  Environments: identifiers, creation, destruction, scheduling and message passing. Each operation
  is shown to keep the invariant of the kernel; \<open>schedule\<close> is shown to be fair.
\<close>

section \<open>States that differ in the environments only\<close>

lemma kern_inv_same:
  assumes inv: "kern_inv ext s"
    and pm: "pmem s' = pmem s" "npage s' = npage s" "pp_ref s' = pp_ref s" "page_free_list s' = page_free_list s"
    and k: "asid_bitmap s' = asid_bitmap s" "env_free_list s' = env_free_list s"
    and e: "\<And>x. (env_status (envs s' x) = ENV_FREE) = (env_status (envs s x) = ENV_FREE)"
      "\<And>x. env_pgdir (envs s' x) = env_pgdir (envs s x)" "\<And>x. env_asid (envs s' x) = env_asid (envs s x)"
    and q: "runq s' rl"
  shows "kern_inv ext s'" "live s' = live s" "dir_of s' = dir_of s" "aspace s' = aspace s"
proof -
  show d: "live s' = live s" "dir_of s' = dir_of s" "aspace s' = aspace s"
    using e aspace_same[OF pm(1)] by (simp_all add: live_def dir_of_def fun_eq_iff)
  have a: "asid_set s' = asid_set s" by (simp add: asid_set_def k)
  have "pm_inv ext (dir_of s ` live s) s'"
    by (rule pm_inv_same[of ext _ s]) (use inv pm in \<open>simp_all add: kern_inv_def\<close>)
  then show "kern_inv ext s'"
    using inv q e(1) unfolding kern_inv_def d freeq_def asid_ok_def a e(3) k pm by auto
qed

lemma pm_truncate_fields:
  fixes s s' :: kern
  assumes "pm.truncate s' = pm.truncate s"
  shows "pmem s' = pmem s" "npage s' = npage s" "pp_ref s' = pp_ref s" "page_free_list s' = page_free_list s"
    "tlb s' = tlb s"
  using assms by (simp_all add: pm.truncate_def)

lemma kern_inv_schedule:
  assumes inv: "kern_inv ext s" and q: "runq s rl" and c: "cur_settled s"
    and rr: "rr_step yield (\<lambda>e. env_pri (envs s e)) (rl, curenv s, sched_count s) = Some (e, rl', cnt)"
  obtains s' where "schedule yield s = Ret s'" "kern_inv ext s'" "runq s' rl'" "curenv s' = Some e"
    "sched_count s' = cnt" "same_envs s s'" "live s' = live s" "dir_of s' = dir_of s" "aspace s' = aspace s"
    "\<forall>c. curenv s = Some c \<longrightarrow> env_tf (envs s' c) = kstack_tf s"
    "\<forall>c. curenv s \<noteq> Some c \<longrightarrow> env_tf (envs s' c) = env_tf (envs s c)"
    "cur_pgdir s' = env_pgdir (envs s e)" "cpu_entryhi s' = push_bit 6 (env_asid (envs s e))"
    "cpu_tf s' = (if curenv s = Some e then kstack_tf s else env_tf (envs s e))" "e \<in> set rl"
proof -
  obtain s' where s': "schedule yield s = Ret s'" "runq s' rl'" "curenv s' = Some e" "sched_count s' = cnt"
    "same_envs s s'" "pm.truncate s' = pm.truncate s" "set rl' = set rl" "e \<in> set rl'"
    "cur_pgdir s' = env_pgdir (envs s e)" "cpu_entryhi s' = push_bit 6 (env_asid (envs s e))"
    "cpu_tf s' = (if curenv s = Some e then kstack_tf s else env_tf (envs s e))"
    "\<forall>c. curenv s = Some c \<longrightarrow> env_tf (envs s' c) = kstack_tf s"
    "\<forall>c. curenv s \<noteq> Some c \<longrightarrow> env_tf (envs s' c) = env_tf (envs s c)"
    "env_free_list s' = env_free_list s" "asid_bitmap s' = asid_bitmap s"
    by (rule schedule_ok[OF q c rr])
  note f = pm_truncate_fields[OF s'(6)]
  note k = kern_inv_same[OF inv f(1-4) s'(15,14) _ _ _ s'(2)]
  have "kern_inv ext s'" "live s' = live s" "dir_of s' = dir_of s" "aspace s' = aspace s"
    by (rule k; simp add: same_envs_fields[OF s'(5)])+
  then show ?thesis using that s' by simp
qed

section \<open>Identifiers\<close>

lemma ENVX_mkenvid: "e < NENV \<Longrightarrow> ENVX (push_bit 11 k OR of_nat e) = e"
proof -
  assume e: "e < NENV"
  have m: "(0x3FF :: u32) = mask 10" by (simp add: mask_eq_exp_minus_1)
  have s: "(of_nat e :: u32) = take_bit 10 (of_nat e)"
    using e by (simp add: take_bit_of_nat take_bit_nat_eq_self)
  have "(push_bit 11 k OR of_nat e) AND mask 10 = (of_nat e :: u32)"
    apply (subst (2) s, subst s)
    by (rule bit_word_eqI) (auto simp: bit_simps)
  then show ?thesis using e unfolding ENVX_def m by (simp add: unat_of_nat)
qed

lemma mkenvid_nonzero:
  assumes "k \<noteq> 0" "unat k < 2 ^ 21"
  shows "push_bit 11 (k :: u32) OR of_nat e \<noteq> 0"
proof
  assume z: "push_bit 11 k OR of_nat e = (0 :: u32)"
  have "push_bit 11 k = (0 :: u32)"
  proof (rule bit_word_eqI)
    fix n
    have "\<not> bit (push_bit 11 k OR of_nat e :: u32) n" unfolding z by simp
    then show "bit (push_bit 11 k) n = bit (0 :: u32) n" by (simp add: bit_or_iff)
  qed
  then have "unat (k * 2048) = 0" by (simp add: push_bit_eq_mult)
  moreover have "unat (k * 2048) = unat k * 2048" using assms(2) by (simp add: unat_word_ariths)
  ultimately have "unat k = 0" by simp
  then show False using assms(1) by (simp add: unat_eq_0)
qed

section \<open>Creation\<close>

text \<open>A new environment that is not runnable, with a page directory and an identifier of its own.\<close>

lemma kern_inv_add:
  assumes inv: "kern_inv ext s" and fq: "freeq s (e # fl)"
    and pm: "pm_inv ext (insert p (dir_of s ` live s)) s'" "p \<notin> dir_of s ` live s" "npage s' = npage s"
    and es: "\<forall>x. x \<noteq> e \<longrightarrow> envs s' x = envs s x" "env_pgdir (envs s' e) = p"
      "env_status (envs s' e) = ENV_NOT_RUNNABLE" "unat (env_asid (envs s' e)) = a"
    and ls: "list_rep (env_free_list s') fl" "env_sched_list s' = env_sched_list s"
    and as: "asid_set s' = insert a (asid_set s)" "a \<notin> asid_set s"
  shows "kern_inv ext s'" "live s' = insert e (live s)" "e \<notin> live s" "\<forall>x \<in> live s. dir_of s' x = dir_of s x"
proof -
  obtain rl where I: "inj_on (dir_of s) (live s)" "runq s rl" "asid_ok s" "npage s \<le> 2 ^ 19"
    by (rule kern_inv_exts[OF inv])
  have e: "e < NENV" "env_status (envs s e) = ENV_FREE" "distinct (e # fl)"
    using fq list_rep_distinct[of "env_free_list s" "e # fl"] by (auto simp: freeq_def)
  then show el: "e \<notin> live s" by (simp add: live_def)
  show lv: "live s' = insert e (live s)" using es(1,3) e by (auto simp: live_def)
  show dx: "\<forall>x \<in> live s. dir_of s' x = dir_of s x" using es(1) el by (auto simp: dir_of_def)
  have de: "dir_of s' e = p" by (simp add: dir_of_def es(2))
  have img: "dir_of s' ` live s = dir_of s ` live s" using dx by auto
  have pm': "pm_inv ext (dir_of s' ` live s') s'" using pm(1) by (simp add: lv de img)
  have "inj_on (dir_of s') (live s)" using I(1) dx by (simp cong: inj_on_cong)
  then have inj: "inj_on (dir_of s') (live s')" using el pm(2) de unfolding lv inj_on_insert by (simp add: img)
  have st: "env_status (envs s' x) = (if x = e then ENV_NOT_RUNNABLE else env_status (envs s x))" for x
    using es(1,3) by simp
  have "set fl = {x. x < NENV \<and> env_status (envs s x) = ENV_FREE} - {e}"
    using fq e(3) unfolding freeq_def by (metis Diff_insert_absorb distinct.simps(2) list.simps(15))
  then have fq': "freeq s' fl" using ls(1) st by (auto simp: freeq_def)
  have rq: "runq s' rl" using I(2) ls(2) st e(2) by (auto simp: runq_def)
  have x: "env_asid (envs s' x) = env_asid (envs s x)" if "x \<in> live s" for x using that es(1) el by auto
  have "inj_on (\<lambda>x. unat (env_asid (envs s' x))) (live s)" "(\<lambda>x. unat (env_asid (envs s' x))) ` live s = asid_set s"
    using I(3) x unfolding asid_ok_def by (simp_all cong: inj_on_cong image_cong)
  then have "asid_ok s'" using es(4) el as unfolding asid_ok_def lv inj_on_insert by simp
  then show "kern_inv ext s'" using pm' inj fq' rq I(4) pm(3) by (auto simp: kern_inv_def)
qed

lemma exofork_ok:
  assumes inv: "kern_inv ext s" and c: "curenv s = Some c" "c \<in> live s"
    and asid: "asid_set s \<noteq> {..<NASID}" and gen: "unat (mkenvid_i s) + 1 < 2 ^ 21"
    and fq: "freeq s (e # fl)" and pfl: "free_ok s (p # pfl)"
  obtains s' where "sys_exofork s = Ret (Back (uint (env_id (envs s' e))), s')" "kern_inv ext s'"
    "e \<notin> live s" "live s' = insert e (live s)" "curenv s' = Some c"
    "envid2env (env_id (envs s' e)) True s' = Ret (0, Some e)"
    "env_tf (envs s' e) = (kstack_tf s)\<lparr>regs := (regs (kstack_tf s))(2 := 0)\<rparr>"
    "env_status (envs s' e) = ENV_NOT_RUNNABLE" "env_pri (envs s' e) = env_pri (envs s c)"
    "aspace s' (dir_of s' e) = Map.empty"
    "\<forall>x \<in> live s. envs s' x = envs s x \<and> aspace s' (dir_of s' x) = aspace s (dir_of s x)"
    "env_id (envs s' e) \<noteq> 0" "cur_pgdir s' = cur_pgdir s" "npage s' = npage s" "\<forall>q. q \<noteq> p \<longrightarrow> pmem s' q = pmem s q"
    "dir_of s' e = p" "free_ok s' pfl"
proof -
  let ?D = "dir_of s ` live s"
  obtain s1 a where s1: "env_alloc (env_id (envs s c)) s = Ret ((0, Some e), s1)"
    "pm_inv ext (insert p ?D) s1" "p \<notin> ?D" "\<forall>d \<in> ?D. aspace s1 d = aspace s d" "aspace s1 p = Map.empty"
    "npage s1 = npage s" "list_rep (env_free_list s1) fl" "curenv s1 = curenv s"
    "env_sched_list s1 = env_sched_list s" "kstack_tf s1 = kstack_tf s" "asid_set s1 = insert a (asid_set s)"
    "a \<notin> asid_set s" "a < NASID" "\<forall>x. x \<noteq> e \<longrightarrow> envs s1 x = envs s x"
    "env_id (envs s1 e) = push_bit 11 (mkenvid_i s + 1) OR of_nat e" "env_pgdir (envs s1 e) = p"
    "env_asid (envs s1 e) = of_nat a" "env_parent_id (envs s1 e) = env_id (envs s c)"
    "\<forall>q. q \<noteq> p \<longrightarrow> pmem s1 q = pmem s q" "cur_pgdir s1 = cur_pgdir s" "free_ok s1 pfl"
    by (rule env_alloc_ok[OF inv fq pfl asid])
  have ce: "c \<noteq> e" and e: "e < NENV" using c(2) fq by (auto simp: freeq_def live_def)
  define f where "f x = x\<lparr>env_tf := (kstack_tf s)\<lparr>regs := (regs (kstack_tf s))(2 := 0)\<rparr>,
    env_status := ENV_NOT_RUNNABLE, env_pri := env_pri (envs s c)\<rparr>" for x :: env
  define s' where "s' = upd_env e f s1"
  have run: "sys_exofork s = Ret (Back (uint (env_id (envs s' e))), s')"
    using s1(1,10,14) c(1) ce by (simp add: sys_exofork_def with_cur_def Let_def s'_def f_def upd_env_def)
  have es: "envs s' = (envs s1)(e := f (envs s1 e))" by (simp add: s'_def)
  have pm: "pm_inv ext (insert p ?D) s'" using s1(2) by (rule pm_inv_same) (simp_all add: s'_def)
  have as: "asid_set s' = insert a (asid_set s)" using s1(11) by (simp add: asid_set_def s'_def)
  have fe: "\<forall>x. x \<noteq> e \<longrightarrow> envs s' x = envs s x" "env_pgdir (envs s' e) = p"
    "env_status (envs s' e) = ENV_NOT_RUNNABLE" "unat (env_asid (envs s' e)) = a"
    "list_rep (env_free_list s') fl" "env_sched_list s' = env_sched_list s" "npage s' = npage s"
    using s1(6,7,9,13,14,16,17) by (simp_all add: es f_def s'_def unat_of_nat)
  note k = kern_inv_add[OF inv fq pm s1(3) fe(7) fe(1-6) as s1(12)]
  have id: "env_id (envs s' e) = push_bit 11 (mkenvid_i s + 1) OR of_nat e" by (simp add: es f_def s1(15))
  have "unat (mkenvid_i s + 1) = unat (mkenvid_i s) + 1" using gen by (simp add: unat_word_ariths)
  then have nz: "env_id (envs s' e) \<noteq> 0" unfolding id using gen by (intro mkenvid_nonzero) auto
  have ex: "ENVX (env_id (envs s' e)) = e" unfolding id using e by (rule ENVX_mkenvid)
  have par: "env_parent_id (envs s' e) = env_id (envs s' c)" using s1(14,18) ce by (simp add: es f_def)
  have ok: "envid2env (env_id (envs s' e)) True s' = Ret (0, Some e)"
    using nz ex par c(1) s1(8) by (simp add: envid2env_def Let_def) (simp add: s'_def f_def)
  have ap: "aspace s' = aspace s1" by (rule HOL.ext, rule aspace_same) (simp add: s'_def)
  have old: "\<forall>x \<in> live s. envs s' x = envs s x \<and> aspace s' (dir_of s' x) = aspace s (dir_of s x)"
    using k(3,4) fe(1) s1(4) by (auto simp: ap)
  show ?thesis
  proof (rule that[OF run k(1,3,2) _ ok _ fe(3) _ _ old nz _ fe(7)])
    show "aspace s' (dir_of s' e) = Map.empty" by (simp add: ap dir_of_def fe(2) s1(5))
  qed (use s1(8,16,19-21) c(1) in \<open>simp_all add: s'_def f_def dir_of_def free_ok_def\<close>)
qed

lemma exofork_no_asid:
  assumes inv: "kern_inv ext s" and c: "curenv s = Some c" and asid: "asid_set s = {..<NASID}"
    and fq: "freeq s (e # fl)" and pfl: "free_ok s (p # pfl)"
  obtains s' where "sys_exofork s = Ret (Back (- E_NO_FREE_ENV), s')" "kern_inv (ext(p := Suc (ext p))) s'" "free_ok s' pfl"
    "live s' = live s" "curenv s' = Some c" "\<forall>q. q \<noteq> p \<longrightarrow> pmem s' q = pmem s q"
    "\<forall>x \<in> live s. envs s' x = envs s x \<and> aspace s' (dir_of s' x) = aspace s (dir_of s x)"
proof -
  obtain s' where s': "env_alloc (env_id (envs s c)) s = Ret ((- E_NO_FREE_ENV, None), s')"
    "kern_inv (ext(p := Suc (ext p))) s'" "free_ok s' pfl" "live s' = live s" "curenv s' = curenv s"
    "\<forall>x. x \<noteq> e \<longrightarrow> envs s' x = envs s x" "\<forall>q. q \<noteq> p \<longrightarrow> pmem s' q = pmem s q" "e \<notin> live s"
    "\<forall>d \<in> dir_of s ` live s. aspace s' d = aspace s d"
    by (rule env_alloc_no_asid[OF inv fq pfl asid])
  have "sys_exofork s = Ret (Back (- E_NO_FREE_ENV), s')" using s'(1) c by (simp add: sys_exofork_def with_cur_def)
  moreover have "\<forall>x \<in> live s. envs s' x = envs s x \<and> aspace s' (dir_of s' x) = aspace s (dir_of s x)"
    using s'(6,8,9) by (auto simp: dir_of_def)
  ultimately show ?thesis using that[of s'] s'(2-5,7) c by simp
qed

text \<open>
  C8. \<open>sys_exofork\<close>, on every branch: without a free environment it returns \<open>-E_NO_FREE_ENV\<close>, and without a
  free page \<open>-E_NO_MEM\<close>, with nothing changed. When all address space identifiers are in use it also
  returns \<open>-E_NO_FREE_ENV\<close>, and then a free page has been lost to a directory that nobody refers to: its
  count holds one reference more than the kernel accounts for, and the environments, address spaces and
  other free pages are as before. Otherwise it creates a child, returns an identifier that resolves to
  it for its parent, and the child has the parent's registers with 0 as result, an empty address space
  in one formerly free page, and is not runnable; all other environments and pages are untouched and the
  kernel's invariant is kept. (The generation counter of the identifiers must not have wrapped.)
\<close>

theorem sys_exofork_correct:
  assumes inv: "kern_inv ext s" and c: "curenv s = Some c" "c \<in> live s" and gen: "unat (mkenvid_i s) + 1 < 2 ^ 21"
  shows "if LIST_EMPTY (env_free_list s) then sys_exofork s = Ret (Back (- E_NO_FREE_ENV), s)
    else if LIST_EMPTY (page_free_list s) then sys_exofork s = Ret (Back (- E_NO_MEM), s)
    else if asid_set s = {..<NASID}
    then \<exists>p s'. sys_exofork s = Ret (Back (- E_NO_FREE_ENV), s') \<and> page_is_free s p \<and>
      kern_inv (ext(p := Suc (ext p))) s' \<and> (\<forall>q. page_is_free s' q \<longleftrightarrow> page_is_free s q \<and> q \<noteq> p) \<and>
      live s' = live s \<and> curenv s' = Some c \<and> (\<forall>q. q \<noteq> p \<longrightarrow> pmem s' q = pmem s q) \<and>
      (\<forall>x \<in> live s. envs s' x = envs s x \<and> aspace s' (dir_of s' x) = aspace s (dir_of s x))
    else \<exists>e s'. sys_exofork s = Ret (Back (uint (env_id (envs s' e))), s') \<and> kern_inv ext s' \<and>
      e \<notin> live s \<and> live s' = insert e (live s) \<and> curenv s' = Some c \<and>
      envid2env (env_id (envs s' e)) True s' = Ret (0, Some e) \<and>
      env_tf (envs s' e) = (kstack_tf s)\<lparr>regs := (regs (kstack_tf s))(2 := 0)\<rparr> \<and>
      env_status (envs s' e) = ENV_NOT_RUNNABLE \<and> env_pri (envs s' e) = env_pri (envs s c) \<and>
      aspace s' (dir_of s' e) = Map.empty \<and> page_is_free s (dir_of s' e) \<and>
      (\<forall>q. q \<noteq> dir_of s' e \<longrightarrow> pmem s' q = pmem s q) \<and>
      (\<forall>q. page_is_free s' q \<longleftrightarrow> page_is_free s q \<and> q \<noteq> dir_of s' e) \<and>
      (\<forall>x \<in> live s. envs s' x = envs s x \<and> aspace s' (dir_of s' x) = aspace s (dir_of s x))"
proof -
  obtain fl rl pfl where I: "freeq s fl" "free_ok s pfl" by (rule kern_inv_exts[OF inv])
  have le: "LIST_EMPTY (env_free_list s) = (fl = [])" using I(1) by (simp add: freeq_def list_rep_empty)
  have fst: "LIST_FIRST (env_free_list s) = Some (hd fl)" if "fl \<noteq> []"
    using that I(1) list_rep_first[of "env_free_list s" "hd fl" "tl fl"] by (simp add: freeq_def)
  consider "fl = []" | "fl \<noteq> []" "pfl = []" | e fl' p pfl' where "fl = e # fl'" "pfl = p # pfl'"
    by (meson neq_Nil_conv)
  then show ?thesis
  proof cases
    case 1
    then show ?thesis using le c(1) by (simp add: sys_exofork_def with_cur_def env_alloc_def)
  next
    case 2
    then show ?thesis using le c(1) fst LIST_EMPTY_free_ok[OF I(2)]
      by (simp add: sys_exofork_def with_cur_def env_alloc_def env_setup_vm_def page_alloc_def)
  next
    case 3
    then have n: "\<not> LIST_EMPTY (env_free_list s)" "\<not> LIST_EMPTY (page_free_list s)"
      using le LIST_EMPTY_free_ok[OF I(2)] by simp_all
    have fr: "page_is_free s q = (q = p \<or> q \<in> set pfl')" for q using I(2) 3(2) by (simp add: page_is_free_iff)
    have pd: "p \<notin> set pfl'" using I(2) 3(2) list_rep_distinct[of "page_free_list s" "p # pfl'"] by (simp add: free_ok_def)
    show ?thesis
    proof (cases "asid_set s = {..<NASID}")
      case True
      obtain s' where s': "sys_exofork s = Ret (Back (- E_NO_FREE_ENV), s')" "kern_inv (ext(p := Suc (ext p))) s'" "free_ok s' pfl'"
        "live s' = live s" "curenv s' = Some c" "\<forall>q. q \<noteq> p \<longrightarrow> pmem s' q = pmem s q"
        "\<forall>x \<in> live s. envs s' x = envs s x \<and> aspace s' (dir_of s' x) = aspace s (dir_of s x)"
        by (rule exofork_no_asid[OF inv c(1) True I(1)[unfolded 3] I(2)[unfolded 3]])
      have "\<forall>q. page_is_free s' q \<longleftrightarrow> page_is_free s q \<and> q \<noteq> p" using pd by (auto simp: fr page_is_free_iff[OF s'(3)])
      then show ?thesis unfolding if_not_P[OF n(1)] if_not_P[OF n(2)] if_P[OF True]
        using s' fr by (intro exI[of _ p] exI[of _ s'] conjI) simp_all
    next
      case False
      show ?thesis unfolding if_not_P[OF n(1)] if_not_P[OF n(2)] if_not_P[OF False]
      proof (rule exofork_ok[OF inv c False gen I(1)[unfolded 3] I(2)[unfolded 3]])
        fix e s'
        assume a: "dir_of s' e = p" "free_ok s' pfl'"
        have h: "page_is_free s (dir_of s' e)" "\<forall>q. page_is_free s' q \<longleftrightarrow> page_is_free s q \<and> q \<noteq> dir_of s' e"
          using pd by (auto simp: a(1) fr page_is_free_iff[OF a(2)])
        assume r: "sys_exofork s = Ret (Back (uint (env_id (envs s' e))), s')" "kern_inv ext s'"
          "e \<notin> live s" "live s' = insert e (live s)" "curenv s' = Some c"
          "envid2env (env_id (envs s' e)) True s' = Ret (0, Some e)"
          "env_tf (envs s' e) = (kstack_tf s)\<lparr>regs := (regs (kstack_tf s))(2 := 0)\<rparr>"
          "env_status (envs s' e) = ENV_NOT_RUNNABLE" "env_pri (envs s' e) = env_pri (envs s c)"
          "aspace s' (dir_of s' e) = Map.empty" "\<forall>x \<in> live s. envs s' x = envs s x \<and> aspace s' (dir_of s' x) = aspace s (dir_of s x)"
        assume "\<forall>q. q \<noteq> p \<longrightarrow> pmem s' q = pmem s q"
        then have m: "\<forall>q. q \<noteq> dir_of s' e \<longrightarrow> pmem s' q = pmem s q" by (simp only: a(1))
        show "\<exists>e s'. sys_exofork s = Ret (Back (uint (env_id (envs s' e))), s') \<and> kern_inv ext s' \<and>
          e \<notin> live s \<and> live s' = insert e (live s) \<and> curenv s' = Some c \<and>
          envid2env (env_id (envs s' e)) True s' = Ret (0, Some e) \<and>
          env_tf (envs s' e) = (kstack_tf s)\<lparr>regs := (regs (kstack_tf s))(2 := 0)\<rparr> \<and>
          env_status (envs s' e) = ENV_NOT_RUNNABLE \<and> env_pri (envs s' e) = env_pri (envs s c) \<and>
          aspace s' (dir_of s' e) = Map.empty \<and> page_is_free s (dir_of s' e) \<and>
          (\<forall>q. q \<noteq> dir_of s' e \<longrightarrow> pmem s' q = pmem s q) \<and>
          (\<forall>q. page_is_free s' q \<longleftrightarrow> page_is_free s q \<and> q \<noteq> dir_of s' e) \<and>
          (\<forall>x \<in> live s. envs s' x = envs s x \<and> aspace s' (dir_of s' x) = aspace s (dir_of s x))"
          by (intro exI[of _ e] exI[of _ s'] conjI r h m)
      qed
    qed
  qed
qed

theorem sys_exofork_correct_witness:
  "\<exists>e s'. sys_exofork demo_kern = Ret (Back (uint (env_id (envs s' e))), s') \<and> kern_inv (\<lambda>_. 0) s' \<and>
     live s' = insert e {0, 1} \<and> envid2env (env_id (envs s' e)) True s' = Ret (0, Some e)"
proof -
  have "5 \<notin> asid_set demo_kern" "5 \<in> {..<NASID}" by (simp_all add: demo_asids)
  then have g: "asid_set demo_kern \<noteq> {..<NASID}" by metis
  have "mkenvid_i demo_kern = 2" by (simp add: demo_kern_def)
  then have g2: "unat (mkenvid_i demo_kern) + 1 < 2 ^ 21" "0 \<in> live demo_kern" by (simp_all add: demo_live)
  have "demo_free_envs \<noteq> []" unfolding demo_free_envs_def upt_eq_Nil_conv by simp
  then have ne: "\<not> LIST_EMPTY (env_free_list demo_kern)" "\<not> LIST_EMPTY (page_free_list demo_kern)"
    using demo_freeq LIST_EMPTY_free_ok[OF demo_kern_free] list_rep_empty[of "env_free_list demo_kern"]
    unfolding freeq_def by auto
  show ?thesis
    using sys_exofork_correct[OF demo_kern_inv demo_envs(4) g2(2,1)]
    unfolding if_not_P[OF ne(1)] if_not_P[OF ne(2)] if_not_P[OF g] demo_live
    by blast
qed

section \<open>Destruction\<close>

lemma freed_asid:
  assumes inv: "kern_inv ext s" "kern_inv ext s'"
    and s': "envs s' = (envs s)(e := (envs s e)\<lparr>env_status := ENV_FREE\<rparr>)" and e: "e \<in> live s"
  shows "unat (env_asid (envs s e)) \<notin> asid_set s'"
proof
  assume a: "unat (env_asid (envs s e)) \<in> asid_set s'"
  have inj: "inj_on (\<lambda>x. unat (env_asid (envs s x))) (live s)"
    using inv(1) by (simp add: kern_inv_def asid_ok_def)
  have "asid_set s' = (\<lambda>x. unat (env_asid (envs s' x))) ` live s'"
    using inv(2) by (simp add: kern_inv_def asid_ok_def)
  moreover have "live s' = live s - {e}" by (auto simp: live_def s')
  ultimately obtain x where "x \<in> live s - {e}" "unat (env_asid (envs s e)) = unat (env_asid (envs s x))"
    using a by (auto simp: s')
  with inj_onD[OF inj, of e x] e show False by auto
qed

lemma env_free_lost:
  assumes run: "env_free e s = Ret s'" and st: "pm_struct (dir_of s ` live s) s" and fl: "free_ok s fl" and e: "e \<in> live s"
    and a: "unat (env_asid (envs s e)) < NASID"
  shows "lost_pages s' = lost_pages s" "npage s' = npage s"
    "\<forall>q. q \<noteq> dir_of s e \<longrightarrow> q \<notin> tables {dir_of s e} s \<longrightarrow> pmem s' q = pmem s q"
proof -
  let ?d = "env_pgdir (envs s e)" and ?a = "env_asid (envs s e)"
  obtain c where c: "printk (''[%08x] free env %08x'' @ [CHR 0x0A])
      [AInt (case curenv s of None \<Rightarrow> 0 | Some c \<Rightarrow> env_id (envs s c)), AInt (env_id (envs s e))] s =
      Ret (s\<lparr>console := c\<rparr>)" using printk_free_env by blast
  have k: "unat (PDX UTOP) = user_pdes" by (simp add: unat_PDX mmu_defs user_pdes_def)
  obtain s1 kva pa pp s2 s3 q where s1: "free_tables [0..<user_pdes] ?d ?a (s\<lparr>console := c\<rparr>) = Ret s1"
    and s2: "page2kva (npage s1) ?d = Ret kva" "PADDR kva = Ret pa" "pa2page (npage s1) pa = Ret pp" "page_decref pp s1 = Ret s2"
    and s3: "asid_free ?a s2 = Ret s3"
    and s': "s' = (upd_env e (\<lambda>x. x\<lparr>env_status := ENV_FREE\<rparr>)
      (tlb_invalidate ?a (UVPT + push_bit 12 (PDX UVPT)) s3))
      \<lparr>env_free_list := LIST_INSERT_HEAD e (env_free_list s3), env_sched_list := q\<rparr>"
    using run c unfolding env_free_def k by (auto simp: Let_def res_simps simp del: rbind_simps)
  have de: "(?d, i) \<in> pdes (dir_of s ` live s) s" if "i < user_pdes" "pte_valid (pmem s ?d i)" for i
    using that e by (auto simp: pdes_def dir_of_def)
  have nd: "?d \<noteq> pt_of s ?d i" if "i < user_pdes" "pte_valid (pmem s ?d i)" for i
    using st pt_of_in[OF de[OF that]] e by (auto simp: pm_struct_def dir_of_def)
  have pt0: "pt_of (s\<lparr>console := c\<rparr>) ?d i = pt_of s ?d i" for i by (simp add: pt_of_def)
  have f0: "free_ok (s\<lparr>console := c\<rparr>) fl" using fl by (simp add: free_ok_def)
  obtain fl1 where f1: "free_ok s1 fl1" "lost_pages s1 = lost_pages (s\<lparr>console := c\<rparr>)" "npage s1 = npage (s\<lparr>console := c\<rparr>)"
    "\<forall>q. q \<noteq> ?d \<longrightarrow> (\<forall>i \<in> set [0..<user_pdes]. pte_valid (pmem (s\<lparr>console := c\<rparr>) ?d i) \<longrightarrow> q \<noteq> pt_of (s\<lparr>console := c\<rparr>) ?d i) \<longrightarrow>
       pmem s1 q = pmem (s\<lparr>console := c\<rparr>) q"
    by (rule free_tables_lost[OF s1 f0]) (use nd pt0 in \<open>auto simp: user_pdes_def\<close>)
  have pp: "pp < npage s1" using s2(3) by (auto simp: pa2page_def split: if_splits)
  obtain fl2 where f2: "free_ok s2 fl2" "lost_pages s2 = lost_pages s1" "npage s2 = npage s1" "pmem s2 = pmem s1"
    by (rule lost_decref[OF s2(4) f1(1) pp])
  obtain bm where bm: "asid_free ?a s2 = Ret (s2\<lparr>asid_bitmap := bm\<rparr>)"
    "asid_set (s2\<lparr>asid_bitmap := bm\<rparr>) = asid_set s2 - {unat ?a}" by (rule asid_free_ok[OF a])
  have s3': "s3 = s2\<lparr>asid_bitmap := bm\<rparr>" using bm(1) s3 by simp
  have r: "npage s' = npage s2" "pp_ref s' = pp_ref s2" "page_free_list s' = page_free_list s2" "pmem s' = pmem s2"
    by (simp_all add: s' s3' tlb_invalidate_def tlb_out_def)
  have "lost_pages s' = lost_pages s2" by (rule lost_same[OF r(1-3)])
  moreover have "lost_pages (s\<lparr>console := c\<rparr>) = lost_pages s" by (rule lost_same) simp_all
  ultimately show "lost_pages s' = lost_pages s" using f1(2) f2(2) by simp
  show "npage s' = npage s" using r(1) f1(3) f2(3) by simp
  show "\<forall>q. q \<noteq> dir_of s e \<longrightarrow> q \<notin> tables {dir_of s e} s \<longrightarrow> pmem s' q = pmem s q"
  proof (intro allI impI)
    fix q assume q: "q \<noteq> dir_of s e" "q \<notin> tables {dir_of s e} s"
    have "q \<noteq> pt_of s ?d i" if "i < user_pdes" "pte_valid (pmem s ?d i)" for i
      using q(2) that by (auto simp: tables_def pdes_def dir_of_def)
    then show "pmem s' q = pmem s q" using f1(4) q(1) pt0 by (simp add: r(4) f2(4) dir_of_def)
  qed
qed

lemma pt_disjoint:
  assumes st: "pm_struct D s" and d: "d \<in> D" shows "tables (D - {d}) s \<inter> tables {d} s = {}" "d \<notin> tables D s"
proof -
  have inj: "inj_on (\<lambda>(d, i). pt_of s d i) (pdes D s)" using st by (simp add: pm_struct_def)
  have sub: "pdes (D - {d}) s \<subseteq> pdes D s" "pdes {d} s \<subseteq> pdes D s" "pdes (D - {d}) s \<inter> pdes {d} s = {}"
    using d by (auto simp: pdes_def)
  show "tables (D - {d}) s \<inter> tables {d} s = {}"
    unfolding tables_def using inj_on_image_Int[OF inj sub(1,2)] sub(3) by simp
  show "d \<notin> tables D s" using st d by (auto simp: pm_struct_def)
qed

text \<open>
  C11. \<open>env_free\<close> on a runnable environment always returns; the environment's status becomes free and
  it leaves the queue, and everything it held is released: each page has exactly the references that
  are left without it, each page whose last reference was the environment's (its pages, page tables
  and directory) is on the free list, no page is lost, and its address space identifier is free again. No
  other environment or address space changes, and only its directory and tables are written.
\<close>

theorem env_free_correct:
  assumes inv: "kern_inv ext s" and e: "e < NENV" "env_status (envs s e) = ENV_RUNNABLE"
  shows "\<exists>s'. env_free e s = Ret s' \<and> kern_inv ext s' \<and> live s' = live s - {e} \<and>
    envs s' = (envs s)(e := (envs s e)\<lparr>env_status := ENV_FREE\<rparr>) \<and>
    asid_set s' = asid_set s - {unat (env_asid (envs s e))} \<and> unat (env_asid (envs s e)) \<in> asid_set s \<and>
    (\<forall>p < npage s. unat (pp_ref s' p) = ext p + pg_refs (dir_of s ` (live s - {e})) s p) \<and>
    (\<forall>p < npage s. page_is_free s' p \<longleftrightarrow> ext p + pg_refs (dir_of s ` (live s - {e})) s p = 0 \<and> p \<notin> lost_pages s) \<and>
    lost_pages s' = lost_pages s \<and> npage s' = npage s \<and>
    (\<forall>x \<in> live s - {e}. aspace s' (dir_of s x) = aspace s (dir_of s x)) \<and>
    (\<forall>q. q \<noteq> dir_of s e \<longrightarrow> q \<notin> tables {dir_of s e} s \<longrightarrow> pmem s' q = pmem s q)"
proof -
  obtain s' where s': "env_free e s = Ret s'" "kern_inv ext s'"
    "envs s' = (envs s)(e := (envs s e)\<lparr>env_status := ENV_FREE\<rparr>)"
    "\<forall>x \<in> live s - {e}. aspace s' (dir_of s x) = aspace s (dir_of s x)"
    by (rule env_free_ok[OF inv e])
  obtain pfl where I: "inj_on (dir_of s) (live s)" "asid_ok s" "free_ok s pfl" "pm_struct (dir_of s ` live s) s"
    by (rule kern_inv_exts[OF inv])
  have el: "e \<in> live s" using e by (simp add: live_def)
  have al: "unat (env_asid (envs s e)) \<in> asid_set s" using I(2) el by (auto simp: asid_ok_def)
  then have an: "unat (env_asid (envs s e)) < NASID" by (simp add: asid_set_def)
  have as: "asid_set s' = asid_set s - {unat (env_asid (envs s e))}"
  proof -
    have inj: "inj_on (\<lambda>x. unat (env_asid (envs s x))) (live s)" using I(2) by (simp add: asid_ok_def)
    have lv: "live s' = live s - {e}" by (auto simp: live_def s'(3))
    have "asid_set s' = (\<lambda>x. unat (env_asid (envs s' x))) ` live s'" using s'(2) by (simp add: kern_inv_def asid_ok_def)
    also have "\<dots> = (\<lambda>x. unat (env_asid (envs s x))) ` (live s - {e})" unfolding lv by (rule image_cong) (simp_all add: s'(3))
    finally show ?thesis using inj_on_image_set_diff[OF inj, of "live s" "{e}"] el I(2) by (auto simp: asid_ok_def)
  qed
  note L = env_free_lost[OF s'(1) I(4,3) el an]
  have lv: "live s' = live s - {e}" by (auto simp: live_def s'(3))
  let ?D = "dir_of s ` (live s - {e})"
  have dr: "dir_of s' ` live s' = ?D" unfolding lv by (rule image_cong) (simp_all add: dir_of_def s'(3))
  have D: "?D = dir_of s ` live s - {dir_of s e}" using I(1) el by (auto simp: inj_on_def)
  note dj = pt_disjoint[OF I(4), of "dir_of s e", folded D]
  have q1: "pmem s' q = pmem s q" if "q \<in> ?D" for q
  proof -
    have "tables {dir_of s e} s \<subseteq> tables (dir_of s ` live s) s" using el by (auto simp: tables_def pdes_def)
    moreover have "q \<in> dir_of s ` live s" "q \<noteq> dir_of s e" using that unfolding D by auto
    ultimately have "q \<notin> tables {dir_of s e} s" using pt_disjoint(2)[OF I(4), of q] by auto
    then show ?thesis using L(3) \<open>q \<noteq> dir_of s e\<close> by simp
  qed
  have q2: "pmem s' q = pmem s q" if "q \<in> tables ?D s" for q
  proof -
    have "tables ?D s \<subseteq> tables (dir_of s ` live s) s" by (auto simp: tables_def pdes_def)
    then have "q \<noteq> dir_of s e" using that dj(2) el by auto
    then show ?thesis using that dj(1) el L(3) by auto
  qed
  have pg: "pg_refs ?D s' = pg_refs ?D s" by (rule refs_cong(7)[OF q1 q2])
  have co: "unat (pp_ref s' p) = ext p + pg_refs ?D s p" if "p < npage s" for p
    using s'(2) that unfolding kern_inv_def pm_inv_def count_ok_def dr pg L(2) by blast
  obtain fl' where "free_ok s' fl'" by (rule kern_inv_exts[OF s'(2)])
  then have "page_is_free s' p \<Longrightarrow> pp_ref s' p = 0" for p by (simp add: page_is_free_iff) (simp add: free_ok_def)
  then have "page_is_free s' p = (ext p + pg_refs ?D s p = 0 \<and> p \<notin> lost_pages s)" if "p < npage s" for p
    unfolding co[OF that, symmetric] L(1)[symmetric] unat_eq_0 using that by (auto simp: lost_pages_def L(2))
  then show ?thesis using s' lv L al as co by (intro exI[of _ s'] conjI) simp_all
qed

theorem env_free_correct_witness:
  "\<exists>s'. env_free 0 demo_kern = Ret s' \<and> kern_inv (\<lambda>_. 0) s' \<and> live s' = {1} \<and> lost_pages s' = lost_pages demo_kern"
  using env_free_correct[OF demo_kern_inv, of 0] by (auto simp: demo_live demo_env_def)

section \<open>Scheduling\<close>

text \<open>
  C12. \<open>schedule\<close> refines the abstract round-robin machine: with the queue holding the runnable
  environments, it returns, makes the environment chosen by \<open>rr_step\<close> current with its address space and
  saved registers, saves the registers of the interrupted one, leaves in the queue what \<open>rr_step\<close>
  says, and keeps the kernel's invariant and all address spaces.
\<close>

theorem schedule_refines:
  assumes inv: "kern_inv ext s" and q: "runq s rl" and c: "cur_settled s"
    and rr: "rr_step yield (\<lambda>e. env_pri (envs s e)) (rl, curenv s, sched_count s) = Some (e, rl', cnt)"
  shows "\<exists>s'. schedule yield s = Ret s' \<and> kern_inv ext s' \<and> runq s' rl' \<and> curenv s' = Some e \<and>
    sched_count s' = cnt \<and> aspace s' = aspace s \<and> live s' = live s \<and>
    cur_pgdir s' = dir_of s e \<and> cpu_entryhi s' = push_bit 6 (env_asid (envs s e)) \<and>
    cpu_tf s' = (if curenv s = Some e then kstack_tf s else env_tf (envs s e)) \<and>
    (\<forall>c. env_tf (envs s' c) = (if curenv s = Some c then kstack_tf s else env_tf (envs s c)))"
proof -
  obtain s' where "schedule yield s = Ret s'" "kern_inv ext s'" "runq s' rl'" "curenv s' = Some e"
    "sched_count s' = cnt" "live s' = live s" "aspace s' = aspace s"
    "\<forall>c. curenv s = Some c \<longrightarrow> env_tf (envs s' c) = kstack_tf s"
    "\<forall>c. curenv s \<noteq> Some c \<longrightarrow> env_tf (envs s' c) = env_tf (envs s c)"
    "cur_pgdir s' = env_pgdir (envs s e)" "cpu_entryhi s' = push_bit 6 (env_asid (envs s e))"
    "cpu_tf s' = (if curenv s = Some e then kstack_tf s else env_tf (envs s e))"
    by (rule kern_inv_schedule[OF inv q c rr])
  then show ?thesis by (simp add: dir_of_def)
qed

lemma demo_settled: "cur_settled demo_kern"
  by (simp add: cur_settled_def demo_env_def)

theorem schedule_refines_witness:
  "\<exists>s'. schedule True demo_kern = Ret s' \<and> kern_inv (\<lambda>_. 0) s' \<and> curenv s' = Some 0"
proof -
  have "rr_step True (\<lambda>e. env_pri (envs demo_kern e)) ([0], curenv demo_kern, sched_count demo_kern) = Some (0, [0], 0)"
    by (simp add: rr_step_def demo_env_def)
  from schedule_refines[OF demo_kern_inv demo_runq demo_settled this] show ?thesis by blast
qed

text \<open>
  C13. Fairness: from a state in which \<open>c\<close> runs at the head of the queue and \<open>e\<close> waits behind \<open>q1\<close>, timer
  interrupts alone give \<open>e\<close> the processor: exactly when the slices left to \<open>c\<close> and one turn (as many
  slices as its priority) of every environment in \<open>q1\<close> have passed, whatever contexts were
  interrupted.
\<close>

theorem schedule_fair:
  assumes "runq s (c # q1 @ e # q2)" "curenv s = Some c"
    "length tfs = slices (sched_count s) + (\<Sum>x\<leftarrow>q1. turn (env_pri (envs s x))) + 1"
  shows "\<exists>s'. ticks tfs s = Ret s' \<and> curenv s' = Some e \<and> runq s' (e # q2 @ c # q1) \<and>
    sched_count s' = env_pri (envs s e) - 1"
proof -
  obtain s' where "ticks tfs s = Ret s'" "runq s' (e # q2 @ c # q1)" "curenv s' = Some e" "same_envs s s'"
    "sched_count s' = env_pri (envs s e) - 1"
    by (rule ticks_fair[OF assms])
  then show ?thesis by blast
qed

text \<open>The kernel of the examples with the child in the queue too.\<close>

definition demo_two :: kern where
  "demo_two = upd_env 1 (\<lambda>x. x\<lparr>env_status := ENV_RUNNABLE\<rparr>) (demo_kern\<lparr>env_sched_list :=
     fold TAILQ_INSERT_HEAD [1, 0] \<lparr>tqh_first = None, tqh_last = SHead, tqe_next = (\<lambda>_. None), tqe_prev = (\<lambda>_. SNull)\<rparr>\<rparr>)"

lemma demo_two_runq: "runq demo_two [0, 1]"
proof -
  have "tailq_rep \<lparr>tqh_first = None, tqh_last = SHead, tqe_next = (\<lambda>_. None :: nat option), tqe_prev = (\<lambda>_. SNull)\<rparr> []"
    by (simp add: tailq_rep_def)
  then have "tailq_rep (env_sched_list demo_two) [0, 1]"
    using tq.rep_fold_ins_head[of _ "[]" "[1, 0 :: nat]"] by (simp add: demo_two_def)
  moreover have "{e. e < NENV \<and> env_status (envs demo_two e) = ENV_RUNNABLE} = {0, 1}"
    by (auto simp: demo_two_def demo_kern_def demo_env_def)
  ultimately show ?thesis by (simp add: runq_def)
qed

theorem schedule_fair_witness:
  "\<exists>s'. ticks [empty_tf, empty_tf] demo_two = Ret s' \<and> curenv s' = Some 1 \<and> runq s' [1, 0]"
proof -
  have "curenv demo_two = Some 0" "slices (sched_count demo_two) = 1"
    by (simp_all add: demo_two_def demo_kern_def slices_def)
  then show ?thesis
    using schedule_fair[of demo_two 0 "[]" 1 "[]" "[empty_tf, empty_tf]"] demo_two_runq by auto
qed

section \<open>Status\<close>

lemma set_status_ok:
  assumes inv: "kern_inv ext s" and e: "envid2env envid True s = Ret (0, Some e)" "e \<in> live s"
    and q: "runq s rl" and st: "status \<in> {ENV_RUNNABLE, ENV_NOT_RUNNABLE}"
  obtains q' s' where "s' = upd_env e (\<lambda>x. x\<lparr>env_status := status\<rparr>) (s\<lparr>env_sched_list := q'\<rparr>)"
    "sys_set_env_status envid status s = Ret (Back 0, s')" "kern_inv ext s'"
    "envs s' = (envs s)(e := (envs s e)\<lparr>env_status := status\<rparr>)" "aspace s' = aspace s"
    "runq s' (if status = ENV_NOT_RUNNABLE then remove1 e rl else if e \<in> set rl then rl else rl @ [e])"
proof -
  define ql where "ql = (if status = ENV_NOT_RUNNABLE then remove1 e rl else if e \<in> set rl then rl else rl @ [e])"
  have rep: "tailq_rep (env_sched_list s) rl" using q by (simp add: runq_def)
  have er: "(e \<in> set rl) = (env_status (envs s e) = ENV_RUNNABLE)" "e < NENV"
    using q e(2) by (auto simp: runq_def live_def)
  have "\<exists>q'. (if status = ENV_RUNNABLE \<and> env_status (envs s e) \<noteq> ENV_RUNNABLE
               then TAILQ_INSERT_TAIL e (env_sched_list s)
               else if status \<noteq> ENV_RUNNABLE \<and> env_status (envs s e) = ENV_RUNNABLE
               then TAILQ_REMOVE e (env_sched_list s)
               else Ret (env_sched_list s)) = Ret q' \<and> tailq_rep q' ql"
    using st er rep tailq_rep_insert_tail[OF rep, of e] tailq_rep_remove[OF rep, of e]
    by (cases "e \<in> set rl") (auto simp: ql_def remove1_idem)
  then obtain q' where q': "(if status = ENV_RUNNABLE \<and> env_status (envs s e) \<noteq> ENV_RUNNABLE
               then TAILQ_INSERT_TAIL e (env_sched_list s)
               else if status \<noteq> ENV_RUNNABLE \<and> env_status (envs s e) = ENV_RUNNABLE
               then TAILQ_REMOVE e (env_sched_list s)
               else Ret (env_sched_list s)) = Ret q'" "tailq_rep q' ql" by blast
  define s' where "s' = upd_env e (\<lambda>x. x\<lparr>env_status := status\<rparr>) (s\<lparr>env_sched_list := q'\<rparr>)"
  have run: "sys_set_env_status envid status s = Ret (Back 0, s')"
    unfolding sys_set_env_status_def with_env_ok[OF e(1)] q'(1) using st by (auto simp: s'_def)
  have es: "envs s' = (envs s)(e := (envs s e)\<lparr>env_status := status\<rparr>)" by (simp add: s'_def)
  have "set ql = {x. x < NENV \<and> env_status (envs s' x) = ENV_RUNNABLE}"
    using q st er tailq_rep_distinct[OF rep] by (auto simp: ql_def runq_def es set_remove1_eq)
  then have rq: "runq s' ql" using q'(2) by (simp add: runq_def s'_def)
  have ki: "kern_inv ext s'" "aspace s' = aspace s"
    by (rule kern_inv_same[OF inv _ _ _ _ _ _ _ _ _ rq]; use st e(2) in \<open>auto simp: s'_def live_def\<close>)+
  show ?thesis using that[OF s'_def run ki(1) es ki(2)] rq unfolding ql_def by simp
qed

lemma set_tlb_mod_ok:
  assumes inv: "kern_inv ext s" and e: "envid2env envid True s = Ret (0, Some e)"
  obtains s' where "sys_set_tlb_mod_entry envid func s = Ret (Back 0, s')" "kern_inv ext s'"
    "s' = upd_env e (\<lambda>x. x\<lparr>env_user_tlb_mod_entry := func\<rparr>) s" "live s' = live s" "dir_of s' = dir_of s" "aspace s' = aspace s"
proof -
  obtain rl where rl: "runq s rl" by (rule kern_inv_exts[OF inv])
  define s' where "s' = upd_env e (\<lambda>x. x\<lparr>env_user_tlb_mod_entry := func\<rparr>) s"
  have "runq s' rl" using rl by (auto simp: runq_def s'_def)
  note k = kern_inv_same[OF inv _ _ _ _ _ _ _ _ _ this]
  have "kern_inv ext s'" "live s' = live s" "dir_of s' = dir_of s" "aspace s' = aspace s"
    by (rule k; simp add: s'_def)+
  then show ?thesis using that s'_def e by (simp add: sys_set_tlb_mod_entry_def with_env_ok)
qed

text \<open>
  \<open>sys_set_env_status\<close> refuses with \<open>-E_INVAL\<close> any status that is neither runnable nor not
  runnable; on an environment it may act on, it sets the status and adds the environment to the
  back of the queue or takes it out, as needed, keeping the kernel's invariant.
\<close>

theorem sys_set_env_status_correct:
  assumes inv: "kern_inv ext s" and e: "envid2env envid True s = Ret (0, Some e)" "e \<in> live s"
    and q: "runq s rl"
  shows "if status \<notin> {ENV_RUNNABLE, ENV_NOT_RUNNABLE}
    then sys_set_env_status envid status s = Ret (Back (- E_INVAL), s)
    else \<exists>s'. sys_set_env_status envid status s = Ret (Back 0, s') \<and> kern_inv ext s' \<and>
      envs s' = (envs s)(e := (envs s e)\<lparr>env_status := status\<rparr>) \<and> aspace s' = aspace s \<and>
      runq s' (if status = ENV_NOT_RUNNABLE then remove1 e rl else if e \<in> set rl then rl else rl @ [e])"
proof (cases "status \<in> {ENV_RUNNABLE, ENV_NOT_RUNNABLE}")
  case False
  then show ?thesis by (simp add: sys_set_env_status_def)
next
  case True
  obtain q' s' where "s' = upd_env e (\<lambda>x. x\<lparr>env_status := status\<rparr>) (s\<lparr>env_sched_list := q'\<rparr>)"
    and s': "sys_set_env_status envid status s = Ret (Back 0, s')" "kern_inv ext s'"
    "envs s' = (envs s)(e := (envs s e)\<lparr>env_status := status\<rparr>)" "aspace s' = aspace s"
    "runq s' (if status = ENV_NOT_RUNNABLE then remove1 e rl else if e \<in> set rl then rl else rl @ [e])"
    by (rule set_status_ok[OF inv e q True])
  from True have n: "\<not> status \<notin> {ENV_RUNNABLE, ENV_NOT_RUNNABLE}" by simp
  show ?thesis unfolding if_not_P[OF n] by (intro exI[of _ s'] conjI s')
qed

theorem sys_set_env_status_correct_witness:
  "\<exists>s'. sys_set_env_status 4097 ENV_RUNNABLE demo_kern = Ret (Back 0, s') \<and> kern_inv (\<lambda>_. 0) s' \<and> runq s' [0, 1]"
proof -
  have "envid2env 4097 True demo_kern = Ret (0, Some 1)" by (simp add: envid2env_def ENVX_def demo_env_def)
  from sys_set_env_status_correct[OF demo_kern_inv this _ demo_runq, of ENV_RUNNABLE]
  show ?thesis by (auto simp: demo_live)
qed

text \<open>
  An environment that makes itself not runnable keeps running until the next timer interrupt;
  \<open>schedule\<close> then removes it from the queue a second time, through links that are out of date. If it
  has meanwhile made its child runnable, that removal empties the queue: the kernel panics with
  ``no runnable envs'' although the child is runnable.
\<close>

theorem stale_removal_loses_env:
  "\<exists>s1 s2. sys_set_env_status 0 ENV_NOT_RUNNABLE demo_kern = Ret (Back 0, s1) \<and>
     sys_set_env_status 4097 ENV_RUNNABLE s1 = Ret (Back 0, s2) \<and>
     env_status (envs s2 1) = ENV_RUNNABLE \<and> schedule False s2 = Panic ''no runnable envs''"
proof -
  define q0 :: "nat tailq" where "q0 = \<lparr>tqh_first = None, tqh_last = SHead, tqe_next = (\<lambda>_. None), tqe_prev = (\<lambda>_. SNull)\<rparr>"
  have q: "env_sched_list demo_kern = TAILQ_INSERT_HEAD 0 q0" by (simp add: demo_kern_def q0_def)
  show ?thesis
    by (simp add: sys_set_env_status_def with_env_def envid2env_def ENVX_def demo_env_def q q0_def schedule_def
        sched_pick_def TAILQ_REMOVE_def TAILQ_INSERT_TAIL_def TAILQ_INSERT_HEAD_def tailq_store_def TAILQ_EMPTY_def Let_def)
qed

end
