(* ===== verification/IpcProps.thy ===== *)
theory IpcProps
  imports EnvProps
begin

text \<open>
  Message passing between environments, the life of identifiers, and the dispatcher's treatment of
  bad numbers.
\<close>

section \<open>Receiving\<close>

text \<open>
  \<open>sys_ipc_recv\<close> by the runnable current environment, with a destination that is 0 or legal, when
  some other environment is runnable: the caller is recorded as receiving at that address and
  leaves the queue; its saved context will return 0; the environment behind it gets the processor.
  The kernel's invariant is kept, and nothing but run counts changes in other environments.
\<close>

theorem sys_ipc_recv_correct:
  assumes inv: "kern_inv ext s" and c: "curenv s = Some c" and q: "runq s rl" "c \<in> set rl"
    and other: "remove1 c rl = e # rl'" and va: "dstva = 0 \<or> \<not> is_illegal_va dstva"
  shows "\<exists>s'. sys_ipc_recv dstva s = Ret (Gone, s') \<and> kern_inv ext s' \<and> curenv s' = Some e \<and> runq s' (e # rl') \<and>
    (\<exists>n. envs s' c = (envs s c)\<lparr>env_ipc_recving := 1, env_ipc_dstva := dstva, env_status := ENV_NOT_RUNNABLE,
      env_tf := (kstack_tf s)\<lparr>regs := (regs (kstack_tf s))(2 := 0)\<rparr>, env_runs := n\<rparr>) \<and>
    (\<forall>x. x \<noteq> c \<longrightarrow> (\<exists>n. envs s' x = (envs s x)\<lparr>env_runs := n\<rparr>)) \<and> aspace s' = aspace s"
proof -
  define f where "f x = x\<lparr>env_ipc_recving := 1, env_ipc_dstva := dstva, env_status := ENV_NOT_RUNNABLE\<rparr>" for x :: env
  have rep: "tailq_rep (env_sched_list s) rl" using q by (simp add: runq_def)
  obtain q1 where q1: "TAILQ_REMOVE c (env_sched_list s) = Ret q1" "tailq_rep q1 (e # rl')"
    using tailq_rep_remove[OF rep q(2)] other by auto
  have idem: "TAILQ_REMOVE c q1 = Ret q1" by (rule tailq_remove_idem[OF rep q(2) q1(1)])
  define s1 where "s1 = (upd_env c f s)\<lparr>env_sched_list := q1,
    kstack_tf := (kstack_tf s)\<lparr>regs := (regs (kstack_tf s))(2 := 0)\<rparr>\<rparr>"
  have es1: "envs s1 = (envs s)(c := f (envs s c))" by (simp add: s1_def)
  have st: "env_status (envs s c) = ENV_RUNNABLE" "c < NENV" using q by (auto simp: runq_def)
  have d: "distinct rl" by (rule tailq_rep_distinct[OF rep])
  then have cn: "c \<notin> set (e # rl')" using other by (metis DiffE set_remove1_eq singletonI)
  have "set (e # rl') = {x. x < NENV \<and> env_status (envs s x) = ENV_RUNNABLE} - {c}"
    using q(1) d unfolding other[symmetric] runq_def by (simp add: set_remove1_eq)
  then have "set (e # rl') = {x. x < NENV \<and> env_status (envs s1 x) = ENV_RUNNABLE}"
    by (auto simp: es1 f_def)
  then have rq1: "runq s1 (e # rl')" using q1(2) by (simp add: runq_def s1_def)
  have ki1: "kern_inv ext s1" "aspace s1 = aspace s"
    by (rule kern_inv_same[OF inv _ _ _ _ _ _ _ _ _ rq1]; use st in \<open>auto simp: s1_def f_def\<close>)+
  have cs: "cur_settled s1" using idem st(2) c by (simp add: cur_settled_def s1_def)
  have rr: "rr_step True (\<lambda>x. env_pri (envs s1 x)) (e # rl', curenv s1, sched_count s1) =
      Some (e, e # rl', env_pri (envs s1 e) - 1)"
    using cn c by (simp add: rr_step_def s1_def)
  obtain s' where s': "schedule True s1 = Ret s'" "kern_inv ext s'" "runq s' (e # rl')" "curenv s' = Some e"
    "same_envs s1 s'" "aspace s' = aspace s1"
    "\<forall>c. curenv s1 = Some c \<longrightarrow> env_tf (envs s' c) = kstack_tf s1"
    "\<forall>c. curenv s1 \<noteq> Some c \<longrightarrow> env_tf (envs s' c) = env_tf (envs s1 c)"
    by (rule kern_inv_schedule[OF ki1(1) rq1 cs rr])
  have ev: "\<exists>n. envs s' x = (envs s1 x)\<lparr>env_tf := (if x = c then kstack_tf s1 else env_tf (envs s1 x)), env_runs := n\<rparr>" for x
  proof -
    obtain tf n where x: "envs s' x = (envs s1 x)\<lparr>env_tf := tf, env_runs := n\<rparr>"
      using s'(5) unfolding same_envs_def by blast
    have "env_tf (envs s' x) = (if x = c then kstack_tf s1 else env_tf (envs s1 x))"
      using s'(7,8) c by (auto simp: s1_def)
    then have "tf = (if x = c then kstack_tf s1 else env_tf (envs s1 x))" unfolding x by simp
    with x show ?thesis by blast
  qed
  have "sys_ipc_recv dstva s = Ret (Gone, s')"
    using c va q1(1) s'(1) by (auto simp: sys_ipc_recv_def with_cur_def Let_def s1_def upd_env_def f_def)
  moreover have "\<exists>n. envs s' c = (envs s c)\<lparr>env_ipc_recving := 1, env_ipc_dstva := dstva, env_status := ENV_NOT_RUNNABLE,
      env_tf := (kstack_tf s)\<lparr>regs := (regs (kstack_tf s))(2 := 0)\<rparr>, env_runs := n\<rparr>"
    using ev[of c] by (auto simp: es1 f_def) (auto simp: s1_def)
  moreover have "\<forall>x. x \<noteq> c \<longrightarrow> (\<exists>n. envs s' x = (envs s x)\<lparr>env_runs := n\<rparr>)"
  proof (intro allI impI)
    fix x assume "x \<noteq> c"
    then obtain n where "envs s' x = (envs s x)\<lparr>env_tf := env_tf (envs s x), env_runs := n\<rparr>"
      using ev[of x] by (auto simp: es1)
    then show "\<exists>n. envs s' x = (envs s x)\<lparr>env_runs := n\<rparr>" by (cases "envs s x") auto
  qed
  ultimately show ?thesis using s'(2,3,4,6) ki1(2) by simp
qed

lemma demo_two_inv: "kern_inv (\<lambda>_. 0) demo_two"
  by (rule kern_inv_same[OF demo_kern_inv _ _ _ _ _ _ _ _ _ demo_two_runq])
    (auto simp: demo_two_def demo_env_def)

theorem sys_ipc_recv_correct_witness:
  "\<exists>s'. sys_ipc_recv 0 demo_two = Ret (Gone, s') \<and> kern_inv (\<lambda>_. 0) s' \<and> curenv s' = Some 1"
proof -
  have "curenv demo_two = Some 0" by (simp add: demo_two_def)
  from sys_ipc_recv_correct[OF demo_two_inv this demo_two_runq, of 1 "[]" 0] show ?thesis by auto
qed

section \<open>Sending\<close>





section \<open>Identifiers of dead environments\<close>

lemma mkenvid_gen:
  assumes "unat k < 2 ^ 21" "e < NENV"
  shows "unat (push_bit 11 k OR of_nat e :: u32) div 2048 = unat k"
proof -
  have e: "(of_nat e :: u32) = take_bit 10 (of_nat e)"
    using assms(2) by (simp add: take_bit_of_nat take_bit_nat_eq_self)
  have "push_bit 11 k AND of_nat e = (0 :: u32)"
    by (subst e, rule bit_word_eqI) (auto simp: bit_simps)
  then have "push_bit 11 k OR of_nat e = push_bit 11 k + (of_nat e :: u32)"
    using word_plus_and_or[of "push_bit 11 k" "of_nat e :: u32"] by simp
  also have "\<dots> = k * 2048 + of_nat e" by (simp add: push_bit_eq_mult)
  also have "unat \<dots> = unat k * 2048 + e" using assms by (simp add: unat_word_ariths unat_of_nat)
  finally show ?thesis using assms(2) by simp
qed

text \<open>
  No identifier is given out twice while the generation counter has not wrapped: after an
  environment is freed (its directory being referenced by itself alone), an environment can be
  allocated again, and the identifier that resolved to the dead one is refused with \<open>-E_BAD_ENV\<close>
  even when its slot is in use again.
\<close>

theorem stale_id_refused:
  assumes inv: "kern_inv ext s" and e: "e < NENV" "env_status (envs s e) = ENV_RUNNABLE" "ext (dir_of s e) = 0"
    and id: "envid2env envid False s = Ret (0, Some e)" "envid \<noteq> 0" "unat envid div 2048 \<le> unat (mkenvid_i s)"
    and gen: "unat (mkenvid_i s) + 1 < 2 ^ 21"
  shows "\<exists>s1 e' s2. env_free e s = Ret s1 \<and> env_alloc parent s1 = Ret ((0, Some e'), s2) \<and>
    envid2env envid cp (upd_env e' (\<lambda>x. x\<lparr>env_status := ENV_RUNNABLE\<rparr>) s2) = Ret (- E_BAD_ENV, None)"
proof -
  obtain s1 where s1: "env_free e s = Ret s1" "kern_inv ext s1"
    "envs s1 = (envs s)(e := (envs s e)\<lparr>env_status := ENV_FREE\<rparr>)" "mkenvid_i s1 = mkenvid_i s"
    "ext (env_pgdir (envs s e)) = 0 \<longrightarrow> page_is_free s1 (env_pgdir (envs s e))"
    by (rule env_free_ok[OF inv e(1,2)])
  obtain fl pfl where I: "freeq s1 fl" "free_ok s1 pfl" by (rule kern_inv_exts[OF s1(2)])
  have "e \<in> set fl" using I(1) s1(3) e(1) by (simp add: freeq_def)
  then obtain e' fl' where fl: "fl = e' # fl'" by (cases fl) auto
  have "dir_of s e \<in> set pfl" using s1(5) e(3) page_is_free_iff[OF I(2)] by (simp add: dir_of_def)
  then obtain p pfl' where pfl: "pfl = p # pfl'" by (cases pfl) auto
  have el: "e \<in> live s" using e by (simp add: live_def)
  have "unat (env_asid (envs s e)) \<notin> asid_set s1" by (rule freed_asid[OF inv s1(2,3) el])
  moreover have "unat (env_asid (envs s e)) \<in> {..<NASID}"
    using inv el by (auto simp: kern_inv_def asid_ok_def asid_set_def)
  ultimately have ne: "asid_set s1 \<noteq> {..<NASID}" by metis
  obtain s2 where s2: "env_alloc parent s1 = Ret ((0, Some e'), s2)" "\<forall>x. x \<noteq> e' \<longrightarrow> envs s2 x = envs s1 x"
    "env_id (envs s2 e') = push_bit 11 (mkenvid_i s1 + 1) OR of_nat e'"
    by (rule env_alloc_ok[OF s1(2) I(1)[unfolded fl] I(2)[unfolded pfl] ne])
  have ix: "ENVX envid = e" "env_id (envs s e) = envid"
    using id(1,2) by (auto simp: envid2env_def Let_def split: if_splits)
  have "envid2env envid cp (upd_env e' (\<lambda>x. x\<lparr>env_status := ENV_RUNNABLE\<rparr>) s2) = Ret (- E_BAD_ENV, None)"
  proof (cases "e' = e")
    case True
    have "unat (mkenvid_i s + 1) = unat (mkenvid_i s) + 1" using gen by (simp add: unat_word_ariths)
    then have "unat (env_id (envs s2 e)) div 2048 = unat (mkenvid_i s) + 1"
      using mkenvid_gen[of "mkenvid_i s + 1" e] gen e(1) s2(3) s1(4) True by simp
    then have "env_id (envs s2 e) \<noteq> envid" using id(3) by auto
    then show ?thesis using ix id(2) True by (simp add: envid2env_def)
  next
    case False
    then have "env_status (envs s2 e) = ENV_FREE" using s2(2) s1(3) by simp
    then show ?thesis using ix id(2) False by (simp add: envid2env_def)
  qed
  with s1(1) s2(1) show ?thesis by blast
qed

theorem stale_id_refused_witness:
  "\<exists>s1 e' s2. env_free 0 demo_kern = Ret s1 \<and> env_alloc 0 s1 = Ret ((0, Some e'), s2) \<and>
    envid2env 2048 False (upd_env e' (\<lambda>x. x\<lparr>env_status := ENV_RUNNABLE\<rparr>) s2) = Ret (- E_BAD_ENV, None)"
proof -
  have "envid2env 2048 False demo_kern = Ret (0, Some 0)" by (simp add: envid2env_def ENVX_def demo_env_def)
  moreover have "mkenvid_i demo_kern = 2" by (simp add: demo_kern_def)
  ultimately show ?thesis
    using stale_id_refused[OF demo_kern_inv, of 0 2048 0 False] by (simp add: demo_env_def)
qed

section \<open>The dispatcher\<close>

text \<open>
  A system call number that is negative or too large is answered with \<open>-E_NO_SYS\<close> in \<open>$v0\<close>, and
  nothing else changes; in particular the saved \<open>EPC\<close> still points to the \<open>syscall\<close> instruction, so that
  the environment executes the same system call again when it is resumed.
\<close>

theorem do_syscall_bad_number:
  assumes "\<not> unat (regs (kstack_tf s) 4) < MAX_SYSNO"
  shows "\<exists>tf. do_syscall w s = Ret (Back (), s\<lparr>kstack_tf := tf\<rparr>) \<and> cp0_epc tf = cp0_epc (kstack_tf s) \<and>
    sint (regs tf 2) = - E_NO_SYS \<and> regs tf 4 = regs (kstack_tf s) 4"
proof -
  let ?n = "regs (kstack_tf s) 4"
  have "?n <s 0 \<or> (of_nat MAX_SYSNO :: u32) \<le>s ?n"
  proof (cases "sint ?n < 0")
    case False
    have "24 \<le> uint ?n" using assms unfolding unat_eq_nat_uint MAX_SYSNO_def by linarith
    moreover have "sint ?n = uint ?n" using False sint32[of ?n] unsigned_less[of ?n, where ?'a = int] by (simp split: if_splits)
    ultimately show ?thesis by (simp add: word_sle_eq)
  qed (simp add: word_sless_alt)
  then show ?thesis
    by (intro exI[of _ "(kstack_tf s)\<lparr>regs := (regs (kstack_tf s))(2 := word_of_int (- E_NO_SYS))\<rparr>"])
      (auto simp: do_syscall_def Let_def)
qed

definition no_io :: io where
  "no_io = \<lparr>bus_write = (\<lambda>_ _ s. s), bus_read = (\<lambda>_ n s. (replicate n 0, s)), cons_polls = []\<rparr>"

theorem do_syscall_bad_number_witness:
  "\<exists>tf. do_syscall no_io (demo_kern\<lparr>kstack_tf := empty_tf\<lparr>regs := (\<lambda>_. 99)\<rparr>\<rparr>) =
     Ret (Back (), demo_kern\<lparr>kstack_tf := tf\<rparr>) \<and> cp0_epc tf = 0"
  using do_syscall_bad_number[of "demo_kern\<lparr>kstack_tf := empty_tf\<lparr>regs := (\<lambda>_. 99)\<rparr>\<rparr>" no_io]
  by (auto simp: empty_tf_def)

end
