(* ===== verification/Fs.thy ===== *)
theory Fs
  imports Strings
begin

text \<open>
  The file system, \<^verbatim>\<open>fs/fs.c\<close>: block cache, free-block bitmap, files with direct and indirect
  blocks, directories and path names. The block cache is the part of the server's address space at
  \<open>DISKMAP\<close>: block \<open>b\<close>, when it is in memory, is the page at \<open>diskaddr b\<close>. Its contents are words; a
  pointer into it (\<open>struct File *\<close>, \<open>uint32_t *\<close>) is the pair of block number and index of the word. The
  super block is block 1, the bitmap starts at block 2, as in the code, so that the aliasing
  between them, the files and the cache is that of the code. \<open>grants\<close> are the answers the kernel
  will give to \<open>syscall_mem_alloc\<close>; an access to a block that is not in memory is a fault.
\<close>

section \<open>State\<close>

definition NDIRECT :: nat where [simp]: "NDIRECT = 10"
definition NINDIRECT :: nat where [simp]: "NINDIRECT = 1024"
definition FILE2BLK :: nat where [simp]: "FILE2BLK = 16"
definition BY2BLK :: nat where [simp]: "BY2BLK = 4096"
definition BIT2BLK :: nat where [simp]: "BIT2BLK = 32768"
definition MAXNAMELEN :: nat where [simp]: "MAXNAMELEN = 128"
definition FTYPE_REG :: u32 where [simp]: "FTYPE_REG = 0"
definition FTYPE_DIR :: u32 where [simp]: "FTYPE_DIR = 1"
definition FS_MAGIC :: u32 where "FS_MAGIC = 0x68286097"
definition DISKMAP :: u32 where "DISKMAP = 0x10000000"
definition DISKMAX :: u32 where "DISKMAX = 0x40000000"

type_synonym block = "nat \<Rightarrow> u32"
type_synonym ptr = "nat \<times> nat"
type_synonym path = "u8 list"

record fss =
  disk :: "nat \<Rightarrow> block"
  mapped :: "nat \<Rightarrow> bool"
  dirty :: "nat \<Rightarrow> bool"
  cache :: "nat \<Rightarrow> block"
  super :: bool
  bitmap :: bool
  grants :: "bool list"
  fs_log :: string

definition ld :: "fss \<Rightarrow> ptr \<Rightarrow> u32 res" where
  "ld s p = (if mapped s (fst p) then Ret (cache s (fst p) (snd p)) else Fault ''page fault'')"

definition st :: "ptr \<Rightarrow> u32 \<Rightarrow> fss \<Rightarrow> fss res" where
  "st p w s = (if mapped s (fst p)
     then Ret (s\<lparr>cache := (cache s)(fst p := (cache s (fst p))(snd p := w))\<rparr>) else Fault ''page fault'')"

text \<open>The system calls on a page of the cache: allocate, map again, unmap.\<close>

definition cache_alloc :: "nat \<Rightarrow> fss \<Rightarrow> int \<times> fss" where
  "cache_alloc b s = (case grants s of [] \<Rightarrow> (- E_NO_MEM, s)
     | g # gs \<Rightarrow> if g then (0, s\<lparr>grants := gs, mapped := (mapped s)(b := True), dirty := (dirty s)(b := False),
           cache := (cache s)(b := (\<lambda>_. 0))\<rparr>)
         else (- E_NO_MEM, s\<lparr>grants := gs\<rparr>))"

definition cache_unmap :: "nat \<Rightarrow> fss \<Rightarrow> fss" where
  "cache_unmap b s = s\<lparr>mapped := (mapped s)(b := False), dirty := (dirty s)(b := False)\<rparr>"

text \<open>\<open>ide_read\<close> and \<open>ide_write\<close> of the sectors of one block; the theory \<open>Ide\<close> has them on the device.\<close>

definition blk_read :: "nat \<Rightarrow> fss \<Rightarrow> fss" where
  "blk_read b s = s\<lparr>cache := (cache s)(b := disk s b)\<rparr>"

definition blk_write :: "nat \<Rightarrow> fss \<Rightarrow> fss" where
  "blk_write b s = s\<lparr>disk := (disk s)(b := cache s b)\<rparr>"

section \<open>Block cache\<close>

definition diskaddr :: "nat \<Rightarrow> u32" where
  "diskaddr blockno = DISKMAP + of_nat blockno * of_nat BY2BLK"

definition block_is_mapped :: "nat \<Rightarrow> fss \<Rightarrow> bool" where
  "block_is_mapped blockno s = mapped s blockno"

definition block_is_dirty :: "nat \<Rightarrow> fss \<Rightarrow> bool" where
  "block_is_dirty blockno s = (mapped s blockno \<and> dirty s blockno)"

definition dirty_block :: "nat \<Rightarrow> fss \<Rightarrow> int \<times> fss" where
  "dirty_block blockno s =
     (if \<not> mapped s blockno then (- E_NOT_FOUND, s)
      else if dirty s blockno then (0, s)
      else (0, s\<lparr>dirty := (dirty s)(blockno := True)\<rparr>))"

definition write_block :: "nat \<Rightarrow> fss \<Rightarrow> fss res" where
  "write_block blockno s =
     (if \<not> block_is_mapped blockno s then Panic ''write unmapped block'' else Ret (blk_write blockno s))"

definition s_nblocks :: "fss \<Rightarrow> nat res" where
  "s_nblocks s = (if \<not> super s then Fault ''NULL super'' else rbind (ld s (1, 1)) (\<lambda>n. Ret (unat n)))"

text \<open>The word of the bitmap that holds the bit of a block.\<close>

definition bitmap_ptr :: "nat \<Rightarrow> ptr" where
  "bitmap_ptr blockno = (2 + blockno div 32 div 1024, blockno div 32 mod 1024)"

definition ld_bitmap :: "fss \<Rightarrow> nat \<Rightarrow> u32 res" where
  "ld_bitmap s blockno = (if \<not> bitmap s then Fault ''NULL bitmap'' else ld s (bitmap_ptr blockno))"

definition block_is_free :: "nat \<Rightarrow> fss \<Rightarrow> bool res" where
  "block_is_free blockno s =
     (if \<not> super s then Ret False
      else rbind (s_nblocks s) (\<lambda>n.
        if n \<le> blockno then Ret False
        else rbind (ld_bitmap s blockno) (\<lambda>w. Ret (w AND push_bit (blockno mod 32) 1 \<noteq> 0))))"

text \<open>
  \<open>read_block\<close> returns whether the block came from the disk. It does not look at the result of
  \<open>syscall_mem_alloc\<close>: when that fails, the copy into the page makes the kernel panic.
\<close>

definition read_block :: "nat \<Rightarrow> fss \<Rightarrow> ((int \<times> bool) \<times> fss) res" where
  "read_block blockno s =
     rbind (if super s then rbind (s_nblocks s) (\<lambda>n. Ret (n \<le> blockno)) else Ret False) (\<lambda>big.
     if big then Panic ''reading non-existent block''
     else rbind (if bitmap s then block_is_free blockno s else Ret False) (\<lambda>free.
       if free then Panic ''reading free block''
       else if block_is_mapped blockno s then Ret ((0, False), s)
       else let (r, s) = cache_alloc blockno s
         in if r \<noteq> 0 then Panic ''page_alloc in passive_alloc''
            else Ret ((0, True), blk_read blockno s)))"

definition map_block :: "nat \<Rightarrow> fss \<Rightarrow> int \<times> fss" where
  "map_block blockno s = (if block_is_mapped blockno s then (0, s) else cache_alloc blockno s)"

definition unmap_block :: "nat \<Rightarrow> fss \<Rightarrow> fss res" where
  "unmap_block blockno s =
     rassert (block_is_mapped blockno s) ''assertion failed: (va = block_is_mapped(blockno)) != NULL''
     (rbind (block_is_free blockno s) (\<lambda>free.
      rbind (if \<not> free \<and> block_is_dirty blockno s then write_block blockno s else Ret s) (\<lambda>s.
      let s = cache_unmap blockno s
      in rassert (\<not> block_is_mapped blockno s) ''assertion failed: !block_is_mapped(blockno)'' (Ret s))))"

section \<open>Bitmap\<close>

definition free_block :: "nat \<Rightarrow> fss \<Rightarrow> fss res" where
  "free_block blockno s =
     rbind (if blockno = 0 then Ret True
            else if super s then rbind (s_nblocks s) (\<lambda>n. Ret (n \<le> blockno)) else Ret False) (\<lambda>skip.
     if skip then Ret s
     else rbind (ld_bitmap s blockno) (\<lambda>w. st (bitmap_ptr blockno) (w OR push_bit (blockno mod 32) 1) s))"

fun alloc_scan :: "nat list \<Rightarrow> fss \<Rightarrow> (int \<times> fss) res" where
  "alloc_scan [] s = Ret (- E_NO_DISK, s)"
| "alloc_scan (blockno # bs) s =
     rbind (ld_bitmap s blockno) (\<lambda>w.
     if w AND push_bit (blockno mod 32) 1 \<noteq> 0
     then rbind (st (bitmap_ptr blockno) (w AND NOT (push_bit (blockno mod 32) 1)) s) (\<lambda>s.
          rbind (write_block (blockno div BIT2BLK + 2) s) (\<lambda>s. Ret (int blockno, s)))
     else alloc_scan bs s)"

definition alloc_block_num :: "fss \<Rightarrow> (int \<times> fss) res" where
  "alloc_block_num s = rbind (s_nblocks s) (\<lambda>n. alloc_scan [3..<n] s)"

definition alloc_block :: "fss \<Rightarrow> (int \<times> fss) res" where
  "alloc_block s =
     rbind (alloc_block_num s) (\<lambda>(r, s).
     if r < 0 then Ret (r, s)
     else let bno = nat r; (r, s) = map_block bno s
       in if r < 0 then rbind (free_block bno s) (\<lambda>s. Ret (r, s))
          else Ret (int bno, s))"

section \<open>Initialisation\<close>

definition fs_debugf :: "string \<Rightarrow> fss \<Rightarrow> fss" where
  "fs_debugf msg s = s\<lparr>fs_log := fs_log s @ msg\<rparr>"

definition read_super :: "fss \<Rightarrow> fss res" where
  "read_super s =
     rbind (read_block 1 s) (\<lambda>((r, _), s).
     if r < 0 then Panic ''cannot read superblock''
     else let s = s\<lparr>super := True\<rparr>
       in rbind (ld s (1, 0)) (\<lambda>magic.
          if magic \<noteq> FS_MAGIC then Panic ''bad file system magic number''
          else rbind (s_nblocks s) (\<lambda>n.
            if unat DISKMAX div BY2BLK < n then Panic ''file system is too large''
            else Ret (fs_debugf (''superblock is good'' @ [CHR 0x0A]) s))))"

fun read_blocks :: "nat list \<Rightarrow> fss \<Rightarrow> fss res" where
  "read_blocks [] s = Ret s"
| "read_blocks (b # bs) s = rbind (read_block b s) (\<lambda>(_, s). read_blocks bs s)"

fun all_in_use :: "nat list \<Rightarrow> fss \<Rightarrow> fss res" where
  "all_in_use [] s = Ret s"
| "all_in_use (b # bs) s = rbind (block_is_free b s) (\<lambda>free.
     rassert (\<not> free) ''assertion failed: !block_is_free'' (all_in_use bs s))"

definition read_bitmap :: "fss \<Rightarrow> fss res" where
  "read_bitmap s =
     rbind (s_nblocks s) (\<lambda>n.
     let nbitmap = n div BIT2BLK + 1
     in rbind (read_blocks [2..<nbitmap + 2] s) (\<lambda>s.
        rbind (all_in_use ([0, 1] @ [2..<nbitmap + 2]) (s\<lparr>bitmap := True\<rparr>)) (\<lambda>s.
        Ret (fs_debugf (''read_bitmap is good'' @ [CHR 0x0A]) s))))"

text \<open>\<open>strcpy\<close> of \<open>"OOPS!\n"\<close>: seven bytes; the last of the two words keeps its top byte.\<close>

definition smash :: "block \<Rightarrow> block" where
  "smash b = b(0 := 0x53504F4F, 1 := (b 1 AND 0xFF000000) OR 0x000A21)"

definition check_write_block :: "fss \<Rightarrow> fss res" where
  "check_write_block s =
     (let s = s\<lparr>super := False\<rparr>
      in rbind (read_block 0 s) (\<lambda>(_, s).
         if \<not> mapped s 1 then Fault ''page fault''
         else let s = s\<lparr>cache := (cache s)(0 := cache s 1)\<rparr>;
                  s = s\<lparr>cache := (cache s)(1 := smash (cache s 1))\<rparr>
           in rbind (write_block 1 s) (\<lambda>s.
              rassert (block_is_mapped 1 s) ''assertion failed: block_is_mapped(1)''
              (let s = cache_unmap 1 s
               in rassert (\<not> block_is_mapped 1 s) ''assertion failed: !block_is_mapped(1)''
               (rbind (read_block 1 s) (\<lambda>(_, s).
                rassert (cache s 1 0 = 0x53504F4F \<and> cache s 1 1 AND 0x00FFFFFF = 0x000A21) ''assertion failed: strcmp''
                (let s = s\<lparr>cache := (cache s)(1 := cache s 0)\<rparr>
                 in rbind (write_block 1 s) (\<lambda>s. Ret (s\<lparr>super := True\<rparr>)))))))))"

definition fs_init :: "fss \<Rightarrow> fss res" where
  "fs_init s = rbind (read_super s) (\<lambda>s. rbind (check_write_block s) read_bitmap)"

section \<open>Files\<close>

text \<open>
  \<open>struct File\<close>, 64 words: the name (128 bytes), size, type, ten direct block numbers, the number of
  the indirect block, and the address of the directory.
\<close>

definition f_size :: "ptr \<Rightarrow> ptr" where "f_size f = (fst f, snd f + 32)"
definition f_type :: "ptr \<Rightarrow> ptr" where "f_type f = (fst f, snd f + 33)"
definition f_direct :: "ptr \<Rightarrow> nat \<Rightarrow> ptr" where "f_direct f i = (fst f, snd f + 34 + i)"
definition f_indirect :: "ptr \<Rightarrow> ptr" where "f_indirect f = (fst f, snd f + 44)"
definition f_dir :: "ptr \<Rightarrow> ptr" where "f_dir f = (fst f, snd f + 45)"
definition s_root :: ptr where "s_root = (1, 2)"

lemmas file_fields = f_size_def f_type_def f_direct_def f_indirect_def f_dir_def

text \<open>Addresses in the cache, as stored in \<open>f_dir\<close>.\<close>

definition addr_of :: "ptr \<Rightarrow> u32" where
  "addr_of p = diskaddr (fst p) + of_nat (4 * snd p)"

definition ptr_of :: "u32 \<Rightarrow> ptr" where
  "ptr_of a = (let o' = unat (a - DISKMAP) in (o' div BY2BLK, o' mod BY2BLK div 4))"

definition file_block_walk :: "ptr \<Rightarrow> nat \<Rightarrow> bool \<Rightarrow> fss \<Rightarrow> ((int \<times> ptr) \<times> fss) res" where
  "file_block_walk f filebno create s =
     (if filebno < NDIRECT then Ret ((0, f_direct f filebno), s)
      else if filebno < NINDIRECT then
        rbind (ld s (f_indirect f)) (\<lambda>ind.
        rbind (if ind = 0
               then if \<not> create then Ret (- E_NOT_FOUND, s)
                    else rbind (alloc_block s) (\<lambda>(r, s).
                      if r < 0 then Ret (r, s)
                      else rbind (st (f_indirect f) (word_of_int r) s) (\<lambda>s. Ret (0, s)))
               else Ret (0, s)) (\<lambda>(r, s).
        if r < 0 then Ret ((r, (0, 0)), s)
        else rbind (ld s (f_indirect f)) (\<lambda>ind.
             rbind (read_block (unat ind) s) (\<lambda>((r, _), s).
             if r < 0 then Ret ((r, (0, 0)), s)
             else Ret ((0, (unat ind, filebno)), s)))))
      else Ret ((- E_INVAL, (0, 0)), s))"

definition file_map_block :: "ptr \<Rightarrow> nat \<Rightarrow> bool \<Rightarrow> fss \<Rightarrow> ((int \<times> nat) \<times> fss) res" where
  "file_map_block f filebno create s =
     rbind (file_block_walk f filebno create s) (\<lambda>((r, p), s).
     if r < 0 then Ret ((r, 0), s)
     else rbind (ld s p) (\<lambda>bno.
       if bno = 0
       then if \<not> create then Ret ((- E_NOT_FOUND, 0), s)
            else rbind (alloc_block s) (\<lambda>(r, s).
              if r < 0 then Ret ((r, 0), s)
              else rbind (st p (word_of_int r) s) (\<lambda>s.
                   rbind (ld s p) (\<lambda>bno. Ret ((0, unat bno), s))))
       else Ret ((0, unat bno), s)))"

definition file_clear_block :: "ptr \<Rightarrow> nat \<Rightarrow> fss \<Rightarrow> (int \<times> fss) res" where
  "file_clear_block f filebno s =
     rbind (file_block_walk f filebno False s) (\<lambda>((r, p), s).
     if r < 0 then Ret (r, s)
     else rbind (ld s p) (\<lambda>bno.
       if bno \<noteq> 0 then rbind (free_block (unat bno) s) (\<lambda>s. rbind (st p 0 s) (\<lambda>s. Ret (0, s)))
       else Ret (0, s)))"

text \<open>\<open>file_get_block\<close> returns the block number instead of its address in the cache.\<close>

definition file_get_block :: "ptr \<Rightarrow> nat \<Rightarrow> fss \<Rightarrow> ((int \<times> nat) \<times> fss) res" where
  "file_get_block f filebno s =
     rbind (file_map_block f filebno True s) (\<lambda>((r, diskbno), s).
     if r < 0 then Ret ((r, 0), s)
     else rbind (read_block diskbno s) (\<lambda>((r, _), s).
       if r < 0 then Ret ((r, 0), s) else Ret ((0, diskbno), s)))"

definition file_dirty :: "ptr \<Rightarrow> nat \<Rightarrow> fss \<Rightarrow> (int \<times> fss) res" where
  "file_dirty f offset s =
     rbind (file_map_block f (offset div BY2BLK) False s) (\<lambda>((r, diskbno), s).
     if r < 0 then Ret (r, s) else Ret (dirty_block diskbno s))"

section \<open>Directories\<close>

text \<open>
  Names in \<open>struct File\<close>. A name without a NUL in its 128 bytes is longer than any name it is
  compared with, so that \<open>strcmp\<close> does not read past it.
\<close>

definition word_byte :: "u32 \<Rightarrow> nat \<Rightarrow> u8" where
  "word_byte w k = ucast (drop_bit (8 * k) w)"

definition set_word_byte :: "nat \<Rightarrow> u8 \<Rightarrow> u32 \<Rightarrow> u32" where
  "set_word_byte k b w = (w AND NOT (push_bit (8 * k) 0xFF)) OR push_bit (8 * k) (ucast b)"

definition name_byte :: "fss \<Rightarrow> ptr \<Rightarrow> nat \<Rightarrow> u8" where
  "name_byte s f i = word_byte (cache s (fst f) (snd f + i div 4)) (i mod 4)"

definition f_name :: "fss \<Rightarrow> ptr \<Rightarrow> path" where
  "f_name s f = takeWhile (\<lambda>b. b \<noteq> 0) (map (name_byte s f) [0..<MAXNAMELEN])"

definition set_name_byte :: "ptr \<Rightarrow> nat \<Rightarrow> u8 \<Rightarrow> fss \<Rightarrow> fss" where
  "set_name_byte f i b s =
     s\<lparr>cache := (cache s)(fst f := (cache s (fst f))(snd f + i div 4 :=
        set_word_byte (i mod 4) b (cache s (fst f) (snd f + i div 4))))\<rparr>"

fun set_name :: "ptr \<Rightarrow> nat \<Rightarrow> path \<Rightarrow> fss \<Rightarrow> fss" where
  "set_name f i [] s = set_name_byte f i 0 s"
| "set_name f i (b # bs) s = set_name f (i + 1) bs (set_name_byte f i b s)"

definition entry :: "nat \<Rightarrow> nat \<Rightarrow> ptr" where
  "entry blk j = (blk, 64 * j)"

fun lookup_blocks :: "nat list \<Rightarrow> ptr \<Rightarrow> path \<Rightarrow> fss \<Rightarrow> ((int \<times> ptr) \<times> fss) res" where
  "lookup_blocks [] dir name s = Ret ((- E_NOT_FOUND, (0, 0)), s)"
| "lookup_blocks (i # is) dir name s =
     rbind (file_get_block dir i s) (\<lambda>((r, blk), s).
     if r \<noteq> 0 then Ret ((r, (0, 0)), s)
     else if \<not> mapped s blk then Fault ''page fault''
     else case find (\<lambda>j. f_name s (entry blk j) = name) [0..<FILE2BLK] of
       Some j \<Rightarrow> rbind (st (f_dir (entry blk j)) (addr_of dir) s) (\<lambda>s. Ret ((0, entry blk j), s))
     | None \<Rightarrow> lookup_blocks is dir name s)"

definition dir_lookup :: "ptr \<Rightarrow> path \<Rightarrow> fss \<Rightarrow> ((int \<times> ptr) \<times> fss) res" where
  "dir_lookup dir name s =
     rbind (ld s (f_size dir)) (\<lambda>sz. lookup_blocks [0..<unat sz div BY2BLK] dir name s)"

fun find_free_entry :: "nat list \<Rightarrow> ptr \<Rightarrow> fss \<Rightarrow> ((int \<times> ptr option) \<times> fss) res" where
  "find_free_entry [] dir s = Ret ((0, None), s)"
| "find_free_entry (i # is) dir s =
     rbind (file_get_block dir i s) (\<lambda>((r, blk), s).
     if r < 0 then Ret ((r, None), s)
     else if \<not> mapped s blk then Fault ''page fault''
     else case find (\<lambda>j. name_byte s (entry blk j) 0 = 0) [0..<FILE2BLK] of
       Some j \<Rightarrow> Ret ((0, Some (entry blk j)), s)
     | None \<Rightarrow> find_free_entry is dir s)"

definition dir_alloc_file :: "ptr \<Rightarrow> fss \<Rightarrow> ((int \<times> ptr) \<times> fss) res" where
  "dir_alloc_file dir s =
     rbind (ld s (f_size dir)) (\<lambda>sz.
     let nblock = unat sz div BY2BLK
     in rbind (find_free_entry [0..<nblock] dir s) (\<lambda>((r, e), s).
        if r < 0 then Ret ((r, (0, 0)), s)
        else case e of Some f \<Rightarrow> Ret ((0, f), s)
        | None \<Rightarrow>
            rbind (ld s (f_size dir)) (\<lambda>sz.
            rbind (st (f_size dir) (sz + of_nat BY2BLK) s) (\<lambda>s.
            rbind (file_get_block dir nblock s) (\<lambda>((r, blk), s).
            if r < 0 then Ret ((r, (0, 0)), s) else Ret ((0, entry blk 0), s))))))"

section \<open>Path names\<close>

definition skip_slash :: "path \<Rightarrow> path" where
  "skip_slash p = dropWhile (\<lambda>c. c = 47) p"

text \<open>
  The loop of \<open>walk_path\<close>. The result is the return value, \<open>*pdir\<close>, \<open>*pfile\<close> and \<open>lastelem\<close>; a NULL pointer
  is \<open>None\<close>.
\<close>

type_synonym walk = "int \<times> ptr option \<times> ptr option \<times> path option"

lemma skip_slash_shorter:
  "path \<noteq> [] \<Longrightarrow> length (skip_slash (dropWhile (\<lambda>c. c \<noteq> 47) path)) < length path"
proof (cases path)
  case (Cons c cs)
  have "length (dropWhile P (dropWhile Q cs)) \<le> length cs" for P Q :: "u8 \<Rightarrow> bool"
    by (meson length_dropWhile_le le_trans)
  then show ?thesis using Cons length_dropWhile_le[of _ cs] by (auto simp: skip_slash_def less_Suc_eq_le)
qed simp

function walk_loop :: "path \<Rightarrow> ptr option \<Rightarrow> ptr \<Rightarrow> fss \<Rightarrow> (walk \<times> fss) res" where
  "walk_loop path dir file s =
     (if path = [] then Ret ((0, dir, Some file, None), s)
      else let dir = file;
               name = takeWhile (\<lambda>c. c \<noteq> 47) path;
               rest = dropWhile (\<lambda>c. c \<noteq> 47) path
        in if MAXNAMELEN \<le> length name then Ret ((- E_BAD_PATH, None, None, None), s)
           else let path = skip_slash rest
             in rbind (ld s (f_type dir)) (\<lambda>ty.
                if ty \<noteq> FTYPE_DIR then Ret ((- E_NOT_FOUND, None, None, None), s)
                else rbind (dir_lookup dir name s) (\<lambda>((r, file), s).
                  if r < 0
                  then if r = - E_NOT_FOUND \<and> path = [] then Ret ((r, Some dir, None, Some name), s)
                       else Ret ((r, None, None, None), s)
                  else walk_loop path (Some dir) file s)))"
  by pat_completeness auto

termination
  by (relation "measure (\<lambda>(path, _). length path)") (auto simp: skip_slash_shorter)

declare walk_loop.simps [simp del]

definition walk_path :: "path \<Rightarrow> fss \<Rightarrow> (walk \<times> fss) res" where
  "walk_path path s =
     (if \<not> super s then Fault ''NULL super'' else walk_loop (skip_slash path) None s_root s)"

section \<open>Operations on files\<close>

definition file_open :: "path \<Rightarrow> fss \<Rightarrow> ((int \<times> ptr option) \<times> fss) res" where
  "file_open path s = rbind (walk_path path s) (\<lambda>((r, _, file, _), s). Ret ((r, file), s))"

text \<open>When \<open>dir_alloc_file\<close> fails, \<open>file_create\<close> returns the \<open>-E_NOT_FOUND\<close> of \<open>walk_path\<close>.\<close>

definition file_create :: "path \<Rightarrow> fss \<Rightarrow> ((int \<times> ptr option) \<times> fss) res" where
  "file_create path s =
     rbind (walk_path path s) (\<lambda>((r, dir, _, name), s).
     if r = 0 then Ret ((- E_FILE_EXISTS, None), s)
     else if r \<noteq> - E_NOT_FOUND \<or> dir = None then Ret ((r, None), s)
     else rbind (dir_alloc_file (the dir) s) (\<lambda>((r', f), s).
       if r' < 0 then Ret ((r, None), s)
       else if \<not> mapped s (fst f) then Fault ''page fault''
       else Ret ((0, Some f), set_name f 0 (the name) s)))"

fun clear_blocks :: "nat list \<Rightarrow> ptr \<Rightarrow> fss \<Rightarrow> fss res" where
  "clear_blocks [] f s = Ret s"
| "clear_blocks (b # bs) f s = rbind (file_clear_block f b s) (\<lambda>(_, s). clear_blocks bs f s)"

definition file_truncate :: "ptr \<Rightarrow> u32 \<Rightarrow> fss \<Rightarrow> fss res" where
  "file_truncate f newsize s =
     rbind (ld s (f_size f)) (\<lambda>sz.
     let old_nblocks = unat sz div BY2BLK + 1;
         new_nblocks = (if newsize = 0 then 0 else unat newsize div BY2BLK + 1)
     in rbind (clear_blocks [new_nblocks..<old_nblocks] f s) (\<lambda>s.
        rbind (if new_nblocks \<le> NDIRECT
               then rbind (ld s (f_indirect f)) (\<lambda>ind.
                 if ind \<noteq> 0 then rbind (free_block (unat ind) s) (st (f_indirect f) 0) else Ret s)
               else Ret s) (\<lambda>s.
        st (f_size f) newsize s)))"

fun flush_blocks :: "nat list \<Rightarrow> ptr \<Rightarrow> fss \<Rightarrow> fss res" where
  "flush_blocks [] f s = Ret s"
| "flush_blocks (bno # bs) f s =
     rbind (file_map_block f bno False s) (\<lambda>((r, diskno), s).
     if r < 0 then flush_blocks bs f s
     else if block_is_dirty diskno s then rbind (write_block diskno s) (flush_blocks bs f)
     else flush_blocks bs f s)"

definition file_flush :: "ptr \<Rightarrow> fss \<Rightarrow> fss res" where
  "file_flush f s = rbind (ld s (f_size f)) (\<lambda>sz. flush_blocks [0..<unat sz div BY2BLK + 1] f s)"

definition flush_dir :: "ptr \<Rightarrow> fss \<Rightarrow> fss res" where
  "flush_dir f s = rbind (ld s (f_dir f)) (\<lambda>d. if d \<noteq> 0 then file_flush (ptr_of d) s else Ret s)"

definition file_set_size :: "ptr \<Rightarrow> u32 \<Rightarrow> fss \<Rightarrow> (int \<times> fss) res" where
  "file_set_size f newsize s =
     rbind (ld s (f_size f)) (\<lambda>sz.
     rbind (if newsize < sz then file_truncate f newsize s else Ret s) (\<lambda>s.
     rbind (st (f_size f) newsize s) (\<lambda>s.
     rbind (flush_dir f s) (\<lambda>s. Ret (0, s)))))"

fun sync_blocks :: "nat list \<Rightarrow> fss \<Rightarrow> fss res" where
  "sync_blocks [] s = Ret s"
| "sync_blocks (i # is) s =
     rbind (if block_is_dirty i s then write_block i s else Ret s) (sync_blocks is)"

definition fs_sync :: "fss \<Rightarrow> fss res" where
  "fs_sync s = rbind (s_nblocks s) (\<lambda>n. sync_blocks [0..<n] s)"

definition file_close :: "ptr \<Rightarrow> fss \<Rightarrow> fss res" where
  "file_close f s = rbind (file_flush f s) (flush_dir f)"

definition file_remove :: "path \<Rightarrow> fss \<Rightarrow> (int \<times> fss) res" where
  "file_remove path s =
     rbind (walk_path path s) (\<lambda>((r, _, f, _), s).
     if r < 0 then Ret (r, s)
     else case f of None \<Rightarrow> Fault ''NULL file''
     | Some f \<Rightarrow>
         rbind (file_truncate f 0 s) (\<lambda>s.
         if \<not> mapped s (fst f) then Fault ''page fault''
         else let s = set_name_byte f 0 0 s
           in rbind (file_flush f s) (\<lambda>s. rbind (flush_dir f s) (\<lambda>s. Ret (0, s)))))"

end
