(* ===== verification/FsProps.thy ===== *)
theory FsProps
  imports Fs
begin

text \<open>
  Correctness of the block layer of the file system: the bitmap as the set of free blocks,
  allocation, write-back, initialisation.
\<close>

section \<open>The bitmap as a set\<close>

definition nblk :: "fss \<Rightarrow> nat" where
  "nblk s = unat (cache s 1 1)"

definition freeb :: "fss \<Rightarrow> nat \<Rightarrow> bool" where
  "freeb s b = bit (cache s (2 + b div BIT2BLK) (b div 32 mod 1024)) (b mod 32)"

definition free_set :: "fss \<Rightarrow> nat set" where
  "free_set s = {b. b < nblk s \<and> freeb s b}"

text \<open>Block 0, the super block and the bitmap.\<close>

definition reserved :: "fss \<Rightarrow> nat set" where
  "reserved s = {..<nblk s div BIT2BLK + 3}"

definition fs_ok :: "fss \<Rightarrow> bool" where
  "fs_ok s \<longleftrightarrow> super s \<and> bitmap s \<and> mapped s 1 \<and> nblk s \<le> unat DISKMAX div BY2BLK \<and>
     (\<forall>k \<le> nblk s div BIT2BLK. mapped s (2 + k)) \<and> reserved s \<inter> free_set s = {}"

lemma nblk_le: "fs_ok s \<Longrightarrow> nblk s \<le> 262144"
  by (simp add: fs_ok_def DISKMAX_def)

lemma bitmap_ptr_eq: "bitmap_ptr b = (2 + b div BIT2BLK, b div 32 mod 1024)"
  by (simp add: bitmap_ptr_def div_mult2_eq[of b 32 1024, simplified])

lemma test_bit: "((w :: u32) AND push_bit k 1 \<noteq> 0) = bit w k"
  by (simp add: and_exp_eq_0_iff_not_bit)

lemma bit_set_u32: "k < 32 \<Longrightarrow> bit ((w :: u32) OR push_bit k 1) n = (bit w n \<or> n = k)"
  by (auto simp: bit_simps)

lemma bit_clear_u32: "k < 32 \<Longrightarrow> bit ((w :: u32) AND NOT (push_bit k 1)) n = (bit w n \<and> n \<noteq> k)"
  using bit_imp_le_length[of w n] by (auto simp: bit_and_iff bit_not_iff bit_exp_iff)

lemma bit_index_inj:
  assumes "b div BIT2BLK = c div BIT2BLK" "b div 32 mod 1024 = c div 32 mod 1024" "b mod 32 = c mod 32"
  shows "b = c"
proof -
  have "b div 32 div 1024 = c div 32 div 1024" using assms(1) by (simp add: div_mult2_eq[symmetric])
  then have "b div 32 = c div 32" using assms(2) by (metis div_mult_mod_eq)
  then show ?thesis using assms(3) by (metis div_mult_mod_eq)
qed

lemma s_nblocks_ok: "fs_ok s \<Longrightarrow> s_nblocks s = Ret (nblk s)"
  by (simp add: s_nblocks_def fs_ok_def ld_def nblk_def)

lemma bitmap_mapped: "fs_ok s \<Longrightarrow> b < nblk s \<Longrightarrow> mapped s (2 + b div BIT2BLK)"
  unfolding fs_ok_def using div_le_mono[of b "nblk s" BIT2BLK] by auto

lemma ld_bitmap_ok:
  "fs_ok s \<Longrightarrow> b < nblk s \<Longrightarrow> ld_bitmap s b = Ret (cache s (2 + b div BIT2BLK) (b div 32 mod 1024))"
  using bitmap_mapped[of s b] by (simp add: ld_bitmap_def fs_ok_def ld_def bitmap_ptr_eq)

lemma block_is_free_ok: "fs_ok s \<Longrightarrow> block_is_free b s = Ret (b \<in> free_set s)"
  using ld_bitmap_ok[of s b] s_nblocks_ok[of s]
  by (auto simp: block_is_free_def free_set_def freeb_def test_bit fs_ok_def simp del: push_bit_of_1)

text \<open>Setting or clearing the bit of a block.\<close>

definition put_bit :: "nat \<Rightarrow> bool \<Rightarrow> fss \<Rightarrow> fss" where
  "put_bit b v s = (let k = 2 + b div BIT2BLK; i = b div 32 mod 1024; w = cache s k i
     in s\<lparr>cache := (cache s)(k := (cache s k)(i :=
          if v then w OR push_bit (b mod 32) 1 else w AND NOT (push_bit (b mod 32) 1)))\<rparr>)"

lemma put_bit_simps [simp]:
  "mapped (put_bit b v s) = mapped s" "dirty (put_bit b v s) = dirty s" "disk (put_bit b v s) = disk s"
  "super (put_bit b v s) = super s" "bitmap (put_bit b v s) = bitmap s" "grants (put_bit b v s) = grants s"
  "nblk (put_bit b v s) = nblk s"
  by (simp_all add: put_bit_def nblk_def Let_def)

lemma freeb_put_bit: "freeb (put_bit b v s) c = (if c = b then v else freeb s c)"
proof (cases "c div BIT2BLK = b div BIT2BLK \<and> c div 32 mod 1024 = b div 32 mod 1024")
  case True
  then have "(c mod 32 = b mod 32) = (c = b)" using bit_index_inj[of c b] by auto
  then show ?thesis using True
    by (auto simp: freeb_def put_bit_def Let_def bit_set_u32 bit_clear_u32 simp del: push_bit_of_1)
next
  case False
  then show ?thesis by (auto simp: freeb_def put_bit_def Let_def simp del: push_bit_of_1)
qed

lemma free_set_put_bit:
  "b < nblk s \<Longrightarrow> free_set (put_bit b v s) = (if v then insert b (free_set s) else free_set s - {b})"
  by (auto simp: free_set_def freeb_put_bit)

lemma cache_put_bit: "c \<noteq> 2 + b div BIT2BLK \<Longrightarrow> cache (put_bit b v s) c = cache s c"
  by (simp add: put_bit_def Let_def)

lemma fs_ok_put_bit:
  "fs_ok s \<Longrightarrow> b < nblk s \<Longrightarrow> b \<notin> reserved s \<or> \<not> v \<Longrightarrow> fs_ok (put_bit b v s)"
  by (auto simp: fs_ok_def free_set_put_bit reserved_def)

lemma fs_ok_blk_write: "fs_ok (blk_write b s) = fs_ok s"
  and blk_write_simps [simp]: "nblk (blk_write b s) = nblk s" "free_set (blk_write b s) = free_set s"
    "cache (blk_write b s) = cache s" "mapped (blk_write b s) = mapped s" "dirty (blk_write b s) = dirty s"
    "reserved (blk_write b s) = reserved s" "super (blk_write b s) = super s" "bitmap (blk_write b s) = bitmap s"
    "grants (blk_write b s) = grants s" "disk (blk_write b s) = (disk s)(b := cache s b)"
  by (simp_all add: fs_ok_def blk_write_def nblk_def free_set_def freeb_def reserved_def)

text \<open>What the invariant depends on.\<close>

lemma fs_ok_frame:
  assumes ok: "fs_ok s" and e: "super s' = super s" "bitmap s' = bitmap s"
    and r: "\<And>c. c \<in> reserved s \<Longrightarrow> cache s' c = cache s c" "\<And>c. c \<in> reserved s \<Longrightarrow> mapped s c \<Longrightarrow> mapped s' c"
  shows "fs_ok s'" "free_set s' = free_set s" "nblk s' = nblk s"
proof -
  have r1: "1 \<in> reserved s" by (simp add: reserved_def)
  then show n: "nblk s' = nblk s" using r(1) by (simp add: nblk_def)
  have rk: "2 + b div BIT2BLK \<in> reserved s" if "b \<le> nblk s" for b
    using div_le_mono[OF that, of BIT2BLK] by (auto simp: reserved_def)
  then show f: "free_set s' = free_set s" using r(1) n by (auto simp: free_set_def freeb_def)
  have "mapped s' (2 + k)" if "k \<le> nblk s div BIT2BLK" for k
    using ok r(2)[of "2 + k"] that by (auto simp: fs_ok_def reserved_def)
  then show "fs_ok s'" using ok e r(2)[OF r1] unfolding fs_ok_def n f reserved_def by simp
qed

section \<open>Allocation\<close>

lemma alloc_scan_ok:
  assumes ok: "fs_ok s" and bs: "\<forall>b \<in> set bs. b < nblk s"
  shows "alloc_scan bs s = (case find (freeb s) bs of None \<Rightarrow> Ret (- E_NO_DISK, s)
     | Some b \<Rightarrow> Ret (int b, blk_write (2 + b div BIT2BLK) (put_bit b False s)))"
  using bs
proof (induction bs)
  case (Cons b bs)
  have m: "mapped s (2 + b div BIT2BLK)" "b < nblk s" using bitmap_mapped[OF ok] Cons.prems by auto
  have p: "st (bitmap_ptr b) (cache s (2 + b div BIT2BLK) (b div 32 mod 1024) AND NOT (push_bit (b mod 32) 1)) s =
      Ret (put_bit b False s)"
    using m by (simp add: st_def bitmap_ptr_eq put_bit_def Let_def)
  have f: "bit (cache s (2 + b div BIT2BLK) (b div 32 mod 1024)) (b mod 32) = freeb s b" by (simp only: freeb_def)
  have w: "write_block (b div BIT2BLK + 2) (put_bit b False s) = Ret (blk_write (2 + b div BIT2BLK) (put_bit b False s))"
    using m by (simp add: write_block_def block_is_mapped_def)
  show ?case
    unfolding alloc_scan.simps ld_bitmap_ok[OF ok m(2)] rbind_simps test_bit f p w
    using Cons by simp
qed simp

lemma not_reserved: "fs_ok s \<Longrightarrow> b \<in> free_set s \<Longrightarrow> b \<notin> reserved s"
  by (auto simp: fs_ok_def)

lemma bitmap_reserved: "b < nblk s \<Longrightarrow> 2 + b div BIT2BLK \<in> reserved s"
  using div_le_mono[of b "nblk s" BIT2BLK] by (auto simp: reserved_def)

lemma alloc_block_num_eq:
  assumes ok: "fs_ok s" and b: "free_set s \<noteq> {}" "b = Min (free_set s)"
  shows "alloc_block_num s = Ret (int b, blk_write (2 + b div BIT2BLK) (put_bit b False s))"
    "b \<in> free_set s" "b \<notin> reserved s" "b < nblk s" "freeb s b" "b \<noteq> 2 + b div BIT2BLK" "3 \<le> b"
proof -
  have fin: "finite (free_set s)" by (simp add: free_set_def)
  have bm: "\<And>c. c \<in> free_set s \<Longrightarrow> b \<le> c" using b fin by simp
  show bf: "b \<in> free_set s" using b fin by simp
  then show br: "b \<notin> reserved s" and bn: "b < nblk s" "freeb s b"
    using not_reserved[OF ok] by (simp_all add: free_set_def)
  then show b3: "3 \<le> b" and "b \<noteq> 2 + b div BIT2BLK"
    using bitmap_reserved[OF bn(1)] by (auto simp: reserved_def)
  have "find (freeb s) [3..<nblk s] = Some b"
    unfolding find_Some_iff
  proof (intro exI[of _ "b - 3"] conjI allI impI)
    fix j assume "j < b - 3"
    then have j: "3 + j < b" by simp
    then have "3 + j \<notin> free_set s" using bm[of "3 + j"] by auto
    then show "\<not> freeb s ([3..<nblk s] ! j)" using j bn by (simp add: free_set_def)
  qed (use b3 bn in auto)
  then show "alloc_block_num s = Ret (int b, blk_write (2 + b div BIT2BLK) (put_bit b False s))"
    by (simp add: alloc_block_num_def s_nblocks_ok[OF ok] alloc_scan_ok[OF ok])
qed

lemma alloc_block_num_none:
  assumes ok: "fs_ok s" and none: "free_set s = {}"
  shows "alloc_block_num s = Ret (- E_NO_DISK, s)"
proof -
  have "find (freeb s) [3..<nblk s] = None" using none by (auto simp: find_None_iff free_set_def)
  then show ?thesis by (simp add: alloc_block_num_def s_nblocks_ok[OF ok] alloc_scan_ok[OF ok])
qed

text \<open>
  \<open>alloc_block_num\<close>: when some block is free it returns the lowest free one, marks exactly that
  block as used, and writes the changed bitmap block, and nothing else, to the disk; otherwise it
  returns \<open>-E_NO_DISK\<close> without effect. The layout invariant is kept.
\<close>

theorem alloc_block_num_correct:
  assumes ok: "fs_ok s"
  shows "if free_set s = {} then alloc_block_num s = Ret (- E_NO_DISK, s)
    else \<exists>s'. alloc_block_num s = Ret (int (Min (free_set s)), s') \<and> fs_ok s' \<and>
      free_set s' = free_set s - {Min (free_set s)} \<and>
      (let k = 2 + Min (free_set s) div BIT2BLK in disk s' = (disk s)(k := cache s' k) \<and>
        (\<forall>c. c \<noteq> k \<longrightarrow> cache s' c = cache s c)) \<and>
      mapped s' = mapped s \<and> dirty s' = dirty s \<and> grants s' = grants s"
proof (cases "free_set s = {}")
  case True
  then show ?thesis using alloc_block_num_none[OF ok] by simp
next
  case False
  note b = alloc_block_num_eq[OF ok False refl]
  have "fs_ok (put_bit (Min (free_set s)) False s)" using ok b(4) by (simp add: fs_ok_put_bit)
  then show ?thesis
    using False b(1,4) by (simp add: fs_ok_blk_write free_set_put_bit cache_put_bit Let_def)
qed

text \<open>
  A disk of eight blocks: super block, bitmap, one block for the empty root directory, and the
  blocks 4 to 7 free.
\<close>

definition demo_disk :: "nat \<Rightarrow> block" where
  "demo_disk = (\<lambda>_ _. 0)(1 := (\<lambda>_. 0)(0 := FS_MAGIC, 1 := 8, 2 := 47, 34 := 4096, 35 := 1, 36 := 3),
     2 := (\<lambda>_. 0)(0 := 0xF0))"

definition demo_fs :: fss where
  "demo_fs = \<lparr>disk = demo_disk, mapped = (\<lambda>b. b \<in> {1, 2, 3}), dirty = (\<lambda>_. False), cache = demo_disk,
     super = True, bitmap = True, grants = [True, True], fs_log = []\<rparr>"

lemma demo_fs_simps [simp]:
  "disk demo_fs = demo_disk" "cache demo_fs = demo_disk" "mapped demo_fs b = (b \<in> {1, 2, 3})"
  "dirty demo_fs b = False" "super demo_fs" "bitmap demo_fs" "grants demo_fs = [True, True]" "nblk demo_fs = 8"
  by (simp_all add: demo_fs_def nblk_def demo_disk_def)

lemma demo_free_set: "free_set demo_fs = {4, 5, 6, 7}"
proof -
  have f: "freeb demo_fs b = bit (0xF0 :: u32) b" if "b < 8" for b
    using that by (simp add: freeb_def demo_disk_def)
  have "{b. b < 8 \<and> freeb demo_fs b} = set (filter (\<lambda>b. bit (0xF0 :: u32) b) [0..<8])"
    using f by auto
  also have "\<dots> = {4, 5, 6, 7}" by (simp add: upt_rec) (code_simp)
  finally show ?thesis by (simp add: free_set_def)
qed

lemma demo_fs_ok: "fs_ok demo_fs"
  by (simp add: fs_ok_def demo_free_set reserved_def DISKMAX_def)

theorem alloc_block_num_correct_witness:
  "\<exists>s'. alloc_block_num demo_fs = Ret (4, s') \<and> fs_ok s' \<and> free_set s' = {5, 6, 7}"
  using alloc_block_num_correct[OF demo_fs_ok] by (auto simp: demo_free_set)

lemma free_block_ok:
  assumes "fs_ok s" "b < nblk s" "b \<noteq> 0"
  shows "free_block b s = Ret (put_bit b True s)"
proof -
  have m: "mapped s (2 + b div BIT2BLK)" using bitmap_mapped assms by blast
  have "super s" using assms(1) by (simp add: fs_ok_def)
  moreover have "st (bitmap_ptr b) (cache s (2 + b div BIT2BLK) (b div 32 mod 1024) OR push_bit (b mod 32) 1) s =
      Ret (put_bit b True s)"
    using m by (simp add: st_def bitmap_ptr_eq put_bit_def Let_def)
  ultimately show ?thesis
    using assms(2,3) unfolding free_block_def
    by (simp add: s_nblocks_ok[OF assms(1)] ld_bitmap_ok[OF assms(1,2)] del: push_bit_of_1)
qed

lemma put_bit_True_False: "freeb s b \<Longrightarrow> put_bit b True (put_bit b False s) = s"
proof -
  assume f: "freeb s b"
  let ?w = "cache s (2 + b div BIT2BLK) (b div 32 mod 1024)"
  have "(?w AND NOT (push_bit (b mod 32) 1)) OR push_bit (b mod 32) 1 = ?w"
    using f by (intro bit_word_eqI) (auto simp: freeb_def bit_set_u32 bit_clear_u32 simp del: push_bit_of_1)
  then show ?thesis by (simp add: put_bit_def Let_def del: push_bit_of_1)
qed

text \<open>The block that \<open>alloc_block\<close> returns, and the state it leaves, in each of its three outcomes.\<close>

lemma alloc_block_ok:
  assumes ok: "fs_ok s"
  obtains (full) "free_set s = {}" "alloc_block s = Ret (- E_NO_DISK, s)"
  | (nomem) s' where "free_set s \<noteq> {}" "\<not> mapped s (Min (free_set s))" "\<not> (grants s \<noteq> [] \<and> hd (grants s))"
      "alloc_block s = Ret (- E_NO_MEM, s')" "fs_ok s'" "free_set s' = free_set s"
      "nblk s' = nblk s" "mapped s' = mapped s" "\<forall>c. c \<notin> reserved s \<longrightarrow> cache s' c = cache s c" "cache s' 1 = cache s 1"
  | (got) s' b where "b = Min (free_set s)" "b \<in> free_set s" "b \<notin> reserved s" "b < nblk s"
      "mapped s b \<or> (grants s \<noteq> [] \<and> hd (grants s))" "alloc_block s = Ret (int b, s')" "fs_ok s'"
      "free_set s' = free_set s - {b}" "nblk s' = nblk s" "mapped s' = (mapped s)(b := True)"
      "cache s' b = (if mapped s b then cache s b else (\<lambda>_. 0))"
      "\<forall>c. c \<noteq> b \<and> c \<noteq> 2 + b div BIT2BLK \<longrightarrow> cache s' c = cache s c"
proof (cases "free_set s = {}")
  case True
  then show ?thesis using full alloc_block_num_none[OF ok] by (simp add: alloc_block_def)
next
  case ne: False
  define b where "b = Min (free_set s)"
  let ?k = "2 + b div BIT2BLK"
  define s1 where "s1 = blk_write ?k (put_bit b False s)"
  note b = alloc_block_num_eq[OF ok ne b_def]
  have run: "alloc_block s = (let (r, s2) = map_block b s1 in
      if r < 0 then rbind (free_block b s2) (\<lambda>s. Ret (r, s)) else Ret (int b, s2))"
    by (simp add: alloc_block_def b(1) s1_def Let_def split: prod.split)
  have ok1: "fs_ok s1" "free_set s1 = free_set s - {b}" "nblk s1 = nblk s" "mapped s1 = mapped s"
    "grants s1 = grants s" "reserved s1 = reserved s"
    using ok b(4) by (simp_all add: s1_def fs_ok_blk_write fs_ok_put_bit free_set_put_bit reserved_def)
  have c1: "cache s1 c = cache s c" if "c \<noteq> ?k" for c using that by (simp add: s1_def cache_put_bit)
  show ?thesis
  proof (cases "mapped s b")
    case True
    then have r: "alloc_block s = Ret (int b, s1)" using run ok1(4) by (simp add: map_block_def block_is_mapped_def)
    show ?thesis by (rule got[OF b_def b(2-4) _ r]) (use True ok1 c1 b(6) in \<open>auto simp: fun_eq_iff\<close>)
  next
    case nm: False
    show ?thesis
    proof (cases "grants s \<noteq> [] \<and> hd (grants s)")
      case True
      define s2 where "s2 = snd (cache_alloc b s1)"
      have ca: "cache_alloc b s1 = (0, s2)" "mapped s2 = (mapped s)(b := True)" "cache s2 = (cache s1)(b := (\<lambda>_. 0))"
        "super s2 = super s1" "bitmap s2 = bitmap s1"
        using True ok1(4,5) by (auto simp: cache_alloc_def s2_def neq_Nil_conv)
      have fr: "fs_ok s2" "free_set s2 = free_set s1" "nblk s2 = nblk s1"
        by (rule fs_ok_frame[OF ok1(1)]; use ca ok1 b(3) in auto)+
      have r: "alloc_block s = Ret (int b, s2)"
        using run nm ok1(4) ca(1) by (simp add: map_block_def block_is_mapped_def)
      show ?thesis by (rule got[OF b_def b(2-4) _ r]) (use True nm fr ok1 ca c1 in auto)
    next
      case False
      define s2 where "s2 = snd (cache_alloc b s1)"
      have ca: "cache_alloc b s1 = (- E_NO_MEM, s2)" "mapped s2 = mapped s" "cache s2 = cache s1"
        "super s2 = super s1" "bitmap s2 = bitmap s1"
        using False ok1(4,5) by (auto simp: cache_alloc_def s2_def split: list.splits)
      have fr: "fs_ok s2" "free_set s2 = free_set s1" "nblk s2 = nblk s1"
        by (rule fs_ok_frame[OF ok1(1)]; use ca ok1 in auto)+
      have "free_block b s2 = Ret (put_bit b True s2)"
        using free_block_ok[OF fr(1)] fr(3) ok1(3) b(4,7) by simp
      then have r: "alloc_block s = Ret (- E_NO_MEM, put_bit b True s2)"
        using run nm ok1(4) ca(1) by (simp add: map_block_def block_is_mapped_def)
      have o: "fs_ok (put_bit b True s2)"
        using fs_ok_put_bit[OF fr(1)] fr(3) ok1(3) b(3,4) by (simp add: reserved_def)
      have "free_set (put_bit b True s2) = free_set s"
        using fr ok1(2,3) b(2,4) by (auto simp: free_set_put_bit)
      moreover have "cache (put_bit b True s2) c = cache s c" if "c \<notin> reserved s \<or> c = 1" for c
        using that bitmap_reserved[OF b(4)] ca(3) c1[of c] cache_put_bit[of c b True s2] by auto
      ultimately show ?thesis
        using nomem[OF ne _ False r o] nm fr(3) ok1(3) ca(2) by (simp add: b_def)
    qed
  qed
qed

text \<open>
  C17. \<open>alloc_block\<close> on a full disk returns \<open>-E_NO_DISK\<close> with nothing changed; otherwise it returns the
  lowest free block, marked as used and in memory; when it was not in memory its contents are zero, when a page of an earlier use of the
  block is still in memory they are that page's. When the kernel refuses a page it returns
  \<open>-E_NO_MEM\<close> and the block is free again, with no block changed but the bitmap's.
\<close>

theorem alloc_block_correct:
  assumes ok: "fs_ok s"
  shows "if free_set s = {} then alloc_block s = Ret (- E_NO_DISK, s)
    else let b = Min (free_set s) in if mapped s b \<or> (grants s \<noteq> [] \<and> hd (grants s))
    then \<exists>s'. alloc_block s = Ret (int b, s') \<and> fs_ok s' \<and> free_set s' = free_set s - {b} \<and> mapped s' b \<and>
      cache s' b = (if mapped s b then cache s b else (\<lambda>_. 0)) \<and>
      (\<forall>c. c \<noteq> b \<and> c \<noteq> 2 + b div BIT2BLK \<longrightarrow> cache s' c = cache s c)
    else \<exists>s'. alloc_block s = Ret (- E_NO_MEM, s') \<and> fs_ok s' \<and> free_set s' = free_set s \<and> mapped s' = mapped s \<and>
      (\<forall>c. c \<notin> reserved s \<longrightarrow> cache s' c = cache s c) \<and> cache s' 1 = cache s 1"
proof (cases rule: alloc_block_ok[OF ok, case_names full nomem got])
  case full
  then show ?thesis by simp
next
  case (nomem s')
  then show ?thesis by (simp add: Let_def)
next
  case (got s' b)
  have "free_set s \<noteq> {}" using got(2) by blast
  then show ?thesis using got by (simp add: Let_def)
qed

theorem alloc_block_correct_witness:
  "\<exists>s'. alloc_block demo_fs = Ret (4, s') \<and> fs_ok s' \<and> free_set s' = {5, 6, 7} \<and> cache s' 4 = (\<lambda>_. 0)"
  using alloc_block_correct[OF demo_fs_ok] by (auto simp: demo_free_set Let_def)

section \<open>Write-back\<close>

lemma read_block_cached:
  assumes "fs_ok s" "b < nblk s" "b \<notin> free_set s" "mapped s b"
  shows "read_block b s = Ret ((0, False), s)"
  using assms by (simp add: read_block_def s_nblocks_ok block_is_free_ok block_is_mapped_def)

lemma read_block_disk:
  assumes "fs_ok s" "b < nblk s" "b \<notin> free_set s" "\<not> mapped s b" "grants s = True # gs"
  shows "read_block b s = Ret ((0, True), s\<lparr>grants := gs, mapped := (mapped s)(b := True),
    dirty := (dirty s)(b := False), cache := (cache s)(b := disk s b)\<rparr>)"
  using assms
  by (simp add: read_block_def s_nblocks_ok block_is_free_ok block_is_mapped_def cache_alloc_def blk_read_def)

text \<open>
  \<open>unmap_block\<close> of a block in use that is dirty in memory writes it to the disk before it drops the
  page, so that \<open>read_block\<close> brings back exactly the contents it had; no other block changes, in
  memory or on the disk.
\<close>

theorem unmap_read_roundtrip:
  assumes ok: "fs_ok s" and b: "b < nblk s" "b \<notin> free_set s" "b \<notin> reserved s" "mapped s b" "dirty s b"
    and g: "grants s = True # gs"
  shows "\<exists>s1 s2. unmap_block b s = Ret s1 \<and> \<not> mapped s1 b \<and> disk s1 = (disk s)(b := cache s b) \<and>
    read_block b s1 = Ret ((0, True), s2) \<and> cache s2 = cache s \<and> mapped s2 = mapped s \<and> disk s2 = disk s1 \<and> fs_ok s2"
proof -
  define s1 where "s1 = cache_unmap b (blk_write b s)"
  have f1: "cache s1 = cache s" "mapped s1 = (mapped s)(b := False)" "disk s1 = (disk s)(b := cache s b)"
    "super s1 = super s" "bitmap s1 = bitmap s" "grants s1 = grants s"
    by (simp_all add: s1_def cache_unmap_def)
  have u: "unmap_block b s = Ret s1"
    using b by (simp add: unmap_block_def rassert_def block_is_free_ok[OF ok] block_is_mapped_def block_is_dirty_def
        write_block_def s1_def cache_unmap_def)
  have o: "fs_ok s1" "free_set s1 = free_set s" "nblk s1 = nblk s"
    by (rule fs_ok_frame[OF ok]; use f1 b in auto)+
  define s2 where "s2 = s1\<lparr>grants := gs, mapped := (mapped s1)(b := True),
    dirty := (dirty s1)(b := False), cache := (cache s1)(b := disk s1 b)\<rparr>"
  have "read_block b s1 = Ret ((0, True), s2)"
    unfolding s2_def by (rule read_block_disk[OF o(1)]) (use o f1 b g in simp_all)
  moreover have f2: "cache s2 = cache s" "mapped s2 = mapped s" "disk s2 = disk s1"
    using f1 b(4) by (simp_all add: s2_def fun_eq_iff)
  moreover have "fs_ok s2" by (rule fs_ok_frame[OF ok]) (use f1 f2 in \<open>auto simp: s2_def\<close>)
  ultimately show ?thesis using u f1 by auto
qed

lemma sync_blocks_ok:
  "\<exists>s'. sync_blocks bs s = Ret s' \<and> cache s' = cache s \<and> mapped s' = mapped s \<and> dirty s' = dirty s \<and>
     super s' = super s \<and> bitmap s' = bitmap s \<and>
     disk s' = (\<lambda>b. if b \<in> set bs \<and> mapped s b \<and> dirty s b then cache s b else disk s b)"
proof (induction bs arbitrary: s)
  case (Cons b bs)
  define s1 where "s1 = (if block_is_dirty b s then blk_write b s else s)"
  have run: "sync_blocks (b # bs) s = sync_blocks bs s1"
    by (simp add: s1_def write_block_def block_is_mapped_def block_is_dirty_def)
  have f: "cache s1 = cache s" "mapped s1 = mapped s" "dirty s1 = dirty s" "super s1 = super s" "bitmap s1 = bitmap s"
    "disk s1 = (if mapped s b \<and> dirty s b then (disk s)(b := cache s b) else disk s)"
    by (simp_all add: s1_def block_is_dirty_def)
  show ?case using Cons[of s1] unfolding run f by (auto simp: fun_eq_iff)
qed simp

text \<open>
  \<open>fs_sync\<close> brings the disk up to date: every block of the disk that is dirty in memory is on the
  disk with its contents afterwards, and nothing else is changed on the disk or in memory.
\<close>

theorem fs_sync_correct:
  assumes "fs_ok s"
  shows "\<exists>s'. fs_sync s = Ret s' \<and> fs_ok s' \<and> cache s' = cache s \<and> mapped s' = mapped s \<and>
    disk s' = (\<lambda>b. if b < nblk s \<and> mapped s b \<and> dirty s b then cache s b else disk s b)"
proof -
  obtain s' where s': "sync_blocks [0..<nblk s] s = Ret s'" "cache s' = cache s" "mapped s' = mapped s"
    "super s' = super s" "bitmap s' = bitmap s"
    "disk s' = (\<lambda>b. if b \<in> set [0..<nblk s] \<and> mapped s b \<and> dirty s b then cache s b else disk s b)"
    using sync_blocks_ok[of "[0..<nblk s]" s] by blast
  have "fs_ok s'" by (rule fs_ok_frame[OF assms]) (use s' in auto)
  then show ?thesis using s' by (auto simp: fs_sync_def s_nblocks_ok[OF assms])
qed

section \<open>Initialisation\<close>

lemma read_blocks_fresh:
  assumes "super s" "\<not> bitmap s" "mapped s 1" "\<forall>b \<in> set bs. b < nblk s \<and> \<not> mapped s b" "distinct bs"
    "grants s = replicate (length bs) True @ gs"
  shows "\<exists>s'. read_blocks bs s = Ret s' \<and> cache s' = (\<lambda>b. if b \<in> set bs then disk s b else cache s b) \<and>
    mapped s' = (\<lambda>b. b \<in> set bs \<or> mapped s b) \<and> disk s' = disk s \<and> super s' = super s \<and> bitmap s' = bitmap s \<and>
    grants s' = gs"
  using assms
proof (induction bs arbitrary: s)
  case (Cons b bs)
  define s1 where "s1 = s\<lparr>grants := replicate (length bs) True @ gs, mapped := (mapped s)(b := True),
    dirty := (dirty s)(b := False), cache := (cache s)(b := disk s b)\<rparr>"
  have b1: "b \<noteq> 1" using Cons.prems(3,4) by auto
  have n: "s_nblocks s = Ret (nblk s)" using Cons.prems(1,3) by (simp add: s_nblocks_def ld_def nblk_def)
  have r: "read_block b s = Ret ((0, True), s1)"
    using Cons.prems n by (simp add: read_block_def block_is_mapped_def cache_alloc_def blk_read_def s1_def)
  have n1: "nblk s1 = nblk s" using b1 by (simp add: nblk_def s1_def)
  have "\<exists>s'. read_blocks bs s1 = Ret s' \<and> cache s' = (\<lambda>b. if b \<in> set bs then disk s1 b else cache s1 b) \<and>
    mapped s' = (\<lambda>b. b \<in> set bs \<or> mapped s1 b) \<and> disk s' = disk s1 \<and> super s' = super s1 \<and> bitmap s' = bitmap s1 \<and>
    grants s' = gs"
    by (rule Cons.IH) (use Cons.prems b1 n1 in \<open>auto simp: s1_def\<close>)
  then show ?case using r by (auto simp: s1_def fun_eq_iff)
qed (auto simp: fun_eq_iff)

lemma all_in_use_ok: "fs_ok s \<Longrightarrow> set bs \<inter> free_set s = {} \<Longrightarrow> all_in_use bs s = Ret s"
  by (induction bs) (auto simp: block_is_free_ok rassert_def)

lemma smash_reads_back:
  "smash b 0 = 0x53504F4F" "smash b 1 AND 0x00FFFFFF = 0x000A21"
proof -
  have m: "(0x00FFFFFF :: u32) = mask 24" "(0xFF000000 :: u32) = push_bit 24 (mask 8)"
    by (simp_all add: mask_eq_exp_minus_1)
  have "(b 1 AND push_bit 24 (mask 8)) AND mask 24 = (0 :: u32)"
    by (rule bit_word_eqI) (auto simp: bit_simps)
  then show "smash b 1 AND 0x00FFFFFF = 0x000A21"
    unfolding smash_def m by (simp add: bit.conj_disj_distrib2 mask_eq_exp_minus_1)
qed (simp add: smash_def)

text \<open>The state after \<open>read_super\<close> and \<open>check_write_block\<close>.\<close>

lemma read_super_ok:
  assumes "\<not> super s" "\<not> bitmap s" "\<not> mapped s 1" "grants s = True # gs"
    and d: "disk s 1 0 = FS_MAGIC" "unat (disk s 1 1) \<le> unat DISKMAX div BY2BLK"
  shows "\<exists>s'. read_super s = Ret s' \<and> super s' \<and> \<not> bitmap s' \<and> mapped s' = (mapped s)(1 := True) \<and> disk s' = disk s \<and>
    cache s' = (cache s)(1 := disk s 1) \<and> grants s' = gs"
  using assms
  by (simp add: read_super_def read_block_def block_is_mapped_def cache_alloc_def blk_read_def ld_def s_nblocks_def
      fs_debugf_def)

lemma check_write_block_ok:
  assumes "super s" "\<not> bitmap s" "mapped s 1" "\<not> mapped s 0" "grants s = True # True # gs" "disk s 1 = cache s 1"
  shows "\<exists>s'. check_write_block s = Ret s' \<and> super s' \<and> \<not> bitmap s' \<and> mapped s' = (mapped s)(0 := True) \<and>
    disk s' = disk s \<and> cache s' = (cache s)(0 := cache s 1) \<and> grants s' = gs"
  using assms smash_reads_back[of "cache s 1"]
  by (simp add: check_write_block_def read_block_def block_is_mapped_def cache_alloc_def blk_read_def write_block_def
      blk_write_def cache_unmap_def rassert_def fun_eq_iff)

lemma fs_init_ok:
  assumes fresh: "\<not> super s" "\<not> bitmap s" "\<forall>b. \<not> mapped s b"
    and magic: "disk s 1 0 = FS_MAGIC"
    and n: "n = unat (disk s 1 1)" "n \<le> unat DISKMAX div BY2BLK" "n div BIT2BLK + 3 \<le> n"
    and used: "\<forall>b < n div BIT2BLK + 3. \<not> bit (disk s (2 + b div BIT2BLK) (b div 32 mod 1024)) (b mod 32)"
    and g: "grants s = replicate (n div BIT2BLK + 4) True @ gs"
  shows "\<exists>s'. fs_init s = Ret s' \<and> fs_ok s' \<and> disk s' = disk s \<and> grants s' = gs \<and>
    (\<forall>b. 1 \<le> b \<and> b < n div BIT2BLK + 3 \<longrightarrow> cache s' b = disk s b)"
proof -
  let ?k = "n div BIT2BLK"
  have "?k + 4 = Suc (Suc (Suc (?k + 1)))" by simp
  then have g': "grants s = True # True # True # replicate (?k + 1) True @ gs"
    using g by (simp only: replicate_Suc append_Cons)
  obtain s1 where s1: "read_super s = Ret s1" "super s1" "\<not> bitmap s1" "mapped s1 = (mapped s)(1 := True)"
    "disk s1 = disk s" "cache s1 = (cache s)(1 := disk s 1)" "grants s1 = True # True # replicate (?k + 1) True @ gs"
    using read_super_ok[OF fresh(1,2) _ g'] fresh(3) magic n by blast
  obtain s2 where s2: "check_write_block s1 = Ret s2" "super s2" "\<not> bitmap s2" "mapped s2 = (mapped s1)(0 := True)"
    "disk s2 = disk s" "cache s2 = (cache s1)(0 := cache s1 1)" "grants s2 = replicate (?k + 1) True @ gs"
    using check_write_block_ok[of s1 "replicate (?k + 1) True @ gs"] s1 fresh(3) by auto
  have n2: "nblk s2 = n" by (simp add: nblk_def s2 s1 n(1))
  have m2: "mapped s2 1" "\<not> mapped s2 (2 + c)" for c using fresh(3) by (simp_all add: s2 s1)
  have fresh2: "\<forall>b \<in> set [2..<?k + 3]. b < nblk s2 \<and> \<not> mapped s2 b"
  proof
    fix b assume b: "b \<in> set [2..<?k + 3]"
    then have "b = 2 + (b - 2)" by auto
    then have "\<not> mapped s2 b" using m2(2)[of "b - 2"] by metis
    then show "b < nblk s2 \<and> \<not> mapped s2 b" using b n(3) n2 by simp
  qed
  have "length [2..<?k + 3] = ?k + 1" by simp
  then have g2: "grants s2 = replicate (length [2..<?k + 3]) True @ gs" by (simp only: s2(7))
  obtain s3 where s3: "read_blocks [2..<?k + 3] s2 = Ret s3"
    "cache s3 = (\<lambda>b. if b \<in> set [2..<?k + 3] then disk s2 b else cache s2 b)"
    "mapped s3 = (\<lambda>b. b \<in> set [2..<?k + 3] \<or> mapped s2 b)" "disk s3 = disk s2" "super s3 = super s2" "bitmap s3 = bitmap s2"
    "grants s3 = gs"
    using read_blocks_fresh[OF s2(2,3) m2(1) fresh2 distinct_upt g2] by blast
  define s4 where "s4 = s3\<lparr>bitmap := True\<rparr>"
  have c4: "cache s4 b = disk s b" if "1 \<le> b" "b < ?k + 3" for b
    using that by (cases "b = 1") (simp_all add: s4_def s3(2) s2(5,6) s1(6))
  have n4: "nblk s4 = n" using c4[of 1] n(1) by (simp add: nblk_def)
  have "freeb s4 b = bit (disk s (2 + b div BIT2BLK) (b div 32 mod 1024)) (b mod 32)" if "b < n" for b
    using c4[of "2 + b div BIT2BLK"] div_le_mono[of b n BIT2BLK] that by (simp add: freeb_def)
  then have "reserved s4 \<inter> free_set s4 = {}"
    using used n(3) by (auto simp: reserved_def free_set_def n4)
  then have ok: "fs_ok s4"
    using n(2) m2(1) by (auto simp: fs_ok_def n4) (auto simp: s4_def s3 s2)
  have "set ([0, 1] @ [2..<?k + 3]) \<subseteq> reserved s4" by (auto simp: reserved_def n4)
  then have "all_in_use ([0, 1] @ [2..<?k + 3]) s4 = Ret s4"
    using ok by (intro all_in_use_ok) (auto simp: fs_ok_def)
  moreover have "?k + 1 + 2 = ?k + 3" by simp
  moreover have "s_nblocks s2 = Ret n" using s2(2) m2(1) n2 by (simp add: s_nblocks_def ld_def nblk_def)
  ultimately have rb: "read_bitmap s2 = Ret (fs_debugf (''read_bitmap is good'' @ [CHR 0x0A]) s4)"
    unfolding read_bitmap_def Let_def by (simp only: s3(1) rbind_simps s4_def[symmetric])
  define s5 where "s5 = fs_debugf (''read_bitmap is good'' @ [CHR 0x0A]) s4"
  have s5: "cache s5 = cache s4" "mapped s5 = mapped s4" "super s5 = super s4" "bitmap s5 = bitmap s4"
    "disk s5 = disk s" "grants s5 = gs"
    by (simp_all add: s5_def fs_debugf_def s4_def s3 s2)
  have "fs_init s = Ret s5" using s1(1) s2(1) rb by (simp add: fs_init_def s5_def)
  moreover have "fs_ok s5" by (rule fs_ok_frame[OF ok]) (use s5 in auto)
  ultimately show ?thesis using s5 c4 by auto
qed

text \<open>
  Start-up: on a disk with the right magic number, at most \<open>DISKMAX\<close> in size, larger than its reserved
  part, and with the reserved blocks marked as used, when the kernel grants the pages, \<open>fs_init\<close>
  returns; it establishes the layout invariant, holds super block and bitmap in memory as they are
  on the disk, and leaves the disk as it was, the overwriting of the super block by
  \<open>check_write_block\<close> included.
\<close>

theorem fs_init_correct:
  assumes fresh: "\<not> super s" "\<not> bitmap s" "\<forall>b. \<not> mapped s b"
    and magic: "disk s 1 0 = FS_MAGIC"
    and n: "n = unat (disk s 1 1)" "n \<le> unat DISKMAX div BY2BLK" "n div BIT2BLK + 3 \<le> n"
    and used: "\<forall>b < n div BIT2BLK + 3. \<not> bit (disk s (2 + b div BIT2BLK) (b div 32 mod 1024)) (b mod 32)"
    and g: "grants s = replicate (n div BIT2BLK + 4) True @ gs"
  shows "\<exists>s'. fs_init s = Ret s' \<and> fs_ok s' \<and> disk s' = disk s \<and> grants s' = gs \<and>
    (\<forall>b. 1 \<le> b \<and> b < n div BIT2BLK + 3 \<longrightarrow> cache s' b = disk s b)"
  by (rule fs_init_ok[OF assms])

definition demo_disk_only :: fss where
  "demo_disk_only = \<lparr>disk = demo_disk, mapped = (\<lambda>_. False), dirty = (\<lambda>_. False), cache = (\<lambda>_ _. 0),
     super = False, bitmap = False, grants = replicate 4 True, fs_log = []\<rparr>"

theorem fs_init_correct_witness:
  "\<exists>s'. fs_init demo_disk_only = Ret s' \<and> fs_ok s' \<and> disk s' = demo_disk"
proof -
  have d: "disk demo_disk_only = demo_disk" by (simp add: demo_disk_only_def)
  have c: "demo_disk 1 0 = FS_MAGIC" "8 = unat (demo_disk 1 1)" by (simp_all add: demo_disk_def)
  have "\<not> bit (0xF0 :: u32) 0" "\<not> bit (0xF0 :: u32) 1" "\<not> bit (0xF0 :: u32) 2" by code_simp+
  then have "\<not> bit (0xF0 :: u32) b" if "b < 3" for b
    using that by (auto simp: less_Suc_eq numeral_3_eq_3 numeral_2_eq_2)
  then have u: "\<forall>b < 8 div BIT2BLK + 3. \<not> bit (demo_disk (2 + b div BIT2BLK) (b div 32 mod 1024)) (b mod 32)"
    by (simp add: demo_disk_def)
  have f: "\<not> super demo_disk_only" "\<not> bitmap demo_disk_only" "\<forall>b. \<not> mapped demo_disk_only b"
    "grants demo_disk_only = replicate (8 div BIT2BLK + 4) True @ []" "8 \<le> unat DISKMAX div BY2BLK"
    "8 div BIT2BLK + 3 \<le> (8 :: nat)"
    by (simp_all add: demo_disk_only_def DISKMAX_def)
  show ?thesis
    using fs_init_correct[OF f(1-3) c[folded d] f(5,6) u[folded d] f(4)] unfolding d by blast
qed

theorem unmap_read_roundtrip_witness:
  "\<exists>s1 s2. unmap_block 3 (demo_fs\<lparr>dirty := (\<lambda>b. b = 3)\<rparr>) = Ret s1 \<and> \<not> mapped s1 3 \<and>
     read_block 3 s1 = Ret ((0, True), s2) \<and> cache s2 = demo_disk"
proof -
  let ?s = "demo_fs\<lparr>dirty := (\<lambda>b. b = 3)\<rparr>"
  have f: "fs_ok ?s" "free_set ?s = free_set demo_fs" "nblk ?s = nblk demo_fs"
    by (rule fs_ok_frame[OF demo_fs_ok]; simp)+
  show ?thesis
    using unmap_read_roundtrip[OF f(1), of 3 "[True]"] by (simp add: f demo_free_set reserved_def) blast
qed

theorem fs_sync_correct_witness:
  "\<exists>s'. fs_sync demo_fs = Ret s' \<and> fs_ok s' \<and> cache s' = demo_disk"
  using fs_sync_correct[OF demo_fs_ok] by auto

end
