(* ===== verification/FsFiles.thy ===== *)
theory FsFiles
  imports FsProps
begin

text \<open>
  Path names, the block map of files, and directories: \<open>walk_path\<close> against a walk over the list of
  components, stability of \<open>file_map_block\<close>, and files that are found after they are created.
\<close>

section \<open>Path names\<close>

text \<open>The components of a path: what is between slashes, empty parts left out.\<close>

fun split_slash :: "path \<Rightarrow> path list" where
  "split_slash [] = [[]]"
| "split_slash (c # cs) = (if c = 47 then [] # split_slash cs
     else (c # hd (split_slash cs)) # tl (split_slash cs))"

definition components :: "path \<Rightarrow> path list" where
  "components p = filter (\<lambda>n. n \<noteq> []) (split_slash p)"

lemma split_slash_ne: "split_slash p \<noteq> []"
  by (induction p) auto

lemma split_slash_eq:
  "split_slash p = takeWhile (\<lambda>c. c \<noteq> 47) p # (case dropWhile (\<lambda>c. c \<noteq> 47) p of [] \<Rightarrow> [] | c # cs \<Rightarrow> split_slash cs)"
  by (induction p) auto

lemma components_slash: "components (47 # p) = components p"
  by (simp add: components_def)

lemma components_skip [simp]: "components (skip_slash p) = components p"
  unfolding skip_slash_def by (induction p) (auto simp: components_slash)

lemma components_Nil [simp]: "components [] = []"
  by (simp add: components_def)

lemma components_Cons:
  assumes "p \<noteq> []" "hd p \<noteq> 47"
  shows "components p = takeWhile (\<lambda>c. c \<noteq> 47) p # components (skip_slash (dropWhile (\<lambda>c. c \<noteq> 47) p))"
proof -
  have ne: "takeWhile (\<lambda>c. c \<noteq> 47) p \<noteq> []" using assms by (cases p) auto
  show ?thesis
  proof (cases "dropWhile (\<lambda>c. c \<noteq> 47) p")
    case Nil
    have "components p = [takeWhile (\<lambda>c. c \<noteq> 47) p]"
      using ne unfolding components_def split_slash_eq[of p] Nil by simp
    then show ?thesis unfolding Nil by (simp add: skip_slash_def)
  next
    case (Cons c cs)
    then have "c = 47" using hd_dropWhile[of "\<lambda>c. c \<noteq> 47" p] by auto
    then show ?thesis
      using ne Cons components_skip[of "47 # cs"]
      by (simp add: components_def split_slash_eq[of p] components_slash[unfolded components_def])
  qed
qed

lemma skip_slash_hd: "skip_slash p \<noteq> [] \<Longrightarrow> hd (skip_slash p) \<noteq> 47"
  using hd_dropWhile[of "\<lambda>c. c = 47" p] by (simp add: skip_slash_def)

fun walk_components :: "path list \<Rightarrow> ptr option \<Rightarrow> ptr \<Rightarrow> fss \<Rightarrow> (walk \<times> fss) res" where
  "walk_components [] dir file s = Ret ((0, dir, Some file, None), s)"
| "walk_components (name # names) _ dir s =
     (if MAXNAMELEN \<le> length name then Ret ((- E_BAD_PATH, None, None, None), s)
      else rbind (ld s (f_type dir)) (\<lambda>ty.
        if ty \<noteq> FTYPE_DIR then Ret ((- E_NOT_FOUND, None, None, None), s)
        else rbind (dir_lookup dir name s) (\<lambda>((r, file), s).
          if r < 0
          then if r = - E_NOT_FOUND \<and> names = [] then Ret ((r, Some dir, None, Some name), s)
               else Ret ((r, None, None, None), s)
          else walk_components names (Some dir) file s)))"

lemma walk_loop_components:
  "p = [] \<or> hd p \<noteq> 47 \<Longrightarrow> walk_loop p dir f s = walk_components (components p) dir f s"
proof (induction "length p" arbitrary: p dir f s rule: less_induct)
  case less
  show ?case
  proof (cases "p = []")
    case True
    then show ?thesis by (subst walk_loop.simps) simp
  next
    case False
    define name where "name = takeWhile (\<lambda>c. c \<noteq> 47) p"
    define rest where "rest = skip_slash (dropWhile (\<lambda>c. c \<noteq> 47) p)"
    have c: "components p = name # components rest"
      using components_Cons[OF False] less.prems False by (simp add: name_def rest_def)
    have r: "rest = [] \<or> hd rest \<noteq> 47" using skip_slash_hd by (auto simp: rest_def)
    have e: "(components rest = []) = (rest = [])"
      by (cases "rest = []") (use r components_Cons[of rest] in auto)
    have "length rest < length p" using skip_slash_shorter[OF False] by (simp add: rest_def)
    then have IH: "walk_loop rest d g s' = walk_components (components rest) d g s'" for d g s'
      using less.hyps r by blast
    show ?thesis
      unfolding c
      by (subst walk_loop.simps) (simp only: walk_components.simps e False Let_def name_def[symmetric]
          rest_def[symmetric] IH if_False)
  qed
qed

lemma walk_path_eq: "super s \<Longrightarrow> walk_path p s = walk_components (components p) None s_root s"
proof -
  assume "super s"
  moreover have "skip_slash p = [] \<or> hd (skip_slash p) \<noteq> 47" using skip_slash_hd by blast
  from walk_loop_components[OF this, of None s_root s]
  have "walk_loop (skip_slash p) None s_root s = walk_components (components p) None s_root s" by simp
  ultimately show ?thesis by (simp add: walk_path_def)
qed

text \<open>
  C18. \<open>walk_path\<close>, which scans the path in place, follows exactly the components of the path: slashes at
  the front, at the end or repeated do not matter. With it, two spellings of a path with the same
  components are the same to \<open>file_open\<close>, \<open>file_create\<close> and \<open>file_remove\<close>.
\<close>

theorem walk_path_components:
  "walk_path p s = (if super s then walk_components (components p) None s_root s else Fault ''NULL super'') \<and>
   (components p = components q \<longrightarrow>
      file_open p s = file_open q s \<and> file_create p s = file_create q s \<and> file_remove p s = file_remove q s)"
proof -
  have w: "walk_path p s = (if super s then walk_components (components p) None s_root s else Fault ''NULL super'')" for p
    by (cases "super s") (simp_all add: walk_path_eq, simp add: walk_path_def)
  then show ?thesis by (simp add: file_open_def file_create_def file_remove_def)
qed

theorem walk_path_components_witness:
  "file_open [47, 97, 47, 47, 98] demo_fs = file_open [97, 47, 98, 47] demo_fs"
  using walk_path_components[of "[47, 97, 47, 47, 98]" demo_fs "[97, 47, 98, 47]"] by (simp add: components_def)

section \<open>The block map of a file\<close>

lemma fs_ok_frame_blocks:
  assumes ok: "fs_ok s" and e: "super s' = super s" "bitmap s' = bitmap s" "nblk s' = nblk s"
    and c: "\<And>k. k \<le> nblk s div BIT2BLK \<Longrightarrow> cache s' (2 + k) = cache s (2 + k)"
    and m: "\<And>c. mapped s c \<Longrightarrow> mapped s' c"
  shows "fs_ok s'" "free_set s' = free_set s" "reserved s' = reserved s"
proof -
  have "cache s' (2 + b div BIT2BLK) = cache s (2 + b div BIT2BLK)" if "b < nblk s" for b
    using c div_le_mono[of b "nblk s" BIT2BLK] that by simp
  then show f: "free_set s' = free_set s" using e(3) by (auto simp: free_set_def freeb_def)
  show r: "reserved s' = reserved s" using e(3) by (simp add: reserved_def)
  show "fs_ok s'" using ok e m unfolding fs_ok_def f r by auto
qed

text \<open>
  A file in the cache: in the super block or in a block in use outside the reserved part, and with an
  indirect block, if any, that is neither reserved nor the block of the file itself.
\<close>

definition file_ok :: "fss \<Rightarrow> ptr \<Rightarrow> bool" where
  "file_ok s f \<longleftrightarrow> fs_ok s \<and> mapped s (fst f) \<and> fst f < nblk s \<and> fst f \<notin> free_set s \<and>
     (f = s_root \<or> fst f \<notin> reserved s) \<and>
     (let i = unat (cache s (fst f) (snd f + 44)) in i = 0 \<or> i \<notin> insert (fst f) (reserved s))"

lemma file_ok_not_bitmap: "file_ok s f \<Longrightarrow> k \<le> nblk s div BIT2BLK \<Longrightarrow> fst f \<noteq> 2 + k"
  by (auto simp: file_ok_def s_root_def reserved_def)

text \<open>A store to a word of a file, or of a block that is not reserved, keeps the layout.\<close>

lemma st_ok:
  assumes "fs_ok s" "mapped s (fst p)" "fst p \<notin> reserved s \<or> (fst p = 1 \<and> snd p \<noteq> 1)"
  shows "st p w s = Ret (s\<lparr>cache := (cache s)(fst p := (cache s (fst p))(snd p := w))\<rparr>)"
    "fs_ok (s\<lparr>cache := (cache s)(fst p := (cache s (fst p))(snd p := w))\<rparr>)"
    "free_set (s\<lparr>cache := (cache s)(fst p := (cache s (fst p))(snd p := w))\<rparr>) = free_set s"
    "nblk (s\<lparr>cache := (cache s)(fst p := (cache s (fst p))(snd p := w))\<rparr>) = nblk s"
proof -
  let ?s = "s\<lparr>cache := (cache s)(fst p := (cache s (fst p))(snd p := w))\<rparr>"
  show "st p w s = Ret ?s" using assms(2) by (simp add: st_def)
  have r: "1 \<in> reserved s" "\<And>k. k \<le> nblk s div BIT2BLK \<Longrightarrow> 2 + k \<in> reserved s" by (simp_all add: reserved_def)
  then have n1: "fst p \<noteq> 1 \<or> snd p \<noteq> 1" using assms(3) by metis
  then show n: "nblk ?s = nblk s" by (auto simp: nblk_def)
  have "2 + k \<noteq> fst p" if "k \<le> nblk s div BIT2BLK" for k
    using assms(3) r(2)[OF that] by auto
  then have c: "cache ?s (2 + k) = cache s (2 + k)" if "k \<le> nblk s div BIT2BLK" for k using that by simp
  show "fs_ok ?s" "free_set ?s = free_set s"
    by (rule fs_ok_frame_blocks[OF assms(1) _ _ n c]; simp)+
qed

lemma read_block_cases:
  assumes ok: "fs_ok s" and r: "read_block i s = Ret ((r, nw), s')"
  shows "r = 0 \<and> i < nblk s \<and> i \<notin> free_set s \<and> mapped s' = (mapped s)(i := True) \<and> super s' = super s \<and>
    bitmap s' = bitmap s \<and> (\<forall>c. c \<noteq> i \<longrightarrow> cache s' c = cache s c) \<and> (mapped s i \<longrightarrow> s' = s)"
proof (cases "mapped s i")
  case True
  then show ?thesis using r s_nblocks_ok[OF ok] ok
    by (auto simp: read_block_def block_is_free_ok[OF ok] block_is_mapped_def fs_ok_def fun_eq_iff split: if_splits)
next
  case False
  then show ?thesis using r s_nblocks_ok[OF ok] ok
    by (auto simp: read_block_def block_is_free_ok[OF ok] block_is_mapped_def fs_ok_def cache_alloc_def blk_read_def
        split: if_splits list.splits)
qed

text \<open>The slot of a file block, where it is known: in the file or in the indirect block in the cache.\<close>

definition slot_ok :: "fss \<Rightarrow> ptr \<Rightarrow> nat \<Rightarrow> ptr \<Rightarrow> bool" where
  "slot_ok s f k p \<longleftrightarrow> (if k < NDIRECT then p = f_direct f k
     else k < NINDIRECT \<and> (let i = unat (cache s (fst f) (snd f + 44)) in
       p = (i, k) \<and> i \<noteq> 0 \<and> mapped s i \<and> i < nblk s \<and> i \<notin> free_set s))"

lemma walk_known:
  assumes "file_ok s f" "slot_ok s f k p"
  shows "file_block_walk f k c s = Ret ((0, p), s)"
proof (cases "k < NDIRECT")
  case False
  let ?i = "unat (cache s (fst f) (snd f + 44))"
  have i: "k < NINDIRECT" "p = (?i, k)" "?i \<noteq> 0" "mapped s ?i" "?i < nblk s" "?i \<notin> free_set s"
    using assms(2) False by (auto simp: slot_ok_def Let_def)
  have "ld s (f_indirect f) = Ret (cache s (fst f) (snd f + 44))" "fs_ok s"
    using assms(1) by (simp_all add: file_ok_def ld_def f_indirect_def)
  moreover have "cache s (fst f) (snd f + 44) \<noteq> 0" using i(3) by auto
  ultimately show ?thesis
    using i False by (simp add: file_block_walk_def read_block_cached)
qed (use assms in \<open>simp add: file_block_walk_def slot_ok_def\<close>)

lemma slot_place:
  assumes "file_ok s f" "slot_ok s f k p"
  shows "mapped s (fst p)" "fst p \<notin> reserved s \<or> (fst p = 1 \<and> snd p \<noteq> 1)" "p \<noteq> f_indirect f"
    "fst p < nblk s" "fst p \<notin> free_set s"
  using assms
  by (auto simp: slot_ok_def file_ok_def f_direct_def f_indirect_def s_root_def Let_def split: if_splits)

lemma walk_indirect_new:
  assumes fo: "file_ok s f" and k: "\<not> k < NDIRECT" and z: "cache s (fst f) (snd f + 44) = 0"
    and r: "file_block_walk f k c s = Ret ((0, p), s')"
  shows "file_ok s' f \<and> slot_ok s' f k p \<and> free_set s' \<subseteq> free_set s \<and> nblk s' = nblk s"
proof -
  have ok: "fs_ok s" "mapped s (fst f)" "fst f \<notin> free_set s" "fst f < nblk s" using fo by (simp_all add: file_ok_def)
  have kn: "k < NINDIRECT" using r k by (auto simp: file_block_walk_def split: if_splits)
  have l: "ld s (f_indirect f) = Ret 0" using ok(2) z by (simp add: ld_def f_indirect_def)
  have c: "c" using r k kn l by (auto simp: file_block_walk_def split: if_splits)
  show ?thesis
  proof (cases rule: alloc_block_ok[OF ok(1), case_names full nomem got])
    case (got s1 b)
    have bf: "b \<noteq> fst f" "b \<noteq> 0" using got(2,3) ok(3) by (auto simp: reserved_def)
    have b32: "b < 2 ^ 32" using got(4) nblk_le[OF ok(1)] by simp
    have pl: "fst (f_indirect f) \<notin> reserved s1 \<or> (fst (f_indirect f) = 1 \<and> snd (f_indirect f) \<noteq> 1)"
      using fo got(9) by (auto simp: file_ok_def f_indirect_def s_root_def reserved_def)
    have m1: "mapped s1 (fst (f_indirect f))" using ok(2) got(10) by (simp add: f_indirect_def)
    define s2 where "s2 = s1\<lparr>cache := (cache s1)(fst (f_indirect f) := (cache s1 (fst (f_indirect f)))
      (snd (f_indirect f) := word_of_int (int b)))\<rparr>"
    note s2 = st_ok[OF got(7) m1 pl, of "word_of_int (int b)", folded s2_def]
    have i2: "cache s2 (fst f) (snd f + 44) = word_of_int (int b)" by (simp add: s2_def f_indirect_def)
    have ub: "unat (word_of_int (int b) :: u32) = b" using b32 by (simp add: unat_of_nat)
    have m2: "mapped s2 b" "mapped s2 (fst f)" using got(10) ok(2) by (simp_all add: s2_def)
    have rb: "read_block b s2 = Ret ((0, False), s2)"
      by (rule read_block_cached) (use s2 got m2 in auto)
    have l2: "ld s2 (f_indirect f) = Ret (word_of_int (int b))" using m2(2) i2 by (simp add: ld_def f_indirect_def)
    have nz: "(word_of_int (int b) :: u32) \<noteq> 0" using ub bf(2) by (metis unat_0)
    have "file_block_walk f k c s = Ret ((0, (b, k)), s2)"
      using k kn l c got(6) s2(1) l2 rb ub by (simp add: file_block_walk_def)
    then have e: "p = (b, k)" "s' = s2" using r by simp_all
    have "file_ok s2 f"
      using fo s2 got(3,8,9) m2 i2 ub bf by (auto simp: file_ok_def reserved_def Let_def)
    moreover have "slot_ok s2 f k p"
      using k kn e i2 ub bf m2 s2 got by (auto simp: slot_ok_def Let_def)
    ultimately show ?thesis using e s2 got(8,9) by auto
  qed (use r k kn l c in \<open>simp_all add: file_block_walk_def\<close>)
qed

lemma walk_ret: "file_block_walk f k c s = Ret ((r, p), s') \<Longrightarrow> \<not> r < 0 \<Longrightarrow> r = 0"
  by (auto simp: file_block_walk_def rbind_eq_Ret split: if_splits)

lemma walk_ok:
  assumes fo: "file_ok s f" and r: "file_block_walk f k c s = Ret ((0, p), s')"
  shows "file_ok s' f \<and> slot_ok s' f k p \<and> free_set s' \<subseteq> free_set s \<and> nblk s' = nblk s"
proof (cases "k < NDIRECT")
  case True
  then show ?thesis using fo r by (simp add: file_block_walk_def slot_ok_def)
next
  case k: False
  show ?thesis
  proof (cases "cache s (fst f) (snd f + 44) = 0")
    case True
    show ?thesis by (rule walk_indirect_new[OF fo k True r])
  next
    case nz: False
    let ?i = "unat (cache s (fst f) (snd f + 44))"
    have i0: "?i \<noteq> 0" using nz by (simp add: unat_eq_0)
    have ok: "fs_ok s" "mapped s (fst f)" "?i \<notin> reserved s" "?i \<noteq> fst f"
      using fo i0 by (auto simp: file_ok_def Let_def)
    have kn: "k < NINDIRECT" using r k by (auto simp: file_block_walk_def split: if_splits)
    have l: "ld s (f_indirect f) = Ret (cache s (fst f) (snd f + 44))"
      using ok(2) by (simp add: ld_def f_indirect_def)
    obtain r' nw s1 where rb: "read_block ?i s = Ret ((r', nw), s1)"
      using r k kn l nz by (auto simp: file_block_walk_def rbind_eq_Ret)
    note c = read_block_cases[OF ok(1) rb]
    have e: "p = (?i, k)" "s' = s1" using r k kn l nz rb c by (auto simp: file_block_walk_def)
    have cs: "cache s1 b = cache s b" "mapped s b \<Longrightarrow> mapped s1 b" if "b \<in> reserved s" for b
      using c ok(3) that by (metis, simp)
    have fr: "fs_ok s1" "free_set s1 = free_set s" "nblk s1 = nblk s"
      by (rule fs_ok_frame[OF ok(1)]; use c cs in blast)+
    have same: "cache s1 (fst f) = cache s (fst f)" "mapped s1 (fst f)" "mapped s1 ?i" using c ok(2,4) by auto
    have "file_ok s1 f" using fo fr same by (auto simp: file_ok_def reserved_def)
    moreover have "slot_ok s1 f k p" using k kn e i0 same fr c by (auto simp: slot_ok_def Let_def)
    ultimately show ?thesis using e fr by simp
  qed
qed

text \<open>Storing a block number in the slot keeps file and slot.\<close>

lemma slot_store:
  assumes fo: "file_ok s f" and sl: "slot_ok s f k p"
    and s'_def: "s' = s\<lparr>cache := (cache s)(fst p := (cache s (fst p))(snd p := w))\<rparr>"
  shows "st p w s = Ret s'" "file_ok s' f" "slot_ok s' f k p" "free_set s' = free_set s" "nblk s' = nblk s"
    "ld s' p = Ret w"
proof -
  have ok: "fs_ok s" using fo by (simp add: file_ok_def)
  note pl = slot_place[OF fo sl]
  note s' = st_ok[OF ok pl(1,2), of w, folded s'_def]
  show "st p w s = Ret s'" "free_set s' = free_set s" "nblk s' = nblk s" by (rule s')+
  show "ld s' p = Ret w" using pl(1) by (simp add: ld_def s'_def)
  have i: "cache s' (fst f) (snd f + 44) = cache s (fst f) (snd f + 44)"
    using pl(3) by (auto simp: s'_def f_indirect_def)
  have m: "mapped s' = mapped s" by (simp add: s'_def)
  show "file_ok s' f" using fo s' unfolding file_ok_def i m reserved_def by simp
  show "slot_ok s' f k p" using sl unfolding slot_ok_def i m s'(3) s'(4) .
qed

lemma file_ok_alloc:
  assumes fo: "file_ok s f" and sl: "slot_ok s f k p" and a: "alloc_block s = Ret (r, s')" "\<not> r < 0"
  shows "file_ok s' f \<and> slot_ok s' f k p \<and> free_set s' \<subseteq> free_set s \<and> nblk s' = nblk s \<and> 0 < r \<and> r < 2 ^ 32"
proof -
  have ok: "fs_ok s" using fo by (simp add: file_ok_def)
  show ?thesis
  proof (cases rule: alloc_block_ok[OF ok, case_names full nomem got])
    case (got s1 b)
    have e: "s' = s1" "r = int b" using a(1) got(6) by simp_all
    have bf: "b \<noteq> fst f" "3 \<le> b" using got(2,3) fo by (auto simp: reserved_def file_ok_def)
    have "2 + b div BIT2BLK \<noteq> fst f"
      using file_ok_not_bitmap[OF fo, of "b div BIT2BLK"] div_le_mono[of b "nblk s" BIT2BLK] got(4) by auto
    then have i: "cache s1 (fst f) = cache s (fst f)" using got(12) bf by auto
    have "file_ok s1 f" using fo got(7-10) bf unfolding file_ok_def i reserved_def by auto
    moreover have "slot_ok s1 f k p"
      using sl got(2,8-10) unfolding slot_ok_def i Let_def by (cases "k < NDIRECT") auto
    ultimately show ?thesis using e got(4,8,9) bf nblk_le[OF ok] by auto
  qed (use a in auto)
qed

text \<open>
  \<open>file_map_block\<close> with allocation gives a file block a place on the disk that lasts: once it has
  returned block \<open>b\<close>, looking the file block up again, without allocation, finds \<open>b\<close>, changing nothing;
  for direct and indirect blocks, whether block or indirect block existed or not. Only free blocks
  are taken, and the file stays well formed.
\<close>

theorem file_map_block_stable:
  assumes fo: "file_ok s f" and r: "file_map_block f k True s = Ret ((0, b), s')"
  shows "file_ok s' f \<and> b \<noteq> 0 \<and> free_set s' \<subseteq> free_set s \<and> file_map_block f k False s' = Ret ((0, b), s')"
proof -
  obtain p s1 where w: "file_block_walk f k True s = Ret ((0, p), s1)"
  proof -
    obtain a p s1 where w: "file_block_walk f k True s = Ret ((a, p), s1)" "\<not> a < 0"
      using r by (auto simp: file_map_block_def rbind_eq_Ret split: if_splits)
    then show ?thesis using that walk_ret[OF w] by simp
  qed
  note o1 = walk_ok[OF fo w]
  have l: "ld s1 p = Ret (cache s1 (fst p) (snd p))" using slot_place(1)[of s1 f k p] o1 by (simp add: ld_def)
  have again: "file_map_block f k False s2 = Ret ((0, unat v), s2)"
    if "file_ok s2 f" "slot_ok s2 f k p" "ld s2 p = Ret v" "v \<noteq> 0" for s2 v
    using walk_known[OF that(1,2)] that(3,4) by (simp add: file_map_block_def)
  show ?thesis
  proof (cases "cache s1 (fst p) (snd p) = 0")
    case False
    then have "b = unat (cache s1 (fst p) (snd p)) \<and> s' = s1" using r w l by (auto simp: file_map_block_def)
    then show ?thesis using o1 again[of s1] l False by (auto simp: unat_eq_0)
  next
    case True
    obtain a s2 where a: "alloc_block s1 = Ret (a, s2)" "\<not> a < 0"
      using r w l True by (auto simp: file_map_block_def rbind_eq_Ret split: if_splits)
    note o2 = file_ok_alloc[OF conjunct1[OF o1] conjunct1[OF conjunct2[OF o1]] a]
    note o3 = slot_store[OF conjunct1[OF o2] conjunct1[OF conjunct2[OF o2]] refl, of "word_of_int a"]
    have u: "unat (word_of_int a :: u32) = nat a" using o2 by (simp add: unat_eq_nat_uint take_bit_int_eq_self unsigned_of_int)
    then have nz: "(word_of_int a :: u32) \<noteq> 0" using o2 by (metis unat_0 nat_0_iff not_le)
    have "b = nat a \<and> s' = s2\<lparr>cache := (cache s2)(fst p := (cache s2 (fst p))(snd p := word_of_int a))\<rparr>"
      using r w l True a o3(1,6) u by (auto simp: file_map_block_def)
    then show ?thesis using o1 o2 o3 again[OF o3(2,3,6) nz] u by auto
  qed
qed

lemma demo_root_ok: "file_ok demo_fs s_root"
  using demo_fs_ok by (simp add: file_ok_def s_root_def demo_free_set demo_disk_def)

theorem file_map_block_stable_witness:
  "\<exists>s'. file_map_block s_root 1 True demo_fs = Ret ((0, 4), s') \<and> file_map_block s_root 1 False s' = Ret ((0, 4), s')"
proof (cases rule: alloc_block_ok[OF demo_fs_ok, case_names full nomem got])
  case (got s1 b)
  have b: "b = 4" "Suc 0 \<noteq> b" using got(1) by (simp_all add: demo_free_set)
  then have m: "mapped s1 1" using got(10) by simp
  have "\<exists>s'. file_map_block s_root 1 True demo_fs = Ret ((0, 4), s')"
    using got(6) b m
    by (simp add: file_map_block_def file_block_walk_def f_direct_def s_root_def ld_def demo_disk_def st_def)
  then obtain s' where s': "file_map_block s_root 1 True demo_fs = Ret ((0, 4), s')" by blast
  then show ?thesis using file_map_block_stable[OF demo_root_ok s'] by blast
qed (simp_all add: demo_free_set)

section \<open>Directories\<close>

text \<open>A directory of at most ten blocks, all of them in the cache.\<close>

definition dir_ok :: "fss \<Rightarrow> ptr \<Rightarrow> nat list \<Rightarrow> bool" where
  "dir_ok s d blks \<longleftrightarrow> file_ok s d \<and> cache s (fst d) (snd d + 33) = FTYPE_DIR \<and>
     unat (cache s (fst d) (snd d + 32)) = BY2BLK * length blks \<and> length blks \<le> NDIRECT \<and>
     (\<forall>i < length blks. cache s (fst d) (snd d + 34 + i) = of_nat (blks ! i)) \<and>
     (\<forall>b \<in> set blks. b < nblk s \<and> b \<notin> free_set s \<and> mapped s b \<and> b \<notin> reserved s \<and> b \<noteq> fst d)"

definition dir_entries :: "nat list \<Rightarrow> ptr list" where
  "dir_entries blks = concat (map (\<lambda>b. map (entry b) [0..<FILE2BLK]) blks)"

lemma find_append: "find P (xs @ ys) = (case find P xs of None \<Rightarrow> find P ys | Some x \<Rightarrow> Some x)"
  by (induction xs) auto

lemma find_map: "find P (map f xs) = map_option f (find (\<lambda>x. P (f x)) xs)"
  by (induction xs) auto

lemma find_SomeD: "find P xs = Some y \<Longrightarrow> y \<in> set xs \<and> P y"
  by (auto simp: find_Some_iff)

lemma find_unique:
  assumes "x \<in> set xs" "P x" "\<And>y. y \<in> set xs \<Longrightarrow> P y \<Longrightarrow> y = x"
  shows "find P xs = Some x"
proof (cases "find P xs")
  case None
  then show ?thesis using assms(1,2) by (auto simp: find_None_iff)
next
  case (Some y)
  then show ?thesis using assms(3)[of y] find_SomeD[OF Some] by simp
qed

lemma dir_get_block:
  assumes d: "dir_ok s d blks" and i: "i < length blks"
  shows "file_get_block d i s = Ret ((0, blks ! i), s)"
proof -
  have o: "file_ok s d" "fs_ok s" "mapped s (fst d)" using d by (simp_all add: dir_ok_def file_ok_def)
  have b: "blks ! i < nblk s" "blks ! i \<notin> free_set s" "mapped s (blks ! i)" "blks ! i \<notin> reserved s"
    "cache s (fst d) (snd d + 34 + i) = of_nat (blks ! i)" "i < NDIRECT"
    using d i by (auto simp: dir_ok_def)
  have u: "unat (of_nat (blks ! i) :: u32) = blks ! i" using b(1) nblk_le[OF o(2)] by (simp add: unat_of_nat)
  moreover have "blks ! i \<noteq> 0" using b(4) by (auto simp: reserved_def)
  ultimately have nz: "(of_nat (blks ! i) :: u32) \<noteq> 0" by (metis unat_0)
  have "file_map_block d i True s = Ret ((0, blks ! i), s)"
    using b(5,6) o(3) u nz by (simp add: file_map_block_def file_block_walk_def f_direct_def ld_def)
  then show ?thesis using b o(2) by (simp add: file_get_block_def read_block_cached)
qed

text \<open>The state after a lookup: the entry found knows its directory.\<close>

definition set_dir :: "ptr \<Rightarrow> ptr \<Rightarrow> fss \<Rightarrow> fss" where
  "set_dir e d s = s\<lparr>cache := (cache s)(fst e := (cache s (fst e))(snd e + 45 := addr_of d))\<rparr>"

lemma lookup_blocks_eq:
  assumes d: "dir_ok s d blks" and ns: "\<forall>i \<in> set ns. i < length blks"
  shows "lookup_blocks ns d name s =
    (case find (\<lambda>e. f_name s e = name) (dir_entries (map (\<lambda>i. blks ! i) ns)) of
       None \<Rightarrow> Ret ((- E_NOT_FOUND, (0, 0)), s) | Some e \<Rightarrow> Ret ((0, e), set_dir e d s))"
  using ns
proof (induction ns)
  case (Cons i ns)
  have m: "mapped s (blks ! i)" using d Cons.prems by (auto simp: dir_ok_def)
  have "st (f_dir (entry (blks ! i) j)) (addr_of d) s = Ret (set_dir (entry (blks ! i) j) d s)" for j
    using m by (simp add: st_def f_dir_def entry_def set_dir_def)
  moreover have g: "file_get_block d i s = Ret ((0, blks ! i), s)" using dir_get_block[OF d] Cons.prems by simp
  moreover have IH: "lookup_blocks ns d name s =
    (case find (\<lambda>e. f_name s e = name) (dir_entries (map (\<lambda>i. blks ! i) ns)) of
       None \<Rightarrow> Ret ((- E_NOT_FOUND, (0, 0)), s) | Some e \<Rightarrow> Ret ((0, e), set_dir e d s))"
    using Cons by simp
  ultimately show ?case
    using m
    by (cases "find (\<lambda>j. f_name s (entry (blks ! i) j) = name) [0..<FILE2BLK]")
      (simp_all add: dir_entries_def find_append find_map IH del: upt_Suc upt_conv_Cons FILE2BLK_def)
qed (simp add: dir_entries_def)

lemma find_free_eq:
  assumes d: "dir_ok s d blks" and ns: "\<forall>i \<in> set ns. i < length blks"
  shows "find_free_entry ns d s =
    Ret ((0, find (\<lambda>e. name_byte s e 0 = 0) (dir_entries (map (\<lambda>i. blks ! i) ns))), s)"
  using ns
proof (induction ns)
  case (Cons i ns)
  have m: "mapped s (blks ! i)" using d Cons.prems by (auto simp: dir_ok_def)
  have g: "file_get_block d i s = Ret ((0, blks ! i), s)" using dir_get_block[OF d] Cons.prems by simp
  have IH: "find_free_entry ns d s =
    Ret ((0, find (\<lambda>e. name_byte s e 0 = 0) (dir_entries (map (\<lambda>i. blks ! i) ns))), s)"
    using Cons by simp
  show ?case
    using m g by (simp add: dir_entries_def find_append find_map IH del: upt_Suc upt_conv_Cons FILE2BLK_def
        split: option.splits)
qed (simp add: dir_entries_def)

lemma dir_lookup_eq:
  assumes d: "dir_ok s d blks"
  shows "dir_lookup d name s = (case find (\<lambda>e. f_name s e = name) (dir_entries blks) of
    None \<Rightarrow> Ret ((- E_NOT_FOUND, (0, 0)), s) | Some e \<Rightarrow> Ret ((0, e), set_dir e d s))"
proof -
  have "ld s (f_size d) = Ret (cache s (fst d) (snd d + 32))" "unat (cache s (fst d) (snd d + 32)) div BY2BLK = length blks"
    using d by (simp_all add: dir_ok_def file_ok_def ld_def f_size_def)
  then show ?thesis
    using lookup_blocks_eq[OF d, of "[0..<length blks]"] by (simp add: dir_lookup_def map_nth)
qed

section \<open>Names\<close>

lemma word_byte_set:
  assumes "k < 4" "k' < 4"
  shows "word_byte (set_word_byte k b w) k' = (if k' = k then b else word_byte w k')"
proof (rule bit_word_eqI)
  fix n :: nat assume n: "n < LENGTH(8)"
  have m: "(0xFF :: u32) = mask 8" by (simp add: mask_eq_exp_minus_1)
  have l: "8 * k' + n < 32" using assms n by simp
  have h: "8 * k \<le> 8 * k' + n \<and> 8 * k' + n - 8 * k < 8 \<longleftrightarrow> k' = k"
    using n by auto
  show "bit (word_byte (set_word_byte k b w) k') n = bit (if k' = k then b else word_byte w k') n"
  proof (cases "k' = k")
    case True
    then show ?thesis using n l unfolding word_byte_def set_word_byte_def m
      by (simp add: bit_simps)
  next
    case False
    then have "\<not> (8 * k \<le> 8 * k' + n \<and> 8 * k' + n - 8 * k < 8)" using h by simp
    then show ?thesis using False n l unfolding word_byte_def set_word_byte_def m
      by (auto simp: bit_simps dest: bit_imp_le_length)
  qed
qed

lemma set_name_byte_simps [simp]:
  "mapped (set_name_byte f i b s) = mapped s" "super (set_name_byte f i b s) = super s"
  "bitmap (set_name_byte f i b s) = bitmap s" "disk (set_name_byte f i b s) = disk s"
  "c \<noteq> fst f \<Longrightarrow> cache (set_name_byte f i b s) c = cache s c"
  by (simp_all add: set_name_byte_def)

lemma set_name_simps [simp]:
  "mapped (set_name f i bs s) = mapped s" "super (set_name f i bs s) = super s"
  "bitmap (set_name f i bs s) = bitmap s" "disk (set_name f i bs s) = disk s"
  "c \<noteq> fst f \<Longrightarrow> cache (set_name f i bs s) c = cache s c"
  by (induction bs arbitrary: i s) simp_all

lemma name_byte_set: "name_byte (set_name_byte f i b s) f j = (if j = i then b else name_byte s f j)"
proof (cases "j div 4 = i div 4")
  case True
  then have "(j mod 4 = i mod 4) = (j = i)" by (metis div_mult_mod_eq)
  then show ?thesis using True by (simp add: name_byte_def set_name_byte_def word_byte_set)
qed (auto simp: name_byte_def set_name_byte_def)

lemma name_byte_set_name:
  "name_byte (set_name f i bs s) f j =
     (if j < i then name_byte s f j else if j < i + length bs then bs ! (j - i)
      else if j = i + length bs then 0 else name_byte s f j)"
proof (induction bs arbitrary: i s)
  case (Cons b bs)
  then show ?case by (auto simp: name_byte_set nth_Cons' less_Suc_eq)
qed (auto simp: name_byte_set)

lemma f_name_set_name:
  assumes "0 \<notin> set name" "length name < MAXNAMELEN"
  shows "f_name (set_name f 0 name s) f = name"
proof -
  let ?n = "length name"
  have "map (name_byte (set_name f 0 name s) f) [0..<MAXNAMELEN] =
      map (\<lambda>j. name ! j) [0..<?n] @ map (name_byte (set_name f 0 name s) f) [?n..<MAXNAMELEN]"
    using assms(2) upt_add_eq_append[of 0 ?n "MAXNAMELEN - ?n"] by (simp add: name_byte_set_name)
  moreover have "[?n..<MAXNAMELEN] = ?n # [Suc ?n..<MAXNAMELEN]" using assms(2) by (simp add: upt_conv_Cons)
  ultimately have "f_name (set_name f 0 name s) f =
      takeWhile (\<lambda>b. b \<noteq> 0) (name @ 0 # map (name_byte (set_name f 0 name s) f) [Suc ?n..<MAXNAMELEN])"
    by (simp add: f_name_def map_nth name_byte_set_name del: upt_Suc)
  also have "\<dots> = name" using assms(1) by (subst takeWhile_append2) auto
  finally show ?thesis .
qed

text \<open>Other entries keep their names.\<close>

lemma set_name_byte_other:
  assumes "i < MAXNAMELEN" "j < MAXNAMELEN"
  shows "entry b k \<noteq> entry c l \<Longrightarrow> name_byte (set_name_byte (entry b k) i x s) (entry c l) j = name_byte s (entry c l) j"
proof -
  assume ne: "entry b k \<noteq> entry c l"
  have ij: "i div 4 < 32" "j div 4 < 32" using assms by simp_all
  have "64 * k + i div 4 \<noteq> 64 * l + j div 4" if "k \<noteq> l"
  proof
    assume "64 * k + i div 4 = 64 * l + j div 4"
    then have "(64 * k + i div 4) div 64 = (64 * l + j div 4) div 64" by (rule arg_cong)
    then show False using ij that by (simp add: div_mult_self4)
  qed
  then have "b \<noteq> c \<or> 64 * l + j div 4 \<noteq> 64 * k + i div 4" using ne by (auto simp: entry_def)
  then show ?thesis by (auto simp: entry_def name_byte_def set_name_byte_def)
qed

lemma f_name_set_name_other:
  assumes "entry b k \<noteq> entry c l" "i + length name < MAXNAMELEN"
  shows "f_name (set_name (entry b k) i name s) (entry c l) = f_name s (entry c l)"
proof -
  have "name_byte (set_name (entry b k) i name s) (entry c l) j = name_byte s (entry c l) j" if "j < MAXNAMELEN" for j
    using assms(2)
  proof (induction name arbitrary: i s)
    case (Cons x name)
    then show ?case using set_name_byte_other[OF _ that assms(1)] by simp
  qed (use set_name_byte_other[OF _ that assms(1)] in simp)
  then have "map (name_byte (set_name (entry b k) i name s) (entry c l)) [0..<MAXNAMELEN] =
      map (name_byte s (entry c l)) [0..<MAXNAMELEN]" by (intro map_cong) auto
  then show ?thesis by (simp only: f_name_def)
qed

lemma empty_name: "name_byte s e 0 = 0 \<longleftrightarrow> f_name s e = []"
  by (simp add: f_name_def upt_conv_Cons del: upt_Suc)

lemma dir_entries_iff: "e \<in> set (dir_entries blks) \<longleftrightarrow> (\<exists>b \<in> set blks. \<exists>j < FILE2BLK. e = entry b j)"
  unfolding dir_entries_def set_concat set_map set_upt by (simp add: image_iff) (meson atLeastLessThan_iff le0)

lemma dir_ok_set_name:
  assumes d: "dir_ok s d blks" and f: "f \<in> set (dir_entries blks)"
  shows "dir_ok (set_name f i name s) d blks"
proof -
  let ?s = "set_name f i name s"
  obtain b j where b: "b \<in> set blks" "f = entry b j" using f by (auto simp: dir_entries_iff)
  then have bn: "b \<notin> reserved s" "b \<noteq> fst d" "fst f = b" using d by (auto simp: dir_ok_def entry_def)
  have ok: "fs_ok s" using d by (simp add: dir_ok_def file_ok_def)
  have c: "cache ?s c = cache s c" if "c \<noteq> b" for c using that bn(3) by simp
  have cr: "cache ?s c = cache s c" if "c \<in> reserved s" for c using that c bn(1) by metis
  have fr: "fs_ok ?s" "free_set ?s = free_set s" "nblk ?s = nblk s"
    using fs_ok_frame[OF ok _ _ cr] by simp_all
  have cd: "cache ?s (fst d) = cache s (fst d)" using c bn(2) by metis
  have m: "mapped ?s = mapped s" by simp
  show ?thesis using d fr unfolding dir_ok_def file_ok_def cd m fr(2) fr(3) reserved_def by simp
qed

lemma dir_alloc_eq:
  assumes d: "dir_ok s d blks" and e: "find (\<lambda>e. f_name s e = []) (dir_entries blks) = Some f"
  shows "dir_alloc_file d s = Ret ((0, f), s)"
proof -
  have "ld s (f_size d) = Ret (cache s (fst d) (snd d + 32))" "unat (cache s (fst d) (snd d + 32)) div BY2BLK = length blks"
    using d by (simp_all add: dir_ok_def file_ok_def ld_def f_size_def)
  then show ?thesis
    using find_free_eq[OF d, of "[0..<length blks]"] e by (simp add: dir_alloc_file_def map_nth empty_name Let_def)
qed

text \<open>
  C19. In a root directory of at most ten cached blocks with a free entry, creating a file whose name is
  new and has fewer than 128 characters succeeds and takes a free entry; opening the path then
  finds exactly that entry, creating it again is refused with \<open>-E_FILE_EXISTS\<close>, and no other entry
  of the directory is changed.
\<close>

theorem file_create_open:
  assumes d: "dir_ok s s_root blks" and p: "components p = [name]" "0 \<notin> set name" "length name < MAXNAMELEN"
    and new: "\<forall>e \<in> set (dir_entries blks). f_name s e \<noteq> name"
    and room: "\<exists>e \<in> set (dir_entries blks). f_name s e = []"
  shows "\<exists>f s'. file_create p s = Ret ((0, Some f), s') \<and> f \<in> set (dir_entries blks) \<and> f_name s f = [] \<and>
    f_name s' f = name \<and> (\<forall>e \<in> set (dir_entries blks) - {f}. f_name s' e = f_name s e) \<and>
    (\<exists>s''. file_open p s' = Ret ((0, Some f), s'')) \<and> (\<exists>s''. file_create p s' = Ret ((- E_FILE_EXISTS, None), s''))"
proof -
  have sup: "super s" using d by (simp add: dir_ok_def file_ok_def fs_ok_def)
  have walk: "walk_path p s1 = walk_components [name] None s_root s1" if "super s1" for s1
    using walk_path_eq[OF that] p(1) by simp
  have ty: "ld s1 (f_type s_root) = Ret FTYPE_DIR" if "dir_ok s1 s_root blks" for s1
    using that by (simp add: dir_ok_def file_ok_def ld_def f_type_def)
  obtain f where f: "find (\<lambda>e. f_name s e = []) (dir_entries blks) = Some f"
    using room by (cases "find (\<lambda>e. f_name s e = []) (dir_entries blks)") (auto simp: find_None_iff)
  note fm = find_SomeD[OF f]
  obtain b j where b: "f = entry b j" "b \<in> set blks" using fm by (auto simp: dir_entries_iff)
  have mf: "mapped s (fst f)" using d b by (auto simp: dir_ok_def entry_def)
  define s' where "s' = set_name f 0 name s"
  have "find (\<lambda>e. f_name s e = name) (dir_entries blks) = None" using new by (simp add: find_None_iff)
  then have "walk_path p s = Ret ((- E_NOT_FOUND, Some s_root, None, Some name), s)"
    using walk[OF sup] p(3) ty[OF d] dir_lookup_eq[OF d] by simp
  then have cr: "file_create p s = Ret ((0, Some f), s')"
    using dir_alloc_eq[OF d f] mf by (simp add: file_create_def s'_def)
  have d': "dir_ok s' s_root blks" unfolding s'_def by (rule dir_ok_set_name[OF d]) (use fm in simp)
  have nf: "f_name s' f = name" unfolding s'_def by (rule f_name_set_name[OF p(2,3)])
  have no: "f_name s' e = f_name s e" if "e \<in> set (dir_entries blks) - {f}" for e
    using that f_name_set_name_other[of b j _ _ 0 name s] p(3) b by (auto simp: dir_entries_iff s'_def)
  have "find (\<lambda>e. f_name s' e = name) (dir_entries blks) = Some f"
  proof (rule find_unique)
    fix e assume e: "e \<in> set (dir_entries blks)" "f_name s' e = name"
    show "e = f"
    proof (rule ccontr)
      assume "e \<noteq> f"
      then have "f_name s e = name" using no[of e] e by simp
      with new e(1) show False by blast
    qed
  qed (use fm nf in simp_all)
  then have "walk_path p s' = Ret ((0, Some s_root, Some f, None), set_dir f s_root s')"
    using walk[of s'] sup p(3) ty[OF d'] dir_lookup_eq[OF d'] by (simp add: s'_def)
  then show ?thesis using cr fm nf no by (simp add: file_open_def file_create_def)
qed

lemma demo_root_dir: "dir_ok demo_fs s_root [3]"
  using demo_root_ok by (simp add: dir_ok_def s_root_def demo_disk_def demo_free_set reserved_def)

theorem file_create_open_witness:
  "\<exists>f s'. file_create [47, 97, 98] demo_fs = Ret ((0, Some f), s') \<and> (\<exists>s''. file_open [97, 98] s' = Ret ((0, Some f), s''))"
proof -
  have e: "f_name demo_fs e = []" if "e \<in> set (dir_entries [3])" for e
    using that unfolding empty_name[symmetric]
    by (auto simp: dir_entries_iff entry_def name_byte_def word_byte_def demo_disk_def)
  have ne: "entry 3 0 \<in> set (dir_entries [3])" by (auto simp: dir_entries_iff intro!: exI[of _ 0])
  have c: "components [47, 97, 98] = [[97, 98]]" "components [97, 98] = [[97, 98]]" by (simp_all add: components_def)
  obtain f s' s'' where r: "file_create [47, 97, 98] demo_fs = Ret ((0, Some f), s')"
    "file_open [47, 97, 98] s' = Ret ((0, Some f), s'')"
  proof -
    have 1: "\<forall>e \<in> set (dir_entries [3]). f_name demo_fs e \<noteq> [97, 98]" using e by simp
    have 2: "\<exists>e \<in> set (dir_entries [3]). f_name demo_fs e = []" using e ne by blast
    show ?thesis using file_create_open[OF demo_root_dir c(1) _ _ 1 2] that by auto
  qed
  have "file_open [97, 98] s' = file_open [47, 97, 98] s'"
    by (simp add: file_open_def walk_path_def skip_slash_def)
  with r show ?thesis by auto
qed

end
