(* ===== verification/Serv.thy ===== *)
theory Serv
  imports FsFiles
begin

text \<open>
  The file system server, \<^verbatim>\<open>fs/serv.c\<close>: the table of open files and one handler per request. The page
  of \<open>struct Filefd\<close> of slot \<open>i\<close> is at \<open>FILEVA + i * BY2PG\<close>; \<open>refs i\<close> is its \<open>pageref\<close>, 0 when it is not
  mapped, 1 when only the server maps it. Messages sent with \<open>ipc_send\<close> are recorded in \<open>sent\<close>; a message
  with a page adds a reference to it.
\<close>

section \<open>State\<close>

definition MAXOPEN :: nat where [simp]: "MAXOPEN = 1024"
definition FILEVA :: u32 where "FILEVA = 0x60000000"

record open_file =
  o_file :: "ptr option"
  o_fileid :: u32
  o_mode :: u32
  o_ff :: u32

record filefd =
  ff_file :: "nat \<Rightarrow> u32"
  ff_fileid :: u32
  ff_omode :: u32
  ff_dev_id :: u32

datatype page = NoPage | FfPage nat | BlkPage nat

record reply =
  rp_to :: u32
  rp_val :: int
  rp_page :: page

record srv =
  fs :: fss
  opentab :: "nat \<Rightarrow> open_file"
  refs :: "nat \<Rightarrow> nat"
  ffs :: "nat \<Rightarrow> filefd"
  sent :: "reply list"
  req_mapped :: bool

text \<open>The fields of the request structures of \<^verbatim>\<open>user/include/fsreq.h\<close>, which share one page.\<close>

record fsreq =
  req_path :: path
  req_omode :: u32
  req_fileid :: u32
  req_offset :: u32
  req_size :: u32
  req_type :: u32

definition ipc_send :: "u32 \<Rightarrow> int \<Rightarrow> page \<Rightarrow> srv \<Rightarrow> srv" where
  "ipc_send envid r pg s =
     (let s = s\<lparr>sent := sent s @ [\<lparr>rp_to = envid, rp_val = r, rp_page = pg\<rparr>]\<rparr>
      in case pg of FfPage i \<Rightarrow> s\<lparr>refs := (refs s)(i := refs s i + 1)\<rparr> | _ \<Rightarrow> s)"

section \<open>Open files\<close>

fun serve_init_loop :: "nat list \<Rightarrow> u32 \<Rightarrow> srv \<Rightarrow> srv" where
  "serve_init_loop [] va s = s"
| "serve_init_loop (i # is) va s =
     serve_init_loop is (va + BY2PG)
       (s\<lparr>opentab := (opentab s)(i := (opentab s i)\<lparr>o_fileid := of_nat i, o_ff := va\<rparr>)\<rparr>)"

definition serve_init :: "srv \<Rightarrow> srv" where
  "serve_init s = serve_init_loop [0..<MAXOPEN] FILEVA s"

definition zero_ff :: filefd where
  "zero_ff = \<lparr>ff_file = (\<lambda>_. 0), ff_fileid = 0, ff_omode = 0, ff_dev_id = 0\<rparr>"

text \<open>\<open>grant\<close> is the kernel's answer to \<open>syscall_mem_alloc\<close>. The file id is returned as an \<open>int\<close>.\<close>

fun open_scan :: "nat list \<Rightarrow> int \<Rightarrow> srv \<Rightarrow> (int \<times> nat option) \<times> srv" where
  "open_scan [] grant s = ((- E_MAX_OPEN, None), s)"
| "open_scan (i # is) grant s =
     (if refs s i = 0 \<and> grant < 0 then ((grant, None), s)
      else if refs s i \<le> 1 then
        let s = s\<lparr>refs := (refs s)(i := 1)\<rparr>;
            s = s\<lparr>opentab := (opentab s)(i := (opentab s i)\<lparr>o_fileid := o_fileid (opentab s i) + of_nat MAXOPEN\<rparr>)\<rparr>;
            s = s\<lparr>ffs := (ffs s)(i := zero_ff)\<rparr>
        in ((sint (o_fileid (opentab s i)), Some i), s)
      else open_scan is grant s)"

definition open_alloc :: "int \<Rightarrow> srv \<Rightarrow> (int \<times> nat option) \<times> srv" where
  "open_alloc grant s = open_scan [0..<MAXOPEN] grant s"

definition open_lookup :: "u32 \<Rightarrow> u32 \<Rightarrow> srv \<Rightarrow> int \<times> nat option" where
  "open_lookup envid fileid s =
     (let i = unat fileid mod MAXOPEN; o' = opentab s i
      in if refs s i = 1 \<or> o_fileid o' \<noteq> fileid then (- E_INVAL, None) else (0, Some i))"

section \<open>Handlers\<close>

text \<open>A \<open>struct File *\<close> of the table; a null one is a fault.\<close>

definition with_file :: "nat \<Rightarrow> srv \<Rightarrow> (ptr \<Rightarrow> 'a res) \<Rightarrow> 'a res" where
  "with_file i s k = (case o_file (opentab s i) of None \<Rightarrow> Fault ''NULL file'' | Some f \<Rightarrow> k f)"

text \<open>The 64 words of a \<open>struct File\<close>, as the assignment of a structure copies them.\<close>

definition file_words :: "fss \<Rightarrow> ptr \<Rightarrow> nat \<Rightarrow> u32" where
  "file_words s f k = (if k < 64 then cache s (fst f) (snd f + k) else 0)"

text \<open>\<open>serve_open\<close> goes on after \<open>open_alloc\<close> has failed, with \<open>o\<close> not set.\<close>

definition serve_open :: "int \<Rightarrow> u32 \<Rightarrow> fsreq \<Rightarrow> srv \<Rightarrow> srv res" where
  "serve_open grant envid rq s =
     (let ((r, o'), s) = open_alloc grant s;
          s = (if r < 0 then ipc_send envid r NoPage s else s)
      in rbind (file_open (req_path rq) (fs s)) (\<lambda>((r, f), fss).
         let s = s\<lparr>fs := fss\<rparr>
         in if r < 0 then Ret (ipc_send envid r NoPage s)
            else case o' of None \<Rightarrow> Fault ''uninitialised o''
            | Some i \<Rightarrow> (case f of None \<Rightarrow> Fault ''NULL file''
              | Some f \<Rightarrow>
                  if \<not> mapped (fs s) (fst f) then Fault ''page fault''
                  else
                    let s = s\<lparr>opentab := (opentab s)(i := (opentab s i)\<lparr>o_file := Some f\<rparr>)\<rparr>;
                        s = s\<lparr>ffs := (ffs s)(i := (ffs s i)\<lparr>ff_file := file_words (fs s) f,
                              ff_fileid := o_fileid (opentab s i)\<rparr>)\<rparr>;
                        s = s\<lparr>opentab := (opentab s)(i := (opentab s i)\<lparr>o_mode := req_omode rq\<rparr>)\<rparr>;
                        s = s\<lparr>ffs := (ffs s)(i := (ffs s i)\<lparr>ff_omode := o_mode (opentab s i), ff_dev_id := 102\<rparr>)\<rparr>
                    in Ret (ipc_send envid 0 (FfPage i) s))))"

definition serve_create :: "u32 \<Rightarrow> fsreq \<Rightarrow> srv \<Rightarrow> srv res" where
  "serve_create envid rq s =
     rbind (file_create (req_path rq) (fs s)) (\<lambda>((r, f), fss).
     let s = s\<lparr>fs := fss\<rparr>
     in if r < 0 then Ret (ipc_send envid r NoPage s)
        else case f of None \<Rightarrow> Fault ''NULL file''
        | Some f \<Rightarrow> rbind (st (f_type f) (req_type rq) (fs s)) (\<lambda>fss.
            Ret (ipc_send envid 0 NoPage (s\<lparr>fs := fss\<rparr>))))"

text \<open>The start of the handlers on an open file.\<close>

definition with_open :: "u32 \<Rightarrow> fsreq \<Rightarrow> srv \<Rightarrow> (nat \<Rightarrow> srv res) \<Rightarrow> srv res" where
  "with_open envid rq s k =
     (let (r, o') = open_lookup envid (req_fileid rq) s
      in if r < 0 then Ret (ipc_send envid r NoPage s)
         else case o' of None \<Rightarrow> Fault ''NULL open'' | Some i \<Rightarrow> k i)"

definition serve_map :: "u32 \<Rightarrow> fsreq \<Rightarrow> srv \<Rightarrow> srv res" where
  "serve_map envid rq s = with_open envid rq s (\<lambda>i. with_file i s (\<lambda>f.
     rbind (file_get_block f (unat (req_offset rq) div BY2BLK) (fs s)) (\<lambda>((r, blk), fss).
     let s = s\<lparr>fs := fss\<rparr>
     in if r < 0 then Ret (ipc_send envid r NoPage s) else Ret (ipc_send envid 0 (BlkPage blk) s))))"

definition serve_set_size :: "u32 \<Rightarrow> fsreq \<Rightarrow> srv \<Rightarrow> srv res" where
  "serve_set_size envid rq s = with_open envid rq s (\<lambda>i. with_file i s (\<lambda>f.
     rbind (file_set_size f (req_size rq) (fs s)) (\<lambda>(r, fss).
     let s = s\<lparr>fs := fss\<rparr>
     in if r < 0 then Ret (ipc_send envid r NoPage s) else Ret (ipc_send envid 0 NoPage s))))"

definition serve_close :: "u32 \<Rightarrow> fsreq \<Rightarrow> srv \<Rightarrow> srv res" where
  "serve_close envid rq s = with_open envid rq s (\<lambda>i. with_file i s (\<lambda>f.
     rbind (file_close f (fs s)) (\<lambda>fss. Ret (ipc_send envid 0 NoPage (s\<lparr>fs := fss\<rparr>)))))"

definition serve_remove :: "u32 \<Rightarrow> fsreq \<Rightarrow> srv \<Rightarrow> srv res" where
  "serve_remove envid rq s =
     rbind (file_remove (req_path rq) (fs s)) (\<lambda>(r, fss). Ret (ipc_send envid r NoPage (s\<lparr>fs := fss\<rparr>)))"

definition serve_dirty :: "u32 \<Rightarrow> fsreq \<Rightarrow> srv \<Rightarrow> srv res" where
  "serve_dirty envid rq s = with_open envid rq s (\<lambda>i. with_file i s (\<lambda>f.
     rbind (file_dirty f (unat (req_offset rq)) (fs s)) (\<lambda>(r, fss).
     let s = s\<lparr>fs := fss\<rparr>
     in if r < 0 then Ret (ipc_send envid r NoPage s) else Ret (ipc_send envid 0 NoPage s))))"

definition serve_sync :: "u32 \<Rightarrow> srv \<Rightarrow> srv res" where
  "serve_sync envid s = rbind (fs_sync (fs s)) (\<lambda>fss. Ret (ipc_send envid 0 NoPage (s\<lparr>fs := fss\<rparr>)))"

text \<open>
  One round of the loop of \<open>serve\<close>, on a received request. A request without a page leaves what is mapped at
  \<open>REQVA\<close> alone; after any other one the page is unmapped.
\<close>

definition FSREQ_OPEN :: u32 where "FSREQ_OPEN = 1"
definition FSREQ_MAP :: u32 where "FSREQ_MAP = 2"
definition FSREQ_SET_SIZE :: u32 where "FSREQ_SET_SIZE = 3"
definition FSREQ_CLOSE :: u32 where "FSREQ_CLOSE = 4"
definition FSREQ_DIRTY :: u32 where "FSREQ_DIRTY = 5"
definition FSREQ_REMOVE :: u32 where "FSREQ_REMOVE = 6"
definition FSREQ_SYNC :: u32 where "FSREQ_SYNC = 7"
definition FSREQ_CREATE :: u32 where "FSREQ_CREATE = 8"

lemmas fsreq_codes = FSREQ_OPEN_def FSREQ_MAP_def FSREQ_SET_SIZE_def FSREQ_CLOSE_def
  FSREQ_DIRTY_def FSREQ_REMOVE_def FSREQ_SYNC_def FSREQ_CREATE_def

definition serve_round :: "int \<Rightarrow> u32 \<Rightarrow> u32 \<Rightarrow> u32 \<Rightarrow> fsreq \<Rightarrow> srv \<Rightarrow> srv res" where
  "serve_round grant req whom perm rq s =
     (if perm AND PTE_V = 0
      then Ret (s\<lparr>fs := fs_debugf (''Invalid request from %08x: no argument page'' @ [CHR 0x0A]) (fs s)\<rparr>)
      else rbind
        (let s = s\<lparr>req_mapped := True\<rparr>
         in if req = FSREQ_OPEN then serve_open grant whom rq s
            else if req = FSREQ_CREATE then serve_create whom rq s
            else if req = FSREQ_MAP then serve_map whom rq s
            else if req = FSREQ_SET_SIZE then serve_set_size whom rq s
            else if req = FSREQ_CLOSE then serve_close whom rq s
            else if req = FSREQ_DIRTY then serve_dirty whom rq s
            else if req = FSREQ_REMOVE then serve_remove whom rq s
            else if req = FSREQ_SYNC then serve_sync whom s
            else Ret (s\<lparr>fs := fs_debugf (''Invalid request code %d from %08x'' @ [CHR 0x0A]) (fs s)\<rparr>))
        (\<lambda>s. Ret (s\<lparr>req_mapped := False\<rparr>)))"

text \<open>\<open>main\<close> up to the loop: the table, then the file system, whose first steps may panic.\<close>

definition main_init :: "srv \<Rightarrow> srv res" where
  "main_init s = (let s = serve_init (s\<lparr>fs := fs_debugf (''FS is running'' @ [CHR 0x0A]) (fs s)\<rparr>)
     in rbind (fs_init (fs s)) (\<lambda>fss. Ret (s\<lparr>fs := fss\<rparr>)))"

section \<open>File identifiers\<close>

text \<open>The identifier of a slot is the slot number modulo the size of the table.\<close>

definition ids_ok :: "srv \<Rightarrow> bool" where
  "ids_ok s \<longleftrightarrow> (\<forall>i < MAXOPEN. unat (o_fileid (opentab s i)) mod MAXOPEN = i)"

lemma next_id: "unat (w + of_nat MAXOPEN :: u32) mod MAXOPEN = unat w mod MAXOPEN"
proof -
  have "unat (w + of_nat MAXOPEN) = (unat w + 1024) mod 2 ^ 32" by (simp add: unat_word_ariths)
  moreover have "(unat w + 1024) mod 2 ^ 32 mod 1024 = (unat w + 1024) mod 1024"
    by (rule mod_mod_cancel) simp
  ultimately show ?thesis by simp
qed

lemma serve_init_loop_id:
  "o_fileid (opentab (serve_init_loop ns va s) i) =
     (if i \<in> set ns then of_nat i else o_fileid (opentab s i))"
  by (induction ns arbitrary: va s) auto

lemma serve_init_loop_rest:
  "refs (serve_init_loop ns va s) = refs s \<and> fs (serve_init_loop ns va s) = fs s \<and>
   o_file (opentab (serve_init_loop ns va s) i) = o_file (opentab s i)"
  by (induction ns arbitrary: va s) auto

lemma serve_init_ids: "ids_ok (serve_init s)"
  unfolding ids_ok_def serve_init_def serve_init_loop_id set_upt
  by (auto simp: unat_of_nat)

lemma open_scan_ok:
  assumes "open_scan ns grant s = ((r, Some i), s')"
  shows "i \<in> set ns" and "refs s i \<le> 1" and "r = sint (o_fileid (opentab s' i))"
    and "s' = s\<lparr>refs := (refs s)(i := 1),
      opentab := (opentab s)(i := (opentab s i)\<lparr>o_fileid := o_fileid (opentab s i) + of_nat MAXOPEN\<rparr>),
      ffs := (ffs s)(i := zero_ff)\<rparr>"
  using assms by (induction ns) (auto simp: Let_def simp del: of_nat_numeral split: if_splits)

lemma open_scan_frame:
  "open_scan ns grant s = (ro, s') \<Longrightarrow> sent s' = sent s \<and> fs s' = fs s \<and> (snd ro = None \<longrightarrow> fst ro < 0 \<or> grant < 0 \<or> s' = s)"
  by (induction ns) (auto simp: Let_def simp del: of_nat_numeral split: if_splits)

lemma open_alloc_ids: "ids_ok s \<Longrightarrow> open_alloc grant s = ((r, Some i), s') \<Longrightarrow> ids_ok s'"
  using open_scan_ok(4)[of "[0..<MAXOPEN]" grant s r i s'] next_id[of "o_fileid (opentab s i)"]
  unfolding open_alloc_def ids_ok_def by (simp del: MAXOPEN_def of_nat_numeral)

text \<open>
  A request to open a path that is answered with a page: the identifier in that page is found in the
  table, in a slot no client was using, for the file that the path names and with the mode of the request;
  the page holds a copy of the file's descriptor; the identifier the slot had before is refused, and every
  other open file is found as before. The table stays well formed.
\<close>

theorem serve_open_correct:
  assumes ids: "ids_ok s" and run: "serve_open grant envid rq s = Ret s'"
    and ok: "sent s' = sent s @ [\<lparr>rp_to = envid, rp_val = 0, rp_page = FfPage i\<rparr>]"
  shows "\<exists>r f. 0 \<le> r \<and> file_open (req_path rq) (fs s) = Ret ((r, Some f), fs s') \<and> ids_ok s' \<and> i < MAXOPEN \<and>
    refs s i \<le> 1 \<and> refs s' i = 2 \<and>
    o_file (opentab s' i) = Some f \<and> o_mode (opentab s' i) = req_omode rq \<and> ff_omode (ffs s' i) = req_omode rq \<and>
    ff_file (ffs s' i) = file_words (fs s') f \<and>
    open_lookup e (ff_fileid (ffs s' i)) s' = (0, Some i) \<and>
    open_lookup e (o_fileid (opentab s i)) s' = (- E_INVAL, None) \<and>
    (\<forall>id. unat id mod MAXOPEN \<noteq> i \<longrightarrow> open_lookup e id s' = open_lookup e id s)"
proof -
  obtain r o' s1 where al: "open_alloc grant s = ((r, o'), s1)" by (metis prod.exhaust)
  have fr: "sent s1 = sent s" "fs s1 = fs s"
    using open_scan_frame[OF al[unfolded open_alloc_def]] by auto
  from run obtain r' fo fss where fo: "file_open (req_path rq) (fs s) = Ret ((r', fo), fss)"
    by (auto simp: serve_open_def al fr Let_def rbind_eq_Ret split: if_splits)
      (auto simp: ipc_send_def fr)
  have pos: "\<not> r' < 0"
  proof
    assume "r' < 0"
    then have "sent s' = (if r < 0 then sent s @ [\<lparr>rp_to = envid, rp_val = r, rp_page = NoPage\<rparr>] else sent s)
        @ [\<lparr>rp_to = envid, rp_val = r', rp_page = NoPage\<rparr>]"
      using run by (auto simp: serve_open_def al fr fo Let_def ipc_send_def)
    then show False using ok by simp
  qed
  from run obtain f where fn: "fo = Some f" and j: "o' = Some i" and
    s': "s' = ipc_send envid 0 (FfPage i) (s1\<lparr>fs := fss,
      opentab := (opentab s1)(i := (opentab s1 i)\<lparr>o_file := Some f, o_mode := req_omode rq\<rparr>),
      ffs := (ffs s1)(i := (ffs s1 i)\<lparr>ff_file := file_words fss f,
        ff_fileid := o_fileid (opentab s1 i), ff_omode := req_omode rq, ff_dev_id := 102\<rparr>)\<rparr>)"
    using ok pos
    by (auto simp: serve_open_def al fr fo Let_def ipc_send_def split: if_splits option.splits)
  note al = al[unfolded j]
  note sc = open_scan_ok[OF al[unfolded open_alloc_def]]
  have im: "i < MAXOPEN" using sc(1) unfolding set_upt by simp
  have ids1: "ids_ok s1" by (rule open_alloc_ids[OF ids al])
  have i1: "unat (o_fileid (opentab s1 i)) mod MAXOPEN = i" and i0: "unat (o_fileid (opentab s i)) mod MAXOPEN = i"
    using ids1 ids im unfolding ids_ok_def by blast+
  have ne: "o_fileid (opentab s1 i) \<noteq> o_fileid (opentab s i)"
    by (subst sc(4)) simp
  have ids': "ids_ok s'" using ids1 unfolding s' ids_ok_def ipc_send_def by simp
  have r2: "refs s' i = 2" unfolding s' ipc_send_def by (subst sc(4)) simp
  have oth: "k \<noteq> i \<Longrightarrow> opentab s' k = opentab s k \<and> refs s' k = refs s k" for k
    unfolding s' ipc_send_def by (subst (1 2) sc(4)) simp
  show ?thesis
    by (rule exI[of _ r'], rule exI[of _ f])
      (use fo fn pos ids' im sc(2) r2 oth i1 i0 ne in \<open>auto simp: s' ipc_send_def open_lookup_def Let_def\<close>)
qed

text \<open>
  A file identifier that was never handed out is accepted while its slot has never been used: the
  first request of a client that names file 0, before any file has been opened, makes the server
  follow a null \<open>struct File *\<close>.
\<close>

theorem unopened_file_id_faults:
  "serve_map envid (rq\<lparr>req_fileid := 0\<rparr>)
     (serve_init \<lparr>fs = fss, opentab = (\<lambda>_. \<lparr>o_file = None, o_fileid = 0, o_mode = 1, o_ff = 0\<rparr>),
       refs = (\<lambda>_. 0), ffs = (\<lambda>_. zero_ff), sent = [], req_mapped = True\<rparr>) = Fault ''NULL file''"
  unfolding serve_map_def with_open_def open_lookup_def with_file_def serve_init_def
  by (simp add: Let_def serve_init_loop_id serve_init_loop_rest del: upt_rec_numeral upt_conv_Cons)

lemma open_scan_full: "\<forall>i \<in> set ns. 1 < refs s i \<Longrightarrow> open_scan ns grant s = ((- E_MAX_OPEN, None), s)"
  by (induction ns) auto

text \<open>
  With every slot in use \<open>serve_open\<close> sends \<open>-E_MAX_OPEN\<close>, does not return, and goes on to write through the
  pointer that \<open>open_alloc\<close> did not set.
\<close>

lemma serve_open_full_table:
  assumes "\<forall>i < MAXOPEN. 1 < refs s i" and "file_open (req_path rq) (fs s) = Ret ((r, f), fss)" and "0 \<le> r"
  shows "serve_open grant envid rq s = Fault ''uninitialised o''"
proof -
  have "open_alloc grant s = ((- E_MAX_OPEN, None), s)"
    unfolding open_alloc_def using assms(1) by (intro open_scan_full) (simp del: MAXOPEN_def)
  then show ?thesis using assms(2,3) by (simp add: serve_open_def Let_def ipc_send_def E_MAX_OPEN_def)
qed

section \<open>Replies\<close>

text \<open>\<open>s'\<close> has sent one message more than \<open>s\<close>, to \<open>whom\<close>.\<close>

definition replied :: "u32 \<Rightarrow> srv \<Rightarrow> srv \<Rightarrow> bool" where
  "replied whom s s' \<longleftrightarrow> (\<exists>v pg. sent s' = sent s @ [\<lparr>rp_to = whom, rp_val = v, rp_page = pg\<rparr>])"

lemma sent_ipc_send [simp]: "sent (ipc_send w v pg s) = sent s @ [\<lparr>rp_to = w, rp_val = v, rp_page = pg\<rparr>]"
  by (simp add: ipc_send_def Let_def split: page.splits)

lemma with_open_replied:
  assumes "with_open w rq s k = Ret s'" and "\<And>i. k i = Ret s' \<Longrightarrow> replied w s s'"
  shows "replied w s s'"
  using assms by (auto simp: with_open_def Let_def replied_def split: prod.splits if_splits option.splits)

lemma with_file_replied:
  assumes "with_file i s k = Ret s'" and "\<And>f. k f = Ret s' \<Longrightarrow> replied w s s'"
  shows "replied w s s'"
  using assms by (auto simp: with_file_def split: option.splits)

lemma serve_open_replied:
  "serve_open grant w rq s = Ret s' \<Longrightarrow> 0 \<le> fst (fst (open_alloc grant s)) \<Longrightarrow> replied w s s'"
  using open_scan_frame[of "[0..<MAXOPEN]" grant s "fst (open_alloc grant s)" "snd (open_alloc grant s)"]
  unfolding open_alloc_def[symmetric] prod.collapse
  by (auto simp: serve_open_def replied_def Let_def rbind_eq_Ret split: prod.splits if_splits option.splits)

lemma on_open_replied:
  "serve_map w rq s = Ret s' \<Longrightarrow> replied w s s'" "serve_set_size w rq s = Ret s' \<Longrightarrow> replied w s s'"
  "serve_close w rq s = Ret s' \<Longrightarrow> replied w s s'" "serve_dirty w rq s = Ret s' \<Longrightarrow> replied w s s'"
  unfolding serve_map_def serve_set_size_def serve_close_def serve_dirty_def
  by ((erule with_open_replied, erule with_file_replied,
      auto simp: replied_def Let_def rbind_eq_Ret split: prod.splits if_splits)[1])+

lemma by_path_replied:
  "serve_create w rq s = Ret s' \<Longrightarrow> replied w s s'" "serve_remove w rq s = Ret s' \<Longrightarrow> replied w s s'"
  "serve_sync w s = Ret s' \<Longrightarrow> replied w s s'"
  by (auto simp: serve_create_def serve_remove_def serve_sync_def replied_def Let_def rbind_eq_Ret
      split: prod.splits if_splits option.splits)

text \<open>How many messages answer a request: \<open>serve_open\<close> answers twice when \<open>open_alloc\<close> fails.\<close>

definition answers :: "int \<Rightarrow> u32 \<Rightarrow> u32 \<Rightarrow> srv \<Rightarrow> nat" where
  "answers grant req perm s =
     (if perm AND PTE_V = 0 \<or> req \<notin> {1..8} then 0
      else if req = FSREQ_OPEN \<and> fst (fst (open_alloc grant s)) < 0 then 2 else 1)"

text \<open>The requests that are turned away before the file system is called.\<close>

definition refused :: "u32 \<Rightarrow> u32 \<Rightarrow> u32 \<Rightarrow> fsreq \<Rightarrow> srv \<Rightarrow> bool" where
  "refused req whom perm rq s \<longleftrightarrow> perm AND PTE_V = 0 \<or> req \<notin> {1..8} \<or>
     req \<in> {FSREQ_MAP, FSREQ_SET_SIZE, FSREQ_CLOSE, FSREQ_DIRTY} \<and> fst (open_lookup whom (req_fileid rq) s) < 0"

lemma req_cases:
  "(req \<in> {1..8 :: u32}) =
     (req \<in> {FSREQ_OPEN, FSREQ_MAP, FSREQ_SET_SIZE, FSREQ_CLOSE, FSREQ_DIRTY, FSREQ_REMOVE, FSREQ_SYNC, FSREQ_CREATE})"
proof -
  have "(req \<in> {1..8}) = (1 \<le> unat req \<and> unat req \<le> 8)" by (simp add: word_le_nat_alt)
  also have "\<dots> = (unat req \<in> {1, 2, 3, 4, 5, 6, 7, 8})" by (simp only: insert_iff empty_iff) presburger
  also have "\<dots> = (req \<in> {1, 2, 3, 4, 5, 6, 7, 8})" by (simp only: insert_iff empty_iff word_unat_eq_iff) simp
  finally show ?thesis unfolding fsreq_codes by blast
qed

lemma open_scan_req_mapped:
  "fst (open_scan ns grant (s\<lparr>req_mapped := b\<rparr>)) = fst (open_scan ns grant s)"
  by (induction ns) (simp_all add: Let_def del: of_nat_numeral)

lemma serve_open_twice:
  assumes "serve_open grant w rq s = Ret s'" "fst (fst (open_alloc grant s)) < 0"
  obtains a b where "sent s' = sent s @ [a, b]" "rp_to a = w" "rp_to b = w"
proof -
  obtain r o' s1 where al: "open_alloc grant s = ((r, o'), s1)" by (metis prod.exhaust)
  have fr: "sent s1 = sent s" using open_scan_frame[OF al[unfolded open_alloc_def]] by auto
  from assms(1) show ?thesis using assms(2) that
    by (auto simp: serve_open_def al fr Let_def rbind_eq_Ret split: if_splits option.splits)
qed

lemma answered:
  assumes run: "serve_round grant req whom perm rq s = Ret s'"
  shows "\<exists>rs. sent s' = sent s @ rs \<and> length rs = answers grant req perm s \<and> (\<forall>a \<in> set rs. rp_to a = whom)"
    and "req_mapped s' = (perm AND PTE_V = 0 \<and> req_mapped s)"
proof -
  let ?s = "s\<lparr>req_mapped := True\<rparr>" and ?n = "answers grant req perm s"
  have al: "fst (open_alloc grant ?s) = fst (open_alloc grant s)" by (simp add: open_alloc_def open_scan_req_mapped)
  have one: "\<exists>rs. sent s1 = sent s @ rs \<and> length rs = 1 \<and> (\<forall>a \<in> set rs. rp_to a = whom)" if "replied whom ?s s1" for s1
    using that by (auto simp: replied_def)
  have two: "\<exists>rs. sent s1 = sent s @ rs \<and> length rs = 2 \<and> (\<forall>a \<in> set rs. rp_to a = whom)"
    if "serve_open grant whom rq ?s = Ret s1" "fst (fst (open_alloc grant s)) < 0" for s1
    by (rule serve_open_twice[OF that(1)[unfolded]]) (use that(2) al in \<open>auto intro: exI[of _ "[_, _]"]\<close>)
  have op: "replied whom ?s s1" if "serve_open grant whom rq ?s = Ret s1" "\<not> fst (fst (open_alloc grant s)) < 0" for s1
    by (rule serve_open_replied[OF that(1)]) (use that(2) al in simp)
  show "req_mapped s' = (perm AND PTE_V = 0 \<and> req_mapped s)"
    using run by (auto simp: serve_round_def rbind_eq_Ret split: if_splits)
  show "\<exists>rs. sent s' = sent s @ rs \<and> length rs = ?n \<and> (\<forall>a \<in> set rs. rp_to a = whom)"
  proof (cases "perm AND PTE_V = 0 \<or> req \<notin> {1..8}")
    case True
    then have "?n = 0" by (simp add: answers_def)
    moreover have "sent s' = sent s"
      using run True unfolding req_cases by (auto simp: serve_round_def rbind_eq_Ret Let_def split: if_splits)
    ultimately show ?thesis by simp
  next
    case False
    then have req: "req \<in> {FSREQ_OPEN, FSREQ_MAP, FSREQ_SET_SIZE, FSREQ_CLOSE, FSREQ_DIRTY, FSREQ_REMOVE, FSREQ_SYNC, FSREQ_CREATE}"
      unfolding req_cases de_Morgan_disj not_not by (rule conjunct2)
    show ?thesis
    proof (cases "req = FSREQ_OPEN \<and> fst (fst (open_alloc grant s)) < 0")
      case True
      then have "?n = 2" using False by (simp add: answers_def)
      moreover obtain s1 where "serve_open grant whom rq ?s = Ret s1" "s' = s1\<lparr>req_mapped := False\<rparr>"
        using run True False by (auto simp: serve_round_def rbind_eq_Ret Let_def)
      ultimately show ?thesis using two[of s1] True by simp
    next
      case one_reply: False
      then have "?n = 1" using False by (auto simp: answers_def)
      moreover obtain s1 where s1: "s' = s1\<lparr>req_mapped := False\<rparr>"
        "(if req = FSREQ_OPEN then serve_open grant whom rq ?s
            else if req = FSREQ_CREATE then serve_create whom rq ?s
            else if req = FSREQ_MAP then serve_map whom rq ?s
            else if req = FSREQ_SET_SIZE then serve_set_size whom rq ?s
            else if req = FSREQ_CLOSE then serve_close whom rq ?s
            else if req = FSREQ_DIRTY then serve_dirty whom rq ?s
            else if req = FSREQ_REMOVE then serve_remove whom rq ?s
            else if req = FSREQ_SYNC then serve_sync whom ?s
            else Ret (?s\<lparr>fs := fs_debugf (''Invalid request code %d from %08x'' @ [CHR 0x0A]) (fs ?s)\<rparr>)) = Ret s1"
        using run False unfolding serve_round_def Let_def by (simp only: rbind_eq_Ret if_False de_Morgan_disj res.inject) blast
      have "replied whom ?s s1"
        using req s1(2) one_reply
        by (elim insertE emptyE; simp add: fsreq_codes; blast intro: op on_open_replied by_path_replied)
      ultimately show ?thesis using one[of s1] s1(1) by simp
    qed
  qed
qed

lemma refused_round:
  assumes "refused req whom perm rq s"
  shows "\<exists>log. serve_round grant req whom perm rq s = Ret
      (s\<lparr>fs := (fs s)\<lparr>fs_log := log\<rparr>, req_mapped := (perm AND PTE_V = 0 \<and> req_mapped s),
        sent := sent s @ (if perm AND PTE_V = 0 \<or> req \<notin> {1..8} then [] else [\<lparr>rp_to = whom, rp_val = - E_INVAL, rp_page = NoPage\<rparr>])\<rparr>)"
proof (cases "perm AND PTE_V = 0 \<or> req \<notin> {1..8}")
  case True
  show ?thesis
  proof (cases "perm AND PTE_V = 0")
    case True
    then show ?thesis by (intro exI) (simp add: serve_round_def fs_debugf_def)
  next
    case p: False
    with True have "req \<notin> {1..8}" by blast
    then have "serve_round grant req whom perm rq s =
        Ret (s\<lparr>req_mapped := False, fs := fs_debugf (''Invalid request code %d from %08x'' @ [CHR 0x0A]) (fs s)\<rparr>)"
      using p unfolding req_cases by (simp add: serve_round_def)
    then show ?thesis using p True
      by (intro exI[of _ "fs_log (fs s) @ ''Invalid request code %d from %08x'' @ [CHR 0x0A]"]) (simp add: fs_debugf_def)
  qed
next
  case False
  then have "req \<in> {FSREQ_MAP, FSREQ_SET_SIZE, FSREQ_CLOSE, FSREQ_DIRTY}" "fst (open_lookup whom (req_fileid rq) s) < 0"
    using assms by (auto simp: refused_def)
  moreover have "open_lookup whom (req_fileid rq) (s\<lparr>req_mapped := True\<rparr>) = open_lookup whom (req_fileid rq) s"
    by (simp add: open_lookup_def)
  moreover have "fst (open_lookup whom (req_fileid rq) s) < 0 \<Longrightarrow> open_lookup whom (req_fileid rq) s = (- E_INVAL, None)"
    by (auto simp: open_lookup_def Let_def split: if_splits)
  ultimately have r: "serve_round grant req whom perm rq s =
      Ret ((ipc_send whom (- E_INVAL) NoPage (s\<lparr>req_mapped := True\<rparr>))\<lparr>req_mapped := False\<rparr>)"
    using False unfolding serve_round_def
    by (elim insertE emptyE; simp add: fsreq_codes; simp add: serve_map_def serve_set_size_def serve_close_def serve_dirty_def
        with_open_def E_INVAL_def Let_def)
  show ?thesis unfolding r using False by (intro exI[of _ "fs_log (fs s)"]) (simp add: ipc_send_def)
qed

text \<open>
  C20. The replies of the server, for every request. A round that returns has sent messages to the client
  that asked and to nobody else, on success and on error alike: none for a request without an argument
  page or with a code that is not in \<^verbatim>\<open>fsreq.h\<close>, two for an \<open>FSREQ_OPEN\<close> for which \<open>open_alloc\<close> returns
  a negative value (the handler goes on after its error reply), exactly one for any other. The
  request page is unmapped, except when the request came without one. Requests refused before a call of the
  file system always return, and leave everything but the log and the messages as it was; one with a file
  identifier that is not open is answered with \<open>-E_INVAL\<close>.
\<close>

theorem serve_round_replies_once:
  "(\<forall>s'. serve_round grant req whom perm rq s = Ret s' \<longrightarrow>
      (\<exists>rs. sent s' = sent s @ rs \<and> length rs = answers grant req perm s \<and> (\<forall>a \<in> set rs. rp_to a = whom)) \<and>
      req_mapped s' = (perm AND PTE_V = 0 \<and> req_mapped s)) \<and>
   (refused req whom perm rq s \<longrightarrow> (\<exists>log. serve_round grant req whom perm rq s = Ret
      (s\<lparr>fs := (fs s)\<lparr>fs_log := log\<rparr>, req_mapped := (perm AND PTE_V = 0 \<and> req_mapped s),
        sent := sent s @ (if perm AND PTE_V = 0 \<or> req \<notin> {1..8} then []
          else [\<lparr>rp_to = whom, rp_val = - E_INVAL, rp_page = NoPage\<rparr>])\<rparr>)))"
  by (intro conjI allI impI answered refused_round)

text \<open>A server that has just started on the example file system, and a request to open the root directory.\<close>

definition demo_srv :: srv where
  "demo_srv = serve_init \<lparr>fs = demo_fs, opentab = (\<lambda>_. \<lparr>o_file = None, o_fileid = 0, o_mode = 1, o_ff = 0\<rparr>),
     refs = (\<lambda>_. 0), ffs = (\<lambda>_. zero_ff), sent = [], req_mapped = True\<rparr>"

definition demo_rq :: fsreq where
  "demo_rq = \<lparr>req_path = [47], req_omode = 2, req_fileid = 0, req_offset = 0, req_size = 0, req_type = 0\<rparr>"

lemma serve_init_loop_sent: "sent (serve_init_loop ns va s) = sent s"
  by (induction ns arbitrary: va s) auto

lemma demo_srv_simps: "fs demo_srv = demo_fs" "refs demo_srv = (\<lambda>_. 0)" "sent demo_srv = []" "o_fileid (opentab demo_srv 0) = 0"
  unfolding demo_srv_def serve_init_def serve_init_loop_id serve_init_loop_sent
  by (simp_all add: serve_init_loop_rest serve_init_loop_sent del: upt_rec_numeral)

lemma demo_open_alloc:
  "open_alloc 0 demo_srv = ((1024, Some 0), demo_srv\<lparr>refs := (refs demo_srv)(0 := 1),
     opentab := (opentab demo_srv)(0 := (opentab demo_srv 0)\<lparr>o_fileid := 1024\<rparr>), ffs := (ffs demo_srv)(0 := zero_ff)\<rparr>)"
proof -
  have "[0..<MAXOPEN] = 0 # [1..<MAXOPEN]" unfolding One_nat_def by (rule upt_conv_Cons) simp
  moreover have "sint (1024 :: u32) = 1024" by code_simp
  ultimately show ?thesis unfolding open_alloc_def by (simp add: Let_def demo_srv_simps del: upt_rec_numeral)
qed

theorem serve_open_correct_witness:
  "\<exists>s'. serve_open 0 0x1001 demo_rq demo_srv = Ret s' \<and> ids_ok s' \<and>
     open_lookup 0x1001 (ff_fileid (ffs s' 0)) s' = (0, Some 0) \<and> open_lookup 0x1001 0 s' = (- E_INVAL, None)"
proof -
  have fo: "file_open [47] demo_fs = Ret ((0, Some s_root), demo_fs)"
    by (simp add: file_open_def walk_path_def skip_slash_def s_root_def walk_loop.simps)
  have ids: "ids_ok demo_srv" unfolding demo_srv_def by (rule serve_init_ids)
  note fo = fo[unfolded s_root_def]
  obtain s' where r: "serve_open 0 0x1001 demo_rq demo_srv = Ret s'"
    and s: "sent s' = sent demo_srv @ [\<lparr>rp_to = 0x1001, rp_val = 0, rp_page = FfPage 0\<rparr>]"
    by (simp add: serve_open_def demo_open_alloc Let_def demo_rq_def demo_srv_simps fo ipc_send_def s_root_def)
  show ?thesis
    using r serve_open_correct[OF ids r s, where e = "0x1001"] by (auto simp: demo_srv_simps)
qed

theorem serve_round_replies_once_witness:
  "\<exists>s'. serve_round 0 FSREQ_CLOSE 0x1001 PTE_V (demo_rq\<lparr>req_fileid := 5000\<rparr>) demo_srv = Ret s' \<and>
     sent s' = [\<lparr>rp_to = 0x1001, rp_val = - E_INVAL, rp_page = NoPage\<rparr>] \<and> \<not> req_mapped s'"
proof -
  have i: "o_fileid (opentab demo_srv 904) = 904"
    unfolding demo_srv_def serve_init_def serve_init_loop_id set_upt by simp
  have v: "PTE_V AND PTE_V \<noteq> 0" "FSREQ_CLOSE \<in> {1..8}" by (simp_all add: PTE_V_def fsreq_codes word_le_nat_alt)
  have "refused FSREQ_CLOSE 0x1001 PTE_V (demo_rq\<lparr>req_fileid := 5000\<rparr>) demo_srv"
    by (simp add: refused_def open_lookup_def demo_rq_def i Let_def demo_srv_simps E_INVAL_def)
  with serve_round_replies_once[of 0 FSREQ_CLOSE "0x1001" PTE_V "demo_rq\<lparr>req_fileid := 5000\<rparr>" demo_srv]
  show ?thesis using v by (auto simp: demo_srv_simps)
qed

end
