(* ===== verification/Fd.thy ===== *)
theory Fd
  imports Syscall
begin

text \<open>
  File descriptors, \<^verbatim>\<open>user/lib/fd.c\<close>, and the console device, \<^verbatim>\<open>user/lib/console.c\<close>. The state is what one
  environment sees of memory: \<open>vpt\<close> is its page table by virtual page number (physical page and
  permission bits), \<open>pp_ref\<close> the reference counts of the physical pages, \<open>fds\<close> the \<open>struct Fd\<close> at the
  start of a physical page, so that descriptors duplicated with \<open>dup\<close> share it. \<open>new_pages\<close> and \<open>map_ok\<close>
  are the kernel's answers when it needs a page, for \<open>syscall_mem_alloc\<close> and for the page table of
  \<open>syscall_mem_map\<close>. A page directory entry is read only to see that a page table exists; without one no
  page is mapped, and \<open>vpt\<close> says so. \<open>keys\<close> are the characters typed at the console.
\<close>

section \<open>State\<close>

definition MAXFD :: nat where [simp]: "MAXFD = 32"
definition FILEBASE :: u32 where "FILEBASE = 0x60000000"
definition FDTABLE :: u32 where "FDTABLE = FILEBASE - PDMAP"
definition O_RDONLY :: u32 where [simp]: "O_RDONLY = 0"
definition O_WRONLY :: u32 where [simp]: "O_WRONLY = 1"
definition O_RDWR :: u32 where [simp]: "O_RDWR = 2"
definition O_ACCMODE :: u32 where [simp]: "O_ACCMODE = 3"

definition INDEX2FD :: "int \<Rightarrow> u32" where "INDEX2FD i = FDTABLE + word_of_int i * BY2PG"
definition INDEX2DATA :: "int \<Rightarrow> u32" where "INDEX2DATA i = FILEBASE + word_of_int i * PDMAP"

record fd =
  fd_dev_id :: u32
  fd_offset :: u32
  fd_omode :: u32

record stat =
  st_name :: string
  st_size :: u32
  st_isdir :: bool
  st_dev :: "u32 option"

record ust =
  vpt :: "u32 \<Rightarrow> (nat \<times> u32) option"
  fds :: "nat \<Rightarrow> fd"
  pp_ref :: "nat \<Rightarrow> nat"
  new_pages :: "nat option list"
  map_ok :: "bool list"
  ulog :: string
  keys :: "u8 list"

record 's dev =
  dev_id :: u32
  dev_read :: "u32 \<Rightarrow> u32 \<Rightarrow> u32 \<Rightarrow> 's \<Rightarrow> ((int \<times> u8 list) \<times> 's) res"
  dev_write :: "u32 \<Rightarrow> u8 list \<Rightarrow> u32 \<Rightarrow> 's \<Rightarrow> (int \<times> 's) res"
  dev_close :: "u32 \<Rightarrow> 's \<Rightarrow> (int \<times> 's) res"
  dev_stat :: "u32 \<Rightarrow> stat \<Rightarrow> 's \<Rightarrow> ((int \<times> stat) \<times> 's) res"

section \<open>System calls on the caller's memory\<close>

definition put_page :: "nat \<Rightarrow> 'a ust_scheme \<Rightarrow> 'a ust_scheme" where
  "put_page p s = s\<lparr>pp_ref := (pp_ref s)(p := pp_ref s p - 1)\<rparr>"

definition sc_unmap :: "u32 \<Rightarrow> 'a ust_scheme \<Rightarrow> int \<times> 'a ust_scheme" where
  "sc_unmap va s =
     (if is_illegal_va va then (- E_INVAL, s)
      else case vpt s (VPN va) of None \<Rightarrow> (0, s)
        | Some (p, _) \<Rightarrow> (0, put_page p (s\<lparr>vpt := (vpt s)(VPN va := None)\<rparr>)))"

definition map_page :: "u32 \<Rightarrow> nat \<Rightarrow> u32 \<Rightarrow> 'a ust_scheme \<Rightarrow> 'a ust_scheme" where
  "map_page va p perm s =
     (let s = snd (sc_unmap va s)
      in s\<lparr>vpt := (vpt s)(VPN va := Some (p, perm OR PTE_V)), pp_ref := (pp_ref s)(p := pp_ref s p + 1)\<rparr>)"

definition no_fd :: fd where "no_fd = \<lparr>fd_dev_id = 0, fd_offset = 0, fd_omode = 0\<rparr>"

definition sc_alloc :: "u32 \<Rightarrow> u32 \<Rightarrow> 'a ust_scheme \<Rightarrow> int \<times> 'a ust_scheme" where
  "sc_alloc va perm s =
     (if is_illegal_va va then (- E_INVAL, s)
      else case new_pages s of [] \<Rightarrow> (- E_NO_MEM, s)
        | None # ps \<Rightarrow> (- E_NO_MEM, s\<lparr>new_pages := ps\<rparr>)
        | Some p # ps \<Rightarrow> (0, map_page va p perm (s\<lparr>new_pages := ps, fds := (fds s)(p := no_fd)\<rparr>)))"

definition sc_map :: "u32 \<Rightarrow> u32 \<Rightarrow> u32 \<Rightarrow> 'a ust_scheme \<Rightarrow> int \<times> 'a ust_scheme" where
  "sc_map srcva dstva perm s =
     (if is_illegal_va srcva \<or> is_illegal_va dstva then (- E_INVAL, s)
      else case vpt s (VPN srcva) of None \<Rightarrow> (- E_INVAL, s)
        | Some (p, _) \<Rightarrow> (case map_ok s of [] \<Rightarrow> (- E_NO_MEM, s)
          | ok # oks \<Rightarrow> let s = s\<lparr>map_ok := oks\<rparr> in if ok then (0, map_page dstva p perm s) else (- E_NO_MEM, s)))"

text \<open>\<open>pageref\<close> of \<^verbatim>\<open>user/lib/pageref.c\<close>.\<close>

definition pageref :: "u32 \<Rightarrow> 'a ust_scheme \<Rightarrow> nat" where
  "pageref v s = (case vpt s (VPN v) of None \<Rightarrow> 0 | Some (p, _) \<Rightarrow> pp_ref s p)"

text \<open>Access through a \<open>struct Fd *\<close>.\<close>

definition get_fd :: "u32 \<Rightarrow> 'a ust_scheme \<Rightarrow> fd res" where
  "get_fd va s = (case vpt s (VPN va) of None \<Rightarrow> Fault ''page fault'' | Some (p, _) \<Rightarrow> Ret (fds s p))"

definition set_fd :: "u32 \<Rightarrow> fd \<Rightarrow> 'a ust_scheme \<Rightarrow> 'a ust_scheme res" where
  "set_fd va f s = (case vpt s (VPN va) of None \<Rightarrow> Fault ''page fault'' | Some (p, _) \<Rightarrow> Ret (s\<lparr>fds := (fds s)(p := f)\<rparr>))"

section \<open>Descriptors\<close>

definition dev_lookup :: "'a ust_scheme dev list \<Rightarrow> u32 \<Rightarrow> 'a ust_scheme \<Rightarrow> (int \<times> 'a ust_scheme dev option) \<times> 'a ust_scheme" where
  "dev_lookup devtab devid s = (case find (\<lambda>d. dev_id d = devid) devtab of
     Some d \<Rightarrow> ((0, Some d), s)
   | None \<Rightarrow> ((- E_INVAL, None), s\<lparr>ulog := ulog s @ ''[%08x] unknown device type %d'' @ [CHR 0x0A]\<rparr>))"

fun fd_scan :: "nat list \<Rightarrow> 'a ust_scheme \<Rightarrow> int \<times> u32" where
  "fd_scan [] s = (- E_MAX_OPEN, 0)"
| "fd_scan (fdno # fdnos) s =
     (let va = INDEX2FD (int fdno) in if vpt s (VPN va) = None then (0, va) else fd_scan fdnos s)"

definition fd_alloc :: "'a ust_scheme \<Rightarrow> int \<times> u32" where
  "fd_alloc s = fd_scan [0..<MAXFD - 1] s"

definition fd_close :: "u32 \<Rightarrow> 'a ust_scheme \<Rightarrow> 'a ust_scheme" where
  "fd_close va s = snd (sc_unmap va s)"

definition fd_lookup :: "int \<Rightarrow> 'a ust_scheme \<Rightarrow> int \<times> u32" where
  "fd_lookup fdnum s =
     (if fdnum \<ge> int MAXFD then (- E_INVAL, 0)
      else let va = INDEX2FD fdnum in if vpt s (VPN va) \<noteq> None then (0, va) else (- E_INVAL, 0))"

definition fd2num :: "u32 \<Rightarrow> int" where
  "fd2num va = uint ((va - FDTABLE) div BY2PG)"

definition fd2data :: "u32 \<Rightarrow> u32" where
  "fd2data va = INDEX2DATA (fd2num va)"

definition num2fd :: "int \<Rightarrow> u32" where
  "num2fd i = word_of_int i * BY2PG + FDTABLE"

text \<open>The start of the calls on a descriptor: \<open>fd_lookup\<close>, then \<open>dev_lookup\<close> of its device.\<close>

definition with_dev :: "'a ust_scheme dev list \<Rightarrow> int \<Rightarrow> 'a ust_scheme \<Rightarrow> (int \<Rightarrow> 'a ust_scheme \<Rightarrow> 'b res) \<Rightarrow>
    (u32 \<Rightarrow> fd \<Rightarrow> 'a ust_scheme dev \<Rightarrow> 'a ust_scheme \<Rightarrow> 'b res) \<Rightarrow> 'b res" where
  "with_dev devtab fdnum s err k =
     (let (r, va) = fd_lookup fdnum s
      in if r < 0 then err r s
         else rbind (get_fd va s) (\<lambda>f.
           let ((r, d), s) = dev_lookup devtab (fd_dev_id f) s
           in if r < 0 then err r s
              else case d of None \<Rightarrow> Fault ''NULL device'' | Some d \<Rightarrow> k va f d s))"

definition close_file :: "'a ust_scheme dev list \<Rightarrow> int \<Rightarrow> 'a ust_scheme \<Rightarrow> (int \<times> 'a ust_scheme) res" where
  "close_file devtab fdnum s = with_dev devtab fdnum s (\<lambda>r s. Ret (r, s)) (\<lambda>va f d s.
     rbind (dev_close d va s) (\<lambda>(r, s). Ret (r, fd_close va s)))"

fun close_each :: "nat list \<Rightarrow> 'a ust_scheme dev list \<Rightarrow> 'a ust_scheme \<Rightarrow> 'a ust_scheme res" where
  "close_each [] devtab s = Ret s"
| "close_each (i # is) devtab s = rbind (close_file devtab (int i) s) (\<lambda>(_, s). close_each is devtab s)"

definition close_all :: "'a ust_scheme dev list \<Rightarrow> 'a ust_scheme \<Rightarrow> 'a ust_scheme res" where
  "close_all devtab s = close_each [0..<MAXFD] devtab s"

section \<open>Duplication\<close>

text \<open>The loops of \<open>dup\<close> over the pages of the data of a descriptor, and of its error exit.\<close>

fun dup_pages :: "nat list \<Rightarrow> u32 \<Rightarrow> u32 \<Rightarrow> 'a ust_scheme \<Rightarrow> int \<times> 'a ust_scheme" where
  "dup_pages [] ova nva s = (0, s)"
| "dup_pages (k # ks) ova nva s =
     (let i = of_nat k * BY2PG
      in case vpt s (VPN (ova + i)) of None \<Rightarrow> dup_pages ks ova nva s
         | Some (_, perm) \<Rightarrow>
             let (r, s) = sc_map (ova + i) (nva + i) (perm AND (PTE_D OR PTE_LIBRARY)) s
             in if r < 0 then (r, s) else dup_pages ks ova nva s)"

fun undo_pages :: "nat list \<Rightarrow> u32 \<Rightarrow> 'a ust_scheme \<Rightarrow> 'a ust_scheme" where
  "undo_pages [] nva s = s"
| "undo_pages (k # ks) nva s = undo_pages ks nva (snd (sc_unmap (nva + of_nat k * BY2PG) s))"

definition dup :: "'a ust_scheme dev list \<Rightarrow> int \<Rightarrow> int \<Rightarrow> 'a ust_scheme \<Rightarrow> (int \<times> 'a ust_scheme) res" where
  "dup devtab oldfdnum newfdnum s =
     (let (r, oldfd) = fd_lookup oldfdnum s
      in if r < 0 then Ret (r, s)
         else rbind (close_file devtab newfdnum s) (\<lambda>(_, s).
           let newfd = INDEX2FD newfdnum; ova = fd2data oldfd; nva = fd2data newfd;
               (r, s) = dup_pages [0..<1024] ova nva s;
               (r, s) = (if r < 0 then (r, s)
                 else case vpt s (VPN oldfd) of
                   None \<Rightarrow> sc_map oldfd newfd 0 s
                 | Some (_, perm) \<Rightarrow> sc_map oldfd newfd (perm AND (PTE_D OR PTE_LIBRARY)) s)
           in if r < 0 then Ret (r, snd (sc_unmap newfd (undo_pages [0..<1024] nva s))) else Ret (newfdnum, s)))"

section \<open>Reading and writing\<close>

definition add_offset :: "u32 \<Rightarrow> int \<Rightarrow> 'a ust_scheme \<Rightarrow> 'a ust_scheme res" where
  "add_offset va r s = (if r > 0 then rbind (get_fd va s) (\<lambda>f. set_fd va (f\<lparr>fd_offset := fd_offset f + word_of_int r\<rparr>) s)
     else Ret s)"

definition read_file :: "'a ust_scheme dev list \<Rightarrow> int \<Rightarrow> u32 \<Rightarrow> 'a ust_scheme \<Rightarrow> ((int \<times> u8 list) \<times> 'a ust_scheme) res" where
  "read_file devtab fdnum n s = with_dev devtab fdnum s (\<lambda>r s. Ret ((r, []), s)) (\<lambda>va f d s.
     if fd_omode f AND O_ACCMODE = O_WRONLY then Ret ((- E_INVAL, []), s)
     else rbind (dev_read d va n (fd_offset f) s) (\<lambda>((r, bs), s).
       rbind (add_offset va r s) (\<lambda>s. Ret ((r, bs), s))))"

definition write_file :: "'a ust_scheme dev list \<Rightarrow> int \<Rightarrow> u8 list \<Rightarrow> 'a ust_scheme \<Rightarrow> (int \<times> 'a ust_scheme) res" where
  "write_file devtab fdnum buf s = with_dev devtab fdnum s (\<lambda>r s. Ret (r, s)) (\<lambda>va f d s.
     if fd_omode f AND O_ACCMODE = O_RDONLY then Ret (- E_INVAL, s)
     else rbind (dev_write d va buf (fd_offset f) s) (\<lambda>(r, s).
       rbind (add_offset va r s) (\<lambda>s. Ret (r, s))))"

definition seek :: "int \<Rightarrow> u32 \<Rightarrow> 'a ust_scheme \<Rightarrow> (int \<times> 'a ust_scheme) res" where
  "seek fdnum offset s =
     (let (r, va) = fd_lookup fdnum s
      in if r < 0 then Ret (r, s)
         else rbind (get_fd va s) (\<lambda>f. rbind (set_fd va (f\<lparr>fd_offset := offset\<rparr>) s) (\<lambda>s. Ret (0, s))))"

definition fstat :: "'a ust_scheme dev list \<Rightarrow> int \<Rightarrow> stat \<Rightarrow> 'a ust_scheme \<Rightarrow> ((int \<times> stat) \<times> 'a ust_scheme) res" where
  "fstat devtab fdnum st s = with_dev devtab fdnum s (\<lambda>r s. Ret ((r, st), s)) (\<lambda>va f d s.
     dev_stat d va \<lparr>st_name = [], st_size = 0, st_isdir = False, st_dev = Some (dev_id d)\<rparr> s)"

text \<open>
  The loop of \<open>readn\<close>, for any \<open>rd\<close> that reads at most so many bytes; \<open>got\<close> are the bytes already in the
  buffer, \<open>left\<close> is \<open>n - tot\<close>. A read of more than it was asked for is a write past the end of the
  buffer.
\<close>

function readn_loop :: "(nat \<Rightarrow> 's \<Rightarrow> ((int \<times> u8 list) \<times> 's) res) \<Rightarrow> nat \<Rightarrow> u8 list \<Rightarrow> 's \<Rightarrow> ((int \<times> u8 list) \<times> 's) res" where
  "readn_loop rd left got s =
     (if left = 0 then Ret ((int (length got), got), s)
      else case rd left s of
        Panic e \<Rightarrow> Panic e | Fault e \<Rightarrow> Fault e
      | Ret ((m, bs), s) \<Rightarrow>
          if m < 0 then Ret ((m, got), s)
          else if m = 0 then Ret ((int (length got), got), s)
          else if int left < m then Fault ''buffer overrun''
          else readn_loop rd (left - nat m) (got @ bs) s)"
  by pat_completeness auto

termination
  by (relation "measure (\<lambda>(_, left, _, _). left)") auto

declare readn_loop.simps [simp del]

definition readn :: "'a ust_scheme dev list \<Rightarrow> int \<Rightarrow> u32 \<Rightarrow> 'a ust_scheme \<Rightarrow> ((int \<times> u8 list) \<times> 'a ust_scheme) res" where
  "readn devtab fdnum n s = readn_loop (\<lambda>k. read_file devtab fdnum (of_nat k)) (unat n) [] s"

section \<open>The console\<close>

definition opencons :: "'a ust_scheme \<Rightarrow> (int \<times> 'a ust_scheme) res" where
  "opencons s =
     (let (r, va) = fd_alloc s
      in if r < 0 then Ret (r, s)
         else let (r, s) = sc_alloc va (PTE_D OR PTE_LIBRARY) s
           in if r < 0 then Ret (r, s)
              else rbind (get_fd va s) (\<lambda>f. rbind (set_fd va (f\<lparr>fd_dev_id := 99, fd_omode := O_RDWR\<rparr>) s) (\<lambda>s.
                Ret (fd2num va, s))))"

definition iscons :: "int \<Rightarrow> 'a ust_scheme \<Rightarrow> int res" where
  "iscons fdnum s =
     (let (r, va) = fd_lookup fdnum s
      in if r < 0 then Ret r else rbind (get_fd va s) (\<lambda>f. Ret (of_bool (fd_dev_id f = 99))))"

text \<open>\<open>syscall_cgetc\<close> waits for a key; the loop of \<open>cons_read\<close> around it skips zeros.\<close>

definition cons_read :: "u32 \<Rightarrow> u32 \<Rightarrow> u32 \<Rightarrow> 'a ust_scheme \<Rightarrow> ((int \<times> u8 list) \<times> 'a ust_scheme) res" where
  "cons_read va n offset s =
     (if n = 0 then Ret ((0, []), s)
      else case dropWhile (\<lambda>c. c = 0) (keys s) of
        [] \<Rightarrow> Fault ''waiting for input''
      | c # cs \<Rightarrow>
          let s = s\<lparr>keys := cs, ulog := ulog s @ (if c \<noteq> 13 then [char_of (unat c)] else [CHR 0x0A])\<rparr>
          in if c = 4 then Ret ((0, []), s) else Ret ((1, [c]), s))"

definition cons_write :: "u32 \<Rightarrow> u8 list \<Rightarrow> u32 \<Rightarrow> 'a ust_scheme \<Rightarrow> (int \<times> 'a ust_scheme) res" where
  "cons_write va buf offset s =
     Ret (int (length buf), s\<lparr>ulog := ulog s @ map (\<lambda>c. char_of (unat c)) buf\<rparr>)"

definition cons_close :: "u32 \<Rightarrow> 'a ust_scheme \<Rightarrow> (int \<times> 'a ust_scheme) res" where
  "cons_close va s = Ret (0, s)"

definition cons_stat :: "u32 \<Rightarrow> stat \<Rightarrow> 'a ust_scheme \<Rightarrow> ((int \<times> stat) \<times> 'a ust_scheme) res" where
  "cons_stat va st s = Ret ((0, st\<lparr>st_name := ''<cons>''\<rparr>), s)"

definition devcons :: "'a ust_scheme dev" where
  "devcons = \<lparr>dev_id = 99, dev_read = cons_read, dev_write = cons_write, dev_close = cons_close, dev_stat = cons_stat\<rparr>"

end
