(* ===== verification/FdProps.thy ===== *)
theory FdProps
  imports Fd
begin

text \<open>
  Properties of file descriptors: the addresses of descriptors and of their data do not overlap, \<open>dup\<close>
  either makes the new descriptor an exact alias of the old one or leaves memory as it was, and \<open>readn\<close>
  returns all that a source has, up to the number of bytes asked for.
\<close>

section \<open>Addresses\<close>

abbreviation fd_vpn :: "nat \<Rightarrow> u32" where
  "fd_vpn i \<equiv> VPN (INDEX2FD (int i))"

abbreviation data_va :: "nat \<Rightarrow> nat \<Rightarrow> u32" where
  "data_va i k \<equiv> INDEX2DATA (int i) + of_nat k * BY2PG"

abbreviation data_vpn :: "nat \<Rightarrow> nat \<Rightarrow> u32" where
  "data_vpn i k \<equiv> VPN (data_va i k)"

lemma unat_small: "x < 2 ^ 32 \<Longrightarrow> unat (of_nat x :: u32) = x"
  by (simp add: unat_of_nat)

lemma unat_INDEX2FD: "i < 32 \<Longrightarrow> unat (INDEX2FD (int i)) = 0x5FC00000 + i * 4096"
proof -
  assume "i < 32"
  then have "INDEX2FD (int i) = of_nat (0x5FC00000 + i * 4096)"
    by (simp add: INDEX2FD_def FDTABLE_def FILEBASE_def PDMAP_def BY2PG_def)
  moreover have "unat (of_nat (0x5FC00000 + i * 4096) :: u32) = 0x5FC00000 + i * 4096"
    using \<open>i < 32\<close> by (intro unat_small) simp
  ultimately show ?thesis by (simp only:)
qed

lemma unat_data_va: "i < 32 \<Longrightarrow> k < 1024 \<Longrightarrow> unat (data_va i k) = 0x60000000 + i * 0x400000 + k * 4096"
proof -
  assume *: "i < 32" "k < 1024"
  have "data_va i k = of_nat (0x60000000 + i * 0x400000 + k * 4096)"
    by (simp add: INDEX2DATA_def FILEBASE_def PDMAP_def BY2PG_def)
  moreover have "unat (of_nat (0x60000000 + i * 0x400000 + k * 4096) :: u32) = 0x60000000 + i * 0x400000 + k * 4096"
    using * by (intro unat_small) simp
  ultimately show ?thesis by (simp only:)
qed

lemma unat_fd_vpn: "i < 32 \<Longrightarrow> unat (fd_vpn i) = 0x5FC00 + i"
  by (simp add: unat_VPN unat_INDEX2FD)

lemma unat_data_vpn: "i < 32 \<Longrightarrow> k < 1024 \<Longrightarrow> unat (data_vpn i k) = 0x60000 + i * 1024 + k"
  by (simp add: unat_VPN unat_data_va)

lemma fd_vpn_eq: "i < 32 \<Longrightarrow> j < 32 \<Longrightarrow> fd_vpn i = fd_vpn j \<longleftrightarrow> i = j"
  by (simp add: word_unat_eq_iff unat_fd_vpn)

lemma data_vpn_eq: "i < 32 \<Longrightarrow> j < 32 \<Longrightarrow> k < 1024 \<Longrightarrow> l < 1024 \<Longrightarrow> data_vpn i k = data_vpn j l \<longleftrightarrow> i = j \<and> k = l"
proof -
  assume *: "i < 32" "j < 32" "k < 1024" "l < 1024"
  have "i * 1024 + k = j * 1024 + l \<longleftrightarrow> i = j \<and> k = l"
  proof
    assume e: "i * 1024 + k = j * 1024 + l"
    have "(i * 1024 + k) div 1024 = i" "(j * 1024 + l) div 1024 = j" using * by simp_all
    with e show "i = j \<and> k = l" by simp
  qed simp
  then show ?thesis using * by (simp only: word_unat_eq_iff[of "data_vpn i k"] unat_data_vpn) simp
qed

lemma fd_data_vpn: "i < 32 \<Longrightarrow> j < 32 \<Longrightarrow> k < 1024 \<Longrightarrow> fd_vpn i \<noteq> data_vpn j k"
  by (simp add: word_unat_eq_iff unat_fd_vpn unat_data_vpn)

lemma legal_fd [simp]: "i < 32 \<Longrightarrow> \<not> is_illegal_va (INDEX2FD (int i))"
  by (simp add: is_illegal_va_def word_less_nat_alt word_le_nat_alt unat_INDEX2FD mmu_defs)

lemma legal_data [simp]: "i < 32 \<Longrightarrow> k < 1024 \<Longrightarrow> \<not> is_illegal_va (data_va i k)"
  by (simp add: is_illegal_va_def word_less_nat_alt word_le_nat_alt unat_data_va[unfolded BY2PG_def] mmu_defs)

lemma fd2num_INDEX2FD [simp]: "i < 32 \<Longrightarrow> fd2num (INDEX2FD (int i)) = int i"
proof -
  assume i: "i < 32"
  have "INDEX2FD (int i) - FDTABLE = of_nat (i * 4096)" by (simp add: INDEX2FD_def BY2PG_def)
  moreover have "unat (of_nat (i * 4096) :: u32) = i * 4096" using i by (intro unat_small) simp
  ultimately have "unat ((INDEX2FD (int i) - FDTABLE) div BY2PG) = i" by (simp add: unat_div BY2PG_def)
  then show ?thesis unfolding fd2num_def by (metis uint_nat)
qed

lemma fd2data_INDEX2FD [simp]: "i < 32 \<Longrightarrow> fd2data (INDEX2FD (int i)) = INDEX2DATA (int i)"
  by (simp add: fd2data_def)

section \<open>Duplication\<close>

definition page_at :: "'a ust_scheme \<Rightarrow> u32 \<Rightarrow> nat option" where
  "page_at s v = map_option fst (vpt s v)"

text \<open>The entry that \<open>dup\<close> makes of an entry.\<close>

definition shared :: "(nat \<times> u32) option \<Rightarrow> (nat \<times> u32) option" where
  "shared e = map_option (\<lambda>(p, perm). (p, (perm AND (PTE_D OR PTE_LIBRARY)) OR PTE_V)) e"

lemma shared_simps [simp]: "shared None = None" "shared (Some (p, q)) = Some (p, (q AND (PTE_D OR PTE_LIBRARY)) OR PTE_V)"
  by (simp_all add: shared_def)

text \<open>The pages \<open>D\<close> of the data of descriptor \<open>i\<close> are mapped for \<open>j\<close> too.\<close>

definition copied :: "nat \<Rightarrow> nat \<Rightarrow> nat set \<Rightarrow> 'a ust_scheme \<Rightarrow> 'a ust_scheme \<Rightarrow> bool" where
  "copied i j D s s' \<longleftrightarrow> fds s' = fds s \<and>
     (\<forall>k \<in> D. vpt s' (data_vpn j k) = shared (vpt s (data_vpn i k))) \<and>
     (\<forall>v. v \<notin> data_vpn j ` D \<longrightarrow> vpt s' v = vpt s v) \<and>
     (\<forall>p. pp_ref s' p = pp_ref s p + card {k \<in> D. page_at s (data_vpn i k) = Some p})"

lemma map_fresh:
  "\<not> is_illegal_va va \<Longrightarrow> vpt s (VPN va) = None \<Longrightarrow>
   map_page va p perm s = s\<lparr>vpt := (vpt s)(VPN va := Some (p, perm OR PTE_V)), pp_ref := (pp_ref s)(p := pp_ref s p + 1)\<rparr>"
  by (simp add: map_page_def sc_unmap_def)

lemma copied_refl: "fds s' = fds s \<Longrightarrow> vpt s' = vpt s \<Longrightarrow> pp_ref s' = pp_ref s \<Longrightarrow> copied i j {} s s'"
  by (simp add: copied_def)

lemma copied_step:
  assumes ij: "i < 32" "j < 32" "i \<noteq> j" and k: "k < 1024" "k \<notin> D" and D: "D \<subseteq> {..<1024}"
    and e: "vpt s (data_vpn i k) = Some (p, q)"
    and s1: "vpt s1 = (vpt s)(data_vpn j k := shared (Some (p, q)))" "pp_ref s1 = (pp_ref s)(p := pp_ref s p + 1)" "fds s1 = fds s"
    and c: "copied i j D s1 s'"
  shows "copied i j (insert k D) s s'"
proof -
  have old: "vpt s1 (data_vpn i l) = vpt s (data_vpn i l)" if "l < 1024" for l
    using ij k that by (simp add: s1 data_vpn_eq)
  have new: "data_vpn j k \<notin> data_vpn j ` D" using ij k D by (auto simp: data_vpn_eq subset_eq)
  have fin: "finite D" using D by (rule finite_subset) simp
  have card: "card {l \<in> insert k D. page_at s (data_vpn i l) = Some x} =
      (if x = p then 1 else 0) + card {l \<in> D. page_at s1 (data_vpn i l) = Some x}" for x
  proof -
    have d: "{l \<in> D. page_at s1 (data_vpn i l) = Some x} = {l \<in> D. page_at s (data_vpn i l) = Some x}"
      using old D by (auto simp: page_at_def)
    have "{l \<in> insert k D. page_at s (data_vpn i l) = Some x} =
        (if x = p then insert k {l \<in> D. page_at s (data_vpn i l) = Some x} else {l \<in> D. page_at s (data_vpn i l) = Some x})"
      using e by (auto simp: page_at_def)
    then show ?thesis using d k(2) fin by simp
  qed
  show ?thesis unfolding copied_def
  proof (intro conjI ballI allI impI)
    show "fds s' = fds s" using c s1(3) by (simp add: copied_def)
    show "vpt s' (data_vpn j l) = shared (vpt s (data_vpn i l))" if "l \<in> insert k D" for l
    proof (cases "l = k")
      case True
      have "vpt s' (data_vpn j k) = vpt s1 (data_vpn j k)" using c new by (simp add: copied_def)
      then show ?thesis using True e by (simp add: s1)
    next
      case False
      then have "l \<in> D" "l < 1024" using that D by auto
      then show ?thesis using c old by (simp add: copied_def)
    qed
    show "vpt s' v = vpt s v" if "v \<notin> data_vpn j ` insert k D" for v
      using c that by (simp add: copied_def s1(1))
    show "pp_ref s' x = pp_ref s x + card {l \<in> insert k D. page_at s (data_vpn i l) = Some x}" for x
    proof -
      have "pp_ref s' x = pp_ref s1 x + card {l \<in> D. page_at s1 (data_vpn i l) = Some x}" using c by (simp add: copied_def)
      then show ?thesis unfolding card s1(2) by simp
    qed
  qed
qed

lemma dup_pages_ok:
  assumes "i < 32" "j < 32" "i \<noteq> j" and "distinct ks" "set ks \<subseteq> {..<1024}"
    and "\<forall>k \<in> set ks. vpt s (data_vpn j k) = None"
    and "dup_pages ks (INDEX2DATA (int i)) (INDEX2DATA (int j)) s = (r, s')"
  shows "\<exists>D \<subseteq> set ks. copied i j D s s' \<and> (r < 0 \<or> r = 0 \<and> D = {k \<in> set ks. vpt s (data_vpn i k) \<noteq> None}) \<and>
    (length ks + m \<le> length (map_ok s) \<longrightarrow> (\<forall>b \<in> set (map_ok s). b) \<longrightarrow> r = 0 \<and> m \<le> length (map_ok s') \<and> (\<forall>b \<in> set (map_ok s'). b))"
  using assms(4-)
proof (induction ks arbitrary: s)
  case Nil
  then show ?case by (auto intro: copied_refl)
next
  case (Cons k ks)
  have k: "k < 1024" "k \<notin> set ks" "set ks \<subseteq> {..<1024}" "distinct ks" "vpt s (data_vpn j k) = None" using Cons.prems by auto
  show ?case
  proof (cases "vpt s (data_vpn i k)")
    case None
    then have "dup_pages ks (INDEX2DATA (int i)) (INDEX2DATA (int j)) s = (r, s')" using Cons.prems by simp
    from Cons.IH[OF k(4,3) _ this] Cons.prems(3) obtain D where D: "D \<subseteq> set ks" "copied i j D s s'"
      "r < 0 \<or> r = 0 \<and> D = {l \<in> set ks. vpt s (data_vpn i l) \<noteq> None}"
      "length ks + m \<le> length (map_ok s) \<longrightarrow> (\<forall>b \<in> set (map_ok s). b) \<longrightarrow> r = 0 \<and> m \<le> length (map_ok s') \<and> (\<forall>b \<in> set (map_ok s'). b)"
      by (metis (no_types, lifting) list.set_intros(2))
    have "{l \<in> set (k # ks). vpt s (data_vpn i l) \<noteq> None} = {l \<in> set ks. vpt s (data_vpn i l) \<noteq> None}" using None by auto
    then show ?thesis using D by (intro exI[of _ D]) (simp only:, auto)
  next
    case (Some pq)
    obtain p q where e: "vpt s (data_vpn i k) = Some (p, q)" using Some by (cases pq) auto
    show ?thesis
    proof (cases "map_ok s")
      case Nil
      then have "r = - E_NO_MEM" "s' = s" using Cons.prems(4) e assms(1,2) k by (auto simp: sc_map_def)
      then show ?thesis using Nil by (intro exI[of _ "{}"]) (simp add: copied_refl)
    next
      case (Cons b bs)
      show ?thesis
      proof (cases b)
        case False
        then have "r = - E_NO_MEM" "s' = s\<lparr>map_ok := bs\<rparr>" using Cons.prems(4) Cons e assms(1,2) k by (auto simp: sc_map_def)
        then show ?thesis using Cons False by (intro exI[of _ "{}"]) (simp add: copied_refl)
      next
        case True
        define s1 where "s1 = s\<lparr>map_ok := bs, vpt := (vpt s)(data_vpn j k := shared (Some (p, q))), pp_ref := (pp_ref s)(p := pp_ref s p + 1)\<rparr>"
        have "dup_pages ks (INDEX2DATA (int i)) (INDEX2DATA (int j)) s1 = (r, s')"
          using Cons.prems(4) Cons True e assms(1,2) k by (simp add: sc_map_def map_fresh s1_def)
        moreover have "\<forall>l \<in> set ks. vpt s1 (data_vpn j l) = None"
          using Cons.prems(3) k assms(2) by (auto simp: s1_def data_vpn_eq subset_eq)
        ultimately obtain D where D: "D \<subseteq> set ks" "copied i j D s1 s'"
          "r < 0 \<or> r = 0 \<and> D = {l \<in> set ks. vpt s1 (data_vpn i l) \<noteq> None}"
          "length ks + m \<le> length bs \<longrightarrow> (\<forall>b \<in> set bs. b) \<longrightarrow> r = 0 \<and> m \<le> length (map_ok s') \<and> (\<forall>b \<in> set (map_ok s'). b)"
          using Cons.IH[OF k(4,3), of s1] by (auto simp: s1_def)
        have old: "vpt s1 (data_vpn i l) = vpt s (data_vpn i l)" if "l \<in> set ks" for l
          using assms(1-3) k that by (auto simp: s1_def data_vpn_eq subset_eq)
        have "copied i j (insert k D) s s'"
          by (rule copied_step[OF assms(1-3) k(1) _ _ e _ _ _ D(2)]) (use D k in \<open>auto simp: s1_def\<close>)
        moreover have "insert k {l \<in> set ks. vpt s1 (data_vpn i l) \<noteq> None} = {l \<in> set (k # ks). vpt s (data_vpn i l) \<noteq> None}"
          using old e by auto
        ultimately show ?thesis using D(1,3,4) Cons True by (intro exI[of _ "insert k D"]) auto
      qed
    qed
  qed
qed

text \<open>The error exit of \<open>dup\<close> takes the new pages away again.\<close>

lemma undo_pages_ok:
  assumes "j < 32" "distinct ks" "set ks \<subseteq> {..<1024}"
  shows "fds (undo_pages ks (INDEX2DATA (int j)) s) = fds s \<and>
    vpt (undo_pages ks (INDEX2DATA (int j)) s) v = (if v \<in> data_vpn j ` set ks then None else vpt s v) \<and>
    pp_ref (undo_pages ks (INDEX2DATA (int j)) s) p = pp_ref s p - card {k \<in> set ks. page_at s (data_vpn j k) = Some p}"
  using assms(2,3)
proof (induction ks arbitrary: s)
  case (Cons k ks)
  let ?t = "snd (sc_unmap (data_va j k) s)"
  have k: "k < 1024" "k \<notin> set ks" "distinct ks" "set ks \<subseteq> {..<1024}" using Cons.prems by auto
  have t: "fds ?t = fds s" "vpt ?t = (vpt s)(data_vpn j k := None)"
    "pp_ref ?t p = pp_ref s p - (if page_at s (data_vpn j k) = Some p then 1 else 0)"
    using assms(1) k by (auto simp: sc_unmap_def put_page_def page_at_def fun_upd_idem split: option.splits)
  have "page_at ?t (data_vpn j l) = page_at s (data_vpn j l)" if "l \<in> set ks" for l
    using that k assms(1) by (auto simp: page_at_def t data_vpn_eq subset_eq)
  then have a: "{l \<in> set ks. page_at ?t (data_vpn j l) = Some p} = {l \<in> set ks. page_at s (data_vpn j l) = Some p}" by auto
  have "{l \<in> set (k # ks). page_at s (data_vpn j l) = Some p} =
      (if page_at s (data_vpn j k) = Some p then insert k {l \<in> set ks. page_at s (data_vpn j l) = Some p}
       else {l \<in> set ks. page_at s (data_vpn j l) = Some p})" by auto
  then have b: "card {l \<in> set (k # ks). page_at s (data_vpn j l) = Some p} =
      (if page_at s (data_vpn j k) = Some p then 1 else 0) + card {l \<in> set ks. page_at s (data_vpn j l) = Some p}"
    using k(2) by simp
  show ?case unfolding b using Cons.IH[OF k(3,4), of ?t] by (auto simp: a t)
qed simp

lemma undo_copied:
  assumes ij: "i < 32" "j < 32" and D: "D \<subseteq> {..<1024}" and c: "copied i j D s s'"
    and new: "\<forall>k < 1024. vpt s (data_vpn j k) = None"
  shows "vpt (undo_pages [0..<1024] (INDEX2DATA (int j)) s') = vpt s"
    and "pp_ref (undo_pages [0..<1024] (INDEX2DATA (int j)) s') = pp_ref s"
    and "fds (undo_pages [0..<1024] (INDEX2DATA (int j)) s') = fds s"
proof -
  have ks: "distinct [0..<1024]" "set [0..<1024] \<subseteq> {..<1024 :: nat}" by (simp, force)
  note u = undo_pages_ok[OF ij(2) ks, of s']
  show "fds (undo_pages [0..<1024] (INDEX2DATA (int j)) s') = fds s" using u c by (simp add: copied_def del: upt_rec_numeral)
  show "vpt (undo_pages [0..<1024] (INDEX2DATA (int j)) s') = vpt s"
  proof
    fix v show "vpt (undo_pages [0..<1024] (INDEX2DATA (int j)) s') v = vpt s v"
    proof (cases "v \<in> data_vpn j ` {0..<1024}")
      case True
      then show ?thesis using u[of v] new unfolding set_upt by auto
    next
      case False
      then have "v \<notin> data_vpn j ` D" using D by force
      then show ?thesis using u[of v] c False unfolding set_upt copied_def by simp
    qed
  qed
  show "pp_ref (undo_pages [0..<1024] (INDEX2DATA (int j)) s') = pp_ref s"
  proof
    fix p
    have "page_at s' (data_vpn j k) = (if k \<in> D then page_at s (data_vpn i k) else None)" if "k < 1024" for k
    proof (cases "k \<in> D")
      case True
      then show ?thesis using c by (cases "vpt s (data_vpn i k)") (auto simp: copied_def page_at_def)
    next
      case False
      then have "data_vpn j k \<notin> data_vpn j ` D" using that D ij by (auto simp: data_vpn_eq subset_eq)
      then show ?thesis using c new that False by (simp add: copied_def page_at_def)
    qed
    then have "{k \<in> set [0..<1024]. page_at s' (data_vpn j k) = Some p} = {k \<in> D. page_at s (data_vpn i k) = Some p}"
      using D unfolding set_upt by (auto split: if_splits)
    then show "pp_ref (undo_pages [0..<1024] (INDEX2DATA (int j)) s') p = pp_ref s p"
      using u[of _ p] c by (simp add: copied_def del: upt_rec_numeral set_upt)
  qed
qed

lemma undo_dup:
  assumes ij: "i < 32" "j < 32" and D: "D \<subseteq> {..<1024}" and c: "copied i j D s s1"
    and new: "vpt s (fd_vpn j) = None" "\<forall>k < 1024. vpt s (data_vpn j k) = None"
  shows "\<exists>s'. snd (sc_unmap (INDEX2FD (int j)) (undo_pages [0..<1024] (INDEX2DATA (int j)) (s1\<lparr>map_ok := bs\<rparr>))) = s' \<and>
    fds s' = fds s \<and> vpt s' = vpt s \<and> pp_ref s' = pp_ref s"
proof -
  have "copied i j D s (s1\<lparr>map_ok := bs\<rparr>)" using c by (simp add: copied_def)
  from undo_copied[OF ij D this new(2)] show ?thesis using new(1) ij by (simp add: sc_unmap_def del: upt_rec_numeral)
qed

text \<open>The descriptor \<open>j\<close> has become an alias of \<open>i\<close>.\<close>

definition aliased :: "nat \<Rightarrow> nat \<Rightarrow> 'a ust_scheme \<Rightarrow> 'a ust_scheme \<Rightarrow> bool" where
  "aliased i j s s' \<longleftrightarrow> vpt s' (fd_vpn j) = shared (vpt s (fd_vpn i)) \<and>
     (\<forall>k < 1024. vpt s' (data_vpn j k) = shared (vpt s (data_vpn i k))) \<and>
     (\<forall>v. v \<noteq> fd_vpn j \<longrightarrow> v \<notin> data_vpn j ` {..<1024} \<longrightarrow> vpt s' v = vpt s v) \<and>
     (\<forall>p. pp_ref s' p = pp_ref s p + card {k. k < 1024 \<and> page_at s (data_vpn i k) = Some p} +
       of_bool (page_at s (fd_vpn i) = Some p))"

lemma copied_aliased:
  assumes ij: "i < 32" "j < 32" and D: "D = {k. k < 1024 \<and> vpt s (data_vpn i k) \<noteq> None}" and c: "copied i j D s s1"
    and old: "vpt s (fd_vpn i) = Some (pf, perm)" and newd: "\<forall>k < 1024. vpt s (data_vpn j k) = None"
  shows "aliased i j s (s1\<lparr>map_ok := bs, vpt := (vpt s1)(fd_vpn j := shared (vpt s (fd_vpn i))), pp_ref := (pp_ref s1)(pf := pp_ref s1 pf + 1)\<rparr>)"
    (is "aliased i j s ?s")
proof -
  have data: "vpt ?s (data_vpn j k) = shared (vpt s (data_vpn i k))" if "k < 1024" for k
  proof (cases "k \<in> D")
    case False
    then have "data_vpn j k \<notin> data_vpn j ` D" "vpt s (data_vpn i k) = None"
      using that ij D by (auto simp: data_vpn_eq)
    then show ?thesis using c newd that ij fd_data_vpn[of j j k] by (auto simp: copied_def)
  qed (use c that ij fd_data_vpn[of j j k] in \<open>auto simp: copied_def\<close>)
  have other: "vpt ?s v = vpt s v" if "v \<noteq> fd_vpn j" "v \<notin> data_vpn j ` {..<1024}" for v
  proof -
    have "v \<notin> data_vpn j ` D" using that D by blast
    then show ?thesis using that c by (simp add: copied_def)
  qed
  have "{k \<in> D. page_at s (data_vpn i k) = Some p} = {k. k < 1024 \<and> page_at s (data_vpn i k) = Some p}" for p
    unfolding D by (auto simp: page_at_def)
  then have refs: "pp_ref ?s p = pp_ref s p + card {k. k < 1024 \<and> page_at s (data_vpn i k) = Some p} +
      of_bool (page_at s (fd_vpn i) = Some p)" for p
    using c old by (simp add: copied_def page_at_def eq_commute[of pf])
  show ?thesis unfolding aliased_def
    by (intro conjI allI impI; (rule data other refs)?; assumption?; simp)
qed

lemma dup_start:
  assumes "i < 32" "j < 32" "vpt s (fd_vpn j) = None" and "vpt s (fd_vpn i) = Some (pf, perm)"
    and "dup_pages [0..<1024] (INDEX2DATA (int i)) (INDEX2DATA (int j)) s = (r1, s1)" and "vpt s1 (fd_vpn i) = Some (pf, perm)"
  shows "dup devtab (int i) (int j) s = (let (r, s') = (if r1 < 0 then (r1, s1)
      else sc_map (INDEX2FD (int i)) (INDEX2FD (int j)) (perm AND (PTE_D OR PTE_LIBRARY)) s1)
    in if r < 0 then Ret (r, snd (sc_unmap (INDEX2FD (int j)) (undo_pages [0..<1024] (INDEX2DATA (int j)) s'))) else Ret (int j, s'))"
  using assms
  by (simp add: dup_def fd_lookup_def close_file_def with_dev_def Let_def cong: if_cong split: prod.split del: upt_rec_numeral)

lemma dup_fails:
  assumes "i < 32" "j < 32" and "vpt s1 (fd_vpn i) = Some (pf, perm)" and "r1 < 0 \<or> map_ok s1 = [] \<or> \<not> hd (map_ok s1)"
  shows "\<exists>r bs. r < 0 \<and> (if r1 < 0 then (r1, s1)
      else sc_map (INDEX2FD (int i)) (INDEX2FD (int j)) q s1) = (r, s1\<lparr>map_ok := bs\<rparr>)"
proof (cases "r1 < 0")
  case True
  then show ?thesis by (intro exI[of _ r1] exI[of _ "map_ok s1"]) simp
next
  case False
  then show ?thesis using assms by (cases "map_ok s1") (auto simp: sc_map_def intro: exI[of _ "[]"])
qed

text \<open>
  C25. \<open>dup\<close> from an open descriptor to a closed one either returns the new number, and then the new
  descriptor is an alias of the old one: same descriptor page, so same offset and device, same data
  pages, each with one more reference, and nothing else changed; or it returns an error of the kernel and
  leaves the mappings and reference counts as they were. It succeeds when the kernel has memory.
\<close>

theorem dup_correct:
  assumes ij: "i < 32" "j < 32" "i \<noteq> j" and old: "vpt s (fd_vpn i) \<noteq> None" and new: "vpt s (fd_vpn j) = None"
    and newd: "\<forall>k < 1024. vpt s (data_vpn j k) = None"
  shows "\<exists>r s'. dup devtab (int i) (int j) s = Ret (r, s') \<and> fds s' = fds s \<and>
    (r = int j \<and> aliased i j s s' \<or> r < 0 \<and> vpt s' = vpt s \<and> pp_ref s' = pp_ref s) \<and>
    (1025 \<le> length (map_ok s) \<longrightarrow> (\<forall>b \<in> set (map_ok s). b) \<longrightarrow> r = int j)"
proof -
  let ?ks = "[0..<1024 :: nat]"
  obtain pf perm where old: "vpt s (fd_vpn i) = Some (pf, perm)" using old by auto
  have ks: "distinct ?ks" "set ?ks \<subseteq> {..<1024}" "\<forall>k \<in> set ?ks. vpt s (data_vpn j k) = None" "length ?ks = 1024"
    using newd unfolding set_upt by auto
  obtain r1 s1 where d: "dup_pages ?ks (INDEX2DATA (int i)) (INDEX2DATA (int j)) s = (r1, s1)" by fastforce
  from dup_pages_ok[OF ij ks(1-3) d, of 1] obtain D where D: "D \<subseteq> set ?ks" "copied i j D s s1"
    "r1 < 0 \<or> r1 = 0 \<and> D = {k \<in> set ?ks. vpt s (data_vpn i k) \<noteq> None}"
    "1025 \<le> length (map_ok s) \<longrightarrow> (\<forall>b \<in> set (map_ok s). b) \<longrightarrow> r1 = 0 \<and> 1 \<le> length (map_ok s1) \<and> (\<forall>b \<in> set (map_ok s1). b)"
    unfolding ks(4) by auto
  have D': "D \<subseteq> {..<1024}" using D(1) ks(2) by blast
  have fdi: "vpt s1 (fd_vpn i) = Some (pf, perm)" "vpt s1 (fd_vpn j) = None"
    using D(2) D' old new ij fd_data_vpn by (auto simp: copied_def image_iff subset_eq)
  note start = dup_start[OF ij(1,2) new old d fdi(1), of devtab]
  show ?thesis
  proof (cases "r1 < 0 \<or> map_ok s1 = [] \<or> \<not> hd (map_ok s1)")
    case True
    obtain r bs where r: "r < 0" and "(if r1 < 0 then (r1, s1)
        else sc_map (INDEX2FD (int i)) (INDEX2FD (int j)) (perm AND (PTE_D OR PTE_LIBRARY)) s1) = (r, s1\<lparr>map_ok := bs\<rparr>)"
      using dup_fails[OF ij(1,2) fdi(1) True] by blast
    then have "dup devtab (int i) (int j) s =
        Ret (r, snd (sc_unmap (INDEX2FD (int j)) (undo_pages ?ks (INDEX2DATA (int j)) (s1\<lparr>map_ok := bs\<rparr>))))"
      unfolding start by (simp del: upt_rec_numeral)
    moreover have "\<not> (1025 \<le> length (map_ok s) \<and> (\<forall>b \<in> set (map_ok s). b))"
      using D(4) True by (cases "map_ok s1") auto
    ultimately show ?thesis using r undo_dup[OF ij(1,2) D' D(2) new newd, of bs] by blast
  next
    case False
    then obtain bs where m: "map_ok s1 = True # bs" by (cases "map_ok s1") auto
    let ?s = "s1\<lparr>map_ok := bs, vpt := (vpt s1)(fd_vpn j := shared (vpt s (fd_vpn i))), pp_ref := (pp_ref s1)(pf := pp_ref s1 pf + 1)\<rparr>"
    have "dup devtab (int i) (int j) s = Ret (int j, ?s)"
      unfolding start using False fdi ij m old by (simp add: sc_map_def map_fresh Let_def del: upt_rec_numeral)
    moreover have "D = {k. k < 1024 \<and> vpt s (data_vpn i k) \<noteq> None}" using False D(3) unfolding set_upt by auto
    from copied_aliased[OF ij(1,2) this D(2) old newd] have "aliased i j s ?s" .
    moreover have "fds ?s = fds s" using D(2) by (simp add: copied_def)
    ultimately show ?thesis by blast
  qed
qed

text \<open>A descriptor with one data page, duplicated from 0 to 5.\<close>

definition demo_ust :: ust where
  "demo_ust = \<lparr>vpt = (\<lambda>_. None)(fd_vpn 0 \<mapsto> (10, PTE_D OR PTE_LIBRARY OR PTE_V), data_vpn 0 0 \<mapsto> (11, PTE_D OR PTE_LIBRARY OR PTE_V)),
     fds = (\<lambda>_. \<lparr>fd_dev_id = 99, fd_offset = 0, fd_omode = O_RDWR\<rparr>), pp_ref = (\<lambda>_. 0)(10 := 1, 11 := 1), new_pages = [Some 12, Some 13, Some 14, None],
     map_ok = replicate 2000 True, ulog = [], keys = [104, 0, 105, 4, 33]\<rparr>"

theorem dup_correct_witness:
  "\<exists>s'. dup [devcons] 0 5 demo_ust = Ret (5, s') \<and> aliased 0 5 demo_ust s'"
proof -
  have "vpt demo_ust (fd_vpn 0) \<noteq> None" using fd_data_vpn[of 0 0 0] by (simp add: demo_ust_def)
  moreover have "vpt demo_ust (fd_vpn 5) = None"
    using fd_vpn_eq[of 5 0] fd_data_vpn[of 5 0 0] by (simp add: demo_ust_def)
  moreover have "\<forall>k < 1024. vpt demo_ust (data_vpn 5 k) = None"
  proof (intro allI impI)
    fix k :: nat assume "k < 1024"
    then show "vpt demo_ust (data_vpn 5 k) = None"
      using not_sym[OF fd_data_vpn[of 0 5 k]] data_vpn_eq[of 5 0 k 0] by (simp add: demo_ust_def)
  qed
  moreover have "1025 \<le> length (map_ok demo_ust)" "\<forall>b \<in> set (map_ok demo_ust). b" by (simp_all add: demo_ust_def)
  ultimately show ?thesis using dup_correct[of 0 5 demo_ust "[devcons]"] by auto
qed

section \<open>Reading a given number of bytes\<close>

text \<open>
  The contract of a source of bytes: a read of at least one byte returns a nonempty first part of what is
  left, or nothing at the end. \<open>readn\<close> relies on it alone.
\<close>

locale byte_source =
  fixes ok :: "'s \<Rightarrow> bool" and rest :: "'s \<Rightarrow> u8 list"
    and rd :: "nat \<Rightarrow> 's \<Rightarrow> ((int \<times> u8 list) \<times> 's) res"
  assumes read_some: "ok s \<Longrightarrow> 0 < k \<Longrightarrow> k < 2 ^ 32 \<Longrightarrow>
    \<exists>bs s'. rd k s = Ret ((int (length bs), bs), s') \<and> length bs \<le> k \<and>
      (if bs = [] then rest s = [] else ok s' \<and> rest s = bs @ rest s')"
begin

lemma readn_all:
  "ok s \<Longrightarrow> left < 2 ^ 32 \<Longrightarrow>
   \<exists>s'. readn_loop rd left got s = Ret ((int (length got + min left (length (rest s))), got @ take left (rest s)), s')"
proof (induction left arbitrary: got s rule: less_induct)
  case (less left)
  show ?case
  proof (cases "left = 0")
    case True
    then show ?thesis by (subst readn_loop.simps) simp
  next
    case False
    then obtain bs s' where r: "rd left s = Ret ((int (length bs), bs), s')" "length bs \<le> left"
      "if bs = [] then rest s = [] else ok s' \<and> rest s = bs @ rest s'"
      using read_some[OF less.prems(1) _ less.prems(2)] by blast
    show ?thesis
    proof (cases "bs = []")
      case True
      then show ?thesis using r False by (subst readn_loop.simps) simp
    next
      case nonempty: False
      have "left - length bs < left" "left - length bs < 2 ^ 32" using nonempty r(2) less.prems(2) False by auto
      with less.IH[OF this(1) _ this(2), of s' "got @ bs"] r nonempty show ?thesis
        using False by (subst readn_loop.simps) (auto simp: min_def)
    qed
  qed
qed

end

text \<open>An open console with an end-of-file character to come, and the characters before it.\<close>

definition cons_ok :: "ust dev list \<Rightarrow> nat \<Rightarrow> ust \<Rightarrow> bool" where
  "cons_ok devtab i s \<longleftrightarrow> i < MAXFD \<and> find (\<lambda>d. dev_id d = 99) devtab = Some devcons \<and> 4 \<in> set (keys s) \<and>
     (case vpt s (fd_vpn i) of None \<Rightarrow> False | Some (p, _) \<Rightarrow> fd_dev_id (fds s p) = 99 \<and> fd_omode (fds s p) AND O_ACCMODE \<noteq> O_WRONLY)"

definition typed :: "ust \<Rightarrow> u8 list" where
  "typed s = takeWhile (\<lambda>c. c \<noteq> 4) (filter (\<lambda>c. c \<noteq> 0) (keys s))"

lemma keys_split:
  assumes "4 \<in> set ks"
  obtains c cs where "dropWhile (\<lambda>c. c = 0) ks = c # cs" and "c \<noteq> (0 :: u8)" and "c \<noteq> 4 \<Longrightarrow> 4 \<in> set cs"
    and "filter (\<lambda>c. c \<noteq> 0) ks = c # filter (\<lambda>c. c \<noteq> 0) cs"
  using assms
proof (induction ks)
  case (Cons a ks)
  then show ?case by (cases "a = 0") auto
qed simp

lemma cons_read_some:
  assumes "cons_ok devtab i s" and "0 < k" and "k < 2 ^ 32"
  shows "\<exists>bs s'. read_file devtab (int i) (of_nat k) s = Ret ((int (length bs), bs), s') \<and> length bs \<le> k \<and>
    (if bs = [] then typed s = [] else cons_ok devtab i s' \<and> typed s = bs @ typed s')"
proof -
  obtain p q where p: "vpt s (fd_vpn i) = Some (p, q)" "fd_dev_id (fds s p) = 99" "fd_omode (fds s p) AND O_ACCMODE \<noteq> O_WRONLY"
    using assms(1) by (auto simp: cons_ok_def split: option.splits)
  have i: "i < 32" "find (\<lambda>d. dev_id d = 99) devtab = Some devcons" "4 \<in> set (keys s)" using assms(1) by (auto simp: cons_ok_def)
  obtain c cs where k: "dropWhile (\<lambda>c. c = 0) (keys s) = c # cs" "c \<noteq> 0" "c \<noteq> 4 \<Longrightarrow> 4 \<in> set cs"
    "filter (\<lambda>c. c \<noteq> 0) (keys s) = c # filter (\<lambda>c. c \<noteq> 0) cs"
    using keys_split[OF i(3)] by metis
  have n: "(of_nat k :: u32) \<noteq> 0" using assms(2,3) by (metis unat_small unat_0 less_numeral_extra(3))
  have "read_file devtab (int i) (of_nat k) s = rbind (cons_read (INDEX2FD (int i)) (of_nat k) (fd_offset (fds s p)) s)
      (\<lambda>((r, bs), s). rbind (add_offset (INDEX2FD (int i)) r s) (\<lambda>s. Ret ((r, bs), s)))"
    using p i by (simp add: read_file_def with_dev_def fd_lookup_def get_fd_def dev_lookup_def devcons_def)
  also have "\<dots> = (if c = 4 then Ret ((0, []), s\<lparr>keys := cs, ulog := ulog s @ [char_of (unat c)]\<rparr>) else
      Ret ((1, [c]), s\<lparr>keys := cs, ulog := ulog s @ (if c \<noteq> 13 then [char_of (unat c)] else [CHR 0x0A]),
        fds := (fds s)(p := (fds s p)\<lparr>fd_offset := fd_offset (fds s p) + 1\<rparr>)\<rparr>))"
    using p k n by (simp add: cons_read_def add_offset_def get_fd_def set_fd_def Let_def)
  finally show ?thesis
    using p i k assms(2) by (auto simp: cons_ok_def typed_def)
qed

interpretation cons: byte_source "cons_ok devtab i" typed "\<lambda>k. read_file devtab (int i) (of_nat k)" for devtab i
  by unfold_locales (rule cons_read_some)

text \<open>
  \<open>readn\<close> on an open console returns what is typed before the end-of-file character, or the first \<open>n\<close>
  characters of it, although the device gives one character at a time; it does return.
\<close>

theorem readn_console:
  assumes "cons_ok devtab i s"
  shows "\<exists>s'. readn devtab (int i) n s = Ret ((int (min (unat n) (length (typed s))), take (unat n) (typed s)), s')"
  using cons.readn_all[OF assms, of "unat n" "[]"] unat_lt32[of n] by (simp add: readn_def)

theorem readn_console_witness:
  "\<exists>s'. readn [devcons] 0 80 demo_ust = Ret ((2, [104, 105]), s')"
proof -
  have "cons_ok [devcons] 0 demo_ust"
    using fd_data_vpn[of 0 0 0] by (simp add: cons_ok_def demo_ust_def devcons_def)
  from readn_console[OF this, of 80] show ?thesis by (simp add: typed_def demo_ust_def)
qed

end
