(* ===== verification/Pipe.thy ===== *)
theory Pipe
  imports Prelude "HOL-Library.Sublist"
begin

text \<open>
  Pipes, \<^verbatim>\<open>user/lib/pipe.c\<close>: the transfer of bytes between one environment in \<open>pipe_read\<close> and one in
  \<open>pipe_write\<close> that share the page of a \<open>struct Pipe\<close>, interleaved at every access to it, and the test
  whether the other end is closed, which compares reference counts that the other environments change
  meanwhile. \<open>cur\<close> is the environment on the processor; \<open>runs\<close> is its \<open>env_runs\<close>, which \<open>env_run\<close> increments
  at each switch and which is taken not to wrap around within one round of the loop of \<open>_pipe_is_closed\<close>.
  Descriptors are closed and duplicated in two halves, as the code does it: the descriptor page and the
  page of the pipe. \<open>sent\<close> and \<open>got\<close> are the bytes of all calls so far.
\<close>

section \<open>State\<close>

definition BY2PIPE :: nat where [simp]: "BY2PIPE = 32"

record pipe =
  p_rpos :: u32
  p_wpos :: u32
  p_buf :: "nat \<Rightarrow> u8"

datatype who = Reader | Writer | Other

text \<open>The places in \<open>_pipe_is_closed\<close>, with the local variables \<open>runs\<close>, \<open>fd_ref\<close> and \<open>pipe_ref\<close> that are set there.\<close>

datatype chk = Chk_runs | Chk_fd nat | Chk_pipe nat nat | Chk_loop nat nat nat

datatype pc = For | While | Check chk | Copy | Inc | Return int

record call =
  pc :: pc
  ci :: nat
  cn :: u32
  cbuf :: "nat \<Rightarrow> u8"

record psys =
  pipe :: pipe
  rd_ref :: nat
  wr_ref :: nat
  pg_ref :: nat
  cur :: who
  runs :: "who \<Rightarrow> nat"
  rd :: call
  wr :: call
  r_open :: bool
  w_open :: bool
  closing :: nat
  dup_rd :: nat
  dup_wr :: nat
  forking :: nat
  sent :: "u8 list"
  got :: "u8 list"

section \<open>Operations\<close>

text \<open>One step of \<open>_pipe_is_closed\<close>: the next place, or the answer.\<close>

fun pipe_is_closed_step :: "nat \<Rightarrow> nat \<Rightarrow> nat \<Rightarrow> chk \<Rightarrow> chk + bool" where
  "pipe_is_closed_step env_runs fdr pgr Chk_runs = Inl (Chk_fd env_runs)"
| "pipe_is_closed_step env_runs fdr pgr (Chk_fd r) = Inl (Chk_pipe r fdr)"
| "pipe_is_closed_step env_runs fdr pgr (Chk_pipe r f) = Inl (Chk_loop r f pgr)"
| "pipe_is_closed_step env_runs fdr pgr (Chk_loop r f p) =
     (if r \<noteq> env_runs then Inl Chk_runs else Inr (f = p))"

definition pipe_read_step :: "psys \<Rightarrow> psys" where
  "pipe_read_step s = (let c = rd s; p = pipe s in case pc c of
     For \<Rightarrow> if ci c < unat (cn c) then s\<lparr>rd := c\<lparr>pc := While\<rparr>\<rparr> else s\<lparr>rd := c\<lparr>pc := Return (sint (cn c))\<rparr>\<rparr>
   | While \<Rightarrow> if p_rpos p = p_wpos p then s\<lparr>rd := c\<lparr>pc := Check Chk_runs\<rparr>\<rparr> else s\<lparr>rd := c\<lparr>pc := Copy\<rparr>\<rparr>
   | Check k \<Rightarrow> (case pipe_is_closed_step (runs s Reader) (rd_ref s) (pg_ref s) k of
       Inl k' \<Rightarrow> s\<lparr>rd := c\<lparr>pc := Check k'\<rparr>\<rparr>
     | Inr closed \<Rightarrow> if closed \<or> 0 < ci c then s\<lparr>rd := c\<lparr>pc := Return (int (ci c))\<rparr>\<rparr>
         else s\<lparr>rd := c\<lparr>pc := While\<rparr>\<rparr>)
   | Copy \<Rightarrow> s\<lparr>rd := c\<lparr>cbuf := (cbuf c)(ci c := p_buf p (unat (p_rpos p) mod BY2PIPE)), pc := Inc\<rparr>\<rparr>
   | Inc \<Rightarrow> s\<lparr>pipe := p\<lparr>p_rpos := p_rpos p + 1\<rparr>, rd := c\<lparr>ci := ci c + 1, pc := For\<rparr>, got := got s @ [cbuf c (ci c)]\<rparr>
   | Return v \<Rightarrow> s)"

definition pipe_write_step :: "psys \<Rightarrow> psys" where
  "pipe_write_step s = (let c = wr s; p = pipe s in case pc c of
     For \<Rightarrow> if ci c < unat (cn c) then s\<lparr>wr := c\<lparr>pc := While\<rparr>\<rparr> else s\<lparr>wr := c\<lparr>pc := Return (sint (cn c))\<rparr>\<rparr>
   | While \<Rightarrow> if p_wpos p - p_rpos p = of_nat BY2PIPE then s\<lparr>wr := c\<lparr>pc := Check Chk_runs\<rparr>\<rparr> else s\<lparr>wr := c\<lparr>pc := Copy\<rparr>\<rparr>
   | Check k \<Rightarrow> (case pipe_is_closed_step (runs s Writer) (wr_ref s) (pg_ref s) k of
       Inl k' \<Rightarrow> s\<lparr>wr := c\<lparr>pc := Check k'\<rparr>\<rparr>
     | Inr closed \<Rightarrow> if closed then s\<lparr>wr := c\<lparr>pc := Return (int (ci c))\<rparr>\<rparr> else s\<lparr>wr := c\<lparr>pc := While\<rparr>\<rparr>)
   | Copy \<Rightarrow> s\<lparr>pipe := p\<lparr>p_buf := (p_buf p)(unat (p_wpos p) mod BY2PIPE := cbuf c (ci c))\<rparr>, wr := c\<lparr>pc := Inc\<rparr>\<rparr>
   | Inc \<Rightarrow> s\<lparr>pipe := p\<lparr>p_wpos := p_wpos p + 1\<rparr>, wr := c\<lparr>ci := ci c + 1, pc := For\<rparr>, sent := sent s @ [cbuf c (ci c)]\<rparr>
   | Return v \<Rightarrow> s)"

text \<open>The environment on the processor is not inside a call on the pipe.\<close>

definition returned :: "call \<Rightarrow> bool" where
  "returned c = (case pc c of Return _ \<Rightarrow> True | _ \<Rightarrow> False)"

definition outside :: "psys \<Rightarrow> bool" where
  "outside s = (case cur s of Reader \<Rightarrow> returned (rd s) | Writer \<Rightarrow> returned (wr s) | Other \<Rightarrow> True)"

section \<open>Interleaving\<close>

text \<open>
  The steps of the system. Closing (\<open>pipe_close\<close>) unmaps the descriptor and then the pipe; \<open>dup\<close> maps the pipe
  and then the descriptor; \<open>fork\<close>, which goes through the pages in the order of their addresses, maps the
  descriptor and then the pipe. The parameter says whether forks are among the steps.
\<close>

inductive pstep :: "bool \<Rightarrow> psys \<Rightarrow> psys \<Rightarrow> bool" for forks where
  switch: "pstep forks s (s\<lparr>cur := w, runs := (runs s)(w := runs s w + 1)\<rparr>)"
| read: "cur s = Reader \<Longrightarrow> pstep forks s (pipe_read_step s)"
| writ: "cur s = Writer \<Longrightarrow> pstep forks s (pipe_write_step s)"
| call_read: "cur s = Reader \<Longrightarrow> returned (rd s) \<Longrightarrow> r_open s \<Longrightarrow> unat k < 2 ^ 31 \<Longrightarrow>
    pstep forks s (s\<lparr>rd := \<lparr>pc = For, ci = 0, cn = k, cbuf = b\<rparr>\<rparr>)"
| call_write: "cur s = Writer \<Longrightarrow> returned (wr s) \<Longrightarrow> w_open s \<Longrightarrow> unat k < 2 ^ 31 \<Longrightarrow>
    pstep forks s (s\<lparr>wr := \<lparr>pc = For, ci = 0, cn = k, cbuf = b\<rparr>\<rparr>)"
| close_own_rd: "cur s = Reader \<Longrightarrow> returned (rd s) \<Longrightarrow> r_open s \<Longrightarrow>
    pstep forks s (s\<lparr>r_open := False, rd_ref := rd_ref s - 1, closing := closing s + 1\<rparr>)"
| close_own_wr: "cur s = Writer \<Longrightarrow> returned (wr s) \<Longrightarrow> w_open s \<Longrightarrow>
    pstep forks s (s\<lparr>w_open := False, wr_ref := wr_ref s - 1, closing := closing s + 1\<rparr>)"
| close_rd: "cur s = Other \<Longrightarrow> of_bool (r_open s) < rd_ref s \<Longrightarrow>
    pstep forks s (s\<lparr>rd_ref := rd_ref s - 1, closing := closing s + 1\<rparr>)"
| close_wr: "cur s = Other \<Longrightarrow> of_bool (w_open s) < wr_ref s \<Longrightarrow>
    pstep forks s (s\<lparr>wr_ref := wr_ref s - 1, closing := closing s + 1\<rparr>)"
| close_pipe: "outside s \<Longrightarrow> 0 < closing s \<Longrightarrow> 0 < pg_ref s \<Longrightarrow>
    pstep forks s (s\<lparr>pg_ref := pg_ref s - 1, closing := closing s - 1\<rparr>)"
| dup_pipe_rd: "outside s \<Longrightarrow> 0 < rd_ref s \<Longrightarrow>
    pstep forks s (s\<lparr>pg_ref := pg_ref s + 1, dup_rd := dup_rd s + 1\<rparr>)"
| dup_pipe_wr: "outside s \<Longrightarrow> 0 < wr_ref s \<Longrightarrow>
    pstep forks s (s\<lparr>pg_ref := pg_ref s + 1, dup_wr := dup_wr s + 1\<rparr>)"
| dup_fd_rd: "outside s \<Longrightarrow> 0 < dup_rd s \<Longrightarrow>
    pstep forks s (s\<lparr>rd_ref := rd_ref s + 1, dup_rd := dup_rd s - 1\<rparr>)"
| dup_fd_wr: "outside s \<Longrightarrow> 0 < dup_wr s \<Longrightarrow>
    pstep forks s (s\<lparr>wr_ref := wr_ref s + 1, dup_wr := dup_wr s - 1\<rparr>)"
| fork_fd_rd: "forks \<Longrightarrow> outside s \<Longrightarrow> 0 < rd_ref s \<Longrightarrow>
    pstep forks s (s\<lparr>rd_ref := rd_ref s + 1, forking := forking s + 1\<rparr>)"
| fork_fd_wr: "forks \<Longrightarrow> outside s \<Longrightarrow> 0 < wr_ref s \<Longrightarrow>
    pstep forks s (s\<lparr>wr_ref := wr_ref s + 1, forking := forking s + 1\<rparr>)"
| fork_pipe: "outside s \<Longrightarrow> 0 < forking s \<Longrightarrow>
    pstep forks s (s\<lparr>pg_ref := pg_ref s + 1, forking := forking s - 1\<rparr>)"

definition idle :: call where
  "idle = \<lparr>pc = Return 0, ci = 0, cn = 0, cbuf = (\<lambda>_. 0)\<rparr>"

text \<open>After \<open>pipe\<close>, with one environment at each end; the page of the pipe is zero.\<close>

definition pipe_init :: psys where
  "pipe_init = \<lparr>pipe = \<lparr>p_rpos = 0, p_wpos = 0, p_buf = (\<lambda>_. 0)\<rparr>, rd_ref = 1, wr_ref = 1, pg_ref = 2,
     cur = Reader, runs = (\<lambda>_. 0), rd = idle, wr = idle, r_open = True, w_open = True,
     closing = 0, dup_rd = 0, dup_wr = 0, forking = 0, sent = [], got = []\<rparr>"

inductive preach :: "bool \<Rightarrow> psys \<Rightarrow> bool" for forks where
  init: "preach forks pipe_init"
| step: "preach forks s \<Longrightarrow> pstep forks s s' \<Longrightarrow> preach forks s'"

section \<open>The bytes in the pipe\<close>

definition used :: "pipe \<Rightarrow> nat" where
  "used p = unat (p_wpos p - p_rpos p)"

definition queue :: "pipe \<Rightarrow> u8 list" where
  "queue p = map (\<lambda>k. p_buf p (unat (p_rpos p + of_nat k) mod BY2PIPE)) [0..<used p]"

lemma slot: "unat (r + of_nat k :: u32) mod 32 = (unat r + k) mod 32"
proof -
  have "unat (r + of_nat k) = (unat r + k) mod 2 ^ 32" by (simp add: unat_word_ariths unat_of_nat mod_add_right_eq)
  moreover have "(unat r + k) mod 2 ^ 32 mod 32 = (unat r + k) mod 32" by (rule mod_mod_cancel) simp
  ultimately show ?thesis by simp
qed

lemma wpos_eq: "p_wpos p = p_rpos p + of_nat (used p)"
  by (simp add: used_def)

lemma unat_ahead: "unat (w - r :: u32) < 32 \<Longrightarrow> unat (w + 1 - r) = unat (w - r) + 1"
proof -
  assume "unat (w - r) < 32"
  moreover have "w + 1 - r = (w - r) + 1" by simp
  ultimately show ?thesis by (simp only:) (subst unat_add_lem[THEN iffD1], simp_all)
qed

lemma unat_behind: "w \<noteq> (r :: u32) \<Longrightarrow> unat (w - (r + 1)) = unat (w - r) - 1"
proof -
  have "w - (r + 1) = (w - r) - 1" by simp
  moreover assume "w \<noteq> r"
  ultimately show ?thesis by (simp only:) (rule unat_minus_one, simp)
qed

lemma used_put: "used p < 32 \<Longrightarrow> used (p\<lparr>p_wpos := p_wpos p + 1\<rparr>) = used p + 1"
  by (simp add: used_def unat_ahead)

lemma used_get: "0 < used p \<Longrightarrow> used (p\<lparr>p_rpos := p_rpos p + 1\<rparr>) = used p - 1"
  using unat_behind[of "p_wpos p" "p_rpos p"] by (cases "p_wpos p = p_rpos p") (simp_all add: used_def)

lemma used_0: "used p = 0 \<longleftrightarrow> p_rpos p = p_wpos p"
  by (auto simp: used_def unat_eq_zero)

lemma used_full: "p_wpos p - p_rpos p = 32 \<longleftrightarrow> used p = 32"
  by (auto simp: used_def word_unat_eq_iff)

lemma other_slot: "k < (m :: nat) \<Longrightarrow> m < 32 \<Longrightarrow> (r + k) mod 32 \<noteq> (r + m) mod 32"
proof
  assume k: "k < m" "m < 32" and "(r + k) mod 32 = (r + m) mod 32"
  then have "(32 :: nat) dvd (r + m) - (r + k)" by (metis add_less_cancel_left less_imp_le mod_eq_dvd_iff_nat)
  then show False using k by (auto dest: dvd_imp_le)
qed

lemma queue_frame:
  assumes "used p < 32" shows "queue (p\<lparr>p_buf := (p_buf p)(unat (p_wpos p) mod 32 := b)\<rparr>) = queue p"
proof -
  have w: "unat (p_wpos p) mod 32 = (unat (p_rpos p) + used p) mod 32"
    by (subst wpos_eq) (rule slot)
  show ?thesis
    unfolding queue_def w BY2PIPE_def slot
    by (rule map_cong) (auto simp: used_def dest: other_slot[OF _ assms[unfolded used_def]])
qed

lemma queue_put:
  assumes "used p < 32"
  shows "queue (p\<lparr>p_wpos := p_wpos p + 1\<rparr>) = queue p @ [p_buf p (unat (p_wpos p) mod 32)]"
  unfolding queue_def used_put[OF assms] using wpos_eq[of p] by simp

lemma queue_get:
  assumes "0 < used p"
  shows "queue p = p_buf p (unat (p_rpos p) mod 32) # queue (p\<lparr>p_rpos := p_rpos p + 1\<rparr>)"
proof -
  have "[0..<used p] = 0 # map Suc [0..<used p - 1]"
    using assms by (simp add: map_Suc_upt upt_conv_Cons)
  then show ?thesis
    unfolding queue_def used_get[OF assms] by (simp add: o_def ac_simps)
qed

section \<open>First in, first out\<close>

text \<open>What a call has done at each of its places; \<open>moved\<close> are the bytes that all its calls moved so far.\<close>

definition call_ok :: "call \<Rightarrow> u8 list \<Rightarrow> bool" where
  "call_ok c moved \<longleftrightarrow> suffix (map (cbuf c) [0..<ci c]) moved \<and> ci c \<le> unat (cn c) \<and> unat (cn c) < 2 ^ 31 \<and>
     (case pc c of For \<Rightarrow> True | Return v \<Rightarrow> v = int (ci c) | _ \<Rightarrow> ci c < unat (cn c))"

definition rd_ok :: "psys \<Rightarrow> bool" where
  "rd_ok s \<longleftrightarrow> call_ok (rd s) (got s) \<and>
     (pc (rd s) = Copy \<longrightarrow> 0 < used (pipe s)) \<and>
     (pc (rd s) = Inc \<longrightarrow> 0 < used (pipe s) \<and> cbuf (rd s) (ci (rd s)) = hd (queue (pipe s)))"

definition wr_ok :: "psys \<Rightarrow> bool" where
  "wr_ok s \<longleftrightarrow> call_ok (wr s) (sent s) \<and>
     (pc (wr s) = Copy \<longrightarrow> used (pipe s) < 32) \<and>
     (pc (wr s) = Inc \<longrightarrow> used (pipe s) < 32 \<and>
        p_buf (pipe s) (unat (p_wpos (pipe s)) mod 32) = cbuf (wr s) (ci (wr s)))"

definition fifo_ok :: "psys \<Rightarrow> bool" where
  "fifo_ok s \<longleftrightarrow> used (pipe s) \<le> 32 \<and> sent s = got s @ queue (pipe s) \<and> rd_ok s \<and> wr_ok s"

lemma suffix_snoc2: "suffix xs ys \<Longrightarrow> suffix (xs @ [x]) (ys @ [x])"
  by (auto simp: suffix_def)

lemma call_ok_copy: "call_ok c m \<Longrightarrow> pc c = Copy \<Longrightarrow> call_ok (c\<lparr>cbuf := (cbuf c)(ci c := b), pc := Inc\<rparr>) m"
proof -
  assume "call_ok c m" "pc c = Copy"
  moreover have "map ((cbuf c)(ci c := b)) [0..<ci c] = map (cbuf c) [0..<ci c]" by simp
  ultimately show ?thesis by (simp add: call_ok_def)
qed

lemma call_ok_inc: "call_ok c m \<Longrightarrow> pc c = Inc \<Longrightarrow> call_ok (c\<lparr>ci := ci c + 1, pc := For\<rparr>) (m @ [cbuf c (ci c)])"
  by (auto simp: call_ok_def intro: suffix_snoc2)

lemma call_ok_start: "unat k < 2 ^ 31 \<Longrightarrow> call_ok \<lparr>pc = For, ci = 0, cn = k, cbuf = b\<rparr> m"
  by (simp add: call_ok_def)

lemma call_ok_return: "call_ok c m \<Longrightarrow> pc c = Return v \<Longrightarrow> nat v \<le> unat (cn c) \<and> suffix (map (cbuf c) [0..<nat v]) m"
  by (simp add: call_ok_def)

lemma call_ok_pc:
  "call_ok c m \<Longrightarrow> (case q of For \<Rightarrow> True | Return v \<Rightarrow> v = int (ci c) | _ \<Rightarrow> ci c < unat (cn c)) \<Longrightarrow> call_ok (c\<lparr>pc := q\<rparr>) m"
  by (cases q) (simp_all add: call_ok_def)

lemma call_ok_lt: "call_ok c m \<Longrightarrow> pc c \<noteq> For \<Longrightarrow> \<not> returned c \<Longrightarrow> ci c < unat (cn c)"
  by (simp add: call_ok_def returned_def split: pc.splits)

lemma sint_small: "unat (w :: u32) < 2 ^ 31 \<Longrightarrow> sint w = int (unat w)"
proof -
  assume "unat w < 2 ^ 31"
  then have "int (unat w) < 2 ^ 31" by (metis of_nat_less_iff of_nat_numeral of_nat_power)
  then show ?thesis unfolding sint32 by simp
qed

lemma call_ok_end: "call_ok c m \<Longrightarrow> \<not> ci c < unat (cn c) \<Longrightarrow> call_ok (c\<lparr>pc := Return (sint (cn c))\<rparr>) m"
  by (auto simp: call_ok_def sint_small)

lemmas fifo_defs = fifo_ok_def rd_ok_def wr_ok_def

lemma fifo_ok_read:
  assumes ok: "fifo_ok s" shows "fifo_ok (pipe_read_step s)"
proof (cases "pc (rd s)")
  case For
  with ok show ?thesis by (auto simp: pipe_read_step_def Let_def fifo_defs intro: call_ok_pc call_ok_end)
next
  case While
  with ok show ?thesis using used_0[of "pipe s"] call_ok_lt[of "rd s"]
    by (auto simp: pipe_read_step_def Let_def fifo_defs returned_def intro: call_ok_pc)
next
  case (Check k)
  with ok show ?thesis using call_ok_lt[of "rd s"]
    by (auto simp: pipe_read_step_def Let_def fifo_defs returned_def intro: call_ok_pc split: sum.splits)
next
  case Copy
  with ok show ?thesis
    using queue_get[of "pipe s"] call_ok_copy[OF _ Copy] by (auto simp: pipe_read_step_def Let_def fifo_defs)
next
  case Inc
  let ?p = "(pipe s)\<lparr>p_rpos := p_rpos (pipe s) + 1\<rparr>"
  have u: "0 < used (pipe s)" and h: "cbuf (rd s) (ci (rd s)) = hd (queue (pipe s))"
    using ok Inc by (simp_all add: fifo_defs)
  then have "sent s = (got s @ [cbuf (rd s) (ci (rd s))]) @ queue ?p"
    using ok queue_get[OF u] by (simp add: fifo_ok_def)
  moreover have "used ?p = used (pipe s) - 1" by (rule used_get[OF u])
  ultimately show ?thesis
    using ok Inc call_ok_inc[of "rd s" "got s"] by (auto simp: pipe_read_step_def Let_def fifo_defs)
next
  case (Return v)
  with ok show ?thesis by (simp add: pipe_read_step_def)
qed

lemma fifo_ok_write:
  assumes ok: "fifo_ok s" shows "fifo_ok (pipe_write_step s)"
proof (cases "pc (wr s)")
  case For
  with ok show ?thesis by (auto simp: pipe_write_step_def Let_def fifo_defs intro: call_ok_pc call_ok_end)
next
  case While
  with ok show ?thesis using used_full[of "pipe s"] call_ok_lt[of "wr s"]
    by (auto simp: pipe_write_step_def Let_def fifo_defs returned_def intro: call_ok_pc)
next
  case (Check k)
  with ok show ?thesis using call_ok_lt[of "wr s"]
    by (auto simp: pipe_write_step_def Let_def fifo_defs returned_def intro: call_ok_pc split: sum.splits)
next
  case Copy
  let ?p = "(pipe s)\<lparr>p_buf := (p_buf (pipe s))(unat (p_wpos (pipe s)) mod 32 := cbuf (wr s) (ci (wr s)))\<rparr>"
  have "used (pipe s) < 32" using ok Copy by (simp add: fifo_defs)
  then have "queue ?p = queue (pipe s)" by (rule queue_frame)
  moreover have "used ?p = used (pipe s)" by (simp add: used_def)
  moreover have "call_ok ((wr s)\<lparr>pc := Inc\<rparr>) (sent s)"
    using ok Copy call_ok_lt[of "wr s" "sent s"] by (auto simp: fifo_defs returned_def intro!: call_ok_pc)
  ultimately show ?thesis using ok Copy by (simp add: pipe_write_step_def Let_def fifo_defs)
next
  case Inc
  let ?p = "(pipe s)\<lparr>p_wpos := p_wpos (pipe s) + 1\<rparr>"
  have u: "used (pipe s) < 32" and h: "p_buf (pipe s) (unat (p_wpos (pipe s)) mod 32) = cbuf (wr s) (ci (wr s))"
    using ok Inc by (simp_all add: fifo_defs)
  have q: "queue ?p = queue (pipe s) @ [cbuf (wr s) (ci (wr s))]" using queue_put[OF u] h by simp
  have "used ?p = used (pipe s) + 1" by (rule used_put[OF u])
  moreover have "0 < used (pipe s) \<Longrightarrow> queue (pipe s) \<noteq> []" by (simp add: queue_def)
  ultimately show ?thesis
    using ok Inc u q call_ok_inc[of "wr s" "sent s"] by (auto simp: pipe_write_step_def Let_def fifo_defs)
next
  case (Return v)
  with ok show ?thesis by (simp add: pipe_write_step_def)
qed

lemma fifo_ok_init: "fifo_ok pipe_init"
  by (simp add: fifo_defs pipe_init_def idle_def call_ok_def used_def queue_def)

lemma fifo_ok_step: "pstep forks s s' \<Longrightarrow> fifo_ok s \<Longrightarrow> fifo_ok s'"
  by (induction rule: pstep.induct)
    (simp_all only: fifo_ok_read fifo_ok_write, auto simp: fifo_defs call_ok_start)

lemma fifo_ok_reach: "preach forks s \<Longrightarrow> fifo_ok s"
  by (induction rule: preach.induct) (auto intro: fifo_ok_init fifo_ok_step)

text \<open>
  C23. Whatever the interleaving of a reader and a writer, and also when the 32-bit positions wrap around, the
  pipe is a queue: the bytes received so far are the first of the bytes sent, the others are the at
  most \<open>BY2PIPE\<close> bytes between the two positions, and a read or write that has returned \<open>v\<close> has moved
  exactly the \<open>v\<close> bytes of its buffer, at most as many as asked for.
\<close>

theorem pipe_fifo:
  assumes "preach forks s"
  shows "sent s = got s @ queue (pipe s) \<and> length (queue (pipe s)) \<le> BY2PIPE \<and>
    (\<forall>v. pc (rd s) = Return v \<longrightarrow> nat v \<le> unat (cn (rd s)) \<and> suffix (map (cbuf (rd s)) [0..<nat v]) (got s)) \<and>
    (\<forall>v. pc (wr s) = Return v \<longrightarrow> nat v \<le> unat (cn (wr s)) \<and> suffix (map (cbuf (wr s)) [0..<nat v]) (sent s))"
proof -
  have ok: "fifo_ok s" by (rule fifo_ok_reach[OF assms])
  then have "call_ok (rd s) (got s)" "call_ok (wr s) (sent s)" by (auto simp: fifo_defs)
  note r = call_ok_return[OF this(1)] call_ok_return[OF this(2)]
  have "sent s = got s @ queue (pipe s)" "length (queue (pipe s)) \<le> BY2PIPE"
    using ok by (simp_all add: fifo_ok_def queue_def)
  then show ?thesis using r by blast
qed

section \<open>Closed pipes\<close>

text \<open>
  Every open descriptor and every half-done close or \<open>dup\<close> holds the page of the pipe once; an environment inside
  a call has its end open. The values read by the closed test are those of now, as long as the
  environment has not been off the processor.
\<close>

definition refs_ok :: "psys \<Rightarrow> bool" where
  "refs_ok s \<longleftrightarrow> pg_ref s + forking s = rd_ref s + wr_ref s + dup_rd s + dup_wr s + closing s \<and>
     (r_open s \<longrightarrow> 0 < rd_ref s) \<and> (w_open s \<longrightarrow> 0 < wr_ref s) \<and>
     (\<not> returned (rd s) \<longrightarrow> r_open s) \<and> (\<not> returned (wr s) \<longrightarrow> w_open s)"

fun chk_ok :: "bool \<Rightarrow> nat \<Rightarrow> nat \<Rightarrow> nat \<Rightarrow> pc \<Rightarrow> bool" where
  "chk_ok here now fdr pgr (Check (Chk_fd r)) = (r \<le> now)"
| "chk_ok here now fdr pgr (Check (Chk_pipe r f)) = (r \<le> now \<and> (here \<and> r = now \<longrightarrow> f = fdr))"
| "chk_ok here now fdr pgr (Check (Chk_loop r f p)) = (r \<le> now \<and> (here \<and> r = now \<longrightarrow> f = fdr \<and> p = pgr))"
| "chk_ok here now fdr pgr _ = True"

definition rd_chk :: "psys \<Rightarrow> bool" where
  "rd_chk s = chk_ok (cur s = Reader) (runs s Reader) (rd_ref s) (pg_ref s) (pc (rd s))"

definition wr_chk :: "psys \<Rightarrow> bool" where
  "wr_chk s = chk_ok (cur s = Writer) (runs s Writer) (wr_ref s) (pg_ref s) (pc (wr s))"

definition closed_ok :: "psys \<Rightarrow> bool" where
  "closed_ok s \<longleftrightarrow> refs_ok s \<and> rd_chk s \<and> wr_chk s"

lemma chk_ok_away: "chk_ok here now fdr pgr q \<Longrightarrow> chk_ok False now fdr' pgr' q"
  by (induction here now fdr pgr q rule: chk_ok.induct) simp_all

lemma chk_ok_later: "chk_ok here now fdr pgr q \<Longrightarrow> chk_ok here' (Suc now) fdr' pgr' q"
  by (induction here now fdr pgr q rule: chk_ok.induct) simp_all

lemma chk_ok_step:
  "chk_ok True now fdr pgr (Check k) \<Longrightarrow> pipe_is_closed_step now fdr pgr k = Inl k' \<Longrightarrow> chk_ok True now fdr pgr (Check k')"
  by (cases k) (auto split: if_splits)

lemma chk_ok_answer:
  "chk_ok True now fdr pgr (Check k) \<Longrightarrow> pipe_is_closed_step now fdr pgr k = Inr b \<Longrightarrow> b \<longleftrightarrow> fdr = pgr"
  by (cases k) (auto split: if_splits)

lemma chk_ok_returned: "returned c \<Longrightarrow> chk_ok here now fdr pgr (pc c)"
  by (simp add: returned_def split: pc.splits)

lemma chk_outside:
  assumes "outside s"
  shows "chk_ok (cur s = Reader) now fdr pgr (pc (rd s)) \<Longrightarrow> chk_ok (cur s = Reader) now fdr' pgr' (pc (rd s))"
    and "chk_ok (cur s = Writer) now fdr pgr (pc (wr s)) \<Longrightarrow> chk_ok (cur s = Writer) now fdr' pgr' (pc (wr s))"
  using assms chk_ok_away[of _ now fdr pgr _ fdr' pgr'] chk_ok_returned
  by (cases "cur s"; fastforce simp: outside_def)+

lemma refs_ok_step: "pstep forks s s' \<Longrightarrow> refs_ok s \<Longrightarrow> refs_ok s'"
proof (induction rule: pstep.induct)
  case (read s) then show ?case by (auto simp: pipe_read_step_def Let_def refs_ok_def returned_def split: pc.splits sum.splits)
next
  case (writ s) then show ?case by (auto simp: pipe_write_step_def Let_def refs_ok_def returned_def split: pc.splits sum.splits)
qed (auto simp: refs_ok_def)

lemma closed_ok_read:
  assumes ok: "closed_ok s" and cur: "cur s = Reader" shows "closed_ok (pipe_read_step s)"
proof -
  have f: "refs_ok s" "rd_chk s" "wr_chk s" using ok by (simp_all add: closed_ok_def)
  have "wr_chk (pipe_read_step s)"
    using f(3) by (auto simp: pipe_read_step_def Let_def wr_chk_def split: pc.splits sum.splits)
  moreover have "refs_ok (pipe_read_step s)" by (rule refs_ok_step[OF pstep.read[OF cur] f(1)])
  moreover have "rd_chk (pipe_read_step s)"
    using f(2) cur chk_ok_step[of "runs s Reader" "rd_ref s" "pg_ref s"]
    by (auto simp: pipe_read_step_def Let_def rd_chk_def split: pc.splits sum.splits)
  ultimately show ?thesis by (simp add: closed_ok_def)
qed

lemma closed_ok_write:
  assumes ok: "closed_ok s" and cur: "cur s = Writer" shows "closed_ok (pipe_write_step s)"
proof -
  have f: "refs_ok s" "rd_chk s" "wr_chk s" using ok by (simp_all add: closed_ok_def)
  have "rd_chk (pipe_write_step s)"
    using f(2) by (auto simp: pipe_write_step_def Let_def rd_chk_def split: pc.splits sum.splits)
  moreover have "refs_ok (pipe_write_step s)" by (rule refs_ok_step[OF pstep.writ[OF cur] f(1)])
  moreover have "wr_chk (pipe_write_step s)"
    using f(3) cur chk_ok_step[of "runs s Writer" "wr_ref s" "pg_ref s"]
    by (auto simp: pipe_write_step_def Let_def wr_chk_def split: pc.splits sum.splits)
  ultimately show ?thesis by (simp add: closed_ok_def)
qed

text \<open>Steps that change neither a call nor who runs.\<close>

lemma closed_ok_refs:
  assumes "closed_ok s" "outside s" "refs_ok s'" "cur s' = cur s" "runs s' = runs s" "rd s' = rd s" "wr s' = wr s"
  shows "closed_ok s'"
  using assms chk_outside[OF assms(2)] by (auto simp: closed_ok_def rd_chk_def wr_chk_def)

lemma outside_simps [simp]:
  "cur s = Reader \<Longrightarrow> outside s = returned (rd s)" "cur s = Writer \<Longrightarrow> outside s = returned (wr s)" "cur s = Other \<Longrightarrow> outside s"
  by (simp_all add: outside_def)

lemma closed_ok_switch: "closed_ok s \<Longrightarrow> closed_ok (s\<lparr>cur := w, runs := (runs s)(w := runs s w + 1)\<rparr>)"
  by (cases w) (auto simp: closed_ok_def refs_ok_def rd_chk_def wr_chk_def elim!: chk_ok_later chk_ok_away)

lemma closed_ok_step:
  assumes st: "pstep forks s s'" and ok: "closed_ok s" shows "closed_ok s'"
proof -
  have r: "refs_ok s'" using refs_ok_step[OF st] ok by (simp add: closed_ok_def)
  show ?thesis using st
  proof cases
    case (switch w) then show ?thesis using closed_ok_switch[OF ok] by simp
  next
    case read then show ?thesis using closed_ok_read[OF ok] by simp
  next
    case writ then show ?thesis using closed_ok_write[OF ok] by simp
  next
    case call_read then show ?thesis using ok r by (auto simp: closed_ok_def rd_chk_def wr_chk_def)
  next
    case call_write then show ?thesis using ok r by (auto simp: closed_ok_def rd_chk_def wr_chk_def)
  qed (rule closed_ok_refs[OF ok _ r]; simp)+
qed

lemma closed_ok_reach: "preach forks s \<Longrightarrow> closed_ok s"
proof (induction rule: preach.induct)
  case init show ?case
    by (simp add: closed_ok_def refs_ok_def rd_chk_def wr_chk_def pipe_init_def idle_def returned_def)
qed (rule closed_ok_step)

lemma no_forks: "preach False s \<Longrightarrow> forking s = 0"
proof (induction rule: preach.induct)
  case init show ?case by (simp add: pipe_init_def)
next
  case (step s s')
  from step(2,3) show ?case
    by (induction rule: pstep.induct)
      (auto simp: pipe_read_step_def pipe_write_step_def Let_def split: pc.splits sum.splits)
qed

lemma call_steps_keep:
  "wr_ref (pipe_read_step s) = wr_ref s" "rd_ref (pipe_read_step s) = rd_ref s" "dup_wr (pipe_read_step s) = dup_wr s"
  "dup_rd (pipe_read_step s) = dup_rd s" "sent (pipe_read_step s) = sent s"
  "wr_ref (pipe_write_step s) = wr_ref s" "rd_ref (pipe_write_step s) = rd_ref s" "dup_wr (pipe_write_step s) = dup_wr s"
  "dup_rd (pipe_write_step s) = dup_rd s" "got (pipe_write_step s) = got s"
  "returned (rd s) \<Longrightarrow> pipe_read_step s = s" "returned (wr s) \<Longrightarrow> pipe_write_step s = s"
  unfolding pipe_read_step_def pipe_write_step_def returned_def Let_def
  by (auto split: pc.split sum.split)

lemma closed_step:
  assumes "preach False s" and "pstep False s s'"
  shows "wr_ref s = 0 \<Longrightarrow> dup_wr s = 0 \<Longrightarrow> wr_ref s' = 0 \<and> dup_wr s' = 0 \<and> sent s' = sent s"
    and "rd_ref s = 0 \<Longrightarrow> dup_rd s = 0 \<Longrightarrow> rd_ref s' = 0 \<and> dup_rd s' = 0 \<and> got s' = got s"
proof -
  have ok: "refs_ok s" using closed_ok_reach[OF assms(1)] by (simp add: closed_ok_def)
  have f: "forking s = 0" by (rule no_forks[OF assms(1)])
  {
    assume z: "wr_ref s = 0" "dup_wr s = 0"
    then have w: "returned (wr s)" "\<not> w_open s" using ok by (auto simp: refs_ok_def)
    from assms(2) show "wr_ref s' = 0 \<and> dup_wr s' = 0 \<and> sent s' = sent s"
      by cases (use z w f in \<open>simp_all add: call_steps_keep\<close>)
  next
    assume z: "rd_ref s = 0" "dup_rd s = 0"
    then have w: "returned (rd s)" "\<not> r_open s" using ok by (auto simp: refs_ok_def)
    from assms(2) show "rd_ref s' = 0 \<and> dup_rd s' = 0 \<and> got s' = got s"
      by cases (use z w f in \<open>simp_all add: call_steps_keep\<close>)
  }
qed

lemma closed_for_good:
  assumes "preach False s" and "(pstep False)\<^sup>*\<^sup>* s s'"
  shows "wr_ref s = 0 \<Longrightarrow> dup_wr s = 0 \<Longrightarrow> wr_ref s' = 0 \<and> sent s' = sent s"
    and "rd_ref s = 0 \<Longrightarrow> dup_rd s = 0 \<Longrightarrow> rd_ref s' = 0 \<and> got s' = got s"
proof -
  from assms(2) have "preach False s' \<and> (wr_ref s = 0 \<longrightarrow> dup_wr s = 0 \<longrightarrow> wr_ref s' = 0 \<and> dup_wr s' = 0 \<and> sent s' = sent s) \<and>
    (rd_ref s = 0 \<longrightarrow> dup_rd s = 0 \<longrightarrow> rd_ref s' = 0 \<and> dup_rd s' = 0 \<and> got s' = got s)"
  proof induction
    case base
    show ?case using assms(1) by simp
  next
    case (step y z)
    then have y: "preach False y" by blast
    show ?case using preach.step[OF y step(2)] closed_step[OF y step(2)] step(3) by auto
  qed
  then show "wr_ref s = 0 \<Longrightarrow> dup_wr s = 0 \<Longrightarrow> wr_ref s' = 0 \<and> sent s' = sent s"
    "rd_ref s = 0 \<Longrightarrow> dup_rd s = 0 \<Longrightarrow> rd_ref s' = 0 \<and> got s' = got s" by blast+
qed

text \<open>No environment is between the two halves of a close or of a \<open>dup\<close>.\<close>

definition settled :: "psys \<Rightarrow> bool" where
  "settled s \<longleftrightarrow> closing s = 0 \<and> dup_rd s = 0 \<and> dup_wr s = 0"

text \<open>
  C24. What the answer of \<open>_pipe_is_closed\<close> means, at the moment it is given and as long as nobody forks,
  although the function reads the two reference counts one after the other. A yes is never wrong: no
  environment has the other end open, and in no later state does one have it or move a byte
  through it. When no close or \<open>dup\<close> is half done the answer is exactly whether the other end is closed. While
  one is half done the answer is no, also when the other end is closed already: the caller asks again.
\<close>

theorem pipe_is_closed_exact:
  assumes "preach False s"
  shows "(cur s = Reader \<longrightarrow> pc (rd s) = Check k \<longrightarrow>
      pipe_is_closed_step (runs s Reader) (rd_ref s) (pg_ref s) k = Inr answer \<longrightarrow>
      (answer \<longrightarrow> wr_ref s = 0 \<and> (\<forall>s'. (pstep False)\<^sup>*\<^sup>* s s' \<longrightarrow> wr_ref s' = 0 \<and> sent s' = sent s)) \<and>
      (settled s \<longrightarrow> (answer \<longleftrightarrow> wr_ref s = 0)) \<and> (\<not> settled s \<longrightarrow> \<not> answer)) \<and>
    (cur s = Writer \<longrightarrow> pc (wr s) = Check k \<longrightarrow>
      pipe_is_closed_step (runs s Writer) (wr_ref s) (pg_ref s) k = Inr answer \<longrightarrow>
      (answer \<longrightarrow> rd_ref s = 0 \<and> (\<forall>s'. (pstep False)\<^sup>*\<^sup>* s s' \<longrightarrow> rd_ref s' = 0 \<and> got s' = got s)) \<and>
      (settled s \<longrightarrow> (answer \<longleftrightarrow> rd_ref s = 0)) \<and> (\<not> settled s \<longrightarrow> \<not> answer))"
proof -
  have ok: "refs_ok s" "rd_chk s" "wr_chk s" and f: "forking s = 0"
    using closed_ok_reach[OF assms] no_forks[OF assms] by (simp_all add: closed_ok_def)
  have r: "answer \<longleftrightarrow> wr_ref s = 0 \<and> settled s"
    if "cur s = Reader" "pc (rd s) = Check k" "pipe_is_closed_step (runs s Reader) (rd_ref s) (pg_ref s) k = Inr answer"
    using ok f that by (auto simp: settled_def rd_chk_def wr_chk_def refs_ok_def dest!: chk_ok_answer)
  have w: "answer \<longleftrightarrow> rd_ref s = 0 \<and> settled s"
    if "cur s = Writer" "pc (wr s) = Check k" "pipe_is_closed_step (runs s Writer) (wr_ref s) (pg_ref s) k = Inr answer"
    using ok f that by (auto simp: settled_def rd_chk_def wr_chk_def refs_ok_def dest!: chk_ok_answer)
  have d: "dup_wr s = 0" "dup_rd s = 0" if "settled s" using that by (simp_all add: settled_def)
  show ?thesis using r w d closed_for_good[OF assms] by blast
qed

section \<open>Reading without interruption\<close>

definition after_byte :: "psys \<Rightarrow> psys" where
  "after_byte s = s\<lparr>pipe := (pipe s)\<lparr>p_rpos := p_rpos (pipe s) + 1\<rparr>,
     rd := (rd s)\<lparr>cbuf := (cbuf (rd s))(ci (rd s) := p_buf (pipe s) (unat (p_rpos (pipe s)) mod BY2PIPE)), ci := ci (rd s) + 1, pc := For\<rparr>,
     got := got s @ [p_buf (pipe s) (unat (p_rpos (pipe s)) mod BY2PIPE)]\<rparr>"

lemma read_steps:
  "pc (rd s) = For \<Longrightarrow> ci (rd s) < unat (cn (rd s)) \<Longrightarrow> pipe_read_step s = s\<lparr>rd := (rd s)\<lparr>pc := While\<rparr>\<rparr>"
  "pc (rd s) = While \<Longrightarrow> used (pipe s) = 0 \<Longrightarrow> pipe_read_step s = s\<lparr>rd := (rd s)\<lparr>pc := Check Chk_runs\<rparr>\<rparr>"
  "pc (rd s) = While \<Longrightarrow> 0 < used (pipe s) \<Longrightarrow> pipe_read_step s = s\<lparr>rd := (rd s)\<lparr>pc := Copy\<rparr>\<rparr>"
  "pc (rd s) = Check Chk_runs \<Longrightarrow> pipe_read_step s = s\<lparr>rd := (rd s)\<lparr>pc := Check (Chk_fd (runs s Reader))\<rparr>\<rparr>"
  "pc (rd s) = Check (Chk_fd r) \<Longrightarrow> pipe_read_step s = s\<lparr>rd := (rd s)\<lparr>pc := Check (Chk_pipe r (rd_ref s))\<rparr>\<rparr>"
  "pc (rd s) = Check (Chk_pipe r f) \<Longrightarrow> pipe_read_step s = s\<lparr>rd := (rd s)\<lparr>pc := Check (Chk_loop r f (pg_ref s))\<rparr>\<rparr>"
  "pc (rd s) = Check (Chk_loop r f g) \<Longrightarrow> r = runs s Reader \<Longrightarrow> f = g \<or> 0 < ci (rd s) \<Longrightarrow>
    pipe_read_step s = s\<lparr>rd := (rd s)\<lparr>pc := Return (int (ci (rd s)))\<rparr>\<rparr>"
  using used_0[of "pipe s"] by (auto simp: pipe_read_step_def Let_def)

lemma read_byte:
  assumes "pc (rd s) = For" and "ci (rd s) < unat (cn (rd s))" and "0 < used (pipe s)"
  shows "(pipe_read_step ^^ 4) s = after_byte s"
proof -
  have "(pipe_read_step ^^ 4) s = pipe_read_step (pipe_read_step (s\<lparr>rd := (rd s)\<lparr>pc := Copy\<rparr>\<rparr>))"
    using assms by (simp add: eval_nat_numeral read_steps)
  also have "\<dots> = after_byte s" by (simp add: pipe_read_step_def after_byte_def Let_def)
  finally show ?thesis .
qed

lemma read_empty:
  assumes "pc (rd s) = For" and "ci (rd s) < unat (cn (rd s))" and "used (pipe s) = 0" and "0 < ci (rd s) \<or> rd_ref s = pg_ref s"
  shows "(pipe_read_step ^^ 6) s = s\<lparr>rd := (rd s)\<lparr>pc := Return (int (ci (rd s)))\<rparr>\<rparr>"
  using assms by (auto simp: eval_nat_numeral read_steps)

lemma read_end:
  assumes "fifo_ok s" and "pc (rd s) = For" and "\<not> ci (rd s) < unat (cn (rd s))"
  shows "(pipe_read_step ^^ 1) s = s\<lparr>rd := (rd s)\<lparr>pc := Return (int (ci (rd s)))\<rparr>\<rparr>" and "ci (rd s) = unat (cn (rd s))"
proof -
  show e: "ci (rd s) = unat (cn (rd s))" using assms by (auto simp: fifo_defs call_ok_def)
  have "sint (cn (rd s)) = int (unat (cn (rd s)))" using assms by (intro sint_small) (simp add: fifo_defs call_ok_def)
  then show "(pipe_read_step ^^ 1) s = s\<lparr>rd := (rd s)\<lparr>pc := Return (int (ci (rd s)))\<rparr>\<rparr>"
    using assms(2) e by (simp add: pipe_read_step_def Let_def)
qed

lemma read_runs:
  assumes "fifo_ok s" and "pc (rd s) = For" and "0 < ci (rd s) \<or> rd_ref s = pg_ref s \<or> queue (pipe s) \<noteq> []"
  shows "\<exists>k. pc (rd ((pipe_read_step ^^ k) s)) = Return (int (min (unat (cn (rd s))) (ci (rd s) + length (queue (pipe s))))) \<and>
    got ((pipe_read_step ^^ k) s) = got s @ take (unat (cn (rd s)) - ci (rd s)) (queue (pipe s))"
  using assms
proof (induction "used (pipe s)" arbitrary: s)
  case 0
  show ?case
  proof (cases "ci (rd s) < unat (cn (rd s))")
    case True
    have "queue (pipe s) = []" using 0(1) by (simp add: queue_def)
    then show ?thesis using 0 True read_empty[of s] by (intro exI[of _ 6]) auto
  next
    case False
    show ?thesis by (rule exI[of _ 1], subst (1 2) read_end(1)[OF 0(2,3) False]) (simp add: read_end(2)[OF 0(2,3) False])
  qed
next
  case (Suc u)
  show ?case
  proof (cases "ci (rd s) < unat (cn (rd s))")
    case True
    let ?t = "after_byte s"
    have r: "(pipe_read_step ^^ 4) s = ?t" using Suc.prems Suc.hyps(2) True by (intro read_byte) auto
    have "fifo_ok ((pipe_read_step ^^ k) s)" for k by (induction k) (simp_all add: Suc.prems fifo_ok_read)
    from this[of 4] have ok: "fifo_ok ?t" by (simp only: r)
    have q: "queue (pipe s) = p_buf (pipe s) (unat (p_rpos (pipe s)) mod 32) # queue (pipe ?t)"
      using queue_get[of "pipe s"] Suc.hyps(2) by (simp add: after_byte_def)
    have u: "u = used (pipe ?t)" using used_get[of "pipe s"] Suc.hyps(2) by (simp add: after_byte_def)
    obtain k where
      "pc (rd ((pipe_read_step ^^ k) ?t)) = Return (int (min (unat (cn (rd ?t))) (ci (rd ?t) + length (queue (pipe ?t)))))"
      "got ((pipe_read_step ^^ k) ?t) = got ?t @ take (unat (cn (rd ?t)) - ci (rd ?t)) (queue (pipe ?t))"
      using Suc.hyps(1)[OF u ok] by (auto simp: after_byte_def)
    moreover have "got ?t = got s @ [p_buf (pipe s) (unat (p_rpos (pipe s)) mod 32)]" "cn (rd ?t) = cn (rd s)" "ci (rd ?t) = ci (rd s) + 1"
      by (simp_all add: after_byte_def)
    moreover have "(pipe_read_step ^^ (k + 4)) s = (pipe_read_step ^^ k) ?t" by (simp only: funpow_add o_apply r)
    ultimately show ?thesis using True by (intro exI[of _ "k + 4"]) (simp add: q take_Cons')
  next
    case False
    show ?thesis
      by (rule exI[of _ 1], subst (1 2) read_end(1)[OF Suc.prems(1,2) False]) (simp add: read_end(2)[OF Suc.prems(1,2) False])
  qed
qed

text \<open>
  A reader that starts a call and keeps the processor returns, after finitely many steps, when there is
  something in the pipe or the other end is closed: with the bytes of the pipe, in order, as many as
  asked for if there are so many. With an empty pipe and the other end closed it returns 0.
\<close>

theorem pipe_read_returns:
  assumes "preach forks s" and "pc (rd s) = For" and "ci (rd s) = 0"
    and "queue (pipe s) \<noteq> [] \<or> rd_ref s = pg_ref s"
  shows "\<exists>k. pc (rd ((pipe_read_step ^^ k) s)) = Return (int (min (unat (cn (rd s))) (length (queue (pipe s))))) \<and>
    got ((pipe_read_step ^^ k) s) = got s @ take (unat (cn (rd s))) (queue (pipe s))"
  using read_runs[OF fifo_ok_reach[OF assms(1)] assms(2)] assms(3,4) by auto

section \<open>Schedules\<close>

text \<open>Some of the steps as an executable function, to run particular schedules.\<close>

datatype act = Switch who | Step | Call u32 "nat \<Rightarrow> u8" | Close | Close_pipe | Dup_pipe | Dup_fd | Fork_fd

fun do_act :: "bool \<Rightarrow> act \<Rightarrow> psys \<Rightarrow> psys option" where
  "do_act forks (Switch w) s = Some (s\<lparr>cur := w, runs := (runs s)(w := runs s w + 1)\<rparr>)"
| "do_act forks Step s = (case cur s of Reader \<Rightarrow> Some (pipe_read_step s) | Writer \<Rightarrow> Some (pipe_write_step s) | Other \<Rightarrow> None)"
| "do_act forks (Call k b) s = (if \<not> outside s \<or> 2 ^ 31 \<le> unat k then None
     else case cur s of Reader \<Rightarrow> if r_open s then Some (s\<lparr>rd := \<lparr>pc = For, ci = 0, cn = k, cbuf = b\<rparr>\<rparr>) else None
     | Writer \<Rightarrow> if w_open s then Some (s\<lparr>wr := \<lparr>pc = For, ci = 0, cn = k, cbuf = b\<rparr>\<rparr>) else None
     | Other \<Rightarrow> None)"
| "do_act forks Close s = (if cur s = Writer \<and> returned (wr s) \<and> w_open s
     then Some (s\<lparr>w_open := False, wr_ref := wr_ref s - 1, closing := closing s + 1\<rparr>) else None)"
| "do_act forks Close_pipe s = (if outside s \<and> 0 < closing s \<and> 0 < pg_ref s
     then Some (s\<lparr>pg_ref := pg_ref s - 1, closing := closing s - 1\<rparr>) else None)"
| "do_act forks Dup_pipe s = (if outside s \<and> 0 < rd_ref s then Some (s\<lparr>pg_ref := pg_ref s + 1, dup_rd := dup_rd s + 1\<rparr>) else None)"
| "do_act forks Dup_fd s = (if outside s \<and> 0 < dup_rd s then Some (s\<lparr>rd_ref := rd_ref s + 1, dup_rd := dup_rd s - 1\<rparr>) else None)"
| "do_act forks Fork_fd s = (if forks \<and> outside s \<and> 0 < rd_ref s
     then Some (s\<lparr>rd_ref := rd_ref s + 1, forking := forking s + 1\<rparr>) else None)"

fun play :: "bool \<Rightarrow> act list \<Rightarrow> psys \<Rightarrow> psys option" where
  "play forks [] s = Some s"
| "play forks (a # as) s = (case do_act forks a s of None \<Rightarrow> None | Some s' \<Rightarrow> play forks as s')"

lemma act_pstep: "do_act forks a s = Some s' \<Longrightarrow> pstep forks s s'"
  by (induction forks a s rule: do_act.induct)
    (auto intro: pstep.intros simp del: One_nat_def split: if_splits who.splits)

lemma play_reach: "preach forks s \<Longrightarrow> play forks as s = Some s' \<Longrightarrow> preach forks s'"
  by (induction forks as s rule: play.induct)
    (auto intro: preach.step act_pstep split: option.splits)

text \<open>
  A reader can be told that the pipe is at its end although bytes are waiting in it: it finds the
  pipe empty, is then interrupted by a writer that sends a byte and closes, and asks whether the pipe is
  closed only after that, without looking again for bytes.
\<close>

definition eof_race :: "act list" where
  "eof_race = [Call 1 (\<lambda>_. 0), Step, Step, Switch Writer, Call 1 (\<lambda>_. 7), Step, Step, Step, Step, Step,
     Close, Close_pipe, Switch Reader, Step, Step, Step, Step]"

theorem pipe_eof_race:
  "\<exists>s. preach False s \<and> pc (rd s) = Return 0 \<and> 0 < unat (cn (rd s)) \<and> wr_ref s = 0 \<and> queue (pipe s) = [7]"
proof -
  obtain s where s: "play False eof_race pipe_init = Some s"
    and "pc (rd s) = Return 0" "cn (rd s) = 1" "wr_ref s = 0" "pipe s = \<lparr>p_rpos = 0, p_wpos = 1, p_buf = (\<lambda>_. 0)(0 := 7)\<rparr>"
    by (simp add: eof_race_def pipe_init_def idle_def outside_def returned_def pipe_read_step_def pipe_write_step_def)
  then show ?thesis
    using play_reach[OF preach.init s] by (auto simp: queue_def used_def)
qed

text \<open>
  A reader can be told that the pipe is at its end although a writer has it open, while an environment
  that has the read end forks: \<open>fork\<close> maps the descriptor in the child before the pipe.
\<close>

definition fork_race :: "act list" where
  "fork_race = [Switch Other, Dup_pipe, Dup_fd, Fork_fd, Switch Reader, Call 1 (\<lambda>_. 0),
     Step, Step, Step, Step, Step, Step]"

theorem pipe_fork_race:
  "\<exists>s. preach True s \<and> pc (rd s) = Return 0 \<and> 0 < unat (cn (rd s)) \<and> w_open s"
proof -
  obtain s where s: "play True fork_race pipe_init = Some s" and "pc (rd s) = Return 0" "cn (rd s) = 1" "w_open s"
    by (simp add: fork_race_def pipe_init_def idle_def outside_def returned_def pipe_read_step_def)
  then show ?thesis using play_reach[OF preach.init s] by auto
qed

section \<open>Examples\<close>

lemmas run_simps = pipe_init_def idle_def outside_def returned_def pipe_read_step_def pipe_write_step_def

theorem pipe_fifo_witness: "\<exists>s. play False eof_race pipe_init = Some s \<and> sent s = got s @ queue (pipe s)"
proof -
  obtain s where s: "play False eof_race pipe_init = Some s" by (simp add: eof_race_def run_simps)
  then show ?thesis using pipe_fifo[OF play_reach[OF preach.init s]] by blast
qed

theorem pipe_is_closed_exact_witness:
  "\<exists>s. play False (butlast eof_race) pipe_init = Some s \<and> pc (rd s) = Check (Chk_loop 1 1 1) \<and> wr_ref s = 0"
proof -
  obtain s where s: "play False (butlast eof_race) pipe_init = Some s" and c: "cur s = Reader" "pc (rd s) = Check (Chk_loop 1 1 1)"
    and a: "pipe_is_closed_step (runs s Reader) (rd_ref s) (pg_ref s) (Chk_loop 1 1 1) = Inr True"
    by (simp add: eof_race_def run_simps)
  have "wr_ref s = 0" using pipe_is_closed_exact[OF play_reach[OF preach.init s], of "Chk_loop 1 1 1" True] c a by blast
  with s c show ?thesis by blast
qed

definition one_byte :: "act list" where
  "one_byte = [Switch Writer, Call 1 (\<lambda>_. 7), Step, Step, Step, Step, Step, Switch Reader, Call 4 (\<lambda>_. 0)]"

theorem pipe_read_returns_witness:
  "\<exists>s k. play False one_byte pipe_init = Some s \<and> pc (rd ((pipe_read_step ^^ k) s)) = Return 1 \<and>
     got ((pipe_read_step ^^ k) s) = [7]"
proof -
  obtain s where s: "play False one_byte pipe_init = Some s" and c: "pc (rd s) = For" "ci (rd s) = 0" "cn (rd s) = 4" "got s = []"
    and p: "pipe s = \<lparr>p_rpos = 0, p_wpos = 1, p_buf = (\<lambda>_. 0)(0 := 7)\<rparr>"
    by (simp add: one_byte_def run_simps)
  have q: "queue (pipe s) = [7]" by (simp add: p queue_def used_def)
  show ?thesis using s pipe_read_returns[OF play_reach[OF preach.init s] c(1,2)] by (auto simp: q c)
qed

end
