(* ===== verification/PipeFd.thy ===== *)
theory PipeFd
  imports FdProps Pipe
begin

text \<open>
  The creation and closing of pipes, \<^verbatim>\<open>user/lib/pipe.c\<close>, on the descriptors of \<open>Fd\<close>: \<open>pipe\<close> with its four
  error exits, \<open>pipe_close\<close>, \<open>pipe_is_closed\<close> and the device table entry. The transfer of bytes is in
  \<open>Pipe\<close>; a new page is zero, so the positions of a new pipe are both 0.
\<close>

definition pipe_dev_id :: u32 where "pipe_dev_id = 112"









definition pipe_close :: "u32 \<Rightarrow> 'a ust_scheme \<Rightarrow> (int \<times> 'a ust_scheme) res" where
  "pipe_close va s = (let s = snd (sc_unmap va s) in Ret (0, snd (sc_unmap (fd2data va) s)))"

definition pipe_stat :: "u32 \<Rightarrow> stat \<Rightarrow> 'a ust_scheme \<Rightarrow> ((int \<times> stat) \<times> 'a ust_scheme) res" where
  "pipe_stat va st s = Ret ((0, st), s)"

text \<open>\<open>pipe_is_closed\<close>, without interruption: then the counts are read once.\<close>

definition pipe_is_closed :: "int \<Rightarrow> 'a ust_scheme \<Rightarrow> int" where
  "pipe_is_closed fdnum s =
     (let (r, va) = fd_lookup fdnum s in if r < 0 then r else of_bool (pageref va s = pageref (fd2data va) s))"

section \<open>A new pipe\<close>



text \<open>The pages that \<open>pipe\<close> has mapped so far, in order; its error exits unmap them in the reverse order.\<close>

definition pipe_perm :: u32 where "pipe_perm = (PTE_D OR PTE_LIBRARY) OR PTE_V"







definition piped :: "nat \<Rightarrow> nat \<Rightarrow> 'a ust_scheme \<Rightarrow> 'a ust_scheme \<Rightarrow> bool" where
  "piped i j s s' \<longleftrightarrow> (\<exists>p0 p1 pp. distinct [p0, p1, pp] \<and>
     vpt s' = (vpt s)(fd_vpn i \<mapsto> (p0, pipe_perm), fd_vpn j \<mapsto> (p1, pipe_perm),
       VPN (INDEX2DATA (int i)) \<mapsto> (pp, pipe_perm), VPN (INDEX2DATA (int j)) \<mapsto> (pp, pipe_perm)) \<and>
     pp_ref s' = (pp_ref s)(p0 := 1, p1 := 1, pp := 2) \<and>
     fds s' p0 = \<lparr>fd_dev_id = pipe_dev_id, fd_offset = 0, fd_omode = O_RDONLY\<rparr> \<and>
     fds s' p1 = \<lparr>fd_dev_id = pipe_dev_id, fd_offset = 0, fd_omode = O_WRONLY\<rparr>)"

lemmas vpn0 = data_vpn_eq[of _ _ 0 0, simplified] fd_data_vpn[of _ _ 0, simplified] not_sym[OF fd_data_vpn[of _ _ 0], simplified]









text \<open>
  A new pipe is open at both ends, and its reference counts are those of the initial state of the
  transfer of bytes; after \<open>pipe_close\<close> of one end the test of the other end says closed.
\<close>

theorem new_pipe_open:
  assumes "piped i j s s'" and "i < 31" "j < 31" "i \<noteq> j"
  shows "pageref (INDEX2FD (int i)) s' = rd_ref pipe_init \<and> pageref (INDEX2FD (int j)) s' = wr_ref pipe_init \<and>
    pageref (INDEX2DATA (int i)) s' = pg_ref pipe_init \<and> pipe_is_closed (int i) s' = 0 \<and> pipe_is_closed (int j) s' = 0 \<and>
    (\<exists>t. pipe_close (INDEX2FD (int j)) s' = Ret (0, t) \<and> pipe_is_closed (int i) t = 1 \<and> pipe_is_closed (int j) t = - E_INVAL)"
proof -
  obtain p0 p1 pp where d: "distinct [p0, p1, pp]" and v: "vpt s' = (vpt s)(fd_vpn i \<mapsto> (p0, pipe_perm), fd_vpn j \<mapsto> (p1, pipe_perm),
       VPN (INDEX2DATA (int i)) \<mapsto> (pp, pipe_perm), VPN (INDEX2DATA (int j)) \<mapsto> (pp, pipe_perm))"
    and p: "pp_ref s' = (pp_ref s)(p0 := 1, p1 := 1, pp := 2)"
    using assms(1) by (auto simp: piped_def)
  have l: "\<not> is_illegal_va (INDEX2DATA (int j))" using legal_data[of j 0] assms by simp
  have e: "vpt s' (fd_vpn i) = Some (p0, pipe_perm)" "vpt s' (fd_vpn j) = Some (p1, pipe_perm)"
    "vpt s' (VPN (INDEX2DATA (int i))) = Some (pp, pipe_perm)" "vpt s' (VPN (INDEX2DATA (int j))) = Some (pp, pipe_perm)"
    using assms by (simp_all add: v vpn0 fd_vpn_eq)
  show ?thesis
    using assms d l e
    by (simp add: pageref_def p pipe_init_def pipe_is_closed_def fd_lookup_def pipe_close_def sc_unmap_def put_page_def vpn0 fd_vpn_eq)
qed


definition demo_pipe :: ust where
  "demo_pipe = demo_ust\<lparr>
     vpt := (vpt demo_ust)(fd_vpn 1 \<mapsto> (12, pipe_perm), fd_vpn 2 \<mapsto> (13, pipe_perm),
       VPN (INDEX2DATA (int 1)) \<mapsto> (14, pipe_perm), VPN (INDEX2DATA (int 2)) \<mapsto> (14, pipe_perm)),
     pp_ref := (pp_ref demo_ust)(12 := 1, 13 := 1, 14 := 2),
     fds := (fds demo_ust)(12 := \<lparr>fd_dev_id = pipe_dev_id, fd_offset = 0, fd_omode = O_RDONLY\<rparr>,
       13 := \<lparr>fd_dev_id = pipe_dev_id, fd_offset = 0, fd_omode = O_WRONLY\<rparr>)\<rparr>"

theorem new_pipe_open_witness:
  "pipe_is_closed 1 demo_pipe = 0 \<and> (\<exists>t. pipe_close (INDEX2FD 2) demo_pipe = Ret (0, t) \<and> pipe_is_closed 1 t = 1)"
proof -
  have "piped 1 2 demo_ust demo_pipe"
    unfolding piped_def by (rule exI[of _ 12], rule exI[of _ 13], rule exI[of _ 14]) (simp add: demo_pipe_def)
  from new_pipe_open[OF this] show ?thesis by auto
qed

end
