(* ===== verification/Ide.thy ===== *)
theory Ide
  imports Syscall Strings
begin

text \<open>
  The disk driver, \<^verbatim>\<open>fs/ide.c\<close>, on the registers of the disk device. The device is a parameter: what a
  write to a register does to it and what a read returns. \<open>disk_contract\<close> states the behaviour that
  \<^verbatim>\<open>include/drivers/dev_disk.h\<close> gives it. Each access is a system call with the checks of \<open>sys_write_dev\<close>
  and \<open>sys_read_dev\<close>. The loops compare 32-bit offsets and are partial functions; that they
  return is proved.
\<close>

definition BY2SECT :: nat where [simp]: "BY2SECT = 512"
definition DEV_DISK_ADDRESS :: u32 where "DEV_DISK_ADDRESS = 0x13000000"
definition DEV_DISK_OFFSET :: u32 where "DEV_DISK_OFFSET = 0x0000"
definition DEV_DISK_ID :: u32 where "DEV_DISK_ID = 0x0010"
definition DEV_DISK_START_OPERATION :: u32 where "DEV_DISK_START_OPERATION = 0x0020"
definition DEV_DISK_STATUS :: u32 where "DEV_DISK_STATUS = 0x0030"
definition DEV_DISK_BUFFER :: u32 where "DEV_DISK_BUFFER = 0x4000"
definition DEV_DISK_OPERATION_READ :: u32 where "DEV_DISK_OPERATION_READ = 0"
definition DEV_DISK_OPERATION_WRITE :: u32 where "DEV_DISK_OPERATION_WRITE = 1"

lemmas disk_regs = DEV_DISK_ADDRESS_def DEV_DISK_OFFSET_def DEV_DISK_ID_def DEV_DISK_START_OPERATION_def
  DEV_DISK_STATUS_def DEV_DISK_BUFFER_def

record 'd disk_dev =
  d_write :: "u32 \<Rightarrow> u8 list \<Rightarrow> 'd \<Rightarrow> 'd"
  d_read :: "u32 \<Rightarrow> nat \<Rightarrow> 'd \<Rightarrow> u8 list \<times> 'd"

section \<open>The driver\<close>

definition word_bytes :: "u32 \<Rightarrow> u8 list" where
  "word_bytes w = [ucast w, ucast (drop_bit 8 w), ucast (drop_bit 16 w), ucast (drop_bit 24 w)]"

definition read_mem :: "u32 \<Rightarrow> nat \<Rightarrow> mem \<Rightarrow> u8 list" where
  "read_mem va k m = map (\<lambda>j. m (unat va + j)) [0..<k]"

definition write_mem :: "u32 \<Rightarrow> u8 list \<Rightarrow> mem \<Rightarrow> mem" where
  "write_mem va bs m = (\<lambda>a. if unat va \<le> a \<and> a < unat va + length bs then bs ! (a - unat va) else m a)"

text \<open>\<open>panic_on\<close> of the system calls; \<open>va\<close> is the address of the data.\<close>

definition write_dev :: "'d disk_dev \<Rightarrow> u32 \<Rightarrow> u8 list \<Rightarrow> u32 \<Rightarrow> 'd \<Rightarrow> 'd res" where
  "write_dev dv va bs pa d =
     (if is_illegal_va_range va (of_nat (length bs)) \<or> \<not> dev_range_ok pa (of_nat (length bs)) then Panic ''syscall_write_dev returned %d''
      else Ret (d_write dv pa bs d))"

definition read_dev :: "'d disk_dev \<Rightarrow> u32 \<Rightarrow> nat \<Rightarrow> u32 \<Rightarrow> 'd \<Rightarrow> (u8 list \<times> 'd) res" where
  "read_dev dv va k pa d =
     (if is_illegal_va_range va (of_nat k) \<or> \<not> dev_range_ok pa (of_nat k) then Panic ''syscall_read_dev returned %d''
      else Ret (d_read dv pa k d))"

text \<open>One round of the loops; \<open>tmp\<close> is the address of the local variable \<open>temp\<close>.\<close>

definition read_sect :: "'d disk_dev \<Rightarrow> u32 \<Rightarrow> u32 \<Rightarrow> u32 \<Rightarrow> u32 \<Rightarrow> mem \<times> 'd \<Rightarrow> (mem \<times> 'd) res" where
  "read_sect dv tmp diskno pos va = (\<lambda>(m, d).
     rbind (write_dev dv tmp (word_bytes diskno) (DEV_DISK_ADDRESS + DEV_DISK_ID) d) (\<lambda>d.
     rbind (write_dev dv tmp (word_bytes pos) (DEV_DISK_ADDRESS + DEV_DISK_OFFSET) d) (\<lambda>d.
     rbind (write_dev dv tmp (word_bytes DEV_DISK_OPERATION_READ) (DEV_DISK_ADDRESS + DEV_DISK_START_OPERATION) d) (\<lambda>d.
     rbind (read_dev dv tmp 4 (DEV_DISK_ADDRESS + DEV_DISK_STATUS) d) (\<lambda>(temp, d).
     if list_all (\<lambda>b. b = 0) temp then Panic ''ide read fail!''
     else rbind (read_dev dv va 512 (DEV_DISK_ADDRESS + DEV_DISK_BUFFER) d) (\<lambda>(bs, d). Ret (write_mem va bs m, d)))))))"

definition write_sect :: "'d disk_dev \<Rightarrow> u32 \<Rightarrow> u32 \<Rightarrow> u32 \<Rightarrow> u32 \<Rightarrow> mem \<times> 'd \<Rightarrow> (mem \<times> 'd) res" where
  "write_sect dv tmp diskno pos va = (\<lambda>(m, d).
     rbind (write_dev dv tmp (word_bytes diskno) (DEV_DISK_ADDRESS + DEV_DISK_ID) d) (\<lambda>d.
     rbind (write_dev dv tmp (word_bytes pos) (DEV_DISK_ADDRESS + DEV_DISK_OFFSET) d) (\<lambda>d.
     rbind (write_dev dv va (read_mem va 512 m) (DEV_DISK_ADDRESS + DEV_DISK_BUFFER) d) (\<lambda>d.
     rbind (write_dev dv tmp (word_bytes DEV_DISK_OPERATION_WRITE) (DEV_DISK_ADDRESS + DEV_DISK_START_OPERATION) d) (\<lambda>d.
     rbind (read_dev dv tmp 4 (DEV_DISK_ADDRESS + DEV_DISK_STATUS) d) (\<lambda>(temp, d).
     if list_all (\<lambda>b. b = 0) temp then Panic ''ide write fail!'' else Ret (m, d)))))))"

partial_function (option) sect_loop :: "(u32 \<Rightarrow> 's \<Rightarrow> 's res) \<Rightarrow> u32 \<Rightarrow> u32 \<Rightarrow> u32 \<Rightarrow> 's \<Rightarrow> 's res option" where
  "sect_loop round start fin off s =
     (if start + off < fin
      then case round off s of Ret s \<Rightarrow> sect_loop round start fin (off + of_nat BY2SECT) s
        | Panic e \<Rightarrow> Some (Panic e) | Fault e \<Rightarrow> Some (Fault e)
      else Some (Ret s))"

definition ide_read :: "'d disk_dev \<Rightarrow> u32 \<Rightarrow> u32 \<Rightarrow> u32 \<Rightarrow> u32 \<Rightarrow> u32 \<Rightarrow> mem \<times> 'd \<Rightarrow> (mem \<times> 'd) res option" where
  "ide_read dv tmp diskno secno dst nsecs s =
     (let start = secno * of_nat BY2SECT; fin = start + nsecs * of_nat BY2SECT
      in sect_loop (\<lambda>off. read_sect dv tmp diskno (start + off) (dst + off)) start fin 0 s)"

definition ide_write :: "'d disk_dev \<Rightarrow> u32 \<Rightarrow> u32 \<Rightarrow> u32 \<Rightarrow> u32 \<Rightarrow> u32 \<Rightarrow> mem \<times> 'd \<Rightarrow> (mem \<times> 'd) res option" where
  "ide_write dv tmp diskno secno src nsecs s =
     (let start = secno * of_nat BY2SECT; fin = start + nsecs * of_nat BY2SECT
      in sect_loop (\<lambda>off. write_sect dv tmp diskno (start + off) (src + off)) start fin 0 s)"

section \<open>The device\<close>

text \<open>What can be seen of the device: its registers, its buffer, its sectors by disk and byte offset.\<close>

record 'd disk_view =
  v_id :: "'d \<Rightarrow> u32"
  v_off :: "'d \<Rightarrow> u32"
  v_buf :: "'d \<Rightarrow> u8 list"
  v_status :: "'d \<Rightarrow> bool"
  v_sect :: "'d \<Rightarrow> u32 \<times> u32 \<Rightarrow> u8 list"

text \<open>
  A write to the identifier, offset or buffer sets it; starting an operation on a sector that exists moves the
  sector to the buffer or the buffer to the sector and makes the status nonzero; reading changes
  nothing.
\<close>

definition disk_contract :: "'d disk_dev \<Rightarrow> 'd disk_view \<Rightarrow> (u32 \<times> u32) set \<Rightarrow> bool" where
  "disk_contract dv w sects \<longleftrightarrow>
     (\<forall>d x. let d' = d_write dv (DEV_DISK_ADDRESS + DEV_DISK_ID) (word_bytes x) d
        in v_id w d' = x \<and> v_off w d' = v_off w d \<and> v_sect w d' = v_sect w d) \<and>
     (\<forall>d x. let d' = d_write dv (DEV_DISK_ADDRESS + DEV_DISK_OFFSET) (word_bytes x) d
        in v_id w d' = v_id w d \<and> v_off w d' = x \<and> v_sect w d' = v_sect w d) \<and>
     (\<forall>d bs. length bs = 512 \<longrightarrow> (let d' = d_write dv (DEV_DISK_ADDRESS + DEV_DISK_BUFFER) bs d
        in v_id w d' = v_id w d \<and> v_off w d' = v_off w d \<and> v_buf w d' = bs \<and> v_sect w d' = v_sect w d)) \<and>
     (\<forall>d. let d' = d_write dv (DEV_DISK_ADDRESS + DEV_DISK_START_OPERATION) (word_bytes DEV_DISK_OPERATION_READ) d; p = (v_id w d, v_off w d)
        in v_sect w d' = v_sect w d \<and> (v_status w d' \<longleftrightarrow> p \<in> sects) \<and> (p \<in> sects \<longrightarrow> v_buf w d' = v_sect w d p)) \<and>
     (\<forall>d. let d' = d_write dv (DEV_DISK_ADDRESS + DEV_DISK_START_OPERATION) (word_bytes DEV_DISK_OPERATION_WRITE) d; p = (v_id w d, v_off w d)
        in (v_status w d' \<longleftrightarrow> p \<in> sects) \<and> v_sect w d' = (if p \<in> sects then (v_sect w d)(p := v_buf w d) else v_sect w d)) \<and>
     (\<forall>d. \<exists>bs d'. d_read dv (DEV_DISK_ADDRESS + DEV_DISK_STATUS) 4 d = (bs, d') \<and> (v_status w d \<longleftrightarrow> \<not> list_all (\<lambda>b. b = 0) bs) \<and>
        v_buf w d' = v_buf w d \<and> v_sect w d' = v_sect w d) \<and>
     (\<forall>d. \<exists>d'. d_read dv (DEV_DISK_ADDRESS + DEV_DISK_BUFFER) 512 d = (v_buf w d, d') \<and> v_sect w d' = v_sect w d) \<and>
     (\<forall>d p. length (v_sect w d p) = 512)"

section \<open>Correctness\<close>

text \<open>The addresses the driver uses pass the kernel's checks.\<close>

lemma disk_ranges:
  "dev_range_ok (DEV_DISK_ADDRESS + DEV_DISK_ID) 4" "dev_range_ok (DEV_DISK_ADDRESS + DEV_DISK_OFFSET) 4"
  "dev_range_ok (DEV_DISK_ADDRESS + DEV_DISK_START_OPERATION) 4" "dev_range_ok (DEV_DISK_ADDRESS + DEV_DISK_STATUS) 4"
  "dev_range_ok (DEV_DISK_ADDRESS + DEV_DISK_BUFFER) 512"
  by (simp_all add: dev_range_ok_def disk_regs)

definition user_range :: "u32 \<Rightarrow> nat \<Rightarrow> bool" where
  "user_range va k \<longleftrightarrow> unat UTEMP \<le> unat va \<and> unat va + k \<le> unat UTOP"

lemma unat_add_of_nat: "unat (w :: u32) + k < 2 ^ 32 \<Longrightarrow> unat (w + of_nat k) = unat w + k"
  by (simp add: unat_word_ariths unat_of_nat mod_simps)

lemma user_range_legal: "user_range va k \<Longrightarrow> \<not> is_illegal_va_range va (of_nat k)"
proof -
  assume r: "user_range va k"
  then have "unat (va + of_nat k) = unat va + k"
    using unat_lt32[of UTOP] by (intro unat_add_of_nat) (simp add: user_range_def)
  then show ?thesis using r by (auto simp: user_range_def is_illegal_va_range_def word_less_nat_alt)
qed

lemma sect_loop_rounds:
  assumes start: "unat start = 512 * a" and fin: "unat fin = 512 * (a + c)"
    and round: "\<And>k s. k < c \<Longrightarrow> I k s \<Longrightarrow> \<exists>s'. round (of_nat (512 * k)) s = Ret s' \<and> I (Suc k) s'"
  shows "k \<le> c \<Longrightarrow> I k s \<Longrightarrow> \<exists>s'. sect_loop round start fin (of_nat (512 * k)) s = Some (Ret s') \<and> I c s'"
proof (induction "c - k" arbitrary: k s)
  case 0
  then have "k = c" by simp
  have "unat (start + of_nat (512 * k)) = unat start + 512 * k"
    using unat_lt32[of fin] fin start \<open>k = c\<close> by (intro unat_add_of_nat) simp
  then have "\<not> start + of_nat (512 * k) < fin" using start fin \<open>k = c\<close> by (simp only: word_less_nat_alt) simp
  then show ?case using 0 \<open>k = c\<close> by (subst sect_loop.simps) (simp only: if_False, simp)
next
  case (Suc x)
  then have k: "k < c" by simp
  have "unat (start + of_nat (512 * k)) = unat start + 512 * k"
    using unat_lt32[of fin] fin start k by (intro unat_add_of_nat) simp
  then have lt: "start + of_nat (512 * k) < fin" using start fin k by (simp only: word_less_nat_alt) simp
  obtain s' where s': "round (of_nat (512 * k)) s = Ret s'" "I (Suc k) s'" using round[OF k Suc.prems(2)] by blast
  have e: "of_nat (512 * k) + of_nat BY2SECT = (of_nat (512 * Suc k) :: u32)" by (simp add: algebra_simps)
  have "sect_loop round start fin (of_nat (512 * k)) s = sect_loop round start fin (of_nat (512 * Suc k)) s'"
    by (subst sect_loop.simps) (simp only: lt s'(1) e if_True res.case)
  then show ?case using Suc.hyps(1)[of "Suc k" s'] Suc.hyps(2) k s'(2) by simp
qed

lemma device_calls:
  assumes "user_range tmp 4"
  shows "pa \<in> {DEV_DISK_ADDRESS + DEV_DISK_ID, DEV_DISK_ADDRESS + DEV_DISK_OFFSET, DEV_DISK_ADDRESS + DEV_DISK_START_OPERATION} \<Longrightarrow>
      write_dev dv tmp (word_bytes x) pa d = Ret (d_write dv pa (word_bytes x) d)"
    and "read_dev dv tmp 4 (DEV_DISK_ADDRESS + DEV_DISK_STATUS) d = Ret (d_read dv (DEV_DISK_ADDRESS + DEV_DISK_STATUS) 4 d)"
    and "user_range va 512 \<Longrightarrow> read_dev dv va 512 (DEV_DISK_ADDRESS + DEV_DISK_BUFFER) d =
      Ret (d_read dv (DEV_DISK_ADDRESS + DEV_DISK_BUFFER) 512 d)"
    and "user_range va 512 \<Longrightarrow> length bs = 512 \<Longrightarrow> write_dev dv va bs (DEV_DISK_ADDRESS + DEV_DISK_BUFFER) d =
      Ret (d_write dv (DEV_DISK_ADDRESS + DEV_DISK_BUFFER) bs d)"
  using user_range_legal[OF assms] user_range_legal[of va 512] disk_ranges
  by (auto simp: write_dev_def read_dev_def word_bytes_def)

lemma read_sect_ok:
  assumes c: "disk_contract dv w sects" and r: "user_range tmp 4" "user_range va 512" and p: "(diskno, pos) \<in> sects"
  shows "\<exists>d'. read_sect dv tmp diskno pos va (m, d) = Ret (write_mem va (v_sect w d (diskno, pos)) m, d') \<and> v_sect w d' = v_sect w d"
proof -
  define d1 where "d1 = d_write dv (DEV_DISK_ADDRESS + DEV_DISK_ID) (word_bytes diskno) d"
  define d2 where "d2 = d_write dv (DEV_DISK_ADDRESS + DEV_DISK_OFFSET) (word_bytes pos) d1"
  define d3 where "d3 = d_write dv (DEV_DISK_ADDRESS + DEV_DISK_START_OPERATION) (word_bytes DEV_DISK_OPERATION_READ) d2"
  have 2: "v_id w d2 = diskno" "v_off w d2 = pos" "v_sect w d2 = v_sect w d"
    using c unfolding disk_contract_def d1_def d2_def Let_def by simp_all
  have 3: "v_sect w d3 = v_sect w d" "v_status w d3" "v_buf w d3 = v_sect w d (diskno, pos)"
    using c p 2 unfolding disk_contract_def d3_def Let_def by simp_all
  obtain bs d4 where 4: "d_read dv (DEV_DISK_ADDRESS + DEV_DISK_STATUS) 4 d3 = (bs, d4)" "\<not> list_all (\<lambda>b. b = 0) bs"
      "v_buf w d4 = v_buf w d3" "v_sect w d4 = v_sect w d3"
    using c 3(2) unfolding disk_contract_def by meson
  obtain d5 where 5: "d_read dv (DEV_DISK_ADDRESS + DEV_DISK_BUFFER) 512 d4 = (v_buf w d4, d5)" "v_sect w d5 = v_sect w d4"
    using c unfolding disk_contract_def by meson
  show ?thesis
    using 3 4 5 by (simp add: read_sect_def device_calls[OF r(1)] device_calls(3)[OF r] d1_def[symmetric] d2_def[symmetric] d3_def[symmetric])
qed

lemma write_sect_ok:
  assumes c: "disk_contract dv w sects" and r: "user_range tmp 4" "user_range va 512" and p: "(diskno, pos) \<in> sects"
  shows "\<exists>d'. write_sect dv tmp diskno pos va (m, d) = Ret (m, d') \<and> v_sect w d' = (v_sect w d)((diskno, pos) := read_mem va 512 m)"
proof -
  have l: "length (read_mem va 512 m) = 512" by (simp add: read_mem_def)
  define d1 where "d1 = d_write dv (DEV_DISK_ADDRESS + DEV_DISK_ID) (word_bytes diskno) d"
  define d2 where "d2 = d_write dv (DEV_DISK_ADDRESS + DEV_DISK_OFFSET) (word_bytes pos) d1"
  define d3 where "d3 = d_write dv (DEV_DISK_ADDRESS + DEV_DISK_BUFFER) (read_mem va 512 m) d2"
  define d4 where "d4 = d_write dv (DEV_DISK_ADDRESS + DEV_DISK_START_OPERATION) (word_bytes DEV_DISK_OPERATION_WRITE) d3"
  have 2: "v_id w d2 = diskno" "v_off w d2 = pos" "v_sect w d2 = v_sect w d"
    using c unfolding disk_contract_def d1_def d2_def Let_def by simp_all
  have 3: "v_id w d3 = diskno" "v_off w d3 = pos" "v_sect w d3 = v_sect w d" "v_buf w d3 = read_mem va 512 m"
    using c 2 l unfolding disk_contract_def d3_def Let_def by simp_all
  have 4: "v_status w d4" "v_sect w d4 = (v_sect w d)((diskno, pos) := read_mem va 512 m)"
    using c p 3 unfolding disk_contract_def d4_def Let_def by simp_all
  obtain bs d5 where 5: "d_read dv (DEV_DISK_ADDRESS + DEV_DISK_STATUS) 4 d4 = (bs, d5)" "\<not> list_all (\<lambda>b. b = 0) bs" "v_sect w d5 = v_sect w d4"
    using c 4(1) unfolding disk_contract_def by meson
  show ?thesis
    using 4 5 by (simp add: write_sect_def device_calls[OF r(1)] device_calls(4)[OF r l] d1_def[symmetric] d2_def[symmetric] d3_def[symmetric] d4_def[symmetric])
qed

lemma read_write_mem: "length bs = k \<Longrightarrow> read_mem va k (write_mem va bs m) = bs"
  by (rule nth_equalityI) (simp_all add: read_mem_def write_mem_def)

lemma read_mem_cong: "(\<And>a. unat va \<le> a \<Longrightarrow> a < unat va + k \<Longrightarrow> m' a = m a) \<Longrightarrow> read_mem va k m' = read_mem va k m"
  by (simp add: read_mem_def)

text \<open>The byte offset of the \<open>k\<close>-th sector of a transfer, and its place in memory.\<close>

definition sect_pos :: "u32 \<Rightarrow> nat \<Rightarrow> u32" where
  "sect_pos secno k = secno * of_nat BY2SECT + of_nat (512 * k)"

definition sect_va :: "u32 \<Rightarrow> nat \<Rightarrow> u32" where
  "sect_va va k = va + of_nat (512 * k)"

lemma sect_va_ok:
  assumes "user_range va (512 * c)" and "k < c"
  shows "unat (sect_va va k) = unat va + 512 * k" and "user_range (sect_va va k) 512"
proof -
  show u: "unat (sect_va va k) = unat va + 512 * k"
    unfolding sect_va_def using assms unat_lt32[of UTOP] by (intro unat_add_of_nat) (simp add: user_range_def)
  show "user_range (sect_va va k) 512" using assms by (simp add: user_range_def u)
qed

lemma transfer_bounds:
  fixes secno nsecs :: u32
  assumes "(unat secno + unat nsecs) * 512 < 2 ^ 32"
  shows "unat (secno * of_nat BY2SECT) = 512 * unat secno"
    and "unat (secno * of_nat BY2SECT + nsecs * of_nat BY2SECT) = 512 * (unat secno + unat nsecs)"
  using assms by (simp_all add: unat_word_ariths)

lemma sect_pos_inj: "k < 2 ^ 23 \<Longrightarrow> j < 2 ^ 23 \<Longrightarrow> sect_pos secno k = sect_pos secno j \<Longrightarrow> k = j"
proof -
  assume k: "k < 2 ^ 23" "j < 2 ^ 23" and "sect_pos secno k = sect_pos secno j"
  then have "(of_nat (512 * k) :: u32) = of_nat (512 * j)" by (simp only: sect_pos_def add_left_cancel)
  then have "unat (of_nat (512 * k) :: u32) = unat (of_nat (512 * j) :: u32)" by simp
  then show "k = j" using k by (simp only: unat_of_nat) simp
qed

text \<open>
  \<open>ide_read\<close> on a device that behaves as documented returns, with the sectors asked for in memory, in order, one
  after the other, the memory around them as it was and the disk unchanged.
\<close>

theorem ide_read_correct:
  assumes c: "disk_contract dv w sects" and small: "(unat secno + unat nsecs) * 512 < 2 ^ 32"
    and r: "user_range tmp 4" "user_range dst (512 * unat nsecs)" and ex: "\<forall>k < unat nsecs. (diskno, sect_pos secno k) \<in> sects"
  shows "\<exists>m' d'. ide_read dv tmp diskno secno dst nsecs (m, d) = Some (Ret (m', d')) \<and> v_sect w d' = v_sect w d \<and>
    (\<forall>k < unat nsecs. read_mem (sect_va dst k) 512 m' = v_sect w d (diskno, sect_pos secno k)) \<and>
    (\<forall>a. a < unat dst \<or> unat dst + 512 * unat nsecs \<le> a \<longrightarrow> m' a = m a)"
proof -
  define I where "I = (\<lambda>k (m', d'). v_sect w d' = v_sect w d \<and>
    (\<forall>j < k. read_mem (sect_va dst j) 512 m' = v_sect w d (diskno, sect_pos secno j)) \<and>
    (\<forall>a. a < unat dst \<or> unat dst + 512 * k \<le> a \<longrightarrow> m' a = m a))"
  have round: "\<exists>s'. read_sect dv tmp diskno (secno * of_nat BY2SECT + of_nat (512 * k)) (dst + of_nat (512 * k)) s = Ret s' \<and> I (Suc k) s'"
    if k: "k < unat nsecs" and I: "I k s" for k s
  proof -
    obtain m1 d1 where s: "s = (m1, d1)" by fastforce
    note va = sect_va_ok[OF r(2) k]
    obtain d2 where d2: "read_sect dv tmp diskno (sect_pos secno k) (sect_va dst k) (m1, d1) =
        Ret (write_mem (sect_va dst k) (v_sect w d1 (diskno, sect_pos secno k)) m1, d2)" "v_sect w d2 = v_sect w d1"
      using read_sect_ok[OF c r(1) va(2), of diskno "sect_pos secno k"] ex k by blast
    let ?m = "write_mem (sect_va dst k) (v_sect w d1 (diskno, sect_pos secno k)) m1"
    have len: "length (v_sect w d1 (diskno, sect_pos secno k)) = 512" using c by (simp add: disk_contract_def)
    have old: "read_mem (sect_va dst j) 512 ?m = read_mem (sect_va dst j) 512 m1" if "j < k" for j
      using that sect_va_ok(1)[OF r(2), of j] k va(1) by (intro read_mem_cong) (simp add: write_mem_def)
    have new: "read_mem (sect_va dst k) 512 ?m = v_sect w d1 (diskno, sect_pos secno k)" by (rule read_write_mem[OF len])
    have out: "?m a = m1 a" if "a < unat dst \<or> unat dst + 512 * Suc k \<le> a" for a
      using that len va(1) by (auto simp: write_mem_def)
    have "I (Suc k) (?m, d2)"
      using I d2(2) old new out by (auto simp: I_def s less_Suc_eq)
    then show ?thesis using d2(1) by (auto simp: s sect_pos_def sect_va_def)
  qed
  have "I 0 (m, d)" by (simp add: I_def)
  from sect_loop_rounds[OF transfer_bounds[OF small], of I "\<lambda>off. read_sect dv tmp diskno (secno * of_nat BY2SECT + off) (dst + off)" 0, OF round _ this]
  obtain s' where
    "sect_loop (\<lambda>off. read_sect dv tmp diskno (secno * of_nat BY2SECT + off) (dst + off)) (secno * of_nat BY2SECT)
      (secno * of_nat BY2SECT + nsecs * of_nat BY2SECT) 0 (m, d) = Some (Ret s') \<and> I (unat nsecs) s'" by auto
  then show ?thesis by (auto simp: ide_read_def Let_def I_def split: prod.splits)
qed

text \<open>
  \<open>ide_write\<close> returns, with the bytes of memory in the sectors asked for, in order, and every other sector of every
  disk as it was.
\<close>

theorem ide_write_correct:
  assumes c: "disk_contract dv w sects" and small: "(unat secno + unat nsecs) * 512 < 2 ^ 32"
    and r: "user_range tmp 4" "user_range src (512 * unat nsecs)" and ex: "\<forall>k < unat nsecs. (diskno, sect_pos secno k) \<in> sects"
  shows "\<exists>d'. ide_write dv tmp diskno secno src nsecs (m, d) = Some (Ret (m, d')) \<and>
    (\<forall>k < unat nsecs. v_sect w d' (diskno, sect_pos secno k) = read_mem (sect_va src k) 512 m) \<and>
    (\<forall>q. (\<forall>k < unat nsecs. q \<noteq> (diskno, sect_pos secno k)) \<longrightarrow> v_sect w d' q = v_sect w d q)"
proof -
  define I where "I = (\<lambda>k (m', d'). m' = m \<and>
    (\<forall>j < k. v_sect w d' (diskno, sect_pos secno j) = read_mem (sect_va src j) 512 m) \<and>
    (\<forall>q. (\<forall>j < k. q \<noteq> (diskno, sect_pos secno j)) \<longrightarrow> v_sect w d' q = v_sect w d q))"
  have round: "\<exists>s'. write_sect dv tmp diskno (secno * of_nat BY2SECT + of_nat (512 * k)) (src + of_nat (512 * k)) s = Ret s' \<and> I (Suc k) s'"
    if k: "k < unat nsecs" and I: "I k s" for k s
  proof -
    obtain d1 where s: "s = (m, d1)" using I by (cases s) (simp add: I_def)
    obtain d2 where d2: "write_sect dv tmp diskno (sect_pos secno k) (sect_va src k) (m, d1) = Ret (m, d2)"
        "v_sect w d2 = (v_sect w d1)((diskno, sect_pos secno k) := read_mem (sect_va src k) 512 m)"
      using write_sect_ok[OF c r(1) sect_va_ok(2)[OF r(2) k], of diskno "sect_pos secno k"] ex k by blast
    have "sect_pos secno j \<noteq> sect_pos secno k" if "j < k" for j
      using sect_pos_inj[of j k secno] that k small by auto
    then have "I (Suc k) (m, d2)" using I d2(2) by (auto simp: I_def s less_Suc_eq)
    then show ?thesis using d2(1) by (auto simp: s sect_pos_def sect_va_def)
  qed
  have "I 0 (m, d)" by (simp add: I_def)
  from sect_loop_rounds[OF transfer_bounds[OF small], of I "\<lambda>off. write_sect dv tmp diskno (secno * of_nat BY2SECT + off) (src + off)" 0, OF round _ this]
  obtain s' where
    "sect_loop (\<lambda>off. write_sect dv tmp diskno (secno * of_nat BY2SECT + off) (src + off)) (secno * of_nat BY2SECT)
      (secno * of_nat BY2SECT + nsecs * of_nat BY2SECT) 0 (m, d) = Some (Ret s') \<and> I (unat nsecs) s'" by auto
  then show ?thesis by (auto simp: ide_write_def Let_def I_def split: prod.splits)
qed

section \<open>An example device\<close>

record ram_disk =
  g_id :: u32
  g_off :: u32
  g_buf :: "nat \<Rightarrow> u8"
  g_status :: bool
  g_sect :: "u32 \<times> u32 \<Rightarrow> nat \<Rightarrow> u8"

definition bytes_word :: "u8 list \<Rightarrow> u32" where
  "bytes_word bs = ucast (bs ! 0) OR push_bit 8 (ucast (bs ! 1)) OR push_bit 16 (ucast (bs ! 2)) OR push_bit 24 (ucast (bs ! 3))"

lemma bytes_word_bytes: "bytes_word (word_bytes x) = x"
proof (rule bit_word_eqI)
  fix j assume "j < LENGTH(32)"
  then consider "j < 8" | "8 \<le> j" "j < 16" | "16 \<le> j" "j < 24" | "24 \<le> j" "j < 32" by force
  then show "bit (bytes_word (word_bytes x)) j = bit x j"
    by cases (auto simp: bytes_word_def word_bytes_def bit_simps)
qed

definition ram_write :: "u32 \<Rightarrow> u8 list \<Rightarrow> ram_disk \<Rightarrow> ram_disk" where
  "ram_write pa bs d =
     (if pa = 0x13000000 then d\<lparr>g_off := bytes_word bs\<rparr>
      else if pa = 0x13000010 then d\<lparr>g_id := bytes_word bs\<rparr>
      else if pa = 0x13004000 then d\<lparr>g_buf := (!) bs\<rparr>
      else if g_id d \<noteq> 1 then d\<lparr>g_status := False\<rparr>
      else if bytes_word bs = 0 then d\<lparr>g_status := True, g_buf := g_sect d (g_id d, g_off d)\<rparr>
      else d\<lparr>g_status := True, g_sect := (g_sect d)((g_id d, g_off d) := g_buf d)\<rparr>)"

definition ram_read :: "u32 \<Rightarrow> nat \<Rightarrow> ram_disk \<Rightarrow> u8 list \<times> ram_disk" where
  "ram_read pa k d = (if pa = 0x13000030 then ([of_bool (g_status d), 0, 0, 0], d) else (map (g_buf d) [0..<512], d))"

definition ram_dev :: "ram_disk disk_dev" where
  "ram_dev = \<lparr>d_write = ram_write, d_read = ram_read\<rparr>"

definition ram_view :: "ram_disk disk_view" where
  "ram_view = \<lparr>v_id = g_id, v_off = g_off, v_buf = (\<lambda>d. map (g_buf d) [0..<512]), v_status = g_status,
     v_sect = (\<lambda>d p. map (g_sect d p) [0..<512])\<rparr>"

lemma ram_contract: "disk_contract ram_dev ram_view ({1} \<times> UNIV)"
proof -
  have "map ((!) bs) [0..<512] = bs" if "length bs = 512" for bs :: "u8 list" using map_nth[of bs] that by simp
  then show ?thesis
    unfolding disk_contract_def
    by (auto simp: ram_dev_def ram_view_def ram_write_def ram_read_def disk_regs bytes_word_bytes Let_def
        DEV_DISK_OPERATION_READ_def DEV_DISK_OPERATION_WRITE_def simp del: upt_rec_numeral)
qed

definition ram_demo :: ram_disk where
  "ram_demo = \<lparr>g_id = 0, g_off = 0, g_buf = (\<lambda>_. 0), g_status = False, g_sect = (\<lambda>(_, off) j. ucast off + of_nat j)\<rparr>"

theorem ide_read_correct_witness:
  "\<exists>m' d'. ide_read ram_dev 0x7f000000 1 8 0x10000000 8 (\<lambda>_. 0, ram_demo) = Some (Ret (m', d')) \<and>
     read_mem (sect_va 0x10000000 3) 512 m' = v_sect ram_view ram_demo (1, sect_pos 8 3)"
proof -
  have "\<exists>m' d'. ide_read ram_dev 0x7f000000 1 8 0x10000000 8 (\<lambda>_. 0, ram_demo) = Some (Ret (m', d')) \<and>
      v_sect ram_view d' = v_sect ram_view ram_demo \<and>
      (\<forall>k < unat (8 :: u32). read_mem (sect_va 0x10000000 k) 512 m' = v_sect ram_view ram_demo (1, sect_pos 8 k)) \<and>
      (\<forall>a. a < unat (0x10000000 :: u32) \<or> unat (0x10000000 :: u32) + 512 * unat (8 :: u32) \<le> a \<longrightarrow> m' a = 0)"
    by (rule ide_read_correct[OF ram_contract]) (simp_all add: user_range_def mmu_defs)
  moreover have "(3 :: nat) < unat (8 :: u32)" by simp
  ultimately show ?thesis by blast
qed

theorem ide_write_correct_witness:
  "\<exists>d'. ide_write ram_dev 0x7f000000 1 8 0x10000000 8 (\<lambda>a. of_nat a, ram_demo) = Some (Ret (\<lambda>a. of_nat a, d')) \<and>
     v_sect ram_view d' (1, sect_pos 8 3) = read_mem (sect_va 0x10000000 3) 512 (\<lambda>a. of_nat a)"
proof -
  have "\<exists>d'. ide_write ram_dev 0x7f000000 1 8 0x10000000 8 (\<lambda>a. of_nat a, ram_demo) = Some (Ret (\<lambda>a. of_nat a, d')) \<and>
      (\<forall>k < unat (8 :: u32). v_sect ram_view d' (1, sect_pos 8 k) = read_mem (sect_va 0x10000000 k) 512 (\<lambda>a. of_nat a)) \<and>
      (\<forall>q. (\<forall>k < unat (8 :: u32). q \<noteq> (1, sect_pos 8 k)) \<longrightarrow> v_sect ram_view d' q = v_sect ram_view ram_demo q)"
    by (rule ide_write_correct[OF ram_contract]) (simp_all add: user_range_def mmu_defs)
  moreover have "(3 :: nat) < unat (8 :: u32)" by simp
  ultimately show ?thesis by blast
qed

end
