(* ===== verification/UserMem.thy ===== *)
theory UserMem
  imports EnvProps
begin

text \<open>
  User memory as user programs see it: the page table entries at \<open>vpt\<close> and \<open>vpd\<close>
  (\<^verbatim>\<open>user/include/lib.h\<close>), which the directory's entry for \<open>UVPT\<close>, pointing to the directory itself,
  makes readable; loads and stores at mapped addresses; and the number of mappings of a page.
\<close>

section \<open>vpt and vpd\<close>

definition vpt_addr :: u32 where "vpt_addr = UVPT"
definition vpd_addr :: u32 where "vpd_addr = UVPT + push_bit 12 (PDX UVPT)"
definition self_map :: "'a pm_scheme \<Rightarrow> nat \<Rightarrow> bool" where
  "self_map s d \<longleftrightarrow> pmem s d 511 = page2pa d OR PTE_V"

lemma uvpt_idx:
  assumes "vpn < 2 ^ 20"
  shows "unat (PDX (vpt_addr + 4 * of_nat vpn)) = 511" "unat (PTX (vpt_addr + 4 * of_nat vpn)) = vpn div 1024"
    "unat (vpt_addr + 4 * of_nat vpn) mod 4096 div 4 = vpn mod 1024" "(vpt_addr + 4 * of_nat vpn) mod 4 = 0" 
proof -
  have u: "unat (vpt_addr + 4 * of_nat vpn) = 4096 * 523264 + 4 * vpn"
    using assms by (simp add: vpt_addr_def mmu_defs unat_word_ariths unat_of_nat)
  show "unat (PDX (vpt_addr + 4 * of_nat vpn)) = 511"
    unfolding unat_PDX u using assms by simp
  have "(4096 * 523264 + 4 * vpn) div 4096 = 523264 + vpn div 1024" by simp
  moreover have "(523264 + vpn div 1024) mod 1024 = vpn div 1024"
    using assms mod_mult_self3[of 511 1024 "vpn div 1024"] by (simp add: less_mult_imp_div_less)
  ultimately show "unat (PTX (vpt_addr + 4 * of_nat vpn)) = vpn div 1024" unfolding unat_PTX u by simp
  have "(4096 * 523264 + 4 * vpn) mod 4096 = 4 * (vpn mod 1024)" 
    unfolding mod_mult_self4 using mult_mod_right[of 4 vpn 1024] by simp
  then show "unat (vpt_addr + 4 * of_nat vpn) mod 4096 div 4 = vpn mod 1024" unfolding u by simp
  show "(vpt_addr + 4 * of_nat vpn) mod 4 = 0" 
    unfolding word_unat_eq_iff unat_mod u using assms by simp
qed

lemma vpd_as_vpt: "vpd_addr + 4 * of_nat n = vpt_addr + 4 * of_nat (523264 + n)"
  by (simp add: vpd_addr_def vpt_addr_def) (simp add: mmu_defs)

lemma refill_hit2:
  "page_lookup d va s = Ret (Some (p, l), s) \<Longrightarrow> load_word s l = w \<Longrightarrow> refill_loop 2 va d asid s = Ret (w, s)"
  unfolding eval_nat_numeral by simp

lemma uvpt_load:
  assumes st: "pm_struct D s" and d: "d \<in> D" and self: "self_map s d" and vpn: "vpn < 2 ^ 20"
    and pde: "pte_valid (pmem s d (vpn div 1024))" "unat (PPN (pmem s d (vpn div 1024))) < npage s"
    and cur: "cur_pgdir s = d"
  shows "uload (vpt_addr + 4 * of_nat vpn) s = Ret (pmem s (unat (PPN (pmem s d (vpn div 1024)))) (vpn mod 1024), s)"
proof -
  note ix = uvpt_idx[OF vpn]
  have dn: "d < npage s" "npage s \<le> 2 ^ 20" "d < 2 ^ 20" using st d by (auto simp: pm_struct_def)
  have w: "pmem s d 511 = page2pa d OR PTE_V" using self by (simp add: self_map_def)
  have "pgdir_walk d (vpt_addr + 4 * of_nat vpn) False s = Ret ((0, Some (d, vpn div 1024)), s)"
    using dn pte_word[OF dn(1,2), of 0] KADDR_ok[of "page2pa d OR PTE_V" "npage s"]
    by (simp add: pgdir_walk_def load_word_def Let_def ix w KADDR_ok)
  then have "page_lookup d (vpt_addr + 4 * of_nat vpn) s = Ret (Some (unat (PPN (pmem s d (vpn div 1024))), (d, vpn div 1024)), s)"
    using pde by (simp add: page_lookup_def load_word_def pa2page_def)
  then have "do_tlb_refill (vpt_addr + 4 * of_nat vpn) asid s = Ret (pmem s d (vpn div 1024), s)" for asid
    unfolding do_tlb_refill_def cur by (rule refill_hit2) (simp add: load_word_def)
  then show ?thesis using ix by (simp add: uload_def load_word_def)
qed

lemma refill_user:
  assumes st: "pm_struct D s" and d: "cur_pgdir s \<in> D" and va: "va < UTOP"
    and w: "aspace s (cur_pgdir s) (vidx va) = Some w"
  shows "do_tlb_refill va asid s = Ret (w, s)"
proof -
  have i: "unat (PDX va) < user_pdes" using PDX_UTOP[OF va] by (simp add: user_pdes_def)
  have "load_word s (pt_of s (cur_pgdir s) (unat (PDX va)), unat (PTX va)) = w"
    using w by (auto simp: aspace_def vidx_def load_word_def split: if_splits)
  then show ?thesis
    using page_lookup_ok[OF st d i] w unfolding do_tlb_refill_def by (intro refill_hit2) auto
qed

lemma uload_user:
  assumes "pm_struct D s" "cur_pgdir s \<in> D" "va < UTOP" "aspace s (cur_pgdir s) (vidx va) = Some w" "va mod 4 = 0"
  shows "uload va s = Ret (pmem s (unat (PPN w)) (unat va mod 4096 div 4), s)"
  using refill_user[OF assms(1-4)] assms(5) by (simp add: uload_def load_word_def)

lemma ustore_user:
  assumes "pm_struct D s" "cur_pgdir s \<in> D" "va < UTOP" "aspace s (cur_pgdir s) (vidx va) = Some w" "va mod 4 = 0"
    "w AND PTE_D \<noteq> 0"
  shows "ustore va x s = Ret (store_word (unat (PPN w), unat va mod 4096 div 4) x s)"
  using refill_user[OF assms(1-4)] assms(5,6) by (simp add: ustore_def)

section \<open>Counting the mappings of a page\<close>

definition users :: "nat set \<Rightarrow> 'a pm_scheme \<Rightarrow> nat \<Rightarrow> (nat \<times> nat \<times> nat) set" where
  "users D s p = {(d, x). d \<in> D \<and> (\<exists>w. aspace s d x = Some w \<and> unat (PPN w) = p)}"

lemma users_ptes: "users D s p = {x \<in> ptes D s. tgt s x = p}"
proof -
  have "(d, i, j) \<in> users D s p \<longleftrightarrow> (d, i, j) \<in> {x \<in> ptes D s. tgt s x = p}" for d i j
    by (cases "d \<in> D") (auto simp: users_def aspace_Some_iff[of d D] tgt_def ptes_def pdes_def)
  then show ?thesis by auto
qed

lemma mapped_refs:
  assumes inv: "pm_inv ext D s" and d: "d \<in> D" and w: "aspace s d x = Some w"
  shows "unat (pp_ref s (unat (PPN w))) = ext (unat (PPN w)) + card (users D s (unat (PPN w)))"
    "unat (PPN w) < npage s" "unat (PPN w) \<in> tgt s ` ptes D s"
proof -
  obtain i j where x: "x = (i, j)" by (cases x)
  then have "(d, i, j) \<in> ptes D s" "w = pmem s (pt_of s d i) j" using w d aspace_Some_iff[of d D] by auto
  then show t: "unat (PPN w) \<in> tgt s ` ptes D s" by (force simp: tgt_def)
  then have "unat (PPN w) < npage s \<and> unat (PPN w) \<notin> D \<and> unat (PPN w) \<notin> tables D s"
    using inv by (auto simp: pm_inv_def pm_struct_def)
  with inv show "unat (pp_ref s (unat (PPN w))) = ext (unat (PPN w)) + card (users D s (unat (PPN w)))"
    "unat (PPN w) < npage s"
    by (auto simp: pm_inv_def count_ok_def pg_refs_def map_refs_def users_ptes)
qed

lemma users_finite: "pm_inv ext D s \<Longrightarrow> finite (users D s p)"
  unfolding users_ptes using ptes_finite[of D s] by (simp add: pm_inv_def pm_struct_def)

section \<open>Entries as words\<close>

lemma entry_word:
  assumes "pte_valid w"
  shows "page2pa (unat (PPN w)) OR (w AND 0xFFF) OR PTE_V = w"
proof -
  have "page2pa (unat (PPN w)) = PTE_ADDR w"
    unfolding page2pa_def PTE_ADDR_def PPN_def mask12 by (rule bit_word_eqI) (auto simp: bit_simps)
  moreover have "PTE_ADDR w OR (w AND 0xFFF) = w"
    unfolding PTE_ADDR_def mask12 by (rule bit_word_eqI) (auto simp: bit_simps)
  moreover have "w OR PTE_V = w"
  proof (rule bit_word_eqI)
    fix n
    have v: "PTE_V = (push_bit 9 1 :: u32)" by (simp add: PTE_V_def)
    have "bit w 9" using assms unfolding pte_valid_def v
      by (metis and_exp_eq_0_iff_not_bit push_bit_of_1)
    moreover have "bit PTE_V n \<longleftrightarrow> n = 9" unfolding v bit_push_bit_iff bit_1_iff by auto
    ultimately show "bit (w OR PTE_V) n = bit w n" by (auto simp: bit_or_iff)
  qed
  ultimately show ?thesis by (simp add: or.assoc[symmetric])
qed

end
