(* ===== verification/Fork.thy ===== *)
theory Fork
  imports UserMem
begin

text \<open>
  User-level fork with copy on write, \<^verbatim>\<open>user/lib/fork.c\<close>, running on the model of the kernel: the
  system calls are those of the theory \<open>Syscall\<close>, the arrays \<open>vpt\<close> and \<open>vpd\<close> are read through the
  page table like any other user memory. \<open>cow_entry\<close>'s address is a parameter \<open>cow\<close>, and the global
  \<open>env\<close> (an index of \<open>envs\<close> here) is an argument and a result. The calls run without being
  interrupted by other environments.
\<close>

section \<open>System calls from user space\<close>

definition ucall :: "sysret \<Rightarrow> (int \<times> kern) res" where
  "ucall m = rbind m (\<lambda>(x, s). case x of Back r \<Rightarrow> Ret (r, s) | Gone \<Rightarrow> Fault ''does not come back'')"

lemma ucall_Ret [simp]: "ucall (Ret (Back r, s)) = Ret (r, s)"
  by (simp add: ucall_def)

section \<open>duppage and fork\<close>

definition duppage :: "u32 \<Rightarrow> u32 \<Rightarrow> kern \<Rightarrow> kern res" where
  "duppage envid vpn s =
     (let addr = push_bit 12 vpn
      in rbind (uload (vpt_addr + 4 * vpn) s) (\<lambda>(pte, s).
         let perm = pte AND 0xFFF;
             r = (perm AND PTE_D \<noteq> 0 \<and> perm AND PTE_LIBRARY = 0);
             perm = (if r then (perm OR PTE_COW) - PTE_D else perm)
         in rbind (ucall (sys_mem_map 0 addr envid addr perm s)) (\<lambda>(_, s).
            if r then rbind (ucall (sys_mem_map 0 addr 0 addr perm s)) (\<lambda>(_, s). Ret s) else Ret s)))"

text \<open>Step 3 of \<open>fork\<close>.\<close>

fun fork_pages :: "nat list \<Rightarrow> u32 \<Rightarrow> kern \<Rightarrow> kern res" where
  "fork_pages [] child s = Ret s"
| "fork_pages (i # is) child s =
     rbind (uload (vpd_addr + 4 * of_nat (i div 1024)) s) (\<lambda>(pde, s).
     if pde AND PTE_V = 0 then fork_pages is child s
     else rbind (uload (vpt_addr + 4 * of_nat i) s) (\<lambda>(pte, s).
       if pte AND PTE_V = 0 then fork_pages is child s
       else rbind (duppage child (of_nat i) s) (fork_pages is child)))"

definition fork_child :: "kern \<Rightarrow> ((int \<times> nat) \<times> kern) res" where
  "fork_child s = rbind (ucall (sys_getenvid s)) (\<lambda>(r, s). Ret ((0, ENVX (word_of_int r)), s))"

definition fork :: "u32 \<Rightarrow> nat \<Rightarrow> kern \<Rightarrow> ((int \<times> nat) \<times> kern) res" where
  "fork cow env s =
     rbind (if env_user_tlb_mod_entry (envs s env) \<noteq> cow then ucall (sys_set_tlb_mod_entry 0 cow s) else Ret (0, s)) (\<lambda>(r, s).
     if r \<noteq> 0 then Ret ((r, env), s)
     else rbind (ucall (sys_exofork s)) (\<lambda>(r, s).
       let child = word_of_int r :: u32
       in if child = 0 then fork_child s
          else rbind (fork_pages [0..<unat (VPN USTACKTOP)] child s) (\<lambda>s.
            rbind (ucall (sys_set_tlb_mod_entry child cow s)) (\<lambda>(r, s).
            if r \<noteq> 0 then Ret ((r, env), s)
            else rbind (ucall (sys_set_env_status child ENV_RUNNABLE s)) (\<lambda>(r, s).
              if r \<noteq> 0 then Ret ((r, env), s) else Ret ((sint child, env), s))))))"

section \<open>The entries that fork makes\<close>

definition cow_pte :: "u32 \<Rightarrow> u32" where
  "cow_pte w = (if w AND PTE_D \<noteq> 0 \<and> w AND PTE_LIBRARY = 0 then (w OR PTE_COW) AND NOT PTE_D else w)"

abbreviation cow_perm :: "u32 \<Rightarrow> u32" where
  "cow_perm perm \<equiv> (if perm AND PTE_D \<noteq> 0 \<and> perm AND PTE_LIBRARY = 0 then (perm OR PTE_COW) - PTE_D else perm)"

lemma pte_bits: "bit PTE_V n \<longleftrightarrow> n = 9" "bit PTE_D n \<longleftrightarrow> n = 10" "bit PTE_COW n \<longleftrightarrow> n = 0" "bit PTE_LIBRARY n \<longleftrightarrow> n = 2"
proof -
  have e: "PTE_V = push_bit 9 1" "PTE_D = push_bit 10 1" "PTE_COW = push_bit 0 1" "PTE_LIBRARY = push_bit 2 1"
    by (simp_all add: mmu_defs)
  show "bit PTE_V n \<longleftrightarrow> n = 9" unfolding e bit_push_bit_iff bit_1_iff by auto
  show "bit PTE_D n \<longleftrightarrow> n = 10" unfolding e bit_push_bit_iff bit_1_iff by auto
  show "bit PTE_COW n \<longleftrightarrow> n = 0" unfolding e bit_push_bit_iff bit_1_iff by auto
  show "bit PTE_LIBRARY n \<longleftrightarrow> n = 2" unfolding e bit_push_bit_iff bit_1_iff by auto
qed

lemma flag_bit:
  "w AND PTE_V \<noteq> 0 \<longleftrightarrow> bit w 9" "w AND PTE_D \<noteq> 0 \<longleftrightarrow> bit w 10" "w AND PTE_LIBRARY \<noteq> 0 \<longleftrightarrow> bit w 2"
  "w AND PTE_COW \<noteq> 0 \<longleftrightarrow> bit w 0"
  using and_exp_eq_0_iff_not_bit[of w 9] and_exp_eq_0_iff_not_bit[of w 10] and_exp_eq_0_iff_not_bit[of w 2]
    and_exp_eq_0_iff_not_bit[of w 0] by (simp_all add: mmu_defs)

lemma minus_D: "bit w 10 \<Longrightarrow> w - PTE_D = w AND NOT PTE_D"
proof -
  assume b: "bit w 10"
  have "w = (w AND NOT PTE_D) OR PTE_D"
    using b by (intro bit_word_eqI) (auto simp: bit_simps pte_bits)
  also have "\<dots> = (w AND NOT PTE_D) + PTE_D"
    by (rule disjunctive_add[symmetric]) (auto simp: bit_simps pte_bits)
  finally show ?thesis by (metis add_diff_cancel_right')
qed

lemma minus_COW: "bit w 0 \<Longrightarrow> w - PTE_COW = w AND NOT PTE_COW"
proof -
  assume b: "bit w 0"
  have "w = (w AND NOT PTE_COW) OR PTE_COW"
    using b by (intro bit_word_eqI) (auto simp: bit_simps pte_bits)
  also have "\<dots> = (w AND NOT PTE_COW) + PTE_COW"
    by (rule disjunctive_add[symmetric]) (auto simp: bit_simps pte_bits)
  finally show ?thesis by (metis add_diff_cancel_right')
qed

lemma low_bit: "n < 12 \<Longrightarrow> bit (w AND 0xFFF :: u32) n \<longleftrightarrow> bit w n"
  unfolding mask12 by (simp add: bit_simps)

lemma cow_entry_word:
  assumes v: "pte_valid w"
  shows "page2pa (unat (PPN w)) OR cow_perm (w AND 0xFFF) OR PTE_V = cow_pte w"
    "cow_perm (w AND 0xFFF) < 4096" "PPN (cow_pte w) = PPN w" "pte_valid (cow_pte w)"
proof -
  have p: "cow_perm (w AND 0xFFF) = cow_pte w AND 0xFFF"
  proof -
    have "cow_perm (w AND 0xFFF) = (if bit w 10 \<and> \<not> bit w 2 then ((w AND 0xFFF) OR PTE_COW) AND NOT PTE_D else w AND 0xFFF)"
      using flag_bit[of "w AND 0xFFF"] low_bit[of _ w] minus_D[of "(w AND 0xFFF) OR PTE_COW"] by (auto simp: bit_or_iff)
    also have "\<dots> = cow_pte w AND 0xFFF"
      using flag_bit[of w] unfolding cow_pte_def mask12 by (intro bit_word_eqI) (auto simp: bit_simps pte_bits)
    finally show ?thesis .
  qed
  have "cow_pte w AND 0xFFF \<le> 0xFFF" by (rule word_and_le1)
  then show "cow_perm (w AND 0xFFF) < 4096" unfolding p by (simp add: word_le_nat_alt word_less_nat_alt)
  show ppn: "PPN (cow_pte w) = PPN w"
    unfolding PPN_def cow_pte_def by (rule bit_word_eqI) (auto simp: bit_simps pte_bits dest: bit_imp_le_length)
  have "bit w 9" using v flag_bit(1)[of w] by (simp add: pte_valid_def)
  then show v': "pte_valid (cow_pte w)"
    unfolding pte_valid_def flag_bit by (auto simp: cow_pte_def bit_simps pte_bits)
  show "page2pa (unat (PPN w)) OR cow_perm (w AND 0xFFF) OR PTE_V = cow_pte w"
    using entry_word[OF v'] unfolding p ppn .
qed


section \<open>The state during the loop\<close>

definition vpn_of :: "nat \<times> nat \<Rightarrow> nat" where
  "vpn_of x = fst x * 1024 + snd x"

abbreviation idx :: "nat \<Rightarrow> nat \<times> nat" where
  "idx i \<equiv> (i div 1024, i mod 1024)"

definition forked :: "nat set \<Rightarrow> (nat \<times> nat \<Rightarrow> u32 option) \<Rightarrow> nat \<times> nat \<Rightarrow> u32 option" where
  "forked N A = (\<lambda>x. if vpn_of x \<in> N then map_option cow_pte (A x) else A x)"

definition inherited :: "nat set \<Rightarrow> (nat \<times> nat \<Rightarrow> u32 option) \<Rightarrow> nat \<times> nat \<Rightarrow> u32 option" where
  "inherited N A = (\<lambda>x. if vpn_of x \<in> N then map_option cow_pte (A x) else None)"

definition mappers :: "'a pm_scheme \<Rightarrow> nat \<Rightarrow> u32 \<Rightarrow> (nat \<times> nat) set" where
  "mappers s d w = {y. \<exists>v. aspace s d y = Some v \<and> PPN v = PPN w}"

abbreviation dirs :: "kern \<Rightarrow> nat set" where
  "dirs s \<equiv> dir_of s ` live s"

definition fork_ready :: "(nat \<Rightarrow> nat) \<Rightarrow> nat \<Rightarrow> nat \<Rightarrow> u32 \<Rightarrow> kern \<Rightarrow> bool" where
  "fork_ready ext c e child s \<longleftrightarrow> kern_inv ext s \<and> curenv s = Some c \<and> c \<in> live s \<and> e \<in> live s \<and> c \<noteq> e \<and>
     envid2env child True s = Ret (0, Some e) \<and> cur_pgdir s = dir_of s c \<and> self_map s (dir_of s c) \<and>
     aspace s (dir_of s e) = Map.empty \<and>
     (\<forall>x w. aspace s (dir_of s c) x = Some w \<longrightarrow>
        unat (pp_ref s (unat (PPN w))) + card (mappers s (dir_of s c) w) < 65535)"

definition dup_state :: "(nat \<Rightarrow> nat) \<Rightarrow> nat \<Rightarrow> nat \<Rightarrow> kern \<Rightarrow> nat set \<Rightarrow> nat set \<Rightarrow> kern \<Rightarrow> bool" where
  "dup_state ext c e s0 Nc Ne s \<longleftrightarrow> kern_inv ext s \<and> pm.more s = pm.more s0 \<and> npage s = npage s0 \<and>
     (\<forall>d \<in> dirs s0. \<forall>k \<ge> user_pdes. pmem s d k = pmem s0 d k) \<and>
     (\<forall>p \<in> tgt s0 ` ptes (dirs s0) s0. pmem s p = pmem s0 p) \<and>
     (\<forall>x \<in> live s0 - {c, e}. aspace s (dir_of s0 x) = aspace s0 (dir_of s0 x)) \<and>
     aspace s (dir_of s0 c) = forked Nc (aspace s0 (dir_of s0 c)) \<and>
     (\<forall>x. aspace s (dir_of s0 e) x = inherited Ne (aspace s0 (dir_of s0 c)) x \<or>
          aspace s (dir_of s0 e) x = None \<and> LIST_EMPTY (page_free_list s))"

lemma vpn_idx [simp]: "vpn_of (idx i) = i"
  by (simp add: vpn_of_def)

lemma idx_vpn: "aspace s d x = Some w \<Longrightarrow> idx (vpn_of x) = x"
  by (cases x) (auto simp: vpn_of_def aspace_def split: if_splits)

lemma dup_stateD:
  assumes "dup_state ext c e s0 Nc Ne s"
  shows "kern_inv ext s" "pm.more s = pm.more s0" "npage s = npage s0"
    "\<forall>d \<in> dirs s0. \<forall>k \<ge> user_pdes. pmem s d k = pmem s0 d k"
    "\<forall>p \<in> tgt s0 ` ptes (dirs s0) s0. pmem s p = pmem s0 p"
    "\<forall>x \<in> live s0 - {c, e}. aspace s (dir_of s0 x) = aspace s0 (dir_of s0 x)"
    "aspace s (dir_of s0 c) = forked Nc (aspace s0 (dir_of s0 c))"
    "\<forall>x. aspace s (dir_of s0 e) x = inherited Ne (aspace s0 (dir_of s0 c)) x \<or>
          aspace s (dir_of s0 e) x = None \<and> LIST_EMPTY (page_free_list s)"
    "dir_of s = dir_of s0" "live s = live s0" "envs s = envs s0" "curenv s = curenv s0"
  using assms kern_inv_more_D[of s s0] unfolding dup_state_def by blast+

lemma same_ppn: "aspace s0 d x = Some w \<Longrightarrow> \<exists>v. map_option cow_pte (aspace s0 d x) = Some v \<and> PPN v = PPN w"
  using cow_entry_word(3)[of w] by (cases x) (auto simp: aspace_def split: if_splits)

lemma forked_ppn: "aspace s0 d x = Some w \<Longrightarrow> \<exists>v. forked N (aspace s0 d) x = Some v \<and> PPN v = PPN w"
  using same_ppn[of s0 d x w] by (cases "vpn_of x \<in> N") (auto simp: forked_def)

text \<open>A page that was mapped before stays mapped, and its reference count grows by the parent's mappings at most.\<close>

lemma dup_mapped:
  assumes s: "dup_state ext c e s0 Nc Ne s" and r: "fork_ready ext c e child s0"
    and p: "p \<in> tgt s0 ` ptes (dirs s0) s0"
  shows "p \<in> tgt s ` ptes (dirs s) s"
proof -
  note D = dup_stateD[OF s]
  have ne: "t \<in> tgt u ` ptes DD u \<longleftrightarrow> users DD u t \<noteq> {}" for t DD and u :: kern
    unfolding users_ptes by auto
  obtain d y where "(d, y) \<in> users (dirs s0) s0 p" using p unfolding ne by (metis ex_in_conv surj_pair)
  then obtain w where u: "d \<in> dirs s0" "aspace s0 d y = Some w" "unat (PPN w) = p"
    unfolding users_def by blast
  then obtain x where x: "x \<in> live s0" "d = dir_of s0 x" by auto
  have "x \<noteq> e" using u(2) x r by (auto simp: fork_ready_def)
  then obtain v where "aspace s d y = Some v" "PPN v = PPN w"
    using D(6,7) x u(2) forked_ppn[OF u(2), of Nc] by (cases "x = c") auto
  then have "(d, y) \<in> users (dirs s) s p" using u D(9,10) by (auto simp: users_def)
  then show ?thesis unfolding ne by blast
qed

lemma dup_refs:
  assumes s: "dup_state ext c e s0 Nc Ne s" and r: "fork_ready ext c e child s0"
    and w: "aspace s0 (dir_of s0 c) x = Some w"
  shows "unat (pp_ref s (unat (PPN w))) < 65535"
proof -
  note D = dup_stateD[OF s]
  let ?p = "unat (PPN w)" and ?A = "aspace s0 (dir_of s0 c)"
  have R: "kern_inv ext s0" "dir_of s0 c \<in> dirs s0" "unat (pp_ref s0 ?p) + card (mappers s0 (dir_of s0 c) w) < 65535"
    "aspace s0 (dir_of s0 e) = Map.empty"
    using r w unfolding fork_ready_def by blast+
  have I: "pm_inv ext (dirs s0) s0" "pm_inv ext (dirs s0) s"
    using R(1) D(1,9,10) by (auto simp: kern_inv_def)
  obtain v where v: "aspace s (dir_of s0 c) x = Some v" "PPN v = PPN w"
    using D(7) forked_ppn[OF w, of Nc] by auto
  have c0: "unat (pp_ref s0 ?p) = ext ?p + card (users (dirs s0) s0 ?p)" by (rule mapped_refs(1)[OF I(1) R(2) w])
  have c1: "unat (pp_ref s ?p) = ext ?p + card (users (dirs s0) s ?p)"
    using mapped_refs(1)[OF I(2) R(2) v(1)] v(2) by simp
  have sub: "users (dirs s0) s ?p \<subseteq> users (dirs s0) s0 ?p \<union> {dir_of s0 e} \<times> mappers s0 (dir_of s0 c) w"
  proof
    fix z
    assume z: "z \<in> users (dirs s0) s ?p"
    then obtain d y u where u: "z = (d, y)" "d \<in> dirs s0" "aspace s d y = Some u" "PPN u = PPN w"
      by (auto simp: users_def word_unat_eq_iff)
    then obtain a where a: "a \<in> live s0" "d = dir_of s0 a" by auto
    have old: "\<exists>u'. ?A y = Some u' \<and> PPN u' = PPN w" if "map_option cow_pte (?A y) = Some u"
      using that same_ppn u(4) by (cases "?A y") fastforce+
    consider "a = c" | "a = e" "a \<noteq> c" | "a \<in> live s0 - {c, e}" using a(1) by blast
    then show "z \<in> users (dirs s0) s0 ?p \<union> {dir_of s0 e} \<times> mappers s0 (dir_of s0 c) w"
    proof cases
      case 1
      with u a D(7) old show ?thesis by (auto simp: users_def forked_def split: if_splits)
    next
      case 2
      with u a D(8)[rule_format, of y] old show ?thesis by (auto simp: mappers_def inherited_def split: if_splits)
    next
      case 3
      with u a D(6) show ?thesis by (auto simp: users_def)
    qed
  qed
  have fin: "finite (users (dirs s0) s0 ?p)" by (rule users_finite[OF I(1)])
  have "{dir_of s0 c} \<times> mappers s0 (dir_of s0 c) w \<subseteq> users (dirs s0) s0 ?p"
    using R(2) by (auto simp: mappers_def users_def)
  then have fm: "finite (mappers s0 (dir_of s0 c) w)" using fin by (metis finite_cartesian_productD2 finite_subset insert_not_empty)
  have "card (users (dirs s0) s ?p) \<le> card (users (dirs s0) s0 ?p \<union> {dir_of s0 e} \<times> mappers s0 (dir_of s0 c) w)"
    by (rule card_mono[OF _ sub]) (use fin fm in auto)
  also have "\<dots> \<le> card (users (dirs s0) s0 ?p) + card (mappers s0 (dir_of s0 c) w)"
    using card_Un_le[of "users (dirs s0) s0 ?p" "{dir_of s0 e} \<times> mappers s0 (dir_of s0 c) w"] by (simp add: card_cartesian_product)
  finally show ?thesis using c0 c1 R(3) by linarith
qed


lemma vpn_addr:
  assumes "i < 2 ^ 20"
  shows "vidx (push_bit 12 (of_nat i)) = idx i" "is_illegal_va (push_bit 12 (of_nat i)) \<longleftrightarrow> i < 1022 \<or> 0x7f400 \<le> i"
proof -
  have u: "unat (push_bit 12 (of_nat i) :: u32) = i * 4096"
    using assms by (simp add: push_bit_eq_mult unat_word_ariths unat_of_nat)
  show "vidx (push_bit 12 (of_nat i)) = idx i" by (simp add: vidx_def unat_PDX unat_PTX u)
  show "is_illegal_va (push_bit 12 (of_nat i)) \<longleftrightarrow> i < 1022 \<or> 0x7f400 \<le> i"
    by (simp add: is_illegal_va_def word_less_nat_alt word_le_nat_alt u) (auto simp: mmu_defs)
qed

lemma forked_insert:
  assumes w: "aspace s0 d (idx i) = Some w"
  shows "forked (insert i N) (aspace s0 d) = (forked N (aspace s0 d))(idx i \<mapsto> cow_pte w)"
    "inherited (insert i N) (aspace s0 d) = (inherited N (aspace s0 d))(idx i \<mapsto> cow_pte w)"
proof -
  have n: "aspace s0 d y = None" if "vpn_of y = i" "y \<noteq> idx i" for y
    using idx_vpn[of s0 d y] that by (cases "aspace s0 d y") auto
  show "forked (insert i N) (aspace s0 d) = (forked N (aspace s0 d))(idx i \<mapsto> cow_pte w)"
  proof
    fix y
    show "forked (insert i N) (aspace s0 d) y = ((forked N (aspace s0 d))(idx i \<mapsto> cow_pte w)) y"
      using n[of y] w by (cases "y = idx i"; cases "vpn_of y = i") (auto simp: forked_def)
  qed
  show "inherited (insert i N) (aspace s0 d) = (inherited N (aspace s0 d))(idx i \<mapsto> cow_pte w)"
  proof
    fix y
    show "inherited (insert i N) (aspace s0 d) y = ((inherited N (aspace s0 d))(idx i \<mapsto> cow_pte w)) y"
      using n[of y] w by (cases "y = idx i"; cases "vpn_of y = i") (auto simp: inherited_def)
  qed
qed

text \<open>One page: first for the child, then for the parent.\<close>

lemma envid2env_cong: "envs s = envs s0 \<Longrightarrow> curenv s = curenv s0 \<Longrightarrow> envid2env i p s = envid2env i p s0"
  by (simp only: envid2env_def)

lemma envid2env_upd:
  assumes "\<And>x. env_status (f x) = env_status x" "\<And>x. env_id (f x) = env_id x" "\<And>x. env_parent_id (f x) = env_parent_id x"
  shows "envid2env i p (upd_env e f s) = envid2env i p s"
proof -
  have h: "env_status (envs (upd_env e f s) x) = env_status (envs s x)" "env_id (envs (upd_env e f s) x) = env_id (envs s x)"
    "env_parent_id (envs (upd_env e f s) x) = env_parent_id (envs s x)" "curenv (upd_env e f s) = curenv s" for x
    using assms by simp_all
  show ?thesis unfolding envid2env_def h by (rule refl)
qed

lemma dup_call:
  assumes s: "dup_state ext c e s0 Nc Ne s" and r: "fork_ready ext c e child s0" and b: "(b, bid) \<in> {(c, 0), (e, child)}"
    and i: "i \<notin> Nc" "1022 \<le> i" "i < 0x7f400" and w: "aspace s0 (dir_of s0 c) (idx i) = Some w"
  obtains r s' where "sys_mem_map 0 (push_bit 12 (of_nat i)) bid (push_bit 12 (of_nat i)) (cow_perm (w AND 0xFFF)) s = Ret (Back r, s')"
    "kern_inv ext s' \<and> pm.more s' = pm.more s0 \<and> npage s' = npage s0"
    "\<forall>d \<in> dirs s0. \<forall>k \<ge> user_pdes. pmem s' d k = pmem s0 d k"
    "\<forall>p \<in> tgt s0 ` ptes (dirs s0) s0. pmem s' p = pmem s0 p"
    "\<forall>x \<in> live s0 - {c, e}. aspace s' (dir_of s0 x) = aspace s0 (dir_of s0 x)"
    "\<forall>x \<in> {c, e}. aspace s' (dir_of s0 x) =
       (if x = b \<and> r = 0 then (aspace s (dir_of s0 x))(idx i \<mapsto> cow_pte w) else aspace s (dir_of s0 x))"
    "r \<noteq> 0 \<longrightarrow> LIST_EMPTY (page_free_list s) \<and> aspace s (dir_of s0 b) (idx i) = None"
    "LIST_EMPTY (page_free_list s) \<longrightarrow> LIST_EMPTY (page_free_list s')"
proof -
  note D = dup_stateD[OF s]
  let ?va = "push_bit 12 (of_nat i) :: u32"
  have R: "curenv s0 = Some c" "c \<in> live s0" "e \<in> live s0" "c \<noteq> e" "envid2env child True s0 = Ret (0, Some e)"
    using r unfolding fork_ready_def by blast+
  have va: "vidx ?va = idx i" "\<not> is_illegal_va ?va" using vpn_addr[of i] i by auto
  have "envid2env 0 True s0 = Ret (0, Some c)" using R(1) by (simp add: envid2env_def)
  then have ids: "envid2env 0 True s = Ret (0, Some c)" "envid2env bid True s = Ret (0, Some b)"
    using R(5) b envid2env_cong[OF D(11,12)] by auto
  have ws: "aspace s (dir_of s c) (vidx ?va) = Some w" using D(7,9) w i(1) va(1) by (simp add: forked_def)
  have v: "pte_valid w" using w by (auto simp: aspace_def split: if_splits)
  have cl: "c \<in> live s" "b \<in> live s" using R D(10) b by auto
  obtain r s' where s': "sys_mem_map 0 ?va bid ?va (cow_perm (w AND 0xFFF)) s = Ret (Back r, s')" "kern_inv ext s'"
    "pm.more s' = pm.more s" "npage s' = npage s" "r = 0 \<or> r = - E_NO_MEM"
    "\<forall>x \<in> live s. aspace s' (dir_of s x) = (if x = b \<and> r = 0
       then (aspace s (dir_of s x))(vidx ?va \<mapsto> page2pa (unat (PPN w)) OR cow_perm (w AND 0xFFF) OR PTE_V)
       else aspace s (dir_of s x))"
    "r \<noteq> 0 \<longrightarrow> LIST_EMPTY (page_free_list s) \<and> aspace s (dir_of s b) (vidx ?va) = None"
    "LIST_EMPTY (page_free_list s) \<longrightarrow>
       (\<forall>v. aspace s (dir_of s b) (vidx ?va) = Some v \<longrightarrow> PPN v = PPN w) \<longrightarrow> LIST_EMPTY (page_free_list s')"
    "\<forall>d \<in> dir_of s ` live s. \<forall>k \<ge> user_pdes. pmem s' d k = pmem s d k"
    "\<forall>p \<in> tgt s ` ptes (dir_of s ` live s) s. pmem s' p = pmem s p"
    by (rule map_call_ok[OF D(1) ids(1) cl(1) ids(2) cl(2) va(2) va(2) cow_entry_word(2)[OF v] ws dup_refs[OF s r w]])
  have "PPN u = PPN w" if "aspace s (dir_of s b) (vidx ?va) = Some u" for u
    using that b ws D(8)[rule_format, of "idx i"] D(9) va(1) w same_ppn[OF w]
    by (auto simp: inherited_def split: if_splits)
  then have emp: "LIST_EMPTY (page_free_list s) \<longrightarrow> LIST_EMPTY (page_free_list s')" using s'(8) by blast
  have pages: "\<forall>p \<in> tgt s0 ` ptes (dirs s0) s0. pmem s' p = pmem s0 p"
  proof
    fix p
    assume p: "p \<in> tgt s0 ` ptes (dirs s0) s0"
    show "pmem s' p = pmem s0 p" using bspec[OF s'(10) dup_mapped[OF s r p]] bspec[OF D(5) p] by simp
  qed
  show ?thesis
    by (rule that[OF s'(1) _ _ pages _ _ _ emp])
      (use s'(2-4,6,7,9) D(2-4,6,9,10) R va(1) cow_entry_word(1)[OF v] b in auto)
qed

lemma dup_child:
  assumes s: "dup_state ext c e s0 Nc Ne s" and r: "fork_ready ext c e child s0"
    and i: "i \<notin> Nc" "1022 \<le> i" "i < 0x7f400" and w: "aspace s0 (dir_of s0 c) (idx i) = Some w"
  obtains r s' where "sys_mem_map 0 (push_bit 12 (of_nat i)) child (push_bit 12 (of_nat i)) (cow_perm (w AND 0xFFF)) s = Ret (Back r, s')"
    "dup_state ext c e s0 Nc (insert i Ne) s'"
proof (rule dup_call[OF s r _ i w, of e child])
  note D = dup_stateD[OF s]
  fix r s'
  assume s': "sys_mem_map 0 (push_bit 12 (of_nat i)) child (push_bit 12 (of_nat i)) (cow_perm (w AND 0xFFF)) s = Ret (Back r, s')"
    "kern_inv ext s' \<and> pm.more s' = pm.more s0 \<and> npage s' = npage s0"
    "\<forall>d \<in> dirs s0. \<forall>k \<ge> user_pdes. pmem s' d k = pmem s0 d k"
    "\<forall>p \<in> tgt s0 ` ptes (dirs s0) s0. pmem s' p = pmem s0 p"
    "\<forall>x \<in> live s0 - {c, e}. aspace s' (dir_of s0 x) = aspace s0 (dir_of s0 x)"
    "\<forall>x \<in> {c, e}. aspace s' (dir_of s0 x) =
       (if x = e \<and> r = 0 then (aspace s (dir_of s0 x))(idx i \<mapsto> cow_pte w) else aspace s (dir_of s0 x))"
    "r \<noteq> 0 \<longrightarrow> LIST_EMPTY (page_free_list s) \<and> aspace s (dir_of s0 e) (idx i) = None"
    "LIST_EMPTY (page_free_list s) \<longrightarrow> LIST_EMPTY (page_free_list s')"
  have "c \<noteq> e" using r unfolding fork_ready_def by blast
  then have "aspace s' (dir_of s0 c) = forked Nc (aspace s0 (dir_of s0 c))" using s'(6) D(7) by simp
  moreover have "aspace s' (dir_of s0 e) x = inherited (insert i Ne) (aspace s0 (dir_of s0 c)) x \<or>
      aspace s' (dir_of s0 e) x = None \<and> LIST_EMPTY (page_free_list s')" for x
    using D(8)[rule_format, of x] s'(6-8) unfolding forked_insert(2)[OF w]
    by (cases "r = 0"; cases "x = idx i") auto
  ultimately have "dup_state ext c e s0 Nc (insert i Ne) s'" using s'(2-5) unfolding dup_state_def by blast
  with s'(1) show thesis by (rule that)
qed simp

lemma dup_parent:
  assumes s: "dup_state ext c e s0 Nc Ne s" and r: "fork_ready ext c e child s0"
    and i: "i \<notin> Nc" "1022 \<le> i" "i < 0x7f400" and w: "aspace s0 (dir_of s0 c) (idx i) = Some w"
  obtains r s' where "sys_mem_map 0 (push_bit 12 (of_nat i)) 0 (push_bit 12 (of_nat i)) (cow_perm (w AND 0xFFF)) s = Ret (Back r, s')"
    "dup_state ext c e s0 (insert i Nc) Ne s'"
proof (rule dup_call[OF s r _ i w, of c 0])
  note D = dup_stateD[OF s]
  fix r s'
  assume s': "sys_mem_map 0 (push_bit 12 (of_nat i)) 0 (push_bit 12 (of_nat i)) (cow_perm (w AND 0xFFF)) s = Ret (Back r, s')"
    "kern_inv ext s' \<and> pm.more s' = pm.more s0 \<and> npage s' = npage s0"
    "\<forall>d \<in> dirs s0. \<forall>k \<ge> user_pdes. pmem s' d k = pmem s0 d k"
    "\<forall>p \<in> tgt s0 ` ptes (dirs s0) s0. pmem s' p = pmem s0 p"
    "\<forall>x \<in> live s0 - {c, e}. aspace s' (dir_of s0 x) = aspace s0 (dir_of s0 x)"
    "\<forall>x \<in> {c, e}. aspace s' (dir_of s0 x) =
       (if x = c \<and> r = 0 then (aspace s (dir_of s0 x))(idx i \<mapsto> cow_pte w) else aspace s (dir_of s0 x))"
    "r \<noteq> 0 \<longrightarrow> LIST_EMPTY (page_free_list s) \<and> aspace s (dir_of s0 c) (idx i) = None"
    "LIST_EMPTY (page_free_list s) \<longrightarrow> LIST_EMPTY (page_free_list s')"
  have ne: "c \<noteq> e" using r unfolding fork_ready_def by blast
  have "r = 0" using s'(7) D(7) w i(1) by (auto simp: forked_def)
  then have "aspace s' (dir_of s0 c) = forked (insert i Nc) (aspace s0 (dir_of s0 c))"
    using s'(6) D(7) unfolding forked_insert(1)[OF w] by simp
  moreover have "aspace s' (dir_of s0 e) x = inherited Ne (aspace s0 (dir_of s0 c)) x \<or>
      aspace s' (dir_of s0 e) x = None \<and> LIST_EMPTY (page_free_list s')" for x
    using D(8)[rule_format, of x] s'(6,8) ne by auto
  ultimately have "dup_state ext c e s0 (insert i Nc) Ne s'" using s'(2-5) unfolding dup_state_def by blast
  with s'(1) show thesis by (rule that)
qed simp


lemma duppage_ok:
  assumes s: "dup_state ext c e s0 N N s" and r: "fork_ready ext c e child s0"
    and i: "i \<notin> N" "1022 \<le> i" "i < 0x7f400" and w: "aspace s0 (dir_of s0 c) (idx i) = Some w"
    and ld: "uload (vpt_addr + 4 * of_nat i) s = Ret (w, s)"
  obtains s' where "duppage child (of_nat i) s = Ret s'" "dup_state ext c e s0 (insert i N) (insert i N) s'"
proof -
  let ?va = "push_bit 12 (of_nat i) :: u32" and ?q = "(w AND 0xFFF) AND PTE_D \<noteq> 0 \<and> (w AND 0xFFF) AND PTE_LIBRARY = 0"
  obtain r1 s1 where s1: "sys_mem_map 0 ?va child ?va (cow_perm (w AND 0xFFF)) s = Ret (Back r1, s1)"
    "dup_state ext c e s0 N (insert i N) s1" by (rule dup_child[OF s r i w])
  obtain r2 s2 where s2: "sys_mem_map 0 ?va 0 ?va (cow_perm (w AND 0xFFF)) s1 = Ret (Back r2, s2)"
    "dup_state ext c e s0 (insert i N) (insert i N) s2" by (rule dup_parent[OF s1(2) r i w])
  show ?thesis
  proof (cases ?q)
    case True
    then have "duppage child (of_nat i) s = Ret s2"
      using ld s1(1) s2(1) by (simp add: duppage_def Let_def)
    with s2(2) show ?thesis by (intro that)
  next
    case False
    then have "w AND PTE_D = 0 \<or> w AND PTE_LIBRARY \<noteq> 0"
      using flag_bit(2,3)[of w] flag_bit(2,3)[of "w AND 0xFFF"] low_bit[of 10 w] low_bit[of 2 w] by auto
    then have "cow_pte w = w" by (auto simp: cow_pte_def)
    then have "forked (insert i N) (aspace s0 (dir_of s0 c)) = forked N (aspace s0 (dir_of s0 c))"
      using w i(1) unfolding forked_insert(1)[OF w] by (auto simp: forked_def)
    then have "dup_state ext c e s0 (insert i N) (insert i N) s1" using s1(2) by (simp add: dup_state_def)
    moreover have "duppage child (of_nat i) s = Ret s1"
      using False ld s1(1) unfolding duppage_def Let_def by (auto simp: if_not_P[OF False])
    ultimately show ?thesis by (intro that)
  qed
qed


lemma duppage_low:
  assumes r: "fork_ready ext c e child s0" and i: "i < 1022" and ld: "uload (vpt_addr + 4 * of_nat i) s = Ret (w, s)"
  shows "duppage child (of_nat i) s = Ret s"
proof -
  have "is_illegal_va (push_bit 12 (of_nat i))" using vpn_addr(2)[of i] i by simp
  then show ?thesis using ld by (simp add: duppage_def sys_mem_map_def Let_def)
qed

lemma forked_none:
  assumes "aspace s0 d (idx i) = None"
  shows "forked (insert i N) (aspace s0 d) = forked N (aspace s0 d)"
    "inherited (insert i N) (aspace s0 d) = inherited N (aspace s0 d)"
proof -
  have "aspace s0 d y = None" if "vpn_of y = i" for y
    using idx_vpn[of s0 d y] that assms by (cases "aspace s0 d y") auto
  then show "forked (insert i N) (aspace s0 d) = forked N (aspace s0 d)"
    "inherited (insert i N) (aspace s0 d) = inherited N (aspace s0 d)"
    by (auto simp: forked_def inherited_def fun_eq_iff)
qed

text \<open>What the loop reads from \<open>vpd\<close> and \<open>vpt\<close>.\<close>

lemma fork_loads:
  assumes s: "dup_state ext c e s0 Nc Ne s" and r: "fork_ready ext c e child s0"
    and i: "i \<notin> Nc" "i < 0x7f400"
  shows "uload (vpd_addr + 4 * of_nat (i div 1024)) s = Ret (pmem s (dir_of s0 c) (i div 1024), s)"
    "pte_valid (pmem s (dir_of s0 c) (i div 1024)) \<Longrightarrow>
       uload (vpt_addr + 4 * of_nat i) s = Ret (pmem s (pt_of s (dir_of s0 c) (i div 1024)) (i mod 1024), s)"
    "aspace s0 (dir_of s0 c) (idx i) = (if pte_valid (pmem s (dir_of s0 c) (i div 1024)) \<and>
       pte_valid (pmem s (pt_of s (dir_of s0 c) (i div 1024)) (i mod 1024))
       then Some (pmem s (pt_of s (dir_of s0 c) (i div 1024)) (i mod 1024)) else None)"
proof -
  note D = dup_stateD[OF s]
  let ?d = "dir_of s0 c"
  have R: "c \<in> live s0" "cur_pgdir s0 = ?d" "self_map s0 ?d" using r unfolding fork_ready_def by blast+
  have d: "?d \<in> dirs s" using R(1) D(9,10) by auto
  have st: "pm_struct (dirs s) s" using D(1) by (auto simp: kern_inv_def pm_inv_def)
  have cur: "cur_pgdir s = ?d" using R(2) pm_more_fields[OF D(2)] by simp
  have dn: "?d < npage s" "npage s \<le> 2 ^ 20" using st d by (auto simp: pm_struct_def)
  have self: "self_map s ?d" using R(1,3) D(4) by (simp add: self_map_def user_pdes_def)
  have i': "i div 1024 < 509" "i < 2 ^ 20" using i(2) by auto
  have "pmem s ?d 511 = page2pa ?d OR 0 OR PTE_V" using self by (simp add: self_map_def)
  then have sw: "pte_valid (pmem s ?d 511)" "unat (PPN (pmem s ?d 511)) = ?d"
    using pte_word[OF dn, of 0] by simp_all
  have q: "(523264 + i div 1024) div 1024 = 511" "(523264 + i div 1024) mod 1024 = i div 1024" "523264 + i div 1024 < 2 ^ 20"
    using i' mod_mult_self3[of 511 1024 "i div 1024"] by simp_all
  show "uload (vpd_addr + 4 * of_nat (i div 1024)) s = Ret (pmem s ?d (i div 1024), s)"
    unfolding vpd_as_vpt
    using uvpt_load[OF st d self q(3) _ _ cur, unfolded q] sw dn by simp
  show "uload (vpt_addr + 4 * of_nat i) s = Ret (pmem s (pt_of s ?d (i div 1024)) (i mod 1024), s)"
    if v: "pte_valid (pmem s ?d (i div 1024))"
  proof -
    have "(?d, i div 1024) \<in> pdes (dirs s) s" using d v i' by (simp add: pdes_def user_pdes_def)
    then have "pt_of s ?d (i div 1024) < npage s" using st pt_of_in by (fastforce simp: pm_struct_def)
    then show ?thesis using uvpt_load[OF st d self i'(2) v _ cur] by (simp add: pt_of_def)
  qed
  have "aspace s0 ?d (idx i) = aspace s ?d (idx i)" using D(7) i(1) by (simp add: forked_def)
  then show "aspace s0 ?d (idx i) = (if pte_valid (pmem s ?d (i div 1024)) \<and>
       pte_valid (pmem s (pt_of s ?d (i div 1024)) (i mod 1024))
       then Some (pmem s (pt_of s ?d (i div 1024)) (i mod 1024)) else None)"
    using i'(1) by (simp add: aspace_def user_pdes_def)
qed

lemma fork_pages_ok:
  assumes r: "fork_ready ext c e child s0"
  shows "dup_state ext c e s0 N N s \<Longrightarrow> distinct ns \<Longrightarrow> set ns \<inter> N = {} \<Longrightarrow> \<forall>i \<in> set ns. i < 0x7f400 \<Longrightarrow>
    \<exists>s'. fork_pages ns child s = Ret s' \<and>
      dup_state ext c e s0 (N \<union> (set ns \<inter> {1022..})) (N \<union> (set ns \<inter> {1022..})) s'"
proof (induction ns arbitrary: N s)
  case (Cons i ns)
  have i: "i \<notin> N" "i < 0x7f400" and ns: "distinct ns" "set ns \<inter> insert i N = {}" "\<forall>i \<in> set ns. i < 0x7f400"
    using Cons.prems by auto
  note L = fork_loads[OF Cons.prems(1) r i]
  let ?d = "dir_of s0 c"
  let ?go = "pte_valid (pmem s ?d (i div 1024)) \<and> pte_valid (pmem s (pt_of s ?d (i div 1024)) (i mod 1024))"
  define N' where "N' = (if i < 1022 then N else insert i N)"
  have "\<exists>s1. fork_pages (i # ns) child s = fork_pages ns child s1 \<and> dup_state ext c e s0 N' N' s1"
  proof (cases ?go)
    case False
    then have "aspace s0 ?d (idx i) = None" using L(3) by simp
    then have "dup_state ext c e s0 N' N' s"
      using Cons.prems(1) forked_none[of s0 ?d i] by (simp add: dup_state_def N'_def)
    moreover have "fork_pages (i # ns) child s = fork_pages ns child s"
      using False L(1,2) by (auto simp: pte_valid_def)
    ultimately show ?thesis by blast
  next
    case True
    let ?w = "pmem s (pt_of s ?d (i div 1024)) (i mod 1024)"
    have w: "aspace s0 ?d (idx i) = Some ?w" using True L(3) by simp
    have ld: "uload (vpt_addr + 4 * of_nat i) s = Ret (?w, s)" using L(2) True by simp
    have step: "fork_pages (i # ns) child s = rbind (duppage child (of_nat i) s) (fork_pages ns child)"
      using True L(1) ld by (simp add: pte_valid_def)
    show ?thesis
    proof (cases "i < 1022")
      case low: True
      then show ?thesis using step duppage_low[OF r low ld] Cons.prems(1) by (auto simp: N'_def)
    next
      case False
      then have ge: "1022 \<le> i" by simp
      obtain s1 where "duppage child (of_nat i) s = Ret s1" "dup_state ext c e s0 (insert i N) (insert i N) s1"
        by (rule duppage_ok[OF Cons.prems(1) r i(1) ge i(2) w ld])
      then show ?thesis using step False by (auto simp: N'_def)
    qed
  qed
  then obtain s1 where s1: "fork_pages (i # ns) child s = fork_pages ns child s1" "dup_state ext c e s0 N' N' s1" by blast
  have "set ns \<inter> N' = {}" using ns(2) by (auto simp: N'_def)
  from Cons.IH[OF s1(2) ns(1) this ns(3)]
  have "\<exists>s'. fork_pages ns child s1 = Ret s' \<and>
      dup_state ext c e s0 (N' \<union> (set ns \<inter> {1022..})) (N' \<union> (set ns \<inter> {1022..})) s'" .
  moreover have "N' \<union> (set ns \<inter> {1022..}) = N \<union> (set (i # ns) \<inter> {1022..})" by (auto simp: N'_def)
  ultimately show ?case using s1(1) by simp
qed simp


section \<open>fork\<close>

definition fork_range :: "nat set" where
  "fork_range = {unat (VPN UTEMP)..<unat (VPN USTACKTOP)}"

lemma fork_range: "fork_range = {1022..<0x7f3fe}" "unat (VPN USTACKTOP) = 0x7f3fe"
  by (simp_all add: fork_range_def mmu_defs)

lemma duppage_start: "fork_ready ext c e child s \<Longrightarrow> dup_state ext c e s {} {} s"
  by (auto simp: dup_state_def fork_ready_def forked_def inherited_def)

text \<open>The first step, and the creation of the child.\<close>

lemma fork_entry:
  assumes inv: "kern_inv ext s" and c: "curenv s = Some c"
  obtains s' where "(if env_user_tlb_mod_entry (envs s c) \<noteq> cow then ucall (sys_set_tlb_mod_entry 0 cow s) else Ret (0, s)) = Ret (0, s')"
    "kern_inv ext s'" "s' = upd_env c (\<lambda>x. x\<lparr>env_user_tlb_mod_entry := cow\<rparr>) s"
    "live s' = live s" "dir_of s' = dir_of s" "aspace s' = aspace s"
proof -
  have e: "envid2env 0 True s = Ret (0, Some c)" using c by (simp add: envid2env_def)
  obtain s' where s': "sys_set_tlb_mod_entry 0 cow s = Ret (Back 0, s')" "kern_inv ext s'"
    "s' = upd_env c (\<lambda>x. x\<lparr>env_user_tlb_mod_entry := cow\<rparr>) s" "live s' = live s" "dir_of s' = dir_of s" "aspace s' = aspace s"
    by (rule set_tlb_mod_ok[OF inv e])
  have "s' = s" if "env_user_tlb_mod_entry (envs s c) = cow"
  proof -
    have "(envs s c)\<lparr>env_user_tlb_mod_entry := cow\<rparr> = envs s c" using that by simp
    then show ?thesis using s'(3) by (simp add: upd_env_def)
  qed
  then show ?thesis using that[OF _ s'(2-6)] s'(1) by (cases "env_user_tlb_mod_entry (envs s c) = cow") auto
qed

lemma fork_ready_child:
  assumes inv: "kern_inv ext s" "kern_inv ext s'" and c: "c \<in> live s" "cur_pgdir s = dir_of s c" "self_map s (dir_of s c)"
    and room: "\<forall>x w. aspace s (dir_of s c) x = Some w \<longrightarrow>
        unat (pp_ref s (unat (PPN w))) + card (mappers s (dir_of s c) w) < 65535"
    and s': "e \<notin> live s" "live s' = insert e (live s)" "curenv s' = Some c" "envid2env child True s' = Ret (0, Some e)"
      "aspace s' (dir_of s' e) = Map.empty" "\<forall>x \<in> live s. envs s' x = envs s x \<and> aspace s' (dir_of s' x) = aspace s (dir_of s x)"
      "cur_pgdir s' = cur_pgdir s" "\<forall>q. q \<noteq> p \<longrightarrow> pmem s' q = pmem s q" "p \<notin> dirs s"
  shows "fork_ready ext c e child s'" "\<forall>x \<in> live s. dir_of s' x = dir_of s x"
proof -
  show dx: "\<forall>x \<in> live s. dir_of s' x = dir_of s x" using s'(6) by (simp add: dir_of_def)
  have dc: "dir_of s' c = dir_of s c" "aspace s' (dir_of s c) = aspace s (dir_of s c)" using dx s'(6) c(1) by auto
  have I: "pm_inv ext (dirs s) s" "pm_inv ext (dirs s') s'" using inv by (auto simp: kern_inv_def)
  have us: "users (dirs s') s' q = users (dirs s) s q" for q
    using s'(2,5,6) dx by (auto simp: users_def)
  have "unat (pp_ref s' (unat (PPN w))) + card (mappers s' (dir_of s' c) w) < 65535"
    if w: "aspace s' (dir_of s' c) x = Some w" for x w
  proof -
    have w0: "aspace s (dir_of s c) x = Some w" using w dc by simp
    have "unat (pp_ref s' (unat (PPN w))) = unat (pp_ref s (unat (PPN w)))"
      using mapped_refs(1)[OF I(1) _ w0] mapped_refs(1)[OF I(2) _ w] c(1) s'(2) us by simp
    then show ?thesis using room[rule_format, OF w0] dc by (simp add: mappers_def)
  qed
  moreover have "self_map s' (dir_of s' c)" using c(1,3) s'(8,9) dc(1) by (auto simp: self_map_def)
  ultimately show "fork_ready ext c e child s'"
    using inv(2) s' c dc unfolding fork_ready_def by auto
qed


text \<open>The last step: the child gets its handler and becomes runnable.\<close>

lemma fork_finish:
  assumes inv: "kern_inv ext s" and e: "envid2env child True s = Ret (0, Some e)" "e \<in> live s"
  obtains s1 s2 where "sys_set_tlb_mod_entry child cow s = Ret (Back 0, s1)"
    "sys_set_env_status child ENV_RUNNABLE s1 = Ret (Back 0, s2)" "kern_inv ext s2"
    "envs s2 = (envs s)(e := (envs s e)\<lparr>env_user_tlb_mod_entry := cow, env_status := ENV_RUNNABLE\<rparr>)"
    "live s2 = live s" "dir_of s2 = dir_of s" "aspace s2 = aspace s" "pmem s2 = pmem s" "page_free_list s2 = page_free_list s"
proof -
  obtain s1 where s1: "sys_set_tlb_mod_entry child cow s = Ret (Back 0, s1)" "kern_inv ext s1"
    "s1 = upd_env e (\<lambda>x. x\<lparr>env_user_tlb_mod_entry := cow\<rparr>) s" "live s1 = live s" "dir_of s1 = dir_of s" "aspace s1 = aspace s"
    by (rule set_tlb_mod_ok[OF inv e(1)])
  have e1: "envid2env child True s1 = Ret (0, Some e)"
    unfolding s1(3) by (subst envid2env_upd) (simp_all add: e(1))
  obtain rl where rl: "runq s1 rl" by (rule kern_inv_exts[OF s1(2)])
  obtain q' s2 where s2: "s2 = upd_env e (\<lambda>x. x\<lparr>env_status := ENV_RUNNABLE\<rparr>) (s1\<lparr>env_sched_list := q'\<rparr>)"
    "sys_set_env_status child ENV_RUNNABLE s1 = Ret (Back 0, s2)" "kern_inv ext s2"
    "envs s2 = (envs s1)(e := (envs s1 e)\<lparr>env_status := ENV_RUNNABLE\<rparr>)" "aspace s2 = aspace s1"
    using set_status_ok[OF s1(2) e1 _ rl, of ENV_RUNNABLE] e(2) s1(4) by blast
  show ?thesis
    by (rule that[OF s1(1) s2(2,3)])
      (use s1(3,4,6) s2(4,5) e(2) in \<open>auto simp: s2(1) dir_of_def fun_eq_iff live_def\<close>)
qed

lemma fork_start:
  assumes inv: "kern_inv ext s" and c: "curenv s = Some c" "c \<in> live s" "cur_pgdir s = dir_of s c" "self_map s (dir_of s c)"
    and asid: "asid_set s \<noteq> {..<NASID}" and gen: "unat (mkenvid_i s) + 1 < 2 ^ 21"
    and ne: "\<not> LIST_EMPTY (env_free_list s)" "\<not> LIST_EMPTY (page_free_list s)"
    and room: "\<forall>x w. aspace s (dir_of s c) x = Some w \<longrightarrow>
        unat (pp_ref s (unat (PPN w))) + card (mappers s (dir_of s c) w) < 65535"
  obtains e s1 s2 where
    "(if env_user_tlb_mod_entry (envs s c) \<noteq> cow then ucall (sys_set_tlb_mod_entry 0 cow s) else Ret (0, s)) = Ret (0, s1)"
    "sys_exofork s1 = Ret (Back (uint (env_id (envs s2 e))), s2)" "env_id (envs s2 e) \<noteq> 0"
    "fork_ready ext c e (env_id (envs s2 e)) s2" "e \<notin> live s" "live s2 = insert e (live s)"
    "env_tf (envs s2 e) = (kstack_tf s)\<lparr>regs := (regs (kstack_tf s))(2 := 0)\<rparr>"
    "env_user_tlb_mod_entry (envs s2 c) = cow"
    "\<forall>x \<in> live s. aspace s2 (dir_of s2 x) = aspace s (dir_of s x)"
    "\<forall>x \<in> live s. \<forall>i w. aspace s (dir_of s x) i = Some w \<longrightarrow>
       unat (PPN w) \<in> tgt s2 ` ptes (dirs s2) s2 \<and> pmem s2 (unat (PPN w)) = pmem s (unat (PPN w))"
proof -
  obtain s1 where s1: "(if env_user_tlb_mod_entry (envs s c) \<noteq> cow then ucall (sys_set_tlb_mod_entry 0 cow s) else Ret (0, s)) = Ret (0, s1)"
    "kern_inv ext s1" "s1 = upd_env c (\<lambda>x. x\<lparr>env_user_tlb_mod_entry := cow\<rparr>) s"
    "live s1 = live s" "dir_of s1 = dir_of s" "aspace s1 = aspace s" by (rule fork_entry[OF inv c(1)])
  have pr: "pp_ref s1 = pp_ref s" "mappers s1 = mappers s"
    by (simp add: s1(3), simp add: mappers_def fun_eq_iff s1(6))
  have f1: "curenv s1 = Some c" "cur_pgdir s1 = dir_of s1 c" "self_map s1 (dir_of s1 c)" "asid_set s1 \<noteq> {..<NASID}"
    "unat (mkenvid_i s1) + 1 < 2 ^ 21" "kstack_tf s1 = kstack_tf s" "pmem s1 = pmem s"
    "\<not> LIST_EMPTY (env_free_list s1)" "\<not> LIST_EMPTY (page_free_list s1)"
    "\<forall>x w. aspace s1 (dir_of s1 c) x = Some w \<longrightarrow>
        unat (pp_ref s1 (unat (PPN w))) + card (mappers s1 (dir_of s1 c) w) < 65535"
    subgoal using c by (simp add: s1(3))
    subgoal unfolding s1(5) using c by (simp add: s1(3))
    subgoal unfolding s1(5) using c by (simp add: s1(3) self_map_def)
    subgoal using asid by (simp add: s1(3) asid_set_def)
    subgoal using gen by (simp add: s1(3))
    subgoal by (simp add: s1(3))
    subgoal by (simp add: s1(3))
    subgoal using ne by (simp add: s1(3))
    subgoal using ne by (simp add: s1(3))
    subgoal unfolding s1(5,6) pr by (rule room)
    done
  obtain fl pfl where I: "freeq s1 fl" "free_ok s1 pfl" "pm_inv ext (dirs s1) s1" by (rule kern_inv_exts[OF s1(2)])
  obtain e fl' p pfl' where fl: "fl = e # fl'" "pfl = p # pfl'"
    using f1(8,9) I(1,2) LIST_EMPTY_free_ok[OF I(2)] list_rep_empty[of "env_free_list s1"]
    by (cases fl; cases pfl) (auto simp: freeq_def)
  have cl: "c \<in> live s1" using c(2) s1(4) by simp
  obtain s2 where s2: "sys_exofork s1 = Ret (Back (uint (env_id (envs s2 e))), s2)" "kern_inv ext s2"
    "e \<notin> live s1" "live s2 = insert e (live s1)" "curenv s2 = Some c"
    "envid2env (env_id (envs s2 e)) True s2 = Ret (0, Some e)"
    "env_tf (envs s2 e) = (kstack_tf s1)\<lparr>regs := (regs (kstack_tf s1))(2 := 0)\<rparr>"
    "aspace s2 (dir_of s2 e) = Map.empty"
    "\<forall>x \<in> live s1. envs s2 x = envs s1 x \<and> aspace s2 (dir_of s2 x) = aspace s1 (dir_of s1 x)"
    "env_id (envs s2 e) \<noteq> 0" "cur_pgdir s2 = cur_pgdir s1" "\<forall>q. q \<noteq> p \<longrightarrow> pmem s2 q = pmem s1 q"
    by (rule exofork_ok[OF s1(2) f1(1) cl f1(4,5) I(1)[unfolded fl] I(2)[unfolded fl]])
  have pn: "p \<notin> dirs s1" "p \<notin> tgt s1 ` ptes (dirs s1) s1" using count_ok_free[OF I(3,2), of p] fl by auto
  note fr = fork_ready_child[OF s1(2) s2(2) cl f1(2,3,10) s2(3-6,8,9,11,12) pn(1)]
  have pages: "unat (PPN w) \<in> tgt s2 ` ptes (dirs s2) s2 \<and> pmem s2 (unat (PPN w)) = pmem s (unat (PPN w))"
    if "x \<in> live s" "aspace s (dir_of s x) i = Some w" for x i w
  proof -
    have x: "x \<in> live s2" "aspace s2 (dir_of s2 x) i = Some w" "dir_of s1 x \<in> dirs s1" "aspace s1 (dir_of s1 x) i = Some w"
      using that s1(4,5,6) s2(4,9) by auto
    have "pm_inv ext (dirs s2) s2" using s2(2) by (simp add: kern_inv_def)
    then have "unat (PPN w) \<in> tgt s2 ` ptes (dirs s2) s2" using mapped_refs(3)[OF _ _ x(2)] x(1) by blast
    moreover have "unat (PPN w) \<noteq> p" using mapped_refs(3)[OF I(3) x(3,4)] pn(2) by auto
    ultimately show ?thesis using s2(12) f1(7) by simp
  qed
  have "env_user_tlb_mod_entry (envs s2 c) = cow" using s2(9) cl by (simp add: s1(3))
  then show ?thesis
    using that[OF s1(1) s2(1,10) fr(1)] s2(3,4,7,9) s1(4-6) f1(6) pages by simp
qed

text \<open>
  C9. \<open>fork\<close>, called by the current environment with a page and an environment left: it returns the
  child's identifier; the child is runnable, has the parent's registers with 0 as the result of the
  system call, and both use \<open>cow_entry\<close> as their handler. Below the user stack top every writable
  page of the parent that is not shared has lost its dirty bit and is marked copy on write, in the
  parent and in the child; every other page is mapped in the child as in the parent. The child has
  all these pages unless the memory is exhausted. No other address space and no contents of a page
  change, and the kernel's invariant is kept.
\<close>

theorem fork_correct:
  assumes inv: "kern_inv ext s" and c: "curenv s = Some c" "c \<in> live s" "cur_pgdir s = dir_of s c" "self_map s (dir_of s c)"
    and asid: "asid_set s \<noteq> {..<NASID}" and gen: "unat (mkenvid_i s) + 1 < 2 ^ 21"
    and ne: "\<not> LIST_EMPTY (env_free_list s)" "\<not> LIST_EMPTY (page_free_list s)"
    and room: "\<forall>x w. aspace s (dir_of s c) x = Some w \<longrightarrow>
        unat (pp_ref s (unat (PPN w))) + card (mappers s (dir_of s c) w) < 65535"
  shows "\<exists>e s'. fork cow c s = Ret ((sint (env_id (envs s' e)), c), s') \<and> kern_inv ext s' \<and>
    e \<notin> live s \<and> live s' = insert e (live s) \<and> env_status (envs s' e) = ENV_RUNNABLE \<and>
    env_tf (envs s' e) = (kstack_tf s)\<lparr>regs := (regs (kstack_tf s))(2 := 0)\<rparr> \<and>
    env_user_tlb_mod_entry (envs s' e) = cow \<and> env_user_tlb_mod_entry (envs s' c) = cow \<and>
    aspace s' (dir_of s' c) = forked fork_range (aspace s (dir_of s c)) \<and>
    (\<forall>x. aspace s' (dir_of s' e) x = inherited fork_range (aspace s (dir_of s c)) x \<or>
       aspace s' (dir_of s' e) x = None \<and> LIST_EMPTY (page_free_list s')) \<and>
    (\<forall>x \<in> live s - {c}. aspace s' (dir_of s' x) = aspace s (dir_of s x)) \<and>
    (\<forall>x \<in> live s. \<forall>i w. aspace s (dir_of s x) i = Some w \<longrightarrow> pmem s' (unat (PPN w)) = pmem s (unat (PPN w)))"
proof -
  obtain e s1 s2 where s2:
    "(if env_user_tlb_mod_entry (envs s c) \<noteq> cow then ucall (sys_set_tlb_mod_entry 0 cow s) else Ret (0, s)) = Ret (0, s1)"
    "sys_exofork s1 = Ret (Back (uint (env_id (envs s2 e))), s2)" "env_id (envs s2 e) \<noteq> 0"
    "fork_ready ext c e (env_id (envs s2 e)) s2" "e \<notin> live s" "live s2 = insert e (live s)"
    "env_tf (envs s2 e) = (kstack_tf s)\<lparr>regs := (regs (kstack_tf s))(2 := 0)\<rparr>"
    "env_user_tlb_mod_entry (envs s2 c) = cow"
    "\<forall>x \<in> live s. aspace s2 (dir_of s2 x) = aspace s (dir_of s x)"
    "\<forall>x \<in> live s. \<forall>i w. aspace s (dir_of s x) i = Some w \<longrightarrow>
       unat (PPN w) \<in> tgt s2 ` ptes (dirs s2) s2 \<and> pmem s2 (unat (PPN w)) = pmem s (unat (PPN w))"
    by (rule fork_start[OF assms])
  let ?id = "env_id (envs s2 e)"
  have ns: "distinct [0..<unat (VPN USTACKTOP)]" "\<forall>i \<in> set [0..<unat (VPN USTACKTOP)]. i < 0x7f400"
    unfolding fork_range(2) by (simp_all only: distinct_upt set_upt) simp
  have rg: "{} \<union> (set [0..<unat (VPN USTACKTOP)] \<inter> {1022..}) = fork_range"
    unfolding fork_range by (simp only: set_upt) auto
  from fork_pages_ok[OF s2(4) duppage_start[OF s2(4)] ns(1) _ ns(2), unfolded rg] obtain s3 where
    s3: "fork_pages [0..<unat (VPN USTACKTOP)] ?id s2 = Ret s3" "dup_state ext c e s2 fork_range fork_range s3" by auto
  note D = dup_stateD[OF s3(2)]
  have R: "envid2env ?id True s2 = Ret (0, Some e)" "e \<in> live s2" using s2(4) unfolding fork_ready_def by blast+
  have e3: "envid2env ?id True s3 = Ret (0, Some e)" "e \<in> live s3" using R D(10) envid2env_cong[OF D(11,12)] by auto
  obtain s4 s5 where s5: "sys_set_tlb_mod_entry ?id cow s3 = Ret (Back 0, s4)"
    "sys_set_env_status ?id ENV_RUNNABLE s4 = Ret (Back 0, s5)" "kern_inv ext s5"
    "envs s5 = (envs s3)(e := (envs s3 e)\<lparr>env_user_tlb_mod_entry := cow, env_status := ENV_RUNNABLE\<rparr>)"
    "live s5 = live s3" "dir_of s5 = dir_of s3" "aspace s5 = aspace s3" "pmem s5 = pmem s3" "page_free_list s5 = page_free_list s3"
    by (rule fork_finish[OF D(1) e3])
  have ce: "c \<noteq> e" using c(2) s2(5) by auto
  have run: "fork cow c s = Ret ((sint (env_id (envs s5 e)), c), s5)"
    unfolding fork_def s2(1) using s2(2,3) s3(1) s5(1,2,4) D(11) by (simp add: Let_def)
  have fields: "env_status (envs s5 e) = ENV_RUNNABLE" "env_user_tlb_mod_entry (envs s5 e) = cow"
    "env_tf (envs s5 e) = (kstack_tf s)\<lparr>regs := (regs (kstack_tf s))(2 := 0)\<rparr>"
    "env_user_tlb_mod_entry (envs s5 c) = cow"
    using s5(4) D(11) s2(7,8) ce by simp_all
  have parent: "aspace s5 (dir_of s5 c) = forked fork_range (aspace s (dir_of s c))"
    using D(7) s5(6,7) D(9) s2(9) c(2) by simp
  have child: "\<forall>x. aspace s5 (dir_of s5 e) x = inherited fork_range (aspace s (dir_of s c)) x \<or>
       aspace s5 (dir_of s5 e) x = None \<and> LIST_EMPTY (page_free_list s5)"
    using D(8) s5(6,7,9) D(9) s2(9) c(2) by simp
  have others: "\<forall>x \<in> live s - {c}. aspace s5 (dir_of s5 x) = aspace s (dir_of s x)"
    using D(6) s5(6,7) D(9) s2(5,6,9) by auto
  have pages: "\<forall>x \<in> live s. \<forall>i w. aspace s (dir_of s x) i = Some w \<longrightarrow> pmem s5 (unat (PPN w)) = pmem s (unat (PPN w))"
  proof (intro ballI allI impI)
    fix x i w
    assume x: "x \<in> live s" "aspace s (dir_of s x) i = Some w"
    note p = s2(10)[rule_format, OF x]
    show "pmem s5 (unat (PPN w)) = pmem s (unat (PPN w))" using bspec[OF D(5) conjunct1[OF p]] p s5(8) by simp
  qed
  have "live s5 = insert e (live s)" using s5(5) D(10) s2(6) by simp
  then show ?thesis
    by (intro exI[of _ e] exI[of _ s5] conjI run s5(3) s2(5) fields parent child others pages)
qed


text \<open>
  A concrete kernel with 16 pages: environment 0 has the page 4 at \<open>UTEXT\<close>, with a page table entry
  that is a parameter, and the page 8 as its exception stack.
\<close>

definition user_kern :: "u32 \<Rightarrow> kern" where
  "user_kern w = demo_kern\<lparr>npage := 16, memsize := 65536,
     pp_ref := (\<lambda>_. 0)(0 := 1, 5 := 1, 3 := 1, 4 := 1, 6 := 1, 8 := 1),
     pmem := (\<lambda>_ _. 0)(0 := (\<lambda>_. 0)(1 := 0x3600, 508 := 0x6600, 511 := 0x200), 3 := (\<lambda>_. 0)(0 := w),
       6 := (\<lambda>_. 0)(1023 := 0x8600), 8 := (\<lambda>_. 0)(1021 := 0x400000))\<rparr>"

lemma user_kern_simps:
  "envs (user_kern w) = envs demo_kern" "live (user_kern w) = live demo_kern" "dir_of (user_kern w) = dir_of demo_kern"
  "page_free_list (user_kern w) = page_free_list demo_kern" "npage (user_kern w) = 16"
  "env_free_list (user_kern w) = env_free_list demo_kern" "asid_set (user_kern w) = asid_set demo_kern"
  "curenv (user_kern w) = Some 0" "mkenvid_i (user_kern w) = 2" "cur_pgdir (user_kern w) = 0"
  by (simp_all add: user_kern_def live_def dir_of_def fun_eq_iff asid_set_def) (simp_all add: demo_kern_def)

lemma user_kern_words: "pte_valid 0x3600" "pte_valid 0x6600" "pte_valid 0x8600" "\<not> pte_valid 0"
  "unat (PPN 0x3600) = 3" "unat (PPN 0x6600) = 6" "unat (PPN 0x8600) = 8"
  by (simp_all add: pte_valid_def mmu_defs)

lemma user_kern_mem:
  "pmem (user_kern w) 0 = (\<lambda>_. 0)(1 := 0x3600, 508 := 0x6600, 511 := 0x200)" "pmem (user_kern w) 3 = (\<lambda>_. 0)(0 := w)"
  "pmem (user_kern w) 6 = (\<lambda>_. 0)(1023 := 0x8600)" "pmem (user_kern w) 8 = (\<lambda>_. 0)(1021 := 0x400000)"
  "pmem (user_kern w) 5 = (\<lambda>_. 0)"
  by (simp_all add: user_kern_def)

lemma user_kern_dir0: "dir_of demo_kern 0 = 0"
  by (simp add: dir_of_def demo_env_def)

lemma user_kern_pdes: "pdes {0, 5} (user_kern w) = {(0, 1), (0, 508)}" "pt_of (user_kern w) 0 1 = 3" "pt_of (user_kern w) 0 508 = 6"
proof -
  show "pt_of (user_kern w) 0 1 = 3" "pt_of (user_kern w) 0 508 = 6"
    unfolding pt_of_def user_kern_mem by (simp_all add: user_kern_words)
  have "(d, i) \<in> pdes {0, 5} (user_kern w) \<longleftrightarrow> d = 0 \<and> (i = 1 \<or> i = 508)" for d i
    by (cases "d = 0"; cases "d = 5") (auto simp: pdes_def user_kern_mem user_kern_words user_pdes_def)
  then show "pdes {0, 5} (user_kern w) = {(0, 1), (0, 508)}" by (auto simp only: set_eq_iff split_paired_all insert_iff empty_iff prod.inject)
qed

lemma user_kern_ptes:
  assumes w: "pte_valid w" "unat (PPN w) = 4"
  shows "ptes {0, 5} (user_kern w) = {(0, 1, 0), (0, 508, 1023)}" "tables {0, 5} (user_kern w) = {3, 6}"
    "tgt (user_kern w) (0, 1, 0) = 4" "tgt (user_kern w) (0, 508, 1023) = 8"
proof -
  note pt = user_kern_pdes(2,3)[of w]
  show "tables {0, 5} (user_kern w) = {3, 6}"
    unfolding tables_def user_kern_pdes by (simp only: image_insert image_empty prod.case pt)
  show "tgt (user_kern w) (0, 1, 0) = 4" "tgt (user_kern w) (0, 508, 1023) = 8"
    unfolding tgt_def prod.case pt user_kern_mem by (simp_all add: user_kern_words w)
  have v: "pte_valid (pmem (user_kern w) 3 j) \<longleftrightarrow> j = 0" "pte_valid (pmem (user_kern w) 6 j) \<longleftrightarrow> j = 1023" for j
    unfolding user_kern_mem by (simp_all add: user_kern_words w)
  have "(d, i, j) \<in> ptes {0, 5} (user_kern w) \<longleftrightarrow>
      ((d, i) = (0, 1) \<or> (d, i) = (0, 508)) \<and> j < 1024 \<and> pte_valid (pmem (user_kern w) (pt_of (user_kern w) d i) j)" for d i j
    by (simp only: ptes_def user_kern_pdes mem_Collect_eq prod.case insert_iff empty_iff simp_thms)
  moreover have "(0 :: nat) < 1024" "(1023 :: nat) < 1024" by simp_all
  ultimately have "(d, i, j) \<in> ptes {0, 5} (user_kern w) \<longleftrightarrow> (d, i, j) = (0, 1, 0) \<or> (d, i, j) = (0, 508, 1023)" for d i j
    using pt v by (metis prod.inject)
  then show "ptes {0, 5} (user_kern w) = {(0, 1, 0), (0, 508, 1023)}"
    by (auto simp only: set_eq_iff split_paired_all insert_iff empty_iff simp_thms)
qed

lemma user_kern_free: "free_ok (user_kern w) [2, 1]"
  using demo_kern_free by (simp add: free_ok_def user_kern_simps) (simp add: user_kern_def)

lemma user_kern_inv:
  assumes w: "pte_valid w" "unat (PPN w) = 4"
  shows "kern_inv (\<lambda>_. 0) (user_kern w)"
proof -
  note pt = user_kern_ptes[OF w]
  have m: "map_refs {0, 5} (user_kern w) p = (if p = 4 \<or> p = 8 then 1 else 0)" for p
  proof -
    have "{x \<in> ptes {0, 5} (user_kern w). tgt (user_kern w) x = p} =
        (if p = 4 then {(0, 1, 0)} else if p = 8 then {(0, 508, 1023)} else {})"
      unfolding pt(1) using pt(3,4) by (auto simp del: One_nat_def) (metis gr0I)+
    then show ?thesis by (simp add: map_refs_def)
  qed
  have "count_ok (\<lambda>_. 0) {0, 5} (user_kern w)"
    unfolding count_ok_def pg_refs_def m pt(2) by (auto simp: user_kern_def)
  moreover have "pm_struct {0, 5} (user_kern w)"
    unfolding pm_struct_def pt(1,2) user_kern_pdes(1) user_kern_simps
    using pt(3,4) user_kern_pdes(2,3)[of w] by (auto simp del: One_nat_def)
  ultimately have pm: "pm_inv (\<lambda>_. 0) {0, 5} (user_kern w)" using user_kern_free by (auto simp: pm_inv_def)
  have "asid_ok (user_kern w)" "freeq (user_kern w) demo_free_envs" "runq (user_kern w) [0]"
    using demo_kern_inv demo_freeq demo_runq
    by (simp_all add: kern_inv_def asid_ok_def freeq_def runq_def user_kern_simps) (simp add: user_kern_def)
  then show ?thesis
    using pm conjunct1[OF conjunct2[OF conjunct2[OF demo_kern_inv[unfolded kern_inv_def]]]]
    unfolding kern_inv_def user_kern_simps demo_dirs by auto
qed

lemma user_kern_aspace:
  assumes w: "pte_valid w"
  shows "aspace (user_kern w) 0 = [(1, 0) \<mapsto> w, (508, 1023) \<mapsto> 0x8600]"
proof
  fix x :: "nat \<times> nat"
  obtain i j where x: "x = (i, j)" by (cases x)
  show "aspace (user_kern w) 0 x = ([(1, 0) \<mapsto> w, (508, 1023) \<mapsto> 0x8600]) x"
    by (cases "i = 1"; cases "i = 508")
      (auto simp: x aspace_def pt_of_def user_kern_mem user_kern_words user_pdes_def w)
qed

theorem fork_correct_witness:
  "\<exists>e s'. fork 0x400100 0 (user_kern 0x4600) = Ret ((sint (env_id (envs s' e)), 0), s') \<and> kern_inv (\<lambda>_. 0) s' \<and>
     aspace s' (dir_of s' 0) (1, 0) = Some 0x4201 \<and> aspace s' (dir_of s' e) (1, 0) \<in> {Some 0x4201, None}"
proof -
  let ?k = "user_kern 0x4600"
  have w: "pte_valid 0x4600" "unat (PPN 0x4600) = 4" by (simp_all add: pte_valid_def mmu_defs)
  note A = user_kern_aspace[OF w(1)]
  have pp: "unat (pp_ref ?k p) \<le> 1" for p by (simp add: user_kern_def)
  have room: "\<forall>x w. aspace ?k (dir_of ?k 0) x = Some w \<longrightarrow>
      unat (pp_ref ?k (unat (PPN w))) + card (mappers ?k (dir_of ?k 0) w) < 65535"
  proof (intro allI impI)
    fix x w
    have "mappers ?k 0 w \<subseteq> {(1, 0), (508, 1023)}" unfolding mappers_def A by (auto split: if_splits)
    then have "card (mappers ?k 0 w) \<le> card {(1 :: nat, 0 :: nat), (508, 1023)}" by (rule card_mono[rotated]) simp
    then show "unat (pp_ref ?k (unat (PPN w))) + card (mappers ?k (dir_of ?k 0) w) < 65535"
      using pp[of "unat (PPN w)"] unfolding user_kern_simps user_kern_dir0 by simp
  qed
  have "5 \<notin> asid_set ?k" "5 \<in> {..<NASID}" by (simp_all add: demo_asids user_kern_simps)
  then have asid: "asid_set ?k \<noteq> {..<NASID}" "unat (mkenvid_i ?k) + 1 < 2 ^ 21"
    by (metis, simp add: user_kern_simps)
  have "demo_free_envs \<noteq> []" unfolding demo_free_envs_def upt_eq_Nil_conv by simp
  then have ne: "\<not> LIST_EMPTY (env_free_list ?k)" "\<not> LIST_EMPTY (page_free_list ?k)"
    using demo_freeq LIST_EMPTY_free_ok[OF demo_kern_free] list_rep_empty[of "env_free_list demo_kern"]
    unfolding freeq_def user_kern_simps by auto
  have c: "0 \<in> live ?k" "cur_pgdir ?k = dir_of ?k 0" "self_map ?k (dir_of ?k 0)"
    unfolding user_kern_simps user_kern_dir0 self_map_def user_kern_mem by (simp_all add: demo_live page2pa_def PTE_V_def)
  have cw: "cow_pte 0x4600 = 0x4201" by (simp add: cow_pte_def mmu_defs)
  have r: "vpn_of (1, 0) \<in> fork_range" by (simp add: vpn_of_def fork_range)
  obtain e s' where s': "fork 0x400100 0 ?k = Ret ((sint (env_id (envs s' e)), 0), s')" "kern_inv (\<lambda>_. 0) s'"
    "aspace s' (dir_of s' 0) = forked fork_range (aspace ?k (dir_of ?k 0))"
    "\<forall>x. aspace s' (dir_of s' e) x = inherited fork_range (aspace ?k (dir_of ?k 0)) x \<or>
       aspace s' (dir_of s' e) x = None \<and> LIST_EMPTY (page_free_list s')"
    using fork_correct[OF user_kern_inv[OF w] user_kern_simps(8) c asid ne room, of "0x400100"] by blast
  have "aspace s' (dir_of s' 0) (1, 0) = Some 0x4201" "aspace s' (dir_of s' e) (1, 0) \<in> {Some 0x4201, None}"
    using s'(3) s'(4)[rule_format, of "(1, 0)"] r unfolding user_kern_simps user_kern_dir0 A
    by (auto simp: forked_def inherited_def cw)
  with s'(1,2) show ?thesis by blast
qed

end
