(* ===== verification/Cow.thy ===== *)
theory Cow
  imports Fork
begin

text \<open>
  The handler of writes to copy-on-write pages, \<open>cow_entry\<close> of \<^verbatim>\<open>user/lib/fork.c\<close>, and the isolation
  of parent and child that it gives: a write to such a page goes to a private copy.
\<close>

section \<open>The handler\<close>

text \<open>
  \<open>memcpy\<close> between page boundaries takes the path that copies word by word. \<open>tfp\<close> points to the trap
  frame that \<open>do_tlb_mod\<close> has saved on the user exception stack; its word 35 is \<open>cp0_badvaddr\<close>. The
  last system call does not come back when it succeeds: it loads the registers from the frame.
\<close>

fun ucopy :: "u32 \<Rightarrow> u32 \<Rightarrow> nat \<Rightarrow> kern \<Rightarrow> kern res" where
  "ucopy dst src 0 s = Ret s"
| "ucopy dst src (Suc n) s = rbind (uload src s) (\<lambda>(w, s). rbind (ustore dst w s) (ucopy (dst + 4) (src + 4) n))"

definition cow_entry :: "u32 \<Rightarrow> kern \<Rightarrow> kern res" where
  "cow_entry tfp s =
     rbind (uload (tfp + 4 * 35) s) (\<lambda>(va, s).
     rbind (uload (vpt_addr + 4 * VPN va) s) (\<lambda>(pte, s).
     let perm = pte AND 0xFFF
     in if perm AND PTE_COW = 0 then Panic ''perm without PTE_COW''
        else
          let perm = (perm - PTE_COW) OR PTE_D
          in rbind (ucall (sys_mem_alloc 0 UCOW perm s)) (\<lambda>(_, s).
             rbind (ucopy UCOW (ROUNDDOWN va BY2PG) 1024 s) (\<lambda>s.
             rbind (ucall (sys_mem_map 0 UCOW 0 va perm s)) (\<lambda>(_, s).
             rbind (ucall (sys_mem_unmap 0 UCOW s)) (\<lambda>(_, s).
             rbind (ucall (sys_set_trapframe 0 tfp s)) (\<lambda>(r, s).
             if is_illegal_va_range tfp sizeof_Trapframe then Panic ''syscall_set_trapframe returned'' else Ret s)))))))"

section \<open>Stores to user pages\<close>

lemma aligned_word:
  assumes b: "unat b mod 4096 = 0" and k: "k < 1024"
  shows "vidx (b + 4 * of_nat k) = vidx b" "unat (b + 4 * of_nat k) mod 4096 div 4 = k" "(b + 4 * of_nat k) mod 4 = 0"
    "b < UTOP \<Longrightarrow> b + 4 * of_nat k < UTOP"
proof -
  obtain m where m: "unat b = 4096 * m" using b by (metis mod_0_imp_dvd dvdE)
  have lt: "4096 * m < 4294967296" using unat_lt32[of b] m by simp
  then have m20: "m < 1048576" by simp
  have u: "unat (b + 4 * of_nat k) = 4096 * m + 4 * k"
    using k m m20 by (simp add: unat_word_ariths unat_of_nat)
  have d: "(4096 * m + 4 * k) div 4096 = m" "(4096 * m + 4 * k) mod 4096 = 4 * k" using k by simp_all
  have "(4096 * m + 4 * k) div 4194304 = (4096 * m + 4 * k) div 4096 div 1024" by (simp add: div_mult2_eq[symmetric])
  then show "vidx (b + 4 * of_nat k) = vidx b" unfolding vidx_def unat_PDX unat_PTX u m d by (simp add: div_mult2_eq[symmetric])
  show "unat (b + 4 * of_nat k) mod 4096 div 4 = k" unfolding u d by simp
  show "(b + 4 * of_nat k) mod 4 = 0" unfolding word_unat_eq_iff unat_mod u by simp
  show "b + 4 * of_nat k < UTOP" if "b < UTOP"
    using that k unfolding word_less_nat_alt u m by (simp add: mmu_defs) 
qed


lemma user_page_store:
  assumes inv: "kern_inv ext s" and p: "p \<in> tgt s ` ptes (dirs s) s" and s': "s' = s\<lparr>pmem := (pmem s)(p := f)\<rparr>"
  shows "kern_inv ext s'" "\<forall>d \<in> dirs s. aspace s' d = aspace s d" "tgt s' ` ptes (dirs s) s' = tgt s ` ptes (dirs s) s"
    "dirs s' = dirs s" "pm.more s' = pm.more s" "npage s' = npage s" "\<forall>d \<in> dirs s. pmem s' d = pmem s d"
proof -
  obtain pfl where I: "pm_inv ext (dirs s) s" "pm_struct (dirs s) s" "free_ok s pfl" by (rule kern_inv_exts[OF inv])
  have n: "p \<notin> dirs s" "p \<notin> tables (dirs s) s" using p I(2) by (auto simp: pm_struct_def)
  have c: "pmem s' q = pmem s q" if "q \<in> dirs s \<or> q \<in> tables (dirs s) s" for q
    using that n by (auto simp: s')
  then have e: "\<And>q. q \<in> dirs s \<Longrightarrow> pmem s' q = pmem s q" "\<And>q. q \<in> tables (dirs s) s \<Longrightarrow> pmem s' q = pmem s q" by auto
  note rc = refs_cong[OF e]
  show m: "pm.more s' = pm.more s" "npage s' = npage s" by (simp_all add: s')
  show "\<forall>d \<in> dirs s. aspace s' d = aspace s d" using aspace_cong[OF e] by blast
  show "tgt s' ` ptes (dirs s) s' = tgt s ` ptes (dirs s) s" using rc(4,5) by auto
  show "\<forall>d \<in> dirs s. pmem s' d = pmem s d" using e by blast
  have "pm_struct (dirs s) s'" by (rule pm_struct_cong[OF I(2) m(2) e])
  moreover have "free_ok s' pfl" using I(3) by (simp add: free_ok_def s')
  moreover have "count_ok ext (dirs s) s'" using I(1) rc(7) by (simp add: pm_inv_def count_ok_def s')
  ultimately have "pm_inv ext (dirs s) s'" by (auto simp: pm_inv_def)
  then show "kern_inv ext s'" by (rule kern_inv_pm[OF inv m(1) _ m(2)])
  show "dirs s' = dirs s" using kern_inv_more_D[OF m(1)] by simp
qed

lemma ucopy_ok:
  assumes "kern_inv ext s" "cur_pgdir s \<in> dirs s"
    "aspace s (cur_pgdir s) (vidx dst) = Some wd" "wd AND PTE_D \<noteq> 0" "aspace s (cur_pgdir s) (vidx src) = Some ws"
    "unat (PPN wd) \<noteq> unat (PPN ws)" "unat dst mod 4096 = 0" "unat src mod 4096 = 0" "dst < UTOP" "src < UTOP" "k + n \<le> 1024"
  shows "ucopy (dst + 4 * of_nat k) (src + 4 * of_nat k) n s =
    Ret (s\<lparr>pmem := (pmem s)(unat (PPN wd) := (\<lambda>j. if k \<le> j \<and> j < k + n then pmem s (unat (PPN ws)) j else pmem s (unat (PPN wd)) j))\<rparr>)"
  using assms
proof (induction n arbitrary: k s)
  case 0
  have "(\<lambda>j. if k \<le> j \<and> j < k + 0 then pmem s (unat (PPN ws)) j else pmem s (unat (PPN wd)) j) = pmem s (unat (PPN wd))"
    by (auto simp: fun_eq_iff)
  then show ?case by simp
next
  case (Suc n)
  let ?d = "cur_pgdir s" and ?pd = "unat (PPN wd)" and ?ps = "unat (PPN ws)"
  have k: "k < 1024" "Suc k + n \<le> 1024" using Suc.prems(11) by auto
  note ad = aligned_word[OF Suc.prems(7) k(1)] and as = aligned_word[OF Suc.prems(8) k(1)]
  have I: "pm_inv ext (dirs s) s" "pm_struct (dirs s) s" using Suc.prems(1) by (auto simp: kern_inv_def pm_inv_def)
  have ld: "uload (src + 4 * of_nat k) s = Ret (pmem s ?ps k, s)"
    using uload_user[OF I(2) Suc.prems(2) as(4)[OF Suc.prems(10)] _ as(3)] Suc.prems(5) by (simp add: as(1,2))
  define s1 where "s1 = s\<lparr>pmem := (pmem s)(?pd := (pmem s ?pd)(k := pmem s ?ps k))\<rparr>"
  have st: "ustore (dst + 4 * of_nat k) (pmem s ?ps k) s = Ret s1"
    using ustore_user[OF I(2) Suc.prems(2) ad(4)[OF Suc.prems(9)] _ ad(3)] Suc.prems(3,4)
    by (simp add: ad(1,2) store_word_def s1_def)
  have t: "?pd \<in> tgt s ` ptes (dirs s) s" by (rule mapped_refs(3)[OF I(1) Suc.prems(2,3)])
  note u = user_page_store[OF Suc.prems(1) t s1_def]
  have c1: "cur_pgdir s1 = ?d" by (simp add: s1_def)
  have IH: "ucopy (dst + 4 * of_nat (Suc k)) (src + 4 * of_nat (Suc k)) n s1 =
    Ret (s1\<lparr>pmem := (pmem s1)(?pd := (\<lambda>j. if Suc k \<le> j \<and> j < Suc k + n then pmem s1 ?ps j else pmem s1 ?pd j))\<rparr>)"
    by (rule Suc.IH) (use u(1,2,4) c1 Suc.prems k in auto)
  have nx: "dst + 4 * of_nat k + 4 = dst + 4 * of_nat (Suc k)" "src + 4 * of_nat k + 4 = src + 4 * of_nat (Suc k)"
    by (simp_all add: algebra_simps)
  have r: "ucopy (dst + 4 * of_nat k) (src + 4 * of_nat k) (Suc n) s =
    Ret (s1\<lparr>pmem := (pmem s1)(?pd := (\<lambda>j. if Suc k \<le> j \<and> j < Suc k + n then pmem s1 ?ps j else pmem s1 ?pd j))\<rparr>)"
    by (simp only: ucopy.simps ld st rbind_simps prod.case nx IH)
  have "(\<lambda>j. if Suc k \<le> j \<and> j < Suc k + n then pmem s1 ?ps j else pmem s1 ?pd j) =
      (\<lambda>j. if k \<le> j \<and> j < k + Suc n then pmem s ?ps j else pmem s ?pd j)"
    using Suc.prems(6) by (auto simp: s1_def fun_eq_iff)
  moreover have "s1\<lparr>pmem := (pmem s1)(?pd := f)\<rparr> = s\<lparr>pmem := (pmem s)(?pd := f)\<rparr>" for f
    unfolding s1_def by (simp add: fun_upd_def cong: if_cong)
  ultimately show ?case unfolding r by (simp only:)
qed


section \<open>The system calls of the handler\<close>

lemma alloc_call_ok:
  assumes inv: "kern_inv ext s" and e: "envid2env envid True s = Ret (0, Some e)" "e \<in> live s"
    and va: "\<not> is_illegal_va va" and perm: "perm < 4096" and fl: "free_ok s fl" "2 \<le> length fl"
  obtains p s' where "sys_mem_alloc envid va perm s = Ret (Back 0, s')" "kern_inv ext s'" "pm.more s' = pm.more s"
    "p \<in> set fl" "p < npage s" "npage s' = npage s"
    "\<forall>x \<in> live s. aspace s' (dir_of s x) = (if x = e
       then (aspace s (dir_of s x))(vidx va \<mapsto> page2pa p OR perm OR PTE_V) else aspace s (dir_of s x))"
    "\<forall>d \<in> dirs s. \<forall>k \<ge> user_pdes. pmem s' d k = pmem s d k" "\<forall>q \<in> tgt s ` ptes (dirs s) s. pmem s' q = pmem s q"
proof -
  let ?d = "env_pgdir (envs s e)"
  obtain p x xs where "fl = p # x # xs" using fl(2) by (cases fl; cases "tl fl") auto
  then obtain fl' where pf: "fl = p # fl'" "fl' \<noteq> []" by simp
  obtain I: "pm_inv ext (dirs s) s" "inj_on (dir_of s) (live s)" "pm_struct (dirs s) s" by (rule kern_inv_exts[OF inv])
  obtain s1 where s1: "page_alloc s = Ret ((0, Some p), s1)" "pm_inv ext (dirs s) s1" "free_ok s1 fl'"
    "pmem s1 = (pmem s)(p := (\<lambda>_. 0))" "npage s1 = npage s" "pp_ref s1 = pp_ref s" "pm.more s1 = pm.more s"
    "p \<notin> set fl'" "tables (dirs s) s1 = tables (dirs s) s" "tgt s1 ` ptes (dirs s) s1 = tgt s ` ptes (dirs s) s"
    "\<forall>d \<in> dirs s. aspace s1 d = aspace s d"
    by (rule page_alloc_some[OF I(1) fl(1)[unfolded pf]])
  have k1: "kern_inv ext s1" by (rule kern_inv_pm[OF inv s1(7,2,5)])
  note m = kern_inv_more_D[OF s1(7)]
  have pr: "p < npage s" "pp_ref s p = 0" using fl pf by (simp_all add: free_ok_def)
  have nr: "p \<notin> dirs s" "p \<notin> tables (dirs s) s" using count_ok_free[OF I(1) fl(1), of p] pf by auto
  have can: "can_insert (dirs s1) s1 (p, perm)"
    using pr nr s1 perm page_is_free_iff[OF s1(3)] by (simp add: can_insert_def m)
  have v: "va < UTOP" using va by (simp add: is_illegal_va_def not_le)
  have i: "unat (PDX va) < user_pdes" using PDX_UTOP[OF v] by (simp add: user_pdes_def)
  have el: "e \<in> live s1" using e(2) m by simp
  obtain r s2 where s2: "page_insert (env_pgdir (envs s1 e)) (env_asid (envs s e)) p va perm s1 = Ret (r, s2)"
    "kern_inv ext s2" "pm.more s2 = pm.more s1" "npage s2 = npage s1"
    "\<forall>d \<in> dirs s1. aspace s2 d = (if d = env_pgdir (envs s1 e) \<and> r = 0
        then (aspace s1 d)(vidx va \<mapsto> page2pa p OR perm OR PTE_V) else aspace s1 d)"
    "r = 0 \<or> r = - E_NO_MEM" "r = - E_NO_MEM \<longrightarrow> LIST_EMPTY (page_free_list s1)"
    by (rule kern_insert[OF k1 el v can, where asid = "env_asid (envs s e)"])
  have r0: "r = 0" using s2(6,7) LIST_EMPTY_free_ok[OF s1(3)] pf(2) by auto
  have run: "sys_mem_alloc envid va perm s = Ret (Back 0, s2)"
    using va e s1(1) s2(1) m r0 by (simp add: sys_mem_alloc_def with_env_ok)
  have d: "?d \<in> dirs s" using e(2) by (rule live_dir)
  have fr: "pmem s2 q k = pmem s1 q k" if "(q, k) \<noteq> (?d, unat (PDX va))" "q \<notin> tables (dirs s) s" "q \<notin> set fl'" for q k
    using page_insert_mem[OF s1(2,3) d i s2(1)[unfolded m] that(1)] that(2,3) s1(9) by simp
  have nd: "q \<notin> tables (dirs s) s \<and> q \<notin> set fl \<and> q \<noteq> p" if "q \<in> dirs s \<or> q \<in> tgt s ` ptes (dirs s) s" for q
    using that I(3) count_ok_free[OF I(1) fl(1), of q] pf by (auto simp: pm_struct_def)
  have a: "\<forall>x \<in> live s. aspace s2 (dir_of s x) = (if x = e
       then (aspace s (dir_of s x))(vidx va \<mapsto> page2pa p OR perm OR PTE_V) else aspace s (dir_of s x))"
    using s2(5) s1(11) m e(2) r0 inj_on_eq_iff[OF I(2), of _ e] by (auto simp: dir_of_def)
  have b: "\<forall>d \<in> dirs s. \<forall>k \<ge> user_pdes. pmem s2 d k = pmem s d k"
  proof (intro ballI allI impI)
    fix d k
    assume "d \<in> dirs s" "user_pdes \<le> k"
    then show "pmem s2 d k = pmem s d k" using fr[of d k] nd[of d] s1(4) i pf by auto
  qed
  have g: "\<forall>q \<in> tgt s ` ptes (dirs s) s. pmem s2 q = pmem s q"
  proof
    fix q
    assume q: "q \<in> tgt s ` ptes (dirs s) s"
    then have "q \<noteq> ?d" using I(3) d by (auto simp: pm_struct_def)
    then show "pmem s2 q = pmem s q" using fr[of q] nd[of q] q s1(4) pf by auto
  qed
  show ?thesis by (rule that[OF run s2(2) _ _ pr(1) _ a b g]) (use s2(3,4) s1(5,7) pf in auto)
qed

lemma unmap_call_ok:
  assumes inv: "kern_inv ext s" and e: "envid2env envid False s = Ret (0, Some e)" "e \<in> live s"
    and va: "\<not> is_illegal_va va"
  obtains s' where "sys_mem_unmap envid va s = Ret (Back 0, s')" "kern_inv ext s'" "pm.more s' = pm.more s"
    "\<forall>x \<in> live s. aspace s' (dir_of s x) = (if x = e then (aspace s (dir_of s x))(vidx va := None) else aspace s (dir_of s x))"
    "\<forall>q. q \<notin> tables (dirs s) s \<longrightarrow> pmem s' q = pmem s q"
proof -
  obtain pfl where I: "pm_inv ext (dirs s) s" "inj_on (dir_of s) (live s)" "free_ok s pfl" by (rule kern_inv_exts[OF inv])
  have d: "env_pgdir (envs s e) \<in> dirs s" using e(2) by (rule live_dir)
  have "va < UTOP" using va by (simp add: is_illegal_va_def not_le)
  then have i: "unat (PDX va) < user_pdes" using PDX_UTOP by (simp add: user_pdes_def)
  obtain s' where s': "page_remove (env_pgdir (envs s e)) (env_asid (envs s e)) va s = Ret s'" "pm_inv ext (dirs s) s'"
    "\<forall>d' \<in> dirs s. aspace s' d' = (if d' = env_pgdir (envs s e) then (aspace s (env_pgdir (envs s e)))(vidx va := None) else aspace s d')"
    "npage s' = npage s" "pm.more s' = pm.more s" "\<forall>q. q \<notin> tables (dirs s) s \<longrightarrow> pmem s' q = pmem s q"
    by (rule page_remove_ok[OF I(1,3) d i, where asid = "env_asid (envs s e)"])
  show ?thesis
  proof (rule that[OF _ _ s'(5) _ s'(6)])
    show "sys_mem_unmap envid va s = Ret (Back 0, s')" using va e s'(1) by (simp add: sys_mem_unmap_def with_env_ok)
    show "kern_inv ext s'" by (rule kern_inv_pm[OF inv s'(5,2,4)])
    show "\<forall>x \<in> live s. aspace s' (dir_of s x) = (if x = e then (aspace s (dir_of s x))(vidx va := None) else aspace s (dir_of s x))"
      using s'(3) e(2) inj_on_eq_iff[OF I(2), of _ e] by (auto simp: dir_of_def)
  qed
qed


section \<open>Reading user memory\<close>

definition uword :: "kern \<Rightarrow> nat \<Rightarrow> u32 \<Rightarrow> u32 option" where
  "uword s x va = map_option (\<lambda>w. pmem s (unat (PPN w)) (unat va mod 4096 div 4)) (aspace s (dir_of s x) (vidx va))"

abbreviation runs :: "(nat \<Rightarrow> nat) \<Rightarrow> nat \<Rightarrow> kern \<Rightarrow> bool" where
  "runs ext c s \<equiv> kern_inv ext s \<and> curenv s = Some c \<and> c \<in> live s \<and> cur_pgdir s = dir_of s c"

lemma runs_step: "runs ext c s \<Longrightarrow> kern_inv ext s' \<Longrightarrow> pm.more s' = pm.more s \<Longrightarrow> runs ext c s'"
  using kern_inv_more_D[of s' s] pm_more_fields[of s' s] by simp

lemma uload_view:
  assumes "runs ext c s" "va < UTOP" "va mod 4 = 0" "uword s c va = Some w"
  shows "uload va s = Ret (w, s)"
proof -
  have "pm_struct (dirs s) s" "cur_pgdir s \<in> dirs s" using assms(1) by (auto simp: kern_inv_def pm_inv_def)
  from uload_user[OF this assms(2) _ assms(3)] assms(1,4) show ?thesis by (auto simp: uword_def)
qed

lemma word_mod_4: "(va + 4 :: u32) mod 4 = va mod 4"
  by (simp add: word_unat_eq_iff unat_mod unat_word_ariths mod_mod_cancel)

lemma uloads_view:
  "runs ext c s \<Longrightarrow> (\<forall>k < n. va + 4 * of_nat k < UTOP \<and> uword s c (va + 4 * of_nat k) = Some (f k)) \<Longrightarrow> va mod 4 = 0 \<Longrightarrow>
    uloads va n s = Ret (map f [0..<n], s)"
proof (induction n arbitrary: va f)
  case (Suc n)
  have a: "(va + 4) mod 4 = 0" using Suc.prems(3) by (simp add: word_mod_4)
  have v: "uload va s = Ret (f 0, s)" using uload_view[OF Suc.prems(1) _ Suc.prems(3)] Suc.prems(2)[rule_format, of 0] by simp
  have "\<forall>k < n. (va + 4) + 4 * of_nat k < UTOP \<and> uword s c ((va + 4) + 4 * of_nat k) = Some (f (Suc k))"
  proof (intro allI impI)
    fix k
    assume "k < n"
    then show "(va + 4) + 4 * of_nat k < UTOP \<and> uword s c ((va + 4) + 4 * of_nat k) = Some (f (Suc k))"
      using Suc.prems(2)[rule_format, of "Suc k"] by (simp add: algebra_simps)
  qed
  from Suc.IH[OF Suc.prems(1) this a] have "uloads (va + 4) n s = Ret (map (\<lambda>k. f (Suc k)) [0..<n], s)" by simp
  then show ?case unfolding map_upt_Suc uloads.simps v by simp
qed simp

lemma vpt_entry:
  assumes r: "runs ext c s" and self: "self_map s (dir_of s c)" and va: "va < UTOP"
    and w: "aspace s (dir_of s c) (vidx va) = Some w"
  shows "uload (vpt_addr + 4 * VPN va) s = Ret (w, s)"
proof -
  let ?d = "dir_of s c" and ?n = "unat (VPN va)"
  have st: "pm_struct (dirs s) s" "?d \<in> dirs s" using r by (auto simp: kern_inv_def pm_inv_def)
  have n: "?n = unat va div 4096" using unat_PPN[of va] by (simp add: VPN_def PPN_def)
  have q: "?n div 1024 = unat (PDX va)" "?n mod 1024 = unat (PTX va)" "?n < 2 ^ 20"
    using unat_lt32[of va] by (simp_all add: n unat_PDX unat_PTX div_mult2_eq[symmetric])
  have i: "unat (PDX va) < user_pdes" using PDX_UTOP[OF va] by (simp add: user_pdes_def)
  have v: "pte_valid (pmem s ?d (unat (PDX va)))" "w = pmem s (pt_of s ?d (unat (PDX va))) (unat (PTX va))"
    using w by (auto simp: aspace_def vidx_def split: if_splits)
  have "(?d, unat (PDX va)) \<in> pdes (dirs s) s" using st(2) v i by (simp add: pdes_def)
  then have "pt_of s ?d (unat (PDX va)) < npage s" using st(1) pt_of_in by (fastforce simp: pm_struct_def)
  then show ?thesis
    using uvpt_load[OF st self q(3)] v r by (simp add: q(1,2) pt_of_def)
qed


section \<open>The effect of the handler\<close>

definition private_pte :: "nat \<Rightarrow> u32 \<Rightarrow> u32" where
  "private_pte p w = page2pa p OR (((w AND 0xFFF) - PTE_COW) OR PTE_D) OR PTE_V"

definition cow_ready :: "(nat \<Rightarrow> nat) \<Rightarrow> nat \<Rightarrow> u32 \<Rightarrow> u32 \<Rightarrow> u32 \<Rightarrow> kern \<Rightarrow> bool" where
  "cow_ready ext c tfp va w s \<longleftrightarrow> runs ext c s \<and> self_map s (dir_of s c) \<and>
     \<not> is_illegal_va va \<and> vidx va \<noteq> vidx UCOW \<and> aspace s (dir_of s c) (vidx va) = Some w \<and> w AND PTE_COW \<noteq> 0 \<and>
     uword s c (tfp + 4 * 35) = Some va \<and> tfp mod 4 = 0 \<and> \<not> is_illegal_va_range tfp sizeof_Trapframe \<and>
     (\<forall>k < 38. uword s c (tfp + 4 * of_nat k) \<noteq> None \<and> vidx (tfp + 4 * of_nat k) \<notin> {vidx va, vidx UCOW}) \<and>
     (\<exists>fl. free_ok s fl \<and> 2 \<le> length fl)"

lemma private_pte:
  assumes w: "w AND PTE_COW \<noteq> 0" and p: "p < npage s" "npage s \<le> 2 ^ 20"
  shows "((w AND 0xFFF) - PTE_COW) OR PTE_D < 4096" "unat (PPN (private_pte p w)) = p" "private_pte p w AND PTE_D \<noteq> 0"
    "(w AND 0xFFF) AND PTE_COW \<noteq> 0"
proof -
  have b: "bit (w AND 0xFFF) 0" using w low_bit[of 0 w] by (simp add: flag_bit(4))
  then show "(w AND 0xFFF) AND PTE_COW \<noteq> 0" by (simp add: flag_bit(4))
  have e: "((w AND 0xFFF) - PTE_COW) OR PTE_D = (((w AND NOT PTE_COW) OR PTE_D) AND 0xFFF)"
    unfolding minus_COW[OF b] unfolding mask12 by (rule bit_word_eqI) (auto simp: bit_simps pte_bits)
  have "((w AND NOT PTE_COW) OR PTE_D) AND 0xFFF \<le> 0xFFF" by (rule word_and_le1)
  then show l: "((w AND 0xFFF) - PTE_COW) OR PTE_D < 4096" unfolding e by (simp add: word_le_nat_alt word_less_nat_alt)
  show "unat (PPN (private_pte p w)) = p" unfolding private_pte_def by (rule pte_word(2)[OF p l])
  show "private_pte p w AND PTE_D \<noteq> 0" unfolding flag_bit by (simp add: private_pte_def bit_or_iff pte_bits)
qed

lemma UCOW_facts: "\<not> is_illegal_va UCOW" "unat UCOW mod 4096 = 0" "UCOW < UTOP"
  by (simp_all add: is_illegal_va_def mmu_defs)

lemma rounddown_page:
  "unat (ROUNDDOWN va BY2PG) mod 4096 = 0" "vidx (ROUNDDOWN va BY2PG) = vidx va" "va < UTOP \<Longrightarrow> ROUNDDOWN va BY2PG < UTOP"
proof -
  have e: "ROUNDDOWN va BY2PG = PTE_ADDR va" by (simp add: ROUNDDOWN_def BY2PG_def PTE_ADDR_def)
  then show "vidx (ROUNDDOWN va BY2PG) = vidx va" by simp
  have u: "unat (PTE_ADDR va) = unat va div 4096 * 4096"
  proof -
    have "PTE_ADDR va = push_bit 12 (drop_bit 12 va)"
      unfolding PTE_ADDR_def mask12 by (rule bit_word_eqI) (auto simp: bit_simps)
    then show ?thesis using unat_lt32[of va]
      by (simp add: push_bit_eq_mult drop_bit_eq_div unat_word_ariths unat_div)
  qed
  show "unat (ROUNDDOWN va BY2PG) mod 4096 = 0" unfolding e u by simp
  show "ROUNDDOWN va BY2PG < UTOP" if "va < UTOP"
    using that unfolding word_less_nat_alt e u by (metis div_times_less_eq_dividend le_less_trans)
qed

lemma users_one:
  assumes inv: "pm_inv ext D s" and p: "p \<notin> tgt s ` ptes D s" and d: "d \<in> D" "aspace s' d i = Some e" "unat (PPN e) = p"
    and old: "\<And>d' y v. d' \<in> D \<Longrightarrow> aspace s' d' y = Some v \<Longrightarrow> (d', y) = (d, i) \<or> aspace s d' y = Some v"
  shows "users D s' p = {(d, i)}"
proof
  show "users D s' p \<subseteq> {(d, i)}"
    using old mapped_refs(3)[OF inv] p by (fastforce simp: users_def)
  show "{(d, i)} \<subseteq> users D s' p" using d by (simp add: users_def)
qed

text \<open>The allocation at \<open>UCOW\<close> and the copy.\<close>

lemma cow_copy:
  assumes r: "cow_ready ext c tfp va w s"
  obtains p s1 s2 where "sys_mem_alloc 0 UCOW (((w AND 0xFFF) - PTE_COW) OR PTE_D) s = Ret (Back 0, s1)"
    "ucopy UCOW (ROUNDDOWN va BY2PG) 1024 s1 = Ret s2" "runs ext c s2" "self_map s2 (dir_of s c)" "pm.more s2 = pm.more s"
    "npage s2 = npage s" "page_is_free s p" "p < npage s"
    "\<forall>x \<in> live s. aspace s2 (dir_of s x) = (if x = c
       then (aspace s (dir_of s x))(vidx UCOW \<mapsto> private_pte p w) else aspace s (dir_of s x))"
    "\<forall>q \<in> tgt s ` ptes (dirs s) s. q \<noteq> p \<and> pmem s2 q = pmem s q" "\<forall>k < 1024. pmem s2 p k = pmem s (unat (PPN w)) k"
    "unat (pp_ref s2 p) = 1"
proof -
  have R: "runs ext c s" "self_map s (dir_of s c)" "\<not> is_illegal_va va" "vidx va \<noteq> vidx UCOW"
    "aspace s (dir_of s c) (vidx va) = Some w" "w AND PTE_COW \<noteq> 0" using r unfolding cow_ready_def by blast+
  obtain fl where fl: "free_ok s fl" "2 \<le> length fl" using r unfolding cow_ready_def by blast
  have I: "pm_inv ext (dirs s) s" "npage s \<le> 2 ^ 20" "dir_of s c \<in> dirs s"
    using R(1) by (auto simp: kern_inv_def)
  let ?perm = "((w AND 0xFFF) - PTE_COW) OR PTE_D" and ?q = "unat (PPN w)"
  have perm: "?perm < 4096" using private_pte(1)[OF R(6), of 0 s] R(6) private_pte(1) mapped_refs(2)[OF I(1,3) R(5)] I(2) by blast
  have id: "envid2env 0 True s = Ret (0, Some c)" using R(1) by (simp add: envid2env_def)
  have inv: "kern_inv ext s" "c \<in> live s" using R(1) by auto
  obtain p s1 where s1: "sys_mem_alloc 0 UCOW ?perm s = Ret (Back 0, s1)" "kern_inv ext s1" "pm.more s1 = pm.more s"
    "p \<in> set fl" "p < npage s" "npage s1 = npage s"
    "\<forall>x \<in> live s. aspace s1 (dir_of s x) = (if x = c
       then (aspace s (dir_of s x))(vidx UCOW \<mapsto> page2pa p OR ?perm OR PTE_V) else aspace s (dir_of s x))"
    "\<forall>d \<in> dirs s. \<forall>k \<ge> user_pdes. pmem s1 d k = pmem s d k" "\<forall>q \<in> tgt s ` ptes (dirs s) s. pmem s1 q = pmem s q"
    by (rule alloc_call_ok[OF inv(1) id inv(2) UCOW_facts(1) perm fl])
  note m = kern_inv_more_D[OF s1(3)]
  have p: "p \<notin> tgt s ` ptes (dirs s) s" "ext p = 0" using count_ok_free[OF I(1) fl(1) s1(4)] by auto
  have ent: "page2pa p OR ?perm OR PTE_V = private_pte p w" by (simp add: private_pte_def)
  have R1: "runs ext c s1" by (rule runs_step[OF R(1) s1(2,3)])
  have q: "?q \<in> tgt s ` ptes (dirs s) s" by (rule mapped_refs(3)[OF I(1,3) R(5)])
  note pw = private_pte[OF R(6) s1(5) I(2)]
  have c1: "cur_pgdir s1 \<in> dirs s1" "cur_pgdir s1 = dir_of s c" using R1 m by auto
  have a1: "aspace s1 (dir_of s c) = (aspace s (dir_of s c))(vidx UCOW \<mapsto> private_pte p w)" using s1(7) inv(2) ent by simp
  define s2 where "s2 = s1\<lparr>pmem := (pmem s1)(p := (\<lambda>j. if 0 \<le> j \<and> j < 0 + 1024 then pmem s1 ?q j else pmem s1 p j))\<rparr>"
  have cp: "ucopy (UCOW + 4 * of_nat 0) (ROUNDDOWN va BY2PG + 4 * of_nat 0) 1024 s1 =
      Ret (s1\<lparr>pmem := (pmem s1)(unat (PPN (private_pte p w)) := (\<lambda>j. if 0 \<le> j \<and> j < 0 + 1024 then pmem s1 ?q j else pmem s1 (unat (PPN (private_pte p w))) j))\<rparr>)"
    by (rule ucopy_ok[OF s1(2) c1(1)])
      (use c1(2) a1 R(3-5) pw(2,3) p(1) q UCOW_facts rounddown_page[of va] in \<open>auto simp: is_illegal_va_def not_le\<close>)
  have I1: "pm_inv ext (dirs s1) s1" "dir_of s c \<in> dirs s1" using s1(2) c1 by (auto simp: kern_inv_def)
  have t1: "p \<in> tgt s1 ` ptes (dirs s1) s1"
    using mapped_refs(3)[OF I1, of "vidx UCOW" "private_pte p w"] a1 pw(2) by simp
  note u = user_page_store[OF s1(2) t1 s2_def]
  have us: "users (dirs s1) s1 p = {(dir_of s c, vidx UCOW)}"
    unfolding m by (rule users_one[OF I(1) p(1) I(3) _ pw(2)]) (use s1(7) ent a1 in \<open>auto split: if_splits\<close>)
  have "unat (pp_ref s1 p) = 1" using mapped_refs(1)[OF I1, of "vidx UCOW" "private_pte p w"] a1 pw(2) us p(2) by simp
  moreover have "pp_ref s2 = pp_ref s1" by (simp add: s2_def)
  moreover have "self_map s2 (dir_of s c)"
    using bspec[OF u(7) I1(2)] bspec[OF s1(8) I(3)] R(2) by (simp add: self_map_def user_pdes_def)
  ultimately have ref: "unat (pp_ref s2 p) = 1" "self_map s2 (dir_of s c)" by simp_all
  have cp': "ucopy UCOW (ROUNDDOWN va BY2PG) 1024 s1 = Ret s2"
    using cp[unfolded pw(2), folded s2_def] by simp
  have fr: "page_is_free s p" using page_is_free_iff[OF fl(1)] s1(4) by simp
  have asp: "\<forall>x \<in> live s. aspace s2 (dir_of s x) = (if x = c
       then (aspace s (dir_of s x))(vidx UCOW \<mapsto> private_pte p w) else aspace s (dir_of s x))"
    using u(2) s1(7) m ent by simp
  have "\<forall>q \<in> tgt s ` ptes (dirs s) s. q \<noteq> p" using p(1) by blast
  then have old: "\<forall>q \<in> tgt s ` ptes (dirs s) s. q \<noteq> p \<and> pmem s2 q = pmem s q" using s1(9) by (simp add: s2_def)
  have new: "\<forall>k < 1024. pmem s2 p k = pmem s (unat (PPN w)) k" using bspec[OF s1(9) q] by (simp add: s2_def)
  show ?thesis
    by (rule that[OF s1(1) cp' runs_step[OF R1 u(1,5)] ref(2) _ _ fr s1(5) asp old new ref(1)])
      (simp_all add: u(5,6) s1(3,6))
qed


text \<open>Moving the copy into place.\<close>

lemma cow_move:
  assumes r: "cow_ready ext c tfp va w s"
    and s2: "runs ext c s2" "pm.more s2 = pm.more s" "npage s2 = npage s" "page_is_free s p" "p < npage s"
    "\<forall>x \<in> live s. aspace s2 (dir_of s x) = (if x = c
       then (aspace s (dir_of s x))(vidx UCOW \<mapsto> private_pte p w) else aspace s (dir_of s x))"
    "\<forall>q \<in> tgt s ` ptes (dirs s) s. q \<noteq> p \<and> pmem s2 q = pmem s q" "unat (pp_ref s2 p) = 1"
  obtains s3 s4 where "sys_mem_map 0 UCOW 0 va (((w AND 0xFFF) - PTE_COW) OR PTE_D) s2 = Ret (Back 0, s3)"
    "sys_mem_unmap 0 UCOW s3 = Ret (Back 0, s4)" "runs ext c s4" "pm.more s4 = pm.more s"
    "\<forall>x \<in> live s. aspace s4 (dir_of s x) = (if x = c
       then (aspace s (dir_of s x))(vidx UCOW := None, vidx va \<mapsto> private_pte p w) else aspace s (dir_of s x))"
    "pmem s4 p = pmem s2 p"
    "\<forall>x \<in> live s. \<forall>y v. aspace s (dir_of s x) y = Some v \<and> \<not> (x = c \<and> y \<in> {vidx va, vidx UCOW}) \<longrightarrow>
       pmem s4 (unat (PPN v)) = pmem s2 (unat (PPN v))"
proof -
  have R: "runs ext c s" "\<not> is_illegal_va va" "vidx va \<noteq> vidx UCOW"
    "aspace s (dir_of s c) (vidx va) = Some w" "w AND PTE_COW \<noteq> 0" using r unfolding cow_ready_def by blast+
  have I: "pm_inv ext (dirs s) s" "npage s \<le> 2 ^ 20" using R(1) by (auto simp: kern_inv_def)
  let ?perm = "((w AND 0xFFF) - PTE_COW) OR PTE_D"
  note pw = private_pte[OF R(5) s2(5) I(2)] and m = kern_inv_more_D[OF s2(2)]
  have id2: "envid2env 0 True s2 = Ret (0, Some c)" and k2: "kern_inv ext s2" "c \<in> live s2"
    using s2(1) by (simp_all add: envid2env_def)
  have u2: "aspace s2 (dir_of s2 c) (vidx UCOW) = Some (private_pte p w)" using s2(6) m k2(2) by simp
  have ref: "unat (pp_ref s2 (unat (PPN (private_pte p w)))) < 65535" using s2(8) pw(2) by simp
  obtain r s3 where s3: "sys_mem_map 0 UCOW 0 va ?perm s2 = Ret (Back r, s3)" "kern_inv ext s3" "pm.more s3 = pm.more s2"
    "\<forall>x \<in> live s2. aspace s3 (dir_of s2 x) = (if x = c \<and> r = 0
       then (aspace s2 (dir_of s2 x))(vidx va \<mapsto> page2pa (unat (PPN (private_pte p w))) OR ?perm OR PTE_V)
       else aspace s2 (dir_of s2 x))"
    "r \<noteq> 0 \<longrightarrow> LIST_EMPTY (page_free_list s2) \<and> aspace s2 (dir_of s2 c) (vidx va) = None"
    "\<forall>q \<in> tgt s2 ` ptes (dirs s2) s2. pmem s3 q = pmem s2 q"
    by (rule map_call_ok[OF k2(1) id2 k2(2) id2 k2(2) UCOW_facts(1) R(2) pw(1) u2 ref])
  have "aspace s2 (dir_of s2 c) (vidx va) = Some w" using s2(6) m k2(2) R(3,4) by simp
  then have r0: "r = 0" using s3(5) by auto
  have ent: "page2pa p OR ?perm OR PTE_V = private_pte p w" by (simp add: private_pte_def)
  have R3: "runs ext c s3" by (rule runs_step[OF s2(1) s3(2,3)])
  note m3 = kern_inv_more_D[OF s3(3)]
  have id3: "envid2env 0 False s3 = Ret (0, Some c)" and k3: "kern_inv ext s3" "c \<in> live s3"
    using R3 by (simp_all add: envid2env_def)
  obtain s4 where s4: "sys_mem_unmap 0 UCOW s3 = Ret (Back 0, s4)" "kern_inv ext s4" "pm.more s4 = pm.more s3"
    "\<forall>x \<in> live s3. aspace s4 (dir_of s3 x) = (if x = c then (aspace s3 (dir_of s3 x))(vidx UCOW := None) else aspace s3 (dir_of s3 x))"
    "\<forall>q. q \<notin> tables (dirs s3) s3 \<longrightarrow> pmem s4 q = pmem s3 q"
    by (rule unmap_call_ok[OF k3(1) id3 k3(2) UCOW_facts(1)])
  have asp: "\<forall>x \<in> live s. aspace s4 (dir_of s x) = (if x = c
       then (aspace s (dir_of s x))(vidx UCOW := None, vidx va \<mapsto> private_pte p w) else aspace s (dir_of s x))"
    using s4(4) s3(4) s2(6) m m3 r0 R(3) pw(2) ent by (auto simp: fun_upd_twist)
  have I2: "pm_inv ext (dirs s) s2" "pm_inv ext (dirs s) s3" using k2(1) k3(1) m m3 by (auto simp: kern_inv_def)
  have keep: "pmem s4 (unat (PPN v)) = pmem s2 (unat (PPN v))"
    if "aspace s2 d y = Some v" "aspace s3 d y' = Some v" "d \<in> dirs s" for d y y' v
  proof -
    have "unat (PPN v) \<in> tgt s2 ` ptes (dirs s2) s2" using mapped_refs(3)[OF I2(1) that(3,1)] m by simp
    from bspec[OF s3(6) this] have "pmem s3 (unat (PPN v)) = pmem s2 (unat (PPN v))" .
    moreover have "unat (PPN v) \<notin> tables (dirs s) s3"
      using mapped_refs(3)[OF I2(2) that(3,2)] I2(2) by (auto simp: pm_inv_def pm_struct_def)
    ultimately show ?thesis using s4(5) m m3 by simp
  qed
  have dc: "dir_of s c \<in> dirs s" using R(1) by simp
  have a3: "aspace s3 (dir_of s c) (vidx va) = Some (private_pte p w)" using s3(4) m k2(2) r0 pw(2) ent by simp
  have mp: "pmem s4 p = pmem s2 p" using keep[OF _ a3 dc] u2 m pw(2) by simp
  have mem: "\<forall>x \<in> live s. \<forall>y v. aspace s (dir_of s x) y = Some v \<and> \<not> (x = c \<and> y \<in> {vidx va, vidx UCOW}) \<longrightarrow>
       pmem s4 (unat (PPN v)) = pmem s2 (unat (PPN v))"
  proof (intro ballI allI impI)
    fix x y v
    assume "x \<in> live s" "aspace s (dir_of s x) y = Some v \<and> \<not> (x = c \<and> y \<in> {vidx va, vidx UCOW})"
    then show "pmem s4 (unat (PPN v)) = pmem s2 (unat (PPN v))"
      using keep[of "dir_of s x" y v y] s2(6) s3(4) m by (cases "x = c") auto
  qed
  show ?thesis
    by (rule that[OF s3(1)[unfolded r0] s4(1) runs_step[OF R3 s4(2,3)] _ asp mp mem]) (simp add: s4(3) s3(3) s2(2))
qed


lemma tf_addr:
  assumes "\<not> is_illegal_va_range tfp sizeof_Trapframe" "tfp mod 4 = 0" "k < 38"
  shows "tfp + 4 * of_nat k < UTOP" "(tfp + 4 * of_nat k) mod 4 = 0"
proof -
  have m: "(unat tfp + 152) mod 4294967296 = (if unat tfp + 152 < 4294967296 then unat tfp + 152 else unat tfp + 152 - 4294967296)"
    using unat_lt32[of tfp] by (simp add: le_mod_geq)
  have "\<not> tfp + 152 < tfp" "\<not> tfp + 152 > UTOP"
    using assms(1) by (simp_all add: is_illegal_va_range_def sizeof_Trapframe_def)
  then have g: "unat tfp + 152 \<le> unat UTOP"
    using unat_lt32[of tfp] by (simp add: word_less_nat_alt unat_word_ariths m split: if_splits)
  have u: "unat (tfp + 4 * of_nat k) = unat tfp + 4 * k"
    using assms(3) g by (simp add: unat_word_ariths unat_of_nat mmu_defs)
  show "tfp + 4 * of_nat k < UTOP" using assms(3) g unfolding word_less_nat_alt u by simp
  have "unat tfp mod 4 = 0" using assms(2) by (simp add: word_unat_eq_iff unat_mod)
  then show "(tfp + 4 * of_nat k) mod 4 = 0" unfolding word_unat_eq_iff unat_mod u by simp
qed

lemma cow_entry_ok:
  assumes r: "cow_ready ext c tfp va w s"
  obtains p s' where "cow_entry tfp s = Ret s'" "runs ext c s'" "dir_of s' = dir_of s" "live s' = live s"
    "kstack_tf s' = tf_of_words (map (\<lambda>k. the (uword s c (tfp + 4 * of_nat k))) [0..<38])"
    "page_is_free s p" "p < npage s" "p \<notin> tgt s ` ptes (dirs s) s"
    "\<forall>x \<in> live s. aspace s' (dir_of s x) = (if x = c
       then (aspace s (dir_of s x))(vidx UCOW := None, vidx va \<mapsto> private_pte p w) else aspace s (dir_of s x))"
    "\<forall>k < 1024. pmem s' p k = pmem s (unat (PPN w)) k"
    "\<forall>x \<in> live s. \<forall>y. \<not> (x = c \<and> vidx y \<in> {vidx va, vidx UCOW}) \<longrightarrow> uword s' x y = uword s x y"
proof -
  have R: "runs ext c s" "self_map s (dir_of s c)" "\<not> is_illegal_va va" "aspace s (dir_of s c) (vidx va) = Some w"
    "w AND PTE_COW \<noteq> 0" "uword s c (tfp + 4 * 35) = Some va" "tfp mod 4 = 0" "\<not> is_illegal_va_range tfp sizeof_Trapframe"
    "\<forall>k < 38. uword s c (tfp + 4 * of_nat k) \<noteq> None \<and> vidx (tfp + 4 * of_nat k) \<notin> {vidx va, vidx UCOW}"
    using r unfolding cow_ready_def by blast+
  let ?perm = "((w AND 0xFFF) - PTE_COW) OR PTE_D"
  note tf = tf_addr[OF R(8,7)]
  have l1: "uload (tfp + 4 * 35) s = Ret (va, s)" using uload_view[OF R(1) _ _ R(6)] tf[of 35] by simp
  have l2: "uload (vpt_addr + 4 * VPN va) s = Ret (w, s)"
    using vpt_entry[OF R(1,2) _ R(4)] R(3) by (simp add: is_illegal_va_def not_le)
  obtain p s1 s2 where c2: "sys_mem_alloc 0 UCOW ?perm s = Ret (Back 0, s1)"
    "ucopy UCOW (ROUNDDOWN va BY2PG) 1024 s1 = Ret s2" "runs ext c s2" "pm.more s2 = pm.more s"
    "npage s2 = npage s" "page_is_free s p" "p < npage s"
    "\<forall>x \<in> live s. aspace s2 (dir_of s x) = (if x = c
       then (aspace s (dir_of s x))(vidx UCOW \<mapsto> private_pte p w) else aspace s (dir_of s x))"
    "\<forall>q \<in> tgt s ` ptes (dirs s) s. q \<noteq> p \<and> pmem s2 q = pmem s q" "\<forall>k < 1024. pmem s2 p k = pmem s (unat (PPN w)) k"
    "unat (pp_ref s2 p) = 1" by (rule cow_copy[OF r])
  obtain s3 s4 where c4: "sys_mem_map 0 UCOW 0 va ?perm s2 = Ret (Back 0, s3)"
    "sys_mem_unmap 0 UCOW s3 = Ret (Back 0, s4)" "runs ext c s4" "pm.more s4 = pm.more s"
    "\<forall>x \<in> live s. aspace s4 (dir_of s x) = (if x = c
       then (aspace s (dir_of s x))(vidx UCOW := None, vidx va \<mapsto> private_pte p w) else aspace s (dir_of s x))"
    "pmem s4 p = pmem s2 p"
    "\<forall>x \<in> live s. \<forall>y v. aspace s (dir_of s x) y = Some v \<and> \<not> (x = c \<and> y \<in> {vidx va, vidx UCOW}) \<longrightarrow>
       pmem s4 (unat (PPN v)) = pmem s2 (unat (PPN v))"
    by (rule cow_move[OF r c2(3-9,11)])
  note m = kern_inv_more_D[OF c4(4)]
  have I: "pm_inv ext (dirs s) s" using R(1) by (simp add: kern_inv_def)
  have view: "uword s4 x y = uword s x y" if x: "x \<in> live s" "\<not> (x = c \<and> vidx y \<in> {vidx va, vidx UCOW})" for x y
  proof -
    have a: "aspace s4 (dir_of s x) (vidx y) = aspace s (dir_of s x) (vidx y)" using c4(5) x by auto
    show ?thesis
    proof (cases "aspace s (dir_of s x) (vidx y)")
      case (Some v)
      then have "pmem s4 (unat (PPN v)) = pmem s (unat (PPN v))"
        using c4(7)[rule_format, OF x(1)] x(2) bspec[OF c2(9) mapped_refs(3)[OF I _ Some]] x(1) by simp
      then show ?thesis using a Some m by (simp add: uword_def)
    qed (use a m in \<open>simp add: uword_def\<close>)
  qed
  have cl: "c \<in> live s" using R(1) by simp
  define ws where "ws = map (\<lambda>k. the (uword s c (tfp + 4 * of_nat k))) [0..<38]"
  have "uloads tfp 38 s4 = Ret (ws, s4)"
    unfolding ws_def by (rule uloads_view[OF c4(3)]) (use tf R(7,9) view[OF cl] in auto)
  then have st: "sys_set_trapframe 0 tfp s4 = Ret (Back (sint (regs (tf_of_words ws) 2)), s4\<lparr>kstack_tf := tf_of_words ws\<rparr>)"
    using R(8) c4(3) by (simp add: sys_set_trapframe_def with_env_def envid2env_def Let_def)
  define s' where "s' = s4\<lparr>kstack_tf := tf_of_words ws\<rparr>"
  have "npage s \<le> 2 ^ 20" using R(1) by (auto simp: kern_inv_def)
  note np = private_pte(4)[OF R(5) c2(7) this]
  have run: "cow_entry tfp s = Ret s'"
    using l1 l2 c2(1,2) c4(1,2) st R(8) np unfolding cow_entry_def by (simp add: Let_def s'_def)
  obtain rl where "runq s4 rl" using c4(3) by (auto simp: kern_inv_def)
  then have rq: "runq s' rl" by (simp add: runq_def s'_def)
  have k: "kern_inv ext s'" "live s' = live s4" "dir_of s' = dir_of s4" "aspace s' = aspace s4"
    by (rule kern_inv_same[OF conjunct1[OF c4(3)] _ _ _ _ _ _ _ _ _ rq]; simp add: s'_def)+
  have mm: "pmem s' = pmem s4" "curenv s' = curenv s4" "cur_pgdir s' = cur_pgdir s4" by (simp_all add: s'_def)
  have "p \<notin> tgt s ` ptes (dirs s) s" using c2(9) by blast
  then show ?thesis
    using that[OF run _ _ _ _ c2(6,7)] c2(10) c4(3,5,6) k mm m view
    by (simp add: s'_def ws_def uword_def)
qed


lemma aligned_eq:
  assumes v: "vidx x = vidx y" and k: "unat x mod 4096 div 4 = unat y mod 4096 div 4" and a: "x mod 4 = 0" "y mod 4 = (0 :: u32)"
  shows "x = y"
proof -
  have "VPN x = VPN y" using v PDX_PTX_eq_iff[of x y] by (simp add: vidx_def)
  then have d: "unat x div 4096 = unat y div 4096" using unat_PPN[of x] unat_PPN[of y] by (simp add: VPN_def PPN_def)
  have m: "unat z mod 4096 = 4 * (unat z mod 4096 div 4)" if "z mod 4 = (0 :: u32)" for z
  proof -
    have "unat z mod 4 = 0" using that by (simp add: word_unat_eq_iff unat_mod)
    then have "unat z mod 4096 mod 4 = 0" by (simp add: mod_mod_cancel)
    then show ?thesis by (metis add.right_neutral mult_div_mod_eq)
  qed
  have "unat x mod 4096 = unat y mod 4096" using m[OF a(1)] m[OF a(2)] k by simp
  with d have "unat x = unat y" by (metis div_mod_decomp)
  then show ?thesis by (simp add: word_unat_eq_iff)
qed

text \<open>A store to a page that is mapped once changes one word of one environment.\<close>

lemma private_store_view:
  assumes r: "runs ext c s" and one: "users (dirs s) s p = {(dir_of s c, i)}"
    and e: "aspace s (dir_of s c) i = Some e" "unat (PPN e) = p"
    and s': "s' = s\<lparr>pmem := (pmem s)(p := (pmem s p)(k := v))\<rparr>"
  shows "kern_inv ext s'"
    "x \<in> live s \<Longrightarrow> uword s' x y = (if x = c \<and> vidx y = i
       then Some (if unat y mod 4096 div 4 = k then v else pmem s p (unat y mod 4096 div 4)) else uword s x y)"
proof -
  have t: "p \<in> tgt s ` ptes (dirs s) s" using one unfolding users_ptes by auto
  note u = user_page_store[OF conjunct1[OF r] t s']
  show "kern_inv ext s'" by (rule u)
  show "uword s' x y = (if x = c \<and> vidx y = i
       then Some (if unat y mod 4096 div 4 = k then v else pmem s p (unat y mod 4096 div 4)) else uword s x y)"
    if x: "x \<in> live s"
  proof (cases "aspace s (dir_of s x) (vidx y)")
    case None
    then show ?thesis using u(2) x kern_inv_more_D(1)[OF u(5)] e(1) by (auto simp: uword_def)
  next
    case (Some z)
    have a: "aspace s' (dir_of s x) (vidx y) = Some z" using Some u(2) x by simp
    have "unat (PPN z) = p \<longleftrightarrow> (dir_of s x, vidx y) = (dir_of s c, i)"
      using one Some x e by (auto simp: users_def)
    moreover have "dir_of s x = dir_of s c \<longleftrightarrow> x = c" using r x by (auto simp: kern_inv_def inj_on_eq_iff)
    ultimately show ?thesis using a Some kern_inv_more_D(1)[OF u(5)] e by (auto simp: uword_def s')
  qed
qed

text \<open>
  C10. A write to a copy-on-write page, when two pages of memory are left: \<open>cow_entry\<close> gives the
  writer a page that was free, writable, with the contents of the old one, restores the registers
  that were saved, and the write, repeated, succeeds. Afterwards the writer reads the value it wrote
  there, every other word of its memory (but the scratch page \<open>UCOW\<close>) is what it was, and no other
  environment sees any change of its memory. The kernel's invariant is kept.
\<close>

theorem cow_write_private:
  assumes r: "cow_ready ext c tfp va w s" and al: "va mod 4 = 0"
  shows "\<exists>s' s''. cow_entry tfp s = Ret s' \<and> kern_inv ext s' \<and>
    kstack_tf s' = tf_of_words (map (\<lambda>k. the (uword s c (tfp + 4 * of_nat k))) [0..<38]) \<and>
    (\<exists>p. page_is_free s p \<and>
       aspace s' (dir_of s c) = (aspace s (dir_of s c))(vidx UCOW := None, vidx va \<mapsto> private_pte p w)) \<and>
    ustore va v s' = Ret s'' \<and> kern_inv ext s'' \<and> uword s'' c va = Some v \<and>
    (\<forall>y. y mod 4 = 0 \<and> y \<noteq> va \<and> vidx y \<noteq> vidx UCOW \<longrightarrow> uword s'' c y = uword s c y) \<and>
    (\<forall>x \<in> live s - {c}. \<forall>y. uword s'' x y = uword s x y)"
proof -
  have R: "runs ext c s" "\<not> is_illegal_va va" "vidx va \<noteq> vidx UCOW" "aspace s (dir_of s c) (vidx va) = Some w"
    "w AND PTE_COW \<noteq> 0" using r unfolding cow_ready_def by blast+
  obtain p s' where s': "cow_entry tfp s = Ret s'" "runs ext c s'" "dir_of s' = dir_of s" "live s' = live s"
    "kstack_tf s' = tf_of_words (map (\<lambda>k. the (uword s c (tfp + 4 * of_nat k))) [0..<38])"
    "page_is_free s p" "p < npage s" "p \<notin> tgt s ` ptes (dirs s) s"
    "\<forall>x \<in> live s. aspace s' (dir_of s x) = (if x = c
       then (aspace s (dir_of s x))(vidx UCOW := None, vidx va \<mapsto> private_pte p w) else aspace s (dir_of s x))"
    "\<forall>k < 1024. pmem s' p k = pmem s (unat (PPN w)) k"
    "\<forall>x \<in> live s. \<forall>y. \<not> (x = c \<and> vidx y \<in> {vidx va, vidx UCOW}) \<longrightarrow> uword s' x y = uword s x y"
    by (rule cow_entry_ok[OF r])
  have np: "npage s \<le> 2 ^ 20" and cl: "c \<in> live s" using R(1) by (auto simp: kern_inv_def)
  note pw = private_pte[OF R(5) s'(7) np]
  have I: "pm_inv ext (dirs s) s" "pm_inv ext (dirs s) s'" "pm_struct (dirs s) s'"
    using R(1) s'(2-4) by (auto simp: kern_inv_def pm_inv_def)
  have ac: "aspace s' (dir_of s c) = (aspace s (dir_of s c))(vidx UCOW := None, vidx va \<mapsto> private_pte p w)"
    using s'(9) cl by simp
  define k where "k = unat va mod 4096 div 4"
  define s'' where "s'' = store_word (p, k) v s'"
  have cur: "cur_pgdir s' = dir_of s c" "cur_pgdir s' \<in> dirs s" using s'(2,3) cl by auto
  have st: "ustore va v s' = Ret s''"
    using ustore_user[OF I(3) cur(2) _ _ al pw(3)] R(2) ac cur(1) pw(2) by (simp add: s''_def k_def is_illegal_va_def not_le)
  have one: "users (dirs s) s' p = {(dir_of s c, vidx va)}"
    by (rule users_one[OF I(1) s'(8) _ _ pw(2)]) (use s'(9) ac cl in \<open>auto split: if_splits\<close>)
  have e: "s'' = s'\<lparr>pmem := (pmem s')(p := (pmem s' p)(k := v))\<rparr>" by (simp add: s''_def store_word_def)
  have view: "kern_inv ext s''"
    "x \<in> live s \<Longrightarrow> uword s'' x y = (if x = c \<and> vidx y = vidx va
       then Some (if unat y mod 4096 div 4 = k then v else pmem s' p (unat y mod 4096 div 4)) else uword s' x y)" for x y
    using private_store_view[OF s'(2) _ _ pw(2) e] one ac s'(3,4) by simp_all
  have f1: "uword s'' c y = uword s c y" if y: "y mod 4 = 0" "y \<noteq> va" "vidx y \<noteq> vidx UCOW" for y
  proof (cases "vidx y = vidx va")
    case True
    then have "unat y mod 4096 div 4 \<noteq> k" using aligned_eq[OF True _ y(1) al] y(2) by (auto simp: k_def)
    moreover have "unat y mod 4096 div 4 < 1024" by (simp add: less_mult_imp_div_less)
    ultimately show ?thesis using view(2)[OF cl, of y] True s'(10) R(4) by (simp add: uword_def)
  next
    case False
    then show ?thesis using view(2)[OF cl, of y] s'(11) cl y(3) by simp
  qed
  have f2: "uword s'' x y = uword s x y" if "x \<in> live s - {c}" for x y
    using view(2)[of x y] s'(11) that by simp
  have f3: "uword s'' c va = Some v" using view(2)[OF cl, of va] by (simp add: k_def)
  show ?thesis
    by (rule exI[of _ s'], rule exI[of _ s''], intro conjI exI[of _ p] s'(1,5,6) ac st view(1) f3 conjunct1[OF s'(2)])
      (use f1 f2 in auto)
qed


lemma tfp_words:
  assumes "k < 38"
  shows "unat (0x7f3fff68 + 4 * of_nat k :: u32) = 0x7f3fff68 + 4 * k" "vidx (0x7f3fff68 + 4 * of_nat k) = (508, 1023)"
    "unat (0x7f3fff68 + 4 * of_nat k :: u32) mod 4096 div 4 = 986 + k"
proof -
  show u: "unat (0x7f3fff68 + 4 * of_nat k :: u32) = 0x7f3fff68 + 4 * k"
    using assms by (simp add: unat_word_ariths unat_of_nat)
  have d: "(0x7f3fff68 + 4 * k) div 4194304 = 508" "(0x7f3fff68 + 4 * k) div 4096 = 521215"
    using assms by (intro div_nat_eqI; simp)+
  show "vidx (0x7f3fff68 + 4 * of_nat k) = (508, 1023)"
    unfolding vidx_def unat_PDX unat_PTX u using d by simp
  have "(0x7f3fff68 + 4 * k) mod 4096 = 3944 + 4 * k"
    using minus_mult_div_eq_mod[of "0x7f3fff68 + 4 * k" 4096] unfolding d(2) by simp
  then show "unat (0x7f3fff68 + 4 * of_nat k :: u32) mod 4096 div 4 = 986 + k" unfolding u by simp
qed

lemma cow_ready_demo: "cow_ready (\<lambda>_. 0) 0 0x7f3fff68 0x400000 0x4201 (user_kern 0x4201)"
proof -
  let ?k = "user_kern 0x4201"
  have w: "pte_valid 0x4201" "unat (PPN 0x4201) = 4" by (simp_all add: pte_valid_def mmu_defs)
  note A = user_kern_aspace[OF w(1)]
  have r: "runs (\<lambda>_. 0) 0 ?k"
    using user_kern_inv[OF w] by (simp add: user_kern_simps demo_live user_kern_dir0)
  have self: "self_map ?k (dir_of ?k 0)"
    unfolding user_kern_simps user_kern_dir0 self_map_def user_kern_mem by (simp add: page2pa_def PTE_V_def)
  have vi: "vidx 0x400000 = (1, 0)" "vidx UCOW = (0, 1023)" by (simp_all add: vidx_def unat_PDX unat_PTX mmu_defs)
  have va: "\<not> is_illegal_va 0x400000" "\<not> is_illegal_va_range 0x7f3fff68 sizeof_Trapframe"
    by (simp_all add: is_illegal_va_def is_illegal_va_range_def sizeof_Trapframe_def mmu_defs)
  have tf: "uword ?k 0 (0x7f3fff68 + 4 * of_nat k) = Some (if k = 35 then 0x400000 else 0)" if "k < 38" for k
  proof -
    have "aspace ?k (dir_of ?k 0) (508, 1023) = Some 0x8600" unfolding user_kern_simps user_kern_dir0 A by simp
    moreover have "pmem ?k 8 (986 + k) = (if k = 35 then 0x400000 else 0)" by (simp add: user_kern_mem)
    ultimately show ?thesis unfolding uword_def tfp_words(2,3)[OF that] by (simp add: user_kern_words)
  qed
  have "uword ?k 0 (0x7f3fff68 + 4 * 35) = Some 0x400000" using tf[of 35] by simp
  moreover have "\<forall>k < 38. uword ?k 0 (0x7f3fff68 + 4 * of_nat k) \<noteq> None \<and>
      vidx (0x7f3fff68 + 4 * of_nat k) \<notin> {vidx 0x400000, vidx UCOW}"
    using tf by (simp add: tfp_words vi)
  moreover have "aspace ?k (dir_of ?k 0) (vidx 0x400000) = Some 0x4201"
    unfolding user_kern_simps user_kern_dir0 A vi by simp
  moreover have "(0x4201 :: u32) AND PTE_COW \<noteq> 0" "(0x7f3fff68 :: u32) mod 4 = 0" by (simp_all add: PTE_COW_def)
  moreover have "\<exists>fl. free_ok ?k fl \<and> 2 \<le> length fl" using user_kern_free by (intro exI[of _ "[2, 1]"]) simp
  moreover have "vidx 0x400000 \<noteq> vidx UCOW" by (simp add: vi)
  ultimately show ?thesis using r self va unfolding cow_ready_def by blast
qed

theorem cow_write_private_witness:
  "\<exists>s' s''. cow_entry 0x7f3fff68 (user_kern 0x4201) = Ret s' \<and> ustore 0x400000 7 s' = Ret s'' \<and>
     uword s'' 0 0x400000 = Some 7 \<and> (\<forall>y. uword s'' 1 y = uword (user_kern 0x4201) 1 y)"
proof -
  have "1 \<in> live (user_kern 0x4201) - {0}" by (simp add: user_kern_simps demo_live)
  with cow_write_private[OF cow_ready_demo, of 7] show ?thesis by fastforce
qed

end
