(* ===== verification/Token.thy ===== *)
theory Token
  imports Strings
begin

text \<open>
  The tokenizer of the shell, \<open>_gettoken\<close> and \<open>gettoken\<close> of \<^verbatim>\<open>user/sh.c\<close>, on the bytes of the command
  buffer. It overwrites blanks and symbols with NUL bytes, so that the words it has found become
  strings in place; \<open>gettoken\<close> reads one token ahead, which is what terminates the word it returns.
  Loops over memory that holds no NUL byte do not end: their result is \<open>None\<close>. The membership tests
  \<open>strchr(WHITESPACE, c)\<close> and \<open>strchr(SYMBOLS, c)\<close> are tests on the sets of characters.
\<close>

section \<open>The code\<close>

definition WHITESPACE :: "u8 set" where "WHITESPACE = {32, 9, 13, 10}"
definition SYMBOLS :: "u8 set" where "SYMBOLS = {60, 124, 62, 38, 59, 40, 41}"
definition QUOTE :: u8 where "QUOTE = 34"
definition CHR_w :: u8 where "CHR_w = 119"

partial_function (option) skip_ws :: "nat \<Rightarrow> mem \<Rightarrow> (nat \<times> mem) option" where
  "skip_ws s m = (if m s \<in> WHITESPACE then skip_ws (s + 1) (m(s := 0)) else Some (s, m))"

partial_function (option) skip_quoted :: "nat \<Rightarrow> mem \<Rightarrow> nat option" where
  "skip_quoted s m = (if m s \<noteq> 0 \<and> m s \<noteq> QUOTE then skip_quoted (s + 1) m else Some s)"

partial_function (option) skip_word :: "nat \<Rightarrow> mem \<Rightarrow> nat option" where
  "skip_word s m = (if m s \<noteq> 0 \<and> m s \<notin> WHITESPACE \<union> SYMBOLS then skip_word (s + 1) m else Some s)"

text \<open>\<open>_gettoken\<close>: the token, \<open>*p1\<close> and \<open>*p2\<close>; NULL is \<open>None\<close>.\<close>

definition get_token :: "nat option \<Rightarrow> mem \<Rightarrow> ((u8 \<times> nat option \<times> nat option) \<times> mem) option" where
  "get_token p m = (case p of None \<Rightarrow> Some ((0, None, None), m)
     | Some s \<Rightarrow> Option.bind (skip_ws s m) (\<lambda>(s, m).
         if m s = 0 then Some ((0, None, None), m)
         else if m s \<in> SYMBOLS then Some ((m s, Some s, Some (s + 1)), m(s := 0))
         else if m s = QUOTE
         then map_option (\<lambda>e. ((CHR_w, Some (s + 1), Some e), m(e := 0))) (skip_quoted (s + 1) m)
         else map_option (\<lambda>e. ((CHR_w, Some s, Some e), m)) (skip_word s m)))"

record lexer =
  lx_c :: u8
  lx_nc :: u8
  lx_np1 :: "nat option"
  lx_np2 :: "nat option"

definition gettoken :: "nat option \<Rightarrow> lexer \<times> mem \<Rightarrow> ((u8 \<times> nat option) \<times> lexer \<times> mem) option" where
  "gettoken s = (\<lambda>(lx, m). case s of
     Some _ \<Rightarrow> map_option (\<lambda>((t, p1, p2), m). ((0, None), lx\<lparr>lx_nc := t, lx_np1 := p1, lx_np2 := p2\<rparr>, m)) (get_token s m)
   | None \<Rightarrow> map_option (\<lambda>((t, p1, p2), m).
       ((lx_nc lx, lx_np1 lx), lx\<lparr>lx_c := lx_nc lx, lx_nc := t, lx_np1 := p1, lx_np2 := p2\<rparr>, m)) (get_token (lx_np2 lx) m))"

section \<open>Reference tokenizer\<close>

datatype tok = Word "u8 list" | Sym u8

abbreviation delim :: "u8 \<Rightarrow> bool" where
  "delim c \<equiv> c \<in> WHITESPACE \<union> SYMBOLS"

lemma dropWhile_shorter: "length (dropWhile P xs) \<le> length xs"
  by (induction xs) auto

text \<open>What the code does with a line: a quoted word ends the line, whatever follows it.\<close>

function toks :: "u8 list \<Rightarrow> tok list" where
  "toks [] = []"
| "toks (c # cs) =
     (if c \<in> WHITESPACE then toks cs
      else if c \<in> SYMBOLS then Sym c # toks cs
      else if c = QUOTE then [Word (takeWhile (\<lambda>x. x \<noteq> QUOTE) cs)]
      else Word (c # takeWhile (\<lambda>x. \<not> delim x) cs) # toks (dropWhile (\<lambda>x. \<not> delim x) cs))"
  by pat_completeness auto
termination by (relation "measure length") (auto simp: less_Suc_eq_le dropWhile_shorter)

section \<open>The loops on a string\<close>

lemma blanks: "0 \<notin> WHITESPACE" "0 \<notin> SYMBOLS" "QUOTE \<notin> WHITESPACE" "QUOTE \<notin> SYMBOLS" "c \<in> WHITESPACE \<Longrightarrow> c \<notin> SYMBOLS"
  by (auto simp: WHITESPACE_def SYMBOLS_def QUOTE_def)

lemma cstr_frame: "cstr m s xs \<Longrightarrow> (\<And>a. s \<le> a \<Longrightarrow> m' a = m a) \<Longrightarrow> cstr m' s xs"
  by (rule cstr_cong[of xs m' s m s]) auto

lemma cstr_iff: "cstr m p w \<longleftrightarrow> (\<forall>i < length w. m (p + i) = w ! i \<and> w ! i \<noteq> 0) \<and> m (p + length w) = 0"
proof (induction w arbitrary: p)
  case (Cons x w)
  show ?case unfolding cstr.simps Cons.IH by (auto simp: All_less_Suc2)
qed simp

lemma skip_ws_ok:
  "cstr m s xs \<Longrightarrow> \<exists>m'. skip_ws s m = Some (s + length (takeWhile (\<lambda>c. c \<in> WHITESPACE) xs), m') \<and>
     (\<forall>a. m' a = (if s \<le> a \<and> a < s + length (takeWhile (\<lambda>c. c \<in> WHITESPACE) xs) then 0 else m a)) \<and>
     cstr m' (s + length (takeWhile (\<lambda>c. c \<in> WHITESPACE) xs)) (dropWhile (\<lambda>c. c \<in> WHITESPACE) xs)"
proof (induction xs arbitrary: s m)
  case Nil
  then show ?case using blanks(1) by (auto simp: skip_ws.simps[of s])
next
  case (Cons c xs)
  show ?case
  proof (cases "c \<in> WHITESPACE")
    case True
    have "cstr (m(s := 0)) (s + 1) xs" using Cons.prems by (auto intro: cstr_frame)
    from Cons.IH[OF this] obtain m' where m': "skip_ws (s + 1) (m(s := 0)) = Some (s + 1 + length (takeWhile (\<lambda>c. c \<in> WHITESPACE) xs), m')"
      "\<forall>a. m' a = (if s + 1 \<le> a \<and> a < s + 1 + length (takeWhile (\<lambda>c. c \<in> WHITESPACE) xs) then 0 else (m(s := 0)) a)"
      "cstr m' (s + 1 + length (takeWhile (\<lambda>c. c \<in> WHITESPACE) xs)) (dropWhile (\<lambda>c. c \<in> WHITESPACE) xs)" by blast
    have w: "m s \<in> WHITESPACE" using True Cons.prems by simp
    have "skip_ws s m = Some (s + length (takeWhile (\<lambda>c. c \<in> WHITESPACE) (c # xs)), m')"
      using w m'(1) True by (simp add: skip_ws.simps[of s])
    moreover have "m' a = (if s \<le> a \<and> a < s + length (takeWhile (\<lambda>c. c \<in> WHITESPACE) (c # xs)) then 0 else m a)" for a
      using m'(2)[rule_format, of a] True by (cases "a = s") auto
    moreover have "cstr m' (s + length (takeWhile (\<lambda>c. c \<in> WHITESPACE) (c # xs))) (dropWhile (\<lambda>c. c \<in> WHITESPACE) (c # xs))"
      using m'(3) True by simp
    ultimately show ?thesis by blast
  next
    case False
    then show ?thesis using Cons.prems by (auto simp: skip_ws.simps[of s])
  qed
qed


lemma skip_word_ok:
  "cstr m s xs \<Longrightarrow> skip_word s m = Some (s + length (takeWhile (\<lambda>c. \<not> delim c) xs)) \<and>
     cstr m (s + length (takeWhile (\<lambda>c. \<not> delim c) xs)) (dropWhile (\<lambda>c. \<not> delim c) xs)"
proof (induction xs arbitrary: s)
  case (Cons c xs)
  then show ?case using Cons.IH[of "s + 1"] by (auto simp: skip_word.simps[of s])
qed (simp add: skip_word.simps)

lemma skip_quoted_ok:
  "cstr m s xs \<Longrightarrow> skip_quoted s m = Some (s + length (takeWhile (\<lambda>c. c \<noteq> QUOTE) xs))"
proof (induction xs arbitrary: s)
  case (Cons c xs)
  then show ?case using Cons.IH[of "s + 1"] by (auto simp: skip_quoted.simps[of s])
qed (simp add: skip_quoted.simps)

lemma cstr_bytes: "cstr m s xs \<Longrightarrow> \<forall>i < length xs. m (s + i) = xs ! i \<and> xs ! i \<noteq> 0"
  by (simp add: cstr_iff)

lemma takeWhile_bytes:
  "cstr m s xs \<Longrightarrow> \<forall>i < length (takeWhile P xs). m (s + i) = takeWhile P xs ! i \<and> takeWhile P xs ! i \<noteq> 0"
  using cstr_bytes[of m s xs] length_takeWhile_le[of P xs] by (auto simp: takeWhile_nth)

text \<open>The token read ahead, and the rest of the line after it.\<close>

definition pending :: "mem \<Rightarrow> nat \<Rightarrow> tok list \<Rightarrow> u8 \<times> nat option \<times> nat option \<Rightarrow> bool" where
  "pending m s ts r = (case ts of
     [] \<Rightarrow> fst r = 0 \<and> snd (snd r) = None
   | t # ts' \<Rightarrow> \<exists>p e ys. snd r = (Some p, Some e) \<and> s \<le> p \<and> s < e \<and> cstr m e ys \<and> toks ys = ts' \<and>
       (case t of Sym c \<Rightarrow> fst r = c \<and> c \<in> SYMBOLS
        | Word w \<Rightarrow> fst r = CHR_w \<and> e = p + length w \<and> (\<forall>i < length w. m (p + i) = w ! i \<and> w ! i \<noteq> 0) \<and>
            (m e = 0 \<or> delim (m e))))"

lemma hd_dropWhile_ws: "dropWhile (\<lambda>c. c \<in> WHITESPACE) xs = c # cs \<Longrightarrow> c \<notin> WHITESPACE"
  by (metis dropWhile_eq_Cons_conv)

lemma toks_skip: "toks xs = toks (dropWhile (\<lambda>c. c \<in> WHITESPACE) xs)"
  by (induction xs) auto

lemma get_token_ok:
  assumes "cstr m s xs"
  obtains r m' where "get_token (Some s) m = Some (r, m')" "\<forall>a < s. m' a = m a"
    "m s = 0 \<or> delim (m s) \<longrightarrow> m' s = 0" "pending m' s (toks xs) r"
proof -
  let ?k = "length (takeWhile (\<lambda>c. c \<in> WHITESPACE) xs)"
  let ?s = "s + ?k"
  obtain m1 where m1: "skip_ws s m = Some (?s, m1)" "\<forall>a. m1 a = (if s \<le> a \<and> a < ?s then 0 else m a)"
    "cstr m1 ?s (dropWhile (\<lambda>c. c \<in> WHITESPACE) xs)" using skip_ws_ok[OF assms] by blast
  have low: "\<forall>a < s. m1 a = m a" using m1(2) by simp
  have first: "m1 s = 0" if "?k \<noteq> 0" using m1(2) that by simp
  have same: "m1 s = m s" "\<not> m s \<in> WHITESPACE" if "?k = 0"
    using m1(2) that assms blanks by (cases xs; auto split: if_splits)+
  show ?thesis
  proof (cases "dropWhile (\<lambda>c. c \<in> WHITESPACE) xs")
    case Nil
    then have z: "m1 ?s = 0" using m1(3) unfolding Nil by simp
    have "get_token (Some s) m = Some ((0, None, None), m1)" using m1(1) z by (simp add: get_token_def)
    then show ?thesis
      using that[of "(0, None, None)" m1] low first same z toks_skip[of xs] Nil by (cases "?k = 0") (auto simp: pending_def)
  next
    case (Cons c cs)
    have c: "m1 ?s = c" "c \<noteq> 0" "c \<notin> WHITESPACE" "cstr m1 (?s + 1) cs"
      using m1(3) Cons hd_dropWhile_ws[OF Cons] by auto
    have t: "toks xs = toks (c # cs)" using toks_skip[of xs] Cons by simp
    consider "c \<in> SYMBOLS" | "c \<notin> SYMBOLS" "c = QUOTE" | "c \<notin> SYMBOLS" "c \<noteq> QUOTE" by blast
    then show ?thesis
    proof cases
      case 1
      let ?r = "(c, Some ?s, Some (?s + 1))"
      have "get_token (Some s) m = Some (?r, m1(?s := 0))" using m1(1) c 1 by (simp add: get_token_def)
      moreover have "cstr (m1(?s := 0)) (?s + 1) cs" using c(4) by (rule cstr_frame) simp
      then have "pending (m1(?s := 0)) s (toks xs) ?r" unfolding t using c 1 by (auto simp: pending_def)
      ultimately show ?thesis using low first by (intro that[of ?r "m1(?s := 0)"]) auto
    next
      case 2
      let ?w = "takeWhile (\<lambda>x. x \<noteq> QUOTE) cs"
      let ?e = "?s + 1 + length ?w"
      let ?r = "(CHR_w, Some (?s + 1), Some ?e)"
      have "get_token (Some s) m = Some (?r, m1(?e := 0))"
        using m1(1) c 2 skip_quoted_ok[OF c(4)] by (simp add: get_token_def)
      moreover have "toks xs = [Word ?w]" unfolding t using c 2 by simp
      moreover have "pending (m1(?e := 0)) s [Word ?w] ?r"
        using takeWhile_bytes[OF c(4), of "\<lambda>x. x \<noteq> QUOTE"] by (auto simp: pending_def intro!: exI[of _ "[]"])
      moreover have "m s = 0 \<or> delim (m s) \<longrightarrow> (m1(?e := 0)) s = 0"
        using first same c 2 by (cases "?k = 0") (auto simp: m1(2))
      ultimately show ?thesis using low by (intro that[of ?r "m1(?e := 0)"]) auto
    next
      case 3
      let ?w = "takeWhile (\<lambda>x. \<not> delim x) (c # cs)" and ?y = "dropWhile (\<lambda>x. \<not> delim x) (c # cs)"
      let ?e = "?s + length ?w"
      let ?r = "(CHR_w, Some ?s, Some ?e)"
      have cc: "cstr m1 ?s (c # cs)" using m1(3) Cons by simp
      note sw = skip_word_ok[OF cc]
      have g: "get_token (Some s) m = Some (?r, m1)"
        using m1(1) c 3 sw by (simp add: get_token_def)
      have tk: "toks xs = Word ?w # toks ?y" unfolding t using c 3 by simp
      have "m1 ?e = 0 \<or> delim (m1 ?e)"
      proof (cases ?y)
        case Nil
        then show ?thesis using sw by (metis cstr.simps(1))
      next
        case (Cons d ds)
        then have "\<not> \<not> delim d" by (metis dropWhile_eq_Cons_conv)
        moreover have "m1 ?e = d" using sw Cons by (metis cstr.simps(2))
        ultimately show ?thesis by simp
      qed
      moreover have "0 < length ?w" using c 3 by simp
      ultimately have "pending m1 s (toks xs) ?r"
        unfolding tk pending_def using takeWhile_bytes[OF cc, of "\<lambda>x. \<not> delim x"] sw by auto
      moreover have "m s = 0 \<or> delim (m s) \<longrightarrow> m1 s = 0"
        using first same c 3 by (cases "?k = 0") auto
      ultimately show ?thesis using that[OF g low] by blast
    qed
  qed
qed

end
