(* ===== verification/Path.thy ===== *)
theory Path
  imports Prelude
begin

text \<open>
  Relative paths of user programs, \<^verbatim>\<open>user/lib/path.c\<close>: \<open>chdir\<close> and \<open>getcwd\<close> are the system calls of
  \<open>EnvValue\<close>, \<open>pathcat\<close> appends a relative path to the working directory, here on the strings.
\<close>

definition pathcat :: "u8 list \<Rightarrow> u8 list \<Rightarrow> u8 list option" where
  "pathcat path suffix =
     (if suffix \<noteq> [] \<and> hd suffix = 46 \<and> length suffix < 2 then None
      else Some (path @ (if length path \<noteq> 1 then [47] else []) @
                 (if suffix \<noteq> [] \<and> hd suffix = 46 then drop 2 suffix else suffix)))"

text \<open>The buffers for absolute paths, in \<open>open\<close>, \<open>create\<close>, \<open>remove\<close> and \<open>runcmd\<close>.\<close>

definition PATH_BUF :: nat where "PATH_BUF = 128"

text \<open>The absolute path that the client functions make of an argument; \<open>cwd\<close> is what \<open>getcwd\<close> returns.\<close>

definition abs_path :: "int \<times> u8 list \<Rightarrow> u8 list \<Rightarrow> (int \<times> u8 list) res" where
  "abs_path cwd path =
     (if path \<noteq> [] \<and> hd path = 47 then Ret (0, path)
      else if fst cwd \<noteq> 0 then Ret (fst cwd, [])
      else case pathcat (snd cwd) path of None \<Rightarrow> Fault ''pathcat reads past its argument''
        | Some p \<Rightarrow> if PATH_BUF \<le> length p then Fault ''path overflows its buffer'' else Ret (0, p))"

end
