(* ===== verification/Shell.thy ===== *)
theory Shell
  imports Token Path
begin

text \<open>
  The command interpreter of the shell, \<open>parsecmd\<close> and \<open>runcmd\<close> of \<^verbatim>\<open>user/sh.c\<close>. A \<open>fork\<close> continues in
  two processes with their own copy of the memory, so the result is a tree: \<open>Fork k c p\<close> continues as
  \<open>c\<close> in the child and as \<open>p\<close> in the parent; a leaf is a process that returns from \<open>parsecmd\<close>, exits or
  breaks. The calls with effects outside (files, pipes, shell variables) are recorded in the log of
  the process; what they return is a function of that log, in the record \<open>world\<close>. \<open>fork\<close> does not fail
  here.
\<close>

section \<open>The state of a process\<close>

datatype effect = ADup int int | AClose int | AOpen "u8 list" u32 | ACreate "u8 list" | APipe | AWait
  | APrint string | AChdir "u8 list" | AStat "u8 list" | AGetcwd | ACloseAll | ASpawn "u8 list list" | AWaitRight

record world =
  w_open :: "effect list \<Rightarrow> u8 list \<Rightarrow> u32 \<Rightarrow> int"
  w_create :: "effect list \<Rightarrow> u8 list \<Rightarrow> int"
  w_pipe :: "effect list \<Rightarrow> int \<times> int"
  w_env :: "effect list \<Rightarrow> u8 list \<Rightarrow> u8 list option"
  w_chdir :: "effect list \<Rightarrow> u8 list \<Rightarrow> int"
  w_getcwd :: "effect list \<Rightarrow> int \<times> u8 list"
  w_stat :: "effect list \<Rightarrow> u8 list \<Rightarrow> int \<times> bool"
  w_spawn :: "effect list \<Rightarrow> u8 list list \<Rightarrow> int"

record sh =
  sh_lx :: lexer
  sh_mem :: mem
  sh_argv :: "nat list"
  dup0 :: bool
  dup1 :: bool
  sh_log :: "effect list"

datatype fkind = FPipe | FSeq | FBg

datatype tree = Done sh bool | Exit sh | Broken string | Fork fkind tree tree

definition MAXARGS :: nat where "MAXARGS = 128"
definition sh_O_RDONLY :: u32 where "sh_O_RDONLY = 0"
definition sh_O_WRONLY :: u32 where "sh_O_WRONLY = 1"

definition acts :: "effect list \<Rightarrow> sh \<Rightarrow> sh" where
  "acts as s = s\<lparr>sh_log := sh_log s @ as\<rparr>"

partial_function (option) read_str :: "mem \<Rightarrow> nat \<Rightarrow> u8 list option" where
  "read_str m s = (if m s = 0 then Some [] else Option.bind (read_str m (s + 1)) (\<lambda>xs. Some (m s # xs)))"

fun write_bytes :: "nat \<Rightarrow> u8 list \<Rightarrow> mem \<Rightarrow> mem" where
  "write_bytes a [] m = m"
| "write_bytes a (b # bs) m = write_bytes (a + 1) bs (m(a := b))"

section \<open>parsecmd\<close>

definition sh_token :: "sh \<Rightarrow> ((u8 \<times> nat option) \<times> sh) option" where
  "sh_token s = map_option (\<lambda>(r, lx, m). (r, s\<lparr>sh_lx := lx, sh_mem := m\<rparr>)) (gettoken None (sh_lx s, sh_mem s))"

text \<open>What \<open>parsecmd\<close> does first: undo the redirections of the command before; \<open>argc\<close> starts at 0.\<close>

definition restore :: "sh \<Rightarrow> sh" where
  "restore s =
     (let s = (if dup0 s then acts [ADup 1 0] (s\<lparr>dup0 := False\<rparr>) else s);
          s = (if dup1 s then acts [ADup 0 1] (s\<lparr>dup1 := False\<rparr>) else s)
      in s\<lparr>sh_argv := []\<rparr>)"

text \<open>The word case. A variable that does not exist leaves the buffer \<open>buf\<close> uninitialised.\<close>

definition push_word :: "world \<Rightarrow> nat \<Rightarrow> sh \<Rightarrow> (tree + sh) option" where
  "push_word w t s =
     (if MAXARGS \<le> length (sh_argv s) then Some (Inl (Exit (acts [APrint ''too many arguments''] s)))
      else if sh_mem s t = 36
      then map_option (\<lambda>name. case w_env w (sh_log s) name of
             None \<Rightarrow> Inl (Broken ''strcpy from an uninitialised buffer'')
           | Some v \<Rightarrow> Inr (s\<lparr>sh_mem := write_bytes (t + 1) (v @ [0]) (sh_mem s), sh_argv := sh_argv s @ [t + 1]\<rparr>))
         (read_str (sh_mem s) (t + 1))
      else Some (Inr (s\<lparr>sh_argv := sh_argv s @ [t]\<rparr>)))"

definition redirect_in :: "world \<Rightarrow> sh \<Rightarrow> (tree + sh) option" where
  "redirect_in w s = Option.bind (sh_token s) (\<lambda>((c, t), s).
     if c \<noteq> CHR_w then Some (Inl (Exit (acts [APrint ''syntax error: < not followed by word''] s)))
     else case t of None \<Rightarrow> Some (Inl (Broken ''NULL token''))
     | Some t \<Rightarrow> Option.bind (read_str (sh_mem s) t) (\<lambda>f.
         let r = w_open w (sh_log s) f sh_O_RDONLY; s = acts [AOpen f sh_O_RDONLY] s
         in if r < 0 then Some (Inl (Exit (acts [APrint ''< open failed''] s)))
            else Some (Inr (acts [ADup r 0, AClose r] (s\<lparr>dup0 := True\<rparr>)))))"

definition redirect_out :: "world \<Rightarrow> sh \<Rightarrow> (tree + sh) option" where
  "redirect_out w s = Option.bind (sh_token s) (\<lambda>((c, t), s).
     if c \<noteq> CHR_w then Some (Inl (Exit (acts [APrint ''syntax error: > not followed by word''] s)))
     else case t of None \<Rightarrow> Some (Inl (Broken ''NULL token''))
     | Some t \<Rightarrow> Option.bind (read_str (sh_mem s) t) (\<lambda>f.
         let r = w_open w (sh_log s) f sh_O_WRONLY; s = acts [AOpen f sh_O_WRONLY] s
         in if r < 0
            then let r = w_create w (sh_log s) f; s = acts [ACreate f] s
                 in if r < 0 then Some (Inl (Exit (acts [APrint ''> open and create failed''] s)))
                    else let r = w_open w (sh_log s) f sh_O_WRONLY; s = acts [AOpen f sh_O_WRONLY] s
                         in Some (Inr (acts [ADup r 1, AClose r] (s\<lparr>dup1 := True\<rparr>)))
            else Some (Inr (acts [ADup r 1, AClose r] (s\<lparr>dup1 := True\<rparr>)))))"

text \<open>The loop; its recursive calls after \<open>restore\<close> are the calls of \<open>parsecmd\<close> itself.\<close>

partial_function (option) parse_loop :: "world \<Rightarrow> sh \<Rightarrow> bool \<Rightarrow> tree option" where
  "parse_loop w s rp = Option.bind (sh_token s) (\<lambda>((c, t), s).
     if c = 0 then Some (Done s rp)
     else if c = CHR_w
     then (case t of None \<Rightarrow> Some (Broken ''NULL token'')
       | Some t \<Rightarrow> Option.bind (push_word w t s) (\<lambda>r. case r of Inl x \<Rightarrow> Some x | Inr s \<Rightarrow> parse_loop w s rp))
     else if c = 60 then Option.bind (redirect_in w s) (\<lambda>r. case r of Inl x \<Rightarrow> Some x | Inr s \<Rightarrow> parse_loop w s rp)
     else if c = 62 then Option.bind (redirect_out w s) (\<lambda>r. case r of Inl x \<Rightarrow> Some x | Inr s \<Rightarrow> parse_loop w s rp)
     else if c = 124
     then (case w_pipe w (sh_log s) of (p0, p1) \<Rightarrow>
       (let s = acts [APipe] s
        in Option.bind (parse_loop w (restore (acts [ADup p0 0, AClose p0, AClose p1] s)) False)
             (\<lambda>child. Some (Fork FPipe child (Done (acts [ADup p1 1, AClose p1, AClose p0] s) True)))))
     else if c = 59
     then Option.bind (parse_loop w (restore (acts [AWait] s)) rp) (\<lambda>parent. Some (Fork FSeq (Done s rp) parent))
     else if c = 38
     then Option.bind (parse_loop w (restore s) rp) (\<lambda>parent. Some (Fork FBg (Done s rp) parent))
     else parse_loop w s rp)"

definition parsecmd :: "world \<Rightarrow> sh \<Rightarrow> tree option" where
  "parsecmd w s = parse_loop w (restore s) False"

section \<open>runcmd\<close>

text \<open>How the processes end: the log of each, or the reason why its behaviour is undefined.\<close>

datatype otree = OExit "effect list" | OBroken string | OFork fkind otree otree

text \<open>The bytes of \<open>declare\<close>, \<open>unset\<close> and \<open>cd\<close>.\<close>

definition DECLARE :: "u8 list" where "DECLARE = [100, 101, 99, 108, 97, 114, 101]"
definition UNSET :: "u8 list" where "UNSET = [117, 110, 115, 101, 116]"
definition CD :: "u8 list" where "CD = [99, 100]"

definition run_cd :: "world \<Rightarrow> u8 list list \<Rightarrow> effect list \<Rightarrow> string + effect list" where
  "run_cd w args lg =
     (if length args = 1
      then (let r = w_chdir w lg [47]; lg = lg @ [AChdir [47]]
            in Inr (lg @ [if r < 0 then APrint ''cd failed'' else APrint ''/'']))
      else if args ! 1 \<noteq> [] \<and> hd (args ! 1) = 47
      then (let r = w_chdir w lg (args ! 1); lg = lg @ [AChdir (args ! 1)]
            in Inr (if r < 0 then lg @ [APrint ''cd failed''] else lg))
      else (case w_getcwd w lg of (r, cwd) \<Rightarrow>
        (let lg = lg @ [AGetcwd]
         in if r < 0 then Inr (lg @ [APrint ''cd failed''])
            else (case pathcat cwd (args ! 1) of None \<Rightarrow> Inl ''pathcat reads past its argument''
              | Some path \<Rightarrow>
                  if PATH_BUF \<le> length path then Inl ''path overflows its buffer''
                  else (let r = w_open w lg path sh_O_RDONLY; lg = lg @ [AOpen path sh_O_RDONLY]
                        in if r < 0 then Inr (lg @ [APrint ''path does not exist''])
                           else (let lg = lg @ [AClose r]
                                 in case w_stat w lg path of (r, isdir) \<Rightarrow>
                                    (let lg = lg @ [AStat path]
                                     in if r < 0 then Inr (lg @ [APrint ''panic: stat''])
                                        else if \<not> isdir then Inr (lg @ [APrint ''path is not a directory''])
                                        else (let r = w_chdir w lg path; lg = lg @ [AChdir path]
                                              in Inr (if r < 0 then lg @ [APrint ''cd failed''] else lg)))))))))"

text \<open>The part of \<open>runcmd\<close> after \<open>parsecmd\<close>, on the strings of \<open>argv\<close>; \<open>argv\<close> has \<open>MAXARGS\<close> places, one of
  which holds the NULL pointer. The string \<open>temp\<close> is the byte \<open>shellid\<close>.\<close>

definition shell_arg :: "u8 \<Rightarrow> u8 list" where
  "shell_arg sid = (if sid = 0 then [] else [sid])"

definition dispatch :: "world \<Rightarrow> u8 \<Rightarrow> u8 list list \<Rightarrow> bool \<Rightarrow> effect list \<Rightarrow> string + effect list" where
  "dispatch w sid args rp lg =
     (if args = [] then Inr lg
      else let args = (if hd args = DECLARE then args @ [shell_arg sid] else args);
               args = (if hd args = UNSET then args @ [shell_arg sid] else args)
        in if MAXARGS \<le> length args then Inl ''argv overflows''
           else if hd args = CD then run_cd w args lg
           else (let child = w_spawn w lg args; lg = lg @ [ASpawn args, ACloseAll];
                     lg = lg @ [if 0 \<le> child then AWait else APrint ''spawn'']
                 in Inr (if rp then lg @ [AWaitRight] else lg)))"

definition ending :: "string + effect list \<Rightarrow> otree" where
  "ending r = (case r of Inl x \<Rightarrow> OBroken x | Inr lg \<Rightarrow> OExit lg)"

fun run_tree :: "world \<Rightarrow> u8 \<Rightarrow> tree \<Rightarrow> otree option" where
  "run_tree w sid (Done s rp) =
     map_option (\<lambda>args. ending (dispatch w sid args rp (sh_log s))) (those (map (read_str (sh_mem s)) (sh_argv s)))"
| "run_tree w sid (Exit s) = Some (OExit (sh_log s))"
| "run_tree w sid (Broken x) = Some (OBroken x)"
| "run_tree w sid (Fork k c p) =
     Option.bind (run_tree w sid c) (\<lambda>c. Option.bind (run_tree w sid p) (\<lambda>p. Some (OFork k c p)))"

definition runcmd :: "world \<Rightarrow> u8 \<Rightarrow> nat \<Rightarrow> sh \<Rightarrow> otree option" where
  "runcmd w sid a s =
     Option.bind (gettoken (Some a) (sh_lx s, sh_mem s)) (\<lambda>(_, lx, m).
       Option.bind (parsecmd w (s\<lparr>sh_lx := lx, sh_mem := m\<rparr>)) (run_tree w sid))"

section \<open>Reference interpreter\<close>

text \<open>
  The same on the tokens of the line, without the memory of the line. \<open>PBroken\<close> is a process whose behaviour
  the code leaves undefined; \<open>PUndef\<close> one in which a value longer than its variable's name is copied over
  what follows in the line.
\<close>

datatype plan = PDone "u8 list list" bool "effect list" | PExit "effect list" | PBroken string | PUndef | PFork fkind plan plan

definition undo :: "bool \<Rightarrow> bool \<Rightarrow> effect list" where
  "undo d0 d1 = (if d0 then [ADup 1 0] else []) @ (if d1 then [ADup 0 1] else [])"

definition expand :: "world \<Rightarrow> effect list \<Rightarrow> u8 list \<Rightarrow> plan + u8 list" where
  "expand w lg x = (if x \<noteq> [] \<and> hd x = 36
     then (case w_env w lg (tl x) of None \<Rightarrow> Inl (PBroken ''strcpy from an uninitialised buffer'')
           | Some v \<Rightarrow> if 0 \<in> set v \<or> length (tl x) < length v then Inl PUndef else Inr v)
     else Inr x)"

definition open_in :: "world \<Rightarrow> effect list \<Rightarrow> u8 list \<Rightarrow> effect list + effect list" where
  "open_in w lg f = (let r = w_open w lg f sh_O_RDONLY; lg = lg @ [AOpen f sh_O_RDONLY]
     in if r < 0 then Inl (lg @ [APrint ''< open failed'']) else Inr (lg @ [ADup r 0, AClose r]))"

definition open_out :: "world \<Rightarrow> effect list \<Rightarrow> u8 list \<Rightarrow> effect list + effect list" where
  "open_out w lg f = (let r = w_open w lg f sh_O_WRONLY; lg = lg @ [AOpen f sh_O_WRONLY]
     in if r < 0
        then let r = w_create w lg f; lg = lg @ [ACreate f]
             in if r < 0 then Inl (lg @ [APrint ''> open and create failed''])
                else let r = w_open w lg f sh_O_WRONLY; lg = lg @ [AOpen f sh_O_WRONLY]
                     in Inr (lg @ [ADup r 1, AClose r])
        else Inr (lg @ [ADup r 1, AClose r]))"

definition file_next :: "tok list \<Rightarrow> (u8 list \<times> tok list) option" where
  "file_next ts = (case ts of Word f # ts' \<Rightarrow> Some (f, ts') | _ \<Rightarrow> None)"

lemma file_next_shorter: "file_next ts = Some (f, ts') \<Longrightarrow> length ts' < length ts"
  by (auto simp: file_next_def split: list.splits tok.splits)

function meaning :: "world \<Rightarrow> u8 list list \<Rightarrow> effect list \<Rightarrow> bool \<Rightarrow> bool \<Rightarrow> tok list \<Rightarrow> plan" where
  "meaning w acc lg d0 d1 [] = PDone acc False lg"
| "meaning w acc lg d0 d1 (Word x # ts) =
     (if MAXARGS \<le> length acc then PExit (lg @ [APrint ''too many arguments''])
      else case expand w lg x of Inl p \<Rightarrow> p | Inr v \<Rightarrow> meaning w (acc @ [v]) lg d0 d1 ts)"
| "meaning w acc lg d0 d1 (Sym c # ts) =
     (if c = 60 then
        (case file_next ts of None \<Rightarrow> PExit (lg @ [APrint ''syntax error: < not followed by word''])
         | Some (f, ts) \<Rightarrow> (case open_in w lg f of Inl lg \<Rightarrow> PExit lg | Inr lg \<Rightarrow> meaning w acc lg True d1 ts))
      else if c = 62 then
        (case file_next ts of None \<Rightarrow> PExit (lg @ [APrint ''syntax error: > not followed by word''])
         | Some (f, ts) \<Rightarrow> (case open_out w lg f of Inl lg \<Rightarrow> PExit lg | Inr lg \<Rightarrow> meaning w acc lg d0 True ts))
      else if c = 124 then
        (case w_pipe w lg of (p0, p1) \<Rightarrow>
           PFork FPipe (meaning w [] (lg @ [APipe, ADup p0 0, AClose p0, AClose p1] @ undo d0 d1) False False ts)
             (PDone acc True (lg @ [APipe, ADup p1 1, AClose p1, AClose p0])))
      else if c = 59 then PFork FSeq (PDone acc False lg) (meaning w [] (lg @ [AWait] @ undo d0 d1) False False ts)
      else if c = 38 then PFork FBg (PDone acc False lg) (meaning w [] (lg @ undo d0 d1) False False ts)
      else meaning w acc lg d0 d1 ts)"
  by pat_completeness auto
termination by (relation "measure (\<lambda>(_, _, _, _, _, ts). length ts)") (auto dest: file_next_shorter)

text \<open>
  What a simple command does. A script is a list of actions, each with the calls it makes and what it prints
  when it fails, which ends the script.
\<close>

type_synonym action = "effect list \<Rightarrow> effect list \<times> string option"

fun script :: "action list \<Rightarrow> effect list \<Rightarrow> effect list" where
  "script [] lg = lg"
| "script (a # as) lg = (case a lg of (es, None) \<Rightarrow> script as (lg @ es) | (es, Some msg) \<Rightarrow> lg @ es @ [APrint msg])"

definition on_error :: "int \<Rightarrow> string \<Rightarrow> string option" where
  "on_error r msg = (if r < 0 then Some msg else None)"

definition to_dir :: "world \<Rightarrow> u8 list \<Rightarrow> action" where
  "to_dir w d lg = ([AChdir d], on_error (w_chdir w lg d) ''cd failed'')"

definition exists_file :: "world \<Rightarrow> u8 list \<Rightarrow> action" where
  "exists_file w d lg = (let r = w_open w lg d 0 in
     (AOpen d 0 # (if r < 0 then [] else [AClose r]), on_error r ''path does not exist''))"

definition is_dir :: "world \<Rightarrow> u8 list \<Rightarrow> action" where
  "is_dir w d lg = ([AStat d], if fst (w_stat w lg d) < 0 then Some ''panic: stat''
     else if snd (w_stat w lg d) then None else Some ''path is not a directory'')"

text \<open>
  A relative path behind the working directory: a first dot and the character after it are left out, and after
  a single dot the code reads past the end of the string.
\<close>

definition behind :: "u8 list \<Rightarrow> u8 list \<Rightarrow> u8 list" where
  "behind cwd x = cwd @ (if length cwd = 1 then [] else [47]) @ (if take 1 x = [46] then drop 2 x else x)"

definition change_dir :: "world \<Rightarrow> u8 list list \<Rightarrow> effect list \<Rightarrow> otree" where
  "change_dir w args lg = (case args of
     [] \<Rightarrow> OExit (script [to_dir w [47], \<lambda>_. ([APrint ''/''], None)] lg)
   | x # _ \<Rightarrow> if take 1 x = [47] then OExit (script [to_dir w x] lg)
       else (case w_getcwd w lg of (r, cwd) \<Rightarrow>
         if r < 0 then OExit (lg @ [AGetcwd, APrint ''cd failed''])
         else if x = [46] then OBroken ''pathcat reads past its argument''
         else if 127 < length (behind cwd x) then OBroken ''path overflows its buffer''
         else OExit (script [\<lambda>_. ([AGetcwd], None), exists_file w (behind cwd x), is_dir w (behind cwd x), to_dir w (behind cwd x)] lg)))"

text \<open>The number of the shell as a last argument, for the commands that ask for it.\<close>

definition with_id :: "u8 \<Rightarrow> u8 list list \<Rightarrow> u8 list list" where
  "with_id sid args = (if hd args \<in> {DECLARE, UNSET} then args @ [takeWhile (\<lambda>c. c \<noteq> 0) [sid]] else args)"

definition simple :: "world \<Rightarrow> u8 \<Rightarrow> u8 list list \<Rightarrow> bool \<Rightarrow> effect list \<Rightarrow> otree" where
  "simple w sid args rp lg =
     (if args = [] then OExit lg
      else if 127 < length (with_id sid args) then OBroken ''argv overflows''
      else if hd args = CD then change_dir w (tl args) lg
      else OExit (lg @ [ASpawn (with_id sid args), ACloseAll] @
        [if w_spawn w lg (with_id sid args) < 0 then APrint ''spawn'' else AWait] @ (if rp then [AWaitRight] else [])))"

fun outcome :: "world \<Rightarrow> u8 \<Rightarrow> plan \<Rightarrow> otree" where
  "outcome w sid (PDone args rp lg) = simple w sid args rp lg"
| "outcome w sid (PExit lg) = OExit lg"
| "outcome w sid (PBroken x) = OBroken x"
| "outcome w sid PUndef = OBroken ''line overrun''"
| "outcome w sid (PFork k c p) = OFork k (outcome w sid c) (outcome w sid p)"

lemma behind_pathcat: "pathcat cwd x = (if x = [46] then None else Some (behind cwd x))"
  by (cases x) (auto simp: pathcat_def behind_def)

lemma absolute: "(x \<noteq> [] \<and> hd x = 47) = (take 1 x = [47])"
  by (cases x) auto

lemma run_cd_ok: "c = CD \<Longrightarrow> ending (run_cd w (c # args) lg) = change_dir w args lg"
  by (cases args)
    (auto simp: run_cd_def change_dir_def ending_def Let_def absolute behind_pathcat PATH_BUF_def to_dir_def exists_file_def
      is_dir_def on_error_def sh_O_RDONLY_def split: prod.split)

lemma dispatch_ok: "ending (dispatch w sid args rp lg) = simple w sid args rp lg"
proof (cases args)
  case (Cons c cs)
  have n: "DECLARE \<noteq> UNSET" "DECLARE \<noteq> CD" "UNSET \<noteq> CD" by (simp_all add: DECLARE_def UNSET_def CD_def)
  have i: "shell_arg sid = takeWhile (\<lambda>c. c \<noteq> 0) [sid]" by (simp add: shell_arg_def)
  show ?thesis
  proof (cases "c = CD")
    case True
    then show ?thesis using n run_cd_ok[OF True, of w cs lg] Cons
      by (auto simp: dispatch_def simple_def with_id_def MAXARGS_def ending_def)
  next
    case False
    then show ?thesis using n Cons unfolding i
      by (auto simp: dispatch_def simple_def with_id_def MAXARGS_def ending_def Let_def i)
  qed
qed (simp add: dispatch_def simple_def ending_def)

fun defined :: "plan \<Rightarrow> bool" where
  "defined PUndef = False"
| "defined (PFork k c p) = (defined c \<and> defined p)"
| "defined _ = True"

section \<open>Tokens, one at a time\<close>

definition token_is :: "mem \<Rightarrow> nat \<Rightarrow> nat \<Rightarrow> tok list \<Rightarrow> u8 \<times> nat option \<Rightarrow> bool" where
  "token_is m a b ts r = (case ts of [] \<Rightarrow> fst r = 0
     | Sym c # _ \<Rightarrow> fst r = c \<and> c \<in> SYMBOLS
     | Word w # _ \<Rightarrow> fst r = CHR_w \<and> (\<exists>p. snd r = Some p \<and> a \<le> p \<and> cstr m p w \<and> p + length w \<le> b))"

abbreviation ahead :: "lexer \<Rightarrow> u8 \<times> nat option \<times> nat option" where
  "ahead lx \<equiv> (lx_nc lx, lx_np1 lx, lx_np2 lx)"

lemma pending_ConsD:
  "pending m b (t # ts) (c, p1, p2) \<Longrightarrow> \<exists>p e ys. p1 = Some p \<and> p2 = Some e \<and> b \<le> p \<and> b < e \<and> cstr m e ys \<and> toks ys = ts \<and>
     (case t of Sym d \<Rightarrow> c = d \<and> d \<in> SYMBOLS
      | Word w \<Rightarrow> c = CHR_w \<and> e = p + length w \<and> (\<forall>i < length w. m (p + i) = w ! i \<and> w ! i \<noteq> 0) \<and> (m e = 0 \<or> delim (m e)))"
  by (simp add: pending_def cong: tok.case_cong)

lemma gettoken_ok:
  assumes "pending m b ts (ahead lx)"
  obtains r lx' m' b' where "gettoken None (lx, m) = Some (r, lx', m')" "b \<le> b'" "\<forall>a \<le> b. m' a = m a"
    "pending m' b' (tl ts) (ahead lx')" "token_is m' b b' ts r"
proof (cases ts)
  case Nil
  then have "lx_np2 lx = None" "lx_nc lx = 0" using assms by (auto simp: pending_def)
  then show ?thesis
    using that[of "(0, lx_np1 lx)" "lx\<lparr>lx_c := 0, lx_nc := 0, lx_np1 := None, lx_np2 := None\<rparr>" m b] Nil
    by (simp add: gettoken_def get_token_def pending_def token_is_def)
next
  case (Cons t ts')
  obtain p e ys where P: "lx_np1 lx = Some p" "lx_np2 lx = Some e" "b \<le> p" "b < e" "cstr m e ys" "toks ys = ts'"
    "case t of Sym c \<Rightarrow> lx_nc lx = c \<and> c \<in> SYMBOLS
      | Word w \<Rightarrow> lx_nc lx = CHR_w \<and> e = p + length w \<and> (\<forall>i < length w. m (p + i) = w ! i \<and> w ! i \<noteq> 0) \<and>
          (m e = 0 \<or> delim (m e))"
    using pending_ConsD[OF assms[unfolded Cons]] by blast
  obtain r m' where G: "get_token (Some e) m = Some (r, m')" "\<forall>a < e. m' a = m a"
    "m e = 0 \<or> delim (m e) \<longrightarrow> m' e = 0" "pending m' e ts' r" using get_token_ok[OF P(5)] P(6) by metis
  obtain c p1 p2 where r: "r = (c, p1, p2)" by (cases r)
  let ?lx = "lx\<lparr>lx_c := lx_nc lx, lx_nc := c, lx_np1 := p1, lx_np2 := p2\<rparr>"
  have "gettoken None (lx, m) = Some ((lx_nc lx, lx_np1 lx), ?lx, m')" using G(1) P r by (simp add: gettoken_def)
  moreover have "token_is m' b e ts (lx_nc lx, lx_np1 lx)"
    using P G(2,3) unfolding token_is_def Cons by (cases t) (auto simp: cstr_iff)
  moreover have "pending m' e (tl ts) (ahead ?lx)" using G(4) r Cons by simp
  ultimately show ?thesis using that[of _ ?lx m' e] P(4) G(2) by auto
qed

lemma first_token:
  assumes "cstr m a xs"
  obtains lx' m' where "gettoken (Some a) (lx, m) = Some ((0, None), lx', m')" "pending m' a (toks xs) (ahead lx')"
proof -
  obtain r m' where G: "get_token (Some a) m = Some (r, m')" "pending m' a (toks xs) r" using get_token_ok[OF assms] by metis
  obtain c p1 p2 where r: "r = (c, p1, p2)" by (cases r)
  show ?thesis using that[of "lx\<lparr>lx_nc := c, lx_np1 := p1, lx_np2 := p2\<rparr>" m'] G r by (simp add: gettoken_def)
qed

lemma read_str_ok: "cstr m p w \<Longrightarrow> read_str m p = Some w"
  by (induction w arbitrary: p) (auto simp: read_str.simps)

lemma write_bytes_ok:
  "write_bytes a bs m x = (if a \<le> x \<and> x < a + length bs then bs ! (x - a) else m x)"
proof (induction bs arbitrary: a m)
  case (Cons b bs)
  then show ?case by (auto simp: nth_Cons')
qed auto

section \<open>The loop follows the reference interpreter\<close>

definition args_at :: "mem \<Rightarrow> nat \<Rightarrow> nat list \<Rightarrow> u8 list list \<Rightarrow> bool" where
  "args_at m b = list_all2 (\<lambda>p w. cstr m p w \<and> p + length w \<le> b)"

definition sim :: "sh \<Rightarrow> tok list \<Rightarrow> u8 list list \<Rightarrow> effect list \<Rightarrow> bool \<Rightarrow> bool \<Rightarrow> bool" where
  "sim s ts acc lg d0 d1 \<longleftrightarrow> (\<exists>b. pending (sh_mem s) b ts (ahead (sh_lx s)) \<and> args_at (sh_mem s) b (sh_argv s) acc) \<and>
     sh_log s = lg \<and> dup0 s = d0 \<and> dup1 s = d1"

fun follows :: "tree \<Rightarrow> plan \<Rightarrow> bool" where
  "follows (Done s rp) (PDone acc rp' lg) = (rp = rp' \<and> (\<exists>b. args_at (sh_mem s) b (sh_argv s) acc) \<and> sh_log s = lg)"
| "follows (Exit s) (PExit lg) = (sh_log s = lg)"
| "follows (Broken x) (PBroken y) = (x = y)"
| "follows _ PUndef = True"
| "follows (Fork k c p) (PFork k' c' p') = (k = k' \<and> follows c c' \<and> follows p p')"
| "follows _ _ = False"

lemma args_at_mono: "args_at m b ps ws \<Longrightarrow> b \<le> b' \<Longrightarrow> \<forall>a \<le> b. m' a = m a \<Longrightarrow> args_at m' b' ps ws"
  unfolding args_at_def by (erule list_all2_mono) (auto simp: cstr_iff)

lemma sh_token_ok:
  assumes "sim s ts acc lg d0 d1"
  obtains r s' a b where "sh_token s = Some (r, s')" "sim s' (tl ts) acc lg d0 d1"
    "pending (sh_mem s') b (tl ts) (ahead (sh_lx s'))" "args_at (sh_mem s') a (sh_argv s') acc"
    "token_is (sh_mem s') a b ts r" "a \<le> b"
proof -
  obtain a where a: "pending (sh_mem s) a ts (ahead (sh_lx s))" "args_at (sh_mem s) a (sh_argv s) acc"
    using assms by (auto simp: sim_def)
  obtain r lx m b where G: "gettoken None (sh_lx s, sh_mem s) = Some (r, lx, m)" "a \<le> b" "\<forall>x \<le> a. m x = sh_mem s x"
    "pending m b (tl ts) (ahead lx)" "token_is m a b ts r" by (rule gettoken_ok[OF a(1)])
  have args: "args_at m a (sh_argv s) acc" using args_at_mono[OF a(2) order.refl G(3)] .
  have args': "args_at m b (sh_argv s) acc" using args_at_mono[OF a(2) G(2,3)] .
  show ?thesis
  proof (rule that)
    show "sh_token s = Some (r, s\<lparr>sh_lx := lx, sh_mem := m\<rparr>)" using G(1) by (simp add: sh_token_def)
    show "sim (s\<lparr>sh_lx := lx, sh_mem := m\<rparr>) (tl ts) acc lg d0 d1" using assms args' G(4) by (auto simp: sim_def)
  qed (use G args in simp_all)
qed

lemma pending_frame: "pending m b ts r \<Longrightarrow> \<forall>x \<ge> b. m' x = m x \<Longrightarrow> pending m' b ts r"
proof (cases ts)
  case (Cons t ts')
  assume p: "pending m b ts r" and f: "\<forall>x \<ge> b. m' x = m x"
  obtain p e ys where P: "snd r = (Some p, Some e)" "b \<le> p" "b < e" "cstr m e ys" "toks ys = ts'"
    "case t of Sym c \<Rightarrow> fst r = c \<and> c \<in> SYMBOLS
      | Word w \<Rightarrow> fst r = CHR_w \<and> e = p + length w \<and> (\<forall>i < length w. m (p + i) = w ! i \<and> w ! i \<noteq> 0) \<and>
          (m e = 0 \<or> delim (m e))"
    using p by (auto simp: pending_def Cons)
  have "cstr m' e ys" using P(4) by (rule cstr_frame) (use f P in simp)
  then show ?thesis unfolding pending_def Cons using P f by (cases t) auto
qed (simp add: pending_def)

lemma push_word_ok:
  assumes "pending (sh_mem s) b ts (ahead (sh_lx s))" "args_at (sh_mem s) a (sh_argv s) acc" "a \<le> t" "a \<le> b"
    and w: "cstr (sh_mem s) t x" "t + length x \<le> b" and l: "sh_log s = lg" "dup0 s = d0" "dup1 s = d1"
    and d: "MAXARGS \<le> length acc \<or> expand w lg x \<noteq> Inl PUndef"
  shows "\<exists>r. push_word w t s = Some r \<and>
    (if MAXARGS \<le> length acc then \<exists>s'. r = Inl (Exit s') \<and> sh_log s' = lg @ [APrint ''too many arguments'']
     else case expand w lg x of Inl p \<Rightarrow> \<exists>y. p = PBroken y \<and> r = Inl (Broken y)
       | Inr v \<Rightarrow> \<exists>s'. r = Inr s' \<and> sim s' ts (acc @ [v]) lg d0 d1)"
proof -
  have len: "length (sh_argv s) = length acc" using assms(2) by (simp add: args_at_def list_all2_lengthD)
  have argsb: "args_at (sh_mem s) b (sh_argv s) acc" by (rule args_at_mono[OF assms(2) assms(4)]) simp
  consider "MAXARGS \<le> length acc" | "length acc < MAXARGS" "x \<noteq> []" "hd x = 36"
    | "length acc < MAXARGS" "\<not> (x \<noteq> [] \<and> hd x = 36)" by linarith
  then show ?thesis
  proof cases
    case 1
    then show ?thesis using l by (simp add: push_word_def len acts_def)
  next
    case 2
    then obtain n where x: "x = 36 # n" by (cases x) auto
    have nm: "read_str (sh_mem s) (t + 1) = Some n" using w(1) x by (auto intro: read_str_ok)
    show ?thesis
    proof (cases "w_env w lg n")
      case None
      then show ?thesis using 2 nm l w(1) x by (simp add: push_word_def len expand_def)
    next
      case (Some v')
      then obtain v where v: "w_env w lg n = Some v" "0 \<notin> set v" "length v \<le> length n"
        using d 2 x by (auto simp: expand_def split: option.splits if_splits)
      let ?m = "write_bytes (t + 1) (v @ [0]) (sh_mem s)"
      let ?s = "s\<lparr>sh_mem := ?m, sh_argv := sh_argv s @ [t + 1]\<rparr>"
      have m: "?m y = (if t + 1 \<le> y \<and> y < t + 2 + length v then (v @ [0]) ! (y - (t + 1)) else sh_mem s y)" for y
        by (simp add: write_bytes_ok)
      have z: "sh_mem s (t + length x) = 0" using w(1) by (simp add: cstr_iff)
      have "?m y = sh_mem s y" if "b \<le> y" for y
      proof (cases "y < t + 2 + length v")
        case True
        then have "y = t + 1 + length v" "y = t + length x" using that w(2) v(3) x by simp_all
        then show ?thesis using m[of y] z by (simp add: nth_append)
      qed (use m[of y] in simp)
      then have p: "pending ?m b ts (ahead (sh_lx s))" using pending_frame[OF assms(1)] by blast
      have "?m y = sh_mem s y" if "y \<le> a" for y using m[of y] that assms(3) by simp
      then have r: "args_at ?m b (sh_argv s) acc" using args_at_mono[OF assms(2,4), of ?m] by blast
      have vs: "cstr ?m (t + 1) v" using v(2) by (auto simp: cstr_iff m[simplified] nth_append in_set_conv_nth)
      have "push_word w t s = Some (Inr ?s)" using 2 v l w(1) x nm by (simp add: push_word_def len)
      moreover have "sim ?s ts (acc @ [v]) lg d0 d1"
        unfolding sim_def using p r vs w(2) v(3) x l by (auto simp: args_at_def intro!: exI[of _ b] list_all2_appendI)
      moreover have "expand w lg x = Inr v" using v x by (simp add: expand_def)
      ultimately show ?thesis using 2 by simp
    qed
  next
    case 3
    have "sh_mem s t \<noteq> 36" using 3 w(1) by (cases x) auto
    then show ?thesis using 3 argsb w l assms(1)
      by (auto simp: push_word_def len expand_def sim_def args_at_def intro!: exI[of _ b] list_all2_appendI)
  qed
qed

lemma acts_sel [simp]:
  "sh_log (acts as s) = sh_log s @ as" "sh_mem (acts as s) = sh_mem s" "sh_lx (acts as s) = sh_lx s"
  "sh_argv (acts as s) = sh_argv s" "dup0 (acts as s) = dup0 s" "dup1 (acts as s) = dup1 s"
  by (simp_all add: acts_def)

lemma sim_cong:
  "sim s ts acc lg d0 d1 \<Longrightarrow> sh_mem s' = sh_mem s \<Longrightarrow> sh_lx s' = sh_lx s \<Longrightarrow> sh_argv s' = sh_argv s \<Longrightarrow>
   sh_log s' = lg' \<Longrightarrow> dup0 s' = d0' \<Longrightarrow> dup1 s' = d1' \<Longrightarrow> sim s' ts acc lg' d0' d1'"
  by (simp add: sim_def)

lemma sim_log: "sim s ts acc lg d0 d1 \<Longrightarrow> sh_log s = lg \<and> dup0 s = d0 \<and> dup1 s = d1"
  by (simp add: sim_def)

lemma restore_ok:
  assumes "sim s ts acc lg d0 d1"
  shows "sim (restore s) ts [] (lg @ undo d0 d1) False False"
proof -
  obtain b where "pending (sh_mem s) b ts (ahead (sh_lx s))" using assms by (auto simp: sim_def)
  then show ?thesis using sim_log[OF assms] by (auto simp: sim_def restore_def undo_def Let_def args_at_def)
qed

lemma file_token:
  assumes "sim s ts acc lg d0 d1"
  obtains c t s' where "sh_token s = Some ((c, t), s')" "sim s' (tl ts) acc lg d0 d1"
    "case file_next ts of None \<Rightarrow> c \<noteq> CHR_w
     | Some (f, ts') \<Rightarrow> c = CHR_w \<and> tl ts = ts' \<and> (\<exists>p. t = Some p \<and> read_str (sh_mem s') p = Some f)"
proof -
  obtain r s' a b where T: "sh_token s = Some (r, s')" "sim s' (tl ts) acc lg d0 d1" "token_is (sh_mem s') a b ts r"
    using sh_token_ok[OF assms] by metis
  show ?thesis
    by (rule that[of "fst r" "snd r" s'])
      (use T in \<open>auto simp: token_is_def file_next_def CHR_w_def SYMBOLS_def read_str_ok split: list.splits tok.splits\<close>)
qed

lemma redirect_in_ok:
  assumes "sim s ts acc lg d0 d1"
  shows "\<exists>r. redirect_in w s = Some r \<and> (case file_next ts of
      None \<Rightarrow> \<exists>s'. r = Inl (Exit s') \<and> sh_log s' = lg @ [APrint ''syntax error: < not followed by word'']
    | Some (f, ts') \<Rightarrow> (case open_in w lg f of Inl lg' \<Rightarrow> \<exists>s'. r = Inl (Exit s') \<and> sh_log s' = lg'
        | Inr lg' \<Rightarrow> \<exists>s'. r = Inr s' \<and> sim s' ts' acc lg' True d1))"
proof -
  obtain c t s' where T: "sh_token s = Some ((c, t), s')" "sim s' (tl ts) acc lg d0 d1"
    "case file_next ts of None \<Rightarrow> c \<noteq> CHR_w
     | Some (f, ts') \<Rightarrow> c = CHR_w \<and> tl ts = ts' \<and> (\<exists>p. t = Some p \<and> read_str (sh_mem s') p = Some f)"
    by (rule file_token[OF assms])
  show ?thesis
  proof (cases "file_next ts")
    case None
    then show ?thesis using T sim_log[OF T(2)] by (simp add: redirect_in_def)
  next
    case (Some x)
    then show ?thesis using T sim_log[OF T(2)]
      by (cases x) (auto simp: redirect_in_def open_in_def Let_def intro!: sim_cong[OF T(2)])
  qed
qed

lemma redirect_out_ok:
  assumes "sim s ts acc lg d0 d1"
  shows "\<exists>r. redirect_out w s = Some r \<and> (case file_next ts of
      None \<Rightarrow> \<exists>s'. r = Inl (Exit s') \<and> sh_log s' = lg @ [APrint ''syntax error: > not followed by word'']
    | Some (f, ts') \<Rightarrow> (case open_out w lg f of Inl lg' \<Rightarrow> \<exists>s'. r = Inl (Exit s') \<and> sh_log s' = lg'
        | Inr lg' \<Rightarrow> \<exists>s'. r = Inr s' \<and> sim s' ts' acc lg' d0 True))"
proof -
  obtain c t s' where T: "sh_token s = Some ((c, t), s')" "sim s' (tl ts) acc lg d0 d1"
    "case file_next ts of None \<Rightarrow> c \<noteq> CHR_w
     | Some (f, ts') \<Rightarrow> c = CHR_w \<and> tl ts = ts' \<and> (\<exists>p. t = Some p \<and> read_str (sh_mem s') p = Some f)"
    by (rule file_token[OF assms])
  show ?thesis
  proof (cases "file_next ts")
    case None
    then show ?thesis using T sim_log[OF T(2)] by (simp add: redirect_out_def)
  next
    case (Some x)
    then show ?thesis using T sim_log[OF T(2)]
      by (cases x) (auto simp: redirect_out_def open_out_def Let_def intro!: sim_cong[OF T(2)])
  qed
qed

lemma follows_done:
  "sim s ts acc lg d0 d1 \<Longrightarrow> follows (Done (acts as s) rp) (PDone acc rp (lg @ as))"
  by (auto simp: sim_def)

lemma symbol_token: "Sym c = t \<Longrightarrow> token_is m a b (t # ts) r \<Longrightarrow> fst r = c \<and> c \<in> SYMBOLS"
  by (auto simp: token_is_def)

lemma redirect_step:
  assumes R: "\<exists>r. red = Some r \<and> (case file_next ts of None \<Rightarrow> \<exists>s'. r = Inl (Exit s') \<and> sh_log s' = e
      | Some (f, ts') \<Rightarrow> (case opn f of Inl lg' \<Rightarrow> \<exists>s'. r = Inl (Exit s') \<and> sh_log s' = lg'
          | Inr lg' \<Rightarrow> \<exists>s'. r = Inr s' \<and> sim s' ts' acc lg' d0 d1))"
    and step: "parse_loop w s False = Option.bind red (\<lambda>r. case r of Inl x \<Rightarrow> Some x | Inr s \<Rightarrow> parse_loop w s False)"
    and M: "M = (case file_next ts of None \<Rightarrow> PExit e
      | Some (f, ts') \<Rightarrow> (case opn f of Inl lg' \<Rightarrow> PExit lg' | Inr lg' \<Rightarrow> meaning w acc lg' d0 d1 ts'))"
    and IH: "\<And>f ts' lg' s'. file_next ts = Some (f, ts') \<Longrightarrow> opn f = Inr lg' \<Longrightarrow> sim s' ts' acc lg' d0 d1 \<Longrightarrow>
      defined (meaning w acc lg' d0 d1 ts') \<Longrightarrow>
      \<exists>t. parse_loop w s' False = Some t \<and> follows t (meaning w acc lg' d0 d1 ts')"
    and D: "defined M"
  shows "\<exists>t. parse_loop w s False = Some t \<and> follows t M"
proof (cases "file_next ts")
  case None
  then show ?thesis using R step M by auto
next
  case (Some x)
  obtain f ts' where x: "x = (f, ts')" by (cases x)
  show ?thesis
  proof (cases "opn f")
    case (Inl lg')
    then show ?thesis using R step M Some x by auto
  next
    case (Inr lg')
    then show ?thesis using R step M D IH[of f ts' lg'] Some x by auto
  qed
qed

lemma parse_loop_ok:
  "sim s ts acc lg d0 d1 \<Longrightarrow> defined (meaning w acc lg d0 d1 ts) \<Longrightarrow>
   \<exists>t. parse_loop w s False = Some t \<and> follows t (meaning w acc lg d0 d1 ts)"
proof (induction w acc lg d0 d1 ts arbitrary: s rule: meaning.induct)
  case (1 w acc lg d0 d1)
  from sh_token_ok[OF 1(1)] obtain r s' a b where T: "sh_token s = Some (r, s')" "sim s' [] acc lg d0 d1" "token_is (sh_mem s') a b [] r"
    by (metis list.sel(2))
  then show ?case using sim_log[OF T(2)] by (cases r) (auto simp: parse_loop.simps[of w s] token_is_def sim_def)
next
  case (2 w acc lg d0 d1 x ts)
  from sh_token_ok[OF 2(2)] obtain r s' a b where T: "sh_token s = Some (r, s')" "sim s' ts acc lg d0 d1"
    "pending (sh_mem s') b ts (ahead (sh_lx s'))" "args_at (sh_mem s') a (sh_argv s') acc"
    "token_is (sh_mem s') a b (Word x # ts) r" "a \<le> b" by (metis list.sel(3))
  obtain t where t: "r = (CHR_w, Some t)" "a \<le> t" "cstr (sh_mem s') t x" "t + length x \<le> b"
    using T(5) by (cases r) (auto simp: token_is_def)
  have d: "MAXARGS \<le> length acc \<or> expand w lg x \<noteq> Inl PUndef" using 2(3) by (auto split: if_splits sum.splits)
  note sl = sim_log[OF T(2)]
  note P = push_word_ok[OF T(3,4) t(2) T(6) t(3,4) _ _ _ d, of d0 d1]
  have step: "parse_loop w s False = Option.bind (push_word w t s') (\<lambda>r. case r of Inl x \<Rightarrow> Some x | Inr s \<Rightarrow> parse_loop w s False)"
    using T(1) t(1) by (simp add: parse_loop.simps[of w s] CHR_w_def)
  show ?case
  proof (cases "MAXARGS \<le> length acc")
    case True
    then show ?thesis using P sl step by auto
  next
    case False
    show ?thesis
    proof (cases "expand w lg x")
      case (Inl p)
      then show ?thesis using P sl step False by auto
    next
      case (Inr v)
      obtain s'' where "push_word w t s' = Some (Inr s'')" "sim s'' ts (acc @ [v]) lg d0 d1" using P sl False Inr by auto
      then show ?thesis using 2(1)[OF False Inr] 2(3) step False Inr by simp
    qed
  qed
next
  case (3 w acc lg d0 d1 c ts)
  note IH = 3(1-6) and prem = 3(7,8)
  from sh_token_ok[OF prem(1)] obtain r s' a b where T: "sh_token s = Some (r, s')" "sim s' ts acc lg d0 d1"
    "token_is (sh_mem s') a b (Sym c # ts) r" by (metis list.sel(3))
  obtain t where r: "r = (c, t)" and c: "c \<in> SYMBOLS" using symbol_token[OF refl T(3)] by (cases r) auto
  have nw: "c \<noteq> 0" "c \<noteq> CHR_w" using c by (auto simp: SYMBOLS_def CHR_w_def)
  note step = parse_loop.simps[of w s False, unfolded T(1) r, simplified, unfolded if_not_P[OF nw(1)] if_not_P[OF nw(2)]]
  note sl = sim_log[OF T(2)]
  consider (lt) "c = 60" | (gt) "c = 62" | (pipe) "c = 124" | (seq) "c = 59" | (bg) "c = 38"
    | (other) "c \<noteq> 60" "c \<noteq> 62" "c \<noteq> 124" "c \<noteq> 59" "c \<noteq> 38" by blast
  then show ?case
  proof cases
    case lt
    show ?thesis
    proof (rule redirect_step[OF redirect_in_ok[OF T(2)]])
      show "parse_loop w s False = Option.bind (redirect_in w s') (\<lambda>r. case r of Inl x \<Rightarrow> Some x | Inr s \<Rightarrow> parse_loop w s False)"
        using step lt by simp
    qed (use IH(1)[OF lt _ refl] prem(2) lt in auto)
  next
    case gt
    show ?thesis
    proof (rule redirect_step[OF redirect_out_ok[OF T(2)]])
      show "parse_loop w s False = Option.bind (redirect_out w s') (\<lambda>r. case r of Inl x \<Rightarrow> Some x | Inr s \<Rightarrow> parse_loop w s False)"
        using step gt by simp
    qed (use IH(2)[OF _ gt _ refl] prem(2) gt in auto)
  next
    case pipe
    obtain p0 p1 where p: "w_pipe w lg = (p0, p1)" by (cases "w_pipe w lg")
    let ?s = "acts [ADup p0 0, AClose p0, AClose p1] (acts [APipe] s')"
    have "sim (restore ?s) ts [] (lg @ [APipe, ADup p0 0, AClose p0, AClose p1] @ undo d0 d1) False False"
      using restore_ok[OF sim_cong[OF T(2), of ?s "lg @ [APipe, ADup p0 0, AClose p0, AClose p1]" d0 d1]] sl by simp
    from IH(3)[OF _ _ pipe p[symmetric] this] prem(2) pipe p
    obtain t where "parse_loop w (restore ?s) False = Some t"
      "follows t (meaning w [] (lg @ [APipe, ADup p0 0, AClose p0, AClose p1] @ undo d0 d1) False False ts)" by auto
    then show ?thesis using step pipe p sl follows_done[OF T(2), of "[APipe, ADup p1 1, AClose p1, AClose p0]" True]
      by (simp add: acts_def)
  next
    case seq
    have "sim (restore (acts [AWait] s')) ts [] (lg @ [AWait] @ undo d0 d1) False False"
      using restore_ok[OF sim_cong[OF T(2), of "acts [AWait] s'" "lg @ [AWait]" d0 d1]] sl by simp
    from IH(4)[OF _ _ _ seq this] prem(2) seq
    obtain p where p: "parse_loop w (restore (acts [AWait] s')) False = Some p"
      "follows p (meaning w [] (lg @ [AWait] @ undo d0 d1) False False ts)" by auto
    then show ?thesis using step seq follows_done[OF T(2), of "[]" False] by simp
  next
    case bg
    have "sim (restore s') ts [] (lg @ undo d0 d1) False False" by (rule restore_ok[OF T(2)])
    from IH(5)[OF _ _ _ _ bg this] prem(2) bg
    obtain p where "parse_loop w (restore s') False = Some p"
      "follows p (meaning w [] (lg @ undo d0 d1) False False ts)" by auto
    then show ?thesis using step bg follows_done[OF T(2), of "[]" False] by simp
  next
    case other
    then show ?thesis using step IH(6)[OF other T(2)] prem(2) by simp
  qed
qed

lemma read_args: "args_at m b ps ws \<Longrightarrow> those (map (read_str m) ps) = Some ws"
  unfolding args_at_def by (induction rule: list_all2_induct) (auto simp: read_str_ok)

lemma run_tree_ok: "follows t p \<Longrightarrow> defined p \<Longrightarrow> run_tree w sid t = Some (outcome w sid p)"
  by (induction t p rule: follows.induct) (auto dest: read_args simp: dispatch_ok)

lemma runcmd_ok:
  assumes "cstr (sh_mem s) a line" "sh_argv s = []"
    and "p = meaning w [] (sh_log s @ undo (dup0 s) (dup1 s)) False False (toks line)" "defined p"
  shows "runcmd w sid a s = Some (outcome w sid p)"
proof -
  obtain lx m where F: "gettoken (Some a) (sh_lx s, sh_mem s) = Some ((0, None), lx, m)" "pending m a (toks line) (ahead lx)"
    by (rule first_token[OF assms(1)])
  let ?s = "s\<lparr>sh_lx := lx, sh_mem := m\<rparr>"
  have "sim ?s (toks line) [] (sh_log s) (dup0 s) (dup1 s)" using F(2) assms(2) by (auto simp: sim_def args_at_def)
  from parse_loop_ok[OF restore_ok[OF this]] assms(3,4)
  obtain t where "parsecmd w ?s = Some t" "follows t p" by (auto simp: parsecmd_def)
  then show ?thesis using F(1) run_tree_ok assms(4) by (simp add: runcmd_def)
qed

text \<open>
  C27. The command interpreter of the shell does what its tokens mean: for every command line in the
  buffer in which no variable has a value longer than its name (\<open>strcpy\<close> would write such a value over the
  rest of the line), \<open>runcmd\<close> ends in the tree of processes, each with the sequence of calls, that the
  reference interpreter reads off the tokens of the line: redirections, pipes, \<open>;\<close> and \<open>&\<close>, the
  commands it runs itself, the programs it spawns with their arguments, and what it waits for. The arguments
  are the words of the process's part of the line, although the tokenizer overwrites the line while it
  runs; a variable that does not exist ends the process in a copy from an uninitialised buffer.
\<close>

theorem runcmd_correct:
  assumes "cstr (sh_mem s) a line" "sh_argv s = []"
    and "p = meaning w [] (sh_log s @ undo (dup0 s) (dup1 s)) False False (toks line)" "defined p"
  shows "runcmd w sid a s = Some (outcome w sid p)"
  by (rule runcmd_ok[OF assms])

definition a_world :: world where
  "a_world = \<lparr>w_open = \<lambda>_ _ _. 5, w_create = \<lambda>_ _. 0, w_pipe = \<lambda>_. (3, 4), w_env = \<lambda>_ _. Some [120], w_chdir = \<lambda>_ _. 0,
     w_getcwd = \<lambda>_. (0, [47]), w_stat = \<lambda>_ _. (0, True), w_spawn = \<lambda>_ _. 1\<rparr>"

definition at_line :: "u8 list \<Rightarrow> sh" where
  "at_line l = \<lparr>sh_lx = \<lparr>lx_c = 0, lx_nc = 0, lx_np1 = None, lx_np2 = None\<rparr>,
     sh_mem = (\<lambda>i. if i < length l then l ! i else 0), sh_argv = [], dup0 = False, dup1 = False, sh_log = []\<rparr>"

text \<open>
  The line \<^verbatim>\<open>a<f | b $v\<close>: the right side of the pipe first dups the pipe to its descriptor 0 and then,
  undoing the redirection of the left side, descriptor 1 to its descriptor 0.
\<close>

lemma runcmd_correct_witness:
  "runcmd a_world 0 0 (at_line [97, 60, 102, 32, 124, 32, 98, 32, 36, 118]) = Some (OFork FPipe
     (OExit [AOpen [102] 0, ADup 5 0, AClose 5, APipe, ADup 3 0, AClose 3, AClose 4, ADup 1 0,
             ASpawn [[98], [120]], ACloseAll, AWait])
     (OExit [AOpen [102] 0, ADup 5 0, AClose 5, APipe, ADup 4 1, AClose 4, AClose 3,
             ASpawn [[97]], ACloseAll, AWait, AWaitRight]))"
proof -
  let ?l = "[97, 60, 102, 32, 124, 32, 98, 32, 36, 118]" and ?s = "at_line [97, 60, 102, 32, 124, 32, 98, 32, 36, 118]"
  have "cstr (sh_mem ?s) 0 ?l" "sh_argv ?s = []" by code_simp+
  moreover have "defined (meaning a_world [] (sh_log ?s @ undo (dup0 ?s) (dup1 ?s)) False False (toks ?l))" by code_simp
  ultimately have "runcmd a_world 0 0 ?s =
      Some (outcome a_world 0 (meaning a_world [] (sh_log ?s @ undo (dup0 ?s) (dup1 ?s)) False False (toks ?l)))"
    using runcmd_correct[of ?s 0 ?l _ a_world 0, OF _ _ refl] by blast
  also have "outcome a_world 0 (meaning a_world [] (sh_log ?s @ undo (dup0 ?s) (dup1 ?s)) False False (toks ?l)) = OFork FPipe
     (OExit [AOpen [102] 0, ADup 5 0, AClose 5, APipe, ADup 3 0, AClose 3, AClose 4, ADup 1 0,
             ASpawn [[98], [120]], ACloseAll, AWait])
     (OExit [AOpen [102] 0, ADup 5 0, AClose 5, APipe, ADup 4 1, AClose 4, AClose 3,
             ASpawn [[97]], ACloseAll, AWait, AWaitRight])" by code_simp
  finally show ?thesis .
qed

end
