(* ===== verification/Edit.thy ===== *)
theory Edit
  imports Prelude
begin

text \<open>
  The line editor of the shell and its history: \<open>readline\<close>, \<open>dirkey\<close>, \<open>savecmd\<close> and \<open>gethis\<close> of \<^verbatim>\<open>user/sh.c\<close>.
  A buffer is a list of its size, and a store outside of it is a \<open>Fault\<close>. The input is the list of bytes
  that \<open>read\<close> on descriptor 0 still delivers; when it is empty the shell exits, \<open>Quit\<close>. What is read and
  printed is logged. The file \<^verbatim>\<open>.history\<close> is its contents, \<open>can_open\<close> says whether \<open>open\<close> succeeds after
  the attempt to create the file, and what \<open>write\<close> returns is an argument.
\<close>

section \<open>Buffers\<close>

definition bset :: "nat \<Rightarrow> u8 \<Rightarrow> u8 list \<Rightarrow> u8 list res" where
  "bset i c b = (if i < length b then Ret (b[i := c]) else Fault ''store outside the buffer'')"

definition bstr :: "u8 list \<Rightarrow> u8 list res" where
  "bstr b = (if 0 \<in> set b then Ret (takeWhile (\<lambda>c. c \<noteq> 0) b) else Fault ''string without end'')"

text \<open>\<open>strcpy\<close>, or another copy of bytes, to the start of the buffer.\<close>

definition bcpy :: "u8 list \<Rightarrow> u8 list \<Rightarrow> u8 list res" where
  "bcpy s b = (if length s \<le> length b then Ret (s @ drop (length s) b) else Fault ''copy outside the buffer'')"

text \<open>\<open>for (j = i - 1; j < len - 1; j++) buf[j] = buf[j + 1]\<close>, with \<open>j\<close> and \<open>len - 1\<close>.\<close>

function shift_down :: "nat \<Rightarrow> nat \<Rightarrow> u8 list \<Rightarrow> u8 list res" where
  "shift_down j m b = (if j < m then
     (if j + 1 < length b then rbind (bset j (b ! (j + 1)) b) (shift_down (j + 1) m) else Fault ''load outside the buffer'')
     else Ret b)"
  by pat_completeness auto
termination by (relation "measure (\<lambda>(j, m, b). m - j)") auto

text \<open>\<open>for (j = len; j > i; j--) buf[j] = buf[j - 1]\<close>.\<close>

fun shift_up :: "nat \<Rightarrow> nat \<Rightarrow> u8 list \<Rightarrow> u8 list res" where
  "shift_up 0 i b = Ret b"
| "shift_up (Suc j) i b = (if i < Suc j then
     (if j < length b then rbind (bset (Suc j) (b ! j) b) (shift_up j i) else Fault ''load outside the buffer'')
     else Ret b)"

section \<open>History\<close>

datatype 'a quit = Go 'a | Quit

record hist =
  hisinit :: bool
  hislen :: nat
  hisoffsets :: "nat list"
  hisfile :: "u8 list"
  can_open :: bool

definition HISLINES :: nat where "HISLINES = 128"
definition TEMPBUF :: nat where "TEMPBUF = 4096"
definition LF :: u8 where "LF = 10"

text \<open>\<open>open\<close> with \<open>O_APPEND\<close> leaves the offset of the descriptor at the first NUL byte of the file; a write is at the offset.\<close>

definition append_offset :: "u8 list \<Rightarrow> nat" where
  "append_offset f = length (takeWhile (\<lambda>c. c \<noteq> 0) f)"

definition write_at :: "nat \<Rightarrow> u8 list \<Rightarrow> u8 list \<Rightarrow> u8 list" where
  "write_at off s f = take off f @ s @ drop (off + length s) f"

definition put_offset :: "nat \<Rightarrow> nat \<Rightarrow> hist \<Rightarrow> hist res" where
  "put_offset i v h = (if i < HISLINES then Ret (h\<lparr>hisoffsets := (hisoffsets h)[i := v]\<rparr>) else Fault ''hisoffsets index'')"

definition savecmd :: "int \<times> int \<Rightarrow> u8 list \<Rightarrow> hist \<Rightarrow> hist quit res" where
  "savecmd wr s h =
     (if \<not> can_open h then Ret Quit
      else if fst wr \<noteq> int (length s) then Panic ''write error .history: %d''
      else let off = append_offset (hisfile h); h = h\<lparr>hisfile := write_at off s (hisfile h)\<rparr>
        in if snd wr \<noteq> 1 then Panic ''write error .history: %d''
           else let h = h\<lparr>hisfile := write_at (off + length s) [LF] (hisfile h)\<rparr>
             in if \<not> hisinit h
                then rbind (put_offset (hislen h) (length s + 1) (h\<lparr>hisinit := True\<rparr>)) (\<lambda>h. Ret (Go (h\<lparr>hislen := hislen h + 1\<rparr>)))
                else rbind (put_offset (hislen h) (hisoffsets h ! (hislen h - 1) + length s + 1) h)
                       (\<lambda>h. Ret (Go (h\<lparr>hislen := hislen h + 1\<rparr>))))"

definition gethis :: "nat \<Rightarrow> u8 list \<Rightarrow> hist \<Rightarrow> u8 list quit res" where
  "gethis index cmd h =
     (if \<not> can_open h then Ret Quit
      else if HISLINES \<le> index then Fault ''hisoffsets index''
      else let start = (if index \<noteq> 0 then hisoffsets h ! (index - 1) else 0);
               cmdlen = hisoffsets h ! index - start
        in if TEMPBUF < min start (length (hisfile h)) then Fault ''tempbuf overflow''
           else if length (hisfile h) < start then Panic ''can't read file .history: %d''
           else rbind (bcpy (take cmdlen (drop start (hisfile h))) cmd) (\<lambda>cmd.
             if length (hisfile h) < start + cmdlen then Panic ''can't read file .history: %d''
             else if cmdlen = 0 then Fault ''cmd[-1]''
             else rbind (bset (cmdlen - 1) 0 cmd) (\<lambda>cmd. Ret (Go cmd))))"

section \<open>readline\<close>

datatype ev = ERead u8 | ELeft nat | ERight nat | EDown nat | EText "u8 list"

record ed =
  buf :: "u8 list"
  elen :: nat
  ei :: nat
  index :: nat
  curcmd :: "u8 list option"
  elog :: "ev list"

definition says :: "ev list \<Rightarrow> ed \<Rightarrow> ed" where
  "says es s = s\<lparr>elog := elog s @ es\<rparr>"

definition ESC :: u8 where "ESC = 27"
definition BRACKET :: u8 where "BRACKET = 91"

definition dirkey :: "u8 list \<Rightarrow> (nat \<times> u8 list \<times> u8 list) option" where
  "dirkey inp = (case inp of t1 # t2 # rest \<Rightarrow>
       Some (if t1 = BRACKET then (if t2 = 65 then 1 else if t2 = 66 then 2 else if t2 = 68 then 3 else if t2 = 67 then 4 else 0) else 0,
         [t1, t2], rest)
     | _ \<Rightarrow> None)"

definition backspace :: "ed \<Rightarrow> ed res" where
  "backspace s =
     (if 0 < ei s then
        (if ei s = elen s
         then rbind (bset (ei s - 1) 0 (buf s)) (\<lambda>b.
           Ret (says [ELeft 1, EText [32], ELeft 1] (s\<lparr>buf := b, ei := ei s - 1, elen := elen s - 1\<rparr>)))
         else rbind (shift_down (ei s - 1) (elen s - 1) (buf s)) (\<lambda>b. rbind (bset (elen s - 1) 0 b) (\<lambda>b. rbind (bstr b) (\<lambda>t.
           Ret (says [ELeft (ei s), EText (t @ [32]), ELeft (elen s - (ei s - 1))]
             (s\<lparr>buf := b, ei := ei s - 1, elen := elen s - 1\<rparr>))))))
      else Ret s)"

definition insert_char :: "u8 \<Rightarrow> ed \<Rightarrow> ed res" where
  "insert_char c s =
     (if ei s = elen s
      then rbind (bset (ei s) c (buf s)) (\<lambda>b. Ret (s\<lparr>buf := b, ei := ei s + 1, elen := elen s + 1\<rparr>))
      else rbind (shift_up (elen s) (ei s) (buf s)) (\<lambda>b. rbind (bset (ei s) c b) (\<lambda>b. rbind (bset (elen s + 1) 0 b) (\<lambda>b. rbind (bstr b) (\<lambda>t.
        Ret (says [ELeft (ei s + 1), EText t, ELeft (elen s - (ei s + 1) + 1)] (s\<lparr>buf := b, ei := ei s + 1, elen := elen s + 1\<rparr>)))))))"

text \<open>The new contents of \<open>buf\<close> are printed over the old.\<close>

definition redraw :: "ed \<Rightarrow> ed res" where
  "redraw s = rbind (bstr (buf s)) (\<lambda>t.
     Ret ((says ((if 0 < ei s then [ELeft (ei s)] else []) @ [EText t] @
        (if length t < elen s then replicate (elen s - length t) (EText [32]) @ [ELeft (elen s - length t)] else [])) s)
        \<lparr>elen := length t, ei := length t\<rparr>))"

text \<open>\<open>readline\<close> moves left before it reads the history and after it in the second case; this makes no difference.\<close>

definition arrow_up :: "hist \<Rightarrow> ed \<Rightarrow> ed quit res" where
  "arrow_up h s =
     (let s = says [EDown 1] s
      in rbind (if index s = hislen h
                then rbind (bset (elen s) 0 (buf s)) (\<lambda>b. rbind (bstr b) (\<lambda>t. Ret (s\<lparr>buf := b, curcmd := Some t\<rparr>)))
                else Ret s) (\<lambda>s.
         let s = (if 0 < index s then s\<lparr>index := index s - 1\<rparr> else s)
         in rbind (gethis (index s) (buf s) h) (\<lambda>r. case r of Quit \<Rightarrow> Ret Quit
              | Go b \<Rightarrow> rbind (redraw (s\<lparr>buf := b\<rparr>)) (\<lambda>s. Ret (Go s)))))"

definition arrow_down :: "hist \<Rightarrow> ed \<Rightarrow> ed quit res" where
  "arrow_down h s =
     (if index s + 1 = hislen h
      then (case curcmd s of None \<Rightarrow> Fault ''curcmd is not initialised''
        | Some t \<Rightarrow> rbind (bcpy (t @ [0]) (buf s)) (\<lambda>b. rbind (redraw (s\<lparr>index := index s + 1, buf := b\<rparr>)) (\<lambda>s. Ret (Go s))))
      else if index s = hislen h then Ret (Go s)
      else rbind (gethis (index s + 1) (buf s) h) (\<lambda>r. case r of Quit \<Rightarrow> Ret Quit
        | Go b \<Rightarrow> rbind (redraw (s\<lparr>index := index s + 1, buf := b\<rparr>)) (\<lambda>s. Ret (Go s))))"

definition arrow_left :: "ed \<Rightarrow> ed" where
  "arrow_left s = (if 0 < ei s then s\<lparr>ei := ei s - 1\<rparr> else says [ERight 1] s)"

definition arrow_right :: "ed \<Rightarrow> ed" where
  "arrow_right s = (if ei s < elen s then s\<lparr>ei := ei s + 1\<rparr> else says [ELeft 1] s)"

definition arrow :: "nat \<Rightarrow> hist \<Rightarrow> ed \<Rightarrow> ed quit res" where
  "arrow k h s = (if k = 1 then arrow_up h s else if k = 2 then arrow_down h s
     else if k = 3 then Ret (Go (arrow_left s)) else if k = 4 then Ret (Go (arrow_right s)) else Ret (Go s))"

text \<open>The loop after an overlong line. The first byte of \<open>buf\<close> ends as NUL whatever is read.\<close>

fun drain :: "u8 list \<Rightarrow> u8 list" where
  "drain [] = []"
| "drain (c # cs) = (if c = 13 \<or> c = 10 then cs else drain cs)"

lemma dirkey_shorter: "dirkey inp = Some (k, cs, rest) \<Longrightarrow> length rest < length inp"
  by (auto simp: dirkey_def split: list.splits)

text \<open>The result is the state at the return and the rest of the input.\<close>

function readline_loop :: "nat \<Rightarrow> hist \<Rightarrow> u8 list \<Rightarrow> ed \<Rightarrow> (ed \<times> u8 list) quit res" where
  "readline_loop n h inp s =
     (if n \<le> ei s \<or> n \<le> elen s then rbind (bset 0 0 (buf s)) (\<lambda>b. Ret (Go (s\<lparr>buf := b\<rparr>, drain inp)))
      else case inp of [] \<Rightarrow> Ret Quit
      | c # cs \<Rightarrow> let s = says [ERead c] s
         in if c = 8 \<or> c = 127 then rbind (backspace s) (readline_loop n h cs)
            else if c = ESC then (case dirkey cs of None \<Rightarrow> Ret Quit
              | Some (k, rd, cs) \<Rightarrow> rbind (arrow k h (says (map ERead rd) s)) (\<lambda>r. case r of Quit \<Rightarrow> Ret Quit
                   | Go s \<Rightarrow> readline_loop n h cs s))
            else if c = 13 \<or> c = 10 then rbind (bset (elen s) 0 (buf s)) (\<lambda>b. Ret (Go (s\<lparr>buf := b\<rparr>, cs)))
            else rbind (insert_char c s) (readline_loop n h cs))"
  by pat_completeness auto
termination by (relation "measure (\<lambda>(n, h, inp, s). length inp)") (auto dest: dirkey_shorter)

definition readline :: "hist \<Rightarrow> u8 list \<Rightarrow> u8 list \<Rightarrow> (ed \<times> u8 list) quit res" where
  "readline h inp b = readline_loop (length b) h inp
     \<lparr>buf = b, elen = 0, ei = 0, index = hislen h, curcmd = None, elog = []\<rparr>"

section \<open>History: what is saved is found again\<close>

abbreviation entries :: "u8 list list \<Rightarrow> u8 list" where
  "entries ls \<equiv> concat (map (\<lambda>l. l @ [LF]) ls)"

definition hist_rep :: "u8 list list \<Rightarrow> hist \<Rightarrow> bool" where
  "hist_rep ls h \<longleftrightarrow> can_open h \<and> hislen h = length ls \<and> length ls \<le> HISLINES \<and> length (hisoffsets h) = HISLINES \<and>
     hisinit h = (ls \<noteq> []) \<and> hisfile h = entries ls \<and> (\<forall>l \<in> set ls. 0 \<notin> set l) \<and>
     (\<forall>i < length ls. hisoffsets h ! i = length (entries (take (Suc i) ls)))"

lemma no_zero_entries: "\<forall>l \<in> set ls. 0 \<notin> set l \<Longrightarrow> 0 \<notin> set (entries ls)"
  by (auto simp: LF_def)

lemma append_offset_end: "0 \<notin> set f \<Longrightarrow> append_offset f = length f"
proof -
  assume "0 \<notin> set f"
  then have "takeWhile (\<lambda>c. c \<noteq> 0) f = f" by (induction f) auto
  then show ?thesis by (simp only: append_offset_def)
qed

lemma write_at_end: "write_at (length f) s f = f @ s"
  by (simp add: write_at_def)

lemma hist_off: "hist_rep ls h \<Longrightarrow> i < length ls \<Longrightarrow> hisoffsets h ! i = length (entries (take i ls)) + length (ls ! i) + 1"
  by (simp add: hist_rep_def take_Suc_conv_app_nth)

lemma entries_split: "i < length ls \<Longrightarrow> entries ls = entries (take i ls) @ ls ! i @ LF # entries (drop (Suc i) ls)"
  by (subst id_take_nth_drop[of i ls]) simp_all

lemma savecmd_ok:
  assumes "hist_rep ls h" "length ls < HISLINES" "0 \<notin> set l" "wr = (int (length l), 1)"
  shows "\<exists>h'. savecmd wr l h = Ret (Go h') \<and> hist_rep (ls @ [l]) h'"
proof -
  have z: "0 \<notin> set (hisfile h)" using assms(1) no_zero_entries by (auto simp: hist_rep_def)
  note f = append_offset_end[OF z] write_at_end[of "hisfile h" l] write_at_end[of "hisfile h @ l" "[LF]", simplified]
  have off: "hisoffsets h ! (length ls - 1) = length (entries ls)" if "ls \<noteq> []"
    using assms(1) that by (auto simp: hist_rep_def)
  have v: "(if \<not> hisinit h then length l + 1 else hisoffsets h ! (hislen h - 1) + length l + 1) = length (entries (ls @ [l]))"
    using assms(1) off by (cases ls) (auto simp: hist_rep_def)
  let ?h = "h\<lparr>hisfile := entries (ls @ [l]), hisinit := True, hislen := length ls + 1,
     hisoffsets := (hisoffsets h)[length ls := length (entries (ls @ [l]))]\<rparr>"
  have co: "can_open h" "hislen h = length ls" "hisfile h @ l @ [LF] = entries (ls @ [l])" "hisinit h = (ls \<noteq> [])"
    using assms(1) by (simp_all add: hist_rep_def)
  have "savecmd wr l h = Ret (Go ?h)"
    using assms(2,4) co f v by (cases "hisinit h") (simp_all add: savecmd_def put_offset_def Let_def)
  moreover have "hist_rep (ls @ [l]) ?h"
    using assms(1-3) unfolding hist_rep_def by (auto simp: nth_list_update nth_append less_Suc_eq)
  ultimately show ?thesis by blast
qed

lemma gethis_ok:
  assumes "hist_rep ls h" "i < length ls" "length (entries ls) \<le> TEMPBUF" "length (ls ! i) < length b"
  shows "gethis i b h = Ret (Go (ls ! i @ 0 # drop (length (ls ! i) + 1) b))"
proof -
  let ?s = "length (entries (take i ls))"
  have st: "(if i \<noteq> 0 then hisoffsets h ! (i - 1) else 0) = ?s"
    using assms(1,2) by (auto simp: hist_rep_def)
  have cl: "hisoffsets h ! i - ?s = length (ls ! i) + 1" using hist_off[OF assms(1,2)] by simp
  have F: "hisfile h = entries (take i ls) @ ls ! i @ LF # entries (drop (Suc i) ls)"
    using assms(1) entries_split[OF assms(2)] by (simp add: hist_rep_def)
  have "take (length (ls ! i) + 1) (drop ?s (hisfile h)) = ls ! i @ [LF]" unfolding F by simp
  moreover have "?s + length (ls ! i) + 1 \<le> length (hisfile h)" "length (hisfile h) \<le> TEMPBUF"
    using assms(1,3) by (simp add: F, simp add: hist_rep_def)
  moreover have "can_open h" "\<not> HISLINES \<le> i" using assms(1,2) by (simp_all add: hist_rep_def)
  moreover have "bset (length (ls ! i)) 0 (ls ! i @ LF # drop (Suc (length (ls ! i))) b) = Ret (ls ! i @ 0 # drop (Suc (length (ls ! i))) b)"
    using assms(4) by (simp add: bset_def list_update_append)
  ultimately show ?thesis
    using assms(4) unfolding gethis_def Let_def st cl by (simp add: bcpy_def)
qed

section \<open>The editor on the text left and right of the cursor\<close>

record zip =
  zl :: "u8 list"
  zr :: "u8 list"
  zidx :: nat
  zcur :: "u8 list option"
  zlog :: "ev list"

definition z_text :: "zip \<Rightarrow> u8 list" where
  "z_text z = zl z @ zr z"

definition z_says :: "ev list \<Rightarrow> zip \<Rightarrow> zip" where
  "z_says es z = z\<lparr>zlog := zlog z @ es\<rparr>"

definition z_back :: "zip \<Rightarrow> zip" where
  "z_back z = (if zl z = [] then z else z_says
     (if zr z = [] then [ELeft 1, EText [32], ELeft 1]
      else [ELeft (length (zl z)), EText (butlast (zl z) @ zr z @ [32]), ELeft (length (zr z) + 1)])
     (z\<lparr>zl := butlast (zl z)\<rparr>))"

definition z_insert :: "u8 \<Rightarrow> zip \<Rightarrow> zip" where
  "z_insert c z = z_says
     (if zr z = [] then [] else [ELeft (length (zl z) + 1), EText (zl z @ c # zr z), ELeft (length (zr z))])
     (z\<lparr>zl := zl z @ [c]\<rparr>)"

definition z_set :: "u8 list \<Rightarrow> zip \<Rightarrow> zip" where
  "z_set t z = z_says ((if zl z = [] then [] else [ELeft (length (zl z))]) @ [EText t] @
       (if length t < length (z_text z)
        then replicate (length (z_text z) - length t) (EText [32]) @ [ELeft (length (z_text z) - length t)] else []))
     (z\<lparr>zl := t, zr := []\<rparr>)"

definition z_up :: "u8 list list \<Rightarrow> zip \<Rightarrow> zip" where
  "z_up ls z = (let z = (if zidx z = length ls then z\<lparr>zcur := Some (z_text z)\<rparr> else z); i = zidx z - 1
     in z_set (ls ! i) (z_says [EDown 1] (z\<lparr>zidx := i\<rparr>)))"

definition z_down :: "u8 list list \<Rightarrow> zip \<Rightarrow> zip" where
  "z_down ls z = (if zidx z = length ls then z
     else z_set (if zidx z + 1 = length ls then the (zcur z) else ls ! (zidx z + 1)) (z\<lparr>zidx := zidx z + 1\<rparr>))"

definition z_left :: "zip \<Rightarrow> zip" where
  "z_left z = (if zl z = [] then z_says [ERight 1] z else z\<lparr>zl := butlast (zl z), zr := last (zl z) # zr z\<rparr>)"

definition z_right :: "zip \<Rightarrow> zip" where
  "z_right z = (if zr z = [] then z_says [ELeft 1] z else z\<lparr>zl := zl z @ [hd (zr z)], zr := tl (zr z)\<rparr>)"

definition z_arrow :: "u8 list list \<Rightarrow> nat \<Rightarrow> zip \<Rightarrow> zip" where
  "z_arrow ls k z = (if k = 1 then z_up ls z else if k = 2 then z_down ls z else if k = 3 then z_left z
     else if k = 4 then z_right z else z)"

lemma z_says_sel [simp]:
  "zl (z_says es z) = zl z" "zr (z_says es z) = zr z" "zidx (z_says es z) = zidx z" "zcur (z_says es z) = zcur z"
  "zlog (z_says es z) = zlog z @ es" "z_text (z_says es z) = z_text z"
  "z_text (z\<lparr>zidx := i\<rparr>) = z_text z" "z_text (z\<lparr>zcur := t\<rparr>) = z_text z"
  by (simp_all add: z_says_def z_text_def)

lemma z_says_says [simp]: "z_says es (z_says es' z) = z_says (es' @ es) z"
  by (simp add: z_says_def)

text \<open>The line, the rest of the input and the log; \<open>Undef\<close> where the code leaves its buffer.\<close>

datatype edited = Line "u8 list" "u8 list" "ev list" | Ends | Undef

function edit :: "nat \<Rightarrow> u8 list list \<Rightarrow> u8 list \<Rightarrow> zip \<Rightarrow> edited" where
  "edit n ls inp z =
     (if n \<le> length (z_text z) then Line [] (drain inp) (zlog z)
      else case inp of [] \<Rightarrow> Ends
      | c # cs \<Rightarrow>
          if c = 0 then Undef
          else if c = 8 \<or> c = 127 then edit n ls cs (z_back (z_says [ERead c] z))
          else if c = ESC then (case dirkey cs of None \<Rightarrow> Ends
            | Some (k, rd, cs) \<Rightarrow> if k = 1 \<and> ls = [] then Undef else edit n ls cs (z_arrow ls k (z_says (ERead c # map ERead rd) z)))
          else if c = 13 \<or> c = 10 then Line (z_text z) cs (zlog z @ [ERead c])
          else if zr z \<noteq> [] \<and> n \<le> length (z_text z) + 1 then Undef
          else edit n ls cs (z_insert c (z_says [ERead c] z)))"
  by pat_completeness auto
termination by (relation "measure (\<lambda>(n, ls, inp, z). length inp)") (auto dest: dirkey_shorter)

section \<open>The loops on the buffer\<close>

lemma shift_down_ok:
  "\<exists>y. shift_down (length l) (length l + length r) (l @ x # r @ rest) = Ret (l @ r @ y # rest)"
proof (induction r arbitrary: l x)
  case Nil
  then show ?case by (simp add: shift_down.simps)
next
  case (Cons a r)
  have "shift_down (length l) (length l + length (a # r)) (l @ x # (a # r) @ rest) =
      shift_down (length (l @ [a])) (length (l @ [a]) + length r) ((l @ [a]) @ a # r @ rest)"
    by (simp add: shift_down.simps[of "length l"] bset_def nth_append)
  then show ?case using Cons.IH[of "l @ [a]" a] by simp
qed

lemma shift_up_ok:
  "\<exists>y. shift_up (length l + length r) (length l) (l @ r @ x # rest) = Ret (l @ y # r @ rest)"
proof (induction r arbitrary: x rest rule: rev_induct)
  case Nil
  show ?case by (cases "length l") simp_all
next
  case (snoc a r)
  have "shift_up (length l + length (r @ [a])) (length l) (l @ (r @ [a]) @ x # rest) =
      shift_up (length l + length r) (length l) (l @ r @ a # a # rest)"
    by (simp add: bset_def nth_append list_update_append)
  then show ?case using snoc.IH[of a "a # rest"] by simp
qed

lemma bstr_line: "0 \<notin> set t \<Longrightarrow> bstr (t @ 0 # rest) = Ret t"
proof -
  assume "0 \<notin> set t"
  then have "takeWhile (\<lambda>c. c \<noteq> 0) (t @ 0 # rest) = t" by (induction t) auto
  then show ?thesis by (simp add: bstr_def)
qed

section \<open>Every key does on the buffer what it does on the text\<close>

definition ed_sim :: "nat \<Rightarrow> u8 list list \<Rightarrow> ed \<Rightarrow> zip \<Rightarrow> bool" where
  "ed_sim n ls s z \<longleftrightarrow> (\<exists>rest. buf s = zl z @ zr z @ rest) \<and> length (buf s) = n \<and> elen s = length (z_text z) \<and>
     ei s = length (zl z) \<and> 0 \<notin> set (z_text z) \<and> index s = zidx z \<and> curcmd s = zcur z \<and> elog s = zlog z \<and> zidx z \<le> length ls \<and>
     (zidx z < length ls \<longrightarrow> zcur z \<noteq> None) \<and> (\<forall>t. zcur z = Some t \<longrightarrow> 0 \<notin> set t \<and> length t < n)"

lemma says_sel [simp]:
  "buf (says es s) = buf s" "elen (says es s) = elen s" "ei (says es s) = ei s" "index (says es s) = index s"
  "curcmd (says es s) = curcmd s" "elog (says es s) = elog s @ es"
  by (simp_all add: says_def)

lemma ed_sim_says: "ed_sim n ls s z \<Longrightarrow> ed_sim n ls (says es s) (z_says es z)"
  by (simp add: ed_sim_def)

lemma ed_simD:
  assumes "ed_sim n ls s z"
  shows "elen s = length (zl z) + length (zr z)" "ei s = length (zl z)" "length (buf s) = n" "index s = zidx z" "curcmd s = zcur z"
    "zidx z \<le> length ls" "0 \<notin> set (z_text z)" "elog s = zlog z" "elen s = length (z_text z)"
  using assms by (auto simp: ed_sim_def z_text_def)

lemma ed_sim_le: "ed_sim n ls s z \<Longrightarrow> length (z_text z) \<le> n"
  by (auto simp: ed_sim_def z_text_def)

lemma ed_sim_buf:
  assumes "ed_sim n ls s z" "length (z_text z) < n"
  obtains x rest where "buf s = zl z @ zr z @ x # rest"
proof -
  obtain rest where r: "buf s = zl z @ zr z @ rest" using assms(1) by (auto simp: ed_sim_def)
  then have "rest \<noteq> []" using assms by (auto simp: ed_sim_def z_text_def)
  then show ?thesis using that r by (cases rest) auto
qed

lemma backspace_ok:
  assumes S: "ed_sim n ls s z" and n: "length (z_text z) < n"
  shows "\<exists>s'. backspace s = Ret s' \<and> ed_sim n ls s' (z_back z)"
proof -
  obtain x rest where b: "buf s = zl z @ zr z @ x # rest" by (rule ed_sim_buf[OF S n])
  note D = ed_simD[OF S]
  consider "zl z = []" | l c where "zl z = l @ [c]" "zr z = []" | l c where "zl z = l @ [c]" "zr z \<noteq> []"
    by (metis rev_exhaust)
  then show ?thesis
  proof cases
    case 1
    then show ?thesis using S D by (auto simp: backspace_def z_back_def ed_sim_def z_text_def)
  next
    case 2
    then show ?thesis using S D b
      by (auto simp: backspace_def z_back_def ed_sim_def z_text_def bset_def nth_append list_update_append)
  next
    case 3
    obtain y where y: "shift_down (length l) (length l + length (zr z)) (l @ c # zr z @ x # rest) = Ret (l @ zr z @ y # x # rest)"
      using shift_down_ok[of l "zr z" c "x # rest"] by blast
    have z: "bstr (l @ zr z @ 0 # x # rest) = Ret (l @ zr z)"
      using bstr_line[of "l @ zr z" "x # rest"] S 3 by (simp add: ed_sim_def z_text_def)
    have "backspace s = Ret (says [ELeft (length l + 1), EText ((l @ zr z) @ [32]), ELeft (length (zr z) + 1)]
        (s\<lparr>buf := l @ zr z @ 0 # x # rest, ei := length l, elen := length l + length (zr z)\<rparr>))"
      using D b 3 y z by (simp add: backspace_def bset_def list_update_append)
    then show ?thesis using S 3 b by (auto simp: z_back_def ed_sim_def z_text_def)
  qed
qed

lemma insert_char_ok:
  assumes S: "ed_sim n ls s z" and n: "length (z_text z) < n" "zr z = [] \<or> length (z_text z) + 1 < n" and c: "c \<noteq> 0"
  shows "\<exists>s'. insert_char c s = Ret s' \<and> ed_sim n ls s' (z_insert c z)"
proof -
  obtain x rest where b: "buf s = zl z @ zr z @ x # rest" by (rule ed_sim_buf[OF S n(1)])
  note D = ed_simD[OF S]
  show ?thesis
  proof (cases "zr z = []")
    case True
    then show ?thesis using S D b c
      by (auto simp: insert_char_def z_insert_def ed_sim_def z_text_def bset_def list_update_append)
  next
    case False
    obtain y where y: "shift_up (length (zl z) + length (zr z)) (length (zl z)) (zl z @ zr z @ x # rest) = Ret (zl z @ y # zr z @ rest)"
      using shift_up_ok by blast
    have "rest \<noteq> []" using n(2) False b D(3) by (auto simp: z_text_def)
    then obtain u rest' where u: "rest = u # rest'" by (cases rest) auto
    let ?t = "zl z @ c # zr z"
    have z: "bstr (?t @ 0 # rest') = Ret ?t"
      by (rule bstr_line) (use D(7) c in \<open>simp add: z_text_def\<close>)
    have "insert_char c s = Ret (says [ELeft (length (zl z) + 1), EText ?t, ELeft (length (zr z))]
        (s\<lparr>buf := ?t @ 0 # rest', ei := length (zl z) + 1, elen := length (zl z) + length (zr z) + 1\<rparr>))"
      using D b y z u False by (simp add: insert_char_def bset_def list_update_append)
    then show ?thesis using S c u b False by (auto simp: z_insert_def ed_sim_def z_text_def)
  qed
qed

definition hist_state :: "nat \<Rightarrow> u8 list list \<Rightarrow> nat \<Rightarrow> u8 list option \<Rightarrow> bool" where
  "hist_state n ls i cur \<longleftrightarrow> i \<le> length ls \<and> (i < length ls \<longrightarrow> cur \<noteq> None) \<and> (\<forall>t. cur = Some t \<longrightarrow> 0 \<notin> set t \<and> length t < n)"

lemma ed_sim_hist: "ed_sim n ls s z \<Longrightarrow> hist_state n ls (zidx z) (zcur z)"
  by (simp add: ed_sim_def hist_state_def)

lemma redraw_ok:
  assumes "buf s = t @ 0 # rest" "length t + 1 + length rest = n" "0 \<notin> set t" "index s = zidx z" "curcmd s = zcur z"
    "elog s = zlog z" "elen s = length (z_text z)" "ei s = length (zl z)" "hist_state n ls (zidx z) (zcur z)"
  shows "\<exists>s'. redraw s = Ret s' \<and> ed_sim n ls s' (z_set t z)"
  using bstr_line[OF assms(3), of rest] assms by (simp add: redraw_def ed_sim_def z_set_def z_text_def hist_state_def)

definition hist_fits :: "nat \<Rightarrow> u8 list list \<Rightarrow> hist \<Rightarrow> bool" where
  "hist_fits n ls h \<longleftrightarrow> hist_rep ls h \<and> length (entries ls) \<le> TEMPBUF \<and> (\<forall>l \<in> set ls. length l < n)"

lemma gethis_fits:
  assumes "hist_fits n ls h" "i < length ls" "length b = n"
  obtains rest where "gethis i b h = Ret (Go (ls ! i @ 0 # rest))" "length (ls ! i) + 1 + length rest = n" "0 \<notin> set (ls ! i)"
proof -
  have l: "length (ls ! i) < n" "0 \<notin> set (ls ! i)" using assms by (auto simp: hist_fits_def hist_rep_def)
  have "gethis i b h = Ret (Go (ls ! i @ 0 # drop (length (ls ! i) + 1) b))"
    by (rule gethis_ok) (use assms l in \<open>auto simp: hist_fits_def\<close>)
  then show ?thesis using that[of "drop (length (ls ! i) + 1) b"] l assms(3) by simp
qed

lemma arrow_up_ok:
  assumes S: "ed_sim n ls s z" and n: "length (z_text z) < n" and H: "hist_fits n ls h" "ls \<noteq> []"
  shows "\<exists>s'. arrow_up h s = Ret (Go s') \<and> ed_sim n ls s' (z_up ls z)"
proof -
  obtain x rest where b: "buf s = zl z @ zr z @ x # rest" by (rule ed_sim_buf[OF S n])
  note D = ed_simD[OF S]
  have hl: "hislen h = length ls" using H(1) by (simp add: hist_fits_def hist_rep_def)
  let ?z = "if zidx z = length ls then z\<lparr>zcur := Some (z_text z)\<rparr> else z" and ?i = "zidx z - 1"
  have i: "?i < length ls" using D(6) H(2) by (cases ls) auto
  obtain s1 where s1: "(if index s = hislen h
      then rbind (bset (elen s) 0 (buf s)) (\<lambda>b. rbind (bstr b) (\<lambda>t. Ret ((says [EDown 1] s)\<lparr>buf := b, curcmd := Some t\<rparr>)))
      else Ret (says [EDown 1] s)) = Ret s1" "length (buf s1) = n" "index s1 = zidx z" "curcmd s1 = zcur ?z"
      "elog s1 = zlog z @ [EDown 1]" "elen s1 = length (z_text z)" "ei s1 = length (zl z)"
  proof (cases "zidx z = length ls")
    case True
    have "bstr ((zl z @ zr z) @ 0 # rest) = Ret (z_text z)" using bstr_line[OF D(7), of rest] by (simp add: z_text_def)
    then show ?thesis using that[of "(says [EDown 1] s)\<lparr>buf := zl z @ zr z @ 0 # rest, curcmd := Some (z_text z)\<rparr>"] D b True hl
      by (simp add: bset_def list_update_append)
  next
    case False
    then show ?thesis using that[of "says [EDown 1] s"] D hl by simp
  qed
  let ?s = "if 0 < index s1 then s1\<lparr>index := index s1 - 1\<rparr> else s1"
  have s: "index ?s = ?i" "curcmd ?s = zcur ?z" "length (buf ?s) = n" using s1 by auto
  let ?y = "z_says [EDown 1] (?z\<lparr>zidx := ?i\<rparr>)"
  have y: "zlog ?y = elog ?s" "z_text ?y = z_text z" "zl ?y = zl z" "elen ?s = length (z_text z)" "ei ?s = length (zl z)" using s1 by auto
  obtain rest' where g: "gethis ?i (buf ?s) h = Ret (Go (ls ! ?i @ 0 # rest'))" "length (ls ! ?i) + 1 + length rest' = n" "0 \<notin> set (ls ! ?i)"
    by (rule gethis_fits[OF H(1) i s(3)])
  have hs: "hist_state n ls ?i (zcur ?z)"
    using ed_sim_hist[OF S] i n D(7) by (auto simp: hist_state_def)
  obtain s' where "redraw (?s\<lparr>buf := ls ! ?i @ 0 # rest'\<rparr>) = Ret s'" "ed_sim n ls s' (z_set (ls ! ?i) ?y)"
    using redraw_ok[of "?s\<lparr>buf := ls ! ?i @ 0 # rest'\<rparr>" "ls ! ?i" rest' n ?y ls] g(2,3) s hs y by auto
  moreover have "arrow_up h s = rbind (gethis (index ?s) (buf ?s) h) (\<lambda>r. case r of Quit \<Rightarrow> Ret Quit
      | Go b \<Rightarrow> rbind (redraw (?s\<lparr>buf := b\<rparr>)) (\<lambda>s. Ret (Go s)))"
    using s1(1) by (simp only: arrow_up_def Let_def says_sel rbind_simps)
  moreover have "z_up ls z = z_set (ls ! ?i) ?y" by (simp add: z_up_def Let_def)
  ultimately show ?thesis unfolding s(1) g(1) by simp
qed

lemma arrow_down_ok:
  assumes S: "ed_sim n ls s z" and n: "length (z_text z) < n" and H: "hist_fits n ls h"
  shows "\<exists>s'. arrow_down h s = Ret (Go s') \<and> ed_sim n ls s' (z_down ls z)"
proof -
  note D = ed_simD[OF S]
  have hl: "hislen h = length ls" using H by (simp add: hist_fits_def hist_rep_def)
  note hs = ed_sim_hist[OF S]
  consider (last) "zidx z + 1 = length ls" | (stay) "zidx z = length ls" | (fwd) "zidx z + 1 < length ls"
    using D(6) by linarith
  then show ?thesis
  proof cases
    case last
    obtain t where t: "zcur z = Some t" "0 \<notin> set t" "length t < n" using hs last by (auto simp: hist_state_def)
    let ?b = "t @ 0 # drop (length t + 1) (buf s)"
    have c: "bcpy (t @ [0]) (buf s) = Ret ?b" using t(3) D(3) by (simp add: bcpy_def)
    obtain s' where "redraw (s\<lparr>index := index s + 1, buf := ?b\<rparr>) = Ret s'" "ed_sim n ls s' (z_set t (z\<lparr>zidx := zidx z + 1\<rparr>))"
      using redraw_ok[of "s\<lparr>index := index s + 1, buf := ?b\<rparr>" t "drop (length t + 1) (buf s)" n "z\<lparr>zidx := zidx z + 1\<rparr>" ls]
        t D last hs by (auto simp: hist_state_def)
    then show ?thesis using D hl last t c by (auto simp: arrow_down_def z_down_def)
  next
    case stay
    then show ?thesis using S D hl by (simp add: arrow_down_def z_down_def)
  next
    case fwd
    obtain rest where g: "gethis (zidx z + 1) (buf s) h = Ret (Go (ls ! (zidx z + 1) @ 0 # rest))"
      "length (ls ! (zidx z + 1)) + 1 + length rest = n" "0 \<notin> set (ls ! (zidx z + 1))"
      by (rule gethis_fits[OF H fwd D(3)])
    obtain s' where "redraw (s\<lparr>index := index s + 1, buf := ls ! (zidx z + 1) @ 0 # rest\<rparr>) = Ret s'"
      "ed_sim n ls s' (z_set (ls ! (zidx z + 1)) (z\<lparr>zidx := zidx z + 1\<rparr>))"
      using redraw_ok[of "s\<lparr>index := index s + 1, buf := ls ! (zidx z + 1) @ 0 # rest\<rparr>" "ls ! (zidx z + 1)" rest n
          "z\<lparr>zidx := zidx z + 1\<rparr>" ls] g D fwd hs by (auto simp: hist_state_def)
    then show ?thesis using D hl fwd g(1) by (auto simp: arrow_down_def z_down_def)
  qed
qed

lemma arrow_ok:
  assumes S: "ed_sim n ls s z" and n: "length (z_text z) < n" and H: "hist_fits n ls h" "\<not> (k = 1 \<and> ls = [])"
  shows "\<exists>s'. arrow k h s = Ret (Go s') \<and> ed_sim n ls s' (z_arrow ls k z)"
proof -
  note D = ed_simD[OF S]
  have l: "ed_sim n ls (arrow_left s) (z_arrow ls 3 z)"
    using S by (cases "zl z" rule: rev_cases) (auto simp: arrow_left_def z_arrow_def z_left_def ed_sim_def z_text_def)
  have r: "ed_sim n ls (arrow_right s) (z_arrow ls 4 z)"
    using S by (cases "zr z") (auto simp: arrow_right_def z_arrow_def z_right_def ed_sim_def z_text_def)
  consider "k = 1" | "k = 2" | "k = 3" | "k = 4" | "k \<noteq> 1" "k \<noteq> 2" "k \<noteq> 3" "k \<noteq> 4" by blast
  then show ?thesis
  proof cases
    case 1
    then show ?thesis using arrow_up_ok[OF S n H(1)] H(2) by (simp add: arrow_def z_arrow_def)
  next
    case 2
    then show ?thesis using arrow_down_ok[OF S n H(1)] by (simp add: arrow_def z_arrow_def)
  next
    case 3
    then show ?thesis using l by (simp add: arrow_def)
  next
    case 4
    then show ?thesis using r by (simp add: arrow_def)
  next
    case 5
    then show ?thesis using S by (simp add: arrow_def z_arrow_def)
  qed
qed

text \<open>What \<open>readline\<close> returns: the line is the string in the buffer.\<close>

fun gives :: "(ed \<times> u8 list) quit res \<Rightarrow> edited \<Rightarrow> bool" where
  "gives r (Line t rest lg) = (\<exists>s. r = Ret (Go (s, rest)) \<and> bstr (buf s) = Ret t \<and> elog s = lg)"
| "gives r Ends = (r = Ret Quit)"
| "gives r Undef = True"

lemma readline_loop_ok:
  "hist_fits n ls h \<Longrightarrow> 0 < n \<Longrightarrow> ed_sim n ls s z \<Longrightarrow> length (z_text z) \<le> n \<Longrightarrow>
   gives (readline_loop n h inp s) (edit n ls inp z)"
proof (induction n ls inp z arbitrary: s rule: edit.induct)
  case (1 n ls inp z)
  note IH = 1(1-3) and H = 1(4) and pos = 1(5) and S = 1(6) and le = 1(7)
  note D = ed_simD[OF S]
  note step = readline_loop.simps[of n h inp s]
  show ?case
  proof (cases "n \<le> length (z_text z)")
    case True
    then have "elen s = n" using D(1) le by (simp add: z_text_def)
    moreover have "bset 0 0 (buf s) = Ret (0 # tl (buf s))" using D(3) pos by (cases "buf s") (auto simp: bset_def)
    ultimately show ?thesis using True step bstr_line[of "[]"] D(8) by simp
  next
    case False
    then have lt: "length (z_text z) < n" by simp
    have go: "\<not> (n \<le> ei s \<or> n \<le> elen s)" using D(1,2) lt by (simp add: z_text_def)
    show ?thesis
    proof (cases inp)
      case Nil
      then show ?thesis using step go False by simp
    next
      case (Cons c cs)
      let ?s = "says [ERead c] s"
      let ?z = "z_says [ERead c] z"
      have S': "ed_sim n ls ?s ?z" and lt': "length (z_text ?z) < n" using ed_sim_says[OF S] lt by simp_all
      have st: "readline_loop n h inp s =
          (if c = 8 \<or> c = 127 then rbind (backspace ?s) (readline_loop n h cs)
            else if c = ESC then (case dirkey cs of None \<Rightarrow> Ret Quit
              | Some (k, rd, cs) \<Rightarrow> rbind (arrow k h (says (map ERead rd) ?s)) (\<lambda>r. case r of Quit \<Rightarrow> Ret Quit
                   | Go s \<Rightarrow> readline_loop n h cs s))
            else if c = 13 \<or> c = 10 then rbind (bset (elen ?s) 0 (buf ?s)) (\<lambda>b. Ret (Go (?s\<lparr>buf := b\<rparr>, cs)))
            else rbind (insert_char c ?s) (readline_loop n h cs))"
        using step go Cons by (simp only: if_False list.case Let_def)
      consider (nul) "c = 0" | (bs) "c = 8 \<or> c = 127" | (esc) "c = ESC" | (nl) "c = 13 \<or> c = 10"
        | (chr) "c \<noteq> 0" "\<not> (c = 8 \<or> c = 127)" "c \<noteq> ESC" "\<not> (c = 13 \<or> c = 10)" by blast
      then show ?thesis
      proof cases
        case nul
        then show ?thesis using False Cons by simp
      next
        case bs
        then have c0: "c \<noteq> 0" by auto
        obtain s' where s': "backspace ?s = Ret s'" "ed_sim n ls s' (z_back ?z)" using backspace_ok[OF S' lt'] by blast
        from IH(1)[OF False Cons c0 bs H pos s'(2) ed_sim_le[OF s'(2)]] show ?thesis using st bs s'(1) False Cons c0 by simp
      next
        case esc
        then have c: "c \<noteq> 0" "\<not> (c = 8 \<or> c = 127)" by (simp_all add: ESC_def)
        show ?thesis
        proof (cases "dirkey cs")
          case None
          then show ?thesis using st esc c False Cons by simp
        next
          case (Some x)
          obtain k rd cs' where x: "x = (k, rd, cs')" by (cases x)
          show ?thesis
          proof (cases "k = 1 \<and> ls = []")
            case True
            then show ?thesis using False Cons c esc Some x by simp
          next
            case ar: False
            obtain s' where s': "arrow k h (says (map ERead rd) ?s) = Ret (Go s')" "ed_sim n ls s' (z_arrow ls k (z_says (ERead c # map ERead rd) z))"
              using arrow_ok[OF _ _ H ar, of "says (map ERead rd) ?s" "z_says (ERead c # map ERead rd) z"] lt
                ed_sim_says[OF S', of "map ERead rd"] by auto
            from IH(2)[OF False Cons c esc Some x[symmetric] refl ar H pos s'(2) ed_sim_le[OF s'(2)]] show ?thesis
              using st esc c s'(1) False Cons Some x ar by simp
          qed
        qed
      next
        case nl
        obtain x rest where b: "buf s = zl z @ zr z @ x # rest" by (rule ed_sim_buf[OF S lt])
        have "bset (elen ?s) 0 (buf ?s) = Ret (z_text z @ 0 # rest)"
          using b D(1) by (simp add: bset_def list_update_append z_text_def)
        then show ?thesis using st nl False Cons bstr_line[OF D(7)] D(8) by (auto simp: ESC_def)
      next
        case chr
        show ?thesis
        proof (cases "zr z \<noteq> [] \<and> n \<le> length (z_text z) + 1")
          case True
          then show ?thesis using False Cons chr by simp
        next
          case room: False
          obtain s' where s': "insert_char c ?s = Ret s'" "ed_sim n ls s' (z_insert c ?z)"
            using insert_char_ok[OF S' lt' _ chr(1)] room by auto
          from IH(3)[OF False Cons chr room H pos s'(2) ed_sim_le[OF s'(2)]] show ?thesis using st chr s'(1) False Cons room by simp
        qed
      qed
    qed
  qed
qed

lemma ed_sim_start:
  "hist_fits (length b) ls h \<Longrightarrow>
   ed_sim (length b) ls \<lparr>buf = b, elen = 0, ei = 0, index = hislen h, curcmd = None, elog = []\<rparr>
     \<lparr>zl = [], zr = [], zidx = length ls, zcur = None, zlog = []\<rparr>"
  by (simp add: ed_sim_def z_text_def hist_fits_def hist_rep_def)

lemma readline_ok:
  assumes "hist_fits (length b) ls h" "b \<noteq> []"
  shows "gives (readline h inp b) (edit (length b) ls inp \<lparr>zl = [], zr = [], zidx = length ls, zcur = None, zlog = []\<rparr>)"
  unfolding readline_def using readline_loop_ok[OF assms(1) _ ed_sim_start[OF assms(1)]] assms(2) by (simp add: z_text_def)

text \<open>
  The line editor edits: on a history that \<open>savecmd\<close> has built and that fits its buffers, \<open>readline\<close>
  returns with the line, as a string in the buffer, that the keys make of the text left and right of
  the cursor, and leaves the rest of the input, or the input ends before the line does. \<open>Undef\<close> are a
  NUL byte, an arrow up without history, and an insertion into a line of \<open>n - 1\<close> bytes.
\<close>

theorem readline_correct:
  assumes "hist_fits (length b) ls h" "b \<noteq> []"
  shows "gives (readline h inp b) (edit (length b) ls inp \<lparr>zl = [], zr = [], zidx = length ls, zcur = None, zlog = []\<rparr>)"
  by (rule readline_ok[OF assms])

definition his0 :: hist where
  "his0 = \<lparr>hisinit = False, hislen = 0, hisoffsets = replicate 128 0, hisfile = [], can_open = True\<rparr>"

lemma his0_fits: "hist_fits 8 [] his0"
  by (simp add: hist_fits_def hist_rep_def his0_def HISLINES_def)

text \<open>The keys: \<open>a\<close>, \<open>c\<close>, left, \<open>b\<close>, \<open>x\<close>, delete, return.\<close>

definition some_keys :: "u8 list" where
  "some_keys = [97, 99, 27, 91, 68, 98, 120, 127, 13, 5]"

definition their_log :: "ev list" where
  "their_log = [ERead 97, ERead 99, ERead 27, ERead 91, ERead 68, ERead 98, ELeft 2, EText [97, 98, 99], ELeft 1,
     ERead 120, ELeft 3, EText [97, 98, 120, 99], ELeft 1, ERead 127, ELeft 3, EText [97, 98, 99, 32], ELeft 2, ERead 13]"

lemma edit_some_keys: "edit 8 [] some_keys \<lparr>zl = [], zr = [], zidx = 0, zcur = None, zlog = []\<rparr> = Line [97, 98, 99] [5] their_log"
  by code_simp

lemma readline_correct_witness:
  "\<exists>s. readline his0 some_keys (replicate 8 0) = Ret (Go (s, [5])) \<and> bstr (buf s) = Ret [97, 98, 99] \<and> elog s = their_log"
  using readline_correct[of "replicate 8 0" "[]" his0 some_keys] his0_fits edit_some_keys by simp

section \<open>The screen\<close>























text \<open>
  What \<open>savecmd\<close> saves, \<open>gethis\<close> finds: after saving a line on a history that began with an empty file,
  every earlier line and the new one are read back, as strings in the buffer.
\<close>

theorem savecmd_gethis:
  assumes "hist_rep ls h" "length ls < HISLINES" "0 \<notin> set l" "length (entries (ls @ [l])) \<le> TEMPBUF"
    and "i \<le> length ls" "length ((ls @ [l]) ! i) < length b"
  shows "\<exists>h' b'. savecmd (int (length l), 1) l h = Ret (Go h') \<and> hist_rep (ls @ [l]) h' \<and>
     gethis i b h' = Ret (Go b') \<and> bstr b' = Ret ((ls @ [l]) ! i)"
proof -
  obtain h' where h: "savecmd (int (length l), 1) l h = Ret (Go h')" "hist_rep (ls @ [l]) h'"
    using savecmd_ok[OF assms(1-3) refl] by blast
  moreover have "gethis i b h' = Ret (Go ((ls @ [l]) ! i @ 0 # drop (length ((ls @ [l]) ! i) + 1) b))"
    by (rule gethis_ok[OF h(2) _ assms(4,6)]) (use assms(5) in simp)
  moreover have "0 \<notin> set ((ls @ [l]) ! i)" using h(2) assms(5) unfolding hist_rep_def by (metis less_Suc_eq_le length_append_singleton nth_mem)
  ultimately show ?thesis using bstr_line by blast
qed

lemma savecmd_gethis_witness:
  "\<exists>h' b'. savecmd (2, 1) [108, 115] his0 = Ret (Go h') \<and> gethis 0 (replicate 8 0) h' = Ret (Go b') \<and> bstr b' = Ret [108, 115]"
  using savecmd_gethis[of "[]" his0 "[108, 115]" 0 "replicate 8 0"] his0_fits
  by (auto simp: hist_fits_def HISLINES_def TEMPBUF_def)

end
