(* ===== verification/Repl.thy ===== *)
theory Repl
  imports Shell Edit
begin

text \<open>
  One round of the loop of \<open>main\<close> in \<^verbatim>\<open>user/sh.c\<close>: read a line, save it in the history, and unless it is a
  comment let a child interpret it while the shell waits. The child works on a copy of the buffer.
  \<open>fork\<close> succeeds; the prompt and the echo of option \<^verbatim>\<open>-x\<close> are not logged.
\<close>

definition HASH :: u8 where "HASH = 35"

definition mem_of :: "u8 list \<Rightarrow> mem" where
  "mem_of b = (\<lambda>i. if i < length b then b ! i else 0)"

definition child_of :: "u8 list \<Rightarrow> sh" where
  "child_of b = \<lparr>sh_lx = \<lparr>lx_c = 0, lx_nc = 0, lx_np1 = None, lx_np2 = None\<rparr>, sh_mem = mem_of b, sh_argv = [],
     dup0 = False, dup1 = False, sh_log = []\<rparr>"

text \<open>The result: the processes that the line has started, if any, the buffer, the rest of the input and the history.\<close>

definition sh_round :: "world \<Rightarrow> u8 \<Rightarrow> hist \<Rightarrow> u8 list \<Rightarrow> u8 list \<Rightarrow> (otree option \<times> u8 list \<times> u8 list \<times> hist) quit res" where
  "sh_round w sid h inp b = rbind (readline h inp b) (\<lambda>r. case r of Quit \<Rightarrow> Ret Quit
     | Go (s, inp) \<Rightarrow> rbind (bstr (buf s)) (\<lambda>t. rbind (savecmd (int (length t), 1) t h) (\<lambda>r. case r of Quit \<Rightarrow> Ret Quit
         | Go h \<Rightarrow> if buf s ! 0 = HASH then Ret (Go (None, buf s, inp, h))
             else (case runcmd w sid 0 (child_of (buf s)) of None \<Rightarrow> Fault ''no end''
               | Some t \<Rightarrow> Ret (Go (Some t, buf s, inp, h))))))"

lemma cstr_mem_of: "bstr b = Ret t \<Longrightarrow> cstr (mem_of b) 0 t \<and> 0 \<notin> set t \<and> b ! 0 = hd (t @ [0])"
proof -
  assume "bstr b = Ret t"
  then have z: "0 \<in> set b" and t: "t = takeWhile (\<lambda>c. c \<noteq> 0) b" by (auto simp: bstr_def split: if_splits)
  then obtain u v where b: "b = u @ 0 # v" "0 \<notin> set u" by (meson split_list_first)
  then have "takeWhile (\<lambda>c. c \<noteq> 0) b = u" by (metis (mono_tags, lifting) bstr_line bstr_def res.inject(1) z)
  then have t: "t = u" using t by simp
  have "\<forall>i < length u. u ! i \<noteq> 0" using b(2) by (metis nth_mem)
  then have "cstr (mem_of b) 0 u" unfolding b(1) by (auto simp: cstr_iff mem_of_def nth_append)
  moreover have "b ! 0 = hd (u @ [0])" unfolding b(1) by (cases u) simp_all
  ultimately show ?thesis using b(2) t by simp
qed

text \<open>
  C29. What is typed is what runs: a round of the shell whose keys make the line \<open>t\<close> starts exactly the
  processes that the tokens of \<open>t\<close> mean, none for a comment, adds \<open>t\<close> to the history, and leaves the rest
  of the input for the next round.
\<close>

theorem sh_round_correct:
  assumes "hist_fits (length b) ls h" "length ls < HISLINES" "b \<noteq> []"
    and "edit (length b) ls inp \<lparr>zl = [], zr = [], zidx = length ls, zcur = None, zlog = []\<rparr> = Line t rest lg"
    and "p = meaning w [] [] False False (toks t)" "defined p"
  shows "\<exists>b' h'. sh_round w sid h inp b =
      Ret (Go (if t \<noteq> [] \<and> hd t = HASH then None else Some (outcome w sid p), b', rest, h')) \<and> hist_rep (ls @ [t]) h'"
proof -
  obtain s where s: "readline h inp b = Ret (Go (s, rest))" "bstr (buf s) = Ret t"
    using readline_ok[OF assms(1,3), of inp] assms(4) by auto
  note c = cstr_mem_of[OF s(2)]
  obtain h' where h: "savecmd (int (length t), 1) t h = Ret (Go h')" "hist_rep (ls @ [t]) h'"
    using savecmd_ok[OF _ assms(2) _ refl, of h t] assms(1) c by (auto simp: hist_fits_def)
  have "runcmd w sid 0 (child_of (buf s)) = Some (outcome w sid p)"
    by (rule runcmd_ok) (use c assms(5,6) in \<open>simp_all add: child_of_def undo_def\<close>)
  moreover have "(buf s ! 0 = HASH) = (t \<noteq> [] \<and> hd t = HASH)" using c by (cases t) (auto simp: HASH_def)
  ultimately show ?thesis using s h by (auto simp: sh_round_def)
qed

text \<open>The keys \<^verbatim>\<open>a;b c\<close> and return.\<close>

lemma sh_round_correct_witness:
  "\<exists>b' h'. sh_round a_world 0 his0 [97, 59, 98, 32, 99, 13] (replicate 8 0) = Ret (Go (Some (OFork FSeq
     (OExit [ASpawn [[97]], ACloseAll, AWait]) (OExit [AWait, ASpawn [[98], [99]], ACloseAll, AWait])), b', [], h')) \<and>
     hist_rep [[97, 59, 98, 32, 99]] h'"
proof -
  let ?t = "[97, 59, 98, 32, 99]"
  have e: "edit 8 [] [97, 59, 98, 32, 99, 13] \<lparr>zl = [], zr = [], zidx = 0, zcur = None, zlog = []\<rparr> =
      Line ?t [] [ERead 97, ERead 59, ERead 98, ERead 32, ERead 99, ERead 13]" by code_simp
  have d: "defined (meaning a_world [] [] False False (toks ?t))" by code_simp
  have o: "outcome a_world 0 (meaning a_world [] [] False False (toks ?t)) = OFork FSeq
     (OExit [ASpawn [[97]], ACloseAll, AWait]) (OExit [AWait, ASpawn [[98], [99]], ACloseAll, AWait])" by code_simp
  show ?thesis
    using sh_round_correct[of "replicate 8 0" "[]" his0 "[97, 59, 98, 32, 99, 13]" ?t "[]" _ _ a_world 0, OF _ _ _ _ refl d]
      his0_fits e o by (simp add: HISLINES_def HASH_def del: edit.simps)
qed

end
