(* ===== verification/Loader.thy ===== *)
theory Loader
  imports SyscallProps
begin

text \<open>
  What loading a segment of an ELF file does to an address space. The locale \<open>page_mapper\<close> is the contract
  of the mapper that \<open>elf_load_seg\<close> (\<^verbatim>\<open>lib/elfloader.c\<close>) calls: it replaces one page by the bytes given,
  with zeroes around them. Under it the pages of the segment hold the bytes of the file and zeroes
  behind them. The contract is proved for the mapper of the kernel, \<open>load_icode_mapper\<close>.
\<close>

section \<open>Bytes of pages\<close>

lemma mask8: "(0xFF :: u32) = mask 8" by (simp add: mask_eq_exp_minus_1)

lemma byte_bit: "bit (ucast (drop_bit (8 * k) w) :: u8) n \<longleftrightarrow> n < 8 \<and> bit (w :: u32) (8 * k + n)"
  by (auto simp: bit_simps)

lemma byte_of_word_upd:
  fixes w :: u32 and b :: u8
  assumes "k < 4" "k' < 4"
  shows "ucast (drop_bit (8 * k') ((w AND NOT (push_bit (8 * k) 0xFF)) OR push_bit (8 * k) (ucast b))) =
    (if k' = k then b else ucast (drop_bit (8 * k') w))"
proof (rule bit_word_eqI)
  fix n
  assume "n < LENGTH(8)"
  then have n: "n < 8" by simp
  have l: "8 * k' + n < 32" using assms n by simp
  consider "k' = k" | "k' < k" | "k < k'" by linarith
  then show "bit (ucast (drop_bit (8 * k') ((w AND NOT (push_bit (8 * k) 0xFF)) OR push_bit (8 * k) (ucast b))) :: u8) n =
    bit (if k' = k then b else ucast (drop_bit (8 * k') w)) n"
  proof cases
    case 1
    then show ?thesis using n l unfolding byte_bit mask8 by (auto simp: bit_simps)
  next
    case 2
    then have "\<not> 8 * k \<le> 8 * k' + n" using n by simp
    then show ?thesis using n l 2 unfolding byte_bit mask8 by (auto simp: bit_simps byte_bit)
  next
    case 3
    then have "\<not> 8 * k' + n - 8 * k < 8" using n by simp
    then show ?thesis using n l 3 unfolding byte_bit mask8 by (auto simp: bit_simps byte_bit dest: bit_imp_le_length)
  qed
qed

lemma load_store_byte:
  "load_byte (store_byte p off b s) q o' = (if q = p \<and> o' = off then b else load_byte s q o')"
proof (cases "q = p \<and> o' div 4 = off div 4")
  case True
  then have "(o' mod 4 = off mod 4) = (o' = off)" by (metis div_mult_mod_eq)
  then show ?thesis
    using True byte_of_word_upd[of "off mod 4" "o' mod 4" "pmem s p (off div 4)" b]
    by (simp add: load_byte_def store_byte_def store_word_def Let_def)
next
  case False
  then show ?thesis by (auto simp: load_byte_def store_byte_def store_word_def Let_def)
qed

lemma load_store_bytes:
  "load_byte (store_bytes p off bs s) q k = (if q = p \<and> off \<le> k \<and> k < off + length bs then bs ! (k - off) else load_byte s q k)"
  by (induction bs arbitrary: off s) (auto simp: load_store_byte nth_Cons' not_le)

lemma store_bytes_pmem: "\<exists>f. store_bytes p off bs s = s\<lparr>pmem := (pmem s)(p := f)\<rparr>"
proof (induction bs arbitrary: off s)
  case Nil
  have "s = s\<lparr>pmem := (pmem s)(p := pmem s p)\<rparr>" by simp
  then show ?case by (metis store_bytes.simps(1))
next
  case (Cons b bs)
  obtain g where g: "store_byte p off b s = s\<lparr>pmem := (pmem s)(p := g)\<rparr>"
    by (auto simp: store_byte_def store_word_def Let_def)
  obtain f where "store_bytes p (Suc off) bs (store_byte p off b s) = (store_byte p off b s)\<lparr>pmem := (pmem (store_byte p off b s))(p := f)\<rparr>"
    using Cons[of "Suc off" "store_byte p off b s"] by blast
  then have "store_bytes p off (b # bs) s = s\<lparr>pmem := (pmem s)(p := f)\<rparr>" by (simp add: g fun_upd_def cong: if_cong)
  then show ?case by blast
qed

definition page_bytes :: "'a pm_scheme \<Rightarrow> nat \<Rightarrow> u8 list" where
  "page_bytes s p = map (load_byte s p) [0..<4096]"

definition filled :: "nat \<Rightarrow> u8 list \<Rightarrow> u8 list" where
  "filled off bs = replicate off 0 @ bs @ replicate (4096 - off - length bs) 0"

lemma filled_nth: "off + length bs \<le> 4096 \<Longrightarrow> k < 4096 \<Longrightarrow>
  filled off bs ! k = (if off \<le> k \<and> k < off + length bs then bs ! (k - off) else 0)"
  by (auto simp: filled_def nth_append)

lemma page_bytes_cong: "pmem s' p = pmem s p \<Longrightarrow> page_bytes s' p = page_bytes s p"
  by (simp add: page_bytes_def load_byte_def)

lemma page_bytes_store:
  assumes "pmem s p = (\<lambda>_. 0)" "off + length bs \<le> 4096"
  shows "page_bytes (store_bytes p off bs s) p = filled off bs"
proof (rule nth_equalityI)
  show "length (page_bytes (store_bytes p off bs s) p) = length (filled off bs)"
    using assms(2) by (simp add: page_bytes_def filled_def)
  fix k
  assume "k < length (page_bytes (store_bytes p off bs s) p)"
  then show "page_bytes (store_bytes p off bs s) p ! k = filled off bs ! k"
    using assms by (simp add: page_bytes_def filled_nth load_store_bytes) (simp add: load_byte_def)
qed

section \<open>The contract of a mapper\<close>

definition mem_byte :: "(nat \<Rightarrow> u8 list option) \<Rightarrow> nat \<Rightarrow> u8 option" where
  "mem_byte pg a = map_option (\<lambda>b. b ! (a mod 4096)) (pg (a div 4096))"

definition seg_byte :: "u8 list \<Rightarrow> nat \<Rightarrow> nat \<Rightarrow> u8" where
  "seg_byte bin n j = (if j < n then bin ! j else 0)"

definition vpn :: "u32 \<Rightarrow> nat" where
  "vpn va = unat va div 4096"

lemma mem_byte_upd:
  assumes "off + length bs \<le> 4096"
  shows "mem_byte (pg(q \<mapsto> filled off bs)) a = (if a div 4096 = q
    then Some (if off \<le> a mod 4096 \<and> a mod 4096 < off + length bs then bs ! (a mod 4096 - off) else 0) else mem_byte pg a)"
  using assms by (simp add: mem_byte_def filled_nth)

locale page_mapper =
  fixes map_page :: "'s elf_mapper" and ok :: "'s \<Rightarrow> bool" and page :: "'s \<Rightarrow> nat \<Rightarrow> u8 list option"
    and room :: "'s \<Rightarrow> nat \<Rightarrow> bool" and lo :: u32
  assumes map_bytes: "ok s \<Longrightarrow> lo \<le> va \<Longrightarrow> va < UTOP \<Longrightarrow> perm < 4096 \<Longrightarrow> unat off + unat len \<le> 4096 \<Longrightarrow> unat len \<le> length b \<Longrightarrow>
      \<exists>r s'. map_page s va off perm (Some b) len = Ret (r, s') \<and> ok s' \<and> r \<le> 0 \<and>
        (r = 0 \<longrightarrow> page s' = (page s)(vpn va \<mapsto> filled (unat off) (take (unat len) b))) \<and>
        (\<forall>m. room s (Suc (Suc m)) \<longrightarrow> r = 0 \<and> room s' m)"
    and map_zeroes: "ok s \<Longrightarrow> lo \<le> va \<Longrightarrow> va < UTOP \<Longrightarrow> perm < 4096 \<Longrightarrow>
      \<exists>r s'. map_page s va 0 perm None len = Ret (r, s') \<and> ok s' \<and> r \<le> 0 \<and>
        (r = 0 \<longrightarrow> page s' = (page s)(vpn va \<mapsto> filled 0 [])) \<and>
        (\<forall>m. room s (Suc (Suc m)) \<longrightarrow> r = 0 \<and> room s' m)"
begin

text \<open>Enough room for \<open>m\<close> pages more than those from the one of \<open>a\<close> up to page \<open>e\<close>: each may need a page table too.\<close>

definition room_to :: "'s \<Rightarrow> nat \<Rightarrow> nat \<Rightarrow> nat \<Rightarrow> bool" where
  "room_to s m e a = room s (m + 2 * (e - a div 4096))"

lemma room_step:
  assumes "room_to s m e a" "a div 4096 < e" "\<forall>m. room s (Suc (Suc m)) \<longrightarrow> r = 0 \<and> room s' m" "b div 4096 = Suc (a div 4096)"
  shows "r = 0" "room_to s' m e b"
proof -
  have "m + 2 * (e - a div 4096) = Suc (Suc (m + 2 * (e - Suc (a div 4096))))" using assms(2) by simp
  then have "room s (Suc (Suc (m + 2 * (e - Suc (a div 4096)))))" using assms(1) by (simp only: room_to_def)
  then show "r = 0" "room_to s' m e b" using assms(3,4) by (simp_all add: room_to_def)
qed

lemma next_page: "((a :: nat) + 4096) div 4096 = Suc (a div 4096)"
  by simp

lemma before_end: "a < b \<Longrightarrow> (b + 4095) div 4096 \<le> e \<Longrightarrow> a div 4096 < (e :: nat)"
  using div_le_mono[of "a + 1 + 4095" "b + 4095" 4096] by simp


text \<open>Pages outside of \<open>[a, b)\<close> are as before, and in it there are the bytes of the segment at \<open>v\<close>.\<close>

definition holds_seg :: "'s \<Rightarrow> 's \<Rightarrow> u8 list \<Rightarrow> nat \<Rightarrow> nat \<Rightarrow> nat \<Rightarrow> nat \<Rightarrow> bool" where
  "holds_seg s s' bin n v a b \<longleftrightarrow> (\<forall>q. q < a div 4096 \<or> (b + 4095) div 4096 \<le> q \<longrightarrow> page s' q = page s q) \<and>
     (\<forall>x. a \<le> x \<and> x < b \<longrightarrow> mem_byte (page s') x = Some (seg_byte bin n (x - v)))"

lemma holds_seg_refl: "holds_seg s s bin n v a a"
  by (auto simp: holds_seg_def)

lemma holds_seg_trans:
  assumes 1: "holds_seg s s1 bin n v a b" and 2: "holds_seg s1 s2 bin n v b c" and b: "b mod 4096 = 0 \<or> c = b"
    and le: "a \<le> b" "b \<le> c" and same: "c = b \<Longrightarrow> page s2 = page s1"
  shows "holds_seg s s2 bin n v a c"
proof (cases "c = b")
  case True
  with 1 same show ?thesis by (simp add: holds_seg_def)
next
  case False
  with b obtain m where m: "b = 4096 * m" by auto
  have "page s2 q = page s q" if "q < a div 4096 \<or> (c + 4095) div 4096 \<le> q" for q
  proof -
    have "a div 4096 \<le> b div 4096" "(b + 4095) div 4096 \<le> (c + 4095) div 4096" using le by (simp_all add: div_le_mono)
    with that 1 2 show ?thesis by (auto simp: holds_seg_def)
  qed
  moreover have "mem_byte (page s2) x = Some (seg_byte bin n (x - v))" if "a \<le> x" "x < c" for x
  proof (cases "b \<le> x")
    case True
    with 2 that show ?thesis by (simp add: holds_seg_def)
  next
    case False
    then have "x div 4096 < b div 4096" using m by (simp add: less_mult_imp_div_less)
    then have "page s2 (x div 4096) = page s1 (x div 4096)" using 2 by (simp add: holds_seg_def)
    with 1 that False show ?thesis by (simp add: holds_seg_def mem_byte_def)
  qed
  ultimately show ?thesis by (simp add: holds_seg_def)
qed

text \<open>One page, mapped at the address \<open>a\<close> of its first byte.\<close>

lemma one_page:
  assumes "page s' = (page s)(a div 4096 \<mapsto> filled (a mod 4096) bs)" "a mod 4096 + length bs \<le> 4096"
    "\<forall>x. a \<le> x \<and> x < b \<longrightarrow> seg_byte bin n (x - v) = (if x < a + length bs then bs ! (x - a) else 0)"
    "a \<le> b" "b \<le> a - a mod 4096 + 4096" "a mod 4096 \<noteq> 0 \<or> a < b"
  shows "holds_seg s s' bin n v a b"
proof -
  have d: "x div 4096 = a div 4096 \<and> x mod 4096 = a mod 4096 + (x - a)" if "a \<le> x" "x < b" for x
  proof -
    obtain k where k: "x = a + k" using \<open>a \<le> x\<close> le_Suc_ex by blast
    have l: "a mod 4096 + k < 4096" using assms(5) that k mult_div_mod_eq[of 4096 a] by linarith
    have "x = 4096 * (a div 4096) + (a mod 4096 + k)" by (simp add: k)
    moreover have "(4096 * c + d) div 4096 = c" "(4096 * c + d) mod 4096 = d" if "d < 4096" for c d :: nat using that by simp_all
    ultimately have "x div 4096 = a div 4096" "x mod 4096 = a mod 4096 + k" using l by (simp_all only:)
    then show ?thesis by (simp add: k)
  qed
  have "page s' q = page s q" if q: "q < a div 4096 \<or> (b + 4095) div 4096 \<le> q" for q
  proof -
    have "a + 1 \<le> b \<or> 4096 * (a div 4096) + 1 \<le> a" using assms(4,6) by (auto simp: minus_mod_eq_mult_div[symmetric])
    then have "4096 * (a div 4096) + 1 \<le> b" using assms(4) by (auto intro: order_trans[OF _ assms(4)])
    then have "(4096 * (a div 4096) + 1 + 4095) div 4096 \<le> (b + 4095) div 4096" by (intro div_le_mono) simp
    with q show ?thesis by (auto simp: assms(1))
  qed
  moreover have "mem_byte (page s') x = Some (seg_byte bin n (x - v))" if "a \<le> x" "x < b" for x
    using d[OF that] assms(3)[rule_format, of x] that assms(2) unfolding assms(1) mem_byte_upd[OF assms(2)] by auto
  ultimately show ?thesis by (simp add: holds_seg_def)
qed


lemma aligned_up: "(a :: nat) mod 4096 = 0 \<Longrightarrow> (a + 4095) div 4096 = a div 4096"
  by auto

lemma unat_UTOP: "unat UTOP = 2134900736"
  by (simp add: mmu_defs)

lemma content_ok:
  assumes "ok s" "lo \<le> va" "perm < 4096" "unat n \<le> length bin" "unat va + unat n \<le> unat UTOP"
    "i < n \<longrightarrow> (unat va + unat i) mod 4096 = 0" "(unat va + unat n + 4095) div 4096 \<le> e"
  shows "\<exists>r i' s'. load_content map_page va perm bin n i s = Ret ((r, i'), s') \<and> ok s' \<and> r \<le> 0 \<and>
    (r = 0 \<longrightarrow> (if i < n then n \<le> i' \<and> unat i' < unat n + 4096 \<and> (unat va + unat i') mod 4096 = 0 \<and>
       holds_seg s s' bin (unat n) (unat va) (unat va + unat i) (unat va + unat i') else i' = i \<and> s' = s)) \<and>
    (room_to s m e (unat va + unat i) \<longrightarrow> r = 0 \<and> room_to s' m e (unat va + unat i'))"
  using assms
proof (induction "unat n - unat i" arbitrary: i s rule: less_induct)
  case less
  note pre = less.prems
  show ?case
  proof (cases "i < n")
    case False
    then show ?thesis using pre by (simp add: load_content.simps[of map_page va perm bin n i])
  next
    case True
    let ?v = "unat va" and ?i = "unat i" and ?n = "unat n"
    let ?len = "min (n - i) BY2PG"
    have lt: "?i < ?n" using True by (simp add: word_less_nat_alt)
    have bd: "?v + ?n \<le> 2134900736" using pre(5) by (simp add: unat_UTOP)
    have a: "unat (va + i) = ?v + ?i" using lt bd by (simp add: unat_word_ariths)
    have al: "(?v + ?i) mod 4096 = 0" using pre(6) True by simp
    have "unat (n - i) = ?n - ?i" using True by (simp add: unat_sub order_less_imp_le)
    then have len: "unat ?len = min (?n - ?i) 4096"
      by (auto simp: min_def word_le_nat_alt BY2PG_def)
    have lb: "unat ?len \<le> length (drop ?i bin)" using pre(4) unfolding len by (simp add: min_le_iff_disj diff_le_mono)
    have va: "lo \<le> va + i" "va + i < UTOP" using pre(2) lt bd a unat_UTOP by (simp_all add: word_le_nat_alt word_less_nat_alt)
    obtain r1 s1 where s1: "map_page s (va + i) 0 perm (Some (drop ?i bin)) ?len = Ret (r1, s1)" "ok s1" "r1 \<le> 0"
      "r1 = 0 \<longrightarrow> page s1 = (page s)(vpn (va + i) \<mapsto> filled (unat (0 :: u32)) (take (unat ?len) (drop ?i bin)))"
      "\<forall>m. room s (Suc (Suc m)) \<longrightarrow> r1 = 0 \<and> room s1 m"
      using map_bytes[OF pre(1) va pre(3), of 0 ?len "drop ?i bin"] lb by (auto simp: len)
    note step = load_content.simps[of map_page va perm bin n i s]
    have "(?v + ?i) div 4096 < e" using lt pre(7) by (intro before_end[of _ "?v + ?n"]) simp_all
    note rm = room_step[OF _ this s1(5)]
    show ?thesis
    proof (cases "r1 = 0")
      case False
      then show ?thesis using s1 True rm(1)[OF _ next_page, of m] by (auto simp: step)
    next
      case r1: True
      have nw: "unat (i + BY2PG) = ?i + 4096" "\<not> i + BY2PG < i"
        using lt bd by (simp_all add: word_less_nat_alt unat_word_ariths BY2PG_def)
      have pg: "page s1 = (page s)((?v + ?i) div 4096 \<mapsto> filled ((?v + ?i) mod 4096) (take (min (?n - ?i) 4096) (drop ?i bin)))"
        using s1(4) r1 al by (simp add: vpn_def a len)
      have h1: "holds_seg s s1 bin ?n ?v (?v + ?i) (?v + (?i + 4096))"
      proof (rule one_page[OF pg])
        show "\<forall>x. ?v + ?i \<le> x \<and> x < ?v + (?i + 4096) \<longrightarrow> seg_byte bin ?n (x - ?v) =
          (if x < ?v + ?i + length (take (min (?n - ?i) 4096) (drop ?i bin))
           then take (min (?n - ?i) 4096) (drop ?i bin) ! (x - (?v + ?i)) else 0)"
        proof (intro allI impI)
          fix x
          assume x: "?v + ?i \<le> x \<and> x < ?v + (?i + 4096)"
          then have e: "x - ?v = ?i + (x - (?v + ?i))" by simp
          show "seg_byte bin ?n (x - ?v) = (if x < ?v + ?i + length (take (min (?n - ?i) 4096) (drop ?i bin))
           then take (min (?n - ?i) 4096) (drop ?i bin) ! (x - (?v + ?i)) else 0)"
            unfolding e seg_byte_def using x pre(4) by (auto simp: min_def)
        qed
      qed (use al in auto)
      have al': "(?v + unat (i + BY2PG)) mod 4096 = 0" using al unfolding nw(1) by (simp add: add.assoc[symmetric])
      have hy: "?n - unat (i + BY2PG) < ?n - ?i" "i + BY2PG < n \<longrightarrow> (?v + unat (i + BY2PG)) mod 4096 = 0"
        using al' lt by (simp_all add: nw(1))
      obtain r i' s' where IH: "load_content map_page va perm bin n (i + BY2PG) s1 = Ret ((r, i'), s')" "ok s'" "r \<le> 0"
        "r = 0 \<longrightarrow> (if i + BY2PG < n then n \<le> i' \<and> unat i' < ?n + 4096 \<and> (?v + unat i') mod 4096 = 0 \<and>
          holds_seg s1 s' bin ?n ?v (?v + unat (i + BY2PG)) (?v + unat i') else i' = i + BY2PG \<and> s' = s1)"
        "room_to s1 m e (?v + unat (i + BY2PG)) \<longrightarrow> r = 0 \<and> room_to s' m e (?v + unat i')"
        using less.hyps[OF hy(1) s1(2) pre(2-5) hy(2) pre(7)] by blast
      have rt: "room_to s m e (?v + ?i) \<longrightarrow> r = 0 \<and> room_to s' m e (?v + unat i')"
        using rm(2)[of m "?v + unat (i + BY2PG)"] IH(5) by (simp add: nw(1))
      have run: "load_content map_page va perm bin n i s = Ret ((r, i'), s')"
        using s1(1) r1 True nw(2) IH(1) by (simp add: step)
      have "n \<le> i' \<and> unat i' < ?n + 4096 \<and> (?v + unat i') mod 4096 = 0 \<and>
          holds_seg s s' bin ?n ?v (?v + ?i) (?v + unat i')" if "r = 0"
      proof (cases "i + BY2PG < n")
        case more: True
        have u: "unat (i + BY2PG) \<le> unat i'" using more IH(4) that by (simp add: word_less_nat_alt word_le_nat_alt)
        have h2: "holds_seg s1 s' bin ?n ?v (?v + (?i + 4096)) (?v + unat i')" using IH(4) that more by (simp add: nw(1))
        have "?i + 4096 < unat i'" using more IH(4) that nw(1) by (auto simp: word_less_nat_alt word_le_nat_alt)
        then have "holds_seg s s' bin ?n ?v (?v + ?i) (?v + unat i')"
          by (intro holds_seg_trans[OF h1 h2]) (use al' nw(1) in auto)
        then show ?thesis using IH(4) that more by simp
      next
        case False
        then show ?thesis using IH(4) that h1 al' lt nw(1) by (simp add: not_less word_le_nat_alt)
      qed
      then show ?thesis using run IH(2,3) True rt by auto
    qed
  qed
qed

lemma bss_ok:
  assumes "ok s" "lo \<le> va" "perm < 4096" "unat va + unat sg \<le> unat UTOP" "n \<le> i"
    "i < sg \<longrightarrow> (unat va + unat i) mod 4096 = 0" "e = (unat va + unat sg + 4095) div 4096"
  shows "\<exists>r s'. load_bss map_page va perm n sg i s = Ret (r, s') \<and> ok s' \<and> r \<le> 0 \<and>
    (r = 0 \<longrightarrow> (if i < sg then holds_seg s s' bin (unat n) (unat va) (unat va + unat i) (unat va + unat sg) else s' = s)) \<and>
    ((if i < sg then room_to s m e (unat va + unat i) else room s m) \<longrightarrow> r = 0 \<and> room s' m)"
  using assms
proof (induction "unat sg - unat i" arbitrary: i s rule: less_induct)
  case less
  note pre = less.prems
  note step = load_bss.simps[of map_page va perm n sg i s]
  show ?case
  proof (cases "i < sg")
    case False
    then show ?thesis using pre by (simp add: step)
  next
    case True
    let ?v = "unat va" and ?i = "unat i" and ?sg = "unat sg"
    have lt: "?i < ?sg" using True by (simp add: word_less_nat_alt)
    have bd: "?v + ?sg \<le> 2134900736" using pre(4) by (simp add: unat_UTOP)
    have ni: "unat n \<le> ?i" using pre(5) by (simp add: word_le_nat_alt)
    have a: "unat (va + i) = ?v + ?i" using lt bd by (simp add: unat_word_ariths)
    have al: "(?v + ?i) mod 4096 = 0" using pre(6) True by simp
    have va: "lo \<le> va + i" "va + i < UTOP" using pre(2) lt bd a unat_UTOP by (simp_all add: word_le_nat_alt word_less_nat_alt)
    obtain r1 s1 where s1: "map_page s (va + i) 0 perm None (min (n - i) BY2PG) = Ret (r1, s1)" "ok s1" "r1 \<le> 0"
      "r1 = 0 \<longrightarrow> page s1 = (page s)(vpn (va + i) \<mapsto> filled 0 [])" "\<forall>m. room s (Suc (Suc m)) \<longrightarrow> r1 = 0 \<and> room s1 m"
      using map_zeroes[OF pre(1) va pre(3), of "min (n - i) BY2PG"] by auto
    have "(?v + ?i) div 4096 < e" using lt pre(7) by (intro before_end[of _ "?v + ?sg"]) simp_all
    note rm = room_step[OF _ this s1(5)]
    show ?thesis
    proof (cases "r1 = 0")
      case False
      then show ?thesis using s1 True rm(1)[OF _ next_page, of m] by (auto simp: step)
    next
      case r1: True
      have nw: "unat (i + BY2PG) = ?i + 4096" "\<not> i + BY2PG < i"
        using lt bd by (simp_all add: word_less_nat_alt unat_word_ariths BY2PG_def)
      have pg: "page s1 = (page s)((?v + ?i) div 4096 \<mapsto> filled ((?v + ?i) mod 4096) [])"
        using s1(4) r1 al by (simp add: vpn_def a)
      have h1: "holds_seg s s1 bin (unat n) ?v (?v + ?i) (?v + min ?sg (?i + 4096))"
        by (rule one_page[OF pg]) (use al lt ni in \<open>auto simp: seg_byte_def\<close>)
      have al': "(?v + (?i + 4096)) mod 4096 = 0" using al by (simp add: add.assoc[symmetric])
      have hy: "?sg - unat (i + BY2PG) < ?sg - ?i" "n \<le> i + BY2PG" "i + BY2PG < sg \<longrightarrow> (?v + unat (i + BY2PG)) mod 4096 = 0"
        using al' lt ni by (simp_all add: nw(1) word_le_nat_alt)
      obtain r s' where IH: "load_bss map_page va perm n sg (i + BY2PG) s1 = Ret (r, s')" "ok s'" "r \<le> 0"
        "r = 0 \<longrightarrow> (if i + BY2PG < sg then holds_seg s1 s' bin (unat n) ?v (?v + unat (i + BY2PG)) (?v + ?sg) else s' = s1)"
        "(if i + BY2PG < sg then room_to s1 m e (?v + unat (i + BY2PG)) else room s1 m) \<longrightarrow> r = 0 \<and> room s' m"
        using less.hyps[OF hy(1) s1(2) pre(2-4) hy(2,3) pre(7)] by blast
      have rt: "room_to s m e (?v + ?i) \<longrightarrow> r = 0 \<and> room s' m"
      proof
        assume a: "room_to s m e (?v + ?i)"
        have "room_to s1 m e (?v + unat (i + BY2PG))" using rm(2)[OF a] by (simp add: nw(1))
        moreover have "room s1 m" if "\<not> i + BY2PG < sg"
        proof -
          have "?v + ?sg \<le> ?v + (?i + 4096)" using that by (simp add: word_less_nat_alt nw(1))
          then have "e \<le> (?v + (?i + 4096) + 4095) div 4096" unfolding pre(7) by (intro div_le_mono) simp
          also have "\<dots> = (?v + (?i + 4096)) div 4096" using al' by (metis aligned_up)
          finally show ?thesis using rm(2)[OF a, of "?v + (?i + 4096)"] next_page[of "?v + ?i"] by (simp add: room_to_def add.assoc)
        qed
        ultimately show "r = 0 \<and> room s' m" using IH(5) by simp
      qed
      have run: "load_bss map_page va perm n sg i s = Ret (r, s')"
        using s1(1) r1 True nw(2) IH(1) by (simp add: step)
      have "holds_seg s s' bin (unat n) ?v (?v + ?i) (?v + ?sg)" if "r = 0"
      proof (cases "i + BY2PG < sg")
        case more: True
        then have l: "?i + 4096 < ?sg" by (simp add: word_less_nat_alt nw(1))
        have h2: "holds_seg s1 s' bin (unat n) ?v (?v + (?i + 4096)) (?v + ?sg)" using IH(4) that more by (simp add: nw(1))
        have "holds_seg s s1 bin (unat n) ?v (?v + ?i) (?v + (?i + 4096))" using h1 l by simp
        from holds_seg_trans[OF this h2] al' l show ?thesis by simp
      next
        case False
        then have "?sg \<le> ?i + 4096" by (simp add: word_less_nat_alt nw(1))
        then show ?thesis using IH(4) that h1 False by simp
      qed
      then show ?thesis using run IH(2,3) True rt by auto
    qed
  qed
qed

lemma holds_seg_less:
  "holds_seg s s' bin n v a b' \<Longrightarrow> b \<le> b' \<Longrightarrow> (b' + 4095) div 4096 \<le> (b + 4095) div 4096 \<Longrightarrow> holds_seg s s' bin n v a b"
  by (auto simp: holds_seg_def)

lemma last_page:
  assumes "(b' :: nat) mod 4096 = 0" "b' < b + 4096"
  shows "(b' + 4095) div 4096 \<le> (b + 4095) div 4096"
proof -
  obtain m where "b' = 4096 * m" using assms(1) by auto
  with assms(2) show ?thesis by (intro div_le_mono2 iffD2[OF less_Suc_eq_le[symmetric]] | simp)+
qed

text \<open>The two loops, from the index that the first page leaves.\<close>

lemma loops_ok:
  assumes "ok s0" "lo \<le> va" "perm < 4096" "unat n \<le> length bin" "unat va + unat sg \<le> unat UTOP" "n \<le> sg" "i \<le> n"
    "i < sg \<longrightarrow> (unat va + unat i) mod 4096 = 0"
    and h0: "holds_seg s s0 bin (unat n) (unat va) (unat va) (unat va + unat i)"
    and e: "e = (unat va + unat sg + 4095) div 4096"
  shows "\<exists>r s'. rbind (load_content map_page va perm bin n i s0) (\<lambda>((r, i), s).
      if r \<noteq> 0 then Ret (r, s) else load_bss map_page va perm n sg i s) = Ret (r, s') \<and> ok s' \<and> r \<le> 0 \<and>
    (r = 0 \<longrightarrow> holds_seg s s' bin (unat n) (unat va) (unat va) (unat va + unat sg)) \<and>
    ((if i < sg then room_to s0 m e (unat va + unat i) else room s0 m) \<longrightarrow> r = 0 \<and> room s' m)"
proof -
  let ?v = "unat va" and ?H = "\<lambda>s s' a b. holds_seg s s' bin (unat n) (unat va) a b"
  have le: "unat n \<le> unat sg" "unat i \<le> unat n" using assms(6,7) by (simp_all add: word_le_nat_alt)
  then have nb: "?v + unat n \<le> unat UTOP" using assms(5) by simp
  have ne: "(?v + unat n + 4095) div 4096 \<le> e" unfolding e using le by (intro div_le_mono) simp
  have al: "i < n \<longrightarrow> (?v + unat i) mod 4096 = 0" using assms(6,8) by (auto dest: order_less_le_trans)
  obtain r i1 s1 where s1: "load_content map_page va perm bin n i s0 = Ret ((r, i1), s1)" "ok s1" "r \<le> 0"
    "r = 0 \<longrightarrow> (if i < n then n \<le> i1 \<and> unat i1 < unat n + 4096 \<and> (?v + unat i1) mod 4096 = 0 \<and>
       ?H s0 s1 (?v + unat i) (?v + unat i1) else i1 = i \<and> s1 = s0)"
    "room_to s0 m e (?v + unat i) \<longrightarrow> r = 0 \<and> room_to s1 m e (?v + unat i1)"
    using content_ok[OF assms(1-4) nb al ne] by blast
  have rm: "(if i < sg then room_to s0 m e (?v + unat i) else room s0 m) \<longrightarrow>
      r = 0 \<and> (if i1 < sg then room_to s1 m e (?v + unat i1) else room s1 m)"
  proof (cases "i < n")
    case True
    have "room s1 m" if "room_to s1 m e (?v + unat i1)" "r = 0" "\<not> i1 < sg"
    proof -
      have "?v + unat sg \<le> ?v + unat i1" using that(3) by (simp add: word_less_nat_alt)
      then have "e \<le> (?v + unat i1 + 4095) div 4096" unfolding e by (intro div_le_mono) simp
      also have "\<dots> = (?v + unat i1) div 4096" using True s1(4) that(2) by (intro aligned_up) simp
      finally show ?thesis using that(1) by (simp add: room_to_def)
    qed
    moreover have "i < sg" using True assms(6) by (rule order_less_le_trans)
    ultimately show ?thesis using s1(5) by auto
  next
    case False
    have "load_content map_page va perm bin n i s0 = Ret ((0, i), s0)" using False by (simp add: load_content.simps[of map_page va perm bin n i])
    then show ?thesis using s1(1) by simp
  qed
  show ?thesis
  proof (cases "r = 0")
    case False
    then show ?thesis using s1 rm by simp
  next
    case True
    have h1: "?H s s1 ?v (?v + unat i1)" and i1: "n \<le> i1" "i1 < sg \<longrightarrow> (?v + unat i1) mod 4096 = 0"
      "i1 = i \<and> i = n \<or> (?v + unat i1) mod 4096 = 0 \<and> unat i1 < unat n + 4096"
    proof -
      show "n \<le> i1" "i1 < sg \<longrightarrow> (?v + unat i1) mod 4096 = 0"
        "i1 = i \<and> i = n \<or> (?v + unat i1) mod 4096 = 0 \<and> unat i1 < unat n + 4096"
        using s1(4) True assms(7,8) by (auto split: if_splits)
      show "?H s s1 ?v (?v + unat i1)"
      proof (cases "i < n")
        case lt: True
        have "(?v + unat i) mod 4096 = 0" using lt assms(6,8) by (auto dest: order_less_le_trans)
        moreover have "unat i < unat i1" using lt s1(4) True by (auto simp: word_less_nat_alt word_le_nat_alt)
        ultimately show ?thesis using s1(4) True lt by (intro holds_seg_trans[OF h0]) auto
      next
        case False
        then show ?thesis using s1(4) True h0 by simp
      qed
    qed
    obtain r2 s2 where s2: "load_bss map_page va perm n sg i1 s1 = Ret (r2, s2)" "ok s2" "r2 \<le> 0"
      "r2 = 0 \<longrightarrow> (if i1 < sg then ?H s1 s2 (?v + unat i1) (?v + unat sg) else s2 = s1)"
      "(if i1 < sg then room_to s1 m e (?v + unat i1) else room s1 m) \<longrightarrow> r2 = 0 \<and> room s2 m"
      using bss_ok[OF s1(2) assms(2,3,5) i1(1,2) e] by blast
    have "?H s s2 ?v (?v + unat sg)" if "r2 = 0"
    proof (cases "i1 < sg")
      case lt: True
      then have "unat i1 < unat sg" by (simp add: word_less_nat_alt)
      then show ?thesis using s2(4) that lt i1(2) by (intro holds_seg_trans[OF h1]) auto
    next
      case False
      then have l: "unat sg \<le> unat i1" by (simp add: word_less_nat_alt)
      have "(?v + unat i1 + 4095) div 4096 \<le> (?v + unat sg + 4095) div 4096"
        using i1(3)
      proof
        assume "i1 = i \<and> i = n"
        then show ?thesis using le by (intro div_le_mono) auto
      next
        assume "(?v + unat i1) mod 4096 = 0 \<and> unat i1 < unat n + 4096"
        then show ?thesis using le by (intro last_page) auto
      qed
      then show ?thesis using holds_seg_less[OF h1] s2(4) that False l by simp
    qed
    then show ?thesis using s1(1) True s2 rm by auto
  qed
qed

lemma end_of_page:
  assumes "v mod 4096 \<noteq> (0 :: nat)" "v mod 4096 + k \<le> 4096" "(v + k) mod 4096 = 0"
  shows "(v + k) div 4096 = Suc (v div 4096)"
proof -
  have v: "v + k = 4096 * (v div 4096) + (v mod 4096 + k)" by simp
  then have m: "(v mod 4096 + k) mod 4096 = 0" using assms(3) by (metis mod_mult_self4)
  then have "v mod 4096 + k = 4096" using assms(1,2) by (cases "v mod 4096 + k = 4096") auto
  then have "v + k = 4096 * Suc (v div 4096)" using v by simp
  then show ?thesis by simp
qed

lemma seg_perm_flags: "seg_perm ph < 4096"
  by (simp add: seg_perm_def mmu_defs)

lemma page_offset: "unat (va - ROUNDDOWN va BY2PG) = unat va mod 4096"
proof -
  have "va = (va AND NOT (mask 12)) OR (va AND mask 12)" by (rule bit_word_eqI) (auto simp: bit_simps)
  also have "\<dots> = (va AND NOT (mask 12)) + (va AND mask 12)"
    by (rule disjunctive_add[symmetric]) (auto simp: bit_simps)
  finally have "va - (va AND NOT (mask 12)) = va AND mask 12" by (metis add_diff_cancel_left')
  then have "va - ROUNDDOWN va BY2PG = va AND mask 12" by (simp add: ROUNDDOWN_def BY2PG_def mask12[symmetric])
  then show ?thesis by (simp flip: take_bit_eq_mask add: take_bit_eq_mod unat_mod)
qed

text \<open>The number of pages that a segment meets.\<close>

definition seg_pages :: "phdr \<Rightarrow> nat" where
  "seg_pages ph = (unat (p_vaddr ph) + unat (p_memsz ph) + 4095) div 4096 - vpn (p_vaddr ph)"

lemma load_seg_ok:
  assumes s: "ok s" and va: "lo \<le> p_vaddr ph" "unat (p_vaddr ph) + unat (p_memsz ph) \<le> unat UTOP"
    and sz: "p_filesz ph \<le> p_memsz ph" "unat (p_filesz ph) \<le> length bin"
    and gap: "unat (p_vaddr ph) mod 4096 = 0 \<or> 4096 \<le> unat (p_vaddr ph) mod 4096 + unat (p_filesz ph) \<or> p_memsz ph = p_filesz ph"
    and in_user: "p_vaddr ph < UTOP"
  shows "\<exists>r s'. elf_load_seg ph bin map_page s = Ret (r, s') \<and> ok s' \<and> r \<le> 0 \<and>
    (r = 0 \<longrightarrow> (\<forall>j < unat (p_memsz ph). mem_byte (page s') (unat (p_vaddr ph) + j) = Some (seg_byte bin (unat (p_filesz ph)) j)) \<and>
      (\<forall>q. q < vpn (p_vaddr ph) \<or> (unat (p_vaddr ph) + unat (p_memsz ph) + 4095) div 4096 \<le> q \<longrightarrow> page s' q = page s q)) \<and>
    (room s (m + 2 * seg_pages ph) \<longrightarrow> r = 0 \<and> room s' m)"
proof -
  let ?va = "p_vaddr ph" and ?n = "p_filesz ph" and ?sg = "p_memsz ph"
  let ?v = "unat ?va" and ?off = "?va - ROUNDDOWN ?va BY2PG"
  let ?len = "min ?n (BY2PG - ?off)" and ?H = "\<lambda>s s'. holds_seg s s' bin (unat ?n) ?v ?v"
  have off: "unat ?off = ?v mod 4096" by (rule page_offset)
  have fin: "?thesis" if "elf_load_seg ph bin map_page s = Ret (r, s')" "ok s'" "r \<le> 0" "r = 0 \<longrightarrow> ?H s s' (?v + unat ?sg)"
    "room s (m + 2 * seg_pages ph) \<longrightarrow> r = 0 \<and> room s' m" for r s'
    using that by (auto simp: holds_seg_def vpn_def)
  show ?thesis
  proof (cases "?off = 0")
    case True
    then have al: "?v mod 4096 = 0" using off by simp
    have "0 \<le> ?n" "0 < ?sg \<longrightarrow> (?v + unat (0 :: u32)) mod 4096 = 0" using al by simp_all
    note le = this
    have h0: "?H s s (?v + unat (0 :: u32))" by (simp add: holds_seg_refl)
    obtain r s' where
      "rbind (load_content map_page ?va (seg_perm ph) bin ?n 0 s) (\<lambda>((r, i), s).
        if r \<noteq> 0 then Ret (r, s) else load_bss map_page ?va (seg_perm ph) ?n ?sg i s) = Ret (r, s')" "ok s'" "r \<le> 0"
      "r = 0 \<longrightarrow> ?H s s' (?v + unat ?sg)"
      "(if 0 < ?sg then room_to s m ((?v + unat ?sg + 4095) div 4096) (?v + unat (0 :: u32)) else room s m) \<longrightarrow> r = 0 \<and> room s' m"
      using loops_ok[OF s va(1) seg_perm_flags sz(2) va(2) sz(1) le h0 refl, of ph m] by blast
    moreover have "room s (m + 2 * seg_pages ph) \<longrightarrow> r = 0 \<and> room s' m"
    proof (cases "0 < ?sg")
      case True
      then show ?thesis using calculation(5) by (simp add: room_to_def seg_pages_def vpn_def)
    next
      case False
      then have "unat ?sg = 0" by (simp only: word_less_nat_alt) simp
      then have "seg_pages ph = 0" using aligned_up[OF al] by (simp add: seg_pages_def vpn_def)
      then show ?thesis using calculation(5) False by simp
    qed
    moreover have "ROUNDDOWN ?va BY2PG = ?va" using True by simp
    ultimately show ?thesis by (intro fin[of r s']) (simp_all add: elf_load_seg_def Let_def)
  next
    case False
    then have o: "?v mod 4096 \<noteq> 0" using off by (metis unat_eq_zero)
    have b: "unat (BY2PG - ?off) = 4096 - ?v mod 4096"
      using off by (subst unat_sub) (simp_all add: BY2PG_def word_le_nat_alt)
    have len: "unat ?len = min (unat ?n) (4096 - ?v mod 4096)"
      using b by (auto simp: min_def word_le_nat_alt)
    have nl: "unat ?off + unat ?len \<le> 4096" "unat ?len \<le> length bin" "?len \<le> ?n"
      using sz(2) by (simp_all add: len off min_le_iff_disj)
    obtain r s0 where s0: "map_page s ?va ?off (seg_perm ph) (Some bin) ?len = Ret (r, s0)" "ok s0" "r \<le> 0"
      "r = 0 \<longrightarrow> page s0 = (page s)(vpn ?va \<mapsto> filled (unat ?off) (take (unat ?len) bin))"
      "\<forall>m. room s (Suc (Suc m)) \<longrightarrow> r = 0 \<and> room s0 m"
      using map_bytes[OF s va(1) in_user seg_perm_flags nl(1,2)] by blast
    let ?e = "(?v + unat ?sg + 4095) div 4096"
    have ps: "?v = 4096 * (?v div 4096) + ?v mod 4096" "?v mod 4096 < 4096" by simp_all
    have "4096 * (?v div 4096) < ?v + unat ?sg" using o ps(1) by linarith
    from before_end[OF this, of ?e] have lt: "?v div 4096 < ?e" by simp
    note rm = room_step[OF _ lt s0(5), of m]
    show ?thesis
    proof (cases "r = 0")
      case False
      have "room s (m + 2 * seg_pages ph) \<longrightarrow> r = 0 \<and> room s0 m"
        using rm(1)[OF _ next_page] False by (auto simp: room_to_def seg_pages_def vpn_def)
      then show ?thesis using s0 \<open>?off \<noteq> 0\<close> False by (intro fin[of r s0]) (simp_all add: elf_load_seg_def Let_def)
    next
      case True
      have pg: "page s0 = (page s)(?v div 4096 \<mapsto> filled (?v mod 4096) (take (unat ?len) bin))"
        using s0(4) True by (simp add: vpn_def off)
      have h0: "?H s s0 (?v + unat ?len)"
      proof (rule one_page[OF pg])
        show "?v mod 4096 + length (take (unat ?len) bin) \<le> 4096" using nl(1) off by simp
        show "\<forall>x. ?v \<le> x \<and> x < ?v + unat ?len \<longrightarrow> seg_byte bin (unat ?n) (x - ?v) =
          (if x < ?v + length (take (unat ?len) bin) then take (unat ?len) bin ! (x - ?v) else 0)"
        proof (intro allI impI)
          fix x
          assume x: "?v \<le> x \<and> x < ?v + unat ?len"
          have "unat ?len \<le> unat ?n" using nl(3) by (simp only: word_le_nat_alt)
          moreover have "x - ?v < unat ?len" using x by linarith
          ultimately have "x - ?v < unat ?n" "take (unat ?len) bin ! (x - ?v) = bin ! (x - ?v)" "x < ?v + length (take (unat ?len) bin)"
            using x nl(2) by simp_all
          then show "seg_byte bin (unat ?n) (x - ?v) =
            (if x < ?v + length (take (unat ?len) bin) then take (unat ?len) bin ! (x - ?v) else 0)"
            by (simp only: seg_byte_def if_True)
        qed
        have "?v mod 4096 + unat ?len \<le> 4096" using nl(1) off by simp
        then show "?v + unat ?len \<le> ?v - ?v mod 4096 + 4096" using mod_less_eq_dividend[of ?v 4096] by linarith
      qed (use o in auto)
      have "?len < ?sg \<longrightarrow> (?v + unat ?len) mod 4096 = 0"
      proof
        assume lt: "?len < ?sg"
        have "unat ?len = 4096 - ?v mod 4096"
        proof (rule ccontr)
          assume "unat ?len \<noteq> 4096 - ?v mod 4096"
          then have "unat ?n < 4096 - ?v mod 4096" "unat ?len = unat ?n" using len by auto
          then have "?sg = ?n" using gap o by auto
          then show False using lt \<open>unat ?len = unat ?n\<close> by (simp add: word_less_nat_alt)
        qed
        then have e: "?v + unat ?len = ?v - ?v mod 4096 + 4096" using mod_less_eq_dividend[of ?v 4096] mod_less_divisor[of 4096 ?v] by linarith
        show "(?v + unat ?len) mod 4096 = 0" unfolding e minus_mod_eq_mult_div by simp
      qed
      note le = this
      obtain r s' where
        "rbind (load_content map_page ?va (seg_perm ph) bin ?n ?len s0) (\<lambda>((r, i), s).
          if r \<noteq> 0 then Ret (r, s) else load_bss map_page ?va (seg_perm ph) ?n ?sg i s) = Ret (r, s')" "ok s'" "r \<le> 0"
        "r = 0 \<longrightarrow> ?H s s' (?v + unat ?sg)"
        and r2: "(if ?len < ?sg then room_to s0 m ?e (?v + unat ?len) else room s0 m) \<longrightarrow> r = 0 \<and> room s' m"
        using loops_ok[OF s0(2) va(1) seg_perm_flags sz(2) va(2) sz(1) nl(3) le h0 refl, of ph m] by blast
      moreover have "room s (m + 2 * seg_pages ph) \<longrightarrow> r = 0 \<and> room s' m"
      proof
        assume "room s (m + 2 * seg_pages ph)"
        then have rs: "room_to s m ?e ?v" by (simp add: room_to_def seg_pages_def vpn_def)
        note rs2 = rm(2)[OF rs]
        have ol: "?v mod 4096 + unat ?len \<le> 4096" using nl(1) off by simp
        have "room_to s0 m ?e (?v + unat ?len)" if "?len < ?sg"
          using le that end_of_page[OF o ol] by (intro rs2) simp
        moreover have "room s0 m" if "\<not> ?len < ?sg"
        proof -
          have "unat ?sg \<le> unat ?len" using that by (simp only: word_less_nat_alt not_less)
          then have "?v + unat ?sg \<le> 4096 * (?v div 4096) + 4096" using ol ps(1) by linarith
          then have "?e \<le> (4096 * (?v div 4096) + 4096 + 4095) div 4096" by (intro div_le_mono) simp
          then have "?e = Suc (?v div 4096)" using lt by simp
          then show ?thesis using rs2[of "4096 * (?v div 4096) + 4096"] by (simp add: room_to_def)
        qed
        ultimately show "r = 0 \<and> room s' m" using r2 by simp
      qed
      ultimately show ?thesis using s0(1) True \<open>?off \<noteq> 0\<close> by (intro fin[of r s']) (simp_all add: elf_load_seg_def Let_def)
    qed
  qed
qed

end

section \<open>The mapper of the kernel\<close>

lemma vidx_vpn: "vidx va = (vpn va div 1024, vpn va mod 1024)"
  by (simp add: vidx_def vpn_def unat_PDX unat_PTX div_mult2_eq[symmetric])

lemma idx_eq_iff: "(q div 1024, q mod 1024) = (p div 1024, p mod 1024) \<longleftrightarrow> q = (p :: nat)"
  by (metis div_mult_mod_eq prod.inject)

definition space_page :: "'a pm_scheme \<Rightarrow> nat \<Rightarrow> nat \<Rightarrow> u8 list option" where
  "space_page s d q = map_option (\<lambda>w. page_bytes s (unat (PPN w))) (aspace s d (q div 1024, q mod 1024))"

text \<open>A store into a page that no directory and no table occupies.\<close>

lemma pm_inv_page_store:
  assumes inv: "pm_inv ext D s" and p: "p \<notin> D" "p \<notin> tables D s" and s': "s' = s\<lparr>pmem := (pmem s)(p := f)\<rparr>"
  shows "pm_inv ext D s'" "\<forall>d \<in> D. aspace s' d = aspace s d" "tables D s' = tables D s" "ptes D s' = ptes D s"
    "tgt s' ` ptes D s' = tgt s ` ptes D s"
proof -
  have e: "\<And>q. q \<in> D \<Longrightarrow> pmem s' q = pmem s q" "\<And>q. q \<in> tables D s \<Longrightarrow> pmem s' q = pmem s q" using p by (auto simp: s')
  note rc = refs_cong[OF e]
  show "\<forall>d \<in> D. aspace s' d = aspace s d" using aspace_cong[OF e] by blast
  show "tables D s' = tables D s" "ptes D s' = ptes D s" using rc(3,4) by auto
  show "tgt s' ` ptes D s' = tgt s ` ptes D s" using rc(4,5) by auto
  have "pm_struct D s'" by (rule pm_struct_cong[OF _ _ e]) (use inv in \<open>simp_all add: pm_inv_def s'\<close>)
  then show "pm_inv ext D s'" using inv rc(7) by (auto simp: pm_inv_def count_ok_def free_ok_def s')
qed

text \<open>The free list has at least \<open>n\<close> pages; an insertion takes at most one, for a page table.\<close>

definition has_room :: "'a pm_scheme \<Rightarrow> nat \<Rightarrow> bool" where
  "has_room s n \<longleftrightarrow> (\<exists>fl. list_rep (page_free_list s) fl \<and> n \<le> length fl)"

lemma page_alloc_room:
  assumes "has_room s (Suc n)" "page_alloc s = Ret ((r, p), s')"
  shows "has_room s' n" "r = 0"
proof -
  obtain q fl where fl: "list_rep (page_free_list s) (q # fl)" "n \<le> length fl"
    using assms(1) by (auto simp: has_room_def Suc_le_length_iff)
  then have "\<not> LIST_EMPTY (page_free_list s)" by (simp add: list_rep_empty)
  from ll.pop[OF fl(1) this] obtain q' where
    "LIST_FIRST (page_free_list s) = Some q" "LIST_REMOVE q (page_free_list s) = Ret q'" "list_rep q' fl" by blast
  then show "has_room s' n" "r = 0"
    using assms(2) fl(2) \<open>\<not> LIST_EMPTY (page_free_list s)\<close>
    by (auto simp: page_alloc_def has_room_def res_simps Let_def)
qed

lemma has_room_mono: "has_room s n \<Longrightarrow> m \<le> n \<Longrightarrow> has_room s m"
  by (auto simp: has_room_def)

lemma has_room_same: "page_free_list s' = page_free_list s \<Longrightarrow> has_room s' n = has_room s n"
  by (simp add: has_room_def)

lemma walk_room:
  assumes "has_room s (Suc n)" "pgdir_walk d va True s = Ret ((r, l), s')"
  shows "has_room s' n \<and> r = 0" 
proof -
  have le: "has_room s n" by (rule has_room_mono[OF assms(1)]) simp
  show ?thesis
  proof (cases "pte_valid (load_word s (d, unat (PDX va)))")
    case True
    then show ?thesis using assms(2) le by (simp add: pgdir_walk_def Let_def rbind_eq_Ret)
  next
    case False
    then obtain k x s1 where s1: "page_alloc s = Ret ((k, x), s1)"
      using assms(2) by (cases "page_alloc s") (auto simp: pgdir_walk_def Let_def)
    note a = page_alloc_room[OF assms(1) s1]
    obtain q where "x = Some q" using assms(2) False a(2) by (cases x) (simp_all add: pgdir_walk_def Let_def s1)
    then have "page_free_list s' = page_free_list s1 \<and> r = 0"
      using assms(2) False a(2) by (clarsimp simp: pgdir_walk_def Let_def s1 rbind_eq_Ret) (simp add: store_word_def incr_ref_def)
    then show ?thesis using a(1) has_room_same[of s' s1 n] by simp
  qed
qed

lemma step2_room:
  assumes "has_room s (Suc n)" "insert_step2 d asid pp va perm s = Ret (r, s')"
  shows "has_room s' n \<and> r = 0"
proof -
  have "has_room (tlb_invalidate asid va s) (Suc n)" using assms(1) by (simp add: has_room_def)
  note w = walk_room[OF this]
  obtain k l s1 where s1: "pgdir_walk d va True (tlb_invalidate asid va s) = Ret ((k, l), s1)"
    using assms(2) by (cases "pgdir_walk d va True (tlb_invalidate asid va s)") (auto simp: insert_step2_def)
  then have "page_free_list s' = page_free_list s1 \<and> r = 0"
    using assms(2) w[OF s1] by (cases l) (auto simp: insert_step2_def store_word_def incr_ref_def)
  then show ?thesis using w[OF s1] has_room_same[of s' s1 n] by simp
qed

lemma page_insert_room:
  assumes inv: "pm_inv ext D s" and d: "d \<in> D" and i: "unat (PDX va) < user_pdes"
    and r: "has_room s (Suc n)" and run: "page_insert d asid pp va perm s = Ret (r, s')"
  shows "has_room s' n \<and> r = 0"
proof -
  obtain fl where fl: "free_ok s fl" using inv by (auto simp: pm_inv_def)
  have st: "pm_struct D s" using inv by (simp add: pm_inv_def)
  obtain s1 fl1 where s1: "page_remove d asid va s = Ret s1" "free_ok s1 fl1"
    "fl1 = (case aspace s d (vidx va) of None \<Rightarrow> fl | Some w \<Rightarrow>
       if unat (pp_ref s (unat (PPN w))) = 1 then unat (PPN w) # fl else fl)"
    by (rule page_remove_ok[OF inv fl d i])
  have "list_rep (page_free_list s) fl" using fl by (simp add: free_ok_def)
  then have "Suc n \<le> length fl" using r list_rep_unique by (auto simp: has_room_def)
  then have "has_room s1 (Suc n)" using s1(2,3) by (auto simp: has_room_def free_ok_def split: option.splits if_splits)
  note s2 = step2_room[OF this] step2_room[OF r]
  from run consider "insert_step2 d asid pp va perm s1 = Ret (r, s')" | "insert_step2 d asid pp va perm s = Ret (r, s')"
    | "page_free_list s' = page_free_list s \<and> r = 0"
    using s1(1) by (auto simp: page_insert_def walk_noalloc[OF st d i] load_word_def store_word_def rbind_eq_Ret split: if_splits)
  then show ?thesis using s2 has_room_mono[OF r, of n] has_room_same[of s' s n] by cases auto
qed

lemma insert_fresh:
  assumes inv: "pm_inv ext D s" and fl: "free_ok s fl" and d: "d \<in> D" and va: "va < UTOP" and perm: "perm < 4096"
    and p: "p < npage s" "p \<notin> D" "p \<notin> tables D s" "p \<notin> set fl" "pp_ref s p = 0"
  obtains r s' where "page_insert d asid p va perm s = Ret (r, s')" "pm_inv ext D s'" "pm.more s' = pm.more s" "r \<le> 0"
    "r = 0 \<longrightarrow> space_page s' d = (space_page s d)(vpn va \<mapsto> page_bytes s p)"
    "\<forall>n. has_room s (Suc n) \<longrightarrow> r = 0 \<and> has_room s' n"
proof -
  have i: "unat (PDX va) < user_pdes" using PDX_UTOP[OF va] by (simp add: user_pdes_def)
  have st: "pm_struct D s" using inv by (simp add: pm_inv_def)
  have np: "npage s \<le> 2 ^ 20" using st by (simp add: pm_struct_def)
  have rf: "unat (pp_ref s p) < 65535" using p(5) by simp
  note rm = page_insert_room[OF inv d i]
  show ?thesis
  proof (cases rule: page_insert_ok[OF inv fl d i perm p(1-4) rf, where asid = asid, case_names nomem ok])
    case (nomem s')
    then show ?thesis using that[of "- E_NO_MEM" s'] rm[OF _ nomem(1)] by auto
  next
    case (ok s')
    have pd: "p \<noteq> d" using p(2) d by auto
    have mem: "pmem s' q = pmem s q" if "q = p \<or> q \<in> tgt s ` ptes D s" for q
    proof -
      have "q \<notin> tables D s" "q \<notin> set fl" "q \<noteq> d"
        using that p d st count_ok_free[OF inv fl, of q] by (auto simp: pm_struct_def)
      then show ?thesis using page_insert_mem[OF inv fl d i ok(1)] by (auto simp: fun_eq_iff)
    qed
    have "space_page s' d q = ((space_page s d)(vpn va \<mapsto> page_bytes s p)) q" for q
    proof (cases "q = vpn va")
      case True
      then show ?thesis
        using ok(3) d pte_word(2)[OF p(1) np perm] page_bytes_cong[OF mem[of p]] by (simp add: space_page_def vidx_vpn)
    next
      case False
      then have "(q div 1024, q mod 1024) \<noteq> vidx va" unfolding vidx_vpn idx_eq_iff .
      then have a: "aspace s' d (q div 1024, q mod 1024) = aspace s d (q div 1024, q mod 1024)" using ok(3) d by simp
      have "page_bytes s' (unat (PPN w)) = page_bytes s (unat (PPN w))" if "aspace s d (q div 1024, q mod 1024) = Some w" for w
      proof (intro page_bytes_cong mem disjI2)
        have "(d, q div 1024, q mod 1024) \<in> ptes D s" "w = pmem s (pt_of s d (q div 1024)) (q mod 1024)"
          using that aspace_Some_iff[OF d] by auto
        then show "unat (PPN w) \<in> tgt s ` ptes D s" by (force simp: tgt_def)
      qed
      then show ?thesis using False a by (cases "aspace s d (q div 1024, q mod 1024)") (simp_all add: space_page_def)
    qed
    then show ?thesis using that[OF ok(1,2,5)] rm[OF _ ok(1)] by (auto simp: fun_eq_iff)
  qed
qed

lemma load_icode_mapper_ok:
  assumes inv: "pm_inv ext D s" "pm.more s = pm.more s0" and d: "env_pgdir (envs s0 e) \<in> D" and va: "va < UTOP" and perm: "perm < 4096"
    and b: "case src of None \<Rightarrow> bs = [] \<and> off = 0 | Some b \<Rightarrow> unat off + unat len \<le> 4096 \<and> unat len \<le> length b \<and> bs = take (unat len) b"
  shows "\<exists>r s'. load_icode_mapper e s va off perm src len = Ret (r, s') \<and> (pm_inv ext D s' \<and> pm.more s' = pm.more s0) \<and> r \<le> 0 \<and>
    (r = 0 \<longrightarrow> space_page s' (env_pgdir (envs s0 e)) = (space_page s (env_pgdir (envs s0 e)))(vpn va \<mapsto> filled (unat off) bs)) \<and>
    (\<forall>m. has_room s (Suc (Suc m)) \<longrightarrow> r = 0 \<and> has_room s' m)"
proof -
  let ?d = "env_pgdir (envs s0 e)"
  note inv' = inv(2) and inv = inv(1)
  have es: "envs s = envs s0" using pm_more_fields[OF inv'] by simp
  obtain fl where fl: "free_ok s fl" using inv by (auto simp: pm_inv_def)
  have lr: "has_room s n \<longleftrightarrow> n \<le> length fl" for n using fl list_rep_unique by (auto simp: has_room_def free_ok_def)
  show ?thesis
  proof (cases fl)
    case Nil
    then have "page_alloc s = Ret ((- E_NO_MEM, None), s)" using page_alloc_none fl by simp
    then show ?thesis using inv inv' Nil lr by (simp add: load_icode_mapper_def)
  next
    case (Cons p fl')
    obtain s1 where s1: "page_alloc s = Ret ((0, Some p), s1)" "pm_inv ext D s1" "free_ok s1 fl'"
      "pmem s1 = (pmem s)(p := (\<lambda>_. 0))" "npage s1 = npage s" "pp_ref s1 = pp_ref s" "pm.more s1 = pm.more s"
      "p \<notin> set fl'" "tables D s1 = tables D s" "tgt s1 ` ptes D s1 = tgt s ` ptes D s"
      "\<forall>d \<in> D. aspace s1 d = aspace s d"
      by (rule page_alloc_some[OF inv fl[unfolded Cons]])
    have p: "p < npage s" "pp_ref s p = 0" "p \<notin> D" "p \<notin> tables D s" "p \<notin> tgt s ` ptes D s"
      using fl Cons count_ok_free[OF inv fl, of p] by (auto simp: free_ok_def)
    define s2 where "s2 = store_bytes p (unat off) bs s1"
    obtain f where f: "s2 = s1\<lparr>pmem := (pmem s1)(p := f)\<rparr>"
      using store_bytes_pmem[of p "unat off" bs s1] by (auto simp: s2_def)
    have p1: "p \<notin> D" "p \<notin> tables D s1" using p(3,4) s1(9) by simp_all
    note u = pm_inv_page_store[OF s1(2) p1 f]
    have fl2: "free_ok s2 fl'" using s1(3) by (simp add: free_ok_def f)
    have p2: "p < npage s2" "p \<notin> tables D s2" "pp_ref s2 p = 0" using p p1 u(3) s1(5,6) by (simp_all add: f)
    have m: "envs s2 = envs s0" using pm_more_fields[OF s1(7)] by (simp add: f es)
    have dd: "?d \<in> D" by (rule d)
    obtain r s3 where s3: "page_insert ?d (env_asid (envs s0 e)) p va perm s2 = Ret (r, s3)" "pm_inv ext D s3"
      "pm.more s3 = pm.more s2" "r \<le> 0" "r = 0 \<longrightarrow> space_page s3 ?d = (space_page s2 ?d)(vpn va \<mapsto> page_bytes s2 p)"
      "\<forall>n. has_room s2 (Suc n) \<longrightarrow> r = 0 \<and> has_room s3 n"
      by (rule insert_fresh[OF u(1) fl2 d va perm p2(1) p(3) p2(2) s1(8) p2(3)])
    have "length bs = (case src of None \<Rightarrow> 0 | Some b \<Rightarrow> unat len)" "unat off + length bs \<le> 4096"
      using b by (auto split: option.splits)
    then have run: "load_icode_mapper e s va off perm src len = Ret (r, s3)"
      using s1(1) b s3(1) m es by (auto simp: load_icode_mapper_def s2_def split: option.splits)
    have pb: "page_bytes s2 p = filled (unat off) bs"
      unfolding s2_def using \<open>unat off + length bs \<le> 4096\<close> by (intro page_bytes_store) (simp_all add: s1(4))
    have "space_page s2 ?d q = space_page s ?d q" for q
    proof (cases "aspace s ?d (q div 1024, q mod 1024)")
      case None
      then show ?thesis using u(2) s1(11) d by (simp add: space_page_def)
    next
      case (Some w)
      then have "(?d, q div 1024, q mod 1024) \<in> ptes D s" "w = pmem s (pt_of s ?d (q div 1024)) (q mod 1024)"
        using aspace_Some_iff[OF d] by auto
      then have "unat (PPN w) \<in> tgt s ` ptes D s" by (force simp: tgt_def)
      then have "unat (PPN w) \<noteq> p" using p(5) by auto
      then have "page_bytes s2 (unat (PPN w)) = page_bytes s (unat (PPN w))" by (intro page_bytes_cong) (simp add: f s1(4))
      then show ?thesis using Some u(2) s1(11) d by (simp add: space_page_def)
    qed
    then have "space_page s2 ?d = space_page s ?d" by auto
    moreover have "pm.more s3 = pm.more s0" using s3(3) s1(7) inv' by (simp add: f)
    moreover have "has_room s2 (Suc n)" if "has_room s (Suc (Suc n))" for n
      using that s1(3) Cons lr by (auto simp: f has_room_def free_ok_def)
    moreover from this s3(6) have "\<forall>m. has_room s (Suc (Suc m)) \<longrightarrow> r = 0 \<and> has_room s3 m" by blast
    ultimately show ?thesis using run s3(2,4,5) pb by auto
  qed
qed

text \<open>
  The contract for an environment \<open>e\<close> of \<open>s0\<close>, whose directory may be joined by the directories \<open>D\<close> of the others: the fields
  that are not part of the page management stay those of \<open>s0\<close>.
\<close>

definition loading :: "(nat \<Rightarrow> nat) \<Rightarrow> nat set \<Rightarrow> kern \<Rightarrow> nat \<Rightarrow> kern \<Rightarrow> bool" where
  "loading ext D s0 e s \<longleftrightarrow> pm_inv ext (insert (env_pgdir (envs s0 e)) D) s \<and> pm.more s = pm.more s0"

interpretation kl: page_mapper "load_icode_mapper e" "loading ext D s0 e" "\<lambda>s. space_page s (env_pgdir (envs s0 e))" has_room 0
  for e ext D s0
proof
  fix s and va perm off len :: u32 and b :: "u8 list"
  assume "loading ext D s0 e s" and va: "va < UTOP" "perm < 4096"
  then have k: "pm_inv ext (insert (env_pgdir (envs s0 e)) D) s" "pm.more s = pm.more s0" by (simp_all add: loading_def)
  note m = load_icode_mapper_ok[OF k insertI1 va]
  show "unat off + unat len \<le> 4096 \<Longrightarrow> unat len \<le> length b \<Longrightarrow> \<exists>r s'. load_icode_mapper e s va off perm (Some b) len = Ret (r, s') \<and>
      loading ext D s0 e s' \<and> r \<le> 0 \<and>
      (r = 0 \<longrightarrow> space_page s' (env_pgdir (envs s0 e)) = (space_page s (env_pgdir (envs s0 e)))(vpn va \<mapsto> filled (unat off) (take (unat len) b))) \<and>
      (\<forall>m. has_room s (Suc (Suc m)) \<longrightarrow> r = 0 \<and> has_room s' m)"
    unfolding loading_def by (rule m) simp
  show "\<exists>r s'. load_icode_mapper e s va 0 perm None len = Ret (r, s') \<and> loading ext D s0 e s' \<and> r \<le> 0 \<and>
      (r = 0 \<longrightarrow> space_page s' (env_pgdir (envs s0 e)) = (space_page s (env_pgdir (envs s0 e)))(vpn va \<mapsto> filled 0 [])) \<and>
      (\<forall>m. has_room s (Suc (Suc m)) \<longrightarrow> r = 0 \<and> has_room s' m)"
    using m[where src = None and bs = "[]" and off = 0 and len = len] by (simp add: loading_def)
qed

section \<open>Loading a program\<close>

text \<open>A header that the loader can follow: the segment lies in the image and in user space, and is not a short one with zeroes behind.\<close>

definition seg_ok :: "u8 list \<Rightarrow> phdr \<Rightarrow> bool" where
  "seg_ok bin ph \<longleftrightarrow> p_vaddr ph < UTOP \<and> unat (p_vaddr ph) + unat (p_memsz ph) \<le> unat UTOP \<and> p_filesz ph \<le> p_memsz ph \<and>
     unat (p_offset ph) + unat (p_filesz ph) \<le> length bin \<and>
     (unat (p_vaddr ph) mod 4096 = 0 \<or> 4096 \<le> unat (p_vaddr ph) mod 4096 + unat (p_filesz ph) \<or> p_memsz ph = p_filesz ph)"

definition seg_range :: "phdr \<Rightarrow> nat set" where
  "seg_range ph = {vpn (p_vaddr ph)..<(unat (p_vaddr ph) + unat (p_memsz ph) + 4095) div 4096}"

definition loadable :: "phdr list \<Rightarrow> phdr list" where
  "loadable phs = filter (\<lambda>ph. p_type ph = PT_LOAD) phs"

definition seg_loaded :: "u8 list \<Rightarrow> phdr \<Rightarrow> (nat \<Rightarrow> u8 list option) \<Rightarrow> bool" where
  "seg_loaded bin ph pg \<longleftrightarrow> (\<forall>j < unat (p_memsz ph). mem_byte pg (unat (p_vaddr ph) + j) =
     Some (if j < unat (p_filesz ph) then bin ! (unat (p_offset ph) + j) else 0))"

text \<open>Under the contract of a mapper with enough room such a segment is loaded, and no other page changes.\<close>

context page_mapper
begin

lemma load_segment:
  assumes s: "ok s" and ph: "seg_ok bin ph" "lo \<le> p_vaddr ph" and room: "room s (m + 2 * seg_pages ph)"
    and img: "take (unat (p_filesz ph)) img = take (unat (p_filesz ph)) (drop (unat (p_offset ph)) bin)"
  obtains s' where "elf_load_seg ph img map_page s = Ret (0, s')" "ok s'"
    "room s' m" "seg_loaded bin ph (page s')" "\<forall>q. q \<notin> seg_range ph \<longrightarrow> page s' q = page s q"
proof -
  have h: "p_vaddr ph < UTOP" "unat (p_vaddr ph) + unat (p_memsz ph) \<le> unat UTOP" "p_filesz ph \<le> p_memsz ph"
    "unat (p_offset ph) + unat (p_filesz ph) \<le> length bin"
    "unat (p_vaddr ph) mod 4096 = 0 \<or> 4096 \<le> unat (p_vaddr ph) mod 4096 + unat (p_filesz ph) \<or> p_memsz ph = p_filesz ph"
    using ph by (auto simp: seg_ok_def)
  have l: "unat (p_filesz ph) \<le> length img" using arg_cong[OF img, of length] h(4) by (simp add: min_def split: if_splits)
  have b: "seg_byte img (unat (p_filesz ph)) j = (if j < unat (p_filesz ph) then bin ! (unat (p_offset ph) + j) else 0)" for j
    using arg_cong[OF img, of "\<lambda>x. x ! j"] h(4) by (cases "j < unat (p_filesz ph)") (simp_all add: seg_byte_def)
  obtain s' where s': "elf_load_seg ph img map_page s = Ret (0, s')" "ok s'" "room s' m"
    "\<forall>j < unat (p_memsz ph). mem_byte (page s') (unat (p_vaddr ph) + j) = Some (seg_byte img (unat (p_filesz ph)) j)"
    "\<forall>q. q < vpn (p_vaddr ph) \<or> (unat (p_vaddr ph) + unat (p_memsz ph) + 4095) div 4096 \<le> q \<longrightarrow> page s' q = page s q"
    using load_seg_ok[OF s ph(2) h(2,3) l h(5,1), of m] room by auto
  show ?thesis
    by (rule that[OF s'(1-3)]) (use s'(4,5) in \<open>auto simp: seg_loaded_def b seg_range_def not_less not_le\<close>)
qed

lemma in_seg_range:
  assumes "j < unat (p_memsz ph)"
  shows "(unat (p_vaddr ph) + j) div 4096 \<in> seg_range ph"
proof -
  have "(unat (p_vaddr ph) + j) div 4096 < (unat (p_vaddr ph) + unat (p_memsz ph) + 4095) div 4096"
    using assms by (intro before_end[of _ "unat (p_vaddr ph) + unat (p_memsz ph)"]) simp_all
  moreover have "unat (p_vaddr ph) div 4096 \<le> (unat (p_vaddr ph) + j) div 4096" by (intro div_le_mono) simp
  ultimately show ?thesis by (simp add: seg_range_def vpn_def)
qed

lemma seg_loaded_keep:
  assumes "seg_loaded bin ph pg" "\<forall>q. q \<notin> Q \<longrightarrow> pg' q = pg q" "seg_range ph \<inter> Q = {}"
  shows "seg_loaded bin ph pg'"
proof -
  have "mem_byte pg' (unat (p_vaddr ph) + j) = mem_byte pg (unat (p_vaddr ph) + j)" if "j < unat (p_memsz ph)" for j
    using in_seg_range[OF that] assms(2,3) by (auto simp: mem_byte_def)
  then show ?thesis using assms(1) by (simp add: seg_loaded_def)
qed

end

lemma load_segments_ok:
  assumes "list_all2 (\<lambda>o' ph. phdr_at bin o' = Ret ph) offs phs" "\<forall>ph \<in> set (loadable phs). seg_ok bin ph"
    "sorted_wrt (\<lambda>a b. seg_range a \<inter> seg_range b = {}) (loadable phs)"
    "loading ext D s0 e s" "has_room s (m + 2 * sum_list (map kl.seg_pages (loadable phs)))"
  shows "\<exists>s'. load_segments e bin offs s = Ret s' \<and> loading ext D s0 e s' \<and> has_room s' m \<and>
    (\<forall>ph \<in> set (loadable phs). seg_loaded bin ph (space_page s' (env_pgdir (envs s0 e)))) \<and>
    (\<forall>q. q \<notin> (\<Union>ph \<in> set (loadable phs). seg_range ph) \<longrightarrow>
       space_page s' (env_pgdir (envs s0 e)) q = space_page s (env_pgdir (envs s0 e)) q)"
  using assms
proof (induction offs phs arbitrary: s rule: list_all2_induct)
  case Nil
  then show ?case by (simp add: loadable_def)
next
  case (Cons o' offs ph phs)
  let ?pg = "\<lambda>s. space_page s (env_pgdir (envs s0 e))"
  show ?case
  proof (cases "p_type ph = PT_LOAD")
    case False
    then show ?thesis using Cons by (simp add: loadable_def)
  next
    case True
    then have l: "loadable (ph # phs) = ph # loadable phs" by (simp add: loadable_def)
    have "has_room s (m + 2 * sum_list (map kl.seg_pages (loadable phs)) + 2 * kl.seg_pages ph)"
      using Cons.prems(4) by (simp add: l algebra_simps)
    then obtain s1 where s1: "elf_load_seg ph (drop (unat (p_offset ph)) bin) (load_icode_mapper e) s = Ret (0, s1)" "loading ext D s0 e s1"
      "has_room s1 (m + 2 * sum_list (map kl.seg_pages (loadable phs)))" "seg_loaded bin ph (?pg s1)"
      "\<forall>q. q \<notin> seg_range ph \<longrightarrow> ?pg s1 q = ?pg s q"
      using kl.load_segment[OF Cons.prems(3) _ word_zero_le _ refl, of bin ph] Cons.prems(1) l by (metis list.set_intros(1))
    have sub: "\<forall>ph \<in> set (loadable phs). seg_ok bin ph" "sorted_wrt (\<lambda>a b. seg_range a \<inter> seg_range b = {}) (loadable phs)"
      and dj: "\<forall>p \<in> set (loadable phs). seg_range ph \<inter> seg_range p = {}"
      using Cons.prems(1,2) by (simp_all add: l)
    from Cons.IH[OF sub s1(2,3)] obtain s2 where s2: "load_segments e bin offs s1 = Ret s2" "loading ext D s0 e s2" "has_room s2 m"
      "\<forall>ph \<in> set (loadable phs). seg_loaded bin ph (?pg s2)"
      "\<forall>q. q \<notin> (\<Union>ph \<in> set (loadable phs). seg_range ph) \<longrightarrow> ?pg s2 q = ?pg s1 q" by blast
    have run: "load_segments e bin (o' # offs) s = Ret s2" using Cons.hyps(1) True s1(1) s2(1) by simp
    have "seg_loaded bin ph (?pg s2)" by (rule kl.seg_loaded_keep[OF s1(4) s2(5)]) (use dj in blast)
    then show ?thesis using run s1(5) s2(2-5) by (simp add: l)
  qed
qed

text \<open>
  C30. \<open>load_icode\<close> with a valid ELF image whose segments lie in it and in user space and do not share pages, when
  there are two free pages for each page of them: it returns, every byte of every loadable segment is
  in the environment's memory at its address (the bytes of the file, then zeroes up to the size in memory), no
  page outside of the segments has changed, and the environment starts at the entry point.
\<close>

theorem load_icode_correct:
  assumes inv: "pm_inv ext D s" "env_pgdir (envs s e) \<in> D"
    and elf: "elf_from bin sz = Ret True" "phdr_offsets bin = Ret offs" "e_entry bin = Ret entry"
      "list_all2 (\<lambda>off ph. phdr_at bin off = Ret ph) offs phs"
    and segs: "\<forall>ph \<in> set (loadable phs). seg_ok bin ph" "sorted_wrt (\<lambda>a b. seg_range a \<inter> seg_range b = {}) (loadable phs)"
    and room: "has_room s (2 * sum_list (map kl.seg_pages (loadable phs)))"
  shows "\<exists>s'. load_icode e bin sz s = Ret s' \<and> pm_inv ext D s' \<and> envs s' = (envs s)(e := (envs s e)\<lparr>env_tf := (env_tf (envs s e))\<lparr>cp0_epc := entry\<rparr>\<rparr>) \<and>
    (\<forall>ph \<in> set (loadable phs). seg_loaded bin ph (space_page s' (env_pgdir (envs s e)))) \<and>
    (\<forall>q. q \<notin> (\<Union>ph \<in> set (loadable phs). seg_range ph) \<longrightarrow>
       space_page s' (env_pgdir (envs s e)) q = space_page s (env_pgdir (envs s e)) q)"
proof -
  have "loading ext D s e s" using inv by (simp add: loading_def insert_absorb)
  from load_segments_ok[OF elf(4) segs this, of 0] room obtain s1 where s1: "load_segments e bin offs s = Ret s1" "loading ext D s e s1"
    "\<forall>ph \<in> set (loadable phs). seg_loaded bin ph (space_page s1 (env_pgdir (envs s e)))"
    "\<forall>q. q \<notin> (\<Union>ph \<in> set (loadable phs). seg_range ph) \<longrightarrow> space_page s1 (env_pgdir (envs s e)) q = space_page s (env_pgdir (envs s e)) q"
    by auto
  define s2 where "s2 = upd_env e (\<lambda>x. x\<lparr>env_tf := (env_tf x)\<lparr>cp0_epc := entry\<rparr>\<rparr>) s1"
  have run: "load_icode e bin sz s = Ret s2" using elf(1-3) s1(1) by (simp add: load_icode_def s2_def)
  have m: "pmem s2 = pmem s1" "npage s2 = npage s1" "pp_ref s2 = pp_ref s1" "page_free_list s2 = page_free_list s1"
    by (simp_all add: s2_def upd_env_def)
  have k: "pm_inv ext D s1" "pm.more s1 = pm.more s" using s1(2) inv(2) by (simp_all add: loading_def insert_absorb)
  have "pm_inv ext D s2" by (rule pm_inv_same[OF k(1) m])
  moreover have "space_page s2 d = space_page s1 d" for d
  proof -
    have "page_bytes s2 = page_bytes s1" by (simp add: fun_eq_iff page_bytes_def load_byte_def m(1))
    then show ?thesis by (simp add: space_page_def fun_eq_iff aspace_same[OF m(1)])
  qed
  moreover have "envs s2 = (envs s)(e := (envs s e)\<lparr>env_tf := (env_tf (envs s e))\<lparr>cp0_epc := entry\<rparr>\<rparr>)"
    using pm_more_fields[OF k(2)] by (auto simp: s2_def upd_env_def)
  ultimately show ?thesis using run s1(3,4) by auto
qed

text \<open>An image of one segment: four bytes of the file and four zeroes at \<open>0x400000\<close>.\<close>

definition demo_elf :: "u8 list" where
  "demo_elf = [0x7f, 0x45, 0x4c, 0x46] @ replicate 12 0 @ [2, 0] @ replicate 6 0 @ [0, 0, 0x40, 0, 52, 0, 0, 0] @ replicate 10 0 @
     [32, 0, 1, 0] @ replicate 6 0 @ [1, 0, 0, 0, 84, 0, 0, 0, 0, 0, 0x40, 0, 0, 0, 0, 0, 4, 0, 0, 0, 8, 0, 0, 0, 2, 0, 0, 0] @
     replicate 4 0 @ [11, 22, 33, 44]"

definition demo_ph :: phdr where
  "demo_ph = \<lparr>p_type = 1, p_offset = 84, p_vaddr = 0x400000, p_filesz = 4, p_memsz = 8, p_flags = 2\<rparr>"

lemma demo_elf_facts: "elf_from demo_elf 88 = Ret True" "phdr_offsets demo_elf = Ret [52]" "e_entry demo_elf = Ret 0x400000"
  "phdr_at demo_elf 52 = Ret demo_ph" "length demo_elf = 88" "demo_elf ! 85 = 22"
  by code_simp+

theorem load_icode_correct_witness:
  "\<exists>s'. load_icode 1 demo_elf 88 demo_kern = Ret s' \<and> mem_byte (space_page s' 5) 0x400001 = Some 22 \<and> mem_byte (space_page s' 5) 0x400005 = Some 0"
proof -
  have l: "loadable [demo_ph] = [demo_ph]" by (simp add: loadable_def demo_ph_def PT_LOAD_def)
  have ok: "seg_ok demo_elf demo_ph" unfolding seg_ok_def demo_elf_facts(5) by (simp add: demo_ph_def mmu_defs)
  have "has_room demo_kern (2 * kl.seg_pages demo_ph)"
    using demo_kern_free by (auto simp: has_room_def free_ok_def kl.seg_pages_def demo_ph_def vpn_def)
  with load_icode_correct[OF demo_pm_inv, of 1 demo_elf 88 "[52]" "0x400000" "[demo_ph]"] ok l demo_elf_facts
  obtain s' where s': "load_icode 1 demo_elf 88 demo_kern = Ret s'" "seg_loaded demo_elf demo_ph (space_page s' 5)"
    by (auto simp: demo_env_def)
  moreover have "mem_byte (space_page s' 5) (0x400000 + 1) = Some 22" "mem_byte (space_page s' 5) (0x400000 + 5) = Some 0"
    using s'(2)[unfolded seg_loaded_def, rule_format, of 1] s'(2)[unfolded seg_loaded_def, rule_format, of 5] demo_elf_facts(6)
    by (simp_all add: demo_ph_def)
  ultimately show ?thesis by auto
qed

end
