(* ===== verification/UserPage.thy ===== *)
theory UserPage
  imports Cow Loader
begin

text \<open>
  One page of user memory that the running environment may write: loads and stores of bytes and words at
  its addresses go to a single page of physical memory and change nothing else. \<open>init_stack\<close> builds the stack of a
  program in such a page, \<open>debugf\<close> its output.
\<close>

section \<open>Stores to one page\<close>

definition fbyte :: "(nat \<Rightarrow> u32) \<Rightarrow> nat \<Rightarrow> u8" where
  "fbyte f o' = ucast (drop_bit (8 * (o' mod 4)) (f (o' div 4)))"

definition with_page :: "kern \<Rightarrow> nat \<Rightarrow> (nat \<Rightarrow> u32) \<Rightarrow> kern" where
  "with_page s p f = s\<lparr>pmem := (pmem s)(p := f)\<rparr>"

definition fput :: "nat \<Rightarrow> u8 \<Rightarrow> (nat \<Rightarrow> u32) \<Rightarrow> nat \<Rightarrow> u32" where
  "fput o' b f = f(o' div 4 := (f (o' div 4) AND NOT (push_bit (8 * (o' mod 4)) 0xFF)) OR push_bit (8 * (o' mod 4)) (ucast b))"

lemma fbyte_fput: "fbyte (fput o' b f) k = (if k = o' then b else fbyte f k)"
proof (cases "k div 4 = o' div 4")
  case True
  then have "(k mod 4 = o' mod 4) = (k = o')" by (metis div_mult_mod_eq)
  then show ?thesis using True byte_of_word_upd[of "o' mod 4" "k mod 4" "f (o' div 4)" b] by (simp add: fbyte_def fput_def)
qed (auto simp: fbyte_def fput_def)

lemma fbyte_word: "fbyte (f(i := w)) k = (if k div 4 = i then ucast (drop_bit (8 * (k mod 4)) w) else fbyte f k)"
  by (simp add: fbyte_def)

section \<open>A page that may be written\<close>

definition user_page :: "(nat \<Rightarrow> nat) \<Rightarrow> nat \<Rightarrow> kern \<Rightarrow> u32 \<Rightarrow> nat \<Rightarrow> bool" where
  "user_page ext c s B p \<longleftrightarrow> runs ext c s \<and> (\<exists>w. aspace s (dir_of s c) (vidx B) = Some w \<and> unat (PPN w) = p \<and> w AND PTE_D \<noteq> 0)"

text \<open>The page that starts at \<open>B\<close> is in user space.\<close>

definition page_span :: "u32 \<Rightarrow> bool" where
  "page_span B \<longleftrightarrow> unat B mod 4096 = 0 \<and> unat B + 4096 \<le> unat UTOP"

lemma span_addr:
  assumes "page_span B" "k < 4096"
  shows "unat (B + of_nat k) = unat B + k" "vidx (B + of_nat k) = vidx B" "B + of_nat k < UTOP"
    "unat (B + of_nat k) mod 4096 = k" "(B + of_nat k) mod 4 = of_nat (k mod 4)"
proof -
  obtain q where q: "unat B = 4096 * q" using assms(1) by (auto simp: page_span_def)
  have lt: "unat B + k < 2 ^ 32" using assms by (simp add: page_span_def mmu_defs)
  show u: "unat (B + of_nat k) = unat B + k"
    using assms(2) lt by (simp add: unat_word_ariths unat_of_nat)
  have d: "(4096 * q + k) div 4096 = q" "(4096 * q + k) mod 4096 = k" using assms(2) by simp_all
  have "(4096 * q + k) div (4096 * 1024) = 4096 * q div (4096 * 1024)" unfolding div_mult2_eq d(1) by simp
  then have d2: "(4096 * q + k) div 4194304 = 4096 * q div 4194304" by simp
  show "vidx (B + of_nat k) = vidx B" unfolding vidx_def unat_PDX unat_PTX u q d d2 by simp
  show "B + of_nat k < UTOP" using assms unfolding word_less_nat_alt u by (simp add: page_span_def)
  show "unat (B + of_nat k) mod 4096 = k" unfolding u q d by (rule refl)
  have "(4 * (1024 * q) + k) mod 4 = k mod 4" by (rule mod_mult_self4)
  then have "(4096 * q + k) mod 4 = k mod 4" by simp
  then show "(B + of_nat k) mod 4 = of_nat (k mod 4)" unfolding word_unat_eq_iff unat_mod u q by (simp add: unat_of_nat)
qed

lemma with_page_self: "with_page s p (pmem s p) = s"
  by (simp add: with_page_def)

lemma user_page_upd:
  assumes "user_page ext c s B p"
  shows "user_page ext c (with_page s p f) B p" "dirs (with_page s p f) = dirs s" "\<forall>d \<in> dirs s. aspace (with_page s p f) d = aspace s d"
proof -
  obtain w where w: "runs ext c s" "aspace s (dir_of s c) (vidx B) = Some w" "unat (PPN w) = p" "w AND PTE_D \<noteq> 0"
    using assms by (auto simp: user_page_def)
  have I: "pm_inv ext (dirs s) s" "dir_of s c \<in> dirs s" using w(1) by (auto simp: kern_inv_def)
  have t: "p \<in> tgt s ` ptes (dirs s) s" using mapped_refs(3)[OF I w(2)] w(3) by simp
  note u = user_page_store[OF _ t with_page_def]
  have k: "kern_inv ext s" using w(1) by simp
  show "dirs (with_page s p f) = dirs s" "\<forall>d \<in> dirs s. aspace (with_page s p f) d = aspace s d" using u(2,4)[OF k] by auto
  have "runs ext c (with_page s p f)" by (rule runs_step[OF w(1) u(1,5)[OF k]])
  moreover have "dir_of (with_page s p f) = dir_of s" by (simp add: with_page_def dir_of_def fun_eq_iff)
  ultimately show "user_page ext c (with_page s p f) B p" using w u(2)[OF k, of f] I(2) by (auto simp: user_page_def)
qed

lemma user_refill:
  assumes "user_page ext c s B p" "page_span B" "k < 4096"
  obtains w where "do_tlb_refill (B + of_nat k) a s = Ret (w, s)" "unat (PPN w) = p" "w AND PTE_D \<noteq> 0"
proof -
  obtain w where w: "runs ext c s" "aspace s (dir_of s c) (vidx B) = Some w" "unat (PPN w) = p" "w AND PTE_D \<noteq> 0"
    using assms by (auto simp: user_page_def)
  have "pm_struct (dirs s) s" "cur_pgdir s \<in> dirs s" using w(1) by (auto simp: kern_inv_def pm_inv_def)
  from refill_user[OF this span_addr(3)[OF assms(2,3)]] w that show ?thesis by (simp add: span_addr(2)[OF assms(2,3)])
qed

lemma user_store_byte:
  assumes "user_page ext c s B p" "page_span B" "k < 4096"
  shows "ustore_byte (B + of_nat k) b s = Ret (with_page s p (fput k b (pmem s p)))"
proof -
  obtain w where w: "do_tlb_refill (B + of_nat k) (cpu_asid s) s = Ret (w, s)" "unat (PPN w) = p" "w AND PTE_D \<noteq> 0"
    by (rule user_refill[OF assms])
  then show ?thesis
    using span_addr(4)[OF assms(2,3)] by (simp add: ustore_byte_def store_byte_def store_word_def Let_def with_page_def fput_def)
qed

lemma user_load_byte:
  assumes "user_page ext c s B p" "page_span B" "k < 4096"
  shows "uload_byte (B + of_nat k) s = Ret (fbyte (pmem s p) k, s)"
proof -
  obtain w where w: "do_tlb_refill (B + of_nat k) (cpu_asid s) s = Ret (w, s)" "unat (PPN w) = p" "w AND PTE_D \<noteq> 0"
    by (rule user_refill[OF assms])
  then show ?thesis
    using span_addr(4)[OF assms(2,3)] by (simp add: uload_byte_def load_byte_def load_word_def Let_def fbyte_def)
qed

lemma user_store_word:
  assumes "user_page ext c s B p" "page_span B" "i < 1024"
  shows "ustore (B + of_nat (4 * i)) x s = Ret (with_page s p ((pmem s p)(i := x)))"
proof -
  have k: "4 * i < 4096" using assms(3) by simp
  obtain w where w: "do_tlb_refill (B + of_nat (4 * i)) (cpu_asid s) s = Ret (w, s)" "unat (PPN w) = p" "w AND PTE_D \<noteq> 0"
    by (rule user_refill[OF assms(1,2) k])
  have "(B + of_nat (4 * i)) mod 4 = 0" using span_addr(5)[OF assms(2) k] by simp
  then show ?thesis
    using w span_addr(4)[OF assms(2) k] unfolding ustore_def by (simp add: store_word_def with_page_def del: of_nat_mult)
qed

section \<open>Strings of bytes\<close>

lemma with_page_twice [simp]: "with_page (with_page s p f) p g = with_page s p g" "pmem (with_page s p f) p = f"
  by (simp_all add: with_page_def fun_upd_def cong: if_cong)

fun fputs :: "nat \<Rightarrow> u8 list \<Rightarrow> (nat \<Rightarrow> u32) \<Rightarrow> nat \<Rightarrow> u32" where
  "fputs o' [] f = f"
| "fputs o' (b # bs) f = fputs (Suc o') bs (fput o' b f)"

lemma fbyte_fputs: "fbyte (fputs o' bs f) k = (if o' \<le> k \<and> k < o' + length bs then bs ! (k - o') else fbyte f k)"
  by (induction bs arbitrary: o' f) (auto simp: fbyte_fput nth_Cons' not_le)

lemma fputs_append: "fputs o' (as @ bs) f = fputs (o' + length as) bs (fputs o' as f)"
  by (induction as arbitrary: o' f) auto

lemma user_store_bytes:
  "user_page ext c s B p \<Longrightarrow> page_span B \<Longrightarrow> k + length bs \<le> 4096 \<Longrightarrow>
    ustore_bytes (B + of_nat k) bs s = Ret (with_page s p (fputs k bs (pmem s p)))"
proof (induction bs arbitrary: k s)
  case Nil
  then show ?case by (simp add: with_page_self)
next
  case (Cons b bs)
  have n: "B + of_nat k + 1 = B + of_nat (Suc k)" by simp
  have k: "k < 4096" "Suc k + length bs \<le> 4096" using Cons.prems(3) by simp_all
  show ?case
    using Cons.IH[OF user_page_upd(1)[OF Cons.prems(1)] Cons.prems(2) k(2), of "fput k b (pmem s p)"]
    unfolding ustore_bytes.simps user_store_byte[OF Cons.prems(1,2) k(1)] rbind_simps n by simp
qed

end
