(* ===== verification/Debugf.thy ===== *)
theory Debugf
  imports UserPage
begin

text \<open>
  The output of user programs to the console of the kernel: \<^verbatim>\<open>user/lib/debugf.c\<close> on the model of the kernel. The
  characters that \<open>vprintfmt\<close> produces are collected in \<open>ctx.buf\<close>, memory of the program at the address
  \<open>ctx\<close>, which the system call \<open>syscall_print_cons\<close> reads. \<open>ctx.pos\<close> is passed from call to call. Once a call has failed
  (a page fault that cannot be served, a panic), the program does not go on: the data of the sink is a result.
\<close>

section \<open>debugf.c\<close>

definition BUF_LEN :: nat where "BUF_LEN = 1024"

definition debug_flush :: "u32 \<Rightarrow> nat \<Rightarrow> kern \<Rightarrow> (nat \<times> kern) res" where
  "debug_flush ctx pos k =
     (if pos = 0 then Ret (pos, k)
      else rbind (ucall (sys_print_cons ctx (of_nat pos) k)) (\<lambda>(r, k).
        if r \<noteq> 0 then Panic ''syscall_print_cons: %d'' else Ret (0, k)))"

lemma debug_flush_pos: "debug_flush ctx pos k = Ret (pos', k') \<Longrightarrow> pos' = 0"
  by (auto simp: debug_flush_def res_simps split: if_splits res.splits prod.splits)

text \<open>With \<open>pos\<close> above \<open>BUF_LEN\<close> the size of the copy would wrap around; this never happens.\<close>

function debug_output :: "u32 \<Rightarrow> nat \<Rightarrow> string \<Rightarrow> kern \<Rightarrow> (nat \<times> kern) res" where
  "debug_output ctx pos s k =
     (if BUF_LEN < pos then Fault ''outside of buf''
      else if BUF_LEN < pos + length s
      then let n = BUF_LEN - pos
        in rbind (ustore_bytes (ctx + of_nat pos) (bytes_of (take n s)) k) (\<lambda>k.
           case debug_flush ctx BUF_LEN k of
             Ret (pos, k) \<Rightarrow> debug_output ctx pos (drop n s) k | Panic e \<Rightarrow> Panic e | Fault e \<Rightarrow> Fault e)
      else rbind (ustore_bytes (ctx + of_nat pos) (bytes_of s) k) (\<lambda>k. Ret (pos + length s, k)))"
  by pat_completeness auto

termination
proof (relation "measure (\<lambda>(ctx, pos, s, k). 2 * length s + (if pos = 0 then 0 else 1))", goal_cases)
  case (2 ctx pos s k n k1)
  then show ?case by (auto dest!: debug_flush_pos simp: BUF_LEN_def)
qed simp

declare debug_output.simps [simp del]

definition vdebugf :: "u32 \<Rightarrow> (nat \<Rightarrow> char) \<Rightarrow> string \<Rightarrow> va list \<Rightarrow> kern \<Rightarrow> kern res" where
  "vdebugf ctx stk fmt ap k =
     rbind (vprintfmt stk (\<lambda>d s. rbind d (\<lambda>(pos, k). debug_output ctx pos s k)) (Ret (0, k)) fmt ap) (\<lambda>d.
     rbind d (\<lambda>(pos, k). rbind (debug_flush ctx pos k) (\<lambda>(_, k). Ret k)))"

definition debugf :: "u32 \<Rightarrow> (nat \<Rightarrow> char) \<Rightarrow> string \<Rightarrow> va list \<Rightarrow> kern \<Rightarrow> kern res" where
  "debugf ctx stk fmt ap k = vdebugf ctx stk fmt ap k"

text \<open>The output of \<open>_user_panic\<close> and \<open>_user_halt\<close>, up to the call of \<open>exit\<close> and of \<open>syscall_panic\<close>.\<close>

definition report :: "string \<Rightarrow> u32 \<Rightarrow> (nat \<Rightarrow> char) \<Rightarrow> string \<Rightarrow> u32 \<Rightarrow> string \<Rightarrow> va list \<Rightarrow> kern \<Rightarrow> kern res" where
  "report what ctx stk fl line fmt ap k =
     rbind (debugf ctx stk (what @ '' at %s:%d: '') [AStr fl, AInt line] k) (\<lambda>k.
     rbind (vdebugf ctx stk fmt ap k) (debugf ctx stk [CHR 0x0A] []))"

definition user_halt :: "u32 \<Rightarrow> (nat \<Rightarrow> char) \<Rightarrow> string \<Rightarrow> u32 \<Rightarrow> string \<Rightarrow> va list \<Rightarrow> u32 \<Rightarrow> kern \<Rightarrow> sysret" where
  "user_halt ctx stk fl line fmt ap msg k = rbind (report ''halt'' ctx stk fl line fmt ap k) (sys_panic msg)"

section \<open>The formatter on related sinks\<close>

text \<open>Two sinks that keep a relation between their data: the formatter keeps it too, and fails alike.\<close>

definition sinks_agree :: "('d \<Rightarrow> 'e \<Rightarrow> bool) \<Rightarrow> 'd sink \<Rightarrow> 'e sink \<Rightarrow> bool" where
  "sinks_agree R out out' \<longleftrightarrow> (\<forall>d e s. R d e \<longrightarrow> R (out d s) (out' e s))"

lemma out_times_agree: "sinks_agree R out out' \<Longrightarrow> R d e \<Longrightarrow> R (out_times out s n d) (out_times out' s n e)"
  by (induction n arbitrary: d e) (auto simp: sinks_agree_def)

lemma print_char_agree: "sinks_agree R out out' \<Longrightarrow> R d e \<Longrightarrow> R (print_char out d c n l) (print_char out' e c n l)"
  using out_times_agree[of R out out'] unfolding print_char_def Let_def sinks_agree_def by auto

lemma print_str_agree: "sinks_agree R out out' \<Longrightarrow> R d e \<Longrightarrow> R (print_str out d s n l) (print_str out' e s n l)"
  using out_times_agree[of R out out'] unfolding print_str_def Let_def sinks_agree_def by auto

fun res_agree :: "('d \<Rightarrow> 'e \<Rightarrow> bool) \<Rightarrow> 'd res \<Rightarrow> 'e res \<Rightarrow> bool" where
  "res_agree R (Ret d) (Ret e) = R d e"
| "res_agree R (Panic m) (Panic m') = (m = m')"
| "res_agree R (Fault m) (Fault m') = (m = m')"
| "res_agree R _ _ = False"

lemma res_agree_bind:
  "(\<And>x. R (f x) (g x)) \<Longrightarrow> res_agree R (rbind r (\<lambda>x. Ret (f x))) (rbind r (\<lambda>x. Ret (g x)))"
  by (cases r) auto

lemma print_conv_agree:
  assumes a: "sinks_agree R out out'" and d: "R d e"
  shows "res_agree (\<lambda>x y. R (fst x) (fst y) \<and> snd x = snd y) (print_conv stk out d c wid ladjust padc ap) (print_conv stk out' e c wid ladjust padc ap)"
proof -
  have o': "R (out d s) (out' e s)" for s using a d by (simp add: sinks_agree_def)
  note ag = print_char_agree[OF a d] print_str_agree[OF a d] o'
  show ?thesis
    by (cases ap rule: va_int.cases; cases ap rule: va_str.cases) (simp_all add: print_conv_def print_num_eq Let_def ag)
qed

lemma vprintfmt_agree:
  "sinks_agree R out out' \<Longrightarrow> R d e \<Longrightarrow> res_agree R (vprintfmt stk out d fmt ap) (vprintfmt stk out' e fmt ap)"
proof (induction "length fmt" arbitrary: d e fmt ap rule: less_induct)
  case less
  let ?lit = "takeWhile (\<lambda>c. c \<noteq> CHR ''%'') fmt"
  have o': "R (out d ?lit) (out' e ?lit)" using less.prems by (simp add: sinks_agree_def)
  show ?case
  proof (cases "dropWhile (\<lambda>c. c \<noteq> CHR ''%'') fmt")
    case Nil
    show ?thesis unfolding vprintfmt.simps[of _ _ _ fmt] Let_def Nil using o' by simp
  next
    case (Cons pc fmt1)
    note dr = Cons and l1 = dropWhile_Cons_len[OF Cons]
    show ?thesis
    proof (cases "get_spec fmt1")
      case (Ret y)
      obtain la pad w fmt2 where y: "y = ((la, pad, w), fmt2)" by (metis prod.exhaust)
      note l2 = get_spec_len[OF Ret[unfolded y]]
      show ?thesis
      proof (cases fmt2)
        case Nil
        have "res_agree R (vprintfmt stk out (out d ?lit) [] ap) (vprintfmt stk out' (out' e ?lit) [] ap)"
          using less.hyps[of "[]" "out d ?lit" "out' e ?lit" ap] less.prems(1) o' l1 by fastforce
        then show ?thesis using Cons Ret y Nil by (simp add: vprintfmt.simps[of _ _ _ fmt] Let_def)
      next
        case (Cons c fmt3)
        have l3: "length fmt3 < length fmt" using l1 l2 Cons by simp
        have pc: "res_agree (\<lambda>x y. R (fst x) (fst y) \<and> snd x = snd y) (print_conv stk out (out d ?lit) c w la pad ap)
            (print_conv stk out' (out' e ?lit) c w la pad ap)" using print_conv_agree[where R = R, OF less.prems(1) o'] by simp
        have IH: "res_agree R (vprintfmt stk out d' fmt3 ap') (vprintfmt stk out' e' fmt3 ap')" if "R d' e'" for d' e' ap'
          by (rule less.hyps[OF l3 less.prems(1) that])
        note step = vprintfmt.simps[of _ _ _ fmt] Let_def dr Ret y Cons
        show ?thesis
        proof (cases "print_conv stk out (out d ?lit) c w la pad ap")
          case r: (Ret x)
          with pc obtain z where z: "print_conv stk out' (out' e ?lit) c w la pad ap = Ret z" "R (fst x) (fst z)" "snd x = snd z"
            by (cases "print_conv stk out' (out' e ?lit) c w la pad ap") auto
          show ?thesis using IH[OF z(2), of "snd z"] z(3) by (simp add: step r z(1) case_prod_beta)
        next
          case r: (Panic m)
          with pc have "print_conv stk out' (out' e ?lit) c w la pad ap = Panic m"
            by (cases "print_conv stk out' (out' e ?lit) c w la pad ap") auto
          then show ?thesis by (simp add: step r)
        next
          case r: (Fault m)
          with pc have "print_conv stk out' (out' e ?lit) c w la pad ap = Fault m"
            by (cases "print_conv stk out' (out' e ?lit) c w la pad ap") auto
          then show ?thesis by (simp add: step r)
        qed
      qed
    qed (use Cons in \<open>simp_all add: vprintfmt.simps[of _ _ _ fmt] Let_def\<close>)
  qed
qed

section \<open>Output on the model of the kernel\<close>

definition text_at :: "(nat \<Rightarrow> u32) \<Rightarrow> nat \<Rightarrow> nat \<Rightarrow> string" where
  "text_at f a n = map (\<lambda>j. char_of (unat (fbyte f (a + j)))) [0..<n]"

lemma text_at_add: "text_at f a (m + n) = text_at f a m @ text_at f (a + m) n"
  by (rule nth_equalityI) (auto simp: text_at_def nth_append)

lemma char_byte: "char_of (unat (of_nat (of_char c) :: u8)) = c"
  by (simp add: unat_of_nat of_char_mod_256)

lemma text_fputs: "text_at (fputs a (bytes_of t) f) a (length t) = t"
  by (rule nth_equalityI) (simp_all add: text_at_def fbyte_fputs bytes_of_def char_byte)

lemma text_cong: "\<forall>j < n. fbyte g (a + j) = fbyte f (a + j) \<Longrightarrow> text_at g a n = text_at f a n"
  by (simp add: text_at_def)

lemma user_page_console: "user_page ext c k B p \<Longrightarrow> user_page ext c (k\<lparr>console := x\<rparr>) B p"
proof -
  assume u: "user_page ext c k B p"
  let ?k = "k\<lparr>console := x\<rparr>"
  have "live ?k = live k" "dir_of ?k = dir_of k" "asid_set ?k = asid_set k" by (simp_all add: live_def dir_of_def asid_set_def fun_eq_iff)
  moreover have "pm_inv ext D ?k = pm_inv ext D k" for D by (auto elim: pm_inv_same)
  moreover have "aspace ?k d = aspace k d" for d by (rule aspace_cong[of "{d}"]) simp_all
  ultimately show ?thesis using u by (simp add: user_page_def kern_inv_def freeq_def runq_def asid_ok_def)
qed

lemma print_user_ok:
  "user_page ext c k B p \<Longrightarrow> page_span B \<Longrightarrow> a + n \<le> 4096 \<Longrightarrow>
    print_user (B + of_nat a) n k = Ret (k\<lparr>console := console k @ text_at (pmem k p) a n\<rparr>)"
proof (induction n arbitrary: a k)
  case 0
  then show ?case by (simp add: text_at_def)
next
  case (Suc n)
  have nx: "B + of_nat a + 1 = B + of_nat (Suc a)" by simp
  have a: "a < 4096" "Suc a + n \<le> 4096" using Suc.prems(3) by simp_all
  let ?b = "char_of (unat (fbyte (pmem k p) a)) :: char"
  have t: "text_at f a (Suc n) = char_of (unat (fbyte f a)) # text_at f (Suc a) n" for f
    using text_at_add[of f a 1 n] by (simp add: text_at_def)
  show ?case
    using Suc.IH[OF user_page_console[OF Suc.prems(1)] Suc.prems(2) a(2), of "console k @ [?b]"]
    unfolding print_user.simps user_load_byte[OF Suc.prems(1,2) a(1)] rbind_simps prod.case nx printcharc_def by (simp add: t)
qed

lemma print_cons_ok:
  assumes "user_page ext c k B p" "page_span B" "a + n \<le> 4096" "0 < n"
  shows "sys_print_cons (B + of_nat a) (of_nat n) k = Ret (Back 0, k\<lparr>console := console k @ text_at (pmem k p) a n\<rparr>)"
proof -
  have s: "unat B + 4096 \<le> unat UTOP" "unat UTOP < 2 ^ 31" using assms(2) by (auto simp: page_span_def mmu_defs)
  have n: "unat (of_nat n :: u32) = n" using assms(3) by (simp add: unat_of_nat)
  have u: "unat (B + of_nat a) = unat B + a" "unat (B + of_nat a + of_nat n) = unat B + a + n"
    using s assms(3) by (simp_all add: unat_word_ariths unat_of_nat)
  have "\<not> (B + of_nat a + of_nat n > UTOP \<or> B + of_nat a \<ge> UTOP \<or> B + of_nat a > B + of_nat a + of_nat n)"
    using s assms(3,4) unfolding word_less_nat_alt word_le_nat_alt u by auto
  then show ?thesis by (simp add: sys_print_cons_def n print_user_ok[OF assms(1-3)])
qed

text \<open>The states of a program that prints: the page \<open>p\<close> and the output are not as in \<open>k\<close>.\<close>

definition printing :: "kern \<Rightarrow> nat \<Rightarrow> (nat \<Rightarrow> u32) \<Rightarrow> string \<Rightarrow> kern" where
  "printing k p f t = (with_page k p f)\<lparr>console := console k @ t\<rparr>"

lemma printing_start: "printing k p (pmem k p) [] = k"
  by (simp add: printing_def with_page_def)

lemma printing_simps [simp]:
  "pmem (printing k p f t) p = f" "with_page (printing k p f t) p g = printing k p g t"
  "(printing k p f t)\<lparr>console := console (printing k p f t) @ u\<rparr> = printing k p f (t @ u)"
  by (simp_all add: printing_def with_page_def)

lemma printing_page: "user_page ext c k B p \<Longrightarrow> user_page ext c (printing k p f t) B p"
  unfolding printing_def by (intro user_page_console user_page_upd(1))

text \<open>Only the bytes of the buffer at \<open>a\<close> change.\<close>

definition buf_frame :: "nat \<Rightarrow> (nat \<Rightarrow> u32) \<Rightarrow> (nat \<Rightarrow> u32) \<Rightarrow> bool" where
  "buf_frame a f g \<longleftrightarrow> (\<forall>j. j < a \<or> a + BUF_LEN \<le> j \<longrightarrow> fbyte g j = fbyte f j)"

lemma buf_frame_trans: "buf_frame a f g \<Longrightarrow> buf_frame a g h \<Longrightarrow> buf_frame a f h"
  by (simp add: buf_frame_def)

lemma buf_frame_fputs: "pos + length t \<le> BUF_LEN \<Longrightarrow> buf_frame a f (fputs (a + pos) (bytes_of t) f)"
  by (simp add: buf_frame_def fbyte_fputs bytes_of_def)

lemma text_store: "text_at (fputs (a + pos) (bytes_of t) f) a (pos + length t) = text_at f a pos @ t"
  unfolding text_at_add text_fputs by (simp add: text_cong fbyte_fputs)

lemma flush_ok:
  assumes "user_page ext c k B p" "page_span B" "a + pos \<le> 4096"
  shows "debug_flush (B + of_nat a) pos (printing k p f u) = Ret (0, printing k p f (u @ text_at f a pos))"
  using print_cons_ok[OF printing_page[OF assms(1)] assms(2,3), of f u]
  by (cases "pos = 0") (auto simp: debug_flush_def ucall_def text_at_def)

lemma output_ok:
  assumes k: "user_page ext c k B p" "page_span B" "a + BUF_LEN \<le> 4096"
  shows "pos \<le> BUF_LEN \<Longrightarrow> \<exists>pos' g u'. debug_output (B + of_nat a) pos s (printing k p f u) = Ret (pos', printing k p g u') \<and>
    pos' \<le> BUF_LEN \<and> u' @ text_at g a pos' = u @ text_at f a pos @ s \<and> buf_frame a f g"
proof (induction "2 * length s + (if pos = 0 then 0 else 1)" arbitrary: pos s f u rule: less_induct)
  case less
  have ctx: "B + of_nat a + of_nat pos = B + of_nat (a + pos)" by simp
  show ?case
  proof (cases "BUF_LEN < pos + length s")
    case False
    then have l: "a + pos + length (bytes_of s) \<le> 4096" "pos + length s \<le> BUF_LEN" using k(3) by (simp_all add: bytes_of_def)
    have "debug_output (B + of_nat a) pos s (printing k p f u) = Ret (pos + length s, printing k p (fputs (a + pos) (bytes_of s) f) u)"
      using False less.prems user_store_bytes[OF printing_page[OF k(1)] k(2) l(1), of f u]
      by (subst debug_output.simps) (simp add: ctx del: of_nat_add)
    then show ?thesis using l(2) buf_frame_fputs[OF l(2)] text_store[of a pos s f] by auto
  next
    case True
    let ?n = "BUF_LEN - pos"
    let ?g = "fputs (a + pos) (bytes_of (take ?n s)) f"
    have n: "length (take ?n s) = ?n" "pos + ?n = BUF_LEN" using True less.prems by simp_all
    then have l: "a + pos + length (bytes_of (take ?n s)) \<le> 4096" using k(3) by (simp add: bytes_of_def)
    have t: "text_at ?g a BUF_LEN = text_at f a pos @ take ?n s" using text_store[of a pos "take ?n s" f] n by simp
    have step: "debug_output (B + of_nat a) pos s (printing k p f u) = debug_output (B + of_nat a) 0 (drop ?n s) (printing k p ?g (u @ text_at ?g a BUF_LEN))"
      using True less.prems flush_ok[OF k, of ?g u] user_store_bytes[OF printing_page[OF k(1)] k(2) l, of f u]
      by (subst debug_output.simps) (simp add: Let_def ctx del: of_nat_add)
    have fr: "buf_frame a f ?g" by (rule buf_frame_fputs) (use n in simp)
    have "2 * length (drop ?n s) + (if (0 :: nat) = 0 then 0 else 1) < 2 * length s + (if pos = 0 then 0 else 1)"
      using True less.prems by (auto simp: BUF_LEN_def)
    from less.hyps[OF this, of ?g "u @ text_at ?g a BUF_LEN"] obtain pos' g u'
      where h: "debug_output (B + of_nat a) 0 (drop ?n s) (printing k p ?g (u @ text_at ?g a BUF_LEN)) = Ret (pos', printing k p g u')"
        "pos' \<le> BUF_LEN" "u' @ text_at g a pos' = (u @ text_at ?g a BUF_LEN) @ text_at ?g a 0 @ drop ?n s" "buf_frame a ?g g"
      by blast
    moreover have "(u @ text_at ?g a BUF_LEN) @ text_at ?g a 0 @ drop ?n s = u @ text_at f a pos @ s"
      unfolding t by (simp add: text_at_def)
    ultimately show ?thesis using buf_frame_trans[OF fr h(4)] step by auto
  qed
qed

lemma vdebugf_ok:
  assumes k: "user_page ext c k B p" "page_span B" "a + BUF_LEN \<le> 4096"
  shows "case vprintfmt stk (@) [] fmt ap of
      Ret t \<Rightarrow> \<exists>g. vdebugf (B + of_nat a) stk fmt ap (printing k p f u) = Ret (printing k p g (u @ t)) \<and> buf_frame a f g
    | Panic e \<Rightarrow> vdebugf (B + of_nat a) stk fmt ap (printing k p f u) = Panic e
    | Fault e \<Rightarrow> vdebugf (B + of_nat a) stk fmt ap (printing k p f u) = Fault e"
proof -
  let ?out = "\<lambda>d s. rbind d (\<lambda>(pos, k). debug_output (B + of_nat a) pos s k)"
  define R where "R = (\<lambda>d t. \<exists>pos g v. d = Ret (pos, printing k p g v) \<and> pos \<le> BUF_LEN \<and> v @ text_at g a pos = u @ t \<and> buf_frame a f g)"
  have "sinks_agree R ?out (@)" unfolding sinks_agree_def
  proof (intro allI impI)
    fix d t s assume "R d t"
    then obtain pos g v where d: "d = Ret (pos, printing k p g v)" "pos \<le> BUF_LEN" "v @ text_at g a pos = u @ t" "buf_frame a f g"
      by (auto simp: R_def)
    from output_ok[OF k d(2), of s g v] obtain pos' h v' where "debug_output (B + of_nat a) pos s (printing k p g v) = Ret (pos', printing k p h v')"
      "pos' \<le> BUF_LEN" "v' @ text_at h a pos' = v @ text_at g a pos @ s" "buf_frame a g h" by blast
    then show "R (?out d s) (t @ s)" using d(1,3) buf_frame_trans[OF d(4)] by (auto simp: R_def simp flip: append_assoc)
  qed
  moreover have "R (Ret (0, printing k p f u)) []" by (auto simp: R_def text_at_def buf_frame_def)
  ultimately have "res_agree R (vprintfmt stk ?out (Ret (0, printing k p f u)) fmt ap) (vprintfmt stk (@) [] fmt ap)"
    by (rule vprintfmt_agree)
  then show ?thesis unfolding vdebugf_def R_def
    using flush_ok[OF k(1,2)] k(3)
    by (cases "vprintfmt stk ?out (Ret (0, printing k p f u)) fmt ap"; cases "vprintfmt stk (@) [] fmt ap") fastforce+
qed

section \<open>What is printed\<close>

lemma vprintfmt_lit:
  assumes "CHR ''%'' \<notin> set lit"
  shows "vprintfmt stk out d lit ap = Ret (out d lit)"
    "vprintfmt stk out d (lit @ ''%s'' @ rest) (AStr t # ap) = vprintfmt stk out (out (out d lit) t) rest ap"
proof -
  have tw: "takeWhile (\<lambda>c. c \<noteq> CHR ''%'') (lit @ ''%s'' @ rest) = lit"
    "dropWhile (\<lambda>c. c \<noteq> CHR ''%'') (lit @ ''%s'' @ rest) = ''%s'' @ rest"
    using assms by (subst takeWhile_append2 dropWhile_append2; auto)+
  have gs: "get_spec (CHR ''s'' # rest) = Ret ((False, CHR '' '', 0), CHR ''s'' # rest)"
    by (simp add: get_spec_def skip_flag_def)
  show "vprintfmt stk out d (lit @ ''%s'' @ rest) (AStr t # ap) = vprintfmt stk out (out (out d lit) t) rest ap"
    unfolding vprintfmt.simps[of stk out d "lit @ ''%s'' @ rest"] tw Let_def
    by (simp add: gs print_conv_def print_str_def Let_def)
  have "takeWhile (\<lambda>c. c \<noteq> CHR ''%'') lit = lit" "dropWhile (\<lambda>c. c \<noteq> CHR ''%'') lit = []" using assms by auto
  then show "vprintfmt stk out d lit ap = Ret (out d lit)" unfolding vprintfmt.simps[of stk out d lit] by (simp only: Let_def list.case)
qed

text \<open>
  C36. A program that calls \<open>debugf\<close>, with its buffer of 1024 bytes in a page that it may write: the console receives, after what
  was there, exactly the text that the format and the arguments mean, however long it is and wherever
  the buffer is flushed; of the memory of all environments only bytes of the buffer change, no mapping changes, and the kernel invariant
  is kept. When the arguments do not match the format, \<open>debugf\<close> fails as the formatter does.
\<close>

theorem debugf_prints:
  assumes "user_page ext c k B p" "page_span B" "a + BUF_LEN \<le> 4096"
  shows "case vprintfmt stk (@) [] fmt ap of
      Ret t \<Rightarrow> \<exists>f. debugf (B + of_nat a) stk fmt ap k = Ret (k\<lparr>pmem := (pmem k)(p := f), console := console k @ t\<rparr>) \<and>
        kern_inv ext (k\<lparr>pmem := (pmem k)(p := f), console := console k @ t\<rparr>) \<and>
        (\<forall>d \<in> dirs k. aspace (k\<lparr>pmem := (pmem k)(p := f), console := console k @ t\<rparr>) d = aspace k d) \<and>
        (\<forall>j. j < a \<or> a + BUF_LEN \<le> j \<longrightarrow> fbyte f j = fbyte (pmem k p) j)
    | Panic e \<Rightarrow> debugf (B + of_nat a) stk fmt ap k = Panic e
    | Fault e \<Rightarrow> debugf (B + of_nat a) stk fmt ap k = Fault e"
proof -
  have st: "printing k p f t = k\<lparr>pmem := (pmem k)(p := f), console := console k @ t\<rparr>" for f t
    by (simp add: printing_def with_page_def)
  have "aspace (printing k p f t) d = aspace (with_page k p f) d" for f t d
    unfolding printing_def by (rule aspace_cong[of "{d}"]) simp_all
  then have A: "\<forall>d \<in> dirs k. aspace (printing k p f t) d = aspace k d" for f t using user_page_upd(3)[OF assms(1), of f] by simp
  have I: "kern_inv ext (printing k p f t)" for f t using printing_page[OF assms(1), of f t] by (simp add: user_page_def)
  show ?thesis
    using vdebugf_ok[OF assms, of stk fmt ap "pmem k p" "[]"] A I unfolding debugf_def printing_start st[symmetric] buf_frame_def
    by (cases "vprintfmt stk (@) [] fmt ap") auto
qed

lemma user_kern_page: "user_page (\<lambda>_. 0) 0 (user_kern 0x4201) 0x7f3ff000 8" "page_span 0x7f3ff000"
proof -
  have w: "pte_valid 0x4201" "unat (PPN 0x4201) = 4" by (simp_all add: pte_valid_def mmu_defs)
  have "vidx 0x7f3ff000 = (508, 1023)" by (simp add: vidx_def unat_PDX unat_PTX)
  then have "aspace (user_kern 0x4201) 0 (vidx 0x7f3ff000) = Some 0x8600" using user_kern_aspace[OF w(1)] by simp
  moreover have "unat (PPN 0x8600) = 8" "(0x8600 :: u32) AND PTE_D \<noteq> 0" by (simp_all add: mmu_defs)
  ultimately show "user_page (\<lambda>_. 0) 0 (user_kern 0x4201) 0x7f3ff000 8"
    using user_kern_inv[OF w] by (simp add: user_page_def user_kern_simps demo_live user_kern_dir0)
  show "page_span 0x7f3ff000" by (simp add: page_span_def mmu_defs)
qed

theorem debugf_prints_witness:
  "\<exists>k'. debugf (0x7f3ff000 + of_nat 100) (\<lambda>_. CHR ''?'') ''<%s>'' [AStr (replicate 3000 CHR ''x'')] (user_kern 0x4201) = Ret k' \<and>
     console k' = ''<'' @ replicate 3000 CHR ''x'' @ ''>''"
proof -
  have t: "vprintfmt (\<lambda>_. CHR ''?'') (@) [] ''<%s>'' [AStr (replicate 3000 CHR ''x'')] = Ret (''<'' @ replicate 3000 CHR ''x'' @ ''>'')"
    using vprintfmt_lit(2)[of "''<''" "\<lambda>_. CHR ''?''" "(@)" "[]" "''>''"] vprintfmt_lit(1)[of "''>''" "\<lambda>_. CHR ''?''" "(@)"] by simp
  have "console (user_kern 0x4201) = []" by (simp add: user_kern_def demo_kern_def)
  then show ?thesis
    using debugf_prints[OF user_kern_page, of 100 "\<lambda>_. CHR ''?''" "''<%s>''" "[AStr (replicate 3000 CHR ''x'')]"]
    unfolding t by (auto simp: BUF_LEN_def)
qed

text \<open>A report of \<open>_user_panic\<close> or \<open>_user_halt\<close> names file and line and ends the line after its text.\<close>

theorem report_prints:
  assumes k: "user_page ext c k B p" "page_span B" "a + BUF_LEN \<le> 4096"
    and fmt: "vprintfmt stk (@) [] fmt ap = Ret t" "CHR ''%'' \<notin> set what"
  shows "\<exists>f. report what (B + of_nat a) stk fl line fmt ap k = Ret (k\<lparr>pmem := (pmem k)(p := f),
    console := console k @ what @ '' at '' @ fl @ '':'' @ num_text (nat \<bar>sint line\<bar>) 10 (sint line < 0) 0 False CHR '' '' False @ '': '' @ t @ [CHR 0x0A]\<rparr>)"
proof -
  let ?n = "num_text (nat \<bar>sint line\<bar>) 10 (sint line < 0) 0 False CHR '' '' False"
  have 1: "vprintfmt stk (@) [] (what @ '' at %s:%d: '') [AStr fl, AInt line] = Ret (what @ '' at '' @ fl @ '':'' @ ?n @ '': '')"
  proof -
    have "what @ '' at %s:%d: '' = (what @ '' at '') @ ''%s'' @ '':%d: ''" by simp
    moreover have "CHR ''%'' \<notin> set (what @ '' at '')" using fmt(2) by simp
    ultimately show ?thesis
      using vprintfmt_lit(2)[of "what @ '' at ''" stk "(@)" "[]" "'':%d: ''" fl "[AInt line]"]
        vprintfmt_decimal_ok[of "'':''" stk "(@)" _ "'': ''" line "[]"] vprintfmt_lit(1)[of "'': ''" stk "(@)"] by simp
  qed
  have 3: "vprintfmt stk (@) [] [CHR 0x0A] [] = Ret [CHR 0x0A]" using vprintfmt_lit(1)[of "[CHR 0x0A]" stk "(@)" "[]" "[]"] by simp
  note v = vdebugf_ok[OF k, of stk]
  obtain f where f: "vdebugf (B + of_nat a) stk (what @ '' at %s:%d: '') [AStr fl, AInt line] k = Ret (printing k p f (what @ '' at '' @ fl @ '':'' @ ?n @ '': ''))"
    using v[of "what @ '' at %s:%d: ''" "[AStr fl, AInt line]" "pmem k p" "[]"] unfolding 1 printing_start by auto
  obtain g where g: "vdebugf (B + of_nat a) stk fmt ap (printing k p f (what @ '' at '' @ fl @ '':'' @ ?n @ '': '')) =
      Ret (printing k p g ((what @ '' at '' @ fl @ '':'' @ ?n @ '': '') @ t))"
    using v[of fmt ap f "what @ '' at '' @ fl @ '':'' @ ?n @ '': ''"] unfolding fmt(1) res.case by blast
  obtain h where h: "vdebugf (B + of_nat a) stk [CHR 0x0A] [] (printing k p g ((what @ '' at '' @ fl @ '':'' @ ?n @ '': '') @ t)) =
      Ret (printing k p h (((what @ '' at '' @ fl @ '':'' @ ?n @ '': '') @ t) @ [CHR 0x0A]))"
    using v[of "[CHR 0x0A]" "[]" g "(what @ '' at '' @ fl @ '':'' @ ?n @ '': '') @ t"] unfolding 3 res.case by blast
  show ?thesis
    unfolding report_def debugf_def f rbind_simps g h by (intro exI[of _ h]) (simp add: printing_def with_page_def)
qed

end
