(* ===== verification/File.thy ===== *)
theory File
  imports Serv Fd Path
begin

text \<open>
  The client side of the file system, \<^verbatim>\<open>user/lib/file.c\<close> and \<^verbatim>\<open>user/lib/fsipc.c\<close>, together with the server
  it calls: an environment of \<open>Fd\<close> with the server \<open>srv\<close> of \<open>Serv\<close>. Files are memory-mapped: the pages of a
  file in the client are the pages of the block cache. \<open>holds p\<close> says what the physical page \<open>p\<close> holds, a
  block of the cache, a \<open>struct Filefd\<close> of the server, or memory \<open>umem\<close> of the client; \<open>blk_page\<close> and
  \<open>ff_page\<close> are the pages of blocks and of slots (no operation of the server moves a block that is mapped).
  \<open>filefds\<close> are the fields of \<open>struct Filefd\<close> behind its \<open>struct Fd\<close>; the server writes them only when it
  opens the file. \<open>cwd\<close> is the result of \<open>getcwd\<close>. A call of the server is one round of its loop. The kernel's
  answer when the reply is mapped comes from \<open>map_ok\<close>; when it is out of memory \<open>ipc_send\<close> of the server
  panics.
\<close>

section \<open>State\<close>

datatype held = Blk nat | Ff nat | Own

record file_fd =
  f_fileid :: u32
  f_file :: "nat \<Rightarrow> u32"

record cst = ust +
  srv :: srv
  holds :: "nat \<Rightarrow> held"
  blk_page :: "nat \<Rightarrow> nat"
  ff_page :: "nat \<Rightarrow> nat"
  srv_grants :: "int list"
  umem :: "nat \<Rightarrow> nat \<Rightarrow> u8"
  filefds :: "nat \<Rightarrow> file_fd"
  me :: u32
  cwd :: "int \<times> u8 list"

definition MAXPATHLEN :: nat where [simp]: "MAXPATHLEN = 1024"
definition MAXFILESIZE :: u32 where "MAXFILESIZE = 0x400000"
definition O_APPEND :: u32 where "O_APPEND = 4"

section \<open>Memory of the client\<close>

definition page_byte :: "nat \<Rightarrow> nat \<Rightarrow> cst \<Rightarrow> u8" where
  "page_byte p k s = (case holds s p of Blk b \<Rightarrow> word_byte (cache (fs (srv s)) b (k div 4)) (k mod 4) | _ \<Rightarrow> umem s p k)"

definition set_page_byte :: "nat \<Rightarrow> nat \<Rightarrow> u8 \<Rightarrow> cst \<Rightarrow> cst" where
  "set_page_byte p k v s = (case holds s p of
     Blk b \<Rightarrow> (let c = cache (fs (srv s)); w = set_word_byte (k mod 4) v (c b (k div 4))
       in s\<lparr>srv := (srv s)\<lparr>fs := (fs (srv s))\<lparr>cache := c(b := (c b)(k div 4 := w))\<rparr>\<rparr>\<rparr>)
   | _ \<Rightarrow> s\<lparr>umem := (umem s)(p := (umem s p)(k := v))\<rparr>)"

definition ubyte :: "u32 \<Rightarrow> cst \<Rightarrow> u8 res" where
  "ubyte va s = (case vpt s (VPN va) of None \<Rightarrow> Fault ''page fault'' | Some (p, _) \<Rightarrow> Ret (page_byte p (unat (va AND 0xFFF)) s))"

definition set_ubyte :: "u32 \<Rightarrow> u8 \<Rightarrow> cst \<Rightarrow> cst res" where
  "set_ubyte va v s = (case vpt s (VPN va) of None \<Rightarrow> Fault ''page fault''
     | Some (p, perm) \<Rightarrow> if perm AND PTE_D = 0 then Fault ''read-only page'' else Ret (set_page_byte p (unat (va AND 0xFFF)) v s))"

text \<open>\<open>memcpy\<close> from and to the mapped file; the other side of the copy is an argument or a result.\<close>

fun uread :: "nat \<Rightarrow> u32 \<Rightarrow> cst \<Rightarrow> u8 list res" where
  "uread 0 va s = Ret []"
| "uread (Suc n) va s = rbind (ubyte va s) (\<lambda>b. rbind (uread n (va + 1) s) (\<lambda>bs. Ret (b # bs)))"

fun uwrite :: "u32 \<Rightarrow> u8 list \<Rightarrow> cst \<Rightarrow> cst res" where
  "uwrite va [] s = Ret s"
| "uwrite va (b # bs) s = rbind (set_ubyte va b s) (uwrite (va + 1) bs)"

definition get_ffd :: "u32 \<Rightarrow> cst \<Rightarrow> file_fd res" where
  "get_ffd va s = (case vpt s (VPN va) of None \<Rightarrow> Fault ''page fault'' | Some (p, _) \<Rightarrow> Ret (filefds s p))"

definition set_ffd :: "u32 \<Rightarrow> file_fd \<Rightarrow> cst \<Rightarrow> cst res" where
  "set_ffd va f s = (case vpt s (VPN va) of None \<Rightarrow> Fault ''page fault'' | Some (p, _) \<Rightarrow> Ret (s\<lparr>filefds := (filefds s)(p := f)\<rparr>))"

definition file_size :: "file_fd \<Rightarrow> u32" where "file_size f = f_file f 32"

section \<open>Requests, \<^verbatim>\<open>fsipc.c\<close>\<close>

text \<open>The reply arrives: its page, if any, is mapped at \<open>dstva\<close>.\<close>

definition receive :: "reply \<Rightarrow> u32 \<Rightarrow> cst \<Rightarrow> cst res" where
  "receive rep dstva s = (let mapped_at = (\<lambda>p s. case map_ok s of [] \<Rightarrow> Panic ''ipc_send: assertion failed: r == 0''
       | ok # oks \<Rightarrow> if ok then Ret (map_page dstva p (PTE_D OR PTE_LIBRARY) (s\<lparr>map_ok := oks\<rparr>))
           else Panic ''ipc_send: assertion failed: r == 0'')
     in case rp_page rep of
       NoPage \<Rightarrow> Ret s
     | BlkPage b \<Rightarrow> mapped_at (blk_page s b) s
     | FfPage i \<Rightarrow> (let p = ff_page s i; ff = ffs (srv s) i
         in mapped_at p (s\<lparr>fds := (fds s)(p := \<lparr>fd_dev_id = ff_dev_id ff, fd_offset = 0, fd_omode = ff_omode ff\<rparr>),
              filefds := (filefds s)(p := \<lparr>f_fileid = ff_fileid ff, f_file = ff_file ff\<rparr>)\<rparr>)))"

text \<open>The reference counts of the slots' pages are shared: the server sees those of the client's state, and
  the reference that the message adds is the one of the client's mapping.\<close>

definition server_view :: "cst \<Rightarrow> srv" where
  "server_view s = (srv s)\<lparr>refs := \<lambda>i. pp_ref s (ff_page s i)\<rparr>"

definition take_refs :: "srv \<Rightarrow> page \<Rightarrow> cst \<Rightarrow> cst" where
  "take_refs sv pg s = s\<lparr>srv := sv, pp_ref := \<lambda>p. case holds s p of Ff i \<Rightarrow> (if pg = FfPage i then refs sv i - 1 else refs sv i)
     | _ \<Rightarrow> pp_ref s p\<rparr>"

definition fsipc :: "u32 \<Rightarrow> fsreq \<Rightarrow> u32 \<Rightarrow> cst \<Rightarrow> ((int \<times> u32) \<times> cst) res" where
  "fsipc ty rq dstva s =
     (let sv = server_view s;
          grant = (case srv_grants s of [] \<Rightarrow> - E_NO_MEM | g # _ \<Rightarrow> g);
          s = (if ty = FSREQ_OPEN then s\<lparr>srv_grants := tl (srv_grants s)\<rparr> else s)
      in rbind (serve_round grant ty (me s) (PTE_D OR PTE_V) rq sv) (\<lambda>sv'.
         case drop (length (sent sv)) (sent sv') of
           [rep] \<Rightarrow> rbind (receive rep dstva (take_refs sv' (rp_page rep) s)) (\<lambda>s.
             Ret ((rp_val rep, if rp_page rep = NoPage then PTE_V else PTE_V OR (PTE_D OR PTE_LIBRARY)), s))
         | [] \<Rightarrow> Fault ''no answer''
         | _ \<Rightarrow> Fault ''the server waits with a second answer''))"

definition no_req :: fsreq where
  "no_req = \<lparr>req_path = [], req_omode = 0, req_fileid = 0, req_offset = 0, req_size = 0, req_type = 0\<rparr>"

definition fsipc_open :: "u8 list \<Rightarrow> u32 \<Rightarrow> u32 \<Rightarrow> cst \<Rightarrow> (int \<times> cst) res" where
  "fsipc_open path omode fd s =
     (if MAXPATHLEN \<le> length path then Ret (- E_BAD_PATH, s)
      else rbind (fsipc FSREQ_OPEN (no_req\<lparr>req_path := path, req_omode := omode\<rparr>) fd s) (\<lambda>((r, _), s). Ret (r, s)))"

text \<open>A path that does not fit runs into \<open>f_type\<close> and is not ended for the server.\<close>

definition fsipc_create :: "u8 list \<Rightarrow> u32 \<Rightarrow> cst \<Rightarrow> (int \<times> cst) res" where
  "fsipc_create path ty s =
     (if MAXPATHLEN \<le> length path then Fault ''req_path overflows''
      else rbind (fsipc FSREQ_CREATE (no_req\<lparr>req_path := path, req_type := ty\<rparr>) 0 s) (\<lambda>((r, _), s). Ret (r, s)))"

definition fsipc_map :: "u32 \<Rightarrow> u32 \<Rightarrow> u32 \<Rightarrow> cst \<Rightarrow> (int \<times> cst) res" where
  "fsipc_map fileid offset dstva s =
     rbind (fsipc FSREQ_MAP (no_req\<lparr>req_fileid := fileid, req_offset := offset\<rparr>) dstva s) (\<lambda>((r, perm), s).
     if r < 0 then Ret (r, s)
     else if perm AND NOT (PTE_D OR PTE_LIBRARY) \<noteq> PTE_V then Panic ''fsipc_map: unexpected permissions''
     else Ret (0, s))"

definition fsipc_set_size :: "u32 \<Rightarrow> u32 \<Rightarrow> cst \<Rightarrow> (int \<times> cst) res" where
  "fsipc_set_size fileid sz s =
     rbind (fsipc FSREQ_SET_SIZE (no_req\<lparr>req_fileid := fileid, req_size := sz\<rparr>) 0 s) (\<lambda>((r, _), s). Ret (r, s))"

definition fsipc_close :: "u32 \<Rightarrow> cst \<Rightarrow> (int \<times> cst) res" where
  "fsipc_close fileid s = rbind (fsipc FSREQ_CLOSE (no_req\<lparr>req_fileid := fileid\<rparr>) 0 s) (\<lambda>((r, _), s). Ret (r, s))"

definition fsipc_dirty :: "u32 \<Rightarrow> u32 \<Rightarrow> cst \<Rightarrow> (int \<times> cst) res" where
  "fsipc_dirty fileid offset s =
     rbind (fsipc FSREQ_DIRTY (no_req\<lparr>req_fileid := fileid, req_offset := offset\<rparr>) 0 s) (\<lambda>((r, _), s). Ret (r, s))"

definition fsipc_remove :: "u8 list \<Rightarrow> cst \<Rightarrow> (int \<times> cst) res" where
  "fsipc_remove path s =
     (if length path = 0 \<or> MAXPATHLEN < length path then Ret (- E_BAD_PATH, s)
      else rbind (fsipc FSREQ_REMOVE (no_req\<lparr>req_path := path\<rparr>) 0 s) (\<lambda>((r, _), s). Ret (r, s)))"

definition fsipc_sync :: "cst \<Rightarrow> (int \<times> cst) res" where
  "fsipc_sync s = rbind (fsipc FSREQ_SYNC no_req 0 s) (\<lambda>((r, _), s). Ret (r, s))"

section \<open>Files\<close>

definition file_read :: "u32 \<Rightarrow> u32 \<Rightarrow> u32 \<Rightarrow> cst \<Rightarrow> ((int \<times> u8 list) \<times> cst) res" where
  "file_read fd n offset s = rbind (get_ffd fd s) (\<lambda>f.
     let sz = file_size f
     in if sz < offset then Ret ((0, []), s)
        else let n = (if sz < offset + n then sz - offset else n)
          in rbind (uread (unat n) (fd2data fd + offset) s) (\<lambda>bs. Ret ((sint n, bs), s)))"

text \<open>The offsets \<open>i\<close> of the loops \<open>for (i = start; i < stop; i += BY2PG)\<close> over pages.\<close>

definition page_offs :: "u32 \<Rightarrow> u32 \<Rightarrow> u32 list" where
  "page_offs start stop = map (\<lambda>k. of_nat (unat start + k * 4096)) [0..<(unat stop - unat start + 4095) div 4096]"

fun map_file_pages :: "u32 list \<Rightarrow> u32 \<Rightarrow> u32 \<Rightarrow> cst \<Rightarrow> (int \<times> cst) res" where
  "map_file_pages [] fileid va s = Ret (0, s)"
| "map_file_pages (i # is) fileid va s = rbind (fsipc_map fileid i (va + i) s) (\<lambda>(r, s).
     if r \<noteq> 0 then Ret (r, s) else map_file_pages is fileid va s)"

text \<open>The loop of append mode; \<open>size + 1\<close> rounds are enough, since the last of them reads at the end.\<close>

fun append_loop :: "nat \<Rightarrow> u32 \<Rightarrow> cst \<Rightarrow> cst res" where
  "append_loop 0 fd s = Fault ''fuel''"
| "append_loop (Suc k) fd s = rbind (get_fd fd s) (\<lambda>f. rbind (file_read fd 1 (fd_offset f) s) (\<lambda>((r, bs), s).
     if r = 0 \<or> hd bs = 0 then Ret s
     else rbind (set_fd fd (f\<lparr>fd_offset := fd_offset f + 1\<rparr>) s) (append_loop k fd)))"

definition file_open_fd :: "u8 list \<Rightarrow> u32 \<Rightarrow> cst \<Rightarrow> (int \<times> cst) res" where
  "file_open_fd path mode s =
     (let (r, fd) = fd_alloc s
      in if r \<noteq> 0 then Ret (r, s)
         else rbind (abs_path (cwd s) path) (\<lambda>(r, path).
           if r \<noteq> 0 then Ret (r, s)
           else rbind (fsipc_open path mode fd s) (\<lambda>(r, s).
             if r \<noteq> 0 then Ret (r, s)
             else rbind (get_ffd fd s) (\<lambda>f.
               let va = fd2data fd; sz = file_size f
               in rbind (map_file_pages (page_offs 0 sz) (f_fileid f) va s) (\<lambda>(r, s).
                 if r \<noteq> 0 then Ret (r, s)
                 else rbind (if O_APPEND AND mode \<noteq> 0 then append_loop (unat sz + 1) fd s else Ret s) (\<lambda>s.
                   Ret (fd2num fd, s)))))))"

definition file_create_path :: "u8 list \<Rightarrow> u32 \<Rightarrow> cst \<Rightarrow> (int \<times> cst) res" where
  "file_create_path path ty s = rbind (abs_path (cwd s) path) (\<lambda>(r, path).
     if r \<noteq> 0 then Ret (r, s) else fsipc_create path ty s)"

fun dirty_pages :: "u32 list \<Rightarrow> u32 \<Rightarrow> cst \<Rightarrow> cst res" where
  "dirty_pages [] fileid s = Ret s"
| "dirty_pages (i # is) fileid s = rbind (fsipc_dirty fileid i s) (\<lambda>(_, s). dirty_pages is fileid s)"

fun unmap_file_pages :: "u32 list \<Rightarrow> u32 \<Rightarrow> cst \<Rightarrow> int \<times> cst" where
  "unmap_file_pages [] va s = (0, s)"
| "unmap_file_pages (i # is) va s = (let (r, s) = sc_unmap (va + i) s in if r < 0 then (r, s) else unmap_file_pages is va s)"

definition user_log :: "string \<Rightarrow> cst \<Rightarrow> cst" where
  "user_log t s = s\<lparr>ulog := ulog s @ t @ [CHR 0x0A]\<rparr>"

definition file_close_dev :: "u32 \<Rightarrow> cst \<Rightarrow> (int \<times> cst) res" where
  "file_close_dev fd s = rbind (get_ffd fd s) (\<lambda>f.
     let fileid = f_fileid f; sz = file_size f; va = fd2data fd
     in rbind (dirty_pages (page_offs 0 sz) fileid s) (\<lambda>s.
        rbind (fsipc_close fileid s) (\<lambda>(r, s).
        if r < 0 then Ret (r, user_log ''cannot close the file'' s)
        else if sz = 0 then Ret (0, s)
        else let (r, s) = unmap_file_pages (page_offs 0 sz) va s
          in Ret (if r < 0 then (r, user_log ''cannont unmap the file.'' s) else (0, s)))))"

text \<open>The rounded loops of \<open>ftruncate\<close>. Its second loop panics when a page cannot be unmapped.\<close>

definition ftruncate :: "int \<Rightarrow> u32 \<Rightarrow> cst \<Rightarrow> (int \<times> cst) res" where
  "ftruncate fdnum newsize s =
     (if MAXFILESIZE < newsize then Ret (- E_NO_DISK, s)
      else let (r, fd) = fd_lookup fdnum s
        in if r < 0 then Ret (r, s)
           else rbind (get_fd fd s) (\<lambda>h. if fd_dev_id h \<noteq> 102 then Ret (- E_INVAL, s)
             else rbind (get_ffd fd s) (\<lambda>f.
               let fileid = f_fileid f; oldsize = file_size f
               in rbind (set_ffd fd (f\<lparr>f_file := (f_file f)(32 := newsize)\<rparr>) s) (\<lambda>s.
                  rbind (fsipc_set_size fileid newsize s) (\<lambda>(r, s).
                  if r < 0 then Ret (r, s)
                  else let va = fd2data fd
                    in rbind (map_file_pages (page_offs (ROUND oldsize BY2PG) (ROUND newsize BY2PG)) fileid va s) (\<lambda>(r, s).
                       if r < 0 then rbind (fsipc_set_size fileid oldsize s) (\<lambda>(_, s). Ret (r, s))
                       else let (r, s) = unmap_file_pages (page_offs (ROUND newsize BY2PG) (ROUND oldsize BY2PG)) va s
                         in if r < 0 then Panic ''ftruncate: syscall_mem_unmap'' else Ret (0, s)))))))"

definition file_write :: "u32 \<Rightarrow> u8 list \<Rightarrow> u32 \<Rightarrow> cst \<Rightarrow> (int \<times> cst) res" where
  "file_write fd buf offset s = rbind (get_ffd fd s) (\<lambda>f.
     let tot = offset + of_nat (length buf)
     in if MAXFILESIZE < tot then Ret (- E_NO_DISK, s)
        else rbind (if file_size f < tot then ftruncate (fd2num fd) tot s else Ret (0, s)) (\<lambda>(r, s).
          if r < 0 then Ret (r, s)
          else rbind (uwrite (fd2data fd + offset) buf s) (\<lambda>s. Ret (int (length buf), s))))"

definition name_string :: "file_fd \<Rightarrow> string" where
  "name_string f = map (\<lambda>b. char_of (unat b)) (takeWhile (\<lambda>b. b \<noteq> 0) (map (\<lambda>k. word_byte (f_file f (k div 4)) (k mod 4)) [0..<128]))"

definition file_stat :: "u32 \<Rightarrow> stat \<Rightarrow> cst \<Rightarrow> ((int \<times> stat) \<times> cst) res" where
  "file_stat fd stt s = rbind (get_ffd fd s) (\<lambda>f.
     Ret ((0, stt\<lparr>st_name := name_string f, st_size := file_size f, st_isdir := (f_file f 33 = FTYPE_DIR)\<rparr>), s))"

definition devfile :: "cst dev" where
  "devfile = \<lparr>dev_id = 102, dev_read = file_read, dev_write = file_write, dev_close = file_close_dev, dev_stat = file_stat\<rparr>"

definition read_map :: "int \<Rightarrow> u32 \<Rightarrow> cst \<Rightarrow> (int \<times> u32) res" where
  "read_map fdnum offset s =
     (let (r, fd) = fd_lookup fdnum s
      in if r < 0 then Ret (r, 0)
         else rbind (get_fd fd s) (\<lambda>h. if fd_dev_id h \<noteq> dev_id devfile then Ret (- E_INVAL, 0)
           else let va = fd2data fd + offset
             in if MAXFILESIZE \<le> offset then Ret (- E_NO_DISK, 0)
                else if vpt s (VPN va) = None then Ret (- E_NO_DISK, 0) else Ret (0, va)))"

definition file_remove_path :: "u8 list \<Rightarrow> cst \<Rightarrow> (int \<times> cst) res" where
  "file_remove_path path s = rbind (abs_path (cwd s) path) (\<lambda>(r, path).
     if r \<noteq> 0 then Ret (r, s) else fsipc_remove path s)"

definition sync :: "cst \<Rightarrow> (int \<times> cst) res" where
  "sync s = fsipc_sync s"

text \<open>\<open>stat\<close> of \<^verbatim>\<open>user/lib/fd.c\<close>.\<close>

definition stat_path :: "cst dev list \<Rightarrow> u8 list \<Rightarrow> stat \<Rightarrow> cst \<Rightarrow> ((int \<times> stat) \<times> cst) res" where
  "stat_path devtab path stt s = rbind (file_open_fd path O_RDONLY s) (\<lambda>(fd, s).
     if fd < 0 then Ret ((fd, stt), s)
     else rbind (fstat devtab fd stt s) (\<lambda>((r, stt), s). rbind (close_file devtab fd s) (\<lambda>(_, s). Ret ((r, stt), s))))"

end
