(* ===== verification/FileProps.thy ===== *)
theory FileProps
  imports File FdProps
begin

text \<open>
  Files in the memory of clients: a file that has been opened is mapped page by page to the blocks of the
  server's cache, \<open>read\<close> delivers its bytes, and \<open>write\<close> changes exactly those bytes for every client.
\<close>

section \<open>Addresses in the data of a descriptor\<close>

lemma unat_data_byte:
  assumes "i < 32" "j < 0x400000"
  shows "unat (INDEX2DATA (int i) + of_nat j) = 0x60000000 + i * 0x400000 + j"
proof -
  have "INDEX2DATA (int i) + of_nat j = of_nat (0x60000000 + i * 0x400000 + j)"
    by (simp add: INDEX2DATA_def FILEBASE_def PDMAP_def)
  moreover have "unat (of_nat (0x60000000 + i * 0x400000 + j) :: u32) = 0x60000000 + i * 0x400000 + j"
    using assms by (intro unat_small) simp
  ultimately show ?thesis by (simp only:)
qed

lemma data_arith:
  "(0x60000000 + i * 0x400000 + j) div 4096 = 0x60000 + i * 1024 + j div (4096 :: nat)"
  "(0x60000000 + i * 0x400000 + j) mod 4096 = j mod (4096 :: nat)"
proof -
  have e: "0x60000000 + i * 0x400000 + j = j + (0x60000 + i * 1024) * 4096" by simp
  show "(0x60000000 + i * 0x400000 + j) div 4096 = 0x60000 + i * 1024 + j div (4096 :: nat)"
    unfolding e by (subst div_mult_self1) simp_all
  show "(0x60000000 + i * 0x400000 + j) mod 4096 = j mod (4096 :: nat)" unfolding e by (rule mod_mult_self1)
qed

lemma data_byte:
  assumes "i < 32" "j < 0x400000"
  shows "VPN (INDEX2DATA (int i) + of_nat j) = data_vpn i (j div 4096)"
    "unat ((INDEX2DATA (int i) + of_nat j) AND 0xFFF) = j mod 4096"
proof -
  have "j div 4096 < 1024" using assms(2) by simp
  then have "unat (data_vpn i (j div 4096)) = 0x60000 + i * 1024 + j div 4096" by (rule unat_data_vpn[OF assms(1)])
  moreover have "unat (VPN (INDEX2DATA (int i) + of_nat j)) = 0x60000 + i * 1024 + j div 4096"
    unfolding unat_VPN unat_data_byte[OF assms] by (rule data_arith)
  ultimately show "VPN (INDEX2DATA (int i) + of_nat j) = data_vpn i (j div 4096)" unfolding word_unat_eq_iff by (simp only:)
  show "unat ((INDEX2DATA (int i) + of_nat j) AND 0xFFF) = j mod 4096"
    by (simp only: mask12 take_bit_eq_mask[symmetric] unsigned_take_bit_eq)
      (simp only: unat_data_byte[OF assms] take_bit_eq_mod, simp add: data_arith)
qed

section \<open>Open files\<close>

definition pages_ok :: "cst \<Rightarrow> bool" where
  "pages_ok s \<longleftrightarrow> (\<forall>b. holds s (blk_page s b) = Blk b) \<and> (\<forall>i. holds s (ff_page s i) = Ff i) \<and>
     (\<forall>p i. holds s p = Ff i \<longrightarrow> p = ff_page s i)"

definition npages :: "nat \<Rightarrow> nat" where "npages n = (n + 4095) div 4096"

text \<open>Descriptor \<open>i\<close> is open for a file of \<open>n\<close> bytes in the cache blocks \<open>blks\<close>, in slot \<open>q\<close> of the server.\<close>

definition opened :: "cst \<Rightarrow> nat \<Rightarrow> nat \<Rightarrow> nat \<Rightarrow> nat list \<Rightarrow> bool" where
  "opened s i q n blks \<longleftrightarrow> pages_ok s \<and> i < 32 \<and> n \<le> 0x400000 \<and> length blks = npages n \<and>
     (\<exists>perm. vpt s (fd_vpn i) = Some (ff_page s q, perm)) \<and> fd_dev_id (fds s (ff_page s q)) = 102 \<and>
     unat (file_size (filefds s (ff_page s q))) = n \<and>
     (\<forall>k < length blks. \<exists>perm. vpt s (data_vpn i k) = Some (blk_page s (blks ! k), perm) \<and> perm AND PTE_D \<noteq> 0)"

text \<open>Byte \<open>j\<close> of a file in the blocks \<open>blks\<close>, and its first \<open>n\<close> bytes.\<close>

definition file_byte :: "fss \<Rightarrow> nat list \<Rightarrow> nat \<Rightarrow> u8" where
  "file_byte s blks j = word_byte (cache s (blks ! (j div 4096)) (j mod 4096 div 4)) (j mod 4)"

definition contents :: "fss \<Rightarrow> nat list \<Rightarrow> nat \<Rightarrow> u8 list" where
  "contents s blks n = map (file_byte s blks) [0..<n]"

lemma page_lt: "j < n \<Longrightarrow> j div 4096 < npages n"
proof -
  assume "j < n"
  then have "(j + 4096) div 4096 \<le> (n + 4095) div 4096" by (intro div_le_mono) simp
  then show ?thesis by (simp add: npages_def)
qed

lemma mod_mod_4: "j mod 4096 mod 4 = j mod (4 :: nat)"
  using mod_mod_cancel[of 4 4096 j] by simp

lemma opened_byte:
  assumes "opened s i q n blks" "j < n"
  obtains perm where "vpt s (VPN (INDEX2DATA (int i) + of_nat j)) = Some (blk_page s (blks ! (j div 4096)), perm)"
    "perm AND PTE_D \<noteq> 0" "unat ((INDEX2DATA (int i) + of_nat j) AND 0xFFF) = j mod 4096"
    "holds s (blk_page s (blks ! (j div 4096))) = Blk (blks ! (j div 4096))"
proof -
  have j: "i < 32" "j < 0x400000" "j div 4096 < length blks"
    using assms page_lt[OF assms(2)] by (simp_all add: opened_def)
  obtain perm where "vpt s (data_vpn i (j div 4096)) = Some (blk_page s (blks ! (j div 4096)), perm)" "perm AND PTE_D \<noteq> 0"
    using assms(1) j(3) unfolding opened_def by blast
  moreover have "holds s (blk_page s (blks ! (j div 4096))) = Blk (blks ! (j div 4096))"
    using assms(1) by (simp add: opened_def pages_ok_def)
  ultimately show ?thesis using that[of perm] data_byte[OF j(1,2)] by simp
qed

lemma ubyte_ok:
  assumes "opened s i q n blks" "j < n"
  shows "ubyte (INDEX2DATA (int i) + of_nat j) s = Ret (file_byte (fs (srv s)) blks j)"
proof -
  obtain perm where o: "vpt s (VPN (INDEX2DATA (int i) + of_nat j)) = Some (blk_page s (blks ! (j div 4096)), perm)"
    "unat ((INDEX2DATA (int i) + of_nat j) AND 0xFFF) = j mod 4096"
    "holds s (blk_page s (blks ! (j div 4096))) = Blk (blks ! (j div 4096))" by (rule opened_byte[OF assms])
  show ?thesis unfolding ubyte_def o(1) option.case prod.case o(2) page_byte_def o(3) held.case file_byte_def mod_mod_4 by (rule refl)
qed

lemma uread_ok:
  "opened s i q n blks \<Longrightarrow> j + k \<le> n \<Longrightarrow>
   uread k (INDEX2DATA (int i) + of_nat j) s = Ret (map (file_byte (fs (srv s)) blks) [j..<j + k])"
proof (induction k arbitrary: j)
  case (Suc k)
  have e: "INDEX2DATA (int i) + of_nat (Suc j) = INDEX2DATA (int i) + of_nat j + 1" by simp
  have "uread k (INDEX2DATA (int i) + of_nat j + 1) s = Ret (map (file_byte (fs (srv s)) blks) [Suc j..<j + Suc k])"
    using Suc.IH[of "Suc j"] Suc.prems unfolding e by (simp del: upt_Suc)
  moreover have "[j..<j + Suc k] = j # [Suc j..<j + Suc k]" by (rule upt_conv_Cons) simp
  ultimately show ?case using Suc.prems ubyte_ok[OF Suc.prems(1), of j] by (simp del: upt_Suc)
qed simp

lemma get_ffd_ok: "opened s i q n blks \<Longrightarrow> get_ffd (INDEX2FD (int i)) s = Ret (filefds s (ff_page s q))"
  by (auto simp: opened_def get_ffd_def)

lemma sint_upto: "unat (w :: u32) \<le> 0x400000 \<Longrightarrow> sint w = int (unat w)"
proof -
  assume "unat w \<le> 0x400000"
  then have "int (unat w) \<le> 0x400000" by linarith
  then have "uint w \<le> 0x400000" by (simp only: uint_nat)
  then show ?thesis by (simp add: sint32)
qed

lemma take_drop_upt: "min m (n - a) = k \<Longrightarrow> a \<le> n \<Longrightarrow> take m (drop a (map f [0..<n])) = map f [a..<a + k]"
  by (auto simp: drop_map take_map min_def split: if_splits)

lemma file_read_ok:
  assumes o: "opened s i q n blks" and off: "unat off \<le> n" and nw: "unat off + unat m < 2 ^ 32"
  shows "file_read (INDEX2FD (int i)) m off s =
    Ret ((int (min (unat m) (n - unat off)), take (unat m) (drop (unat off) (contents (fs (srv s)) blks n))), s)"
proof -
  let ?sz = "file_size (filefds s (ff_page s q))"
  let ?k = "min (unat m) (n - unat off)" and ?m = "if ?sz < off + m then ?sz - off else m"
  have i: "i < 32" and sz: "unat ?sz = n" "n \<le> 0x400000" using o by (auto simp: opened_def)
  have add: "unat (off + m) = unat off + unat m" using nw by (simp add: unat_word_ariths)
  have le: "\<not> ?sz < off" using off sz by (simp add: word_less_nat_alt)
  have m: "unat ?m = ?k"
    using off sz add le by (auto simp: word_less_nat_alt unat_sub_if' word_le_nat_alt min_def)
  have "uread ?k (INDEX2DATA (int i) + of_nat (unat off)) s = Ret (map (file_byte (fs (srv s)) blks) [unat off..<unat off + ?k])"
    using off by (intro uread_ok[OF o]) simp
  moreover have "map (file_byte (fs (srv s)) blks) [unat off..<unat off + ?k] = take (unat m) (drop (unat off) (contents (fs (srv s)) blks n))"
    unfolding contents_def by (rule take_drop_upt[OF refl off, symmetric])
  moreover have "sint ?m = int ?k" using sint_upto[of ?m] m sz(2) by simp
  ultimately show ?thesis using get_ffd_ok[OF o] le m i by (simp add: file_read_def Let_def)
qed

section \<open>Writing\<close>

definition block_byte :: "fss \<Rightarrow> nat \<Rightarrow> nat \<Rightarrow> u8" where
  "block_byte s b k = word_byte (cache s b (k div 4)) (k mod 4)"

definition put_byte :: "nat \<Rightarrow> nat \<Rightarrow> u8 \<Rightarrow> fss \<Rightarrow> fss" where
  "put_byte b k v s = s\<lparr>cache := (cache s)(b := (cache s b)(k div 4 := set_word_byte (k mod 4) v (cache s b (k div 4))))\<rparr>"

lemma file_byte_block: "file_byte s blks j = block_byte s (blks ! (j div 4096)) (j mod 4096)"
  by (simp only: file_byte_def block_byte_def mod_mod_4)

lemma put_byte_byte: "block_byte (put_byte b k v s) b' k' = (if b' = b \<and> k' = k then v else block_byte s b' k')"
proof (cases "b' = b \<and> k' div 4 = k div 4")
  case True
  have "k' = k \<longleftrightarrow> k' mod 4 = k mod 4" using True by (metis div_mult_mod_eq)
  then show ?thesis using True word_byte_set[of "k mod 4" "k' mod 4"] by (auto simp: block_byte_def put_byte_def)
qed (auto simp: block_byte_def put_byte_def)

definition set_fs :: "fss \<Rightarrow> cst \<Rightarrow> cst" where
  "set_fs f s = s\<lparr>srv := (srv s)\<lparr>fs := f\<rparr>\<rparr>"

lemma set_fs_simps [simp]: "fs (srv (set_fs f s)) = f" "set_fs g (set_fs f s) = set_fs g s" "opened (set_fs f s) = opened s"
  "vpt (set_fs f s) = vpt s" "fds (set_fs f s) = fds s" "ff_page (set_fs f s) = ff_page s" "filefds (set_fs f s) = filefds s"
  by (simp_all add: set_fs_def opened_def pages_ok_def fun_eq_iff)

lemma set_ubyte_ok:
  assumes "opened s i q n blks" "j < n"
  shows "set_ubyte (INDEX2DATA (int i) + of_nat j) v s = Ret (set_fs (put_byte (blks ! (j div 4096)) (j mod 4096) v (fs (srv s))) s)"
proof -
  obtain perm where o: "vpt s (VPN (INDEX2DATA (int i) + of_nat j)) = Some (blk_page s (blks ! (j div 4096)), perm)"
    "perm AND PTE_D \<noteq> 0" "unat ((INDEX2DATA (int i) + of_nat j) AND 0xFFF) = j mod 4096"
    "holds s (blk_page s (blks ! (j div 4096))) = Blk (blks ! (j div 4096))" by (rule opened_byte[OF assms])
  show ?thesis unfolding set_ubyte_def o(1) option.case prod.case if_not_P[OF o(2)] o(3) set_page_byte_def o(4) held.case
      Let_def set_fs_def put_byte_def by (rule refl)
qed

text \<open>\<open>f'\<close> has the bytes \<open>bs\<close> at position \<open>j\<close> of the file of \<open>n\<close> bytes, and is \<open>f\<close> everywhere else, in its last block behind its end too.\<close>

definition spliced :: "nat list \<Rightarrow> nat \<Rightarrow> nat \<Rightarrow> u8 list \<Rightarrow> fss \<Rightarrow> fss \<Rightarrow> bool" where
  "spliced blks n j bs f f' \<longleftrightarrow> (\<exists>c. f' = f\<lparr>cache := c\<rparr>) \<and> (\<forall>b. b \<notin> set blks \<longrightarrow> cache f' b = cache f b) \<and>
     (\<forall>x. x < n \<or> x < 4096 * length blks \<longrightarrow>
       file_byte f' blks x = (if j \<le> x \<and> x < j + length bs then bs ! (x - j) else file_byte f blks x))"

lemma put_byte_spliced:
  assumes "distinct blks" "length blks = npages n" "j < n"
  shows "spliced blks n j [v] f (put_byte (blks ! (j div 4096)) (j mod 4096) v f)"
proof -
  have at: "file_byte (put_byte (blks ! (j div 4096)) (j mod 4096) v f) blks x = (if x = j then v else file_byte f blks x)" if "x < n \<or> x < 4096 * length blks" for x
  proof -
    have "x div 4096 < npages n" using that page_lt[of x n] assms(2) by auto
    then have "blks ! (x div 4096) = blks ! (j div 4096) \<longleftrightarrow> x div 4096 = j div 4096"
      using assms page_lt[OF assms(3)] by (simp add: nth_eq_iff_index_eq)
    moreover have "x = j \<longleftrightarrow> x div 4096 = j div 4096 \<and> x mod 4096 = j mod 4096" by (metis div_mult_mod_eq)
    ultimately show ?thesis unfolding file_byte_block put_byte_byte by (simp only:)
  qed
  have "b \<notin> set blks \<longrightarrow> b \<noteq> blks ! (j div 4096)" for b using assms(2) page_lt[OF assms(3)] by auto
  then show ?thesis using at by (auto simp: spliced_def) (auto simp: put_byte_def)
qed

lemma spliced_trans:
  "spliced blks n j [v] f f1 \<Longrightarrow> spliced blks n (Suc j) bs f1 f2 \<Longrightarrow> spliced blks n j (v # bs) f f2"
  unfolding spliced_def
proof (intro conjI; (elim conjE)?)
  assume "\<exists>c. f1 = f\<lparr>cache := c\<rparr>" "\<exists>c. f2 = f1\<lparr>cache := c\<rparr>"
  then show "\<exists>c. f2 = f\<lparr>cache := c\<rparr>" by auto
next
  assume x: "\<forall>x. x < n \<or> x < 4096 * length blks \<longrightarrow> file_byte f1 blks x = (if j \<le> x \<and> x < j + length [v] then [v] ! (x - j) else file_byte f blks x)"
    "\<forall>x. x < n \<or> x < 4096 * length blks \<longrightarrow> file_byte f2 blks x = (if Suc j \<le> x \<and> x < Suc j + length bs then bs ! (x - Suc j) else file_byte f1 blks x)"
  show "\<forall>x. x < n \<or> x < 4096 * length blks \<longrightarrow> file_byte f2 blks x = (if j \<le> x \<and> x < j + length (v # bs) then (v # bs) ! (x - j) else file_byte f blks x)"
  proof (intro allI impI)
    fix x assume "x < n \<or> x < 4096 * length blks"
    consider "x = j" | "x < j" | "Suc j \<le> x" by linarith
    then show "file_byte f2 blks x = (if j \<le> x \<and> x < j + length (v # bs) then (v # bs) ! (x - j) else file_byte f blks x)"
      using x \<open>x < n \<or> x < 4096 * length blks\<close> by cases (auto simp: nth_Cons')
  qed
qed simp

lemma spliced_refl: "spliced blks n j [] f f"
proof -
  have "f = f\<lparr>cache := cache f\<rparr>" by simp
  then have "\<exists>c. f = f\<lparr>cache := c\<rparr>" by (rule exI[of "\<lambda>c. f = f\<lparr>cache := c\<rparr>" "cache f"])
  then show ?thesis unfolding spliced_def by (intro conjI) (simp_all, linarith)
qed

lemma uwrite_ok:
  "opened s i q n blks \<Longrightarrow> distinct blks \<Longrightarrow> j + length bs \<le> n \<Longrightarrow>
   \<exists>f. uwrite (INDEX2DATA (int i) + of_nat j) bs s = Ret (set_fs f s) \<and> spliced blks n j bs (fs (srv s)) f"
proof (induction bs arbitrary: j s)
  case Nil
  have "set_fs (fs (srv s)) s = s" by (simp add: set_fs_def)
  then show ?case using spliced_refl[of blks n j "fs (srv s)"] by (metis uwrite.simps(1))
next
  case (Cons v bs)
  let ?f = "put_byte (blks ! (j div 4096)) (j mod 4096) v (fs (srv s))"
  have e: "INDEX2DATA (int i) + of_nat (Suc j) = INDEX2DATA (int i) + of_nat j + 1" by simp
  obtain f where f: "uwrite (INDEX2DATA (int i) + of_nat j + 1) bs (set_fs ?f s) = Ret (set_fs f s)" "spliced blks n (Suc j) bs ?f f"
    using Cons.IH[of "set_fs ?f s" "Suc j"] Cons.prems unfolding e by auto
  have "spliced blks n j [v] (fs (srv s)) ?f"
    using put_byte_spliced[OF Cons.prems(2), of n j] Cons.prems(1,3) by (simp add: opened_def)
  from spliced_trans[OF this f(2)] show ?case using set_ubyte_ok[OF Cons.prems(1), of j v] f(1) Cons.prems(3) by auto
qed

lemma file_write_ok:
  assumes o: "opened s i q n blks" and d: "distinct blks" and le: "unat off + length bs \<le> n"
  shows "\<exists>f. file_write (INDEX2FD (int i)) bs off s = Ret (int (length bs), set_fs f s) \<and> spliced blks n (unat off) bs (fs (srv s)) f"
proof -
  have i: "i < 32" and sz: "unat (file_size (filefds s (ff_page s q))) = n" "n \<le> 0x400000" using o by (auto simp: opened_def)
  have tot: "unat (off + of_nat (length bs)) = unat off + length bs"
    using le sz(2) by (simp add: unat_word_ariths unat_of_nat)
  have "\<not> MAXFILESIZE < off + of_nat (length bs)" "\<not> file_size (filefds s (ff_page s q)) < off + of_nat (length bs)"
    using le sz by (simp_all add: word_less_nat_alt tot MAXFILESIZE_def)
  moreover obtain f where "uwrite (INDEX2DATA (int i) + of_nat (unat off)) bs s = Ret (set_fs f s)" "spliced blks n (unat off) bs (fs (srv s)) f"
    using uwrite_ok[OF o d le] by blast
  ultimately show ?thesis using get_ffd_ok[OF o] i by (intro exI[of _ f]) (simp add: file_write_def Let_def)
qed

lemma spliced_contents:
  assumes "spliced blks n j bs f f'" "j + length bs \<le> n"
  shows "contents f' blks n = take j (contents f blks n) @ bs @ drop (j + length bs) (contents f blks n)"
  using assms by (intro nth_equalityI) (auto simp: contents_def spliced_def nth_append)

lemma fd_lookup_opened:
  assumes "opened s i q n blks"
  shows "fd_lookup (int i) s = (0, INDEX2FD (int i))" "get_fd (INDEX2FD (int i)) s = Ret (fds s (ff_page s q))"
  using assms by (auto simp: opened_def fd_lookup_def get_fd_def Let_def)

abbreviation has_files :: "cst dev list \<Rightarrow> bool" where
  "has_files devtab \<equiv> find (\<lambda>d. dev_id d = 102) devtab = Some devfile"

lemma with_dev_opened:
  assumes "opened s i q n blks" "has_files devtab"
  shows "with_dev devtab (int i) s err k = k (INDEX2FD (int i)) (fds s (ff_page s q)) devfile s"
  using assms fd_lookup_opened[OF assms(1)] by (auto simp: with_dev_def dev_lookup_def opened_def)

text \<open>The position of a descriptor, and a descriptor moved on by \<open>k\<close> bytes.\<close>

definition at_offset :: "cst \<Rightarrow> nat \<Rightarrow> nat" where
  "at_offset s q = unat (fd_offset (fds s (ff_page s q)))"

definition move_fd :: "nat \<Rightarrow> nat \<Rightarrow> cst \<Rightarrow> cst" where
  "move_fd q k s = s\<lparr>fds := (fds s)(ff_page s q := (fds s (ff_page s q))\<lparr>fd_offset := fd_offset (fds s (ff_page s q)) + of_nat k\<rparr>)\<rparr>"

lemma move_fd_simps [simp]:
  "ff_page (move_fd q k s) = ff_page s" "srv (move_fd q k s) = srv s" "vpt (move_fd q k s) = vpt s" "ulog (move_fd q k s) = ulog s"
  "move_fd q 0 s = s" "move_fd q k (set_fs f s) = set_fs f (move_fd q k s)"
  "fd_dev_id (fds (move_fd q k s) p) = fd_dev_id (fds s p)" "fd_omode (fds (move_fd q k s) p) = fd_omode (fds s p)"
  by (simp_all add: move_fd_def set_fs_def)

lemma fds_move_fd: "fds (move_fd q k s) =
    (fds s)(ff_page s q := (fds s (ff_page s q))\<lparr>fd_offset := fd_offset (fds s (ff_page s q)) + of_nat k\<rparr>)"
  by (simp add: move_fd_def)

lemma move_fd_move: "move_fd q k (move_fd q j s) = move_fd q (j + k) s"
  by (simp add: move_fd_def add.assoc)

lemma move_fd_opened [simp]: "opened (move_fd q k s) = opened s"
  by (auto simp: fun_eq_iff opened_def pages_ok_def move_fd_def)

lemma at_offset_move: "at_offset s q + k < 2 ^ 32 \<Longrightarrow> at_offset (move_fd q k s) q = at_offset s q + k"
  by (simp add: at_offset_def move_fd_def unat_word_ariths unat_of_nat)

lemma at_offset_set_fs [simp]: "at_offset (set_fs f s) q = at_offset s q"
  by (simp add: at_offset_def)

lemma add_offset_move:
  assumes "opened s i q n blks"
  shows "add_offset (INDEX2FD (int i)) (int k) s = Ret (move_fd q k s)"
proof -
  obtain perm where "vpt s (fd_vpn i) = Some (ff_page s q, perm)" "i < 32" using assms by (auto simp: opened_def)
  then show ?thesis using fd_lookup_opened(2)[OF assms] by (auto simp: add_offset_def set_fd_def move_fd_def)
qed

lemma write_file_move:
  assumes "opened s i q n blks" "has_files devtab" "distinct blks" "fd_omode (fds s (ff_page s q)) AND O_ACCMODE \<noteq> O_RDONLY"
    and "at_offset s q + length bs \<le> n"
  shows "\<exists>f. write_file devtab (int i) bs s = Ret (int (length bs), move_fd q (length bs) (set_fs f s)) \<and> spliced blks n (at_offset s q) bs (fs (srv s)) f"
proof -
  obtain f where f: "file_write (INDEX2FD (int i)) bs (fd_offset (fds s (ff_page s q))) s = Ret (int (length bs), set_fs f s)"
    "spliced blks n (at_offset s q) bs (fs (srv s)) f"
    using file_write_ok[OF assms(1,3), of "fd_offset (fds s (ff_page s q))" bs] assms(5) unfolding at_offset_def by blast
  have "opened (set_fs f s) i q n blks" using assms(1) by simp
  from add_offset_move[OF this] f show ?thesis
    using assms(4) by (intro exI[of _ f]) (simp add: write_file_def with_dev_opened[OF assms(1,2)] devfile_def)
qed

lemma read_file_move:
  assumes "opened s i q n blks" "has_files devtab" "fd_omode (fds s (ff_page s q)) AND O_ACCMODE \<noteq> O_WRONLY"
    and "at_offset s q \<le> n" "at_offset s q + unat k < 2 ^ 32"
  shows "read_file devtab (int i) k s = (let bs = take (unat k) (drop (at_offset s q) (contents (fs (srv s)) blks n))
      in Ret ((int (length bs), bs), move_fd q (length bs) s))"
proof -
  have l: "length (take (unat k) (drop (at_offset s q) (contents (fs (srv s)) blks n))) = min (unat k) (n - at_offset s q)"
    by (simp add: contents_def min.commute)
  show ?thesis using file_read_ok[OF assms(1), of "fd_offset (fds s (ff_page s q))" k] assms(3-5) add_offset_move[OF assms(1)]
    unfolding at_offset_def[symmetric] Let_def l by (simp add: read_file_def with_dev_opened[OF assms(1,2)] devfile_def)
qed

lemma readn_move:
  assumes "opened s i q n blks" "has_files devtab" "fd_omode (fds s (ff_page s q)) AND O_ACCMODE \<noteq> O_WRONLY"
    and "at_offset s q \<le> n" "unat k < 2 ^ 31"
  shows "readn devtab (int i) k s = (let bs = take (unat k) (drop (at_offset s q) (contents (fs (srv s)) blks n))
      in Ret ((int (length bs), bs), move_fd q (length bs) s))"
proof -
  define C where "C = contents (fs (srv s)) blks n"
  have "readn_loop (\<lambda>k. read_file devtab (int i) (of_nat k)) left got s' =
      Ret ((int (length (got @ take left (drop (at_offset s' q) C))), got @ take left (drop (at_offset s' q) C)),
        move_fd q (length (take left (drop (at_offset s' q) C))) s')"
    if "opened s' i q n blks" "fd_omode (fds s' (ff_page s' q)) AND O_ACCMODE \<noteq> O_WRONLY" "at_offset s' q \<le> n"
      "contents (fs (srv s')) blks n = C" "left < 2 ^ 31" for left got s'
    using that
  proof (induction left arbitrary: got s' rule: less_induct)
    case (less left)
    have n: "n \<le> 0x400000" using less.prems(1) by (simp add: opened_def)
    let ?bs = "take left (drop (at_offset s' q) C)"
    have u: "unat (of_nat left :: u32) = left" using less.prems(5) by (simp add: unat_of_nat)
    have ov: "at_offset s' q + unat (of_nat left :: u32) < 2 ^ 32" unfolding u using n less.prems(3,5) by simp
    have rd: "read_file devtab (int i) (of_nat left) s' = Ret ((int (length ?bs), ?bs), move_fd q (length ?bs) s')"
      using read_file_move[OF less.prems(1) assms(2) less.prems(2,3) ov] unfolding u less.prems(4) Let_def .
    show ?case
    proof (cases "left = 0 \<or> ?bs = []")
      case True
      then show ?thesis using rd by (subst readn_loop.simps) auto
    next
      case False
      let ?s = "move_fd q (length ?bs) s'"
      have lC: "length C = n" using less.prems(4) by (auto simp: contents_def)
      then have lb: "length ?bs \<le> left" "at_offset s' q + length ?bs \<le> n" "0 < length ?bs" using less.prems(3) False by auto
      have at: "at_offset ?s q = at_offset s' q + length ?bs" by (rule at_offset_move) (use lb n in simp)
      have rest: "take (left - length ?bs) (drop (at_offset s' q + length ?bs) C) = []" using lC by (auto simp: min_def)
      have "readn_loop (\<lambda>k. read_file devtab (int i) (of_nat k)) left got s' =
          readn_loop (\<lambda>k. read_file devtab (int i) (of_nat k)) (left - length ?bs) (got @ ?bs) ?s"
        using rd lb False by (subst readn_loop.simps) (simp del: length_take length_drop)
      also have "\<dots> = Ret ((int (length (got @ ?bs)), got @ ?bs), ?s)"
        using less.IH[of "left - length ?bs" ?s "got @ ?bs"] less.prems lb at rest by (simp del: length_take length_drop)
      finally show ?thesis by simp
    qed
  qed
  from this[of s "unat k" "[]"] assms show ?thesis by (simp add: readn_def C_def Let_def)
qed

text \<open>
  C22. What is written to an open file is there, for everybody: \<open>write\<close> within the size of the file stores the
  bytes at the offset of the descriptor in the blocks of the server's cache, so that every client that has
  the file open, through any descriptor, sees them at once; all other bytes of the file, all other blocks
  and all other descriptors are unchanged, and the offset advances.
\<close>

theorem write_file_shared:
  assumes o: "opened s i q n blks" and dt: "has_files devtab" and d: "distinct blks"
    and m: "fd_omode (fds s (ff_page s q)) AND O_ACCMODE \<noteq> O_RDONLY"
    and le: "unat (fd_offset (fds s (ff_page s q))) + length bs \<le> n"
  shows "\<exists>s'. write_file devtab (int i) bs s = Ret (int (length bs), s') \<and> (\<forall>j p m bs. opened s j p m bs \<longrightarrow> opened s' j p m bs) \<and>
    contents (fs (srv s')) blks n = (let c = contents (fs (srv s)) blks n; off = unat (fd_offset (fds s (ff_page s q)))
       in take off c @ bs @ drop (off + length bs) c) \<and>
    (\<forall>b. b \<notin> set blks \<longrightarrow> cache (fs (srv s')) b = cache (fs (srv s)) b) \<and>
    fds s' = (fds s)(ff_page s q := (fds s (ff_page s q))\<lparr>fd_offset := fd_offset (fds s (ff_page s q)) + of_nat (length bs)\<rparr>)"
proof -
  have le': "at_offset s q + length bs \<le> n" using le by (simp add: at_offset_def)
  obtain f where f: "write_file devtab (int i) bs s = Ret (int (length bs), move_fd q (length bs) (set_fs f s))"
    "spliced blks n (at_offset s q) bs (fs (srv s)) f" using write_file_move[OF o dt d m le'] by blast
  then show ?thesis using spliced_contents[OF f(2) le'] by (auto simp: Let_def spliced_def at_offset_def fds_move_fd)
qed

section \<open>Opening\<close>

text \<open>The blocks of a file of \<open>n\<close> bytes are in the cache: \<open>file_get_block\<close> finds them without changing anything.\<close>

definition cached :: "fss \<Rightarrow> ptr \<Rightarrow> nat list \<Rightarrow> bool" where
  "cached s f blks \<longleftrightarrow> (\<forall>k < length blks. file_get_block f k s = Ret ((0, blks ! k), s))"

text \<open>What a request that maps a page leaves alone.\<close>

definition kept :: "cst \<Rightarrow> cst \<Rightarrow> bool" where
  "kept s s' \<longleftrightarrow> fs (srv s') = fs (srv s) \<and> opentab (srv s') = opentab (srv s) \<and> holds s' = holds s \<and> blk_page s' = blk_page s \<and>
     ff_page s' = ff_page s \<and> filefds s' = filefds s \<and> fds s' = fds s \<and> cwd s' = cwd s \<and> (\<forall>q. pp_ref s' (ff_page s q) = pp_ref s (ff_page s q))"

lemma kept_refl: "kept s s" and kept_trans: "kept s s' \<Longrightarrow> kept s' s'' \<Longrightarrow> kept s s''"
  by (auto simp: kept_def)

lemma perm_bits: "(PTE_D OR PTE_LIBRARY) OR PTE_V \<noteq> 0" "((PTE_D OR PTE_LIBRARY) OR PTE_V) AND PTE_D \<noteq> 0"
  "(PTE_V OR (PTE_D OR PTE_LIBRARY)) AND NOT (PTE_D OR PTE_LIBRARY) = PTE_V" "(PTE_D OR PTE_V) AND PTE_V \<noteq> 0"
  by (simp_all add: PTE_D_def PTE_V_def PTE_LIBRARY_def)

lemma fsipc_map_ok:
  assumes p: "pages_ok s" and slot: "unat fid mod MAXOPEN = q" "o_fileid (opentab (srv s) q) = fid" "pp_ref s (ff_page s q) \<noteq> 1"
    "o_file (opentab (srv s) q) = Some f"
    and b: "file_get_block f (unat off div BY2BLK) (fs (srv s)) = Ret ((0, b), fs (srv s))"
    and m: "map_ok s = True # oks" and v: "vpt s (VPN va) = None" "\<not> is_illegal_va va"
  shows "\<exists>s'. fsipc_map fid off va s = Ret (0, s') \<and> kept s s' \<and> map_ok s' = oks \<and>
    vpt s' = (vpt s)(VPN va := Some (blk_page s b, (PTE_D OR PTE_LIBRARY) OR PTE_V))"
proof -
  let ?sv = "server_view s" and ?rq = "no_req\<lparr>req_fileid := fid, req_offset := off\<rparr>"
  let ?sv' = "?sv\<lparr>sent := sent (srv s) @ [\<lparr>rp_to = me s, rp_val = 0, rp_page = BlkPage b\<rparr>], req_mapped := False\<rparr>"
  have r: "serve_round g FSREQ_MAP (me s) (PTE_D OR PTE_V) ?rq ?sv = Ret ?sv'" for g
    using slot b perm_bits(4) by (simp add: serve_round_def fsreq_codes serve_map_def with_open_def open_lookup_def with_file_def
        server_view_def no_req_def ipc_send_def Let_def)
  let ?s = "take_refs ?sv' (BlkPage b) s"
  have d: "drop (length (sent ?sv)) (sent ?sv') = [\<lparr>rp_to = me s, rp_val = 0, rp_page = BlkPage b\<rparr>]" by (simp add: server_view_def)
  have pb: "holds s (blk_page s b) = Blk b" using p by (simp add: pages_ok_def)
  let ?t = "map_page va (blk_page s b) (PTE_D OR PTE_LIBRARY) (?s\<lparr>map_ok := oks\<rparr>)"
  have "receive \<lparr>rp_to = me s, rp_val = 0, rp_page = BlkPage b\<rparr> va ?s = Ret ?t"
    using m by (simp add: receive_def take_refs_def Let_def)
  then have "fsipc FSREQ_MAP ?rq va s = Ret ((0, PTE_V OR (PTE_D OR PTE_LIBRARY)), ?t)"
    using r d by (simp add: fsipc_def Let_def fsreq_codes)
  moreover have "?t = ?s\<lparr>map_ok := oks, vpt := (vpt s)(VPN va := Some (blk_page s b, (PTE_D OR PTE_LIBRARY) OR PTE_V)),
      pp_ref := (pp_ref ?s)(blk_page s b := pp_ref ?s (blk_page s b) + 1)\<rparr>"
    using map_fresh[OF v(2), of "?s\<lparr>map_ok := oks\<rparr>" "blk_page s b"] v(1) by (simp add: take_refs_def)
  moreover have "ff_page s q \<noteq> blk_page s b" for q using p unfolding pages_ok_def by (metis held.distinct(1))
  then have "kept s ?t" unfolding calculation(2) kept_def
    using p pb by (auto simp: take_refs_def server_view_def pages_ok_def)
  ultimately show ?thesis using perm_bits(3) by (simp add: fsipc_map_def take_refs_def)
qed

definition in_slot :: "cst \<Rightarrow> u32 \<Rightarrow> nat \<Rightarrow> ptr \<Rightarrow> bool" where
  "in_slot s fid q f \<longleftrightarrow> unat fid mod MAXOPEN = q \<and> o_fileid (opentab (srv s) q) = fid \<and> pp_ref s (ff_page s q) \<noteq> 1 \<and>
     o_file (opentab (srv s) q) = Some f"

lemma kept_in_slot: "kept s s' \<Longrightarrow> in_slot s' fid q f = in_slot s fid q f"
  by (simp add: kept_def in_slot_def)

lemma kept_pages_ok: "kept s s' \<Longrightarrow> pages_ok s' = pages_ok s"
  by (simp add: kept_def pages_ok_def)

abbreviation file_perm :: u32 where "file_perm \<equiv> (PTE_D OR PTE_LIBRARY) OR PTE_V"

lemma map_file_pages_ok:
  "pages_ok s \<Longrightarrow> in_slot s fid q f \<Longrightarrow> cached (fs (srv s)) f blks \<Longrightarrow> i < 32 \<Longrightarrow> length blks \<le> 1024 \<Longrightarrow>
   distinct ks \<Longrightarrow> set ks \<subseteq> {..<length blks} \<Longrightarrow> \<forall>k \<in> set ks. vpt s (data_vpn i k) = None \<Longrightarrow>
   map_ok s = replicate (length ks) True @ oks \<Longrightarrow>
   \<exists>s'. map_file_pages (map (\<lambda>k. of_nat (k * 4096)) ks) fid (INDEX2DATA (int i)) s = Ret (0, s') \<and> kept s s' \<and> map_ok s' = oks \<and>
     (\<forall>k \<in> set ks. vpt s' (data_vpn i k) = Some (blk_page s (blks ! k), file_perm)) \<and>
     (\<forall>v. v \<notin> data_vpn i ` set ks \<longrightarrow> vpt s' v = vpt s v)"
proof (induction ks arbitrary: s)
  case Nil
  then show ?case by (auto simp: kept_refl)
next
  case (Cons k ks)
  have k: "k < length blks" "k < 1024" "k \<notin> set ks" using Cons.prems by auto
  have va: "INDEX2DATA (int i) + of_nat (k * 4096) = data_va i k" by (simp add: BY2PG_def)
  have "unat (of_nat (k * 4096) :: u32) = k * 4096" using k(2) by (intro unat_small) simp
  then have "file_get_block f (unat (of_nat (k * 4096) :: u32) div BY2BLK) (fs (srv s)) = Ret ((0, blks ! k), fs (srv s))"
    using Cons.prems(3) k(1) by (simp add: cached_def)
  then obtain s1 where s1: "fsipc_map fid (of_nat (k * 4096)) (data_va i k) s = Ret (0, s1)" "kept s s1"
    "map_ok s1 = replicate (length ks) True @ oks" "vpt s1 = (vpt s)(data_vpn i k := Some (blk_page s (blks ! k), file_perm))"
    using fsipc_map_ok[OF Cons.prems(1), of fid q f "of_nat (k * 4096)" "blks ! k" "replicate (length ks) True @ oks" "data_va i k"]
      Cons.prems(2,4,8,9) k(2) by (auto simp: in_slot_def)
  have ne: "l \<in> set ks \<Longrightarrow> data_vpn i l \<noteq> data_vpn i k" for l using data_vpn_eq[of i i l k] Cons.prems k by auto
  have "\<exists>s'. map_file_pages (map (\<lambda>k. of_nat (k * 4096)) ks) fid (INDEX2DATA (int i)) s1 = Ret (0, s') \<and> kept s1 s' \<and> map_ok s' = oks \<and>
     (\<forall>k \<in> set ks. vpt s' (data_vpn i k) = Some (blk_page s1 (blks ! k), file_perm)) \<and>
     (\<forall>v. v \<notin> data_vpn i ` set ks \<longrightarrow> vpt s' v = vpt s1 v)"
  proof (rule Cons.IH)
    show "cached (fs (srv s1)) f blks" using Cons.prems(3) s1(2) by (simp add: kept_def)
    show "\<forall>k \<in> set ks. vpt s1 (data_vpn i k) = None" using Cons.prems(8) ne by (simp add: s1(4))
  qed (use Cons.prems s1(2,3) in \<open>auto simp: kept_in_slot kept_pages_ok\<close>)
  then obtain s' where s': "map_file_pages (map (\<lambda>k. of_nat (k * 4096)) ks) fid (INDEX2DATA (int i)) s1 = Ret (0, s')" "kept s1 s'" "map_ok s' = oks"
    "\<forall>k \<in> set ks. vpt s' (data_vpn i k) = Some (blk_page s (blks ! k), file_perm)"
    "\<forall>v. v \<notin> data_vpn i ` set ks \<longrightarrow> vpt s' v = vpt s1 v" using s1(2) by (auto simp: kept_def)
  have "vpt s' (data_vpn i k) = Some (blk_page s (blks ! k), file_perm)"
  proof -
    have "data_vpn i k \<notin> data_vpn i ` set ks"
    proof
      assume "data_vpn i k \<in> data_vpn i ` set ks"
      then obtain l where "data_vpn i k = data_vpn i l" "l \<in> set ks" by (rule imageE)
      then show False using ne[of l] by simp
    qed
    from s'(5)[rule_format, OF this] show ?thesis by (simp add: s1(4))
  qed
  then show ?case using s1(1) s' va kept_trans[OF s1(2) s'(2)] s1(4) by auto
qed

lemma page_offs_0: "page_offs 0 sz = map (\<lambda>k. of_nat (k * 4096)) [0..<npages (unat sz)]"
  by (simp add: page_offs_def npages_def)

text \<open>The first descriptor that is not in use.\<close>

lemma fd_scan_first:
  "i \<in> set ns \<Longrightarrow> vpt s (fd_vpn i) = None \<Longrightarrow> \<forall>j \<in> set ns. j < i \<longrightarrow> vpt s (fd_vpn j) \<noteq> None \<Longrightarrow> sorted ns \<Longrightarrow> distinct ns \<Longrightarrow>
   fd_scan ns s = (0, INDEX2FD (int i))"
  by (induction ns) (auto simp: Let_def)

text \<open>A request to open a file that the server has in its cache, with a slot for it.\<close>

definition can_open_file :: "cst \<Rightarrow> u8 list \<Rightarrow> nat \<Rightarrow> ptr \<Rightarrow> nat list \<Rightarrow> bool" where
  "can_open_file s path q f blks \<longleftrightarrow> pages_ok s \<and> length path < MAXPATHLEN \<and> ids_ok (srv s) \<and>
     (\<exists>r. 0 \<le> r \<and> file_open path (fs (srv s)) = Ret ((r, Some f), fs (srv s))) \<and> mapped (fs (srv s)) (fst f) \<and>
     (\<exists>r sv. 0 \<le> r \<and> open_alloc (case srv_grants s of [] \<Rightarrow> - E_NO_MEM | g # _ \<Rightarrow> g) (server_view s\<lparr>req_mapped := True\<rparr>) = ((r, Some q), sv)) \<and>
     unat (cache (fs (srv s)) (fst f) (snd f + 32)) \<le> 0x400000 \<and>
     length blks = npages (unat (cache (fs (srv s)) (fst f) (snd f + 32))) \<and> cached (fs (srv s)) f blks"

lemma fsipc_open_ok:
  assumes c: "can_open_file s path q f blks" and m: "map_ok s = True # oks" and i: "i < 32" "vpt s (fd_vpn i) = None"
  shows "\<exists>s' fid. fsipc_open path mode (INDEX2FD (int i)) s = Ret (0, s') \<and> map_ok s' = oks \<and> pages_ok s' \<and> in_slot s' fid q f \<and>
    fs (srv s') = fs (srv s) \<and> vpt s' = (vpt s)(fd_vpn i := Some (ff_page s q, file_perm)) \<and> ff_page s' = ff_page s \<and> blk_page s' = blk_page s \<and>
    fds s' (ff_page s q) = \<lparr>fd_dev_id = 102, fd_offset = 0, fd_omode = mode\<rparr> \<and>
    filefds s' (ff_page s q) = \<lparr>f_fileid = fid, f_file = file_words (fs (srv s)) f\<rparr>"
proof -
  let ?fs = "fs (srv s)" and ?sv = "server_view s" and ?g = "case srv_grants s of [] \<Rightarrow> - E_NO_MEM | g # _ \<Rightarrow> g"
  let ?rq = "no_req\<lparr>req_path := path, req_omode := mode\<rparr>"
  obtain r sv where al: "0 \<le> r" "open_alloc ?g (?sv\<lparr>req_mapped := True\<rparr>) = ((r, Some q), sv)" using c by (auto simp: can_open_file_def)
  obtain r' where fo: "0 \<le> r'" "file_open path ?fs = Ret ((r', Some f), ?fs)" using c by (auto simp: can_open_file_def)
  note sc = open_scan_ok[OF al(2)[unfolded open_alloc_def]]
  let ?id = "o_fileid (opentab (srv s) q) + of_nat MAXOPEN"
  have sv: "sv = ?sv\<lparr>req_mapped := True, refs := (refs ?sv)(q := 1), opentab := (opentab (srv s))(q := (opentab (srv s) q)\<lparr>o_fileid := ?id\<rparr>),
      ffs := (ffs (srv s))(q := zero_ff)\<rparr>" using sc(4) by (simp add: server_view_def)
  have idq: "unat ?id mod MAXOPEN = q"
  proof -
    have "q < MAXOPEN" using sc(1) unfolding set_upt by simp
    then show ?thesis using c next_id by (simp add: can_open_file_def ids_ok_def)
  qed
  let ?o = "(opentab (srv s) q)\<lparr>o_fileid := ?id, o_file := Some f, o_mode := mode\<rparr>"
  let ?ff = "\<lparr>ff_file = file_words ?fs f, ff_fileid = ?id, ff_omode = mode, ff_dev_id = 102\<rparr>"
  let ?rep = "\<lparr>rp_to = me s, rp_val = 0, rp_page = FfPage q\<rparr>"
  let ?sv' = "?sv\<lparr>req_mapped := False, refs := (refs ?sv)(q := 2), opentab := (opentab (srv s))(q := ?o), ffs := (ffs (srv s))(q := ?ff),
      sent := sent (srv s) @ [?rep]\<rparr>"
  have so: "serve_open ?g (me s) ?rq (?sv\<lparr>req_mapped := True\<rparr>) = Ret (?sv'\<lparr>req_mapped := True\<rparr>)"
    using al fo c unfolding serve_open_def al(2)
    by (simp add: Let_def sv server_view_def no_req_def ipc_send_def can_open_file_def zero_ff_def numeral_2_eq_2)
  let ?s = "take_refs ?sv' (FfPage q) (s\<lparr>srv_grants := tl (srv_grants s)\<rparr>)" and ?p = "ff_page s q"
  let ?h = "\<lparr>fd_dev_id = 102, fd_offset = 0, fd_omode = mode\<rparr>" and ?f = "\<lparr>f_fileid = ?id, f_file = file_words ?fs f\<rparr>"
  let ?u = "?s\<lparr>fds := (fds s)(?p := ?h), filefds := (filefds s)(?p := ?f), map_ok := oks\<rparr>"
  let ?t = "map_page (INDEX2FD (int i)) ?p (PTE_D OR PTE_LIBRARY) ?u"
  have pq: "holds s ?p = Ff q" using c by (simp add: can_open_file_def pages_ok_def)
  have "serve_round ?g FSREQ_OPEN (me s) (PTE_D OR PTE_V) ?rq ?sv = Ret ?sv'"
    using so perm_bits(4) by (simp add: serve_round_def fsreq_codes)
  moreover have "drop (length (sent ?sv)) (sent ?sv') = [?rep]" by (simp add: server_view_def)
  moreover have "receive ?rep (INDEX2FD (int i)) ?s = Ret ?t"
    using m by (simp add: receive_def take_refs_def Let_def)
  ultimately have "fsipc FSREQ_OPEN ?rq (INDEX2FD (int i)) s = Ret ((0, PTE_V OR (PTE_D OR PTE_LIBRARY)), ?t)"
    by (simp add: fsipc_def Let_def fsreq_codes)
  then have "fsipc_open path mode (INDEX2FD (int i)) s = Ret (0, ?t)"
    using c by (simp add: fsipc_open_def can_open_file_def)
  moreover have "?t = ?u\<lparr>vpt := (vpt s)(fd_vpn i := Some (?p, file_perm)), pp_ref := (pp_ref ?u)(?p := pp_ref ?u ?p + 1)\<rparr>"
    using map_fresh[OF legal_fd[OF i(1)], of ?u ?p] i(2) by (simp add: take_refs_def)
  moreover have "pages_ok ?t" unfolding calculation(2) using c by (simp add: can_open_file_def pages_ok_def take_refs_def)
  moreover have "in_slot ?t ?id q f" unfolding calculation(2) using idq pq by (simp add: in_slot_def take_refs_def)
  ultimately show ?thesis by (intro exI[of _ ?t] exI[of _ ?id]) (simp add: take_refs_def server_view_def)
qed

lemma fd_alloc_first:
  "i < 31 \<Longrightarrow> vpt s (fd_vpn i) = None \<Longrightarrow> \<forall>j < i. vpt s (fd_vpn j) \<noteq> None \<Longrightarrow> fd_alloc s = (0, INDEX2FD (int i))"
  unfolding fd_alloc_def by (rule fd_scan_first) auto

abbreviation fsize :: "fss \<Rightarrow> ptr \<Rightarrow> nat" where
  "fsize s f \<equiv> unat (cache s (fst f) (snd f + 32))"

lemma open_ok:
  assumes c: "can_open_file s path q f blks" and path: "path \<noteq> []" "hd path = 47" and app: "O_APPEND AND mode = 0"
    and i: "i < 31" "vpt s (fd_vpn i) = None" "\<forall>j < i. vpt s (fd_vpn j) \<noteq> None"
    and un: "\<forall>k < length blks. vpt s (data_vpn i k) = None" and m: "map_ok s = True # replicate (length blks) True @ oks"
  shows "\<exists>s'. file_open_fd path mode s = Ret (int i, s') \<and> opened s' i q (fsize (fs (srv s)) f) blks \<and> fs (srv s') = fs (srv s) \<and>
    ff_page s' = ff_page s \<and> fds s' (ff_page s q) = \<lparr>fd_dev_id = 102, fd_offset = 0, fd_omode = mode\<rparr>"
proof -
  let ?fs = "fs (srv s)"
  have i32: "i < 32" using i(1) by simp
  have n: "fsize ?fs f \<le> 0x400000" "length blks = npages (fsize ?fs f)" using c by (simp_all add: can_open_file_def)
  have len: "length blks \<le> 1024" unfolding n(2) npages_def using n(1) by (auto intro: div_le_mono[of _ "0x400000 + 4095" 4096, simplified])
  obtain s1 fid where s1: "fsipc_open path mode (INDEX2FD (int i)) s = Ret (0, s1)" "map_ok s1 = replicate (length blks) True @ oks"
    "pages_ok s1" "in_slot s1 fid q f" "fs (srv s1) = ?fs" "vpt s1 = (vpt s)(fd_vpn i := Some (ff_page s q, file_perm))"
    "ff_page s1 = ff_page s" "blk_page s1 = blk_page s" "fds s1 (ff_page s q) = \<lparr>fd_dev_id = 102, fd_offset = 0, fd_omode = mode\<rparr>"
    "filefds s1 (ff_page s q) = \<lparr>f_fileid = fid, f_file = file_words ?fs f\<rparr>"
    using fsipc_open_ok[OF c m i32 i(2)] by blast
  have un': "\<forall>k \<in> set [0..<length blks]. vpt s1 (data_vpn i k) = None"
  proof
    fix k assume "k \<in> set [0..<length blks]"
    then have "k < length blks" by simp
    moreover have "fd_vpn i \<noteq> data_vpn i k" by (rule fd_data_vpn[OF i32 i32]) (use calculation len in simp)
    ultimately show "vpt s1 (data_vpn i k) = None" using un s1(6) by simp
  qed
  have sub: "set [0..<length blks] \<subseteq> {..<length blks}" by auto
  have cd: "cached (fs (srv s1)) f blks" using c s1(5) by (simp add: can_open_file_def)
  obtain s2 where s2: "map_file_pages (map (\<lambda>k. of_nat (k * 4096)) [0..<length blks]) fid (INDEX2DATA (int i)) s1 = Ret (0, s2)"
    "kept s1 s2" "\<forall>k \<in> set [0..<length blks]. vpt s2 (data_vpn i k) = Some (blk_page s1 (blks ! k), file_perm)"
    "\<forall>v. v \<notin> data_vpn i ` set [0..<length blks] \<longrightarrow> vpt s2 v = vpt s1 v"
    using map_file_pages_ok[OF s1(3,4) cd i32 len distinct_upt sub un', of oks] s1(2) by auto
  have "fd_vpn i \<notin> data_vpn i ` set [0..<length blks]"
  proof
    assume "fd_vpn i \<in> data_vpn i ` set [0..<length blks]"
    then obtain k where "fd_vpn i = data_vpn i k" "k \<in> set [0..<length blks]" by (rule imageE)
    then show False using fd_data_vpn[OF i32 i32, of k] len by simp
  qed
  then have v: "vpt s2 (fd_vpn i) = Some (ff_page s q, file_perm)" using s2(4) s1(6) by simp
  have sz: "file_size (filefds s1 (ff_page s q)) = cache ?fs (fst f) (snd f + 32)" using s1(10) by (simp add: file_size_def file_words_def)
  have "file_open_fd path mode s = Ret (int i, s2)"
    using fd_alloc_first[OF i] path s1 s2(1) app i32 sz n(2)
    by (simp add: file_open_fd_def abs_path_def get_ffd_def page_offs_0)
  moreover have "opened s2 i q (fsize ?fs f) blks"
    using v s2(2,3) s1 sz n i32 perm_bits(2) unfolding opened_def by (auto simp: kept_def kept_pages_ok[OF s2(2)])
  ultimately show ?thesis using s2(2) s1 by (auto simp: kept_def)
qed

lemma read_file_ok:
  assumes o: "opened s i q n blks" and dt: "has_files devtab" and m: "fd_omode (fds s (ff_page s q)) AND O_ACCMODE \<noteq> O_WRONLY"
    and off: "unat (fd_offset (fds s (ff_page s q))) \<le> n" "unat (fd_offset (fds s (ff_page s q))) + unat k < 2 ^ 32"
  shows "\<exists>s'. read_file devtab (int i) k s =
      Ret ((int (min (unat k) (n - unat (fd_offset (fds s (ff_page s q))))),
            take (unat k) (drop (unat (fd_offset (fds s (ff_page s q)))) (contents (fs (srv s)) blks n))), s') \<and>
    srv s' = srv s \<and> opened s' = opened s"
  using read_file_move[OF o dt m, of k] off by (auto simp: at_offset_def Let_def contents_def min.commute)

text \<open>
  C21. Opening a file and reading from it delivers its bytes: when the server has the file in its cache and a
  free slot, the client a free descriptor and room, \<open>open\<close> of an absolute path returns the lowest free
  descriptor, with every page of the file mapped to the server's block of that page, and \<open>read\<close> of up to
  \<open>k\<close> bytes returns the first \<open>k\<close> bytes of the file, or all when it is shorter. The server's memory is unchanged.
\<close>

theorem open_read_correct:
  assumes "can_open_file s path q f blks" "path \<noteq> []" "hd path = 47" "O_APPEND AND mode = 0" "mode AND O_ACCMODE \<noteq> O_WRONLY"
    and "i < 31" "vpt s (fd_vpn i) = None" "\<forall>j < i. vpt s (fd_vpn j) \<noteq> None"
    and "\<forall>k < length blks. vpt s (data_vpn i k) = None" "map_ok s = True # replicate (length blks) True @ oks"
    and "has_files devtab"
  shows "\<exists>s' s''. file_open_fd path mode s = Ret (int i, s') \<and> opened s' i q (fsize (fs (srv s)) f) blks \<and> fs (srv s') = fs (srv s) \<and>
    read_file devtab (int i) k s' = Ret ((int (min (unat k) (fsize (fs (srv s)) f)),
      take (unat k) (contents (fs (srv s)) blks (fsize (fs (srv s)) f))), s'') \<and> fs (srv s'') = fs (srv s)"
proof -
  obtain s' where s': "file_open_fd path mode s = Ret (int i, s')" "opened s' i q (fsize (fs (srv s)) f) blks" "fs (srv s') = fs (srv s)"
    "ff_page s' = ff_page s" "fds s' (ff_page s q) = \<lparr>fd_dev_id = 102, fd_offset = 0, fd_omode = mode\<rparr>"
    using open_ok[OF assms(1-4,6-10)] by blast
  have "unat k < 2 ^ 32" using unat_lt32[of k] by simp
  then show ?thesis using s' read_file_ok[OF s'(2) assms(11), of k] assms(5) by auto
qed

section \<open>A concrete client and server\<close>

definition demo_cst :: cst where
  "demo_cst = \<lparr>vpt = (\<lambda>_. None), fds = (\<lambda>_. no_fd), pp_ref = (\<lambda>_. 0), new_pages = [], map_ok = [True, True], ulog = [], keys = [],
     srv = demo_srv, holds = (\<lambda>p. if p mod 3 = 0 then Blk (p div 3) else if p mod 3 = 1 then Ff (p div 3) else Own),
     blk_page = (\<lambda>b. 3 * b), ff_page = (\<lambda>i. 3 * i + 1), srv_grants = [0], umem = (\<lambda>_ _. 0),
     filefds = (\<lambda>_. \<lparr>f_fileid = 0, f_file = (\<lambda>_. 0)\<rparr>), me = 0x1001, cwd = (0, [47])\<rparr>"

lemma demo_view: "server_view demo_cst\<lparr>req_mapped := True\<rparr> = demo_srv"
proof -
  have m: "req_mapped (serve_init_loop ns va s) = req_mapped s" for ns va s by (induction ns arbitrary: va s) auto
  have "refs demo_srv = (\<lambda>_. 0)" "req_mapped demo_srv" by (simp add: demo_srv_simps, simp add: demo_srv_def serve_init_def m)
  then have "demo_srv\<lparr>refs := \<lambda>_. 0, req_mapped := True\<rparr> = demo_srv" by (cases demo_srv) simp
  then show ?thesis by (simp add: server_view_def demo_cst_def)
qed

lemma demo_can_open: "can_open_file demo_cst [47] 0 s_root [3]"
proof -
  have fo: "file_open [47] demo_fs = Ret ((0, Some s_root), demo_fs)"
    by (simp add: file_open_def walk_path_def skip_slash_def s_root_def walk_loop.simps)
  have "block_is_free 3 demo_fs = Ret False" using block_is_free_ok[OF demo_fs_ok, of 3] by (simp add: demo_free_set)
  then have ca: "cached demo_fs s_root [3]"
    by (simp add: cached_def file_get_block_def file_map_block_def file_block_walk_def f_direct_def s_root_def ld_def demo_disk_def
        read_block_def s_nblocks_def block_is_mapped_def)
  have "pages_ok demo_cst" by (auto simp: pages_ok_def demo_cst_def split: if_splits) presburger+
  moreover have "ids_ok demo_srv" unfolding demo_srv_def by (rule serve_init_ids)
  moreover have "srv demo_cst = demo_srv" "srv_grants demo_cst = [0]" by (simp_all add: demo_cst_def)
  moreover have "npages 4096 = 1" by (simp add: npages_def)
  ultimately show ?thesis using fo ca demo_open_alloc demo_view
    by (simp add: can_open_file_def demo_srv_simps) (simp add: s_root_def demo_disk_def)
qed

lemma demo_cst_simps:
  "vpt demo_cst v = None" "map_ok demo_cst = True # replicate 1 True @ []" "srv demo_cst = demo_srv" "ff_page demo_cst 0 = 1"
  by (simp_all add: demo_cst_def)

lemma demo_size: "fsize (fs (srv demo_cst)) s_root = 4096"
  by (simp add: demo_cst_simps demo_srv_simps s_root_def demo_disk_def)

lemma demo_contents: "take 2 (contents (fs (srv demo_cst)) [3] 4096) = [0, 0]"
  by (simp add: contents_def take_map take_upt file_byte_def demo_cst_simps demo_srv_simps demo_disk_def word_byte_def numeral_2_eq_2)

theorem open_read_correct_witness:
  "\<exists>s' s''. file_open_fd [47] 0 demo_cst = Ret (0, s') \<and> read_file [devcons, devfile] 0 2 s' = Ret ((2, [0, 0]), s'')"
proof -
  have "has_files [devcons, devfile]" by (simp add: devcons_def devfile_def)
  then obtain s' s'' where "file_open_fd [47] 0 demo_cst = Ret (int 0, s')"
    "read_file [devcons, devfile] (int 0) 2 s' = Ret ((int (min (unat (2 :: u32)) (fsize (fs (srv demo_cst)) s_root)),
      take (unat (2 :: u32)) (contents (fs (srv demo_cst)) [3] (fsize (fs (srv demo_cst)) s_root))), s'')"
    using open_read_correct[OF demo_can_open, of 0 0 "[]" "[devcons, devfile]" 2] by (auto simp: demo_cst_simps)
  moreover have "unat (2 :: u32) = 2" by simp
  ultimately show ?thesis unfolding demo_size using demo_contents by auto
qed

text \<open>The root directory opened for reading and writing, and two bytes written to it.\<close>

theorem write_file_shared_witness:
  "\<exists>s s'. file_open_fd [47] 2 demo_cst = Ret (0, s) \<and> write_file [devcons, devfile] 0 [7, 8] s = Ret (2, s') \<and>
     contents (fs (srv s')) [3] 4096 = [7, 8] @ drop 2 (contents (fs (srv s)) [3] 4096) \<and> cache (fs (srv s')) 1 = cache (fs (srv s)) 1"
proof -
  have dt: "has_files [devcons, devfile]" by (simp add: devcons_def devfile_def)
  obtain s where s: "file_open_fd [47] 2 demo_cst = Ret (int 0, s)" "opened s 0 0 4096 [3]" "ff_page s 0 = 1"
    "fds s 1 = \<lparr>fd_dev_id = 102, fd_offset = 0, fd_omode = 2\<rparr>"
    using open_ok[OF demo_can_open, of 2 0 "[]"] unfolding demo_size by (auto simp: demo_cst_simps O_APPEND_def)
  then show ?thesis using write_file_shared[OF s(2) dt, of "[7, 8]"] by (auto simp: Let_def numeral_2_eq_2)
qed

text \<open>A client that has a file of the given bytes open as descriptor 0, for reading, and the console as descriptor 1.\<close>

definition holding :: "u8 list \<Rightarrow> cst" where
  "holding bs = demo_cst\<lparr>vpt := (\<lambda>_. None)(fd_vpn 0 := Some (1, 0), data_vpn 0 0 := Some (9, PTE_D), fd_vpn 1 := Some (8, 0)),
     fds := (\<lambda>_. \<lparr>fd_dev_id = 102, fd_offset = 0, fd_omode = 0\<rparr>)(8 := \<lparr>fd_dev_id = 99, fd_offset = 0, fd_omode = O_RDWR\<rparr>),
     filefds := \<lambda>_. \<lparr>f_fileid = 0, f_file = (\<lambda>_. 0)(32 := of_nat (length bs))\<rparr>,
     srv := demo_srv\<lparr>fs := (fs demo_srv)\<lparr>cache := \<lambda>_ k. case word_at bs (4 * k) of Ret w \<Rightarrow> w | _ \<Rightarrow> 0\<rparr>\<rparr>\<rparr>"

lemma word_at_byte:
  assumes "4 * k + 4 \<le> length bin" "j < 4"
  shows "word_byte (case word_at bin (4 * k) of Ret w \<Rightarrow> w | _ \<Rightarrow> 0) j = bin ! (4 * k + j)"
proof -
  have w: "word_at bin (4 * k) = Ret (ucast (ucast (bin ! (4 * k)) OR push_bit 8 (ucast (bin ! (4 * k + 1))) :: u16) OR
      push_bit 16 (ucast (ucast (bin ! (4 * k + 2)) OR push_bit 8 (ucast (bin ! (4 * k + 3))) :: u16)))"
    using assms(1) by (simp add: word_at_def half_at_def byte_at_def numeral_3_eq_3)
  have z: "\<not> bit (x :: u8) (8 + n)" for x n by (auto dest: bit_imp_le_length)
  have "j = 0 \<or> j = 1 \<or> j = 2 \<or> j = 3" using assms(2) by auto
  then show ?thesis
    unfolding w res.case word_byte_def by (auto intro!: bit_word_eqI simp: bit_simps z)
qed

lemma holding_mode: "fd_omode (fds (holding bs) (ff_page (holding bs) 0)) AND O_ACCMODE \<noteq> O_WRONLY" "at_offset (holding bs) 0 = 0"
  by (simp_all add: holding_def demo_cst_def at_offset_def)

lemma holding_opened:
  assumes "length bs mod 4 = 0" "0 < length bs" "length bs \<le> 4096"
  shows "opened (holding bs) 0 0 (length bs) [3]" "contents (fs (srv (holding bs))) [3] (length bs) = bs"
proof -
  have "pages_ok (holding bs) = pages_ok demo_cst" by (simp add: pages_ok_def holding_def)
  then have "pages_ok (holding bs)" using demo_can_open by (simp add: can_open_file_def)
  moreover have "fd_vpn 0 \<noteq> data_vpn 0 0" "fd_vpn 1 \<noteq> data_vpn 0 0" "fd_vpn 0 \<noteq> fd_vpn 1"
    using fd_data_vpn[of 0 0 0] fd_data_vpn[of 1 0 0] fd_vpn_eq[of 0 1] by simp_all
  moreover have "npages (length bs) = 1"
  proof -
    have "1 \<le> length bs" using assms(2) by linarith
    then show ?thesis unfolding npages_def using assms(3) by (intro div_nat_eqI) simp_all
  qed
  moreover have "unat (of_nat (length bs) :: u32) = length bs" using assms(3) by (simp add: unat_of_nat)
  ultimately show "opened (holding bs) 0 0 (length bs) [3]"
    using assms(3) by (simp add: opened_def holding_def demo_cst_def file_size_def PTE_D_def)
  have nth: "file_byte (fs (srv (holding bs))) [3] j = bs ! j" if "j < length bs" for j
  proof -
    have j: "j mod 4096 = j" "4 * (j div 4) + j mod 4 = j" using that assms(3) by simp_all
    have "4 * (j div 4) + 4 \<le> length bs"
    proof -
      obtain m where m: "length bs = 4 * m" using assms(1) by (auto simp: mod_eq_0_iff_dvd)
      then have "j div 4 < m" using that by simp
      then show ?thesis using m by simp
    qed
    then show ?thesis using word_at_byte[of "j div 4" bs "j mod 4"] that j by (simp add: file_byte_def holding_def)
  qed
  show "contents (fs (srv (holding bs))) [3] (length bs) = bs"
    by (rule nth_equalityI) (simp_all add: contents_def nth)
qed

end
