(* ===== verification/Fprintf.thy ===== *)
theory Fprintf
  imports Debugf FileProps
begin

text \<open>
  Formatted output to descriptors, \<^verbatim>\<open>user/lib/fprintf.c\<close>, for every device. The locale \<open>byte_sink\<close> is the contract of
  a descriptor that takes what is written to it; it is interpreted on the console and on open files.
\<close>

section \<open>fprintf.c\<close>

text \<open>\<open>wr\<close> is \<open>write\<close> on the descriptor of the context; the data of the sink are \<open>ret\<close> and the state.\<close>

definition print_output :: "(u8 list \<Rightarrow> 's \<Rightarrow> (int \<times> 's) res) \<Rightarrow> (int \<times> 's) res sink" where
  "print_output wr d t = rbind d (\<lambda>(ret, s).
     if ret < 0 then Ret (ret, s)
     else rbind (wr (bytes_of t) s) (\<lambda>(r, s). if r < 0 then Ret (r, s) else Ret (ret + r, s)))"

definition vfprintf :: "'a ust_scheme dev list \<Rightarrow> (nat \<Rightarrow> char) \<Rightarrow> int \<Rightarrow> string \<Rightarrow> va list \<Rightarrow> 'a ust_scheme \<Rightarrow> (int \<times> 'a ust_scheme) res" where
  "vfprintf devtab stk fdnum fmt ap s = rbind (vprintfmt stk (print_output (write_file devtab fdnum)) (Ret (0, s)) fmt ap) (\<lambda>d. d)"

definition fprintf :: "'a ust_scheme dev list \<Rightarrow> (nat \<Rightarrow> char) \<Rightarrow> int \<Rightarrow> string \<Rightarrow> va list \<Rightarrow> 'a ust_scheme \<Rightarrow> (int \<times> 'a ust_scheme) res" where
  "fprintf devtab stk fdnum fmt ap s = vfprintf devtab stk fdnum fmt ap s"

definition printf :: "'a ust_scheme dev list \<Rightarrow> (nat \<Rightarrow> char) \<Rightarrow> string \<Rightarrow> va list \<Rightarrow> 'a ust_scheme \<Rightarrow> (int \<times> 'a ust_scheme) res" where
  "printf devtab stk fmt ap s = vfprintf devtab stk 1 fmt ap s"

section \<open>A descriptor that takes bytes\<close>

text \<open>
  In the states \<open>ok\<close> with \<open>n\<close> the descriptor takes \<open>n\<close> bytes more; \<open>wrote s bs s'\<close>: \<open>s'\<close> is what writing \<open>bs\<close> makes of \<open>s\<close>.
\<close>

locale byte_sink =
  fixes ok :: "'s \<Rightarrow> nat \<Rightarrow> bool" and wrote :: "'s \<Rightarrow> u8 list \<Rightarrow> 's \<Rightarrow> bool"
    and wr :: "u8 list \<Rightarrow> 's \<Rightarrow> (int \<times> 's) res"
  assumes takes: "ok s n \<Longrightarrow> length bs \<le> n \<Longrightarrow> \<exists>s'. wr bs s = Ret (int (length bs), s') \<and> ok s' (n - length bs) \<and> wrote s bs s'"
    and wrote_nil: "ok s n \<Longrightarrow> wrote s [] s"
    and append: "wrote s as t \<Longrightarrow> wrote t bs u \<Longrightarrow> wrote s (as @ bs) u"
begin

lemma prints:
  assumes "ok s n" "vprintfmt stk (@) [] fmt ap = Ret t" "length t \<le> n"
  shows "\<exists>s'. vprintfmt stk (print_output wr) (Ret (0, s)) fmt ap = Ret (Ret (int (length t), s')) \<and> ok s' (n - length t) \<and> wrote s (bytes_of t) s'"
proof -
  define R where "R = (\<lambda>d t. length t \<le> n \<longrightarrow> (\<exists>s'. d = Ret (int (length t), s') \<and> ok s' (n - length t) \<and> wrote s (bytes_of t) s'))"
  have agree: "sinks_agree R (print_output wr) (@)" unfolding sinks_agree_def
  proof (intro allI impI)
    fix d a b assume R: "R d a"
    show "R (print_output wr d b) (a @ b)" unfolding R_def
    proof
      assume l: "length (a @ b) \<le> n"
      then obtain s1 where s1: "d = Ret (int (length a), s1)" "ok s1 (n - length a)" "wrote s (bytes_of a) s1" using R by (auto simp: R_def)
      have "length (bytes_of b) \<le> n - length a" using l by (simp add: bytes_of_def)
      from takes[OF s1(2) this] obtain s2 where s2: "wr (bytes_of b) s1 = Ret (int (length b), s2)" "ok s2 (n - length a - length b)" "wrote s1 (bytes_of b) s2"
        by (auto simp: bytes_of_def)
      have "bytes_of (a @ b) = bytes_of a @ bytes_of b" by (simp add: bytes_of_def)
      then show "\<exists>s'. print_output wr d b = Ret (int (length (a @ b)), s') \<and> ok s' (n - length (a @ b)) \<and> wrote s (bytes_of (a @ b)) s'"
        using s1(1) s2(1,2) append[OF s1(3) s2(3)] by (simp add: print_output_def)
    qed
  qed
  have "wrote s [] s" by (rule wrote_nil[OF assms(1)])
  then have "R (Ret (0, s)) []" unfolding R_def using assms(1) by (simp add: bytes_of_def)
  from vprintfmt_agree[OF agree this] have "res_agree R (vprintfmt stk (print_output wr) (Ret (0, s)) fmt ap) (vprintfmt stk (@) [] fmt ap)" .
  then show ?thesis using assms(2,3) by (cases "vprintfmt stk (print_output wr) (Ret (0, s)) fmt ap") (auto simp: R_def)
qed

end

section \<open>The console\<close>

definition chars_of :: "u8 list \<Rightarrow> string" where
  "chars_of bs = map (\<lambda>b. char_of (unat b)) bs"

lemma chars_bytes: "chars_of (bytes_of t) = t"
  by (simp add: chars_of_def bytes_of_def comp_def char_byte)

text \<open>Descriptor \<open>i\<close> is a console that may be written.\<close>

definition cons_open :: "'a ust_scheme dev list \<Rightarrow> nat \<Rightarrow> 'a ust_scheme \<Rightarrow> bool" where
  "cons_open devtab i s \<longleftrightarrow> i < MAXFD \<and> find (\<lambda>d. dev_id d = 99) devtab = Some devcons \<and>
     (\<exists>p perm. vpt s (fd_vpn i) = Some (p, perm) \<and> fd_dev_id (fds s p) = 99 \<and> fd_omode (fds s p) AND O_ACCMODE \<noteq> O_RDONLY)"

text \<open>The output is appended, and the offset of the descriptor's page may have moved.\<close>

definition cons_wrote :: "nat \<Rightarrow> 'a ust_scheme \<Rightarrow> u8 list \<Rightarrow> 'a ust_scheme \<Rightarrow> bool" where
  "cons_wrote i s bs s' \<longleftrightarrow> (\<exists>f. s' = s\<lparr>fds := f, ulog := ulog s @ chars_of bs\<rparr> \<and>
     (\<forall>p. fd_dev_id (f p) = fd_dev_id (fds s p) \<and> fd_omode (f p) = fd_omode (fds s p)) \<and>
     (\<forall>p. f p \<noteq> fds s p \<longrightarrow> (\<exists>perm. vpt s (fd_vpn i) = Some (p, perm))))"

lemma cons_takes:
  assumes "cons_open devtab i s"
  shows "\<exists>s'. write_file devtab (int i) bs s = Ret (int (length bs), s') \<and> cons_open devtab i s' \<and> cons_wrote i s bs s'"
proof -
  obtain p perm where p: "vpt s (fd_vpn i) = Some (p, perm)" "fd_dev_id (fds s p) = 99" "fd_omode (fds s p) AND O_ACCMODE \<noteq> O_RDONLY"
    and i: "i < 32" "find (\<lambda>d. dev_id d = 99) devtab = Some devcons" using assms by (auto simp: cons_open_def)
  let ?s = "s\<lparr>ulog := ulog s @ chars_of bs\<rparr>"
  let ?f = "if bs = [] then fds s else (fds s)(p := (fds s p)\<lparr>fd_offset := fd_offset (fds s p) + of_nat (length bs)\<rparr>)"
  have "write_file devtab (int i) bs s = Ret (int (length bs), ?s\<lparr>fds := ?f\<rparr>)"
    using p i by (simp add: write_file_def with_dev_def fd_lookup_def get_fd_def dev_lookup_def devcons_def cons_write_def add_offset_def
        set_fd_def Let_def chars_of_def)
  moreover have "cons_wrote i s bs (?s\<lparr>fds := ?f\<rparr>)" unfolding cons_wrote_def
    by (rule exI[of _ ?f]) (use p(1) in auto)
  moreover have "cons_open devtab i (?s\<lparr>fds := ?f\<rparr>)" using p i by (auto simp: cons_open_def)
  ultimately show ?thesis by blast
qed

lemma cons_wrote_append: "cons_wrote i s as t \<Longrightarrow> cons_wrote i t bs u \<Longrightarrow> cons_wrote i s (as @ bs) u"
  unfolding cons_wrote_def chars_of_def
proof (elim exE conjE, goal_cases)
  case (1 f g)
  then show ?case by (intro exI[of _ g]) (simp, metis)
qed

interpretation con: byte_sink "\<lambda>s n. cons_open devtab i s" "cons_wrote i" "write_file devtab (int i)" for devtab i
proof unfold_locales
  fix s :: "'a ust_scheme" assume "cons_open devtab i s"
  show "cons_wrote i s [] s" unfolding cons_wrote_def by (rule exI[of _ "fds s"]) (simp add: chars_of_def)
qed (rule cons_takes cons_wrote_append, assumption+)+

lemma fprintf_console_ok:
  assumes "cons_open devtab i s" "vprintfmt stk (@) [] fmt ap = Ret t"
  shows "\<exists>s'. vfprintf devtab stk (int i) fmt ap s = Ret (int (length t), s') \<and> cons_open devtab i s' \<and> cons_wrote i s (bytes_of t) s'"
  using con.prints[OF assms order_refl] by (auto simp: vfprintf_def)

section \<open>Open files\<close>

text \<open>An open file takes as many bytes as there are from its offset to its end.\<close>

definition file_sink :: "cst dev list \<Rightarrow> nat \<Rightarrow> nat \<Rightarrow> nat \<Rightarrow> nat list \<Rightarrow> cst \<Rightarrow> nat \<Rightarrow> bool" where
  "file_sink devtab i q n blks s m \<longleftrightarrow> opened s i q n blks \<and> has_files devtab \<and> distinct blks \<and>
     fd_omode (fds s (ff_page s q)) AND O_ACCMODE \<noteq> O_RDONLY \<and> at_offset s q + m \<le> n"

definition file_wrote :: "nat \<Rightarrow> nat \<Rightarrow> nat list \<Rightarrow> cst \<Rightarrow> u8 list \<Rightarrow> cst \<Rightarrow> bool" where
  "file_wrote q n blks s bs s' \<longleftrightarrow> n \<le> 0x400000 \<and> at_offset s q + length bs \<le> n \<and>
     (\<exists>f. s' = move_fd q (length bs) (set_fs f s) \<and> spliced blks n (at_offset s q) bs (fs (srv s)) f)"

lemma spliced_append:
  assumes "spliced blks n j as f f1" "spliced blks n (j + length as) bs f1 f2"
  shows "spliced blks n j (as @ bs) f f2"
proof -
  have "\<exists>c. f2 = f\<lparr>cache := c\<rparr>" using assms by (auto simp: spliced_def)
  moreover have "file_byte f2 blks x = (if j \<le> x \<and> x < j + length (as @ bs) then (as @ bs) ! (x - j) else file_byte f blks x)"
    if "x < n \<or> x < 4096 * length blks" for x
    using assms that by (auto simp: spliced_def nth_append)
  ultimately show ?thesis using assms by (simp add: spliced_def)
qed

interpretation fil: byte_sink "file_sink devtab i q n blks" "file_wrote q n blks" "write_file devtab (int i)" for devtab i q n blks
proof unfold_locales
  fix s m and bs :: "u8 list" assume s: "file_sink devtab i q n blks s m" "length bs \<le> m"
  then have o': "opened s i q n blks" "has_files devtab" "distinct blks" "fd_omode (fds s (ff_page s q)) AND O_ACCMODE \<noteq> O_RDONLY"
    and l: "at_offset s q + length bs \<le> n" "n \<le> 0x400000" "at_offset s q + m \<le> n" by (auto simp: file_sink_def opened_def)
  have "at_offset (move_fd q (length bs) s) q = at_offset s q + length bs" by (rule at_offset_move) (use l in simp)
  then show "\<exists>s'. write_file devtab (int i) bs s = Ret (int (length bs), s') \<and> file_sink devtab i q n blks s' (m - length bs) \<and> file_wrote q n blks s bs s'"
    using write_file_move[OF o' l(1)] o' l s(2) by (auto simp: file_sink_def file_wrote_def)
next
  fix s m assume "file_sink devtab i q n blks s m"
  then show "file_wrote q n blks s [] s"
    using spliced_refl[of blks n "at_offset s q" "fs (srv s)"]
    by (auto simp: file_wrote_def file_sink_def opened_def set_fs_def intro!: exI[of _ "fs (srv s)"])
next
  fix s t u and as bs :: "u8 list" assume a: "file_wrote q n blks s as t" "file_wrote q n blks t bs u"
  obtain f where f: "t = move_fd q (length as) (set_fs f s)" "spliced blks n (at_offset s q) as (fs (srv s)) f" using a(1) by (auto simp: file_wrote_def)
  obtain g where g: "u = move_fd q (length bs) (set_fs g t)" "spliced blks n (at_offset t q) bs (fs (srv t)) g" using a(2) by (auto simp: file_wrote_def)
  have "at_offset (move_fd q (length as) s) q = at_offset s q + length as"
    by (rule at_offset_move) (use a(1) in \<open>simp add: file_wrote_def\<close>)
  then have at: "at_offset t q = at_offset s q + length as" "fs (srv t) = f" using f(1) by simp_all
  have "u = move_fd q (length (as @ bs)) (set_fs g s)" using f(1) g(1) by (simp add: move_fd_move)
  moreover have "spliced blks n (at_offset s q) (as @ bs) (fs (srv s)) g" using spliced_append[OF f(2)] g(2) at by simp
  ultimately show "file_wrote q n blks s (as @ bs) u" using a at(1) by (auto simp: file_wrote_def)
qed

section \<open>Properties\<close>

text \<open>
  Formatted output to the console: \<open>fprintf\<close> returns the length of the text that the format and the arguments mean and appends
  exactly this text to what the console shows; besides the offset of the descriptor nothing changes.
\<close>

theorem fprintf_console:
  assumes "cons_open devtab i s" "vprintfmt stk (@) [] fmt ap = Ret t"
  shows "\<exists>s'. fprintf devtab stk (int i) fmt ap s = Ret (int (length t), s') \<and> ulog s' = ulog s @ t \<and> cons_open devtab i s' \<and>
    vpt s' = vpt s \<and> keys s' = keys s \<and> ust.more s' = ust.more s \<and>
    (\<forall>p. fds s' p \<noteq> fds s p \<longrightarrow> (\<exists>perm. vpt s (fd_vpn i) = Some (p, perm)) \<and> fds s' p = (fds s p)\<lparr>fd_offset := fd_offset (fds s' p)\<rparr>)"
proof -
  obtain s' where s': "vfprintf devtab stk (int i) fmt ap s = Ret (int (length t), s')" "cons_open devtab i s'" "cons_wrote i s (bytes_of t) s'"
    using fprintf_console_ok[OF assms] by blast
  have f: "g = f\<lparr>fd_offset := fd_offset g\<rparr>" if "fd_dev_id g = fd_dev_id f" "fd_omode g = fd_omode f" for f g :: fd
    using that by (cases f; cases g) simp
  from s'(3) obtain g where g: "s' = s\<lparr>fds := g, ulog := ulog s @ t\<rparr>" "\<forall>p. fd_dev_id (g p) = fd_dev_id (fds s p) \<and> fd_omode (g p) = fd_omode (fds s p)"
    "\<forall>p. g p \<noteq> fds s p \<longrightarrow> (\<exists>perm. vpt s (fd_vpn i) = Some (p, perm))" by (auto simp: cons_wrote_def chars_bytes)
  show ?thesis unfolding fprintf_def using s'(1,2) g f by (intro exI[of _ s']) auto
qed

definition out_ust :: ust where
  "out_ust = \<lparr>vpt = (\<lambda>_. None)(fd_vpn 1 := Some (7, PTE_V)), fds = (\<lambda>_. \<lparr>fd_dev_id = 99, fd_offset = 0, fd_omode = O_RDWR\<rparr>),
     pp_ref = (\<lambda>_. 1), new_pages = [], map_ok = [], ulog = ''$ '', keys = []\<rparr>"

theorem fprintf_console_witness:
  "\<exists>s'. fprintf [devcons] (\<lambda>_. CHR ''?'') 1 ''n=%d;'' [AInt 0xFFFFFFD6] out_ust = Ret (6, s') \<and> ulog s' = ''$ n=-42;''"
proof -
  have o': "cons_open [devcons] 1 out_ust" by (simp add: cons_open_def out_ust_def devcons_def)
  have n: "num_text (nat \<bar>sint (0xFFFFFFD6 :: u32)\<bar>) 10 (sint (0xFFFFFFD6 :: u32) < 0) 0 False CHR '' '' False = ''-42''"
    unfolding sint32 by simp code_simp
  have t: "vprintfmt (\<lambda>_. CHR ''?'') (@) [] ''n=%d;'' [AInt 0xFFFFFFD6] = Ret ''n=-42;''"
    using vprintfmt_decimal_ok[of "''n=''" "\<lambda>_. CHR ''?''" "(@)" "[]" "'';''" "0xFFFFFFD6" "[]"]
      vprintfmt_lit(1)[of "'';''" "\<lambda>_. CHR ''?''" "(@)" "''n=-42''" "[]"] unfolding n by simp
  from fprintf_console[OF o' t] show ?thesis by (auto simp: out_ust_def)
qed

text \<open>
  C37. Formatted output into a file: when the text that the format and the arguments mean fits between the offset of an open
  file and its end, \<open>fprintf\<close> returns its length and the file holds the text at that place; and the offset is behind the text. Nothing
  else changes: the new state is the old one with the offset moved by the length of the text and with a cache that differs
  in those bytes of the file's blocks only, so all other descriptors, mappings, and the rest of the server are as before.
\<close>

theorem fprintf_file:
  assumes "opened s i q n blks" "has_files devtab" "distinct blks" "fd_omode (fds s (ff_page s q)) AND O_ACCMODE \<noteq> O_RDONLY"
    and t: "vprintfmt stk (@) [] fmt ap = Ret t" and fits: "at_offset s q + length t \<le> n"
  shows "\<exists>s'. fprintf devtab stk (int i) fmt ap s = Ret (int (length t), s') \<and> opened s' i q n blks \<and> at_offset s' q = at_offset s q + length t \<and>
    contents (fs (srv s')) blks n = (let c = contents (fs (srv s)) blks n
      in take (at_offset s q) c @ bytes_of t @ drop (at_offset s q + length t) c) \<and>
    (\<exists>c. s' = s\<lparr>fds := (fds s)(ff_page s q := (fds s (ff_page s q))\<lparr>fd_offset := fd_offset (fds s (ff_page s q)) + of_nat (length t)\<rparr>),
        srv := (srv s)\<lparr>fs := (fs (srv s))\<lparr>cache := c\<rparr>\<rparr>\<rparr> \<and> (\<forall>b. b \<notin> set blks \<longrightarrow> c b = cache (fs (srv s)) b)) \<and>
    (\<forall>x < 4096 * length blks. x < at_offset s q \<or> at_offset s q + length t \<le> x \<longrightarrow>
      file_byte (fs (srv s')) blks x = file_byte (fs (srv s)) blks x)"
proof -
  have "file_sink devtab i q n blks s (length t)" using assms by (simp add: file_sink_def)
  from fil.prints[OF this t order_refl] obtain s' f where s': "vfprintf devtab stk (int i) fmt ap s = Ret (int (length t), s')" "file_sink devtab i q n blks s' 0"
    "s' = move_fd q (length t) (set_fs f s)" "spliced blks n (at_offset s q) (bytes_of t) (fs (srv s)) f" "n \<le> 0x400000"
    by (auto simp: vfprintf_def file_wrote_def bytes_of_def)
  have "at_offset (move_fd q (length t) s) q = at_offset s q + length t" by (rule at_offset_move) (use fits s'(5) in simp)
  moreover have lt: "length (bytes_of t) = length t" by (simp add: bytes_of_def)
  moreover obtain c where c: "f = (fs (srv s))\<lparr>cache := c\<rparr>" "\<forall>b. b \<notin> set blks \<longrightarrow> c b = cache (fs (srv s)) b"
    using s'(4) by (auto simp: spliced_def)
  moreover have "s' = s\<lparr>fds := (fds s)(ff_page s q := (fds s (ff_page s q))\<lparr>fd_offset := fd_offset (fds s (ff_page s q)) + of_nat (length t)\<rparr>),
      srv := (srv s)\<lparr>fs := (fs (srv s))\<lparr>cache := c\<rparr>\<rparr>\<rparr>"
    unfolding s'(3) c(1) by (simp add: move_fd_def set_fs_def)
  moreover have "file_byte f blks x = file_byte (fs (srv s)) blks x"
    if "x < 4096 * length blks" "x < at_offset s q \<or> at_offset s q + length t \<le> x" for x
    using s'(4) that lt by (auto simp: spliced_def)
  moreover have "fs (srv s') = f" by (simp add: s'(3))
  moreover have "at_offset s' q = at_offset (move_fd q (length t) s) q" by (simp add: s'(3) at_offset_def fds_move_fd)
  ultimately show ?thesis unfolding fprintf_def
    using s'(1,2) spliced_contents[OF s'(4)] fits by (intro exI[of _ s'] conjI exI[of _ c]) (simp_all add: file_sink_def Let_def)
qed

theorem fprintf_file_witness:
  "\<exists>s s'. file_open_fd [47] 2 demo_cst = Ret (0, s) \<and> fprintf [devcons, devfile] (\<lambda>_. CHR ''?'') 0 ''ok'' [] s = Ret (2, s') \<and>
     contents (fs (srv s')) [3] 4096 = [111, 107] @ drop 2 (contents (fs (srv s)) [3] 4096)"
proof -
  have dt: "has_files [devcons, devfile]" by (simp add: devcons_def devfile_def)
  obtain s where s: "file_open_fd [47] 2 demo_cst = Ret (int 0, s)" "opened s 0 0 4096 [3]" "ff_page s 0 = 1"
    "fds s 1 = \<lparr>fd_dev_id = 102, fd_offset = 0, fd_omode = 2\<rparr>"
    using open_ok[OF demo_can_open, of 2 0 "[]"] unfolding demo_size by (auto simp: demo_cst_simps O_APPEND_def)
  have t: "vprintfmt (\<lambda>_. CHR ''?'') (@) [] ''ok'' [] = Ret ''ok''"
    using vprintfmt_lit(1)[of "''ok''" "\<lambda>_. CHR ''?''" "(@)" "[]" "[]"] by simp
  have a: "at_offset s 0 = 0" using s(3,4) by (simp add: at_offset_def)
  have b: "bytes_of ''ok'' = [111, 107]" by (simp add: bytes_of_def)
  have m: "fd_omode (fds s (ff_page s 0)) AND O_ACCMODE \<noteq> O_RDONLY" using s(3,4) by simp
  from fprintf_file[OF s(2) dt _ m t] show ?thesis using s(1) by (auto simp: a b Let_def numeral_2_eq_2)
qed

end
