(* ===== verification/Programs.thy ===== *)
theory Programs
  imports Fprintf
begin

text \<open>
  The small user programs, \<^verbatim>\<open>user/cat.c\<close>, \<^verbatim>\<open>num.c\<close>, \<^verbatim>\<open>echo.c\<close>, \<^verbatim>\<open>grep.c\<close>, \<^verbatim>\<open>history.c\<close>, \<^verbatim>\<open>mkdir.c\<close>, \<^verbatim>\<open>touch.c\<close>, \<^verbatim>\<open>pwd.c\<close>,
  \<^verbatim>\<open>unset.c\<close>, \<^verbatim>\<open>ls.c\<close>, \<^verbatim>\<open>tree.c\<close>, \<^verbatim>\<open>find.c\<close>, \<^verbatim>\<open>rm.c\<close>, on the client of the file system. \<open>argv\<close> holds the arguments, the name of the
  program first; strings are bytes without their NUL. The result of a program is the state in which it
  calls \<open>exit\<close>; \<open>user_panic\<close> is a panic. \<open>debugf\<close> appends to the output what the formatter produces
  (\<open>debugf_prints\<close>). Loops that end only with their input are partial functions. The recursion of \<open>tree\<close>, \<open>find\<close> and \<open>rm\<close> over
  directories is a loop with the stack of the open calls.
\<close>

section \<open>Results\<close>

definition ores :: "'a res \<Rightarrow> ('a \<Rightarrow> 'b res option) \<Rightarrow> 'b res option" where
  "ores r f = (case r of Ret x \<Rightarrow> f x | Panic e \<Rightarrow> Some (Panic e) | Fault e \<Rightarrow> Some (Fault e))"

lemma ores_simps [simp]: "ores (Ret x) f = f x" "ores (Panic e) f = Some (Panic e)" "ores (Fault e) f = Some (Fault e)"
  by (simp_all add: ores_def)

lemma ores_mono [partial_function_mono]:
  "(\<And>x. monotone (fun_ord option_ord) option_ord (\<lambda>F. f F x)) \<Longrightarrow> monotone (fun_ord option_ord) option_ord (\<lambda>F. ores r (f F))"
  by (cases r) (simp_all add: monotone_def option.leq_refl)

definition say :: "(nat \<Rightarrow> char) \<Rightarrow> string \<Rightarrow> va list \<Rightarrow> cst \<Rightarrow> cst res" where
  "say stk fmt ap c = rbind (vprintfmt stk (@) [] fmt ap) (\<lambda>t. Ret (c\<lparr>ulog := ulog c @ t\<rparr>))"

definition show_text :: "cst dev list \<Rightarrow> (nat \<Rightarrow> char) \<Rightarrow> string \<Rightarrow> va list \<Rightarrow> cst \<Rightarrow> cst res" where
  "show_text devtab stk fmt ap c = rbind (printf devtab stk fmt ap c) (\<lambda>(_, c). Ret c)"

section \<open>Options, \<^verbatim>\<open>include/args.h\<close>\<close>

text \<open>
  \<open>ARGBEGIN\<close> over the arguments behind the name of the program: the option characters seen, and the other
  arguments; \<open>None\<close> when a character is none of \<open>al\<close>.
\<close>

fun arg_flags :: "u8 set \<Rightarrow> u8 list list \<Rightarrow> u8 set \<Rightarrow> (u8 set \<times> u8 list list) option" where
  "arg_flags al [] fl = Some (fl, [])"
| "arg_flags al (a # as) fl =
     (if 2 \<le> length a \<and> hd a = 45
      then if a = [45, 45] then Some (fl, as)
        else if set (tl a) \<subseteq> al then arg_flags al as (fl \<union> set (tl a)) else None
      else Some (fl, a # as))"

section \<open>cat\<close>

partial_function (option) cat :: "cst dev list \<Rightarrow> int \<Rightarrow> cst \<Rightarrow> cst res option" where
  "cat devtab f c = ores (read_file devtab f 8192 c) (\<lambda>x. case x of ((n, bs), c) \<Rightarrow>
     if 0 < n
     then ores (write_file devtab 1 bs c) (\<lambda>y. case y of (r, c) \<Rightarrow>
       if r \<noteq> n then Some (Panic ''write error copying %s: %d'') else cat devtab f c)
     else if n < 0 then Some (Panic ''error reading %s: %d'') else Some (Ret c))"

fun cat_files :: "cst dev list \<Rightarrow> u8 list list \<Rightarrow> cst \<Rightarrow> cst res option" where
  "cat_files devtab [] c = Some (Ret c)"
| "cat_files devtab (a # as) c = ores (file_open_fd a O_RDONLY c) (\<lambda>(f, c).
     if f < 0 then Some (Panic ''can't open %s: %d'')
     else Option.bind (cat devtab f c) (\<lambda>r. ores r (\<lambda>c.
       ores (close_file devtab f c) (\<lambda>(_, c). cat_files devtab as c))))"

definition cat_main :: "cst dev list \<Rightarrow> u8 list list \<Rightarrow> cst \<Rightarrow> cst res option" where
  "cat_main devtab argv c = (if length argv = 1 then cat devtab 0 c else cat_files devtab (tl argv) c)"

section \<open>num\<close>

text \<open>\<open>bol\<close> and \<open>line\<close> are globals, kept from file to file.\<close>

partial_function (option) num :: "cst dev list \<Rightarrow> (nat \<Rightarrow> char) \<Rightarrow> int \<Rightarrow> bool \<Rightarrow> u32 \<Rightarrow> cst \<Rightarrow> ((bool \<times> u32) \<times> cst) res option" where
  "num devtab stk f bol line c = ores (read_file devtab f 1 c) (\<lambda>x. case x of ((n, bs), c) \<Rightarrow>
     if 0 < n
     then ores (if bol then rbind (printf devtab stk ''%5d '' [AInt (line + 1)] c) (\<lambda>(_, c). Ret ((False, line + 1), c)) else Ret ((bol, line), c))
       (\<lambda>y. case y of ((bol, line), c) \<Rightarrow>
         ores (printf devtab stk ''%c'' [AInt (scast (hd bs))] c) (\<lambda>z. case z of (r, c) \<Rightarrow>
           if r \<noteq> 1 then Some (Panic ''write error copying %s: %d'')
           else num devtab stk f (if hd bs = 10 then True else bol) line c))
     else if n < 0 then Some (Panic ''error reading %s: %d'') else Some (Ret ((bol, line), c)))"

fun num_files :: "cst dev list \<Rightarrow> (nat \<Rightarrow> char) \<Rightarrow> u8 list list \<Rightarrow> bool \<Rightarrow> u32 \<Rightarrow> cst \<Rightarrow> cst res option" where
  "num_files devtab stk [] bol line c = Some (Ret c)"
| "num_files devtab stk (a # as) bol line c = ores (file_open_fd a O_RDONLY c) (\<lambda>(f, c).
     if f < 0 then Some (Panic ''can't open %s: %d'')
     else Option.bind (num devtab stk f bol line c) (\<lambda>r. ores r (\<lambda>((bol, line), c).
       ores (close_file devtab f c) (\<lambda>(_, c). num_files devtab stk as bol line c))))"

definition num_main :: "cst dev list \<Rightarrow> (nat \<Rightarrow> char) \<Rightarrow> u8 list list \<Rightarrow> cst \<Rightarrow> cst res option" where
  "num_main devtab stk argv c =
     (if length argv = 1 then map_option (\<lambda>r. rbind r (\<lambda>(_, c). Ret c)) (num devtab stk 0 True 0 c)
      else num_files devtab stk (tl argv) True 0 c)"

section \<open>echo\<close>

fun echo_words :: "cst dev list \<Rightarrow> (nat \<Rightarrow> char) \<Rightarrow> bool \<Rightarrow> u8 list list \<Rightarrow> cst \<Rightarrow> cst res" where
  "echo_words devtab stk later [] c = Ret c"
| "echo_words devtab stk later (a # as) c =
     rbind (if later then show_text devtab stk '' '' [] c else Ret c) (\<lambda>c.
     rbind (show_text devtab stk ''%s'' [AStr (chars_of a)] c) (echo_words devtab stk True as))"

definition echo_main :: "cst dev list \<Rightarrow> (nat \<Rightarrow> char) \<Rightarrow> u8 list list \<Rightarrow> cst \<Rightarrow> cst res" where
  "echo_main devtab stk argv c =
     (let nflag = (1 < length argv \<and> argv ! 1 = [45, 110]);
          args = (if nflag then drop 2 argv else drop 1 argv)
      in rbind (echo_words devtab stk False args c) (\<lambda>c.
         if \<not> nflag then show_text devtab stk [CHR 0x0A] [] c else Ret c))"

section \<open>grep\<close>

text \<open>The search of the pattern in the line: \<open>tpl\<close> is the place in the line, \<open>pp\<close> is at \<open>len\<close> in the pattern.\<close>

function grep_match :: "u8 list \<Rightarrow> u8 list \<Rightarrow> nat \<Rightarrow> nat \<Rightarrow> bool res" where
  "grep_match pat line tpl len =
     (if tpl < length line
      then if length pat < len then Fault ''outside of the pattern''
        else if (if len < length pat then pat ! len else 0) = line ! tpl
        then if len + 1 = length pat then Ret True else grep_match pat line (tpl + 1) (len + 1)
        else grep_match pat line (tpl - len + 1) 0
      else Ret False)"
  by pat_completeness auto

termination
  by (relation "measures [\<lambda>(pat, line, tpl, len). length line - (tpl - len), \<lambda>(pat, line, tpl, len). length line - tpl]") auto

declare grep_match.simps [simp del]

text \<open>The bytes of one read; \<open>lb\<close> are those before \<open>plb\<close> in \<open>lbuf\<close>. A line is the format of \<open>printf\<close>.\<close>

fun grep_bytes :: "cst dev list \<Rightarrow> (nat \<Rightarrow> char) \<Rightarrow> u8 list \<Rightarrow> u8 list \<Rightarrow> u8 list \<Rightarrow> cst \<Rightarrow> (u8 list \<times> cst) res" where
  "grep_bytes devtab stk pat [] lb c = Ret (lb, c)"
| "grep_bytes devtab stk pat (b # bs) lb c =
     (if 512 \<le> length lb then Fault ''lbuf overflows''
      else if b = 10
      then if 511 \<le> length lb then Fault ''lbuf overflows''
        else rbind (grep_match pat (lb @ [10]) 0 0) (\<lambda>found.
          rbind (if found then show_text devtab stk (chars_of (takeWhile (\<lambda>b. b \<noteq> 0) (lb @ [10]))) [] c else Ret c) (grep_bytes devtab stk pat bs []))
      else grep_bytes devtab stk pat bs (lb @ [b]) c)"

partial_function (option) grep :: "cst dev list \<Rightarrow> (nat \<Rightarrow> char) \<Rightarrow> int \<Rightarrow> u8 list \<Rightarrow> u8 list \<Rightarrow> cst \<Rightarrow> cst res option" where
  "grep devtab stk f pat lb c = ores (read_file devtab f 512 c) (\<lambda>x. case x of ((n, bs), c) \<Rightarrow>
     if 0 < n then ores (grep_bytes devtab stk pat bs lb c) (\<lambda>y. case y of (lb, c) \<Rightarrow> grep devtab stk f pat lb c)
     else if n < 0 then Some (Panic ''error reading file: %d'') else Some (Ret c))"

definition grep_main :: "cst dev list \<Rightarrow> (nat \<Rightarrow> char) \<Rightarrow> u8 list list \<Rightarrow> cst \<Rightarrow> cst res option" where
  "grep_main devtab stk argv c =
     (if length argv < 2 then Some (Fault ''NULL string'')
      else if length argv = 2 then grep devtab stk 0 (argv ! 1) [] c
      else ores (file_open_fd (argv ! 2) O_RDONLY c) (\<lambda>(f, c). grep devtab stk f (argv ! 1) [] c))"

section \<open>history\<close>

partial_function (option) history_loop :: "cst dev list \<Rightarrow> (nat \<Rightarrow> char) \<Rightarrow> int \<Rightarrow> bool \<Rightarrow> u32 \<Rightarrow> cst \<Rightarrow> cst res option" where
  "history_loop devtab stk f newline linecnt c = ores (read_file devtab f 1 c) (\<lambda>x. case x of ((r, bs), c) \<Rightarrow>
     if r = 1
     then ores (if newline then show_text devtab stk ''%5d  '' [AInt linecnt] c else Ret c) (\<lambda>c.
       ores (show_text devtab stk ''%c'' [AInt (scast (hd bs))] c) (\<lambda>c.
         history_loop devtab stk f (hd bs = 10) (if newline then linecnt + 1 else linecnt) c))
     else Some (Ret c))"

definition history_main :: "cst dev list \<Rightarrow> (nat \<Rightarrow> char) \<Rightarrow> u8 list list \<Rightarrow> cst \<Rightarrow> cst res option" where
  "history_main devtab stk argv c =
     (if length argv \<noteq> 1 then Some (show_text devtab stk (''usage: history'' @ [CHR 0x0A]) [] c)
      else ores (file_open_fd (bytes_of ''/.history'') O_RDONLY c) (\<lambda>(r, c).
        if r < 0 then Some (Panic ''can't open file .history: %d'') else history_loop devtab stk r True 0 c))"

section \<open>mkdir, touch, pwd and unset\<close>

text \<open>Every round of the loops of \<open>mkdir\<close> and \<open>touch\<close> creates \<open>argv[1]\<close>.\<close>

fun create_each :: "u32 \<Rightarrow> u8 list \<Rightarrow> u8 list list \<Rightarrow> cst \<Rightarrow> cst res" where
  "create_each ty argv1 [] c = Ret c"
| "create_each ty argv1 (a # as) c = rbind (file_open_fd a O_RDONLY c) (\<lambda>(f, c).
     if 0 \<le> f then Panic ''%s already exists''
     else rbind (file_create_path argv1 ty c) (\<lambda>(f, c).
       if f < 0 then Panic ''error create %s: %d'' else create_each ty argv1 as c))"

definition mkdir_main :: "(nat \<Rightarrow> char) \<Rightarrow> u8 list list \<Rightarrow> cst \<Rightarrow> cst res" where
  "mkdir_main stk argv c = (if length argv = 1 then say stk (''usage: mkdir [dirname]'' @ [CHR 0x0A]) [] c
     else create_each FTYPE_DIR (argv ! 1) (drop 1 argv) c)"

definition touch_main :: "cst dev list \<Rightarrow> (nat \<Rightarrow> char) \<Rightarrow> u8 list list \<Rightarrow> cst \<Rightarrow> cst res" where
  "touch_main devtab stk argv c = (if length argv = 1 then show_text devtab stk (''usage: touch [filename]'' @ [CHR 0x0A]) [] c
     else create_each FTYPE_REG (argv ! 1) (drop 1 argv) c)"

definition pwd_main :: "(nat \<Rightarrow> char) \<Rightarrow> u8 list list \<Rightarrow> cst \<Rightarrow> cst res" where
  "pwd_main stk argv c =
     (if length argv \<noteq> 1 then say stk (''usage: pwd'' @ [CHR 0x0A]) [] c
      else case cwd c of (r, path) \<Rightarrow>
        if r < 0 then say stk (''get path failed: %d'' @ [CHR 0x0A]) [AInt (word_of_int r)] c
        else if 128 \<le> length path then Fault ''buf overflows''
        else say stk (''%s'' @ [CHR 0x0A]) [AStr (chars_of path)] c)"

fun unset_each :: "(nat \<Rightarrow> char) \<Rightarrow> u32 \<Rightarrow> u8 list list \<Rightarrow> shell_vars \<times> cst \<Rightarrow> (shell_vars \<times> cst) res" where
  "unset_each stk shellid [] (v, c) = Ret (v, c)"
| "unset_each stk shellid (a # as) (v, c) = (case sys_unset_env_value a shellid v of (r, v) \<Rightarrow>
     rbind (if r < 0 then say stk (''environment value %s isn't declared or is readonly'' @ [CHR 0x0A]) [AStr (chars_of a)] c else Ret c) (\<lambda>c.
     unset_each stk shellid as (v, c)))"

text \<open>The shell passes its number as the first character of the last argument.\<close>

definition unset_main :: "(nat \<Rightarrow> char) \<Rightarrow> u8 list list \<Rightarrow> shell_vars \<times> cst \<Rightarrow> (shell_vars \<times> cst) res" where
  "unset_main stk argv = (\<lambda>(v, c).
     let shellid = (case last argv of [] \<Rightarrow> 0 | x # _ \<Rightarrow> scast x)
     in if length argv = 2 then rbind (say stk (''usage: unset NAME'' @ [CHR 0x0A]) [] c) (\<lambda>c. Ret (v, c))
        else unset_each stk shellid (butlast (tl argv)) (v, c))"

end
