(* ===== verification/DirPrograms.thy ===== *)
theory DirPrograms
  imports Programs
begin

text \<open>
  The user programs that read directories: \<^verbatim>\<open>user/ls.c\<close>, \<^verbatim>\<open>user/tree.c\<close>, \<^verbatim>\<open>user/find.c\<close>, \<^verbatim>\<open>user/rm.c\<close>. A directory is read as a file,
  one \<open>struct File\<close> of 256 bytes after the other.
\<close>

section \<open>Directory entries\<close>

definition sizeof_File :: u32 where "sizeof_File = 256"

definition entry_name :: "u8 list \<Rightarrow> u8 list" where
  "entry_name bs = takeWhile (\<lambda>b. b \<noteq> 0) bs"

definition entry_word :: "u8 list \<Rightarrow> nat \<Rightarrow> u32" where
  "entry_word bs k = (case word_at bs (4 * k) of Ret w \<Rightarrow> w | _ \<Rightarrow> 0)"

definition entry_isdir :: "u8 list \<Rightarrow> bool" where
  "entry_isdir bs = (entry_word bs 33 = FTYPE_DIR)"

definition some_stat :: stat where
  "some_stat = \<lparr>st_name = [], st_size = 0, st_isdir = False, st_dev = None\<rparr>"

text \<open>The separator behind a path that is not empty and does not end with a slash.\<close>

definition path_sep :: "u8 list \<Rightarrow> u8 list" where
  "path_sep path = (if path \<noteq> [] \<and> last path \<noteq> 47 then [47] else [])"

section \<open>ls\<close>

definition ls1 :: "cst dev list \<Rightarrow> (nat \<Rightarrow> char) \<Rightarrow> u8 set \<Rightarrow> u8 list option \<Rightarrow> bool \<Rightarrow> u32 \<Rightarrow> u8 list \<Rightarrow> cst \<Rightarrow> cst res" where
  "ls1 devtab stk flag prefix isdir sz name c =
     rbind (if 108 \<in> flag then show_text devtab stk ''%11d %c '' [AInt sz, AInt (if isdir then 100 else 45)] c else Ret c) (\<lambda>c.
     rbind (case prefix of None \<Rightarrow> Ret c
       | Some p \<Rightarrow> show_text devtab stk ''%s%s'' [AStr (chars_of p), AStr (chars_of (path_sep p))] c) (\<lambda>c.
     rbind (show_text devtab stk ''%s'' [AStr (chars_of name)] c) (\<lambda>c.
     rbind (if 70 \<in> flag \<and> isdir then show_text devtab stk ''/'' [] c else Ret c) (\<lambda>c.
     show_text devtab stk ''  '' [] c))))"

partial_function (option) lsdir_loop :: "cst dev list \<Rightarrow> (nat \<Rightarrow> char) \<Rightarrow> u8 set \<Rightarrow> int \<Rightarrow> u8 list \<Rightarrow> cst \<Rightarrow> cst res option" where
  "lsdir_loop devtab stk flag fd prefix c = ores (readn devtab fd sizeof_File c) (\<lambda>x. case x of ((n, f), c) \<Rightarrow>
     if n = 256
     then ores (if hd f \<noteq> 0 then ls1 devtab stk flag (Some prefix) (entry_isdir f) (entry_word f 32) (entry_name f) c else Ret c)
       (\<lambda>c. lsdir_loop devtab stk flag fd prefix c)
     else if 0 < n then Some (Panic ''short read in directory %s'')
     else if n < 0 then Some (Panic ''error reading directory %s: %d'')
     else Some (Ret c))"

definition lsdir :: "cst dev list \<Rightarrow> (nat \<Rightarrow> char) \<Rightarrow> u8 set \<Rightarrow> u8 list \<Rightarrow> u8 list \<Rightarrow> cst \<Rightarrow> cst res option" where
  "lsdir devtab stk flag path prefix c = ores (file_open_fd path O_RDONLY c) (\<lambda>(fd, c).
     if fd < 0 then Some (Panic ''open %s: %d'') else lsdir_loop devtab stk flag fd prefix c)"

definition ls :: "cst dev list \<Rightarrow> (nat \<Rightarrow> char) \<Rightarrow> u8 set \<Rightarrow> u8 list \<Rightarrow> u8 list \<Rightarrow> cst \<Rightarrow> cst res option" where
  "ls devtab stk flag path prefix c = ores (stat_path devtab path some_stat c) (\<lambda>((r, t), c).
     if r < 0 then Some (Panic ''stat %s: %d'')
     else if st_isdir t \<and> 100 \<notin> flag then lsdir devtab stk flag path prefix c
     else Some (ls1 devtab stk flag None (st_isdir t) (st_size t) path c))"

fun ls_each :: "cst dev list \<Rightarrow> (nat \<Rightarrow> char) \<Rightarrow> u8 set \<Rightarrow> u8 list list \<Rightarrow> cst \<Rightarrow> cst res option" where
  "ls_each devtab stk flag [] c = Some (Ret c)"
| "ls_each devtab stk flag (a # as) c = Option.bind (ls devtab stk flag a a c) (\<lambda>r. ores r (ls_each devtab stk flag as))"

definition ls_main :: "cst dev list \<Rightarrow> (nat \<Rightarrow> char) \<Rightarrow> u8 list list \<Rightarrow> cst \<Rightarrow> cst res option" where
  "ls_main devtab stk argv c = (case arg_flags {100, 70, 108} (tl argv) {} of
       None \<Rightarrow> Some (show_text devtab stk (''usage: ls [-dFl] [file...]'' @ [CHR 0x0A]) [] c)
     | Some (flag, as) \<Rightarrow>
         Option.bind (if as = [] then ls devtab stk flag [46, 47] [] c else ls_each devtab stk flag as c) (\<lambda>r.
         ores r (\<lambda>c. Some (show_text devtab stk [CHR 0x0A] [] c))))"

section \<open>tree\<close>

text \<open>What \<open>tree1\<close> prints for an entry; \<open>step\<close> is its argument.\<close>

fun indent :: "(nat \<Rightarrow> char) \<Rightarrow> nat \<Rightarrow> cst \<Rightarrow> cst res" where
  "indent stk 0 c = Ret c"
| "indent stk (Suc n) c = rbind (say stk ''    '' [] c) (indent stk n)"

definition tree_line :: "(nat \<Rightarrow> char) \<Rightarrow> u8 set \<Rightarrow> u8 list \<Rightarrow> u8 list \<Rightarrow> nat \<Rightarrow> cst \<Rightarrow> cst res" where
  "tree_line stk flag path name step c =
     rbind (indent stk (step - 1) c) (\<lambda>c.
     rbind (say stk ''|-- '' [] c) (\<lambda>c.
     rbind (if 102 \<in> flag then say stk ''%s%s'' [AStr (chars_of path), AStr (chars_of (path_sep path))] c else Ret c) (\<lambda>c.
     say stk (''%s'' @ [CHR 0x0A]) [AStr (chars_of name)] c)))"

text \<open>The calls of \<open>treedir\<close> that are open: descriptor, path and \<open>step\<close>; \<open>dc\<close> and \<open>fc\<close> are \<open>dircnt\<close> and \<open>filecnt\<close>.\<close>

partial_function (option) tree_loop :: "cst dev list \<Rightarrow> (nat \<Rightarrow> char) \<Rightarrow> u8 set \<Rightarrow> (int \<times> u8 list \<times> nat) list \<Rightarrow> u32 \<Rightarrow> u32 \<Rightarrow> cst \<Rightarrow> ((u32 \<times> u32) \<times> cst) res option" where
  "tree_loop devtab stk flag calls dc fc c = (case calls of
       [] \<Rightarrow> Some (Ret ((dc, fc), c))
     | (fd, path, step) # calls' \<Rightarrow> ores (readn devtab fd sizeof_File c) (\<lambda>x. case x of ((n, f), c) \<Rightarrow>
         if n = 256
         then if hd f = 0 \<or> 100 \<in> flag \<and> \<not> entry_isdir f then tree_loop devtab stk flag calls dc fc c
           else ores (tree_line stk flag path (entry_name f) (step + 1) c) (\<lambda>c.
             if entry_isdir f
             then let newpath = path @ path_sep path @ entry_name f
               in if 256 \<le> length newpath then Some (Fault ''newpath overflows'')
                  else ores (file_open_fd newpath O_RDONLY c) (\<lambda>y. case y of (fd', c) \<Rightarrow>
                    if fd' < 0 then Some (Panic ''open %s: %d'')
                    else tree_loop devtab stk flag ((fd', newpath, step + 1) # calls) (dc + 1) fc c)
             else tree_loop devtab stk flag calls dc (fc + 1) c)
         else if 0 < n then Some (Panic ''short read in directory %s'')
         else if n < 0 then Some (Panic ''error reading directory %s: %d'')
         else tree_loop devtab stk flag calls' dc fc c))"

text \<open>\<open>tree\<close> of the source; \<open>Gone\<close> is its call of \<open>exit\<close>.\<close>

definition tree_path :: "cst dev list \<Rightarrow> (nat \<Rightarrow> char) \<Rightarrow> u8 set \<Rightarrow> u8 list \<Rightarrow> u32 \<Rightarrow> u32 \<Rightarrow> cst \<Rightarrow> ((u32 \<times> u32) ctl \<times> cst) res option" where
  "tree_path devtab stk flag path dc fc c = ores (stat_path devtab path some_stat c) (\<lambda>((r, t), c).
     if r < 0 then Some (Panic ''stat %s: %d'')
     else if \<not> st_isdir t
     then Some (rbind (say stk (''%s [error opening dir]'' @ [CHR 0x0A]) [AStr (chars_of path)] c) (\<lambda>c.
       rbind (say stk (''0 directories, 0 files'' @ [CHR 0x0A]) [] c) (\<lambda>c. Ret (Gone, c))))
     else ores (say stk (''%s'' @ [CHR 0x0A]) [AStr (chars_of path)] c) (\<lambda>c.
       ores (file_open_fd path O_RDONLY c) (\<lambda>(fd, c).
         if fd < 0 then Some (Panic ''open %s: %d'')
         else map_option (\<lambda>r. rbind r (\<lambda>(cnt, c). Ret (Back cnt, c))) (tree_loop devtab stk flag [(fd, path, 0)] dc fc c))))"

definition tree_counts :: "(nat \<Rightarrow> char) \<Rightarrow> u8 set \<Rightarrow> u32 \<Rightarrow> u32 \<Rightarrow> cst \<Rightarrow> cst res" where
  "tree_counts stk flag dc fc c =
     (if 100 \<in> flag then say stk ([CHR 0x0A] @ ''%d directories'' @ [CHR 0x0A]) [AInt dc] c
      else say stk ([CHR 0x0A] @ ''%d directories, %d files'' @ [CHR 0x0A]) [AInt dc, AInt fc] c)"

fun tree_each :: "cst dev list \<Rightarrow> (nat \<Rightarrow> char) \<Rightarrow> u8 set \<Rightarrow> u8 list list \<Rightarrow> u32 \<Rightarrow> u32 \<Rightarrow> cst \<Rightarrow> cst res option" where
  "tree_each devtab stk flag [] dc fc c = Some (say stk [CHR 0x0A] [] c)"
| "tree_each devtab stk flag (a # as) dc fc c = Option.bind (tree_path devtab stk flag a dc fc c) (\<lambda>r. ores r (\<lambda>(x, c).
     case x of Gone \<Rightarrow> Some (Ret c)
     | Back (dc, fc) \<Rightarrow> ores (tree_counts stk flag dc fc c) (tree_each devtab stk flag as dc fc)))"

definition tree_main :: "cst dev list \<Rightarrow> (nat \<Rightarrow> char) \<Rightarrow> u8 list list \<Rightarrow> cst \<Rightarrow> cst res option" where
  "tree_main devtab stk argv c = (case arg_flags {97, 100, 102} (tl argv) {} of
       None \<Rightarrow> Some (say stk (''usage: tree [-adf] [directory...]'' @ [CHR 0x0A]) [] c)
     | Some (flag, as) \<Rightarrow> tree_each devtab stk flag (if as = [] then [[46, 47]] else as) 0 0 c)"

section \<open>find\<close>

definition with_slash :: "u8 list \<Rightarrow> u8 list res" where
  "with_slash path = (if path = [] then Fault ''newpath[-1]''
     else if 128 \<le> length (path @ path_sep path) then Fault ''newpath overflows'' else Ret (path @ path_sep path))"

text \<open>The calls of \<open>dirfind\<close> that are open.\<close>

partial_function (option) find_loop :: "cst dev list \<Rightarrow> (nat \<Rightarrow> char) \<Rightarrow> u8 list \<Rightarrow> (int \<times> u8 list) list \<Rightarrow> cst \<Rightarrow> cst res option" where
  "find_loop devtab stk name calls c = (case calls of
       [] \<Rightarrow> Some (Ret c)
     | (fd, path) # calls' \<Rightarrow> ores (readn devtab fd sizeof_File c) (\<lambda>x. case x of ((n, f), c) \<Rightarrow>
         if n \<noteq> 256 then find_loop devtab stk name calls' c
         else if hd f = 0 then find_loop devtab stk name calls c
         else if entry_isdir f
         then ores (with_slash path) (\<lambda>p.
           let newpath = p @ entry_name f
           in if 128 \<le> length newpath then Some (Fault ''newpath overflows'')
              else ores (file_open_fd newpath O_RDONLY c) (\<lambda>y. case y of (fd', c) \<Rightarrow>
                if fd' < 0 then Some (Panic ''open %s: %d'') else find_loop devtab stk name ((fd', newpath) # calls) c))
         else if entry_word f 33 = FTYPE_REG \<and> entry_name f = name
         then ores (with_slash path) (\<lambda>p.
           ores (show_text devtab stk (''%s'' @ [CHR 0x1B] @ ''[31m%s'' @ [CHR 0x1B] @ ''[0m'' @ [CHR 0x0A]) [AStr (chars_of p), AStr (chars_of name)] c) (\<lambda>c.
             find_loop devtab stk name calls c))
         else find_loop devtab stk name calls c))"

definition find_in :: "cst dev list \<Rightarrow> (nat \<Rightarrow> char) \<Rightarrow> u8 list \<Rightarrow> u8 list \<Rightarrow> cst \<Rightarrow> cst res option" where
  "find_in devtab stk path name c = ores (stat_path devtab path some_stat c) (\<lambda>((r, t), c).
     if r < 0 then Some (Panic ''stat %s: %d'')
     else if \<not> st_isdir t then Some (Panic ''path: %s is not a directory'')
     else ores (file_open_fd path O_RDONLY c) (\<lambda>(fd, c).
       if fd < 0 then Some (Panic ''open %s: %d'') else find_loop devtab stk name [(fd, path)] c))"

fun find_each :: "cst dev list \<Rightarrow> (nat \<Rightarrow> char) \<Rightarrow> u8 list res \<Rightarrow> u8 list list \<Rightarrow> cst \<Rightarrow> cst res option" where
  "find_each devtab stk path [] c = Some (Ret c)"
| "find_each devtab stk path (name # names) c = ores path (\<lambda>p.
     Option.bind (find_in devtab stk p name c) (\<lambda>r. ores r (find_each devtab stk path names)))"

text \<open>A path that starts with neither a dot nor a slash is put behind \<open>./\<close> in 128 bytes. The names start at \<open>argv[2]\<close> in both forms.\<close>

definition find_main :: "cst dev list \<Rightarrow> (nat \<Rightarrow> char) \<Rightarrow> u8 list list \<Rightarrow> cst \<Rightarrow> cst res option" where
  "find_main devtab stk argv c =
     (let usage = Some (say stk (''find [path] -name [fname]'' @ [CHR 0x0A]) [] c); is_opt = (\<lambda>a. a \<noteq> [] \<and> hd a = 45); opt = 45 # bytes_of ''name''
      in if length argv < 2 then Some (Fault ''NULL string'')
         else if is_opt (argv ! 1)
         then if argv ! 1 = opt then find_each devtab stk (Ret [46, 47]) (drop 2 argv) c else usage
         else if length argv < 3 then Some (Fault ''NULL string'')
         else if is_opt (argv ! 2)
         then if argv ! 2 = opt
           then find_each devtab stk
             (if argv ! 1 \<noteq> [] \<and> (hd (argv ! 1) = 46 \<or> hd (argv ! 1) = 47) then Ret (argv ! 1)
              else if 128 \<le> length (argv ! 1) + 2 then Fault ''temp overflows'' else Ret ([46, 47] @ argv ! 1)) (drop 2 argv) c
           else usage
         else usage)"

section \<open>rm\<close>

definition rm1 :: "u8 list \<Rightarrow> cst \<Rightarrow> cst res" where
  "rm1 path c = rbind (file_remove_path path c) (\<lambda>(r, c). if r \<noteq> 0 then Panic ''Cannot remove %s: no such file or directory'' else Ret c)"

text \<open>The calls of \<open>rmdir\<close> that are open, for \<open>rm_r\<close>; a directory is removed when all its entries have been read.\<close>

partial_function (option) rm_loop :: "cst dev list \<Rightarrow> bool \<Rightarrow> (int \<times> u8 list) list \<Rightarrow> cst \<Rightarrow> cst res option" where
  "rm_loop devtab rm_r calls c = (case calls of
       [] \<Rightarrow> Some (Ret c)
     | (fd, path) # calls' \<Rightarrow> ores (readn devtab fd sizeof_File c) (\<lambda>x. case x of ((n, f), c) \<Rightarrow>
         if n = 256
         then if hd f = 0 then rm_loop devtab rm_r calls c
           else if \<not> rm_r then Some (Panic ''Cannot remove %s: directory is not empty'')
           else let buf = path @ [47] @ entry_name f
             in if 4096 \<le> length buf then Some (Fault ''buf overflows'')
                else ores (stat_path devtab buf some_stat c) (\<lambda>y. case y of ((r, t), c) \<Rightarrow>
                  if r < 0 then Some (Panic ''Cannot remove %s: no such file or directory'')
                  else if st_isdir t
                  then ores (file_open_fd buf O_RDONLY c) (\<lambda>z. case z of (fd', c) \<Rightarrow>
                    if fd' < 0 then Some (Panic ''Cannot remove '%s': no such file or directory'')
                    else rm_loop devtab rm_r ((fd', buf) # calls) c)
                  else ores (rm1 buf c) (\<lambda>c. rm_loop devtab rm_r calls c))
         else if 0 < n then Some (Panic ''Short read in directory %s'')
         else if n < 0 then Some (Panic ''Error reading directory %s: %d'')
         else ores (rm1 path c) (\<lambda>c. rm_loop devtab rm_r calls' c)))"

definition rm :: "cst dev list \<Rightarrow> bool \<Rightarrow> bool \<Rightarrow> u8 list \<Rightarrow> cst \<Rightarrow> cst res option" where
  "rm devtab rm_d rm_r path c = ores (stat_path devtab path some_stat c) (\<lambda>((r, t), c).
     if r < 0 then Some (Panic ''Cannot remove %s: no such file or directory'')
     else if st_isdir t
     then if \<not> rm_d \<and> \<not> rm_r then Some (Panic ''Cannot remove %s: is a directory'')
       else ores (file_open_fd path O_RDONLY c) (\<lambda>(fd, c).
         if fd < 0 then Some (Panic ''Cannot remove '%s': no such file or directory'') else rm_loop devtab rm_r [(fd, path)] c)
     else Some (rm1 path c))"

fun rm_each :: "cst dev list \<Rightarrow> bool \<Rightarrow> bool \<Rightarrow> u8 list list \<Rightarrow> cst \<Rightarrow> cst res option" where
  "rm_each devtab rm_d rm_r [] c = Some (Ret c)"
| "rm_each devtab rm_d rm_r (a # as) c =
     (if a \<noteq> [] \<and> (hd a = 47 \<or> hd a = 46)
      then Option.bind (rm devtab rm_d rm_r a c) (\<lambda>r. ores r (rm_each devtab rm_d rm_r as))
      else if 128 \<le> length a + 2 then Some (Fault ''path overflows'')
      else Option.bind (rm devtab rm_d rm_r ([46, 47] @ a) c) (\<lambda>r. ores r (rm_each devtab rm_d rm_r as)))"

text \<open>Characters other than \<open>h\<close>, \<open>d\<close> and \<open>r\<close> are ignored.\<close>

definition rm_main :: "cst dev list \<Rightarrow> (nat \<Rightarrow> char) \<Rightarrow> u8 list list \<Rightarrow> cst \<Rightarrow> cst res option" where
  "rm_main devtab stk argv c = (let usage = Some (say stk (''Usage: rm [-dhr]... file(s)...'' @ [CHR 0x0A]) [] c)
     in case arg_flags (- {104}) (tl argv) {} of None \<Rightarrow> usage
        | Some (flag, as) \<Rightarrow> if as = [] then usage else rm_each devtab (100 \<in> flag) (114 \<in> flag) as c)"

end
