(* ===== verification/ProgramsProps.thy ===== *)
theory ProgramsProps
  imports DirPrograms "HOL-Library.Sublist"
begin

text \<open>
  What the user programs do with a file and the console: \<open>cat\<close> copies, \<open>grep\<close> prints the lines that contain the pattern,
  \<open>ls\<close> lists the entries of a directory. All three read through a descriptor of the file system and print
  through descriptor 1, an open console (\<open>con\<close>).
\<close>

section \<open>A file to read and a console to print to\<close>

definition reads_file :: "cst dev list \<Rightarrow> nat \<Rightarrow> nat \<Rightarrow> nat \<Rightarrow> nat list \<Rightarrow> cst \<Rightarrow> bool" where
  "reads_file devtab i q n blks c \<longleftrightarrow> opened c i q n blks \<and> has_files devtab \<and> fd_omode (fds c (ff_page c q)) AND O_ACCMODE \<noteq> O_WRONLY \<and>
     at_offset c q \<le> n \<and> cons_open devtab 1 c"

text \<open>The bytes behind the offset of the descriptor.\<close>

definition remaining :: "nat \<Rightarrow> nat \<Rightarrow> nat list \<Rightarrow> cst \<Rightarrow> u8 list" where
  "remaining q n blks c = drop (at_offset c q) (contents (fs (srv c)) blks n)"

lemma remaining_len: "length (remaining q n blks c) = n - at_offset c q"
  by (simp add: remaining_def contents_def)

lemma printed_file:
  assumes "reads_file devtab i q n blks c" "cons_open devtab 1 c'" "cons_wrote 1 c bs c'"
  shows "reads_file devtab i q n blks c'" "remaining q n blks c' = remaining q n blks c" "srv c' = srv c"
    "ulog c' = ulog c @ chars_of bs"
proof -
  obtain f where f: "c' = c\<lparr>fds := f, ulog := ulog c @ chars_of bs\<rparr>"
    "\<forall>p. fd_dev_id (f p) = fd_dev_id (fds c p) \<and> fd_omode (f p) = fd_omode (fds c p)"
    "\<forall>p. f p \<noteq> fds c p \<longrightarrow> (\<exists>perm. vpt c (fd_vpn 1) = Some (p, perm))" using assms(3) by (auto simp: cons_wrote_def)
  have o': "opened c i q n blks" using assms(1) by (simp add: reads_file_def)
  have "f (ff_page c q) = fds c (ff_page c q)"
  proof (rule ccontr)
    assume "f (ff_page c q) \<noteq> fds c (ff_page c q)"
    then obtain perm where "vpt c (fd_vpn 1) = Some (ff_page c q, perm)" using f(3) by blast
    then have "fd_dev_id (fds c (ff_page c q)) = 99" using assms(1) by (auto simp: reads_file_def cons_open_def)
    then show False using o' by (simp add: opened_def)
  qed
  then have at: "at_offset c' q = at_offset c q" by (simp add: f(1) at_offset_def)
  show s: "srv c' = srv c" "ulog c' = ulog c @ chars_of bs" by (simp_all add: f(1))
  have "opened c' i q n blks" using o' f(2) by (simp add: f(1) opened_def pages_ok_def)
  then show "reads_file devtab i q n blks c'" using assms(1,2) f(2) at by (simp add: reads_file_def) (simp add: f(1))
  show "remaining q n blks c' = remaining q n blks c" by (simp add: remaining_def at s)
qed

lemma moved_file:
  assumes "reads_file devtab i q n blks c" "k \<le> length (remaining q n blks c)"
  shows "reads_file devtab i q n blks (move_fd q k c)" "remaining q n blks (move_fd q k c) = drop k (remaining q n blks c)"
proof -
  have n: "n \<le> 0x400000" "at_offset c q + k \<le> n" using assms by (auto simp: reads_file_def opened_def remaining_len)
  have at: "at_offset (move_fd q k c) q = at_offset c q + k" by (rule at_offset_move) (use n in simp)
  show "remaining q n blks (move_fd q k c) = drop k (remaining q n blks c)" by (simp add: remaining_def at add.commute)
  have "cons_open devtab 1 (move_fd q k c)" using assms(1) by (auto simp: reads_file_def cons_open_def)
  then show "reads_file devtab i q n blks (move_fd q k c)" using assms(1) n(2) by (simp add: reads_file_def at)
qed

lemma read_remaining:
  assumes "reads_file devtab i q n blks c" "unat k < 2 ^ 31"
  shows "read_file devtab (int i) k c = (let bs = take (unat k) (remaining q n blks c) in Ret ((int (length bs), bs), move_fd q (length bs) c))"
    "readn devtab (int i) k c = (let bs = take (unat k) (remaining q n blks c) in Ret ((int (length bs), bs), move_fd q (length bs) c))"
proof -
  have a: "opened c i q n blks" "has_files devtab" "fd_omode (fds c (ff_page c q)) AND O_ACCMODE \<noteq> O_WRONLY" "at_offset c q \<le> n" "n \<le> 0x400000"
    using assms(1) by (auto simp: reads_file_def opened_def)
  have "at_offset c q + unat k < 2 ^ 32" using a(4,5) assms(2) by simp
  from read_file_move[OF a(1-4) this] show "read_file devtab (int i) k c = (let bs = take (unat k) (remaining q n blks c)
      in Ret ((int (length bs), bs), move_fd q (length bs) c))" by (simp add: remaining_def)
  from readn_move[OF a(1-4) assms(2)] show "readn devtab (int i) k c = (let bs = take (unat k) (remaining q n blks c)
      in Ret ((int (length bs), bs), move_fd q (length bs) c))" by (simp add: remaining_def)
qed

lemma show_text_ok:
  assumes "reads_file devtab i q n blks c" "vprintfmt stk (@) [] fmt ap = Ret t"
  obtains c' where "show_text devtab stk fmt ap c = Ret c'" "reads_file devtab i q n blks c'" "remaining q n blks c' = remaining q n blks c"
    "srv c' = srv c" "ulog c' = ulog c @ t"
proof -
  have "cons_open devtab 1 c" using assms(1) by (simp add: reads_file_def)
  from fprintf_console_ok[OF this assms(2)] obtain c' where c': "vfprintf devtab stk (int 1) fmt ap c = Ret (int (length t), c')"
    "cons_open devtab 1 c'" "cons_wrote 1 c (bytes_of t) c'" by blast
  from printed_file[OF assms(1) c'(2,3)] c'(1) show ?thesis by (intro that[of c']) (simp_all add: show_text_def printf_def chars_bytes)
qed

section \<open>cat\<close>

lemma cat_ok:
  "reads_file devtab i q n blks c \<Longrightarrow> \<exists>c'. cat devtab (int i) c = Some (Ret c') \<and> reads_file devtab i q n blks c' \<and> srv c' = srv c \<and>
     remaining q n blks c' = [] \<and> ulog c' = ulog c @ chars_of (remaining q n blks c)"
proof (induction "length (remaining q n blks c)" arbitrary: c rule: less_induct)
  case less
  let ?r = "remaining q n blks c"
  let ?bs = "take 8192 ?r"
  let ?c1 = "move_fd q (length ?bs) c"
  have rd: "read_file devtab (int i) 8192 c = Ret ((int (length ?bs), ?bs), ?c1)" using read_remaining(1)[OF less.prems, of 8192] by (simp add: Let_def)
  have "length ?bs \<le> length ?r" by simp
  note m = moved_file[OF less.prems this]
  show ?case
  proof (cases "?r = []")
    case True
    then show ?thesis using rd less.prems by (subst cat.simps) (simp add: chars_of_def)
  next
    case False
    have "cons_open devtab 1 ?c1" using m(1) by (simp add: reads_file_def)
    from cons_takes[OF this, of ?bs] obtain c2 where c2: "write_file devtab (int 1) ?bs ?c1 = Ret (int (length ?bs), c2)" "cons_open devtab 1 c2" "cons_wrote 1 ?c1 ?bs c2"
      by blast
    note p = printed_file[OF m(1) c2(2,3)]
    have step: "cat devtab (int i) c = cat devtab (int i) c2" using rd c2(1) False by (subst cat.simps) simp
    have "length (remaining q n blks c2) < length ?r" unfolding p(2) m(2) using False by simp
    from less.hyps[OF this p(1)] obtain c' where c': "cat devtab (int i) c2 = Some (Ret c')" "reads_file devtab i q n blks c'" "srv c' = srv c2"
      "remaining q n blks c' = []" "ulog c' = ulog c2 @ chars_of (remaining q n blks c2)" by blast
    have "drop (length ?bs) ?r = drop 8192 ?r" by (simp add: min_def)
    then have "chars_of ?r = chars_of ?bs @ chars_of (drop (length ?bs) ?r)" unfolding chars_of_def map_append[symmetric] by simp
    then show ?thesis using c' p m(2) step by simp
  qed
qed

section \<open>grep\<close>

lemma prefix_at:
  assumes "pat \<noteq> []"
  shows "prefix pat (drop k line) \<longleftrightarrow> k + length pat \<le> length line \<and> (\<forall>j < length pat. line ! (k + j) = pat ! j)"
proof -
  have l: "length pat \<le> length (drop k line) \<longleftrightarrow> k + length pat \<le> length line"
  proof -
    have "0 < length pat" using assms by simp
    then show ?thesis unfolding length_drop by linarith
  qed
  have "prefix pat (drop k line) \<longleftrightarrow> length pat \<le> length (drop k line) \<and> take (length pat) (drop k line) = pat"
    by (metis prefix_length_le prefix_def append_eq_conv_conj append_take_drop_id)
  also have "\<dots> \<longleftrightarrow> k + length pat \<le> length line \<and> (\<forall>j < length pat. line ! (k + j) = pat ! j)"
    unfolding l by (rule conj_cong[OF refl]) (simp add: list_eq_iff_nth_eq)
  finally show ?thesis .
qed

text \<open>A match begun at \<open>tpl - len\<close>: it, or a later one, is found exactly if there is one.\<close>

lemma grep_match_from:
  "pat \<noteq> [] \<Longrightarrow> len \<le> tpl \<Longrightarrow> len < length pat \<Longrightarrow> \<forall>j < len. line ! (tpl - len + j) = pat ! j \<Longrightarrow>
   grep_match pat line tpl len = Ret (\<exists>k \<ge> tpl - len. k + length pat \<le> length line \<and> (\<forall>j < length pat. line ! (k + j) = pat ! j))"
proof (induction pat line tpl len rule: grep_match.induct)
  case (1 pat line tpl len)
  let ?s = "tpl - len"
  let ?at = "\<lambda>k. k + length pat \<le> length line \<and> (\<forall>j < length pat. line ! (k + j) = pat ! j)"
  have tpl: "tpl = ?s + len" using 1(4) by simp
  show ?case
  proof (cases "tpl < length line")
    case False
    have "\<not> k + length pat \<le> length line" if "?s \<le> k" for k using that False 1(4,5) by simp
    then show ?thesis using False by (subst grep_match.simps) auto
  next
    case lt: True
    show ?thesis
    proof (cases "pat ! len = line ! tpl")
      case hit: True
      then have m: "\<forall>j < len + 1. line ! (?s + j) = pat ! j" using 1(6) tpl by (auto simp: less_Suc_eq)
      show ?thesis
      proof (cases "len + 1 = length pat")
        case True
        then have "?at ?s" using m lt tpl by simp
        then show ?thesis using lt hit 1(5) True by (subst grep_match.simps) auto
      next
        case False
        have s: "tpl + 1 - (len + 1) = ?s" by simp
        have "grep_match pat line (tpl + 1) (len + 1) = Ret (\<exists>k \<ge> tpl + 1 - (len + 1). ?at k)"
          by (rule 1(1)) (use lt hit 1(3-5) False m in \<open>auto simp: s\<close>)
        then show ?thesis using lt hit 1(5) False unfolding s by (subst grep_match.simps) simp
      qed
    next
      case miss: False
      have "grep_match pat line (tpl - len + 1) 0 = Ret (\<exists>k \<ge> tpl - len + 1 - 0. ?at k)"
        by (rule 1(2)) (use lt miss 1(3-5) in auto)
      moreover have "\<not> ?at ?s" using miss 1(5) tpl by metis
      then have "(\<exists>k \<ge> ?s. ?at k) \<longleftrightarrow> (\<exists>k \<ge> tpl - len + 1 - 0. ?at k)" by (metis Suc_eq_plus1 diff_zero not_less_eq_eq le_antisym Suc_leD)
      ultimately show ?thesis using lt miss 1(5) by (subst grep_match.simps) simp
    qed
  qed
qed

lemma grep_match_ok:
  assumes "pat \<noteq> []"
  shows "grep_match pat line 0 0 = Ret (sublist pat line)"
proof -
  have "sublist pat line \<longleftrightarrow> (\<exists>k. prefix pat (drop k line))"
    by (metis sublist_altdef' append_eq_conv_conj suffix_def suffix_drop)
  then show ?thesis using grep_match_from[of pat 0 0 line] assms by (simp add: prefix_at[OF assms])
qed

text \<open>The lines of a text that end with a newline, after \<open>lb\<close>, and what follows the last of them.\<close>

fun lines_from :: "u8 list \<Rightarrow> u8 list \<Rightarrow> u8 list list" where
  "lines_from lb [] = []"
| "lines_from lb (b # bs) = (if b = 10 then (lb @ [10]) # lines_from [] bs else lines_from (lb @ [b]) bs)"

fun last_from :: "u8 list \<Rightarrow> u8 list \<Rightarrow> u8 list" where
  "last_from lb [] = lb"
| "last_from lb (b # bs) = (if b = 10 then last_from [] bs else last_from (lb @ [b]) bs)"

text \<open>Together they are the text, and only the lines have newlines, at their ends.\<close>

lemma lines_from_text:
  "10 \<notin> set lb \<Longrightarrow> concat (lines_from lb bs) @ last_from lb bs = lb @ bs \<and> 10 \<notin> set (last_from lb bs) \<and>
     (\<forall>l \<in> set (lines_from lb bs). \<exists>t. l = t @ [10] \<and> 10 \<notin> set t)"
  by (induction lb bs rule: lines_from.induct) auto

lemma lines_append: "lines_from lb (xs @ ys) = lines_from lb xs @ lines_from (last_from lb xs) ys"
  "last_from lb (xs @ ys) = last_from (last_from lb xs) ys"
  by (induction lb xs rule: lines_from.induct) auto

text \<open>The buffer of \<open>grep\<close> holds every line with its NUL, and what follows the last line.\<close>

definition lbuf_fits :: "u8 list \<Rightarrow> u8 list \<Rightarrow> bool" where
  "lbuf_fits lb bs \<longleftrightarrow> (\<forall>l \<in> set (lines_from lb bs). length l \<le> 511) \<and> length (last_from lb bs) \<le> 512"

lemma lbuf_fits_len: "lbuf_fits lb bs \<Longrightarrow> length lb \<le> 512"
  unfolding lbuf_fits_def by (induction lb bs rule: lines_from.induct) (auto split: if_splits)

lemma lbuf_fits_append: "lbuf_fits lb (xs @ ys) \<Longrightarrow> lbuf_fits lb xs \<and> lbuf_fits (last_from lb xs) ys"
  using lbuf_fits_len[of "last_from lb xs" ys] by (auto simp: lbuf_fits_def lines_append)

text \<open>What \<open>printf\<close> sees of a line: up to its first NUL. A format without percent sign is printed as it is.\<close>

definition c_text :: "u8 list \<Rightarrow> u8 list" where
  "c_text l = takeWhile (\<lambda>b. b \<noteq> 0) l"

definition printable :: "u8 list \<Rightarrow> u8 list list \<Rightarrow> bool" where
  "printable pat lns \<longleftrightarrow> (\<forall>l \<in> set lns. sublist pat l \<longrightarrow> 37 \<notin> set (c_text l))"

lemma plain_format:
  assumes "37 \<notin> set t"
  shows "vprintfmt stk (@) [] (chars_of t) [] = Ret (chars_of t)"
proof -
  have "CHR ''%'' \<notin> set (chars_of t)"
  proof
    assume "CHR ''%'' \<in> set (chars_of t)"
    then obtain b where b: "b \<in> set t" "char_of (unat b) = CHR ''%''" by (auto simp: chars_of_def)
    have "unat b < 256" using unsigned_less[of b, where ?'a = nat] by simp
    moreover have "of_char (char_of (unat b) :: char) = (37 :: nat)" unfolding b(2) by simp
    ultimately have "unat b = 37" by simp
    then have "b = 37" by (simp add: word_unat_eq_iff)
    then show False using b(1) assms by simp
  qed
  then show "vprintfmt stk (@) [] (chars_of t) [] = Ret (chars_of t)" by (subst vprintfmt_lit(1)) simp_all
qed

lemma chars_of_append [simp]: "chars_of (as @ bs) = chars_of as @ chars_of bs" "chars_of [] = []"
  "chars_of (b # bs) = char_of (unat b) # chars_of bs"
  by (simp_all add: chars_of_def)

lemma grep_bytes_ok:
  assumes "pat \<noteq> []"
  shows "reads_file devtab i q n blks c \<Longrightarrow> lbuf_fits lb bs \<Longrightarrow> printable pat (lines_from lb bs) \<Longrightarrow>
    \<exists>c'. grep_bytes devtab stk pat bs lb c = Ret (last_from lb bs, c') \<and> reads_file devtab i q n blks c' \<and> remaining q n blks c' = remaining q n blks c \<and>
      srv c' = srv c \<and> ulog c' = ulog c @ chars_of (concat (map c_text (filter (sublist pat) (lines_from lb bs))))"
proof (induction lb bs arbitrary: c rule: lines_from.induct)
  case (1 lb)
  then show ?case by simp
next
  case (2 lb b bs)
  show ?case
  proof (cases "b = 10")
    case False
    have f: "lbuf_fits (lb @ [b]) bs" using 2(4) False by (simp add: lbuf_fits_def)
    then have "length lb < 512" using lbuf_fits_len[OF f] by simp
    then show ?thesis using 2(2)[OF False 2(3) f] 2(5) False by simp
  next
    case True
    have f: "lbuf_fits [] bs" "length lb < 511" using 2(4) True by (auto simp: lbuf_fits_def)
    let ?l = "lb @ [10]"
    have pr: "sublist pat ?l \<Longrightarrow> 37 \<notin> set (c_text ?l)" "printable pat (lines_from [] bs)" using 2(5) True by (simp_all add: printable_def)
    obtain c1 where c1: "(if sublist pat ?l then show_text devtab stk (chars_of (c_text ?l)) [] c else Ret c) = Ret c1"
      "reads_file devtab i q n blks c1" "remaining q n blks c1 = remaining q n blks c" "srv c1 = srv c"
      "ulog c1 = ulog c @ chars_of (if sublist pat ?l then c_text ?l else [])"
    proof (cases "sublist pat ?l")
      case True
      obtain d where "show_text devtab stk (chars_of (c_text ?l)) [] c = Ret d" "reads_file devtab i q n blks d"
        "remaining q n blks d = remaining q n blks c" "srv d = srv c" "ulog d = ulog c @ chars_of (c_text ?l)"
        by (rule show_text_ok[OF 2(3) plain_format[OF pr(1)[OF True], of stk]])
      then show ?thesis using True by (intro that[of d]) simp_all
    next
      case False
      then show ?thesis using 2(3) by (intro that[of c]) simp_all
    qed
    from 2(1)[OF True c1(2) f(1) pr(2)] obtain c' where c': "grep_bytes devtab stk pat bs [] c1 = Ret (last_from [] bs, c')" "reads_file devtab i q n blks c'"
      "remaining q n blks c' = remaining q n blks c1" "srv c' = srv c1" "ulog c' = ulog c1 @ chars_of (concat (map c_text (filter (sublist pat) (lines_from [] bs))))" by blast
    have "grep_bytes devtab stk pat (b # bs) lb c = Ret (last_from [] bs, c')"
      unfolding grep_bytes.simps grep_match_ok[OF assms] rbind_simps c_text_def[symmetric] c1(1) using f(2) True c'(1) by simp
    then show ?thesis using c' c1 True by auto
  qed
qed

lemma grep_ok:
  assumes "pat \<noteq> []"
  shows "reads_file devtab i q n blks c \<Longrightarrow> lbuf_fits lb (remaining q n blks c) \<Longrightarrow>
    printable pat (lines_from lb (remaining q n blks c)) \<Longrightarrow>
    \<exists>c'. grep devtab stk (int i) pat lb c = Some (Ret c') \<and> srv c' = srv c \<and>
      ulog c' = ulog c @ chars_of (concat (map c_text (filter (sublist pat) (lines_from lb (remaining q n blks c)))))"
proof (induction "length (remaining q n blks c)" arbitrary: c lb rule: less_induct)
  case less
  let ?r = "remaining q n blks c"
  let ?bs = "take 512 ?r"
  let ?c1 = "move_fd q (length ?bs) c"
  have rd: "read_file devtab (int i) 512 c = Ret ((int (length ?bs), ?bs), ?c1)" using read_remaining(1)[OF less.prems(1), of 512] by (simp add: Let_def)
  have "length ?bs \<le> length ?r" by simp
  note m = moved_file[OF less.prems(1) this]
  show ?case
  proof (cases "?r = []")
    case True
    then show ?thesis using rd by (subst grep.simps) simp
  next
    case False
    have d: "drop (length ?bs) ?r = drop 512 ?r" by (simp add: min_def)
    have sp: "lines_from lb ?r = lines_from lb ?bs @ lines_from (last_from lb ?bs) (drop 512 ?r)"
      using lines_append(1)[of lb ?bs "drop 512 ?r"] by simp
    have fit: "lbuf_fits lb ?bs" "lbuf_fits (last_from lb ?bs) (drop 512 ?r)"
      using lbuf_fits_append[of lb ?bs "drop 512 ?r"] less.prems(2) by simp_all
    have "printable pat (lines_from lb ?bs)" using less.prems(3) unfolding sp by (simp add: printable_def)
    from grep_bytes_ok[OF assms m(1) fit(1) this] obtain c2 where c2: "grep_bytes devtab stk pat ?bs lb ?c1 = Ret (last_from lb ?bs, c2)" "reads_file devtab i q n blks c2"
      "remaining q n blks c2 = drop 512 ?r" "srv c2 = srv ?c1" "ulog c2 = ulog ?c1 @ chars_of (concat (map c_text (filter (sublist pat) (lines_from lb ?bs))))"
      unfolding m(2) d by blast
    have step: "grep devtab stk (int i) pat lb c = grep devtab stk (int i) pat (last_from lb ?bs) c2"
      using rd c2(1) False by (subst grep.simps) simp
    have l: "length (remaining q n blks c2) < length ?r" unfolding c2(3) using False by simp
    have "printable pat (lines_from (last_from lb ?bs) (remaining q n blks c2))"
      using less.prems(3) unfolding sp c2(3) by (simp add: printable_def)
    from less.hyps[OF l c2(2) fit(2)[folded c2(3)] this] obtain c' where c': "grep devtab stk (int i) pat (last_from lb ?bs) c2 = Some (Ret c')" "srv c' = srv c2"
      "ulog c' = ulog c2 @ chars_of (concat (map c_text (filter (sublist pat) (lines_from (last_from lb ?bs) (drop 512 ?r)))))" unfolding c2(3) by blast
    then show ?thesis unfolding step sp using c2(4,5) by simp
  qed
qed

section \<open>ls\<close>

text \<open>The entries of a directory, 256 bytes each, and the text of one, without the option \<open>-l\<close>.\<close>

definition raw_entries :: "u8 list \<Rightarrow> u8 list list" where
  "raw_entries bs = map (\<lambda>k. take 256 (drop (256 * k) bs)) [0..<length bs div 256]"

lemma raw_entries_Cons:
  assumes "256 \<le> length bs"
  shows "raw_entries bs = take 256 bs # raw_entries (drop 256 bs)"
proof -
  have "length bs div 256 = Suc (length (drop 256 bs) div 256)" using assms by (simp add: le_div_geq)
  moreover have "[0..<Suc m] = 0 # map Suc [0..<m]" for m by (simp add: upt_conv_Cons map_Suc_upt)
  ultimately show ?thesis by (simp add: raw_entries_def comp_def add.commute)
qed

definition entry_text :: "u8 set \<Rightarrow> u8 list \<Rightarrow> u8 list \<Rightarrow> u8 list" where
  "entry_text flag pre f = pre @ path_sep pre @ entry_name f @ (if 70 \<in> flag \<and> entry_isdir f then [47] else []) @ [32, 32]"

lemma ls1_ok:
  assumes "reads_file devtab i q n blks c" "108 \<notin> flag"
  obtains c' where "ls1 devtab stk flag (Some pre) (entry_isdir f) sz (entry_name f) c = Ret c'" "reads_file devtab i q n blks c'"
    "remaining q n blks c' = remaining q n blks c" "srv c' = srv c" "ulog c' = ulog c @ chars_of (entry_text flag pre f)"
proof -
  have v: "vprintfmt stk (@) [] ''%s%s'' [AStr a, AStr b] = Ret (a @ b)" "vprintfmt stk (@) [] ''%s'' [AStr a] = Ret a" for a b
    using vprintfmt_lit(2)[of "[]" stk "(@)" "[]" "''%s''" a "[AStr b]"] vprintfmt_lit(2)[of "[]" stk "(@)" a "[]" b "[]"]
      vprintfmt_lit(2)[of "[]" stk "(@)" "[]" "[]" a "[]"] vprintfmt_lit(1)[of "[]" stk "(@)"] by simp_all
  have w: "vprintfmt stk (@) [] ''/'' [] = Ret ''/''" "vprintfmt stk (@) [] ''  '' [] = Ret ''  ''"
    using vprintfmt_lit(1)[of "''/''" stk "(@)" "[]" "[]"] vprintfmt_lit(1)[of "''  ''" stk "(@)" "[]" "[]"] by simp_all
  obtain c1 where c1: "show_text devtab stk ''%s%s'' [AStr (chars_of pre), AStr (chars_of (path_sep pre))] c = Ret c1" "reads_file devtab i q n blks c1"
    "remaining q n blks c1 = remaining q n blks c" "srv c1 = srv c" "ulog c1 = ulog c @ chars_of pre @ chars_of (path_sep pre)"
    by (rule show_text_ok[OF assms(1) v(1)])
  obtain c2 where c2: "show_text devtab stk ''%s'' [AStr (chars_of (entry_name f))] c1 = Ret c2" "reads_file devtab i q n blks c2"
    "remaining q n blks c2 = remaining q n blks c1" "srv c2 = srv c1" "ulog c2 = ulog c1 @ chars_of (entry_name f)"
    by (rule show_text_ok[OF c1(2) v(2)])
  obtain d where d: "show_text devtab stk ''/'' [] c2 = Ret d" "reads_file devtab i q n blks d"
    "remaining q n blks d = remaining q n blks c2" "srv d = srv c2" "ulog d = ulog c2 @ ''/''" by (rule show_text_ok[OF c2(2) w(1)])
  have slash: "chars_of [47] = ''/''" "chars_of [] = []" by code_simp+
  let ?dir = "70 \<in> flag \<and> entry_isdir f"
  define c3 where "c3 = (if ?dir then d else c2)"
  have c3: "(if ?dir then show_text devtab stk ''/'' [] c2 else Ret c2) = Ret c3" "reads_file devtab i q n blks c3"
    "remaining q n blks c3 = remaining q n blks c2" "srv c3 = srv c2" "ulog c3 = ulog c2 @ chars_of (if ?dir then [47] else [])"
    using d c2(2) slash by (simp_all add: c3_def del: chars_of_append)
  obtain c4 where c4: "show_text devtab stk ''  '' [] c3 = Ret c4" "reads_file devtab i q n blks c4"
    "remaining q n blks c4 = remaining q n blks c3" "srv c4 = srv c3" "ulog c4 = ulog c3 @ ''  ''" by (rule show_text_ok[OF c3(2) w(2)])
  have "chars_of [32, 32] = ''  ''" by code_simp
  moreover have "ls1 devtab stk flag (Some pre) (entry_isdir f) sz (entry_name f) c = Ret c4"
    unfolding ls1_def if_not_P[OF assms(2)] option.case rbind_simps c1(1) c2(1) c3(1) c4(1) by (rule refl)
  ultimately show ?thesis using c1 c2 c3 c4 by (intro that[of c4]) (simp_all add: entry_text_def)
qed

lemma lsdir_ok:
  "reads_file devtab i q n blks c \<Longrightarrow> 108 \<notin> flag \<Longrightarrow> length (remaining q n blks c) mod 256 = 0 \<Longrightarrow>
   \<exists>c'. lsdir_loop devtab stk flag (int i) pre c = Some (Ret c') \<and> srv c' = srv c \<and>
     ulog c' = ulog c @ chars_of (concat (map (entry_text flag pre) (filter (\<lambda>f. hd f \<noteq> 0) (raw_entries (remaining q n blks c)))))"
proof (induction "length (remaining q n blks c)" arbitrary: c rule: less_induct)
  case less
  let ?r = "remaining q n blks c"
  let ?f = "take 256 ?r"
  let ?c1 = "move_fd q (length ?f) c"
  have rd: "readn devtab (int i) sizeof_File c = Ret ((int (length ?f), ?f), ?c1)"
    using read_remaining(2)[OF less.prems(1), of sizeof_File] by (simp add: Let_def sizeof_File_def)
  show ?case
  proof (cases "?r = []")
    case True
    then show ?thesis using rd by (subst lsdir_loop.simps) (simp add: raw_entries_def)
  next
    case False
    then have l: "256 \<le> length ?r" using less.prems(3) by (cases "length ?r < 256") auto
    then have lf: "length ?f = 256" by simp
    have "length ?f \<le> length ?r" by simp
    note m = moved_file[OF less.prems(1) this]
    obtain d where d: "ls1 devtab stk flag (Some pre) (entry_isdir ?f) (entry_word ?f 32) (entry_name ?f) ?c1 = Ret d" "reads_file devtab i q n blks d"
      "remaining q n blks d = remaining q n blks ?c1" "srv d = srv ?c1" "ulog d = ulog ?c1 @ chars_of (entry_text flag pre ?f)"
      by (rule ls1_ok[OF m(1) less.prems(2)])
    define c2 where "c2 = (if hd ?f \<noteq> 0 then d else ?c1)"
    have c2: "(if hd ?f \<noteq> 0 then ls1 devtab stk flag (Some pre) (entry_isdir ?f) (entry_word ?f 32) (entry_name ?f) ?c1 else Ret ?c1) = Ret c2"
      "reads_file devtab i q n blks c2" "remaining q n blks c2 = drop 256 ?r" "srv c2 = srv c"
      "ulog c2 = ulog c @ chars_of (concat (map (entry_text flag pre) (filter (\<lambda>f. hd f \<noteq> 0) [?f])))"
      using d m lf by (simp_all add: c2_def)
    have step: "lsdir_loop devtab stk flag (int i) pre c = lsdir_loop devtab stk flag (int i) pre c2"
      by (subst lsdir_loop.simps) (simp only: rd lf ores_simps prod.case c2(1)[unfolded lf], simp)
    have "length (remaining q n blks c2) < length ?r" "length (remaining q n blks c2) mod 256 = 0"
      unfolding c2(3) using l less.prems(3) by (simp, simp add: le_mod_geq)
    from less.hyps[OF this(1) c2(2) less.prems(2) this(2)] obtain c' where c': "lsdir_loop devtab stk flag (int i) pre c2 = Some (Ret c')" "srv c' = srv c2"
      "ulog c' = ulog c2 @ chars_of (concat (map (entry_text flag pre) (filter (\<lambda>f. hd f \<noteq> 0) (raw_entries (drop 256 ?r)))))" unfolding c2(3) by blast
    then show ?thesis unfolding step raw_entries_Cons[OF l] using c2(4,5) by simp
  qed
qed

section \<open>Properties\<close>

text \<open>
  C38. \<open>cat\<close> copies a file: from any position in an open file whose blocks are mapped, with the console as descriptor 1, it returns after
  having written exactly the bytes from there to the end of the file, in its rounds of 8192 bytes; the file and the server are unchanged.
\<close>

theorem cat_copies:
  assumes "reads_file devtab i q n blks c"
  shows "\<exists>c'. cat devtab (int i) c = Some (Ret c') \<and> reads_file devtab i q n blks c' \<and> srv c' = srv c \<and> at_offset c' q = n \<and>
    ulog c' = ulog c @ chars_of (drop (at_offset c q) (contents (fs (srv c)) blks n))"
proof -
  obtain c' where c': "cat devtab (int i) c = Some (Ret c')" "reads_file devtab i q n blks c'" "srv c' = srv c" "remaining q n blks c' = []"
    "ulog c' = ulog c @ chars_of (remaining q n blks c)" using cat_ok[OF assms] by blast
  have "n - at_offset c' q = 0" using remaining_len[of q n blks c'] c'(4) by simp
  then have "at_offset c' q = n" using c'(2) by (simp add: reads_file_def)
  then show ?thesis using c' by (simp add: remaining_def)
qed

lemma holding_reads:
  assumes "length bs mod 4 = 0" "0 < length bs" "length bs \<le> 4096"
  shows "reads_file [devcons, devfile] 0 0 (length bs) [3] (holding bs)" "remaining 0 (length bs) [3] (holding bs) = bs" "ulog (holding bs) = []"
proof -
  have "cons_open [devcons, devfile] 1 (holding bs)" using fd_vpn_eq[of 0 1] fd_data_vpn[of 1 0 0]
    by (simp add: cons_open_def holding_def devcons_def)
  then show "reads_file [devcons, devfile] 0 0 (length bs) [3] (holding bs)" using holding_opened(1)[OF assms] holding_mode[of bs]
    by (simp add: reads_file_def) (simp add: devcons_def devfile_def)
  show "remaining 0 (length bs) [3] (holding bs) = bs" using holding_opened(2)[OF assms] by (simp add: remaining_def holding_mode)
  show "ulog (holding bs) = []" by (simp add: holding_def demo_cst_def)
qed

definition demo_text :: "u8 list" where
  "demo_text = [97, 98, 10, 120, 121, 10, 120, 98, 10, 98, 98, 98]"

lemma demo_text_ok: "length demo_text mod 4 = 0" "0 < length demo_text" "length demo_text \<le> 4096"
  by (simp_all add: demo_text_def)

theorem cat_copies_witness:
  "\<exists>c'. cat [devcons, devfile] 0 (holding demo_text) = Some (Ret c') \<and> ulog c' = chars_of demo_text"
proof -
  note h = holding_reads[OF demo_text_ok]
  obtain c' where "cat [devcons, devfile] (int 0) (holding demo_text) = Some (Ret c')"
    "ulog c' = ulog (holding demo_text) @ chars_of (remaining 0 (length demo_text) [3] (holding demo_text))"
    using cat_copies[OF h(1)] unfolding remaining_def by blast
  then show ?thesis unfolding h(2,3) by simp
qed

text \<open>
  C39. \<open>grep\<close> searches the lines of a file that end with a newline: for a nonempty pattern and a file in which these lines have at most 511
  bytes (and what follows the last newline at most 512), it returns after having printed, in order, exactly those of them
  that contain the pattern as a substring, although it reads in pieces of 512 bytes and searches with one pointer that steps
  back. What follows the last newline is never searched or printed. A line is printed up to its first NUL, and it is
  the format of \<open>printf\<close>: the lines to be printed have no percent sign before it.
\<close>

theorem grep_prints:
  assumes "reads_file devtab i q n blks c" "pat \<noteq> []" "lbuf_fits [] (remaining q n blks c)"
    and "printable pat (lines_from [] (remaining q n blks c))"
  shows "\<exists>c'. grep devtab stk (int i) pat [] c = Some (Ret c') \<and> srv c' = srv c \<and>
    ulog c' = ulog c @ chars_of (concat (map c_text (filter (sublist pat) (lines_from [] (remaining q n blks c)))))"
  by (rule grep_ok[OF assms(2,1,3,4)])

theorem grep_prints_witness:
  "\<exists>c'. grep [devcons, devfile] (\<lambda>_. CHR ''?'') 0 [98] [] (holding demo_text) = Some (Ret c') \<and> ulog c' = chars_of [97, 98, 10, 120, 98, 10]"
proof -
  note h = holding_reads[OF demo_text_ok]
  have l: "lines_from [] demo_text = [[97, 98, 10], [120, 121, 10], [120, 98, 10]]" "last_from [] demo_text = [98, 98, 98]"
    by (simp_all add: demo_text_def)
  have s: "sublist [98] [97, 98, 10 :: u8]" "\<not> sublist [98] [120, 121, 10 :: u8]" "sublist [98] [120, 98, 10 :: u8]"
    by code_simp+
  have f: "concat (map c_text (filter (sublist [98]) (lines_from [] demo_text))) = [97, 98, 10, 120, 98, 10]" unfolding l by (simp add: s c_text_def)
  have "lbuf_fits [] demo_text" by (simp add: lbuf_fits_def l)
  moreover have "printable [98] (lines_from [] demo_text)" by (simp add: l printable_def c_text_def)
  ultimately obtain c' where c': "grep [devcons, devfile] (\<lambda>_. CHR ''?'') (int 0) [98] [] (holding demo_text) = Some (Ret c')"
    "ulog c' = ulog (holding demo_text) @ chars_of (concat (map c_text (filter (sublist [98]) (lines_from [] demo_text))))"
    using grep_prints[OF h(1), of "[98]" "\<lambda>_. CHR ''?''"] unfolding h(2) by (auto simp del: filter.simps)
  then show ?thesis unfolding f h(3) by (intro exI[of _ c']) (simp del: chars_of_append(3))
qed

text \<open>
  C40. \<open>ls\<close> lists a directory: reading an open directory of whole entries it returns after having printed, in order, exactly the entries
  whose name is not empty, each with the prefix, the separator when the prefix needs one, the name, a slash for directories
  with \<open>-F\<close>, and two blanks (without \<open>-l\<close>); the file system is unchanged.
\<close>

theorem ls_lists:
  assumes "reads_file devtab i q n blks c" "108 \<notin> flag" "length (remaining q n blks c) mod 256 = 0"
  shows "\<exists>c'. lsdir_loop devtab stk flag (int i) pre c = Some (Ret c') \<and> srv c' = srv c \<and>
    ulog c' = ulog c @ chars_of (concat (map (\<lambda>f. pre @ path_sep pre @ entry_name f @ (if 70 \<in> flag \<and> entry_isdir f then [47] else []) @ [32, 32])
      (filter (\<lambda>f. hd f \<noteq> 0) (raw_entries (remaining q n blks c)))))"
proof -
  have "entry_text flag pre = (\<lambda>f. pre @ path_sep pre @ entry_name f @ (if 70 \<in> flag \<and> entry_isdir f then [47] else []) @ [32, 32])"
    by (simp add: entry_text_def fun_eq_iff)
  then show ?thesis using lsdir_ok[OF assms, of stk pre] by simp
qed

theorem ls_lists_witness:
  "\<exists>c'. lsdir_loop [devcons, devfile] (\<lambda>_. CHR ''?'') {} 0 [47] (holding (replicate 256 0 @ [97, 98] @ replicate 254 0)) = Some (Ret c') \<and>
     ulog c' = ''/ab  ''"
proof -
  let ?d = "replicate 256 0 @ [97, 98] @ replicate 254 0 :: u8 list"
  have "length ?d mod 4 = 0" "0 < length ?d" "length ?d \<le> 4096" by simp_all
  note h = holding_reads[OF this]
  have "raw_entries ?d = [replicate 256 0, [97, 98] @ replicate 254 0]"
    using raw_entries_Cons[of ?d] raw_entries_Cons[of "[97, 98] @ replicate 254 0"] by (simp add: raw_entries_def[of "[]"])
  then have e: "filter (\<lambda>f. hd f \<noteq> 0) (raw_entries ?d) = [[97, 98] @ replicate 254 0]" by simp
  have "entry_name ([97, 98] @ replicate 254 0) = [97, 98]" by (simp add: entry_name_def)
  then have t: "concat (map (\<lambda>f. [47] @ path_sep [47] @ entry_name f @ (if 70 \<in> {} \<and> entry_isdir f then [47] else []) @ [32, 32])
      (filter (\<lambda>f. hd f \<noteq> 0) (raw_entries ?d))) = [47, 97, 98, 32, 32]" unfolding e by (simp add: path_sep_def)
  have s: "chars_of [47, 97, 98, 32, 32] = ''/ab  ''" by code_simp
  have "length (remaining 0 (length ?d) [3] (holding ?d)) mod 256 = 0" unfolding h(2) by simp
  from ls_lists[OF h(1) _ this, of "{}" "\<lambda>_. CHR ''?''" "[47]"] obtain c' where c': "lsdir_loop [devcons, devfile] (\<lambda>_. CHR ''?'') {} (int 0) [47] (holding ?d) = Some (Ret c')"
    "ulog c' = ulog (holding ?d) @ chars_of [47, 97, 98, 32, 32]" unfolding h(2) t by blast
  then show ?thesis unfolding h(3) s by auto
qed

end
