(* ===== verification/SpawnStack.thy ===== *)
theory SpawnStack
  imports UserPage
begin

text \<open>
  The initial stack of a program, \<open>init_stack\<close> of \<^verbatim>\<open>user/lib/spawn.c\<close>, on the model of the kernel. The
  arguments are strings, without their NUL; the page is built at \<open>UTEMP\<close> and then mapped into the child.
  What the child's \<open>main\<close> finds there is stated by reading its memory back.
\<close>

section \<open>init\_stack\<close>

text \<open>The first loop stores the strings at \<open>ctemp\<close>, the second pointers to them; both return the last \<open>ctemp\<close>.\<close>

fun put_strings :: "u32 \<Rightarrow> u8 list list \<Rightarrow> kern \<Rightarrow> (u32 \<times> kern) res" where
  "put_strings ctemp [] s = Ret (ctemp, s)"
| "put_strings ctemp (a # as) s =
     rbind (ustore_bytes ctemp a s) (\<lambda>s.
     let ctemp = ctemp + of_nat (length a)
     in rbind (ustore_byte ctemp 0 s) (put_strings (ctemp + 1) as))"

fun put_args :: "nat \<Rightarrow> u32 \<Rightarrow> u32 \<Rightarrow> u8 list list \<Rightarrow> kern \<Rightarrow> (u32 \<times> kern) res" where
  "put_args i args ctemp [] s = Ret (ctemp, s)"
| "put_args i args ctemp (a # as) s =
     rbind (ustore (args + 4 * of_nat i) ctemp s) (put_args (Suc i) args (ctemp + of_nat (length a) + 1) as)"

definition args_tot :: "u8 list list \<Rightarrow> nat" where
  "args_tot argv = sum_list (map (\<lambda>a. length a + 1) argv)"

definition args_space :: "u8 list list \<Rightarrow> nat" where
  "args_space argv = (args_tot argv + 3) div 4 * 4"

text \<open>The offset from the page at \<open>UTEMP\<close> to the child's stack page.\<close>

definition to_child :: u32 where
  "to_child = USTACKTOP - UTEMP - BY2PG"

definition init_stack :: "u32 \<Rightarrow> u8 list list \<Rightarrow> kern \<Rightarrow> ((int \<times> u32) \<times> kern) res" where
  "init_stack child argv s =
     (let argc = length argv; tot = args_tot argv
      in if 4096 < args_space argv + 4 * (argc + 3) then Ret ((- E_NO_MEM, 0), s)
         else
           let strings = UTEMP + BY2PG - of_nat tot;
               args = UTEMP + BY2PG - of_nat (args_space argv) - 4 * of_nat (argc + 1)
           in rbind (ucall (sys_mem_alloc 0 UTEMP PTE_D s)) (\<lambda>(r, s).
              if r < 0 then Ret ((r, 0), s)
              else rbind (put_strings strings argv s) (\<lambda>(_, s).
                rbind (put_args 0 args (to_child + strings) argv s) (\<lambda>(ctemp, s).
                rbind (ustore (args + 4 * of_nat argc) (ctemp - 1) s) (\<lambda>s.
                rbind (ustore (args - 4) (to_child + args) s) (\<lambda>s.
                rbind (ustore (args - 8) (of_nat argc) s) (\<lambda>s.
                let init_sp = to_child + (args - 8)
                in rbind (ucall (sys_mem_map 0 UTEMP child (USTACKTOP - BY2PG) PTE_D s)) (\<lambda>(r, s).
                   if r < 0 then rbind (ucall (sys_mem_unmap 0 UTEMP s)) (\<lambda>(_, s). Ret ((r, init_sp), s))
                   else rbind (ucall (sys_mem_unmap 0 UTEMP s)) (\<lambda>(r, s).
                     if r < 0 then rbind (ucall (sys_mem_unmap 0 UTEMP s)) (\<lambda>(_, s). Ret ((r, init_sp), s))
                     else Ret ((0, init_sp), s))))))))))"

section \<open>The page at UTEMP\<close>

abbreviation stack_page :: "(nat \<Rightarrow> nat) \<Rightarrow> nat \<Rightarrow> kern \<Rightarrow> nat \<Rightarrow> bool" where
  "stack_page ext c s p \<equiv> user_page ext c s UTEMP p"

lemma UTEMP_span: "page_span UTEMP"
  by (simp add: page_span_def mmu_defs)

lemmas UTEMP_addr = span_addr[OF UTEMP_span]
lemmas stack_page_def = user_page_def and stack_page_upd = user_page_upd
lemmas stack_store_byte = user_store_byte[OF _ UTEMP_span] and stack_store_word = user_store_word[OF _ UTEMP_span]
  and stack_store_bytes = user_store_bytes[OF _ UTEMP_span]

section \<open>The loops\<close>

definition arg_bytes :: "u8 list list \<Rightarrow> u8 list" where
  "arg_bytes argv = concat (map (\<lambda>a. a @ [0]) argv)"

lemma arg_bytes_len: "length (arg_bytes argv) = args_tot argv"
  by (induction argv) (simp_all add: arg_bytes_def args_tot_def)

lemma arg_bytes_Cons: "arg_bytes (a # as) = a @ 0 # arg_bytes as"
  by (simp add: arg_bytes_def)

lemma put_strings_ok:
  "stack_page ext c s p \<Longrightarrow> k + length (arg_bytes argv) \<le> 4096 \<Longrightarrow>
    \<exists>e. put_strings (UTEMP + of_nat k) argv s = Ret (e, with_page s p (fputs k (arg_bytes argv) (pmem s p)))"
proof (induction argv arbitrary: k s)
  case Nil
  then show ?case by (simp add: arg_bytes_def with_page_self)
next
  case (Cons a as)
  let ?f = "fputs k a (pmem s p)" and ?s = "\<lambda>f. with_page s p f"
  have l: "k + length a \<le> 4096" "k + length a < 4096" "k + length a + 1 + length (arg_bytes as) \<le> 4096"
    using Cons.prems(2) by (simp_all add: arg_bytes_Cons)
  have n: "UTEMP + of_nat k + of_nat (length a) = UTEMP + of_nat (k + length a)"
    "UTEMP + of_nat (k + length a) + 1 = UTEMP + of_nat (k + length a + 1)" by simp_all
  have "put_strings (UTEMP + of_nat k) (a # as) s =
      put_strings (UTEMP + of_nat (k + length a + 1)) as (?s (fput (k + length a) 0 ?f))"
    using stack_store_byte[OF stack_page_upd(1)[OF Cons.prems(1)] l(2), of 0 ?f]
    unfolding put_strings.simps stack_store_bytes[OF Cons.prems(1) l(1)] rbind_simps Let_def n(1) by (simp only: n(2) rbind_simps with_page_twice)
  also obtain e where "\<dots> = Ret (e, ?s (fputs (k + length a + 1) (arg_bytes as) (fput (k + length a) 0 ?f)))"
    using Cons.IH[OF stack_page_upd(1)[OF Cons.prems(1)] l(3)] by auto
  finally show ?case by (auto simp: arg_bytes_Cons fputs_append)
qed

text \<open>The place of string \<open>i\<close> among the strings.\<close>

definition arg_off :: "u8 list list \<Rightarrow> nat \<Rightarrow> nat" where
  "arg_off argv i = args_tot (take i argv)"

fun fwords :: "nat \<Rightarrow> u32 list \<Rightarrow> (nat \<Rightarrow> u32) \<Rightarrow> nat \<Rightarrow> u32" where
  "fwords i [] f = f"
| "fwords i (w # ws) f = fwords (Suc i) ws (f(i := w))"

lemma fwords_nth: "fwords i ws f k = (if i \<le> k \<and> k < i + length ws then ws ! (k - i) else f k)"
  by (induction ws arbitrary: i f) (auto simp: nth_Cons' not_le)

lemma put_args_ok:
  "stack_page ext c s p \<Longrightarrow> a0 + i + length argv \<le> 1024 \<Longrightarrow>
    put_args i (UTEMP + of_nat (4 * a0)) ct argv s =
      Ret (ct + of_nat (args_tot argv), with_page s p (fwords (a0 + i) (map (\<lambda>j. ct + of_nat (arg_off argv j)) [0..<length argv]) (pmem s p)))"
proof (induction argv arbitrary: i ct s)
  case Nil
  then show ?case by (simp add: with_page_self args_tot_def)
next
  case (Cons a as)
  have n: "UTEMP + of_nat (4 * a0) + 4 * of_nat i = UTEMP + of_nat (4 * (a0 + i))" by simp
  have k: "a0 + i < 1024" "a0 + Suc i + length as \<le> 1024" using Cons.prems(2) by simp_all
  have m: "map (\<lambda>j. ct + of_nat (arg_off (a # as) j)) [0..<length (a # as)] =
      ct # map (\<lambda>j. ct + of_nat (length a) + 1 + of_nat (arg_off as j)) [0..<length as]"
    unfolding list.size add.right_neutral add_Suc_right map_upt_Suc
    by (simp add: arg_off_def args_tot_def add.assoc add.commute)
  show ?case
    using Cons.IH[OF stack_page_upd(1)[OF Cons.prems(1)] k(2), of "ct + of_nat (length a) + 1" "(pmem s p)(a0 + i := ct)"]
    unfolding put_args.simps n stack_store_word[OF Cons.prems(1) k(1)] rbind_simps m by (simp add: args_tot_def add.assoc add.commute fun_upd_def)
qed

section \<open>The system calls\<close>

lemma alloc_call:
  assumes inv: "kern_inv ext s" and e: "envid2env envid True s = Ret (0, Some e)" "e \<in> live s"
    and va: "\<not> is_illegal_va va" and perm: "perm < 4096"
  obtains r p s' where "sys_mem_alloc envid va perm s = Ret (Back r, s')" "kern_inv ext s'" "pm.more s' = pm.more s" "npage s' = npage s"
    "r = 0 \<or> r = - E_NO_MEM" "r = 0 \<longrightarrow> p < npage s \<and> p \<notin> tgt s ` ptes (dirs s) s \<and> unat (pp_ref s' p) < 65535"
    "\<forall>x \<in> live s. aspace s' (dir_of s x) = (if x = e \<and> r = 0
       then (aspace s (dir_of s x))(vidx va \<mapsto> page2pa p OR perm OR PTE_V) else aspace s (dir_of s x))"
    "\<forall>q \<in> tgt s ` ptes (dirs s) s. pmem s' q = pmem s q" "r = 0 \<longrightarrow> pmem s' p = (\<lambda>_. 0)"
    "\<forall>n. has_room s (Suc (Suc n)) \<longrightarrow> r = 0 \<and> has_room s' n"
proof (cases "LIST_EMPTY (page_free_list s)")
  case True
  then have run: "sys_mem_alloc envid va perm s = Ret (Back (- E_NO_MEM), s)"
    using va e by (simp add: sys_mem_alloc_def with_env_ok page_alloc_def)
  have "\<not> has_room s (Suc n)" for n using True by (auto simp: has_room_def list_rep_empty)
  then show ?thesis by (intro that[OF run inv]) auto
next
  case False
  let ?d = "env_pgdir (envs s e)"
  obtain fl where I: "pm_inv ext (dirs s) s" "inj_on (dir_of s) (live s)" "pm_struct (dirs s) s" "free_ok s fl"
    by (rule kern_inv_exts[OF inv])
  obtain p fl' where pf: "fl = p # fl'" using False I(4) LIST_EMPTY_free_ok by (cases fl) auto
  obtain s1 where s1: "page_alloc s = Ret ((0, Some p), s1)" "pm_inv ext (dirs s) s1" "free_ok s1 fl'"
    "pmem s1 = (pmem s)(p := (\<lambda>_. 0))" "npage s1 = npage s" "pp_ref s1 = pp_ref s" "pm.more s1 = pm.more s"
    "p \<notin> set fl'" "tables (dirs s) s1 = tables (dirs s) s" "tgt s1 ` ptes (dirs s) s1 = tgt s ` ptes (dirs s) s"
    "\<forall>d \<in> dirs s. aspace s1 d = aspace s d"
    by (rule page_alloc_some[OF I(1) I(4)[unfolded pf]])
  have k1: "kern_inv ext s1" by (rule kern_inv_pm[OF inv s1(7,2,5)])
  note m = kern_inv_more_D[OF s1(7)]
  have pr: "p < npage s" "pp_ref s p = 0" using I(4) pf by (simp_all add: free_ok_def)
  have nr: "p \<notin> dirs s" "p \<notin> tables (dirs s) s" "p \<notin> tgt s ` ptes (dirs s) s" using count_ok_free[OF I(1,4), of p] pf by auto
  have can: "can_insert (dirs s1) s1 (p, perm)"
    using pr nr s1 perm page_is_free_iff[OF s1(3)] by (simp add: can_insert_def m)
  have v: "va < UTOP" using va by (simp add: is_illegal_va_def not_le)
  have i: "unat (PDX va) < user_pdes" using PDX_UTOP[OF v] by (simp add: user_pdes_def)
  have el: "e \<in> live s1" using e(2) m by simp
  obtain r s2 where s2: "page_insert (env_pgdir (envs s1 e)) (env_asid (envs s e)) p va perm s1 = Ret (r, s2)"
    "kern_inv ext s2" "pm.more s2 = pm.more s1" "npage s2 = npage s1" "r = 0 \<or> r = - E_NO_MEM"
    "\<forall>d \<in> dirs s1. aspace s2 d = (if d = env_pgdir (envs s1 e) \<and> r = 0
        then (aspace s1 d)(vidx va \<mapsto> page2pa p OR perm OR PTE_V) else aspace s1 d)"
    "p \<notin> tgt s1 ` ptes (dirs s1) s1 \<longrightarrow> pmem s2 p = pmem s1 p"
    by (rule kern_insert[OF k1 el v can, where asid = "env_asid (envs s e)"])
  have d: "?d \<in> dirs s" using e(2) by (rule live_dir)
  have run: "sys_mem_alloc envid va perm s = Ret (Back r, s2)"
    using va e s1(1) s2(1) m by (simp add: sys_mem_alloc_def with_env_ok)
  have sp: "\<forall>x \<in> live s. aspace s2 (dir_of s x) = (if x = e \<and> r = 0
       then (aspace s (dir_of s x))(vidx va \<mapsto> page2pa p OR perm OR PTE_V) else aspace s (dir_of s x))"
    using s2(6) s1(11) m e(2) inj_on_eq_iff[OF I(2), of _ e] by (auto simp: dir_of_def)
  have fr: "\<forall>q \<in> tgt s ` ptes (dirs s) s. pmem s2 q = pmem s q"
  proof
    fix q
    assume q: "q \<in> tgt s ` ptes (dirs s) s"
    have n: "q \<notin> tables (dirs s) s" "q \<notin> set fl" "q \<noteq> ?d" "q \<noteq> p"
      using q I(3) d nr(3) count_ok_free[OF I(1,4), of q] by (auto simp: pm_struct_def)
    then show "pmem s2 q = pmem s q"
      using page_insert_mem[OF s1(2,3) d i s2(1)[unfolded m]] s1(4,9) pf by (auto simp: fun_eq_iff)
  qed
  have rm: "\<forall>n. has_room s (Suc (Suc n)) \<longrightarrow> r = 0 \<and> has_room s2 n"
    using page_alloc_room[OF _ s1(1)] page_insert_room[OF s1(2) d i _ s2(1)[unfolded m]] by blast
  have D: "dirs s2 = dirs s" using kern_inv_more_D[OF s2(3)] m by simp
  have rf: "unat (pp_ref s2 p) < 65535" if r0: "r = 0"
  proof -
    have I2: "pm_inv ext (dirs s) s2" using s2(2) D by (auto simp: kern_inv_def)
    have w: "aspace s2 ?d (vidx va) = Some (page2pa p OR perm OR PTE_V)" using sp e(2) r0 by (auto simp: dir_of_def)
    have np: "npage s \<le> 2 ^ 20" using I(3) by (simp add: pm_struct_def)
    have "users (dirs s) s2 p \<subseteq> {(?d, vidx va)}"
    proof
      fix z
      assume "z \<in> users (dirs s) s2 p"
      then obtain x y v where z: "z = (dir_of s x, y)" "x \<in> live s" "aspace s2 (dir_of s x) y = Some v" "unat (PPN v) = p"
        by (auto simp: users_def)
      have "x = e \<and> y = vidx va"
      proof (rule ccontr)
        assume "\<not> (x = e \<and> y = vidx va)"
        then have "aspace s (dir_of s x) y = Some v" using sp z(2,3) by (auto split: if_splits)
        then have "unat (PPN v) \<in> tgt s ` ptes (dirs s) s" using mapped_refs(3)[OF I(1)] z(2) by blast
        with nr(3) z(4) show False by simp
      qed
      then show "z \<in> {(?d, vidx va)}" by (simp add: z(1) dir_of_def)
    qed
    then have "card (users (dirs s) s2 p) \<le> 1" using card_mono[of "{(?d, vidx va)}"] by fastforce
    moreover have "ext p = 0"
    proof -
      have "unat (pp_ref s p) = ext p + pg_refs (dirs s) s p" using I(1) pr(1) by (simp add: pm_inv_def count_ok_def)
      then show ?thesis using pr(2) by simp
    qed
    ultimately show ?thesis using mapped_refs(1)[OF I2 d w] pte_word(2)[OF pr(1) np perm] by simp
  qed
  have z: "r = 0 \<longrightarrow> pmem s2 p = (\<lambda>_. 0)" using s2(7) s1(4,10) nr(3) m by simp
  show ?thesis by (rule that[OF run s2(2) _ _ s2(5) _ sp fr z rm]) (use s2(3,4) s1(5,7) pr nr rf in auto)
qed


lemma map_call_room:
  assumes inv: "kern_inv ext s" and a: "envid2env srcid True s = Ret (0, Some a)" "a \<in> live s"
    and b: "envid2env dstid True s = Ret (0, Some b)" "b \<in> live s"
    and va: "\<not> is_illegal_va srcva" "\<not> is_illegal_va dstva"
    and w: "aspace s (dir_of s a) (vidx srcva) = Some w"
    and run: "sys_mem_map srcid srcva dstid dstva perm s = Ret (Back r, s')" and room: "has_room s (Suc n)"
  shows "r = 0 \<and> has_room s' n"
proof -
  obtain pfl where I: "pm_inv ext (dirs s) s" "pm_struct (dirs s) s" by (rule kern_inv_exts[OF inv])
  have d: "dir_of s a \<in> dirs s" "env_pgdir (envs s b) \<in> dirs s" using a(2) b(2) by (auto simp: dir_of_def)
  have v: "srcva < UTOP" "dstva < UTOP" using va by (simp_all add: is_illegal_va_def not_le)
  have i: "unat (PDX srcva) < user_pdes" "unat (PDX dstva) < user_pdes"
    using PDX_UTOP[OF v(1)] PDX_UTOP[OF v(2)] by (simp_all add: user_pdes_def)
  have "page_insert (env_pgdir (envs s b)) (env_asid (envs s b)) (unat (PPN w)) dstva perm s = Ret (r, s')"
    using run a b va page_lookup_ok[OF I(2) d(1) i(1), unfolded dir_of_def] w
    by (auto simp: sys_mem_map_def with_env_ok dir_of_def rbind_eq_Ret)
  from page_insert_room[OF I(1) d(2) i(2) room this] show ?thesis by simp
qed

lemma unmap_call_room:
  assumes inv: "kern_inv ext s" and e: "envid2env envid False s = Ret (0, Some e)" "e \<in> live s"
    and va: "\<not> is_illegal_va va" and run: "sys_mem_unmap envid va s = Ret (Back r, s')" and room: "has_room s n"
  shows "has_room s' n"
proof -
  obtain fl where I: "pm_inv ext (dirs s) s" "free_ok s fl" by (rule kern_inv_exts[OF inv])
  have d: "env_pgdir (envs s e) \<in> dirs s" using e(2) by (rule live_dir)
  have "va < UTOP" using va by (simp add: is_illegal_va_def not_le)
  then have i: "unat (PDX va) < user_pdes" using PDX_UTOP by (simp add: user_pdes_def)
  obtain s1 fl1 where s1: "page_remove (env_pgdir (envs s e)) (env_asid (envs s e)) va s = Ret s1" "free_ok s1 fl1"
    "fl1 = (case aspace s (env_pgdir (envs s e)) (vidx va) of None \<Rightarrow> fl | Some w \<Rightarrow>
       if unat (pp_ref s (unat (PPN w))) = 1 then unat (PPN w) # fl else fl)"
    by (rule page_remove_ok[OF I d i, where asid = "env_asid (envs s e)"])
  have "s' = s1" using run s1(1) va e by (simp add: sys_mem_unmap_def with_env_ok)
  moreover have "n \<le> length fl" using room I(2) list_rep_unique by (auto simp: has_room_def free_ok_def)
  ultimately show ?thesis using s1(2,3) by (auto simp: has_room_def free_ok_def split: option.splits if_splits)
qed

section \<open>Reading the stack back\<close>

definition user_byte :: "kern \<Rightarrow> nat \<Rightarrow> u32 \<Rightarrow> u8 option" where
  "user_byte s x va = map_option (\<lambda>w. load_byte s (unat (PPN w)) (unat va mod 4096)) (aspace s (dir_of s x) (vidx va))"

definition user_str :: "kern \<Rightarrow> nat \<Rightarrow> u32 \<Rightarrow> u8 list \<Rightarrow> bool" where
  "user_str s x va bs \<longleftrightarrow> (\<forall>k < length bs. user_byte s x (va + of_nat k) = Some (bs ! k)) \<and> user_byte s x (va + of_nat (length bs)) = Some 0"

text \<open>\<open>main\<close> of environment \<open>x\<close>, entered with the stack pointer \<open>sp\<close>, finds the argument vector.\<close>

definition main_args :: "kern \<Rightarrow> nat \<Rightarrow> u32 \<Rightarrow> u8 list list \<Rightarrow> bool" where
  "main_args s x sp argv \<longleftrightarrow> uword s x sp = Some (of_nat (length argv)) \<and>
     (\<exists>av. uword s x (sp + 4) = Some av \<and>
       (\<forall>i < length argv. \<exists>q. uword s x (av + 4 * of_nat i) = Some q \<and> user_str s x q (argv ! i)))"

definition stk_base :: u32 where "stk_base = USTACKTOP - BY2PG"

lemma stk_addr:
  assumes "k < 4096"
  shows "unat (stk_base + of_nat k) = 0x7f3fd000 + k" "vidx (stk_base + of_nat k) = vidx stk_base" "unat (stk_base + of_nat k) mod 4096 = k"
proof -
  show u: "unat (stk_base + of_nat k) = 0x7f3fd000 + k"
    using assms by (simp add: stk_base_def mmu_defs unat_word_ariths unat_of_nat)
  have z: "unat stk_base = 0x7f3fd000" by (simp add: stk_base_def mmu_defs)
  have d: "(0x7f3fd000 + k) div 4096 = 521213" "(0x7f3fd000 + k) mod 4096 = k"
    using assms mod_mult_self3[of 521213 4096 k] by simp_all
  have e: "(0x7f3fd000 + k) div 4194304 = (0x7f3fd000 + k) div 4096 div 1024" by (simp add: div_mult2_eq[symmetric])
  show "vidx (stk_base + of_nat k) = vidx stk_base" unfolding vidx_def unat_PDX unat_PTX u z e d by simp
  show "unat (stk_base + of_nat k) mod 4096 = k" unfolding u d by (rule refl)
qed

lemma stk_reads:
  assumes "aspace s (dir_of s x) (vidx stk_base) = Some w" "pmem s (unat (PPN w)) = f"
  shows "k < 4096 \<Longrightarrow> user_byte s x (stk_base + of_nat k) = Some (fbyte f k)"
    "i < 1024 \<Longrightarrow> uword s x (stk_base + of_nat (4 * i)) = Some (f i)"
proof -
  show "user_byte s x (stk_base + of_nat k) = Some (fbyte f k)" if "k < 4096"
    using assms unfolding user_byte_def stk_addr(2,3)[OF that] by (simp add: load_byte_def fbyte_def)
  show "uword s x (stk_base + of_nat (4 * i)) = Some (f i)" if "i < 1024"
  proof -
    have "4 * i < 4096" using that by simp
    note st = stk_addr(2,3)[OF this]
    show ?thesis using assms unfolding uword_def st by simp
  qed
qed

lemma arg_bytes_at:
  "i < length argv \<Longrightarrow> take (length (argv ! i) + 1) (drop (arg_off argv i) (arg_bytes argv)) = argv ! i @ [0] \<and>
    arg_off argv i + length (argv ! i) + 1 \<le> args_tot argv"
proof (induction argv arbitrary: i)
  case (Cons a as)
  show ?case
  proof (cases i)
    case 0
    then show ?thesis by (simp add: arg_off_def args_tot_def arg_bytes_def)
  next
    case (Suc j)
    then have "take (length (as ! j) + 1) (drop (arg_off as j) (arg_bytes as)) = as ! j @ [0]"
      "arg_off as j + length (as ! j) + 1 \<le> args_tot as" using Cons by simp_all
    moreover have "arg_off (a # as) i = length a + 1 + arg_off as j" by (simp add: Suc arg_off_def args_tot_def)
    ultimately show ?thesis by (simp add: Suc arg_bytes_def args_tot_def)
  qed
qed simp

definition args_word :: "u8 list list \<Rightarrow> nat" where
  "args_word argv = 1024 - args_space argv div 4 - (length argv + 1)"

definition stack_words :: "u8 list list \<Rightarrow> (nat \<Rightarrow> u32) \<Rightarrow> nat \<Rightarrow> u32" where
  "stack_words argv f0 = (let a = args_word argv; st = stk_base + of_nat (4096 - args_tot argv);
     f = fwords a (map (\<lambda>j. st + of_nat (arg_off argv j)) [0..<length argv]) (fputs (4096 - args_tot argv) (arg_bytes argv) f0)
   in f(a + length argv := st + of_nat (args_tot argv) - 1, a - 1 := stk_base + of_nat (4 * a), a - 2 := of_nat (length argv)))"

lemma args_fit:
  assumes "args_space argv + 4 * (length argv + 3) \<le> 4096"
  shows "2 \<le> args_word argv" "args_word argv + length argv + 1 = 1024 - args_space argv div 4" "args_tot argv \<le> args_space argv"
    "args_space argv div 4 * 4 = args_space argv" "4 * args_word argv + (args_space argv + 4 * (length argv + 1)) = 4096"
proof -
  show 1: "2 \<le> args_word argv" "args_word argv + length argv + 1 = 1024 - args_space argv div 4" "args_tot argv \<le> args_space argv"
    "args_space argv div 4 * 4 = args_space argv"
    using assms by (simp_all add: args_word_def args_space_def)
  define q where "q = args_space argv div 4"
  have q: "args_space argv = 4 * q" "args_word argv + length argv + 1 = 1024 - q" using 1(2,4) by (simp_all add: q_def)
  then have "q \<le> 1024" using assms by simp
  then have "args_word argv + length argv + 1 + q = 1024" using q(2) by simp
  then have "4 * (args_word argv + length argv + 1 + q) = 4096" by simp
  then show "4 * args_word argv + (args_space argv + 4 * (length argv + 1)) = 4096" unfolding q(1) by (simp add: algebra_simps)
qed

lemma stack_words_at:
  assumes "args_space argv + 4 * (length argv + 3) \<le> 4096"
  shows "stack_words argv f0 (args_word argv - 2) = of_nat (length argv)"
    "stack_words argv f0 (args_word argv - 1) = stk_base + of_nat (4 * args_word argv)"
    "i < length argv \<Longrightarrow> stack_words argv f0 (args_word argv + i) = stk_base + of_nat (4096 - args_tot argv + arg_off argv i)"
    "stack_words argv f0 (args_word argv + length argv) = stk_base + of_nat 4095"
    "k < args_tot argv \<Longrightarrow> fbyte (stack_words argv f0) (4096 - args_tot argv + k) = arg_bytes argv ! k"
proof -
  note fit = args_fit[OF assms]
  have ne: "args_word argv - Suc 0 \<noteq> args_word argv - 2" using fit(1) by linarith
  show "stack_words argv f0 (args_word argv - 2) = of_nat (length argv)" by (simp add: stack_words_def Let_def)
  show "stack_words argv f0 (args_word argv - 1) = stk_base + of_nat (4 * args_word argv)"
    using fit(1) ne by (simp add: stack_words_def Let_def)
  have nn: "args_word argv + j \<noteq> args_word argv - Suc 0 \<and> args_word argv + j \<noteq> args_word argv - 2" for j using fit(1) by linarith
  then show "stack_words argv f0 (args_word argv + i) = stk_base + of_nat (4096 - args_tot argv + arg_off argv i)" if "i < length argv"
    using fit(1) that by (simp add: stack_words_def Let_def fwords_nth add.assoc)
  have "args_tot argv \<le> 4096" using fit(3) assms by simp
  then have "stk_base + of_nat (4096 - args_tot argv) + of_nat (args_tot argv) = stk_base + 4096"
    unfolding add.assoc of_nat_add[symmetric] by simp
  then show "stack_words argv f0 (args_word argv + length argv) = stk_base + of_nat 4095"
    using fit(1) nn[of "length argv"] by (simp add: stack_words_def Let_def)
  assume k: "k < args_tot argv"
  have "args_word argv + length argv + 1 \<le> (4096 - args_tot argv + k) div 4"
  proof -
    have "4096 - args_space argv \<le> 4096 - args_tot argv + k" using fit(3) by simp
    then have "(4096 - args_space argv) div 4 \<le> (4096 - args_tot argv + k) div 4" by (rule div_le_mono)
    moreover have "4096 - args_space argv = 4 * (1024 - args_space argv div 4)" using fit(4) by simp
    ultimately show ?thesis using fit(2) by simp
  qed
  moreover have "(4096 - args_tot argv + k) div 4 \<noteq> args_word argv - Suc 0 \<and> (4096 - args_tot argv + k) div 4 \<noteq> args_word argv - 2"
    using calculation by linarith
  ultimately show "fbyte (stack_words argv f0) (4096 - args_tot argv + k) = arg_bytes argv ! k"
    using k by (simp add: stack_words_def Let_def fbyte_word fwords_nth fbyte_def[of "fwords _ _ _"])
      (simp add: fbyte_def[symmetric] fbyte_fputs arg_bytes_len)
qed

lemma main_args_stack:
  assumes fit: "args_space argv + 4 * (length argv + 3) \<le> 4096"
    and w: "aspace s (dir_of s x) (vidx stk_base) = Some w" "pmem s (unat (PPN w)) = stack_words argv f0"
  shows "main_args s x (stk_base + of_nat (4 * (args_word argv - 2))) argv"
proof -
  let ?a = "args_word argv" and ?T = "args_tot argv"
  note f = args_fit[OF fit] and at = stack_words_at[OF fit, where ?f0.0 = f0] and rd = stk_reads[OF w]
  have l: "?a - 2 < 1024" "?a - 1 < 1024" "?T \<le> 4096" using f(2,3) fit by simp_all
  have "stk_base + of_nat (4 * (?a - 2)) + 4 = stk_base + of_nat (4 * (?a - 2) + 4)" by simp
  also have "4 * (?a - 2) + 4 = 4 * (?a - 1)" using f(1) by simp
  finally have sp4: "stk_base + of_nat (4 * (?a - 2)) + 4 = stk_base + of_nat (4 * (?a - 1))" .
  have arg: "\<exists>q. uword s x (stk_base + of_nat (4 * ?a) + 4 * of_nat i) = Some q \<and> user_str s x q (argv ! i)" if i: "i < length argv" for i
  proof -
    let ?o = "4096 - ?T + arg_off argv i"
    have m: "stk_base + of_nat (4 * ?a) + 4 * of_nat i = stk_base + of_nat (4 * (?a + i))" by simp
    have "?a + i < 1024" using f(2) i by simp
    then have q: "uword s x (stk_base + of_nat (4 * (?a + i))) = Some (stk_base + of_nat ?o)" using rd(2) by (simp only: at(3)[OF i])
    note b = arg_bytes_at[OF i]
    have nth: "arg_bytes argv ! (arg_off argv i + k) = (argv ! i @ [0]) ! k" if "k \<le> length (argv ! i)" for k
    proof -
      have "(argv ! i @ [0]) ! k = take (length (argv ! i) + 1) (drop (arg_off argv i) (arg_bytes argv)) ! k" using b by simp
      also have "\<dots> = drop (arg_off argv i) (arg_bytes argv) ! k" by (rule nth_take) (use that in simp)
      also have "\<dots> = arg_bytes argv ! (arg_off argv i + k)" by (rule nth_drop) (use b in \<open>simp add: arg_bytes_len\<close>)
      finally show ?thesis by simp
    qed
    have "user_byte s x (stk_base + of_nat ?o + of_nat k) = Some ((argv ! i @ [0]) ! k)" if k: "k \<le> length (argv ! i)" for k
    proof -
      have lt: "arg_off argv i + k < ?T" using b k by simp
      have lt2: "4096 - ?T + (arg_off argv i + k) < 4096" using lt l(3) by linarith
      have m2: "stk_base + of_nat ?o + of_nat k = stk_base + of_nat (4096 - ?T + (arg_off argv i + k))" by (simp only: of_nat_add add.assoc)
      show ?thesis unfolding m2 rd(1)[OF lt2] at(5)[OF lt] nth[OF k] by (rule refl)
    qed
    then have "user_str s x (stk_base + of_nat ?o) (argv ! i)" by (simp add: user_str_def nth_append)
    then show ?thesis using q unfolding m by blast
  qed
  show ?thesis
    unfolding main_args_def sp4 using rd(2)[OF l(1)] rd(2)[OF l(2)] at(1,2) arg by auto
qed

section \<open>The contract\<close>

lemma args_addr:
  assumes "args_space argv + 4 * (length argv + 3) \<le> 4096"
  shows "UTEMP + BY2PG - of_nat (args_tot argv) = UTEMP + of_nat (4096 - args_tot argv)"
    "UTEMP + BY2PG - of_nat (args_space argv) - 4 * of_nat (length argv + 1) = UTEMP + of_nat (4 * args_word argv)"
    "UTEMP + of_nat (4 * args_word argv) - 4 = UTEMP + of_nat (4 * (args_word argv - 1))"
    "UTEMP + of_nat (4 * args_word argv) - 8 = UTEMP + of_nat (4 * (args_word argv - 2))"
    "UTEMP + of_nat (4 * args_word argv) + 4 * of_nat (length argv) = UTEMP + of_nat (4 * (args_word argv + length argv))"
    "to_child + (UTEMP + of_nat k) = stk_base + of_nat k"
proof -
  note fit = args_fit[OF assms]
  have sub: "UTEMP + of_nat k - of_nat j = UTEMP + of_nat (k - j)" if "j \<le> k" for k j using that by (simp add: of_nat_diff)
  have b: "UTEMP + BY2PG = UTEMP + of_nat 4096" by (simp add: BY2PG_def)
  show "UTEMP + BY2PG - of_nat (args_tot argv) = UTEMP + of_nat (4096 - args_tot argv)"
    unfolding b by (rule sub) (use fit(3) assms in simp)
  have e: "4 * of_nat (length argv + 1) = (of_nat (4 * (length argv + 1)) :: u32)" by simp
  have l1: "args_space argv \<le> 4096" and l2: "4 * (length argv + 1) \<le> 4096 - args_space argv" using assms by simp_all
  have "4096 - args_space argv - 4 * (length argv + 1) = 4 * args_word argv" using fit(5) by (metis add_diff_cancel_right' diff_diff_add)
  moreover have "UTEMP + BY2PG - of_nat (args_space argv) - of_nat (4 * (length argv + 1)) = UTEMP + of_nat (4096 - args_space argv - 4 * (length argv + 1))"
    unfolding b sub[OF l1] sub[OF l2] by (rule refl)
  ultimately show "UTEMP + BY2PG - of_nat (args_space argv) - 4 * of_nat (length argv + 1) = UTEMP + of_nat (4 * args_word argv)"
    unfolding e by simp
  show "UTEMP + of_nat (4 * args_word argv) - 4 = UTEMP + of_nat (4 * (args_word argv - 1))"
    using sub[of 4 "4 * args_word argv"] fit(1) by (simp add: right_diff_distrib')
  show "UTEMP + of_nat (4 * args_word argv) - 8 = UTEMP + of_nat (4 * (args_word argv - 2))"
    using sub[of 8 "4 * args_word argv"] fit(1) by (simp add: right_diff_distrib')
  show "UTEMP + of_nat (4 * args_word argv) + 4 * of_nat (length argv) = UTEMP + of_nat (4 * (args_word argv + length argv))" by simp
  show "to_child + (UTEMP + of_nat k) = stk_base + of_nat k" by (simp add: to_child_def stk_base_def)
qed

lemma stack_built:
  assumes fit: "args_space argv + 4 * (length argv + 3) \<le> 4096" and p: "stack_page ext c s p"
  shows "rbind (put_strings (UTEMP + of_nat (4096 - args_tot argv)) argv s) (\<lambda>(_, s).
      rbind (put_args 0 (UTEMP + of_nat (4 * args_word argv)) (to_child + (UTEMP + of_nat (4096 - args_tot argv))) argv s) (\<lambda>(ctemp, s).
      rbind (ustore (UTEMP + of_nat (4 * (args_word argv + length argv))) (ctemp - 1) s) (\<lambda>s.
      rbind (ustore (UTEMP + of_nat (4 * (args_word argv - 1))) (to_child + (UTEMP + of_nat (4 * args_word argv))) s) (\<lambda>s.
      rbind (ustore (UTEMP + of_nat (4 * (args_word argv - 2))) (of_nat (length argv)) s) k)))) =
    k (with_page s p (stack_words argv (pmem s p)))"
proof -
  note f = args_fit[OF fit] and ad = args_addr[OF fit]
  have l: "4096 - args_tot argv + length (arg_bytes argv) \<le> 4096" "args_word argv + 0 + length argv \<le> 1024"
    "args_word argv + length argv < 1024" "args_word argv - 1 < 1024" "args_word argv - 2 < 1024"
    using f(2,3) fit by (simp_all add: arg_bytes_len)
  obtain e where ps: "put_strings (UTEMP + of_nat (4096 - args_tot argv)) argv s =
    Ret (e, with_page s p (fputs (4096 - args_tot argv) (arg_bytes argv) (pmem s p)))" using put_strings_ok[OF p l(1)] by blast
  note u = stack_page_upd(1)[OF p]
  show ?thesis
    unfolding ps rbind_simps prod.case put_args_ok[OF u l(2)] stack_store_word[OF u l(3)] stack_store_word[OF u l(4)]
      stack_store_word[OF u l(5)] with_page_twice ad(6) stack_words_def Let_def by simp
qed

lemma spawn_addr: "\<not> is_illegal_va UTEMP" "\<not> is_illegal_va (USTACKTOP - BY2PG)" "PTE_D < 4096" "stk_base = USTACKTOP - BY2PG"
  by (simp_all add: is_illegal_va_def mmu_defs stk_base_def)

lemma zero_env: "runs ext c s \<Longrightarrow> envid2env 0 b s = Ret (0, Some c)"
  by (simp add: envid2env_def)

text \<open>The end of \<open>init_stack\<close>: the page goes to the child and leaves \<open>UTEMP\<close>.\<close>

lemma page_moved:
  assumes r: "runs ext c s" and e: "envid2env child True s = Ret (0, Some e)" "e \<in> live s" "e \<noteq> c"
    and w: "aspace s (dir_of s c) (vidx UTEMP) = Some w" "unat (pp_ref s (unat (PPN w))) < 65535"
  obtains r s' where "rbind (ucall (sys_mem_map 0 UTEMP child (USTACKTOP - BY2PG) PTE_D s)) (\<lambda>(r, s).
      if r < 0 then rbind (ucall (sys_mem_unmap 0 UTEMP s)) (\<lambda>(_, s). Ret ((r, x), s))
      else rbind (ucall (sys_mem_unmap 0 UTEMP s)) (\<lambda>(r, s).
        if r < 0 then rbind (ucall (sys_mem_unmap 0 UTEMP s)) (\<lambda>(_, s). Ret ((r, x), s)) else Ret ((0, x), s))) = Ret ((r, x), s')"
    "runs ext c s'" "pm.more s' = pm.more s" "r = 0 \<or> r = - E_NO_MEM" "has_room s 1 \<longrightarrow> r = 0" "pmem s' (unat (PPN w)) = pmem s (unat (PPN w))"
    "\<forall>y. aspace s' (dir_of s c) y = (if y = vidx UTEMP then None else aspace s (dir_of s c) y)"
    "\<forall>y. aspace s' (dir_of s e) y = (if y = vidx stk_base \<and> r = 0 then Some (page2pa (unat (PPN w)) OR PTE_D OR PTE_V) else aspace s (dir_of s e) y)"
    "\<forall>x \<in> live s - {e, c}. aspace s' (dir_of s x) = aspace s (dir_of s x)"
proof -
  have k: "kern_inv ext s" "c \<in> live s" using r by simp_all
  have z: "envid2env 0 b s = Ret (0, Some c)" for b by (rule zero_env[OF r])
  obtain r1 s1 where s1: "sys_mem_map 0 UTEMP child (USTACKTOP - BY2PG) PTE_D s = Ret (Back r1, s1)" "kern_inv ext s1"
    "pm.more s1 = pm.more s" "npage s1 = npage s" "r1 = 0 \<or> r1 = - E_NO_MEM"
    "\<forall>x \<in> live s. aspace s1 (dir_of s x) = (if x = e \<and> r1 = 0
       then (aspace s (dir_of s x))(vidx (USTACKTOP - BY2PG) \<mapsto> page2pa (unat (PPN w)) OR PTE_D OR PTE_V) else aspace s (dir_of s x))"
    "\<forall>p \<in> tgt s ` ptes (dirs s) s. pmem s1 p = pmem s p"
    by (rule map_call_ok[OF k(1) z k(2) e(1,2) spawn_addr(1,2,3) w])
  note m = kern_inv_more_D[OF s1(3)]
  have rm: "has_room s 1 \<longrightarrow> r1 = 0"
    using map_call_room[OF k(1) z k(2) e(1,2) spawn_addr(1,2) w(1) s1(1), of 0] by auto
  have r1: "runs ext c s1" by (rule runs_step[OF r s1(2,3)])
  obtain s2 where s2: "sys_mem_unmap 0 UTEMP s1 = Ret (Back 0, s2)" "kern_inv ext s2" "pm.more s2 = pm.more s1"
    "\<forall>x \<in> live s1. aspace s2 (dir_of s1 x) = (if x = c then (aspace s1 (dir_of s1 x))(vidx UTEMP := None) else aspace s1 (dir_of s1 x))"
    "\<forall>q. q \<notin> tables (dirs s1) s1 \<longrightarrow> pmem s2 q = pmem s1 q"
    by (rule unmap_call_ok[OF s1(2) zero_env[OF r1] _ spawn_addr(1)]) (use k(2) m in auto)
  have I1: "pm_inv ext (dirs s) s1" "pm_struct (dirs s) s1" using s1(2) m by (auto simp: kern_inv_def pm_inv_def)
  have I: "pm_inv ext (dirs s) s" "dir_of s c \<in> dirs s" using k by (auto simp: kern_inv_def)
  have "aspace s1 (dir_of s c) (vidx UTEMP) = Some w" using s1(6) k(2) e(3) w(1) by simp
  from mapped_refs(3)[OF I1(1) I(2) this] have "unat (PPN w) \<notin> tables (dirs s1) s1" using I1(2) m by (auto simp: pm_struct_def)
  then have pm: "pmem s2 (unat (PPN w)) = pmem s (unat (PPN w))"
    using s2(5) s1(7)[rule_format, OF mapped_refs(3)[OF I w(1)]] by simp
  show ?thesis
  proof (rule that[OF _ _ _ s1(5) rm pm])
    show "rbind (ucall (sys_mem_map 0 UTEMP child (USTACKTOP - BY2PG) PTE_D s)) (\<lambda>(r, s).
      if r < 0 then rbind (ucall (sys_mem_unmap 0 UTEMP s)) (\<lambda>(_, s). Ret ((r, x), s))
      else rbind (ucall (sys_mem_unmap 0 UTEMP s)) (\<lambda>(r, s).
        if r < 0 then rbind (ucall (sys_mem_unmap 0 UTEMP s)) (\<lambda>(_, s). Ret ((r, x), s)) else Ret ((0, x), s))) = Ret ((r1, x), s2)"
      using s1(1,5) s2(1) by auto
    show "runs ext c s2" by (rule runs_step[OF r1 s2(2,3)])
    show "pm.more s2 = pm.more s" using s2(3) s1(3) by simp
  qed (use s1(6) s2(4) m k(2) e(2,3) in \<open>auto simp: spawn_addr(4)\<close>)
qed

text \<open>
  C31. \<open>init_stack\<close> with arguments that do not fit a page fails without effect. Otherwise it returns 0, and certainly so when
  three pages are free, or \<open>-E_NO_MEM\<close>; \<open>UTEMP\<close> is left unmapped, and when it returns 0 the page below the child's stack
  top holds exactly what the child's \<open>main\<close> decodes as the same number of arguments and the same strings,
  starting from a word-aligned stack pointer that lies, with everything it leads to, in that page. No other mapping changes.
\<close>

theorem init_stack_correct:
  assumes r: "runs ext c s" and e: "envid2env child True s = Ret (0, Some e)" "e \<in> live s" "e \<noteq> c"
  shows "if 4096 < args_space argv + 4 * (length argv + 3) then init_stack child argv s = Ret ((- E_NO_MEM, 0), s)
    else \<exists>r sp s'. init_stack child argv s = Ret ((r, sp), s') \<and> runs ext c s' \<and> envs s' = envs s \<and> (r = 0 \<or> r = - E_NO_MEM) \<and>
      (has_room s 3 \<longrightarrow> r = 0) \<and>
      (\<forall>x \<in> live s. \<forall>y. y \<noteq> vidx (if x = e then USTACKTOP - BY2PG else UTEMP) \<or> x \<notin> {e, c} \<longrightarrow>
         aspace s' (dir_of s x) y = aspace s (dir_of s x) y) \<and>
      (r = 0 \<longrightarrow> aspace s' (dir_of s c) (vidx UTEMP) = None \<and> main_args s' e sp argv \<and> sp mod 4 = 0 \<and>
         unat (USTACKTOP - BY2PG) \<le> unat sp \<and> unat sp + 4 * (length argv + 3) + args_tot argv \<le> unat USTACKTOP)"
proof (cases "4096 < args_space argv + 4 * (length argv + 3)")
  case True
  then show ?thesis by (simp add: init_stack_def)
next
  case False
  then have fit: "args_space argv + 4 * (length argv + 3) \<le> 4096" by simp
  note ad = args_addr[OF fit] and f = args_fit[OF fit]
  let ?sp = "stk_base + of_nat (4 * (args_word argv - 2))"
  have k: "kern_inv ext s" "c \<in> live s" using r by simp_all
  obtain r1 p s1 where s1: "sys_mem_alloc 0 UTEMP PTE_D s = Ret (Back r1, s1)" "kern_inv ext s1" "pm.more s1 = pm.more s" "npage s1 = npage s"
    "r1 = 0 \<or> r1 = - E_NO_MEM" "r1 = 0 \<longrightarrow> p < npage s \<and> p \<notin> tgt s ` ptes (dirs s) s \<and> unat (pp_ref s1 p) < 65535"
    "\<forall>x \<in> live s. aspace s1 (dir_of s x) = (if x = c \<and> r1 = 0
       then (aspace s (dir_of s x))(vidx UTEMP \<mapsto> page2pa p OR PTE_D OR PTE_V) else aspace s (dir_of s x))"
    "\<forall>n. has_room s (Suc (Suc n)) \<longrightarrow> r1 = 0 \<and> has_room s1 n"
    by (rule alloc_call[OF k(1) zero_env[OF r] k(2) spawn_addr(1,3)])
  note m = kern_inv_more_D[OF s1(3)]
  have rn: "runs ext c s1" by (rule runs_step[OF r s1(2,3)])
  have t3: "(3 :: nat) = Suc (Suc 1)" by simp
  show ?thesis
  proof (cases "r1 = 0")
    case False
    then have "init_stack child argv s = Ret ((r1, 0), s1)" using fit s1(1,5) by (simp add: init_stack_def Let_def)
    moreover have "\<not> has_room s 3" using s1(8) False unfolding t3 by blast
    ultimately show ?thesis using fit False s1(5,7) rn m by (auto intro!: exI)
  next
    case True
    let ?w = "page2pa p OR PTE_D OR PTE_V"
    have np: "npage s \<le> 2 ^ 20" using k(1) by (simp add: kern_inv_def pm_inv_def pm_struct_def)
    have w: "aspace s1 (dir_of s1 c) (vidx UTEMP) = Some ?w" "unat (PPN ?w) = p" "?w AND PTE_D \<noteq> 0"
      using s1(6,7) True k(2) m pte_word(2)[OF _ np spawn_addr(3), of p] by (simp_all add: flag_bit(2) bit_or_iff pte_bits)
    have sp: "stack_page ext c s1 p" using rn w by (auto simp: stack_page_def)
    define s2 where "s2 = with_page s1 p (stack_words argv (pmem s1 p))"
    note u = stack_page_upd[OF sp, of "stack_words argv (pmem s1 p)", folded s2_def]
    have m2: "pm.more s2 = pm.more s" "pp_ref s2 = pp_ref s1" "pmem s2 p = stack_words argv (pmem s1 p)" "page_free_list s2 = page_free_list s1"
      using s1(3) by (simp_all add: s2_def with_page_def)
    note m2D = kern_inv_more_D[OF m2(1)]
    have e2: "envid2env child True s2 = Ret (0, Some e)" "e \<in> live s2" using e(1,2) m2D envid2env_cong[of s2 s] by auto
    have r2: "runs ext c s2" using u(1) by (auto simp: stack_page_def)
    have w2: "aspace s2 (dir_of s2 c) (vidx UTEMP) = Some ?w" using u(3) w(1) m m2D k(2) by auto
    have ref: "unat (pp_ref s2 (unat (PPN ?w))) < 65535" using s1(6) True w(2) m2(2) by simp
    obtain r3 s3 where s3: "rbind (ucall (sys_mem_map 0 UTEMP child (USTACKTOP - BY2PG) PTE_D s2)) (\<lambda>(r, s).
      if r < 0 then rbind (ucall (sys_mem_unmap 0 UTEMP s)) (\<lambda>(_, s). Ret ((r, ?sp), s))
      else rbind (ucall (sys_mem_unmap 0 UTEMP s)) (\<lambda>(r, s).
        if r < 0 then rbind (ucall (sys_mem_unmap 0 UTEMP s)) (\<lambda>(_, s). Ret ((r, ?sp), s)) else Ret ((0, ?sp), s))) = Ret ((r3, ?sp), s3)"
      "runs ext c s3" "pm.more s3 = pm.more s2" "r3 = 0 \<or> r3 = - E_NO_MEM" "has_room s2 1 \<longrightarrow> r3 = 0" "pmem s3 (unat (PPN ?w)) = pmem s2 (unat (PPN ?w))"
      "\<forall>y. aspace s3 (dir_of s2 c) y = (if y = vidx UTEMP then None else aspace s2 (dir_of s2 c) y)"
      "\<forall>y. aspace s3 (dir_of s2 e) y = (if y = vidx stk_base \<and> r3 = 0 then Some (page2pa (unat (PPN ?w)) OR PTE_D OR PTE_V) else aspace s2 (dir_of s2 e) y)"
      "\<forall>x \<in> live s2 - {e, c}. aspace s3 (dir_of s2 x) = aspace s2 (dir_of s2 x)"
      by (rule page_moved[OF r2 e2 e(3) w2 ref])
    have "init_stack child argv s = rbind (ucall (sys_mem_map 0 UTEMP child (USTACKTOP - BY2PG) PTE_D s2)) (\<lambda>(r, s).
      if r < 0 then rbind (ucall (sys_mem_unmap 0 UTEMP s)) (\<lambda>(_, s). Ret ((r, to_child + (UTEMP + of_nat (4 * (args_word argv - 2)))), s))
      else rbind (ucall (sys_mem_unmap 0 UTEMP s)) (\<lambda>(r, s).
        if r < 0 then rbind (ucall (sys_mem_unmap 0 UTEMP s)) (\<lambda>(_, s). Ret ((r, to_child + (UTEMP + of_nat (4 * (args_word argv - 2)))), s))
        else Ret ((0, to_child + (UTEMP + of_nat (4 * (args_word argv - 2)))), s)))"
      using fit unfolding init_stack_def Let_def ad(1-5) s1(1) True ucall_Ret rbind_simps prod.case stack_built[OF fit sp] s2_def[symmetric]
      by (simp only: not_less[symmetric] if_False less_irrefl)
    then have run: "init_stack child argv s = Ret ((r3, ?sp), s3)" unfolding ad(6) s3(1) .
    have f3: "pmem s3 (unat (PPN ?w)) = stack_words argv (pmem s1 p)" using s3(6) m2(3) w(2) by simp
    have m3: "dir_of s3 = dir_of s" "envs s3 = envs s" using kern_inv_more_D[OF s3(3)] m2D by simp_all
    have args: "main_args s3 e ?sp argv" if "r3 = 0"
    proof -
      have "aspace s3 (dir_of s3 e) (vidx stk_base) = Some (page2pa p OR PTE_D OR PTE_V)"
        using s3(8)[rule_format, of "vidx stk_base"] that w(2) m3(1) m2D(1) by simp
      from main_args_stack[OF fit this] f3 w(2) show ?thesis by simp
    qed
    have sp_le: "4 * (args_word argv - 2) + 4 * (length argv + 3) + args_tot argv \<le> 4096" "4 * (args_word argv - 2) < 4096"
      using f(1,3,5) by (auto simp: algebra_simps)
    note st = stk_addr(1)[OF sp_le(2)]
    have "?sp mod 4 = 0"
    proof -
      have "(0x7f3fd000 + 4 * (args_word argv - 2)) mod 4 = 0" by simp
      then show ?thesis unfolding word_unat_eq_iff unat_mod st by simp
    qed
    moreover have "unat (USTACKTOP - BY2PG) \<le> unat ?sp" "unat ?sp + 4 * (length argv + 3) + args_tot argv \<le> unat USTACKTOP"
      unfolding st using sp_le(1) by (simp_all add: mmu_defs)
    moreover have "has_room s 3 \<longrightarrow> r3 = 0"
      using s1(8) s3(5) m2(4) unfolding t3 by (auto simp: has_room_def)
    moreover have "aspace s3 (dir_of s x) y = aspace s (dir_of s x) y"
      if "x \<in> live s" "y \<noteq> vidx (if x = e then USTACKTOP - BY2PG else UTEMP) \<or> x \<notin> {e, c}" for x y
    proof -
      note h = that
      have d: "dir_of s2 = dir_of s" "live s2 = live s" "dir_of s1 = dir_of s" "live s1 = live s" using m m2D by simp_all
      have b: "aspace s2 (dir_of s x) = aspace s1 (dir_of s x)" using u(3) that(1) d by simp
      consider "x = e" "y \<noteq> vidx stk_base" | "x = c" "y \<noteq> vidx UTEMP" | "x \<noteq> e" "x \<noteq> c" using h(2) e(3) spawn_addr(4) by (auto split: if_splits)
      then show ?thesis
      proof cases
        case 1
        then show ?thesis using s3(8)[rule_format, of y] b s1(7) that(1) e(3) d by simp
      next
        case 2
        then show ?thesis using s3(7)[rule_format, of y] b s1(7) that(1) d by simp
      next
        case 3
        then show ?thesis using s3(9) b s1(7) that(1) d by simp
      qed
    qed
    moreover have "aspace s3 (dir_of s c) (vidx UTEMP) = None" using s3(7)[rule_format, of "vidx UTEMP"] m2D(1) by simp
    ultimately show ?thesis using fit run s3(2,4) m3 args by auto
  qed
qed

text \<open>The concrete kernel with more memory: six free pages.\<close>

definition roomy_kern :: kern where
  "roomy_kern = demo_kern\<lparr>memsize := 65536, npage := 16,
     page_free_list := fold LIST_INSERT_HEAD [1, 2, 8, 9, 10, 11] \<lparr>lh_first = None, le_next = (\<lambda>_. None), le_prev = (\<lambda>_. SNull)\<rparr>\<rparr>"

lemma roomy_fields: "pmem roomy_kern = (\<lambda>_ _. 0)" "npage roomy_kern = 16" "pp_ref roomy_kern = (\<lambda>_. 0)(0 := 1, 5 := 1)"
  "curenv roomy_kern = Some 0" "cur_pgdir roomy_kern = 0"
  by (simp_all add: roomy_kern_def demo_kern_def)

lemma roomy_same: "envs roomy_kern = envs demo_kern" "env_free_list roomy_kern = env_free_list demo_kern"
  "env_sched_list roomy_kern = env_sched_list demo_kern" "asid_bitmap roomy_kern = asid_bitmap demo_kern"
  by (simp_all add: roomy_kern_def)

lemma roomy_free: "free_ok roomy_kern [11, 10, 9, 8, 2, 1]"
proof -
  have "list_rep (page_free_list roomy_kern) [11, 10, 9, 8, 2, 1]"
    using ll.rep_fold_ins_head[OF empty_list_rep, of "[1, 2, 8, 9, 10, 11]"] by (simp add: roomy_kern_def)
  then show ?thesis by (simp add: free_ok_def roomy_fields)
qed

lemma roomy_inv: "kern_inv (\<lambda>_. 0) roomy_kern" "live roomy_kern = {0, 1}" "dir_of roomy_kern = dir_of demo_kern"
proof -
  show l: "live roomy_kern = {0, 1}" "dir_of roomy_kern = dir_of demo_kern"
    using demo_live by (simp_all add: live_def dir_of_def roomy_same fun_eq_iff)
  have p: "pdes D roomy_kern = {}" "ptes D roomy_kern = {}" "tables D roomy_kern = {}" "map_refs D roomy_kern = (\<lambda>_. 0)" for D
    by (auto simp: pdes_def ptes_def tables_def map_refs_def roomy_fields)
  have "pm_struct {0, 5} roomy_kern" by (simp add: pm_struct_def p roomy_fields)
  moreover have "count_ok (\<lambda>_. 0) {0, 5} roomy_kern" by (simp add: count_ok_def pg_refs_def p roomy_fields)
  ultimately have "pm_inv (\<lambda>_. 0) (dir_of roomy_kern ` live roomy_kern) roomy_kern"
    using roomy_free demo_dirs l by (auto simp: pm_inv_def demo_live)
  moreover have "freeq roomy_kern = freeq demo_kern" "runq roomy_kern = runq demo_kern" "asid_set roomy_kern = asid_set demo_kern"
    by (simp_all add: fun_eq_iff freeq_def runq_def asid_set_def roomy_same)
  ultimately show "kern_inv (\<lambda>_. 0) roomy_kern"
    using demo_kern_inv l demo_live by (simp add: kern_inv_def asid_ok_def roomy_fields roomy_same)
qed

lemma roomy_runs: "runs (\<lambda>_. 0) 0 roomy_kern" "has_room roomy_kern 6" "envid2env 4097 True roomy_kern = Ret (0, Some 1)"
  using roomy_inv roomy_free by (auto simp: dir_of_def demo_env_def roomy_fields roomy_same has_room_def free_ok_def envid2env_def ENVX_def)

theorem init_stack_correct_witness:
  "(\<exists>sp s'. init_stack 4097 [[108, 115], [47]] roomy_kern = Ret ((0, sp), s') \<and> main_args s' 1 sp [[108, 115], [47]]) \<and>
   init_stack 4097 (replicate 1022 []) roomy_kern = Ret ((- E_NO_MEM, 0), roomy_kern)"
proof -
  have l: "(1 :: nat) \<in> live roomy_kern" "(1 :: nat) \<noteq> 0" by (simp_all add: roomy_inv(2))
  have "args_space [[108, 115], [47 :: u8]] + 4 * (length [[108, 115], [47 :: u8]] + 3) = 28" by (simp add: args_space_def args_tot_def)
  moreover have "4096 < args_space (replicate 1022 []) + 4 * (length (replicate 1022 ([] :: u8 list)) + 3)" by (simp add: args_space_def args_tot_def)
  moreover have "has_room roomy_kern 3" by (rule has_room_mono[OF roomy_runs(2)]) simp
  ultimately show ?thesis
    using init_stack_correct[OF roomy_runs(1,3) l, of "[[108, 115], [47]]"] init_stack_correct[OF roomy_runs(1,3) l, of "replicate 1022 []"] by auto
qed

end
