(* ===== verification/SpawnMap.thy ===== *)
theory SpawnMap
  imports SpawnStack
begin

text \<open>
  \<open>spawn_mapper\<close> of \<^verbatim>\<open>user/lib/spawn.c\<close>: the page for the child is mapped at the parent's \<open>UTEMP\<close>, filled there and
  unmapped. It meets the contract of \<open>Loader\<close>, so that \<open>elf_load_seg\<close> loads the segments of the program.
\<close>

section \<open>spawn\_mapper\<close>

definition spawn_mapper :: "u32 \<Rightarrow> kern elf_mapper" where
  "spawn_mapper child s va offset perm src len =
     rbind (ucall (sys_mem_alloc child va perm s)) (\<lambda>(r, s).
     if r \<noteq> 0 then Ret (r, s)
     else case src of None \<Rightarrow> Ret (0, s)
       | Some b \<Rightarrow> rbind (ucall (sys_mem_map child va 0 UTEMP (perm OR PTE_D) s)) (\<lambda>(r, s).
           if r \<noteq> 0 then rbind (ucall (sys_mem_unmap child va s)) (\<lambda>(_, s). Ret (r, s))
           else if length b < unat len then Fault ''read outside the file''
           else rbind (ustore_bytes (UTEMP + offset) (take (unat len) b) s) (\<lambda>s. ucall (sys_mem_unmap 0 UTEMP s))))"

text \<open>Environment \<open>c\<close> runs and prepares its child \<open>e\<close>.\<close>

definition spawning :: "(nat \<Rightarrow> nat) \<Rightarrow> nat \<Rightarrow> u32 \<Rightarrow> nat \<Rightarrow> kern \<Rightarrow> bool" where
  "spawning ext c child e s \<longleftrightarrow> runs ext c s \<and> envid2env child True s = Ret (0, Some e) \<and> envid2env child False s = Ret (0, Some e) \<and>
     e \<in> live s \<and> e \<noteq> c"

lemma spawning_step:
  assumes "spawning ext c child e s" "kern_inv ext s'" "pm.more s' = pm.more s"
  shows "spawning ext c child e s'"
proof -
  note m = kern_inv_more_D[OF assms(3)]
  have "envid2env child b s' = envid2env child b s" for b by (rule envid2env_cong) (use m in simp_all)
  moreover have "runs ext c s'" by (rule runs_step[OF _ assms(2,3)]) (use assms(1) in \<open>simp add: spawning_def\<close>)
  ultimately show ?thesis using assms(1) m by (simp add: spawning_def)
qed

text \<open>
  Between two states of the kernel nothing has changed but the memory of \<open>e\<close> and what \<open>c\<close> maps at \<open>UTEMP\<close>,
  which stays unmapped when it was: all other mappings are the same and so are the pages they lead to.
\<close>

definition outside_kept :: "nat \<Rightarrow> nat \<Rightarrow> kern \<Rightarrow> kern \<Rightarrow> bool" where
  "outside_kept c e s s' \<longleftrightarrow> pm.more s' = pm.more s \<and>
     (\<forall>x \<in> live s - {e}. \<forall>y. (x, y) \<noteq> (c, vidx UTEMP) \<longrightarrow> aspace s' (dir_of s x) y = aspace s (dir_of s x) y \<and>
        (\<forall>v. aspace s (dir_of s x) y = Some v \<longrightarrow> pmem s' (unat (PPN v)) = pmem s (unat (PPN v)))) \<and>
     (aspace s (dir_of s c) (vidx UTEMP) = None \<longrightarrow> aspace s' (dir_of s c) (vidx UTEMP) = None)"

lemma outside_kept_refl: "outside_kept c e s s"
  by (simp add: outside_kept_def)

lemma outside_kept_trans:
  assumes "outside_kept c e s t" "outside_kept c e t u"
  shows "outside_kept c e s u"
proof -
  have m: "dir_of t = dir_of s" "live t = live s" using assms(1) kern_inv_more_D[of t s] by (simp_all add: outside_kept_def)
  have "aspace u (dir_of s x) y = aspace s (dir_of s x) y \<and>
      (\<forall>v. aspace s (dir_of s x) y = Some v \<longrightarrow> pmem u (unat (PPN v)) = pmem s (unat (PPN v)))"
    if x: "x \<in> live s - {e}" "(x, y) \<noteq> (c, vidx UTEMP)" for x y
  proof -
    have "aspace t (dir_of s x) y = aspace s (dir_of s x) y \<and>
      (\<forall>v. aspace s (dir_of s x) y = Some v \<longrightarrow> pmem t (unat (PPN v)) = pmem s (unat (PPN v)))"
      using assms(1) x unfolding outside_kept_def by blast
    moreover have "aspace u (dir_of s x) y = aspace t (dir_of s x) y \<and>
      (\<forall>v. aspace t (dir_of s x) y = Some v \<longrightarrow> pmem u (unat (PPN v)) = pmem t (unat (PPN v)))"
      using assms(2) x unfolding outside_kept_def m by blast
    ultimately show ?thesis by simp
  qed
  then show ?thesis using assms unfolding outside_kept_def m by simp
qed

lemma fbyte_load: "load_byte s p k = fbyte (pmem s p) k"
  by (simp add: load_byte_def fbyte_def)

lemma filled_fputs:
  assumes "off + length bs \<le> 4096"
  shows "map (fbyte (fputs off bs (\<lambda>_. 0))) [0..<4096] = filled off bs"
proof (rule nth_equalityI)
  fix k
  assume "k < length (map (fbyte (fputs off bs (\<lambda>_. 0))) [0..<4096])"
  then show "map (fbyte (fputs off bs (\<lambda>_. 0))) [0..<4096] ! k = filled off bs ! k"
    using filled_nth[OF assms, of k] by (simp add: fbyte_fputs) (simp add: fbyte_def)
qed (use assms in \<open>simp add: filled_def\<close>)

text \<open>What the child sees when the pages it had keep their contents and one page is added.\<close>

lemma space_page_add:
  assumes a: "aspace s' d = (aspace s d)(vidx va \<mapsto> w)"
    and keep: "\<forall>y v. y \<noteq> vidx va \<longrightarrow> aspace s d y = Some v \<longrightarrow> pmem s' (unat (PPN v)) = pmem s (unat (PPN v))"
  shows "space_page s' d = (space_page s d)(vpn va \<mapsto> page_bytes s' (unat (PPN w)))"
proof
  fix q
  show "space_page s' d q = ((space_page s d)(vpn va \<mapsto> page_bytes s' (unat (PPN w)))) q"
  proof (cases "q = vpn va")
    case True
    then show ?thesis using a by (simp add: space_page_def vidx_vpn)
  next
    case False
    then have n: "(q div 1024, q mod 1024) \<noteq> vidx va" unfolding vidx_vpn idx_eq_iff .
    then have e: "aspace s' d (q div 1024, q mod 1024) = aspace s d (q div 1024, q mod 1024)" using a by simp
    show ?thesis
    proof (cases "aspace s d (q div 1024, q mod 1024)")
      case (Some v)
      then have "page_bytes s' (unat (PPN v)) = page_bytes s (unat (PPN v))"
        using keep n by (intro page_bytes_cong) blast
      then show ?thesis using Some e False by (simp add: space_page_def)
    qed (use e False in \<open>simp add: space_page_def\<close>)
  qed
qed

lemma mapped_target:
  assumes "pm_inv ext D s" "d \<in> D" "aspace s d y = Some v"
  shows "unat (PPN v) \<notin> tables D s"
proof -
  have "unat (PPN v) \<in> tgt s ` ptes D s" by (rule mapped_refs(3)[OF assms])
  then show ?thesis using assms(1) by (auto simp: pm_inv_def pm_struct_def)
qed

text \<open>The page is mapped at the parent's \<open>UTEMP\<close>, filled and left.\<close>

lemma spawn_copy_ok:
  assumes s: "spawning ext c child e s" and iv: "\<not> is_illegal_va va" and perm: "perm < 4096"
    and w: "aspace s (dir_of s e) (vidx va) = Some w" "unat (PPN w) = p" "unat (pp_ref s p) < 65535" "pmem s p = (\<lambda>_. 0)"
    and k: "unat off + length bs \<le> 4096"
  obtains r s' where
    "rbind (ucall (sys_mem_map child va 0 UTEMP (perm OR PTE_D) s)) (\<lambda>(r, s).
       if r \<noteq> 0 then rbind (ucall (sys_mem_unmap child va s)) (\<lambda>(_, s). Ret (r, s))
       else rbind (ustore_bytes (UTEMP + off) bs s) (\<lambda>s. ucall (sys_mem_unmap 0 UTEMP s))) = Ret (r, s')"
    "spawning ext c child e s'" "r \<le> 0" "pm.more s' = pm.more s" "r = 0 \<longrightarrow> aspace s' (dir_of s e) = aspace s (dir_of s e)"
    "r = 0 \<longrightarrow> page_bytes s' p = filled (unat off) bs"
    "\<forall>x \<in> live s. \<forall>y v. (x, y) \<noteq> (c, vidx UTEMP) \<longrightarrow> aspace s (dir_of s x) y = Some v \<longrightarrow> unat (PPN v) \<noteq> p \<longrightarrow>
       pmem s' (unat (PPN v)) = pmem s (unat (PPN v))"
    "\<forall>x \<in> live s - {e}. \<forall>y. (x, y) \<noteq> (c, vidx UTEMP) \<longrightarrow> aspace s' (dir_of s x) y = aspace s (dir_of s x) y"
    "aspace s (dir_of s c) (vidx UTEMP) = None \<longrightarrow> aspace s' (dir_of s c) (vidx UTEMP) = None"
    "\<forall>m. has_room s (Suc m) \<longrightarrow> r = 0 \<and> has_room s' m"
proof -
  have h: "kern_inv ext s" "envid2env child True s = Ret (0, Some e)" "envid2env child False s = Ret (0, Some e)" "e \<in> live s" "e \<noteq> c"
    "runs ext c s" "c \<in> live s" using s by (simp_all add: spawning_def)
  note z = zero_env[OF h(6)]
  have I: "pm_inv ext (dirs s) s" "dir_of s e \<in> dirs s" using h by (auto simp: kern_inv_def)
  have np: "npage s \<le> 2 ^ 20" using I(1) by (simp add: pm_inv_def pm_struct_def)
  have pD: "perm OR PTE_D < 4096"
  proof -
    have "perm AND mask 12 = perm" by (rule less_mask_eq) (use perm in simp)
    then have "bit perm n \<Longrightarrow> n < 12" for n by (metis bit_and_iff bit_mask_iff)
    then have "perm OR PTE_D = (perm OR PTE_D) AND 0xFFF" unfolding mask12 by (intro bit_word_eqI) (auto simp: bit_simps pte_bits)
    moreover have "(perm OR PTE_D) AND 0xFFF \<le> 0xFFF" by (rule word_and_le1)
    ultimately show ?thesis by (simp add: word_le_nat_alt word_less_nat_alt)
  qed
  obtain r1 s1 where s1: "sys_mem_map child va 0 UTEMP (perm OR PTE_D) s = Ret (Back r1, s1)" "kern_inv ext s1"
    "pm.more s1 = pm.more s" "npage s1 = npage s" "r1 = 0 \<or> r1 = - E_NO_MEM"
    "\<forall>x \<in> live s. aspace s1 (dir_of s x) = (if x = c \<and> r1 = 0
       then (aspace s (dir_of s x))(vidx UTEMP \<mapsto> page2pa p OR (perm OR PTE_D) OR PTE_V) else aspace s (dir_of s x))"
    "\<forall>q \<in> tgt s ` ptes (dirs s) s. pmem s1 q = pmem s q"
    by (rule map_call_ok[OF h(1,2,4) z h(7) iv spawn_addr(1) pD w(1) w(3)[folded w(2)], unfolded w(2)])
  have rm: "has_room s (Suc m) \<Longrightarrow> r1 = 0 \<and> has_room s1 m" for m
    by (rule map_call_room[OF h(1,2,4) z h(7) iv spawn_addr(1) w(1) s1(1)])
  note m1 = kern_inv_more_D[OF s1(3)]
  have sp1: "spawning ext c child e s1" by (rule spawning_step[OF s s1(2,3)])
  have h1: "envid2env child False s1 = Ret (0, Some e)" "runs ext c s1" "e \<in> live s1" "c \<in> live s1"
    using sp1 by (simp_all add: spawning_def)
  show ?thesis
  proof (cases "r1 = 0")
    case False
    obtain s2 where s2: "sys_mem_unmap child va s1 = Ret (Back 0, s2)" "kern_inv ext s2" "pm.more s2 = pm.more s1"
      "\<forall>x \<in> live s1. aspace s2 (dir_of s1 x) = (if x = e then (aspace s1 (dir_of s1 x))(vidx va := None) else aspace s1 (dir_of s1 x))"
      "\<forall>q. q \<notin> tables (dirs s1) s1 \<longrightarrow> pmem s2 q = pmem s1 q"
      by (rule unmap_call_ok[OF s1(2) h1(1,3) iv])
    have same: "aspace s1 (dir_of s x) = aspace s (dir_of s x)" if "x \<in> live s" for x using s1(6) False that by simp
    have mem: "pmem s2 (unat (PPN v)) = pmem s (unat (PPN v))" if x: "x \<in> live s" "aspace s (dir_of s x) y = Some v" for x y v
    proof -
      have "pm_inv ext (dirs s1) s1" "dir_of s x \<in> dirs s1" using s1(2) x(1) m1 by (auto simp: kern_inv_def)
      from mapped_target[OF this, of y v] have "pmem s2 (unat (PPN v)) = pmem s1 (unat (PPN v))" using x same s2(5) by simp
      then show ?thesis using s1(7) mapped_refs(3)[OF I(1) _ x(2)] x(1) by auto
    qed
    show ?thesis
      by (rule that[OF _ spawning_step[OF sp1 s2(2,3)]]) (use False s1(1,3,5) s2(1-4) m1 same mem h(5,7) in \<open>auto dest: rm\<close>)
  next
    case True
    have e1: "aspace s1 (dir_of s e) = aspace s (dir_of s e)" using s1(6) h(4,5) by simp
    have wp: "p \<in> tgt s ` ptes (dirs s) s" using mapped_refs(3)[OF I w(1)] w(2) by simp
    have pl: "p < npage s" using mapped_refs(2)[OF I w(1)] w(2) by simp
    let ?w = "page2pa p OR (perm OR PTE_D) OR PTE_V"
    have "aspace s1 (dir_of s1 c) (vidx UTEMP) = Some ?w" using s1(6) h(7) True m1 by simp
    moreover have "?w AND PTE_D \<noteq> 0"
    proof
      assume "?w AND PTE_D = 0"
      then have "bit (?w AND PTE_D) 10 = bit (0 :: u32) 10" by simp
      then show False by (simp add: bit_and_iff bit_or_iff pte_bits)
    qed
    ultimately have pg: "stack_page ext c s1 p" using h1(2) pte_word(2)[OF pl np pD] by (auto simp: stack_page_def)
    have kk: "UTEMP + off = UTEMP + of_nat (unat off)" by simp
    define f where "f = fputs (unat off) bs (pmem s1 p)"
    have st: "ustore_bytes (UTEMP + off) bs s1 = Ret (with_page s1 p f)"
      unfolding kk f_def by (rule stack_store_bytes[OF pg k])
    note u = stack_page_upd[OF pg, of f]
    have k2: "kern_inv ext (with_page s1 p f)" "runs ext c (with_page s1 p f)" using u(1) by (simp_all add: stack_page_def)
    have m2: "pm.more (with_page s1 p f) = pm.more s1" "dir_of (with_page s1 p f) = dir_of s1" "live (with_page s1 p f) = live s1"
      by (simp_all add: with_page_def dir_of_def live_def fun_eq_iff)
    obtain s3 where s3: "sys_mem_unmap 0 UTEMP (with_page s1 p f) = Ret (Back 0, s3)" "kern_inv ext s3" "pm.more s3 = pm.more (with_page s1 p f)"
      "\<forall>x \<in> live (with_page s1 p f). aspace s3 (dir_of (with_page s1 p f) x) = (if x = c then (aspace (with_page s1 p f) (dir_of (with_page s1 p f) x))(vidx UTEMP := None)
          else aspace (with_page s1 p f) (dir_of (with_page s1 p f) x))"
      "\<forall>q. q \<notin> tables (dirs (with_page s1 p f)) (with_page s1 p f) \<longrightarrow> pmem s3 q = pmem (with_page s1 p f) q"
      by (rule unmap_call_ok[OF k2(1) zero_env[OF k2(2)] _ spawn_addr(1)]) (use h1(4) m2 in auto)
    have de: "dir_of s1 e = dir_of s e" using m1 by simp
    have ed: "dir_of s e \<in> dirs s1" using h1(3) de by (metis image_eqI)
    have a2: "aspace (with_page s1 p f) (dir_of s e) = aspace s (dir_of s e)" using u(3)[rule_format, OF ed] e1 by simp
    have a3: "aspace s3 (dir_of s e) = aspace s (dir_of s e)" using s3(4)[rule_format, of e] h1(3) h(5) a2 by (simp add: m2 de)
    have al: "aspace (with_page s1 p f) (dir_of s x) y = aspace s (dir_of s x) y" if "x \<in> live s" "(x, y) \<noteq> (c, vidx UTEMP)" for x y
    proof -
      have "dir_of s x \<in> dirs s1" using that(1) m1 by auto
      then have "aspace (with_page s1 p f) (dir_of s x) = aspace s1 (dir_of s x)" using u(3) by blast
      then show ?thesis using s1(6) that True by auto
    qed
    have mem3: "pmem s3 (unat (PPN v)) = pmem (with_page s1 p f) (unat (PPN v))"
      if "x \<in> live s" "(x, y) \<noteq> (c, vidx UTEMP)" "aspace s (dir_of s x) y = Some v" for x y v
    proof -
      have "pm_inv ext (dirs (with_page s1 p f)) (with_page s1 p f)" using k2(1) by (simp add: kern_inv_def)
      moreover have "dir_of s x \<in> dirs (with_page s1 p f)" using that(1) m1 u(2) by auto
      moreover have "aspace (with_page s1 p f) (dir_of s x) y = Some v" using al[OF that(1,2)] that(3) by simp
      ultimately have "unat (PPN v) \<notin> tables (dirs (with_page s1 p f)) (with_page s1 p f)" by (rule mapped_target)
      then show ?thesis using s3(5) by blast
    qed
    have ec: "(e, y) \<noteq> (c, vidx UTEMP)" for y using h(5) by simp
    have "pmem s3 p = f" using mem3[OF h(4) ec w(1)] w(2) by (simp add: with_page_def)
    moreover have "pmem s1 p = (\<lambda>_. 0)" using s1(7)[rule_format, OF wp] w(4) by simp
    ultimately have pb: "page_bytes s3 p = filled (unat off) bs"
      using filled_fputs[OF k] by (simp add: page_bytes_def fbyte_load[abs_def] f_def)
    have fr: "pmem s3 (unat (PPN v)) = pmem s (unat (PPN v))"
      if "x \<in> live s" "(x, y) \<noteq> (c, vidx UTEMP)" "aspace s (dir_of s x) y = Some v" "unat (PPN v) \<noteq> p" for x y v
    proof -
      have "dir_of s x \<in> dirs s" using that(1) by auto
      from s1(7)[rule_format, OF mapped_refs(3)[OF I(1) this that(3)]] show ?thesis
        using mem3[OF that(1-3)] that(4) by (simp add: with_page_def)
    qed
    have oth: "aspace s3 (dir_of s x) y = aspace s (dir_of s x) y" if "x \<in> live s - {e}" "(x, y) \<noteq> (c, vidx UTEMP)" for x y
      using s3(4)[rule_format, of x] that al[of x y] m1 by (auto simp: m2)
    have gone: "aspace s3 (dir_of s c) (vidx UTEMP) = None" using s3(4)[rule_format, of c] h1(4) m1 by (simp add: m2)
    have rm3: "has_room s3 m" if "has_room s (Suc m)" for m
    proof -
      have "has_room (with_page s1 p f) m" using rm[OF that] by (simp add: has_room_def free_ok_def with_page_def)
      then show ?thesis using unmap_call_room[OF k2(1) zero_env[OF k2(2)] _ spawn_addr(1) s3(1)] h1(4) m2 by auto
    qed
    have sp3: "spawning ext c child e s3" by (rule spawning_step[OF s s3(2)]) (simp add: s3(3) m2 s1(3))
    show ?thesis
      by (rule that[OF _ sp3]) (use True s1(1,3) st s3(1,3) m2 a3 pb fr oth gone rm3 in auto)
  qed
qed

lemma spawn_mapper_ok:
  assumes s: "spawning ext c child e s" and va: "UTEMP \<le> va" "va < UTOP" and perm: "perm < 4096"
    and src: "case src of None \<Rightarrow> bs = [] \<and> off = 0 | Some b \<Rightarrow> unat off + unat len \<le> 4096 \<and> unat len \<le> length b \<and> bs = take (unat len) b"
  shows "\<exists>r s'. spawn_mapper child s va off perm src len = Ret (r, s') \<and> (spawning ext c child e s' \<and> outside_kept c e s s') \<and> r \<le> 0 \<and>
    (r = 0 \<longrightarrow> space_page s' (dir_of s' e) = (space_page s (dir_of s e))(vpn va \<mapsto> filled (unat off) bs)) \<and>
    (\<forall>m. has_room s (m + 3) \<longrightarrow> r = 0 \<and> has_room s' m)"
proof -
  have iv: "\<not> is_illegal_va va" using va by (simp add: is_illegal_va_def not_less not_le)
  have k: "kern_inv ext s" "envid2env child True s = Ret (0, Some e)" "e \<in> live s" "e \<noteq> c" "runs ext c s" "c \<in> live s"
    using s by (simp_all add: spawning_def)
  have I: "pm_inv ext (dirs s) s" "dir_of s e \<in> dirs s" using k by (auto simp: kern_inv_def)
  have np: "npage s \<le> 2 ^ 20" using I(1) by (simp add: pm_inv_def pm_struct_def)
  obtain r1 p s1 where s1: "sys_mem_alloc child va perm s = Ret (Back r1, s1)" "kern_inv ext s1" "pm.more s1 = pm.more s" "npage s1 = npage s"
    "r1 = 0 \<or> r1 = - E_NO_MEM" "r1 = 0 \<longrightarrow> p < npage s \<and> p \<notin> tgt s ` ptes (dirs s) s \<and> unat (pp_ref s1 p) < 65535"
    "\<forall>x \<in> live s. aspace s1 (dir_of s x) = (if x = e \<and> r1 = 0
       then (aspace s (dir_of s x))(vidx va \<mapsto> page2pa p OR perm OR PTE_V) else aspace s (dir_of s x))"
    "\<forall>q \<in> tgt s ` ptes (dirs s) s. pmem s1 q = pmem s q" "r1 = 0 \<longrightarrow> pmem s1 p = (\<lambda>_. 0)"
    "\<forall>n. has_room s (Suc (Suc n)) \<longrightarrow> r1 = 0 \<and> has_room s1 n"
    by (rule alloc_call[OF k(1-3) iv perm])
  have room1: "r1 = 0 \<and> has_room s1 (Suc m)" if "has_room s (m + 3)" for m using that s1(10) by (simp add: numeral_3_eq_3)
  note m1 = kern_inv_more_D[OF s1(3)]
  have sp1: "spawning ext c child e s1" by (rule spawning_step[OF s s1(2,3)])
  have as1: "aspace s1 (dir_of s x) = aspace s (dir_of s x)" if "x \<in> live s - {e}" for x using s1(7) that by simp
  have mem1: "pmem s1 (unat (PPN v)) = pmem s (unat (PPN v)) \<and> (r1 = 0 \<longrightarrow> unat (PPN v) \<noteq> p)"
    if "x \<in> live s" "aspace s (dir_of s x) y = Some v" for x y v
  proof -
    have "unat (PPN v) \<in> tgt s ` ptes (dirs s) s" by (rule mapped_refs(3)[OF I(1) _ that(2)]) (use that(1) in simp)
    then show ?thesis using s1(6,8) by blast
  qed
  have ok1: "outside_kept c e s s1" using s1(3) as1 k(4,6) by (simp add: outside_kept_def) (use mem1 in blast)
  show ?thesis
  proof (cases "r1 = 0")
    case False
    then have "spawn_mapper child s va off perm src len = Ret (r1, s1)" using s1(1) by (simp add: spawn_mapper_def)
    then show ?thesis using False s1(5) sp1 ok1 room1 by auto
  next
    case r1: True
    let ?w = "page2pa p OR perm OR PTE_V"
    have w: "unat (PPN ?w) = p" using pte_word(2)[OF _ np perm] s1(6) r1 by simp
    have a1: "aspace s1 (dir_of s e) = (aspace s (dir_of s e))(vidx va \<mapsto> ?w)" using s1(7) k(3) r1 by simp
    have k1: "pmem s1 (unat (PPN v)) = pmem s (unat (PPN v))" if "aspace s (dir_of s e) y = Some v" for y v
      using s1(8) mapped_refs(3)[OF I that] by blast
    have add1: "space_page s1 (dir_of s e) = (space_page s (dir_of s e))(vpn va \<mapsto> page_bytes s1 p)"
      using space_page_add[OF a1] k1 w by simp
    show ?thesis
    proof (cases src)
      case None
      then have "spawn_mapper child s va off perm src len = Ret (0, s1)" using s1(1) r1 by (simp add: spawn_mapper_def)
      moreover have "page_bytes s1 p = filled (unat off) bs"
        using filled_fputs[of 0 "[]"] src None s1(9) r1 by (simp add: page_bytes_def fbyte_load[abs_def])
      moreover have "has_room s (m + 3) \<Longrightarrow> has_room s1 m" for m using has_room_mono[of s1 "Suc m" m] room1 by simp
      ultimately show ?thesis using sp1 ok1 add1 m1 by auto
    next
      case (Some b)
      then have len: "unat off + unat len \<le> 4096" "unat len \<le> length b" "bs = take (unat len) b" using src by simp_all
      have w1: "aspace s1 (dir_of s1 e) (vidx va) = Some ?w" using a1 m1 by simp
      have pw: "p < npage s" "p \<notin> tgt s ` ptes (dirs s) s" "unat (pp_ref s1 p) < 65535" "pmem s1 p = (\<lambda>_. 0)" using s1(6,9) r1 by simp_all
      have lb: "unat off + length bs \<le> 4096" using len by simp
      obtain r s' where s2:
        "rbind (ucall (sys_mem_map child va 0 UTEMP (perm OR PTE_D) s1)) (\<lambda>(r, s).
           if r \<noteq> 0 then rbind (ucall (sys_mem_unmap child va s)) (\<lambda>(_, s). Ret (r, s))
           else rbind (ustore_bytes (UTEMP + off) bs s) (\<lambda>s. ucall (sys_mem_unmap 0 UTEMP s))) = Ret (r, s')"
        "spawning ext c child e s'" "r \<le> 0" "pm.more s' = pm.more s1" "r = 0 \<longrightarrow> aspace s' (dir_of s1 e) = aspace s1 (dir_of s1 e)"
        "r = 0 \<longrightarrow> page_bytes s' p = filled (unat off) bs"
        "\<forall>x \<in> live s1. \<forall>y v. (x, y) \<noteq> (c, vidx UTEMP) \<longrightarrow> aspace s1 (dir_of s1 x) y = Some v \<longrightarrow> unat (PPN v) \<noteq> p \<longrightarrow>
           pmem s' (unat (PPN v)) = pmem s1 (unat (PPN v))"
        "\<forall>x \<in> live s1 - {e}. \<forall>y. (x, y) \<noteq> (c, vidx UTEMP) \<longrightarrow> aspace s' (dir_of s1 x) y = aspace s1 (dir_of s1 x) y"
        "aspace s1 (dir_of s1 c) (vidx UTEMP) = None \<longrightarrow> aspace s' (dir_of s1 c) (vidx UTEMP) = None"
        "\<forall>m. has_room s1 (Suc m) \<longrightarrow> r = 0 \<and> has_room s' m"
        by (rule spawn_copy_ok[OF sp1 iv perm w1 w pw(3,4) lb])
      have run: "spawn_mapper child s va off perm src len = Ret (r, s')"
      proof -
        have nf: "(length b < unat len) = False" using len(2) by simp
        show ?thesis using s1(1) r1 s2(1) unfolding spawn_mapper_def Some len(3) option.case nf if_False by simp
      qed
      have dd: "dir_of s' e = dir_of s e" "dir_of s1 e = dir_of s e" using kern_inv_more_D[OF s2(4)] m1 by simp_all
      have "space_page s' (dir_of s e) = (space_page s (dir_of s e))(vpn va \<mapsto> filled (unat off) bs)" if r: "r = 0"
      proof -
        have "pmem s' (unat (PPN v)) = pmem s (unat (PPN v))" if y: "y \<noteq> vidx va" "aspace s (dir_of s e) y = Some v" for y v
        proof -
          have "unat (PPN v) \<noteq> p" using mapped_refs(3)[OF I y(2)] pw(2) by auto
          moreover have "aspace s1 (dir_of s1 e) y = Some v" using a1 y dd by simp
          ultimately show ?thesis using s2(7)[rule_format, of e y v] k1[OF y(2)] k(3,4) m1 by simp
        qed
        then show ?thesis using space_page_add[of s' "dir_of s e" s va ?w] s2(5,6) r a1 dd w by simp
      qed
      moreover have "outside_kept c e s1 s'"
        unfolding outside_kept_def
      proof (intro conjI ballI allI impI)
        fix x y v
        assume x: "x \<in> live s1 - {e}" "(x, y) \<noteq> (c, vidx UTEMP)"
        then show "aspace s' (dir_of s1 x) y = aspace s1 (dir_of s1 x) y" using s2(8) by blast
        assume v: "aspace s1 (dir_of s1 x) y = Some v"
        then have "aspace s (dir_of s x) y = Some v" using x(1) as1 m1 by simp
        then have "unat (PPN v) \<noteq> p" using mem1[of x y v] x(1) m1 r1 by simp
        then show "pmem s' (unat (PPN v)) = pmem s1 (unat (PPN v))" using s2(7) x v by blast
      qed (use s2(4,9) in simp_all)
      ultimately show ?thesis using run s2(2,3,10) dd room1 outside_kept_trans[OF ok1] by auto
    qed
  qed
qed

text \<open>The contract, with room for three pages for every two that \<open>Loader\<close> counts: one table more, for \<open>UTEMP\<close>.\<close>

interpretation sm: page_mapper "spawn_mapper child" "\<lambda>s. spawning ext c child e s \<and> outside_kept c e k0 s" "\<lambda>s. space_page s (dir_of s e)"
  "\<lambda>s m. has_room s (3 * m div 2)" UTEMP
  for child ext c e k0
proof
  fix s and va perm off len :: u32 and b :: "u8 list"
  assume sk: "spawning ext c child e s \<and> outside_kept c e k0 s" and va: "UTEMP \<le> va" "va < UTOP" "perm < 4096"
  from sk have s: "spawning ext c child e s" and ok: "\<And>s'. outside_kept c e s s' \<Longrightarrow> outside_kept c e k0 s'"
    using outside_kept_trans by blast+
  have d: "3 * Suc (Suc m) div 2 = 3 * m div 2 + 3" for m by simp
  show "unat off + unat len \<le> 4096 \<Longrightarrow> unat len \<le> length b \<Longrightarrow> \<exists>r s'. spawn_mapper child s va off perm (Some b) len = Ret (r, s') \<and>
      (spawning ext c child e s' \<and> outside_kept c e k0 s') \<and> r \<le> 0 \<and>
      (r = 0 \<longrightarrow> space_page s' (dir_of s' e) = (space_page s (dir_of s e))(vpn va \<mapsto> filled (unat off) (take (unat len) b))) \<and>
      (\<forall>m. has_room s (3 * Suc (Suc m) div 2) \<longrightarrow> r = 0 \<and> has_room s' (3 * m div 2))"
    using spawn_mapper_ok[OF s va, where src = "Some b" and bs = "take (unat len) b" and off = off and len = len] unfolding d by (auto dest: ok)
  show "\<exists>r s'. spawn_mapper child s va 0 perm None len = Ret (r, s') \<and> (spawning ext c child e s' \<and> outside_kept c e k0 s') \<and> r \<le> 0 \<and>
      (r = 0 \<longrightarrow> space_page s' (dir_of s' e) = (space_page s (dir_of s e))(vpn va \<mapsto> filled 0 [])) \<and>
      (\<forall>m. has_room s (3 * Suc (Suc m) div 2) \<longrightarrow> r = 0 \<and> has_room s' (3 * m div 2))"
    using spawn_mapper_ok[OF s va, where src = None and bs = "[]" and off = 0 and len = len] unfolding d by (auto dest: ok)
qed

end
