(* ===== verification/Spawn.thy ===== *)
theory Spawn
  imports SpawnMap FileProps
begin

text \<open>
  Starting a program from a file, \<open>spawn\<close> of \<^verbatim>\<open>user/lib/spawn.c\<close>. The state has two halves: the kernel, for
  the system calls and the memory of parent and child, and the file system client of \<open>File\<close>, for the calls
  on the program's file and the pages where it is mapped (\<open>bytes_at\<close> reads them). \<open>elfbuf\<close> is a list of 512
  bytes; \<open>tfp\<close> is the address of the local trap frame, which the kernel reads.
\<close>

section \<open>The program headers\<close>

fun bytes_at :: "nat \<Rightarrow> u32 \<Rightarrow> cst \<Rightarrow> u8 list" where
  "bytes_at 0 va c = []"
| "bytes_at (Suc n) va c = (case ubyte va c of Ret b \<Rightarrow> b # bytes_at n (va + 1) c | _ \<Rightarrow> [])"

definition into_buf :: "u8 list \<Rightarrow> u8 list \<Rightarrow> u8 list res" where
  "into_buf bs buf = (if length buf < length bs then Fault ''elfbuf overflows'' else Ret (bs @ drop (length bs) buf))"

text \<open>
  The loop over the offsets of the headers. \<open>ehdr\<close> points into \<open>elfbuf\<close>, which each round overwrites with a
  program header: number and size of the headers are read again. The index is at most \<open>65535\<close>.
\<close>

fun seg_loop :: "nat list \<Rightarrow> cst dev list \<Rightarrow> int \<Rightarrow> u32 \<Rightarrow> u32 \<Rightarrow> u8 list \<Rightarrow> kern \<times> cst \<Rightarrow> (int \<times> kern \<times> cst) res" where
  "seg_loop [] devtab fd child ph_off elfbuf (k, c) = Ret (0, k, c)"
| "seg_loop (i # is) devtab fd child ph_off elfbuf (k, c) =
     rbind (e_phnum elfbuf) (\<lambda>num.
     if unat num \<le> i then Ret (0, k, c)
     else rbind (seek fd ph_off c) (\<lambda>(r, c).
       if r < 0 then Ret (r, k, c)
       else rbind (e_phentsize elfbuf) (\<lambda>entsize.
         rbind (readn devtab fd (ucast entsize) c) (\<lambda>((r, bs), c).
         if r < 0 then Ret (r, k, c)
         else rbind (into_buf bs elfbuf) (\<lambda>elfbuf. rbind (phdr_at elfbuf 0) (\<lambda>ph.
           rbind (if p_type ph = PT_LOAD
                  then rbind (read_map fd (p_offset ph) c) (\<lambda>(r, bin).
                    if r < 0 then Ret (r, k)
                    else elf_load_seg ph (bytes_at (unat (p_filesz ph)) bin c) (spawn_mapper child) k)
                  else Ret (0, k)) (\<lambda>(r, k).
             if r < 0 then Ret (r, k, c)
             else rbind (e_phentsize elfbuf) (\<lambda>entsize. seg_loop is devtab fd child (ph_off + ucast entsize) elfbuf (k, c)))))))))"

section \<open>Shared pages\<close>

fun library_ptes :: "nat list \<Rightarrow> nat \<Rightarrow> u32 \<Rightarrow> kern \<Rightarrow> (int \<times> kern) res" where
  "library_ptes [] pdeno child s = Ret (0, s)"
| "library_ptes (pteno # ptenos) pdeno child s =
     (let pn = pdeno * 1024 + pteno
      in rbind (uload (vpt_addr + 4 * of_nat pn) s) (\<lambda>(pte, s).
         let perm = pte AND 0xFFF
         in if perm AND PTE_V \<noteq> 0 \<and> perm AND PTE_LIBRARY \<noteq> 0
            then let va = push_bit 12 (of_nat pn)
              in rbind (ucall (sys_mem_map 0 va child va perm s)) (\<lambda>(r, s).
                 if r < 0 then Ret (r, s) else library_ptes ptenos pdeno child s)
            else library_ptes ptenos pdeno child s))"

fun library_pages :: "nat list \<Rightarrow> u32 \<Rightarrow> kern \<Rightarrow> (int \<times> kern) res" where
  "library_pages [] child s = Ret (0, s)"
| "library_pages (pdeno # pdenos) child s =
     rbind (uload (vpd_addr + 4 * of_nat pdeno) s) (\<lambda>(pde, s).
     if pde AND PTE_V = 0 then library_pages pdenos child s
     else rbind (library_ptes [0..<1024] pdeno child s) (\<lambda>(r, s).
       if r < 0 then Ret (r, s) else library_pages pdenos child s))"

section \<open>spawn\<close>

text \<open>Step 1: a program that is not found is looked for with \<open>.b\<close> behind its name, in the root directory.\<close>

definition open_program :: "u8 list \<Rightarrow> cst \<Rightarrow> (int \<times> cst) res" where
  "open_program prog c = rbind (file_open_fd prog O_RDONLY c) (\<lambda>(fd, c).
     if 0 \<le> fd then Ret (fd, c)
     else let name = (if prog = [] \<or> hd prog \<noteq> 47 then 47 # prog else prog) @ [46, 98]
       in if 128 < length name + 1 then Fault ''fd_default overflows'' else file_open_fd name O_RDONLY c)"

text \<open>The steps after the stack and the segments: registers, shared pages and status.\<close>

definition start_child :: "u32 \<Rightarrow> u32 \<Rightarrow> u32 \<Rightarrow> u32 \<Rightarrow> kern \<times> cst \<Rightarrow> (int \<times> kern \<times> cst) res" where
  "start_child tfp child entrypoint sp = (\<lambda>(k, c).
     let err2 = (\<lambda>r k c. rbind (ucall (sys_env_destroy child k)) (\<lambda>(_, k). Ret (r, k, c)));
         tf = env_tf (envs k (ENVX child))
     in rbind (ustores tfp (tf_words (tf\<lparr>cp0_epc := entrypoint, regs := (regs tf)(29 := sp)\<rparr>)) k) (\<lambda>k.
        rbind (ucall (sys_set_trapframe child tfp k)) (\<lambda>(r, k).
        if r \<noteq> 0 then err2 r k c
        else rbind (library_pages [0..<unat (PDX USTACKTOP) + 1] child k) (\<lambda>(r, k).
          if r < 0 then err2 r k (user_log ''spawn: syscall_mem_map %x %x: %d'' c)
          else rbind (ucall (sys_set_env_status child ENV_RUNNABLE k)) (\<lambda>(r, k).
            if r < 0 then err2 r k (user_log ''spawn: syscall_set_env_status %x: %d'' c)
            else Ret (sint child, k, c))))))"

definition spawn :: "cst dev list \<Rightarrow> u32 \<Rightarrow> u8 list \<Rightarrow> u8 list list \<Rightarrow> kern \<times> cst \<Rightarrow> (int \<times> kern \<times> cst) res" where
  "spawn devtab tfp prog argv = (\<lambda>(k, c). rbind (open_program prog c) (\<lambda>(fd, c).
     if fd < 0 then Ret (fd, k, c)
     else
       let err = (\<lambda>r k c. rbind (close_file devtab fd c) (\<lambda>(_, c). Ret (r, k, c)));
           err1 = (\<lambda>child r k c. rbind (ucall (sys_env_destroy child k)) (\<lambda>(_, k). err r k c))
       in rbind (readn devtab fd sizeof_Ehdr c) (\<lambda>((r, bs), c).
          if r \<noteq> int (unat sizeof_Ehdr) then err r k c
          else let elfbuf = bs @ replicate (512 - length bs) 0
            in rbind (elf_from elfbuf sizeof_Ehdr) (\<lambda>ok.
               if \<not> ok then err (- E_NOT_EXEC) k c
               else rbind (e_entry elfbuf) (\<lambda>entrypoint. rbind (e_phoff elfbuf) (\<lambda>ph_off.
                 rbind (ucall (sys_exofork k)) (\<lambda>(r, k).
                 let child = word_of_int r :: u32
                 in rbind (init_stack child argv k) (\<lambda>((r, sp), k).
                    if r < 0 then err1 child r k c
                    else rbind (seg_loop [0..<65536] devtab fd child ph_off elfbuf (k, c)) (\<lambda>(r, k, c).
                      if r < 0 then err1 child r k c
                      else rbind (close_file devtab fd c) (\<lambda>(_, c). start_child tfp child entrypoint sp (k, c)))))))))))"

definition spawnl :: "cst dev list \<Rightarrow> u32 \<Rightarrow> u8 list \<Rightarrow> u8 list list \<Rightarrow> kern \<times> cst \<Rightarrow> (int \<times> kern \<times> cst) res" where
  "spawnl devtab tfp prog args = spawn devtab tfp prog args"


section \<open>Loading the segments\<close>

lemma bytes_at_ok:
  "opened c i q n blks \<Longrightarrow> j + k \<le> n \<Longrightarrow>
   bytes_at k (INDEX2DATA (int i) + of_nat j) c = take k (drop j (contents (fs (srv c)) blks n))"
proof (induction k arbitrary: j)
  case (Suc k)
  have e: "INDEX2DATA (int i) + of_nat (Suc j) = INDEX2DATA (int i) + of_nat j + 1" by simp
  have j: "j < n" "j < length (contents (fs (srv c)) blks n)" using Suc.prems(2) by (simp_all add: contents_def)
  have "drop j (contents (fs (srv c)) blks n) = contents (fs (srv c)) blks n ! j # drop (Suc j) (contents (fs (srv c)) blks n)"
    using j(2) by (rule Cons_nth_drop_Suc[symmetric])
  moreover have "bytes_at k (INDEX2DATA (int i) + of_nat j + 1) c = take k (drop (Suc j) (contents (fs (srv c)) blks n))"
    using Suc.IH[of "Suc j"] Suc.prems unfolding e by simp
  ultimately show ?case using ubyte_ok[OF Suc.prems(1) j(1)] j by (simp add: contents_def)
qed simp

text \<open>\<open>seek\<close> and \<open>readn\<close> bring a piece of the file.\<close>

lemma seek_ok:
  assumes o: "opened c i q n blks"
  obtains c' where "seek (int i) off c = Ret (0, c')" "opened c' = opened c" "srv c' = srv c" "ff_page c' = ff_page c"
    "fds c' (ff_page c q) = (fds c (ff_page c q))\<lparr>fd_offset := off\<rparr>"
proof -
  obtain perm where v: "vpt c (fd_vpn i) = Some (ff_page c q, perm)" using o by (auto simp: opened_def)
  let ?c = "c\<lparr>fds := (fds c)(ff_page c q := (fds c (ff_page c q))\<lparr>fd_offset := off\<rparr>)\<rparr>"
  have "i < 32" using o by (simp add: opened_def)
  then have "seek (int i) off c = Ret (0, ?c)"
    using v fd_lookup_opened[OF o] by (simp add: seek_def set_fd_def)
  moreover have "opened ?c = opened c" by (auto simp: opened_def pages_ok_def fun_eq_iff)
  ultimately show ?thesis by (rule that) simp_all
qed

lemma readn_ok:
  assumes o: "opened c i q n blks" and dt: "has_files devtab" and m: "fd_omode (fds c (ff_page c q)) AND O_ACCMODE \<noteq> O_WRONLY"
    and len: "unat (fd_offset (fds c (ff_page c q))) + unat k \<le> n" "0 < unat k"
  obtains c' where "readn devtab (int i) k c =
      Ret ((int (unat k), take (unat k) (drop (unat (fd_offset (fds c (ff_page c q)))) (contents (fs (srv c)) blks n))), c')"
    "srv c' = srv c" "opened c' = opened c" "ff_page c' = ff_page c"
    "fd_omode (fds c' (ff_page c q)) = fd_omode (fds c (ff_page c q))"
proof -
  have at: "at_offset c q + unat k \<le> n" and k: "unat k < 2 ^ 31" using len o by (simp_all add: at_offset_def opened_def)
  then have "length (take (unat k) (drop (at_offset c q) (contents (fs (srv c)) blks n))) = unat k" by (simp add: contents_def)
  then show ?thesis using readn_move[OF o dt m _ k] at
    by (intro that[of "move_fd q (unat k) c"]) (simp_all add: Let_def at_offset_def)
qed

lemma read_map_ok:
  assumes o: "opened c i q n blks" and off: "unat off < n"
  shows "read_map (int i) off c = Ret (0, INDEX2DATA (int i) + off)"
proof -
  obtain perm where v: "vpt c (VPN (INDEX2DATA (int i) + of_nat (unat off))) = Some (blk_page c (blks ! (unat off div 4096)), perm)"
    by (rule opened_byte[OF o off])
  have i: "i < 32" "n \<le> 0x400000" "fd_dev_id (fds c (ff_page c q)) = 102" using o by (auto simp: opened_def)
  have "off < MAXFILESIZE" using off i(2) by (simp add: word_less_nat_alt MAXFILESIZE_def)
  then have "\<not> MAXFILESIZE \<le> off" by simp
  then show ?thesis using v i fd_lookup_opened[OF o] by (simp add: read_map_def Let_def devfile_def)
qed

text \<open>What a program header read into \<open>elfbuf\<close> shows, and that the ELF header's last fields survive it.\<close>

lemma byte_at_Ret: "byte_at bin k = Ret b \<longleftrightarrow> k < length bin \<and> b = bin ! k"
  by (auto simp: byte_at_def)

lemma piece_nth:
  assumes "k < m" "off + m \<le> length bin"
  shows "byte_at (take m (drop off bin) @ rest) k = byte_at bin (off + k)"
  using assms by (simp add: byte_at_def nth_append)

lemma piece_word: "k + 4 \<le> m \<Longrightarrow> off + m \<le> length bin \<Longrightarrow> word_at (take m (drop off bin) @ rest) k = word_at bin (off + k)"
  using piece_nth[of k m off bin rest] piece_nth[of "k + 1" m off bin rest] piece_nth[of "k + 2" m off bin rest]
    piece_nth[of "k + 3" m off bin rest] by (simp add: word_at_def half_at_def numeral_3_eq_3)

lemma piece_phdr:
  assumes "28 \<le> m" "unat off + m \<le> length bin"
  shows "phdr_at (take m (drop (unat off) bin) @ rest) 0 = phdr_at bin off"
  using assms by (simp add: phdr_at_def piece_word[of _ m "unat off" bin rest] piece_word[of 0 m "unat off" bin rest, simplified])

lemma kept_fields:
  assumes "length bs \<le> 42" "length buf = 512"
  shows "e_phnum (bs @ drop (length bs) buf) = e_phnum buf" "e_phentsize (bs @ drop (length bs) buf) = e_phentsize buf"
  using assms by (simp_all add: e_phnum_def e_phentsize_def half_at_def byte_at_def nth_append)

text \<open>The loop from header \<open>j\<close> on; \<open>phs\<close> are the headers that the file has there.\<close>

lemma seg_loop_ok:
  assumes "list_all2 (\<lambda>o' ph. phdr_at bin o' = Ret ph \<and> unat o' + unat sz \<le> n) (map (\<lambda>k. off + of_nat k * ucast sz) [j..<unat num]) phs"
    and "opened c i q n blks" "fd_omode (fds c (ff_page c q)) AND O_ACCMODE \<noteq> O_WRONLY"
    and "length buf = 512" "e_phnum buf = Ret num" "e_phentsize buf = Ret sz"
    and "\<forall>ph \<in> set (loadable phs). seg_ok bin ph \<and> UTEMP \<le> p_vaddr ph \<and> unat (p_offset ph) < n"
    and "sorted_wrt (\<lambda>a b. seg_range a \<inter> seg_range b = {}) (loadable phs)"
    and "spawning ext p child e k" "has_room k (3 * sum_list (map sm.seg_pages (loadable phs)))" "j \<le> unat num"
    and bin: "bin = contents (fs (srv c)) blks n" and dt: "has_files devtab" and sz: "28 \<le> unat sz" "unat sz \<le> 42"
  shows "\<exists>k' c'. seg_loop [j..<65536] devtab (int i) child (off + of_nat j * ucast sz) buf (k, c) = Ret (0, k', c') \<and>
    spawning ext p child e k' \<and> outside_kept p e k k' \<and> opened c' = opened c \<and> srv c' = srv c \<and>
    (\<forall>ph \<in> set (loadable phs). seg_loaded bin ph (space_page k' (dir_of k' e))) \<and>
    (\<forall>q. q \<notin> (\<Union>ph \<in> set (loadable phs). seg_range ph) \<longrightarrow> space_page k' (dir_of k' e) q = space_page k (dir_of k e) q)"
  using assms(1-12)
proof (induction phs arbitrary: j k c buf rule: list.induct)
  case Nil
  have "unat num < 65536" using unsigned_less[where w = num and 'a = nat] by simp
  moreover have "j \<le> unat num" by fact
  ultimately have up: "[j..<65536] = j # [Suc j..<65536]" by (intro upt_conv_Cons) simp
  have "unat num \<le> j" using Nil.prems(1) by auto
  then show ?case using Nil.prems unfolding up by (simp add: loadable_def outside_kept_refl)
next
  case (Cons ph phs)
  note pre = Cons.prems
  have num: "unat num < 65536" using unsigned_less[where w = num and 'a = nat] by simp
  have j: "j < unat num" using pre(1) by (cases "j < unat num") simp_all
  then have up: "[j..<65536] = j # [Suc j..<65536]" "[j..<unat num] = j # [Suc j..<unat num]" using num by (simp_all add: upt_conv_Cons)
  let ?off = "off + of_nat j * ucast sz :: u32" and ?pg = "\<lambda>s. space_page s (dir_of s e)"
  have ph: "phdr_at bin ?off = Ret ph" "unat ?off + unat sz \<le> n"
    and phs: "list_all2 (\<lambda>o' ph. phdr_at bin o' = Ret ph \<and> unat o' + unat sz \<le> n) (map (\<lambda>k. off + of_nat k * ucast sz) [Suc j..<unat num]) phs"
    using pre(1) unfolding up(2) by simp_all
  obtain c1 where c1: "seek (int i) ?off c = Ret (0, c1)" "opened c1 = opened c" "srv c1 = srv c" "ff_page c1 = ff_page c"
    "fds c1 (ff_page c q) = (fds c (ff_page c q))\<lparr>fd_offset := ?off\<rparr>" by (rule seek_ok[OF pre(2)])
  have usz: "unat (ucast sz :: u32) = unat sz" using sz(2) by (simp add: unsigned_ucast_eq take_bit_nat_eq_self_iff)
  have o1: "opened c1 i q n blks" "fd_omode (fds c1 (ff_page c1 q)) AND O_ACCMODE \<noteq> O_WRONLY"
    "unat (fd_offset (fds c1 (ff_page c1 q))) + unat (ucast sz :: u32) \<le> n" "0 < unat (ucast sz :: u32)"
    using pre(2,3) c1 ph(2) sz by (simp_all add: usz)
  let ?bs = "take (unat sz) (drop (unat ?off) bin)"
  obtain c2 where c2: "readn devtab (int i) (ucast sz) c1 = Ret ((int (unat sz), ?bs), c2)"
    "srv c2 = srv c1" "opened c2 = opened c1" "ff_page c2 = ff_page c1"
    "fd_omode (fds c2 (ff_page c1 q)) = fd_omode (fds c1 (ff_page c1 q))"
    by (rule readn_ok[OF o1(1) dt o1(2-4)]) (simp add: usz c1(3-5) pre(12))
  have o2: "opened c2 i q n blks" "fd_omode (fds c2 (ff_page c2 q)) AND O_ACCMODE \<noteq> O_WRONLY" "bin = contents (fs (srv c2)) blks n"
    using o1(1,2) c2 c1(3) pre(12) by simp_all
  have lb: "length bin = n" by (simp add: pre(12) contents_def)
  have lbs: "length ?bs = unat sz" using ph(2) lb by simp
  let ?buf = "?bs @ drop (length ?bs) buf"
  have buf: "into_buf ?bs buf = Ret ?buf" "length ?buf = 512" using lbs sz pre(4) by (simp_all add: into_buf_def)
  have fl: "e_phnum ?buf = Ret num" "e_phentsize ?buf = Ret sz"
    using kept_fields[of ?bs buf] lbs sz(2) pre(4-6) by simp_all
  have ph0: "phdr_at ?buf 0 = Ret ph" using piece_phdr[OF sz(1), of ?off bin] ph lb by simp
  have n1: "?off + ucast sz = off + of_nat (Suc j) * ucast sz" by (simp add: algebra_simps)
  have step: "seg_loop [j..<65536] devtab (int i) child ?off buf (k, c) = seg_loop [Suc j..<65536] devtab (int i) child (off + of_nat (Suc j) * ucast sz) ?buf (k', c2)"
    if "(if p_type ph = PT_LOAD
         then rbind (read_map (int i) (p_offset ph) c2) (\<lambda>(r, bin). if r < 0 then Ret (r, k)
           else elf_load_seg ph (bytes_at (unat (p_filesz ph)) bin c2) (spawn_mapper child) k)
         else Ret (0, k)) = Ret (0, k')" for k'
    using j pre(5,6) c1(1) c2(1) buf(1) ph0 fl(2) that
    by (simp only: up(1) seg_loop.simps rbind_simps prod.case n1 not_le if_False less_irrefl of_nat_less_0_iff not_less[symmetric, of "unat num"] simp_thms)
  have j': "Suc j \<le> unat num" using j by simp
  show ?case
  proof (cases "p_type ph = PT_LOAD")
    case False
    then have l: "loadable (ph # phs) = loadable phs" by (simp add: loadable_def)
    from Cons.IH[OF phs o2(1,2) buf(2) fl pre(7-10)[unfolded l] j' o2(3)] show ?thesis
      unfolding l using step[of k] False c1(2,3) c2(2,3) by simp
  next
    case True
    then have l: "loadable (ph # phs) = ph # loadable phs" by (simp add: loadable_def)
    have g: "seg_ok bin ph" "UTEMP \<le> p_vaddr ph" "unat (p_offset ph) < n" using pre(7) by (simp_all add: l)
    have rm: "read_map (int i) (p_offset ph) c2 = Ret (0, INDEX2DATA (int i) + p_offset ph)" by (rule read_map_ok[OF o2(1) g(3)])
    have "unat (p_offset ph) + unat (p_filesz ph) \<le> n" using g(1) lb by (simp add: seg_ok_def)
    then have bs: "bytes_at (unat (p_filesz ph)) (INDEX2DATA (int i) + p_offset ph) c2 = take (unat (p_filesz ph)) (drop (unat (p_offset ph)) bin)"
      using bytes_at_ok[OF o2(1), of "unat (p_offset ph)" "unat (p_filesz ph)"] by (simp add: o2(3))
    let ?S = "sum_list (map sm.seg_pages (loadable phs))"
    have "has_room k (3 * (2 * ?S + 2 * sm.seg_pages ph) div 2)" using pre(10) by (simp add: l algebra_simps)
    from sm.load_segment[OF conjI[OF pre(9) outside_kept_refl] g(1,2) this, of "take (unat (p_filesz ph)) (drop (unat (p_offset ph)) bin)"]
    obtain k1 where k1: "elf_load_seg ph (take (unat (p_filesz ph)) (drop (unat (p_offset ph)) bin)) (spawn_mapper child) k = Ret (0, k1)"
      "spawning ext p child e k1 \<and> outside_kept p e k k1" "has_room k1 (3 * (2 * ?S) div 2)" "seg_loaded bin ph (?pg k1)" "\<forall>q. q \<notin> seg_range ph \<longrightarrow> ?pg k1 q = ?pg k q"
      by auto
    have sub: "\<forall>ph \<in> set (loadable phs). seg_ok bin ph \<and> UTEMP \<le> p_vaddr ph \<and> unat (p_offset ph) < n"
      "sorted_wrt (\<lambda>a b. seg_range a \<inter> seg_range b = {}) (loadable phs)"
      and dj: "\<forall>p \<in> set (loadable phs). seg_range ph \<inter> seg_range p = {}"
      using pre(7,8) by (simp_all add: l)
    have "has_room k1 (3 * ?S)" using k1(3) by simp
    from Cons.IH[OF phs o2(1,2) buf(2) fl sub conjunct1[OF k1(2)] this j' o2(3)] obtain k2 c3 where k2:
      "seg_loop [Suc j..<65536] devtab (int i) child (off + of_nat (Suc j) * ucast sz) ?buf (k1, c2) = Ret (0, k2, c3)"
      "spawning ext p child e k2 \<and> outside_kept p e k1 k2" "opened c3 = opened c2" "srv c3 = srv c2"
      "\<forall>ph \<in> set (loadable phs). seg_loaded bin ph (?pg k2)"
      "\<forall>q. q \<notin> (\<Union>ph \<in> set (loadable phs). seg_range ph) \<longrightarrow> ?pg k2 q = ?pg k1 q" by blast
    have "seg_loaded bin ph (?pg k2)" by (rule sm.seg_loaded_keep[OF k1(4) k2(6)]) (use dj in blast)
    moreover have "outside_kept p e k k2" using outside_kept_trans k1(2) k2(2) by blast
    ultimately show ?thesis using step[of k1] True rm k1(1,5) bs k2 c1(2,3) c2(2,3) by (simp add: l)
  qed
qed

text \<open>
  C32. \<open>spawn\<close> loads the program: for an open file that holds a valid ELF image whose loadable segments lie in it and
  in user space above \<open>UTEMP\<close> and do not share pages, with three free pages for each page of them, the loop over the
  program headers (each sought and read into the buffer that holds the ELF header, its segment copied
  page by page through the parent's \<open>UTEMP\<close>) returns 0; every byte of every loadable segment is in the child's
  memory at its address, the bytes of the file and then zeroes, and no other page of the child has
  changed. The records of all environments, the address spaces of all others and the contents of their pages are
  as before, the parent's too, except for what it had mapped at \<open>UTEMP\<close> (unmapped stays unmapped); the file is still open
  and the server unchanged.
\<close>

theorem spawn_loads_segments:
  assumes "opened c i q n blks" "has_files devtab" "fd_omode (fds c (ff_page c q)) AND O_ACCMODE \<noteq> O_WRONLY"
    and bin: "bin = contents (fs (srv c)) blks n"
    and hdr: "e_phoff bin = Ret off" "e_phnum bin = Ret num" "e_phentsize bin = Ret sz" "52 \<le> n" "28 \<le> unat sz" "unat sz \<le> 42"
    and phs: "list_all2 (\<lambda>o' ph. phdr_at bin o' = Ret ph \<and> unat o' + unat sz \<le> n) (map (\<lambda>k. off + of_nat k * ucast sz) [0..<unat num]) phs"
    and segs: "\<forall>ph \<in> set (loadable phs). seg_ok bin ph \<and> UTEMP \<le> p_vaddr ph \<and> unat (p_offset ph) < n"
      "sorted_wrt (\<lambda>a b. seg_range a \<inter> seg_range b = {}) (loadable phs)"
    and k: "spawning ext p child e k" "has_room k (3 * sum_list (map sm.seg_pages (loadable phs)))"
  shows "\<exists>k' c'. seg_loop [0..<65536] devtab (int i) child off (take 52 bin @ replicate 460 0) (k, c) = Ret (0, k', c') \<and>
    spawning ext p child e k' \<and> outside_kept p e k k' \<and> opened c' = opened c \<and> srv c' = srv c \<and>
    (\<forall>ph \<in> set (loadable phs). seg_loaded bin ph (space_page k' (dir_of k' e))) \<and>
    (\<forall>q. q \<notin> (\<Union>ph \<in> set (loadable phs). seg_range ph) \<longrightarrow> space_page k' (dir_of k' e) q = space_page k (dir_of k e) q)"
proof -
  let ?buf = "take 52 bin @ replicate 460 0"
  have lb: "length bin = n" by (simp add: bin contents_def)
  have "length ?buf = 512" "e_phnum ?buf = Ret num" "e_phentsize ?buf = Ret sz"
    using hdr lb by (simp_all add: e_phnum_def e_phentsize_def half_at_def byte_at_def nth_append)
  from seg_loop_ok[OF phs assms(1,3) this segs k _ bin assms(2) hdr(5,6)] show ?thesis by simp
qed

text \<open>The image \<open>demo_elf\<close> as an open file, and environment 0 that prepares environment 1.\<close>

definition elf_cst :: cst where
  "elf_cst = holding demo_elf"

lemma elf_opened: "opened elf_cst 0 0 88 [3]" "contents (fs (srv elf_cst)) [3] 88 = demo_elf"
  using holding_opened[of demo_elf] by (simp_all add: elf_cst_def demo_elf_facts(5))

lemma roomy_spawning: "spawning (\<lambda>_. 0) 0 4097 1 roomy_kern"
  using roomy_runs roomy_inv(2) by (simp add: spawning_def envid2env_def roomy_same demo_env_def ENVX_def)

theorem spawn_loads_segments_witness:
  "\<exists>k' c'. seg_loop [0..<65536] [devcons, devfile] 0 4097 52 (take 52 demo_elf @ replicate 460 0) (roomy_kern, elf_cst) = Ret (0, k', c') \<and>
     mem_byte (space_page k' (dir_of k' 1)) 0x400001 = Some 22 \<and> mem_byte (space_page k' (dir_of k' 1)) 0x400005 = Some 0"
proof -
  have l: "loadable [demo_ph] = [demo_ph]" by (simp add: loadable_def demo_ph_def PT_LOAD_def)
  have ok: "seg_ok demo_elf demo_ph" unfolding seg_ok_def demo_elf_facts(5) by (simp add: demo_ph_def mmu_defs)
  have dt: "has_files [devcons, devfile]" by (simp add: devcons_def devfile_def)
  have h: "e_phoff demo_elf = Ret 52" "e_phnum demo_elf = Ret 1" "e_phentsize demo_elf = Ret 32" by code_simp+
  have m: "fd_omode (fds elf_cst (ff_page elf_cst 0)) AND O_ACCMODE \<noteq> O_WRONLY" unfolding elf_cst_def by (rule holding_mode)
  have rm: "has_room roomy_kern (3 * sum_list (map sm.seg_pages (loadable [demo_ph])))"
    unfolding l by (rule has_room_mono[OF roomy_runs(2)]) (simp add: sm.seg_pages_def demo_ph_def vpn_def)
  have "list_all2 (\<lambda>o' ph. phdr_at demo_elf o' = Ret ph \<and> unat o' + unat (32 :: u16) \<le> 88) (map (\<lambda>k. 52 + of_nat k * ucast (32 :: u16)) [0..<unat (1 :: u16)]) [demo_ph]"
    using demo_elf_facts(4) by simp
  moreover have "\<forall>ph \<in> set (loadable [demo_ph]). seg_ok demo_elf ph \<and> UTEMP \<le> p_vaddr ph \<and> unat (p_offset ph) < 88"
    using ok by (simp add: l) (simp add: demo_ph_def mmu_defs)
  moreover have "sorted_wrt (\<lambda>a b. seg_range a \<inter> seg_range b = {}) (loadable [demo_ph])" by (simp add: l)
  ultimately obtain k' c' where s': "seg_loop [0..<65536] [devcons, devfile] (int 0) 4097 52 (take 52 demo_elf @ replicate 460 0) (roomy_kern, elf_cst) = Ret (0, k', c')"
    "seg_loaded demo_elf demo_ph (space_page k' (dir_of k' 1))"
    using spawn_loads_segments[OF elf_opened(1) dt m elf_opened(2)[symmetric] h _ _ _ _ _ _ roomy_spawning rm] l by auto
  moreover have "mem_byte (space_page k' (dir_of k' 1)) (0x400000 + 1) = Some 22" "mem_byte (space_page k' (dir_of k' 1)) (0x400000 + 5) = Some 0"
    using s'(2)[unfolded seg_loaded_def, rule_format, of 1] s'(2)[unfolded seg_loaded_def, rule_format, of 5] demo_elf_facts(6)
    by (simp_all add: demo_ph_def)
  ultimately show ?thesis by auto
qed

end
