(* ===== verification/Fsformat.thy ===== *)
theory Fsformat
  imports Fs
begin

text \<open>
  The host tool \<^verbatim>\<open>tools/fsformat.c\<close> that writes the image of the disk. Blocks are words as the (little endian) host
  reads them. \<open>sup\<close> is the variable \<open>super\<close>, which holds the root directory until \<open>finish_fs\<close> copies it to block 1; a
  \<open>struct File *\<close> is \<open>Root\<close> or \<open>Slot b i\<close>, entry \<open>i\<close> of block \<open>b\<close>. What the host's file system has at a path is
  an \<open>hnode\<close>, with the cases that \<open>open\<close> or \<open>opendir\<close> fail; \<open>read\<close> of a regular file fills the buffer until the end.
\<close>

section \<open>State\<close>

definition NBLOCK :: nat where "NBLOCK = 1024"
definition BLOCK_FREE :: nat where "BLOCK_FREE = 0"
definition BLOCK_BOOT :: nat where "BLOCK_BOOT = 1"
definition BLOCK_BMAP :: nat where "BLOCK_BMAP = 2"
definition BLOCK_SUPER :: nat where "BLOCK_SUPER = 3"
definition BLOCK_DATA :: nat where "BLOCK_DATA = 4"
definition BLOCK_FILE :: nat where "BLOCK_FILE = 5"
definition BLOCK_INDEX :: nat where "BLOCK_INDEX = 6"

lemmas block_types = BLOCK_FREE_def BLOCK_BOOT_def BLOCK_BMAP_def BLOCK_SUPER_def BLOCK_DATA_def BLOCK_FILE_def BLOCK_INDEX_def

record img =
  btype :: "nat \<Rightarrow> nat"
  blk :: "nat \<Rightarrow> block"
  nextbno :: nat
  nbitblock :: nat
  sup :: block

datatype loc = Root | Slot nat nat

datatype hnode = HFile "u8 list" | HDir "(u8 list \<times> hnode) list" | HNoFile | HNoDir

text \<open>Words of a \<open>struct File\<close>: the name is in 0 to 31, then come size, type, direct links and the indirect one.\<close>

fun fld :: "img \<Rightarrow> loc \<Rightarrow> nat \<Rightarrow> u32" where
  "fld s Root k = sup s (2 + k)"
| "fld s (Slot b i) k = blk s b (64 * i + k)"

fun set_fld :: "loc \<Rightarrow> nat \<Rightarrow> u32 \<Rightarrow> img \<Rightarrow> img" where
  "set_fld Root k w s = s\<lparr>sup := (sup s)(2 + k := w)\<rparr>"
| "set_fld (Slot b i) k w s = s\<lparr>blk := (blk s)(b := (blk s b)(64 * i + k := w))\<rparr>"

text \<open>A string stored at the beginning of a \<open>struct File\<close>, from byte \<open>j\<close> on.\<close>

fun put_name :: "loc \<Rightarrow> nat \<Rightarrow> u8 list \<Rightarrow> img \<Rightarrow> img" where
  "put_name f j [] s = s"
| "put_name f j (b # bs) s = put_name f (Suc j) bs (set_fld f (j div 4) (set_word_byte (j mod 4) b (fld s f (j div 4))) s)"

fun put_block :: "nat \<Rightarrow> nat \<Rightarrow> u8 list \<Rightarrow> img \<Rightarrow> img" where
  "put_block b j [] s = s"
| "put_block b j (v # vs) s =
     put_block b (Suc j) vs (s\<lparr>blk := (blk s)(b := (blk s b)(j div 4 := set_word_byte (j mod 4) v (blk s b (j div 4))))\<rparr>)"

section \<open>Byte order\<close>

definition reverse :: "u32 \<Rightarrow> u32" where
  "reverse y = push_bit 24 (y AND 0xFF) OR push_bit 16 (drop_bit 8 y AND 0xFF) OR push_bit 8 (drop_bit 16 y AND 0xFF) OR (drop_bit 24 y AND 0xFF)"

definition reverse_words :: "nat list \<Rightarrow> block \<Rightarrow> block" where
  "reverse_words ks b = fold (\<lambda>k b. b(k := reverse (b k))) ks b"

text \<open>The number words of the \<open>struct File\<close> at word \<open>o'\<close>.\<close>

definition file_numbers :: "nat \<Rightarrow> nat list" where
  "file_numbers o' = map (\<lambda>k. o' + 32 + k) [0..<13]"

fun reverse_files :: "nat list \<Rightarrow> block \<Rightarrow> block" where
  "reverse_files [] b = b"
| "reverse_files (i # is) b = (if word_byte (b (64 * i)) 0 = 0 then b else reverse_files is (reverse_words (file_numbers (64 * i)) b))"

definition reverse_block :: "nat \<Rightarrow> block \<Rightarrow> block" where
  "reverse_block ty b =
     (if ty = BLOCK_SUPER then reverse_words ([0, 1] @ file_numbers 2) b
      else if ty = BLOCK_FILE then reverse_files [0..<FILE2BLK] b
      else if ty = BLOCK_INDEX \<or> ty = BLOCK_BMAP then reverse_words [0..<1024] b
      else b)"

section \<open>Blocks\<close>

definition init_bitmap :: "nat \<Rightarrow> nat \<Rightarrow> block" where
  "init_bitmap nbit i = (let diff = NBLOCK mod BIT2BLK div 8
     in (\<lambda>k. if 1024 \<le> k then 0 else if NBLOCK \<noteq> nbit * BIT2BLK \<and> i = nbit - 1 \<and> diff div 4 \<le> k then 0 else 0xFFFFFFFF))"

definition init_disk :: img where
  "init_disk = (let nbit = (NBLOCK + BIT2BLK - 1) div BIT2BLK
     in \<lparr>btype = (\<lambda>b. if b = 0 then BLOCK_BOOT else if b = 1 then BLOCK_SUPER else if b < 2 + nbit then BLOCK_BMAP else BLOCK_FREE),
         blk = (\<lambda>b. if 2 \<le> b \<and> b < 2 + nbit then init_bitmap nbit (b - 2) else (\<lambda>_. 0)),
         nextbno = 2 + nbit, nbitblock = nbit,
         sup = (\<lambda>_. 0)(0 := FS_MAGIC, 1 := of_nat NBLOCK, 2 + 33 := FTYPE_DIR, 2 := 47)\<rparr>)"

definition next_block :: "nat \<Rightarrow> img \<Rightarrow> (nat \<times> img) res" where
  "next_block ty s = (if NBLOCK \<le> nextbno s then Fault ''outside of disk''
     else Ret (nextbno s, s\<lparr>btype := (btype s)(nextbno s := ty), nextbno := nextbno s + 1\<rparr>))"

fun flush_loop :: "nat list \<Rightarrow> img \<Rightarrow> img" where
  "flush_loop [] s = s"
| "flush_loop (i # is) s = (let b = 2 + i div BIT2BLK; k = i mod BIT2BLK div 32
     in flush_loop is (s\<lparr>blk := (blk s)(b := (blk s b)(k := blk s b k AND NOT (push_bit (i mod 32) 1)))\<rparr>))"

definition flush_bitmap :: "img \<Rightarrow> img" where
  "flush_bitmap s = flush_loop [0..<nextbno s] s"

text \<open>The blocks of the image file; \<open>be\<close> is \<open>CONFIG_REVERSE_ENDIAN\<close>. \<open>struct Super\<close> has 66 words.\<close>

definition finish_fs :: "bool \<Rightarrow> img \<Rightarrow> nat \<Rightarrow> block" where
  "finish_fs be s = (let d = (blk s)(1 := \<lambda>k. if k < 66 then sup s k else blk s 1 k)
     in (\<lambda>i. if be then reverse_block (btype s i) (d i) else d i))"

definition save_block_link :: "loc \<Rightarrow> nat \<Rightarrow> nat \<Rightarrow> img \<Rightarrow> img res" where
  "save_block_link f nblk bno s = rassert (nblk < NINDIRECT) ''nblk < NINDIRECT''
     (if nblk < NDIRECT then Ret (set_fld f (34 + nblk) (of_nat bno) s)
      else rbind (if fld s f 44 = 0 then rbind (next_block BLOCK_INDEX s) (\<lambda>(i, s). Ret (set_fld f 44 (of_nat i) s)) else Ret s) (\<lambda>s.
        let x = unat (fld s f 44)
        in if NBLOCK \<le> x then Fault ''outside of disk''
           else Ret (s\<lparr>blk := (blk s)(x := (blk s x)(nblk := of_nat bno))\<rparr>)))"

definition make_link_block :: "loc \<Rightarrow> nat \<Rightarrow> img \<Rightarrow> (nat \<times> img) res" where
  "make_link_block dirf nblk s = rbind (next_block BLOCK_FILE s) (\<lambda>(bno, s).
     rbind (save_block_link dirf nblk bno s) (\<lambda>s.
     Ret (bno, set_fld dirf 32 (fld s dirf 32 + of_nat BY2BLK) s)))"

section \<open>Files and directories\<close>

definition block_link :: "img \<Rightarrow> loc \<Rightarrow> nat \<Rightarrow> nat res" where
  "block_link s f i = (if i < NDIRECT then Ret (unat (fld s f (34 + i)))
     else let x = unat (fld s f 44) in if NBLOCK \<le> x \<or> 1024 \<le> i then Fault ''outside of disk'' else Ret (unat (blk s x i)))"

definition free_slot :: "img \<Rightarrow> nat \<Rightarrow> nat option" where
  "free_slot s b = find (\<lambda>i. word_byte (fld s (Slot b i) 0) 0 = 0) [0..<FILE2BLK]"

fun find_file :: "nat list \<Rightarrow> loc \<Rightarrow> img \<Rightarrow> loc option res" where
  "find_file [] dirf s = Ret None"
| "find_file (i # is) dirf s = rbind (block_link s dirf i) (\<lambda>bno.
     if NBLOCK \<le> bno then Fault ''outside of disk''
     else case free_slot s bno of Some j \<Rightarrow> Ret (Some (Slot bno j)) | None \<Rightarrow> find_file is dirf s)"

definition create_file :: "loc \<Rightarrow> img \<Rightarrow> (loc \<times> img) res" where
  "create_file dirf s = (let nblk = unat (fld s dirf 32) div BY2BLK
     in rbind (find_file [0..<nblk] dirf s) (\<lambda>f. case f of
          Some f \<Rightarrow> Ret (f, s)
        | None \<Rightarrow> rbind (make_link_block dirf nblk s) (\<lambda>(bno, s). Ret (Slot bno 0, s))))"

text \<open>The loop that copies the file, a block at a time into \<open>disk[nextbno]\<close>.\<close>

function copy_blocks :: "loc \<Rightarrow> nat \<Rightarrow> u8 list \<Rightarrow> img \<Rightarrow> img res" where
  "copy_blocks f iblk bs s =
     (if bs = [] then Ret s
      else if NBLOCK \<le> nextbno s then Fault ''outside of disk''
      else case next_block BLOCK_DATA (put_block (nextbno s) 0 (take BY2BLK bs) s) of
          Ret (bno, s) \<Rightarrow> (case save_block_link f iblk bno s of
              Ret s \<Rightarrow> copy_blocks f (iblk + 1) (drop BY2BLK bs) s
            | Panic e \<Rightarrow> Panic e | Fault e \<Rightarrow> Fault e)
        | Panic e \<Rightarrow> Panic e | Fault e \<Rightarrow> Fault e)"
  by pat_completeness auto
termination
  by (relation "measure (\<lambda>(f, iblk, bs, s). length bs)") auto

declare copy_blocks.simps [simp del]

definition last_name :: "u8 list \<Rightarrow> u8 list" where
  "last_name path = rev (takeWhile (\<lambda>c. c \<noteq> 47) (rev path))"

text \<open>A file that cannot be opened: \<open>lseek\<close> and \<open>read\<close> return -1.\<close>

definition image_write_file :: "loc \<Rightarrow> u8 list \<Rightarrow> u8 list option \<Rightarrow> img \<Rightarrow> img res" where
  "image_write_file dirf path content s = rbind (create_file dirf s) (\<lambda>(target, s).
     let fname = last_name path
     in if MAXNAMELEN \<le> length fname then Fault ''f_name overflows''
        else let s = set_fld target 33 FTYPE_REG (set_fld target 32 (case content of Some bs \<Rightarrow> of_nat (length bs) | None \<Rightarrow> - 1)
               (put_name target 0 (fname @ [0]) s))
          in case content of Some bs \<Rightarrow> copy_blocks target 0 bs s | None \<Rightarrow> Ret s)"

text \<open>\<open>basename\<close> of the C library.\<close>

definition base_name :: "u8 list \<Rightarrow> u8 list" where
  "base_name path = (if path = [] then [46] else let p = rev (dropWhile (\<lambda>c. c = 47) (rev path)) in if p = [] then [47] else last_name p)"

definition strncpy_bytes :: "u8 list \<Rightarrow> nat \<Rightarrow> u8 list" where
  "strncpy_bytes bs n = take n bs @ replicate (n - length bs) 0"

fun write_directory :: "loc \<Rightarrow> u8 list \<Rightarrow> hnode \<Rightarrow> img \<Rightarrow> img res"
  and write_entries :: "loc \<Rightarrow> u8 list \<Rightarrow> (u8 list \<times> hnode) list \<Rightarrow> img \<Rightarrow> img res" where
  "write_directory dirf path (HDir es) s = rbind (create_file dirf s) (\<lambda>(pdir, s).
     let s = put_name pdir 0 (strncpy_bytes (base_name path) (MAXNAMELEN - 1)) s
     in if word_byte (fld s pdir ((MAXNAMELEN - 1) div 4)) ((MAXNAMELEN - 1) mod 4) \<noteq> 0 then Panic ''file name is too long''
        else write_entries pdir path es (set_fld pdir 33 FTYPE_DIR s))"
| "write_directory dirf path (HFile bs) s = Ret s"
| "write_directory dirf path HNoFile s = Ret s"
| "write_directory dirf path HNoDir s = Ret s"
| "write_entries pdir path [] s = Ret s"
| "write_entries pdir path ((name, h) # es) s =
     rbind (if name = [46] \<or> name = [46, 46] then Ret s
            else let buf = path @ [47] @ name
              in case h of
                   HFile bs \<Rightarrow> image_write_file pdir buf (Some bs) s
                 | HNoFile \<Rightarrow> image_write_file pdir buf None s
                 | _ \<Rightarrow> write_directory pdir buf h s) (write_entries pdir path es)"

fun write_args :: "(u8 list \<times> hnode) list \<Rightarrow> img \<Rightarrow> img res" where
  "write_args [] s = Ret s"
| "write_args ((name, h) # as) s =
     rbind (case h of
         HFile bs \<Rightarrow> image_write_file Root name (Some bs) s
       | HNoFile \<Rightarrow> image_write_file Root name None s
       | _ \<Rightarrow> write_directory Root name h s) (write_args as)"

definition fsformat :: "bool \<Rightarrow> (u8 list \<times> hnode) list \<Rightarrow> (nat \<Rightarrow> block) res" where
  "fsformat be args = rbind (write_args args init_disk) (\<lambda>s. Ret (finish_fs be (flush_bitmap s)))"

end
