(* ===== verification/FsformatProps.thy ===== *)
theory FsformatProps
  imports Fsformat FsFiles
begin

text \<open>
  The image that \<open>fsformat\<close> writes: every block in use is reserved or linked from exactly one place, with the type
  of the place; the files of the host are in it with their names and contents.
\<close>

section \<open>Links\<close>

fun is_file :: "img \<Rightarrow> loc \<Rightarrow> bool" where
  "is_file s Root = True"
| "is_file s (Slot b i) = (b < nextbno s \<and> btype s b = BLOCK_FILE \<and> i < 16)"

definition named :: "img \<Rightarrow> loc \<Rightarrow> bool" where
  "named s f \<longleftrightarrow> is_file s f \<and> (f = Root \<or> word_byte (fld s f 0) 0 \<noteq> 0)"

text \<open>A place for a block number: in a \<open>struct File\<close> (10 is \<open>f_indirect\<close>) or in an index block.\<close>

datatype place = In loc nat | Ix nat nat

fun is_place :: "img \<Rightarrow> place \<Rightarrow> bool" where
  "is_place s (In f k) = (is_file s f \<and> k < 11)"
| "is_place s (Ix x k) = (x < nextbno s \<and> btype s x = BLOCK_INDEX \<and> k < 1024)"

fun num_at :: "img \<Rightarrow> place \<Rightarrow> u32" where
  "num_at s (In f k) = fld s f (34 + k)"
| "num_at s (Ix x k) = blk s x k"

fun put_num :: "place \<Rightarrow> u32 \<Rightarrow> img \<Rightarrow> img" where
  "put_num (In f k) w s = set_fld f (34 + k) w s"
| "put_num (Ix x k) w s = s\<lparr>blk := (blk s)(x := (blk s x)(k := w))\<rparr>"

text \<open>\<open>P\<close> are the blocks that are allocated and not yet linked.\<close>

definition geometry :: "img \<Rightarrow> bool" where
  "geometry s \<longleftrightarrow> 3 \<le> nextbno s \<and> nextbno s \<le> NBLOCK \<and> nbitblock s = 1 \<and> btype s 0 = BLOCK_BOOT \<and> btype s 1 = BLOCK_SUPER \<and> btype s 2 = BLOCK_BMAP \<and>
     (\<forall>b. 3 \<le> b \<longrightarrow> b < nextbno s \<longrightarrow> btype s b \<in> {BLOCK_DATA, BLOCK_FILE, BLOCK_INDEX}) \<and> (\<forall>b \<ge> nextbno s. blk s b = (\<lambda>_. 0)) \<and>
     (\<forall>x < nextbno s. btype s x = BLOCK_INDEX \<longrightarrow> (\<forall>k < 10. blk s x k = 0))"

definition linked :: "img \<Rightarrow> nat set \<Rightarrow> bool" where
  "linked s P \<longleftrightarrow>
     (\<forall>p. is_place s p \<longrightarrow> num_at s p \<noteq> 0 \<longrightarrow> unat (num_at s p) \<in> {3..<nextbno s} - P \<and>
        (btype s (unat (num_at s p)) = BLOCK_INDEX \<longleftrightarrow> (\<exists>f. p = In f 10))) \<and>
     (\<forall>p q. is_place s p \<longrightarrow> is_place s q \<longrightarrow> num_at s p \<noteq> 0 \<longrightarrow> num_at s p = num_at s q \<longrightarrow> p = q) \<and>
     (\<forall>b \<in> {3..<nextbno s} - P. \<exists>p. is_place s p \<and> num_at s p = of_nat b)"

definition unused_zero :: "img \<Rightarrow> bool" where
  "unused_zero s \<longleftrightarrow> (\<forall>f k. is_file s f \<longrightarrow> \<not> named s f \<longrightarrow> k < 64 \<longrightarrow> fld s f k = 0)"

definition img_inv :: "img \<Rightarrow> nat set \<Rightarrow> bool" where
  "img_inv s P \<longleftrightarrow> geometry s \<and> linked s P \<and> unused_zero s \<and> P \<subseteq> {3..<nextbno s}"

text \<open>The numbers of a file's blocks, 0 where it has none.\<close>

definition lnk :: "img \<Rightarrow> loc \<Rightarrow> nat \<Rightarrow> u32" where
  "lnk s f i = (if i < 10 then fld s f (34 + i) else if fld s f 44 = 0 then 0 else blk s (unat (fld s f 44)) i)"

text \<open>The blocks of a directory hold files, those of a regular file its contents.\<close>

definition links_typed :: "img \<Rightarrow> loc \<Rightarrow> bool" where
  "links_typed s f \<longleftrightarrow> (\<forall>i < 1024. lnk s f i \<noteq> 0 \<longrightarrow>
     btype s (unat (lnk s f i)) = (if fld s f 33 = FTYPE_DIR then BLOCK_FILE else BLOCK_DATA))"

text \<open>What an operation on the file \<open>f\<close> leaves alone.\<close>

definition others_kept :: "loc \<Rightarrow> img \<Rightarrow> img \<Rightarrow> bool" where
  "others_kept f s s' \<longleftrightarrow> nextbno s \<le> nextbno s' \<and> sup s' 0 = sup s 0 \<and> sup s' 1 = sup s 1 \<and>
     (\<forall>b < nextbno s. btype s' b = btype s b \<and> (btype s b \<notin> {BLOCK_FILE, BLOCK_INDEX} \<longrightarrow> blk s' b = blk s b)) \<and>
     (\<forall>g. named s g \<longrightarrow> g \<noteq> f \<longrightarrow> (\<forall>k < 64. fld s' g k = fld s g k) \<and> (\<forall>i < 1024. lnk s' g i = lnk s g i))"

lemma data_kept: "others_kept f s s' \<Longrightarrow> b < nextbno s \<Longrightarrow> btype s b = BLOCK_DATA \<Longrightarrow> btype s' b = BLOCK_DATA \<and> blk s' b = blk s b"
  by (simp add: others_kept_def block_types)

lemma others_kept_refl [simp]: "others_kept f s s"
  by (simp add: others_kept_def)

lemma is_file_kept: "others_kept f s s' \<Longrightarrow> is_file s g \<Longrightarrow> is_file s' g"
  by (cases g) (auto simp: others_kept_def)

lemma named_kept: "others_kept f s s' \<Longrightarrow> named s g \<Longrightarrow> g \<noteq> f \<Longrightarrow> named s' g"
  using is_file_kept[of f s s' g] by (auto simp: named_def others_kept_def)

lemma others_kept_trans:
  assumes 1: "others_kept f s s1" and 2: "others_kept g s1 s2" and g: "g = f \<or> \<not> named s g"
  shows "others_kept f s s2"
  unfolding others_kept_def
proof (intro conjI allI impI)
  show "nextbno s \<le> nextbno s2" "sup s2 0 = sup s 0" "sup s2 1 = sup s 1" using 1 2 by (auto simp: others_kept_def)
  fix b
  assume "b < nextbno s"
  then show "btype s2 b = btype s b" "btype s b \<notin> {BLOCK_FILE, BLOCK_INDEX} \<Longrightarrow> blk s2 b = blk s b" using 1 2 by (auto simp: others_kept_def)
next
  fix h k
  assume h: "named s h" "h \<noteq> f"
  then have "named s1 h" "h \<noteq> g" using named_kept[OF 1] g by auto
  then show "k < 64 \<Longrightarrow> fld s2 h k = fld s h k" "k < 1024 \<Longrightarrow> lnk s2 h k = lnk s h k"
    using 1 2 h by (auto simp: others_kept_def)
qed

lemma fld_set_fld:
  assumes "is_file s g \<or> is_file s f" "k < 64" "j < 64" "\<forall>b i. g = Slot b i \<longrightarrow> i < 16" "\<forall>b i. f = Slot b i \<longrightarrow> i < 16"
  shows "fld (set_fld f k w s) g j = (if g = f \<and> j = k then w else fld s g j)"
proof (cases f; cases g)
  fix b i c m
  assume fg: "f = Slot b i" "g = Slot c m"
  have "64 * m + j = 64 * i + k \<longleftrightarrow> m = i \<and> j = k"
  proof
    assume e: "64 * m + j = 64 * i + k"
    have "\<not> m < i"
    proof
      assume "m < i"
      then have "64 * m + 64 \<le> 64 * i" by simp
      with e assms(3) show False by linarith
    qed
    moreover have "\<not> i < m"
    proof
      assume "i < m"
      then have "64 * i + 64 \<le> 64 * m" by simp
      with e assms(2) show False by linarith
    qed
    ultimately have "m = i" by simp
    with e show "m = i \<and> j = k" by simp
  qed simp
  then show ?thesis using fg by auto
qed auto

lemma set_fld_rest [simp]: "btype (set_fld f k w s) = btype s" "nextbno (set_fld f k w s) = nextbno s" "nbitblock (set_fld f k w s) = nbitblock s"
  "is_file (set_fld f k w s) = is_file s" "sup (set_fld f k w s) 0 = sup s 0" "sup (set_fld f k w s) (Suc 0) = sup s (Suc 0)"
proof -
  show b: "btype (set_fld f k w s) = btype s" "nextbno (set_fld f k w s) = nextbno s" "nbitblock (set_fld f k w s) = nbitblock s"
    "sup (set_fld f k w s) 0 = sup s 0" "sup (set_fld f k w s) (Suc 0) = sup s (Suc 0)" by (cases f; simp)+
  show "is_file (set_fld f k w s) = is_file s"
  proof
    show "is_file (set_fld f k w s) g = is_file s g" for g using b by (cases g) simp_all
  qed
qed

lemma put_at_rest [simp]: "btype (put_num p w s) = btype s" "nextbno (put_num p w s) = nextbno s" "nbitblock (put_num p w s) = nbitblock s"
  "is_file (put_num p w s) = is_file s" "is_place (put_num p w s) = is_place s" "sup (put_num p w s) 0 = sup s 0" "sup (put_num p w s) (Suc 0) = sup s (Suc 0)"
proof -
  show b: "btype (put_num p w s) = btype s" "nextbno (put_num p w s) = nextbno s" "nbitblock (put_num p w s) = nbitblock s"
    "sup (put_num p w s) 0 = sup s 0" "sup (put_num p w s) (Suc 0) = sup s (Suc 0)" by (cases p; simp)+
  show i: "is_file (put_num p w s) = is_file s"
  proof
    show "is_file (put_num p w s) g = is_file s g" for g using b by (cases g) simp_all
  qed
  show "is_place (put_num p w s) = is_place s"
  proof
    show "is_place (put_num p w s) q = is_place s q" for q using b i by (cases q) simp_all
  qed
qed

lemma is_file_slot: "is_file s f \<Longrightarrow> \<forall>b i. f = Slot b i \<longrightarrow> i < 16" by auto

lemma blk_set_fld: "is_file s f \<Longrightarrow> btype s b \<noteq> BLOCK_FILE \<or> nextbno s \<le> b \<Longrightarrow> blk (set_fld f k w s) b = blk s b"
  by (cases f) auto

lemma at_put_at:
  assumes "is_place s p" "is_place s q"
  shows "num_at (put_num p w s) q = (if q = p then w else num_at s q)"
proof (cases p; cases q)
  fix f k g j
  assume pq: "p = In f k" "q = In g j"
  then show ?thesis using assms fld_set_fld[of s g f "34 + k" "34 + j" w] is_file_slot[of s f] is_file_slot[of s g] by auto
next
  fix f k x j
  assume pq: "p = In f k" "q = Ix x j"
  then show ?thesis using assms blk_set_fld[of s f x] by (simp add: block_types)
next
  fix x j f k
  assume pq: "p = Ix x j" "q = In f k"
  then show ?thesis using assms by (cases f) (auto simp: block_types)
qed auto

lemma fld_put_at:
  assumes "is_place s p" "is_file s g" "k < 64" "k < 34 \<or> 45 \<le> k"
  shows "fld (put_num p w s) g k = fld s g k"
proof (cases p)
  case (In f j)
  then show ?thesis using assms fld_set_fld[of s g f "34 + j" k w] is_file_slot[of s f] is_file_slot[of s g] by auto
next
  case (Ix x j)
  then show ?thesis using assms by (cases g) (auto simp: block_types)
qed


lemma img_invD:
  assumes "img_inv s P"
  shows "3 \<le> nextbno s" "nextbno s \<le> NBLOCK" "b \<ge> nextbno s \<Longrightarrow> blk s b = (\<lambda>_. 0)"
    "is_place s p \<Longrightarrow> num_at s p \<noteq> 0 \<Longrightarrow> unat (num_at s p) \<in> {3..<nextbno s} - P"
    "is_place s p \<Longrightarrow> num_at s p \<noteq> 0 \<Longrightarrow> btype s (unat (num_at s p)) = BLOCK_INDEX \<longleftrightarrow> (\<exists>f. p = In f 10)"
    "is_place s p \<Longrightarrow> is_place s q \<Longrightarrow> num_at s p \<noteq> 0 \<Longrightarrow> num_at s p = num_at s q \<Longrightarrow> p = q"
    "b \<in> {3..<nextbno s} - P \<Longrightarrow> \<exists>p. is_place s p \<and> num_at s p = of_nat b"
    "is_file s f \<Longrightarrow> \<not> named s f \<Longrightarrow> k < 64 \<Longrightarrow> fld s f k = 0" "P \<subseteq> {3..<nextbno s}"
proof -
  note h = assms[unfolded img_inv_def geometry_def linked_def unused_zero_def]
  show "3 \<le> nextbno s" "nextbno s \<le> NBLOCK" "P \<subseteq> {3..<nextbno s}" "b \<ge> nextbno s \<Longrightarrow> blk s b = (\<lambda>_. 0)"
    "is_file s f \<Longrightarrow> \<not> named s f \<Longrightarrow> k < 64 \<Longrightarrow> fld s f k = 0"
    using h by simp_all
  show "is_place s p \<Longrightarrow> num_at s p \<noteq> 0 \<Longrightarrow> unat (num_at s p) \<in> {3..<nextbno s} - P"
    "is_place s p \<Longrightarrow> num_at s p \<noteq> 0 \<Longrightarrow> btype s (unat (num_at s p)) = BLOCK_INDEX \<longleftrightarrow> (\<exists>f. p = In f 10)"
    using conjunct1[OF conjunct1[OF conjunct2[OF h]]] by (blast, blast)
  show "is_place s p \<Longrightarrow> is_place s q \<Longrightarrow> num_at s p \<noteq> 0 \<Longrightarrow> num_at s p = num_at s q \<Longrightarrow> p = q"
    using conjunct1[OF conjunct2[OF conjunct1[OF conjunct2[OF h]]]] by blast
  show "b \<in> {3..<nextbno s} - P \<Longrightarrow> \<exists>p. is_place s p \<and> num_at s p = of_nat b"
    using conjunct2[OF conjunct2[OF conjunct1[OF conjunct2[OF h]]]] by blast
qed

lemma small_word: "b < 1024 \<Longrightarrow> unat (of_nat b :: u32) = b"
  by (simp add: unat_of_nat)

text \<open>The index block of a file is one.\<close>

lemma index_block:
  assumes "img_inv s P" "is_file s f" "fld s f 44 \<noteq> 0"
  shows "is_place s (Ix (unat (fld s f 44)) k) \<longleftrightarrow> k < 1024" "btype s (unat (fld s f 44)) = BLOCK_INDEX" "3 \<le> unat (fld s f 44)" "unat (fld s f 44) < nextbno s"
  using img_invD(4,5)[OF assms(1), of "In f 10"] assms(2,3) by auto

lemma put_at_blk: "is_place s p \<Longrightarrow> b \<ge> nextbno s \<or> btype s b \<notin> {BLOCK_FILE, BLOCK_INDEX} \<Longrightarrow> blk (put_num p w s) b = blk s b"
  by (cases p) (use blk_set_fld in \<open>auto simp: block_types\<close>)

lemma unused_put_at:
  fixes s :: img
  assumes u: "unused_zero s" and p: "is_place s p" and n: "\<forall>f k. p = In f k \<longrightarrow> named s f"
  shows "named (put_num p w s) = named s" "unused_zero (put_num p w s)"
proof -
  have n': "named (put_num p w s) g = named s g" for g using fld_put_at[OF p, of g 0] by (auto simp: named_def)
  then show "named (put_num p w s) = named s" by auto
  show "unused_zero (put_num p w s)"
    unfolding unused_zero_def n'
  proof (intro allI impI)
    fix g and k :: nat
    assume g: "is_file (put_num p w s) g" "\<not> named s g" "k < 64"
    then have f: "is_file s g" "p \<noteq> In g (k - 34)" using n by auto
    have "fld (put_num p w s) g k = fld s g k"
    proof (cases "34 \<le> k \<and> k < 45")
      case True
      then have "is_place s (In g (k - 34))" "34 + (k - 34) = k" using f by auto
      then show ?thesis using at_put_at[OF p, of "In g (k - 34)" w] f(2) by simp
    qed (use fld_put_at[OF p f(1) g(3)] in auto)
    then show "fld (put_num p w s) g k = 0" using u f(1) g by (simp add: unused_zero_def)
  qed
qed

lemma link_ok:
  assumes inv: "img_inv s P" and p: "is_place s p" "num_at s p = 0" and b: "b \<in> P"
    and ty: "btype s b = BLOCK_INDEX \<longleftrightarrow> (\<exists>f. p = In f 10)" and n: "\<forall>f k. p = In f k \<longrightarrow> named s f"
    and k10: "\<forall>x k. p = Ix x k \<longrightarrow> 10 \<le> k"
  shows "img_inv (put_num p (of_nat b) s) (P - {b})" (is "img_inv ?s _")
proof -
  have bb: "3 \<le> b" "b < nextbno s" "b < 1024" using b img_invD(2,9)[OF inv] by (auto simp: NBLOCK_def)
  then have w: "unat (of_nat b :: u32) = b" "(of_nat b :: u32) \<noteq> 0" using small_word[of b] by auto
  have at: "num_at ?s q = (if q = p then of_nat b else num_at s q)" if "is_place s q" for q using at_put_at[OF p(1) that] .
  have ix: "blk ?s x k = blk s x k" if x: "x < nextbno s" "btype s x = BLOCK_INDEX" and k: "k < 10" for x k
  proof (cases p)
    case (In g j)
    then show ?thesis using blk_set_fld[of s g x] p(1) x by (simp add: block_types)
  next
    case (Ix y j)
    then show ?thesis using k10 k by auto
  qed
  have "geometry ?s" using inv put_at_blk[OF p(1)] ix by (auto simp: img_inv_def geometry_def)
  moreover have "unused_zero ?s" using unused_put_at(2)[OF _ p(1) n] inv by (simp add: img_inv_def)
  moreover have "linked ?s (P - {b})"
    unfolding linked_def
  proof (intro conjI allI impI ballI)
    fix q
    assume q: "is_place ?s q" "num_at ?s q \<noteq> 0"
    show "unat (num_at ?s q) \<in> {3..<nextbno ?s} - (P - {b})" "(btype ?s (unat (num_at ?s q)) = BLOCK_INDEX) = (\<exists>f. q = In f 10)"
      using q at img_invD(4,5)[OF inv, of q] bb w ty by (auto split: if_splits)
  next
    fix q r
    assume qr: "is_place ?s q" "is_place ?s r" "num_at ?s q \<noteq> 0" "num_at ?s q = num_at ?s r"
    have ne: "of_nat b \<noteq> num_at s t" if t: "is_place s t" for t
    proof
      assume e: "of_nat b = num_at s t"
      then have "unat (num_at s t) = b" "num_at s t \<noteq> 0" using w by auto
      then show False using img_invD(4)[OF inv t] b by simp
    qed
    show "q = r"
    proof (rule ccontr)
      assume "q \<noteq> r"
      then show False using qr at ne[of q] ne[of r] img_invD(6)[OF inv, of q r] by (auto split: if_splits)
    qed
  next
    fix c
    assume c: "c \<in> {3..<nextbno ?s} - (P - {b})"
    show "\<exists>q. is_place ?s q \<and> num_at ?s q = of_nat c"
    proof (cases "c = b")
      case True
      then show ?thesis using p(1) at by auto
    next
      case False
      then obtain q where q: "is_place s q" "num_at s q = of_nat c" using c img_invD(7)[OF inv, of c] by auto
      have "c < 1024" using c img_invD(2)[OF inv] by (auto simp: NBLOCK_def)
      then have "num_at s q \<noteq> 0" using q(2) c small_word[of c] by auto
      then have "q \<noteq> p" using p(2) by auto
      then show ?thesis using q at by (intro exI[of _ q]) simp
    qed
  qed
  ultimately show ?thesis using inv by (auto simp: img_inv_def)
qed

section \<open>Allocation\<close>

definition new_block :: "nat \<Rightarrow> block \<Rightarrow> img \<Rightarrow> img" where
  "new_block ty c s = s\<lparr>blk := (blk s)(nextbno s := c), btype := (btype s)(nextbno s := ty), nextbno := nextbno s + 1\<rparr>"

lemma next_block_eq: "img_inv s P \<Longrightarrow> nextbno s < NBLOCK \<Longrightarrow> next_block ty s = Ret (nextbno s, new_block ty (\<lambda>_. 0) s)"
  using img_invD(3)[of s P "nextbno s"] by (simp add: next_block_def new_block_def fun_upd_idem)

lemma new_block_file:
  assumes "is_file s f"
  shows "is_file (new_block ty c s) f" "fld (new_block ty c s) f k = fld s f k" "named (new_block ty c s) f = named s f"
proof -
  show i: "is_file (new_block ty c s) f" and f: "fld (new_block ty c s) f k = fld s f k" for k
    using assms by (cases f; auto simp: new_block_def)+
  show "named (new_block ty c s) f = named s f" using assms i f by (simp add: named_def)
qed

lemma new_block_named: "named (new_block ty c s) g \<Longrightarrow> ty \<noteq> BLOCK_FILE \<or> c = (\<lambda>_. 0) \<Longrightarrow> named s g"
  by (cases g) (auto simp: named_def new_block_def word_byte_def split: if_splits)

lemma new_block_lnk:
  assumes inv: "img_inv s P" and f: "is_file s f"
  shows "lnk (new_block ty c s) f i = lnk s f i"
proof (cases "fld s f 44 = 0")
  case False
  then have "blk (new_block ty c s) (unat (fld s f 44)) = blk s (unat (fld s f 44))"
    using index_block(4)[OF inv f] by (simp add: new_block_def)
  then show ?thesis by (simp add: lnk_def new_block_file[OF f])
qed (simp add: lnk_def new_block_file[OF f])

lemma new_block_ok:
  assumes inv: "img_inv s P" and lt: "nextbno s < NBLOCK" and ty: "ty \<in> {BLOCK_DATA, BLOCK_FILE, BLOCK_INDEX}"
    and c: "ty = BLOCK_DATA \<or> c = (\<lambda>_. 0)"
  shows "img_inv (new_block ty c s) (insert (nextbno s) P)" "others_kept f s (new_block ty c s)"
proof -
  let ?s = "new_block ty c s"
  have old: "is_place ?s q" "num_at ?s q = num_at s q" if "is_place s q" for q
    using that new_block_file(1,2)[of s] by (cases q; auto simp: new_block_def)+
  have new: "num_at ?s q = 0" if "is_place ?s q" "\<not> is_place s q" for q
  proof (cases q)
    case (In g k)
    then show ?thesis using that c by (cases g) (auto simp: new_block_def block_types split: if_splits)
  next
    case (Ix x k)
    then show ?thesis using that c by (auto simp: new_block_def block_types split: if_splits)
  qed
  have b3: "3 \<le> nextbno s" using img_invD(1)[OF inv] .
  have ty_old: "btype ?s b = btype s b" if "b < nextbno s" for b using that by (simp add: new_block_def)
  have "BLOCK_INDEX \<noteq> BLOCK_DATA" by (simp add: block_types)
  then have "geometry ?s" using inv lt ty b3 c by (auto simp: img_inv_def geometry_def new_block_def less_Suc_eq)
  moreover have "unused_zero ?s"
    unfolding unused_zero_def
  proof (intro allI impI)
    fix g and k :: nat
    assume g: "is_file ?s g" "\<not> named ?s g" "k < 64"
    show "fld ?s g k = 0"
    proof (cases "is_file s g")
      case True
      then show ?thesis using g img_invD(8)[OF inv] new_block_file[OF True] by simp
    next
      case False
      then show ?thesis using g c by (cases g) (auto simp: new_block_def block_types split: if_splits)
    qed
  qed
  moreover have "linked ?s (insert (nextbno s) P)"
    unfolding linked_def
  proof (intro conjI allI impI ballI)
    fix q
    assume q: "is_place ?s q" "num_at ?s q \<noteq> 0"
    then have "is_place s q" using new[of q] by auto
    then have o': "is_place s q" "num_at s q \<noteq> 0" using q(2) old(2) by simp_all
    note v = img_invD(4,5)[OF inv o']
    show "unat (num_at ?s q) \<in> {3..<nextbno ?s} - insert (nextbno s) P" using v(1) old(2)[OF o'(1)] by (auto simp: new_block_def)
    show "(btype ?s (unat (num_at ?s q)) = BLOCK_INDEX) = (\<exists>f. q = In f 10)"
      using v ty_old[of "unat (num_at s q)"] old(2)[OF o'(1)] by simp
  next
    fix q r
    assume qr: "is_place ?s q" "is_place ?s r" "num_at ?s q \<noteq> 0" "num_at ?s q = num_at ?s r"
    then have "is_place s q" "is_place s r" using new[of q] new[of r] by auto
    then show "q = r" using qr old img_invD(6)[OF inv, of q r] by simp
  next
    fix b
    assume "b \<in> {3..<nextbno ?s} - insert (nextbno s) P"
    then have "b \<in> {3..<nextbno s} - P" by (auto simp: new_block_def)
    then show "\<exists>p. is_place ?s p \<and> num_at ?s p = of_nat b" using img_invD(7)[OF inv] old by metis
  qed
  ultimately show "img_inv ?s (insert (nextbno s) P)" using img_invD(9)[OF inv] b3 by (auto simp: img_inv_def new_block_def)
  show "others_kept f s ?s"
    using new_block_file new_block_lnk[OF inv] by (auto simp: others_kept_def named_def new_block_def)
qed

section \<open>save\_block\_link\<close>

lemma lnk_put_direct:
  assumes inv: "img_inv s P" and f: "is_file s f" "k < 10" and g: "is_file s g"
  shows "lnk (put_num (In f k) w s) g i = (if g = f \<and> i = k then w else lnk s g i)"
proof -
  have p: "is_place s (In f k)" using f by simp
  have d: "i < 10 \<Longrightarrow> fld (put_num (In f k) w s) g (34 + i) = (if g = f \<and> i = k then w else fld s g (34 + i))"
    using at_put_at[OF p, of "In g i" w] g by simp
  have x: "fld (put_num (In f k) w s) g 44 = fld s g 44" using at_put_at[OF p, of "In g 10" w] g f by simp
  have "fld s g 44 \<noteq> 0 \<Longrightarrow> blk (put_num (In f k) w s) (unat (fld s g 44)) = blk s (unat (fld s g 44))"
    using index_block[OF inv g] blk_set_fld[OF f(1), of "unat (fld s g 44)" "34 + k" w] by (simp add: block_types)
  then show ?thesis using d x f by (auto simp: lnk_def)
qed

lemma lnk_put_index:
  assumes inv: "img_inv s P" and f: "is_file s f" "fld s f 44 \<noteq> 0" "10 \<le> k" "k < 1024" and g: "is_file s g"
  shows "lnk (put_num (Ix (unat (fld s f 44)) k) w s) g i = (if g = f \<and> i = k then w else lnk s g i)"
proof -
  have p: "is_place s (Ix (unat (fld s f 44)) k)" using index_block(2,4)[OF inv f(1,2)] f by simp
  have d: "i < 11 \<Longrightarrow> fld (put_num (Ix (unat (fld s f 44)) k) w s) g (34 + i) = fld s g (34 + i)" for i
    using at_put_at[OF p, of "In g i" w] g by simp
  have "unat (fld s g 44) \<noteq> unat (fld s f 44)" if "g \<noteq> f" "fld s g 44 \<noteq> 0"
    using img_invD(6)[OF inv, of "In g 10" "In f 10"] that f g by (auto simp: word_unat_eq_iff[symmetric])
  then show ?thesis using d[of i] d[of 10] f by (auto simp: lnk_def)
qed

lemma lnk_put_indirect:
  assumes inv: "img_inv s P" and f: "is_file s f" "fld s f 44 = 0" and b: "b < 1024" "btype s b = BLOCK_INDEX" "blk s b = (\<lambda>_. 0)"
    and g: "is_file s g"
  shows "lnk (put_num (In f 10) (of_nat b) s) g i = lnk s g i"
proof -
  have p: "is_place s (In f 10)" using f by simp
  have d: "j < 11 \<Longrightarrow> fld (put_num (In f 10) (of_nat b) s) g (34 + j) = (if g = f \<and> j = 10 then of_nat b else fld s g (34 + j))" for j
    using at_put_at[OF p, of "In g j" "of_nat b"] g by simp
  have k: "btype s x = BLOCK_INDEX \<Longrightarrow> blk (put_num (In f 10) (of_nat b) s) x = blk s x" for x
    using blk_set_fld[OF f(1), of x "34 + 10"] by (simp add: block_types)
  show ?thesis
  proof (cases "g = f")
    case True
    then show ?thesis using d[of i] d[of 10] f b k small_word[OF b(1)] by (auto simp: lnk_def)
  next
    case False
    then show ?thesis using d[of i] d[of 10] k index_block(2)[OF inv g] by (auto simp: lnk_def)
  qed
qed

lemma put_at_kept:
  assumes p: "is_place s p" and l: "\<forall>g. named s g \<longrightarrow> g \<noteq> f \<longrightarrow> (\<forall>i. lnk (put_num p w s) g i = lnk s g i) \<and> (\<forall>k. p \<noteq> In g k)"
  shows "others_kept f s (put_num p w s)"
proof -
  have "fld (put_num p w s) g k = fld s g k" if g: "named s g" "g \<noteq> f" "k < 64" for g k
  proof (cases "34 \<le> k \<and> k < 45")
    case True
    then have "is_place s (In g (k - 34))" "34 + (k - 34) = k" using g by (auto simp: named_def)
    then show ?thesis using at_put_at[OF p, of "In g (k - 34)" w] l g by auto
  next
    case False
    have "is_file s g" using g(1) by (simp add: named_def)
    from fld_put_at[OF p this g(3)] False show ?thesis by auto
  qed
  then show ?thesis using l put_at_blk[OF p] by (auto simp: others_kept_def)
qed

text \<open>The blocks used so far, with one for the index block of \<open>f\<close> when it has none.\<close>

definition used_for :: "img \<Rightarrow> loc \<Rightarrow> nat" where
  "used_for s f = nextbno s + (if fld s f 44 = 0 then 1 else 0)"

lemma lnk_free:
  assumes inv: "img_inv s P" and f: "is_file s f" "nb < 1024" "lnk s f nb = 0"
  shows "nb < 10 \<Longrightarrow> num_at s (In f nb) = 0" "10 \<le> nb \<Longrightarrow> fld s f 44 \<noteq> 0 \<Longrightarrow> num_at s (Ix (unat (fld s f 44)) nb) = 0"
  using f by (simp_all add: lnk_def)

lemma save_block_link_ok:
  assumes inv: "img_inv s P" and b: "b \<in> P" "btype s b \<noteq> BLOCK_INDEX" and f: "named s f" and n: "nb < 1024" "lnk s f nb = 0"
    and room: "used_for s f \<le> NBLOCK"
  obtains s' where "save_block_link f nb b s = Ret s'" "img_inv s' (P - {b})" "others_kept f s s'" "used_for s' f \<le> used_for s f"
    "\<forall>i < 1024. lnk s' f i = (if i = nb then of_nat b else lnk s f i)" "\<forall>k < 34. fld s' f k = fld s f k" "named s' f"
    "\<forall>g. is_file s g \<longrightarrow> named s' g = named s g" "\<forall>g. named s' g \<longrightarrow> named s g"
proof -
  have uz: "unused_zero t" if "img_inv t Q" for t Q using that by (simp add: img_inv_def)
  have ff: "is_file s f" using f by (simp add: named_def)
  note fin = that
  show ?thesis
  proof (cases "nb < 10")
    case True
    let ?s = "put_num (In f nb) (of_nat b) s"
    have p: "is_place s (In f nb)" using ff True by simp
    have l: "lnk ?s g i = (if g = f \<and> i = nb then of_nat b else lnk s g i)" if "is_file s g" for g i
      by (rule lnk_put_direct[OF inv ff True that])
    show ?thesis
    proof (rule fin)
      show "save_block_link f nb b s = Ret ?s" using True n by (simp add: save_block_link_def)
      show "img_inv ?s (P - {b})"
        by (rule link_ok[OF inv p lnk_free(1)[OF inv ff n True] b(1)]) (use b(2) f True in auto)
      show "others_kept f s ?s" by (rule put_at_kept[OF p]) (use l in \<open>auto simp: named_def\<close>)
      show "used_for ?s f \<le> used_for s f" using at_put_at[OF p, of "In f 10"] ff True by (simp add: used_for_def)
      show "\<forall>i < 1024. lnk ?s f i = (if i = nb then of_nat b else lnk s f i)" using l[OF ff] by simp
      show k: "\<forall>k < 34. fld ?s f k = fld s f k" using fld_put_at[OF p ff] by simp
      show "named ?s f" using f k by (simp add: named_def)
      show "\<forall>g. is_file s g \<longrightarrow> named ?s g = named s g" "\<forall>g. named ?s g \<longrightarrow> named s g"
        using unused_put_at(1)[OF uz[OF inv] p] f by simp_all
    qed
  next
    case False
    have two: "thesis" if t: "img_inv t P" "others_kept f s t" "fld t f 44 \<noteq> 0" "nextbno t \<le> used_for s f" "lnk t f = lnk s f" "\<forall>k < 34. fld t f k = fld s f k"
        "save_block_link f nb b s = Ret (put_num (Ix (unat (fld t f 44)) nb) (of_nat b) t)" "\<forall>g. is_file s g \<longrightarrow> named t g = named s g"
        "\<forall>g. named t g \<longrightarrow> named s g" for t
    proof -
      let ?x = "unat (fld t f 44)"
      let ?s = "put_num (Ix ?x nb) (of_nat b) t"
      have tf: "is_file t f" using is_file_kept[OF t(2) ff] .
      have tn: "named t f" using f tf t(6) by (simp add: named_def)
      have p: "is_place t (Ix ?x nb)" using index_block(2,4)[OF t(1) tf t(3)] n by simp
      have l: "lnk ?s g i = (if g = f \<and> i = nb then of_nat b else lnk t g i)" if "is_file t g" for g i
        by (rule lnk_put_index[OF t(1) tf t(3) _ n(1) that]) (use False in simp)
      have bt: "btype t b \<noteq> BLOCK_INDEX" using b t(2) img_invD(9)[OF inv] by (auto simp: others_kept_def)
      show thesis
      proof (rule fin)
        show "save_block_link f nb b s = Ret ?s" by (rule t(7))
        show "img_inv ?s (P - {b})"
          by (rule link_ok[OF t(1) p lnk_free(2)[OF t(1) tf n(1) _ _ t(3)] b(1)]) (use bt False n t(5) in auto)
        have "others_kept f t ?s" by (rule put_at_kept[OF p]) (use l in \<open>auto simp: named_def\<close>)
        then show "others_kept f s ?s" by (rule others_kept_trans[OF t(2)]) simp
        have "fld ?s f 44 = fld t f 44" using at_put_at[OF p, of "In f 10" "of_nat b"] tf by simp
        then show "used_for ?s f \<le> used_for s f" using t(3,4) by (simp add: used_for_def)
        show "\<forall>i < 1024. lnk ?s f i = (if i = nb then of_nat b else lnk s f i)" using l[OF tf] t(5) by simp
        show k: "\<forall>k < 34. fld ?s f k = fld s f k" using fld_put_at[OF p tf] t(6) by simp
        show "named ?s f" using tn fld_put_at[OF p tf, of 0] unfolding named_def put_at_rest by simp
        show "\<forall>g. is_file s g \<longrightarrow> named ?s g = named s g" "\<forall>g. named ?s g \<longrightarrow> named s g"
          using unused_put_at(1)[OF uz[OF t(1)] p] t(8,9) by simp_all
      qed
    qed
    show ?thesis
    proof (cases "fld s f 44 = 0")
      case True
      let ?b = "nextbno s" and ?s = "new_block BLOCK_INDEX (\<lambda>_. 0) s"
      let ?t = "put_num (In f 10) (of_nat ?b) ?s"
      have lt: "?b < NBLOCK" using room True by (simp add: used_for_def)
      have I: "img_inv ?s (insert ?b P)" "others_kept f s ?s" using new_block_ok[OF inv lt] by simp_all
      note nf = new_block_file[OF ff]
      have p: "is_place ?s (In f 10)" using nf(1) by simp
      have sm: "?b < 1024" "unat (of_nat ?b :: u32) = ?b" using lt small_word by (simp_all add: NBLOCK_def)
      have x: "fld ?t f 44 = of_nat ?b" using at_put_at[OF p p, of "of_nat ?b"] by simp
      have nb: "btype ?s ?b = BLOCK_INDEX" "blk ?s ?b = (\<lambda>_. 0)" by (simp_all add: new_block_def)
      have l: "lnk ?t g i = lnk ?s g i" if "is_file ?s g" for g i
        by (rule lnk_put_indirect[OF I(1) nf(1) _ sm(1) nb that]) (simp add: nf(2) True)
      have "?b \<notin> P" using img_invD(9)[OF inv] by auto
      then have it: "img_inv ?t P"
        using link_ok[OF I(1) p _ insertI1] nb(1) nf True f by simp
      show ?thesis
      proof (rule two[OF it])
        show "others_kept f s ?t"
          by (rule others_kept_trans[OF I(2) put_at_kept[OF p, where f = f]]) (use l in \<open>auto simp: named_def\<close>)
        show "fld ?t f 44 \<noteq> 0" using x sm img_invD(1)[OF inv] by auto
        show "nextbno ?t \<le> used_for s f" using True by (simp add: used_for_def new_block_def)
        show "lnk ?t f = lnk s f" using l[OF nf(1)] new_block_lnk[OF inv ff] by auto
        show "\<forall>k < 34. fld ?t f k = fld s f k" using fld_put_at[OF p nf(1)] nf(2) by simp
        show "save_block_link f nb b s = Ret (put_num (Ix (unat (fld ?t f 44)) nb) (of_nat b) ?t)"
          using False n True lt x sm next_block_eq[OF inv lt, of BLOCK_INDEX] by (simp add: save_block_link_def Let_def)
        show "\<forall>g. is_file s g \<longrightarrow> named ?t g = named s g" "\<forall>g. named ?t g \<longrightarrow> named s g"
          using unused_put_at(1)[OF uz[OF I(1)] p] new_block_file(3) new_block_named f nf by simp_all
      qed
    next
      case nz: False
      have "unat (fld s f 44) < NBLOCK" using index_block(4)[OF inv ff nz] img_invD(2)[OF inv] by simp
      then have "save_block_link f nb b s = Ret (put_num (Ix (unat (fld s f 44)) nb) (of_nat b) s)"
        using False n nz by (simp add: save_block_link_def Let_def)
      from two[OF inv others_kept_refl nz _ refl _ this] show ?thesis by (simp add: used_for_def)
    qed
  qed
qed

section \<open>Fields and names\<close>

lemma set_field_ok:
  assumes inv: "img_inv s P" and f: "is_file s f" "k < 34" and nm: "named (set_fld f k w s) f"
  shows "img_inv (set_fld f k w s) P" "others_kept f s (set_fld f k w s)" "is_file s g \<Longrightarrow> lnk (set_fld f k w s) g i = lnk s g i"
proof -
  let ?s = "set_fld f k w s"
  have fl: "fld ?s g j = (if g = f \<and> j = k then w else fld s g j)" if "is_file s g" "j < 64" for g j
    using fld_set_fld[of s g f k j w] f that is_file_slot[of s g] is_file_slot[of s f] by auto
  have ix: "blk ?s x = blk s x" if "btype s x \<noteq> BLOCK_FILE \<or> nextbno s \<le> x" for x using blk_set_fld[OF f(1) that] .
  have at: "num_at ?s p = num_at s p" if "is_place s p" for p
  proof (cases p)
    case (In g j)
    then show ?thesis using that fl[of g "34 + j"] f(2) by simp
  next
    case (Ix x j)
    then show ?thesis using that ix[of x] by (simp add: block_types)
  qed
  have pl: "is_place ?s p = is_place s p" for p by (cases p) simp_all
  have "geometry ?s" using inv ix by (auto simp: img_inv_def geometry_def block_types)
  moreover have "linked ?s P"
  proof -
    have "linked s P" using inv by (simp add: img_inv_def)
    then show ?thesis unfolding linked_def pl using at by (simp cong: conj_cong imp_cong)
  qed
  moreover have "unused_zero ?s"
    unfolding unused_zero_def
  proof (intro allI impI)
    fix g and j :: nat
    assume g: "is_file ?s g" "\<not> named ?s g" "j < 64"
    then have "g \<noteq> f" "is_file s g" using nm by auto
    moreover have "\<not> named s g" using g calculation fl[of g 0] by (simp add: named_def)
    ultimately show "fld ?s g j = 0" using fl g(3) img_invD(8)[OF inv] by simp
  qed
  ultimately show "img_inv ?s P" using inv by (simp add: img_inv_def)
  show l: "lnk ?s g i = lnk s g i" if "is_file s g" for g i
  proof (cases "fld s g 44 = 0")
    case True
    then show ?thesis using fl[OF that, of "34 + i"] fl[OF that, of 44] f(2) by (simp add: lnk_def)
  next
    case False
    then show ?thesis using fl[OF that, of "34 + i"] fl[OF that, of 44] f(2) ix index_block(2)[OF inv that] by (simp add: lnk_def block_types)
  qed
  show "others_kept f s ?s"
    using l fl ix by (auto simp: others_kept_def named_def block_types)
qed

lemma fld_set [simp]: "is_file s f \<Longrightarrow> k < 64 \<Longrightarrow> j < 64 \<Longrightarrow> fld (set_fld f k w s) f j = (if j = k then w else fld s f j)"
  using fld_set_fld[of s f f k j w] is_file_slot[of s f] by simp

definition name_byte_at :: "img \<Rightarrow> loc \<Rightarrow> nat \<Rightarrow> u8" where
  "name_byte_at s f j = word_byte (fld s f (j div 4)) (j mod 4)"

lemma put_name_ok:
  "img_inv s P \<Longrightarrow> is_file s f \<Longrightarrow> j + length bs \<le> 128 \<Longrightarrow> (if j = 0 then bs \<noteq> [] \<and> hd bs \<noteq> 0 else named s f) \<Longrightarrow>
   img_inv (put_name f j bs s) P \<and> others_kept f s (put_name f j bs s) \<and> named (put_name f j bs s) f \<and> nextbno (put_name f j bs s) = nextbno s \<and>
   lnk (put_name f j bs s) f = lnk s f \<and> (\<forall>k. 32 \<le> k \<longrightarrow> k < 64 \<longrightarrow> fld (put_name f j bs s) f k = fld s f k) \<and>
   (\<forall>i < 128. name_byte_at (put_name f j bs s) f i = (if j \<le> i \<and> i < j + length bs then bs ! (i - j) else name_byte_at s f i))"
proof (induction bs arbitrary: j s)
  case Nil
  then show ?case by (cases "j = 0") (auto simp: named_def)
next
  case (Cons b bs)
  let ?w = "set_word_byte (j mod 4) b (fld s f (j div 4))"
  let ?s = "set_fld f (j div 4) ?w s"
  have f: "is_file s f" and inv: "img_inv s P" and k: "j div 4 < 32" "j < 128" using Cons.prems by simp_all
  have bt: "name_byte_at ?s f i = (if i = j then b else name_byte_at s f i)" if "i < 128" for i
  proof -
    have "(i div 4 = j div 4 \<and> i mod 4 = j mod 4) = (i = j)" by (metis div_mult_mod_eq)
    moreover have "i div 4 < 64" "j div 4 < 64" using that k by simp_all
    ultimately show ?thesis using f that by (auto simp: name_byte_at_def word_byte_set)
  qed
  have nm: "named ?s f"
  proof (cases "j = 0")
    case True
    then show ?thesis using f bt[of 0] Cons.prems(4) by (simp add: named_def name_byte_at_def)
  next
    case False
    then show ?thesis using Cons.prems(4) bt[of 0] f by (simp add: named_def name_byte_at_def)
  qed
  note st = set_field_ok[OF inv f _ nm]
  have s1: "img_inv ?s P" "others_kept f s ?s" "lnk ?s f = lnk s f" using st f k by auto
  have fl: "\<forall>k. 32 \<le> k \<longrightarrow> k < 64 \<longrightarrow> fld ?s f k = fld s f k" using f k by auto
  have IH: "img_inv (put_name f (Suc j) bs ?s) P \<and> others_kept f ?s (put_name f (Suc j) bs ?s) \<and> named (put_name f (Suc j) bs ?s) f \<and>
     nextbno (put_name f (Suc j) bs ?s) = nextbno ?s \<and> lnk (put_name f (Suc j) bs ?s) f = lnk ?s f \<and>
     (\<forall>k. 32 \<le> k \<longrightarrow> k < 64 \<longrightarrow> fld (put_name f (Suc j) bs ?s) f k = fld ?s f k) \<and>
     (\<forall>i < 128. name_byte_at (put_name f (Suc j) bs ?s) f i = (if Suc j \<le> i \<and> i < Suc j + length bs then bs ! (i - Suc j) else name_byte_at ?s f i))"
    by (rule Cons.IH[OF s1(1)]) (use f Cons.prems(3) nm in simp_all)
  have nb: "name_byte_at (put_name f (Suc j) bs ?s) f i = (if j \<le> i \<and> i < j + length (b # bs) then (b # bs) ! (i - j) else name_byte_at s f i)" if "i < 128" for i
    using IH bt[OF that] that by (cases "i = j") (auto simp: nth_Cons')
  show ?case
    unfolding put_name.simps using IH s1 fl nb others_kept_trans[OF s1(2), of f] by auto
qed

lemma set_fld_named: "is_file s f \<Longrightarrow> k < 64 \<Longrightarrow> named (set_fld f k w s) g \<Longrightarrow> named s g \<or> g = f"
  using fld_set_fld[of s g f k 0 w] is_file_slot[of s g] is_file_slot[of s f] by (auto simp: named_def)

lemma put_name_named: "is_file s f \<Longrightarrow> j + length bs \<le> 128 \<Longrightarrow> named (put_name f j bs s) g \<Longrightarrow> named s g \<or> g = f"
proof (induction bs arbitrary: j s)
  case (Cons b bs)
  let ?s = "set_fld f (j div 4) (set_word_byte (j mod 4) b (fld s f (j div 4))) s"
  have k: "j div 4 < 64" using Cons.prems(2) by simp
  have "named ?s g \<or> g = f" by (rule Cons.IH[of ?s "Suc j"]) (use Cons.prems in simp_all)
  then show ?case using set_fld_named[OF Cons.prems(1) k] by blast
qed simp

section \<open>Contents\<close>

definition block_byte_at :: "block \<Rightarrow> nat \<Rightarrow> u8" where
  "block_byte_at c k = word_byte (c (k div 4)) (k mod 4)"

definition nblocks :: "nat \<Rightarrow> nat" where "nblocks n = (n + 4095) div 4096"

lemma put_block_ok:
  "\<exists>c. put_block b j vs s = s\<lparr>blk := (blk s)(b := c)\<rparr> \<and>
     (\<forall>k. block_byte_at c k = (if j \<le> k \<and> k < j + length vs then vs ! (k - j) else block_byte_at (blk s b) k))"
proof (induction vs arbitrary: j s)
  case Nil
  have "s = s\<lparr>blk := (blk s)(b := blk s b)\<rparr>" by simp
  moreover have "(if j \<le> k \<and> k < j + length [] then ([] :: u8 list) ! (k - j) else x) = x" for k x by auto
  ultimately show ?case by (intro exI[of _ "blk s b"]) simp
next
  case (Cons v vs)
  let ?c = "(blk s b)(j div 4 := set_word_byte (j mod 4) v (blk s b (j div 4)))"
  let ?s = "s\<lparr>blk := (blk s)(b := ?c)\<rparr>"
  obtain c where c: "put_block b (Suc j) vs ?s = ?s\<lparr>blk := (blk ?s)(b := c)\<rparr>"
    "\<forall>k. block_byte_at c k = (if Suc j \<le> k \<and> k < Suc j + length vs then vs ! (k - Suc j) else block_byte_at (blk ?s b) k)"
    using Cons.IH[of "Suc j" ?s] by blast
  have "block_byte_at ?c k = (if k = j then v else block_byte_at (blk s b) k)" for k
  proof -
    have "(k div 4 = j div 4 \<and> k mod 4 = j mod 4) = (k = j)" by (metis div_mult_mod_eq)
    then show ?thesis by (auto simp: block_byte_at_def word_byte_set)
  qed
  then have "\<forall>k. block_byte_at c k = (if j \<le> k \<and> k < j + length (v # vs) then (v # vs) ! (k - j) else block_byte_at (blk s b) k)"
    using c(2) by (auto simp: nth_Cons')
  moreover have "put_block b j (v # vs) s = s\<lparr>blk := (blk s)(b := c)\<rparr>" using c(1) by simp
  ultimately show ?case by blast
qed

text \<open>Byte \<open>j\<close> of the file, through its links.\<close>

definition file_byte_at :: "img \<Rightarrow> loc \<Rightarrow> nat \<Rightarrow> u8" where
  "file_byte_at s f j = block_byte_at (blk s (unat (lnk s f (j div 4096)))) (j mod 4096)"

lemma lnk_used:
  assumes inv: "img_inv s P" and f: "is_file s f" "i < 1024" "lnk s f i \<noteq> 0"
  shows "3 \<le> unat (lnk s f i)" "unat (lnk s f i) < nextbno s" "btype s (unat (lnk s f i)) \<noteq> BLOCK_INDEX"
proof -
  let ?p = "if i < 10 then In f i else Ix (unat (fld s f 44)) i"
  have p: "is_place s ?p" "num_at s ?p = lnk s f i" using f index_block(1)[OF inv f(1)] by (auto simp: lnk_def split: if_splits)
  then show "3 \<le> unat (lnk s f i)" "unat (lnk s f i) < nextbno s" "btype s (unat (lnk s f i)) \<noteq> BLOCK_INDEX"
    using img_invD(4,5)[OF inv p(1)] f(3) by (auto split: if_splits)
qed

lemma copy_blocks_ok:
  "img_inv s P \<Longrightarrow> named s f \<Longrightarrow> \<forall>i. iblk \<le> i \<longrightarrow> i < 1024 \<longrightarrow> lnk s f i = 0 \<Longrightarrow> iblk + nblocks (length bs) \<le> 1024 \<Longrightarrow>
   used_for s f + nblocks (length bs) \<le> NBLOCK \<Longrightarrow>
   \<exists>s'. copy_blocks f iblk bs s = Ret s' \<and> img_inv s' P \<and> others_kept f s s' \<and> named s' f \<and> used_for s' f \<le> used_for s f + nblocks (length bs) \<and>
     (\<forall>k < 34. fld s' f k = fld s f k) \<and> (\<forall>i < 1024. lnk s' f i \<noteq> 0 \<longleftrightarrow> (if iblk \<le> i then i < iblk + nblocks (length bs) else lnk s f i \<noteq> 0)) \<and>
     (\<forall>i < iblk. lnk s' f i = lnk s f i) \<and>
     (\<forall>j < length bs. btype s' (unat (lnk s' f (iblk + j div 4096))) = BLOCK_DATA \<and>
        block_byte_at (blk s' (unat (lnk s' f (iblk + j div 4096)))) (j mod 4096) = bs ! j) \<and> (\<forall>g. named s' g \<longrightarrow> named s g)"
proof (induction "length bs" arbitrary: bs iblk s rule: less_induct)
  case less
  note inv = less.prems(1) and nm = less.prems(2) and free = less.prems(3) and le = less.prems(4) and room = less.prems(5)
  show ?case
  proof (cases "bs = []")
    case True
    then show ?thesis using less.prems by (simp add: copy_blocks.simps[of f iblk] nblocks_def)
  next
    case False
    let ?b = "nextbno s" and ?rest = "drop 4096 bs"
    have "nblocks (length bs) = Suc (nblocks (length bs - 4096))"
    proof (cases "length bs \<le> 4096")
      case True
      then have "(length bs + 4095) div 4096 = 1" using False by (intro div_nat_eqI) (simp_all add: Suc_le_eq)
      then show ?thesis using True by (simp add: nblocks_def)
    next
      case le: False
      then have "length bs + 4095 = length bs - 4096 + 4095 + 4096" by simp
      then show ?thesis unfolding nblocks_def by (metis Suc_eq_plus1 div_add_self2 zero_neq_numeral)
    qed
    then have nbs: "nblocks (length bs) = Suc (nblocks (length ?rest))" by simp
    obtain c where c: "put_block ?b 0 (take 4096 bs) s = s\<lparr>blk := (blk s)(?b := c)\<rparr>"
      "\<forall>k. block_byte_at c k = (if 0 \<le> k \<and> k < 0 + length (take 4096 bs) then take 4096 bs ! (k - 0) else block_byte_at (blk s ?b) k)"
      using put_block_ok[of ?b 0 "take 4096 bs" s] by blast
    let ?s1 = "new_block BLOCK_DATA c s"
    have ff: "is_file s f" using nm by (simp add: named_def)
    have lt: "?b < NBLOCK" using room nbs by (simp add: used_for_def)
    have I1: "img_inv ?s1 (insert ?b P)" "others_kept f s ?s1" using new_block_ok[OF inv lt] by simp_all
    have n1: "named ?s1 f" "lnk ?s1 f = lnk s f" "used_for ?s1 f = Suc (used_for s f)" "\<forall>k. fld ?s1 f k = fld s f k"
      using nm new_block_file[OF ff] new_block_lnk[OF inv ff] by (auto simp: used_for_def new_block_def)
    have b1: "btype ?s1 ?b = BLOCK_DATA" "blk ?s1 ?b = c" "?b < nextbno ?s1" by (simp_all add: new_block_def)
    have ib: "iblk < 1024" using le nbs by simp
    have f1: "lnk ?s1 f iblk = 0" using free ib by (simp add: n1(2))
    have u1: "used_for ?s1 f \<le> NBLOCK" using room nbs n1(3) by simp
    have nx: "btype ?s1 ?b \<noteq> BLOCK_INDEX" using b1 by (simp add: block_types)
    obtain s2 where s2: "save_block_link f iblk ?b ?s1 = Ret s2" "img_inv s2 (insert ?b P - {?b})" "others_kept f ?s1 s2" "used_for s2 f \<le> used_for ?s1 f"
      "\<forall>i < 1024. lnk s2 f i = (if i = iblk then of_nat ?b else lnk ?s1 f i)" "\<forall>k < 34. fld s2 f k = fld ?s1 f k" "named s2 f"
      "\<forall>g. is_file ?s1 g \<longrightarrow> named s2 g = named ?s1 g" "\<forall>g. named s2 g \<longrightarrow> named ?s1 g"
      by (rule save_block_link_ok[OF I1(1) insertI1 nx n1(1) ib f1 u1])
    have "?b \<notin> P" using img_invD(9)[OF inv] by auto
    then have inv2: "img_inv s2 P" using s2(2) by simp
    have b2: "btype s2 ?b = BLOCK_DATA" "blk s2 ?b = c" "?b < nextbno s2" using data_kept[OF s2(3) b1(3,1)] s2(3) b1 by (auto simp: others_kept_def)
    have sm: "unat (of_nat ?b :: u32) = ?b" "(of_nat ?b :: u32) \<noteq> 0" using lt small_word[of ?b] img_invD(1)[OF inv] by (auto simp: NBLOCK_def)
    have pre: "length ?rest < length bs" "\<forall>i. iblk + 1 \<le> i \<longrightarrow> i < 1024 \<longrightarrow> lnk s2 f i = 0" "iblk + 1 + nblocks (length ?rest) \<le> 1024"
      "used_for s2 f + nblocks (length ?rest) \<le> NBLOCK"
      using False s2(4,5) free le room nbs n1(2,3) by simp_all
    obtain s3 where s3: "copy_blocks f (iblk + 1) ?rest s2 = Ret s3" "img_inv s3 P" "others_kept f s2 s3" "named s3 f"
      "used_for s3 f \<le> used_for s2 f + nblocks (length ?rest)" "\<forall>k < 34. fld s3 f k = fld s2 f k"
      "\<forall>i < 1024. lnk s3 f i \<noteq> 0 \<longleftrightarrow> (if iblk + 1 \<le> i then i < iblk + 1 + nblocks (length ?rest) else lnk s2 f i \<noteq> 0)"
      "\<forall>i < iblk + 1. lnk s3 f i = lnk s2 f i"
      "\<forall>j < length ?rest. btype s3 (unat (lnk s3 f (iblk + 1 + j div 4096))) = BLOCK_DATA \<and>
         block_byte_at (blk s3 (unat (lnk s3 f (iblk + 1 + j div 4096)))) (j mod 4096) = ?rest ! j"
      "\<forall>g. named s3 g \<longrightarrow> named s2 g"
      using less.hyps[OF pre(1) inv2 s2(7) pre(2-4)] by blast
    have al: "next_block BLOCK_DATA (put_block ?b 0 (take BY2BLK bs) s) = Ret (?b, ?s1)"
      using lt c(1) by (simp add: next_block_def new_block_def)
    have run: "copy_blocks f iblk bs s = Ret s3"
      using False lt s2(1) s3(1) al by (simp add: copy_blocks.simps[of f iblk])
    have first: "lnk s3 f iblk = of_nat ?b" "blk s3 ?b = c" "btype s3 ?b = BLOCK_DATA"
      using data_kept[OF s3(3) b2(3,1)] s3(8) s2(5) ib b2 by auto
    have data: "btype s3 (unat (lnk s3 f (iblk + j div 4096))) = BLOCK_DATA \<and>
        block_byte_at (blk s3 (unat (lnk s3 f (iblk + j div 4096)))) (j mod 4096) = bs ! j" if j: "j < length bs" for j
    proof (cases "j < 4096")
      case True
      then show ?thesis using first sm c(2) j by simp
    next
      case False
      then have e: "iblk + 1 + (j - 4096) div 4096 = iblk + j div 4096" "(j - 4096) mod 4096 = j mod 4096"
        by (simp_all add: le_div_geq le_mod_geq)
      have "j - 4096 < length ?rest" using j False by simp
      from s3(9)[rule_format, OF this] show ?thesis unfolding e using j False by simp
    qed
    have "others_kept f s s3" using others_kept_trans[OF others_kept_trans[OF I1(2) s2(3)] s3(3)] by simp
    moreover have "lnk s3 f i \<noteq> 0 \<longleftrightarrow> (if iblk \<le> i then i < iblk + nblocks (length bs) else lnk s f i \<noteq> 0)" if "i < 1024" for i
      using s3(7) s2(5) that nbs n1(2) sm first(1) by (cases "i = iblk") auto
    moreover have "\<forall>i < iblk. lnk s3 f i = lnk s f i" using s3(8) s2(5) n1(2) ib by simp
    moreover have "named s g" if "named s3 g" for g
      using new_block_named[of BLOCK_DATA c s g] s2(9) s3(10) that by (simp add: block_types)
    ultimately show ?thesis using run s3(2,4-6) s2(4,6) n1(3,4) nbs data by auto
  qed
qed

section \<open>Directories\<close>

definition dir_shape :: "img \<Rightarrow> loc \<Rightarrow> bool" where
  "dir_shape s f \<longleftrightarrow> (\<exists>n \<le> 1024. unat (fld s f 32) = n * 4096 \<and>
     (\<forall>i < n. lnk s f i \<noteq> 0 \<and> btype s (unat (lnk s f i)) = BLOCK_FILE) \<and> (\<forall>i. n \<le> i \<longrightarrow> i < 1024 \<longrightarrow> lnk s f i = 0))"

definition in_dir :: "img \<Rightarrow> loc \<Rightarrow> loc \<Rightarrow> bool" where
  "in_dir s d g \<longleftrightarrow> (\<exists>i j. i < unat (fld s d 32) div 4096 \<and> j < 16 \<and> g = Slot (unat (lnk s d i)) j)"

text \<open>What a directory may have become when files were created in it.\<close>

definition dir_grows :: "loc \<Rightarrow> img \<Rightarrow> img \<Rightarrow> bool" where
  "dir_grows d s s' \<longleftrightarrow> others_kept d s s' \<and> (\<forall>k. k < 32 \<or> k = 33 \<longrightarrow> fld s' d k = fld s d k) \<and> (\<forall>g. in_dir s d g \<longrightarrow> in_dir s' d g)"

lemma dir_grows_refl: "dir_grows d s s"
  by (simp add: dir_grows_def)

lemma dir_grows_trans: "dir_grows d s s1 \<Longrightarrow> dir_grows d s1 s2 \<Longrightarrow> dir_grows d s s2"
  using others_kept_trans[of d s s1 d s2] by (simp add: dir_grows_def)

lemma lnk_inj:
  assumes inv: "img_inv s P" and f: "is_file s f" "i < 1024" "j < 1024" "lnk s f i \<noteq> 0" "lnk s f i = lnk s f j"
  shows "i = j"
proof -
  let ?p = "\<lambda>i. if i < 10 then In f i else Ix (unat (fld s f 44)) i"
  have p: "is_place s (?p i) \<and> num_at s (?p i) = lnk s f i" if "lnk s f i \<noteq> 0" "i < 1024" for i
    using that f(1) index_block(1)[OF inv f(1)] by (auto simp: lnk_def split: if_splits)
  have "?p i = ?p j" using p[of i] p[of j] f img_invD(6)[OF inv, of "?p i" "?p j"] by simp
  then show ?thesis by (auto split: if_splits)
qed

lemma dir_size:
  assumes inv: "img_inv s P" and f: "is_file s f" "n \<le> 1024" "\<forall>i < n. lnk s f i \<noteq> 0"
  shows "n + 3 \<le> nextbno s"
proof -
  have "inj_on (\<lambda>i. unat (lnk s f i)) {..<n}"
    using lnk_inj[OF inv f(1)] f(2,3) by (auto simp: inj_on_def word_unat_eq_iff[symmetric])
  moreover have "(\<lambda>i. unat (lnk s f i)) ` {..<n} \<subseteq> {3..<nextbno s}" using lnk_used[OF inv f(1)] f(2,3) by auto
  ultimately have "card {..<n} \<le> card {3..<nextbno s}" by (intro card_inj_on_le) auto
  then show ?thesis using img_invD(1)[OF inv] by simp
qed

lemma dir_ok_kept:
  assumes inv: "img_inv s P" and k: "others_kept f s s'" and g: "named s g" "g \<noteq> f" "dir_shape s g"
  shows "dir_shape s' g"
proof -
  obtain n where n: "n \<le> 1024" "unat (fld s g 32) = n * 4096" "\<forall>i < n. lnk s g i \<noteq> 0 \<and> btype s (unat (lnk s g i)) = BLOCK_FILE"
    "\<forall>i. n \<le> i \<longrightarrow> i < 1024 \<longrightarrow> lnk s g i = 0" using g(3) unfolding dir_shape_def by blast
  have l: "fld s' g 32 = fld s g 32" "\<forall>i < 1024. lnk s' g i = lnk s g i" using k g by (auto simp: others_kept_def)
  have "btype s' (unat (lnk s g i)) = btype s (unat (lnk s g i))" if "i < n" for i
  proof -
    have "is_file s g" using g(1) by (simp add: named_def)
    from lnk_used(2)[OF inv this, of i] that n k show ?thesis by (simp add: others_kept_def)
  qed
  then show ?thesis unfolding dir_shape_def l(1) using n l(2) by (intro exI[of _ n]) auto
qed

lemma links_typed_kept:
  assumes inv: "img_inv s P" and k: "others_kept f s s'" and g: "named s g" "g \<noteq> f" "links_typed s g"
  shows "links_typed s' g"
proof -
  have l: "fld s' g 33 = fld s g 33" "\<forall>i < 1024. lnk s' g i = lnk s g i" using k g by (auto simp: others_kept_def)
  have f: "is_file s g" using g(1) by (simp add: named_def)
  have "btype s' (unat (lnk s g i)) = btype s (unat (lnk s g i))" if "i < 1024" "lnk s g i \<noteq> 0" for i
    using lnk_used(2)[OF inv f that] k by (simp add: others_kept_def)
  then show ?thesis using g(3) l by (simp add: links_typed_def)
qed

lemma dir_links_typed: "dir_shape s f \<Longrightarrow> fld s f 33 = FTYPE_DIR \<Longrightarrow> links_typed s f"
  unfolding dir_shape_def links_typed_def by (metis not_le)

text \<open>The files created in the directory \<open>d\<close> are linked to blocks of the right type.\<close>

definition new_typed :: "loc \<Rightarrow> img \<Rightarrow> img \<Rightarrow> bool" where
  "new_typed d s s' \<longleftrightarrow> (\<forall>g. named s' g \<longrightarrow> \<not> named s g \<longrightarrow> g \<noteq> d \<longrightarrow> links_typed s' g)"

lemma new_typed_trans:
  "img_inv s1 P \<Longrightarrow> new_typed d s s1 \<Longrightarrow> others_kept d s1 s2 \<Longrightarrow> new_typed d s1 s2 \<Longrightarrow> new_typed d s s2"
  using links_typed_kept[of s1 P d s2] unfolding new_typed_def by blast

lemma block_link_eq:
  assumes inv: "img_inv s P" and f: "is_file s f" "i < 1024" "lnk s f i \<noteq> 0"
  shows "block_link s f i = Ret (unat (lnk s f i))" "unat (lnk s f i) < NBLOCK"
proof -
  show "unat (lnk s f i) < NBLOCK" using lnk_used(2)[OF inv f] img_invD(2)[OF inv] by simp
  show "block_link s f i = Ret (unat (lnk s f i))"
  proof (cases "i < 10")
    case False
    then have x: "fld s f 44 \<noteq> 0" using f(3) by (auto simp: lnk_def)
    then have "\<not> NBLOCK \<le> unat (fld s f 44)" using index_block(4)[OF inv f(1)] img_invD(2)[OF inv] by simp
    then show ?thesis using False x f(2) by (simp add: block_link_def lnk_def Let_def)
  qed (simp add: block_link_def lnk_def)
qed

lemma find_file_ok:
  assumes inv: "img_inv s P" and f: "is_file s d" and n: "n \<le> 1024" "\<forall>i < n. lnk s d i \<noteq> 0 \<and> btype s (unat (lnk s d i)) = BLOCK_FILE"
  shows "\<forall>i \<in> set is. i < n \<Longrightarrow> find_file is d s = Ret None \<or>
    (\<exists>i j. find_file is d s = Ret (Some (Slot (unat (lnk s d i)) j)) \<and> i < n \<and> j < 16 \<and> \<not> named s (Slot (unat (lnk s d i)) j))"
proof (induction "is")
  case (Cons i "is")
  have i: "i < n" "lnk s d i \<noteq> 0" "i < 1024" using Cons.prems n by auto
  note b = block_link_eq[OF inv f i(3,2)]
  show ?case
  proof (cases "free_slot s (unat (lnk s d i))")
    case None
    then show ?thesis using Cons b by simp
  next
    case (Some j)
    then have "j < 16 \<and> word_byte (fld s (Slot (unat (lnk s d i)) j) 0) 0 = 0" by (auto simp: free_slot_def find_Some_iff)
    then show ?thesis using Some b i by (intro disjI2 exI[of _ i] exI[of _ j]) (simp add: named_def)
  qed
qed simp

lemma make_link_block_ok:
  assumes inv: "img_inv s {}" and d: "named s d" "dir_shape s d" and room: "nextbno s + 2 \<le> NBLOCK"
  obtains b s' where "make_link_block d (unat (fld s d 32) div BY2BLK) s = Ret (b, s')" "img_inv s' {}" "dir_grows d s s'" "named s' d" "dir_shape s' d"
    "nextbno s' \<le> nextbno s + 2" "is_file s' (Slot b 0)" "\<not> named s' (Slot b 0)" "\<not> named s (Slot b 0)" "in_dir s' d (Slot b 0)"
    "\<forall>g. named s' g \<longrightarrow> named s g"
proof -
  obtain n where n: "n \<le> 1024" "unat (fld s d 32) = n * 4096" "\<forall>i < n. lnk s d i \<noteq> 0 \<and> btype s (unat (lnk s d i)) = BLOCK_FILE"
    "\<forall>i. n \<le> i \<longrightarrow> i < 1024 \<longrightarrow> lnk s d i = 0" using d(2) unfolding dir_shape_def by blast
  have df: "is_file s d" using d(1) by (simp add: named_def)
  let ?b = "nextbno s" and ?s1 = "new_block BLOCK_FILE (\<lambda>_. 0) s"
  have lt: "?b < NBLOCK" using room by simp
  have I1: "img_inv ?s1 {?b}" "others_kept d s ?s1" using new_block_ok[OF inv lt] by simp_all
  have n1: "named ?s1 d" "lnk ?s1 d = lnk s d" "\<forall>k. fld ?s1 d k = fld s d k" "nextbno ?s1 = Suc ?b"
    using d(1) new_block_file[OF df] new_block_lnk[OF inv df] by (auto simp: new_block_def)
  have b1: "btype ?s1 ?b = BLOCK_FILE" "is_file ?s1 (Slot ?b 0)" "\<not> named ?s1 (Slot ?b 0)" by (simp_all add: new_block_def named_def word_byte_def)
  have n1024: "n < 1024" using dir_size[OF inv df n(1)] n(3) room by (auto simp: NBLOCK_def)
  have u1: "used_for ?s1 d \<le> NBLOCK" using room n1(4) by (simp add: used_for_def)
  have nx: "btype ?s1 ?b \<noteq> BLOCK_INDEX" by (simp only: b1) (simp add: block_types)
  have z: "lnk ?s1 d n = 0" using n(4) n1024 n1(2) by simp
  obtain s2 where s2: "save_block_link d n ?b ?s1 = Ret s2" "img_inv s2 ({?b} - {?b})" "others_kept d ?s1 s2" "used_for s2 d \<le> used_for ?s1 d"
    "\<forall>i < 1024. lnk s2 d i = (if i = n then of_nat ?b else lnk ?s1 d i)" "\<forall>k < 34. fld s2 d k = fld ?s1 d k" "named s2 d"
    "\<forall>g. is_file ?s1 g \<longrightarrow> named s2 g = named ?s1 g" "\<forall>g. named s2 g \<longrightarrow> named ?s1 g"
    by (rule save_block_link_ok[OF I1(1) insertI1 nx n1(1) n1024 z u1])
  let ?w = "fld s2 d 32 + of_nat BY2BLK" and ?f = "Slot ?b 0"
  let ?s3 = "set_fld d 32 ?w s2"
  have d2: "is_file s2 d" using s2(7) by (simp add: named_def)
  have nm: "named ?s3 d" using s2(7) d2 by (simp add: named_def)
  have I2: "img_inv s2 {}" using s2(2) by simp
  note st = set_field_ok[OF I2 d2 _ nm]
  have fl: "fld ?s3 d k = (if k = 32 then ?w else fld s2 d k)" if "k < 64" for k using d2 that by simp
  have w: "unat ?w = Suc n * 4096"
  proof -
    have "fld s2 d 32 = fld s d 32" using s2(6) n1(3) by simp
    then have u: "unat (fld s2 d 32) = n * 4096" using n(2) by simp
    have "n * 4096 \<le> 1023 * 4096" using n1024 by simp
    then show ?thesis using u by (simp add: unat_word_ariths)
  qed
  have l3: "lnk ?s3 d i = (if i = n then of_nat ?b else lnk s d i)" if "i < 1024" for i using st(3)[OF _ d2] s2(5) that n1(2) by simp
  have sm: "unat (of_nat ?b :: u32) = ?b" "(of_nat ?b :: u32) \<noteq> 0" using lt small_word[of ?b] img_invD(1)[OF inv] by (auto simp: NBLOCK_def)
  have ok: "others_kept d s ?s3" using others_kept_trans[OF others_kept_trans[OF I1(2) s2(3)] st(2)] by simp
  have sz: "unat (fld ?s3 d 32) = Suc n * 4096" using fl[of 32] w by simp
  have ty: "btype ?s3 ?b = BLOCK_FILE" using s2(3) b1(1) n1(4) by (simp add: others_kept_def)
  have nf: "named ?s3 g = named s2 g" if "is_file s2 g" "g \<noteq> d" for g
    using fld_set_fld[of s2 g d 32 0] that d2 is_file_slot[of s2 g] is_file_slot[of s2 d] by (auto simp: named_def)
  have ne: "?f \<noteq> d" using b1(3) n1(1) by auto
  have f2: "is_file s2 ?f" using is_file_kept[OF s2(3) b1(2)] .
  show ?thesis
  proof (rule that[of ?b ?s3])
    show "make_link_block d (unat (fld s d 32) div BY2BLK) s = Ret (?b, ?s3)"
      using n(2) s2(1) next_block_eq[OF inv lt] by (simp add: make_link_block_def)
    show "img_inv ?s3 {}" "named ?s3 d" using st(1) nm by simp_all
    have "in_dir ?s3 d g" if h: "in_dir s d g" for g
    proof -
      obtain i j where "i < n" "j < 16" "g = Slot (unat (lnk s d i)) j" using h n(2) by (auto simp: in_dir_def)
      then show ?thesis unfolding in_dir_def sz using l3[of i] n1024 by (intro exI[of _ i] exI[of _ j]) simp
    qed
    then show "dir_grows d s ?s3" using ok fl s2(6) n1(3) by (auto simp: dir_grows_def)
    have "btype ?s3 (unat (lnk s d i)) = BLOCK_FILE" if "i < n" for i
      using n(3) that lnk_used(2)[OF inv df, of i] n1024 ok by (simp add: others_kept_def)
    then show "dir_shape ?s3 d" unfolding dir_shape_def sz using n l3 n1024 sm ty by (intro exI[of _ "Suc n"]) (auto simp: less_Suc_eq)
    show "nextbno ?s3 \<le> nextbno s + 2" using s2(4) n1(4) by (auto simp: used_for_def split: if_splits)
    show "is_file ?s3 ?f" using f2 by simp
    show "\<not> named ?s3 ?f" using nf[OF f2 ne] s2(8) b1(2,3) by simp
    show "\<not> named s ?f" by (simp add: named_def)
    show "in_dir ?s3 d ?f" unfolding in_dir_def sz using l3[of n] n1024 sm by (intro exI[of _ n] exI[of _ 0]) simp
    have "named s g" if h: "named ?s3 g" for g
    proof (rule new_block_named)
      have "named s2 g" using set_fld_named[OF d2 _ h] s2(7) by auto
      then show "named ?s1 g" using s2(9) by simp
    qed simp
    then show "\<forall>g. named ?s3 g \<longrightarrow> named s g" by simp
  qed
qed

lemma create_file_ok:
  assumes inv: "img_inv s {}" and d: "named s d" "dir_shape s d" and room: "nextbno s + 2 \<le> NBLOCK"
  obtains f s' where "create_file d s = Ret (f, s')" "img_inv s' {}" "dir_grows d s s'" "named s' d" "dir_shape s' d" "nextbno s' \<le> nextbno s + 2"
    "is_file s' f" "\<not> named s' f" "\<not> named s f" "in_dir s' d f" "\<forall>g. named s' g \<longrightarrow> named s g"
proof -
  obtain n where n: "n \<le> 1024" "unat (fld s d 32) = n * 4096" "\<forall>i < n. lnk s d i \<noteq> 0 \<and> btype s (unat (lnk s d i)) = BLOCK_FILE"
    using d(2) unfolding dir_shape_def by blast
  have df: "is_file s d" using d(1) by (simp add: named_def)
  have k: "unat (fld s d 32) div BY2BLK = n" using n(2) by simp
  consider "find_file [0..<n] d s = Ret None" | i j where "find_file [0..<n] d s = Ret (Some (Slot (unat (lnk s d i)) j))" "i < n" "j < 16"
      "\<not> named s (Slot (unat (lnk s d i)) j)" using find_file_ok[OF inv df n(1,3), of "[0..<n]"] by auto
  then show ?thesis
  proof cases
    case 1
    obtain b s' where "make_link_block d (unat (fld s d 32) div BY2BLK) s = Ret (b, s')" "img_inv s' {}" "dir_grows d s s'" "named s' d" "dir_shape s' d"
      "nextbno s' \<le> nextbno s + 2" "is_file s' (Slot b 0)" "\<not> named s' (Slot b 0)" "\<not> named s (Slot b 0)" "in_dir s' d (Slot b 0)"
      "\<forall>g. named s' g \<longrightarrow> named s g"
      by (rule make_link_block_ok[OF inv d room])
    then show ?thesis using 1 k by (intro that[of "Slot b 0" s']) (simp_all add: create_file_def)
  next
    case 2
    then have "is_file s (Slot (unat (lnk s d i)) j)" using n lnk_used(2)[OF inv df, of i] by simp
    then show ?thesis using 2 k inv d by (intro that[of "Slot (unat (lnk s d i)) j" s]) (auto simp: create_file_def dir_grows_refl in_dir_def n(2))
  qed
qed

section \<open>New entries\<close>

definition name_is :: "img \<Rightarrow> loc \<Rightarrow> u8 list \<Rightarrow> bool" where
  "name_is s f name \<longleftrightarrow> (\<forall>i < 128. name_byte_at s f i = (if i < length name then name ! i else 0))"

lemma dir_grows_other:
  assumes inv: "img_inv s1 P" and g: "dir_grows d s s1" "named s1 d" "dir_shape s1 d" and k: "others_kept f s1 s2" "\<not> named s f" "f \<noteq> d"
  shows "dir_grows d s s2" "named s2 d" "dir_shape s2 d" "in_dir s1 d h \<Longrightarrow> in_dir s2 d h"
proof -
  show "named s2 d" using named_kept[OF k(1) g(2)] k(3) by simp
  show "dir_shape s2 d" using dir_ok_kept[OF inv k(1) g(2) _ g(3)] k(3) by simp
  obtain n where n: "n \<le> 1024" "unat (fld s1 d 32) = n * 4096" using g(3) unfolding dir_shape_def by blast
  have l: "\<forall>k < 64. fld s2 d k = fld s1 d k" "\<forall>i < 1024. lnk s2 d i = lnk s1 d i" using k g(2) by (auto simp: others_kept_def)
  show i: "in_dir s2 d h" if h: "in_dir s1 d h" for h
  proof -
    obtain i j where "i < n" "j < 16" "h = Slot (unat (lnk s1 d i)) j" using h n(2) by (auto simp: in_dir_def)
    then show ?thesis using l n by (auto simp: in_dir_def)
  qed
  show "dir_grows d s s2"
    using g(1) l(1) i others_kept_trans[OF _ k(1), of d s] k(2) by (auto simp: dir_grows_def)
qed

lemma unused_file:
  assumes inv: "img_inv s P" and f: "is_file s f" "\<not> named s f"
  shows "\<forall>k < 64. fld s f k = 0" "lnk s f i = 0" "name_byte_at s f j = 0 \<or> 128 \<le> j"
proof -
  show z: "\<forall>k < 64. fld s f k = 0" using img_invD(8)[OF inv f] by simp
  then show "lnk s f i = 0" by (auto simp: lnk_def)
  show "name_byte_at s f j = 0 \<or> 128 \<le> j"
  proof (cases "j < 128")
    case True
    then have "j div 4 < 64" by simp
    then show ?thesis using z by (simp add: name_byte_at_def word_byte_def)
  qed simp
qed

lemma new_entry_ok:
  assumes inv: "img_inv s {}" and d: "named s d" "dir_shape s d" and room: "nextbno s + 2 \<le> NBLOCK"
    and nm: "bs \<noteq> []" "hd bs \<noteq> 0" "length bs \<le> 128" "ty = FTYPE_REG \<or> sz = 0"
  obtains f s0 s1 where "create_file d s = Ret (f, s0)" "s1 = set_fld f 33 ty (set_fld f 32 sz (put_name f 0 bs s0))"
    "img_inv s1 {}" "dir_grows d s s1" "named s1 d" "dir_shape s1 d" "nextbno s1 \<le> nextbno s + 2" "in_dir s1 d f"
    "named s1 f" "\<not> named s f" "f \<noteq> d" "\<forall>i. lnk s1 f i = 0" "fld s1 f 44 = 0" "fld s1 f 32 = sz" "fld s1 f 33 = ty"
    "\<forall>i < 128. name_byte_at s1 f i = (if i < length bs then bs ! i else 0)" "img_inv (put_name f 0 bs s0) {}" "is_file (put_name f 0 bs s0) f"
    "\<forall>k. 32 \<le> k \<longrightarrow> k < 64 \<longrightarrow> fld (put_name f 0 bs s0) f k = 0" "\<forall>i < 128. name_byte_at (put_name f 0 bs s0) f i = (if i < length bs then bs ! i else 0)"
    "\<forall>g. named s1 g \<longrightarrow> named s g \<or> g = f"
proof -
  obtain f s0 where s0: "create_file d s = Ret (f, s0)" "img_inv s0 {}" "dir_grows d s s0" "named s0 d" "dir_shape s0 d" "nextbno s0 \<le> nextbno s + 2"
    "is_file s0 f" "\<not> named s0 f" "\<not> named s f" "in_dir s0 d f" "\<forall>g. named s0 g \<longrightarrow> named s g" by (rule create_file_ok[OF inv d room])
  note u = unused_file[OF s0(2,7,8)]
  have z: "name_byte_at s0 f j = 0" if "j < 128" for j using u(3)[of j] that by simp
  have fd: "f \<noteq> d" using s0(4,8) by auto
  let ?a = "put_name f 0 bs s0"
  let ?b = "set_fld f 32 sz ?a"
  let ?c = "set_fld f 33 ty ?b"
  have a: "img_inv ?a {} \<and> others_kept f s0 ?a \<and> named ?a f \<and> nextbno ?a = nextbno s0 \<and>
   lnk ?a f = lnk s0 f \<and> (\<forall>k. 32 \<le> k \<longrightarrow> k < 64 \<longrightarrow> fld ?a f k = fld s0 f k) \<and>
   (\<forall>i < 128. name_byte_at ?a f i = (if 0 \<le> i \<and> i < 0 + length bs then bs ! (i - 0) else name_byte_at s0 f i))"
    by (rule put_name_ok[OF s0(2,7)]) (use nm in simp_all)
  have af: "is_file ?a f" using a by (simp add: named_def)
  have nb: "named ?b f" using a af by (simp add: named_def)
  then have nc: "named ?c f" using af by (simp add: named_def)
  have lt: "(32 :: nat) < 34" "(33 :: nat) < 34" by simp_all
  note b = set_field_ok[OF conjunct1[OF a] af lt(1) nb]
  have bf: "is_file ?b f" using af by simp
  note c = set_field_ok[OF b(1) bf lt(2) nc]
  have k: "others_kept f s0 ?c" using a others_kept_trans[OF others_kept_trans[OF _ b(2)] c(2), of f s0] by simp
  note g = dir_grows_other[OF s0(2-5) k s0(9) fd]
  show ?thesis
  proof (rule that[OF s0(1) refl])
    show "img_inv ?c {}" by (rule c(1))
    show "dir_grows d s ?c" "named ?c d" "dir_shape ?c d" "in_dir ?c d f" using g s0(10) by simp_all
    show "nextbno ?c \<le> nextbno s + 2" using a s0(6) by simp
    show "named ?c f" "\<not> named s f" "f \<noteq> d" using nc s0(9) fd by simp_all
    show "\<forall>i. lnk ?c f i = 0" using c(3)[OF bf] b(3)[OF af] a u(2) by simp
    show "fld ?c f 44 = 0" "fld ?c f 32 = sz" "fld ?c f 33 = ty" using af a u(1) by simp_all
    have "name_byte_at ?c f i = name_byte_at ?a f i" if "i < 128" for i
    proof -
      have "i div 4 < 32" using that by simp
      then show ?thesis using af by (simp add: name_byte_at_def)
    qed
    then show "\<forall>i < 128. name_byte_at ?c f i = (if i < length bs then bs ! i else 0)" using a z by simp
    show "img_inv ?a {}" "is_file ?a f" "\<forall>k. 32 \<le> k \<longrightarrow> k < 64 \<longrightarrow> fld ?a f k = 0" using a u(1) af by simp_all
    show "\<forall>i < 128. name_byte_at ?a f i = (if i < length bs then bs ! i else 0)" using a z by simp
    have "named s0 g \<or> g = f" if "named ?c g" for g
    proof (rule put_name_named[OF s0(7)])
      show "named ?a g" using set_fld_named[OF bf _ that] set_fld_named[OF af, of 32 sz g] a by auto
    qed (use nm in simp)
    then show "\<forall>g. named ?c g \<longrightarrow> named s g \<or> g = f" using s0(11) by blast
  qed
qed

section \<open>What the image holds\<close>

definition listed :: "u8 list \<Rightarrow> hnode \<Rightarrow> bool" where
  "listed name h \<longleftrightarrow> name \<noteq> [46] \<and> name \<noteq> [46, 46] \<and> h \<noteq> HNoDir"

text \<open>The file \<open>f\<close> is the host's \<open>h\<close>; \<open>f\<close> and everything below are in \<open>S\<close>.\<close>

inductive holds :: "img \<Rightarrow> loc set \<Rightarrow> loc \<Rightarrow> hnode \<Rightarrow> bool" for s S where
  reg: "f \<in> S \<Longrightarrow> named s f \<Longrightarrow> fld s f 33 = FTYPE_REG \<Longrightarrow> length bs \<le> 0x400000 \<Longrightarrow> unat (fld s f 32) = length bs \<Longrightarrow>
     \<forall>j < length bs. btype s (unat (lnk s f (j div 4096))) = BLOCK_DATA \<and> lnk s f (j div 4096) \<noteq> 0 \<and> file_byte_at s f j = bs ! j \<Longrightarrow> holds s S f (HFile bs)"
| noreg: "f \<in> S \<Longrightarrow> named s f \<Longrightarrow> fld s f 33 = FTYPE_REG \<Longrightarrow> fld s f 32 = - 1 \<Longrightarrow> holds s S f HNoFile"
| dir: "f \<in> S \<Longrightarrow> named s f \<Longrightarrow> fld s f 33 = FTYPE_DIR \<Longrightarrow> dir_shape s f \<Longrightarrow>
     (\<And>name h. (name, h) \<in> set es \<Longrightarrow> listed name h \<Longrightarrow> \<exists>g. in_dir s f g \<and> name_is s g (take 127 name) \<and> holds s S g h) \<Longrightarrow> holds s S f (HDir es)"

lemma holds_named: "holds s S f h \<Longrightarrow> f \<in> S \<and> named s f"
  by (cases rule: holds.cases) auto

lemma name_is_kept: "others_kept d s s' \<Longrightarrow> named s f \<Longrightarrow> f \<noteq> d \<Longrightarrow> name_is s f n \<Longrightarrow> name_is s' f n"
  by (auto simp: name_is_def name_byte_at_def others_kept_def)

lemma holds_kept:
  assumes "holds s S f h" and inv: "img_inv s P" and k: "others_kept d s s'" and S: "d \<notin> S" "S \<subseteq> S'"
  shows "holds s' S' f h"
  using assms(1)
proof (induction rule: holds.induct)
  case (reg f bs)
  then have fd: "f \<noteq> d" and n': "named s' f" using S named_kept[OF k] by auto
  have l: "\<forall>k < 64. fld s' f k = fld s f k" "\<forall>i < 1024. lnk s' f i = lnk s f i" using k reg(2) fd by (auto simp: others_kept_def)
  have ff: "is_file s f" using reg(2) by (simp add: named_def)
  have "btype s' (unat (lnk s' f (j div 4096))) = BLOCK_DATA \<and> lnk s' f (j div 4096) \<noteq> 0 \<and> file_byte_at s' f j = bs ! j" if j: "j < length bs" for j
  proof -
    have "j div 4096 < 1024" using j reg(4) by (simp add: less_mult_imp_div_less)
    moreover have "unat (lnk s f (j div 4096)) < nextbno s" by (rule lnk_used(2)[OF inv ff calculation]) (use reg(6) j in simp)
    ultimately show ?thesis using reg(6) j data_kept[OF k] l(2) by (simp add: file_byte_at_def)
  qed
  then show ?case using reg S n' l(1) by (intro holds.reg) auto
next
  case (noreg f)
  then have "f \<noteq> d" "named s' f" using S named_kept[OF k] by auto
  then show ?case using noreg S k by (intro holds.noreg) (auto simp: others_kept_def)
next
  case (dir f es)
  then have fd: "f \<noteq> d" and n': "named s' f" using S named_kept[OF k] by auto
  note g = dir_grows_other[OF inv dir_grows_refl dir(2,4)]
  have l: "\<forall>k < 64. fld s' f k = fld s f k" "\<forall>i < 1024. lnk s' f i = lnk s f i" using k dir(2) fd by (auto simp: others_kept_def)
  obtain n where n: "n \<le> 1024" "unat (fld s f 32) = n * 4096" using dir(4) unfolding dir_shape_def by blast
  have i: "in_dir s' f g" if h: "in_dir s f g" for g
  proof -
    obtain i j where "i < n" "j < 16" "g = Slot (unat (lnk s f i)) j" using h n(2) by (auto simp: in_dir_def)
    then show ?thesis using l n by (auto simp: in_dir_def)
  qed
  show ?case
  proof (rule holds.dir)
    fix name h
    assume e: "(name, h) \<in> set es" "listed name h"
    obtain g where g: "in_dir s f g" "name_is s g (take 127 name)" "holds s S g h" "holds s' S' g h" using dir(5)[OF e] by blast
    then have "g \<noteq> d" "named s g" using holds_named[OF g(3)] S by auto
    then show "\<exists>g. in_dir s' f g \<and> name_is s' g (take 127 name) \<and> holds s' S' g h" using g i name_is_kept[OF k] by blast
  qed (use dir S n' l(1) dir_ok_kept[OF inv k dir(2) fd dir(4)] in auto)
qed

section \<open>Files and directories of the host\<close>

definition good_name :: "u8 list \<Rightarrow> bool" where
  "good_name name \<longleftrightarrow> name \<noteq> [] \<and> 0 \<notin> set name \<and> 47 \<notin> set name"

fun tree_cost :: "hnode \<Rightarrow> nat" and entries_cost :: "(u8 list \<times> hnode) list \<Rightarrow> nat" where
  "tree_cost (HFile bs) = 3 + nblocks (length bs)"
| "tree_cost HNoFile = 2"
| "tree_cost HNoDir = 0"
| "tree_cost (HDir es) = 2 + entries_cost es"
| "entries_cost [] = 0"
| "entries_cost ((name, h) # es) = tree_cost h + entries_cost es"

fun tree_ok :: "hnode \<Rightarrow> bool" and entries_ok :: "(u8 list \<times> hnode) list \<Rightarrow> bool" where
  "tree_ok (HFile bs) = True"
| "tree_ok HNoFile = True"
| "tree_ok HNoDir = True"
| "tree_ok (HDir es) = entries_ok es"
| "entries_ok [] = True"
| "entries_ok ((name, h) # es) = (good_name name \<and> (length name < 128 \<or> (\<exists>es. h = HDir es) \<or> h = HNoDir) \<and> tree_ok h \<and> entries_ok es)"

lemma nblocks_le: "nblocks n \<le> 1024 \<Longrightarrow> n \<le> 0x400000"
  unfolding nblocks_def by (rule ccontr) (use div_le_mono[of "0x400001 + 4095" "n + 4095" 4096] in simp)

lemma nblocks_index: "j < n \<Longrightarrow> j div 4096 < nblocks n"
  using div_le_mono[of "j + 4096" "n + 4095" 4096] by (simp add: nblocks_def)

lemma nblocks_before: "i < nblocks n \<Longrightarrow> 4096 * i < n"
  unfolding nblocks_def by (rule ccontr) (use div_le_mono[of "n + 4095" "4096 * i + 4095" 4096] in simp)

abbreviation fresh :: "img \<Rightarrow> loc set" where
  "fresh s \<equiv> {g. \<not> named s g}"

definition placed :: "img \<Rightarrow> img \<Rightarrow> loc \<Rightarrow> u8 list \<Rightarrow> hnode \<Rightarrow> bool" where
  "placed s s' d name h \<longleftrightarrow> (\<exists>f. in_dir s' d f \<and> name_is s' f (take 127 name) \<and> holds s' (fresh s) f h)"

text \<open>The contract of an operation that writes into the directory \<open>d\<close> and needs at most \<open>n\<close> blocks.\<close>

definition wrote :: "loc \<Rightarrow> nat \<Rightarrow> img \<Rightarrow> img \<Rightarrow> bool" where
  "wrote d n s s' \<longleftrightarrow> img_inv s' {} \<and> dir_grows d s s' \<and> named s' d \<and> dir_shape s' d \<and> nextbno s' \<le> nextbno s + n \<and>
     new_typed d s s'"

lemma wrote_trans: "wrote d m s s1 \<Longrightarrow> wrote d n s1 s2 \<Longrightarrow> wrote d (m + n) s s2"
  using dir_grows_trans[of d s s1 s2] new_typed_trans[of s1 "{}" d s s2] by (auto simp: wrote_def dir_grows_def)

lemma fresh_mono: "wrote d n s s1 \<Longrightarrow> named s d \<Longrightarrow> fresh s1 \<subseteq> fresh s"
  using named_kept[of d s s1] by (auto simp: wrote_def dir_grows_def)

lemma placed_kept:
  assumes "placed s s1 d name h" "wrote d n s1 s2" "named s d" "img_inv s1 {}"
  shows "placed s s2 d name h"
proof -
  obtain f where f: "in_dir s1 d f" "name_is s1 f (take 127 name)" "holds s1 (fresh s) f h" using assms(1) unfolding placed_def by blast
  have k: "others_kept d s1 s2" "in_dir s2 d f" using assms(2) f(1) by (auto simp: wrote_def dir_grows_def)
  have n: "named s1 f" "f \<noteq> d" using holds_named[OF f(3)] assms(3) by auto
  have d: "d \<notin> fresh s" using assms(3) by simp
  show ?thesis using k(2) name_is_kept[OF k(1) n f(2)] holds_kept[OF f(3) assms(4) k(1) d subset_refl] unfolding placed_def by blast
qed

lemma last_name_sub: "set (last_name path) \<subseteq> set path"
  using set_takeWhileD by (force simp: last_name_def)

lemma write_file_ok:
  assumes inv: "img_inv s {}" and d: "named s d" "dir_shape s d" and nm: "last_name path \<noteq> []" "0 \<notin> set (last_name path)" "length (last_name path) < 128"
    and room: "nextbno s + tree_cost (case cont of Some bs \<Rightarrow> HFile bs | None \<Rightarrow> HNoFile) \<le> NBLOCK"
  shows "\<exists>s'. image_write_file d path cont s = Ret s' \<and> wrote d (tree_cost (case cont of Some bs \<Rightarrow> HFile bs | None \<Rightarrow> HNoFile)) s s' \<and>
    placed s s' d (last_name path) (case cont of Some bs \<Rightarrow> HFile bs | None \<Rightarrow> HNoFile)"
proof -
  let ?nm = "last_name path @ [0]" and ?sz = "(case cont of Some bs \<Rightarrow> of_nat (length bs) | None \<Rightarrow> - 1) :: u32"
  have r2: "nextbno s + 2 \<le> NBLOCK" using room by (cases cont) simp_all
  have nmo: "?nm \<noteq> []" "hd ?nm \<noteq> 0" "length ?nm \<le> 128" "FTYPE_REG = FTYPE_REG \<or> ?sz = 0"
    using nm by (simp, metis hd_append2 hd_in_set, simp, simp)
  obtain f s0 s1 where n: "create_file d s = Ret (f, s0)" "s1 = set_fld f 33 FTYPE_REG (set_fld f 32 ?sz (put_name f 0 ?nm s0))"
    "img_inv s1 {}" "dir_grows d s s1" "named s1 d" "dir_shape s1 d" "nextbno s1 \<le> nextbno s + 2" "in_dir s1 d f"
    "named s1 f" "\<not> named s f" "f \<noteq> d" "\<forall>i. lnk s1 f i = 0" "fld s1 f 44 = 0" "fld s1 f 32 = ?sz" "fld s1 f 33 = FTYPE_REG"
    "\<forall>i < 128. name_byte_at s1 f i = (if i < length ?nm then ?nm ! i else 0)"
    "\<forall>g. named s1 g \<longrightarrow> named s g \<or> g = f"
    by (rule new_entry_ok[OF inv d r2 nmo])
  have "(if i < length ?nm then ?nm ! i else 0) = (if i < length (last_name path) then last_name path ! i else 0)" for i
    by (auto simp: nth_append less_Suc_eq)
  then have nis: "name_is s1 f (last_name path)" using n(16) unfolding name_is_def by metis
  have t127: "take 127 (last_name path) = last_name path" using nm(3) by simp
  have start: "image_write_file d path cont s = (case cont of Some bs \<Rightarrow> copy_blocks f 0 bs s1 | None \<Rightarrow> Ret s1)"
    using n(1) nm(3) by (simp add: image_write_file_def Let_def n(2) cong: option.case_cong)
  show ?thesis
  proof (cases cont)
    case None
    have "holds s1 (fresh s) f HNoFile" using n None by (intro holds.noreg) simp_all
    moreover have "new_typed d s s1" unfolding new_typed_def links_typed_def using n(12,17) by auto
    ultimately show ?thesis using None start n nis t127 by (auto simp: wrote_def placed_def)
  next
    case (Some bs)
    have nb: "nblocks (length bs) \<le> 1024" using room Some by (simp add: NBLOCK_def)
    note len = nblocks_le[OF nb]
    have "used_for s1 f + nblocks (length bs) \<le> NBLOCK" using room Some n(7,13) by (simp add: used_for_def)
    then obtain s2 where s2: "copy_blocks f 0 bs s1 = Ret s2" "img_inv s2 {}" "others_kept f s1 s2" "named s2 f" "used_for s2 f \<le> used_for s1 f + nblocks (length bs)"
      "\<forall>k < 34. fld s2 f k = fld s1 f k" "\<forall>i < 1024. lnk s2 f i \<noteq> 0 \<longleftrightarrow> (if 0 \<le> i then i < 0 + nblocks (length bs) else lnk s1 f i \<noteq> 0)"
      "\<forall>j < length bs. btype s2 (unat (lnk s2 f (0 + j div 4096))) = BLOCK_DATA \<and>
        block_byte_at (blk s2 (unat (lnk s2 f (0 + j div 4096)))) (j mod 4096) = bs ! j" "\<forall>g. named s2 g \<longrightarrow> named s1 g"
      using copy_blocks_ok[OF n(3,9), of 0 bs] n(12) nb by (simp only: zero_le add_0) blast
    note g = dir_grows_other[OF n(3-6) s2(3) n(10,11)]
    have "unat (of_nat (length bs) :: u32) = length bs" using len by (simp add: unat_of_nat)
    moreover have "lnk s2 f (j div 4096) \<noteq> 0" if "j < length bs" for j
      using s2(7)[rule_format, of "j div 4096"] nblocks_index[OF that] nb by simp
    ultimately have "holds s2 (fresh s) f (HFile bs)"
      using s2(4,6,8) n(10,14,15) Some len by (intro holds.reg) (simp_all add: file_byte_at_def)
    moreover have "name_is s2 f (last_name path)"
    proof -
      have "name_byte_at s2 f i = name_byte_at s1 f i" if "i < 128" for i
      proof -
        have "i div 4 < 34" using that by simp
        then show ?thesis using s2(6) by (simp add: name_byte_at_def)
      qed
      then show ?thesis using nis by (simp add: name_is_def)
    qed
    moreover have "new_typed d s s2"
    proof -
      have "links_typed s2 f" unfolding links_typed_def
      proof (intro allI impI)
        fix i :: nat
        assume "i < 1024" "lnk s2 f i \<noteq> 0"
        then have "i < nblocks (length bs)" using s2(7) by simp
        then have "4096 * i < length bs" by (rule nblocks_before)
        then have "btype s2 (unat (lnk s2 f i)) = BLOCK_DATA" using s2(8)[rule_format, of "4096 * i"] by simp
        then show "btype s2 (unat (lnk s2 f i)) = (if fld s2 f 33 = FTYPE_DIR then BLOCK_FILE else BLOCK_DATA)" using s2(6) n(15) by simp
      qed
      then show ?thesis unfolding new_typed_def using n(17) s2(9) by blast
    qed
    moreover have "nextbno s2 \<le> nextbno s + (3 + nblocks (length bs))" using s2(5) n(7,13) by (auto simp: used_for_def split: if_splits)
    ultimately show ?thesis using Some start s2(1,2) g n(8) t127 by (auto simp: wrote_def placed_def)
  qed
qed

lemma path_names:
  assumes "good_name name"
  shows "last_name (path @ [47] @ name) = name" "base_name (path @ [47] @ name) = name"
proof -
  have n: "\<forall>c \<in> set name. c \<noteq> 47" "name \<noteq> []" using assms by (auto simp: good_name_def)
  then show l: "last_name (path @ [47] @ name) = name" using takeWhile_append2[of "rev name" "\<lambda>c. c \<noteq> 47" "47 # rev path"] by (simp add: last_name_def)
  have "dropWhile (\<lambda>c. c = 47) (rev (path @ [47] @ name)) = rev (path @ [47] @ name)"
    using n by (cases name rule: rev_cases) auto
  then show "base_name (path @ [47] @ name) = name" using l by (simp add: base_name_def)
qed

lemma set_fld_same: "fld s f k = w \<Longrightarrow> set_fld f k w s = s"
  by (cases f) auto

lemma wrote_refl: "img_inv s {} \<Longrightarrow> named s d \<Longrightarrow> dir_shape s d \<Longrightarrow> wrote d n s s"
  by (simp add: wrote_def dir_grows_refl new_typed_def)

lemma new_directory_ok:
  assumes inv: "img_inv s {}" and d: "named s d" "dir_shape s d" and nm: "base_name path \<noteq> []" "0 \<notin> set (base_name path)"
    and room: "nextbno s + (2 + n) \<le> NBLOCK"
    and sub: "\<And>f s1. img_inv s1 {} \<Longrightarrow> named s1 f \<Longrightarrow> dir_shape s1 f \<Longrightarrow> nextbno s1 + n \<le> NBLOCK \<Longrightarrow>
      \<exists>s2. write_entries f path es s1 = Ret s2 \<and> wrote f n s1 s2 \<and> (\<forall>(name, h) \<in> set es. listed name h \<longrightarrow> placed s1 s2 f name h)"
  shows "\<exists>s'. write_directory d path (HDir es) s = Ret s' \<and> wrote d (2 + n) s s' \<and> placed s s' d (base_name path) (HDir es)"
proof -
  let ?nm = "strncpy_bytes (base_name path) 127"
  have nm': "?nm \<noteq> []" "hd ?nm \<noteq> 0" "length ?nm \<le> 128" "FTYPE_DIR = FTYPE_REG \<or> (0 :: u32) = 0"
    using nm by (auto simp: strncpy_bytes_def neq_Nil_conv)
  have r2: "nextbno s + 2 \<le> NBLOCK" using room by simp
  obtain f s0 s1 where e: "create_file d s = Ret (f, s0)" "s1 = set_fld f 33 FTYPE_DIR (set_fld f 32 0 (put_name f 0 ?nm s0))"
    "img_inv s1 {}" "dir_grows d s s1" "named s1 d" "dir_shape s1 d" "nextbno s1 \<le> nextbno s + 2" "in_dir s1 d f"
    "named s1 f" "\<not> named s f" "f \<noteq> d" "\<forall>i. lnk s1 f i = 0" "fld s1 f 44 = 0" "fld s1 f 32 = 0" "fld s1 f 33 = FTYPE_DIR"
    "\<forall>i < 128. name_byte_at s1 f i = (if i < length ?nm then ?nm ! i else 0)" "is_file (put_name f 0 ?nm s0) f"
    "\<forall>k. 32 \<le> k \<longrightarrow> k < 64 \<longrightarrow> fld (put_name f 0 ?nm s0) f k = 0" "\<forall>i < 128. name_byte_at (put_name f 0 ?nm s0) f i = (if i < length ?nm then ?nm ! i else 0)"
    "\<forall>g. named s1 g \<longrightarrow> named s g \<or> g = f"
    by (rule new_entry_ok[OF inv d r2 nm'])
  have s1: "s1 = set_fld f 33 FTYPE_DIR (put_name f 0 ?nm s0)" using e(2,18) set_fld_same[of "put_name f 0 ?nm s0" f 32 0] by simp
  have "length ?nm = 127" by (simp add: strncpy_bytes_def)
  then have chk: "word_byte (fld (put_name f 0 ?nm s0) f 31) 3 = 0" using e(19)[rule_format, of 127] by (simp add: name_byte_at_def)
  have run: "write_directory d path (HDir es) s = write_entries f path es s1" using e(1) chk s1 by (simp add: Let_def)
  have nis: "name_is s1 f (take 127 (base_name path))"
    using e(16) by (auto simp: name_is_def strncpy_bytes_def nth_append)
  have df: "dir_shape s1 f" unfolding dir_shape_def using e(12,14) by (intro exI[of _ 0]) simp
  have "nextbno s1 + n \<le> NBLOCK" using e(7) room by simp
  from sub[OF e(3,9) df this] obtain s2 where s2: "write_entries f path es s1 = Ret s2" "wrote f n s1 s2"
    "\<forall>(name, h) \<in> set es. listed name h \<longrightarrow> placed s1 s2 f name h" by blast
  have k: "others_kept f s1 s2" and w: "img_inv s2 {}" "named s2 f" "dir_shape s2 f" "nextbno s2 \<le> nextbno s1 + n" "\<forall>k. k < 32 \<or> k = 33 \<longrightarrow> fld s2 f k = fld s1 f k"
    using s2(2) by (simp_all add: wrote_def dir_grows_def)
  note g = dir_grows_other[OF e(3-6) k e(10,11)]
  have mono: "holds s2 (fresh s) x h" if "holds s2 (fresh s1) x h" for x h
  proof (rule holds_kept[OF that w(1) others_kept_refl[of Root]])
    show "fresh s1 \<subseteq> fresh s" using e(4,5) named_kept[of d s s1] by (auto simp: dir_grows_def)
  qed (simp add: named_def)
  have "holds s2 (fresh s) f (HDir es)"
  proof (rule holds.dir)
    fix name h
    assume h: "(name, h) \<in> set es" "listed name h"
    then have "placed s1 s2 f name h" using s2(3) by auto
    then show "\<exists>g. in_dir s2 f g \<and> name_is s2 g (take 127 name) \<and> holds s2 (fresh s) g h" using mono unfolding placed_def by blast
  qed (use e(10,15) w in auto)
  moreover have "name_is s2 f (take 127 (base_name path))"
  proof -
    have "name_byte_at s2 f i = name_byte_at s1 f i" if "i < 128" for i
    proof -
      have "i div 4 < 32" using that by simp
      then show ?thesis using w(5) by (simp add: name_byte_at_def)
    qed
    then show ?thesis using nis by (simp add: name_is_def)
  qed
  ultimately have "placed s s2 d (base_name path) (HDir es)" unfolding placed_def using g(4)[OF e(8)] by blast
  moreover have "wrote d (2 + n) s s2"
  proof -
    have "links_typed s2 f" using dir_links_typed[OF w(3)] w(5) e(15) by simp
    then have "new_typed d s s2" using e(20) s2(2) unfolding new_typed_def wrote_def by blast
    then show ?thesis using g(1-3) w(1,4) e(7) by (simp add: wrote_def)
  qed
  ultimately show ?thesis using run s2(1) by auto
qed

lemma write_tree_ok:
  shows "tree_ok h \<Longrightarrow> img_inv s {} \<Longrightarrow> named s d \<Longrightarrow> dir_shape s d \<Longrightarrow> nextbno s + tree_cost h \<le> NBLOCK \<Longrightarrow> base_name path \<noteq> [] \<Longrightarrow> 0 \<notin> set (base_name path) \<Longrightarrow>
      \<exists>s'. write_directory d path h s = Ret s' \<and> wrote d (tree_cost h) s s' \<and> (\<forall>es. h = HDir es \<longrightarrow> placed s s' d (base_name path) h)"
    and "entries_ok es \<Longrightarrow> img_inv s {} \<Longrightarrow> named s d \<Longrightarrow> dir_shape s d \<Longrightarrow> nextbno s + entries_cost es \<le> NBLOCK \<Longrightarrow>
      \<exists>s'. write_entries d path es s = Ret s' \<and> wrote d (entries_cost es) s s' \<and> (\<forall>(name, h) \<in> set es. listed name h \<longrightarrow> placed s s' d name h)"
proof (induction h and es arbitrary: d path s and d path s rule: tree_ok_entries_ok.induct)
  case (4 es)
  note IH = "4.IH"
  have "\<exists>s'. write_directory d path (HDir es) s = Ret s' \<and> wrote d (2 + entries_cost es) s s' \<and> placed s s' d (base_name path) (HDir es)"
    by (rule new_directory_ok[OF "4.prems"(2-4,6,7)]) (use "4.prems"(1,5) IH in auto)
  then show ?case by auto
next
  case (6 name h es)
  have nm: "good_name name" and small: "length name < 128 \<or> (\<exists>es. h = HDir es) \<or> h = HNoDir" and h: "tree_ok h" "entries_ok es"
    using "6.prems"(1) by simp_all
  have room: "nextbno s + tree_cost h \<le> NBLOCK" "nextbno s + (tree_cost h + entries_cost es) \<le> NBLOCK" using "6.prems"(5) by simp_all
  note pn = path_names[OF nm, of path]
  have gn: "name \<noteq> []" "0 \<notin> set name" using nm by (simp_all add: good_name_def)
  note inv = "6.prems"(2) and d = "6.prems"(3,4)
  have "\<exists>s1. (if name = [46] \<or> name = [46, 46] then Ret s
            else let buf = path @ [47] @ name
              in case h of HFile bs \<Rightarrow> image_write_file d buf (Some bs) s | HNoFile \<Rightarrow> image_write_file d buf None s
                 | _ \<Rightarrow> write_directory d buf h s) = Ret s1 \<and> wrote d (tree_cost h) s s1 \<and> (listed name h \<longrightarrow> placed s s1 d name h)"
  proof (cases "name = [46] \<or> name = [46, 46]")
    case True
    then show ?thesis using wrote_refl[OF inv d] by (auto simp: listed_def)
  next
    case False
    show ?thesis
    proof (cases h)
      case (HFile bs)
      then have "length name < 128" using small by simp
      from write_file_ok[OF inv d, of "path @ [47] @ name" "Some bs", unfolded pn] this gn room(1) HFile False show ?thesis by (auto simp: Let_def)
    next
      case HNoFile
      then have "length name < 128" using small by simp
      from write_file_ok[OF inv d, of "path @ [47] @ name" None, unfolded pn] this gn room(1) HNoFile False show ?thesis by (auto simp: Let_def)
    next
      case (HDir es')
      from "6.IH"(1)[OF h(1) inv d room(1), of "path @ [47] @ name", unfolded pn] gn HDir False show ?thesis by (auto simp: Let_def)
    next
      case HNoDir
      from "6.IH"(1)[OF h(1) inv d room(1), of "path @ [47] @ name", unfolded pn] gn HNoDir False show ?thesis by (auto simp: Let_def listed_def)
    qed
  qed
  then obtain s1 where s1: "(if name = [46] \<or> name = [46, 46] then Ret s
            else let buf = path @ [47] @ name
              in case h of HFile bs \<Rightarrow> image_write_file d buf (Some bs) s | HNoFile \<Rightarrow> image_write_file d buf None s
                 | _ \<Rightarrow> write_directory d buf h s) = Ret s1" "wrote d (tree_cost h) s s1" "listed name h \<longrightarrow> placed s s1 d name h" by blast
  have w: "img_inv s1 {}" "named s1 d" "dir_shape s1 d" "nextbno s1 + entries_cost es \<le> NBLOCK" using s1(2) room(2) by (simp_all add: wrote_def)
  obtain s2 where s2: "write_entries d path es s1 = Ret s2" "wrote d (entries_cost es) s1 s2" "\<forall>(name, h) \<in> set es. listed name h \<longrightarrow> placed s1 s2 d name h"
    using "6.IH"(2)[OF h(2) w, of path] by blast
  have mono: "placed s s2 d n k" if "placed s1 s2 d n k" for n k
  proof -
    obtain f where f: "in_dir s2 d f" "name_is s2 f (take 127 n)" "holds s2 (fresh s1) f k" using \<open>placed s1 s2 d n k\<close> unfolding placed_def by blast
    have "img_inv s2 {}" using s2(2) by (simp add: wrote_def)
    from holds_kept[OF f(3) this others_kept_refl[of Root] _ fresh_mono[OF s1(2) d(1)]] have "holds s2 (fresh s) f k" by (simp add: named_def)
    then show ?thesis using f unfolding placed_def by blast
  qed
  have "write_entries d path ((name, h) # es) s = Ret s2" using s1(1) s2(1) by simp
  moreover have "\<forall>(n, k) \<in> set ((name, h) # es). listed n k \<longrightarrow> placed s s2 d n k"
    using placed_kept[OF _ s2(2) d(1) w(1)] s1(3) s2(3) mono by auto
  ultimately show ?case using wrote_trans[OF s1(2) s2(2)] by auto
qed (auto intro: wrote_refl)

section \<open>The whole image\<close>

definition arg_name :: "u8 list \<Rightarrow> hnode \<Rightarrow> u8 list" where
  "arg_name path h = (case h of HDir es \<Rightarrow> base_name path | _ \<Rightarrow> last_name path)"

fun args_ok :: "(u8 list \<times> hnode) list \<Rightarrow> bool" where
  "args_ok [] = True"
| "args_ok ((path, h) # as) = (last_name path \<noteq> [] \<and> 0 \<notin> set path \<and> ((\<exists>es. h = HDir es) \<or> h = HNoDir \<or> length (last_name path) < 128) \<and> tree_ok h \<and> args_ok as)"

lemma last_name_0: "0 \<notin> set path \<Longrightarrow> 0 \<notin> set (last_name path)"
  using last_name_sub by auto

lemma base_name_last: "last_name path \<noteq> [] \<Longrightarrow> base_name path = last_name path"
proof -
  assume n: "last_name path \<noteq> []"
  then have "rev path \<noteq> []" "hd (rev path) \<noteq> 47" by (cases "rev path"; simp add: last_name_def split: if_splits)+
  then have "dropWhile (\<lambda>c. c = 47) (rev path) = rev path" "path \<noteq> []" by (cases "rev path"; simp)+
  then show ?thesis by (simp add: base_name_def)
qed

lemma write_args_ok:
  "args_ok as \<Longrightarrow> img_inv s {} \<Longrightarrow> dir_shape s Root \<Longrightarrow> nextbno s + entries_cost as \<le> NBLOCK \<Longrightarrow>
   \<exists>s'. write_args as s = Ret s' \<and> wrote Root (entries_cost as) s s' \<and>
     (\<forall>(path, h) \<in> set as. h \<noteq> HNoDir \<longrightarrow> placed s s' Root (arg_name path h) h)"
proof (induction as arbitrary: s)
  case Nil
  then show ?case by (auto intro: wrote_refl simp: named_def)
next
  case (Cons a as)
  obtain path h where a: "a = (path, h)" by (cases a)
  have r: "named s Root" by (simp add: named_def)
  note inv = Cons.prems(2) and d = r Cons.prems(3)
  have room: "nextbno s + tree_cost h \<le> NBLOCK" "nextbno s + (tree_cost h + entries_cost as) \<le> NBLOCK" using Cons.prems(4) by (simp_all add: a)
  have ok: "last_name path \<noteq> []" "0 \<notin> set path" "tree_ok h" "args_ok as"
    "(\<exists>es. h = HDir es) \<or> h = HNoDir \<or> length (last_name path) < 128" using Cons.prems(1) by (simp_all add: a)
  note bl = base_name_last[OF ok(1)] and z = last_name_0[OF ok(2)]
  have "\<exists>s1. (case h of HFile bs \<Rightarrow> image_write_file Root path (Some bs) s | HNoFile \<Rightarrow> image_write_file Root path None s
       | _ \<Rightarrow> write_directory Root path h s) = Ret s1 \<and> wrote Root (tree_cost h) s s1 \<and> (h \<noteq> HNoDir \<longrightarrow> placed s s1 Root (arg_name path h) h)"
  proof (cases h)
    case (HFile bs)
    then show ?thesis using write_file_ok[OF inv d ok(1) z, of "Some bs"] ok(5) room(1) by (auto simp: arg_name_def)
  next
    case HNoFile
    then show ?thesis using write_file_ok[OF inv d ok(1) z, of None] ok(5) room(1) by (auto simp: arg_name_def)
  next
    case (HDir es)
    then show ?thesis using write_tree_ok(1)[OF ok(3) inv d room(1), of path] bl ok(1) z by (auto simp: arg_name_def)
  next
    case HNoDir
    then show ?thesis using write_tree_ok(1)[OF ok(3) inv d room(1), of path] bl ok(1) z by auto
  qed
  then obtain s1 where s1: "(case h of HFile bs \<Rightarrow> image_write_file Root path (Some bs) s | HNoFile \<Rightarrow> image_write_file Root path None s
       | _ \<Rightarrow> write_directory Root path h s) = Ret s1" "wrote Root (tree_cost h) s s1" "h \<noteq> HNoDir \<longrightarrow> placed s s1 Root (arg_name path h) h" by blast
  have w: "img_inv s1 {}" "dir_shape s1 Root" "nextbno s1 + entries_cost as \<le> NBLOCK" using s1(2) room(2) by (simp_all add: wrote_def)
  from Cons.IH[OF ok(4) w] obtain s2 where s2: "write_args as s1 = Ret s2" "wrote Root (entries_cost as) s1 s2"
    "\<forall>(path, h) \<in> set as. h \<noteq> HNoDir \<longrightarrow> placed s1 s2 Root (arg_name path h) h" by blast
  have mono: "placed s s2 Root n k" if "placed s1 s2 Root n k" for n k
  proof -
    obtain f where f: "in_dir s2 Root f" "name_is s2 f (take 127 n)" "holds s2 (fresh s1) f k" using \<open>placed s1 s2 Root n k\<close> unfolding placed_def by blast
    have "img_inv s2 {}" using s2(2) by (simp add: wrote_def)
    from holds_kept[OF f(3) this others_kept_refl[of Root] _ fresh_mono[OF s1(2) r]] have "holds s2 (fresh s) f k" by (simp add: named_def)
    then show ?thesis using f unfolding placed_def by blast
  qed
  have "write_args (a # as) s = Ret s2" using s1(1) s2(1) by (simp add: a)
  moreover have "\<forall>(p, k) \<in> set (a # as). k \<noteq> HNoDir \<longrightarrow> placed s s2 Root (arg_name p k) k"
    using placed_kept[OF _ s2(2) r w(1)] s1(3) s2(3) mono by (auto simp: a)
  ultimately show ?case using wrote_trans[OF s1(2) s2(2)] by (auto simp: a)
qed

lemma init_fields: "nextbno init_disk = 3" "nbitblock init_disk = 1" "sup init_disk = (\<lambda>_. 0)(0 := FS_MAGIC, 1 := 1024, 35 := 1, 2 := 47)"
  "btype init_disk b = (if b = 0 then BLOCK_BOOT else if b = 1 then BLOCK_SUPER else if b = 2 then BLOCK_BMAP else BLOCK_FREE)"
  "blk init_disk b = (if b = 2 then (\<lambda>k. if k < 32 then 0xFFFFFFFF else 0) else (\<lambda>_. 0))"
  by (auto simp: init_disk_def NBLOCK_def Let_def init_bitmap_def fun_eq_iff)

lemma init_ok: "img_inv init_disk {}" "dir_shape init_disk Root"
proof -
  have f: "is_file init_disk g \<longleftrightarrow> g = Root" for g by (cases g) (auto simp: init_fields block_types)
  have z: "lnk init_disk Root i = 0" for i by (auto simp: lnk_def init_fields)
  have p: "is_place init_disk q \<Longrightarrow> num_at init_disk q = 0" for q
    by (cases q) (auto simp: f init_fields block_types)
  have "geometry init_disk" by (auto simp: geometry_def init_fields NBLOCK_def block_types)
  moreover have "linked init_disk {}" using p by (auto simp: linked_def init_fields)
  moreover have "unused_zero init_disk" by (auto simp: unused_zero_def f named_def)
  ultimately show "img_inv init_disk {}" by (simp add: img_inv_def)
  show "dir_shape init_disk Root" unfolding dir_shape_def using z by (intro exI[of _ 0]) (simp add: init_fields)
qed

lemma flush_loop_ok:
  "\<forall>i \<in> set is. i < 32768 \<Longrightarrow> (\<forall>b. b \<noteq> 2 \<longrightarrow> blk (flush_loop is s) b = blk s b) \<and> sup (flush_loop is s) = sup s \<and> btype (flush_loop is s) = btype s \<and>
    (\<forall>i < 32768. bit (blk (flush_loop is s) 2 (i div 32)) (i mod 32) = (bit (blk s 2 (i div 32)) (i mod 32) \<and> i \<notin> set is))"
proof (induction "is" arbitrary: s)
  case (Cons i "is")
  let ?s = "s\<lparr>blk := (blk s)(2 := (blk s 2)(i div 32 := blk s 2 (i div 32) AND NOT (push_bit (i mod 32) 1)))\<rparr>"
  have i: "i < 32768" "\<forall>i \<in> set is. i < 32768" using Cons.prems by simp_all
  have run: "flush_loop (i # is) s = flush_loop is ?s" using i(1) by (simp add: Let_def)
  have "bit (blk ?s 2 (j div 32)) (j mod 32) = (bit (blk s 2 (j div 32)) (j mod 32) \<and> j \<noteq> i)" for j
  proof -
    have "(j div 32 = i div 32 \<and> j mod 32 = i mod 32) = (j = i)" by (metis div_mult_mod_eq)
    then show ?thesis using bit_clear_u32[of "i mod 32"] by auto
  qed
  then show ?case unfolding run using Cons.IH[OF i(2), of ?s] by auto
qed simp

text \<open>
  The blocks in use: the reserved ones with their types, and each other one with its only place, an \<open>f_indirect\<close> or block
  number \<open>i\<close> of a file, and the type of this place.
\<close>

definition index_of :: "img \<Rightarrow> nat \<Rightarrow> loc \<Rightarrow> bool" where
  "index_of s b f \<longleftrightarrow> named s f \<and> fld s f 44 = of_nat b"

definition block_of :: "img \<Rightarrow> nat \<Rightarrow> loc \<Rightarrow> nat \<Rightarrow> bool" where
  "block_of s b f i \<longleftrightarrow> named s f \<and> i < 1024 \<and> lnk s f i = of_nat b"

definition full_blocks :: "img \<Rightarrow> bool" where
  "full_blocks s \<longleftrightarrow> 3 \<le> nextbno s \<and> nextbno s \<le> NBLOCK \<and> btype s 0 = BLOCK_BOOT \<and> btype s 1 = BLOCK_SUPER \<and> btype s 2 = BLOCK_BMAP \<and>
     (\<forall>b. 3 \<le> b \<and> b < nextbno s \<longrightarrow> (\<exists>!p. is_place s p \<and> num_at s p = of_nat b) \<and>
        (btype s b = BLOCK_INDEX \<longleftrightarrow> (\<exists>f. index_of s b f)) \<and>
        (btype s b = BLOCK_FILE \<longleftrightarrow> (\<exists>f i. block_of s b f i \<and> fld s f 33 = FTYPE_DIR)) \<and>
        (btype s b = BLOCK_DATA \<longleftrightarrow> (\<exists>f i. block_of s b f i \<and> fld s f 33 \<noteq> FTYPE_DIR)))"

lemma place_owner:
  assumes inv: "img_inv s {}" and p: "is_place s p" "num_at s p = of_nat b" and b: "3 \<le> b" "b < nextbno s"
  shows "(\<exists>f. index_of s b f) \<and> btype s b = BLOCK_INDEX \<or> (\<exists>f i. block_of s b f i)"
proof -
  have w: "unat (of_nat b :: u32) = b" "(of_nat b :: u32) \<noteq> 0" if "3 \<le> b" "b < nextbno s" for b
    using that img_invD(2)[OF inv] small_word[of b] by (auto simp: NBLOCK_def)
  have nm: "named s f" if "is_file s f" "fld s f k \<noteq> 0" "k < 64" for f k using img_invD(8)[OF inv that(1) _ that(3)] that(2) by blast
  show ?thesis
  proof (cases p)
    case (In f k)
    then have f: "named s f" "fld s f (34 + k) = of_nat b" using p nm[of f "34 + k"] w(2)[OF b] by simp_all
    show ?thesis
    proof (cases "k = 10")
      case True
      then have "btype s b = BLOCK_INDEX" using img_invD(5)[OF inv p(1)] p(2) w[OF b] In by simp
      then show ?thesis using f True by (auto simp: index_of_def)
    next
      case False
      then have "block_of s b f k" using f p(1) In by (simp add: block_of_def lnk_def)
      then show ?thesis by blast
    qed
  next
    case (Ix x k)
    then have x: "x < nextbno s" "btype s x = BLOCK_INDEX" "k < 1024" "blk s x k = of_nat b" using p by simp_all
    have g: "geometry s" using inv by (simp add: img_inv_def)
    then have k: "\<not> k < 10" using x w(2)[OF b] unfolding geometry_def by metis
    have x3: "3 \<le> x" using g x(2) by (cases "x = 0 \<or> x = 1 \<or> x = 2") (auto simp: geometry_def block_types)
    then obtain q where q: "is_place s q" "num_at s q = of_nat x" using img_invD(7)[OF inv, of x] x(1) by auto
    then obtain f where "q = In f 10" using img_invD(5)[OF inv q(1)] w[OF x3 x(1)] x(2) by auto
    then have f: "named s f" "fld s f 44 = of_nat x" using q nm[of f 44] w(2)[OF x3 x(1)] by simp_all
    then have "block_of s b f k" using x k w[OF x3 x(1)] by (simp add: block_of_def lnk_def)
    then show ?thesis by blast
  qed
qed

lemma full_blocks_inv:
  assumes inv: "img_inv s {}" and ty: "\<forall>f. named s f \<longrightarrow> links_typed s f"
  shows "full_blocks s"
proof -
  have g: "geometry s" using inv by (simp add: img_inv_def)
  have "(\<exists>!p. is_place s p \<and> num_at s p = of_nat b) \<and> (btype s b = BLOCK_INDEX \<longleftrightarrow> (\<exists>f. index_of s b f)) \<and>
      (btype s b = BLOCK_FILE \<longleftrightarrow> (\<exists>f i. block_of s b f i \<and> fld s f 33 = FTYPE_DIR)) \<and>
      (btype s b = BLOCK_DATA \<longleftrightarrow> (\<exists>f i. block_of s b f i \<and> fld s f 33 \<noteq> FTYPE_DIR))" if b: "3 \<le> b" "b < nextbno s" for b
  proof -
    obtain p where p: "is_place s p" "num_at s p = of_nat b" using img_invD(7)[OF inv, of b] b by auto
    have w: "unat (of_nat b :: u32) = b" "(of_nat b :: u32) \<noteq> 0"
      using b img_invD(2)[OF inv] small_word[of b] by (auto simp: NBLOCK_def)
    then have u: "q = p" if "is_place s q" "num_at s q = of_nat b" for q using img_invD(6)[OF inv that(1) p(1)] that(2) p(2) by simp
    then have one: "\<exists>!p. is_place s p \<and> num_at s p = of_nat b" using p by blast
    have ix: "btype s b = BLOCK_INDEX" if h: "index_of s b f" for f
      using img_invD(5)[OF inv, of "In f 10"] h w by (simp add: index_of_def named_def)
    have bl: "btype s b = (if fld s f 33 = FTYPE_DIR then BLOCK_FILE else BLOCK_DATA)" if h: "block_of s b f i" for f i
      using ty h w unfolding block_of_def links_typed_def by metis
    have ne: "BLOCK_INDEX \<noteq> BLOCK_DATA" "BLOCK_INDEX \<noteq> BLOCK_FILE" "BLOCK_FILE \<noteq> BLOCK_DATA" by (simp_all add: block_types)
    consider f where "index_of s b f" "btype s b = BLOCK_INDEX" | f i where "block_of s b f i" using place_owner[OF inv p b] by blast
    then show ?thesis
    proof cases
      case (1 f)
      then have "\<not> block_of s b g i" for g i using bl[of g i] ne by (auto split: if_splits)
      then show ?thesis using one 1 ne by auto
    next
      case (2 f i)
      have b2: "btype s b = (if fld s f 33 = FTYPE_DIR then BLOCK_FILE else BLOCK_DATA)" by (rule bl[OF 2])
      then have n: "\<not> (\<exists>g. index_of s b g)" "btype s b \<noteq> BLOCK_INDEX" using ix ne by (auto split: if_splits)
      have d: "fld s g 33 = FTYPE_DIR \<longleftrightarrow> fld s f 33 = FTYPE_DIR" if "block_of s b g k" for g k
        using bl[OF that] b2 ne by (simp split: if_splits)
      have "(\<exists>g k. block_of s b g k \<and> fld s g 33 = FTYPE_DIR) \<longleftrightarrow> fld s f 33 = FTYPE_DIR"
        "(\<exists>g k. block_of s b g k \<and> fld s g 33 \<noteq> FTYPE_DIR) \<longleftrightarrow> fld s f 33 \<noteq> FTYPE_DIR" using d 2 by blast+
      moreover have "btype s b = BLOCK_FILE \<longleftrightarrow> fld s f 33 = FTYPE_DIR" "btype s b = BLOCK_DATA \<longleftrightarrow> fld s f 33 \<noteq> FTYPE_DIR"
        using b2 ne by simp_all
      ultimately show ?thesis using one n by simp
    qed
  qed
  then show ?thesis using g by (simp add: full_blocks_def geometry_def)
qed

lemma fsformat_ok:
  assumes "args_ok as" "3 + entries_cost as \<le> NBLOCK"
  obtains s d where "write_args as init_disk = Ret s" "fsformat False as = Ret d" "img_inv s {}" "nextbno s \<le> 3 + entries_cost as"
    "\<forall>b. b = 0 \<or> 3 \<le> b \<longrightarrow> d b = blk s b" "\<forall>k < 66. d 1 k = sup s k" "sup s 0 = FS_MAGIC" "sup s 1 = 1024"
    "\<forall>b < NBLOCK. bit (d 2 (b div 32)) (b mod 32) \<longleftrightarrow> nextbno s \<le> b"
    "\<forall>(path, h) \<in> set as. h \<noteq> HNoDir \<longrightarrow> placed init_disk s Root (arg_name path h) h" "full_blocks s"
proof -
  have "nextbno init_disk + entries_cost as \<le> NBLOCK" using assms(2) by (simp add: init_fields)
  from write_args_ok[OF assms(1) init_ok this] obtain s where s: "write_args as init_disk = Ret s" "wrote Root (entries_cost as) init_disk s"
    "\<forall>(path, h) \<in> set as. h \<noteq> HNoDir \<longrightarrow> placed init_disk s Root (arg_name path h) h" by blast
  have inv: "img_inv s {}" and n: "nextbno s \<le> 3 + entries_cost as" and k: "others_kept Root init_disk s"
    using s(2) by (simp_all add: wrote_def dir_grows_def init_fields)
  let ?f = "flush_bitmap s"
  let ?d = "finish_fs False ?f"
  have le: "\<forall>i \<in> set [0..<nextbno s]. i < 32768" using img_invD(2)[OF inv] by (auto simp: NBLOCK_def)
  note fl = flush_loop_ok[OF le, of s, folded flush_bitmap_def]
  have b2: "blk s 2 = blk init_disk 2" using k by (simp add: others_kept_def init_fields block_types)
  have ones: "bit (0xFFFFFFFF :: u32) j \<longleftrightarrow> j < 32" for j
  proof -
    have "(0xFFFFFFFF :: u32) = - 1" by simp
    then show ?thesis by (simp only: bit_minus_1_iff) simp
  qed
  have "bit (?d 2 (b div 32)) (b mod 32) \<longleftrightarrow> nextbno s \<le> b" if "b < NBLOCK" for b
  proof -
    have "b < 32768" "b div 32 < 32" using that by (simp_all add: NBLOCK_def)
    then show ?thesis using fl b2 ones[of "b mod 32"] by (simp add: finish_fs_def init_fields not_less)
  qed
  moreover have "sup s 0 = FS_MAGIC" "sup s 1 = 1024" using k by (simp_all add: others_kept_def init_fields)
  moreover have "full_blocks s"
  proof (rule full_blocks_inv[OF inv], intro allI impI)
    fix f
    assume f: "named s f"
    show "links_typed s f"
    proof (cases "f = Root")
      case True
      have "fld s Root 33 = FTYPE_DIR" using s(2) by (simp add: wrote_def dir_grows_def init_fields)
      then show ?thesis using s(2) True by (intro dir_links_typed) (simp_all add: wrote_def)
    next
      case False
      then have "\<not> named init_disk f" by (cases f) (simp_all add: named_def init_fields block_types)
      then show ?thesis using s(2) f False by (simp add: wrote_def new_typed_def)
    qed
  qed
  moreover have "\<forall>b. b = 0 \<or> 3 \<le> b \<longrightarrow> ?d b = blk s b" "\<forall>k < 66. ?d 1 k = sup s k" using fl by (auto simp: finish_fs_def)
  ultimately show ?thesis using s inv n by (intro that[of s ?d]) (simp_all add: fsformat_def)
qed

text \<open>
  C33. The blocks of a new image: \<open>fsformat\<close> on host trees with proper names that need at most \<open>NBLOCK - 3\<close> blocks (those
  of the data and three more for each file at most) writes an image; the first three blocks have the types of the boot
  block, the super block and the bitmap; every other block in use is linked from exactly one place and has the type of
  this place: an index block is the \<open>f_indirect\<close> of a file, a \<open>BLOCK_FILE\<close> is one of the blocks of a directory and a
  \<open>BLOCK_DATA\<close> one of the blocks of a regular file; and the bitmap marks exactly the unused blocks as free.
\<close>

theorem fsformat_blocks:
  assumes "args_ok as" "3 + entries_cost as \<le> NBLOCK"
  shows "\<exists>s d. write_args as init_disk = Ret s \<and> fsformat False as = Ret d \<and> (\<forall>b \<ge> 3. d b = blk s b) \<and> (\<forall>k < 66. d 1 k = sup s k) \<and>
    d 1 0 = FS_MAGIC \<and> d 1 1 = 1024 \<and> nextbno s \<le> 3 + entries_cost as \<and> full_blocks s \<and>
    (\<forall>b < NBLOCK. bit (d 2 (b div 32)) (b mod 32) \<longleftrightarrow> nextbno s \<le> b)"
proof -
  obtain s d where s: "write_args as init_disk = Ret s" "fsformat False as = Ret d" "img_inv s {}" "nextbno s \<le> 3 + entries_cost as"
    "\<forall>b. b = 0 \<or> 3 \<le> b \<longrightarrow> d b = blk s b" "\<forall>k < 66. d 1 k = sup s k" "sup s 0 = FS_MAGIC" "sup s 1 = 1024"
    "\<forall>b < NBLOCK. bit (d 2 (b div 32)) (b mod 32) \<longleftrightarrow> nextbno s \<le> b" "full_blocks s" by (rule fsformat_ok[OF assms])
  then show ?thesis by (intro exI[of _ s] exI[of _ d]) simp
qed

text \<open>
  C34. The image holds the host's files: under the same conditions each file and directory given to \<open>fsformat\<close> is
  an entry of the root directory, under its name (cut to 127 bytes), and so is everything below it in its
  directory; a regular file has its length and, read through its links, its bytes.
\<close>

theorem fsformat_holds:
  assumes "args_ok as" "3 + entries_cost as \<le> NBLOCK" "(path, h) \<in> set as" "h \<noteq> HNoDir"
  shows "\<exists>s d f. write_args as init_disk = Ret s \<and> fsformat False as = Ret d \<and> (\<forall>b \<ge> 3. d b = blk s b) \<and> (\<forall>k < 66. d 1 k = sup s k) \<and>
    in_dir s Root f \<and> name_is s f (take 127 (arg_name path h)) \<and> holds s UNIV f h"
proof -
  obtain s d where s: "write_args as init_disk = Ret s" "fsformat False as = Ret d" "img_inv s {}"
    "\<forall>b. b = 0 \<or> 3 \<le> b \<longrightarrow> d b = blk s b" "\<forall>k < 66. d 1 k = sup s k"
    "\<forall>(path, h) \<in> set as. h \<noteq> HNoDir \<longrightarrow> placed init_disk s Root (arg_name path h) h" by (rule fsformat_ok[OF assms(1,2)])
  then obtain f where f: "in_dir s Root f" "name_is s f (take 127 (arg_name path h))" "holds s (fresh init_disk) f h"
    using assms(3,4) unfolding placed_def by blast
  have "holds s UNIV f h" by (rule holds_kept[OF f(3) s(3) others_kept_refl[of Root]]) (simp_all add: named_def)
  then show ?thesis using s f by blast
qed

text \<open>
  C35. The server accepts the image: \<open>fs_init\<close>, started on a disk that \<open>fsformat\<close> has written, returns with its
  layout invariant, and the blocks it takes for free are those that the image does not use.
\<close>

theorem fsformat_mounts:
  assumes "args_ok as" "3 + entries_cost as \<le> NBLOCK" "fsformat False as = Ret (disk s)"
    and fresh: "\<not> super s" "\<not> bitmap s" "\<forall>b. \<not> mapped s b" "grants s = replicate 4 True @ gs"
  shows "\<exists>t s'. write_args as init_disk = Ret t \<and> fs_init s = Ret s' \<and> fs_ok s' \<and> disk s' = disk s \<and> free_set s' = {nextbno t..<1024}"
proof -
  obtain t d where t: "write_args as init_disk = Ret t" "fsformat False as = Ret d" "img_inv t {}"
    "\<forall>k < 66. d 1 k = sup t k" "sup t 0 = FS_MAGIC" "sup t 1 = 1024"
    "\<forall>b < NBLOCK. bit (d 2 (b div 32)) (b mod 32) \<longleftrightarrow> nextbno t \<le> b" by (rule fsformat_ok[OF assms(1,2)])
  have d: "d = disk s" using t(2) assms(3) by simp
  have w: "disk s 1 0 = FS_MAGIC" "disk s 1 1 = 1024" using t(4-6) by (simp_all add: d)
  have n: "(1024 :: nat) = unat (disk s 1 1)" "1024 \<le> unat DISKMAX div BY2BLK" "1024 div BIT2BLK + 3 \<le> 1024" "1024 div BIT2BLK = 0"
    using w by (simp_all add: DISKMAX_def)
  have bm: "bit (disk s (2 + b div BIT2BLK) (b div 32 mod 1024)) (b mod 32) \<longleftrightarrow> nextbno t \<le> b" if "b < 1024" for b
  proof -
    have "b div BIT2BLK = 0" "b div 32 mod 1024 = b div 32" using that by simp_all
    then show ?thesis using t(7)[unfolded d] that by (simp add: NBLOCK_def)
  qed
  have u: "\<forall>b < 1024 div BIT2BLK + 3. \<not> bit (disk s (2 + b div BIT2BLK) (b div 32 mod 1024)) (b mod 32)"
  proof (intro allI impI)
    fix b :: nat
    assume "b < 1024 div BIT2BLK + 3"
    then have b: "b < 1024" "\<not> nextbno t \<le> b" using n(4) img_invD(1)[OF t(3)] by simp_all
    show "\<not> bit (disk s (2 + b div BIT2BLK) (b div 32 mod 1024)) (b mod 32)" unfolding bm[OF b(1)] by (rule b(2))
  qed
  have g: "grants s = replicate (1024 div BIT2BLK + 4) True @ gs" using fresh(4) n(4) by simp
  obtain s' where s': "fs_init s = Ret s'" "fs_ok s'" "disk s' = disk s" "\<forall>b. 1 \<le> b \<and> b < 1024 div BIT2BLK + 3 \<longrightarrow> cache s' b = disk s b"
    using fs_init_ok[OF fresh(1-3) w(1) n(1-3) u g] by blast
  have c: "cache s' 1 = disk s 1" "cache s' 2 = disk s 2" using s'(4) n(4) by simp_all
  have "free_set s' = {nextbno t..<1024}"
  proof (intro set_eqI)
    fix b
    show "b \<in> free_set s' \<longleftrightarrow> b \<in> {nextbno t..<1024}"
    proof (cases "b < 1024")
      case True
      then have "b div BIT2BLK = 0" by simp
      then show ?thesis using bm[OF True] True c n(1) by (simp add: free_set_def freeb_def nblk_def numeral_2_eq_2)
    qed (use c n(1) in \<open>simp add: free_set_def nblk_def\<close>)
  qed
  then show ?thesis using t(1) s' by blast
qed

text \<open>A file of three bytes and a directory with an empty file.\<close>

definition demo_args :: "(u8 list \<times> hnode) list" where
  "demo_args = [([47, 97], HFile [1, 2, 3]), ([100], HDir [([98], HFile [])])]"

lemma demo_args_ok: "args_ok demo_args" "3 + entries_cost demo_args \<le> NBLOCK"
  by (simp_all add: demo_args_def last_name_def good_name_def nblocks_def NBLOCK_def)

theorem fsformat_blocks_witness:
  "\<exists>d. fsformat False demo_args = Ret d \<and> d 1 1 = 1024 \<and> \<not> bit (d 2 0) 2 \<and> bit (d 2 31) 31"
proof -
  obtain s d where d: "fsformat False demo_args = Ret d" "d 1 1 = 1024" "nextbno s \<le> 3 + entries_cost demo_args" "full_blocks s"
    "\<forall>b < NBLOCK. bit (d 2 (b div 32)) (b mod 32) \<longleftrightarrow> nextbno s \<le> b" using fsformat_blocks[OF demo_args_ok] by blast
  have "nextbno s \<le> 1023" using d(3) by (simp add: demo_args_def nblocks_def)
  then show ?thesis using d(1,2,4) d(5)[rule_format, of 2] d(5)[rule_format, of 1023] by (auto simp: NBLOCK_def full_blocks_def)
qed

theorem fsformat_holds_witness:
  "\<exists>s f. write_args demo_args init_disk = Ret s \<and> in_dir s Root f \<and> name_byte_at s f 0 = 97 \<and> unat (fld s f 32) = 3 \<and> file_byte_at s f 1 = 2"
proof -
  have "([47, 97], HFile [1, 2, 3]) \<in> set demo_args" "HFile [1, 2, 3] \<noteq> HNoDir" by (simp_all add: demo_args_def)
  from fsformat_holds[OF demo_args_ok this] obtain s f where f: "write_args demo_args init_disk = Ret s" "in_dir s Root f"
    "name_is s f (take 127 (arg_name [47, 97] (HFile [1, 2, 3])))" "holds s UNIV f (HFile [1, 2, 3])" by blast
  have "arg_name [47, 97] (HFile [1, 2, 3]) = [97]" by (simp add: arg_name_def last_name_def)
  then have "name_byte_at s f 0 = 97" using f(3) by (simp add: name_is_def)
  moreover have "unat (fld s f 32) = 3 \<and> file_byte_at s f 1 = 2" using f(4) by (cases rule: holds.cases) auto
  ultimately show ?thesis using f(1,2) by blast
qed

theorem fsformat_mounts_witness:
  "\<exists>d s'. fsformat False demo_args = Ret d \<and> fs_init (demo_disk_only\<lparr>disk := d\<rparr>) = Ret s' \<and> fs_ok s' \<and> 1023 \<in> free_set s'"
proof -
  obtain t d where d: "write_args demo_args init_disk = Ret t" "fsformat False demo_args = Ret d" "nextbno t \<le> 3 + entries_cost demo_args"
    by (rule fsformat_ok[OF demo_args_ok])
  have f: "\<not> super (demo_disk_only\<lparr>disk := d\<rparr>)" "\<not> bitmap (demo_disk_only\<lparr>disk := d\<rparr>)" "\<forall>b. \<not> mapped (demo_disk_only\<lparr>disk := d\<rparr>) b"
    "grants (demo_disk_only\<lparr>disk := d\<rparr>) = replicate 4 True @ []" "fsformat False demo_args = Ret (disk (demo_disk_only\<lparr>disk := d\<rparr>))"
    using d by (simp_all add: demo_disk_only_def)
  have "nextbno t \<le> 1023" using d(3) by (simp add: demo_args_def nblocks_def)
  then show ?thesis using fsformat_mounts[OF demo_args_ok f(5) f(1-4)] d(1,2) by auto
qed

section \<open>Byte order\<close>

lemma reverse_bit:
  assumes "n < 8" "k < 4"
  shows "bit (reverse y) (8 * k + n) \<longleftrightarrow> bit y (8 * (3 - k) + n)"
proof -
  have m: "(0xFF :: u32) = mask 8" by (simp add: mask_eq_exp_minus_1)
  have "k = 0 \<or> k = 1 \<or> k = 2 \<or> k = 3" using assms(2) by auto
  then show ?thesis
    using assms(1) unfolding reverse_def m bit_or_iff bit_push_bit_iff bit_and_iff bit_mask_iff bit_drop_bit_eq o_def
    by (elim disjE) simp_all
qed

lemma reverse_reverse: "reverse (reverse y) = y"
proof (rule bit_word_eqI)
  fix n assume "n < LENGTH(32)"
  then have n: "n div 8 < 4" "n = 8 * (n div 8) + n mod 8" "n mod 8 < 8" by auto
  have "3 - n div 8 < 4" "3 - (3 - n div 8) = n div 8" using n(1) by auto
  then show "bit (reverse (reverse y)) n = bit y n"
    using reverse_bit[OF n(3,1), of "reverse y"] reverse_bit[OF n(3), of "3 - n div 8" y] n(2) by simp
qed

lemma reverse_words_at: "distinct ks \<Longrightarrow> reverse_words ks b k = (if k \<in> set ks then reverse (b k) else b k)"
  unfolding reverse_words_def by (induction ks arbitrary: b) auto

lemma reverse_words_twice: "distinct ks \<Longrightarrow> reverse_words ks (reverse_words ks b) = b"
  by (simp add: fun_eq_iff reverse_words_at reverse_reverse)

lemma file_numbers_at: "k \<in> set (file_numbers o') \<longleftrightarrow> o' + 32 \<le> k \<and> k < o' + 45"
  by (auto simp: file_numbers_def image_iff intro: bexI[of _ "k - (o' + 32)"])

lemma distinct_numbers: "distinct (file_numbers o')"
  by (simp add: file_numbers_def distinct_map inj_on_def)

definition live_numbers :: "nat list \<Rightarrow> block \<Rightarrow> nat list" where
  "live_numbers is b = concat (map (\<lambda>i. file_numbers (64 * i)) (takeWhile (\<lambda>i. word_byte (b (64 * i)) 0 \<noteq> 0) is))"

lemma name_word: "64 * i \<notin> set (file_numbers (64 * j))"
proof
  assume "64 * i \<in> set (file_numbers (64 * j))"
  then have "64 * j + 32 \<le> 64 * i" "64 * i < 64 * j + 45" by (simp_all add: file_numbers_at)
  then have "j < i" "i \<le> j" by auto
  then show False by simp
qed

lemma distinct_live: "distinct is \<Longrightarrow> distinct (live_numbers is b)"
proof -
  assume d: "distinct is"
  have "distinct (concat (map (\<lambda>i. file_numbers (64 * i)) xs))" if "distinct xs" for xs
    using that
  proof (induction xs)
    case (Cons i xs)
    have nb: "\<not> (64 * i + 32 \<le> k \<and> k < 64 * i + 45 \<and> 64 * j + 32 \<le> k \<and> k < 64 * j + 45)" if "j \<noteq> i" for j k :: nat
      using that by (cases "j < i") auto
    have "set (file_numbers (64 * i)) \<inter> set (file_numbers (64 * j)) = {}" if "j \<in> set xs" for j
    proof -
      have "j \<noteq> i" using that Cons.prems by auto
      from nb[OF this] show ?thesis by (auto simp: file_numbers_at)
    qed
    then show ?case using Cons by (auto simp: distinct_numbers)
  qed simp
  then show ?thesis using d by (simp add: live_numbers_def)
qed

lemma reverse_files_words: "reverse_files is b = reverse_words (live_numbers is b) b"
proof (induction "is" arbitrary: b)
  case (Cons i "is")
  let ?b = "reverse_words (file_numbers (64 * i)) b"
  have "?b (64 * j) = b (64 * j)" for j using reverse_words_at[OF distinct_numbers] name_word by simp
  then have "live_numbers is ?b = live_numbers is b" by (simp add: live_numbers_def)
  then show ?case using Cons[of ?b] by (simp add: live_numbers_def reverse_words_def)
qed (simp add: live_numbers_def reverse_words_def)

text \<open>
  The change of byte order for a big endian target loses nothing: applied twice to a block of any type it
  gives the block back, although it stops at the first unused entry of a directory block.
\<close>

theorem reverse_block_twice: "reverse_block ty (reverse_block ty b) = b"
proof -
  have "distinct ([0, 1] @ file_numbers 2)" by (simp add: distinct_numbers file_numbers_at)
  note s = reverse_words_twice[OF this, of b] and w = reverse_words_twice[OF distinct_upt, of 0 1024 b]
  let ?r = "reverse_words (live_numbers [0..<FILE2BLK] b) b"
  have "64 * i \<notin> set (live_numbers [0..<FILE2BLK] b)" for i using name_word by (auto simp: live_numbers_def)
  then have "?r (64 * i) = b (64 * i)" for i by (simp add: reverse_words_at[OF distinct_live])
  then have "live_numbers [0..<FILE2BLK] ?r = live_numbers [0..<FILE2BLK] b" by (simp add: live_numbers_def)
  then have "reverse_files [0..<FILE2BLK] (reverse_files [0..<FILE2BLK] b) = b"
    using reverse_words_twice[OF distinct_live[of "[0..<FILE2BLK]" b], of b] by (simp add: reverse_files_words)
  then show ?thesis using s w by (simp add: reverse_block_def)
qed

end
