(* ===== verification/Spec2Isabelle.thy ===== *)
theory Spec2Isabelle
  imports IpcProps Serv PipeFd Ide Cow Repl ProgramsProps Spawn FsformatProps
begin

text \<open>
  A verification of MOS, the teaching kernel of this repository: a MIPS R3000 (little endian) kernel
  in C with paging, environments, system calls and message passing, and on top of it in user space
  fork with copy on write, a file system server, file descriptors, pipes, program loading and a shell; and the
  tool that builds its disk image.

  \<^bold>\<open>The program and its parts.\<close> The kernel (\<^verbatim>\<open>kern/\<close>, \<^verbatim>\<open>include/\<close>, \<^verbatim>\<open>lib/\<close>) is entered by exceptions: timer
  interrupts call \<open>schedule\<close>, TLB misses \<open>do_tlb_refill\<close>, writes to read-only pages \<open>do_tlb_mod\<close>, system
  calls \<open>do_syscall\<close>. Their shared state is physical memory with its reference counts, the page
  tables in it, the TLB, the table of environments and the scheduling queue. The file system server
  (\<^verbatim>\<open>fs/\<close>) is an environment that serves requests received by IPC and reads and writes the disk through
  two system calls. User programs (\<^verbatim>\<open>user/\<close>) share a library with \<open>fork\<close>, descriptors and pipes.

  \<^bold>\<open>Conventions.\<close> Integers of C have their width: \<open>u32\<close>, \<open>u16\<close> and \<open>u8\<close> are words that wrap around, indices of
  arrays and numbers of pages are \<open>nat\<close>, \<open>int\<close> results that are 0 or a negative error code are \<open>int\<close>. A function
  returns \<open>'a res\<close>: \<open>Ret x\<close>; \<open>Panic m\<close> for a call of \<open>panic\<close> or a failed assertion; \<open>Fault m\<close> for undefined
  behaviour (a NULL or dangling pointer, an index outside its array). \<open>rbind\<close> sequences. Loops that may
  not end are \<open>partial_function (option)\<close>, where \<open>None\<close> is not returning. A \<open>struct\<close> is a record, a global a
  field of the record of its component's state. Definitions keep the names of the source.

  \<^bold>\<open>Theories, in the order of the code.\<close>

  \<^item> \<open>Prelude\<close>: types, error codes and the macros of \<^verbatim>\<open>include/types.h\<close>, \<^verbatim>\<open>include/error.h\<close>, \<^verbatim>\<open>include/mmu.h\<close>; the result
    type; the collections \<open>res_simps\<close> and \<open>mmu_defs\<close>.
  \<^item> \<open>Queue\<close>: the macros of \<^verbatim>\<open>include/queue.h\<close> on explicit links (\<open>le_next\<close>, \<open>le_prev\<close> as a pointer to a slot).
    \<open>list_rep\<close> and \<open>tailq_rep\<close> say which list the links hold; the locales \<open>free_list\<close> and \<open>tail_queue\<close> state what
    the clients need and are interpreted on the macros (\<open>ll\<close>, \<open>tq\<close>).
  \<^item> \<open>Pmap\<close>: \<^verbatim>\<open>kern/pmap.c\<close>, with \<open>tlb_out\<close> of \<^verbatim>\<open>kern/tlb_asm.S\<close>. Physical memory is words by page and index, so
    page directories and tables are ordinary memory. \<open>PmapInv\<close>: the invariant \<open>pm_inv\<close> (for a set of
    directories, the reference count of each page is the number of entries that map it plus what
    others hold; free pages are unreferenced and form the free list) and the step lemmas; the locale
    \<open>addr_space\<close> states page insertion and removal as an update of a map from virtual pages to entries
    and is interpreted on \<open>page_insert\<close> and \<open>page_remove\<close> (\<open>pgs\<close>). \<open>PmapProps\<close>: the contracts. \<open>PmapFrame\<close>: the
    words that \<open>page_insert\<close> does not write. \<open>PmapLeak\<close>: the pages without a reference that are not on the free list
    (\<open>lost_pages\<close>). \<open>PmapDirs\<close>: creating and destroying address spaces.
  \<^item> \<open>Strings\<close>, \<open>Print\<close>, \<open>Elf\<close>: \<^verbatim>\<open>lib/string.c\<close> (with the word-wise paths of \<open>memcpy\<close> and \<open>memset\<close>), \<^verbatim>\<open>lib/print.c\<close>,
    \<^verbatim>\<open>lib/elfloader.c\<close>.
  \<^item> \<open>Env\<close>, \<open>Sched\<close>: \<^verbatim>\<open>kern/env.c\<close> and \<^verbatim>\<open>kern/sched.c\<close> on the record \<open>kern\<close>, which extends that of \<open>Pmap\<close>. \<open>KernInv\<close>:
    the invariant \<open>kern_inv\<close>: \<open>pm_inv\<close> for the directories of the live environments, distinct directories
    and ASIDs, the free list and the scheduling queue exactly the free and the runnable
    environments. Every operation is shown to keep it. \<open>EnvProps\<close>: creation, freeing, status, scheduling
    (a refinement of round robin on a list, and fairness).
  \<^item> \<open>Syscall\<close>, \<open>EnvValue\<close>: \<^verbatim>\<open>kern/syscall_all.c\<close>, every system call and the dispatcher. A call returns \<open>Back r\<close>, or
    does not return to its caller (\<open>Gone\<close>: another environment runs). \<open>SyscallProps\<close>, \<open>IpcProps\<close>: what they promise, on every branch of the
    calls for memory; \<open>env_named\<close> and \<open>env_target\<close> are the environment that an identifier names, without and with the check of
    permission, \<open>calm\<close> says that nothing outside physical memory and no contents of mapped pages change. \<open>Tlbex\<close>:
    \<^verbatim>\<open>kern/tlbex.c\<close>; the loop of \<open>do_tlb_refill\<close> has fuel 2, and \<open>tlb_refill_correct\<close> shows that two rounds are
    enough: the second finds the page that the first allocated.
  \<^item> \<open>UserMem\<close>, \<open>Fork\<close>, \<open>Cow\<close>: \<^verbatim>\<open>user/lib/fork.c\<close> on the model of the kernel. User programs read page table
    entries through the self-mapping of the directory (\<open>uload\<close>), and call the system calls of \<open>Syscall\<close>.
  \<^item> \<open>Fs\<close>: \<^verbatim>\<open>fs/fs.c\<close> on a block cache that is addressed by words, so that files, directories and block
    pointers alias as in C; the system calls on cache pages succeed or fail as a list \<open>grants\<close> says.
    \<open>FsProps\<close>: the bitmap as a set of free blocks, write-back, \<open>fs_init\<close>. \<open>FsFiles\<close>: path names, the block map
    of a file, directories. \<open>Serv\<close>: \<^verbatim>\<open>fs/serv.c\<close>. \<open>Ide\<close>: \<^verbatim>\<open>fs/ide.c\<close> on a device given as a parameter with its
    documented behaviour (\<open>disk_contract\<close>, met by the concrete \<open>ram_dev\<close>).
  \<^item> \<open>Fd\<close>, \<open>FdProps\<close>: \<^verbatim>\<open>user/lib/fd.c\<close> and \<^verbatim>\<open>user/lib/console.c\<close> on the page table of one environment; the locale
    \<open>byte_source\<close> is the contract of a device that is read, interpreted on the console (\<open>cons\<close>). \<open>Pipe\<close>:
    \<open>pipe_read\<close>, \<open>pipe_write\<close> and \<open>_pipe_is_closed\<close> of \<^verbatim>\<open>user/lib/pipe.c\<close> as steps that interleave. \<open>PipeFd\<close>: creation
    and closing of pipes.
  \<^item> \<open>Token\<close>, \<open>Shell\<close>: \<^verbatim>\<open>user/sh.c\<close>: the tokenizer, which cuts the line in place, and the interpreter, whose
    result is a tree of processes with the calls of each, equal to what a reference interpreter (\<open>meaning\<close>, \<open>outcome\<close>) reads
    off the tokens. \<open>Edit\<close>: its line editor and history, on buffers of
    bytes. \<open>Repl\<close>: one round of its loop, which composes the three.
  \<^item> \<open>Path\<close>, \<open>File\<close>, \<open>FileProps\<close>: \<^verbatim>\<open>user/lib/path.c\<close>, \<^verbatim>\<open>user/lib/fsipc.c\<close> and \<^verbatim>\<open>user/lib/file.c\<close>: the client of the file
    system together with the server of \<open>Serv\<close>. \<open>holds\<close> says which physical page is a block of the cache, a
    \<open>struct Filefd\<close> or memory of the client, and a request is one round of the server's loop.
  \<^item> \<open>Loader\<close>: what \<open>load_icode\<close> of \<^verbatim>\<open>kern/env.c\<close> achieves with \<open>elf_load_seg\<close>. The locale \<open>page_mapper\<close> is the contract of the
    callback that maps a page and stores bytes in it; under it a segment is loaded. It is interpreted on the
    mapper of the kernel (\<open>kl\<close>) and, in \<open>SpawnMap\<close>, on the one of \<^verbatim>\<open>user/lib/spawn.c\<close> (\<open>sm\<close>).
  \<^item> \<open>UserPage\<close>: loads and stores in a page that a program may write. \<open>SpawnStack\<close>, \<open>SpawnMap\<close>, \<open>Spawn\<close>: \<^verbatim>\<open>user/lib/spawn.c\<close>, whose
    state is the kernel and, for the file of the program, the client of the file system.
  \<^item> \<open>Debugf\<close>: \<^verbatim>\<open>user/lib/debugf.c\<close> on the model of the kernel, its buffer in user memory. \<open>vprintfmt_agree\<close> transfers
    what the formatter does between sinks. \<open>Fprintf\<close>: \<^verbatim>\<open>user/lib/fprintf.c\<close>; the locale \<open>byte_sink\<close> is the contract of a
    descriptor that is written, interpreted on the console (\<open>con\<close>) and on open files (\<open>fil\<close>).
  \<^item> \<open>Programs\<close>, \<open>DirPrograms\<close>, \<open>ProgramsProps\<close>: the small programs of \<^verbatim>\<open>user/\<close> (\<open>cat\<close>, \<open>num\<close>, \<open>echo\<close>, \<open>grep\<close>, \<open>ls\<close>, \<open>tree\<close>, \<open>find\<close>, \<open>rm\<close>
    and others) and the option parser of \<^verbatim>\<open>include/args.h\<close>, on the client of the file system and \<open>printf\<close>.
  \<^item> \<open>Fsformat\<close>, \<open>FsformatProps\<close>: \<^verbatim>\<open>tools/fsformat.c\<close>, which builds the disk image. The files of the build machine are a tree
    \<open>hnode\<close>; a pointer to a \<open>struct File\<close> is a \<open>loc\<close> (the root in the super block, or an entry of a block).

  \<^bold>\<open>What is shown.\<close> Page tables: \<open>page_alloc\<close>, \<open>page_insert\<close>, \<open>page_remove\<close> and \<open>page_init\<close> meet their contracts and
  the TLB never holds an entry that the page tables do not. System calls: each changes exactly the
  mapping, environment or queue it names and keeps \<open>kern_inv\<close>; the two places where a failing call loses a page (\<open>sys_mem_alloc\<close>
  without a page for a page table, \<open>sys_exofork\<close> without an ASID) are stated exactly. User space: \<open>fork\<close> gives the child the
  parent's memory, and a write after it is invisible to everybody else. Scheduling is round robin
  and fair. File system: the free set and the contents of blocks behave as a store with write-back,
  path names are followed as lists of components, files that are created are found, and the server answers every
  request as often as it is due (twice for an open when its table is full). Pipes are bounded
  queues under every interleaving of one reader and one writer, and a pipe that is reported closed stays closed. A file that is opened reads as its
  blocks, and what is written to it is what every other client reads. The shell does what the tokens
  of the line mean, on the line that the editor shows. Programs are loaded byte for byte, by the kernel and by
  \<open>spawn\<close>, and their \<open>main\<close> finds its arguments. A new disk image holds the files it was made from, every block
  linked once and of the type of its place, and the server accepts it. What programs print reaches console and files as formatted; \<open>cat\<close>, \<open>grep\<close>
  and \<open>ls\<close> print the bytes, the matching lines and the entries of the file they read. Library routines: \<open>memcpy\<close> equals the byte-wise copy, \<open>%d\<close> prints what reads back.

  \<^bold>\<open>Bounds and hypotheses.\<close> A string that the kernel reads from user memory (\<open>ustr\<close>) has fuel \<open>2^32\<close>, the
  size of the address space. \<open>fork_correct\<close> assumes a free environment, a free ASID and a free page
  (otherwise \<open>sys_exofork\<close> fails, which the code does not test) and reference counts below the limit of
  16 bits; a child page may be missing only when memory is exhausted, since \<open>duppage\<close> does not test its
  calls either. \<open>cow_write_private\<close> assumes a free page. User code between two system calls is not
  interrupted in \<open>Fork\<close>, \<open>Cow\<close> and \<open>File\<close>; in \<open>Pipe\<close> it is, at every access of shared memory. The loop of append
  mode in \<open>open\<close> has one round for each byte of the file and one more as its fuel. \<open>open_read_correct\<close> assumes
  that the blocks of the file are in the cache (\<open>cached\<close>); \<open>sh_round_correct\<close> that the history fits its tables
  (\<open>hist_fits\<close>). \<open>load_icode_correct\<close> assumes two free pages for each page of a segment (itself and a page table),
  \<open>spawn_loads_segments\<close> three (one more table for the parent's \<open>UTEMP\<close>), and both that segments lie in the image and in
  user space and do not share pages; \<open>init_stack\<close> succeeds with three free pages. \<open>runcmd_correct\<close> assumes that no variable has a value longer
  than its name, over which it is copied; \<open>grep_prints\<close> that lines fit the buffer of 512 bytes. The properties of \<open>fsformat\<close> bound
  the tree by the blocks it needs (\<open>entries_cost\<close>), since \<open>next_block\<close> does not. The invariants hold in
  the small concrete systems that the witnesses of the properties evaluate.

  \<^bold>\<open>Not modelled.\<close> Assembly entry points and the boot sequence (\<^verbatim>\<open>kern/genex.S\<close>, \<^verbatim>\<open>kern/entry.S\<close>,
  \<^verbatim>\<open>init/init.c\<close>): register saving below the level of trap frames. The console device and \<open>panic\<close>
  (\<^verbatim>\<open>kern/console.c\<close>, \<^verbatim>\<open>kern/panic.c\<close>): output is a log, a panic a result. Self-checks in the kernel sources
  (\<open>page_check\<close>, \<open>env_check\<close>, \<open>fs_check\<close>) are tests. The other tools of the build machine
  (\<^verbatim>\<open>tools/readelf\<close>, \<^verbatim>\<open>tools/bintoc.c\<close>) do not touch the system. Of the user programs
  \<^verbatim>\<open>declare.c\<close> and those that start or stop the system are left out. The kernel
  and the client of the file system in \<open>Spawn\<close> share no state: descriptor pages that a child inherits are
  pages of the kernel model there.
\<close>

end
